(* ===== verification/Aram_Prelude.thy ===== *)
theory Aram_Prelude
  imports Main "HOL-Library.Word"
begin

text \<open>
  Shared vocabulary of the development: the fixed-width integer types of the Go
  sources, the result of an operation that may fail after having changed its
  state, byte slices, the little-endian codecs of encoding/binary, the rotation
  of math/bits and the binary search of package sort, with the lemmas about them
  that the components use.  The named theorem collections \<open>go_simps\<close> (unfolding
  of standard-library functions) and \<open>le_simps\<close> (byte-codec round trips) carry
  the component proofs.
\<close>

unbundle bit_operations_syntax

type_synonym u8 = "8 word"
type_synonym u16 = "16 word"
type_synonym u32 = "32 word"
type_synonym u64 = "64 word"

named_theorems go_simps
named_theorems le_simps

subsection \<open>Operations that can fail after changing their state\<close>

text \<open>
  A Go method that returns an error leaves the receiver in whatever state it had
  reached.  A result is therefore the pair of a sum (\<open>Inl\<close> the error) and the
  state in both cases; \<open>and_then\<close> is the \<open>if err != nil { return err }\<close> idiom.
\<close>

type_synonym ('e, 'a, 's) outcome = "('e + 'a) \<times> 's"

definition and_then ::
  "('e, 'a, 's) outcome \<Rightarrow> ('a \<Rightarrow> 's \<Rightarrow> ('e, 'b, 's) outcome) \<Rightarrow> ('e, 'b, 's) outcome" where
  "and_then r k = (case fst r of Inl e \<Rightarrow> (Inl e, snd r) | Inr v \<Rightarrow> k v (snd r))"

lemma and_then_Inl [simp]: "and_then (Inl e, s) k = (Inl e, s)"
  by (simp add: and_then_def)

lemma and_then_Inr [simp]: "and_then (Inr v, s) k = k v s"
  by (simp add: and_then_def)

lemma and_then_split:
  "P (and_then r k) \<longleftrightarrow>
     (\<forall>e s. r = (Inl e, s) \<longrightarrow> P (Inl e, s)) \<and> (\<forall>v s. r = (Inr v, s) \<longrightarrow> P (k v s))"
  by (cases r; cases "fst r") auto

lemma and_then_assoc:
  "and_then (and_then r k) h = and_then r (\<lambda>v s. and_then (k v s) h)"
  by (cases r; cases "fst r") auto

lemma and_then_return [simp]: "and_then r (\<lambda>v s. (Inr v, s)) = r"
  by (cases r; cases "fst r") auto

lemma and_then_InrD:
  assumes "and_then r k = (Inr w, s')"
  obtains v s where "r = (Inr v, s)" and "k v s = (Inr w, s')"
  using assms by (cases r; cases "fst r") auto

text \<open>A property of the state that holds whatever the outcome.\<close>

lemma and_then_state:
  assumes "I (snd r)" and "\<And>v s. r = (Inr v, s) \<Longrightarrow> I s \<Longrightarrow> I (snd (k v s))"
  shows "I (snd (and_then r k))"
  using assms by (cases r; cases "fst r") auto

subsection \<open>Byte slices\<close>

definition slice :: "'a list \<Rightarrow> nat \<Rightarrow> nat \<Rightarrow> 'a list" where
  "slice xs off n = take n (drop off xs)"

definition overwrite :: "'a list \<Rightarrow> nat \<Rightarrow> 'a list \<Rightarrow> 'a list" where
  "overwrite xs off ys = take off xs @ ys @ drop (off + length ys) xs"

lemma length_slice [simp]: "off + n \<le> length xs \<Longrightarrow> length (slice xs off n) = n"
  by (simp add: slice_def)

lemma nth_slice: "off + n \<le> length xs \<Longrightarrow> i < n \<Longrightarrow> slice xs off n ! i = xs ! (off + i)"
  by (simp add: slice_def)

lemma slice_eq_map: "off + n \<le> length xs \<Longrightarrow> slice xs off n = map (\<lambda>i. xs ! (off + i)) [0..<n]"
  by (rule nth_equalityI) (simp_all add: nth_slice)

lemma length_overwrite [simp]:
  "off + length ys \<le> length xs \<Longrightarrow> length (overwrite xs off ys) = length xs"
  by (simp add: overwrite_def)

lemma nth_overwrite:
  assumes "off + length ys \<le> length xs" and "i < length xs"
  shows "overwrite xs off ys ! i =
    (if off \<le> i \<and> i < off + length ys then ys ! (i - off) else xs ! i)"
proof -
  have "i - (off + length ys) + (off + length ys) = i" if "off + length ys \<le> i"
    using that by simp
  then show ?thesis using assms
    by (auto simp: overwrite_def nth_append min_def algebra_simps)
qed

lemma slice_overwrite_same:
  "off + length ys \<le> length xs \<Longrightarrow> slice (overwrite xs off ys) off (length ys) = ys"
  by (simp add: slice_def overwrite_def)

subsection \<open>Words\<close>

lemma unat_and_le: "unat ((x :: 'a::len word) AND m) \<le> unat m"
  by (simp add: word_and_le1 word_le_nat_alt [symmetric])

subsection \<open>encoding/binary, little endian\<close>

definition Uint16 :: "u8 list \<Rightarrow> u16" where
  "Uint16 bs = ucast (bs ! 0) OR push_bit 8 (ucast (bs ! 1))"

definition Uint32 :: "u8 list \<Rightarrow> u32" where
  "Uint32 bs = ucast (bs ! 0) OR push_bit 8 (ucast (bs ! 1)) OR
     push_bit 16 (ucast (bs ! 2)) OR push_bit 24 (ucast (bs ! 3))"

definition PutUint16 :: "u16 \<Rightarrow> u8 list" where
  "PutUint16 v = [ucast v, ucast (drop_bit 8 v)]"

definition PutUint32 :: "u32 \<Rightarrow> u8 list" where
  "PutUint32 v = [ucast v, ucast (drop_bit 8 v), ucast (drop_bit 16 v), ucast (drop_bit 24 v)]"

lemma length_PutUint16 [simp]: "length (PutUint16 v) = 2"
  by (simp add: PutUint16_def)

lemma length_PutUint32 [simp]: "length (PutUint32 v) = 4"
  by (simp add: PutUint32_def)

lemma Uint16_PutUint16 [simp, le_simps]: "Uint16 (PutUint16 v) = v"
  by (rule bit_word_eqI)
    (auto simp: Uint16_def PutUint16_def bit_or_iff bit_push_bit_iff bit_ucast_iff bit_drop_bit_eq)

lemma Uint32_PutUint32 [simp, le_simps]: "Uint32 (PutUint32 v) = v"
proof (rule bit_word_eqI)
  fix n assume "n < LENGTH(32)"
  then have "n < 8 \<or> 8 \<le> n \<and> n < 16 \<or> 16 \<le> n \<and> n < 24 \<or> 24 \<le> n \<and> n < 32" by auto
  then show "bit (Uint32 (PutUint32 v)) n = bit v n"
    by (auto simp: Uint32_def PutUint32_def bit_or_iff bit_push_bit_iff bit_ucast_iff
        bit_drop_bit_eq)
qed

subsection \<open>math/bits\<close>

definition RotateLeft32 :: "u32 \<Rightarrow> int \<Rightarrow> u32" where
  "RotateLeft32 x k = (let s = nat (k mod 32) in push_bit s x OR drop_bit (32 - s) x)"

definition OnesCount16 :: "u16 \<Rightarrow> nat" where
  "OnesCount16 x = length (filter (bit x) [0..<16])"

definition LeadingZeros32 :: "u32 \<Rightarrow> nat" where
  "LeadingZeros32 x = length (takeWhile (\<lambda>i. \<not> bit x i) (rev [0..<32]))"

subsection \<open>sort.Search\<close>

text \<open>The least index in \<open>[i, j)\<close> at which a monotone predicate holds, or \<open>j\<close>.\<close>

function Search_between :: "(nat \<Rightarrow> bool) \<Rightarrow> nat \<Rightarrow> nat \<Rightarrow> nat" where
  "Search_between f i j =
     (if i < j
      then (let h = (i + j) div 2 in
            if \<not> f h then Search_between f (h + 1) j else Search_between f i h)
      else i)"
  by pat_completeness auto
termination
  by (relation "measure (\<lambda>(f, i, j). j - i)") (auto simp: Let_def)

declare Search_between.simps [simp del]

definition Search :: "nat \<Rightarrow> (nat \<Rightarrow> bool) \<Rightarrow> nat" where
  "Search n f = Search_between f 0 n"

lemma Search_between_done: "\<not> i < j \<Longrightarrow> Search_between f i j = i"
  by (subst Search_between.simps) simp

lemma Search_between_right:
  "i < j \<Longrightarrow> \<not> f ((i + j) div 2) \<Longrightarrow>
     Search_between f i j = Search_between f ((i + j) div 2 + 1) j"
  by (subst Search_between.simps) (simp add: Let_def)

lemma Search_between_left:
  "i < j \<Longrightarrow> f ((i + j) div 2) \<Longrightarrow> Search_between f i j = Search_between f i ((i + j) div 2)"
  by (subst Search_between.simps) (simp add: Let_def)

definition least_between :: "(nat \<Rightarrow> bool) \<Rightarrow> nat \<Rightarrow> nat \<Rightarrow> nat \<Rightarrow> bool" where
  "least_between f i j r \<longleftrightarrow> i \<le> r \<and> r \<le> j \<and> (\<forall>k. i \<le> k \<and> k < r \<longrightarrow> \<not> f k) \<and> (r < j \<longrightarrow> f r)"

lemma least_between_extend_left:
  assumes "least_between f (h + 1) j r" and "\<And>k. i \<le> k \<Longrightarrow> k \<le> h \<Longrightarrow> \<not> f k" and "i \<le> h"
  shows "least_between f i j r"
proof -
  have "\<not> f k" if "i \<le> k" "k < r" for k
    using assms(1,2) that by (cases "k \<le> h") (auto simp: least_between_def)
  with assms(1,3) show ?thesis by (auto simp: least_between_def)
qed

lemma least_between_extend_right:
  assumes "least_between f i h r" and "f h" and "h < j"
  shows "least_between f i j r"
proof -
  have "f r" using assms by (cases "r < h") (auto simp: least_between_def)
  with assms(1,3) show ?thesis by (auto simp: least_between_def)
qed

lemma Search_between_least:
  assumes "i \<le> j" and "\<And>k l. i \<le> k \<Longrightarrow> k \<le> l \<Longrightarrow> l < j \<Longrightarrow> f k \<Longrightarrow> f l"
  shows "least_between f i j (Search_between f i j)"
  using assms
proof (induction f i j rule: Search_between.induct)
  case (1 f i j)
  note mono = "1.prems"(2)
  define h where "h = (i + j) div 2"
  consider "\<not> i < j" | "i < j" "\<not> f h" | "i < j" "f h" by blast
  then show ?case
  proof cases
    case 1
    with "1.prems"(1) show ?thesis by (auto simp: Search_between_done least_between_def)
  next
    case 2
    then have h: "i \<le> h" "h < j" by (auto simp: h_def)
    have below: "\<not> f k" if "i \<le> k" "k \<le> h" for k
      using mono [OF that h(2)] 2(2) by blast
    have "least_between f (h + 1) j (Search_between f (h + 1) j)"
    proof (rule "1.IH"(1) [OF 2(1) h_def 2(2)])
      show "h + 1 \<le> j" using h by simp
      show "f l" if "h + 1 \<le> k" "k \<le> l" "l < j" "f k" for k l
        by (rule mono [OF _ that(2-4)]) (use h that(1) in linarith)
    qed
    then have "least_between f i j (Search_between f (h + 1) j)"
      using below h(1) by (rule least_between_extend_left)
    with 2 show ?thesis by (simp add: Search_between_right h_def)
  next
    case 3
    then have h: "i \<le> h" "h < j" by (auto simp: h_def)
    have "least_between f i h (Search_between f i h)"
    proof (rule "1.IH"(2) [OF 3(1) h_def])
      show "\<not> \<not> f h" using 3(2) by simp
      show "i \<le> h" using h by simp
      show "f l" if "i \<le> k" "k \<le> l" "l < h" "f k" for k l
        by (rule mono [OF that(1,2) _ that(4)]) (use h that(3) in linarith)
    qed
    then have "least_between f i j (Search_between f i h)"
      using 3(2) h(2) by (rule least_between_extend_right)
    with 3 show ?thesis by (simp add: Search_between_left h_def)
  qed
qed

lemma Search_least:
  assumes "\<And>k l. k \<le> l \<Longrightarrow> l < n \<Longrightarrow> f k \<Longrightarrow> f l"
  shows "Search n f \<le> n" and "k < Search n f \<Longrightarrow> \<not> f k" and "Search n f < n \<Longrightarrow> f (Search n f)"
  using Search_between_least [of 0 n f] assms by (auto simp: Search_def least_between_def)

subsection \<open>Diagnostic rings\<close>

text \<open>
  Three histories of the backend (program counters, control accesses, prefetches)
  are a slice used as a ring and a 64-bit count of the entries ever recorded.
\<close>

definition ringPut :: "'a list \<Rightarrow> u64 \<Rightarrow> 'a \<Rightarrow> 'a list \<times> u64" where
  "ringPut ring nxt x =
     (if ring = [] then (ring, nxt) else (ring[unat nxt mod length ring := x], nxt + 1))"

definition ringRead :: "'a list \<Rightarrow> u64 \<Rightarrow> 'a list" where
  "ringRead ring nxt =
     (let count = min (unat nxt) (length ring); start = unat nxt - count in
      map (\<lambda>i. ring ! ((start + i) mod length ring)) [0..<count])"

end
