(* ===== verification/Cpu_Contract.thy ===== *)
theory Cpu_Contract
  imports Aram_Prelude
begin

text \<open>
  The backend-neutral CPU contract of src/cpu/backend.go: errors, access
  permissions, architectural register numbers, execution modes, stop reasons,
  run results, the physical memory bus, execution traps, interrupt lines and the
  batched register commit of a host call.
\<close>

subsection \<open>Errors\<close>

text \<open>
  An error value is identified by the sentinel it wraps (what \<open>errors.Is\<close> and
  \<open>errors.As\<close> see); the formatted text around it is dropped.  \<open>ErrMMU\<close> carries
  the fault record of the memory-management unit (mmu.go), \<open>ErrBus\<close> an error of
  an attached physical bus together with its \<open>ExternalAbort\<close> answer, \<open>ErrContext\<close>
  the cancellation of the caller's context, and \<open>ErrText\<close> an error that wraps
  nothing.
\<close>

datatype mmuFaultKind = mmuTranslationFault | mmuDomainFault | mmuPermissionFault | mmuExternalFault

record MMUFault =
  fault_Address :: u32
  fault_Domain :: u8
  fault_Status :: u8
  fault_Permission :: u8
  fault_kind :: mmuFaultKind

datatype cpu_error =
    ErrInvalidAddress
  | ErrInvalidMapping
  | ErrPermissionDenied
  | ErrUnsupportedInstruction
  | ErrExecutionContextUnavailable
  | ErrStopped
  | ErrClosed
  | ErrMMU MMUFault
  | ErrBus bool
  | ErrContext
  | ErrText string

subsection \<open>Permissions\<close>

type_synonym Permissions = u8

definition PermissionRead :: Permissions where "PermissionRead = 1"
definition PermissionWrite :: Permissions where "PermissionWrite = 2"
definition PermissionExecute :: Permissions where "PermissionExecute = 4"

definition Permissions_Valid :: "Permissions \<Rightarrow> bool" where
  "Permissions_Valid p \<longleftrightarrow>
     p \<noteq> 0 \<and> p AND NOT (PermissionRead OR PermissionWrite OR PermissionExecute) = 0"

lemmas permission_defs = PermissionRead_def PermissionWrite_def PermissionExecute_def

subsection \<open>Registers and modes\<close>

definition RegisterR0 :: u32 where "RegisterR0 = 0"
definition RegisterR1 :: u32 where "RegisterR1 = 1"
definition RegisterR8 :: u32 where "RegisterR8 = 8"
definition RegisterSP :: u32 where "RegisterSP = 13"
definition RegisterLR :: u32 where "RegisterLR = 14"
definition RegisterPC :: u32 where "RegisterPC = 15"
definition RegisterCPSR :: u32 where "RegisterCPSR = 16"

lemmas register_defs = RegisterR0_def RegisterR1_def RegisterR8_def RegisterSP_def
  RegisterLR_def RegisterPC_def RegisterCPSR_def

definition StatusThumb :: u32 where "StatusThumb = 0x20"

datatype Mode = ModeARM | ModeThumb

datatype StopReason =
    StopRequested | StopBreakpoint | StopFault | StopBudget | StopExited | StopExecutionTrap

record Result =
  Reason :: StopReason
  Instructions :: nat
  result_PC :: u32
  result_Err :: "cpu_error option"

subsection \<open>The physical memory bus\<close>

text \<open>
  A bus is an object behind an interface: each call returns the answer and the
  object as the call left it.  A read fills the caller's buffer, so a successful
  answer is a function from buffer positions to bytes.
\<close>

codatatype MemoryBus =
  MemoryBus
    (bus_Read: "u32 \<Rightarrow> nat \<Rightarrow> Permissions \<Rightarrow> (cpu_error + (nat \<Rightarrow> u8)) \<times> MemoryBus")
    (bus_Write: "u32 \<Rightarrow> u8 list \<Rightarrow> Permissions \<Rightarrow> cpu_error option \<times> MemoryBus")

subsection \<open>Execution traps and interrupt lines\<close>

record ExecutionTrap =
  trap_Address :: u32
  trap_Mode :: Mode

definition ExecutionTrap_Valid :: "ExecutionTrap \<Rightarrow> bool" where
  "ExecutionTrap_Valid t \<longleftrightarrow>
     (trap_Mode t \<noteq> ModeARM \<or> trap_Address t AND 3 = 0) \<and>
     (trap_Mode t \<noteq> ModeThumb \<or> trap_Address t AND 1 = 0)"

definition InterruptIRQ :: u8 where "InterruptIRQ = 0"
definition InterruptFIQ :: u8 where "InterruptFIQ = 1"

definition InterruptLine_Valid :: "u8 \<Rightarrow> bool" where
  "InterruptLine_Valid l \<longleftrightarrow> l = InterruptIRQ \<or> l = InterruptFIQ"

subsection \<open>Batched register commit of a host call\<close>

definition MaxHostCallWords :: u32 where "MaxHostCallWords = 64"

record RegisterCommit =
  commit_Values :: "u32 \<Rightarrow> u32"
  commit_Mask :: u32

definition RegisterCommit_Set ::
  "u32 \<Rightarrow> u32 \<Rightarrow> RegisterCommit \<Rightarrow> (cpu_error, unit, RegisterCommit) outcome" where
  "RegisterCommit_Set register v commit =
     (if 17 \<le> register then (Inl ErrInvalidAddress, commit)
      else (Inr (), commit\<lparr>commit_Values := (commit_Values commit)(register := v),
                           commit_Mask := commit_Mask commit OR push_bit (unat register) 1\<rparr>))"

end
