(* ===== verification/Cpu_State.thy ===== *)
theory Cpu_State
  imports Cpu_Contract
begin

text \<open>
  The state of the portable interpreter: the structures of
  src/cpu/interpreter/backend.go, cp15.go, privileged.go, mmu.go and
  instruction_cache.go, for the precise backend that \<open>New\<close>,
  \<open>NewWithMemoryLimit\<close> and \<open>NewWithCompatibility\<close> build.  That backend never
  allocates the translated-block maps, the native code arena or the native
  translation buffer, so those fields, nil throughout, are absent, and an attached
  bus implements \<open>MemoryBus\<close> alone, so the direct-memory windows are absent too.

  Go slices share their backing array: a mapped region, the cached data windows
  and the instruction-fetch window all alias it.  The arrays therefore live in a
  store (\<open>arrays\<close>), addressed by the number of the allocation, and regions and
  cache entries hold that number.
\<close>

subsection \<open>Regions and data windows\<close>

record region =
  region_address :: u32
  region_size :: u32
  region_permissions :: Permissions
  region_data :: nat

record dataRegionCache =
  cache_address :: u32
  cache_perms :: Permissions
  cache_data :: "nat option"

definition emptyDataCache :: dataRegionCache where
  "emptyDataCache = \<lparr>cache_address = 0, cache_perms = 0, cache_data = None\<rparr>"

subsection \<open>Deferred condition flags\<close>

record pendingFlags =
  flags_dirty :: bool
  flags_mask :: u32
  flags_bits :: u32

subsection \<open>Banked registers and system control\<close>

record bankedRegisters =
  bank_userHigh :: "u32 list"
  bank_userStackLink :: "u32 list"
  bank_fiq :: "u32 list"
  bank_irq :: "u32 list"
  bank_supervisor :: "u32 list"
  bank_abort :: "u32 list"
  bank_undefined :: "u32 list"

record savedProgramStatus =
  spsr_fiq :: u32
  spsr_irq :: u32
  spsr_supervisor :: u32
  spsr_abort :: u32
  spsr_undefined :: u32

record cp15State =
  cp15_control :: u32
  cp15_translationTableBase :: u32
  cp15_domainAccessControl :: u32
  cp15_dataFaultStatus :: u32
  cp15_instructionFaultStatus :: u32
  cp15_faultAddress :: u32
  cp15_processID :: u32

subsection \<open>Address translation and instruction cache\<close>

record mmuTranslation =
  tr_physicalBase :: u32
  tr_domain :: u8
  tr_access :: u8
  tr_page :: bool
  tr_cacheable :: bool

record mmuTLBEntry =
  tlb_translation :: mmuTranslation
  tlb_tag :: u32
  tlb_gen :: u32
  tlb_valid :: bool

record instructionCacheEntry =
  ic_line :: "u8 list"
  ic_tag :: u32
  ic_serial :: u64
  ic_gen :: u32
  ic_privileged :: bool
  ic_valid :: bool

definition emptyTranslation :: mmuTranslation where
  "emptyTranslation = \<lparr>tr_physicalBase = 0, tr_domain = 0, tr_access = 0,
     tr_page = False, tr_cacheable = False\<rparr>"

definition emptyTLBEntry :: mmuTLBEntry where
  "emptyTLBEntry = \<lparr>tlb_translation = emptyTranslation, tlb_tag = 0, tlb_gen = 0, tlb_valid = False\<rparr>"

definition emptyICEntry :: instructionCacheEntry where
  "emptyICEntry = \<lparr>ic_line = replicate 32 0, ic_tag = 0, ic_serial = 0, ic_gen = 0,
     ic_privileged = False, ic_valid = False\<rparr>"

subsection \<open>Diagnostics\<close>

record CP15ControlAccess =
  access_InstructionAddress :: u32
  access_Value :: u32
  access_Write :: bool

record InstructionCachePrefetchAccess =
  prefetch_InstructionAddress :: u32
  prefetch_ModifiedVirtualAddress :: u32

record PCRegisterCapture =
  capture_Address :: u32
  capture_Registers :: "u32 \<Rightarrow> u32"

record ExecutionStatistics =
  SerializedContextSaves :: u64
  SerializedContextRestores :: u64
  FastContextSaves :: u64
  FastContextRestores :: u64
  TranslationInvalidations :: u64
  HostFrameCaptures :: u64
  HostRegisterCommits :: u64
  HostCallReturnBatches :: u64

subsection \<open>The backend\<close>

record backend =
  arrays :: "nat \<Rightarrow> u8 list"
  arraysNext :: nat
  regions :: "region list"
  regionHints :: "nat \<Rightarrow> nat"
  executeAddress :: u32
  executeData :: "nat option"
  privateDataCache :: "u32 \<Rightarrow> dataRegionCache"
  regs :: "u32 \<Rightarrow> u32"
  flags :: pendingFlags
  mode :: Mode
  stopped :: bool
  closed :: bool
  physicalAccess :: bool
  userSystemSPSRReadAsCPSR :: bool
  mapped :: u64
  memoryLimit :: u64
  pcHits :: "(u32 \<Rightarrow> u64) option"
  systemBus :: "MemoryBus option"
  cp15 :: cp15State
  banks :: bankedRegisters
  spsr :: savedProgramStatus
  instructionAddress :: u32
  executionTraps :: "ExecutionTrap list"
  interruptLines :: u32
  instructionCacheTable :: "(u32 \<Rightarrow> instructionCacheEntry) option"
  instructionCacheSerial :: u64
  instructionWindow :: "u32 option"
  instructionWindowTag :: u32
  instructionWindowSerial :: u64
  mmuTLBTable :: "(u32 \<Rightarrow> mmuTLBEntry) option"
  mappingGen :: u32
  pcHistory :: "u32 list"
  pcHistoryNext :: u64
  pcCaptureAddress :: u32
  pcCaptureLimit :: u32
  pcRegisterCaptures :: "PCRegisterCapture list"
  cp15ControlHistory :: "CP15ControlAccess list"
  cp15ControlHistoryNext :: u64
  instructionPrefetchHistory :: "InstructionCachePrefetchAccess list"
  instructionPrefetchHistoryNext :: u64
  executionStatistics :: ExecutionStatistics

type_synonym 'a res = "(cpu_error, 'a, backend) outcome"

subsection \<open>Construction\<close>

definition zeroBanks :: bankedRegisters where
  "zeroBanks = \<lparr>bank_userHigh = replicate 5 0, bank_userStackLink = replicate 2 0,
     bank_fiq = replicate 7 0, bank_irq = replicate 2 0, bank_supervisor = replicate 2 0,
     bank_abort = replicate 2 0, bank_undefined = replicate 2 0\<rparr>"

definition zeroSPSR :: savedProgramStatus where
  "zeroSPSR = \<lparr>spsr_fiq = 0, spsr_irq = 0, spsr_supervisor = 0, spsr_abort = 0, spsr_undefined = 0\<rparr>"

definition zeroCP15 :: cp15State where
  "zeroCP15 = \<lparr>cp15_control = 0, cp15_translationTableBase = 0, cp15_domainAccessControl = 0,
     cp15_dataFaultStatus = 0, cp15_instructionFaultStatus = 0, cp15_faultAddress = 0,
     cp15_processID = 0\<rparr>"

definition zeroStatistics :: ExecutionStatistics where
  "zeroStatistics = \<lparr>SerializedContextSaves = 0, SerializedContextRestores = 0,
     FastContextSaves = 0, FastContextRestores = 0, TranslationInvalidations = 0,
     HostFrameCaptures = 0, HostRegisterCommits = 0, HostCallReturnBatches = 0\<rparr>"

definition noFlags :: pendingFlags where
  "noFlags = \<lparr>flags_dirty = False, flags_mask = 0, flags_bits = 0\<rparr>"

text \<open>
  \<open>NewWithMemoryLimit\<close>; the flag \<open>pc_trace\<close> is whether the environment variable
  \<open>ARAM_PC_TRACE\<close> is set, which arms the program-counter histogram.
\<close>

definition NewWithMemoryLimit :: "bool \<Rightarrow> u64 \<Rightarrow> backend" where
  "NewWithMemoryLimit pc_trace limit =
     \<lparr>arrays = (\<lambda>_. []), arraysNext = 0, regions = [], regionHints = (\<lambda>_. 0),
      executeAddress = 0, executeData = None, privateDataCache = (\<lambda>_. emptyDataCache),
      regs = (\<lambda>_. 0), flags = noFlags, mode = ModeARM, stopped = False, closed = False,
      physicalAccess = False, userSystemSPSRReadAsCPSR = False, mapped = 0, memoryLimit = limit,
      pcHits = (if pc_trace then Some (\<lambda>_. 0) else None), systemBus = None, cp15 = zeroCP15,
      banks = zeroBanks, spsr = zeroSPSR, instructionAddress = 0, executionTraps = [],
      interruptLines = 0, instructionCacheTable = None, instructionCacheSerial = 0,
      instructionWindow = None, instructionWindowTag = 0, instructionWindowSerial = 0,
      mmuTLBTable = None, mappingGen = 0, pcHistory = [], pcHistoryNext = 0,
      pcCaptureAddress = 0, pcCaptureLimit = 0, pcRegisterCaptures = [],
      cp15ControlHistory = [], cp15ControlHistoryNext = 0, instructionPrefetchHistory = [],
      instructionPrefetchHistoryNext = 0, executionStatistics = zeroStatistics\<rparr>"

definition DefaultMemoryLimit :: u64 where
  "DefaultMemoryLimit = 0x20000000"

definition New :: "bool \<Rightarrow> backend" where
  "New pc_trace = NewWithMemoryLimit pc_trace DefaultMemoryLimit"

definition NewWithCompatibility :: "bool \<Rightarrow> bool \<Rightarrow> backend" where
  "NewWithCompatibility pc_trace spsrReadAsCPSR =
     (NewWithMemoryLimit pc_trace DefaultMemoryLimit)\<lparr>userSystemSPSRReadAsCPSR := spsrReadAsCPSR\<rparr>"

subsection \<open>Routing\<close>

definition mmuEnabled :: "backend \<Rightarrow> bool" where
  "mmuEnabled b \<longleftrightarrow> cp15_control (cp15 b) AND 1 \<noteq> 0"

definition instructionCacheEnabled :: "backend \<Rightarrow> bool" where
  "instructionCacheEnabled b \<longleftrightarrow> cp15_control (cp15 b) AND push_bit 12 1 \<noteq> 0"

definition refreshPhysicalAccess :: "backend \<Rightarrow> backend" where
  "refreshPhysicalAccess b =
     b\<lparr>physicalAccess := systemBus b \<noteq> None \<or> mmuEnabled b \<or> instructionCacheEnabled b\<rparr>"

definition invalidateInstructionWindow :: "backend \<Rightarrow> backend" where
  "invalidateInstructionWindow b =
     b\<lparr>instructionWindow := None, instructionWindowTag := 0, instructionWindowSerial := 0\<rparr>"

definition clearDataCaches :: "backend \<Rightarrow> backend" where
  "clearDataCaches b = b\<lparr>privateDataCache := (\<lambda>_. emptyDataCache)\<rparr>"

text \<open>Without translated blocks, dropping translations only counts the request.\<close>

definition invalidateTranslations :: "backend \<Rightarrow> backend" where
  "invalidateTranslations b =
     b\<lparr>executionStatistics := (executionStatistics b)
        \<lparr>TranslationInvalidations := TranslationInvalidations (executionStatistics b) + 1\<rparr>\<rparr>"

definition invalidateTLB :: "backend \<Rightarrow> backend" where
  "invalidateTLB b =
     invalidateTranslations (invalidateInstructionWindow (b\<lparr>mappingGen := mappingGen b + 1\<rparr>))"

definition setCP15Control :: "u32 \<Rightarrow> backend \<Rightarrow> backend" where
  "setCP15Control v b =
     (let changed = (v \<noteq> cp15_control (cp15 b));
          b = b\<lparr>cp15 := (cp15 b)\<lparr>cp15_control := v\<rparr>\<rparr>;
          b = (if changed
               then invalidateTranslations
                 (invalidateInstructionWindow (b\<lparr>mappingGen := mappingGen b + 1\<rparr>))
               else b)
      in refreshPhysicalAccess b)"

text \<open>An instruction never writes the register file but through this.\<close>

definition setReg :: "u32 \<Rightarrow> u32 \<Rightarrow> backend \<Rightarrow> backend" where
  "setReg r v b = b\<lparr>regs := (regs b)(r := v)\<rparr>"

lemma regs_setReg [simp]: "regs (setReg r v b) = (regs b)(r := v)"
  by (simp add: setReg_def)

end
