(* ===== verification/Cpu_Flags.thy ===== *)
theory Cpu_Flags
  imports Cpu_State
begin

text \<open>
  Condition flags and the arithmetic core shared by the ARM and Thumb decoders,
  from the second half of src/cpu/interpreter/arm.go: the deferred N/Z/C/V update,
  the barrel shifter, addition with carry, the condition table, operand reads and
  branch-exchange.
\<close>

definition flagN :: u32 where "flagN = 0x80000000"
definition flagZ :: u32 where "flagZ = 0x40000000"
definition flagC :: u32 where "flagC = 0x20000000"
definition flagV :: u32 where "flagV = 0x10000000"

lemmas flag_defs = flagN_def flagZ_def flagC_def flagV_def

subsection \<open>Deferred flags\<close>

definition resolveFlags :: "backend \<Rightarrow> backend" where
  "resolveFlags b =
     (if \<not> flags_dirty (flags b) then b
      else b\<lparr>regs := (regs b)(RegisterCPSR :=
               regs b RegisterCPSR AND NOT (flags_mask (flags b)) OR flags_bits (flags b)),
             flags := noFlags\<rparr>)"

definition nzBits :: "u32 \<Rightarrow> u32" where
  "nzBits v = (let bits = v AND flagN in if v = 0 then bits OR flagZ else bits)"

definition deferFlags :: "u32 \<Rightarrow> u32 \<Rightarrow> backend \<Rightarrow> backend" where
  "deferFlags msk bits b =
     (if \<not> flags_dirty (flags b)
      then b\<lparr>flags := \<lparr>flags_dirty = True, flags_mask = msk, flags_bits = bits\<rparr>\<rparr>
      else b\<lparr>flags := \<lparr>flags_dirty = True, flags_mask = flags_mask (flags b) OR msk,
                       flags_bits = flags_bits (flags b) AND NOT msk OR bits\<rparr>\<rparr>)"

definition setNZ :: "u32 \<Rightarrow> backend \<Rightarrow> backend" where
  "setNZ v b = deferFlags (flagN OR flagZ) (nzBits v) b"

definition setNZCV :: "u32 \<Rightarrow> bool \<Rightarrow> bool \<Rightarrow> backend \<Rightarrow> backend" where
  "setNZCV v carry overflow b =
     (let bits = nzBits v;
          bits = (if carry then bits OR flagC else bits);
          bits = (if overflow then bits OR flagV else bits)
      in b\<lparr>flags := \<lparr>flags_dirty = True, flags_mask = flagN OR flagZ OR flagC OR flagV,
                     flags_bits = bits\<rparr>\<rparr>)"

definition setNZC :: "u32 \<Rightarrow> bool \<Rightarrow> backend \<Rightarrow> backend" where
  "setNZC v carry b =
     (let bits = nzBits v;
          bits = (if carry then bits OR flagC else bits)
      in deferFlags (flagN OR flagZ OR flagC) bits b)"

definition carry_flag :: "backend \<Rightarrow> bool" where
  "carry_flag b =
     (if flags_dirty (flags b) \<and> flags_mask (flags b) AND flagC \<noteq> 0
      then flags_bits (flags b) AND flagC \<noteq> 0
      else regs b RegisterCPSR AND flagC \<noteq> 0)"

definition setModeFlag :: "backend \<Rightarrow> backend" where
  "setModeFlag b =
     (if mode b = ModeThumb
      then b\<lparr>regs := (regs b)(RegisterCPSR := regs b RegisterCPSR OR StatusThumb)\<rparr>
      else b\<lparr>regs := (regs b)(RegisterCPSR := regs b RegisterCPSR AND NOT StatusThumb)\<rparr>)"

subsection \<open>Conditions\<close>

text \<open>
  The table is indexed by the condition field and by CPSR.NZCV as the high nibble;
  entry 15 stays false.
\<close>

definition armConditionTable :: "u8 \<Rightarrow> u32 \<Rightarrow> bool" where
  "armConditionTable condition nzcv =
     (let n = nzcv AND 8 \<noteq> 0; z = nzcv AND 4 \<noteq> 0; c = nzcv AND 2 \<noteq> 0; v = nzcv AND 1 \<noteq> 0 in
      if condition = 0x0 then z
      else if condition = 0x1 then \<not> z
      else if condition = 0x2 then c
      else if condition = 0x3 then \<not> c
      else if condition = 0x4 then n
      else if condition = 0x5 then \<not> n
      else if condition = 0x6 then v
      else if condition = 0x7 then \<not> v
      else if condition = 0x8 then c \<and> \<not> z
      else if condition = 0x9 then \<not> c \<or> z
      else if condition = 0xa then n = v
      else if condition = 0xb then n \<noteq> v
      else if condition = 0xc then \<not> z \<and> n = v
      else if condition = 0xd then z \<or> n \<noteq> v
      else if condition = 0xe then True
      else False)"

text \<open>The test resolves the pending flags first, so it also yields the state.\<close>

definition conditionPassed :: "u8 \<Rightarrow> backend \<Rightarrow> bool \<times> backend" where
  "conditionPassed condition b =
     (let b = resolveFlags b in
      (if 16 \<le> condition then False
       else armConditionTable condition (drop_bit 28 (regs b RegisterCPSR)), b))"

subsection \<open>Operands and branch-exchange\<close>

definition readOperandRegister :: "u32 \<Rightarrow> u32 \<Rightarrow> Mode \<Rightarrow> backend \<Rightarrow> u32" where
  "readOperandRegister ident instrAddress m b =
     (if ident \<noteq> RegisterPC then regs b ident
      else if m = ModeThumb then instrAddress + 4
      else instrAddress + 8)"

definition branchExchange :: "u32 \<Rightarrow> backend \<Rightarrow> backend" where
  "branchExchange target b =
     setModeFlag
       (if target AND 1 \<noteq> 0
        then (setReg RegisterPC (target AND NOT 1) b)\<lparr>mode := ModeThumb\<rparr>
        else (setReg RegisterPC (target AND NOT 3) b)\<lparr>mode := ModeARM\<rparr>)"

subsection \<open>Barrel shifter and adder\<close>

definition shiftLSL :: "u32 \<Rightarrow> u8 \<Rightarrow> bool \<Rightarrow> u32 \<times> bool" where
  "shiftLSL v amount oldCarry =
     (if amount = 0 then (v, oldCarry)
      else if amount < 32
        then (push_bit (unat amount) v, v AND push_bit (unat (32 - amount)) 1 \<noteq> 0)
      else if amount = 32 then (0, v AND 1 \<noteq> 0)
      else (0, False))"

definition shiftLSR :: "u32 \<Rightarrow> u8 \<Rightarrow> bool \<Rightarrow> u32 \<times> bool" where
  "shiftLSR v amount oldCarry =
     (if amount = 0 then (v, oldCarry)
      else if amount < 32
        then (drop_bit (unat amount) v, v AND push_bit (unat (amount - 1)) 1 \<noteq> 0)
      else if amount = 32 then (0, v AND flagN \<noteq> 0)
      else (0, False))"

definition shiftASR :: "u32 \<Rightarrow> u8 \<Rightarrow> bool \<Rightarrow> u32 \<times> bool" where
  "shiftASR v amount oldCarry =
     (if amount = 0 then (v, oldCarry)
      else if amount < 32
        then (signed_drop_bit (unat amount) v, v AND push_bit (unat (amount - 1)) 1 \<noteq> 0)
      else if v AND flagN \<noteq> 0 then (NOT 0, True)
      else (0, False))"

definition shiftROR :: "u32 \<Rightarrow> u8 \<Rightarrow> bool \<Rightarrow> u32 \<times> bool" where
  "shiftROR v amount oldCarry =
     (if amount = 0 then (v, oldCarry)
      else let rotation = uint (amount AND 31) in
        if rotation = 0 then (v, v AND flagN \<noteq> 0)
        else let result = RotateLeft32 v (- rotation) in (result, result AND flagN \<noteq> 0))"

definition addWithCarry :: "u32 \<Rightarrow> u32 \<Rightarrow> u32 \<Rightarrow> u32 \<times> bool \<times> bool" where
  "addWithCarry left right carry =
     (let unsigned = (ucast left :: u64) + ucast right + ucast carry;
          result = (ucast unsigned :: u32);
          overflow = ((left XOR result) AND (right XOR result) AND flagN \<noteq> 0)
      in (result, drop_bit 32 unsigned \<noteq> 0, overflow))"


subsection \<open>Flag bits\<close>

lemma and_flag_iff_bit [simp]:
  "x AND flagN = 0 \<longleftrightarrow> \<not> bit x 31" "x AND flagZ = 0 \<longleftrightarrow> \<not> bit x 30"
  "x AND flagC = 0 \<longleftrightarrow> \<not> bit x 29" "x AND flagV = 0 \<longleftrightarrow> \<not> bit x 28"
proof -
  have eq: "x AND push_bit n 1 = 0 \<longleftrightarrow> \<not> bit x n" if "n < 32" for n and x :: u32
    using that by (simp add: bit_iff_odd_drop_bit and_exp_eq_0_iff_not_bit push_bit_of_1)
  show "x AND flagN = 0 \<longleftrightarrow> \<not> bit x 31" "x AND flagZ = 0 \<longleftrightarrow> \<not> bit x 30"
    "x AND flagC = 0 \<longleftrightarrow> \<not> bit x 29" "x AND flagV = 0 \<longleftrightarrow> \<not> bit x 28"
    using eq [of 31 x] eq [of 30 x] eq [of 29 x] eq [of 28 x] by (simp_all add: flag_defs)
qed

subsection \<open>Lazy flags are eager flags\<close>

text \<open>
  The architectural CPSR is the register with the pending update applied.  The
  pending update only ever covers N, Z, C and V, and holds no bit outside its
  mask.
\<close>

definition cpsr :: "backend \<Rightarrow> u32" where
  "cpsr b = regs (resolveFlags b) RegisterCPSR"

definition flagNZCV :: u32 where
  "flagNZCV = flagN OR flagZ OR flagC OR flagV"

definition wf_flags :: "backend \<Rightarrow> bool" where
  "wf_flags b \<longleftrightarrow> flags_dirty (flags b) \<longrightarrow>
     flags_mask (flags b) AND NOT flagNZCV = 0 \<and>
     flags_bits (flags b) AND NOT (flags_mask (flags b)) = 0"

datatype flag_update = UpdNZ u32 | UpdNZC u32 bool | UpdNZCV u32 bool bool

fun lazy_update :: "flag_update \<Rightarrow> backend \<Rightarrow> backend" where
  "lazy_update (UpdNZ v) b = setNZ v b"
| "lazy_update (UpdNZC v c) b = setNZC v c b"
| "lazy_update (UpdNZCV v c o') b = setNZCV v c o' b"

text \<open>What an eager interpreter writes: each named flag from its definition, the rest kept.\<close>

definition put_bit :: "nat \<Rightarrow> bool \<Rightarrow> u32 \<Rightarrow> u32" where
  "put_bit n c x = (if c then set_bit n x else unset_bit n x)"

fun eager_update :: "flag_update \<Rightarrow> u32 \<Rightarrow> u32" where
  "eager_update (UpdNZ v) x = put_bit 31 (bit v 31) (put_bit 30 (v = 0) x)"
| "eager_update (UpdNZC v c) x =
     put_bit 31 (bit v 31) (put_bit 30 (v = 0) (put_bit 29 c x))"
| "eager_update (UpdNZCV v c o') x =
     put_bit 31 (bit v 31) (put_bit 30 (v = 0) (put_bit 29 c (put_bit 28 o' x)))"

lemma bit_put_bit: "bit (put_bit n c x) i \<longleftrightarrow> (if i = n \<and> n < 32 then c else bit x i)"
  by (auto simp: put_bit_def bit_set_bit_iff bit_unset_bit_iff dest: bit_imp_le_length)

lemma bit_flag [simp]:
  "bit flagN i \<longleftrightarrow> i = 31" "bit flagZ i \<longleftrightarrow> i = 30" "bit flagC i \<longleftrightarrow> i = 29" "bit flagV i \<longleftrightarrow> i = 28"
proof -
  have shifted: "bit x i \<longleftrightarrow> i = n" if "x = push_bit n 1" "n < 32" for n and x :: u32
    using that by (auto simp: bit_exp_iff)
  show "bit flagN i \<longleftrightarrow> i = 31" by (rule shifted) (simp_all add: flagN_def)
  show "bit flagZ i \<longleftrightarrow> i = 30" by (rule shifted) (simp_all add: flagZ_def)
  show "bit flagC i \<longleftrightarrow> i = 29" by (rule shifted) (simp_all add: flagC_def)
  show "bit flagV i \<longleftrightarrow> i = 28" by (rule shifted) (simp_all add: flagV_def)
qed

lemma bit_flagNZCV [simp]: "bit flagNZCV i \<longleftrightarrow> i = 31 \<or> i = 30 \<or> i = 29 \<or> i = 28"
  by (auto simp: flagNZCV_def bit_or_iff)

lemma bit_nzBits: "bit (nzBits v) i \<longleftrightarrow> (i = 31 \<and> bit v 31) \<or> (i = 30 \<and> v = 0)"
  by (auto simp: nzBits_def Let_def bit_or_iff bit_and_iff)

lemma word_and_not_eq_0_iff: "(x :: u32) AND NOT y = 0 \<longleftrightarrow> (\<forall>i. bit x i \<longrightarrow> bit y i)"
  by (auto simp: bit_eq_iff bit_and_iff bit_not_iff) (use bit_imp_le_length in fastforce)

lemma wf_flags_bits:
  "wf_flags b \<longleftrightarrow> (flags_dirty (flags b) \<longrightarrow>
     (\<forall>i. bit (flags_mask (flags b)) i \<longrightarrow> i = 31 \<or> i = 30 \<or> i = 29 \<or> i = 28) \<and>
     (\<forall>i. bit (flags_bits (flags b)) i \<longrightarrow> bit (flags_mask (flags b)) i))"
  by (simp add: wf_flags_def word_and_not_eq_0_iff)

lemma bit_cpsr:
  "bit (cpsr b) i \<longleftrightarrow>
     (if flags_dirty (flags b)
      then bit (flags_bits (flags b)) i \<or>
           bit (regs b RegisterCPSR) i \<and> \<not> bit (flags_mask (flags b)) i
      else bit (regs b RegisterCPSR) i)"
  by (auto simp: cpsr_def resolveFlags_def bit_or_iff bit_and_iff bit_not_iff dest: bit_imp_le_length)

lemmas flag_update_defs = setNZ_def setNZC_def setNZCV_def deferFlags_def Let_def

lemma wf_flags_lazy_update: "wf_flags b \<Longrightarrow> wf_flags (lazy_update u b)"
  by (cases u)
    (auto simp: wf_flags_bits flag_update_defs bit_or_iff bit_and_iff bit_not_iff bit_nzBits
      split: if_splits)

lemma regs_lazy_update [simp]: "regs (lazy_update u b) = regs b"
  by (cases u) (simp_all add: flag_update_defs)

lemma cpsr_lazy_update: "wf_flags b \<Longrightarrow> cpsr (lazy_update u b) = eager_update u (cpsr b)"
  by (cases u; rule bit_word_eqI)
    (auto simp: bit_cpsr wf_flags_bits flag_update_defs bit_or_iff bit_and_iff bit_not_iff
      bit_nzBits bit_put_bit split: if_splits)

lemma carry_flag_cpsr: "wf_flags b \<Longrightarrow> carry_flag b \<longleftrightarrow> bit (cpsr b) 29"
  by (auto simp: carry_flag_def bit_cpsr wf_flags_bits)

lemma resolveFlags_cpsr [simp]: "cpsr (resolveFlags b) = cpsr b"
  by (simp add: cpsr_def resolveFlags_def noFlags_def)

lemma wf_flags_resolve [simp]: "wf_flags (resolveFlags b)"
  by (simp add: wf_flags_def resolveFlags_def noFlags_def)

text \<open>
  C37.  Deferred flags are exactly eager flags: after any sequence of flag-setting
  operations, from any state whose pending update is well-formed, the CPSR a reader
  sees is the one obtained by writing each flag at once, the carry that the shifter
  and ADC/SBC read is its C bit, and the result is the same when the pending update
  is materialised first.
\<close>

theorem lazy_flags_are_eager:
  assumes "wf_flags b"
  shows "cpsr (fold lazy_update us b) = fold eager_update us (cpsr b) \<and>
    carry_flag (fold lazy_update us b) = bit (fold eager_update us (cpsr b)) 29 \<and>
    cpsr (fold lazy_update us (resolveFlags b)) = cpsr (fold lazy_update us b)"
proof -
  have run: "wf_flags (fold lazy_update us s) \<and>
      cpsr (fold lazy_update us s) = fold eager_update us (cpsr s)" if "wf_flags s" for s
    using that
    by (induction us arbitrary: s) (simp_all add: wf_flags_lazy_update cpsr_lazy_update)
  show ?thesis
    using run [OF assms] run [of "resolveFlags b"] by (simp add: carry_flag_cpsr)
qed

theorem lazy_flags_are_eager_witness:
  "wf_flags (New False) \<and>
   cpsr (fold lazy_update [UpdNZCV 0 True False, UpdNZ 0x80000000] (New False)) =
     fold eager_update [UpdNZCV 0 True False, UpdNZ 0x80000000] (cpsr (New False))"
proof -
  have wf: "wf_flags (New False)"
    by (simp add: wf_flags_def New_def NewWithMemoryLimit_def noFlags_def)
  show ?thesis
    using wf lazy_flags_are_eager [OF wf, of "[UpdNZCV 0 True False, UpdNZ 0x80000000]"] by blast
qed

subsection \<open>Conditions on the architectural flags\<close>

lemma conditionPassed_state [simp]: "snd (conditionPassed c b) = resolveFlags b"
  by (simp add: conditionPassed_def Let_def)

lemma conditionPassed_fst:
  "fst (conditionPassed c b) \<longleftrightarrow> c < 16 \<and> armConditionTable c (drop_bit 28 (cpsr b))"
  by (auto simp: conditionPassed_def Let_def cpsr_def not_le)


subsection \<open>The adder\<close>

lemma bit31_sint: "bit (x :: u32) 31 \<longleftrightarrow> sint x < 0"
  using bit_last_iff [of x] by simp

lemma sint_u32_mod: "sint (x :: u32) = (uint x + 2 ^ 31) mod 2 ^ 32 - 2 ^ 31"
  by (simp add: sint_uint signed_take_bit_eq_take_bit_shift take_bit_eq_mod)

lemma uint_sint_mod: "uint (x :: u32) = sint x mod 2 ^ 32"
  using uint_lt2p [of x] by (simp add: sint_u32_mod mod_simps)

lemma uint_add3_u64:
  "uint ((ucast (l :: u32) :: u64) + ucast (r :: u32) + ucast (c :: u32)) = uint l + uint r + uint c"
proof -
  have "uint l < 2 ^ 32" "uint r < 2 ^ 32" "uint c < 2 ^ 32"
    using uint_lt2p [of l] uint_lt2p [of r] uint_lt2p [of c] by simp_all
  then show ?thesis
    by (simp add: uint_word_ariths uint_up_ucast is_up)
qed


definition fits_s32 :: "int \<Rightarrow> bool" where
  "fits_s32 i \<longleftrightarrow> - (2 ^ 31) \<le> i \<and> i < 2 ^ 31"

lemma addWithCarry_result: "fst (addWithCarry l r c) = l + r + c"
  by (simp add: addWithCarry_def Let_def word_uint_eq_iff uint_add3_u64 uint_word_ariths
      unsigned_ucast_eq take_bit_eq_mod mod_simps mod_mod_cancel)

lemma addWithCarry_carry:
  "fst (snd (addWithCarry l r c)) \<longleftrightarrow> 2 ^ 32 \<le> uint l + uint r + uint c"
proof -
  have "uint (drop_bit 32 ((ucast l :: u64) + ucast r + ucast c)) = (uint l + uint r + uint c) div 2 ^ 32"
    by (simp add: drop_bit_eq_div uint_div uint_add3_u64)
  moreover have "0 \<le> uint l + uint r + uint c" by simp
  ultimately have "uint (drop_bit 32 ((ucast l :: u64) + ucast r + ucast c)) = 0 \<longleftrightarrow>
      uint l + uint r + uint c < 2 ^ 32"
    by (simp add: zdiv_eq_0_iff) linarith
  then show ?thesis
    by (simp add: addWithCarry_def Let_def flip: uint_0_iff not_less)
qed

lemma wrap_s32:
  assumes "- (2 ^ 32) \<le> t" and "t < 2 ^ 32"
  shows "(t + 2 ^ 31) mod 2 ^ 32 - 2 ^ 31 =
    (if t < - (2 ^ 31) then t + 2 ^ 32 else if t < 2 ^ 31 then t else t - (2 ^ 32 :: int))"
proof -
  consider "t < - (2 ^ 31)" | "- (2 ^ 31) \<le> t" "t < 2 ^ 31" | "2 ^ 31 \<le> t" by linarith
  then show ?thesis
  proof cases
    case 1
    have "(t + 2 ^ 31) mod 2 ^ 32 = (t + 2 ^ 31 + 2 ^ 32) mod 2 ^ 32"
      by (rule mod_add_self2 [symmetric])
    also have "\<dots> = t + 2 ^ 31 + 2 ^ 32" using 1 assms by (intro mod_pos_pos_trivial) auto
    finally show ?thesis using 1 by simp
  next
    case 2
    then have "(t + 2 ^ 31) mod 2 ^ 32 = t + 2 ^ 31" by (intro mod_pos_pos_trivial) auto
    with 2 show ?thesis by simp
  next
    case 3
    have "(t + 2 ^ 31) mod 2 ^ 32 = (t + 2 ^ 31 - 2 ^ 32) mod 2 ^ 32"
      by (rule minus_mod_self2 [symmetric])
    also have "\<dots> = t + 2 ^ 31 - 2 ^ 32" using 3 assms by (intro mod_pos_pos_trivial) auto
    finally show ?thesis using 3 by simp
  qed
qed

lemma addWithCarry_overflow:
  assumes "c \<le> 1"
  shows "snd (snd (addWithCarry l r c)) \<longleftrightarrow> \<not> fits_s32 (sint l + sint r + uint c)"
proof -
  define s where "s = l + r + c"
  have c: "uint c = 0 \<or> uint c = 1"
    using assms by (simp add: word_le_def) (use uint_ge_0 [of c] in linarith)
  have bounds: "- (2 ^ 31) \<le> sint l" "sint l < 2 ^ 31" "- (2 ^ 31) \<le> sint r" "sint r < 2 ^ 31"
    using sint_ge [of l] sint_lt [of l] sint_ge [of r] sint_lt [of r] by simp_all
  have range: "- (2 ^ 32) \<le> sint l + sint r + uint c" "sint l + sint r + uint c < 2 ^ 32"
    using bounds c by auto
  have "sint s = (sint l + sint r + uint c + 2 ^ 31) mod 2 ^ 32 - 2 ^ 31"
    unfolding sint_u32_mod [of s]
    by (simp add: s_def uint_word_ariths uint_sint_mod [of l] uint_sint_mod [of r] mod_simps)
  then have sum: "sint s = (if sint l + sint r + uint c < - (2 ^ 31) then sint l + sint r + uint c + 2 ^ 32
      else if sint l + sint r + uint c < 2 ^ 31 then sint l + sint r + uint c
      else sint l + sint r + uint c - 2 ^ 32)"
    by (simp only: wrap_s32 [OF range])
  have "snd (snd (addWithCarry l r c)) \<longleftrightarrow>
      (sint l < 0) = (sint r < 0) \<and> (sint s < 0) \<noteq> (sint l < 0)"
    using addWithCarry_result [of l r c]
      and_flag_iff_bit(1) [of "(l XOR (l + r + c)) AND (r XOR (l + r + c))"]
    by (auto simp: addWithCarry_def Let_def s_def bit_and_iff bit_xor_iff and.assoc
        simp flip: bit31_sint)
  then show ?thesis
    using bounds c sum by (auto simp: fits_s32_def split: if_splits)
qed

lemma uint_not_u32: "uint (NOT r) = 2 ^ 32 - 1 - uint (r :: u32)"
proof -
  have "uint (NOT r) = (- uint r - 1) mod 2 ^ 32"
    by (simp add: not_eq_complement uint_word_ariths mod_simps)
  also have "\<dots> = (- uint r - 1 + 2 ^ 32) mod 2 ^ 32"
    by (rule mod_add_self2 [symmetric])
  also have "\<dots> = - uint r - 1 + 2 ^ 32"
    by (rule mod_pos_pos_trivial) (use uint_lt2p [of r] uint_ge_0 [of r] in \<open>simp, linarith\<close>)
  finally show ?thesis by simp
qed

lemma sint_not_u32: "sint (NOT r) = - 1 - sint (r :: u32)"
proof -
  have "sint (NOT r) = (- 1 - sint r + 2 ^ 31) mod 2 ^ 32 - 2 ^ 31"
    unfolding sint_u32_mod [of "NOT r"]
    by (simp add: not_eq_complement uint_word_ariths uint_sint_mod [of r] mod_simps)
  also have "\<dots> = - 1 - sint r"
    using sint_lt [of r] sint_ge [of r] by (subst wrap_s32) simp_all
  finally show ?thesis .
qed

text \<open>
   The adder behind every arithmetic instruction is exact: for a carry-in of 0
  or 1 the result is the 32-bit sum, carry-out is unsigned overflow and the
  overflow flag is signed overflow of the mathematical sum.  With the inverted
  operand and carry-in 1 it is subtraction: carry-out means no borrow and the
  overflow flag signed overflow of the difference.
\<close>

theorem addWithCarry_exact:
  assumes "c \<le> 1"
  shows "addWithCarry l r c =
      (l + r + c, 2 ^ 32 \<le> uint l + uint r + uint c, \<not> fits_s32 (sint l + sint r + uint c)) \<and>
    addWithCarry l (NOT r) 1 = (l - r, r \<le> l, \<not> fits_s32 (sint l - sint r))"
proof
  show "addWithCarry l r c =
      (l + r + c, 2 ^ 32 \<le> uint l + uint r + uint c, \<not> fits_s32 (sint l + sint r + uint c))"
    by (intro prod_eqI)
      (simp_all add: addWithCarry_result addWithCarry_carry addWithCarry_overflow [OF assms])
  have "l + NOT r + 1 = l - r" by (simp add: not_eq_complement)
  then show "addWithCarry l (NOT r) 1 = (l - r, r \<le> l, \<not> fits_s32 (sint l - sint r))"
    by (intro prod_eqI)
      (auto simp: addWithCarry_carry addWithCarry_overflow uint_not_u32 sint_not_u32 word_le_def
        addWithCarry_result)
qed

theorem addWithCarry_exact_witness:
  "(1 :: u32) \<le> 1 \<and> addWithCarry 0x7fffffff 0 1 = (0x80000000, False, True)"
proof -
  have c: "(1 :: u32) \<le> 1" by simp
  show ?thesis
    using addWithCarry_exact [OF c, of "0x7fffffff" 0] c by (simp add: fits_s32_def)
qed

subsection \<open>The barrel shifter\<close>

lemma and_bit_eq_0_iff: "(v :: u32) AND push_bit n 1 = 0 \<longleftrightarrow> \<not> bit v n"
  by (simp add: push_bit_of_1 and_exp_eq_0_iff_not_bit)

lemma and_one_eq_0_iff: "(v :: u32) AND 1 = 0 \<longleftrightarrow> \<not> bit v 0"
  using and_bit_eq_0_iff [of v 0] by simp

lemma drop_bit_ge_32: "32 \<le> n \<Longrightarrow> drop_bit n (v :: u32) = 0"
  by (rule bit_word_eqI) (auto simp: bit_drop_bit_eq dest: bit_imp_le_length)

lemma push_bit_ge_32: "32 \<le> n \<Longrightarrow> push_bit n (v :: u32) = 0"
  by (rule bit_word_eqI) (auto simp: bit_push_bit_iff)

lemma signed_drop_bit_ge_32:
  "32 \<le> n \<Longrightarrow> signed_drop_bit n (v :: u32) = (if bit v 31 then NOT 0 else 0)"
  by (rule bit_word_eqI) (auto simp: bit_signed_drop_bit_iff)

lemma RotateLeft32_neg:
  assumes "0 < k" and "k < 32"
  shows "RotateLeft32 v (- int k) = word_rotr k v"
proof -
  have s: "nat (- int k mod 32) = 32 - k"
  proof -
    have "- int k mod 32 = (- int k + 32) mod 32" by (rule mod_add_self2 [symmetric])
    also have "\<dots> = - int k + 32" using assms by (intro mod_pos_pos_trivial) auto
    finally show ?thesis using assms by simp
  qed
  have r: "RotateLeft32 v (- int k) = push_bit (32 - k) v OR drop_bit k v"
    using assms by (simp add: RotateLeft32_def s Let_def)
  show ?thesis
  proof (rule bit_word_eqI)
    fix n :: nat assume n: "n < LENGTH(32)"
    show "bit (RotateLeft32 v (- int k)) n = bit (word_rotr k v) n"
    proof (cases "k + n < 32")
      case True
      with n assms show ?thesis
        by (auto simp: r bit_or_iff bit_push_bit_iff bit_drop_bit_eq bit_word_rotr_iff add.commute)
    next
      case False
      with n assms have "(k + n) mod 32 = k + n - 32" by (simp add: mod_if)
      moreover have "\<not> bit v (k + n)" using False bit_imp_le_length by fastforce
      ultimately show ?thesis using n assms False
        by (auto simp: r bit_or_iff bit_push_bit_iff bit_drop_bit_eq bit_word_rotr_iff add.commute)
    qed
  qed
qed


lemma word_rotr_mod_u32: "word_rotr (n mod 32) (v :: u32) = word_rotr n v"
  by (rule bit_word_eqI) (simp add: bit_word_rotr_iff mod_simps)

lemma word_rotr_zero_u32: "word_rotr 0 (v :: u32) = v"
  by (rule bit_word_eqI) (simp add: bit_word_rotr_iff)

lemma unat_less_32: "unat (n :: u8) < 32 \<longleftrightarrow> n < 32"
  by (simp add: word_less_nat_alt)

lemma shiftROR_rotates:
  "shiftROR v n c = (word_rotr (unat n) v, if n = 0 then c else bit (word_rotr (unat n) v) 31)"
proof -
  have m: "unat (n AND 31) = unat n mod 32"
  proof -
    have "n AND 31 = take_bit 5 n" by (simp add: take_bit_eq_mask mask_eq_exp_minus_1)
    then show ?thesis by (simp add: take_bit_eq_mod unat_mod)
  qed
  have r: "uint (n AND 31) = int (unat n mod 32)"
    using m by (metis uint_nat)
  have rot: "RotateLeft32 v (- int (unat n mod 32)) = word_rotr (unat n) v" if "unat n mod 32 \<noteq> 0"
    using RotateLeft32_neg [of "unat n mod 32" v] that by (simp add: word_rotr_mod_u32)
  have "word_rotr (unat n) v = v" if "unat n mod 32 = 0"
    using word_rotr_mod_u32 [of "unat n" v] that by (simp add: word_rotr_zero_u32)
  then show ?thesis
    by (auto simp: shiftROR_def Let_def r rot)
qed

text \<open>
  C38.  The barrel shifter computes the mathematical shifts for every amount, those
  of 32 and more included: the result is the logical left shift, logical right
  shift, arithmetic right shift or rotation by the whole amount, and the carry is
  the last bit shifted out (bit \<open>32 - n\<close>, bit \<open>n - 1\<close>, the sign bit past 32, the
  top bit of the rotated word), or the old carry when the amount is 0.
\<close>

theorem barrel_shifter_exact:
  "shiftLSL v n c = (push_bit (unat n) v, if n = 0 then c else unat n \<le> 32 \<and> bit v (32 - unat n)) \<and>
   shiftLSR v n c = (drop_bit (unat n) v, if n = 0 then c else bit v (unat n - 1)) \<and>
   shiftASR v n c =
     (signed_drop_bit (unat n) v, if n = 0 then c else bit v (min 31 (unat n - 1))) \<and>
   shiftROR v n c = (word_rotr (unat n) v, if n = 0 then c else bit (word_rotr (unat n) v) 31)"
proof (intro conjI)
  have small: "unat (32 - n) = 32 - unat n" if "n < 32"
    using that by (simp add: unat_sub less_imp_le)
  have le: "unat n \<le> 32" if "n < 32"
    using that unat_less_32 [of n] by linarith
  have ge: "32 \<le> unat n" if "\<not> n < 32"
    using that unat_less_32 [of n] by linarith
  have clamp: "min 31 (unat n - Suc 0) = (if n < 32 then unat n - Suc 0 else 31)"
    using unat_less_32 [of n] by (auto simp: min_def)
  have pred: "unat (n - 1) = unat n - 1" if "n \<noteq> 0"
    using that by (simp add: unat_minus_one)
  have big: "32 < unat n" if "\<not> n < 32" "n \<noteq> 32"
  proof -
    from that have "32 < n" by order
    then have "unat (32 :: u8) < unat n" by (simp only: word_less_nat_alt)
    then show ?thesis by simp
  qed
  have high: "\<not> bit v (unat n - 1)" if "\<not> n < 32" "n \<noteq> 32"
    using big [OF that] bit_imp_le_length [of v "unat n - 1"] by auto
  show "shiftLSL v n c = (push_bit (unat n) v, if n = 0 then c else unat n \<le> 32 \<and> bit v (32 - unat n))"
    using big le
    by (auto simp: shiftLSL_def and_bit_eq_0_iff and_one_eq_0_iff small push_bit_ge_32
        simp del: push_bit_of_1)
  show "shiftLSR v n c = (drop_bit (unat n) v, if n = 0 then c else bit v (unat n - 1))"
    using big high by (auto simp: shiftLSR_def and_exp_eq_0_iff_not_bit pred drop_bit_ge_32)
  show "shiftASR v n c =
      (signed_drop_bit (unat n) v, if n = 0 then c else bit v (min 31 (unat n - 1)))"
    using ge by (auto simp: shiftASR_def and_exp_eq_0_iff_not_bit pred signed_drop_bit_ge_32 clamp)
  show "shiftROR v n c = (word_rotr (unat n) v, if n = 0 then c else bit (word_rotr (unat n) v) 31)"
    by (rule shiftROR_rotates)
qed

end
