(* ===== verification/Cpu_Privileged.thy ===== *)
theory Cpu_Privileged
  imports Cpu_Flags
begin

text \<open>
  Processor modes, register banks and saved status (src/cpu/interpreter/privileged.go),
  exception entry and interrupt delivery (exception.go), and the register writes of the
  public interface (\<open>writeRegisterLocked\<close> of backend.go).
\<close>

datatype processorMode =
    processorModeUser | processorModeFIQ | processorModeIRQ | processorModeSupervisor
  | processorModeAbort | processorModeUndefined | processorModeSystem

primrec processorMode_value :: "processorMode \<Rightarrow> u32" where
  "processorMode_value processorModeUser = 0x10"
| "processorMode_value processorModeFIQ = 0x11"
| "processorMode_value processorModeIRQ = 0x12"
| "processorMode_value processorModeSupervisor = 0x13"
| "processorMode_value processorModeAbort = 0x17"
| "processorMode_value processorModeUndefined = 0x1b"
| "processorMode_value processorModeSystem = 0x1f"

definition processorModeMask :: u32 where "processorModeMask = 0x1f"

definition decodeProcessorMode :: "u32 \<Rightarrow> processorMode \<times> bool" where
  "decodeProcessorMode v =
     (let m = v AND processorModeMask in
      if m = 0x10 then (processorModeUser, True)
      else if m = 0x11 then (processorModeFIQ, True)
      else if m = 0x12 then (processorModeIRQ, True)
      else if m = 0x13 then (processorModeSupervisor, True)
      else if m = 0x17 then (processorModeAbort, True)
      else if m = 0x1b then (processorModeUndefined, True)
      else if m = 0x1f then (processorModeSystem, True)
      else (processorModeSystem, False))"

definition currentProcessorMode :: "backend \<Rightarrow> processorMode" where
  "currentProcessorMode b = fst (decodeProcessorMode (regs b RegisterCPSR))"

definition currentlyPrivileged :: "backend \<Rightarrow> bool" where
  "currentlyPrivileged b \<longleftrightarrow> regs b RegisterCPSR AND processorModeMask \<noteq> processorMode_value processorModeUser"

subsection \<open>Register banks\<close>

text \<open>\<open>copy\<close> between a run of the register file and a bank array.\<close>

primrec putRegs :: "u32 \<Rightarrow> u32 list \<Rightarrow> (u32 \<Rightarrow> u32) \<Rightarrow> u32 \<Rightarrow> u32" where
  "putRegs r [] f = f"
| "putRegs r (v # vs) f = putRegs (r + 1) vs (f(r := v))"

definition getRegs :: "u32 list \<Rightarrow> backend \<Rightarrow> u32 list" where
  "getRegs rs b = map (regs b) rs"

definition stackLinkBank :: "processorMode \<Rightarrow> bankedRegisters \<Rightarrow> u32 list" where
  "stackLinkBank m k =
     (case m of
        processorModeIRQ \<Rightarrow> bank_irq k
      | processorModeSupervisor \<Rightarrow> bank_supervisor k
      | processorModeAbort \<Rightarrow> bank_abort k
      | processorModeUndefined \<Rightarrow> bank_undefined k
      | _ \<Rightarrow> bank_userStackLink k)"

definition setStackLinkBank :: "processorMode \<Rightarrow> u32 list \<Rightarrow> bankedRegisters \<Rightarrow> bankedRegisters" where
  "setStackLinkBank m vs k =
     (case m of
        processorModeIRQ \<Rightarrow> k\<lparr>bank_irq := vs\<rparr>
      | processorModeSupervisor \<Rightarrow> k\<lparr>bank_supervisor := vs\<rparr>
      | processorModeAbort \<Rightarrow> k\<lparr>bank_abort := vs\<rparr>
      | processorModeUndefined \<Rightarrow> k\<lparr>bank_undefined := vs\<rparr>
      | _ \<Rightarrow> k\<lparr>bank_userStackLink := vs\<rparr>)"

definition saveProcessorBank :: "processorMode \<Rightarrow> backend \<Rightarrow> backend" where
  "saveProcessorBank m b =
     (if m = processorModeFIQ
      then b\<lparr>banks := (banks b)\<lparr>bank_fiq := getRegs [8, 9, 10, 11, 12, 13, 14] b\<rparr>\<rparr>
      else b\<lparr>banks := setStackLinkBank m (getRegs [13, 14] b)
               ((banks b)\<lparr>bank_userHigh := getRegs [8, 9, 10, 11, 12] b\<rparr>)\<rparr>)"

definition loadProcessorBank :: "processorMode \<Rightarrow> backend \<Rightarrow> backend" where
  "loadProcessorBank m b =
     (if m = processorModeFIQ
      then b\<lparr>regs := putRegs RegisterR8 (bank_fiq (banks b)) (regs b)\<rparr>
      else b\<lparr>regs := putRegs RegisterSP (stackLinkBank m (banks b))
               (putRegs RegisterR8 (bank_userHigh (banks b)) (regs b))\<rparr>)"

definition switchProcessorMode :: "processorMode \<Rightarrow> processorMode \<Rightarrow> backend \<Rightarrow> backend" where
  "switchProcessorMode oldMode newMode b =
     (if oldMode = newMode then b
      else loadProcessorBank newMode (saveProcessorBank oldMode (invalidateInstructionWindow b)))"

subsection \<open>Saved status\<close>

definition savedStatus :: "processorMode \<Rightarrow> backend \<Rightarrow> u32 option" where
  "savedStatus m b =
     (case m of
        processorModeFIQ \<Rightarrow> Some (spsr_fiq (spsr b))
      | processorModeIRQ \<Rightarrow> Some (spsr_irq (spsr b))
      | processorModeSupervisor \<Rightarrow> Some (spsr_supervisor (spsr b))
      | processorModeAbort \<Rightarrow> Some (spsr_abort (spsr b))
      | processorModeUndefined \<Rightarrow> Some (spsr_undefined (spsr b))
      | _ \<Rightarrow> None)"

text \<open>Assignment through the pointer \<open>savedStatus\<close> returns; the nil pointer is never stored to.\<close>

definition setSavedStatus :: "processorMode \<Rightarrow> u32 \<Rightarrow> backend \<Rightarrow> backend" where
  "setSavedStatus m v b =
     (case m of
        processorModeFIQ \<Rightarrow> b\<lparr>spsr := (spsr b)\<lparr>spsr_fiq := v\<rparr>\<rparr>
      | processorModeIRQ \<Rightarrow> b\<lparr>spsr := (spsr b)\<lparr>spsr_irq := v\<rparr>\<rparr>
      | processorModeSupervisor \<Rightarrow> b\<lparr>spsr := (spsr b)\<lparr>spsr_supervisor := v\<rparr>\<rparr>
      | processorModeAbort \<Rightarrow> b\<lparr>spsr := (spsr b)\<lparr>spsr_abort := v\<rparr>\<rparr>
      | processorModeUndefined \<Rightarrow> b\<lparr>spsr := (spsr b)\<lparr>spsr_undefined := v\<rparr>\<rparr>
      | _ \<Rightarrow> b)"

subsection \<open>The User view of a register\<close>

definition readUserRegister :: "u32 \<Rightarrow> backend \<Rightarrow> u32" where
  "readUserRegister register b =
     (if register < RegisterR8 then regs b register
      else let m = currentProcessorMode b in
        if register < RegisterSP
        then (if m = processorModeFIQ
              then bank_userHigh (banks b) ! unat (register - RegisterR8)
              else regs b register)
        else if register < RegisterPC
        then (if m = processorModeUser \<or> m = processorModeSystem
              then regs b register
              else bank_userStackLink (banks b) ! unat (register - RegisterSP))
        else regs b register)"

definition writeUserRegister :: "u32 \<Rightarrow> u32 \<Rightarrow> backend \<Rightarrow> backend" where
  "writeUserRegister register v b =
     (if register < RegisterR8 then setReg register v b
      else let m = currentProcessorMode b in
        if register < RegisterSP
        then (if m = processorModeFIQ
              then b\<lparr>banks := (banks b)\<lparr>bank_userHigh :=
                       (bank_userHigh (banks b))[unat (register - RegisterR8) := v]\<rparr>\<rparr>
              else setReg register v b)
        else if register < RegisterPC
        then (if m = processorModeUser \<or> m = processorModeSystem
              then setReg register v b
              else b\<lparr>banks := (banks b)\<lparr>bank_userStackLink :=
                       (bank_userStackLink (banks b))[unat (register - RegisterSP) := v]\<rparr>\<rparr>)
        else setReg register v b)"

subsection \<open>Program status transfers\<close>

definition readProgramStatus :: "bool \<Rightarrow> backend \<Rightarrow> u32 res" where
  "readProgramStatus saved b =
     (if \<not> saved
      then (let b = resolveFlags b in (Inr (regs b RegisterCPSR), b))
      else let m = currentProcessorMode b in
        case savedStatus m b of
          None \<Rightarrow>
            (if systemBus b \<noteq> None \<and> userSystemSPSRReadAsCPSR b \<and>
                (m = processorModeUser \<or> m = processorModeSystem)
             then (let b = resolveFlags b in (Inr (regs b RegisterCPSR), b))
             else (Inl (ErrText ''SPSR is unavailable''), b))
        | Some status \<Rightarrow> (Inr status, b))"

definition programStatusWriteAllowed :: "bool \<Rightarrow> u32 \<Rightarrow> backend \<Rightarrow> bool" where
  "programStatusWriteAllowed saved fieldBits b =
     (if systemBus b \<noteq> None then True else \<not> saved \<and> fieldBits AND NOT 0x8 = 0)"

definition statusFieldMask :: "u32 \<Rightarrow> u32" where
  "statusFieldMask fieldBits =
     (if fieldBits AND 1 \<noteq> 0 then 0x000000ff else 0) OR
     (if fieldBits AND 2 \<noteq> 0 then 0x0000ff00 else 0) OR
     (if fieldBits AND 4 \<noteq> 0 then 0x00ff0000 else 0) OR
     (if fieldBits AND 8 \<noteq> 0 then 0xff000000 else 0)"

definition modeOfStatus :: "u32 \<Rightarrow> Mode" where
  "modeOfStatus status = (if status AND StatusThumb \<noteq> 0 then ModeThumb else ModeARM)"

definition writeProgramStatus :: "bool \<Rightarrow> u32 \<Rightarrow> u32 \<Rightarrow> backend \<Rightarrow> unit res" where
  "writeProgramStatus saved fieldBits v b =
     (let m = statusFieldMask fieldBits in
      if saved
      then (case savedStatus (currentProcessorMode b) b of
              None \<Rightarrow> (Inl (ErrText ''SPSR is unavailable''), b)
            | Some status \<Rightarrow>
                (Inr (), setSavedStatus (currentProcessorMode b) (status AND NOT m OR v AND m) b))
      else
        let b = resolveFlags b;
            old = regs b RegisterCPSR;
            (oldMode, oldValid) = decodeProcessorMode old;
            oldMode = (if \<not> oldValid then processorModeSystem else oldMode);
            m = (if oldMode = processorModeUser then m AND 0xff000000 else m);
            next_status = (old AND NOT m OR v AND m);
            (newMode, newValid) = decodeProcessorMode next_status
        in if m AND processorModeMask \<noteq> 0 \<and> \<not> newValid
           then (Inl (ErrText ''invalid CPSR processor mode''), b)
           else
             let b = (if newValid \<and> oldMode \<noteq> newMode then switchProcessorMode oldMode newMode b else b);
                 b = setReg RegisterCPSR next_status b;
                 b = b\<lparr>flags := (flags b)\<lparr>flags_dirty := False\<rparr>\<rparr>
             in (Inr (), b\<lparr>mode := modeOfStatus next_status\<rparr>))"

subsection \<open>Exceptions\<close>

definition statusFIQDisable :: u32 where "statusFIQDisable = 0x40"
definition statusIRQDisable :: u32 where "statusIRQDisable = 0x80"
definition vectorUndefined :: u32 where "vectorUndefined = 0x04"
definition vectorSoftware :: u32 where "vectorSoftware = 0x08"
definition vectorPrefetchAbort :: u32 where "vectorPrefetchAbort = 0x0c"
definition vectorDataAbort :: u32 where "vectorDataAbort = 0x10"
definition vectorIRQ :: u32 where "vectorIRQ = 0x18"
definition vectorFIQ :: u32 where "vectorFIQ = 0x1c"

lemmas vector_defs = vectorUndefined_def vectorSoftware_def vectorPrefetchAbort_def
  vectorDataAbort_def vectorIRQ_def vectorFIQ_def statusFIQDisable_def statusIRQDisable_def

definition exceptionVector :: "u32 \<Rightarrow> backend \<Rightarrow> u32" where
  "exceptionVector offset b =
     (if cp15_control (cp15 b) AND push_bit 13 1 \<noteq> 0 then 0xffff0000 + offset else offset)"

definition enterException :: "processorMode \<Rightarrow> u32 \<Rightarrow> u32 \<Rightarrow> backend \<Rightarrow> backend" where
  "enterException m vector returnLink b =
     (let b = resolveFlags b;
          oldStatus = regs b RegisterCPSR;
          (oldMode, valid) = decodeProcessorMode oldStatus;
          oldMode = (if \<not> valid then processorModeSystem else oldMode);
          b = (if oldMode \<noteq> m then switchProcessorMode oldMode m b else b);
          b = setSavedStatus m oldStatus b;
          b = setReg RegisterLR returnLink b;
          nextStatus = (oldStatus AND NOT (processorModeMask OR StatusThumb)
                          OR processorMode_value m OR statusIRQDisable);
          nextStatus = (if m = processorModeFIQ then nextStatus OR statusFIQDisable else nextStatus);
          b = setReg RegisterCPSR nextStatus b;
          b = setReg RegisterPC (exceptionVector vector b) b
      in b\<lparr>flags := (flags b)\<lparr>flags_dirty := False\<rparr>, mode := ModeARM\<rparr>)"

definition takePendingInterruptLines :: "u32 \<Rightarrow> backend \<Rightarrow> bool \<times> backend" where
  "takePendingInterruptLines ls b =
     (let status = regs b RegisterCPSR;
          returnLink = regs b RegisterPC + 4
      in if ls AND push_bit (unat InterruptFIQ) 1 \<noteq> 0 \<and> status AND statusFIQDisable = 0
         then (True, enterException processorModeFIQ vectorFIQ returnLink b)
         else if ls AND push_bit (unat InterruptIRQ) 1 \<noteq> 0 \<and> status AND statusIRQDisable = 0
         then (True, enterException processorModeIRQ vectorIRQ returnLink b)
         else (False, b))"

definition takePendingInterrupt :: "backend \<Rightarrow> bool \<times> backend" where
  "takePendingInterrupt b =
     (if interruptLines b = 0 then (False, b) else takePendingInterruptLines (interruptLines b) b)"

definition handleMMUFault :: "cpu_error \<Rightarrow> u32 \<Rightarrow> backend \<Rightarrow> bool \<times> backend" where
  "handleMMUFault err instrAddress b =
     (case err of
        ErrMMU fault \<Rightarrow>
          (if fault_Permission fault AND PermissionExecute \<noteq> 0
           then (True, enterException processorModeAbort vectorPrefetchAbort (instrAddress + 4) b)
           else (True, enterException processorModeAbort vectorDataAbort (instrAddress + 8) b))
      | _ \<Rightarrow> (False, b))"

definition handleCurrentMMUFault :: "cpu_error \<Rightarrow> backend \<Rightarrow> bool \<times> backend" where
  "handleCurrentMMUFault err b =
     (case err of
        ErrMMU fault \<Rightarrow>
          (let instrAddress = regs b RegisterPC;
               instrAddress =
                 (if fault_Permission fault AND PermissionExecute = 0
                  then (if mode b = ModeThumb then instrAddress - 2 else instrAddress - 4)
                  else instrAddress)
           in handleMMUFault err instrAddress b)
      | _ \<Rightarrow> (False, b))"

subsection \<open>Register access of the public interface\<close>

definition ReadRegister :: "u32 \<Rightarrow> backend \<Rightarrow> u32 res" where
  "ReadRegister ident b =
     (if closed b then (Inl ErrClosed, b)
      else if 17 \<le> ident then (Inl ErrInvalidAddress, b)
      else let b = (if ident = RegisterCPSR then resolveFlags b else b) in (Inr (regs b ident), b))"

definition writeRegisterLocked :: "u32 \<Rightarrow> u32 \<Rightarrow> backend \<Rightarrow> unit res" where
  "writeRegisterLocked ident v b =
     (if 17 \<le> ident then (Inl ErrInvalidAddress, b)
      else if ident = RegisterCPSR
      then
        let b = resolveFlags b;
            b = b\<lparr>flags := (flags b)\<lparr>flags_dirty := False\<rparr>\<rparr>;
            (oldMode, oldValid) = decodeProcessorMode (regs b ident AND processorModeMask);
            (newMode, newValid) = decodeProcessorMode (v AND processorModeMask);
            b = (if oldValid \<and> newValid \<and> oldMode \<noteq> newMode
                 then switchProcessorMode oldMode newMode b else b);
            b = setReg ident v b;
            b = b\<lparr>mode := modeOfStatus v\<rparr>
        in (Inr (), invalidateInstructionWindow b)
      else (Inr (), setReg ident v b))"

definition WriteRegister :: "u32 \<Rightarrow> u32 \<Rightarrow> backend \<Rightarrow> unit res" where
  "WriteRegister ident v b = (if closed b then (Inl ErrClosed, b) else writeRegisterLocked ident v b)"

definition SetInterruptLine :: "u8 \<Rightarrow> bool \<Rightarrow> backend \<Rightarrow> unit res" where
  "SetInterruptLine line asserted b =
     (if \<not> InterruptLine_Valid line then (Inl ErrInvalidAddress, b)
      else if closed b then (Inl ErrClosed, b)
      else let m = push_bit (unat line) 1;
               next_lines = interruptLines b AND NOT m;
               next_lines = (if asserted then next_lines OR m else next_lines)
           in (Inr (), b\<lparr>interruptLines := next_lines\<rparr>))"

subsection \<open>Bank lengths\<close>

text \<open>The arrays of \<open>bankedRegisters\<close> have fixed lengths.\<close>

definition wf_banks :: "bankedRegisters \<Rightarrow> bool" where
  "wf_banks k \<longleftrightarrow>
     length (bank_userHigh k) = 5 \<and> length (bank_userStackLink k) = 2 \<and> length (bank_fiq k) = 7 \<and>
     length (bank_irq k) = 2 \<and> length (bank_supervisor k) = 2 \<and> length (bank_abort k) = 2 \<and>
     length (bank_undefined k) = 2"

lemma length_2_list: "length xs = 2 \<longleftrightarrow> (\<exists>a b. xs = [a, b])"
  by (auto simp: numeral_2_eq_2 length_Suc_conv)

lemma length_5_list: "length xs = 5 \<longleftrightarrow> (\<exists>a b c d e. xs = [a, b, c, d, e])"
  by (auto simp: eval_nat_numeral length_Suc_conv)

lemma length_7_list: "length xs = 7 \<longleftrightarrow> (\<exists>a b c d e f g. xs = [a, b, c, d, e, f, g])"
  by (auto simp: eval_nat_numeral length_Suc_conv)

lemmas bank_defs = saveProcessorBank_def loadProcessorBank_def stackLinkBank_def
  setStackLinkBank_def getRegs_def register_defs invalidateInstructionWindow_def

lemma wf_banks_switch: "wf_banks (banks b) \<Longrightarrow> wf_banks (banks (switchProcessorMode m n b))"
  by (cases m; cases n) (simp_all add: switchProcessorMode_def wf_banks_def bank_defs)

text \<open>A switch touches r8 to r14 and the banks only.\<close>

lemma putRegs_outside: "r \<notin> (\<lambda>i. base + of_nat i) ` {..<length vs} \<Longrightarrow> putRegs base vs f r = f r"
proof (induction vs arbitrary: base f)
  case (Cons v vs)
  have "r \<noteq> base" using Cons.prems by (force simp: image_iff)
  moreover have "r \<notin> (\<lambda>i. base + 1 + of_nat i) ` {..<length vs}"
  proof
    assume "r \<in> (\<lambda>i. base + 1 + of_nat i) ` {..<length vs}"
    then obtain i where "i < length vs" "r = base + of_nat (Suc i)" by auto
    then show False using Cons.prems by (force simp: image_iff)
  qed
  ultimately show ?case using Cons.IH by simp
qed simp

lemma switchProcessorMode_low_regs:
  assumes "wf_banks (banks b)" and "r < 8 \<or> r = 15 \<or> r = 16"
  shows "regs (switchProcessorMode m n b) r = regs b r"
proof -
  have ne: "r \<noteq> 8" "r \<noteq> 9" "r \<noteq> 10" "r \<noteq> 11" "r \<noteq> 12" "r \<noteq> 13" "r \<noteq> 14"
    using assms(2) by auto
  show ?thesis
    using assms(1) ne
    by (cases m; cases n)
      (auto simp: switchProcessorMode_def wf_banks_def bank_defs length_2_list length_5_list
        length_7_list)
qed

lemma switchProcessorMode_frame [simp]:
  "mode (switchProcessorMode m n b) = mode b" "flags (switchProcessorMode m n b) = flags b"
  "cp15 (switchProcessorMode m n b) = cp15 b" "spsr (switchProcessorMode m n b) = spsr b"
  "systemBus (switchProcessorMode m n b) = systemBus b"
  "interruptLines (switchProcessorMode m n b) = interruptLines b"
  by (simp_all add: switchProcessorMode_def bank_defs)

definition ownBank :: "processorMode \<Rightarrow> bankedRegisters \<Rightarrow> u32 list" where
  "ownBank m k = (if m = processorModeFIQ then bank_fiq k else stackLinkBank m k)"

definition sharesBank :: "processorMode \<Rightarrow> processorMode \<Rightarrow> bool" where
  "sharesBank m n \<longleftrightarrow> m = n \<or>
     {m, n} \<subseteq> {processorModeUser, processorModeSystem}"

lemma banks_expand:
  assumes "wf_banks k"
  obtains u1 u2 u3 u4 u5 s1 s2 f1 f2 f3 f4 f5 f6 f7 i1 i2 v1 v2 a1 a2 d1 d2 where
    "bank_userHigh k = [u1, u2, u3, u4, u5]" "bank_userStackLink k = [s1, s2]"
    "bank_fiq k = [f1, f2, f3, f4, f5, f6, f7]" "bank_irq k = [i1, i2]"
    "bank_supervisor k = [v1, v2]" "bank_abort k = [a1, a2]" "bank_undefined k = [d1, d2]"
  using assms by (auto simp: wf_banks_def length_2_list length_5_list length_7_list)

text \<open>
  Switching to another processor mode and back loses nothing: every
  architectural register is as before, and so is the bank of the mode visited.
\<close>

theorem mode_switch_roundtrip:
  assumes "wf_banks (banks b)"
  shows "regs (switchProcessorMode n m (switchProcessorMode m n b)) = regs b \<and>
    (\<not> sharesBank m n \<longrightarrow>
       ownBank n (banks (switchProcessorMode n m (switchProcessorMode m n b))) = ownBank n (banks b))"
  using assms
proof (rule banks_expand)
  fix u1 u2 u3 u4 u5 s1 s2 f1 f2 f3 f4 f5 f6 f7 i1 i2 v1 v2 a1 a2 d1 d2
  assume k: "bank_userHigh (banks b) = [u1, u2, u3, u4, u5]" "bank_userStackLink (banks b) = [s1, s2]"
    "bank_fiq (banks b) = [f1, f2, f3, f4, f5, f6, f7]" "bank_irq (banks b) = [i1, i2]"
    "bank_supervisor (banks b) = [v1, v2]" "bank_abort (banks b) = [a1, a2]"
    "bank_undefined (banks b) = [d1, d2]"
  show ?thesis
    by (cases m; cases n)
      (auto simp: switchProcessorMode_def ownBank_def sharesBank_def bank_defs k fun_eq_iff)
qed

lemma wf_banks_New [simp]: "wf_banks (banks (New t))"
  by (simp add: New_def NewWithMemoryLimit_def zeroBanks_def wf_banks_def)

theorem mode_switch_roundtrip_witness:
  "wf_banks (banks (New False)) \<and>
   \<not> sharesBank processorModeUser processorModeIRQ \<and>
   regs (switchProcessorMode processorModeIRQ processorModeUser
     (switchProcessorMode processorModeUser processorModeIRQ (setReg 13 7 (New False)))) 13 = 7"
proof -
  have wf: "wf_banks (banks (setReg 13 7 (New False)))"
    using wf_banks_New [of False] by (simp add: setReg_def)
  show ?thesis
    using mode_switch_roundtrip [OF wf, of processorModeIRQ processorModeUser]
    by (simp add: sharesBank_def)
qed

subsection \<open>The User view\<close>

lemma less_15_enum:
  assumes "(x :: u32) < 15"
  shows "x \<in> {0, 1, 2, 3, 4, 5, 6, 7, 8, 9, 10, 11, 12, 13, 14}"
proof -
  have "unat x \<in> set [0..<15]" using assms by (simp add: word_less_nat_alt)
  then have "x \<in> of_nat ` set [0..<15]" by (intro image_eqI [of _ _ "unat x"]) simp_all
  then show ?thesis by (simp add: upt_rec)
qed

lemma readUserRegister_switch:
  assumes "wf_banks (banks b)" and "r < 15"
  shows "readUserRegister r b = regs (switchProcessorMode (currentProcessorMode b) processorModeUser b) r"
  using assms(1)
proof (rule banks_expand)
  fix u1 u2 u3 u4 u5 s1 s2 f1 f2 f3 f4 f5 f6 f7 i1 i2 v1 v2 a1 a2 d1 d2
  assume k: "bank_userHigh (banks b) = [u1, u2, u3, u4, u5]" "bank_userStackLink (banks b) = [s1, s2]"
    "bank_fiq (banks b) = [f1, f2, f3, f4, f5, f6, f7]" "bank_irq (banks b) = [i1, i2]"
    "bank_supervisor (banks b) = [v1, v2]" "bank_abort (banks b) = [a1, a2]"
    "bank_undefined (banks b) = [d1, d2]"
  show ?thesis
    using less_15_enum [OF assms(2)]
    by (cases "currentProcessorMode b")
      (auto simp: readUserRegister_def Let_def switchProcessorMode_def bank_defs k)
qed

lemma currentProcessorMode_writeUser:
  "r < 15 \<Longrightarrow> currentProcessorMode (writeUserRegister r v b) = currentProcessorMode b"
  by (auto simp: writeUserRegister_def Let_def currentProcessorMode_def register_defs)

lemma bank_index_bounds:
  "\<not> q < 8 \<Longrightarrow> q < 13 \<Longrightarrow> unat (q - 8 :: u32) < 5"
  "\<not> q < 13 \<Longrightarrow> q < 15 \<Longrightarrow> unat (q - 13 :: u32) < 2"
  by (auto simp: unat_sub word_le_nat_alt word_less_nat_alt not_less)

definition inUserBank :: "u32 \<Rightarrow> processorMode \<Rightarrow> bool" where
  "inUserBank r m \<longleftrightarrow>
     8 \<le> r \<and> (r < 13 \<and> m = processorModeFIQ \<or>
       13 \<le> r \<and> r < 15 \<and> m \<noteq> processorModeUser \<and> m \<noteq> processorModeSystem)"

lemma readUserRegister_live:
  "\<not> inUserBank r (currentProcessorMode b) \<Longrightarrow> readUserRegister r b = regs b r"
  by (auto simp: inUserBank_def readUserRegister_def Let_def register_defs not_less)

lemma writeUserRegister_live:
  "\<not> inUserBank r (currentProcessorMode b) \<Longrightarrow> writeUserRegister r v b = setReg r v b"
  by (auto simp: inUserBank_def writeUserRegister_def Let_def register_defs not_less)

lemma read_writeUserRegister:
  assumes "wf_banks (banks b)" and "r < 15" and "q < 15"
  shows "readUserRegister q (writeUserRegister r v b) = (if q = r then v else readUserRegister q b)"
proof -
  define m where "m = currentProcessorMode b"
  note mode = currentProcessorMode_writeUser [OF assms(2), of v b, folded m_def]
  show ?thesis
  proof (cases "inUserBank r m")
    case False
    have "currentProcessorMode (setReg r v b) = m"
      using False mode by (simp add: m_def writeUserRegister_live)
    then show ?thesis
      using False by (cases "q = r")
        (auto simp: m_def writeUserRegister_live readUserRegister_live
          readUserRegister_def [of q] Let_def setReg_def)
  next
    case True
    show ?thesis
    proof (cases "inUserBank q m")
      case False
      then have "readUserRegister q (writeUserRegister r v b) = regs (writeUserRegister r v b) q"
        using mode by (simp add: readUserRegister_live)
      moreover have "regs (writeUserRegister r v b) q = regs b q" and "q \<noteq> r"
        using True False assms(2)
        by (auto simp: writeUserRegister_def Let_def inUserBank_def m_def register_defs)
      ultimately show ?thesis using False by (simp add: readUserRegister_live m_def)
    next
      case Q: True
      have split: "(\<not> x < 8 \<and> x < 13 \<and> m = processorModeFIQ) \<or>
          (\<not> x < 8 \<and> \<not> x < 13 \<and> m \<noteq> processorModeUser \<and> m \<noteq> processorModeSystem)"
        if "inUserBank x m" for x
        using that by (auto simp: inUserBank_def not_less)
      from split [OF True] split [OF Q] show ?thesis
        using assms mode bank_index_bounds [of q] bank_index_bounds [of r]
        by (elim disjE) (auto simp add: readUserRegister_def writeUserRegister_def Let_def
            register_defs wf_banks_def m_def [symmetric] nth_list_update simp flip: word_unat_eq_iff)
    qed
  qed
qed

text \<open>
   The S-bit block transfers see the User bank: in every mode, what
  \<open>readUserRegister\<close> returns for r0 to r14 is what the register would hold after
  switching to User mode, and \<open>writeUserRegister\<close> changes that view at the register
  written and nowhere else.
\<close>

theorem user_view_is_user_mode:
  assumes "wf_banks (banks b)" and "r < 15" and "q < 15"
  shows "readUserRegister r b = regs (switchProcessorMode (currentProcessorMode b) processorModeUser b) r \<and>
    readUserRegister q (writeUserRegister r v b) = (if q = r then v else readUserRegister q b)"
  using readUserRegister_switch [OF assms(1,2)] read_writeUserRegister [OF assms] by blast

theorem user_view_is_user_mode_witness:
  "wf_banks (banks (setReg 16 0x12 (New False))) \<and> (13 :: u32) < 15 \<and>
   readUserRegister 13 (writeUserRegister 13 7 (setReg 16 0x12 (New False))) = 7 \<and>
   regs (writeUserRegister 13 7 (setReg 16 0x12 (New False))) 13 = 0"
proof -
  have wf: "wf_banks (banks (setReg 16 0x12 (New False)))"
    using wf_banks_New [of False] by (simp add: setReg_def)
  have lt: "(13 :: u32) < 15" by simp
  show ?thesis
    using wf lt user_view_is_user_mode [OF wf lt lt, of 7]
    by (simp add: writeUserRegister_def Let_def register_defs currentProcessorMode_def
        decodeProcessorMode_def processorModeMask_def New_def NewWithMemoryLimit_def setReg_def)
qed

subsection \<open>Exception entry and return\<close>

fun exceptionMode :: "processorMode \<Rightarrow> bool" where
  "exceptionMode processorModeUser = False"
| "exceptionMode processorModeSystem = False"
| "exceptionMode _ = True"

lemma decode_value [simp]:
  "decodeProcessorMode (x AND NOT (processorModeMask OR StatusThumb) OR processorMode_value m OR y) =
     (m, True)" if "y AND processorModeMask = 0"
proof -
  have v: "processorMode_value m AND processorModeMask = processorMode_value m"
    by (cases m) (simp_all add: processorModeMask_def)
  have "(x AND NOT (processorModeMask OR StatusThumb)) AND processorModeMask = 0"
    by (rule bit_word_eqI) (auto simp: bit_and_iff bit_not_iff bit_or_iff)
  then have "(x AND NOT (processorModeMask OR StatusThumb) OR processorMode_value m OR y) AND
      processorModeMask = processorMode_value m"
    using that by (simp only: bit.conj_disj_distrib2 v) simp
  then show ?thesis
    by (cases m) (simp_all add: decodeProcessorMode_def Let_def)
qed


lemma switch_cong:
  "regs b = regs b' \<Longrightarrow> banks b = banks b' \<Longrightarrow>
     regs (switchProcessorMode m n b) = regs (switchProcessorMode m n b')"
  by (cases m; cases n) (simp_all add: switchProcessorMode_def bank_defs)

lemma switch_back_regs:
  assumes "wf_banks (banks b)" and "exceptionMode m" and "om \<noteq> m" and "r < 15"
  shows "regs (switchProcessorMode m om ((switchProcessorMode om m b)
    \<lparr>regs := (regs (switchProcessorMode om m b))(14 := l, 16 := st, 15 := p)\<rparr>)) r = regs b r"
  using assms(1)
proof (rule banks_expand)
  fix u1 u2 u3 u4 u5 s1 s2 f1 f2 f3 f4 f5 f6 f7 i1 i2 v1 v2 a1 a2 d1 d2
  assume k: "bank_userHigh (banks b) = [u1, u2, u3, u4, u5]" "bank_userStackLink (banks b) = [s1, s2]"
    "bank_fiq (banks b) = [f1, f2, f3, f4, f5, f6, f7]" "bank_irq (banks b) = [i1, i2]"
    "bank_supervisor (banks b) = [v1, v2]" "bank_abort (banks b) = [a1, a2]"
    "bank_undefined (banks b) = [d1, d2]"
  have "r \<noteq> 15" "r \<noteq> 16" using assms(4) by auto
  with assms(2,3) show ?thesis
    by (cases om; cases m) (auto simp: switchProcessorMode_def bank_defs k)
qed

text \<open>The state an exception handler starts in.\<close>

definition entryStatus :: "processorMode \<Rightarrow> u32 \<Rightarrow> u32" where
  "entryStatus m old =
     (let st = old AND NOT (processorModeMask OR StatusThumb) OR processorMode_value m OR statusIRQDisable
      in if m = processorModeFIQ then st OR statusFIQDisable else st)"

definition entryMasks :: "processorMode \<Rightarrow> u32" where
  "entryMasks m = (if m = processorModeFIQ then statusIRQDisable OR statusFIQDisable else statusIRQDisable)"

lemma entryStatus_alt:
  "entryStatus m old =
     old AND NOT (processorModeMask OR StatusThumb) OR processorMode_value m OR entryMasks m"
  by (cases "m = processorModeFIQ") (simp_all only: entryStatus_def entryMasks_def Let_def or.assoc if_True if_False simp_thms)

lemma decode_entryStatus [simp]: "decodeProcessorMode (entryStatus m old) = (m, True)"
  unfolding entryStatus_alt
  by (rule decode_value) (simp add: entryMasks_def vector_defs processorModeMask_def)

lemma setSavedStatus_frame [simp]:
  "regs (setSavedStatus m v b) = regs b" "banks (setSavedStatus m v b) = banks b"
  "cp15 (setSavedStatus m v b) = cp15 b" "flags (setSavedStatus m v b) = flags b"
  "interruptLines (setSavedStatus m v b) = interruptLines b"
  "systemBus (setSavedStatus m v b) = systemBus b" "mode (setSavedStatus m v b) = mode b"
  by (cases m; simp add: setSavedStatus_def)+

lemma savedStatus_set: "exceptionMode m \<Longrightarrow> savedStatus m (setSavedStatus m v b) = Some v"
  by (cases m) (simp_all add: savedStatus_def setSavedStatus_def)

lemma savedStatus_spsr: "spsr b = spsr b' \<Longrightarrow> savedStatus m b = savedStatus m b'"
  by (cases m) (simp_all add: savedStatus_def)

lemma resolve_frame [simp]:
  "banks (resolveFlags b) = banks b" "cp15 (resolveFlags b) = cp15 b" "spsr (resolveFlags b) = spsr b"
  "systemBus (resolveFlags b) = systemBus b" "mode (resolveFlags b) = mode b"
  "interruptLines (resolveFlags b) = interruptLines b"
  "flags_dirty (flags (resolveFlags b)) = False"
  by (simp_all add: resolveFlags_def noFlags_def)

lemma resolve_regs: "r \<noteq> 16 \<Longrightarrow> regs (resolveFlags b) r = regs b r"
  by (simp add: resolveFlags_def register_defs)

lemma regs_resolve_cpsr: "regs (resolveFlags b) 16 = cpsr b"
  by (simp add: cpsr_def register_defs)

lemma enterException_entry:
  assumes "decodeProcessorMode (cpsr b) = (om, True)" and "om \<noteq> m"
  defines "s \<equiv> switchProcessorMode om m (resolveFlags b)"
  shows "regs (enterException m vec l b) =
      (regs s)(14 := l, 16 := entryStatus m (cpsr b), 15 := exceptionVector vec b)"
    and "banks (enterException m vec l b) = banks s"
    and "exceptionMode m \<Longrightarrow> savedStatus m (enterException m vec l b) = Some (cpsr b)"
    and "mode (enterException m vec l b) = ModeARM"
    and "flags_dirty (flags (enterException m vec l b)) = False"
  using assms(1,2) savedStatus_set [of m "cpsr b" s]
  by (auto simp: enterException_def Let_def regs_resolve_cpsr register_defs entryStatus_def s_def
      exceptionVector_def setReg_def savedStatus_def cong: processorMode.case_cong)


lemma fieldMask_all [simp]: "statusFieldMask 0xf = - 1"
  by (simp add: statusFieldMask_def)

text \<open>
   Exceptions are transparent to the code they interrupt: entering one saves
  the full status, starts the handler in ARM state with IRQ masked (and FIQ, for a
  FIQ), in the exception's mode, at its vector and with the return link; the
  return through the saved status then succeeds and restores the status, the
  instruction set and r0 to r14 of the interrupted mode.
\<close>

theorem exception_roundtrip:
  assumes valid: "decodeProcessorMode (cpsr b) = (om, True)"
    and exc: "exceptionMode m" and other: "om \<noteq> m" and wf: "wf_banks (banks b)"
    and h: "h = enterException m vec l b"
  shows "currentProcessorMode h = m \<and> mode h = ModeARM \<and> regs h RegisterLR = l \<and>
    regs h RegisterPC = exceptionVector vec b \<and>
    cpsr h AND statusIRQDisable \<noteq> 0 \<and> (m = processorModeFIQ \<longrightarrow> cpsr h AND statusFIQDisable \<noteq> 0) \<and>
    savedStatus m h = Some (cpsr b) \<and>
    (\<exists>u. writeProgramStatus False 0xf (cpsr b) h = (Inr (), u) \<and>
       cpsr u = cpsr b \<and> mode u = modeOfStatus (cpsr b) \<and> (\<forall>r < 15. regs u r = regs b r))"
proof -
  define s where "s = switchProcessorMode om m (resolveFlags b)"
  note entry = enterException_entry [OF valid other, of vec l, folded h s_def]
  have st: "cpsr h = entryStatus m (cpsr b)"
    by (simp add: cpsr_def resolveFlags_def entry register_defs)
  have rh: "resolveFlags h = h" by (simp add: resolveFlags_def entry)
  have bits: "bit (entryStatus m (cpsr b)) 7" "m = processorModeFIQ \<longrightarrow> bit (entryStatus m (cpsr b)) 6"
    by (auto simp: entryStatus_alt entryMasks_def bit_or_iff vector_defs)
  then have masks: "cpsr h AND statusIRQDisable \<noteq> 0"
      "m = processorModeFIQ \<longrightarrow> cpsr h AND statusFIQDisable \<noteq> 0"
    using and_exp_eq_0_iff_not_bit [of "cpsr h" 7] and_exp_eq_0_iff_not_bit [of "cpsr h" 6]
    by (auto simp: st vector_defs)
  define u where "u = (setReg RegisterCPSR (cpsr b) (switchProcessorMode m om h))
    \<lparr>flags := (flags h)\<lparr>flags_dirty := False\<rparr>, mode := modeOfStatus (cpsr b)\<rparr>"
  have m_user: "m \<noteq> processorModeUser" using exc by auto
  have ret: "writeProgramStatus False 0xf (cpsr b) h = (Inr (), u)"
    using valid other m_user
    by (simp add: writeProgramStatus_def Let_def rh entry register_defs u_def setReg_def)
  have "regs u r = regs b r" if "r < 15" for r
  proof -
    have "r \<noteq> 16" using that by auto
    then have "regs u r = regs (switchProcessorMode m om h) r"
      by (simp add: u_def register_defs)
    also have "\<dots> = regs (switchProcessorMode m om
        (s\<lparr>regs := (regs s)(14 := l, 16 := entryStatus m (cpsr b), 15 := exceptionVector vec b)\<rparr>)) r"
      by (rule fun_cong [OF switch_cong]) (simp_all add: entry)
    also have "\<dots> = regs (resolveFlags b) r"
      unfolding s_def by (rule switch_back_regs) (use wf exc other that in simp_all)
    finally show ?thesis using \<open>r \<noteq> 16\<close> by (simp add: resolve_regs)
  qed
  moreover have "regs u RegisterCPSR = cpsr b" and "\<not> flags_dirty (flags u)"
      and "mode u = modeOfStatus (cpsr b)"
    by (simp_all add: u_def)
  moreover from this have "cpsr u = cpsr b" by (simp add: cpsr_def [of u] resolveFlags_def)
  moreover have "currentProcessorMode h = m"
    by (simp add: currentProcessorMode_def entry register_defs)
  ultimately show ?thesis
    using masks ret entry(3) [OF exc] by (auto simp: entry register_defs)
qed


definition user_machine :: backend where
  "user_machine = setReg 13 0x1000 (setReg 16 0x30 (New False))"

lemma user_machine_facts:
  "wf_banks (banks user_machine)" "cpsr user_machine = 0x30" "interruptLines user_machine = 0"
  "regs user_machine 16 = 0x30" "regs user_machine 15 = 0" "regs user_machine 13 = 0x1000"
  by (simp_all add: user_machine_def New_def NewWithMemoryLimit_def setReg_def zeroBanks_def
      wf_banks_def cpsr_def resolveFlags_def noFlags_def register_defs)

theorem exception_roundtrip_witness:
  "decodeProcessorMode (cpsr user_machine) = (processorModeUser, True) \<and>
   exceptionMode processorModeIRQ \<and> wf_banks (banks user_machine) \<and>
   (\<exists>u. writeProgramStatus False 0xf 0x30
       (enterException processorModeIRQ vectorIRQ 4 user_machine) = (Inr (), u) \<and>
     cpsr u = 0x30 \<and> mode u = ModeThumb \<and> regs u 13 = 0x1000)"
proof -
  have d: "decodeProcessorMode (cpsr user_machine) = (processorModeUser, True)"
    by (simp add: user_machine_facts decodeProcessorMode_def processorModeMask_def)
  have e: "exceptionMode processorModeIRQ" and n: "processorModeUser \<noteq> processorModeIRQ" by simp_all
  note r = exception_roundtrip [OF d e n user_machine_facts(1) refl, of vectorIRQ 4]
  have t: "modeOfStatus 0x30 = ModeThumb" by (simp add: modeOfStatus_def StatusThumb_def)
  have l: "(13 :: u32) < 15" by simp
  from r obtain u where u: "writeProgramStatus False 0xf (cpsr user_machine)
      (enterException processorModeIRQ vectorIRQ 4 user_machine) = (Inr (), u)"
      "cpsr u = cpsr user_machine" "mode u = modeOfStatus (cpsr user_machine)"
      "\<forall>r < 15. regs u r = regs user_machine r" by blast
  have "regs u 13 = 0x1000" using u(4) l by (simp add: user_machine_facts)
  with u d e t user_machine_facts show ?thesis by (auto intro!: exI [of _ u])
qed

subsection \<open>Interrupt delivery\<close>

definition line_asserted :: "u8 \<Rightarrow> backend \<Rightarrow> bool" where
  "line_asserted line b \<longleftrightarrow> interruptLines b AND push_bit (unat line) 1 \<noteq> 0"

lemma line_asserted_bits:
  "line_asserted InterruptIRQ b \<longleftrightarrow> bit (interruptLines b) 0"
  "line_asserted InterruptFIQ b \<longleftrightarrow> bit (interruptLines b) 1"
  using and_exp_eq_0_iff_not_bit [of "interruptLines b" 0]
    and_exp_eq_0_iff_not_bit [of "interruptLines b" 1]
  by (auto simp: line_asserted_def InterruptIRQ_def InterruptFIQ_def)

lemma enterException_interruptLines [simp]:
  "interruptLines (enterException m vec l b) = interruptLines b"
  by (auto simp: enterException_def Let_def setReg_def split: prod.split)

lemma enterException_masks:
  "regs (enterException m vec l b) 16 AND statusIRQDisable \<noteq> 0"
  "m = processorModeFIQ \<Longrightarrow> regs (enterException m vec l b) 16 AND statusFIQDisable \<noteq> 0"
proof -
  have st: "regs (enterException m vec l b) 16 = entryStatus m (cpsr b)" for m
    by (auto simp: enterException_def Let_def setReg_def register_defs entryStatus_def
        regs_resolve_cpsr split: prod.split)
  have "bit (entryStatus m (cpsr b)) 7" "m = processorModeFIQ \<Longrightarrow> bit (entryStatus m (cpsr b)) 6"
    by (auto simp: entryStatus_alt entryMasks_def bit_or_iff vector_defs)
  then show "regs (enterException m vec l b) 16 AND statusIRQDisable \<noteq> 0"
    "m = processorModeFIQ \<Longrightarrow> regs (enterException m vec l b) 16 AND statusFIQDisable \<noteq> 0"
    using and_exp_eq_0_iff_not_bit [of "entryStatus m (cpsr b)" 7]
      and_exp_eq_0_iff_not_bit [of "entryStatus m (cpsr b)" 6]
    by (auto simp: st vector_defs)
qed

text \<open>
  C39.  Interrupt delivery: an instruction boundary takes a FIQ when its line is
  asserted and unmasked, otherwise an IRQ when asserted and unmasked, otherwise
  nothing and the state is untouched.  Delivery masks what it delivered: while the
  level inputs stay up, the next boundary takes nothing after a FIQ, and after an
  IRQ only a FIQ can follow.
\<close>

theorem interrupt_delivery:
  "takePendingInterrupt b =
     (if line_asserted InterruptFIQ b \<and> regs b RegisterCPSR AND statusFIQDisable = 0
      then (True, enterException processorModeFIQ vectorFIQ (regs b RegisterPC + 4) b)
      else if line_asserted InterruptIRQ b \<and> regs b RegisterCPSR AND statusIRQDisable = 0
      then (True, enterException processorModeIRQ vectorIRQ (regs b RegisterPC + 4) b)
      else (False, b)) \<and>
   takePendingInterrupt (enterException processorModeFIQ vec l b) =
     (False, enterException processorModeFIQ vec l b) \<and>
   (fst (takePendingInterrupt (enterException processorModeIRQ vec l b)) \<longleftrightarrow>
      line_asserted InterruptFIQ b \<and>
      regs (enterException processorModeIRQ vec l b) RegisterCPSR AND statusFIQDisable = 0)"
proof -
  have take_eq: "takePendingInterrupt s =
     (if line_asserted InterruptFIQ s \<and> regs s RegisterCPSR AND statusFIQDisable = 0
      then (True, enterException processorModeFIQ vectorFIQ (regs s RegisterPC + 4) s)
      else if line_asserted InterruptIRQ s \<and> regs s RegisterCPSR AND statusIRQDisable = 0
      then (True, enterException processorModeIRQ vectorIRQ (regs s RegisterPC + 4) s)
      else (False, s))" for s
    by (simp add: takePendingInterrupt_def takePendingInterruptLines_def Let_def line_asserted_def)
  show ?thesis
    using enterException_masks [of processorModeFIQ vec l b]
      enterException_masks(1) [of processorModeIRQ vec l b]
    by (simp add: take_eq line_asserted_def register_defs)
qed

end
