(* ===== verification/Cpu_Memory.thy ===== *)
theory Cpu_Memory
  imports Cpu_Privileged "HOL-Library.Multiset"
begin

text \<open>
  Physical memory of the interpreter: private region mapping and lookup
  (\<open>Map\<close>, \<open>findRegion\<close> of src/cpu/interpreter/backend.go), the page-indexed data
  window cache, bus transfers and the bulk copies \<open>copyOut\<close> and \<open>copyIn\<close>
  (memory.go).  The second half of the theory gives the byte-wise specification of
  guest memory and shows that region lookup and bulk copies implement it.
\<close>

subsection \<open>Mapping\<close>

definition overlaps :: "u32 \<Rightarrow> nat \<Rightarrow> region \<Rightarrow> bool" where
  "overlaps address en r \<longleftrightarrow>
     unat address < unat (region_address r) + unat (region_size r) \<and> unat (region_address r) < en"

text \<open>
  \<open>make([]byte, size)\<close> allocates a fresh zeroed array; the sorted region list is
  unique because mapped addresses are distinct, so \<open>sort.Slice\<close> is \<open>sort_key\<close>.
\<close>

definition Map_op :: "u32 \<Rightarrow> u32 \<Rightarrow> Permissions \<Rightarrow> backend \<Rightarrow> unit res" where
  "Map_op address sz permissions b =
     (if closed b then (Inl ErrClosed, b)
      else if systemBus b \<noteq> None then (Inl ErrInvalidMapping, b)
      else
        let en = unat address + unat sz in
        if sz = 0 \<or> 2 ^ 32 < en \<or> \<not> Permissions_Valid permissions \<or>
           (ucast sz :: u64) > memoryLimit b - mapped b
        then (Inl ErrInvalidMapping, b)
        else if \<exists>r \<in> set (regions b). overlaps address en r then (Inl ErrInvalidMapping, b)
        else
          let r = \<lparr>region_address = address, region_size = sz, region_permissions = permissions,
                   region_data = arraysNext b\<rparr>;
              b = b\<lparr>arrays := (arrays b)(arraysNext b := replicate (unat sz) 0),
                    arraysNext := arraysNext b + 1,
                    regions := sort_key region_address (regions b @ [r]),
                    mapped := mapped b + ucast sz,
                    regionHints := (\<lambda>_. 0),
                    executeData := None\<rparr>
          in (Inr (), clearDataCaches (invalidateInstructionWindow b)))"

definition AttachSystemBus :: "MemoryBus option \<Rightarrow> backend \<Rightarrow> unit res" where
  "AttachSystemBus bus b =
     (if closed b then (Inl ErrClosed, b)
      else case bus of
        None \<Rightarrow> (Inl (ErrText ''attach system bus: nil bus''), b)
      | Some _ \<Rightarrow>
          if systemBus b \<noteq> None then (Inl (ErrText ''attach system bus: already attached''), b)
          else if mapped b \<noteq> 0 then (Inl ErrInvalidMapping, b)
          else
            let b = invalidateTranslations b;
                b = refreshPhysicalAccess (b\<lparr>systemBus := bus\<rparr>);
                b = b\<lparr>regionHints := (\<lambda>_. 0), executeData := None\<rparr>
            in (Inr (), clearDataCaches (invalidateInstructionWindow b)))"

subsection \<open>Region lookup\<close>

definition region_end :: "region \<Rightarrow> nat" where
  "region_end r = unat (region_address r) + unat (region_size r)"

definition region_contains :: "region \<Rightarrow> u32 \<Rightarrow> bool" where
  "region_contains r address \<longleftrightarrow> region_address r \<le> address \<and> unat address < region_end r"

definition findRegion :: "u32 \<Rightarrow> Permissions \<Rightarrow> backend \<Rightarrow> (region \<times> nat) res" where
  "findRegion address permission b =
     (let hintSlot = unat permission;
          hint = regionHints b hintSlot
      in if hintSlot < 8 \<and> hint < length (regions b) \<and> region_contains (regions b ! hint) address
         then (let r = regions b ! hint in
               if region_permissions r AND permission \<noteq> permission
               then (Inl ErrPermissionDenied, b)
               else (Inr (r, unat (address - region_address r)), b))
         else
           let index = Search (length (regions b)) (\<lambda>i. unat address < region_end (regions b ! i)) in
           if length (regions b) \<le> index \<or> address < region_address (regions b ! index)
           then (Inl ErrInvalidAddress, b)
           else
             let r = regions b ! index;
                 b = (if hintSlot < 8
                      then b\<lparr>regionHints := (regionHints b)(hintSlot := index)\<rparr> else b)
             in if region_permissions r AND permission \<noteq> permission
                then (Inl ErrPermissionDenied, b)
                else (Inr (r, unat (address - region_address r)), b))"

subsection \<open>The data window cache\<close>

definition privateDataCacheIndex :: "u32 \<Rightarrow> Permissions \<Rightarrow> u32" where
  "privateDataCacheIndex address permission =
     (drop_bit 12 address XOR drop_bit 20 address XOR ucast permission) AND 63"

text \<open>
  The portable build checks the three conditions separately
  (\<open>foldPrivateScalarBounds = false\<close>, private_data_bounds_other.go).  A hit is the
  array and the offset in it.
\<close>

definition privateDataHit :: "u32 \<Rightarrow> nat \<Rightarrow> Permissions \<Rightarrow> backend \<Rightarrow> (nat \<times> nat \<times> Permissions) option" where
  "privateDataHit address sz permission b =
     (let entry = privateDataCache b (privateDataCacheIndex address permission) in
      case cache_data entry of
        None \<Rightarrow> None
      | Some d \<Rightarrow>
          if cache_perms entry AND permission \<noteq> permission \<or> address < cache_address entry then None
          else let offset = unat (address - cache_address entry) in
            if length (arrays b d) < offset + sz then None
            else Some (d, offset, cache_perms entry))"

definition cacheData :: "region \<Rightarrow> u32 \<Rightarrow> Permissions \<Rightarrow> backend \<Rightarrow> backend" where
  "cacheData r address access b =
     b\<lparr>privateDataCache := (privateDataCache b)(privateDataCacheIndex address access :=
        \<lparr>cache_address = region_address r, cache_perms = region_permissions r,
         cache_data = Some (region_data r)\<rparr>)\<rparr>"

subsection \<open>Bus transfers\<close>

definition physicalTransferWidth :: "u32 \<Rightarrow> nat \<Rightarrow> nat" where
  "physicalTransferWidth address remaining =
     (if address AND 3 = 0 \<and> 4 \<le> remaining then 4
      else if address AND 1 = 0 \<and> 2 \<le> remaining then 2
      else 1)"

text \<open>With no bus attached the callers never get here; the nil call panics.\<close>

definition readSystemBus :: "u32 \<Rightarrow> nat \<Rightarrow> Permissions \<Rightarrow> backend \<Rightarrow> u8 list res" where
  "readSystemBus address n permission b =
     (case systemBus b of
        None \<Rightarrow> (Inl (ErrText ''nil bus''), b)
      | Some bus \<Rightarrow>
          (let (r, bus') = bus_Read bus address n permission;
               b = b\<lparr>systemBus := Some bus'\<rparr>
           in case r of Inl e \<Rightarrow> (Inl e, b) | Inr f \<Rightarrow> (Inr (map f [0..<n]), b)))"

definition writeSystemBus :: "u32 \<Rightarrow> u8 list \<Rightarrow> Permissions \<Rightarrow> backend \<Rightarrow> unit res" where
  "writeSystemBus address source permission b =
     (case systemBus b of
        None \<Rightarrow> (Inl (ErrText ''nil bus''), b)
      | Some bus \<Rightarrow>
          (let (r, bus') = bus_Write bus address source permission;
               b = b\<lparr>systemBus := Some bus'\<rparr>
           in case r of Some e \<Rightarrow> (Inl e, b) | None \<Rightarrow> (Inr (), b)))"

lemma physicalTransferWidth_pos: "0 < physicalTransferWidth a n"
  by (simp add: physicalTransferWidth_def)

function copyOutBus :: "u32 \<Rightarrow> nat \<Rightarrow> Permissions \<Rightarrow> backend \<Rightarrow> u8 list res" where
  "copyOutBus current remaining permission b =
     (if remaining = 0 then (Inr [], b)
      else
        let count = physicalTransferWidth current remaining in
        and_then (readSystemBus current count permission b)
          (\<lambda>bytes b.
             and_then (copyOutBus (current + of_nat count) (remaining - count) permission b)
               (\<lambda>rest b. (Inr (bytes @ rest), b))))"
  by pat_completeness auto
termination
  by (relation "measure (\<lambda>(_, n, _, _). n)") (simp_all add: physicalTransferWidth_pos)

declare copyOutBus.simps [simp del]

function copyInBus :: "u32 \<Rightarrow> u8 list \<Rightarrow> Permissions \<Rightarrow> backend \<Rightarrow> unit res" where
  "copyInBus current remaining permission b =
     (if remaining = [] then (Inr (), b)
      else
        let count = physicalTransferWidth current (length remaining) in
        and_then (writeSystemBus current (take count remaining) permission b)
          (\<lambda>_ b. copyInBus (current + of_nat count) (drop count remaining) permission b))"
  by pat_completeness auto
termination
  by (relation "measure (\<lambda>(_, xs, _, _). length xs)") (simp_all add: physicalTransferWidth_pos)

declare copyInBus.simps [simp del]

subsection \<open>Bulk copies through private regions\<close>

text \<open>
  One iteration takes \<open>min(remaining, len(data) - offset)\<close> bytes from the region
  that holds the current address.  A region is never empty and \<open>findRegion\<close> returns
  an offset inside it, so the count is positive; the fuel (the number of bytes left)
  only makes the recursion structural.  Running out of it with bytes left would be a
  loop that makes no progress; that it never happens is part of the refinement
  below.
\<close>

fun copyOutLoop :: "nat \<Rightarrow> u32 \<Rightarrow> nat \<Rightarrow> Permissions \<Rightarrow> backend \<Rightarrow> u8 list res" where
  "copyOutLoop 0 current remaining permission b =
     (if remaining = 0 then (Inr [], b) else (Inl (ErrText ''no progress''), b))"
| "copyOutLoop (Suc fuel) current remaining permission b =
     (if remaining = 0 then (Inr [], b)
      else and_then (findRegion current permission b)
        (\<lambda>(r, offset) b.
           let count = min remaining (length (arrays b (region_data r)) - offset);
               bytes = slice (arrays b (region_data r)) offset count
           in if remaining - count = 0 then (Inr bytes, b)
              else if 2 ^ 32 - 1 < unat current + count then (Inl ErrInvalidAddress, b)
              else and_then
                (copyOutLoop fuel (current + of_nat count) (remaining - count) permission b)
                (\<lambda>rest b. (Inr (bytes @ rest), b))))"

definition copyOut :: "u32 \<Rightarrow> nat \<Rightarrow> Permissions \<Rightarrow> backend \<Rightarrow> u8 list res" where
  "copyOut address n permission b =
     (if n = 0 then (Inr [], b)
      else if systemBus b \<noteq> None then copyOutBus address n permission b
      else copyOutLoop n address n permission b)"

definition storeBytes :: "nat \<Rightarrow> nat \<Rightarrow> u8 list \<Rightarrow> backend \<Rightarrow> backend" where
  "storeBytes d offset bytes b =
     b\<lparr>arrays := (arrays b)(d := overwrite (arrays b d) offset bytes)\<rparr>"

fun copyInLoop :: "nat \<Rightarrow> u32 \<Rightarrow> u8 list \<Rightarrow> Permissions \<Rightarrow> backend \<Rightarrow> unit res" where
  "copyInLoop 0 current remaining permission b =
     (if remaining = [] then (Inr (), b) else (Inl (ErrText ''no progress''), b))"
| "copyInLoop (Suc fuel) current remaining permission b =
     (if remaining = [] then (Inr (), b)
      else and_then (findRegion current permission b)
        (\<lambda>(r, offset) b.
           let count = min (length remaining) (length (arrays b (region_data r)) - offset);
               b = storeBytes (region_data r) offset (take count remaining) b;
               remaining = drop count remaining
           in if remaining = [] then (Inr (), b)
              else if 2 ^ 32 - 1 < unat current + count then (Inl ErrInvalidAddress, b)
              else copyInLoop fuel (current + of_nat count) remaining permission b))"

definition copyIn :: "u32 \<Rightarrow> u8 list \<Rightarrow> Permissions \<Rightarrow> backend \<Rightarrow> unit res" where
  "copyIn address source permission b =
     (if source = [] then (Inr (), b)
      else if systemBus b \<noteq> None then copyInBus address source permission b
      else copyInLoop (length source) address source permission b)"

definition readPhysical32 :: "u32 \<Rightarrow> backend \<Rightarrow> u32 res" where
  "readPhysical32 address b =
     and_then (copyOut address 4 PermissionRead b) (\<lambda>bytes b. (Inr (Uint32 bytes), b))"


subsection \<open>Specification: byte-wise guest memory\<close>

text \<open>
  The memory a guest sees is a partial function from addresses to a permission and a
  byte.  A span is read or written one byte at a time and stops at the first address
  that is unmapped or lacks a requested permission; a failed write keeps the bytes
  already written.
\<close>

type_synonym memory = "nat \<Rightarrow> (Permissions \<times> u8) option"

definition spec_byte :: "memory \<Rightarrow> Permissions \<Rightarrow> nat \<Rightarrow> cpu_error + u8" where
  "spec_byte m p a =
     (case m a of
        None \<Rightarrow> Inl ErrInvalidAddress
      | Some (q, v) \<Rightarrow> if q AND p \<noteq> p then Inl ErrPermissionDenied else Inr v)"

fun spec_read :: "memory \<Rightarrow> Permissions \<Rightarrow> nat \<Rightarrow> nat \<Rightarrow> cpu_error + u8 list" where
  "spec_read m p a 0 = Inr []"
| "spec_read m p a (Suc n) =
     (case spec_byte m p a of
        Inl e \<Rightarrow> Inl e
      | Inr v \<Rightarrow> (case spec_read m p (Suc a) n of Inl e \<Rightarrow> Inl e | Inr vs \<Rightarrow> Inr (v # vs)))"

definition spec_store :: "memory \<Rightarrow> nat \<Rightarrow> u8 \<Rightarrow> memory" where
  "spec_store m a v = m(a := map_option (\<lambda>(q, _). (q, v)) (m a))"

fun spec_write :: "memory \<Rightarrow> Permissions \<Rightarrow> nat \<Rightarrow> u8 list \<Rightarrow> (cpu_error + unit) \<times> memory" where
  "spec_write m p a [] = (Inr (), m)"
| "spec_write m p a (v # vs) =
     (case spec_byte m p a of
        Inl e \<Rightarrow> (Inl e, m)
      | Inr _ \<Rightarrow> spec_write (spec_store m a v) p (Suc a) vs)"

lemma spec_read_append:
  "spec_read m p a (n + k) =
     (case spec_read m p a n of
        Inl e \<Rightarrow> Inl e
      | Inr xs \<Rightarrow> (case spec_read m p (a + n) k of Inl e \<Rightarrow> Inl e | Inr ys \<Rightarrow> Inr (xs @ ys)))"
  by (induction n arbitrary: a) (auto split: sum.splits)

lemma spec_write_append:
  "spec_write m p a (xs @ ys) =
     (case spec_write m p a xs of
        (Inl e, m') \<Rightarrow> (Inl e, m')
      | (Inr _, m') \<Rightarrow> spec_write m' p (a + length xs) ys)"
  by (induction xs arbitrary: m a) (auto split: sum.splits prod.splits)

lemma spec_read_ok:
  "(\<And>i. i < n \<Longrightarrow> \<exists>q. m (a + i) = Some (q, f i) \<and> q AND p = p) \<Longrightarrow>
     spec_read m p a n = Inr (map f [0..<n])"
proof (induction n arbitrary: a f)
  case (Suc n)
  obtain q where "m a = Some (q, f 0)" "q AND p = p" using Suc.prems [of 0] by auto
  moreover have "spec_read m p (Suc a) n = Inr (map (\<lambda>i. f (Suc i)) [0..<n])"
  proof (rule Suc.IH)
    fix i assume "i < n"
    then show "\<exists>q. m (Suc a + i) = Some (q, f (Suc i)) \<and> q AND p = p"
      using Suc.prems [of "Suc i"] by simp
  qed
  moreover have "map f [0..<Suc n] = f 0 # map (\<lambda>i. f (Suc i)) [0..<n]"
    by (simp add: map_upt_Suc del: upt_Suc)
  ultimately show ?case by (simp add: spec_byte_def del: upt_Suc)
qed simp

lemma spec_write_ok:
  "(\<And>i. i < length vs \<Longrightarrow> \<exists>q v. m (a + i) = Some (q, v) \<and> q AND p = p) \<Longrightarrow>
     spec_write m p a vs =
       (Inr (), \<lambda>x. if a \<le> x \<and> x < a + length vs
                    then map_option (\<lambda>(q, _). (q, vs ! (x - a))) (m x) else m x)"
proof (induction vs arbitrary: m a)
  case (Cons v vs)
  obtain q w where m: "m a = Some (q, w)" "q AND p = p" using Cons.prems [of 0] by auto
  have "spec_write (spec_store m a v) p (Suc a) vs =
      (Inr (), \<lambda>x. if Suc a \<le> x \<and> x < Suc a + length vs
         then map_option (\<lambda>(q, _). (q, vs ! (x - Suc a))) (spec_store m a v x)
         else spec_store m a v x)"
  proof (rule Cons.IH)
    fix i assume "i < length vs"
    then show "\<exists>q w. spec_store m a v (Suc a + i) = Some (q, w) \<and> q AND p = p"
      using Cons.prems [of "Suc i"] by (simp add: spec_store_def)
  qed
  moreover have "(if Suc a \<le> x \<and> x < Suc a + length vs
         then map_option (\<lambda>(q, _). (q, vs ! (x - Suc a))) (spec_store m a v x)
         else spec_store m a v x) =
      (if a \<le> x \<and> x < a + length (v # vs)
         then map_option (\<lambda>(q, _). (q, (v # vs) ! (x - a))) (m x) else m x)" for x
    using m by (auto simp: spec_store_def nth_Cons' Suc_le_eq)
  ultimately show ?case using m by (simp add: spec_byte_def)
qed (auto simp: fun_eq_iff)

subsection \<open>Well-formed memory\<close>

definition wf_region :: "backend \<Rightarrow> region \<Rightarrow> bool" where
  "wf_region b r \<longleftrightarrow>
     region_size r \<noteq> 0 \<and> region_end r \<le> 2 ^ 32 \<and> Permissions_Valid (region_permissions r) \<and>
     region_data r < arraysNext b \<and> length (arrays b (region_data r)) = unat (region_size r)"

definition cache_coherent :: "backend \<Rightarrow> bool" where
  "cache_coherent b \<longleftrightarrow>
     (\<forall>i d. cache_data (privateDataCache b i) = Some d \<longrightarrow>
        (\<exists>r \<in> set (regions b). region_data r = d \<and>
           cache_address (privateDataCache b i) = region_address r \<and>
           cache_perms (privateDataCache b i) = region_permissions r)) \<and>
     (\<forall>d. executeData b = Some d \<longrightarrow>
        (\<exists>r \<in> set (regions b). region_data r = d \<and> executeAddress b = region_address r \<and>
           region_permissions r AND PermissionExecute = PermissionExecute))"

definition wf_memory :: "backend \<Rightarrow> bool" where
  "wf_memory b \<longleftrightarrow>
     (\<forall>r \<in> set (regions b). wf_region b r) \<and>
     sorted_wrt (\<lambda>r s. region_end r \<le> unat (region_address s)) (regions b) \<and>
     distinct (map region_data (regions b)) \<and>
     unat (mapped b) = sum_list (map (\<lambda>r. unat (region_size r)) (regions b)) \<and>
     mapped b \<le> memoryLimit b \<and>
     cache_coherent b"

definition holds :: "nat \<Rightarrow> region \<Rightarrow> bool" where
  "holds a r \<longleftrightarrow> unat (region_address r) \<le> a \<and> a < region_end r"

definition region_at :: "backend \<Rightarrow> nat \<Rightarrow> region option" where
  "region_at b a = find (holds a) (regions b)"

definition guest_memory :: "backend \<Rightarrow> memory" where
  "guest_memory b a =
     map_option (\<lambda>r. (region_permissions r, arrays b (region_data r) ! (a - unat (region_address r))))
       (region_at b a)"

lemma find_sorted_disjoint:
  assumes "sorted_wrt (\<lambda>r s. region_end r \<le> unat (region_address s)) rs"
    and "r \<in> set rs" and "holds a r"
  shows "find (holds a) rs = Some r"
  using assms
proof (induction rs)
  case (Cons s rs)
  have "s = r" if "holds a s"
    using Cons.prems that by (auto simp: holds_def region_end_def)
  with Cons show ?case by auto
qed simp

lemma region_at_eq: "wf_memory b \<Longrightarrow> r \<in> set (regions b) \<Longrightarrow> holds a r \<Longrightarrow> region_at b a = Some r"
  unfolding region_at_def wf_memory_def using find_sorted_disjoint by blast

lemma region_atD: "region_at b a = Some r \<Longrightarrow> r \<in> set (regions b) \<and> holds a r"
  by (auto simp: region_at_def find_Some_iff)

lemma region_at_none: "region_at b a = None \<longleftrightarrow> (\<forall>r \<in> set (regions b). \<not> holds a r)"
  by (auto simp: region_at_def find_None_iff)


text \<open>Only the region list, the arrays and the mapping fields matter to these notions.\<close>

lemma guest_memory_cong:
  "regions b = regions b' \<Longrightarrow> arrays b = arrays b' \<Longrightarrow> guest_memory b = guest_memory b'"
  by (simp add: guest_memory_def region_at_def fun_eq_iff)

lemma wf_memory_hints [simp]: "wf_memory (b\<lparr>regionHints := h\<rparr>) = wf_memory b"
  by (simp add: wf_memory_def wf_region_def cache_coherent_def)

lemma guest_memory_hints [simp]: "guest_memory (b\<lparr>regionHints := h\<rparr>) = guest_memory b"
  by (rule guest_memory_cong) simp_all

lemma region_contains_holds: "region_contains r address \<longleftrightarrow> holds (unat address) r"
  by (simp add: region_contains_def holds_def word_le_nat_alt)

lemma Search_region:
  assumes wf: "wf_memory b"
    and i_def: "i = Search (length (regions b)) (\<lambda>i. unat address < region_end (regions b ! i))"
  shows "(if length (regions b) \<le> i \<or> address < region_address (regions b ! i)
          then region_at b (unat address) = None
          else region_at b (unat address) = Some (regions b ! i))"
proof -
  define n where "n = length (regions b)"
  define f where "f = (\<lambda>i. unat address < region_end (regions b ! i))"
  have sorted: "region_end (regions b ! k) \<le> unat (region_address (regions b ! l))" if "k < l" "l < n" for k l
    using wf that by (auto simp: wf_memory_def n_def sorted_wrt_iff_nth_less)
  have mono: "f l" if "k \<le> l" "l < n" "f k" for k l
    using that sorted [of k l] by (cases "k = l") (auto simp: f_def region_end_def)
  have least: "k < Search n f \<Longrightarrow> \<not> f k" "Search n f < n \<Longrightarrow> f (Search n f)" for k
    using Search_least [of n f] mono by blast+
  have i: "i = Search n f" by (simp add: i_def n_def f_def)
  show ?thesis
  proof (cases "n \<le> i")
    case True
    then have "\<not> holds (unat address) (regions b ! k)" if "k < n" for k
      using least(1) [of k] that i by (simp add: holds_def f_def)
    then have "region_at b (unat address) = None"
      by (metis in_set_conv_nth n_def region_at_none)
    with True show ?thesis by (simp add: n_def)
  next
    case False
    then have hit: "unat address < region_end (regions b ! i)"
      using least(2) i by (simp add: f_def)
    show ?thesis
    proof (cases "address < region_address (regions b ! i)")
      case True
      have "\<not> holds (unat address) (regions b ! k)" if "k < n" for k
      proof (cases "k < i")
        case True
        then show ?thesis using least(1) [of k] i by (simp add: holds_def f_def)
      next
        case False
        then have "unat (region_address (regions b ! i)) \<le> unat (region_address (regions b ! k))"
          using sorted [of i k] that by (cases "i = k") (auto simp: region_end_def)
        with True show ?thesis by (simp add: holds_def word_less_nat_alt)
      qed
      then have "region_at b (unat address) = None"
        by (metis in_set_conv_nth n_def region_at_none)
      with True show ?thesis by simp
    next
      case ge: False
      have "region_at b (unat address) = Some (regions b ! i)"
        by (rule region_at_eq [OF wf])
          (use False ge hit in \<open>auto simp: holds_def n_def word_le_nat_alt not_less\<close>)
      with False ge show ?thesis by (simp add: n_def)
    qed
  qed
qed

lemma findRegion_spec:
  assumes "wf_memory b"
  shows "\<exists>h. findRegion address permission b =
    ((case region_at b (unat address) of
        None \<Rightarrow> Inl ErrInvalidAddress
      | Some r \<Rightarrow> if region_permissions r AND permission \<noteq> permission then Inl ErrPermissionDenied
                 else Inr (r, unat address - unat (region_address r))),
     b\<lparr>regionHints := h\<rparr>)"
proof -
  have sub: "unat (address - region_address r) = unat address - unat (region_address r)"
    if "holds (unat address) r" for r
    using that by (simp add: holds_def unat_sub word_le_nat_alt)
  have same: "b = b\<lparr>regionHints := regionHints b\<rparr>" by simp
  define hint where "hint = regionHints b (unat permission)"
  show ?thesis
  proof (cases "unat permission < 8 \<and> hint < length (regions b) \<and>
      region_contains (regions b ! hint) address")
    case True
    then have h: "holds (unat address) (regions b ! hint)" by (simp add: region_contains_holds)
    then have "region_at b (unat address) = Some (regions b ! hint)"
      using True assms by (intro region_at_eq) simp_all
    with True h show ?thesis
      by (intro exI [of _ "regionHints b"]) (simp add: findRegion_def Let_def hint_def sub)
  next
    case False
    define i where "i = Search (length (regions b)) (\<lambda>i. unat address < region_end (regions b ! i))"
    note s = Search_region [OF assms i_def]
    show ?thesis
    proof (cases "length (regions b) \<le> i \<or> address < region_address (regions b ! i)")
      case True
      with s False show ?thesis
        by (intro exI [of _ "regionHints b"])
          (auto simp: findRegion_def Let_def hint_def i_def [symmetric])
    next
      case hit: False
      with s have at: "region_at b (unat address) = Some (regions b ! i)" by simp
      then have h: "holds (unat address) (regions b ! i)" by (blast dest: region_atD)
      show ?thesis
        using False hit at h
        by (intro exI [of _ "if unat permission < 8 then (regionHints b)(unat permission := i)
              else regionHints b"])
          (auto simp: findRegion_def Let_def hint_def i_def [symmetric] sub)
    qed
  qed
qed


subsection \<open>Bulk copies implement the specification\<close>

lemma wf_regionD:
  assumes "wf_memory b" and "r \<in> set (regions b)"
  shows "length (arrays b (region_data r)) = unat (region_size r)" and "region_end r \<le> 2 ^ 32"
    and "0 < unat (region_size r)" and "region_data r < arraysNext b"
  using assms by (auto simp: wf_memory_def wf_region_def unat_gt_0)

lemma guest_memory_in_region:
  assumes "wf_memory b" and "r \<in> set (regions b)" and "holds a r"
  shows "guest_memory b a =
    Some (region_permissions r, arrays b (region_data r) ! (a - unat (region_address r)))"
  by (simp add: guest_memory_def region_at_eq [OF assms])

lemma spec_read_in_region:
  assumes "wf_memory b" and r: "r \<in> set (regions b)" "holds a r" and "a + n \<le> region_end r"
    and "region_permissions r AND p = p"
  shows "spec_read (guest_memory b) p a n =
    Inr (slice (arrays b (region_data r)) (a - unat (region_address r)) n)"
proof -
  define off where "off = a - unat (region_address r)"
  have inside: "holds (a + i) r" if "i < n" for i
    using assms(4) r(2) that by (simp add: holds_def)
  have len: "off + n \<le> length (arrays b (region_data r))"
    using assms(4) r(2) wf_regionD(1) [OF assms(1) r(1)] by (simp add: holds_def off_def region_end_def)
  have "spec_read (guest_memory b) p a n =
      Inr (map (\<lambda>i. arrays b (region_data r) ! (off + i)) [0..<n])"
  proof (rule spec_read_ok)
    fix i assume "i < n"
    then have "guest_memory b (a + i) =
        Some (region_permissions r, arrays b (region_data r) ! (a + i - unat (region_address r)))"
      by (intro guest_memory_in_region [OF assms(1) r(1)] inside)
    moreover have "a + i - unat (region_address r) = off + i"
      using r(2) by (simp add: off_def holds_def)
    ultimately show "\<exists>q. guest_memory b (a + i) = Some (q, arrays b (region_data r) ! (off + i)) \<and>
        q AND p = p"
      using assms(5) by simp
  qed
  then show ?thesis by (simp only: slice_eq_map [OF len] off_def [symmetric])
qed

lemma spec_read_bad_first:
  "0 < n \<Longrightarrow> spec_byte m p a = Inl e \<Longrightarrow> spec_read m p a n = Inl e"
  by (cases n) simp_all

lemma spec_byte_region_at:
  "wf_memory b \<Longrightarrow> spec_byte (guest_memory b) p a =
     (case region_at b a of
        None \<Rightarrow> Inl ErrInvalidAddress
      | Some r \<Rightarrow> if region_permissions r AND p \<noteq> p then Inl ErrPermissionDenied
                 else Inr (arrays b (region_data r) ! (a - unat (region_address r))))"
  by (simp add: spec_byte_def guest_memory_def split: option.splits)

lemma guest_memory_limit: "wf_memory b \<Longrightarrow> 2 ^ 32 \<le> a \<Longrightarrow> guest_memory b a = None"
  by (auto simp: guest_memory_def region_at_none holds_def wf_memory_def wf_region_def)

lemma copyOutLoop_spec:
  assumes "wf_memory b" and "n \<le> fuel" and "0 < n"
  shows "\<exists>h. copyOutLoop fuel current n p b =
    (spec_read (guest_memory b) p (unat current) n, b\<lparr>regionHints := h\<rparr>)"
  using assms
proof (induction fuel arbitrary: current n b)
  case (Suc fuel)
  note wf = Suc.prems(1)
  obtain h where find: "findRegion current p b =
    ((case region_at b (unat current) of
        None \<Rightarrow> Inl ErrInvalidAddress
      | Some r \<Rightarrow> if region_permissions r AND p \<noteq> p then Inl ErrPermissionDenied
                 else Inr (r, unat current - unat (region_address r))),
     b\<lparr>regionHints := h\<rparr>)"
    using findRegion_spec [OF wf] by blast
  let ?m = "guest_memory b"
  show ?case
  proof (cases "spec_byte ?m p (unat current)")
    case (Inl e)
    then have "fst (findRegion current p b) = Inl e"
      using wf by (auto simp: find spec_byte_region_at split: option.splits if_splits)
    with find have "findRegion current p b = (Inl e, b\<lparr>regionHints := h\<rparr>)" by (simp add: prod_eq_iff)
    then show ?thesis
      using Suc.prems(3) spec_read_bad_first [OF Suc.prems(3) Inl] by auto
  next
    case (Inr v)
    then obtain r where at: "region_at b (unat current) = Some r"
      and perm: "region_permissions r AND p = p"
      using wf by (auto simp: spec_byte_region_at split: option.splits if_splits)
    from region_atD [OF at] have r: "r \<in> set (regions b)" "holds (unat current) r" by auto
    define off where "off = unat current - unat (region_address r)"
    define count where "count = min n (length (arrays b (region_data r)) - off)"
    have found: "findRegion current p b = (Inr (r, off), b\<lparr>regionHints := h\<rparr>)"
      using find at perm by (simp add: off_def)
    have size: "length (arrays b (region_data r)) - off = region_end r - unat current"
      using wf_regionD(1) [OF wf r(1)] r(2) by (simp add: off_def holds_def region_end_def)
    have count: "0 < count" "count \<le> n" "unat current + count \<le> region_end r"
      using Suc.prems(3) r(2) size by (auto simp: count_def holds_def)
    have chunk: "spec_read ?m p (unat current) count =
        Inr (slice (arrays b (region_data r)) off count)"
      unfolding off_def by (rule spec_read_in_region [OF wf r count(3) perm])
    have chunked: "spec_read ?m p (unat current) n =
        (case spec_read ?m p (unat current + count) (n - count) of
           Inl e \<Rightarrow> Inl e | Inr ys \<Rightarrow> Inr (slice (arrays b (region_data r)) off count @ ys))"
      using spec_read_append [of ?m p "unat current" count "n - count"] count(2) by (simp add: chunk)
    have step: "copyOutLoop (Suc fuel) current n p b =
        (let b = b\<lparr>regionHints := h\<rparr>; bytes = slice (arrays b (region_data r)) off count in
         if n - count = 0 then (Inr bytes, b)
         else if 2 ^ 32 - 1 < unat current + count then (Inl ErrInvalidAddress, b)
         else and_then (copyOutLoop fuel (current + of_nat count) (n - count) p b)
                (\<lambda>rest b. (Inr (bytes @ rest), b)))"
      using Suc.prems(3) by (simp add: found Let_def count_def)
    show ?thesis
    proof (cases "n - count = 0")
      case True
      then show ?thesis unfolding step by (auto simp: Let_def chunked)
    next
      case False
      show ?thesis
      proof (cases "2 ^ 32 - 1 < unat current + count")
        case True
        then have "spec_read ?m p (unat current + count) (n - count) = Inl ErrInvalidAddress"
          using False guest_memory_limit [OF wf, of "unat current + count"]
          by (intro spec_read_bad_first) (auto simp: spec_byte_def)
        with True False show ?thesis unfolding step by (auto simp: Let_def chunked)
      next
        case small: False
        then have adv: "unat (current + of_nat count) = unat current + count"
          by (simp add: unat_word_ariths unat_of_nat)
        have "\<exists>h'. copyOutLoop fuel (current + of_nat count) (n - count) p (b\<lparr>regionHints := h\<rparr>) =
            (spec_read ?m p (unat current + count) (n - count), b\<lparr>regionHints := h'\<rparr>)"
          using Suc.IH [of "b\<lparr>regionHints := h\<rparr>" "n - count" "current + of_nat count"]
            wf False count Suc.prems(2) adv by auto
        then show ?thesis using False small unfolding step by (auto simp: Let_def chunked split: sum.splits)
      qed
    qed
  qed
qed simp

lemma copyOut_spec:
  assumes "wf_memory b" and "systemBus b = None"
  shows "\<exists>h. copyOut a n p b = (spec_read (guest_memory b) p (unat a) n, b\<lparr>regionHints := h\<rparr>)"
proof (cases "n = 0")
  case True
  then show ?thesis by (auto simp: copyOut_def intro!: exI [of _ "regionHints b"])
next
  case False
  then show ?thesis using copyOutLoop_spec [OF assms(1), of n n a p] assms(2) by (simp add: copyOut_def)
qed

lemma storeBytes_fields [simp]:
  "regions (storeBytes d off bytes b) = regions b"
  "systemBus (storeBytes d off bytes b) = systemBus b"
  "arrays (storeBytes d off bytes b) = (arrays b)(d := overwrite (arrays b d) off bytes)"
  by (simp_all add: storeBytes_def)

lemma region_at_storeBytes [simp]: "region_at (storeBytes d off bytes b) a = region_at b a"
  by (simp add: region_at_def)

lemma wf_memory_storeBytes:
  assumes "wf_memory b" and "off + length bytes \<le> length (arrays b d)"
  shows "wf_memory (storeBytes d off bytes b)"
  using assms by (auto simp: wf_memory_def wf_region_def cache_coherent_def storeBytes_def)

lemma region_data_inject:
  assumes "wf_memory b" and "r \<in> set (regions b)" and "s \<in> set (regions b)"
    and "region_data r = region_data s"
  shows "r = s"
  using assms by (metis distinct_map inj_on_eq_iff wf_memory_def)

lemma spec_write_in_region:
  assumes wf: "wf_memory b" and r: "r \<in> set (regions b)" "holds a r"
    and fits: "a + length bytes \<le> region_end r" and perm: "region_permissions r AND p = p"
  shows "spec_write (guest_memory b) p a bytes =
    (Inr (), guest_memory (storeBytes (region_data r) (a - unat (region_address r)) bytes b))"
proof -
  define off where "off = a - unat (region_address r)"
  let ?b = "storeBytes (region_data r) off bytes b"
  have len: "off + length bytes \<le> length (arrays b (region_data r))"
    using fits r(2) wf_regionD(1) [OF wf r(1)] by (simp add: holds_def off_def region_end_def)
  have inside: "holds (a + i) r" if "i < length bytes" for i
    using fits r(2) that by (simp add: holds_def)
  have m: "guest_memory ?b x =
      (if a \<le> x \<and> x < a + length bytes then map_option (\<lambda>(q, _). (q, bytes ! (x - a))) (guest_memory b x)
       else guest_memory b x)" for x
  proof (cases "region_at b x")
    case None
    then show ?thesis by (simp add: guest_memory_def)
  next
    case (Some s)
    note s = region_atD [OF Some, THEN conjunct1] region_atD [OF Some, THEN conjunct2]
    have bound: "x - unat (region_address s) < length (arrays b (region_data s))"
      using s(2) wf_regionD(1) [OF wf s(1)] by (auto simp: holds_def region_end_def)
    show ?thesis
    proof (cases "s = r")
      case True
      then have "off \<le> x - unat (region_address s) \<and>
          x - unat (region_address s) < off + length bytes \<longleftrightarrow> a \<le> x \<and> x < a + length bytes"
        "a \<le> x \<Longrightarrow> x - unat (region_address s) - off = x - a"
        using s(2) r(2) by (auto simp: off_def holds_def)
      then show ?thesis
        using Some bound True len by (simp add: guest_memory_def nth_overwrite)
    next
      case False
      have "\<not> (a \<le> x \<and> x < a + length bytes)"
      proof
        assume "a \<le> x \<and> x < a + length bytes"
        moreover from this have "holds (a + (x - a)) r" by (intro inside) auto
        ultimately have "holds x r" by simp
        with region_at_eq [OF wf r(1)] Some False show False by simp
      qed
      moreover have "region_data s \<noteq> region_data r"
        using region_data_inject [OF wf s(1) r(1)] False by blast
      ultimately show ?thesis using Some by (auto simp: guest_memory_def)
    qed
  qed
  have "spec_write (guest_memory b) p a bytes =
    (Inr (), \<lambda>x. if a \<le> x \<and> x < a + length bytes
      then map_option (\<lambda>(q, _). (q, bytes ! (x - a))) (guest_memory b x) else guest_memory b x)"
    using guest_memory_in_region [OF wf r(1) inside] perm by (intro spec_write_ok) auto
  then show ?thesis unfolding off_def [symmetric] by (simp add: m fun_eq_iff)
qed

text \<open>What a bulk write leaves alone: everything but the bytes and the lookup hints.\<close>

definition same_but_memory :: "backend \<Rightarrow> backend \<Rightarrow> bool" where
  "same_but_memory b b' \<longleftrightarrow>
     b' = b\<lparr>arrays := arrays b', regionHints := regionHints b'\<rparr>"

lemma same_but_memory_refl [simp]: "same_but_memory b b"
  by (simp add: same_but_memory_def)

lemma same_but_memory_hints [simp]: "same_but_memory b (b\<lparr>regionHints := h\<rparr>)"
  by (simp add: same_but_memory_def)

lemma same_but_memory_store:
  "same_but_memory b (storeBytes d off bytes (b\<lparr>regionHints := h\<rparr>))"
  by (simp add: same_but_memory_def storeBytes_def)

lemma same_but_memory_trans:
  "same_but_memory a b \<Longrightarrow> same_but_memory b c \<Longrightarrow> same_but_memory a c"
  unfolding same_but_memory_def by (cases a; cases b; cases c) simp

lemma spec_write_bad_first:
  "vs \<noteq> [] \<Longrightarrow> spec_byte m p a = Inl e \<Longrightarrow> spec_write m p a vs = (Inl e, m)"
  by (cases vs) simp_all

definition writes_as_spec ::
  "(cpu_error + unit) \<times> memory \<Rightarrow> backend \<Rightarrow> unit res \<Rightarrow> bool" where
  "writes_as_spec spec b res \<longleftrightarrow>
     (fst res, guest_memory (snd res)) = spec \<and> wf_memory (snd res) \<and> same_but_memory b (snd res)"

lemma copyInLoop_spec:
  assumes "wf_memory b" and "length vs \<le> fuel" and "vs \<noteq> []"
  shows "writes_as_spec (spec_write (guest_memory b) p (unat current) vs) b
    (copyInLoop fuel current vs p b)"
  using assms
proof (induction fuel arbitrary: current vs b)
  case (Suc fuel)
  note wf = Suc.prems(1)
  obtain h where find: "findRegion current p b =
    ((case region_at b (unat current) of
        None \<Rightarrow> Inl ErrInvalidAddress
      | Some r \<Rightarrow> if region_permissions r AND p \<noteq> p then Inl ErrPermissionDenied
                 else Inr (r, unat current - unat (region_address r))),
     b\<lparr>regionHints := h\<rparr>)"
    using findRegion_spec [OF wf] by blast
  let ?m = "guest_memory b"
  show ?case
  proof (cases "spec_byte ?m p (unat current)")
    case (Inl e)
    then have "fst (findRegion current p b) = Inl e"
      using wf by (auto simp: find spec_byte_region_at split: option.splits if_splits)
    with find have "findRegion current p b = (Inl e, b\<lparr>regionHints := h\<rparr>)" by (simp add: prod_eq_iff)
    then show ?thesis
      using Suc.prems(3) wf by (simp add: writes_as_spec_def spec_write_bad_first [OF Suc.prems(3) Inl])
  next
    case (Inr v)
    then obtain r where at: "region_at b (unat current) = Some r"
      and perm: "region_permissions r AND p = p"
      using wf by (auto simp: spec_byte_region_at split: option.splits if_splits)
    from region_atD [OF at] have r: "r \<in> set (regions b)" "holds (unat current) r" by auto
    define off where "off = unat current - unat (region_address r)"
    define count where "count = min (length vs) (length (arrays b (region_data r)) - off)"
    define b1 where "b1 = storeBytes (region_data r) off (take count vs) (b\<lparr>regionHints := h\<rparr>)"
    have found: "findRegion current p b = (Inr (r, off), b\<lparr>regionHints := h\<rparr>)"
      using find at perm by (simp add: off_def)
    have size: "length (arrays b (region_data r)) - off = region_end r - unat current"
      using wf_regionD(1) [OF wf r(1)] r(2) by (simp add: off_def holds_def region_end_def)
    have count: "0 < count" "count \<le> length vs" "unat current + count \<le> region_end r"
      using Suc.prems(3) r(2) size by (auto simp: count_def holds_def)
    have wf1: "wf_memory b1"
      unfolding b1_def by (rule wf_memory_storeBytes) (use wf count_def count in auto)
    have chunk: "spec_write ?m p (unat current) (take count vs) = (Inr (), guest_memory b1)"
      using spec_write_in_region [of "b\<lparr>regionHints := h\<rparr>" r "unat current" "take count vs" p]
        wf r count perm by (simp add: b1_def off_def)
    have chunked: "spec_write ?m p (unat current) vs =
        spec_write (guest_memory b1) p (unat current + count) (drop count vs)"
      using spec_write_append [of ?m p "unat current" "take count vs" "drop count vs"] count(2)
      by (simp add: chunk)
    have same: "same_but_memory b b1" unfolding b1_def by (rule same_but_memory_store)
    have step: "copyInLoop (Suc fuel) current vs p b =
        (if drop count vs = [] then (Inr (), b1)
         else if 2 ^ 32 - 1 < unat current + count then (Inl ErrInvalidAddress, b1)
         else copyInLoop fuel (current + of_nat count) (drop count vs) p b1)"
      using Suc.prems(3) by (simp add: found Let_def count_def b1_def)
    show ?thesis
    proof (cases "drop count vs = []")
      case True
      then show ?thesis unfolding step chunked using wf1 same by (simp add: writes_as_spec_def)
    next
      case False
      show ?thesis
      proof (cases "2 ^ 32 - 1 < unat current + count")
        case True
        then have "spec_write (guest_memory b1) p (unat current + count) (drop count vs) =
            (Inl ErrInvalidAddress, guest_memory b1)"
          using False guest_memory_limit [OF wf1, of "unat current + count"]
          by (intro spec_write_bad_first) (auto simp: spec_byte_def)
        with True False show ?thesis
          unfolding step chunked using wf1 same by (simp add: writes_as_spec_def)
      next
        case small: False
        then have adv: "unat (current + of_nat count) = unat current + count"
          by (simp add: unat_word_ariths unat_of_nat)
        have "writes_as_spec (spec_write (guest_memory b1) p (unat current + count) (drop count vs)) b1
            (copyInLoop fuel (current + of_nat count) (drop count vs) p b1)"
          using Suc.IH [of b1 "drop count vs" "current + of_nat count"] wf1 False count Suc.prems(2) adv
          by auto
        then show ?thesis
          unfolding step chunked using False small same
          by (auto simp: writes_as_spec_def intro: same_but_memory_trans)
      qed
    qed
  qed
qed simp

lemma copyIn_spec:
  assumes "wf_memory b" and "systemBus b = None"
  shows "writes_as_spec (spec_write (guest_memory b) p (unat a) vs) b (copyIn a vs p b)"
  using assms copyInLoop_spec [of b vs "length vs" p a]
  by (cases "vs = []") (simp_all add: copyIn_def writes_as_spec_def)

subsection \<open>Mapping keeps memory well-formed\<close>

lemma wf_memory_New [simp]: "wf_memory (NewWithMemoryLimit pc_trace limit)"
  by (simp add: wf_memory_def cache_coherent_def NewWithMemoryLimit_def emptyDataCache_def)

lemma guest_memory_New [simp]: "guest_memory (NewWithMemoryLimit pc_trace limit) = Map.empty"
  by (simp add: guest_memory_def region_at_def NewWithMemoryLimit_def fun_eq_iff)

definition span :: "u32 \<Rightarrow> u32 \<Rightarrow> nat \<Rightarrow> bool" where
  "span address sz a \<longleftrightarrow> unat address \<le> a \<and> a < unat address + unat sz"

lemma not_overlaps_iff:
  assumes "wf_region b r" and "sz \<noteq> 0"
  shows "\<not> overlaps address (unat address + unat sz) r \<longleftrightarrow> (\<forall>a. span address sz a \<longrightarrow> \<not> holds a r)"
proof
  assume "\<not> overlaps address (unat address + unat sz) r"
  then show "\<forall>a. span address sz a \<longrightarrow> \<not> holds a r"
    by (auto simp: overlaps_def span_def holds_def region_end_def)
next
  assume free: "\<forall>a. span address sz a \<longrightarrow> \<not> holds a r"
  show "\<not> overlaps address (unat address + unat sz) r"
  proof
    assume o: "overlaps address (unat address + unat sz) r"
    define a where "a = max (unat address) (unat (region_address r))"
    have "0 < unat sz" "0 < unat (region_size r)"
      using assms by (auto simp: wf_region_def unat_gt_0)
    then have "span address sz a" "holds a r"
      using o by (auto simp: a_def overlaps_def span_def holds_def region_end_def max_def)
    with free show False by blast
  qed
qed

definition free_span :: "backend \<Rightarrow> u32 \<Rightarrow> u32 \<Rightarrow> bool" where
  "free_span b address sz \<longleftrightarrow> (\<forall>a. span address sz a \<longrightarrow> guest_memory b a = None)"

lemma free_span_overlaps:
  assumes "wf_memory b" and "sz \<noteq> 0"
  shows "free_span b address sz \<longleftrightarrow>
    \<not> (\<exists>r \<in> set (regions b). overlaps address (unat address + unat sz) r)"
  using assms not_overlaps_iff [of b _ sz address]
  by (auto simp: free_span_def guest_memory_def region_at_none wf_memory_def)

text \<open>The guard of \<open>Map\<close>, on the byte-wise view.\<close>

definition mappable :: "backend \<Rightarrow> u32 \<Rightarrow> u32 \<Rightarrow> Permissions \<Rightarrow> bool" where
  "mappable b address sz permissions \<longleftrightarrow>
     \<not> closed b \<and> systemBus b = None \<and> sz \<noteq> 0 \<and> unat address + unat sz \<le> 2 ^ 32 \<and>
     Permissions_Valid permissions \<and> unat sz \<le> unat (memoryLimit b) - unat (mapped b) \<and>
     free_span b address sz"

lemma unat_ucast_u64 [simp]: "unat (ucast (x :: u32) :: u64) = unat x"
  using unsigned_less [of x, where 'a = nat] by (simp add: unsigned_ucast_eq take_bit_nat_eq_self)

lemma limit_check:
  assumes "mapped b \<le> memoryLimit b"
  shows "(ucast (sz :: u32) :: u64) > memoryLimit b - mapped b \<longleftrightarrow>
    \<not> unat sz \<le> unat (memoryLimit b) - unat (mapped b)"
  using assms by (simp add: word_less_nat_alt unat_sub word_le_nat_alt not_le)

lemma Map_op_rejects:
  assumes "wf_memory b" and "\<not> mappable b address sz permissions"
  shows "Map_op address sz permissions b = (Inl (if closed b then ErrClosed else ErrInvalidMapping), b)"
proof (cases "closed b \<or> systemBus b \<noteq> None \<or> sz = 0")
  case True
  then show ?thesis by (auto simp: Map_op_def Let_def)
next
  case False
  then have "sz \<noteq> 0" by simp
  from assms(1) have le: "mapped b \<le> memoryLimit b" by (simp add: wf_memory_def)
  show ?thesis
    using False assms(2) free_span_overlaps [OF assms(1) \<open>sz \<noteq> 0\<close>, of address] limit_check [OF le, of sz]
    by (auto simp: Map_op_def Let_def mappable_def not_le)
qed

lemma sorted_disjoint:
  assumes "sorted (map region_address rs)" and "distinct rs" and "\<forall>r \<in> set rs. region_size r \<noteq> 0"
    and "\<And>r s. r \<in> set rs \<Longrightarrow> s \<in> set rs \<Longrightarrow> r \<noteq> s \<Longrightarrow>
      region_end r \<le> unat (region_address s) \<or> region_end s \<le> unat (region_address r)"
  shows "sorted_wrt (\<lambda>r s. region_end r \<le> unat (region_address s)) rs"
  unfolding sorted_wrt_iff_nth_less
proof (intro allI impI)
  fix i j assume ij: "i < j" "j < length rs"
  then have "region_address (rs ! i) \<le> region_address (rs ! j)"
    using assms(1) by (auto simp: sorted_iff_nth_mono)
  moreover have "rs ! i \<noteq> rs ! j" "rs ! i \<in> set rs" "rs ! j \<in> set rs"
    using ij assms(2) by (auto simp: nth_eq_iff_index_eq)
  moreover have "0 < unat (region_size (rs ! j))"
    using assms(3) ij by (simp add: unat_gt_0)
  ultimately show "region_end (rs ! i) \<le> unat (region_address (rs ! j))"
    using assms(4) [of "rs ! i" "rs ! j"] by (auto simp: region_end_def word_le_nat_alt)
qed

lemma region_pair_disjoint:
  assumes "sorted_wrt (\<lambda>r s. region_end r \<le> unat (region_address s)) rs"
    and "r \<in> set rs" and "s \<in> set rs" and "r \<noteq> s"
  shows "region_end r \<le> unat (region_address s) \<or> region_end s \<le> unat (region_address r)"
  using assms by (metis in_set_conv_nth linorder_neqE_nat sorted_wrt_iff_nth_less)

lemma Map_op_accepts:
  assumes "wf_memory b" and "mappable b address sz permissions"
  shows "fst (Map_op address sz permissions b) = Inr ()"
    and "set (regions (snd (Map_op address sz permissions b))) =
      insert \<lparr>region_address = address, region_size = sz, region_permissions = permissions,
              region_data = arraysNext b\<rparr> (set (regions b))"
    and "arrays (snd (Map_op address sz permissions b)) =
      (arrays b)(arraysNext b := replicate (unat sz) 0)"
    and "wf_memory (snd (Map_op address sz permissions b))"
proof -
  define r where "r = \<lparr>region_address = address, region_size = sz, region_permissions = permissions,
              region_data = arraysNext b\<rparr>"
  define rs where "rs = sort_key region_address (regions b @ [r])"
  from assms(1) have le: "mapped b \<le> memoryLimit b" by (simp add: wf_memory_def)
  from assms(2) have sz: "sz \<noteq> 0" by (simp add: mappable_def)
  have no: "\<forall>s \<in> set (regions b). \<not> overlaps address (unat address + unat sz) s"
    using assms free_span_overlaps [OF assms(1) sz, of address] by (simp add: mappable_def)
  define b' where "b' = snd (Map_op address sz permissions b)"
  have step: "Map_op address sz permissions b = (Inr (), b')"
    and b': "regions b' = rs" "arrays b' = (arrays b)(arraysNext b := replicate (unat sz) 0)"
      "arraysNext b' = arraysNext b + 1" "mapped b' = mapped b + ucast sz"
      "memoryLimit b' = memoryLimit b" "executeData b' = None"
      "privateDataCache b' = (\<lambda>_. emptyDataCache)"
    using assms(2) no limit_check [OF le, of sz]
    by (auto simp: b'_def Map_op_def Let_def mappable_def rs_def r_def not_le
        clearDataCaches_def invalidateInstructionWindow_def)
  have rset: "set rs = insert r (set (regions b))" by (auto simp: rs_def)
  have fresh: "region_data s < arraysNext b" if "s \<in> set (regions b)" for s
    using assms(1) that by (simp add: wf_memory_def wf_region_def)
  have dist: "distinct (map region_data rs)"
  proof -
    have "distinct (map region_data (regions b @ [r]))"
      using assms(1) fresh by (fastforce simp: wf_memory_def r_def)
    moreover have "mset (map region_data rs) = mset (map region_data (regions b @ [r]))"
      by (simp add: rs_def)
    ultimately show ?thesis by (metis mset_eq_imp_distinct_iff)
  qed
  have regs: "\<forall>s \<in> set rs. wf_region b' s"
    using assms fresh by (auto simp: rset b' wf_memory_def wf_region_def r_def mappable_def
        region_end_def less_Suc_eq dest: fresh)
  have disj: "sorted_wrt (\<lambda>r s. region_end r \<le> unat (region_address s)) rs"
  proof (rule sorted_disjoint)
    show "sorted (map region_address rs)" by (simp add: rs_def)
    show "distinct rs" using dist by (simp add: distinct_map)
    show "\<forall>s \<in> set rs. region_size s \<noteq> 0" using regs by (simp add: wf_region_def)
    fix s t assume "s \<in> set rs" "t \<in> set rs" "s \<noteq> t"
    then show "region_end s \<le> unat (region_address t) \<or> region_end t \<le> unat (region_address s)"
      using no region_pair_disjoint [of "regions b" s t] assms(1)
      by (auto simp: rset overlaps_def region_end_def r_def wf_memory_def)
  qed
  have total: "unat (mapped b') = sum_list (map (\<lambda>r. unat (region_size r)) rs) \<and> mapped b' \<le> memoryLimit b'"
  proof -
    have "sum_mset (mset (map (\<lambda>r. unat (region_size r)) rs)) =
        sum_mset (mset (map (\<lambda>r. unat (region_size r)) (regions b @ [r])))"
      by (simp only: rs_def mset_map mset_sort)
    then have "sum_list (map (\<lambda>r. unat (region_size r)) rs) =
        sum_list (map (\<lambda>r. unat (region_size r)) (regions b @ [r]))"
      by (simp only: sum_mset_sum_list)
    moreover have "unat (mapped b + ucast sz) = unat (mapped b) + unat sz"
    proof -
      have "unat (mapped b) + unat sz \<le> unat (memoryLimit b)"
        using assms(2) le unfolding mappable_def word_le_nat_alt by linarith
      then have "unat (mapped b) + unat sz < 2 ^ 64"
        using unsigned_less [of "memoryLimit b", where 'a = nat] by simp
      then show ?thesis by (simp add: unat_word_ariths)
    qed
    ultimately show ?thesis
      using assms le by (auto simp: b' r_def wf_memory_def mappable_def word_le_nat_alt)
  qed
  show "fst (Map_op address sz permissions b) = Inr ()" by (simp add: step)
  show "set (regions (snd (Map_op address sz permissions b))) =
      insert \<lparr>region_address = address, region_size = sz, region_permissions = permissions,
              region_data = arraysNext b\<rparr> (set (regions b))"
    by (simp add: step b' rset r_def)
  show "arrays (snd (Map_op address sz permissions b)) = (arrays b)(arraysNext b := replicate (unat sz) 0)"
    by (simp add: step b')
  show "wf_memory (snd (Map_op address sz permissions b))"
    using regs disj dist total by (simp add: step wf_memory_def b' cache_coherent_def emptyDataCache_def)
qed

lemma guest_memory_Map_op:
  assumes "wf_memory b" and "mappable b address sz permissions"
  shows "guest_memory (snd (Map_op address sz permissions b)) =
    (\<lambda>a. if span address sz a then Some (permissions, 0) else guest_memory b a)"
proof
  fix a
  define b' where "b' = snd (Map_op address sz permissions b)"
  define r where "r = \<lparr>region_address = address, region_size = sz, region_permissions = permissions,
              region_data = arraysNext b\<rparr>"
  note acc = Map_op_accepts [OF assms, folded b'_def, folded r_def]
  have new: "holds a r \<longleftrightarrow> span address sz a"
    by (simp add: holds_def span_def r_def region_end_def)
  have "guest_memory b' a = (if span address sz a then Some (permissions, 0) else guest_memory b a)"
  proof (cases "span address sz a")
    case True
    then have "region_at b' a = Some r" using acc by (intro region_at_eq) (auto simp: new)
    with True show ?thesis by (auto simp: guest_memory_def acc(3) r_def span_def)
  next
    case False
    show ?thesis
    proof (cases "region_at b a")
      case None
      then have "region_at b' a = None" using acc(2) False new by (auto simp: region_at_none)
      with None False show ?thesis by (simp add: guest_memory_def)
    next
      case (Some s)
      from region_atD [OF this] have s: "s \<in> set (regions b)" "holds a s" by auto
      then have "region_at b' a = Some s" using acc by (intro region_at_eq) auto
      moreover have "region_data s \<noteq> arraysNext b"
        using wf_regionD(4) [OF assms(1) s(1)] by simp
      ultimately show ?thesis using Some False by (simp add: guest_memory_def acc(3))
    qed
  qed
  then show "guest_memory (snd (Map_op address sz permissions b)) a =
    (if span address sz a then Some (permissions, 0) else guest_memory b a)" by (simp add: b'_def)
qed

subsection \<open>Properties\<close>

text \<open>
  \<open>Map\<close> either adds a span of zero bytes with the given permissions or changes
  nothing.  It succeeds exactly when the backend is open, has no bus, the span is
  not empty, ends within the 32-bit address space, keeps within the memory limit and
  meets no mapped byte; afterwards the guest sees the new bytes and, everywhere else,
  what it saw before.  The region list stays sorted, disjoint and within the limit,
  and the caches stay coherent.
\<close>

theorem Map_correct:
  assumes "wf_memory b"
  shows "(if mappable b address sz permissions
      then fst (Map_op address sz permissions b) = Inr () \<and>
        guest_memory (snd (Map_op address sz permissions b)) =
          (\<lambda>a. if span address sz a then Some (permissions, 0) else guest_memory b a)
      else Map_op address sz permissions b =
        (Inl (if closed b then ErrClosed else ErrInvalidMapping), b)) \<and>
    wf_memory (snd (Map_op address sz permissions b))"
  using assms Map_op_accepts(1,4) [OF assms] guest_memory_Map_op [OF assms] Map_op_rejects [OF assms]
  by auto

definition sampleBackend :: backend where
  "sampleBackend =
     snd (Map_op 0x2000 0x10 7 (snd (Map_op 0x1000 0x1000 3 (NewWithMemoryLimit False 0x20000))))"

lemma wf_sampleBackend [simp]: "wf_memory sampleBackend"
  unfolding sampleBackend_def using Map_op_accepts(4) Map_op_rejects wf_memory_New by (metis snd_conv)

lemma sampleBackend_fields:
  "regions sampleBackend = [\<lparr>region_address = 0x1000, region_size = 0x1000, region_permissions = 3, region_data = 0\<rparr>,
     \<lparr>region_address = 0x2000, region_size = 0x10, region_permissions = 7, region_data = 1\<rparr>]"
  "systemBus sampleBackend = None" "closed sampleBackend = False"
  "mapped sampleBackend = 0x1010" "memoryLimit sampleBackend = 0x20000"
  by (simp_all add: sampleBackend_def Map_op_def Let_def NewWithMemoryLimit_def clearDataCaches_def
      invalidateInstructionWindow_def Permissions_Valid_def PermissionRead_def PermissionWrite_def
      PermissionExecute_def overlaps_def sort_key_def)

lemma sampleBackend_memory:
  "guest_memory sampleBackend =
     (\<lambda>a. if span 0x2000 0x10 a then Some (7, 0) else if span 0x1000 0x1000 a then Some (3, 0) else None)"
proof -
  define b where "b = NewWithMemoryLimit False 0x20000"
  define b1 where "b1 = snd (Map_op 0x1000 0x1000 3 b)"
  have b: "\<not> closed b" "systemBus b = None" "mapped b = 0" "memoryLimit b = 0x20000" "guest_memory b = Map.empty"
    by (simp_all add: b_def) (simp_all add: NewWithMemoryLimit_def)
  have perms: "Permissions_Valid 3" "Permissions_Valid 7"
    by (simp_all add: Permissions_Valid_def PermissionRead_def PermissionWrite_def PermissionExecute_def)
  have ok: "mappable b 0x1000 0x1000 3" using b perms by (simp add: mappable_def free_span_def)
  have wf: "wf_memory b" by (simp add: b_def)
  note acc = Map_op_accepts(4) [OF wf ok, folded b1_def] guest_memory_Map_op [OF wf ok, folded b1_def]
  have "\<not> closed b1 \<and> systemBus b1 = None \<and> mapped b1 = 0x1000 \<and> memoryLimit b1 = 0x20000"
    by (simp add: b1_def b_def NewWithMemoryLimit_def Map_op_def Let_def perms clearDataCaches_def
        invalidateInstructionWindow_def)
  then have "mappable b1 0x2000 0x10 7"
    using acc(2) b(5) perms by (auto simp: mappable_def free_span_def span_def)
  from guest_memory_Map_op [OF acc(1) this] show ?thesis
    unfolding acc(2) b(5) sampleBackend_def b1_def [symmetric] b_def [symmetric] by simp
qed

theorem Map_correct_witness:
  "wf_memory sampleBackend \<and>
   Map_op 0x1FFF 1 3 sampleBackend = (Inl ErrInvalidMapping, sampleBackend) \<and>
   wf_memory (snd (Map_op 0x3000 8 5 sampleBackend))"
proof -
  have "\<not> mappable sampleBackend 0x1FFF 1 3"
    by (auto simp: mappable_def free_span_def guest_memory_def region_at_def sampleBackend_fields
        span_def holds_def region_end_def intro!: exI [of _ "0x1FFF"])
  then show ?thesis
    using Map_correct [OF wf_sampleBackend, of "0x1FFF" 1 3] Map_correct [OF wf_sampleBackend, of "0x3000" 8 5]
    by (simp add: sampleBackend_fields)
qed

text \<open>
  Region lookup, with its per-permission hint and its binary search, is the
  region that holds the address: an unmapped address is invalid, a region without
  every requested permission denies the access, and otherwise the offset is the
  distance from the region's base.  Only the hint changes.
\<close>

theorem findRegion_correct:
  assumes "wf_memory b"
  shows "\<exists>h. findRegion address permission b =
    ((case region_at b (unat address) of
        None \<Rightarrow> Inl ErrInvalidAddress
      | Some r \<Rightarrow> if region_permissions r AND permission \<noteq> permission then Inl ErrPermissionDenied
                 else Inr (r, unat address - unat (region_address r))),
     b\<lparr>regionHints := h\<rparr>)"
  by (rule findRegion_spec [OF assms])

theorem findRegion_correct_witness:
  "\<exists>h. findRegion 0x2004 4 sampleBackend =
     (Inr (\<lparr>region_address = 0x2000, region_size = 0x10, region_permissions = 7, region_data = 1\<rparr>, 4),
      sampleBackend\<lparr>regionHints := h\<rparr>)"
proof -
  have "region_at sampleBackend (unat (0x2004 :: u32)) =
      Some \<lparr>region_address = 0x2000, region_size = 0x10, region_permissions = 7, region_data = 1\<rparr>"
    by (simp add: region_at_def sampleBackend_fields holds_def region_end_def)
  with findRegion_correct [OF wf_sampleBackend, of "0x2004" 4] show ?thesis by simp
qed



end
