(* ===== verification/Cpu_Mmu.thy ===== *)
theory Cpu_Mmu
  imports Cpu_Memory
begin

text \<open>
  The ARM926 memory-management unit (src/cpu/interpreter/mmu.go) and the functional
  shadow of its virtually indexed instruction cache (instruction_cache.go): the
  short-descriptor walk, the software TLB, the domain and access-permission check,
  fault recording, virtual reads and writes, and the cache line lookup, fill, fetch
  and invalidation.
\<close>

subsection \<open>Faults\<close>

definition isExternalAbort :: "cpu_error \<Rightarrow> bool" where
  "isExternalAbort err = (case err of ErrBus external \<Rightarrow> external | _ \<Rightarrow> False)"

definition recordMMUFault ::
  "u32 \<Rightarrow> Permissions \<Rightarrow> u8 \<Rightarrow> u8 \<Rightarrow> mmuFaultKind \<Rightarrow> backend \<Rightarrow> cpu_error \<times> backend" where
  "recordMMUFault address permission domain status kind b =
     (let faultStatus = ucast status OR push_bit 4 (ucast domain);
          c = (if permission AND PermissionExecute \<noteq> 0
               then (cp15 b)\<lparr>cp15_instructionFaultStatus := faultStatus\<rparr>
               else (cp15 b)\<lparr>cp15_dataFaultStatus := faultStatus\<rparr>)
      in (ErrMMU \<lparr>fault_Address = address, fault_Domain = domain, fault_Status = status,
                  fault_Permission = permission, fault_kind = kind\<rparr>,
          b\<lparr>cp15 := c\<lparr>cp15_faultAddress := address\<rparr>\<rparr>))"

definition mmuFault ::
  "u32 \<Rightarrow> Permissions \<Rightarrow> u8 \<Rightarrow> u8 \<Rightarrow> mmuFaultKind \<Rightarrow> backend \<Rightarrow> 'a res" where
  "mmuFault address permission domain status kind b =
     (let (e, b) = recordMMUFault address permission domain status kind b in (Inl e, b))"

text \<open>The error of a physical access, seen by the virtual one; success passes through.\<close>

definition recordExternalAbort :: "u32 \<Rightarrow> Permissions \<Rightarrow> 'a res \<Rightarrow> 'a res" where
  "recordExternalAbort address permission r =
     (case r of
        (Inr v, b) \<Rightarrow> (Inr v, b)
      | (Inl err, b) \<Rightarrow>
          if \<not> isExternalAbort err then (Inl err, b)
          else mmuFault address permission 0 0x8 mmuExternalFault b)"

subsection \<open>Table walk\<close>

definition walkPageDescriptor ::
  "u32 \<Rightarrow> u32 \<Rightarrow> u32 \<Rightarrow> Permissions \<Rightarrow> u8 \<Rightarrow> bool \<Rightarrow> backend \<Rightarrow> mmuTranslation res" where
  "walkPageDescriptor descriptorAddress modified address permission domain fine b =
     and_then (readPhysical32 descriptorAddress b) (\<lambda>descriptor b.
       let kind = descriptor AND 3; cacheable = (descriptor AND push_bit 3 1 \<noteq> 0) in
       if kind = 0 then mmuFault address permission domain 0x7 mmuTranslationFault b
       else if kind = 1 then
         (let shift = unat (4 + (drop_bit 14 modified AND 3) * 2) in
          (Inr \<lparr>tr_physicalBase = (descriptor AND 0xffff0000) OR (modified AND 0x0000fc00),
                tr_domain = domain, tr_access = ucast (drop_bit shift descriptor AND 3),
                tr_page = True, tr_cacheable = cacheable\<rparr>, b))
       else if kind = 2 then
         (let shift = unat (4 + (drop_bit 10 modified AND 3) * 2) in
          (Inr \<lparr>tr_physicalBase = (descriptor AND 0xfffff000) OR (modified AND 0x00000c00),
                tr_domain = domain, tr_access = ucast (drop_bit shift descriptor AND 3),
                tr_page = True, tr_cacheable = cacheable\<rparr>, b))
       else if \<not> fine then mmuFault address permission domain 0x7 mmuTranslationFault b
       else (Inr \<lparr>tr_physicalBase = descriptor AND 0xfffffc00,
                  tr_domain = domain, tr_access = ucast (drop_bit 4 descriptor AND 3),
                  tr_page = True, tr_cacheable = cacheable\<rparr>, b))"

definition walkShortDescriptor ::
  "u32 \<Rightarrow> u32 \<Rightarrow> Permissions \<Rightarrow> backend \<Rightarrow> mmuTranslation res" where
  "walkShortDescriptor modified address permission b =
     (let firstAddress = (cp15_translationTableBase (cp15 b) AND 0xffffc000) OR drop_bit 20 modified * 4 in
      and_then (readPhysical32 firstAddress b) (\<lambda>first b.
        let kind = first AND 3; domain = ucast (drop_bit 5 first AND 0xf) in
        if kind = 0 then mmuFault address permission 0 0x5 mmuTranslationFault b
        else if kind = 1 then
          walkPageDescriptor ((first AND 0xfffffc00) OR (drop_bit 12 modified AND 0xff) * 4)
            modified address permission domain False b
        else if kind = 2 then
          (Inr \<lparr>tr_physicalBase = (first AND 0xfff00000) OR (modified AND 0x000ffc00),
                tr_domain = domain, tr_access = ucast (drop_bit 10 first AND 3),
                tr_page = False, tr_cacheable = (first AND push_bit 3 1 \<noteq> 0)\<rparr>, b)
        else
          walkPageDescriptor ((first AND 0xfffff000) OR (drop_bit 10 modified AND 0x3ff) * 4)
            modified address permission domain True b))"

subsection \<open>Access check\<close>

definition checkTranslationAccess ::
  "mmuTranslation \<Rightarrow> u32 \<Rightarrow> Permissions \<Rightarrow> backend \<Rightarrow> unit res" where
  "checkTranslationAccess translation address permission b =
     (let domainAccess = drop_bit (unat (ucast (tr_domain translation) * 2 :: u32))
            (cp15_domainAccessControl (cp15 b)) AND 3;
          status = (if tr_page translation then 0xb else 0x9)
      in if domainAccess = 3 then (Inr (), b)
         else if domainAccess \<noteq> 1 then mmuFault address permission (tr_domain translation) status mmuDomainFault b
         else
           let wr = (permission AND PermissionWrite \<noteq> 0);
               user = (currentProcessorMode b = processorModeUser);
               systemProtection = (cp15_control (cp15 b) AND push_bit 8 1 \<noteq> 0);
               romProtection = (cp15_control (cp15 b) AND push_bit 9 1 \<noteq> 0);
               allowed =
                 (if tr_access translation = 0 then
                    \<not> user \<and> (systemProtection \<and> \<not> romProtection \<or> \<not> systemProtection \<and> romProtection \<and> \<not> wr)
                  else if tr_access translation = 1 then \<not> user
                  else if tr_access translation = 2 then \<not> user \<or> \<not> wr
                  else tr_access translation = 3)
           in if allowed then (Inr (), b)
              else mmuFault address permission (tr_domain translation)
                (if tr_page translation then 0xf else 0xd) mmuPermissionFault b)"

subsection \<open>Translation through the software TLB\<close>

definition modifiedVirtualAddress :: "u32 \<Rightarrow> backend \<Rightarrow> u32" where
  "modifiedVirtualAddress address b =
     (if address < 0x02000000 then address OR (cp15_processID (cp15 b) AND 0xfe000000) else address)"

definition tlbTable :: "backend \<Rightarrow> u32 \<Rightarrow> mmuTLBEntry" where
  "tlbTable b = (case mmuTLBTable b of None \<Rightarrow> (\<lambda>_. emptyTLBEntry) | Some t \<Rightarrow> t)"

definition translateAddressWithAttributes ::
  "u32 \<Rightarrow> Permissions \<Rightarrow> backend \<Rightarrow> (u32 \<times> mmuTranslation) res" where
  "translateAddressWithAttributes address permission b =
     (if \<not> mmuEnabled b
      then (Inr (address, \<lparr>tr_physicalBase = address AND NOT 0x3ff, tr_domain = 0, tr_access = 0,
                           tr_page = False, tr_cacheable = True\<rparr>), b)
      else
        let modified = modifiedVirtualAddress address b;
            key = drop_bit 10 modified;
            b = b\<lparr>mmuTLBTable := Some (tlbTable b)\<rparr>;
            entry = tlbTable b (key AND 4095)
        in and_then
             (if tlb_valid entry \<and> tlb_gen entry = mappingGen b \<and> tlb_tag entry = key
              then (Inr (tlb_translation entry), b)
              else and_then (walkShortDescriptor modified address permission b) (\<lambda>translation b.
                (Inr translation,
                 b\<lparr>mmuTLBTable := Some ((tlbTable b)(key AND 4095 :=
                    \<lparr>tlb_translation = translation, tlb_tag = key, tlb_gen = mappingGen b,
                     tlb_valid = True\<rparr>))\<rparr>)))
             (\<lambda>translation b.
                and_then (checkTranslationAccess translation address permission b) (\<lambda>_ b.
                  (Inr (tr_physicalBase translation OR (modified AND 0x3ff), translation), b))))"

definition translateAddress :: "u32 \<Rightarrow> Permissions \<Rightarrow> backend \<Rightarrow> u32 res" where
  "translateAddress address permission b =
     and_then (translateAddressWithAttributes address permission b)
       (\<lambda>(physical, _) b. (Inr physical, b))"

definition PhysicalAddress :: "u32 \<Rightarrow> Permissions \<Rightarrow> backend \<Rightarrow> u32 res" where
  "PhysicalAddress address permission b = translateAddress address permission b"

subsection \<open>Virtual reads and writes\<close>

lemma page_step_pos: "0 < 0x400 - unat (x AND 0x3ff :: u32)"
proof -
  have "unat (x AND 0x3ff) \<le> unat (0x3ff :: u32)" by (rule unat_and_le)
  then show ?thesis by simp
qed

function readVirtual :: "u32 \<Rightarrow> nat \<Rightarrow> Permissions \<Rightarrow> backend \<Rightarrow> u8 list res" where
  "readVirtual current remaining permission b =
     (if remaining = 0 then (Inr [], b)
      else and_then (translateAddress current permission b) (\<lambda>physical b.
        let count = min remaining (0x400 - unat (current AND 0x3ff)) in
        and_then (recordExternalAbort current permission (copyOut physical count permission b))
          (\<lambda>bytes b.
             and_then (readVirtual (current + of_nat count) (remaining - count) permission b)
               (\<lambda>rest b. (Inr (bytes @ rest), b)))))"
  by pat_completeness auto
termination
  by (relation "measure (\<lambda>(_, n, _, _). n)") (use page_step_pos in \<open>auto simp: min_def Let_def\<close>)

declare readVirtual.simps [simp del]

function writeVirtual :: "u32 \<Rightarrow> u8 list \<Rightarrow> Permissions \<Rightarrow> backend \<Rightarrow> unit res" where
  "writeVirtual current remaining permission b =
     (if remaining = [] then (Inr (), b)
      else and_then (translateAddress current permission b) (\<lambda>physical b.
        let count = min (length remaining) (0x400 - unat (current AND 0x3ff)) in
        and_then (recordExternalAbort current permission
                    (copyIn physical (take count remaining) permission b))
          (\<lambda>_ b. writeVirtual (current + of_nat count) (drop count remaining) permission b)))"
  by pat_completeness auto
termination
  by (relation "measure (\<lambda>(_, xs, _, _). length xs)") (use page_step_pos in \<open>auto simp: min_def Let_def\<close>)

declare writeVirtual.simps [simp del]

subsection \<open>Instruction cache\<close>

text \<open>
  The table is direct-mapped; a line pointer held by the fetch loop
  (\<open>instructionWindow\<close>) is the index of its table entry.
\<close>

definition icIndex :: "u32 \<Rightarrow> u32" where
  "icIndex mvaLine = drop_bit 5 mvaLine AND 2047"

definition instructionCacheEntryAt :: "u32 \<Rightarrow> backend \<Rightarrow> instructionCacheEntry option" where
  "instructionCacheEntryAt mvaLine b = map_option (\<lambda>t. t (icIndex mvaLine)) (instructionCacheTable b)"

definition setICEntry :: "u32 \<Rightarrow> instructionCacheEntry \<Rightarrow> backend \<Rightarrow> backend" where
  "setICEntry mvaLine entry b =
     b\<lparr>instructionCacheTable := map_option (\<lambda>t. t(icIndex mvaLine := entry)) (instructionCacheTable b)\<rparr>"

definition mvaLineOf :: "u32 \<Rightarrow> backend \<Rightarrow> u32" where
  "mvaLineOf address b = modifiedVirtualAddress address b AND NOT 31"

definition InstructionCacheLine :: "u32 \<Rightarrow> backend \<Rightarrow> u32 \<times> u8 list option" where
  "InstructionCacheLine address b =
     (let mvaLine = mvaLineOf address b in
      (mvaLine,
       case instructionCacheEntryAt mvaLine b of
         None \<Rightarrow> None
       | Some entry \<Rightarrow>
           if \<not> ic_valid entry \<or> ic_gen entry \<noteq> mappingGen b \<or> ic_tag entry \<noteq> mvaLine then None
           else Some (ic_line entry)))"

definition nextICSerial :: "backend \<Rightarrow> backend" where
  "nextICSerial b =
     (let b = b\<lparr>instructionCacheSerial := instructionCacheSerial b + 1\<rparr> in
      if instructionCacheSerial b = 0
      then b\<lparr>instructionCacheSerial := instructionCacheSerial b + 1\<rparr> else b)"

definition ensureICTable :: "backend \<Rightarrow> backend" where
  "ensureICTable b =
     (if instructionCacheTable b = None then b\<lparr>instructionCacheTable := Some (\<lambda>_. emptyICEntry)\<rparr> else b)"

text \<open>
  \<open>fillInstructionCacheLine\<close> answers the line, or \<open>None\<close> when the page is not
  cacheable.  A failed fill marks the entry invalid; what the aborted read left in
  its bytes is not observable and is not modelled.
\<close>

definition fillInstructionCacheLine ::
  "u32 \<Rightarrow> u32 \<Rightarrow> bool \<Rightarrow> backend \<Rightarrow> u8 list option res" where
  "fillInstructionCacheLine address mvaLine privileged b =
     and_then (translateAddressWithAttributes address PermissionExecute b) (\<lambda>(_, translation) b.
       if \<not> tr_cacheable translation then (Inr None, b)
       else
         let b = invalidateInstructionWindow (ensureICTable b) in
         case readVirtual (address AND NOT 31) 32 PermissionExecute b of
           (Inl e, b) \<Rightarrow>
             (Inl e, setICEntry mvaLine ((the (instructionCacheEntryAt mvaLine b))\<lparr>ic_valid := False\<rparr>) b)
         | (Inr line, b) \<Rightarrow>
             let b = nextICSerial b;
                 entry = \<lparr>ic_line = line, ic_tag = mvaLine, ic_serial = instructionCacheSerial b,
                          ic_gen = mappingGen b, ic_privileged = privileged, ic_valid = True\<rparr>
             in (Inr (Some line), setICEntry mvaLine entry b))"

definition loadInstructionCacheLine :: "u32 \<Rightarrow> backend \<Rightarrow> u8 list option res" where
  "loadInstructionCacheLine address b =
     (let mvaLine = mvaLineOf address b; privileged = currentlyPrivileged b in
      case instructionCacheEntryAt mvaLine b of
        Some entry \<Rightarrow>
          if ic_valid entry \<and> ic_gen entry = mappingGen b \<and> ic_tag entry = mvaLine \<and>
             ic_privileged entry = privileged
          then (Inr (Some (ic_line entry)), b)
          else fillInstructionCacheLine address mvaLine privileged b
      | None \<Rightarrow> fillInstructionCacheLine address mvaLine privileged b)"

text \<open>The table lookup behind a window, a miss or a stale window.\<close>

definition fetchThroughTable :: "u32 \<Rightarrow> nat \<Rightarrow> backend \<Rightarrow> u8 list res" where
  "fetchThroughTable address sz b =
     (let mvaLine = mvaLineOf address b;
          windowTag = drop_bit 5 mvaLine + 1;
          offset = unat (address AND 31)
      in and_then (loadInstructionCacheLine address b) (\<lambda>l b.
           case l of
             None \<Rightarrow>
               (let b = invalidateInstructionWindow b in
                and_then (translateAddressWithAttributes address PermissionExecute b)
                  (\<lambda>(physical, _) b. copyOut physical sz PermissionExecute b))
           | Some line \<Rightarrow>
               (let b = b\<lparr>instructionWindow := Some (icIndex mvaLine), instructionWindowTag := windowTag\<rparr>;
                    b = (case instructionCacheEntryAt mvaLine b of
                           None \<Rightarrow> b
                         | Some entry \<Rightarrow> b\<lparr>instructionWindowSerial := ic_serial entry\<rparr>)
                in (Inr (slice line offset sz), b))))"

definition fetchInstructionCache :: "u32 \<Rightarrow> nat \<Rightarrow> backend \<Rightarrow> u8 list res" where
  "fetchInstructionCache address sz b =
     (let mvaLine = mvaLineOf address b;
          windowTag = drop_bit 5 mvaLine + 1;
          offset = unat (address AND 31)
      in if 32 < offset + sz then (Inl ErrInvalidAddress, b)
         else if instructionWindowTag b = windowTag then
           (case instructionCacheEntryAt mvaLine b of
              Some entry \<Rightarrow>
                if ic_valid entry \<and> ic_gen entry = mappingGen b \<and> ic_tag entry = mvaLine \<and>
                   ic_privileged entry = currentlyPrivileged b \<and>
                   ic_serial entry = instructionWindowSerial b \<and>
                   instructionWindow b = Some (icIndex mvaLine)
                then (Inr (slice (ic_line entry) offset sz), b)
                else fetchThroughTable address sz (invalidateInstructionWindow b)
            | None \<Rightarrow> fetchThroughTable address sz (invalidateInstructionWindow b))
         else fetchThroughTable address sz b)"

definition invalidateInstructionCache :: "backend \<Rightarrow> backend" where
  "invalidateInstructionCache b = invalidateInstructionWindow (b\<lparr>mappingGen := mappingGen b + 1\<rparr>)"

definition invalidateInstructionCacheMVA :: "u32 \<Rightarrow> backend \<Rightarrow> backend" where
  "invalidateInstructionCacheMVA address b =
     (let b = invalidateInstructionWindow b; mvaLine = mvaLineOf address b in
      case instructionCacheEntryAt mvaLine b of
        Some entry \<Rightarrow>
          if ic_tag entry = mvaLine then setICEntry mvaLine (entry\<lparr>ic_valid := False\<rparr>) b else b
      | None \<Rightarrow> b)"

definition prefetchInstructionCacheLine :: "u32 \<Rightarrow> backend \<Rightarrow> unit res" where
  "prefetchInstructionCacheLine address b =
     (if \<not> instructionCacheEnabled b then (Inr (), b)
      else and_then (loadInstructionCacheLine address b) (\<lambda>_ b. (Inr (), b)))"

definition residentInstructionCacheLines :: "backend \<Rightarrow> u32 list" where
  "residentInstructionCacheLines b =
     (case instructionCacheTable b of
        None \<Rightarrow> []
      | Some t \<Rightarrow>
          map ic_tag (filter (\<lambda>e. ic_valid e \<and> ic_gen e = mappingGen b)
            (map (\<lambda>i. t (of_nat i)) [0..<2048])))"

definition restoreInstructionCacheLine :: "u32 \<Rightarrow> u8 list \<Rightarrow> backend \<Rightarrow> backend" where
  "restoreInstructionCacheLine mvaLine line b =
     (let b = nextICSerial (invalidateInstructionWindow (ensureICTable b)) in
      setICEntry mvaLine
        \<lparr>ic_line = line, ic_tag = mvaLine, ic_serial = instructionCacheSerial b,
         ic_gen = mappingGen b, ic_privileged = currentlyPrivileged b, ic_valid = True\<rparr> b)"

end
