(* ===== verification/Cpu_Access.thy ===== *)
theory Cpu_Access
  imports Cpu_Mmu
begin

text \<open>
  Scalar memory accesses of the interpreter (src/cpu/interpreter/memory.go): loads,
  stores and instruction fetches of one, two and four bytes, routed to the MMU, to an
  attached bus, or to the private regions through their data and fetch windows; the
  host's view of memory (\<open>ReadMemory\<close>, \<open>WriteMemory\<close> of backend.go) and the
  semihosting calls (semihosting.go).  That the cached accesses of an application guest
  implement the byte-wise memory is shown in \<open>Cpu_Guest_Memory\<close>.
\<close>

subsection \<open>Private accesses through the windows\<close>

text \<open>
  The tail that the scalar loads share: the window cache, then the region, then a copy
  for a span that leaves its region.
\<close>

definition readPrivate :: "nat \<Rightarrow> u32 \<Rightarrow> Permissions \<Rightarrow> backend \<Rightarrow> u8 list res" where
  "readPrivate n address permission b =
     (case privateDataHit address n permission b of
        Some (d, offset, _) \<Rightarrow> (Inr (slice (arrays b d) offset n), b)
      | None \<Rightarrow>
          and_then (findRegion address permission b) (\<lambda>(r, offset) b.
            if n \<le> length (arrays b (region_data r)) - offset
            then (Inr (slice (arrays b (region_data r)) offset n), cacheData r address permission b)
            else copyOut address n permission b))"

definition writePrivate :: "u32 \<Rightarrow> u8 list \<Rightarrow> Permissions \<Rightarrow> backend \<Rightarrow> unit res" where
  "writePrivate address bytes permission b =
     (case privateDataHit address (length bytes) permission b of
        Some (d, offset, _) \<Rightarrow> (Inr (), storeBytes d offset bytes b)
      | None \<Rightarrow>
          and_then (findRegion address permission b) (\<lambda>(r, offset) b.
            if length bytes \<le> length (arrays b (region_data r)) - offset
            then (Inr (), storeBytes (region_data r) offset bytes (cacheData r address permission b))
            else copyIn address bytes permission b))"

text \<open>The instruction-fetch window holds one executable region.\<close>

definition executeLength :: "backend \<Rightarrow> nat" where
  "executeLength b = (case executeData b of None \<Rightarrow> 0 | Some d \<Rightarrow> length (arrays b d))"

definition fetchPrivate :: "nat \<Rightarrow> u32 \<Rightarrow> backend \<Rightarrow> u8 list res" where
  "fetchPrivate n address b =
     (let offset = unat (address - executeAddress b) in
      if executeAddress b \<le> address \<and> offset + n \<le> executeLength b
      then (Inr (slice (arrays b (the (executeData b))) offset n), b)
      else
        and_then (findRegion address PermissionExecute b) (\<lambda>(r, offset) b.
          if length (arrays b (region_data r)) - offset < n
          then copyOut address n PermissionExecute b
          else (Inr (slice (arrays b (region_data r)) offset n),
                b\<lparr>executeAddress := region_address r, executeData := Some (region_data r)\<rparr>)))"

subsection \<open>Instruction fetches\<close>

definition fetchBytes :: "nat \<Rightarrow> u32 \<Rightarrow> backend \<Rightarrow> u8 list res" where
  "fetchBytes n address b =
     (if physicalAccess b \<and> instructionCacheEnabled b then fetchInstructionCache address n b
      else if physicalAccess b \<and> mmuEnabled b then readVirtual address n PermissionExecute b
      else if physicalAccess b \<and> systemBus b \<noteq> None then
        recordExternalAbort address PermissionExecute (readSystemBus address n PermissionExecute b)
      else fetchPrivate n address b)"

definition fetch16 :: "u32 \<Rightarrow> backend \<Rightarrow> u16 res" where
  "fetch16 address b = and_then (fetchBytes 2 address b) (\<lambda>bytes b. (Inr (Uint16 bytes), b))"

definition fetch32 :: "u32 \<Rightarrow> backend \<Rightarrow> u32 res" where
  "fetch32 address b = and_then (fetchBytes 4 address b) (\<lambda>bytes b. (Inr (Uint32 bytes), b))"

subsection \<open>Loads\<close>

definition read8 :: "u32 \<Rightarrow> Permissions \<Rightarrow> backend \<Rightarrow> u8 res" where
  "read8 address permission b =
     and_then
       (if physicalAccess b \<and> mmuEnabled b then readVirtual address 1 permission b
        else if physicalAccess b \<and> systemBus b \<noteq> None then
          recordExternalAbort address permission (readSystemBus address 1 permission b)
        else readPrivate 1 address permission b)
       (\<lambda>bytes b. (Inr (bytes ! 0), b))"

definition read16 :: "u32 \<Rightarrow> Permissions \<Rightarrow> backend \<Rightarrow> u16 res" where
  "read16 address permission b =
     (if physicalAccess b \<and> mmuEnabled b then
        and_then (readVirtual address 2 permission b) (\<lambda>bytes b. (Inr (Uint16 bytes), b))
      else if physicalAccess b \<and> systemBus b \<noteq> None then
        and_then (recordExternalAbort address permission (readSystemBus address 2 permission b))
          (\<lambda>bytes b. (Inr (Uint16 bytes), b))
      else if permission = PermissionExecute then fetch16 address b
      else and_then (readPrivate 2 address permission b) (\<lambda>bytes b. (Inr (Uint16 bytes), b)))"

definition alignmentChecked :: "backend \<Rightarrow> bool" where
  "alignmentChecked b \<longleftrightarrow> cp15_control (cp15 b) AND push_bit 1 1 \<noteq> 0"

definition read32Aligned :: "u32 \<Rightarrow> Permissions \<Rightarrow> backend \<Rightarrow> u32 res" where
  "read32Aligned address permission b =
     (if physicalAccess b \<and> mmuEnabled b then
        and_then (readVirtual address 4 permission b) (\<lambda>bytes b. (Inr (Uint32 bytes), b))
      else if physicalAccess b \<and> systemBus b \<noteq> None then
        and_then (recordExternalAbort address permission (readSystemBus address 4 permission b))
          (\<lambda>bytes b. (Inr (Uint32 bytes), b))
      else if permission = PermissionExecute then fetch32 address b
      else and_then (readPrivate 4 address permission b) (\<lambda>bytes b. (Inr (Uint32 bytes), b)))"

text \<open>The recursive call of \<open>read32\<close> is on an aligned address, so it does not recur again.\<close>

definition read32 :: "u32 \<Rightarrow> Permissions \<Rightarrow> backend \<Rightarrow> u32 res" where
  "read32 address permission b =
     (let lane = address AND 3 in
      if lane \<noteq> 0 \<and> \<not> alignmentChecked b
      then and_then (read32Aligned (address AND NOT 3) permission b) (\<lambda>v b.
        let shift = unat (lane * 8) in (Inr (drop_bit shift v OR push_bit (32 - shift) v), b))
      else read32Aligned address permission b)"

definition blockTransferAddress :: "u32 \<Rightarrow> backend \<Rightarrow> u32" where
  "blockTransferAddress address b = (if \<not> alignmentChecked b then address AND NOT 3 else address)"

subsection \<open>Stores\<close>

definition writeRouted :: "u32 \<Rightarrow> u8 list \<Rightarrow> Permissions \<Rightarrow> backend \<Rightarrow> unit res" where
  "writeRouted address bytes permission b =
     (if physicalAccess b \<and> mmuEnabled b then writeVirtual address bytes permission b
      else if physicalAccess b \<and> systemBus b \<noteq> None then
        recordExternalAbort address permission (writeSystemBus address bytes permission b)
      else writePrivate address bytes permission b)"

definition write8 :: "u32 \<Rightarrow> u8 \<Rightarrow> Permissions \<Rightarrow> backend \<Rightarrow> unit res" where
  "write8 address v permission b = writeRouted address [v] permission b"

definition write16 :: "u32 \<Rightarrow> u16 \<Rightarrow> Permissions \<Rightarrow> backend \<Rightarrow> unit res" where
  "write16 address v permission b = writeRouted address (PutUint16 v) permission b"

definition write32 :: "u32 \<Rightarrow> u32 \<Rightarrow> Permissions \<Rightarrow> backend \<Rightarrow> unit res" where
  "write32 address v permission b =
     (let address = (if address AND 3 \<noteq> 0 \<and> \<not> alignmentChecked b then address AND NOT 3 else address)
      in writeRouted address (PutUint32 v) permission b)"

subsection \<open>The host's view\<close>

definition ReadMemory :: "u32 \<Rightarrow> nat \<Rightarrow> backend \<Rightarrow> u8 list res" where
  "ReadMemory address n b =
     (if closed b then (Inl ErrClosed, b)
      else if mmuEnabled b then readVirtual address n PermissionRead b
      else copyOut address n PermissionRead b)"

definition WriteMemory :: "u32 \<Rightarrow> u8 list \<Rightarrow> backend \<Rightarrow> unit res" where
  "WriteMemory address source b =
     (if closed b then (Inl ErrClosed, b)
      else if mmuEnabled b then writeVirtual address source PermissionWrite b
      else copyIn address source PermissionWrite b)"

subsection \<open>Semihosting\<close>

definition semihostingRead :: "backend \<Rightarrow> backend" where
  "semihostingRead b =
     (let block = regs b 1;
          (buffer, b) = read32 (block + 4) PermissionRead b;
          (count, b) = read32 (block + 8) PermissionRead b;
          count = (case count of Inl _ \<Rightarrow> 0 | Inr c \<Rightarrow> c);
          b = (case buffer of
                 Inl _ \<Rightarrow> b
               | Inr buffer \<Rightarrow>
                   if buffer \<noteq> 0 \<and> count \<noteq> 0 \<and> count \<le> push_bit 20 1
                   then snd (copyIn buffer (replicate (unat count) 0) PermissionWrite b) else b)
      in setReg 0 count b)"

definition handleSemihosting :: "backend \<Rightarrow> bool \<times> backend" where
  "handleSemihosting b =
     (let operation = regs b 0 in
      (True,
       if operation = 0x01 then setReg 0 1 b
       else if operation = 0x06 then semihostingRead b
       else if operation = 0x0c then setReg 0 (NOT 0) b
       else setReg 0 0 b))"

end
