(* ===== verification/Cpu_Frame.thy ===== *)
theory Cpu_Frame
  imports Cpu_Access
begin

text \<open>
  What a memory access leaves alone.  Loads, stores, fetches, translations and cache
  fills change only bytes, lookup caches, the attached bus and the fault registers of
  CP15; registers, pending flags, processor and instruction-set mode, banks, saved
  status, mappings, routing, interrupt lines, traps and diagnostics stay as they
  were.  The locale gives the composition rule once; the interpretation is on that
  relation.
\<close>

subsection \<open>Relations between the state before and after an operation\<close>

locale frame_relation =
  fixes R :: "'s \<Rightarrow> 's \<Rightarrow> bool"
  assumes frame_refl: "R s s"
    and frame_trans: "R s t \<Longrightarrow> R t u \<Longrightarrow> R s u"
begin

lemma and_then_frame:
  assumes "R s (snd r)" and "\<And>v t. r = (Inr v, t) \<Longrightarrow> R t (snd (k v t))"
  shows "R s (snd (and_then r k))"
proof (cases r)
  case (Pair x t)
  then show ?thesis
    using assms frame_trans [of s t] by (cases x) auto
qed

lemma and_then_frameI:
  assumes "\<And>x t. r = (x, t) \<Longrightarrow> R s t" and "\<And>v t. r = (Inr v, t) \<Longrightarrow> R t (snd (k v t))"
  shows "R s (snd (and_then r k))"
  using and_then_frame [of s r k] assms by (cases r) auto

lemma fold_frame: "(\<And>x s. x \<in> set xs \<Longrightarrow> R s (f x s)) \<Longrightarrow> R s (fold f xs s)"
proof (induction xs arbitrary: s)
  case (Cons x xs)
  have "R s (f x s)" using Cons.prems by simp
  moreover have "R (f x s) (fold f xs (f x s))" using Cons by simp
  ultimately show ?case using frame_trans by simp
qed (simp add: frame_refl)

end

definition access_frame :: "backend \<Rightarrow> backend \<Rightarrow> bool" where
  "access_frame b b' \<longleftrightarrow>
     regs b' = regs b \<and> flags b' = flags b \<and> mode b' = mode b \<and> banks b' = banks b \<and>
     spsr b' = spsr b \<and> stopped b' = stopped b \<and> closed b' = closed b \<and>
     physicalAccess b' = physicalAccess b \<and>
     userSystemSPSRReadAsCPSR b' = userSystemSPSRReadAsCPSR b \<and>
     regions b' = regions b \<and> arraysNext b' = arraysNext b \<and> mapped b' = mapped b \<and>
     memoryLimit b' = memoryLimit b \<and> (systemBus b' = None \<longleftrightarrow> systemBus b = None) \<and>
     cp15_control (cp15 b') = cp15_control (cp15 b) \<and>
     cp15_translationTableBase (cp15 b') = cp15_translationTableBase (cp15 b) \<and>
     cp15_domainAccessControl (cp15 b') = cp15_domainAccessControl (cp15 b) \<and>
     cp15_processID (cp15 b') = cp15_processID (cp15 b) \<and>
     mappingGen b' = mappingGen b \<and> interruptLines b' = interruptLines b \<and>
     executionTraps b' = executionTraps b \<and> instructionAddress b' = instructionAddress b \<and>
     pcHits b' = pcHits b \<and> pcHistory b' = pcHistory b \<and> pcHistoryNext b' = pcHistoryNext b \<and>
     pcCaptureAddress b' = pcCaptureAddress b \<and> pcCaptureLimit b' = pcCaptureLimit b \<and>
     pcRegisterCaptures b' = pcRegisterCaptures b \<and>
     executionStatistics b' = executionStatistics b"

interpretation access: frame_relation access_frame
  by unfold_locales (auto simp: access_frame_def)

named_theorems frames

lemmas access_refl [simp] = access.frame_refl

text \<open>An update of a field outside the frame.\<close>

lemma access_frame_updates [frames]:
  "access_frame b (b\<lparr>arrays := x1\<rparr>)" "access_frame b (b\<lparr>regionHints := x2\<rparr>)"
  "access_frame b (b\<lparr>privateDataCache := x3\<rparr>)" "access_frame b (b\<lparr>mmuTLBTable := x4\<rparr>)"
  "access_frame b (b\<lparr>instructionCacheTable := x5\<rparr>)" "access_frame b (b\<lparr>instructionCacheSerial := x6\<rparr>)"
  "access_frame b (b\<lparr>executeAddress := x7, executeData := x8\<rparr>)"
  "access_frame b (b\<lparr>instructionWindow := x9, instructionWindowTag := x10\<rparr>)"
  "access_frame b (b\<lparr>instructionWindowSerial := x11\<rparr>)"
  by (simp_all add: access_frame_def)

subsection \<open>Physical accesses\<close>

lemma findRegion_frame [frames]: "access_frame b (snd (findRegion address p b))"
  by (simp add: findRegion_def Let_def access_frame_def)

lemma cacheData_frame [frames]: "access_frame b (cacheData r address p b)"
  by (simp add: cacheData_def access_frame_def)

lemma storeBytes_frame [frames]: "access_frame b (storeBytes d off bytes b)"
  by (simp add: storeBytes_def access_frame_def)

lemma readSystemBus_frame [frames]: "access_frame b (snd (readSystemBus address n p b))"
  by (auto simp: readSystemBus_def access_frame_def Let_def split: option.split prod.split sum.split)

lemma writeSystemBus_frame [frames]: "access_frame b (snd (writeSystemBus address bytes p b))"
  by (auto simp: writeSystemBus_def access_frame_def Let_def split: option.split prod.split)

lemma copyOutBus_frame [frames]: "access_frame b (snd (copyOutBus address n p b))"
proof (induction address n p b rule: copyOutBus.induct)
  case (1 current remaining p b)
  show ?case
  proof (cases "remaining = 0")
    case True
    then show ?thesis by (simp add: copyOutBus.simps)
  next
    case False
    then show ?thesis
      using 1 readSystemBus_frame
      by (subst copyOutBus.simps) (auto simp: Let_def intro!: access.and_then_frame)
  qed
qed

lemma copyInBus_frame [frames]: "access_frame b (snd (copyInBus address bytes p b))"
proof (induction address bytes p b rule: copyInBus.induct)
  case (1 current remaining p b)
  show ?case
  proof (cases "remaining = []")
    case True
    then show ?thesis by (simp add: copyInBus.simps)
  next
    case False
    then show ?thesis
      using 1 writeSystemBus_frame
      by (subst copyInBus.simps) (auto simp: Let_def intro!: access.and_then_frame)
  qed
qed

lemma copyOutLoop_frame [frames]: "access_frame b (snd (copyOutLoop fuel address n p b))"
proof (induction fuel arbitrary: address n b)
  case (Suc fuel)
  then show ?case
    by (auto simp: Let_def intro!: access.and_then_frame findRegion_frame)
qed simp

lemma copyInLoop_frame [frames]: "access_frame b (snd (copyInLoop fuel address bytes p b))"
proof (induction fuel arbitrary: address bytes b)
  case (Suc fuel)
  have step: "access_frame b (snd (copyInLoop fuel a bs p (storeBytes d off xs b)))" for a bs d off xs b
    using access.frame_trans [OF storeBytes_frame Suc.IH] .
  show ?case
    by (auto simp: Let_def intro!: access.and_then_frame findRegion_frame step storeBytes_frame)
qed simp

lemma copyOut_frame [frames]: "access_frame b (snd (copyOut address n p b))"
  by (simp add: copyOut_def copyOutBus_frame copyOutLoop_frame)

lemma copyIn_frame [frames]: "access_frame b (snd (copyIn address bytes p b))"
  by (simp add: copyIn_def copyInBus_frame copyInLoop_frame)

lemma readPhysical32_frame [frames]: "access_frame b (snd (readPhysical32 address b))"
  by (simp add: readPhysical32_def access.and_then_frame copyOut_frame)

subsection \<open>Virtual accesses\<close>

lemma mmuFault_frame [frames]: "access_frame b (snd (mmuFault address p domain status kind b))"
  by (simp add: mmuFault_def recordMMUFault_def Let_def access_frame_def)

lemma recordExternalAbort_frame [frames]:
  "access_frame b (snd r) \<Longrightarrow> access_frame b (snd (recordExternalAbort address p r))"
  by (cases r; cases "fst r")
    (auto simp: recordExternalAbort_def intro: access.frame_trans [OF _ mmuFault_frame])

lemma walkPageDescriptor_frame [frames]:
  "access_frame b (snd (walkPageDescriptor d m a p domain fine b))"
  unfolding walkPageDescriptor_def
  by (auto simp: Let_def intro!: access.and_then_frame readPhysical32_frame mmuFault_frame)

lemma walkShortDescriptor_frame [frames]: "access_frame b (snd (walkShortDescriptor m a p b))"
  unfolding walkShortDescriptor_def Let_def
  by (auto intro!: access.and_then_frame readPhysical32_frame mmuFault_frame walkPageDescriptor_frame)

lemma checkTranslationAccess_frame [frames]: "access_frame b (snd (checkTranslationAccess t a p b))"
  unfolding checkTranslationAccess_def Let_def by (simp add: mmuFault_frame)

lemma translateAddressWithAttributes_frame [frames]:
  "access_frame b (snd (translateAddressWithAttributes a p b))"
proof (cases "mmuEnabled b")
  case True
  define b0 where "b0 = b\<lparr>mmuTLBTable := Some (tlbTable b)\<rparr>"
  have "access_frame b b0" by (simp add: b0_def access_frame_def)
  moreover have "access_frame b0 (snd (translateAddressWithAttributes a p b))"
    unfolding translateAddressWithAttributes_def Let_def b0_def [symmetric]
    using True
    by (auto intro!: access.and_then_frame checkTranslationAccess_frame walkShortDescriptor_frame
        access_frame_updates)
  ultimately show ?thesis by (rule access.frame_trans)
qed (simp add: translateAddressWithAttributes_def)

lemma translateAddress_frame [frames]: "access_frame b (snd (translateAddress a p b))"
  unfolding translateAddress_def
  by (rule access.and_then_frame [OF translateAddressWithAttributes_frame]) auto

lemma readVirtual_frame [frames]: "access_frame b (snd (readVirtual address n p b))"
proof (induction address n p b rule: readVirtual.induct)
  case (1 current remaining p b)
  show ?case
  proof (cases "remaining = 0")
    case True
    then show ?thesis by (simp add: readVirtual.simps)
  next
    case False
    with 1 show ?thesis
      by (subst readVirtual.simps)
        (auto simp: Let_def intro!: access.and_then_frame translateAddress_frame
          recordExternalAbort_frame copyOut_frame)
  qed
qed

lemma writeVirtual_frame [frames]: "access_frame b (snd (writeVirtual address bytes p b))"
proof (induction address bytes p b rule: writeVirtual.induct)
  case (1 current remaining p b)
  show ?case
  proof (cases "remaining = []")
    case True
    then show ?thesis by (simp add: writeVirtual.simps)
  next
    case False
    with 1 show ?thesis
      by (subst writeVirtual.simps)
        (auto simp: Let_def intro!: access.and_then_frame translateAddress_frame
          recordExternalAbort_frame copyIn_frame)
  qed
qed

subsection \<open>Instruction cache\<close>

lemma ic_updates_frame [frames]:
  "access_frame b (invalidateInstructionWindow b)" "access_frame b (setICEntry l e b)"
  "access_frame b (ensureICTable b)" "access_frame b (nextICSerial b)"
  by (simp_all add: invalidateInstructionWindow_def setICEntry_def ensureICTable_def nextICSerial_def
      access_frame_def Let_def)

lemma fillInstructionCacheLine_frame [frames]:
  "access_frame b (snd (fillInstructionCacheLine a l pr b))"
proof -
  have inner: "access_frame b (snd (case readVirtual x n p (invalidateInstructionWindow (ensureICTable b)) of
      (Inl e, b) \<Rightarrow> (Inl e, f b) | (Inr line, b) \<Rightarrow> (Inr (g line), h line b)))"
    if "\<And>b. access_frame b (f b)" "\<And>line b. access_frame b (h line b)" for b x n p f g and h :: "_ \<Rightarrow> _"
  proof -
    define b0 where "b0 = invalidateInstructionWindow (ensureICTable b)"
    have 0: "access_frame b b0"
      unfolding b0_def by (rule access.frame_trans [OF ic_updates_frame(3,1)])
    obtain r b1 where r: "readVirtual x n p b0 = (r, b1)" by fastforce
    with readVirtual_frame [of b0 x n p] have "access_frame b0 b1" by simp
    with 0 have "access_frame b b1" by (rule access.frame_trans)
    then show ?thesis
      using that access.frame_trans [of b b1] r unfolding b0_def by (cases r) auto
  qed
  have fill: "access_frame b (setICEntry l e (nextICSerial b))" for b l e
    by (rule access.frame_trans [OF ic_updates_frame(4,2)])
  show ?thesis
    unfolding fillInstructionCacheLine_def Let_def
    by (auto intro!: access.and_then_frame translateAddressWithAttributes_frame inner ic_updates_frame
        fill)
qed

lemma loadInstructionCacheLine_frame [frames]: "access_frame b (snd (loadInstructionCacheLine a b))"
  by (simp add: loadInstructionCacheLine_def Let_def fillInstructionCacheLine_frame split: option.split)

lemma fetchThroughTable_frame [frames]: "access_frame b (snd (fetchThroughTable a n b))"
proof -
  have miss: "access_frame b (snd (and_then (translateAddressWithAttributes a p
      (invalidateInstructionWindow b)) (\<lambda>(physical, _) b. copyOut physical n p b)))" for p b
    by (rule access.frame_trans [OF ic_updates_frame(1) access.and_then_frame])
      (auto intro: translateAddressWithAttributes_frame copyOut_frame)
  have hit: "access_frame b (b\<lparr>instructionWindow := i, instructionWindowTag := t\<rparr>)"
    "access_frame b (b\<lparr>instructionWindow := i, instructionWindowTag := t, instructionWindowSerial := x\<rparr>)"
    for b i t x
    by (simp_all add: access_frame_def)
  show ?thesis
    unfolding fetchThroughTable_def Let_def
    by (rule access.and_then_frame [OF loadInstructionCacheLine_frame])
      (auto split: option.split intro: miss hit)
qed

lemma fetchInstructionCache_frame [frames]: "access_frame b (snd (fetchInstructionCache a n b))"
  by (auto simp: fetchInstructionCache_def Let_def fetchThroughTable_frame split: option.split
      intro: access.frame_trans [OF ic_updates_frame(1) fetchThroughTable_frame])

subsection \<open>Scalar accesses\<close>

lemma readPrivate_frame [frames]: "access_frame b (snd (readPrivate n a p b))"
  by (auto simp: readPrivate_def split: option.split
      intro!: access.and_then_frame findRegion_frame copyOut_frame cacheData_frame)

lemma writePrivate_frame [frames]: "access_frame b (snd (writePrivate a bytes p b))"
  by (auto simp: writePrivate_def split: option.split
      intro!: access.and_then_frame findRegion_frame copyIn_frame storeBytes_frame
        access.frame_trans [OF cacheData_frame storeBytes_frame])

lemma fetchPrivate_frame [frames]: "access_frame b (snd (fetchPrivate n a b))"
  by (auto simp: fetchPrivate_def Let_def
      intro!: access.and_then_frame findRegion_frame copyOut_frame access_frame_updates)

lemma fetchBytes_frame [frames]: "access_frame b (snd (fetchBytes n a b))"
  by (simp add: fetchBytes_def fetchInstructionCache_frame readVirtual_frame fetchPrivate_frame
      recordExternalAbort_frame readSystemBus_frame)

lemma fetch_frame [frames]:
  "access_frame b (snd (fetch16 a b))" "access_frame b (snd (fetch32 a b))"
  by (auto simp: fetch16_def fetch32_def intro!: access.and_then_frame fetchBytes_frame)

lemma read_frame [frames]:
  "access_frame b (snd (read8 a p b))" "access_frame b (snd (read16 a p b))"
  "access_frame b (snd (read32Aligned a p b))"
  by (auto simp: read8_def read16_def read32Aligned_def fetch_frame
      intro!: access.and_then_frame readVirtual_frame readPrivate_frame recordExternalAbort_frame
        readSystemBus_frame)

lemma read32_frame [frames]: "access_frame b (snd (read32 a p b))"
  by (auto simp: read32_def Let_def intro!: access.and_then_frame read_frame)

lemma writeRouted_frame [frames]: "access_frame b (snd (writeRouted a bytes p b))"
  by (simp add: writeRouted_def writeVirtual_frame writePrivate_frame recordExternalAbort_frame
      writeSystemBus_frame)

lemma write_frame [frames]:
  "access_frame b (snd (write8 a v8 p b))" "access_frame b (snd (write16 a v16 p b))"
  "access_frame b (snd (write32 a v32 p b))"
  by (simp_all add: write8_def write16_def write32_def Let_def writeRouted_frame)

subsection \<open>Using the frame\<close>

lemma access_frameD:
  assumes "access_frame b b'"
  shows "regs b' = regs b" "flags b' = flags b" "mode b' = mode b" "banks b' = banks b"
    "spsr b' = spsr b" "closed b' = closed b" "stopped b' = stopped b" "regions b' = regions b"
    "physicalAccess b' = physicalAccess b" "systemBus b' = None \<longleftrightarrow> systemBus b = None"
    "interruptLines b' = interruptLines b" "cp15_control (cp15 b') = cp15_control (cp15 b)"
    "mappingGen b' = mappingGen b" "executionTraps b' = executionTraps b"
  using assms by (simp_all add: access_frame_def)

lemma cpsr_frame: "access_frame b b' \<Longrightarrow> cpsr b' = cpsr b"
  by (simp add: cpsr_def resolveFlags_def access_frame_def)

end
