(* ===== verification/Cpu_Guest_Memory.thy ===== *)
theory Cpu_Guest_Memory
  imports Cpu_Frame
begin

text \<open>
  The memory an application guest sees.  An application machine has no bus, no MMU and
  no instruction cache: all its accesses go to private regions, through the data
  windows, the fetch window, the lookup hints and the region search.  Here every
  scalar load, store and fetch of such a machine is shown to be the byte-wise memory
  of \<open>Cpu_Memory\<close>, so that none of those accelerators is observable, and the word
  memory that block transfers rely on is stated as a locale and interpreted on
  \<open>read32\<close> and \<open>write32\<close>.
\<close>

subsection \<open>Application guests\<close>

definition app_guest :: "backend \<Rightarrow> bool" where
  "app_guest b \<longleftrightarrow> wf_memory b \<and> systemBus b = None \<and> \<not> physicalAccess b \<and>
     \<not> mmuEnabled b \<and> \<not> instructionCacheEnabled b"

lemma app_guestD:
  assumes "app_guest b"
  shows "wf_memory b" "systemBus b = None" "\<not> physicalAccess b" "\<not> mmuEnabled b"
    "\<not> instructionCacheEnabled b"
  using assms by (auto simp: app_guest_def)

lemma app_guest_frame: "app_guest b \<Longrightarrow> access_frame b b' \<Longrightarrow> wf_memory b' \<Longrightarrow> app_guest b'"
  by (auto simp: app_guest_def access_frame_def mmuEnabled_def instructionCacheEnabled_def)

lemma wf_memory_cacheData:
  "wf_memory b \<Longrightarrow> r \<in> set (regions b) \<Longrightarrow> wf_memory (cacheData r a p b)"
  by (auto simp: wf_memory_def wf_region_def cache_coherent_def cacheData_def)

lemma guest_memory_cacheData [simp]: "guest_memory (cacheData r a p b) = guest_memory b"
  by (rule guest_memory_cong) (simp_all add: cacheData_def)

lemma wf_memory_window:
  "wf_memory b \<Longrightarrow> r \<in> set (regions b) \<Longrightarrow>
     region_permissions r AND PermissionExecute = PermissionExecute \<Longrightarrow>
     wf_memory (b\<lparr>executeAddress := region_address r, executeData := Some (region_data r)\<rparr>)"
  by (auto simp: wf_memory_def wf_region_def cache_coherent_def)

lemma guest_memory_window [simp]:
  "guest_memory (b\<lparr>executeAddress := x, executeData := y\<rparr>) = guest_memory b"
  by (rule guest_memory_cong) simp_all

subsection \<open>The windows show the regions\<close>

text \<open>A window entry that covers an access lies in one region.\<close>

lemma window_in_region:
  assumes wf: "wf_memory b" and r: "r \<in> set (regions b)"
    and le: "region_address r \<le> a" and len: "unat (a - region_address r) + n \<le> length (arrays b (region_data r))"
    and n: "0 < n"
  shows "holds (unat a) r" and "unat a + n \<le> region_end r"
    and "unat (a - region_address r) = unat a - unat (region_address r)"
proof -
  show sub: "unat (a - region_address r) = unat a - unat (region_address r)"
    using le by (simp add: unat_sub word_le_nat_alt)
  show "unat a + n \<le> region_end r"
    using len le wf_regionD(1) [OF wf r] by (simp add: sub region_end_def word_le_nat_alt)
  with n le show "holds (unat a) r" by (simp add: holds_def word_le_nat_alt)
qed

lemma privateDataHit_region:
  assumes wf: "wf_memory b" and hit: "privateDataHit a n p b = Some (d, off, q)" and n: "0 < n"
  obtains r where "r \<in> set (regions b)" "region_data r = d" "holds (unat a) r"
    "unat a + n \<le> region_end r" "off = unat a - unat (region_address r)" "region_permissions r AND p = p"
proof -
  define e where "e = privateDataCache b (privateDataCacheIndex a p)"
  have e: "cache_data e = Some d" "cache_perms e AND p = p" "cache_address e \<le> a"
    "off = unat (a - cache_address e)" "off + n \<le> length (arrays b d)"
    using hit by (auto simp: privateDataHit_def Let_def e_def not_less split: option.splits if_splits)
  then obtain r where r: "r \<in> set (regions b)" "region_data r = d"
    "cache_address e = region_address r" "cache_perms e = region_permissions r"
    using wf unfolding e_def wf_memory_def cache_coherent_def by metis
  show thesis
    using window_in_region [OF wf r(1) _ _ n, of a] e r by (intro that [of r]) auto
qed

lemma executeWindow_region:
  assumes wf: "wf_memory b" and le: "executeAddress b \<le> a"
    and len: "unat (a - executeAddress b) + n \<le> executeLength b" and n: "0 < n"
  obtains r where "r \<in> set (regions b)" "executeData b = Some (region_data r)" "holds (unat a) r"
    "unat a + n \<le> region_end r" "unat (a - executeAddress b) = unat a - unat (region_address r)"
    "region_permissions r AND PermissionExecute = PermissionExecute"
proof -
  obtain d where d: "executeData b = Some d"
    using len n by (auto simp: executeLength_def split: option.splits)
  then obtain r where r: "r \<in> set (regions b)" "region_data r = d" "executeAddress b = region_address r"
    "region_permissions r AND PermissionExecute = PermissionExecute"
    using wf unfolding wf_memory_def cache_coherent_def by metis
  show thesis
    using window_in_region [OF wf r(1) _ _ n, of a] le len d r
    by (intro that [of r]) (auto simp: executeLength_def)
qed

subsection \<open>Private loads, stores and fetches\<close>

definition reads_as_spec :: "cpu_error + u8 list \<Rightarrow> backend \<Rightarrow> u8 list res \<Rightarrow> bool" where
  "reads_as_spec spec b res \<longleftrightarrow>
     fst res = spec \<and> guest_memory (snd res) = guest_memory b \<and> wf_memory (snd res)"

text \<open>A found region answers a read that fits in it, and the copy answers one that does not.\<close>

lemma region_read_spec:
  assumes wf: "wf_memory b" and bus: "systemBus b = None" and n: "0 < n"
    and keep: "\<And>r b. r \<in> set (regions b) \<Longrightarrow> wf_memory b \<Longrightarrow> region_permissions r AND p = p \<Longrightarrow>
      wf_memory (f r b) \<and> guest_memory (f r b) = guest_memory b"
  shows "reads_as_spec (spec_read (guest_memory b) p (unat a) n) b
    (and_then (findRegion a p b) (\<lambda>(r, off) b.
       if n \<le> length (arrays b (region_data r)) - off
       then (Inr (slice (arrays b (region_data r)) off n), f r b) else copyOut a n p b))"
proof -
  obtain h where find: "findRegion a p b =
    ((case region_at b (unat a) of
        None \<Rightarrow> Inl ErrInvalidAddress
      | Some r \<Rightarrow> if region_permissions r AND p \<noteq> p then Inl ErrPermissionDenied
                 else Inr (r, unat a - unat (region_address r))), b\<lparr>regionHints := h\<rparr>)"
    using findRegion_spec [OF wf] by blast
  show ?thesis
  proof (cases "spec_byte (guest_memory b) p (unat a)")
    case (Inl e)
    then have "fst (findRegion a p b) = Inl e"
      using wf by (auto simp: find spec_byte_region_at split: option.splits if_splits)
    with find have "findRegion a p b = (Inl e, b\<lparr>regionHints := h\<rparr>)" by (simp add: prod_eq_iff)
    then show ?thesis using wf by (simp add: reads_as_spec_def spec_read_bad_first [OF n Inl])
  next
    case (Inr v)
    then obtain r where at: "region_at b (unat a) = Some r" and perm: "region_permissions r AND p = p"
      using wf by (auto simp: spec_byte_region_at split: option.splits if_splits)
    from region_atD [OF at] have r: "r \<in> set (regions b)" "holds (unat a) r" by auto
    have size: "length (arrays b (region_data r)) - (unat a - unat (region_address r)) = region_end r - unat a"
      using wf_regionD(1) [OF wf r(1)] r(2) by (simp add: holds_def region_end_def)
    obtain h' where copy: "copyOut a n p (b\<lparr>regionHints := h\<rparr>) =
        (spec_read (guest_memory b) p (unat a) n, b\<lparr>regionHints := h'\<rparr>)"
      using copyOut_spec [of "b\<lparr>regionHints := h\<rparr>" a n p] wf bus by auto
    have "spec_read (guest_memory b) p (unat a) n =
        Inr (slice (arrays b (region_data r)) (unat a - unat (region_address r)) n)"
      if "n \<le> region_end r - unat a"
      using that r n by (intro spec_read_in_region [OF wf r _ perm]) auto
    then show ?thesis
      using find at perm size copy wf r(1) keep [of r "b\<lparr>regionHints := h\<rparr>"]
      by (auto simp: reads_as_spec_def)
  qed
qed

lemma readPrivate_spec:
  assumes wf: "wf_memory b" and bus: "systemBus b = None" and n: "0 < n"
  shows "reads_as_spec (spec_read (guest_memory b) p (unat a) n) b (readPrivate n a p b)"
proof (cases "privateDataHit a n p b")
  case None
  then show ?thesis
    using region_read_spec [OF wf bus n, of p "\<lambda>r b. cacheData r a p b" a]
    by (simp add: readPrivate_def wf_memory_cacheData)
next
  case (Some t)
  obtain d off q where t: "t = (d, off, q)" by (cases t) auto
  from privateDataHit_region [OF wf Some [unfolded t] n] obtain r where r: "r \<in> set (regions b)"
    "region_data r = d" "holds (unat a) r" "unat a + n \<le> region_end r"
    "off = unat a - unat (region_address r)" "region_permissions r AND p = p" .
  then show ?thesis
    using Some t wf spec_read_in_region [OF wf r(1,3,4,6)]
    by (simp add: readPrivate_def reads_as_spec_def)
qed

lemma fetchPrivate_spec:
  assumes wf: "wf_memory b" and bus: "systemBus b = None" and n: "0 < n"
  shows "reads_as_spec (spec_read (guest_memory b) PermissionExecute (unat a) n) b (fetchPrivate n a b)"
proof (cases "executeAddress b \<le> a \<and> unat (a - executeAddress b) + n \<le> executeLength b")
  case True
  from executeWindow_region [OF wf conjunct1 [OF True] conjunct2 [OF True] n] obtain r where
    r: "r \<in> set (regions b)" "executeData b = Some (region_data r)" "holds (unat a) r"
    "unat a + n \<le> region_end r" "unat (a - executeAddress b) = unat a - unat (region_address r)"
    "region_permissions r AND PermissionExecute = PermissionExecute" .
  then show ?thesis
    using True wf spec_read_in_region [OF wf r(1,3,4,6)]
    by (simp add: fetchPrivate_def reads_as_spec_def Let_def)
next
  case False
  have swap: "(if (x :: nat) < n then s else t) = (if n \<le> x then t else s)"
    for x and s t :: "u8 list res" by auto
  from False show ?thesis
    using region_read_spec [OF wf bus n, of PermissionExecute
        "\<lambda>r b. b\<lparr>executeAddress := region_address r, executeData := Some (region_data r)\<rparr>" a]
    unfolding fetchPrivate_def Let_def swap if_not_P [OF False] by (simp add: wf_memory_window)
qed

lemma writes_as_specD:
  assumes "writes_as_spec spec b res"
  shows "fst res = fst spec" "guest_memory (snd res) = snd spec" "wf_memory (snd res)"
    "same_but_memory b (snd res)"
  using assms by (auto simp: writes_as_spec_def)

lemma region_write_spec:
  assumes wf: "wf_memory b" and bus: "systemBus b = None" and n: "vs \<noteq> []"
    and op: "res = and_then (findRegion a p b) (\<lambda>(r, off) b.
      if length vs \<le> length (arrays b (region_data r)) - off
      then (Inr (), storeBytes (region_data r) off vs (cacheData r a p b)) else copyIn a vs p b)"
  shows "fst res = fst (spec_write (guest_memory b) p (unat a) vs)"
    and "guest_memory (snd res) = snd (spec_write (guest_memory b) p (unat a) vs)"
    and "wf_memory (snd res)"
proof -
  obtain h where find: "findRegion a p b =
    ((case region_at b (unat a) of
        None \<Rightarrow> Inl ErrInvalidAddress
      | Some r \<Rightarrow> if region_permissions r AND p \<noteq> p then Inl ErrPermissionDenied
                 else Inr (r, unat a - unat (region_address r))), b\<lparr>regionHints := h\<rparr>)"
    using findRegion_spec [OF wf] by blast
  have "fst res = fst (spec_write (guest_memory b) p (unat a) vs) \<and>
    guest_memory (snd res) = snd (spec_write (guest_memory b) p (unat a) vs) \<and> wf_memory (snd res)"
  proof (cases "spec_byte (guest_memory b) p (unat a)")
    case (Inl e)
    then have "fst (findRegion a p b) = Inl e"
      using wf by (auto simp: find spec_byte_region_at split: option.splits if_splits)
    with find have "findRegion a p b = (Inl e, b\<lparr>regionHints := h\<rparr>)" by (simp add: prod_eq_iff)
    then show ?thesis using wf by (simp add: op spec_write_bad_first [OF n Inl])
  next
    case (Inr v)
    then obtain r where at: "region_at b (unat a) = Some r" and perm: "region_permissions r AND p = p"
      using wf by (auto simp: spec_byte_region_at split: option.splits if_splits)
    from region_atD [OF at] have r: "r \<in> set (regions b)" "holds (unat a) r" by auto
    define off where "off = unat a - unat (region_address r)"
    define b1 where "b1 = cacheData r a p (b\<lparr>regionHints := h\<rparr>)"
    have b1: "wf_memory b1" "guest_memory b1 = guest_memory b" "regions b1 = regions b" "arrays b1 = arrays b"
      using wf r(1) wf_memory_cacheData [of "b\<lparr>regionHints := h\<rparr>" r a p]
      by (simp_all add: b1_def) (simp_all add: cacheData_def)
    have size: "length (arrays b (region_data r)) - off = region_end r - unat a"
      using wf_regionD(1) [OF wf r(1)] r(2) by (simp add: off_def holds_def region_end_def)
    have found: "findRegion a p b = (Inr (r, off), b\<lparr>regionHints := h\<rparr>)"
      using find at perm by (simp add: off_def)
    show ?thesis
    proof (cases "length vs \<le> region_end r - unat a")
      case True
      then have fit: "unat a + length vs \<le> region_end r" using n r(2) by (auto simp: holds_def)
      have "off + length vs \<le> length (arrays b1 (region_data r))"
        using True size n b1(4) by (cases vs) auto
      then have "wf_memory (storeBytes (region_data r) off vs b1)" using b1(1) by (intro wf_memory_storeBytes)
      moreover have "spec_write (guest_memory b) p (unat a) vs =
          (Inr (), guest_memory (storeBytes (region_data r) off vs b1))"
        using spec_write_in_region [OF b1(1) _ r(2) fit perm] r(1) b1 by (simp add: off_def)
      ultimately show ?thesis using True size by (simp add: op found b1_def)
    next
      case False
      have "writes_as_spec (spec_write (guest_memory b) p (unat a) vs) (b\<lparr>regionHints := h\<rparr>)
          (copyIn a vs p (b\<lparr>regionHints := h\<rparr>))"
        using copyIn_spec [of "b\<lparr>regionHints := h\<rparr>" p a vs] wf bus by simp
      then show ?thesis
        using False size by (auto simp: op found dest: writes_as_specD)
    qed
  qed
  then show "fst res = fst (spec_write (guest_memory b) p (unat a) vs)"
    "guest_memory (snd res) = snd (spec_write (guest_memory b) p (unat a) vs)" "wf_memory (snd res)"
    by auto
qed

lemma writePrivate_spec:
  assumes wf: "wf_memory b" and bus: "systemBus b = None" and n: "vs \<noteq> []"
  shows "fst (writePrivate a vs p b) = fst (spec_write (guest_memory b) p (unat a) vs)"
    and "guest_memory (snd (writePrivate a vs p b)) = snd (spec_write (guest_memory b) p (unat a) vs)"
    and "wf_memory (snd (writePrivate a vs p b))"
proof -
  have "fst (writePrivate a vs p b) = fst (spec_write (guest_memory b) p (unat a) vs) \<and>
    guest_memory (snd (writePrivate a vs p b)) = snd (spec_write (guest_memory b) p (unat a) vs) \<and>
    wf_memory (snd (writePrivate a vs p b))"
  proof (cases "privateDataHit a (length vs) p b")
    case None
    then show ?thesis using region_write_spec [OF wf bus n refl, of a p] by (simp add: writePrivate_def)
  next
    case (Some t)
    obtain d off q where t: "t = (d, off, q)" by (cases t) auto
    have len: "off + length vs \<le> length (arrays b d)"
      using Some t by (auto simp: privateDataHit_def Let_def split: option.splits if_splits)
    from privateDataHit_region [OF wf Some [unfolded t]] n obtain r where r: "r \<in> set (regions b)"
      "region_data r = d" "holds (unat a) r" "unat a + length vs \<le> region_end r"
      "off = unat a - unat (region_address r)" "region_permissions r AND p = p" by auto
    then show ?thesis
      using Some t spec_write_in_region [OF wf r(1,3,4,6)] wf_memory_storeBytes [OF wf len]
      by (simp add: writePrivate_def)
  qed
  then show "fst (writePrivate a vs p b) = fst (spec_write (guest_memory b) p (unat a) vs)"
    "guest_memory (snd (writePrivate a vs p b)) = snd (spec_write (guest_memory b) p (unat a) vs)"
    "wf_memory (snd (writePrivate a vs p b))" by auto
qed

subsection \<open>Scalar accesses\<close>

text \<open>The scalar operations of the specification: byte spans, decoded and encoded.\<close>

definition spec_load :: "(u8 list \<Rightarrow> 'a) \<Rightarrow> nat \<Rightarrow> memory \<Rightarrow> Permissions \<Rightarrow> u32 \<Rightarrow> cpu_error + 'a" where
  "spec_load f n m p a = (case spec_read m p (unat a) n of Inl e \<Rightarrow> Inl e | Inr bs \<Rightarrow> Inr (f bs))"

definition spec_load32 :: "bool \<Rightarrow> memory \<Rightarrow> Permissions \<Rightarrow> u32 \<Rightarrow> cpu_error + u32" where
  "spec_load32 checked m p a =
     (if checked \<or> a AND 3 = 0 then spec_load Uint32 4 m p a
      else case spec_load Uint32 4 m p (a AND NOT 3) of
        Inl e \<Rightarrow> Inl e
      | Inr v \<Rightarrow> Inr (RotateLeft32 v (- (8 * uint (a AND 3)))))"

definition spec_align :: "bool \<Rightarrow> u32 \<Rightarrow> u32" where
  "spec_align checked a = (if checked then a else a AND NOT 3)"

lemma app_read_cases:
  assumes "app_guest b" and "reads_as_spec spec b res" and "access_frame b (snd res)"
  shows "fst res = spec" "guest_memory (snd res) = guest_memory b" "app_guest (snd res)"
  using assms app_guest_frame by (auto simp: reads_as_spec_def)

lemma and_then_pure:
  "and_then r (\<lambda>v b. (Inr (f v), b)) = (case fst r of Inl e \<Rightarrow> Inl e | Inr v \<Rightarrow> Inr (f v), snd r)"
  by (cases r; cases "fst r") auto

lemma fetchBytes_app: "app_guest b \<Longrightarrow> fetchBytes n a b = fetchPrivate n a b"
  by (simp add: fetchBytes_def app_guest_def)

lemma read32_lane:
  "(a :: u32) AND 3 \<noteq> 0 \<Longrightarrow>
     drop_bit (unat ((a AND 3) * 8)) v OR push_bit (32 - unat ((a AND 3) * 8)) v =
     RotateLeft32 v (- (8 * uint (a AND 3)))"
proof -
  assume "a AND 3 \<noteq> 0"
  then have "unat (a AND 3) \<noteq> 0" by (simp only: unsigned_eq_0_iff not_False_eq_True)
  moreover have "unat (a AND 3) \<le> unat (3 :: u32)" by (rule unat_and_le)
  then have "unat (a AND 3) \<le> 3" by simp
  ultimately have "unat (a AND 3) = 1 \<or> unat (a AND 3) = 2 \<or> unat (a AND 3) = 3" by linarith
  then have "a AND 3 = 1 \<or> a AND 3 = 2 \<or> a AND 3 = 3"
    by (auto simp: word_unat_eq_iff)
  then show ?thesis
    by (elim disjE) (simp_all add: RotateLeft32_def Let_def or.commute)
qed

lemma app_fetch:
  assumes "app_guest b"
  shows "fst (fetch16 a b) = spec_load Uint16 2 (guest_memory b) PermissionExecute a"
    "guest_memory (snd (fetch16 a b)) = guest_memory b" "app_guest (snd (fetch16 a b))"
    "fst (fetch32 a b) = spec_load Uint32 4 (guest_memory b) PermissionExecute a"
    "guest_memory (snd (fetch32 a b)) = guest_memory b" "app_guest (snd (fetch32 a b))"
  using app_read_cases [OF assms fetchPrivate_spec fetchPrivate_frame, of 2 a]
    app_read_cases [OF assms fetchPrivate_spec fetchPrivate_frame, of 4 a] app_guestD [OF assms]
  by (simp_all add: fetch16_def fetch32_def fetchBytes_app [OF assms] and_then_pure spec_load_def
      split: sum.split)

lemma app_read:
  assumes "app_guest b"
  shows "fst (read8 a p b) = spec_load (\<lambda>bs. bs ! 0) 1 (guest_memory b) p a"
    "guest_memory (snd (read8 a p b)) = guest_memory b" "app_guest (snd (read8 a p b))"
    "fst (read16 a p b) = spec_load Uint16 2 (guest_memory b) p a"
    "guest_memory (snd (read16 a p b)) = guest_memory b" "app_guest (snd (read16 a p b))"
    "fst (read32Aligned a p b) = spec_load Uint32 4 (guest_memory b) p a"
    "guest_memory (snd (read32Aligned a p b)) = guest_memory b" "app_guest (snd (read32Aligned a p b))"
  using app_read_cases [OF assms readPrivate_spec readPrivate_frame, of 1 a p]
    app_read_cases [OF assms readPrivate_spec readPrivate_frame, of 2 a p]
    app_read_cases [OF assms readPrivate_spec readPrivate_frame, of 4 a p]
    app_fetch [OF assms, of a] app_guestD [OF assms]
  by (simp_all add: read8_def read16_def read32Aligned_def and_then_pure spec_load_def split: sum.split)

lemma alignmentChecked_frame: "access_frame b b' \<Longrightarrow> alignmentChecked b' = alignmentChecked b"
  by (simp add: alignmentChecked_def access_frame_def)

lemma app_read32:
  assumes "app_guest b"
  shows "fst (read32 a p b) = spec_load32 (alignmentChecked b) (guest_memory b) p a"
    "guest_memory (snd (read32 a p b)) = guest_memory b" "app_guest (snd (read32 a p b))"
  using app_read(7-9) [OF assms]
  by (auto simp: read32_def Let_def and_then_pure spec_load32_def read32_lane split: sum.split)

lemma app_write:
  assumes "app_guest b" and "vs \<noteq> []"
  shows "fst (writeRouted a vs p b) = fst (spec_write (guest_memory b) p (unat a) vs)"
    "guest_memory (snd (writeRouted a vs p b)) = snd (spec_write (guest_memory b) p (unat a) vs)"
    "app_guest (snd (writeRouted a vs p b))"
proof -
  have eq: "writeRouted a vs p b = writePrivate a vs p b"
    using assms(1) by (simp add: writeRouted_def app_guest_def)
  note spec = writePrivate_spec [OF app_guestD(1,2) [OF assms(1)] assms(2), of a p]
  show "fst (writeRouted a vs p b) = fst (spec_write (guest_memory b) p (unat a) vs)"
    "guest_memory (snd (writeRouted a vs p b)) = snd (spec_write (guest_memory b) p (unat a) vs)"
    using spec by (simp_all add: eq)
  show "app_guest (snd (writeRouted a vs p b))"
    unfolding eq by (rule app_guest_frame [OF assms(1) writePrivate_frame spec(3)])
qed

lemma and_split_not: "(a AND m) OR (a AND NOT m) = (a :: 'a::len word)"
  by (rule bit_word_eqI) (auto simp: bit_and_iff bit_or_iff bit_not_iff)

lemma write32_align: "write32 a v p b = writeRouted (spec_align (alignmentChecked b) a) (PutUint32 v) p b"
proof -
  have "a AND NOT 3 = a" if "a AND 3 = 0"
    using and_split_not [of a 3] that by simp
  then show ?thesis by (auto simp: write32_def Let_def spec_align_def)
qed

lemma PutUint_not_Nil [simp]: "PutUint16 v \<noteq> []" "PutUint32 w \<noteq> []"
  by (simp_all add: PutUint16_def PutUint32_def)

subsection \<open>Properties\<close>

definition loads_as :: "('a + 'b) \<Rightarrow> backend \<Rightarrow> ('a + 'b) \<times> backend \<Rightarrow> bool" where
  "loads_as spec b res \<longleftrightarrow>
     fst res = spec \<and> guest_memory (snd res) = guest_memory b \<and> app_guest (snd res) \<and>
     access_frame b (snd res)"

definition stores_as :: "(cpu_error + unit) \<times> memory \<Rightarrow> backend \<Rightarrow> unit res \<Rightarrow> bool" where
  "stores_as spec b res \<longleftrightarrow>
     (fst res, guest_memory (snd res)) = spec \<and> app_guest (snd res) \<and> access_frame b (snd res)"

text \<open>
  C4.  The scalar accesses of an application guest are the byte-wise memory.  Loads and
  fetches answer the little-endian value of the bytes, or the error of the first byte
  that is unmapped or lacks the permission, and change no byte; an unaligned word load
  is the aligned word rotated right by eight bits per lane, and an unaligned word store
  goes to the aligned word, unless CP15 checks alignment.  Stores change the bytes of
  the span, up to the first that fails.  The windows, hints and caches that the accesses
  fill along the way are invisible, and nothing else of the processor changes.
\<close>

theorem scalar_accesses_refine_memory:
  assumes "app_guest b"
  shows "loads_as (spec_load (\<lambda>bs. bs ! 0) 1 (guest_memory b) p a) b (read8 a p b) \<and>
    loads_as (spec_load Uint16 2 (guest_memory b) p a) b (read16 a p b) \<and>
    loads_as (spec_load32 (alignmentChecked b) (guest_memory b) p a) b (read32 a p b) \<and>
    loads_as (spec_load Uint16 2 (guest_memory b) PermissionExecute a) b (fetch16 a b) \<and>
    loads_as (spec_load Uint32 4 (guest_memory b) PermissionExecute a) b (fetch32 a b) \<and>
    stores_as (spec_write (guest_memory b) p (unat a) [v8]) b (write8 a v8 p b) \<and>
    stores_as (spec_write (guest_memory b) p (unat a) (PutUint16 v16)) b (write16 a v16 p b) \<and>
    stores_as (spec_write (guest_memory b) p (unat (spec_align (alignmentChecked b) a)) (PutUint32 v32)) b
      (write32 a v32 p b)"
  using app_read [OF assms, of a p] app_read32 [OF assms, of a p] app_fetch [OF assms, of a]
    app_write [OF assms, of "[v8]" a p] app_write [OF assms, of "PutUint16 v16" a p]
    app_write [OF assms, of "PutUint32 v32" "spec_align (alignmentChecked b) a" p]
  by (simp add: loads_as_def stores_as_def frames write8_def write16_def write32_align)

lemma app_guest_sample [simp]: "app_guest sampleBackend"
proof -
  have "cp15 sampleBackend = zeroCP15 \<and> physicalAccess sampleBackend = False"
    by (simp add: sampleBackend_def NewWithMemoryLimit_def Map_op_def Let_def clearDataCaches_def
        invalidateInstructionWindow_def)
  then show ?thesis
    by (simp add: app_guest_def sampleBackend_fields mmuEnabled_def instructionCacheEnabled_def zeroCP15_def)
qed

theorem scalar_accesses_refine_memory_witness:
  "loads_as (Inr 0) sampleBackend (read8 0x1004 1 sampleBackend) \<and>
   loads_as (Inl ErrInvalidAddress) sampleBackend (read8 0x4000 1 sampleBackend)"
proof -
  have "spec_load (\<lambda>bs. bs ! 0) 1 (guest_memory sampleBackend) 1 0x1004 = Inr 0"
    "spec_load (\<lambda>bs. bs ! 0) 1 (guest_memory sampleBackend) 1 0x4000 = Inl ErrInvalidAddress"
    by (simp_all add: spec_load_def spec_byte_def sampleBackend_memory span_def)
  then show ?thesis
    using scalar_accesses_refine_memory [OF app_guest_sample, of 1 "0x1004"]
      scalar_accesses_refine_memory [OF app_guest_sample, of 1 "0x4000"]
    by simp
qed

subsection \<open>Words\<close>

text \<open>The word at an address, and the aligned words that can be both read and written.\<close>

definition word_at :: "backend \<Rightarrow> u32 \<Rightarrow> u32" where
  "word_at b a = Uint32 (map (\<lambda>i. snd (the (guest_memory b (unat a + i)))) [0..<4])"

definition rw_word :: "backend \<Rightarrow> u32 \<Rightarrow> bool" where
  "rw_word b a \<longleftrightarrow> a AND 3 = 0 \<and>
     (\<forall>i < 4. \<exists>q v. guest_memory b (unat a + i) = Some (q, v) \<and> q AND 3 = 3)"

lemma perms_rw:
  "(q :: Permissions) AND 3 = 3 \<Longrightarrow> q AND PermissionRead = PermissionRead \<and> q AND PermissionWrite = PermissionWrite"
proof -
  assume q: "q AND 3 = 3"
  have "(q AND 3) AND 1 = 1" "(q AND 3) AND 2 = 2" unfolding q by simp_all
  then show ?thesis by (simp add: and.assoc permission_defs)
qed

lemma aligned_words_disjoint:
  assumes "(a :: u32) AND 3 = 0" "c AND 3 = 0" "a \<noteq> c"
  shows "unat a + 4 \<le> unat c \<or> unat c + 4 \<le> unat a"
proof -
  have "4 dvd unat x" if "x AND 3 = 0" for x :: u32
  proof -
    have "take_bit 2 x = 0" using that by (simp add: take_bit_eq_mask mask_eq_exp_minus_1)
    then have "take_bit 2 (unat x) = 0" by (metis unsigned_0 unsigned_take_bit_eq)
    then show ?thesis by (simp add: take_bit_eq_mod dvd_eq_mod_eq_0)
  qed
  with assms obtain k l where "unat a = 4 * k" "unat c = 4 * l" by (meson dvdE)
  moreover have "unat a \<noteq> unat c" using assms(3) by (simp add: word_unat_eq_iff)
  ultimately show ?thesis by auto
qed

lemma app_load_word:
  assumes "app_guest b" and "rw_word b a"
  shows "\<exists>b'. read32 a PermissionRead b = (Inr (word_at b a), b') \<and> app_guest b' \<and>
    guest_memory b' = guest_memory b \<and> access_frame b b'"
proof -
  have "spec_read (guest_memory b) PermissionRead (unat a) 4 =
      Inr (map (\<lambda>i. snd (the (guest_memory b (unat a + i)))) [0..<4])"
  proof (rule spec_read_ok)
    fix i :: nat assume "i < 4"
    then obtain q v where "guest_memory b (unat a + i) = Some (q, v)" "q AND 3 = 3"
      using assms(2) by (auto simp: rw_word_def)
    then show "\<exists>q. guest_memory b (unat a + i) = Some (q, snd (the (guest_memory b (unat a + i)))) \<and>
        q AND PermissionRead = PermissionRead"
      using perms_rw by auto
  qed
  then have "fst (read32 a PermissionRead b) = Inr (word_at b a)"
    using assms(2) by (simp add: app_read32(1) [OF assms(1)] spec_load32_def spec_load_def rw_word_def word_at_def)
  then show ?thesis
    using app_read32(2,3) [OF assms(1)] read32_frame by (metis prod.collapse)
qed

lemma app_store_word:
  assumes "app_guest b" and "rw_word b a"
  shows "\<exists>b'. write32 a v PermissionWrite b = (Inr (), b') \<and> app_guest b' \<and> access_frame b b' \<and>
    rw_word b' = rw_word b \<and>
    (\<forall>x. rw_word b x \<longrightarrow> word_at b' x = (if x = a then v else word_at b x))"
proof -
  define m where "m = guest_memory b"
  define b' where "b' = snd (write32 a v PermissionWrite b)"
  have al: "spec_align (alignmentChecked b) a = a"
    using assms(2) and_split_not [of a 3] by (simp add: spec_align_def rw_word_def)
  have spec: "spec_write m PermissionWrite (unat a) (PutUint32 v) =
    (Inr (), \<lambda>x. if unat a \<le> x \<and> x < unat a + 4
       then map_option (\<lambda>(q, _). (q, PutUint32 v ! (x - unat a))) (m x) else m x)"
    using spec_write_ok [of "PutUint32 v" m "unat a" PermissionWrite] assms(2) perms_rw
    by (fastforce simp: rw_word_def m_def)
  have ok: "write32 a v PermissionWrite b = (Inr (), b')" "app_guest b'" "access_frame b b'"
    using app_write [OF assms(1) PutUint_not_Nil(2), of a v PermissionWrite] write_frame(3) [of b a v]
    by (simp_all add: b'_def write32_align al m_def [symmetric] spec prod_eq_iff)
  have mem: "guest_memory b' x = (if unat a \<le> x \<and> x < unat a + 4
       then map_option (\<lambda>(q, _). (q, PutUint32 v ! (x - unat a))) (m x) else m x)" for x
    using app_write(2) [OF assms(1) PutUint_not_Nil(2), of a v PermissionWrite]
    by (simp add: b'_def write32_align al m_def [symmetric] spec)
  have "(\<exists>q w. guest_memory b' y = Some (q, w) \<and> q AND 3 = 3) \<longleftrightarrow>
      (\<exists>q w. guest_memory b y = Some (q, w) \<and> q AND 3 = 3)" for y
    by (cases "m y") (auto simp: mem m_def)
  then have "rw_word b' x = rw_word b x" for x by (simp add: rw_word_def)
  moreover have "word_at b' x = (if x = a then v else word_at b x)" if x: "rw_word b x" for x
  proof (cases "x = a")
    case True
    have "map (\<lambda>i. snd (the (guest_memory b' (unat a + i)))) [0..<4] = PutUint32 v"
    proof (rule nth_equalityI)
      fix i assume "i < length (map (\<lambda>i. snd (the (guest_memory b' (unat a + i)))) [0..<4])"
      then have "i < 4" by simp
      then obtain q w where "m (unat a + i) = Some (q, w)"
        using assms(2) by (auto simp: rw_word_def m_def)
      with \<open>i < 4\<close> show "map (\<lambda>i. snd (the (guest_memory b' (unat a + i)))) [0..<4] ! i = PutUint32 v ! i"
        by (simp add: mem)
    qed simp
    with True show ?thesis by (simp add: word_at_def)
  next
    case False
    have "unat x + 4 \<le> unat a \<or> unat a + 4 \<le> unat x"
      using aligned_words_disjoint [of x a] x assms(2) False by (simp add: rw_word_def)
    then have "guest_memory b' (unat x + i) = m (unat x + i)" if "i < 4" for i
      using that by (auto simp: mem)
    then have "map (\<lambda>i. snd (the (guest_memory b' (unat x + i)))) [0..<4] =
        map (\<lambda>i. snd (the (m (unat x + i)))) [0..<4]" by simp
    with False show ?thesis unfolding word_at_def m_def by (simp only: if_False)
  qed
  ultimately show ?thesis using ok by blast
qed

text \<open>Registers are not memory.\<close>

lemma setReg_memory [simp]:
  "guest_memory (setReg r v b) = guest_memory b" "wf_memory (setReg r v b) = wf_memory b"
  "app_guest (setReg r v b) = app_guest b" "rw_word (setReg r v b) = rw_word b"
  "word_at (setReg r v b) = word_at b"
proof -
  show m: "guest_memory (setReg r v b) = guest_memory b"
    by (rule guest_memory_cong) (simp_all add: setReg_def)
  show w: "wf_memory (setReg r v b) = wf_memory b"
    by (simp add: wf_memory_def wf_region_def cache_coherent_def setReg_def)
  show "app_guest (setReg r v b) = app_guest b"
    unfolding app_guest_def w by (simp add: setReg_def mmuEnabled_def instructionCacheEnabled_def)
  show "rw_word (setReg r v b) = rw_word b" "word_at (setReg r v b) = word_at b"
    by (simp_all add: rw_word_def word_at_def m fun_eq_iff)
qed

subsection \<open>The interface of block transfers\<close>

text \<open>
  What a register-block transfer needs of memory and of the register file: words that
  can be loaded and stored, a store that is seen by the next load and disturbs no other
  word, and registers that memory does not touch.  \<open>save\<close> and \<open>restore\<close> are loops over a
  register list and ascending addresses.
\<close>

locale block_transfer =
  fixes load :: "u32 \<Rightarrow> 's \<Rightarrow> ('e, u32, 's) outcome"
    and store :: "u32 \<Rightarrow> u32 \<Rightarrow> 's \<Rightarrow> ('e, unit, 's) outcome"
    and good :: "'s \<Rightarrow> bool"
    and usable :: "'s \<Rightarrow> u32 \<Rightarrow> bool"
    and content :: "'s \<Rightarrow> u32 \<Rightarrow> u32"
    and reg :: "'s \<Rightarrow> u32 \<Rightarrow> u32"
    and put :: "u32 \<Rightarrow> u32 \<Rightarrow> 's \<Rightarrow> 's"
    and save :: "u32 list \<Rightarrow> u32 \<Rightarrow> 's \<Rightarrow> ('e, u32, 's) outcome"
    and restore :: "u32 list \<Rightarrow> u32 \<Rightarrow> 's \<Rightarrow> ('e, u32, 's) outcome"
  assumes load_law: "good s \<Longrightarrow> usable s a \<Longrightarrow>
      \<exists>s'. load a s = (Inr (content s a), s') \<and> good s' \<and> usable s' = usable s \<and>
        content s' = content s \<and> reg s' = reg s"
    and store_law: "good s \<Longrightarrow> usable s a \<Longrightarrow>
      \<exists>s'. store a v s = (Inr (), s') \<and> good s' \<and> usable s' = usable s \<and> reg s' = reg s \<and>
        (\<forall>x. usable s x \<longrightarrow> content s' x = (if x = a then v else content s x))"
    and put_law: "reg (put r v s) = (reg s)(r := v)" "good (put r v s) = good s"
      "usable (put r v s) = usable s" "content (put r v s) = content s"
    and save_law: "save [] a s = (Inr a, s)"
      "save (r # rs) a s = and_then (store a (reg s r) s) (\<lambda>_ s. save rs (a + 4) s)"
    and restore_law: "restore [] a s = (Inr a, s)"
      "restore (r # rs) a s = and_then (load a s) (\<lambda>v s. restore rs (a + 4) (put r v s))"
begin

definition block :: "u32 \<Rightarrow> nat \<Rightarrow> u32 set" where
  "block a n = (\<lambda>i. a + 4 * of_nat i) ` {..<n}"

lemma block_Suc: "block a (Suc n) = insert a (block (a + 4) n)"
proof -
  have "{..<Suc n} = insert 0 (Suc ` {..<n})" by (auto simp: less_Suc_eq_0_disj)
  then show ?thesis by (auto simp: block_def image_image algebra_simps)
qed

lemma block_fresh:
  assumes "Suc n \<le> 2 ^ 30"
  shows "a \<notin> block (a + 4) n"
proof
  assume "a \<in> block (a + 4) n"
  then obtain i where i: "i < n" "a = a + 4 + 4 * of_nat i" by (auto simp: block_def)
  from i(2) have "of_nat (4 + 4 * i) = (0 :: u32)" by (simp add: algebra_simps)
  then have "(2 :: nat) ^ 32 dvd 4 + 4 * i"
    using word_of_nat_eq_0_iff [where 'a = 32, of "4 + 4 * i"] by simp
  moreover have "4 + 4 * i < 2 ^ 32" using i(1) assms by simp
  ultimately show False by (simp add: nat_dvd_not_less)
qed

lemma save_ok:
  assumes "good s" and "\<forall>x \<in> block a (length rs). usable s x" and "length rs \<le> 2 ^ 30"
  shows "\<exists>s'. save rs a s = (Inr (a + 4 * of_nat (length rs)), s') \<and> good s' \<and>
    usable s' = usable s \<and> reg s' = reg s \<and>
    (\<forall>i < length rs. content s' (a + 4 * of_nat i) = reg s (rs ! i)) \<and>
    (\<forall>x. usable s x \<and> x \<notin> block a (length rs) \<longrightarrow> content s' x = content s x)"
  using assms
proof (induction rs arbitrary: a s)
  case Nil
  then show ?case by (simp add: save_law block_def)
next
  case (Cons r rs)
  have a: "usable s a" and tail: "\<forall>x \<in> block (a + 4) (length rs). usable s x"
    using Cons.prems(2) by (auto simp: block_Suc)
  obtain s1 where s1: "store a (reg s r) s = (Inr (), s1)" "good s1" "usable s1 = usable s"
    "reg s1 = reg s" "\<forall>x. usable s x \<longrightarrow> content s1 x = (if x = a then reg s r else content s x)"
    using store_law [OF Cons.prems(1) a] by blast
  obtain s2 where s2: "save rs (a + 4) s1 = (Inr (a + 4 + 4 * of_nat (length rs)), s2)" "good s2"
    "usable s2 = usable s1" "reg s2 = reg s1"
    "\<forall>i < length rs. content s2 (a + 4 + 4 * of_nat i) = reg s1 (rs ! i)"
    "\<forall>x. usable s1 x \<and> x \<notin> block (a + 4) (length rs) \<longrightarrow> content s2 x = content s1 x"
    using Cons.IH [of s1 "a + 4"] s1(2,3) tail Cons.prems(3) by auto
  have fresh: "a \<notin> block (a + 4) (length rs)" using block_fresh Cons.prems(3) by simp
  have "content s2 (a + 4 * of_nat i) = reg s ((r # rs) ! i)" if "i < length (r # rs)" for i
    using that s1 s2 a fresh by (cases i) (auto simp: algebra_simps)
  moreover have "content s2 x = content s x"
    if "usable s x" "x \<notin> block a (length (r # rs))" for x
    using that s1 s2 by (auto simp: block_Suc)
  ultimately show ?case using s1 s2 by (auto simp: save_law algebra_simps)
qed

lemma restore_ok:
  assumes "good s" and "\<forall>x \<in> block a (length rs). usable s x" and "distinct rs"
  shows "\<exists>s'. restore rs a s = (Inr (a + 4 * of_nat (length rs)), s') \<and> good s' \<and>
    usable s' = usable s \<and> content s' = content s \<and>
    (\<forall>i < length rs. reg s' (rs ! i) = content s (a + 4 * of_nat i)) \<and>
    (\<forall>r. r \<notin> set rs \<longrightarrow> reg s' r = reg s r)"
  using assms
proof (induction rs arbitrary: a s)
  case Nil
  then show ?case by (simp add: restore_law)
next
  case (Cons r rs)
  have a: "usable s a" and tail: "\<forall>x \<in> block (a + 4) (length rs). usable s x"
    using Cons.prems(2) by (auto simp: block_Suc)
  obtain s1 where s1: "load a s = (Inr (content s a), s1)" "good s1" "usable s1 = usable s"
    "content s1 = content s" "reg s1 = reg s"
    using load_law [OF Cons.prems(1) a] by blast
  define s2 where "s2 = put r (content s a) s1"
  obtain s3 where s3: "restore rs (a + 4) s2 = (Inr (a + 4 + 4 * of_nat (length rs)), s3)" "good s3"
    "usable s3 = usable s2" "content s3 = content s2"
    "\<forall>i < length rs. reg s3 (rs ! i) = content s2 (a + 4 + 4 * of_nat i)"
    "\<forall>r. r \<notin> set rs \<longrightarrow> reg s3 r = reg s2 r"
    using Cons.IH [of s2 "a + 4"] s1 tail Cons.prems(3) by (auto simp: s2_def put_law)
  have "reg s3 ((r # rs) ! i) = content s (a + 4 * of_nat i)" if "i < length (r # rs)" for i
    using that s1 s3 Cons.prems(3) by (cases i) (auto simp: s2_def put_law algebra_simps)
  moreover have "reg s3 q = reg s q" if "q \<notin> set (r # rs)" for q
    using that s1 s3 by (auto simp: s2_def put_law)
  ultimately show ?case using s1 s3 by (auto simp: restore_law s2_def put_law algebra_simps)
qed

end

end
