(* ===== verification/Cpu_Thumb.thy ===== *)
theory Cpu_Thumb
  imports Cpu_Guest_Memory
begin

text \<open>
  The Thumb decoder and executor, src/cpu/interpreter/thumb.go.  The class table is a
  function of the halfword; every case of the execution switch is a definition of its
  own, named after its class; \<open>stepThumb\<close> fetches, advances the program counter and
  dispatches; \<open>runThumbBatch\<close> and \<open>runThumbSystem\<close> are the loops around it.

  A case answers \<open>Inr None\<close> when it ends with \<open>break\<close>, \<open>Inr (Some reason)\<close> when it
  retires the instruction and stops, and \<open>Inl e\<close> when it returns an error.
\<close>

type_synonym step = "StopReason option res"

subsection \<open>Instruction classes\<close>

datatype thumbInstructionClass =
    thumbUnsupported
  | thumbBreakpoint
  | thumbShiftImmediate
  | thumbMoveImmediate
  | thumbCompareImmediate
  | thumbAddImmediate
  | thumbSubtractImmediate
  | thumbAddSubtract
  | thumbALU
  | thumbHighRegister
  | thumbLiteralLoad
  | thumbRegisterTransfer
  | thumbImmediateTransfer
  | thumbHalfwordTransfer
  | thumbStackTransfer
  | thumbAdjustStack
  | thumbPush
  | thumbPop
  | thumbAddPCSP
  | thumbMultipleTransfer
  | thumbConditionalBranch
  | thumbLongBranch
  | thumbLongBranchSuffix
  | thumbUnconditionalBranch

definition thumbInstructionClasses :: "u16 \<Rightarrow> thumbInstructionClass" where
  "thumbInstructionClasses instruction =
     (if instruction AND 0xff00 = 0xbe00 then thumbBreakpoint
      else if instruction AND 0xe000 = 0x0000 \<and> instruction AND 0x1800 \<noteq> 0x1800 then thumbShiftImmediate
      else if instruction AND 0xf800 = 0x2000 then thumbMoveImmediate
      else if instruction AND 0xf800 = 0x2800 then thumbCompareImmediate
      else if instruction AND 0xf800 = 0x3000 then thumbAddImmediate
      else if instruction AND 0xf800 = 0x3800 then thumbSubtractImmediate
      else if instruction AND 0xf800 = 0x1800 then thumbAddSubtract
      else if instruction AND 0xfc00 = 0x4000 then thumbALU
      else if instruction AND 0xfc00 = 0x4400 then thumbHighRegister
      else if instruction AND 0xf800 = 0x4800 then thumbLiteralLoad
      else if instruction AND 0xf000 = 0x5000 then thumbRegisterTransfer
      else if instruction AND 0xe000 = 0x6000 then thumbImmediateTransfer
      else if instruction AND 0xf000 = 0x8000 then thumbHalfwordTransfer
      else if instruction AND 0xf000 = 0x9000 then thumbStackTransfer
      else if instruction AND 0xff00 = 0xb000 then thumbAdjustStack
      else if instruction AND 0xfe00 = 0xb400 then thumbPush
      else if instruction AND 0xfe00 = 0xbc00 then thumbPop
      else if instruction AND 0xf000 = 0xa000 then thumbAddPCSP
      else if instruction AND 0xf000 = 0xc000 then thumbMultipleTransfer
      else if instruction AND 0xf000 = 0xd000 then thumbConditionalBranch
      else if instruction AND 0xf800 = 0xf000 then thumbLongBranch
      else if instruction AND 0xf800 = 0xf800 then thumbLongBranchSuffix
      else if instruction AND 0xf800 = 0xe000 then thumbUnconditionalBranch
      else thumbUnsupported)"

text \<open>The register and immediate fields: \<open>uint32(instruction>>n) & m\<close>.\<close>

definition tfield :: "nat \<Rightarrow> u32 \<Rightarrow> u16 \<Rightarrow> u32" where
  "tfield n m instruction = ucast (drop_bit n instruction) AND m"

definition tbit :: "nat \<Rightarrow> u16 \<Rightarrow> bool" where
  "tbit n instruction \<longleftrightarrow> instruction AND push_bit n 1 \<noteq> 0"

definition unsupportedThumb :: "backend \<Rightarrow> 'a res" where
  "unsupportedThumb b = (Inl ErrUnsupportedInstruction, b)"

definition done_step :: "backend \<Rightarrow> step" where
  "done_step b = (Inr None, b)"

text \<open>Sign extension of a loaded byte or halfword: \<open>uint32(int32(int8(v)))\<close>.\<close>

definition signed8 :: "u8 \<Rightarrow> u32" where "signed8 v = scast v"
definition signed16 :: "u16 \<Rightarrow> u32" where "signed16 v = scast v"

subsection \<open>Data processing\<close>

definition execShiftImmediate :: "u16 \<Rightarrow> backend \<Rightarrow> step" where
  "execShiftImmediate instruction b =
     (let op = tfield 11 3 instruction; shift = unat (tfield 6 0x1f instruction);
          rs = tfield 3 7 instruction; rd = tfield 0 7 instruction; v = regs b rs
      in if 2 < op then unsupportedThumb b
         else
           let (result, carry) =
             (if op = 0 then
                (if shift = 0 then (v, carry_flag b)
                 else (push_bit shift v, v AND push_bit (32 - shift) 1 \<noteq> 0))
              else if op = 1 then
                (if shift = 0 then (0, v AND flagN \<noteq> 0)
                 else (drop_bit shift v, v AND push_bit (shift - 1) 1 \<noteq> 0))
              else
                (if shift = 0 then (if v AND flagN \<noteq> 0 then NOT 0 else 0, v AND flagN \<noteq> 0)
                 else (signed_drop_bit shift v, v AND push_bit (shift - 1) 1 \<noteq> 0)))
           in done_step (setNZC result carry (setReg rd result b)))"

definition execMoveImmediate :: "u16 \<Rightarrow> backend \<Rightarrow> step" where
  "execMoveImmediate instruction b =
     (let rd = tfield 8 7 instruction; v = ucast (instruction AND 0xff) in
      done_step (setNZ v (setReg rd v b)))"

definition execCompareImmediate :: "u16 \<Rightarrow> backend \<Rightarrow> step" where
  "execCompareImmediate instruction b =
     (let rd = tfield 8 7 instruction;
          (result, carry, overflow) = addWithCarry (regs b rd) (NOT (ucast (instruction AND 0xff))) 1
      in done_step (setNZCV result carry overflow b))"

definition execAddImmediate :: "u16 \<Rightarrow> backend \<Rightarrow> step" where
  "execAddImmediate instruction b =
     (let rd = tfield 8 7 instruction;
          (result, carry, overflow) = addWithCarry (regs b rd) (ucast (instruction AND 0xff)) 0
      in done_step (setNZCV result carry overflow (setReg rd result b)))"

definition execSubtractImmediate :: "u16 \<Rightarrow> backend \<Rightarrow> step" where
  "execSubtractImmediate instruction b =
     (let rd = tfield 8 7 instruction;
          (result, carry, overflow) = addWithCarry (regs b rd) (NOT (ucast (instruction AND 0xff))) 1
      in done_step (setNZCV result carry overflow (setReg rd result b)))"

definition execAddSubtract :: "u16 \<Rightarrow> backend \<Rightarrow> step" where
  "execAddSubtract instruction b =
     (let immediate = tbit 10 instruction; subtract = tbit 9 instruction;
          rnOrImmediate = tfield 6 7 instruction;
          rs = tfield 3 7 instruction; rd = tfield 0 7 instruction;
          right = (if immediate then rnOrImmediate else regs b rnOrImmediate);
          (result, carry, overflow) =
            (if subtract then addWithCarry (regs b rs) (NOT right) 1
             else addWithCarry (regs b rs) right 0)
      in done_step (setNZCV result carry overflow (setReg rd result b)))"

definition carryIn :: "backend \<Rightarrow> u32" where
  "carryIn b = (if carry_flag b then 1 else 0)"

definition execALU :: "u16 \<Rightarrow> backend \<Rightarrow> step" where
  "execALU instruction b =
     (let op = drop_bit 6 instruction AND 0xf;
          rs = tfield 3 7 instruction; rd = tfield 0 7 instruction;
          left = regs b rd; right = regs b rs;
          logical = (\<lambda>result. done_step (setNZ result (setReg rd result b)));
          shifted = (\<lambda>(result, carry). done_step (setNZC result carry (setReg rd result b)));
          arith = (\<lambda>(result, carry, overflow).
                     done_step (setNZCV result carry overflow (setReg rd result b)));
          compare = (\<lambda>(result, carry, overflow). done_step (setNZCV result carry overflow b))
      in if op = 0x0 then logical (left AND right)
         else if op = 0x1 then logical (left XOR right)
         else if op = 0x2 then shifted (shiftLSL left (ucast right) (carry_flag b))
         else if op = 0x3 then shifted (shiftLSR left (ucast right) (carry_flag b))
         else if op = 0x4 then shifted (shiftASR left (ucast right) (carry_flag b))
         else if op = 0x5 then arith (addWithCarry left right (carryIn b))
         else if op = 0x6 then arith (addWithCarry left (NOT right) (carryIn b))
         else if op = 0x7 then shifted (shiftROR left (ucast right) (carry_flag b))
         else if op = 0x8 then done_step (setNZ (left AND right) b)
         else if op = 0x9 then arith (addWithCarry 0 (NOT right) 1)
         else if op = 0xa then compare (addWithCarry left (NOT right) 1)
         else if op = 0xb then compare (addWithCarry left right 0)
         else if op = 0xc then logical (left OR right)
         else if op = 0xd then logical (left * right)
         else if op = 0xe then logical (left AND NOT right)
         else logical (NOT right))"

definition execHighRegister :: "u32 \<Rightarrow> u16 \<Rightarrow> backend \<Rightarrow> step" where
  "execHighRegister pc instruction b =
     (let op = drop_bit 8 instruction AND 3;
          rs = tfield 3 7 instruction OR push_bit 3 (tfield 6 1 instruction);
          rd = tfield 0 7 instruction OR push_bit 3 (tfield 7 1 instruction);
          left = readOperandRegister rd pc ModeThumb b;
          right = readOperandRegister rs pc ModeThumb b;
          even_pc = (\<lambda>result. if rd = RegisterPC then result AND NOT 1 else result)
      in if op = 0 then done_step (setReg rd (even_pc (left + right)) b)
         else if op = 1 then
           (let (result, carry, overflow) = addWithCarry left (NOT right) 1 in
            done_step (setNZCV result carry overflow b))
         else if op = 2 then done_step (setReg rd (even_pc right) b)
         else
           let b = (if tbit 7 instruction then setReg RegisterLR ((pc + 2) OR 1) b else b) in
           done_step (branchExchange right b))"

definition execAdjustStack :: "u16 \<Rightarrow> backend \<Rightarrow> step" where
  "execAdjustStack instruction b =
     (let offset = ucast (instruction AND 0x7f) * 4 in
      if tbit 7 instruction then done_step (setReg RegisterSP (regs b RegisterSP - offset) b)
      else done_step (setReg RegisterSP (regs b RegisterSP + offset) b))"

definition execAddPCSP :: "u32 \<Rightarrow> u16 \<Rightarrow> backend \<Rightarrow> step" where
  "execAddPCSP pc instruction b =
     (let rd = tfield 8 7 instruction;
          base = (if \<not> tbit 11 instruction then (pc + 4) AND NOT 3 else regs b RegisterSP)
      in done_step (setReg rd (base + ucast (instruction AND 0xff) * 4) b))"

subsection \<open>Single loads and stores\<close>

definition loadReg :: "u32 \<Rightarrow> u32 res \<Rightarrow> step" where
  "loadReg rd r = and_then r (\<lambda>v b. done_step (setReg rd v b))"

definition after_store :: "unit res \<Rightarrow> step" where
  "after_store r = and_then r (\<lambda>_ b. done_step b)"

definition load8 :: "(u8 \<Rightarrow> u32) \<Rightarrow> u32 \<Rightarrow> backend \<Rightarrow> u32 res" where
  "load8 f address b = and_then (read8 address PermissionRead b) (\<lambda>v b. (Inr (f v), b))"

definition load16 :: "(u16 \<Rightarrow> u32) \<Rightarrow> u32 \<Rightarrow> backend \<Rightarrow> u32 res" where
  "load16 f address b = and_then (read16 address PermissionRead b) (\<lambda>v b. (Inr (f v), b))"

definition execLiteralLoad :: "u32 \<Rightarrow> u16 \<Rightarrow> backend \<Rightarrow> step" where
  "execLiteralLoad pc instruction b =
     (let rd = tfield 8 7 instruction;
          address = ((pc + 4) AND NOT 3) + ucast (instruction AND 0xff) * 4
      in loadReg rd (read32 address PermissionRead b))"

definition execRegisterTransfer :: "u16 \<Rightarrow> backend \<Rightarrow> step" where
  "execRegisterTransfer instruction b =
     (let op = tfield 9 7 instruction; ro = tfield 6 7 instruction;
          rb = tfield 3 7 instruction; rd = tfield 0 7 instruction;
          address = regs b rb + regs b ro
      in if op = 0 then after_store (write32 address (regs b rd) PermissionWrite b)
         else if op = 1 then after_store (write16 address (ucast (regs b rd)) PermissionWrite b)
         else if op = 2 then after_store (write8 address (ucast (regs b rd)) PermissionWrite b)
         else if op = 3 then loadReg rd (load8 signed8 address b)
         else if op = 4 then loadReg rd (read32 address PermissionRead b)
         else if op = 5 then loadReg rd (load16 ucast address b)
         else if op = 6 then loadReg rd (load8 ucast address b)
         else loadReg rd (load16 signed16 address b))"

definition execImmediateTransfer :: "u16 \<Rightarrow> backend \<Rightarrow> step" where
  "execImmediateTransfer instruction b =
     (let byteTransfer = tbit 12 instruction; load = tbit 11 instruction;
          offset = tfield 6 0x1f instruction;
          rb = tfield 3 7 instruction; rd = tfield 0 7 instruction;
          offset = (if \<not> byteTransfer then offset * 4 else offset);
          address = regs b rb + offset
      in if load \<and> byteTransfer then loadReg rd (load8 ucast address b)
         else if load then loadReg rd (read32 address PermissionRead b)
         else if byteTransfer then after_store (write8 address (ucast (regs b rd)) PermissionWrite b)
         else after_store (write32 address (regs b rd) PermissionWrite b))"

definition execHalfwordTransfer :: "u16 \<Rightarrow> backend \<Rightarrow> step" where
  "execHalfwordTransfer instruction b =
     (let load = tbit 11 instruction; offset = tfield 6 0x1f instruction;
          rb = tfield 3 7 instruction; rd = tfield 0 7 instruction;
          address = regs b rb + offset * 2
      in if load then loadReg rd (load16 ucast address b)
         else after_store (write16 address (ucast (regs b rd)) PermissionWrite b))"

definition execStackTransfer :: "u16 \<Rightarrow> backend \<Rightarrow> step" where
  "execStackTransfer instruction b =
     (let load = tbit 11 instruction; rd = tfield 8 7 instruction;
          address = regs b RegisterSP + ucast (instruction AND 0xff) * 4
      in if load then loadReg rd (read32 address PermissionRead b)
         else after_store (write32 address (regs b rd) PermissionWrite b))"

subsection \<open>Block transfers\<close>

text \<open>
  The loops over the register list, in the order of the registers whose bit is set.
  A load answers the address after the last word.
\<close>

definition registerList :: "u16 \<Rightarrow> nat \<Rightarrow> u32 list" where
  "registerList registers n = map of_nat (filter (bit registers) [0..<n])"

fun storeRegisters :: "u32 list \<Rightarrow> u32 \<Rightarrow> backend \<Rightarrow> u32 res" where
  "storeRegisters [] address b = (Inr address, b)"
| "storeRegisters (r # rs) address b =
     and_then (write32 address (regs b r) PermissionWrite b)
       (\<lambda>_ b. storeRegisters rs (address + 4) b)"

fun loadRegisters :: "u32 list \<Rightarrow> u32 \<Rightarrow> backend \<Rightarrow> u32 res" where
  "loadRegisters [] address b = (Inr address, b)"
| "loadRegisters (r # rs) address b =
     and_then (read32 address PermissionRead b)
       (\<lambda>v b. loadRegisters rs (address + 4) (setReg r v b))"

definition execPush :: "u16 \<Rightarrow> backend \<Rightarrow> step" where
  "execPush instruction b =
     (let registers = instruction AND 0xff; includeLR = tbit 8 instruction;
          count = OnesCount16 registers + (if includeLR then 1 else 0);
          start = regs b RegisterSP - of_nat (count * 4);
          address = blockTransferAddress start b
      in and_then (storeRegisters (registerList registers 8) address b) (\<lambda>address b.
           and_then
             (if includeLR then write32 address (regs b RegisterLR) PermissionWrite b else (Inr (), b))
             (\<lambda>_ b. done_step (setReg RegisterSP start b))))"

definition execPop :: "u16 \<Rightarrow> backend \<Rightarrow> step" where
  "execPop instruction b =
     (let registers = instruction AND 0xff; includePC = tbit 8 instruction;
          start = regs b RegisterSP;
          first = blockTransferAddress start b
      in and_then (loadRegisters (registerList registers 8) first b) (\<lambda>address b.
           if includePC then
             and_then (read32 address PermissionRead b) (\<lambda>v b.
               done_step (setReg RegisterSP (start + (address + 4 - first)) (branchExchange v b)))
           else done_step (setReg RegisterSP (start + (address - first)) b)))"

definition execMultipleTransfer :: "u16 \<Rightarrow> backend \<Rightarrow> step" where
  "execMultipleTransfer instruction b =
     (let load = tbit 11 instruction; rb = tfield 8 7 instruction; registers = instruction AND 0xff in
      if registers = 0 then unsupportedThumb b
      else
        let base = regs b rb; first = blockTransferAddress base b in
        and_then
          (if load then loadRegisters (registerList registers 8) first b
           else storeRegisters (registerList registers 8) first b)
          (\<lambda>address b.
             if \<not> load \<or> \<not> bit registers (unat rb)
             then done_step (setReg rb (base + (address - first)) b)
             else done_step b))"

subsection \<open>Branches\<close>

definition semihostingThumbImmediate :: u8 where "semihostingThumbImmediate = 0xab"
definition semihostingARMImmediate :: u32 where "semihostingARMImmediate = 0x123456"

definition execConditionalBranch :: "u32 \<Rightarrow> u16 \<Rightarrow> backend \<Rightarrow> step" where
  "execConditionalBranch pc instruction b =
     (let condition = (ucast (drop_bit 8 instruction) :: u8) AND 0xf in
      if condition = 0xf then
        (if ucast instruction = semihostingThumbImmediate \<and> fst (handleSemihosting b)
         then done_step (snd (handleSemihosting b))
         else if systemBus b \<noteq> None
         then done_step (enterException processorModeSupervisor vectorSoftware (pc + 2) b)
         else (Inr (Some StopBreakpoint), b))
      else if condition = 0xe then unsupportedThumb b
      else
        let (passed, b) = conditionPassed condition b in
        if passed
        then (let offset = push_bit 1 (signed8 (ucast (instruction AND 0xff))) in
              done_step (setReg RegisterPC (pc + 4 + offset) b))
        else done_step b)"

text \<open>\<open>high |= ^int32(0x7ff)\<close> when bit 10 is set: sign extension of 11 bits.\<close>

definition signed11 :: "u16 \<Rightarrow> u32" where
  "signed11 h =
     (let high = ucast (h AND 0x7ff) in
      if high AND push_bit 10 1 \<noteq> 0 then high OR NOT 0x7ff else high)"

definition execLongBranch :: "u32 \<Rightarrow> u16 \<Rightarrow> backend \<Rightarrow> step" where
  "execLongBranch pc instruction b =
     and_then (fetch16 (pc + 2) b) (\<lambda>suffix b.
       if suffix AND 0xf801 = 0xe800 then
         (let target = ((pc + 4) AND NOT 3) + push_bit 12 (signed11 instruction) +
                ucast (suffix AND 0x7fe) * 2
          in done_step (branchExchange target (setReg RegisterLR ((pc + 4) OR 1) b)))
       else if suffix AND 0xf800 \<noteq> 0xf800 then unsupportedThumb b
       else
         let target = pc + 4 + push_bit 12 (signed11 instruction) + ucast (suffix AND 0x7ff) * 2 in
         done_step (setReg RegisterPC target (setReg RegisterLR ((pc + 4) OR 1) b)))"

definition execUnconditionalBranch :: "u32 \<Rightarrow> u16 \<Rightarrow> backend \<Rightarrow> step" where
  "execUnconditionalBranch pc instruction b =
     done_step (setReg RegisterPC (pc + 4 + push_bit 1 (signed11 instruction)) b)"

subsection \<open>Dispatch\<close>

definition executeThumb :: "u32 \<Rightarrow> u16 \<Rightarrow> backend \<Rightarrow> step" where
  "executeThumb pc instruction b =
     (case thumbInstructionClasses instruction of
        thumbBreakpoint \<Rightarrow> (Inr (Some StopBreakpoint), b)
      | thumbShiftImmediate \<Rightarrow> execShiftImmediate instruction b
      | thumbMoveImmediate \<Rightarrow> execMoveImmediate instruction b
      | thumbCompareImmediate \<Rightarrow> execCompareImmediate instruction b
      | thumbAddImmediate \<Rightarrow> execAddImmediate instruction b
      | thumbSubtractImmediate \<Rightarrow> execSubtractImmediate instruction b
      | thumbAddSubtract \<Rightarrow> execAddSubtract instruction b
      | thumbALU \<Rightarrow> execALU instruction b
      | thumbHighRegister \<Rightarrow> execHighRegister pc instruction b
      | thumbLiteralLoad \<Rightarrow> execLiteralLoad pc instruction b
      | thumbRegisterTransfer \<Rightarrow> execRegisterTransfer instruction b
      | thumbImmediateTransfer \<Rightarrow> execImmediateTransfer instruction b
      | thumbHalfwordTransfer \<Rightarrow> execHalfwordTransfer instruction b
      | thumbStackTransfer \<Rightarrow> execStackTransfer instruction b
      | thumbAdjustStack \<Rightarrow> execAdjustStack instruction b
      | thumbPush \<Rightarrow> execPush instruction b
      | thumbPop \<Rightarrow> execPop instruction b
      | thumbAddPCSP \<Rightarrow> execAddPCSP pc instruction b
      | thumbMultipleTransfer \<Rightarrow> execMultipleTransfer instruction b
      | thumbConditionalBranch \<Rightarrow> execConditionalBranch pc instruction b
      | thumbLongBranch \<Rightarrow> execLongBranch pc instruction b
      | thumbLongBranchSuffix \<Rightarrow> unsupportedThumb b
      | thumbUnconditionalBranch \<Rightarrow> execUnconditionalBranch pc instruction b
      | thumbUnsupported \<Rightarrow> unsupportedThumb b)"

text \<open>
  The inline window test of the run loops, in front of \<open>fetch16\<close> and \<open>fetch32\<close>: it
  does not look at the routing flag.
\<close>

definition windowHit :: "nat \<Rightarrow> u32 \<Rightarrow> backend \<Rightarrow> bool" where
  "windowHit n pc b \<longleftrightarrow>
     executeAddress b \<le> pc \<and> unat (pc - executeAddress b) + n \<le> executeLength b"

definition windowBytes :: "nat \<Rightarrow> u32 \<Rightarrow> backend \<Rightarrow> u8 list" where
  "windowBytes n pc b = slice (arrays b (the (executeData b))) (unat (pc - executeAddress b)) n"

definition fetchThumb :: "u32 \<Rightarrow> backend \<Rightarrow> u16 res" where
  "fetchThumb pc b = (if windowHit 2 pc b then (Inr (Uint16 (windowBytes 2 pc b)), b) else fetch16 pc b)"

subsection \<open>Diagnostics\<close>

definition tracing :: "backend \<Rightarrow> bool" where
  "tracing b \<longleftrightarrow> pcHits b \<noteq> None \<or> pcHistory b \<noteq> [] \<or> pcCaptureLimit b \<noteq> 0"

definition recordPC :: "u32 \<Rightarrow> backend \<Rightarrow> backend" where
  "recordPC address b =
     (let b = (case pcHits b of
                 None \<Rightarrow> b
               | Some hits \<Rightarrow> b\<lparr>pcHits := Some (hits(address := hits address + 1))\<rparr>);
          (ring, nxt) = ringPut (pcHistory b) (pcHistoryNext b) address;
          b = b\<lparr>pcHistory := ring, pcHistoryNext := nxt\<rparr>
      in if pcCaptureLimit b \<noteq> 0 \<and> address = pcCaptureAddress b \<and>
            length (pcRegisterCaptures b) < unat (pcCaptureLimit b)
         then (let b = resolveFlags b in
               b\<lparr>pcRegisterCaptures := pcRegisterCaptures b @
                   [\<lparr>capture_Address = address, capture_Registers = regs b\<rparr>]\<rparr>)
         else b)"

subsection \<open>Run loops\<close>

text \<open>
  A batch answers the retired count, the stop reason and the error.  The recursion
  counts the instructions still allowed, so the loops end after at most \<open>limit\<close>
  rounds.
\<close>

record batch =
  retired :: nat
  batch_reason :: "StopReason option"
  batch_err :: "cpu_error option"

definition batchEnd :: "nat \<Rightarrow> batch" where
  "batchEnd n = \<lparr>retired = n, batch_reason = None, batch_err = None\<rparr>"

definition batchError :: "nat \<Rightarrow> cpu_error \<Rightarrow> batch" where
  "batchError n e = \<lparr>retired = n, batch_reason = None, batch_err = Some e\<rparr>"

definition batchStop :: "nat \<Rightarrow> StopReason \<Rightarrow> batch" where
  "batchStop n r = \<lparr>retired = n, batch_reason = Some r, batch_err = None\<rparr>"

definition retire :: "nat \<Rightarrow> batch \<times> backend \<Rightarrow> batch \<times> backend" where
  "retire n r = (let (t, b) = r in (t\<lparr>retired := n + retired t\<rparr>, b))"

fun thumbLoop :: "bool \<Rightarrow> nat \<Rightarrow> backend \<Rightarrow> batch \<times> backend" where
  "thumbLoop traced 0 b = (batchEnd 0, b)"
| "thumbLoop traced (Suc n) b =
     (let b = (if traced then recordPC (regs b RegisterPC) b else b);
          pc = regs b RegisterPC
      in case fetchThumb pc b of
           (Inl e, b) \<Rightarrow>
             (let (handled, b) = handleMMUFault e pc b in
              if handled then (batchEnd 0, b) else (batchError 0 e, b))
         | (Inr instruction, b) \<Rightarrow>
             (case executeThumb pc instruction (setReg RegisterPC (pc + 2) b) of
                (Inl e, b) \<Rightarrow> (batchError 0 e, b)
              | (Inr (Some reason), b) \<Rightarrow> (batchStop 1 reason, b)
              | (Inr None, b) \<Rightarrow>
                  if mode b \<noteq> ModeThumb then (batchEnd 1, b)
                  else retire 1 (thumbLoop traced n b)))"

definition runThumbBatch :: "nat \<Rightarrow> backend \<Rightarrow> batch \<times> backend" where
  "runThumbBatch limit b = thumbLoop (tracing b) limit b"

definition executionTrapAt :: "Mode \<Rightarrow> u32 \<Rightarrow> backend \<Rightarrow> bool" where
  "executionTrapAt m address b \<longleftrightarrow>
     \<lparr>trap_Address = address, trap_Mode = m\<rparr> \<in> set (executionTraps b)"

text \<open>
  In \<open>runThumbSystem\<close> a batch of one may retire nothing without an error (a
  prefetch abort was delivered, which selects ARM state), and then the loop returns.
\<close>

fun runThumbSystem :: "nat \<Rightarrow> backend \<Rightarrow> batch \<times> backend" where
  "runThumbSystem 0 b = (batchEnd 0, b)"
| "runThumbSystem (Suc n) b =
     (let (taken, b) = takePendingInterrupt b in
      if taken then (batchEnd 0, b)
      else
        let pc = regs b RegisterPC in
        if executionTrapAt ModeThumb pc b then (batchStop 0 StopExecutionTrap, b)
        else
          let b = b\<lparr>instructionAddress := pc\<rparr>; (t, b) = runThumbBatch 1 b in
          if batch_err t \<noteq> None \<or> batch_reason t \<noteq> None \<or> mode b \<noteq> ModeThumb then (t, b)
          else retire (retired t) (runThumbSystem n b))"

definition runThumb :: "nat \<Rightarrow> backend \<Rightarrow> batch \<times> backend" where
  "runThumb limit b =
     (if systemBus b \<noteq> None then runThumbSystem limit b else runThumbBatch limit b)"

subsection \<open>Block transfers satisfy the interface\<close>

interpretation tblock: block_transfer
  "\<lambda>a b. read32 a PermissionRead b" "\<lambda>a v b. write32 a v PermissionWrite b" app_guest rw_word word_at regs
  setReg storeRegisters loadRegisters
proof unfold_locales
  fix b a assume "app_guest b" "rw_word b a"
  from app_load_word [OF this] obtain b' where b': "read32 a PermissionRead b = (Inr (word_at b a), b')"
    "app_guest b'" "guest_memory b' = guest_memory b" "access_frame b b'" by blast
  then have "rw_word b' = rw_word b" "word_at b' = word_at b" "regs b' = regs b"
    by (simp_all add: rw_word_def word_at_def fun_eq_iff access_frame_def)
  with b' show "\<exists>b'. read32 a PermissionRead b = (Inr (word_at b a), b') \<and> app_guest b' \<and>
      rw_word b' = rw_word b \<and> word_at b' = word_at b \<and> regs b' = regs b" by blast
next
  fix b a v assume "app_guest b" "rw_word b a"
  from app_store_word [OF this] show "\<exists>b'. write32 a v PermissionWrite b = (Inr (), b') \<and> app_guest b' \<and>
      rw_word b' = rw_word b \<and> regs b' = regs b \<and>
      (\<forall>x. rw_word b x \<longrightarrow> word_at b' x = (if x = a then v else word_at b x))"
    by (blast dest: access_frameD(1))
qed (simp_all)

text \<open>The register list of an instruction: its length, and that it names registers once.\<close>

lemma registerList_props:
  "n \<le> 16 \<Longrightarrow> distinct (registerList registers n)"
  "r \<in> set (registerList registers n) \<longleftrightarrow> (\<exists>i < n. bit registers i \<and> r = of_nat i)"
  "length (registerList registers 16) = OnesCount16 registers"
proof -
  show "distinct (registerList registers n)" if "n \<le> 16"
    unfolding registerList_def distinct_map
  proof (intro conjI inj_onI)
    fix i j assume "i \<in> set (filter (bit registers) [0..<n])" "j \<in> set (filter (bit registers) [0..<n])"
    then have "i < 2 ^ 32" "j < 2 ^ 32" using that by auto
    moreover assume "of_nat i = (of_nat j :: u32)"
    ultimately show "i = j" by (simp add: word_of_nat_eq_iff take_bit_nat_eq_self)
  qed simp
  show "r \<in> set (registerList registers n) \<longleftrightarrow> (\<exists>i < n. bit registers i \<and> r = of_nat i)"
    by (auto simp: registerList_def)
  show "length (registerList registers 16) = OnesCount16 registers"
    by (simp add: registerList_def OnesCount16_def)
qed

lemma registerList_low:
  assumes "registers AND 0xff = registers"
  shows "registerList registers 16 = registerList registers 8"
proof -
  have "\<not> bit registers i" if "8 \<le> i" for i
  proof -
    have "bit registers i \<longleftrightarrow> bit (registers AND 0xff) i" using assms by simp
    also have "0xff = (Bit_Operations.mask 8 :: u16)" by (simp add: mask_eq_exp_minus_1)
    finally show ?thesis using that by (auto simp: bit_and_iff bit_mask_iff)
  qed
  then have "filter (bit registers) [8..<16] = []" by (auto simp: filter_empty_conv)
  moreover have "[0..<16] = [0..<8] @ [8..<16]" using upt_add_eq_append [of 0 8 8] by simp
  ultimately show ?thesis by (simp add: registerList_def)
qed

subsection \<open>PUSH and POP\<close>

definition pushStart :: "u16 \<Rightarrow> backend \<Rightarrow> u32" where
  "pushStart instruction b =
     regs b RegisterSP -
       of_nat ((OnesCount16 (instruction AND 0xff) + (if tbit 8 instruction then 1 else 0)) * 4)"

definition pushWords :: "u16 \<Rightarrow> nat" where
  "pushWords instruction = OnesCount16 (instruction AND 0xff) + (if tbit 8 instruction then 1 else 0)"

text \<open>The stack words a PUSH writes are usable.\<close>

definition stack_ready :: "u16 \<Rightarrow> backend \<Rightarrow> bool" where
  "stack_ready instruction b \<longleftrightarrow>
     (\<forall>i < pushWords instruction.
        rw_word b (blockTransferAddress (pushStart instruction b) b + 4 * of_nat i))"

text \<open>PUSH with a link register is a store of the list with R14 at its end.\<close>

definition pushList :: "u16 \<Rightarrow> u32 list" where
  "pushList instruction =
     registerList (instruction AND 0xff) 8 @ (if tbit 8 instruction then [RegisterLR] else [])"

lemma length_pushList: "length (pushList instruction) = pushWords instruction"
  using registerList_props(3) [of "instruction AND 0xff"] registerList_low [of "instruction AND 0xff"]
  by (simp add: pushList_def pushWords_def and.assoc)

lemma pushWords_le: "pushWords instruction \<le> 17"
proof -
  have "OnesCount16 x \<le> 16" for x :: u16
    using length_filter_le [of "bit x" "[0..<16]"] by (simp add: OnesCount16_def)
  from this [of "instruction AND 0xff"] show ?thesis by (auto simp: pushWords_def)
qed

lemma storeRegisters_frame [frames]: "access_frame b (snd (storeRegisters rs a b))"
  by (induction rs arbitrary: a b) (auto intro: access.and_then_frame write_frame)

lemma storeRegisters_append:
  "storeRegisters (xs @ ys) a b = and_then (storeRegisters xs a b) (\<lambda>a b. storeRegisters ys a b)"
proof (induction xs arbitrary: a b)
  case (Cons r xs)
  then have "storeRegisters (xs @ ys) (a + 4) =
      (\<lambda>b. and_then (storeRegisters xs (a + 4) b) (\<lambda>a b. storeRegisters ys a b))" by (simp add: fun_eq_iff)
  then show ?case by (simp add: and_then_assoc)
qed simp

lemma execPush_store:
  "execPush instruction b =
     and_then (storeRegisters (pushList instruction) (blockTransferAddress (pushStart instruction b) b) b)
       (\<lambda>_ b'. done_step (setReg RegisterSP (pushStart instruction b) b'))"
  by (auto simp: execPush_def pushList_def storeRegisters_append pushStart_def Let_def and_then_assoc)

lemma tblock_block: "(\<forall>x \<in> tblock.block a n. P x) \<longleftrightarrow> (\<forall>i < n. P (a + 4 * of_nat i))"
  by (auto simp: tblock.block_def)

text \<open>What a PUSH leaves: the words of the list on the stack, the registers but SP as they were.\<close>

lemma execPush_ok:
  assumes "app_guest b" and "stack_ready i b"
  shows "\<exists>b1. execPush i b = (Inr None, b1) \<and> app_guest b1 \<and>
    regs b1 = (regs b)(RegisterSP := pushStart i b) \<and> rw_word b1 = rw_word b \<and>
    (\<forall>k < pushWords i. word_at b1 (blockTransferAddress (pushStart i b) b + 4 * of_nat k) =
       regs b (pushList i ! k))"
proof -
  define a where "a = blockTransferAddress (pushStart i b) b"
  have "pushWords i \<le> 2 ^ 30" using pushWords_le [of i] by simp
  then obtain b' where "storeRegisters (pushList i) a b = (Inr (a + 4 * of_nat (pushWords i)), b')"
    "app_guest b'" "rw_word b' = rw_word b" "regs b' = regs b"
    "\<forall>k < pushWords i. word_at b' (a + 4 * of_nat k) = regs b (pushList i ! k)"
    using tblock.save_ok [OF assms(1), where a = a and rs = "pushList i"] assms(2)
    by (auto simp: tblock_block length_pushList stack_ready_def a_def)
  then show ?thesis
    by (auto simp: execPush_store a_def [symmetric] done_step_def)
qed

text \<open>Registers, flags and the instruction-set mode are not memory.\<close>

lemma app_guest_cpu [simp]:
  "app_guest (b\<lparr>regs := x\<rparr>) = app_guest b" "app_guest (b\<lparr>flags := y\<rparr>) = app_guest b"
  "app_guest (b\<lparr>mode := z\<rparr>) = app_guest b"
  by (simp_all add: app_guest_def wf_memory_def wf_region_def cache_coherent_def mmuEnabled_def
      instructionCacheEnabled_def)

lemma app_guest_branchExchange [simp]: "app_guest (branchExchange t b) = app_guest b"
  by (simp add: branchExchange_def setModeFlag_def setReg_def)

text \<open>Where a branch-exchange goes, and in which instruction set.\<close>

definition exchangePC :: "u32 \<Rightarrow> u32" where
  "exchangePC t = (if bit t 0 then t AND NOT 1 else t AND NOT 3)"

definition exchangeMode :: "u32 \<Rightarrow> Mode" where
  "exchangeMode t = (if bit t 0 then ModeThumb else ModeARM)"

lemma branchExchange_regs:
  "r < 15 \<Longrightarrow> regs (branchExchange t b) r = regs b r"
  "regs (branchExchange t b) RegisterPC = exchangePC t"
  "mode (branchExchange t b) = exchangeMode t"
proof -
  have "t AND 1 \<noteq> 0 \<longleftrightarrow> bit t 0" by (simp add: and_exp_eq_0_iff_not_bit [of t 0, simplified])
  then show "r < 15 \<Longrightarrow> regs (branchExchange t b) r = regs b r"
    "regs (branchExchange t b) RegisterPC = exchangePC t" "mode (branchExchange t b) = exchangeMode t"
    by (auto simp: branchExchange_def setModeFlag_def setReg_def register_defs exchangePC_def
        exchangeMode_def)
qed

lemma execPop_ok:
  assumes "app_guest b" and rw: "\<forall>k < pushWords i. rw_word b (a + 4 * of_nat k)"
    and a: "a = blockTransferAddress (regs b RegisterSP) b"
  shows "\<exists>b3. execPop i b = (Inr None, b3) \<and> app_guest b3 \<and>
    (\<forall>k < length (registerList (i AND 0xff) 8).
       regs b3 (registerList (i AND 0xff) 8 ! k) = word_at b (a + 4 * of_nat k)) \<and>
    regs b3 RegisterSP = regs b RegisterSP + 4 * of_nat (pushWords i) \<and>
    (tbit 8 i \<longrightarrow>
       regs b3 RegisterPC = exchangePC (word_at b (a + 4 * of_nat (length (registerList (i AND 0xff) 8)))) \<and>
       mode b3 = exchangeMode (word_at b (a + 4 * of_nat (length (registerList (i AND 0xff) 8)))))"
proof -
  define rs where "rs = registerList (i AND 0xff) 8"
  have dist: "distinct rs" and low: "\<And>r. r \<in> set rs \<Longrightarrow> r < 15 \<and> r \<noteq> 13"
    unfolding rs_def using registerList_props(1) [of 8]
    by (auto simp: registerList_props(2) word_less_nat_alt unat_of_nat dest!: arg_cong [of _ _ unat])
  have len: "pushWords i = length rs + (if tbit 8 i then 1 else 0)"
    using length_pushList [of i] by (auto simp: pushList_def rs_def split: if_splits)
  obtain b1 where b1: "loadRegisters rs a b = (Inr (a + 4 * of_nat (length rs)), b1)" "app_guest b1"
    "rw_word b1 = rw_word b" "word_at b1 = word_at b"
    "\<forall>k < length rs. regs b1 (rs ! k) = word_at b (a + 4 * of_nat k)"
    "\<forall>r. r \<notin> set rs \<longrightarrow> regs b1 r = regs b r"
    using tblock.restore_ok [OF assms(1), where a = a and rs = rs] rw dist
    by (auto simp: tblock_block len)
  have keep: "regs b1 RegisterSP = regs b RegisterSP"
    using b1(6) low by (force simp: register_defs)
  have lowk: "rs ! k < 15" "rs ! k \<noteq> 13" if "k < length rs" for k
    using low [of "rs ! k"] that by auto
  show ?thesis
  proof (cases "tbit 8 i")
    case False
    have "execPop i b = (Inr None, setReg RegisterSP (regs b RegisterSP + 4 * of_nat (length rs)) b1)"
      using False b1(1) by (simp add: execPop_def Let_def rs_def a done_step_def)
    with False b1 keep lowk show ?thesis
      by (auto simp: len rs_def [symmetric] register_defs setReg_def)
  next
    case True
    define t where "t = word_at b (a + 4 * of_nat (length rs))"
    have "rw_word b1 (a + 4 * of_nat (length rs))" using rw b1(3) True by (simp add: len)
    from app_load_word [OF b1(2) this] obtain b2 where b2:
      "read32 (a + 4 * of_nat (length rs)) PermissionRead b1 = (Inr t, b2)" "app_guest b2" "access_frame b1 b2"
      by (auto simp: t_def b1(4))
    define b3 where
      "b3 = setReg RegisterSP (regs b RegisterSP + 4 * of_nat (pushWords i)) (branchExchange t b2)"
    have "execPop i b = (Inr None, b3)"
      using True b1(1) b2(1)
      by (simp add: execPop_def Let_def rs_def a done_step_def len b3_def algebra_simps)
    moreover have "regs b3 (rs ! k) = word_at b (a + 4 * of_nat k)" if "k < length rs" for k
      using lowk [OF that] b1(5) that access_frameD(1) [OF b2(3)]
      by (simp add: b3_def branchExchange_regs(1) register_defs)
    moreover have "regs b3 RegisterPC = exchangePC t" "mode b3 = exchangeMode t"
      using branchExchange_regs(2,3) [of t b2] by (simp_all add: b3_def register_defs) (simp add: setReg_def)
    ultimately show ?thesis
      using b2(2) unfolding rs_def [symmetric] t_def [symmetric]
      by (intro exI [of _ b3]) (simp add: b3_def)
  qed
qed

text \<open>
   PUSH followed by POP of the same list restores the registers.  Where the stack
  words are mapped for reading and writing, PUSH succeeds; and from any later state in
  which the guest has put SP back and the pushed words are intact, POP of the same
  register list succeeds, gives every listed low register the value it had at the PUSH
  and SP its old value, and, when the list ends with LR and PC, continues at the pushed
  link in the instruction set its low bit selects.
\<close>

theorem push_pop_roundtrip:
  assumes "app_guest b" and "stack_ready i b"
  shows "\<exists>b1. execPush i b = (Inr None, b1) \<and> app_guest b1 \<and>
    (\<forall>b2. app_guest b2 \<and> guest_memory b2 = guest_memory b1 \<and>
       regs b2 RegisterSP = regs b1 RegisterSP \<and> alignmentChecked b2 = alignmentChecked b \<longrightarrow>
       (\<exists>b3. execPop i b2 = (Inr None, b3) \<and> app_guest b3 \<and>
          (\<forall>r < 8. bit i r \<longrightarrow> regs b3 (of_nat r) = regs b (of_nat r)) \<and>
          regs b3 RegisterSP = regs b RegisterSP \<and>
          (tbit 8 i \<longrightarrow>
             regs b3 RegisterPC = exchangePC (regs b RegisterLR) \<and>
             mode b3 = exchangeMode (regs b RegisterLR))))"
proof -
  define rs where "rs = registerList (i AND 0xff) 8"
  define a where "a = blockTransferAddress (pushStart i b) b"
  obtain b1 where b1: "execPush i b = (Inr None, b1)" "app_guest b1"
    "regs b1 = (regs b)(RegisterSP := pushStart i b)" "rw_word b1 = rw_word b"
    "\<forall>k < pushWords i. word_at b1 (a + 4 * of_nat k) = regs b (pushList i ! k)"
    using execPush_ok [OF assms] by (auto simp: a_def)
  have pw: "pushList i = rs @ (if tbit 8 i then [RegisterLR] else [])"
    by (simp add: pushList_def rs_def)
  have len: "pushWords i = length rs + (if tbit 8 i then 1 else 0)"
    using length_pushList [of i] by (auto simp: pw)
  have "\<exists>b3. execPop i b2 = (Inr None, b3) \<and> app_guest b3 \<and>
      (\<forall>r < 8. bit i r \<longrightarrow> regs b3 (of_nat r) = regs b (of_nat r)) \<and>
      regs b3 RegisterSP = regs b RegisterSP \<and>
      (tbit 8 i \<longrightarrow>
         regs b3 RegisterPC = exchangePC (regs b RegisterLR) \<and>
         mode b3 = exchangeMode (regs b RegisterLR))"
    if b2: "app_guest b2" "guest_memory b2 = guest_memory b1"
      "regs b2 RegisterSP = regs b1 RegisterSP" "alignmentChecked b2 = alignmentChecked b" for b2
  proof -
    have sp: "regs b2 RegisterSP = pushStart i b" using b2(3) b1(3) by simp
    have a2: "a = blockTransferAddress (regs b2 RegisterSP) b2"
      using sp b2(4) by (simp add: a_def blockTransferAddress_def)
    have same: "rw_word b2 = rw_word b" "word_at b2 = word_at b1"
      using b2(2) b1(4) by (simp_all add: rw_word_def word_at_def fun_eq_iff)
    have rw: "\<forall>k < pushWords i. rw_word b2 (a + 4 * of_nat k)"
      using assms(2) same(1) by (simp add: stack_ready_def a_def)
    obtain b3 where b3: "execPop i b2 = (Inr None, b3)" "app_guest b3"
      "\<forall>k < length rs. regs b3 (rs ! k) = word_at b2 (a + 4 * of_nat k)"
      "regs b3 RegisterSP = regs b2 RegisterSP + 4 * of_nat (pushWords i)"
      "tbit 8 i \<longrightarrow> regs b3 RegisterPC = exchangePC (word_at b2 (a + 4 * of_nat (length rs))) \<and>
         mode b3 = exchangeMode (word_at b2 (a + 4 * of_nat (length rs)))"
      using execPop_ok [OF b2(1) rw a2] unfolding rs_def [symmetric] by blast
    have "regs b3 (of_nat r) = regs b (of_nat r)" if r: "r < 8" "bit i r" for r
    proof -
      have "bit (i AND 0xff) r"
        using r by (auto simp: bit_and_iff numeral_eq_Suc less_Suc_eq)
      then have "of_nat r \<in> set rs" using r(1) by (auto simp: rs_def registerList_props(2))
      then obtain k where k: "k < length rs" "rs ! k = of_nat r" by (auto simp: in_set_conv_nth)
      then have "regs b3 (of_nat r) = word_at b1 (a + 4 * of_nat k)" using b3(3) same(2) by metis
      also have "\<dots> = regs b (pushList i ! k)" using b1(5) k(1) len by auto
      finally show ?thesis using k by (simp add: pw nth_append)
    qed
    moreover have "regs b3 RegisterSP = regs b RegisterSP"
      using b3(4) sp by (simp add: pushStart_def pushWords_def)
    moreover have "word_at b2 (a + 4 * of_nat (length rs)) = regs b RegisterLR" if "tbit 8 i"
      using b1(5) same(2) len that by (simp add: pw nth_append)
    ultimately show ?thesis using b3 by auto
  qed
  with b1(1,2) show ?thesis by blast
qed

definition sampleStack :: backend where
  "sampleStack = setReg RegisterSP 0x1100 (setReg RegisterLR 0x2001 (setReg 4 7 sampleBackend))"

lemma sampleStack_ready: "app_guest sampleStack" "stack_ready 0xb510 sampleStack"
proof -
  show "app_guest sampleStack" by (simp add: sampleStack_def)
  have "rw_word sampleBackend 0x10f8" "rw_word sampleBackend 0x10fc"
    by (auto simp: rw_word_def sampleBackend_memory span_def)
  moreover have "pushWords 0xb510 = 2" "pushStart 0xb510 sampleStack = 0x10f8"
    "blockTransferAddress 0x10f8 sampleStack = 0x10f8"
    by (simp_all add: pushWords_def pushStart_def tbit_def OnesCount16_def sampleStack_def register_defs
        blockTransferAddress_def upt_rec)
  ultimately show "stack_ready 0xb510 sampleStack"
    by (auto simp: stack_ready_def less_2_cases_iff sampleStack_def)
qed

theorem push_pop_roundtrip_witness:
  "\<exists>b1 b3. execPush 0xb510 sampleStack = (Inr None, b1) \<and> execPop 0xb510 (setReg 4 0 b1) = (Inr None, b3) \<and>
     regs b3 4 = 7 \<and> regs b3 RegisterPC = 0x2000 \<and> mode b3 = ModeThumb"
proof -
  obtain b1 where b1: "execPush 0xb510 sampleStack = (Inr None, b1)" "app_guest b1"
    and pop: "\<forall>b2. app_guest b2 \<and> guest_memory b2 = guest_memory b1 \<and>
       regs b2 RegisterSP = regs b1 RegisterSP \<and> alignmentChecked b2 = alignmentChecked sampleStack \<longrightarrow>
       (\<exists>b3. execPop 0xb510 b2 = (Inr None, b3) \<and> app_guest b3 \<and>
          (\<forall>r < 8. bit (0xb510 :: u16) r \<longrightarrow> regs b3 (of_nat r) = regs sampleStack (of_nat r)) \<and>
          regs b3 RegisterSP = regs sampleStack RegisterSP \<and>
          (tbit 8 0xb510 \<longrightarrow>
             regs b3 RegisterPC = exchangePC (regs sampleStack RegisterLR) \<and>
             mode b3 = exchangeMode (regs sampleStack RegisterLR)))"
    using push_pop_roundtrip [OF sampleStack_ready] by blast
  obtain v b' where "storeRegisters (pushList 0xb510)
      (blockTransferAddress (pushStart 0xb510 sampleStack) sampleStack) sampleStack = (Inr v, b')"
    and eq: "b1 = setReg RegisterSP (pushStart 0xb510 sampleStack) b'"
    using b1(1) unfolding execPush_store done_step_def by (elim and_then_InrD) simp
  then have "access_frame sampleStack b'" by (metis storeRegisters_frame snd_conv)
  then have "alignmentChecked b1 = alignmentChecked sampleStack"
    unfolding eq by (simp add: alignmentChecked_def access_frame_def setReg_def)
  then have "alignmentChecked (setReg 4 0 b1) = alignmentChecked sampleStack"
    by (simp add: alignmentChecked_def setReg_def)
  moreover have "app_guest (setReg 4 0 b1)" "guest_memory (setReg 4 0 b1) = guest_memory b1"
    "regs (setReg 4 0 b1) RegisterSP = regs b1 RegisterSP"
    using b1(2) by (simp_all add: register_defs)
  ultimately obtain b3 where "execPop 0xb510 (setReg 4 0 b1) = (Inr None, b3)"
    "\<forall>r < 8. bit (0xb510 :: u16) r \<longrightarrow> regs b3 (of_nat r) = regs sampleStack (of_nat r)"
    "tbit 8 0xb510 \<longrightarrow> regs b3 RegisterPC = exchangePC (regs sampleStack RegisterLR) \<and>
       mode b3 = exchangeMode (regs sampleStack RegisterLR)"
    using pop by blast
  moreover from this(2) have "regs b3 4 = 7"
    by (auto simp: sampleStack_def register_defs dest!: spec [of _ 4])
  moreover have "tbit 8 0xb510" "exchangePC (regs sampleStack RegisterLR) = 0x2000"
    "exchangeMode (regs sampleStack RegisterLR) = ModeThumb"
    by (simp_all add: tbit_def exchangePC_def exchangeMode_def sampleStack_def register_defs)
  ultimately show ?thesis using b1(1) by auto
qed

end
