(* ===== verification/Cpu_Cp15.thy ===== *)
theory Cpu_Cp15
  imports Cpu_Thumb
begin

text \<open>
  The system-control coprocessor, src/cpu/interpreter/cp15.go: register reads and
  writes, cache and TLB maintenance, the MRC/MCR instruction, and the bounded
  diagnostic rings of control-register accesses and cache-line prefetches.
\<close>

subsection \<open>Diagnostic rings\<close>

definition diagnosticMaximum :: u32 where "diagnosticMaximum = push_bit 20 1"

definition zeroControlAccess :: CP15ControlAccess where
  "zeroControlAccess = \<lparr>access_InstructionAddress = 0, access_Value = 0, access_Write = False\<rparr>"

definition zeroPrefetchAccess :: InstructionCachePrefetchAccess where
  "zeroPrefetchAccess = \<lparr>prefetch_InstructionAddress = 0, prefetch_ModifiedVirtualAddress = 0\<rparr>"

definition SetCP15ControlHistoryLimit :: "u32 \<Rightarrow> backend \<Rightarrow> unit res" where
  "SetCP15ControlHistoryLimit limit b =
     (if closed b then (Inl ErrClosed, b)
      else if limit > diagnosticMaximum then (Inl (ErrText ''limit exceeds diagnostic maximum''), b)
      else (Inr (), b\<lparr>cp15ControlHistory := replicate (unat limit) zeroControlAccess,
                      cp15ControlHistoryNext := 0\<rparr>))"

definition CP15ControlHistory :: "backend \<Rightarrow> CP15ControlAccess list" where
  "CP15ControlHistory b = ringRead (cp15ControlHistory b) (cp15ControlHistoryNext b)"

definition recordCP15ControlAccess :: "u32 \<Rightarrow> u32 \<Rightarrow> bool \<Rightarrow> backend \<Rightarrow> backend" where
  "recordCP15ControlAccess pc v wr b =
     (let (ring, nxt) = ringPut (cp15ControlHistory b) (cp15ControlHistoryNext b)
            \<lparr>access_InstructionAddress = pc, access_Value = v, access_Write = wr\<rparr>
      in b\<lparr>cp15ControlHistory := ring, cp15ControlHistoryNext := nxt\<rparr>)"

definition SetInstructionCachePrefetchHistoryLimit :: "u32 \<Rightarrow> backend \<Rightarrow> unit res" where
  "SetInstructionCachePrefetchHistoryLimit limit b =
     (if closed b then (Inl ErrClosed, b)
      else if limit > diagnosticMaximum then (Inl (ErrText ''limit exceeds diagnostic maximum''), b)
      else (Inr (), b\<lparr>instructionPrefetchHistory := replicate (unat limit) zeroPrefetchAccess,
                      instructionPrefetchHistoryNext := 0\<rparr>))"

definition InstructionCachePrefetchHistory :: "backend \<Rightarrow> InstructionCachePrefetchAccess list" where
  "InstructionCachePrefetchHistory b =
     ringRead (instructionPrefetchHistory b) (instructionPrefetchHistoryNext b)"

definition recordInstructionCachePrefetch :: "u32 \<Rightarrow> u32 \<Rightarrow> backend \<Rightarrow> backend" where
  "recordInstructionCachePrefetch pc address b =
     (let (ring, nxt) = ringPut (instructionPrefetchHistory b) (instructionPrefetchHistoryNext b)
            \<lparr>prefetch_InstructionAddress = pc,
             prefetch_ModifiedVirtualAddress = modifiedVirtualAddress address b\<rparr>
      in b\<lparr>instructionPrefetchHistory := ring, instructionPrefetchHistoryNext := nxt\<rparr>)"

subsection \<open>Registers\<close>

definition readCP15 :: "u8 \<Rightarrow> u8 \<Rightarrow> u8 \<Rightarrow> backend \<Rightarrow> cpu_error + u32" where
  "readCP15 crn crm op2 b =
     (if crn = 1 \<and> crm = 0 \<and> op2 = 0 then Inr (cp15_control (cp15 b))
      else if crn = 2 \<and> crm = 0 \<and> op2 = 0 then Inr (cp15_translationTableBase (cp15 b))
      else if crn = 3 \<and> crm = 0 \<and> op2 = 0 then Inr (cp15_domainAccessControl (cp15 b))
      else if crn = 5 \<and> crm = 0 \<and> op2 = 0 then Inr (cp15_dataFaultStatus (cp15 b))
      else if crn = 5 \<and> crm = 0 \<and> op2 = 1 then Inr (cp15_instructionFaultStatus (cp15 b))
      else if crn = 6 \<and> crm = 0 \<and> op2 = 0 then Inr (cp15_faultAddress (cp15 b))
      else if crn = 13 \<and> crm = 0 \<and> op2 = 0 then Inr (cp15_processID (cp15 b))
      else Inl (ErrText ''unsupported CP15 read''))"

definition writeCP15 :: "u8 \<Rightarrow> u8 \<Rightarrow> u8 \<Rightarrow> u32 \<Rightarrow> backend \<Rightarrow> unit res" where
  "writeCP15 crn crm op2 v b =
     (if crn = 1 \<and> crm = 0 \<and> op2 = 0 then
        (let b = (if v \<noteq> cp15_control (cp15 b) then clearDataCaches (b\<lparr>executeData := None\<rparr>) else b) in
         (Inr (), setCP15Control v b))
      else if crn = 2 \<and> crm = 0 \<and> op2 = 0 then
        (Inr (), invalidateTLB (b\<lparr>cp15 := (cp15 b)\<lparr>cp15_translationTableBase := v\<rparr>\<rparr>))
      else if crn = 3 \<and> crm = 0 \<and> op2 = 0 then
        (Inr (), invalidateTLB (b\<lparr>cp15 := (cp15 b)\<lparr>cp15_domainAccessControl := v\<rparr>\<rparr>))
      else if crn = 5 \<and> crm = 0 \<and> op2 = 0 then
        (Inr (), b\<lparr>cp15 := (cp15 b)\<lparr>cp15_dataFaultStatus := v\<rparr>\<rparr>)
      else if crn = 5 \<and> crm = 0 \<and> op2 = 1 then
        (Inr (), b\<lparr>cp15 := (cp15 b)\<lparr>cp15_instructionFaultStatus := v\<rparr>\<rparr>)
      else if crn = 6 \<and> crm = 0 \<and> op2 = 0 then
        (Inr (), b\<lparr>cp15 := (cp15 b)\<lparr>cp15_faultAddress := v\<rparr>\<rparr>)
      else if crn = 7 \<and> crm = 5 \<and> (op2 = 0 \<or> op2 = 1 \<or> op2 = 2) then
        (let b = (if op2 = 1 then invalidateInstructionCacheMVA v b else invalidateInstructionCache b) in
         (Inr (), (invalidateTranslations b)\<lparr>executeData := None\<rparr>))
      else if crn = 7 \<and> crm = 13 \<and> op2 = 1 then prefetchInstructionCacheLine v b
      else if crn = 7 \<and> crm = 6 \<and> (op2 = 0 \<or> op2 = 1 \<or> op2 = 2) then (Inr (), clearDataCaches b)
      else if crn = 7 \<and> crm = 10 \<and> (op2 = 1 \<or> op2 = 2 \<or> op2 = 4) then (Inr (), b)
      else if crn = 7 \<and> crm = 14 \<and> (op2 = 1 \<or> op2 = 2) then (Inr (), clearDataCaches b)
      else if crn = 7 \<and> crm = 7 \<and> op2 = 0 then
        (Inr (), invalidateTranslations (invalidateInstructionCache
                   (clearDataCaches (b\<lparr>executeData := None\<rparr>))))
      else if crn = 8 \<and> crm = 7 \<and> op2 = 0 then (Inr (), invalidateTLB b)
      else if crn = 13 \<and> crm = 0 \<and> op2 = 0 then
        (Inr (), invalidateTLB (b\<lparr>cp15 := (cp15 b)\<lparr>cp15_processID := v\<rparr>\<rparr>))
      else (Inl (ErrText ''unsupported CP15 write''), b))"

subsection \<open>MRC and MCR\<close>

definition afield :: "nat \<Rightarrow> u32 \<Rightarrow> u32 \<Rightarrow> u32" where
  "afield n m instruction = drop_bit n instruction AND m"

definition abit :: "nat \<Rightarrow> u32 \<Rightarrow> bool" where
  "abit n instruction \<longleftrightarrow> instruction AND push_bit n 1 \<noteq> 0"

definition unsupportedARM :: "backend \<Rightarrow> 'a res" where
  "unsupportedARM b = (Inl ErrUnsupportedInstruction, b)"

definition executeCP15 :: "u32 \<Rightarrow> u32 \<Rightarrow> backend \<Rightarrow> unit res" where
  "executeCP15 pc instruction b =
     (let op1 = (ucast (drop_bit 21 instruction) :: u8) AND 7;
          read = abit 20 instruction;
          crn = (ucast (afield 16 0xf instruction) :: u8);
          rd = afield 12 0xf instruction;
          coprocessor = (ucast (afield 8 0xf instruction) :: u8);
          op2 = (ucast (drop_bit 5 instruction) :: u8) AND 7;
          crm = (ucast (instruction AND 0xf) :: u8)
      in if coprocessor \<noteq> 15 \<or> op1 \<noteq> 0 then unsupportedARM b
         else if systemBus b = None then
           (if read \<or> crn \<noteq> 7 \<and> crn \<noteq> 8 then unsupportedARM b else (Inr (), b))
         else if read then
           (case readCP15 crn crm op2 b of
              Inl e \<Rightarrow> (Inl e, b)
            | Inr v \<Rightarrow>
                let b = (if rd = RegisterPC
                         then (let b = resolveFlags b in
                               setReg RegisterCPSR
                                 ((regs b RegisterCPSR AND NOT 0xf0000000) OR (v AND 0xf0000000)) b)
                         else setReg rd v b)
                in (Inr (), if crn = 1 \<and> crm = 0 \<and> op2 = 0 then recordCP15ControlAccess pc v False b else b))
         else if rd = RegisterPC then unsupportedARM b
         else
           let v = regs b rd in
           and_then (writeCP15 crn crm op2 v b) (\<lambda>_ b.
             let b = (if crn = 7 \<and> crm = 13 \<and> op2 = 1 then recordInstructionCachePrefetch pc v b else b)
             in (Inr (), if crn = 1 \<and> crm = 0 \<and> op2 = 0 then recordCP15ControlAccess pc v True b else b)))"

end
