(* ===== verification/Cpu_Arm.thy ===== *)
theory Cpu_Arm
  imports Cpu_Cp15
begin

text \<open>
  The ARM decoder and executor, the first half of src/cpu/interpreter/arm.go.  Every
  case of the switch in \<open>stepARM\<close> is a definition of its own; \<open>executeARM\<close> is the
  switch, in the order of the source, which matters because the masks overlap;
  \<open>runARM\<close> and \<open>runARMInstrumented\<close> are the loops.
\<close>

subsection \<open>Branches and coprocessor transfers\<close>

text \<open>The 24-bit branch offset in words, sign-extended.\<close>

definition branchOffset :: "u32 \<Rightarrow> u32" where
  "branchOffset instruction =
     (let offset = push_bit 2 (instruction AND 0x00ffffff) in
      if offset AND push_bit 25 1 \<noteq> 0 then offset OR NOT 0x03ffffff else offset)"

definition armBX :: "u32 \<Rightarrow> u32 \<Rightarrow> backend \<Rightarrow> step" where
  "armBX pc instruction b =
     done_step (branchExchange (readOperandRegister (instruction AND 0xf) pc ModeARM b) b)"

definition armBLX :: "u32 \<Rightarrow> u32 \<Rightarrow> backend \<Rightarrow> step" where
  "armBLX pc instruction b =
     (let target = readOperandRegister (instruction AND 0xf) pc ModeARM b in
      done_step (branchExchange target (setReg RegisterLR (pc + 4) b)))"

definition armBLXImmediate :: "u32 \<Rightarrow> u32 \<Rightarrow> backend \<Rightarrow> step" where
  "armBLXImmediate pc instruction b =
     (let offset = branchOffset instruction;
          offset = (if abit 24 instruction then offset + 2 else offset);
          b = setReg RegisterPC (pc + 8 + offset) (setReg RegisterLR (pc + 4) b)
      in done_step (setModeFlag (b\<lparr>mode := ModeThumb\<rparr>)))"

definition armBranch :: "u32 \<Rightarrow> u32 \<Rightarrow> backend \<Rightarrow> step" where
  "armBranch pc instruction b =
     (let b = (if abit 24 instruction then setReg RegisterLR (pc + 4) b else b) in
      done_step (setReg RegisterPC (pc + 8 + branchOffset instruction) b))"

subsection \<open>Counting, swapping and multiplying\<close>

definition armCLZ :: "u32 \<Rightarrow> backend \<Rightarrow> step" where
  "armCLZ instruction b =
     (let rd = afield 12 0xf instruction; rm = instruction AND 0xf in
      if rd = RegisterPC \<or> rm = RegisterPC then unsupportedARM b
      else done_step (setReg rd (of_nat (LeadingZeros32 (regs b rm))) b))"

definition armSWP :: "u32 \<Rightarrow> backend \<Rightarrow> step" where
  "armSWP instruction b =
     (let byteTransfer = abit 22 instruction;
          rn = afield 16 0xf instruction; rd = afield 12 0xf instruction; rm = instruction AND 0xf
      in if rn = RegisterPC \<or> rd = RegisterPC \<or> rm = RegisterPC then unsupportedARM b
         else
           let address = regs b rn; stored = regs b rm in
           if byteTransfer then
             and_then (read8 address PermissionRead b) (\<lambda>loaded b.
               and_then (write8 address (ucast stored) PermissionWrite b) (\<lambda>_ b.
                 done_step (setReg rd (ucast loaded) b)))
           else
             and_then (read32 address PermissionRead b) (\<lambda>loaded b.
               and_then (write32 address stored PermissionWrite b) (\<lambda>_ b.
                 done_step (setReg rd loaded b))))"

definition armMultiply :: "u32 \<Rightarrow> backend \<Rightarrow> step" where
  "armMultiply instruction b =
     (let accumulate = abit 21 instruction; setFlags = abit 20 instruction;
          rd = afield 16 0xf instruction; rn = afield 12 0xf instruction;
          rs = afield 8 0xf instruction; rm = instruction AND 0xf
      in if rd = RegisterPC \<or> rs = RegisterPC \<or> rm = RegisterPC \<or> accumulate \<and> rn = RegisterPC
         then unsupportedARM b
         else
           let result = regs b rm * regs b rs;
               result = (if accumulate then result + regs b rn else result);
               b = setReg rd result b
           in done_step (if setFlags then setNZ result b else b))"

definition armMultiplyLong :: "u32 \<Rightarrow> backend \<Rightarrow> step" where
  "armMultiplyLong instruction b =
     (let signed = abit 22 instruction; accumulate = abit 21 instruction;
          setFlags = abit 20 instruction;
          rdHi = afield 16 0xf instruction; rdLo = afield 12 0xf instruction;
          rs = afield 8 0xf instruction; rm = instruction AND 0xf
      in if rdHi = RegisterPC \<or> rdLo = RegisterPC \<or> rs = RegisterPC \<or> rm = RegisterPC \<or> rdHi = rdLo
         then unsupportedARM b
         else
           let product = (if signed then scast (regs b rm) * scast (regs b rs)
                          else ucast (regs b rm) * ucast (regs b rs) :: u64);
               product = (if accumulate
                          then product + (push_bit 32 (ucast (regs b rdHi)) OR ucast (regs b rdLo))
                          else product);
               b = setReg rdLo (ucast product) (setReg rdHi (ucast (drop_bit 32 product)) b)
           in if setFlags
              then (let b = resolveFlags b;
                        status = regs b RegisterCPSR AND NOT (flagN OR flagZ);
                        status = (if product = 0 then status OR flagZ else status);
                        status = (if product AND push_bit 63 1 \<noteq> 0 then status OR flagN else status)
                    in done_step (setReg RegisterCPSR status b))
              else done_step b)"

subsection \<open>Halfword, signed and doubleword transfers\<close>

definition halfwordAccess :: "bool \<Rightarrow> u8 \<Rightarrow> u32 \<Rightarrow> u32 \<Rightarrow> backend \<Rightarrow> unit res" where
  "halfwordAccess load operation rd address b =
     (if \<not> load \<and> operation = 1 then write16 address (ucast (regs b rd)) PermissionWrite b
      else if operation = 1 then
        and_then (read16 address PermissionRead b) (\<lambda>v b. (Inr (), setReg rd (ucast v) b))
      else if \<not> load \<and> operation = 2 then
        and_then (read32 address PermissionRead b) (\<lambda>low b.
          and_then (read32 (address + 4) PermissionRead b) (\<lambda>high b.
            (Inr (), setReg (rd + 1) high (setReg rd low b))))
      else if \<not> load \<and> operation = 3 then
        and_then (write32 address (regs b rd) PermissionWrite b) (\<lambda>_ b.
          write32 (address + 4) (regs b (rd + 1)) PermissionWrite b)
      else if operation = 2 then
        and_then (read8 address PermissionRead b) (\<lambda>v b. (Inr (), setReg rd (signed8 v) b))
      else
        and_then (read16 address PermissionRead b) (\<lambda>v b. (Inr (), setReg rd (signed16 v) b)))"

definition armHalfword :: "u32 \<Rightarrow> u32 \<Rightarrow> backend \<Rightarrow> step" where
  "armHalfword pc instruction b =
     (let preIndex = abit 24 instruction; up = abit 23 instruction; immediate = abit 22 instruction;
          writeBack = abit 21 instruction; load = abit 20 instruction;
          rn = afield 16 0xf instruction; rd = afield 12 0xf instruction;
          operation = (ucast (drop_bit 5 instruction) :: u8) AND 3;
          doubleword = (\<not> load \<and> 2 \<le> operation);
          semanticLoad = (load \<or> operation = 2);
          writeBackAddress = (\<not> preIndex \<or> writeBack);
          rm = instruction AND 0xf
      in if rd = RegisterPC \<or>
            doubleword \<and> (rd AND 1 \<noteq> 0 \<or> RegisterPC \<le> rd + 1 \<or>
              writeBackAddress \<and> (rn = rd \<or> rn = rd + 1)) \<or>
            \<not> load \<and> operation \<noteq> 1 \<and> \<not> doubleword
         then unsupportedARM b
         else if \<not> immediate \<and> (instruction AND 0x00000f00 \<noteq> 0 \<or> rm = RegisterPC)
         then unsupportedARM b
         else
           let offset = (if immediate then (drop_bit 4 instruction AND 0xf0) OR (instruction AND 0xf)
                         else regs b rm);
               base = readOperandRegister rn pc ModeARM b;
               indexedAddress = (if up then base + offset else base - offset);
               address = (if preIndex then indexedAddress else base)
           in and_then (halfwordAccess load operation rd address b) (\<lambda>_ b.
                if writeBackAddress \<and> \<not> (semanticLoad \<and> rd = rn)
                then done_step (setReg rn indexedAddress b) else done_step b))"

subsection \<open>Program status transfers\<close>

definition armMRS :: "u32 \<Rightarrow> backend \<Rightarrow> step" where
  "armMRS instruction b =
     (let rd = afield 12 0xf instruction in
      if rd = RegisterPC then unsupportedARM b
      else and_then (readProgramStatus (abit 22 instruction) b) (\<lambda>v b. done_step (setReg rd v b)))"

definition armMSRRegister :: "u32 \<Rightarrow> backend \<Rightarrow> step" where
  "armMSRRegister instruction b =
     (let rm = instruction AND 0xf; saved = abit 22 instruction; fieldBits = afield 16 0xf instruction in
      if rm = RegisterPC \<or> \<not> programStatusWriteAllowed saved fieldBits b then unsupportedARM b
      else and_then (writeProgramStatus saved fieldBits (regs b rm) b) (\<lambda>_ b. done_step b))"

text \<open>The rotated 8-bit immediate of MSR and of data processing.\<close>

definition armImmediate :: "u32 \<Rightarrow> u32" where
  "armImmediate instruction =
     RotateLeft32 (instruction AND 0xff) (- uint ((drop_bit 8 instruction AND 0xf) * 2))"

definition armMSRImmediate :: "u32 \<Rightarrow> backend \<Rightarrow> step" where
  "armMSRImmediate instruction b =
     (let saved = abit 22 instruction; fieldBits = afield 16 0xf instruction in
      if \<not> programStatusWriteAllowed saved fieldBits b then unsupportedARM b
      else and_then (writeProgramStatus saved fieldBits (armImmediate instruction) b)
        (\<lambda>_ b. done_step b))"

subsection \<open>Data processing\<close>

text \<open>
  The shifter operand.  An immediate amount of zero means 32 for LSR and ASR and a
  rotate through carry for ROR.
\<close>

definition shiftByImmediate :: "u8 \<Rightarrow> u32 \<Rightarrow> u8 \<Rightarrow> bool \<Rightarrow> u32 \<times> bool" where
  "shiftByImmediate shiftType v amount oldCarry =
     (if shiftType = 0 then shiftLSL v amount oldCarry
      else if shiftType = 1 then shiftLSR v (if amount = 0 then 32 else amount) oldCarry
      else if shiftType = 2 then shiftASR v (if amount = 0 then 32 else amount) oldCarry
      else if amount = 0
      then (if oldCarry then drop_bit 1 v OR flagN else drop_bit 1 v, v AND 1 \<noteq> 0)
      else shiftROR v amount oldCarry)"

definition shiftByRegister :: "u8 \<Rightarrow> u32 \<Rightarrow> u8 \<Rightarrow> bool \<Rightarrow> u32 \<times> bool" where
  "shiftByRegister shiftType v amount oldCarry =
     (if shiftType = 0 then shiftLSL v amount oldCarry
      else if shiftType = 1 then shiftLSR v amount oldCarry
      else if shiftType = 2 then shiftASR v amount oldCarry
      else shiftROR v amount oldCarry)"

definition shifterOperand :: "u32 \<Rightarrow> u32 \<Rightarrow> backend \<Rightarrow> (u32 \<times> bool) option" where
  "shifterOperand pc instruction b =
     (let operandCarry = carry_flag b in
      if abit 25 instruction
      then (let operand2 = armImmediate instruction in
            Some (operand2, if (drop_bit 8 instruction AND 0xf) * 2 \<noteq> 0
                            then operand2 AND flagN \<noteq> 0 else operandCarry))
      else
        let v = readOperandRegister (instruction AND 0xf) pc ModeARM b;
            shiftType = (ucast (drop_bit 5 instruction) :: u8) AND 3
        in if \<not> abit 4 instruction
           then Some (shiftByImmediate shiftType v (ucast (drop_bit 7 instruction AND 0x1f)) operandCarry)
           else if abit 7 instruction then None
           else Some (shiftByRegister shiftType v
                  (ucast (readOperandRegister (afield 8 0xf instruction) pc ModeARM b)) operandCarry))"

record aluResult =
  alu_result :: u32
  alu_carry :: bool
  alu_overflow :: bool
  alu_setFlags :: bool
  alu_write :: bool
  alu_arithmetic :: bool

definition aluLogical :: "u32 \<Rightarrow> bool \<Rightarrow> bool \<Rightarrow> aluResult" where
  "aluLogical result setFlags wr =
     \<lparr>alu_result = result, alu_carry = False, alu_overflow = False, alu_setFlags = setFlags,
      alu_write = wr, alu_arithmetic = False\<rparr>"

definition aluArithmetic :: "u32 \<times> bool \<times> bool \<Rightarrow> bool \<Rightarrow> bool \<Rightarrow> aluResult" where
  "aluArithmetic r setFlags wr =
     (let (result, carry, overflow) = r in
      \<lparr>alu_result = result, alu_carry = carry, alu_overflow = overflow, alu_setFlags = setFlags,
       alu_write = wr, alu_arithmetic = True\<rparr>)"

definition dataOpcode :: "u8 \<Rightarrow> u32 \<Rightarrow> u32 \<Rightarrow> u32 \<Rightarrow> bool \<Rightarrow> aluResult" where
  "dataOpcode opcode left operand2 cin setFlags =
     (if opcode = 0x0 then aluLogical (left AND operand2) setFlags True
      else if opcode = 0x1 then aluLogical (left XOR operand2) setFlags True
      else if opcode = 0x2 then aluArithmetic (addWithCarry left (NOT operand2) 1) setFlags True
      else if opcode = 0x3 then aluArithmetic (addWithCarry operand2 (NOT left) 1) setFlags True
      else if opcode = 0x4 then aluArithmetic (addWithCarry left operand2 0) setFlags True
      else if opcode = 0x5 then aluArithmetic (addWithCarry left operand2 cin) setFlags True
      else if opcode = 0x6 then aluArithmetic (addWithCarry left (NOT operand2) cin) setFlags True
      else if opcode = 0x7 then aluArithmetic (addWithCarry operand2 (NOT left) cin) setFlags True
      else if opcode = 0x8 then aluLogical (left AND operand2) True False
      else if opcode = 0x9 then aluLogical (left XOR operand2) True False
      else if opcode = 0xa then aluArithmetic (addWithCarry left (NOT operand2) 1) True False
      else if opcode = 0xb then aluArithmetic (addWithCarry left operand2 0) True False
      else if opcode = 0xc then aluLogical (left OR operand2) setFlags True
      else if opcode = 0xd then aluLogical operand2 setFlags True
      else if opcode = 0xe then aluLogical (left AND NOT operand2) setFlags True
      else aluLogical (NOT operand2) setFlags True)"

definition alignPC :: "u32 \<Rightarrow> backend \<Rightarrow> u32" where
  "alignPC v b = (if mode b = ModeThumb then v AND NOT 1 else v AND NOT 3)"

text \<open>
  The result of a data-processing instruction.  A write to PC with S set returns from an
  exception where the mode has an SPSR; the answer is whether it did.
\<close>

definition writeDataResult :: "u32 \<Rightarrow> aluResult \<Rightarrow> backend \<Rightarrow> bool res" where
  "writeDataResult rd r b =
     (if \<not> alu_write r then (Inr False, b)
      else if rd \<noteq> RegisterPC then (Inr False, setReg rd (alu_result r) b)
      else
        let status = (if alu_setFlags r then savedStatus (currentProcessorMode b) b else None) in
        case status of
          None \<Rightarrow> (Inr False, setReg RegisterPC (alignPC (alu_result r) b) b)
        | Some st \<Rightarrow>
            and_then (writeProgramStatus False 0xf st b) (\<lambda>_ b.
              (Inr True, setReg RegisterPC (alignPC (alu_result r) b) b)))"

definition armDataProcessing :: "u32 \<Rightarrow> u32 \<Rightarrow> backend \<Rightarrow> step" where
  "armDataProcessing pc instruction b =
     (case shifterOperand pc instruction b of
        None \<Rightarrow> unsupportedARM b
      | Some (operand2, operandCarry) \<Rightarrow>
          let left = readOperandRegister (afield 16 0xf instruction) pc ModeARM b;
              r = dataOpcode (ucast (afield 21 0xf instruction)) left operand2 (carryIn b)
                    (abit 20 instruction)
          in and_then (writeDataResult (afield 12 0xf instruction) r b) (\<lambda>exceptionReturn b.
               if alu_setFlags r \<and> \<not> exceptionReturn
               then (if alu_arithmetic r
                     then done_step (setNZCV (alu_result r) (alu_carry r) (alu_overflow r) b)
                     else done_step (setNZC (alu_result r) operandCarry b))
               else done_step b))"

subsection \<open>Word and byte transfers\<close>

definition transferOffset :: "u32 \<Rightarrow> u32 \<Rightarrow> backend \<Rightarrow> u32 option" where
  "transferOffset pc instruction b =
     (if \<not> abit 25 instruction then Some (instruction AND 0xfff)
      else if abit 4 instruction then None
      else Some (fst (shiftByImmediate ((ucast (drop_bit 5 instruction) :: u8) AND 3)
             (readOperandRegister (instruction AND 0xf) pc ModeARM b)
             (ucast (drop_bit 7 instruction AND 0x1f)) (carry_flag b))))"

definition loadTarget :: "u32 \<Rightarrow> u32 \<Rightarrow> backend \<Rightarrow> backend" where
  "loadTarget rd v b = (if rd = RegisterPC then branchExchange v b else setReg rd v b)"

definition wordAccess :: "bool \<Rightarrow> bool \<Rightarrow> u32 \<Rightarrow> u32 \<Rightarrow> u32 \<Rightarrow> backend \<Rightarrow> unit res" where
  "wordAccess load byteTransfer rd address pc b =
     (if load then
        (if byteTransfer
         then and_then (read8 address PermissionRead b) (\<lambda>v b. (Inr (), loadTarget rd (ucast v) b))
         else and_then (read32 address PermissionRead b) (\<lambda>v b. (Inr (), loadTarget rd v b)))
      else
        let v = (if rd = RegisterPC then pc + 12 else regs b rd) in
        if byteTransfer then write8 address (ucast v) PermissionWrite b
        else write32 address v PermissionWrite b)"

definition armTransfer :: "u32 \<Rightarrow> u32 \<Rightarrow> backend \<Rightarrow> step" where
  "armTransfer pc instruction b =
     (let preIndex = abit 24 instruction; up = abit 23 instruction; byteTransfer = abit 22 instruction;
          writeBack = abit 21 instruction; load = abit 20 instruction;
          rn = afield 16 0xf instruction; rd = afield 12 0xf instruction;
          base = readOperandRegister rn pc ModeARM b
      in case transferOffset pc instruction b of
           None \<Rightarrow> unsupportedARM b
         | Some offset \<Rightarrow>
             let indexedAddress = (if up then base + offset else base - offset);
                 address = (if preIndex then indexedAddress else base)
             in and_then (wordAccess load byteTransfer rd address pc b) (\<lambda>_ b.
                  if (\<not> preIndex \<or> writeBack) \<and> \<not> (load \<and> rd = rn)
                  then done_step (setReg rn indexedAddress b) else done_step b))"

subsection \<open>Block transfers\<close>

text \<open>
  The loop of LDM and STM.  A loaded PC is held back until the base is written.
\<close>

fun ldmLoop :: "bool \<Rightarrow> u32 list \<Rightarrow> u32 \<Rightarrow> u32 option \<Rightarrow> backend \<Rightarrow> u32 option res" where
  "ldmLoop transferUser [] address loadedPC b = (Inr loadedPC, b)"
| "ldmLoop transferUser (r # rs) address loadedPC b =
     and_then (read32 address PermissionRead b) (\<lambda>v b.
       if r = RegisterPC then ldmLoop transferUser rs (address + 4) (Some v) b
       else ldmLoop transferUser rs (address + 4) loadedPC
         (if transferUser then writeUserRegister r v b else setReg r v b))"

definition stmValue :: "bool \<Rightarrow> u32 \<Rightarrow> u32 \<Rightarrow> u32 \<Rightarrow> u32 \<Rightarrow> backend \<Rightarrow> u32" where
  "stmValue transferUser pc rn base r b =
     (if r = RegisterPC then pc + 12
      else if transferUser then readUserRegister r b
      else if r = rn then base else regs b r)"

fun stmLoop :: "bool \<Rightarrow> u32 \<Rightarrow> u32 \<Rightarrow> u32 \<Rightarrow> u32 list \<Rightarrow> u32 \<Rightarrow> backend \<Rightarrow> unit res" where
  "stmLoop transferUser pc rn base [] address b = (Inr (), b)"
| "stmLoop transferUser pc rn base (r # rs) address b =
     and_then (write32 address (stmValue transferUser pc rn base r b) PermissionWrite b) (\<lambda>_ b.
       stmLoop transferUser pc rn base rs (address + 4) b)"

definition blockStart :: "bool \<Rightarrow> bool \<Rightarrow> u32 \<Rightarrow> u32 \<Rightarrow> u32" where
  "blockStart preIndex increment base words =
     (if increment then (if preIndex then base + 4 else base)
      else (let address = base - words * 4 in if \<not> preIndex then address + 4 else address))"

definition finishLDM :: "u32 option \<Rightarrow> u32 option \<Rightarrow> backend \<Rightarrow> step" where
  "finishLDM loadedPC restoredStatus b =
     (case loadedPC of
        None \<Rightarrow> done_step b
      | Some v \<Rightarrow>
          (case restoredStatus of
             Some st \<Rightarrow>
               and_then (writeProgramStatus False 0xf st b) (\<lambda>_ b.
                 done_step (setReg RegisterPC (alignPC v b) b))
           | None \<Rightarrow> done_step (branchExchange v b)))"

definition armBlock :: "u32 \<Rightarrow> u32 \<Rightarrow> backend \<Rightarrow> step" where
  "armBlock pc instruction b =
     (let preIndex = abit 24 instruction; increment = abit 23 instruction;
          userOrPSR = abit 22 instruction; writeBack = abit 21 instruction;
          load = abit 20 instruction; rn = afield 16 0xf instruction;
          registers = (ucast instruction :: u16);
          exceptionReturn = (userOrPSR \<and> load \<and> bit registers 15);
          transferUser = (userOrPSR \<and> \<not> exceptionReturn);
          currentMode = currentProcessorMode b;
          status = savedStatus currentMode b
      in if registers = 0 \<or> rn = RegisterPC then unsupportedARM b
         else if transferUser \<and> (currentMode = processorModeUser \<or> currentMode = processorModeSystem)
         then unsupportedARM b
         else if exceptionReturn \<and> status = None then unsupportedARM b
         else
           let restoredStatus = (if exceptionReturn then status else None);
               count = of_nat (OnesCount16 registers);
               base = readOperandRegister rn pc ModeARM b;
               address = blockTransferAddress (blockStart preIndex increment base count) b;
               rs = registerList registers 16;
               newBase = (if increment then base + count * 4 else base - count * 4)
           in and_then
                (if load then ldmLoop transferUser rs address None b
                 else and_then (stmLoop transferUser pc rn base rs address b) (\<lambda>_ b. (Inr None, b)))
                (\<lambda>loadedPC b.
                   let b = (if writeBack \<and> (\<not> load \<or> \<not> bit registers (unat rn))
                            then setReg rn newBase b else b)
                   in finishLDM loadedPC restoredStatus b))"

subsection \<open>Supervisor call\<close>

definition armSWI :: "u32 \<Rightarrow> u32 \<Rightarrow> backend \<Rightarrow> step" where
  "armSWI pc instruction b =
     (if instruction AND 0x00ffffff = semihostingARMImmediate \<and> fst (handleSemihosting b)
      then done_step (snd (handleSemihosting b))
      else if systemBus b \<noteq> None
      then done_step (enterException processorModeSupervisor vectorSoftware (pc + 4) b)
      else (Inr (Some StopBreakpoint), b))"

subsection \<open>Dispatch\<close>

definition executeARM :: "u32 \<Rightarrow> u32 \<Rightarrow> backend \<Rightarrow> step" where
  "executeARM pc instruction b =
     (if instruction AND 0x0ff000f0 = 0x01200070 then (Inr (Some StopBreakpoint), b)
      else if instruction AND 0x0ffffff0 = 0x012fff10 then armBX pc instruction b
      else if instruction AND 0x0ffffff0 = 0x012fff30 then armBLX pc instruction b
      else if instruction AND 0xfe000000 = 0xfa000000 then armBLXImmediate pc instruction b
      else if instruction AND 0x0f000010 = 0x0e000010 then
        and_then (executeCP15 pc instruction b) (\<lambda>_ b. done_step b)
      else if instruction AND 0x0e000000 = 0x0a000000 then armBranch pc instruction b
      else if instruction AND 0x0fff0ff0 = 0x016f0f10 then armCLZ instruction b
      else if instruction AND 0x0fb00ff0 = 0x01000090 then armSWP instruction b
      else if instruction AND 0x0fc000f0 = 0x00000090 then armMultiply instruction b
      else if instruction AND 0x0f8000f0 = 0x00800090 then armMultiplyLong instruction b
      else if instruction AND 0x0e000090 = 0x00000090 \<and> instruction AND 0x00000060 \<noteq> 0
      then armHalfword pc instruction b
      else if instruction AND 0x0fbf0fff = 0x010f0000 then armMRS instruction b
      else if instruction AND 0x0fb0fff0 = 0x0120f000 then armMSRRegister instruction b
      else if instruction AND 0x0fb0f000 = 0x0320f000 then armMSRImmediate instruction b
      else if instruction AND 0x0c000000 = 0x00000000 then armDataProcessing pc instruction b
      else if instruction AND 0x0c000000 = 0x04000000 then armTransfer pc instruction b
      else if instruction AND 0x0e000000 = 0x08000000 then armBlock pc instruction b
      else if instruction AND 0x0f000000 = 0x0f000000 then armSWI pc instruction b
      else unsupportedARM b)"

definition fetchARM :: "u32 \<Rightarrow> backend \<Rightarrow> u32 res" where
  "fetchARM pc b = (if windowHit 4 pc b then (Inr (Uint32 (windowBytes 4 pc b)), b) else fetch32 pc b)"

definition stepARM :: "backend \<Rightarrow> step" where
  "stepARM b =
     (let pc = regs b RegisterPC in
      and_then (fetchARM pc b) (\<lambda>instruction b.
        let b = setReg RegisterPC (pc + 4) b;
            condition = (ucast (drop_bit 28 instruction) :: u8);
            (passed, b) = (if condition < 0xe then conditionPassed condition b else (True, b))
        in if \<not> passed then done_step b else executeARM pc instruction b))"

subsection \<open>Run loops\<close>

fun armLoop :: "nat \<Rightarrow> backend \<Rightarrow> batch \<times> backend" where
  "armLoop 0 b = (batchEnd 0, b)"
| "armLoop (Suc n) b =
     (if mode b \<noteq> ModeARM then (batchEnd 0, b)
      else case stepARM b of
        (Inl e, b) \<Rightarrow> (batchError 0 e, b)
      | (Inr (Some reason), b) \<Rightarrow> (batchStop 1 reason, b)
      | (Inr None, b) \<Rightarrow> retire 1 (armLoop n b))"

text \<open>
  One round of the instrumented loop: an interrupt taken or an abort delivered
  (\<open>Continue\<close>), an instruction retired, or the end of the batch.
\<close>

datatype armRound = Interrupted | Faulted cpu_error | Retired | Finished batch

definition armInstrumentedRound :: "bool \<Rightarrow> bool \<Rightarrow> backend \<Rightarrow> armRound \<times> backend" where
  "armInstrumentedRound wholeSystem traced b =
     (let (taken, b) = (if wholeSystem then takePendingInterrupt b else (False, b)) in
      if taken then (Interrupted, b)
      else if wholeSystem \<and> executionTrapAt ModeARM (regs b RegisterPC) b
      then (Finished (batchStop 0 StopExecutionTrap), b)
      else
        let b = (if traced then recordPC (regs b RegisterPC) b else b);
            pc = regs b RegisterPC;
            b = (if wholeSystem then b\<lparr>instructionAddress := pc\<rparr> else b)
        in case stepARM b of
             (Inl e, b) \<Rightarrow>
               (let (handled, b) = handleMMUFault e pc b in
                if handled then (Faulted e, b) else (Finished (batchError 0 e), b))
           | (Inr (Some reason), b) \<Rightarrow> (Finished (batchStop 1 reason), b)
           | (Inr None, b) \<Rightarrow> (Retired, b))"

text \<open>
  \<open>runARMInstrumented\<close>.  An interrupt masks the line it took and an abort is counted, up
  to 1024 between retirements, so the loop ends; the recursion is on fuel, and running
  out of it is \<open>None\<close>.
\<close>

fun armInstrumentedLoop ::
  "nat \<Rightarrow> bool \<Rightarrow> bool \<Rightarrow> nat \<Rightarrow> nat \<Rightarrow> backend \<Rightarrow> (batch \<times> backend) option" where
  "armInstrumentedLoop fuel wholeSystem traced 0 faults b = Some (batchEnd 0, b)"
| "armInstrumentedLoop 0 wholeSystem traced (Suc n) faults b = None"
| "armInstrumentedLoop (Suc fuel) wholeSystem traced (Suc n) faults b =
     (if mode b \<noteq> ModeARM then Some (batchEnd 0, b)
      else case armInstrumentedRound wholeSystem traced b of
        (Interrupted, b) \<Rightarrow> armInstrumentedLoop fuel wholeSystem traced (Suc n) faults b
      | (Faulted e, b) \<Rightarrow>
          if 1024 \<le> faults + 1 then Some (batchError 0 (ErrText ''ARM MMU fault livelock''), b)
          else armInstrumentedLoop fuel wholeSystem traced (Suc n) (faults + 1) b
      | (Retired, b) \<Rightarrow> map_option (retire 1) (armInstrumentedLoop fuel wholeSystem traced n 0 b)
      | (Finished t, b) \<Rightarrow> Some (t, b))"

definition armInstrumentedFuel :: "nat \<Rightarrow> nat" where
  "armInstrumentedFuel limit = 3 * (1024 * limit + 1024) + 3"

definition runARMInstrumented :: "nat \<Rightarrow> backend \<Rightarrow> (batch \<times> backend) option" where
  "runARMInstrumented limit b =
     armInstrumentedLoop (armInstrumentedFuel limit) (systemBus b \<noteq> None) (tracing b) limit 0 b"

definition runARM :: "nat \<Rightarrow> backend \<Rightarrow> (batch \<times> backend) option" where
  "runARM limit b =
     (if systemBus b \<noteq> None \<or> tracing b then runARMInstrumented limit b
      else Some (armLoop limit b))"

end
