(* ===== verification/Cpu_Run.thy ===== *)
theory Cpu_Run
  imports Cpu_Arm
begin

text \<open>
  The public execution interface of src/cpu/interpreter/backend.go: \<open>Run\<close>, \<open>Stop\<close>,
  \<open>Close\<close>, execution traps and the program-counter diagnostics.
\<close>

subsection \<open>Diagnostics\<close>

definition PCHits :: "backend \<Rightarrow> (u32 \<Rightarrow> u64) option" where
  "PCHits b = pcHits b"

definition SetPCHistoryLimit :: "u32 \<Rightarrow> backend \<Rightarrow> unit res" where
  "SetPCHistoryLimit limit b =
     (if closed b then (Inl ErrClosed, b)
      else if limit > diagnosticMaximum then (Inl (ErrText ''limit exceeds diagnostic maximum''), b)
      else (Inr (), b\<lparr>pcHistory := replicate (unat limit) 0, pcHistoryNext := 0\<rparr>))"

definition PCHistory :: "backend \<Rightarrow> u32 list" where
  "PCHistory b = ringRead (pcHistory b) (pcHistoryNext b)"

definition SetPCRegisterCapture :: "u32 \<Rightarrow> u32 \<Rightarrow> backend \<Rightarrow> unit res" where
  "SetPCRegisterCapture address limit b =
     (if closed b then (Inl ErrClosed, b)
      else if limit > 4096 then (Inl (ErrText ''limit exceeds diagnostic maximum''), b)
      else (Inr (), b\<lparr>pcCaptureAddress := address, pcCaptureLimit := limit, pcRegisterCaptures := []\<rparr>))"

definition PCRegisterCaptures :: "backend \<Rightarrow> PCRegisterCapture list" where
  "PCRegisterCaptures b = pcRegisterCaptures b"

subsection \<open>Execution traps\<close>

fun configureTraps :: "ExecutionTrap list \<Rightarrow> ExecutionTrap list \<Rightarrow> cpu_error + ExecutionTrap list" where
  "configureTraps configured [] = Inr configured"
| "configureTraps configured (t # ts) =
     (if \<not> ExecutionTrap_Valid t then Inl (ErrText ''invalid execution trap'')
      else if t \<in> set configured then Inl (ErrText ''duplicate execution trap'')
      else configureTraps (t # configured) ts)"

definition SetExecutionTraps :: "ExecutionTrap list \<Rightarrow> backend \<Rightarrow> unit res" where
  "SetExecutionTraps traps b =
     (if closed b then (Inl ErrClosed, b)
      else case configureTraps [] traps of
        Inl e \<Rightarrow> (Inl e, b)
      | Inr configured \<Rightarrow> (Inr (), invalidateTranslations (b\<lparr>executionTraps := configured\<rparr>)))"

subsection \<open>Run\<close>

text \<open>
  What the host does while a run is in progress is an argument: at the k-th poll, whether
  \<open>Stop\<close> has been called since the run began and what \<open>ctx.Err()\<close> answers.
\<close>

record hostPoll =
  stop_called :: bool
  ctx_Err :: "cpu_error option"

definition runBatchInstructions :: nat where "runBatchInstructions = 256"

definition runResult :: "StopReason \<Rightarrow> nat \<Rightarrow> cpu_error option \<Rightarrow> backend \<Rightarrow> Result" where
  "runResult reason executed err b =
     \<lparr>Reason = reason, Instructions = executed, result_PC = regs b RegisterPC, result_Err = err\<rparr>"

text \<open>The cancellation test that precedes every batch and follows the loop.\<close>

definition pollHost :: "hostPoll \<Rightarrow> nat \<Rightarrow> backend \<Rightarrow> Result option \<times> backend" where
  "pollHost h executed b =
     (let b = b\<lparr>stopped := stopped b \<or> stop_called h\<rparr> in
      if stopped b then (Some (runResult StopRequested executed (Some ErrStopped) b), b)
      else case ctx_Err h of
        Some e \<Rightarrow> (Some (runResult StopRequested executed (Some e) b), b)
      | None \<Rightarrow> (None, b))"

text \<open>The size of the next batch.\<close>

definition batchLimit :: "nat \<Rightarrow> nat \<Rightarrow> nat" where
  "batchLimit budget executed =
     (if budget = 0 then runBatchInstructions else min runBatchInstructions (budget - executed))"

definition runBatch :: "nat \<Rightarrow> backend \<Rightarrow> (batch \<times> backend) option" where
  "runBatch n b = (if mode b = ModeThumb then Some (runThumb n b) else runARM n b)"

text \<open>
  The loop of \<open>Run\<close>: \<open>budget = 0\<close> means no limit.  Running out of fuel is \<open>None\<close>; a run
  without a budget may never end.
\<close>

fun runLoop :: "nat \<Rightarrow> (nat \<Rightarrow> hostPoll) \<Rightarrow> nat \<Rightarrow> nat \<Rightarrow> nat \<Rightarrow> backend \<Rightarrow> (Result \<times> backend) option" where
  "runLoop fuel polls k budget executed b =
     (if budget \<noteq> 0 \<and> budget \<le> executed then
        (case pollHost (polls k) executed b of
           (Some r, b) \<Rightarrow> Some (r, b)
         | (None, b) \<Rightarrow> Some (runResult StopBudget executed None b, b))
      else case fuel of
        0 \<Rightarrow> None
      | Suc fuel \<Rightarrow>
          (case pollHost (polls k) executed b of
             (Some r, b) \<Rightarrow> Some (r, b)
           | (None, b) \<Rightarrow>
               (case runBatch (batchLimit budget executed) b of
                    None \<Rightarrow> None
                  | Some (t, b) \<Rightarrow>
                      let executed = executed + retired t in
                      (case batch_err t of
                         Some e \<Rightarrow>
                           (let (handled, b') = handleCurrentMMUFault e b in
                            if handled then runLoop fuel polls (Suc k) budget executed b'
                            else Some (runResult StopFault executed (Some e) b', b'))
                       | None \<Rightarrow>
                           (case batch_reason t of
                              Some reason \<Rightarrow> Some (runResult reason executed None b, b)
                            | None \<Rightarrow> runLoop fuel polls (Suc k) budget executed b)))))"

declare runLoop.simps [simp del]

text \<open>The two ways a turn of the loop goes.\<close>

lemma runLoop_end:
  assumes "(budget \<noteq> 0 \<and> budget \<le> executed) \<or> pollHost (polls k) executed b = (Some r', s')"
  shows "runLoop (Suc fuel) polls k budget executed b =
    (case pollHost (polls k) executed b of
       (Some r, s) \<Rightarrow> Some (r, s) | (None, s) \<Rightarrow> Some (runResult StopBudget executed None s, s))"
  using assms by (auto simp: runLoop.simps [of "Suc fuel"])

lemma runLoop_step:
  assumes "budget = 0 \<or> executed < budget" and "pollHost (polls k) executed b = (None, s)"
  shows "runLoop (Suc fuel) polls k budget executed b =
    (case runBatch (batchLimit budget executed) s of
       None \<Rightarrow> None
     | Some (t, u) \<Rightarrow>
         (case batch_err t of
            Some e \<Rightarrow>
              (if fst (handleCurrentMMUFault e u)
               then runLoop fuel polls (Suc k) budget (executed + retired t) (snd (handleCurrentMMUFault e u))
               else Some (runResult StopFault (executed + retired t) (Some e) (snd (handleCurrentMMUFault e u)),
                      snd (handleCurrentMMUFault e u)))
          | None \<Rightarrow>
              (case batch_reason t of
                 Some reason \<Rightarrow> Some (runResult reason (executed + retired t) None u, u)
               | None \<Rightarrow> runLoop fuel polls (Suc k) budget (executed + retired t) u)))"
  using assms by (auto simp: runLoop.simps [of "Suc fuel"] Let_def split_beta split: option.split)

definition startRun :: "u32 \<Rightarrow> Mode \<Rightarrow> backend \<Rightarrow> backend" where
  "startRun address m b =
     (setReg RegisterPC address (setModeFlag (b\<lparr>mode := m\<rparr>)))\<lparr>stopped := False\<rparr>"

definition misaligned :: "u32 \<Rightarrow> Mode \<Rightarrow> bool" where
  "misaligned address m \<longleftrightarrow>
     m = ModeARM \<and> address AND 3 \<noteq> 0 \<or> m = ModeThumb \<and> address AND 1 \<noteq> 0"

definition Run ::
  "nat \<Rightarrow> (nat \<Rightarrow> hostPoll) \<Rightarrow> u32 \<Rightarrow> Mode \<Rightarrow> nat \<Rightarrow> backend \<Rightarrow> (Result \<times> backend) option" where
  "Run fuel polls address m budget b =
     (if closed b
      then Some (\<lparr>Reason = StopFault, Instructions = 0, result_PC = address, result_Err = Some ErrClosed\<rparr>, b)
      else if misaligned address m
      then Some (\<lparr>Reason = StopFault, Instructions = 0, result_PC = address,
                 result_Err = Some ErrInvalidAddress\<rparr>, b)
      else runLoop fuel polls 0 budget 0 (startRun address m b))"

definition Stop :: "backend \<Rightarrow> unit res" where
  "Stop b = (Inr (), b\<lparr>stopped := True\<rparr>)"

definition Close :: "backend \<Rightarrow> unit res" where
  "Close b =
     (if closed b then (Inr (), b)
      else
        let b = b\<lparr>closed := True, interruptLines := 0, regions := [], systemBus := None,
                  physicalAccess := False, executionTraps := [], mmuTLBTable := None,
                  instructionCacheTable := None\<rparr>;
            b = invalidateInstructionWindow b;
            b = clearDataCaches (b\<lparr>regionHints := (\<lambda>_. 0), executeData := None\<rparr>)
        in (Inr (), b\<lparr>mapped := 0\<rparr>))"

end
