(* ===== verification/Cpu_Instructions.thy ===== *)
theory Cpu_Instructions
  imports Cpu_Run
begin

text \<open>
  What every instruction and every run keeps, proved once.  The locale states the laws a
  relation between machine states has to satisfy on the primitive updates that
  instructions are made of: register, flag and mode updates, memory accesses, status
  transfers, exception entry, CP15.  Inside it, each ARM and Thumb instruction, each loop
  and \<open>Run\<close> itself satisfy the relation.  The theories on application guests and on the
  machine invariant interpret it.
\<close>

subsection \<open>Errors and register numbers\<close>

definition mmu_error :: "cpu_error \<Rightarrow> bool" where
  "mmu_error e = (case e of ErrMMU _ \<Rightarrow> True | _ \<Rightarrow> False)"

lemma mmu_error_simps [simp]:
  "mmu_error (ErrMMU f)" "\<not> mmu_error ErrUnsupportedInstruction" "\<not> mmu_error (ErrText t)"
  by (simp_all add: mmu_error_def)

lemma handle_not_mmu:
  "\<not> mmu_error e \<Longrightarrow> handleMMUFault e pc b = (False, b)"
  "\<not> mmu_error e \<Longrightarrow> handleCurrentMMUFault e b = (False, b)"
  by (cases e; simp add: mmu_error_def handleMMUFault_def handleCurrentMMUFault_def)+

lemma handle_mmu:
  assumes "mmu_error e"
  shows "\<exists>f v l. e = ErrMMU f \<and> handleMMUFault e pc b = (True, enterException processorModeAbort v l b)"
    "\<exists>f v l. e = ErrMMU f \<and> handleCurrentMMUFault e b = (True, enterException processorModeAbort v l b)"
  using assms
  by (cases e; auto simp: mmu_error_def handleMMUFault_def handleCurrentMMUFault_def Let_def; fail)+

lemma small_and: "(m :: u32) < 16 \<Longrightarrow> x AND m \<noteq> 16"
  using word_and_le1 [of x m] by (metis leD)

lemma field_registers [simp]:
  "tfield n 7 i \<noteq> 16" "tfield n 1 i \<noteq> 16" "afield n 0xf j \<noteq> 16" "(j :: u32) AND 0xf \<noteq> 16"
  by (simp_all add: tfield_def afield_def small_and)

lemma high_registers [simp]: "tfield n 7 i OR push_bit 3 (tfield k 1 j) \<noteq> 16"
proof -
  have "\<not> bit (tfield n 7 i OR push_bit 3 (tfield k 1 j)) 4"
    by (simp add: tfield_def bit_or_iff bit_and_iff bit_push_bit_iff)
  moreover have "bit (16 :: u32) 4" by simp
  ultimately show ?thesis by metis
qed

lemma registerList_ne16: "n \<le> 16 \<Longrightarrow> r \<in> set (registerList l n) \<Longrightarrow> r \<noteq> 16"
  by (auto simp: registerList_props(2) word_unat_eq_iff unat_of_nat)

lemma named_registers [simp]:
  "RegisterPC \<noteq> 16" "RegisterLR \<noteq> 16" "RegisterSP \<noteq> 16" "RegisterR0 \<noteq> 16" "RegisterR1 \<noteq> 16"
  by (simp_all add: register_defs)

lemma resolved_clean [simp]: "\<not> flags_dirty (flags (resolveFlags b))"
  by (simp add: resolveFlags_def noFlags_def)

lemma writeProgramStatus_error: "fst (writeProgramStatus saved f v b) = Inl e \<Longrightarrow> \<not> mmu_error e"
  by (auto simp: writeProgramStatus_def Let_def split_beta split: option.splits if_splits)

text \<open>A mode has a saved status exactly when exceptions enter it.\<close>

lemma savedStatus_iff: "savedStatus m b \<noteq> None \<longleftrightarrow> exceptionMode m"
  by (cases m) (simp_all add: savedStatus_def)

lemma savedStatus_Some: "savedStatus m b = Some st \<Longrightarrow> exceptionMode m"
  using savedStatus_iff [of m b] by simp

lemma exceptionMode_iff: "exceptionMode m \<longleftrightarrow> m \<noteq> processorModeUser \<and> m \<noteq> processorModeSystem"
  by (cases m) simp_all

text \<open>Registers other than CPSR do not select the processor mode.\<close>

lemma mode_setReg [simp]: "r \<noteq> 16 \<Longrightarrow> currentProcessorMode (setReg r v b) = currentProcessorMode b"
  by (simp add: currentProcessorMode_def register_defs)

lemma mode_writeUser [simp]:
  "r \<noteq> 16 \<Longrightarrow> currentProcessorMode (writeUserRegister r v b) = currentProcessorMode b"
  by (auto simp: writeUserRegister_def Let_def currentProcessorMode_def register_defs setReg_def)

lemma mode_read32:
  "read32 a p b = (x, s) \<Longrightarrow> currentProcessorMode s = currentProcessorMode b"
  using access_frameD(1) [OF read32_frame [of b a p]] by (simp add: currentProcessorMode_def)

lemma mode_ldmLoop:
  "16 \<notin> set rs \<Longrightarrow> currentProcessorMode (snd (ldmLoop u rs a l b)) = currentProcessorMode b"
proof (induction rs arbitrary: a l b)
  case (Cons r rs)
  obtain x s where x: "read32 a PermissionRead b = (x, s)" by fastforce
  then show ?case using Cons mode_read32 [OF x] by (cases x) auto
qed simp

text \<open>No operation of the processor attaches or detaches a bus.\<close>

lemma bus_updates [simp]:
  "systemBus (setReg r v b) = systemBus b" "systemBus (setModeFlag b) = systemBus b"
  "systemBus (writeUserRegister r v b) = systemBus b"
  "systemBus (enterException m vec l b) = systemBus b"
  "systemBus (snd (writeProgramStatus saved f v b)) = systemBus b"
  by (auto simp: setReg_def setModeFlag_def writeUserRegister_def Let_def enterException_def
      writeProgramStatus_def split_beta split: option.split)

text \<open>CP15 writes reach control registers and caches only.\<close>

definition core_frame :: "backend \<Rightarrow> backend \<Rightarrow> bool" where
  "core_frame b b' \<longleftrightarrow> regs b' = regs b \<and> flags b' = flags b \<and> mode b' = mode b \<and> banks b' = banks b \<and>
     spsr b' = spsr b \<and> regions b' = regions b \<and> mapped b' = mapped b \<and> memoryLimit b' = memoryLimit b \<and>
     closed b' = closed b \<and> executionTraps b' = executionTraps b \<and> interruptLines b' = interruptLines b \<and>
     (systemBus b' = None \<longleftrightarrow> systemBus b = None)"

interpretation core: frame_relation core_frame
  by unfold_locales (auto simp: core_frame_def)

lemma core_access: "access_frame b b' \<Longrightarrow> core_frame b b'"
  by (simp add: access_frame_def core_frame_def)

lemma core_caches:
  "core_frame b (clearDataCaches b)" "core_frame b (b\<lparr>executeData := None\<rparr>)" "core_frame b (b\<lparr>cp15 := c\<rparr>)"
  "core_frame b (invalidateTLB b)" "core_frame b (invalidateInstructionCache b)"
  "core_frame b (invalidateTranslations b)" "core_frame b (setCP15Control v b)"
  "core_frame b (invalidateInstructionCacheMVA a b)"
  by (auto simp: core_frame_def clearDataCaches_def invalidateTLB_def invalidateInstructionCache_def
      invalidateTranslations_def invalidateInstructionWindow_def setCP15Control_def refreshPhysicalAccess_def
      invalidateInstructionCacheMVA_def setICEntry_def Let_def split: option.split)

lemma core_prefetch: "core_frame b (snd (prefetchInstructionCacheLine a b))"
  unfolding prefetchInstructionCacheLine_def
  by (auto intro!: core_access access.and_then_frame loadInstructionCacheLine_frame)

lemma core_split:
  "(c \<Longrightarrow> core_frame b (snd x)) \<Longrightarrow> (\<not> c \<Longrightarrow> core_frame b (snd y)) \<Longrightarrow> core_frame b (snd (if c then x else y))"
  by simp

lemma core_writeCP15: "core_frame b (snd (writeCP15 crn crm op2 v b))"
  unfolding writeCP15_def Let_def
  by (intro core_split core_prefetch;
      simp add: core_frame_def core_caches [unfolded core_frame_def])

lemma core_records:
  "core_frame b (recordCP15ControlAccess pc v w b)" "core_frame b (recordInstructionCachePrefetch pc a b)"
  by (simp_all add: core_frame_def recordCP15ControlAccess_def recordInstructionCachePrefetch_def split_beta)

text \<open>
  What MRC and MCR do to the rest of the machine: a transfer writes a register, or the flags
  field of CPSR, or nothing.
\<close>

lemma executeCP15_cases:
  obtains (none) "core_frame b (snd (executeCP15 pc i b))"
  | (reg) r v where "r \<noteq> 16" "core_frame (setReg r v b) (snd (executeCP15 pc i b))"
  | (flag) v where "core_frame (setReg RegisterCPSR ((regs (resolveFlags b) RegisterCPSR AND NOT 0xf0000000) OR
      (v AND 0xf0000000)) (resolveFlags b)) (snd (executeCP15 pc i b))"
proof (cases "(ucast (afield 8 0xf i) :: u8) \<noteq> 15 \<or> (ucast (drop_bit 21 i) :: u8) AND 7 \<noteq> 0 \<or> systemBus b = None")
  case True
  then have "snd (executeCP15 pc i b) = b"
    unfolding executeCP15_def Let_def unsupportedARM_def by auto
  then show thesis using none core.frame_refl by simp
next
  case cop: False
  define rd where "rd = afield 12 0xf i"
  have rd: "rd \<noteq> 16" by (simp add: rd_def)
  note dec = executeCP15_def Let_def unsupportedARM_def rd_def [symmetric]
  show thesis
  proof (cases "abit 20 i")
    case True
    show thesis
    proof (cases "readCP15 (ucast (afield 16 0xf i)) (ucast (i AND 0xf)) ((ucast (drop_bit 5 i) :: u8) AND 7) b")
      case (Inl e)
      then have "snd (executeCP15 pc i b) = b" using cop True by (simp add: dec)
      then show thesis using none core.frame_refl by simp
    next
      case (Inr v)
      define t where "t = (if rd = RegisterPC
        then setReg RegisterCPSR ((regs (resolveFlags b) RegisterCPSR AND NOT 0xf0000000) OR
          (v AND 0xf0000000)) (resolveFlags b) else setReg rd v b)"
      have "snd (executeCP15 pc i b) =
          (if (ucast (afield 16 0xf i) :: u8) = 1 \<and> (ucast (i AND 0xf) :: u8) = 0 \<and> (ucast (drop_bit 5 i) :: u8) AND 7 = 0
           then recordCP15ControlAccess pc v False t else t)"
        using Inr cop True by (auto simp: dec t_def)
      then have t: "core_frame t (snd (executeCP15 pc i b))"
        using core_records(1) core.frame_refl by simp
      show thesis
        using reg [OF rd, of v] flag [of v] t by (cases "rd = RegisterPC") (simp_all add: t_def)
    qed
  next
    case mcr: False
    have tail: "core_frame b (snd (and_then (writeCP15 crn crm op2 v b) (\<lambda>_ s.
        (Inr (), if d then recordCP15ControlAccess pc v True (if c then recordInstructionCachePrefetch pc v s else s)
         else if c then recordInstructionCachePrefetch pc v s else s))))" for crn crm op2 v c d
      by (rule core.and_then_frame [OF core_writeCP15])
        (simp add: core.frame_refl core_records core.frame_trans [OF core_records(2) core_records(1)])
    then have "core_frame b (snd (executeCP15 pc i b))"
      using cop mcr core.frame_refl by (simp add: dec)
    then show thesis by (rule none)
  qed
qed

lemma bus_executeCP15: "systemBus (snd (executeCP15 pc i b)) = None \<longleftrightarrow> systemBus b = None"
  by (rule executeCP15_cases [of b pc i]) (auto simp: core_frame_def)

subsection \<open>The laws\<close>

named_theorems keep_rules

locale instruction_frame = frame_relation R for R :: "backend \<Rightarrow> backend \<Rightarrow> bool" +
  fixes bad :: "backend \<Rightarrow> cpu_error \<Rightarrow> bool"
  assumes bus_law: "R b b' \<Longrightarrow> systemBus b' = None \<longleftrightarrow> systemBus b = None"
    and bad_step: "R b b' \<Longrightarrow> bad b e \<Longrightarrow> bad b' e"
    and bad_mmu: "bad b e \<Longrightarrow> mmu_error e"
    and bad_bus: "bad b e \<Longrightarrow> systemBus b = None"
    and setReg_law: "r \<noteq> 16 \<Longrightarrow> R b (setReg r v b)"
    and lazy_law: "R b (lazy_update u b)"
    and resolve_law: "R b (resolveFlags b)"
    and nz_law: "(\<And>i. i < 28 \<Longrightarrow> bit v i = bit (regs b RegisterCPSR) i) \<Longrightarrow>
      \<not> flags_dirty (flags b) \<Longrightarrow> R b (setReg RegisterCPSR v b)"
    and mode_law: "R b (setModeFlag (b\<lparr>mode := m\<rparr>))"
    and host_law: "R b (b\<lparr>pcHits := h\<rparr>)" "R b (b\<lparr>pcHistory := ring, pcHistoryNext := n\<rparr>)"
      "R b (b\<lparr>pcRegisterCaptures := c\<rparr>)" "R b (b\<lparr>stopped := s\<rparr>)" "R b (b\<lparr>instructionAddress := a\<rparr>)"
    and read_law: "R b (snd (read8 a p b))" "R b (snd (read16 a p b))" "R b (snd (read32 a p b))"
      "R b (snd (fetch16 a b))" "R b (snd (fetch32 a b))"
    and write_law: "vs \<noteq> [] \<Longrightarrow> R b (snd (writeRouted a vs PermissionWrite b))"
      "R b (snd (copyIn a vs PermissionWrite b))"
    and access_error: "fst (read8 a p b) = Inl e \<Longrightarrow> \<not> bad b e" "fst (read16 a p b) = Inl e \<Longrightarrow> \<not> bad b e"
      "fst (read32 a p b) = Inl e \<Longrightarrow> \<not> bad b e" "fst (fetch16 a b) = Inl e \<Longrightarrow> \<not> bad b e"
      "fst (fetch32 a b) = Inl e \<Longrightarrow> \<not> bad b e"
      "vs \<noteq> [] \<Longrightarrow> fst (writeRouted a vs PermissionWrite b) = Inl e \<Longrightarrow> \<not> bad b e"
    and status_law: "programStatusWriteAllowed saved f b \<or> exceptionMode (currentProcessorMode b) \<Longrightarrow>
      R b (snd (writeProgramStatus saved f v b))"
    and user_law: "r \<noteq> 16 \<Longrightarrow> currentProcessorMode b \<noteq> processorModeUser \<Longrightarrow>
      currentProcessorMode b \<noteq> processorModeSystem \<Longrightarrow> R b (writeUserRegister r v b)"
    and exception_law: "R b b' \<Longrightarrow> systemBus b \<noteq> None \<or> (\<exists>e. mmu_error e \<and> \<not> bad b e) \<Longrightarrow>
      exceptionMode pm \<Longrightarrow> R b (enterException pm vec l b')"
    and cp15_law: "systemBus b \<noteq> None \<Longrightarrow> R b (snd (executeCP15 pc i b))"
begin

text \<open>An outcome keeps the relation, and its error is none of those excluded before.\<close>

definition keeps :: "backend \<Rightarrow> 'a res \<Rightarrow> bool" where
  "keeps b res \<longleftrightarrow> R b (snd res) \<and> (\<forall>e. fst res = Inl e \<longrightarrow> \<not> bad b e)"

lemma keeps_Inr [keep_rules]: "R b b' \<Longrightarrow> keeps b (Inr v, b')"
  by (simp add: keeps_def)

lemma keeps_Inl [keep_rules]: "\<not> mmu_error e \<Longrightarrow> R b b' \<Longrightarrow> keeps b (Inl e, b')"
  using bad_mmu by (auto simp: keeps_def)

lemma keeps_trans: "R b b' \<Longrightarrow> keeps b' res \<Longrightarrow> keeps b res"
  using frame_trans bad_step by (auto simp: keeps_def)

lemma keeps_and_then [keep_rules]:
  assumes "keeps b r" and "\<And>v s. r = (Inr v, s) \<Longrightarrow> keeps s (k v s)"
  shows "keeps b (and_then r k)"
proof (cases r)
  case (Pair x s)
  show ?thesis
  proof (cases x)
    case (Inl e)
    with Pair assms(1) show ?thesis by (simp add: keeps_def)
  next
    case (Inr v)
    have "R b s" using assms(1) Pair by (simp add: keeps_def)
    with Pair Inr assms(2) keeps_trans show ?thesis by simp
  qed
qed

lemma keeps_split [keep_rules]:
  "(c \<Longrightarrow> keeps b x) \<Longrightarrow> (\<not> c \<Longrightarrow> keeps b y) \<Longrightarrow> keeps b (if c then x else y)"
  "(\<And>u v. p = (u, v) \<Longrightarrow> keeps b (f u v)) \<Longrightarrow> keeps b (case p of (u, v) \<Rightarrow> f u v)"
  by (simp_all add: split_beta)

lemma R_split [keep_rules]: "(c \<Longrightarrow> R b s) \<Longrightarrow> (\<not> c \<Longrightarrow> R b t) \<Longrightarrow> R b (if c then s else t)"
  by simp

lemma keeps_done [keep_rules]: "R b b' \<Longrightarrow> keeps b (done_step b')"
  by (simp add: done_step_def keeps_Inr)

lemma keeps_unsupported [keep_rules]:
  "R b b' \<Longrightarrow> keeps b (unsupportedThumb b')" "R b b' \<Longrightarrow> keeps b (unsupportedARM b')"
  by (simp_all add: unsupportedThumb_def unsupportedARM_def keeps_Inl)

subsubsection \<open>Primitive updates, after other updates\<close>

lemma R_updates [keep_rules]:
  "R b b' \<Longrightarrow> r \<noteq> 16 \<Longrightarrow> R b (setReg r v b')"
  "R b b' \<Longrightarrow> R b (resolveFlags b')"
  "R b b' \<Longrightarrow> R b (setModeFlag (b'\<lparr>mode := m\<rparr>))"
  by (erule frame_trans, simp add: setReg_law resolve_law mode_law)+

lemma R_flags [keep_rules]:
  "R b b' \<Longrightarrow> R b (setNZ v b')" "R b b' \<Longrightarrow> R b (setNZC v c b')" "R b b' \<Longrightarrow> R b (setNZCV v c f b')"
  using frame_trans [OF _ lazy_law [of b' "UpdNZ v"]] frame_trans [OF _ lazy_law [of b' "UpdNZC v c"]]
    frame_trans [OF _ lazy_law [of b' "UpdNZCV v c f"]]
  by simp_all

lemma R_branchExchange [keep_rules]: "R b b' \<Longrightarrow> R b (branchExchange t b')"
  unfolding branchExchange_def by (auto intro!: R_updates)

lemma keeps_memory:
  "keeps b (read8 a p b)" "keeps b (read16 a p b)" "keeps b (read32 a p b)" "keeps b (fetch16 a b)"
  "keeps b (fetch32 a b)" "keeps b (write8 a v8 PermissionWrite b)" "keeps b (write16 a v16 PermissionWrite b)"
  "keeps b (write32 a v32 PermissionWrite b)"
proof -
  show "keeps b (read8 a p b)" "keeps b (read16 a p b)" "keeps b (read32 a p b)" "keeps b (fetch16 a b)"
    "keeps b (fetch32 a b)"
    using read_law access_error by (auto simp: keeps_def)
  have "vs \<noteq> [] \<Longrightarrow> keeps b (writeRouted x vs PermissionWrite b)" for x vs
    using write_law(1) access_error(6) by (auto simp: keeps_def)
  then show "keeps b (write8 a v8 PermissionWrite b)" "keeps b (write16 a v16 PermissionWrite b)"
    "keeps b (write32 a v32 PermissionWrite b)"
    by (simp_all add: write8_def write16_def write32_align)
qed

lemma keeps_accesses [keep_rules]:
  assumes "R b b'"
  shows "keeps b (read8 a p b')" "keeps b (read16 a p b')" "keeps b (read32 a p b')"
    "keeps b (fetch16 a b')" "keeps b (fetch32 a b')"
    "keeps b (write8 a v8 PermissionWrite b')" "keeps b (write16 a v16 PermissionWrite b')"
    "keeps b (write32 a v32 PermissionWrite b')"
  by (rule keeps_trans [OF assms], rule keeps_memory)+

lemma R_semihosting [keep_rules]: "R b b' \<Longrightarrow> R b (snd (handleSemihosting b'))"
proof -
  have "R s (semihostingRead s)" for s
  proof -
    obtain r1 s1 where 1: "read32 (regs s 1 + 4) PermissionRead s = (r1, s1)" by fastforce
    obtain r2 s2 where 2: "read32 (regs s 1 + 8) PermissionRead s1 = (r2, s2)" by fastforce
    have "R s s1" "R s1 s2"
      using read_law(3) [of s "regs s 1 + 4" PermissionRead] read_law(3) [of s1 "regs s 1 + 8" PermissionRead]
      by (simp_all add: 1 2)
    then have "R s s2" by (rule frame_trans)
    moreover from this have "R s (snd (copyIn a vs PermissionWrite s2))" for a vs
      using write_law(2) by (rule frame_trans)
    ultimately show ?thesis
      by (auto simp: semihostingRead_def Let_def 1 2 split: sum.split intro!: R_updates)
  qed
  then have "R s (snd (handleSemihosting s))" for s
    by (auto simp: handleSemihosting_def Let_def intro!: R_updates frame_refl)
  then show "R b b' \<Longrightarrow> R b (snd (handleSemihosting b'))" using frame_trans by blast
qed

lemma keeps_swi:
  "keeps b (if systemBus b \<noteq> None then done_step (enterException processorModeSupervisor vec l b)
     else (Inr (Some StopBreakpoint), b))"
  by (auto intro!: keeps_done keeps_Inr exception_law [OF frame_refl] frame_refl)

lemma keeps_condition [keep_rules]:
  "(\<And>p. keeps b (f p (resolveFlags b))) \<Longrightarrow> keeps b (case conditionPassed c b of (p, s) \<Rightarrow> f p s)"
  by (simp add: split_beta)

subsubsection \<open>Thumb instructions\<close>

lemma keeps_loadReg [keep_rules]: "keeps b r \<Longrightarrow> rd \<noteq> 16 \<Longrightarrow> keeps b (loadReg rd r)"
  unfolding loadReg_def by (auto intro!: keep_rules frame_refl)

lemma keeps_after_store [keep_rules]: "keeps b r \<Longrightarrow> keeps b (after_store r)"
  unfolding after_store_def by (auto intro!: keep_rules frame_refl)

lemma keeps_load [keep_rules]:
  "R b b' \<Longrightarrow> keeps b (load8 f a b')" "R b b' \<Longrightarrow> keeps b (load16 g a b')"
  unfolding load8_def load16_def by (auto intro!: keep_rules frame_refl)

lemma keeps_storeRegisters: "keeps b (storeRegisters rs a b)"
proof (induction rs arbitrary: a b)
  case (Cons r rs)
  then show ?case by (auto intro!: keep_rules frame_refl)
qed (simp add: keep_rules frame_refl)

lemma keeps_loadRegisters: "16 \<notin> set rs \<Longrightarrow> keeps b (loadRegisters rs a b)"
proof (induction rs arbitrary: a b)
  case (Cons r rs)
  have "keeps s (loadRegisters rs (a + 4) (setReg r v s))" for v s
  proof (rule keeps_trans)
    show "R s (setReg r v s)" using Cons.prems by (intro keep_rules frame_refl) auto
    show "keeps (setReg r v s) (loadRegisters rs (a + 4) (setReg r v s))" using Cons by simp
  qed
  then show ?case by (auto intro!: keep_rules frame_refl)
qed (simp add: keep_rules frame_refl)

lemma keeps_registerLists [keep_rules]:
  "R b b' \<Longrightarrow> keeps b (storeRegisters rs a b')"
  "R b b' \<Longrightarrow> keeps b (loadRegisters (registerList l 8) a b')"
proof -
  have "16 \<notin> set (registerList l 8)" using registerList_ne16 [of 8 16 l] by auto
  then have load: "keeps b' (loadRegisters (registerList l 8) a b')" by (rule keeps_loadRegisters)
  show "R b b' \<Longrightarrow> keeps b (storeRegisters rs a b')"
    by (erule keeps_trans) (rule keeps_storeRegisters)
  show "R b b' \<Longrightarrow> keeps b (loadRegisters (registerList l 8) a b')"
    by (erule keeps_trans) (rule load)
qed

lemma keeps_thumb_data:
  "keeps b (execShiftImmediate i b)" "keeps b (execMoveImmediate i b)"
  "keeps b (execCompareImmediate i b)" "keeps b (execAddImmediate i b)"
  "keeps b (execSubtractImmediate i b)" "keeps b (execAddSubtract i b)"
  "keeps b (execAdjustStack i b)" "keeps b (execAddPCSP pc i b)"
  unfolding execShiftImmediate_def execMoveImmediate_def execCompareImmediate_def execAddImmediate_def
    execSubtractImmediate_def execAddSubtract_def execAdjustStack_def execAddPCSP_def Let_def
  by (intro keep_rules frame_refl; simp)+

lemma keeps_execALU: "keeps b (execALU i b)"
  unfolding execALU_def Let_def by (intro keep_rules frame_refl; simp)

lemma keeps_execHighRegister: "keeps b (execHighRegister pc i b)"
  unfolding execHighRegister_def Let_def by (intro keep_rules frame_refl; simp)

lemma keeps_thumb_transfer:
  "keeps b (execLiteralLoad pc i b)" "keeps b (execRegisterTransfer i b)"
  "keeps b (execImmediateTransfer i b)" "keeps b (execHalfwordTransfer i b)"
  "keeps b (execStackTransfer i b)"
  unfolding execLiteralLoad_def execRegisterTransfer_def execImmediateTransfer_def
    execHalfwordTransfer_def execStackTransfer_def Let_def
  by (intro keep_rules frame_refl; simp)+

lemma keeps_thumb_block:
  "keeps b (execPush i b)" "keeps b (execPop i b)" "keeps b (execMultipleTransfer i b)"
  unfolding execPush_def execPop_def execMultipleTransfer_def Let_def
  by (intro keep_rules frame_refl; simp)+

lemma keeps_thumb_branch:
  "keeps b (execConditionalBranch pc i b)" "keeps b (execLongBranch pc i b)"
  "keeps b (execUnconditionalBranch pc i b)"
proof -
  show "keeps b (execConditionalBranch pc i b)"
    unfolding execConditionalBranch_def Let_def
    by (rule keeps_split(1), rule keeps_split(1))
      (intro keeps_swi keeps_condition keep_rules frame_refl; simp)+
  show "keeps b (execLongBranch pc i b)" "keeps b (execUnconditionalBranch pc i b)"
    unfolding execLongBranch_def execUnconditionalBranch_def Let_def
    by (intro keep_rules frame_refl; simp)+
qed

lemma keeps_executeThumb: "keeps b (executeThumb pc i b)"
  unfolding executeThumb_def
  by (cases "thumbInstructionClasses i")
    (simp_all add: keeps_thumb_data keeps_execALU keeps_execHighRegister keeps_thumb_transfer
      keeps_thumb_block keeps_thumb_branch keep_rules frame_refl)

subsubsection \<open>ARM instructions\<close>

lemma keeps_arm_branch:
  "keeps b (armBX pc i b)" "keeps b (armBLX pc i b)" "keeps b (armBLXImmediate pc i b)"
  "keeps b (armBranch pc i b)"
  unfolding armBX_def armBLX_def armBLXImmediate_def armBranch_def Let_def
  by (intro keep_rules frame_refl; simp)+

lemma keeps_arm_arith:
  "keeps b (armCLZ i b)" "keeps b (armSWP i b)" "keeps b (armMultiply i b)"
  unfolding armCLZ_def armSWP_def armMultiply_def Let_def
  by (intro keep_rules frame_refl; simp)+

text \<open>The long multiply writes N and Z to the materialised status.\<close>

lemma keeps_armMultiplyLong: "keeps b (armMultiplyLong i b)"
proof -
  have nz: "R s (setReg RegisterCPSR
      (let st = regs s RegisterCPSR AND NOT (flagN OR flagZ); st = (if c then st OR flagZ else st)
       in if d then st OR flagN else st) s)" if "\<not> flags_dirty (flags s)" for s c d
    by (rule nz_law [OF _ that])
      (auto simp: Let_def bit_or_iff bit_and_iff bit_not_iff dest: bit_imp_le_length)
  have fin: "keeps b (if f then done_step (setReg RegisterCPSR
      (let st = regs (resolveFlags s) RegisterCPSR AND NOT (flagN OR flagZ); st = (if c then st OR flagZ else st)
       in if d then st OR flagN else st) (resolveFlags s)) else done_step s)"
    if "R b s" for f c d s
    using that frame_trans [OF R_updates(2) [OF that] nz [OF resolved_clean]]
    by (auto intro: keep_rules)
  show ?thesis
    unfolding armMultiplyLong_def Let_def
    by (rule keeps_split(1), (intro keep_rules frame_refl)?)
      (intro fin [unfolded Let_def] keep_rules frame_refl; simp)
qed

lemma keeps_halfwordAccess:
  assumes "rd \<noteq> 16" and "rd + 1 \<noteq> 16 \<or> load \<or> operation \<noteq> 2"
  shows "keeps b (halfwordAccess load operation rd a b)"
  unfolding halfwordAccess_def
  by (intro keep_rules frame_refl; use assms in auto)

lemma keeps_armHalfword: "keeps b (armHalfword pc i b)"
proof -
  have "rd + 1 \<noteq> 16" if "\<not> RegisterPC \<le> rd + 1" for rd :: u32
    using that by (auto simp: register_defs)
  then show ?thesis
    unfolding armHalfword_def Let_def
    by (intro keep_rules frame_refl keeps_halfwordAccess) auto
qed

lemma keeps_wordAccess: "rd \<noteq> 16 \<Longrightarrow> keeps b (wordAccess load byte rd a pc b)"
  unfolding wordAccess_def Let_def loadTarget_def by (intro keep_rules frame_refl; simp)

lemma keeps_armTransfer: "keeps b (armTransfer pc i b)"
  unfolding armTransfer_def Let_def
  by (cases "transferOffset pc i b")
    (auto intro!: keep_rules frame_refl keeps_wordAccess)

lemma keeps_readProgramStatus: "keeps b (readProgramStatus saved b)"
  unfolding readProgramStatus_def Let_def
  by (auto split: option.split intro!: keep_rules frame_refl)

lemma keeps_writeProgramStatus:
  "programStatusWriteAllowed saved f b \<or> exceptionMode (currentProcessorMode b) \<Longrightarrow>
     keeps b (writeProgramStatus saved f v b)"
  unfolding keeps_def by (metis status_law writeProgramStatus_error bad_mmu)

lemma keeps_armStatus:
  "keeps b (armMRS i b)" "keeps b (armMSRRegister i b)" "keeps b (armMSRImmediate i b)"
  unfolding armMRS_def armMSRRegister_def armMSRImmediate_def Let_def
  by (intro keep_rules keeps_readProgramStatus keeps_writeProgramStatus frame_refl; auto)+

lemma keeps_writeDataResult: "rd \<noteq> 16 \<Longrightarrow> keeps b (writeDataResult rd r b)"
  unfolding writeDataResult_def Let_def
  by (auto split: option.split if_splits intro!: keep_rules frame_refl keeps_writeProgramStatus
      dest: savedStatus_Some)

lemma keeps_armDataProcessing: "keeps b (armDataProcessing pc i b)"
proof (cases "shifterOperand pc i b")
  case None
  then show ?thesis unfolding armDataProcessing_def by (simp add: keep_rules frame_refl)
next
  case (Some p)
  obtain x c where "p = (x, c)" by (cases p)
  with Some show ?thesis
    unfolding armDataProcessing_def Let_def
    by (simp) (intro keep_rules keeps_writeDataResult frame_refl; simp)
qed

lemma keeps_ldmLoop:
  "16 \<notin> set rs \<Longrightarrow> u \<longrightarrow> exceptionMode (currentProcessorMode b) \<Longrightarrow> keeps b (ldmLoop u rs a l b)"
proof (induction rs arbitrary: a l b)
  case (Cons r rs)
  have r: "r \<noteq> 16" using Cons.prems(1) by auto
  have put: "keeps s (ldmLoop u rs x l (if u then writeUserRegister r v s else setReg r v s))"
    if "currentProcessorMode s = currentProcessorMode b" for v s x
  proof (rule keeps_trans)
    show "R s (if u then writeUserRegister r v s else setReg r v s)"
      using r that Cons.prems(2) by (auto simp: exceptionMode_iff intro!: user_law setReg_law)
    show "keeps (if u then writeUserRegister r v s else setReg r v s)
        (ldmLoop u rs x l (if u then writeUserRegister r v s else setReg r v s))"
      using r that Cons by simp
  qed
  have skip: "keeps s (ldmLoop u rs x k s)" if "currentProcessorMode s = currentProcessorMode b" for s x k
    using that Cons by simp
  show ?case
    using put skip mode_read32 by (auto intro!: keep_rules frame_refl)
qed (simp add: keep_rules frame_refl)

lemma keeps_stmLoop: "keeps b (stmLoop u pc rn base rs a b)"
proof (induction rs arbitrary: a b)
  case (Cons r rs)
  then show ?case by (auto intro!: keep_rules frame_refl)
qed (simp add: keep_rules frame_refl)

lemma keeps_finishLDM:
  "st = None \<or> exceptionMode (currentProcessorMode b) \<Longrightarrow> keeps b (finishLDM l st b)"
  unfolding finishLDM_def
  by (auto split: option.split intro!: keep_rules frame_refl keeps_writeProgramStatus)

lemma keeps_armBlock: "keeps b (armBlock pc i b)"
proof -
  have regs16: "16 \<notin> set (registerList l 16)" for l using registerList_ne16 [of 16 16 l] by auto
  have body: "keeps b (and_then
      (if load then ldmLoop u (registerList l 16) a None b
       else and_then (stmLoop u pc rn base (registerList l 16) a b) (\<lambda>_ b. (Inr None, b)))
      (\<lambda>loadedPC b. finishLDM loadedPC st (if c then setReg rn n b else b)))"
    if "rn \<noteq> 16" and u: "u \<longrightarrow> exceptionMode (currentProcessorMode b)"
      and st: "st \<noteq> None \<longrightarrow> load \<and> exceptionMode (currentProcessorMode b)" for load u l a rn base c n st
  proof (rule keeps_and_then)
    show "keeps b (if load then ldmLoop u (registerList l 16) a None b
       else and_then (stmLoop u pc rn base (registerList l 16) a b) (\<lambda>_ b. (Inr None, b)))"
      using regs16 [of l] u by (intro keep_rules keeps_ldmLoop keeps_stmLoop frame_refl) auto
    fix v s
    assume s: "(if load then ldmLoop u (registerList l 16) a None b
       else and_then (stmLoop u pc rn base (registerList l 16) a b) (\<lambda>_ b. (Inr None, b))) = (Inr v, s)"
    have "st \<noteq> None \<Longrightarrow> currentProcessorMode s = currentProcessorMode b"
      using s st mode_ldmLoop [OF regs16, of u l a None b] by auto
    then have "st = None \<or> exceptionMode (currentProcessorMode (if c then setReg rn n s else s))"
      using st that(1) by (cases st) auto
    then have "keeps (if c then setReg rn n s else s) (finishLDM v st (if c then setReg rn n s else s))"
      by (rule keeps_finishLDM)
    moreover have "R s (if c then setReg rn n s else s)"
      using that(1) by (intro keep_rules frame_refl)
    ultimately show "keeps s (finishLDM v st (if c then setReg rn n s else s))"
      by (rule keeps_trans [rotated])
  qed
  show ?thesis
    unfolding armBlock_def Let_def
    by (intro keeps_split(1) keeps_unsupported frame_refl body)
      (auto simp: exceptionMode_iff dest: savedStatus_Some split: if_splits)
qed

lemma keeps_executeCP15: "keeps b (executeCP15 pc i b)"
proof (cases "systemBus b = None")
  case True
  then show ?thesis by (auto simp: executeCP15_def Let_def intro!: keep_rules frame_refl)
next
  case False
  then show ?thesis using cp15_law bad_bus by (auto simp: keeps_def)
qed

lemma keeps_armSWI: "keeps b (armSWI pc i b)"
  unfolding armSWI_def by (rule keeps_split(1)) (intro keep_rules frame_refl keeps_swi)+

lemma keeps_executeARM: "keeps b (executeARM pc i b)"
  unfolding executeARM_def
  by (intro keeps_split keeps_Inr frame_refl keeps_arm_branch keeps_arm_arith
      keeps_armMultiplyLong keeps_armHalfword keeps_armStatus keeps_armDataProcessing
      keeps_armTransfer keeps_armBlock keeps_armSWI keeps_unsupported keeps_and_then
      keeps_executeCP15 keeps_done)

subsubsection \<open>Fetching, recording and whole steps\<close>

lemma keeps_fetch: "keeps b (fetchThumb pc b)" "keeps b (fetchARM pc b)"
  unfolding fetchThumb_def fetchARM_def by (intro keep_rules frame_refl)+

lemma R_recordPC: "R b (recordPC a b)"
proof -
  define b1 where "b1 = (case pcHits b of None \<Rightarrow> b
    | Some hits \<Rightarrow> b\<lparr>pcHits := Some (hits(a := hits a + 1))\<rparr>)"
  obtain ring nxt where r: "ringPut (pcHistory b1) (pcHistoryNext b1) a = (ring, nxt)" by fastforce
  define b2 where "b2 = b1\<lparr>pcHistory := ring, pcHistoryNext := nxt\<rparr>"
  have 1: "R b b1" by (auto simp: b1_def host_law frame_refl split: option.split)
  have 2: "R b1 b2" by (simp add: b2_def host_law(2))
  note step = frame_trans [OF 1 2]
  show ?thesis
    using step frame_trans [OF step frame_trans [OF resolve_law host_law(3)]]
    by (simp add: recordPC_def b1_def [symmetric] r b2_def [symmetric] Let_def)
qed

lemma keeps_stepARM: "keeps b (stepARM b)"
  unfolding stepARM_def Let_def
proof (rule keeps_and_then [OF keeps_fetch(2)])
  fix i s
  define s1 where "s1 = setReg RegisterPC (regs b RegisterPC + 4) s"
  have s1: "R s s1" unfolding s1_def by (rule setReg_law) simp
  have tail: "keeps s (if \<not> p then done_step t else executeARM pc i t)" if "R s t" for p t pc
    using that by (auto intro!: keep_rules keeps_trans [OF that keeps_executeARM])
  have "R s (resolveFlags s1)" using s1 by (rule R_updates)
  then show "keeps s
      (case if (ucast (drop_bit 28 i) :: u8) < 0xe
            then conditionPassed (ucast (drop_bit 28 i)) (setReg RegisterPC (regs b RegisterPC + 4) s)
            else (True, setReg RegisterPC (regs b RegisterPC + 4) s) of
         (passed, t) \<Rightarrow> if \<not> passed then done_step t else executeARM (regs b RegisterPC) i t)"
    using tail s1 by (auto simp: s1_def [symmetric] split_beta simp del: not_not)
qed

lemma keeps_stepThumb:
  "keeps b (and_then (fetchThumb pc b) (\<lambda>i b. executeThumb pc i (setReg RegisterPC (pc + 2) b)))"
  by (rule keeps_and_then [OF keeps_fetch(1)], rule keeps_trans [OF setReg_law keeps_executeThumb]) simp

subsubsection \<open>Batches\<close>

definition keeps_batch :: "backend \<Rightarrow> batch \<times> backend \<Rightarrow> bool" where
  "keeps_batch b r \<longleftrightarrow> R b (snd r) \<and> (\<forall>e. batch_err (fst r) = Some e \<longrightarrow> \<not> bad b e)"

lemma keeps_batch_simps [simp]:
  "keeps_batch b (batchEnd n, b') = R b b'" "keeps_batch b (batchStop n s, b') = R b b'"
  "keeps_batch b (batchError n e, b') \<longleftrightarrow> R b b' \<and> \<not> bad b e"
  "keeps_batch b (retire n r) = keeps_batch b r"
  by (auto simp: keeps_batch_def batchEnd_def batchStop_def batchError_def retire_def split_beta)

lemma keeps_batch_trans: "R b b' \<Longrightarrow> keeps_batch b' r \<Longrightarrow> keeps_batch b r"
  using frame_trans bad_step by (auto simp: keeps_batch_def)

text \<open>An abort of an access that was not excluded.\<close>

lemma R_fault:
  assumes "\<not> bad b e" and "R b s"
  shows "R b (snd (handleMMUFault e pc s))" "R b (snd (handleCurrentMMUFault e s))"
proof -
  have enter: "R b (enterException processorModeAbort v l s)" if "mmu_error e" for v l
    by (rule exception_law [OF assms(2)]) (use assms(1) that in auto)
  show "R b (snd (handleMMUFault e pc s))"
    using handle_mmu(1) [of e pc s] handle_not_mmu(1) [of e pc s] enter assms(2) by (cases "mmu_error e") auto
  show "R b (snd (handleCurrentMMUFault e s))"
    using handle_mmu(2) [of e s] handle_not_mmu(2) [of e s] enter assms(2) by (cases "mmu_error e") auto
qed

lemma R_interrupt: "R b s \<Longrightarrow> systemBus b \<noteq> None \<Longrightarrow> R b (snd (takePendingInterrupt s))"
  by (auto simp: takePendingInterrupt_def takePendingInterruptLines_def Let_def intro!: exception_law)

lemma keepsD:
  assumes "keeps b res" shows "R b (snd res)" "fst res = Inl e \<Longrightarrow> \<not> bad b e"
  using assms by (auto simp: keeps_def)

lemma keeps_thumbLoop: "keeps_batch b (thumbLoop traced n b)"
proof (induction n arbitrary: b)
  case 0
  then show ?case by (simp add: frame_refl)
next
  case (Suc n)
  define b1 where "b1 = (if traced then recordPC (regs b RegisterPC) b else b)"
  have b1: "R b b1" by (simp add: b1_def R_recordPC frame_refl)
  define pc where "pc = regs b1 RegisterPC"
  obtain r s where fetch: "fetchThumb pc b1 = (r, s)" by fastforce
  note f = keepsD [OF keeps_fetch(1) [of b1 pc], unfolded fetch, simplified]
  have "keeps_batch b1 (thumbLoop traced (Suc n) b)"
  proof (cases r)
    case (Inl e)
    then show ?thesis
      using f R_fault(1) [of b1 e s pc]
      by (simp add: Let_def b1_def [symmetric] pc_def [symmetric] fetch split_beta)
  next
    case (Inr i)
    obtain r' t where ex: "executeThumb pc i (setReg RegisterPC (pc + 2) s) = (r', t)" by fastforce
    note e = keepsD [OF keeps_stepThumb [of b1 pc], unfolded fetch Inr, simplified, unfolded ex, simplified]
    show ?thesis
      using e keeps_batch_trans [OF e(1) Suc.IH]
      by (auto simp: Let_def b1_def [symmetric] pc_def [symmetric] fetch Inr ex split: sum.split option.split)
  qed
  with b1 show ?case by (rule keeps_batch_trans)
qed

lemma keeps_thumbSystem: "systemBus b \<noteq> None \<Longrightarrow> keeps_batch b (runThumbSystem n b)"
proof (induction n arbitrary: b)
  case 0
  then show ?case by (simp add: frame_refl)
next
  case (Suc n)
  obtain taken s where s: "takePendingInterrupt b = (taken, s)" by fastforce
  have bs: "R b s" using R_interrupt [OF frame_refl Suc.prems] by (simp add: s)
  define s1 where "s1 = s\<lparr>instructionAddress := regs s RegisterPC\<rparr>"
  have s1: "R b s1" using frame_trans [OF bs host_law(5)] by (simp add: s1_def)
  obtain t u where t: "runThumbBatch (Suc 0) s1 = (t, u)" by fastforce
  have "keeps_batch s1 (t, u)" using keeps_thumbLoop [of s1 "tracing s1" 1] t by (simp add: runThumbBatch_def)
  then have tu: "keeps_batch b (t, u)" by (rule keeps_batch_trans [OF s1])
  then have "R b u" by (simp add: keeps_batch_def)
  moreover from this have "systemBus u \<noteq> None" using Suc.prems bus_law [of b u] by simp
  ultimately have "keeps_batch b (runThumbSystem n u)" using Suc.IH keeps_batch_trans by blast
  with tu bs show ?case by (simp add: s Let_def s1_def [symmetric] t)
qed

lemma keeps_armLoop: "keeps_batch b (armLoop n b)"
proof (induction n arbitrary: b)
  case (Suc n)
  obtain r s where step: "stepARM b = (r, s)" by fastforce
  note e = keepsD [OF keeps_stepARM, of b, unfolded step, simplified]
  show ?case
    using e keeps_batch_trans [OF e(1) Suc.IH] frame_refl
    by (auto simp: step split: sum.split option.split)
qed (simp add: frame_refl)

text \<open>A round of the instrumented loop.\<close>

lemma keeps_round:
  assumes "w \<longrightarrow> systemBus b \<noteq> None" and "armInstrumentedRound w traced b = (q, s)"
  shows "R b s" "q = Finished t \<Longrightarrow> keeps_batch b (t, s)"
proof -
  obtain taken b0 where b0: "(if w then takePendingInterrupt b else (False, b)) = (taken, b0)" by fastforce
  have r0: "R b b0" using b0 R_interrupt [OF frame_refl, of b] assms(1) frame_refl
    by (cases w) (auto simp: prod_eq_iff)
  define b1 where "b1 = (if traced then recordPC (regs b0 RegisterPC) b0 else b0)"
  define b2 where "b2 = (if w then b1\<lparr>instructionAddress := regs b1 RegisterPC\<rparr> else b1)"
  have "R b0 b1" "R b1 b2" by (simp_all add: b1_def b2_def R_recordPC frame_refl host_law)
  then have r2: "R b b2" using r0 frame_trans by blast
  obtain x u where x: "stepARM b2 = (x, u)" by fastforce
  have keep: "keeps b (x, u)" using keeps_trans [OF r2 keeps_stepARM] by (simp add: x)
  then have u: "R b u" "\<And>e. x = Inl e \<Longrightarrow> \<not> bad b e" by (auto simp: keeps_def)
  have fault: "R b (snd (handleMMUFault e pc u))" if "x = Inl e" for e pc
    using R_fault(1) [OF u(2) [OF that] u(1)] .
  have "armInstrumentedRound w traced b =
      (if taken then (Interrupted, b0)
       else if w \<and> executionTrapAt ModeARM (regs b0 RegisterPC) b0
       then (Finished (batchStop 0 StopExecutionTrap), b0)
       else case x of
           Inl e \<Rightarrow> (if fst (handleMMUFault e (regs b1 RegisterPC) u)
              then (Faulted e, snd (handleMMUFault e (regs b1 RegisterPC) u))
              else (Finished (batchError 0 e), snd (handleMMUFault e (regs b1 RegisterPC) u)))
         | Inr None \<Rightarrow> (Retired, u)
         | Inr (Some reason) \<Rightarrow> (Finished (batchStop 1 reason), u))"
    unfolding armInstrumentedRound_def Let_def b0 prod.case b1_def [symmetric] b2_def [symmetric] x
    by (simp add: split_beta split: sum.split option.split)
  then show "R b s" "q = Finished t \<Longrightarrow> keeps_batch b (t, s)"
    using assms(2) r0 u fault by (auto split: if_splits sum.splits option.splits)
qed

lemma keeps_instrumented:
  "w \<longrightarrow> systemBus b \<noteq> None \<Longrightarrow> armInstrumentedLoop fuel w traced n faults b = Some r \<Longrightarrow> keeps_batch b r"
proof (induction fuel arbitrary: n faults b r)
  case 0
  then show ?case by (cases n) (auto simp: frame_refl)
next
  case (Suc fuel)
  obtain q s where round: "armInstrumentedRound w traced b = (q, s)" by fastforce
  note k = keeps_round [OF Suc.prems(1) round]
  have bus: "w \<longrightarrow> systemBus s \<noteq> None" using Suc.prems(1) bus_law [OF k(1)] by simp
  have err: "\<not> bad b (ErrText x)" for x using bad_mmu by fastforce
  show ?case
    using Suc.prems k err frame_refl keeps_batch_trans [OF k(1) Suc.IH [OF bus]]
    by (cases n; cases q) (auto simp: round split: if_splits)
qed

lemma keeps_runBatch: "runBatch n b = Some r \<Longrightarrow> keeps_batch b r"
  by (auto simp: runBatch_def runThumb_def runThumbBatch_def runARM_def runARMInstrumented_def
      intro: keeps_thumbLoop keeps_thumbSystem keeps_armLoop keeps_instrumented [rotated]
      split: if_splits)

subsubsection \<open>Runs\<close>

lemma R_pollHost: "R b (snd (pollHost h executed b))"
  using host_law(4) by (auto simp: pollHost_def Let_def split: option.split)

lemma R_runLoop: "runLoop fuel polls k budget executed b = Some r \<Longrightarrow> R b (snd r)"
proof (induction fuel arbitrary: k executed b r)
  case 0
  then show ?case using R_pollHost [of b "polls k" executed]
    by (auto simp: runLoop.simps [of 0] split: if_splits option.splits prod.splits)
next
  case (Suc fuel)
  obtain q s where poll: "pollHost (polls k) executed b = (q, s)" by fastforce
  have s: "R b s" using R_pollHost [of b "polls k" executed] by (simp add: poll)
  show ?case
  proof (cases "(budget \<noteq> 0 \<and> budget \<le> executed) \<or> q \<noteq> None")
    case True
    then have "(budget \<noteq> 0 \<and> budget \<le> executed) \<or> pollHost (polls k) executed b = (Some (the q), s)"
      using poll by auto
    from runLoop_end [where fuel = fuel and polls = polls, OF this] show ?thesis
      using Suc.prems s by (auto simp: poll split: option.splits)
  next
    case False
    then have go: "budget = 0 \<or> executed < budget" "pollHost (polls k) executed b = (None, s)"
      using poll by auto
    note step = runLoop_step [where polls = polls and k = k, OF go]
    from Suc.prems obtain t u where batch: "runBatch (batchLimit budget executed) s = Some (t, u)"
      by (auto simp: step split: option.splits)
    have tu: "keeps_batch b (t, u)" by (rule keeps_batch_trans [OF s keeps_runBatch [OF batch]])
    then have u: "R b u" "\<And>e. batch_err t = Some e \<Longrightarrow> \<not> bad b e" by (auto simp: keeps_batch_def)
    have f: "R b (snd (handleCurrentMMUFault e u))" if "batch_err t = Some e" for e
      using R_fault(2) [OF u(2) [OF that] u(1)] .
    show ?thesis
      using Suc.prems u(1) f frame_trans [OF _ Suc.IH]
      by (auto simp: step batch split: option.splits if_splits)
  qed
qed

lemma R_Run:
  assumes "Run fuel polls address m budget b = Some (r, b')"
  shows "R b b'"
proof (cases "closed b \<or> misaligned address m")
  case True
  with assms show ?thesis by (auto simp: Run_def frame_refl split: if_splits)
next
  case False
  have "R b (startRun address m b)"
    unfolding startRun_def
    by (rule frame_trans [OF R_updates(1) [OF mode_law] host_law(4)]) simp
  moreover have "runLoop fuel polls 0 budget 0 (startRun address m b) = Some (r, b')"
    using assms False by (simp add: Run_def)
  ultimately show ?thesis using R_runLoop frame_trans by fastforce
qed

end

end
