(* ===== verification/Cpu_Isolation.thy ===== *)
theory Cpu_Isolation
  imports Cpu_Instructions
begin

text \<open>
  What guest code of an application machine cannot do.  An application guest runs in
  User or System mode on private mappings, with no bus, MMU or instruction cache.  No
  instruction, ARM or Thumb, and no run of any length takes such a machine out of that
  configuration or changes privileged state: the processor mode, the interrupt masks,
  the register banks, the saved status words, the control registers of CP15, the
  mappings, the interrupt lines or the execution traps.
\<close>

subsection \<open>The invariant and the protected state\<close>

definition unprivileged :: "backend \<Rightarrow> bool" where
  "unprivileged b \<longleftrightarrow>
     currentProcessorMode b = processorModeUser \<or> currentProcessorMode b = processorModeSystem"

definition guest_inv :: "backend \<Rightarrow> bool" where
  "guest_inv b \<longleftrightarrow> app_guest b \<and> wf_flags b \<and> unprivileged b \<and>
     (bit (regs b RegisterCPSR) 5 \<longleftrightarrow> mode b = ModeThumb)"

text \<open>CPSR but for the T bit and the flags field, which MSR may write in User mode.\<close>

definition systemStatus :: "backend \<Rightarrow> u32" where
  "systemStatus b = regs b RegisterCPSR AND 0x00ffffdf"

text \<open>The bytes the guest may not write.\<close>

definition readonly_bytes :: "backend \<Rightarrow> nat \<Rightarrow> u8 option" where
  "readonly_bytes b a =
     (case guest_memory b a of
        Some (q, v) \<Rightarrow> if q AND PermissionWrite = PermissionWrite then None else Some v
      | None \<Rightarrow> None)"

lemma guest_memory_cpu [simp]:
  "guest_memory (b\<lparr>regs := x\<rparr>) = guest_memory b" "guest_memory (b\<lparr>flags := y\<rparr>) = guest_memory b"
  "guest_memory (b\<lparr>mode := z\<rparr>) = guest_memory b"
  by (rule guest_memory_cong; simp)+

lemma readonly_cong: "guest_memory b' = guest_memory b \<Longrightarrow> readonly_bytes b' = readonly_bytes b"
  by (simp add: readonly_bytes_def fun_eq_iff)

lemma readonly_cpu [simp]:
  "readonly_bytes (b\<lparr>regs := x\<rparr>) = readonly_bytes b" "readonly_bytes (b\<lparr>flags := y\<rparr>) = readonly_bytes b"
  "readonly_bytes (b\<lparr>mode := z\<rparr>) = readonly_bytes b"
  by (rule readonly_cong; simp)+

record systemView =
  view_status :: u32
  view_banks :: bankedRegisters
  view_spsr :: savedProgramStatus
  view_cp15 :: "u32 \<times> u32 \<times> u32 \<times> u32"
  view_regions :: "region list"
  view_readonly :: "nat \<Rightarrow> u8 option"
  view_mapped :: "u64 \<times> u64"
  view_lines :: "u32 \<times> ExecutionTrap list"
  view_gen :: u32
  view_closed :: bool

definition system_view :: "backend \<Rightarrow> systemView" where
  "system_view b =
     \<lparr>view_status = systemStatus b, view_banks = banks b, view_spsr = spsr b,
      view_cp15 = (cp15_control (cp15 b), cp15_translationTableBase (cp15 b),
        cp15_domainAccessControl (cp15 b), cp15_processID (cp15 b)),
      view_regions = regions b, view_readonly = readonly_bytes b, view_mapped = (mapped b, memoryLimit b),
      view_lines = (interruptLines b, executionTraps b), view_gen = mappingGen b,
      view_closed = closed b\<rparr>"

definition guest_step :: "backend \<Rightarrow> backend \<Rightarrow> bool" where
  "guest_step b b' \<longleftrightarrow> (systemBus b' = None \<longleftrightarrow> systemBus b = None) \<and>
     (guest_inv b \<longrightarrow> guest_inv b' \<and> system_view b' = system_view b)"

lemma guest_refl: "guest_step b b"
  by (simp add: guest_step_def)

lemma guest_trans: "guest_step b c \<Longrightarrow> guest_step c d \<Longrightarrow> guest_step b d"
  by (simp add: guest_step_def)

text \<open>An application guest, which has no MMU, sees no MMU fault.\<close>

definition guest_bad :: "backend \<Rightarrow> cpu_error \<Rightarrow> bool" where
  "guest_bad b e \<longleftrightarrow> guest_inv b \<and> mmu_error e"

subsection \<open>Register, flag and mode updates\<close>

lemma unprivileged_status: "systemStatus b' = systemStatus b \<Longrightarrow> unprivileged b' = unprivileged b"
proof -
  assume "systemStatus b' = systemStatus b"
  then have "systemStatus b' AND 0x1f = systemStatus b AND 0x1f" by simp
  then have "regs b' RegisterCPSR AND 0x1f = regs b RegisterCPSR AND 0x1f"
    by (simp add: systemStatus_def and.assoc)
  then show ?thesis
    by (simp add: unprivileged_def currentProcessorMode_def decodeProcessorMode_def processorModeMask_def Let_def)
qed

definition same_system :: "backend \<Rightarrow> backend \<Rightarrow> bool" where
  "same_system b b' \<longleftrightarrow> banks b' = banks b \<and> spsr b' = spsr b \<and>
     cp15_control (cp15 b') = cp15_control (cp15 b) \<and>
     cp15_translationTableBase (cp15 b') = cp15_translationTableBase (cp15 b) \<and>
     cp15_domainAccessControl (cp15 b') = cp15_domainAccessControl (cp15 b) \<and>
     cp15_processID (cp15 b') = cp15_processID (cp15 b) \<and> regions b' = regions b \<and>
     readonly_bytes b' = readonly_bytes b \<and>
     mapped b' = mapped b \<and> memoryLimit b' = memoryLimit b \<and> interruptLines b' = interruptLines b \<and>
     executionTraps b' = executionTraps b \<and> mappingGen b' = mappingGen b \<and> closed b' = closed b"

lemma guest_stepI:
  assumes bus: "systemBus b' = None \<longleftrightarrow> systemBus b = None"
    and "guest_inv b \<Longrightarrow> app_guest b'" and "guest_inv b \<Longrightarrow> wf_flags b'"
    and "guest_inv b \<Longrightarrow> systemStatus b' = systemStatus b"
    and "guest_inv b \<Longrightarrow> bit (regs b' RegisterCPSR) 5 \<longleftrightarrow> mode b' = ModeThumb"
    and "guest_inv b \<Longrightarrow> same_system b b'"
  shows "guest_step b b'"
  unfolding guest_step_def
proof (intro conjI [OF bus] impI)
  assume inv: "guest_inv b"
  have "unprivileged b'" using unprivileged_status [OF assms(4) [OF inv]] inv by (simp add: guest_inv_def)
  then have "guest_inv b'" unfolding guest_inv_def using assms(2,3,5) inv by blast
  moreover have "system_view b' = system_view b"
    using assms(4,6) [OF inv] by (simp add: system_view_def same_system_def)
  ultimately show "guest_inv b' \<and> system_view b' = system_view b" ..
qed

lemma guest_invD:
  assumes "guest_inv b"
  shows "app_guest b" "wf_flags b" "unprivileged b" "bit (regs b RegisterCPSR) 5 \<longleftrightarrow> mode b = ModeThumb"
    "systemBus b = None"
  using assms by (auto simp: guest_inv_def app_guest_def)

text \<open>An access that keeps the frame and the guest's memory well-formed.\<close>

lemma guest_step_access:
  assumes "access_frame b b'" and "app_guest b \<Longrightarrow> app_guest b' \<and> readonly_bytes b' = readonly_bytes b"
  shows "guest_step b b'"
proof (rule guest_stepI)
  from assms(1) show "systemBus b' = None \<longleftrightarrow> systemBus b = None" by (simp add: access_frame_def)
next
  assume inv: "guest_inv b"
  from assms(2) guest_invD(1) [OF inv] show "app_guest b'" by blast
  from assms(1) guest_invD(2) [OF inv] show "wf_flags b'" by (simp add: wf_flags_def access_frame_def)
  from assms(1) show "systemStatus b' = systemStatus b" by (simp add: systemStatus_def access_frame_def)
  from assms(1) guest_invD(4) [OF inv] show "bit (regs b' RegisterCPSR) 5 \<longleftrightarrow> mode b' = ModeThumb"
    by (simp add: access_frame_def)
  from assms guest_invD(1) [OF inv] show "same_system b b'" by (simp add: same_system_def access_frame_def)
qed

lemma guest_step_setReg:
  assumes "r \<noteq> 16"
  shows "guest_step b (setReg r v b)"
proof (rule guest_stepI)
  assume inv: "guest_inv b"
  from guest_invD [OF inv] show "app_guest (setReg r v b)" "wf_flags (setReg r v b)"
    by (simp_all) (simp add: wf_flags_def setReg_def)
  show "systemStatus (setReg r v b) = systemStatus b"
    using assms by (simp add: systemStatus_def register_defs)
  show "bit (regs (setReg r v b) RegisterCPSR) 5 \<longleftrightarrow> mode (setReg r v b) = ModeThumb"
    using assms guest_invD(4) [OF inv] by (simp add: register_defs) (simp add: setReg_def)
  show "same_system b (setReg r v b)" by (simp add: same_system_def setReg_def)
qed (simp add: setReg_def)

lemma lazy_update_fields [simp]:
  "banks (lazy_update u b) = banks b" "spsr (lazy_update u b) = spsr b" "cp15 (lazy_update u b) = cp15 b"
  "regions (lazy_update u b) = regions b" "mapped (lazy_update u b) = mapped b"
  "memoryLimit (lazy_update u b) = memoryLimit b" "interruptLines (lazy_update u b) = interruptLines b"
  "executionTraps (lazy_update u b) = executionTraps b" "mappingGen (lazy_update u b) = mappingGen b"
  "closed (lazy_update u b) = closed b" "mode (lazy_update u b) = mode b"
  "systemBus (lazy_update u b) = systemBus b"
  "app_guest (lazy_update u b) = app_guest b" "readonly_bytes (lazy_update u b) = readonly_bytes b"
  by (cases u; simp add: flag_update_defs)+

lemma guest_step_lazy: "guest_step b (lazy_update u b)"
  by (rule guest_stepI)
    (auto simp: systemStatus_def same_system_def wf_flags_lazy_update dest: guest_invD)

lemma resolve_sysbits:
  assumes "wf_flags b" and "i < 28"
  shows "bit (regs (resolveFlags b) RegisterCPSR) i = bit (regs b RegisterCPSR) i"
proof -
  have "bit (regs (resolveFlags b) RegisterCPSR) i = bit (cpsr b) i" by (simp add: cpsr_def)
  with assms show ?thesis by (auto simp: bit_cpsr wf_flags_bits)
qed

lemma systemStatus_bits:
  "(\<And>i. i < 24 \<Longrightarrow> i \<noteq> 5 \<Longrightarrow> bit (regs b' RegisterCPSR) i = bit (regs b RegisterCPSR) i) \<Longrightarrow>
     systemStatus b' = systemStatus b"
proof -
  assume same: "\<And>i. i < 24 \<Longrightarrow> i \<noteq> 5 \<Longrightarrow> bit (regs b' RegisterCPSR) i = bit (regs b RegisterCPSR) i"
  have m: "(0x00ffffdf :: u32) = Bit_Operations.mask 24 AND NOT (push_bit 5 1)"
    by (simp add: mask_eq_exp_minus_1)
  show ?thesis unfolding systemStatus_def m
    by (rule bit_word_eqI, unfold bit_and_iff bit_not_iff bit_mask_iff bit_push_bit_iff)
      (use same in \<open>auto simp: bit_1_iff\<close>)
qed

lemma resolveFlags_fields [simp]:
  "banks (resolveFlags b) = banks b" "spsr (resolveFlags b) = spsr b" "cp15 (resolveFlags b) = cp15 b"
  "regions (resolveFlags b) = regions b" "mapped (resolveFlags b) = mapped b"
  "memoryLimit (resolveFlags b) = memoryLimit b" "interruptLines (resolveFlags b) = interruptLines b"
  "executionTraps (resolveFlags b) = executionTraps b" "mappingGen (resolveFlags b) = mappingGen b"
  "closed (resolveFlags b) = closed b" "mode (resolveFlags b) = mode b"
  "app_guest (resolveFlags b) = app_guest b" "readonly_bytes (resolveFlags b) = readonly_bytes b"
  by (simp_all add: resolveFlags_def)

lemma guest_step_resolve: "guest_step b (resolveFlags b)"
proof (rule guest_stepI)
  assume inv: "guest_inv b"
  from guest_invD [OF inv] show "app_guest (resolveFlags b)" "wf_flags (resolveFlags b)"
    "same_system b (resolveFlags b)"
    by (simp_all add: same_system_def)
  show "systemStatus (resolveFlags b) = systemStatus b"
    by (rule systemStatus_bits) (simp add: resolve_sysbits guest_invD [OF inv])
  show "bit (regs (resolveFlags b) RegisterCPSR) 5 \<longleftrightarrow> mode (resolveFlags b) = ModeThumb"
    using resolve_sysbits [of b 5] guest_invD [OF inv] by simp
qed simp

lemma bit_StatusThumb: "bit StatusThumb i \<longleftrightarrow> i = 5"
proof -
  have eq: "StatusThumb = push_bit 5 1" by (simp add: StatusThumb_def)
  show ?thesis unfolding eq bit_push_bit_iff by (auto simp: bit_1_iff)
qed

lemma thumb_bit: "x AND StatusThumb = 0 \<longleftrightarrow> \<not> bit x 5"
proof -
  have eq: "StatusThumb = push_bit 5 1" by (simp add: StatusThumb_def)
  show ?thesis unfolding eq push_bit_of_1 by (rule and_exp_eq_0_iff_not_bit)
qed

text \<open>Selecting an instruction set: the T bit follows the mode.\<close>

lemma guest_step_mode: "guest_step b (setModeFlag (b\<lparr>mode := m\<rparr>))"
proof (rule guest_stepI)
  assume inv: "guest_inv b"
  show "app_guest (setModeFlag (b\<lparr>mode := m\<rparr>))" "wf_flags (setModeFlag (b\<lparr>mode := m\<rparr>))"
    "same_system b (setModeFlag (b\<lparr>mode := m\<rparr>))"
    using guest_invD [OF inv] by (auto simp: setModeFlag_def same_system_def wf_flags_def)
  show "systemStatus (setModeFlag (b\<lparr>mode := m\<rparr>)) = systemStatus b"
    by (rule systemStatus_bits)
      (auto simp: setModeFlag_def bit_or_iff bit_and_iff bit_not_iff bit_StatusThumb)
  show "bit (regs (setModeFlag (b\<lparr>mode := m\<rparr>)) RegisterCPSR) 5 \<longleftrightarrow> mode (setModeFlag (b\<lparr>mode := m\<rparr>)) = ModeThumb"
    by (cases m) (auto simp: setModeFlag_def bit_or_iff bit_and_iff bit_not_iff bit_StatusThumb)
qed simp

subsection \<open>Memory accesses\<close>

lemma spec_read_not_mmu: "spec_read m p a n = Inl e \<Longrightarrow> \<not> mmu_error e"
  by (induction n arbitrary: a)
    (auto simp: spec_byte_def mmu_error_def split: option.splits if_splits sum.splits)

lemma spec_write_not_mmu: "fst (spec_write m p a vs) = Inl e \<Longrightarrow> \<not> mmu_error e"
  by (induction vs arbitrary: m a)
    (auto simp: spec_byte_def mmu_error_def split: option.splits if_splits sum.splits)

lemma spec_load_not_mmu:
  "spec_load f n m p a = Inl e \<Longrightarrow> \<not> mmu_error e" "spec_load32 c m p a = Inl e \<Longrightarrow> \<not> mmu_error e"
  by (auto simp: spec_load_def spec_load32_def dest: spec_read_not_mmu split: sum.splits if_splits)

lemma spec_write_readonly:
  "(m x = None \<longrightarrow> snd (spec_write m PermissionWrite a vs) x = None) \<and>
   (\<forall>q v. m x = Some (q, v) \<longrightarrow>
      (\<exists>w. snd (spec_write m PermissionWrite a vs) x = Some (q, w) \<and>
        (q AND PermissionWrite \<noteq> PermissionWrite \<longrightarrow> w = v)))"
proof (induction vs arbitrary: m a)
  case Nil
  then show ?case by simp
next
  case (Cons v vs)
  show ?case
  proof (cases "spec_byte m PermissionWrite a")
    case (Inl e)
    then show ?thesis by simp
  next
    case (Inr w)
    then obtain q where q: "m a = Some (q, w)" "q AND PermissionWrite = PermissionWrite"
      by (auto simp: spec_byte_def split: option.splits if_splits)
    have "spec_store m a v x = (if x = a then Some (q, v) else m x)"
      using q by (simp add: spec_store_def)
    then show ?thesis
      using Cons.IH [of "spec_store m a v" "Suc a"] Inr q by (cases "x = a") fastforce+
  qed
qed

lemma readonly_spec_write:
  assumes "guest_memory b' = snd (spec_write (guest_memory b) PermissionWrite a vs)"
  shows "readonly_bytes b' = readonly_bytes b"
proof
  fix x
  show "readonly_bytes b' x = readonly_bytes b x"
  proof (cases "guest_memory b x")
    case None
    then have "guest_memory b' x = None"
      using spec_write_readonly [of "guest_memory b" x a vs] assms by simp
    with None show ?thesis by (simp add: readonly_bytes_def)
  next
    case (Some c)
    then obtain q v where qv: "guest_memory b x = Some (q, v)" by (cases c) simp
    then obtain w where "guest_memory b' x = Some (q, w)" "q AND PermissionWrite \<noteq> PermissionWrite \<longrightarrow> w = v"
      using spec_write_readonly [of "guest_memory b" x a vs] assms by auto
    with qv show ?thesis by (simp add: readonly_bytes_def)
  qed
qed

lemma guest_step_reads:
  "guest_step b (snd (read8 a p b))" "guest_step b (snd (read16 a p b))" "guest_step b (snd (read32 a p b))"
  "guest_step b (snd (fetch16 a b))" "guest_step b (snd (fetch32 a b))"
  by (rule guest_step_access; auto simp: frames app_read app_read32 app_fetch intro!: readonly_cong)+

lemma guest_step_writes:
  "vs \<noteq> [] \<Longrightarrow> guest_step b (snd (writeRouted a vs PermissionWrite b))"
  "guest_step b (snd (copyIn a vs PermissionWrite b))"
proof -
  show "vs \<noteq> [] \<Longrightarrow> guest_step b (snd (writeRouted a vs PermissionWrite b))"
    by (rule guest_step_access) (auto simp: frames app_write readonly_spec_write)
  show "guest_step b (snd (copyIn a vs PermissionWrite b))"
  proof (rule guest_step_access [OF copyIn_frame])
    assume app: "app_guest b"
    then have spec: "writes_as_spec (spec_write (guest_memory b) PermissionWrite (unat a) vs) b
        (copyIn a vs PermissionWrite b)"
      by (intro copyIn_spec app_guestD)
    then have "app_guest (snd (copyIn a vs PermissionWrite b))"
      using app_guest_frame [OF app copyIn_frame] by (simp add: writes_as_spec_def)
    moreover have "readonly_bytes (snd (copyIn a vs PermissionWrite b)) = readonly_bytes b"
      by (rule readonly_spec_write [OF writes_as_specD(2) [OF spec]])
    ultimately show "app_guest (snd (copyIn a vs PermissionWrite b)) \<and>
        readonly_bytes (snd (copyIn a vs PermissionWrite b)) = readonly_bytes b" ..
  qed
qed

lemma guest_access_error:
  assumes "guest_inv b"
  shows "fst (read8 a p b) = Inl e \<Longrightarrow> \<not> mmu_error e" "fst (read16 a p b) = Inl e \<Longrightarrow> \<not> mmu_error e"
    "fst (read32 a p b) = Inl e \<Longrightarrow> \<not> mmu_error e" "fst (fetch16 a b) = Inl e \<Longrightarrow> \<not> mmu_error e"
    "fst (fetch32 a b) = Inl e \<Longrightarrow> \<not> mmu_error e"
    "vs \<noteq> [] \<Longrightarrow> fst (writeRouted a vs PermissionWrite b) = Inl e \<Longrightarrow> \<not> mmu_error e"
  using guest_invD(1) [OF assms]
  by (auto simp: app_read app_read32 app_fetch app_write dest: spec_load_not_mmu spec_write_not_mmu)

text \<open>A status word that differs in N, Z, C and V alone.\<close>

lemma guest_step_status:
  assumes "\<And>i. i < 28 \<Longrightarrow> bit v i = bit (regs b RegisterCPSR) i" and "\<not> flags_dirty (flags b)"
  shows "guest_step b (setReg RegisterCPSR v b)"
proof (rule guest_stepI)
  assume inv: "guest_inv b"
  from guest_invD [OF inv] show "app_guest (setReg RegisterCPSR v b)" by simp
  show "wf_flags (setReg RegisterCPSR v b)" using assms(2) by (simp add: wf_flags_def setReg_def)
  show "systemStatus (setReg RegisterCPSR v b) = systemStatus b"
    by (rule systemStatus_bits) (simp add: assms(1))
  show "bit (regs (setReg RegisterCPSR v b) RegisterCPSR) 5 \<longleftrightarrow> mode (setReg RegisterCPSR v b) = ModeThumb"
    using assms(1) [of 5] guest_invD(4) [OF inv] by (simp add: setReg_def)
  show "same_system b (setReg RegisterCPSR v b)" by (simp add: same_system_def setReg_def)
qed (simp add: setReg_def)

text \<open>An unprivileged write of the flags field alone.\<close>

lemma flags_field_mask:
  assumes "fieldBits AND NOT 0x8 = (0 :: u32)"
  shows "statusFieldMask fieldBits AND 0x00ffffff = 0"
proof -
  have "fieldBits = (fieldBits AND 8) OR (fieldBits AND NOT 8)" by (rule and_split_not [symmetric])
  then have f: "fieldBits = fieldBits AND 8" using assms by simp
  have "fieldBits AND 1 = 0" "fieldBits AND 2 = 0" "fieldBits AND 4 = 0"
    using arg_cong [OF f, of "\<lambda>x. x AND 1"] arg_cong [OF f, of "\<lambda>x. x AND 2"]
      arg_cong [OF f, of "\<lambda>x. x AND 4"]
    by (simp_all add: and.assoc)
  then show ?thesis by (simp add: statusFieldMask_def)
qed

lemma low_mask_bits:
  assumes "m AND 0x00ffffff = (0 :: u32)" and "i < 24"
  shows "\<not> bit m i"
proof -
  have e: "(0x00ffffff :: u32) = Bit_Operations.mask 24" by (simp add: mask_eq_exp_minus_1)
  have "\<not> bit (m AND Bit_Operations.mask 24) i" using assms(1) by (simp add: e [symmetric])
  with assms(2) show ?thesis by (auto simp: bit_and_iff bit_mask_iff dest: bit_imp_le_length)
qed

lemma masked_mode_bits:
  assumes "m AND 0x00ffffff = (0 :: u32)"
  shows "((old AND NOT m) OR (v AND m)) AND 0x1f = old AND 0x1f" and "m AND 0x1f = 0"
proof -
  have e: "(0x00ffffff :: u32) = Bit_Operations.mask 24" by (simp add: mask_eq_exp_minus_1)
  have "((old AND NOT m) OR (v AND m)) AND 0x00ffffff = old AND 0x00ffffff"
    unfolding e by (rule bit_word_eqI)
      (use low_mask_bits [OF assms] in \<open>auto simp: bit_and_iff bit_or_iff bit_not_iff bit_mask_iff\<close>)
  then have "((old AND NOT m) OR (v AND m)) AND 0x00ffffff AND 0x1f = (old AND 0x00ffffff) AND 0x1f"
    by (simp only: and.assoc [symmetric])
  then show "((old AND NOT m) OR (v AND m)) AND 0x1f = old AND 0x1f" by (simp add: and.assoc)
  have "(m AND 0x00ffffff) AND 0x1f = 0 AND 0x1f" using assms by simp
  then show "m AND 0x1f = 0" by (simp add: and.assoc)
qed

lemma guest_step_writeFlags:
  assumes "fieldBits AND NOT 0x8 = (0 :: u32)"
  shows "guest_step b (snd (writeProgramStatus False fieldBits v b))"
proof -
  define s where "s = resolveFlags b"
  define old where "old = regs s RegisterCPSR"
  define m where "m = (if fst (decodeProcessorMode old) = processorModeUser
    then statusFieldMask fieldBits AND 0xff000000 else statusFieldMask fieldBits)"
  define next_st where "next_st = (old AND NOT m) OR (v AND m)"
  have m: "m AND 0x00ffffff = 0"
  proof -
    have "statusFieldMask fieldBits AND 0xff000000 AND 0x00ffffff = 0" by (simp add: and.assoc)
    then show ?thesis using flags_field_mask [OF assms] by (simp add: m_def and.assoc)
  qed
  have dec: "decodeProcessorMode next_st = decodeProcessorMode old"
    using masked_mode_bits(1) [OF m, of old v]
    by (simp add: decodeProcessorMode_def processorModeMask_def next_st_def)
  have clean: "\<not> flags_dirty (flags s)" by (simp add: s_def)
  then have fl: "(setReg RegisterCPSR x s)\<lparr>flags := (flags s)\<lparr>flags_dirty := False\<rparr>\<rparr> =
      setReg RegisterCPSR x s" for x
    by (cases s; cases "flags s") (simp add: setReg_def)
  have om: "(if \<not> snd (decodeProcessorMode old) then processorModeSystem else fst (decodeProcessorMode old)) =
      fst (decodeProcessorMode old)"
    by (simp add: decodeProcessorMode_def Let_def)
  have eq: "writeProgramStatus False fieldBits v b =
      (Inr (), (setReg RegisterCPSR next_st s)\<lparr>mode := modeOfStatus next_st\<rparr>)"
    unfolding writeProgramStatus_def Let_def split_beta s_def [symmetric] old_def [symmetric] om
      m_def [symmetric] next_st_def [symmetric] dec
    using masked_mode_bits(2) [OF m] fl by (simp add: processorModeMask_def setReg_def)
  have bits: "bit next_st i = bit (regs s RegisterCPSR) i" if "i < 24" for i
    using low_mask_bits [OF m that] by (auto simp: next_st_def old_def bit_or_iff bit_and_iff bit_not_iff
        dest: bit_imp_le_length)
  have "guest_step s ((setReg RegisterCPSR next_st s)\<lparr>mode := modeOfStatus next_st\<rparr>)"
  proof (rule guest_stepI)
    assume inv: "guest_inv s"
    let ?t = "(setReg RegisterCPSR next_st s)\<lparr>mode := modeOfStatus next_st\<rparr>"
    show "app_guest ?t" using guest_invD [OF inv] by simp
    show "wf_flags ?t" using clean by (simp add: wf_flags_def setReg_def)
    show "systemStatus ?t = systemStatus s" by (rule systemStatus_bits) (simp add: bits setReg_def)
    show "bit (regs ?t RegisterCPSR) 5 \<longleftrightarrow> mode ?t = ModeThumb"
      using thumb_bit [of next_st] by (simp add: setReg_def modeOfStatus_def)
    show "same_system s ?t" by (simp add: same_system_def setReg_def)
  qed (simp add: setReg_def)
  moreover have "guest_step b s" by (simp add: s_def guest_step_resolve)
  ultimately show ?thesis unfolding eq using guest_trans by simp
qed

text \<open>Host-side fields and privileged operations.\<close>

text \<open>Diagnostics and the stop flag are outside the guest's view.\<close>

lemma guest_step_same:
  assumes "systemBus b' = systemBus b" and "app_guest b' = app_guest b" and "regs b' = regs b" and "flags b' = flags b" and "mode b' = mode b"
    and "same_system b b'"
  shows "guest_step b b'"
  using assms by (intro guest_stepI) (auto simp: systemStatus_def wf_flags_def dest: guest_invD)

lemma app_guest_host [simp]:
  "app_guest (b\<lparr>pcHits := h\<rparr>) = app_guest b" "app_guest (b\<lparr>pcHistory := r\<rparr>) = app_guest b"
  "app_guest (b\<lparr>pcHistoryNext := n\<rparr>) = app_guest b" "app_guest (b\<lparr>pcRegisterCaptures := c\<rparr>) = app_guest b"
  "app_guest (b\<lparr>stopped := s\<rparr>) = app_guest b" "app_guest (b\<lparr>instructionAddress := a\<rparr>) = app_guest b"
  by (simp_all add: app_guest_def wf_memory_def wf_region_def cache_coherent_def mmuEnabled_def
      instructionCacheEnabled_def)

lemma readonly_host [simp]:
  "readonly_bytes (b\<lparr>pcHits := h\<rparr>) = readonly_bytes b"
  "readonly_bytes (b\<lparr>pcHistory := r\<rparr>) = readonly_bytes b"
  "readonly_bytes (b\<lparr>pcHistoryNext := n\<rparr>) = readonly_bytes b"
  "readonly_bytes (b\<lparr>pcRegisterCaptures := c\<rparr>) = readonly_bytes b"
  "readonly_bytes (b\<lparr>stopped := s\<rparr>) = readonly_bytes b"
  "readonly_bytes (b\<lparr>instructionAddress := a\<rparr>) = readonly_bytes b"
  by (rule readonly_cong, rule guest_memory_cong; simp)+

lemma guest_step_host:
  "guest_step b (b\<lparr>pcHits := h\<rparr>)" "guest_step b (b\<lparr>pcHistory := r, pcHistoryNext := n\<rparr>)"
  "guest_step b (b\<lparr>pcRegisterCaptures := c\<rparr>)" "guest_step b (b\<lparr>stopped := s\<rparr>)"
  "guest_step b (b\<lparr>instructionAddress := a\<rparr>)"
  by (rule guest_step_same; simp add: same_system_def)+

text \<open>Privileged operations are out of reach: they keep the bus, and no guest performs them.\<close>

lemma guest_no_spsr: "guest_inv b \<Longrightarrow> \<not> exceptionMode (currentProcessorMode b)"
  by (auto simp: guest_inv_def unprivileged_def)

lemma guest_step_other: "\<not> guest_inv b \<Longrightarrow> systemBus b' = None \<longleftrightarrow> systemBus b = None \<Longrightarrow> guest_step b b'"
  by (simp add: guest_step_def)

interpretation guest: instruction_frame guest_step guest_bad
proof unfold_locales
  show "guest_step s s" for s by (rule guest_refl)
  show "guest_step s t \<Longrightarrow> guest_step t u \<Longrightarrow> guest_step s u" for s t u by (rule guest_trans)
  show "guest_step b b' \<Longrightarrow> (systemBus b' = None) = (systemBus b = None)" for b b'
    by (simp add: guest_step_def)
  show "guest_step b b' \<Longrightarrow> guest_bad b e \<Longrightarrow> guest_bad b' e" for b b' e
    by (simp add: guest_step_def guest_bad_def)
  show "guest_bad b e \<Longrightarrow> mmu_error e" "guest_bad b e \<Longrightarrow> systemBus b = None" for b e
    by (simp_all add: guest_bad_def guest_invD)
  show "r \<noteq> 16 \<Longrightarrow> guest_step b (setReg r v b)" for r v b by (rule guest_step_setReg)
  show "guest_step b (lazy_update u b)" for u b by (rule guest_step_lazy)
  show "guest_step b (resolveFlags b)" for b by (rule guest_step_resolve)
  show "(\<And>i. i < 28 \<Longrightarrow> bit v i = bit (regs b RegisterCPSR) i) \<Longrightarrow> \<not> flags_dirty (flags b) \<Longrightarrow>
      guest_step b (setReg RegisterCPSR v b)" for v b by (rule guest_step_status)
  show "guest_step b (setModeFlag (b\<lparr>mode := m\<rparr>))" for b m by (rule guest_step_mode)
  show "guest_step b (b\<lparr>pcHits := h\<rparr>)" "guest_step b (b\<lparr>pcHistory := ring, pcHistoryNext := n\<rparr>)"
    "guest_step b (b\<lparr>pcRegisterCaptures := c\<rparr>)" "guest_step b (b\<lparr>stopped := s\<rparr>)"
    "guest_step b (b\<lparr>instructionAddress := a\<rparr>)" for b h ring n c s a
    by (rule guest_step_host)+
  show "guest_step b (snd (read8 a p b))" "guest_step b (snd (read16 a p b))" "guest_step b (snd (read32 a p b))"
    "guest_step b (snd (fetch16 a b))" "guest_step b (snd (fetch32 a b))" for a p b
    by (rule guest_step_reads)+
  show "vs \<noteq> [] \<Longrightarrow> guest_step b (snd (writeRouted a vs PermissionWrite b))"
    "guest_step b (snd (copyIn a vs PermissionWrite b))" for vs a b
    by (rule guest_step_writes; simp)+
  show "fst (read8 a p b) = Inl e \<Longrightarrow> \<not> guest_bad b e" "fst (read16 a p b) = Inl e \<Longrightarrow> \<not> guest_bad b e"
    "fst (read32 a p b) = Inl e \<Longrightarrow> \<not> guest_bad b e" "fst (fetch16 a b) = Inl e \<Longrightarrow> \<not> guest_bad b e"
    "fst (fetch32 a b) = Inl e \<Longrightarrow> \<not> guest_bad b e"
    "vs \<noteq> [] \<Longrightarrow> fst (writeRouted a vs PermissionWrite b) = Inl e \<Longrightarrow> \<not> guest_bad b e" for a p b e vs
    by (auto simp: guest_bad_def dest: guest_access_error)
  show "programStatusWriteAllowed saved f b \<or> exceptionMode (currentProcessorMode b) \<Longrightarrow>
      guest_step b (snd (writeProgramStatus saved f v b))" for saved f b v
    by (cases "guest_inv b")
      (auto simp: guest_no_spsr programStatusWriteAllowed_def guest_invD(5) guest_step_writeFlags
        intro: guest_step_other split: if_splits)
  show "r \<noteq> 16 \<Longrightarrow> currentProcessorMode b \<noteq> processorModeUser \<Longrightarrow>
      currentProcessorMode b \<noteq> processorModeSystem \<Longrightarrow> guest_step b (writeUserRegister r v b)" for r b v
    by (rule guest_step_other) (auto simp: guest_inv_def unprivileged_def)
  show "guest_step b b' \<Longrightarrow> systemBus b \<noteq> None \<or> (\<exists>e. mmu_error e \<and> \<not> guest_bad b e) \<Longrightarrow>
      exceptionMode pm \<Longrightarrow> guest_step b (enterException pm vec l b')" for b b' pm vec l
    by (rule guest_step_other) (auto simp: guest_bad_def dest: guest_invD(5), auto simp: guest_step_def)
  show "systemBus b \<noteq> None \<Longrightarrow> guest_step b (snd (executeCP15 pc i b))" for b pc i
    by (rule guest_step_other) (auto simp: bus_executeCP15 dest: guest_invD(5))
qed

subsection \<open>A concrete run\<close>

text \<open>A host that never interrupts a run.\<close>

definition quietHost :: "nat \<Rightarrow> hostPoll" where
  "quietHost k = \<lparr>stop_called = False, ctx_Err = None\<rparr>"

lemma sampleBackend_cpu:
  "regs sampleBackend = (\<lambda>_. 0)" "flags sampleBackend = noFlags" "mode sampleBackend = ModeARM"
  "executeData sampleBackend = None" "executeAddress sampleBackend = 0"
  "pcHits sampleBackend = None" "pcHistory sampleBackend = []" "pcCaptureLimit sampleBackend = 0"
  "stopped sampleBackend = False"
  by (simp_all add: sampleBackend_def NewWithMemoryLimit_def Map_op_def Let_def clearDataCaches_def
      invalidateInstructionWindow_def Permissions_Valid_def PermissionRead_def PermissionWrite_def
      PermissionExecute_def overlaps_def sort_key_def)

lemma guest_inv_sample: "guest_inv sampleBackend"
  by (simp add: guest_inv_def unprivileged_def sampleBackend_cpu wf_flags_def noFlags_def
      currentProcessorMode_def decodeProcessorMode_def Let_def)

text \<open>One Thumb instruction, LSL R0, R0, #0, from the zeroed executable mapping at 0x2000.\<close>

lemma sample_run:
  "\<exists>r b'. Run 1 quietHost 0x2000 ModeThumb 1 sampleBackend = Some (r, b') \<and> Instructions r = 1 \<and>
     Reason r = StopBudget \<and> result_PC r = 0x2002"
proof -
  define s where "s = startRun 0x2000 ModeThumb sampleBackend"
  have s: "app_guest s" "regs s RegisterPC = 0x2000" "guest_memory s = guest_memory sampleBackend"
    "mode s = ModeThumb" "systemBus s = None" "\<not> tracing s" "stopped s = False" "s\<lparr>stopped := False\<rparr> = s"
     "\<not> windowHit 2 0x2000 s"
    by (simp_all add: s_def startRun_def setModeFlag_def setReg_def tracing_def sampleBackend_cpu sampleBackend_fields
       windowHit_def executeLength_def) (simp add: guest_memory_def region_at_def fun_eq_iff)
  have "spec_read (guest_memory s) PermissionExecute (unat (0x2000 :: u32)) 2 = Inr (map (\<lambda>_. 0) [0..<2])"
    by (rule spec_read_ok) (auto simp: s sampleBackend_memory span_def PermissionExecute_def)
  then have "fst (fetch16 0x2000 s) = Inr 0"
    using app_fetch(1) [OF s(1), of "0x2000"] by (simp add: spec_load_def Uint16_def upt_rec)
  then obtain s1 where f: "fetchThumb 0x2000 s = (Inr 0, s1)" "access_frame s s1"
    using fetch_frame(1) [of s "0x2000"] by (cases "fetch16 0x2000 s") (simp add: fetchThumb_def s)
  then have s1: "mode s1 = ModeThumb" "stopped s1 = False" using s by (simp_all add: access_frame_def)
  define s2 where "s2 = snd (executeThumb 0x2000 0 (setReg RegisterPC 0x2002 s1))"
  have x: "executeThumb 0x2000 0 (setReg RegisterPC 0x2002 s1) = (Inr None, s2)"
    "mode s2 = mode s1" "regs s2 RegisterPC = 0x2002" "stopped s2 = stopped s1"
    unfolding s2_def by (simp_all add: executeThumb_def thumbInstructionClasses_def execShiftImmediate_def Let_def
        tfield_def done_step_def setNZC_def deferFlags_def register_defs)
       (simp_all add: setReg_def)
  have "thumbLoop False 1 s = (batchEnd 1, s2)"
    using f x s s1 by (simp add: retire_def batchEnd_def)
  then have "runBatch 1 s = Some (batchEnd 1, s2)"
    using s by (simp add: runBatch_def runThumb_def runThumbBatch_def)
  moreover have "pollHost (quietHost 0) 0 s = (None, s)" "pollHost (quietHost 1) 1 s2 = (None, s2)"
    using s x s1 by (simp_all add: pollHost_def quietHost_def Let_def)
  ultimately have "runLoop 1 quietHost 0 1 0 s = Some (runResult StopBudget 1 None s2, s2)"
    by (simp add: runLoop.simps batchLimit_def runBatchInstructions_def batchEnd_def)
  then show ?thesis
    using x by (simp add: Run_def misaligned_def sampleBackend_fields s_def [symmetric] runResult_def)
qed

subsection \<open>Isolation of application guests\<close>

text \<open>
  C1.  Guest code cannot escape.  Whatever an application guest executes, in ARM or Thumb
  state, for any budget and whatever the host does to stop it, the machine is still an
  application guest afterwards, and the privileged state is what it was: processor mode and
  interrupt masks, banked registers, saved status words, CP15 control registers, mappings and
  their sizes, every byte mapped without write permission, interrupt lines and traps.
\<close>

theorem application_isolation:
  assumes "guest_inv b" and "Run fuel polls address m budget b = Some (r, b')"
  shows "guest_inv b' \<and> system_view b' = system_view b"
  using guest.R_Run [OF assms(2)] assms(1) by (simp add: guest_step_def)

theorem application_isolation_witness:
  "\<exists>r b'. Run 1 quietHost 0x2000 ModeThumb 1 sampleBackend = Some (r, b') \<and> Reason r = StopBudget \<and>
     Instructions r = 1 \<and> guest_inv b' \<and> system_view b' = system_view sampleBackend"
proof -
  obtain r b' where run: "Run 1 quietHost 0x2000 ModeThumb 1 sampleBackend = Some (r, b')"
    "Instructions r = 1" "Reason r = StopBudget"
    using sample_run by blast
  with application_isolation [OF guest_inv_sample run(1)] show ?thesis by blast
qed

end
