(* ===== verification/Cpu_Context.thy ===== *)
theory Cpu_Context
  imports Cpu_Access
begin

text \<open>
  Saved processor state, src/cpu/interpreter/context.go: the versioned byte format of
  \<open>SaveContext\<close> and \<open>RestoreContext\<close>, and the in-memory task contexts of an application
  guest.
\<close>

subsection \<open>Counters\<close>

definition countSerializedSave :: "backend \<Rightarrow> backend" where
  "countSerializedSave b = b\<lparr>executionStatistics := (executionStatistics b)
     \<lparr>SerializedContextSaves := SerializedContextSaves (executionStatistics b) + 1\<rparr>\<rparr>"

definition countSerializedRestore :: "backend \<Rightarrow> backend" where
  "countSerializedRestore b = b\<lparr>executionStatistics := (executionStatistics b)
     \<lparr>SerializedContextRestores := SerializedContextRestores (executionStatistics b) + 1\<rparr>\<rparr>"

definition countFastSave :: "backend \<Rightarrow> backend" where
  "countFastSave b = b\<lparr>executionStatistics := (executionStatistics b)
     \<lparr>FastContextSaves := FastContextSaves (executionStatistics b) + 1\<rparr>\<rparr>"

definition countFastRestore :: "backend \<Rightarrow> backend" where
  "countFastRestore b = b\<lparr>executionStatistics := (executionStatistics b)
     \<lparr>FastContextRestores := FastContextRestores (executionStatistics b) + 1\<rparr>\<rparr>"

subsection \<open>Task contexts\<close>

text \<open>
  The owner pointer of an \<open>executionContext\<close> is a number that identifies its backend;
  \<open>self\<close> is the number of the backend the method is called on.  A destination that is
  not nil only lends its storage.
\<close>

record executionContext =
  ctx_owner :: nat
  ctx_regs :: "u32 \<Rightarrow> u32"
  ctx_banks :: bankedRegisters
  ctx_spsr :: savedProgramStatus
  ctx_cp15 :: cp15State
  ctx_mode :: Mode

definition fastExecutionContextAvailable :: "backend \<Rightarrow> bool" where
  "fastExecutionContextAvailable b \<longleftrightarrow>
     systemBus b = None \<and> \<not> mmuEnabled b \<and> \<not> instructionCacheEnabled b"

definition SaveExecutionContext ::
  "nat \<Rightarrow> executionContext option \<Rightarrow> backend \<Rightarrow> executionContext res" where
  "SaveExecutionContext self destination b =
     (if closed b then (Inl ErrClosed, b)
      else if \<not> fastExecutionContextAvailable b then (Inl ErrExecutionContextUnavailable, b)
      else if (case destination of None \<Rightarrow> False | Some c \<Rightarrow> ctx_owner c \<noteq> self)
      then (Inl ErrInvalidAddress, b)
      else
        let b = resolveFlags b in
        (Inr \<lparr>ctx_owner = self, ctx_regs = regs b, ctx_banks = banks b, ctx_spsr = spsr b,
              ctx_cp15 = cp15 b, ctx_mode = mode b\<rparr>,
         countFastSave b))"

definition RestoreExecutionContext :: "nat \<Rightarrow> executionContext \<Rightarrow> backend \<Rightarrow> unit res" where
  "RestoreExecutionContext self saved b =
     (if closed b then (Inl ErrClosed, b)
      else if \<not> fastExecutionContextAvailable b then (Inl ErrExecutionContextUnavailable, b)
      else if ctx_owner saved \<noteq> self then (Inl ErrInvalidAddress, b)
      else if cp15_control (ctx_cp15 saved) AND 1 \<noteq> 0 \<or>
              cp15_control (ctx_cp15 saved) AND push_bit 12 1 \<noteq> 0
      then (Inl ErrExecutionContextUnavailable, b)
      else
        let b = b\<lparr>regs := ctx_regs saved, banks := ctx_banks saved, spsr := ctx_spsr saved,
                  cp15 := ctx_cp15 saved, flags := noFlags, mode := ctx_mode saved\<rparr>
        in (Inr (), countFastRestore (setModeFlag b)))"

subsection \<open>The byte format\<close>

definition contextMagic :: "u8 list" where
  "contextMagic = [0x41, 0x52, 0x4d, 0x43]"

definition putWords :: "u32 list \<Rightarrow> u8 list" where
  "putWords ws = concat (map PutUint32 ws)"

definition bankWords :: "bankedRegisters \<Rightarrow> u32 list" where
  "bankWords k = bank_userHigh k @ bank_userStackLink k @ bank_fiq k @ bank_irq k @
     bank_supervisor k @ bank_abort k @ bank_undefined k"

definition spsrWords :: "savedProgramStatus \<Rightarrow> u32 list" where
  "spsrWords s = [spsr_fiq s, spsr_irq s, spsr_supervisor s, spsr_abort s, spsr_undefined s]"

definition cp15Words :: "cp15State \<Rightarrow> u32 list" where
  "cp15Words c = [cp15_control c, cp15_translationTableBase c, cp15_domainAccessControl c,
     cp15_dataFaultStatus c, cp15_instructionFaultStatus c, cp15_faultAddress c, cp15_processID c]"

definition regWords :: "(u32 \<Rightarrow> u32) \<Rightarrow> u32 list" where
  "regWords f = map (\<lambda>i. f (of_nat i)) [0..<17]"

definition modeWord :: "Mode \<Rightarrow> u32" where
  "modeWord m = (case m of ModeARM \<Rightarrow> 0 | ModeThumb \<Rightarrow> 1)"

definition contextBytes ::
  "(u32 \<Rightarrow> u32) \<Rightarrow> bankedRegisters \<Rightarrow> savedProgramStatus \<Rightarrow> cp15State \<Rightarrow> (u32 \<times> u8 list) list \<Rightarrow>
     Mode \<Rightarrow> u8 list" where
  "contextBytes rs k s c lines m =
     contextMagic @ PutUint32 3 @
     putWords (regWords rs @ bankWords k @ spsrWords s @ cp15Words c) @
     PutUint32 (of_nat (length lines)) @
     concat (map (\<lambda>(address, line). PutUint32 address @ line) lines) @
     PutUint32 (modeWord m)"

definition MarshalExecutionContext :: "nat \<Rightarrow> executionContext \<Rightarrow> backend \<Rightarrow> u8 list res" where
  "MarshalExecutionContext self saved b =
     (if closed b then (Inl ErrClosed, b)
      else if ctx_owner saved \<noteq> self then (Inl ErrInvalidAddress, b)
      else (Inr (contextBytes (ctx_regs saved) (ctx_banks saved) (ctx_spsr saved) (ctx_cp15 saved) []
                   (ctx_mode saved)),
            countSerializedSave b))"

definition residentLine :: "backend \<Rightarrow> u32 \<Rightarrow> u32 \<times> u8 list" where
  "residentLine b address = (address, ic_line (the (instructionCacheEntryAt address b)))"

definition SaveContext :: "backend \<Rightarrow> u8 list res" where
  "SaveContext b =
     (if closed b then (Inl ErrClosed, b)
      else
        let b = resolveFlags b;
            lineAddresses = sort (residentInstructionCacheLines b)
        in (Inr (contextBytes (regs b) (banks b) (spsr b) (cp15 b)
                   (map (residentLine b) lineAddresses) (mode b)),
            countSerializedSave b))"

subsection \<open>Restoring\<close>

definition wordAt :: "u8 list \<Rightarrow> nat \<Rightarrow> u32" where
  "wordAt data offset = Uint32 (slice data offset 4)"

definition readWords :: "u8 list \<Rightarrow> nat \<Rightarrow> nat \<Rightarrow> u32 list" where
  "readWords data offset n = map (\<lambda>i. wordAt data (offset + 4 * i)) [0..<n]"

text \<open>The sizes of the three versions: 18, 52 and at least 53 words after the header.\<close>

definition contextSizeOk :: "u32 \<Rightarrow> nat \<Rightarrow> bool" where
  "contextSizeOk version len \<longleftrightarrow>
     version = 1 \<and> len = 80 \<or> version = 2 \<and> len = 216 \<or> version = 3 \<and> 220 \<le> len"

definition readBanks :: "u8 list \<Rightarrow> bankedRegisters" where
  "readBanks data =
     \<lparr>bank_userHigh = readWords data 76 5, bank_userStackLink = readWords data 96 2,
      bank_fiq = readWords data 104 7, bank_irq = readWords data 132 2,
      bank_supervisor = readWords data 140 2, bank_abort = readWords data 148 2,
      bank_undefined = readWords data 156 2\<rparr>"

definition readSPSR :: "u8 list \<Rightarrow> savedProgramStatus" where
  "readSPSR data =
     \<lparr>spsr_fiq = wordAt data 164, spsr_irq = wordAt data 168, spsr_supervisor = wordAt data 172,
      spsr_abort = wordAt data 176, spsr_undefined = wordAt data 180\<rparr>"

definition readCP15State :: "u8 list \<Rightarrow> cp15State" where
  "readCP15State data =
     \<lparr>cp15_control = wordAt data 184, cp15_translationTableBase = wordAt data 188,
      cp15_domainAccessControl = wordAt data 192, cp15_dataFaultStatus = wordAt data 196,
      cp15_instructionFaultStatus = wordAt data 200, cp15_faultAddress = wordAt data 204,
      cp15_processID = wordAt data 208\<rparr>"

fun readLines :: "nat \<Rightarrow> u8 list \<Rightarrow> (u32 \<times> u8 list) list \<Rightarrow> cpu_error + (u32 \<times> u8 list) list" where
  "readLines 0 data acc = Inr acc"
| "readLines (Suc n) data acc =
     (let address = wordAt data 0 in
      if address AND 31 \<noteq> 0 then Inl ErrInvalidAddress
      else if address \<in> fst ` set acc then Inl ErrInvalidAddress
      else readLines n (drop 36 data) (acc @ [(address, slice data 4 32)]))"

definition readCacheLines :: "u32 \<Rightarrow> u8 list \<Rightarrow> cpu_error + (u32 \<times> u8 list) list" where
  "readCacheLines version data =
     (if version \<noteq> 3 then Inr []
      else
        let lineCount = wordAt data 212 in
        if lineCount > push_bit 20 1 \<or> 220 + unat lineCount * 36 \<noteq> length data
        then Inl ErrInvalidAddress
        else readLines (unat lineCount) (drop 216 data) [])"

text \<open>
  \<open>cpu.Mode(...)\<close> converts the word to eight bits before it is checked.
\<close>

definition readMode :: "u8 list \<Rightarrow> nat \<Rightarrow> Mode option" where
  "readMode data offset =
     (let m = (ucast (wordAt data offset) :: u8) in
      if m = 0 then Some ModeARM else if m = 1 then Some ModeThumb else None)"

definition modeOffset :: "u32 \<Rightarrow> nat \<Rightarrow> nat" where
  "modeOffset version lines = (if version = 1 then 76 else if version = 2 then 212 else 216 + lines * 36)"

text \<open>
  The restored lines are kept in a Go map and installed in the order the runtime
  iterates it, which is unspecified: \<open>iter\<close> is that order.
\<close>

definition RestoreContext ::
  "((u32 \<times> u8 list) list \<Rightarrow> (u32 \<times> u8 list) list) \<Rightarrow> u8 list \<Rightarrow> backend \<Rightarrow> unit res" where
  "RestoreContext iter data b =
     (if closed b then (Inl ErrClosed, b)
      else if length data < 8 \<or> take 4 data \<noteq> contextMagic then (Inl ErrInvalidAddress, b)
      else
        let version = wordAt data 4 in
        if \<not> contextSizeOk version (length data) then (Inl ErrInvalidAddress, b)
        else
          let restoredRegs = readWords data 8 17;
              banked = (version = 2 \<or> version = 3);
              restoredBanks = (if banked then readBanks data else zeroBanks);
              restoredSPSR = (if banked then readSPSR data else zeroSPSR);
              restoredCP15 = (if banked then readCP15State data else zeroCP15)
          in case readCacheLines version data of
               Inl e \<Rightarrow> (Inl e, b)
             | Inr lines \<Rightarrow>
                 (case readMode data (modeOffset version (length lines)) of
                    None \<Rightarrow> (Inl ErrInvalidAddress, b)
                  | Some m \<Rightarrow>
                      let b = b\<lparr>regs := (\<lambda>r. if r < 17 then restoredRegs ! unat r else regs b r),
                                banks := restoredBanks, spsr := restoredSPSR, cp15 := restoredCP15\<rparr>;
                          b = invalidateTLB (refreshPhysicalAccess b);
                          b = b\<lparr>instructionCacheTable := None\<rparr>;
                          b = fold (\<lambda>(address, line). restoreInstructionCacheLine address line) (iter lines) b;
                          b = clearDataCaches (b\<lparr>executeData := None\<rparr>);
                          b = b\<lparr>flags := (flags b)\<lparr>flags_dirty := False\<rparr>, mode := m\<rparr>
                      in (Inr (), countSerializedRestore (setModeFlag b))))"

subsection \<open>Scoped contexts\<close>

text \<open>
  \<open>ScopedContext\<close> of src/cpu/backend.go on one interpreter: the fast representation when the
  backend offers it, bytes otherwise.  The pointers of the structure are options; the backend
  it keeps is the one it was taken from, and \<open>Restore\<close> is called with that backend.
\<close>

record ScopedContext =
  scoped_fast :: "executionContext option"
  scoped_bytes :: "u8 list option"

definition noScopedContext :: ScopedContext where
  "noScopedContext = \<lparr>scoped_fast = None, scoped_bytes = None\<rparr>"

definition saveFast :: "nat \<Rightarrow> executionContext option \<Rightarrow> backend \<Rightarrow> executionContext res" where
  "saveFast self reuse b =
     (case SaveExecutionContext self reuse b of
        (Inl e, b) \<Rightarrow>
          if reuse \<noteq> None \<and> e \<noteq> ErrExecutionContextUnavailable then SaveExecutionContext self None b
          else (Inl e, b)
      | (Inr ctx, b) \<Rightarrow> (Inr ctx, b))"

definition SaveScopedContext :: "nat \<Rightarrow> ScopedContext \<Rightarrow> backend \<Rightarrow> ScopedContext res" where
  "SaveScopedContext self reuse b =
     (case saveFast self (scoped_fast reuse) b of
        (Inr ctx, b) \<Rightarrow> (Inr \<lparr>scoped_fast = Some ctx, scoped_bytes = None\<rparr>, b)
      | (Inl e, b) \<Rightarrow>
          if e \<noteq> ErrExecutionContextUnavailable then (Inl e, b)
          else and_then (SaveContext b) (\<lambda>data b.
            (Inr \<lparr>scoped_fast = None, scoped_bytes = Some data\<rparr>, b)))"

definition ScopedContext_Restore ::
  "((u32 \<times> u8 list) list \<Rightarrow> (u32 \<times> u8 list) list) \<Rightarrow> nat \<Rightarrow> ScopedContext \<Rightarrow> backend \<Rightarrow> unit res" where
  "ScopedContext_Restore iter self saved b =
     (case scoped_fast saved of
        None \<Rightarrow>
          (case scoped_bytes saved of
             None \<Rightarrow> (Inl ErrInvalidAddress, b)
           | Some data \<Rightarrow> RestoreContext iter data b)
      | Some ctx \<Rightarrow>
          (case RestoreExecutionContext self ctx b of
             (Inl e, b) \<Rightarrow>
               if e \<noteq> ErrExecutionContextUnavailable then (Inl e, b)
               else and_then (MarshalExecutionContext self ctx b) (\<lambda>data b. RestoreContext iter data b)
           | (Inr u, b) \<Rightarrow> (Inr u, b)))"

end
