(* ===== verification/Cpu_Host_Call.thy ===== *)
theory Cpu_Host_Call
  imports Cpu_Access
begin

text \<open>
  The host-call boundary, src/cpu/interpreter/host_call.go: the snapshot of registers
  and word ranges a host function reads its arguments from, the batched register
  commit, and the combined return.
\<close>

subsection \<open>Capture\<close>

record HostCallFrameRequest =
  req_StackWords :: u32
  req_ParameterAddress :: u32
  req_ParameterWords :: u32

record HostCallFrame =
  frame_Registers :: "u32 \<Rightarrow> u32"
  frame_Stack :: "u32 list"
  frame_Parameters :: "u32 list"

fun decodeWords :: "nat \<Rightarrow> u8 list \<Rightarrow> u32 list" where
  "decodeWords 0 bytes = []"
| "decodeWords (Suc n) bytes = Uint32 (take 4 bytes) # decodeWords n (drop 4 bytes)"

definition captureHostCallWords :: "u32 \<Rightarrow> nat \<Rightarrow> backend \<Rightarrow> u32 list res" where
  "captureHostCallWords address words b =
     (if words = 0 then (Inr [], b)
      else if 2 ^ 32 < unat address + words * 4 then (Inl ErrInvalidAddress, b)
      else
        and_then
          (if mmuEnabled b then readVirtual address (words * 4) PermissionRead b
           else copyOut address (words * 4) PermissionRead b)
          (\<lambda>bytes b. (Inr (decodeWords words bytes), b)))"

definition countFrameCapture :: "backend \<Rightarrow> backend" where
  "countFrameCapture b = b\<lparr>executionStatistics := (executionStatistics b)
     \<lparr>HostFrameCaptures := HostFrameCaptures (executionStatistics b) + 1\<rparr>\<rparr>"

definition countRegisterCommit :: "backend \<Rightarrow> backend" where
  "countRegisterCommit b = b\<lparr>executionStatistics := (executionStatistics b)
     \<lparr>HostRegisterCommits := HostRegisterCommits (executionStatistics b) + 1\<rparr>\<rparr>"

definition countReturnBatch :: "backend \<Rightarrow> backend" where
  "countReturnBatch b = b\<lparr>executionStatistics := (executionStatistics b)
     \<lparr>HostCallReturnBatches := HostCallReturnBatches (executionStatistics b) + 1\<rparr>\<rparr>"

text \<open>
  The destination is never nil here.  The frame is answered on success only: what a
  failed capture leaves in it is not modelled.
\<close>

definition CaptureHostCallFrame :: "HostCallFrameRequest \<Rightarrow> backend \<Rightarrow> HostCallFrame res" where
  "CaptureHostCallFrame request b =
     (if closed b then (Inl ErrClosed, b)
      else if req_StackWords request > MaxHostCallWords \<or> req_ParameterWords request > MaxHostCallWords \<or>
              req_ParameterWords request \<noteq> 0 \<and> req_ParameterAddress request = 0
      then (Inl ErrInvalidAddress, b)
      else
        let b = resolveFlags b; registers = regs b in
        and_then (captureHostCallWords (registers RegisterSP) (unat (req_StackWords request)) b)
          (\<lambda>stack b.
             and_then (captureHostCallWords (req_ParameterAddress request)
                         (unat (req_ParameterWords request)) b)
               (\<lambda>params b.
                  (Inr \<lparr>frame_Registers = registers, frame_Stack = stack, frame_Parameters = params\<rparr>,
                   countFrameCapture b))))"

subsection \<open>Commit\<close>

fun commitRegisters :: "RegisterCommit \<Rightarrow> u32 list \<Rightarrow> backend \<Rightarrow> unit res" where
  "commitRegisters commit [] b = (Inr (), b)"
| "commitRegisters commit (r # rs) b =
     (if commit_Mask commit AND push_bit (unat r) 1 = 0 then commitRegisters commit rs b
      else and_then (writeRegisterLocked r (commit_Values commit r) b)
        (\<lambda>_ b. commitRegisters commit rs b))"

definition CommitHostCallRegisters :: "RegisterCommit \<Rightarrow> backend \<Rightarrow> unit res" where
  "CommitHostCallRegisters commit b =
     (if closed b then (Inl ErrClosed, b)
      else if drop_bit 17 (commit_Mask commit) \<noteq> 0 then (Inl ErrInvalidAddress, b)
      else and_then (commitRegisters commit (map of_nat [0..<17]) b)
        (\<lambda>_ b. (Inr (), countRegisterCommit b)))"

subsection \<open>Return\<close>

definition ReturnHostCallFrame :: "u32 \<Rightarrow> u32 \<Rightarrow> backend \<Rightarrow> HostCallFrame res" where
  "ReturnHostCallFrame low high b =
     (if closed b then (Inl ErrClosed, b)
      else
        let b = resolveFlags b;
            frame = \<lparr>frame_Registers = regs b, frame_Stack = [], frame_Parameters = []\<rparr>;
            b = countFrameCapture b;
            lr = frame_Registers frame RegisterLR;
            status = frame_Registers frame RegisterCPSR;
            status = (if lr AND 1 \<noteq> 0 then status OR StatusThumb else status AND NOT StatusThumb);
            b = setReg RegisterR0 low b;
            b = setReg RegisterR1 high b;
            b = setReg RegisterPC (lr AND NOT 1) b;
            b = setReg RegisterCPSR status b;
            b = b\<lparr>mode := modeOfStatus status\<rparr>;
            b = invalidateInstructionWindow b
        in (Inr frame, countReturnBatch (countRegisterCommit b)))"

subsection \<open>The portable return\<close>

text \<open>
  \<open>cpu.ReturnHostCallFrame\<close> for a backend without the batch operation: a capture, and a
  commit of R0, R1, PC and CPSR.
\<close>

definition setAll :: "(u32 \<times> u32) list \<Rightarrow> RegisterCommit \<Rightarrow> RegisterCommit" where
  "setAll rvs commit =
     fold (\<lambda>(r, v) commit. snd (RegisterCommit_Set r v commit)) rvs commit"

definition portableReturnHostCallFrame :: "u32 \<Rightarrow> u32 \<Rightarrow> backend \<Rightarrow> HostCallFrame res" where
  "portableReturnHostCallFrame low high b =
     and_then (CaptureHostCallFrame \<lparr>req_StackWords = 0, req_ParameterAddress = 0, req_ParameterWords = 0\<rparr> b)
       (\<lambda>frame b.
          let lr = frame_Registers frame RegisterLR;
              status = frame_Registers frame RegisterCPSR;
              status = (if lr AND 1 \<noteq> 0 then status OR StatusThumb else status AND NOT StatusThumb);
              commit = setAll [(RegisterR0, low), (RegisterR1, high), (RegisterPC, lr AND NOT 1),
                               (RegisterCPSR, status)] \<lparr>commit_Values = (\<lambda>_. 0), commit_Mask = 0\<rparr>
          in and_then (CommitHostCallRegisters commit b) (\<lambda>_ b. (Inr frame, b)))"

subsection \<open>The two returns agree\<close>

lemma commitRegisters_fun:
  "commitRegisters commit [] = (\<lambda>b. (Inr (), b))"
  "commitRegisters commit (r # rs) =
     (if commit_Mask commit AND push_bit (unat r) 1 = 0 then commitRegisters commit rs
      else (\<lambda>b. and_then (writeRegisterLocked r (commit_Values commit r) b)
                  (\<lambda>_ b. commitRegisters commit rs b)))"
  by (simp_all add: fun_eq_iff)

lemma commitRegisters_mask:
  assumes "commit_Mask c = 0x18003"
  shows "commitRegisters c (map of_nat [0..<17]) b =
     and_then (writeRegisterLocked RegisterR0 (commit_Values c RegisterR0) b) (\<lambda>_ b.
     and_then (writeRegisterLocked RegisterR1 (commit_Values c RegisterR1) b) (\<lambda>_ b.
     and_then (writeRegisterLocked RegisterPC (commit_Values c RegisterPC) b) (\<lambda>_ b.
     and_then (writeRegisterLocked RegisterCPSR (commit_Values c RegisterCPSR) b) (\<lambda>_ b. (Inr (), b)))))"
proof -
  have "map of_nat [0..<17] = [0, 1, 2, 3, 4, 5, 6, 7, 8, 9, 10, 11, 12, 13, 14, 15, 16 :: u32]"
    by (simp add: upt_rec)
  then show ?thesis
    using assms by (simp add: commitRegisters_fun register_defs del: commitRegisters.simps)
qed

lemma thumb_bit_keeps_mode [simp]:
  "(s OR StatusThumb) AND processorModeMask = s AND processorModeMask"
  "(s AND NOT StatusThumb) AND processorModeMask = s AND processorModeMask"
proof -
  have d: "StatusThumb AND processorModeMask = 0"
    by (simp add: StatusThumb_def processorModeMask_def)
  then show "(s OR StatusThumb) AND processorModeMask = s AND processorModeMask"
    by (simp add: bit.conj_disj_distrib2)
  have "NOT StatusThumb AND processorModeMask = processorModeMask"
    by (simp add: StatusThumb_def processorModeMask_def)
  then show "(s AND NOT StatusThumb) AND processorModeMask = s AND processorModeMask"
    by (simp add: and.assoc)
qed

lemma clean_flags_update:
  "\<not> flags_dirty (flags b) \<Longrightarrow> b\<lparr>flags := (flags b)\<lparr>flags_dirty := False\<rparr>\<rparr> = b"
  by (cases "flags b") simp

lemma writeRegisterLocked_status:
  assumes "\<not> flags_dirty (flags b)" "v AND processorModeMask = regs b RegisterCPSR AND processorModeMask"
  shows "writeRegisterLocked RegisterCPSR v b =
     (Inr (), invalidateInstructionWindow ((setReg RegisterCPSR v b)\<lparr>mode := modeOfStatus v\<rparr>))"
  using assms
  by (simp add: writeRegisterLocked_def resolveFlags_def Let_def split_beta RegisterCPSR_def clean_flags_update)

lemma writeRegisterLocked_core:
  "r < 16 \<Longrightarrow> writeRegisterLocked r v b = (Inr (), setReg r v b)"
  by (auto simp: writeRegisterLocked_def RegisterCPSR_def word_less_nat_alt word_le_nat_alt)

lemma commit_return:
  assumes "\<not> closed b" "\<not> flags_dirty (flags b)"
    "v AND processorModeMask = regs b RegisterCPSR AND processorModeMask"
  shows "CommitHostCallRegisters
       (setAll [(RegisterR0, l), (RegisterR1, h), (RegisterPC, p), (RegisterCPSR, v)]
          \<lparr>commit_Values = (\<lambda>_. 0), commit_Mask = 0\<rparr>) b =
     (Inr (), countRegisterCommit (invalidateInstructionWindow
        ((setReg RegisterCPSR v (setReg RegisterPC p (setReg RegisterR1 h (setReg RegisterR0 l b))))
           \<lparr>mode := modeOfStatus v\<rparr>)))"
proof -
  let ?c = "setAll [(RegisterR0, l), (RegisterR1, h), (RegisterPC, p), (RegisterCPSR, v)]
     \<lparr>commit_Values = (\<lambda>_. 0), commit_Mask = 0\<rparr>"
  let ?b = "setReg RegisterPC p (setReg RegisterR1 h (setReg RegisterR0 l b))"
  have c: "commit_Mask ?c = 0x18003" "commit_Values ?c RegisterR0 = l" "commit_Values ?c RegisterR1 = h"
    "commit_Values ?c RegisterPC = p" "commit_Values ?c RegisterCPSR = v"
    by (simp_all add: setAll_def RegisterCommit_Set_def register_defs word_le_nat_alt)
  have st: "writeRegisterLocked RegisterCPSR v ?b =
     (Inr (), invalidateInstructionWindow ((setReg RegisterCPSR v ?b)\<lparr>mode := modeOfStatus v\<rparr>))"
    using assms(2,3) by (intro writeRegisterLocked_status) (simp_all add: setReg_def register_defs)
  have lt: "RegisterR0 < 16" "RegisterR1 < 16" "RegisterPC < 16" by (simp_all add: register_defs)
  have "commitRegisters ?c (map of_nat [0..<17]) b =
     (Inr (), invalidateInstructionWindow ((setReg RegisterCPSR v ?b)\<lparr>mode := modeOfStatus v\<rparr>))"
    unfolding commitRegisters_mask [OF c(1)] c(2-) by (simp add: writeRegisterLocked_core lt st and_then_def)
  then show ?thesis
    using assms(1) c(1) by (simp add: CommitHostCallRegisters_def and_then_def)
qed

text \<open>
  C40. Combined return. The interpreter's combined host-call return answers the same
  frame and leaves the same machine as the portable sequence of a capture and a commit
  of R0, R1, PC and CPSR, up to the statistic that counts combined returns; both refuse
  a closed backend and leave it alone.
\<close>

theorem host_return_equivalence:
  "portableReturnHostCallFrame low high b =
     (let (outcome, c) = ReturnHostCallFrame low high b in
      (outcome, if closed b then b
        else c\<lparr>executionStatistics := (executionStatistics c)
           \<lparr>HostCallReturnBatches := HostCallReturnBatches (executionStatistics b)\<rparr>\<rparr>))"
proof (cases "closed b")
  case True
  then show ?thesis
    by (simp add: portableReturnHostCallFrame_def CaptureHostCallFrame_def ReturnHostCallFrame_def and_then_def)
next
  case False
  have clean: "\<not> flags_dirty (flags (resolveFlags b))" by (simp add: resolveFlags_def noFlags_def)
  have kept: "closed (resolveFlags b) = closed b"
    "executionStatistics (resolveFlags b) = executionStatistics b" by (simp_all add: resolveFlags_def)
  show ?thesis
    using False clean kept
    by (simp add: portableReturnHostCallFrame_def CaptureHostCallFrame_def ReturnHostCallFrame_def
        captureHostCallWords_def commit_return countFrameCapture_def countRegisterCommit_def
        countReturnBatch_def setReg_def invalidateInstructionWindow_def Let_def and_then_def)
qed

end
