(* ===== verification/Cpu_Machine.thy ===== *)
theory Cpu_Machine
  imports Cpu_Isolation Cpu_Context Cpu_Host_Call
begin

text \<open>
  Properties of every machine, with or without a system bus.  The invariant: pending flags
  stay within N, Z, C and V, the banks keep their sizes, and the T bit of CPSR tells the
  instruction set.  Each instruction, exception and run keeps it, and each operation of the
  public interface does.  Then the loops: a run with a budget ends, retires at most the
  budget, and reports exhaustion exactly at the budget.
\<close>

subsection \<open>The invariant\<close>

definition machine_inv :: "backend \<Rightarrow> bool" where
  "machine_inv b \<longleftrightarrow> wf_flags b \<and> wf_banks (banks b) \<and>
     (bit (regs b RegisterCPSR) 5 \<longleftrightarrow> mode b = ModeThumb)"

text \<open>What only the host changes.\<close>

definition machine_config ::
  "backend \<Rightarrow> bool \<times> region list \<times> u64 \<times> u64 \<times> bool \<times> ExecutionTrap list \<times> u32" where
  "machine_config b =
     (systemBus b = None, regions b, mapped b, memoryLimit b, closed b, executionTraps b, interruptLines b)"

definition machine_step :: "backend \<Rightarrow> backend \<Rightarrow> bool" where
  "machine_step b b' \<longleftrightarrow> machine_config b' = machine_config b \<and> (machine_inv b \<longrightarrow> machine_inv b')"

lemma machine_invD:
  assumes "machine_inv b"
  shows "wf_flags b" "wf_banks (banks b)" "bit (regs b RegisterCPSR) 5 \<longleftrightarrow> mode b = ModeThumb"
  using assms by (auto simp: machine_inv_def)

lemma machine_stepI:
  assumes "machine_config b' = machine_config b"
    and "machine_inv b \<Longrightarrow> wf_flags b'" "machine_inv b \<Longrightarrow> wf_banks (banks b')"
    and "machine_inv b \<Longrightarrow> bit (regs b' RegisterCPSR) 5 \<longleftrightarrow> mode b' = ModeThumb"
  shows "machine_step b b'"
  using assms by (simp add: machine_step_def machine_inv_def)

lemma machine_core: "core_frame b b' \<Longrightarrow> machine_step b b'"
  by (auto simp: machine_step_def machine_config_def machine_inv_def core_frame_def wf_flags_def)

lemma machine_trans: "machine_step b c \<Longrightarrow> machine_step c d \<Longrightarrow> machine_step b d"
  by (simp add: machine_step_def)

lemma machine_setReg: "r \<noteq> 16 \<Longrightarrow> machine_step b (setReg r v b)"
  by (rule machine_stepI)
    (auto simp: machine_config_def setReg_def register_defs wf_flags_def dest: machine_invD)

lemma machine_lazy: "machine_step b (lazy_update u b)"
  by (rule machine_stepI) (auto simp: machine_config_def wf_flags_lazy_update dest: machine_invD)

lemma machine_resolve: "machine_step b (resolveFlags b)"
proof (rule machine_stepI)
  assume inv: "machine_inv b"
  show "bit (regs (resolveFlags b) RegisterCPSR) 5 \<longleftrightarrow> mode (resolveFlags b) = ModeThumb"
    using resolve_sysbits [of b 5] machine_invD [OF inv] by simp
qed (auto simp: machine_config_def dest: machine_invD)

text \<open>A materialised status word whose T bit is right.\<close>

lemma machine_status:
  assumes "machine_config b' = machine_config b" and "\<not> flags_dirty (flags b')"
    and "wf_banks (banks b) \<Longrightarrow> wf_banks (banks b')"
    and "machine_inv b \<Longrightarrow> bit (regs b' RegisterCPSR) 5 \<longleftrightarrow> mode b' = ModeThumb"
  shows "machine_step b b'"
  using assms by (intro machine_stepI) (auto simp: wf_flags_def dest: machine_invD)

lemma machine_nz:
  "(\<And>i. i < 28 \<Longrightarrow> bit v i = bit (regs b RegisterCPSR) i) \<Longrightarrow> \<not> flags_dirty (flags b) \<Longrightarrow>
     machine_step b (setReg RegisterCPSR v b)"
  by (rule machine_status) (auto simp: machine_config_def setReg_def dest: machine_invD)

lemma machine_mode: "machine_step b (setModeFlag (b\<lparr>mode := m\<rparr>))"
proof (rule machine_stepI)
  show "bit (regs (setModeFlag (b\<lparr>mode := m\<rparr>)) RegisterCPSR) 5 \<longleftrightarrow> mode (setModeFlag (b\<lparr>mode := m\<rparr>)) = ModeThumb"
    by (cases m) (auto simp: setModeFlag_def bit_or_iff bit_and_iff bit_not_iff bit_StatusThumb)
qed (auto simp: setModeFlag_def machine_config_def wf_flags_def dest: machine_invD)

lemma machine_host:
  "machine_step b (b\<lparr>pcHits := h\<rparr>)" "machine_step b (b\<lparr>pcHistory := ring, pcHistoryNext := n\<rparr>)"
  "machine_step b (b\<lparr>pcRegisterCaptures := c\<rparr>)" "machine_step b (b\<lparr>stopped := s\<rparr>)"
  "machine_step b (b\<lparr>instructionAddress := a\<rparr>)"
  by (rule machine_core; simp add: core_frame_def)+

subsection \<open>Mode switches, exceptions and status transfers\<close>

lemma config_updates [simp]:
  "machine_config (setReg r v b) = machine_config b"
  "machine_config (b\<lparr>flags := f\<rparr>) = machine_config b" "machine_config (b\<lparr>mode := m\<rparr>) = machine_config b"
  "machine_config (resolveFlags b) = machine_config b"
  "machine_config (setSavedStatus pm st b) = machine_config b"
  "machine_config (switchProcessorMode om nm b) = machine_config b"
  "machine_config (b\<lparr>banks := k\<rparr>) = machine_config b" "machine_config (b\<lparr>regs := g\<rparr>) = machine_config b"
  by (auto simp: machine_config_def setReg_def resolveFlags_def setSavedStatus_def switchProcessorMode_def
      bank_defs split: processorMode.split)

lemma bit_entryStatus5: "\<not> bit (entryStatus m old) 5"
  by (cases m) (auto simp: entryStatus_alt entryMasks_def vector_defs bit_or_iff bit_and_iff bit_not_iff bit_StatusThumb)

lemma enterException_fields:
  "regs (enterException m vec l b) RegisterCPSR = entryStatus m (cpsr b)"
  "mode (enterException m vec l b) = ModeARM" "\<not> flags_dirty (flags (enterException m vec l b))"
  "machine_config (enterException m vec l b) = machine_config b"
  "wf_banks (banks b) \<Longrightarrow> wf_banks (banks (enterException m vec l b))"
  unfolding enterException_def Let_def
  by (auto simp: register_defs entryStatus_def regs_resolve_cpsr Let_def split: prod.split
      intro!: wf_banks_switch)
    (auto simp: setReg_def wf_banks_switch split: prod.split)

lemma machine_exception: "machine_step b (enterException m vec l b)"
  by (rule machine_status) (simp_all add: enterException_fields bit_entryStatus5)

lemma thumb_modeOfStatus: "modeOfStatus st = ModeThumb \<longleftrightarrow> bit st 5"
  using thumb_bit [of st] by (auto simp: modeOfStatus_def)

lemma machine_writeStatus: "machine_step b (snd (writeProgramStatus saved f v b))"
proof (cases saved)
  case True
  have "machine_step b (setSavedStatus m st b)" for m st
    by (rule machine_stepI) (auto simp: wf_flags_def dest: machine_invD)
  moreover have "machine_step b b" by (simp add: machine_step_def)
  ultimately show ?thesis using True
    by (auto simp: writeProgramStatus_def Let_def split: option.split)
next
  case False
  have "machine_step b (resolveFlags b)" by (rule machine_resolve)
  moreover have "machine_step b ((setReg RegisterCPSR st s)\<lparr>flags := (flags s)\<lparr>flags_dirty := False\<rparr>, mode := modeOfStatus st\<rparr>)"
    if "s = (if c then switchProcessorMode om nm (resolveFlags b) else resolveFlags b)" for st s c om nm
    using that
    by (intro machine_status) (auto simp: setReg_def thumb_modeOfStatus wf_banks_switch)
  ultimately show ?thesis using False
    by (auto simp: writeProgramStatus_def Let_def split_beta setReg_def)
qed

lemma machine_writeUser: "r \<noteq> 16 \<Longrightarrow> machine_step b (writeUserRegister r v b)"
proof -
  assume r: "r \<noteq> 16"
  have put: "machine_step b (setReg r v b)" by (rule machine_setReg [OF r])
  have bank: "machine_step b (b\<lparr>banks := k\<rparr>)" if "wf_banks (banks b) \<Longrightarrow> wf_banks k" for k
    using that by (intro machine_stepI) (auto simp: wf_flags_def dest: machine_invD)
  show ?thesis
    unfolding writeUserRegister_def Let_def using put by (auto intro!: bank simp: wf_banks_def)
qed

lemma machine_cp15: "machine_step b (snd (executeCP15 pc i b))"
proof (rule executeCP15_cases [of b pc i])
  assume "core_frame b (snd (executeCP15 pc i b))"
  then show ?thesis by (rule machine_core)
next
  fix r v assume "r \<noteq> (16 :: u32)" "core_frame (setReg r v b) (snd (executeCP15 pc i b))"
  then show ?thesis using machine_trans [OF machine_setReg machine_core] by blast
next
  fix v
  let ?s = "resolveFlags b"
  let ?t = "setReg RegisterCPSR ((regs ?s RegisterCPSR AND NOT 0xf0000000) OR (v AND 0xf0000000)) ?s"
  assume t: "core_frame ?t (snd (executeCP15 pc i b))"
  have m: "(0xf0000000 :: u32) = push_bit 28 (Bit_Operations.mask 4)" by (simp add: mask_eq_exp_minus_1)
  have "bit ((x AND NOT 0xf0000000) OR (v AND 0xf0000000)) j = bit x j" if "j < 28" for x :: u32 and j
    unfolding m using that
    by (auto simp: bit_or_iff bit_and_iff bit_not_iff bit_push_bit_iff dest: bit_imp_le_length)
  then have "machine_step ?s ?t" by (intro machine_nz) auto
  then show ?thesis using machine_trans [OF machine_resolve] machine_core [OF t] machine_trans by blast
qed

interpretation machine: instruction_frame machine_step "\<lambda>_ _. False"
proof unfold_locales
  show "machine_step s s" for s by (simp add: machine_step_def)
  show "machine_step s t \<Longrightarrow> machine_step t u \<Longrightarrow> machine_step s u" for s t u by (rule machine_trans)
  show "machine_step b b' \<Longrightarrow> (systemBus b' = None) = (systemBus b = None)" for b b'
    by (simp add: machine_step_def machine_config_def)
  show "machine_step b (snd (read8 a p b))" "machine_step b (snd (read16 a p b))"
    "machine_step b (snd (read32 a p b))" "machine_step b (snd (fetch16 a b))"
    "machine_step b (snd (fetch32 a b))" for a p b
    by (rule machine_core, rule core_access, simp add: frames)+
  show "vs \<noteq> [] \<Longrightarrow> machine_step b (snd (writeRouted a vs PermissionWrite b))"
    "machine_step b (snd (copyIn a vs PermissionWrite b))" for vs a b
    by (auto intro!: machine_core core_access simp: frames)
  show "machine_step b b' \<Longrightarrow> systemBus b \<noteq> None \<or> (\<exists>e. mmu_error e \<and> \<not> False) \<Longrightarrow> exceptionMode pm \<Longrightarrow>
      machine_step b (enterException pm vec l b')" for b b' pm vec l
    by (rule machine_trans) (auto intro: machine_exception)
qed (auto intro: machine_setReg machine_lazy machine_resolve machine_nz machine_mode machine_host
    machine_writeStatus machine_writeUser machine_cp15)

subsection \<open>Loops make progress\<close>

text \<open>How many interrupts can still be taken before an instruction retires.\<close>

definition unmasked :: "backend \<Rightarrow> nat" where
  "unmasked b =
     (if regs b RegisterCPSR AND statusIRQDisable = 0 then 2
      else if regs b RegisterCPSR AND statusFIQDisable = 0 then 1 else 0)"

lemma unmasked_le: "unmasked b \<le> 2"
  by (simp add: unmasked_def)

lemma interrupt_masks:
  assumes "takePendingInterrupt b = (True, b')"
  shows "unmasked b' < unmasked b" "mode b' = ModeARM"
proof -
  have "(b' = enterException processorModeFIQ vectorFIQ (regs b RegisterPC + 4) b \<and> 
      regs b RegisterCPSR AND statusFIQDisable = 0) \<or>
    (b' = enterException processorModeIRQ vectorIRQ (regs b RegisterPC + 4) b \<and>
      regs b RegisterCPSR AND statusIRQDisable = 0)"
    using assms by (auto simp: takePendingInterrupt_def takePendingInterruptLines_def Let_def split: if_splits)
  then show "unmasked b' < unmasked b" "mode b' = ModeARM"
    using enterException_masks(1) [of processorModeFIQ vectorFIQ "regs b RegisterPC + 4" b]
      enterException_masks(2) [of processorModeFIQ vectorFIQ "regs b RegisterPC + 4" b]
      enterException_masks(1) [of processorModeIRQ vectorIRQ "regs b RegisterPC + 4" b]
    by (auto simp: unmasked_def register_defs enterException_fields)
qed

lemma fault_mode: "handleMMUFault e pc b = (True, b') \<Longrightarrow> mode b' = ModeARM"
  "handleCurrentMMUFault e b = (True, b') \<Longrightarrow> mode b' = ModeARM"
  using handle_not_mmu [of e] handle_mmu(1) [of e pc b] handle_mmu(2) [of e b]
  by (cases "mmu_error e"; auto simp: enterException_fields)+

lemma handled_mmu: "fst (handleMMUFault e pc b) \<longleftrightarrow> mmu_error e" "fst (handleCurrentMMUFault e b) \<longleftrightarrow> mmu_error e"
  using handle_not_mmu [of e] handle_mmu(1) [of e pc b] handle_mmu(2) [of e b] by (cases "mmu_error e"; auto)+

lemma round_cases:
  assumes "armInstrumentedRound w traced b = (q, s)"
  shows "q = Interrupted \<Longrightarrow> unmasked s < unmasked b \<and> mode s = ModeARM"
    and "q = Faulted e \<Longrightarrow> mode s = ModeARM"
    and "q = Finished t \<Longrightarrow> batch_err t \<noteq> None \<or> batch_reason t \<noteq> None"
    and "q = Finished t \<Longrightarrow> retired t \<le> 1"
    and "q = Finished t \<Longrightarrow> batch_err t = Some e' \<Longrightarrow> \<not> mmu_error e'"
proof -
  obtain taken b0 where b0: "(if w then takePendingInterrupt b else (False, b)) = (taken, b0)" by fastforce
  have int: "taken \<Longrightarrow> unmasked b0 < unmasked b \<and> mode b0 = ModeARM"
    using b0 interrupt_masks [of b b0] by (auto split: if_splits)
  note round = assms [unfolded armInstrumentedRound_def Let_def b0 prod.case]
  show "q = Interrupted \<Longrightarrow> unmasked s < unmasked b \<and> mode s = ModeARM"
    "q = Faulted e \<Longrightarrow> mode s = ModeARM"
    "q = Finished t \<Longrightarrow> batch_err t \<noteq> None \<or> batch_reason t \<noteq> None"
    "q = Finished t \<Longrightarrow> retired t \<le> 1"
    "q = Finished t \<Longrightarrow> batch_err t = Some e' \<Longrightarrow> \<not> mmu_error e'"
    using round int fault_mode(1) handled_mmu(1)
    by (auto simp: batchStop_def batchError_def split: if_splits prod.splits sum.splits option.splits)
      (metis fst_conv)+
qed

text \<open>
  The instrumented loop returns: an interrupt lowers \<open>unmasked\<close>, an abort counts towards
  the limit of 1024, a retirement lowers the instructions left.
\<close>

lemma instrumented_returns:
  "faults < 1024 \<Longrightarrow> 3 * (1024 * n + (1024 - faults)) + unmasked b \<le> fuel \<Longrightarrow>
     \<exists>t b'. armInstrumentedLoop fuel w traced n faults b = Some (t, b')"
proof (induction fuel arbitrary: n faults b)
  case 0
  then show ?case by (cases n) auto
next
  case (Suc fuel)
  show ?case
  proof (cases n)
    case 0
    then show ?thesis by simp
  next
    case (Suc k)
    obtain q s where round: "armInstrumentedRound w traced b = (q, s)" by fastforce
    have s: "unmasked s \<le> 2" by (rule unmasked_le)
    note m = Suc.prems(2) [unfolded \<open>n = Suc k\<close>]
    show ?thesis
    proof (cases q)
      case Interrupted
      then have "unmasked s < unmasked b" using round_cases(1) [OF round] by simp
      then have "\<exists>t b'. armInstrumentedLoop fuel w traced n faults s = Some (t, b')"
        using Suc.prems by (intro Suc.IH) auto
      then show ?thesis using \<open>n = Suc k\<close> Interrupted round by simp
    next
      case (Faulted e)
      have "\<exists>t b'. armInstrumentedLoop fuel w traced n (faults + 1) s = Some (t, b')"
        if "faults + 1 < 1024"
        using that Suc.prems(2) s by (intro Suc.IH) auto
      then show ?thesis using \<open>n = Suc k\<close> Faulted round by auto
    next
      case Retired
      have "\<exists>t b'. armInstrumentedLoop fuel w traced k 0 s = Some (t, b')"
        using Suc.prems(1) m s by (intro Suc.IH) auto
      then show ?thesis using \<open>n = Suc k\<close> Retired round by auto
    qed (use \<open>n = Suc k\<close> round in simp)
  qed
qed

lemma retired_retire [simp]: "retired (fst (retire n r)) = n + retired (fst r)"
  "batch_err (fst (retire n r)) = batch_err (fst r)" "batch_reason (fst (retire n r)) = batch_reason (fst r)"
  "snd (retire n r) = snd r"
  by (simp_all add: retire_def split_beta)

text \<open>What a batch of at most \<open>n\<close> instructions answers.\<close>

definition batch_sound :: "nat \<Rightarrow> batch \<times> backend \<Rightarrow> bool" where
  "batch_sound n r \<longleftrightarrow> retired (fst r) \<le> n"

definition batch_progress :: "batch \<times> backend \<Rightarrow> bool" where
  "batch_progress r \<longleftrightarrow> 0 < retired (fst r) \<or> batch_err (fst r) \<noteq> None \<or> batch_reason (fst r) \<noteq> None"

lemmas batch_defs = batchEnd_def batchError_def batchStop_def

lemma instrumented_batch:
  "armInstrumentedLoop fuel w traced n faults b = Some r \<Longrightarrow>
     batch_sound n r \<and> (\<forall>e. batch_err (fst r) = Some e \<longrightarrow> \<not> mmu_error e) \<and>
     (mode b = ModeARM \<and> 0 < n \<longrightarrow> batch_progress r)"
proof (induction fuel arbitrary: n faults b r)
  case 0
  then show ?case by (cases n) (auto simp: batch_sound_def batch_defs)
next
  case (Suc fuel)
  obtain q s where round: "armInstrumentedRound w traced b = (q, s)" by fastforce
  note c = round_cases [OF round]
  show ?case
  proof (cases n)
    case 0
    then show ?thesis using Suc.prems by (auto simp: batch_sound_def batch_defs)
  next
    case n: (Suc k)
    show ?thesis
    proof (cases "mode b = ModeARM")
      case False
      then show ?thesis using Suc.prems n by (auto simp: batch_sound_def batch_defs)
    next
      case True
      show ?thesis
      proof (cases q)
        case Interrupted
        then show ?thesis using Suc.prems Suc.IH n True round c(1) by auto
      next
        case (Faulted e)
        then show ?thesis using Suc.prems Suc.IH n True round c(2)
          by (auto simp: batch_sound_def batch_progress_def batch_defs split: if_splits)
      next
        case Retired
        then obtain r0 where r0: "armInstrumentedLoop fuel w traced k 0 s = Some r0" "r = retire 1 r0"
          using Suc.prems n True round by auto
        then show ?thesis using Suc.IH [OF r0(1)] n by (auto simp: batch_sound_def batch_progress_def)
      next
        case (Finished t)
        then show ?thesis using Suc.prems n True round c(3-5)
          by (auto simp: batch_sound_def batch_progress_def)
      qed
    qed
  qed
qed

lemmas instrumented_progress = instrumented_batch [THEN conjunct1]
  instrumented_batch [THEN conjunct2, THEN conjunct1, rule_format]
  instrumented_batch [THEN conjunct2, THEN conjunct2, rule_format, OF _ conjI]

lemma armLoop_progress:
  "batch_sound n (armLoop n b)" "mode b = ModeARM \<Longrightarrow> 0 < n \<Longrightarrow> batch_progress (armLoop n b)"
proof -
  show "batch_sound n (armLoop n b)"
  proof (induction n arbitrary: b)
    case (Suc n)
    then show ?case
      by (auto simp: batch_sound_def batch_defs split: prod.split sum.split option.split)
  qed (simp add: batch_sound_def batch_defs)
  show "mode b = ModeARM \<Longrightarrow> 0 < n \<Longrightarrow> batch_progress (armLoop n b)"
    by (cases n) (auto simp: batch_progress_def batch_defs split: prod.split sum.split option.split)
qed

text \<open>A Thumb batch that retires nothing leaves Thumb state.\<close>

lemma thumbLoop_progress:
  "batch_sound n (thumbLoop traced n b)"
  "0 < n \<Longrightarrow> batch_progress (thumbLoop traced n b) \<or> mode (snd (thumbLoop traced n b)) = ModeARM"
proof -
  show "batch_sound n (thumbLoop traced n b)"
  proof (induction n arbitrary: b)
    case (Suc n)
    then show ?case
      by (auto simp: batch_sound_def batch_defs Let_def split: prod.split sum.split option.split)
  qed (simp add: batch_sound_def batch_defs)
  show "0 < n \<Longrightarrow> batch_progress (thumbLoop traced n b) \<or> mode (snd (thumbLoop traced n b)) = ModeARM"
    using fault_mode(1)
    by (cases n) (auto simp: batch_progress_def batch_defs Let_def split: prod.split sum.split option.split)
qed

lemma thumbSystem_progress:
  "batch_sound n (runThumbSystem n b)"
  "0 < n \<Longrightarrow> batch_progress (runThumbSystem n b) \<or> mode (snd (runThumbSystem n b)) = ModeARM"
proof -
  have unfold: "\<exists>taken s t u. takePendingInterrupt c = (taken, s) \<and>
      runThumbBatch (Suc 0) (s\<lparr>instructionAddress := regs s RegisterPC\<rparr>) = (t, u) \<and> retired t \<le> 1 \<and>
      (batch_progress (t, u) \<or> mode u = ModeARM) \<and> (taken \<longrightarrow> mode s = ModeARM) \<and>
      runThumbSystem (Suc k) c =
        (if taken then (batchEnd 0, s)
         else if executionTrapAt ModeThumb (regs s RegisterPC) s then (batchStop 0 StopExecutionTrap, s)
         else if batch_err t \<noteq> None \<or> batch_reason t \<noteq> None \<or> mode u \<noteq> ModeThumb then (t, u)
         else retire (retired t) (runThumbSystem k u))" for k c
  proof -
    obtain taken s where s: "takePendingInterrupt c = (taken, s)" by fastforce
    define s1 where "s1 = s\<lparr>instructionAddress := regs s RegisterPC\<rparr>"
    obtain t u where t: "runThumbBatch (Suc 0) s1 = (t, u)" by fastforce
    have "retired t \<le> 1" "batch_progress (t, u) \<or> mode u = ModeARM"
      using thumbLoop_progress [of "Suc 0" "tracing s1" s1] t by (simp_all add: batch_sound_def runThumbBatch_def)
    moreover have "taken \<longrightarrow> mode s = ModeARM" using s interrupt_masks(2) by (cases taken) auto
    ultimately show ?thesis by (intro exI [of _ taken] exI [of _ s] exI [of _ t] exI [of _ u])
        (simp add: s Let_def s1_def [symmetric] t)
  qed
  show "batch_sound n (runThumbSystem n b)"
  proof (induction n arbitrary: b)
    case (Suc n)
    from unfold [of b n] obtain taken s t u where "retired t \<le> 1" and
      "runThumbSystem (Suc n) b =
        (if taken then (batchEnd 0, s)
         else if executionTrapAt ModeThumb (regs s RegisterPC) s then (batchStop 0 StopExecutionTrap, s)
         else if batch_err t \<noteq> None \<or> batch_reason t \<noteq> None \<or> mode u \<noteq> ModeThumb then (t, u)
         else retire (retired t) (runThumbSystem n u))" by blast
    then show ?case using Suc.IH [of u]
      by (simp add: batch_sound_def batch_defs del: runThumbSystem.simps)
  qed (simp add: batch_sound_def batch_defs)
  show "batch_progress (runThumbSystem n b) \<or> mode (snd (runThumbSystem n b)) = ModeARM" if "0 < n"
  proof -
    obtain k where "n = Suc k" using \<open>0 < n\<close> gr0_implies_Suc by blast
    with unfold [of b k] show ?thesis
      by (auto simp: batch_progress_def batch_defs simp del: runThumbSystem.simps)
  qed
qed

subsection \<open>Stop reasons\<close>

text \<open>An instruction that stops a run is a breakpoint or a supervisor call.\<close>

definition breaks :: "StopReason option res \<Rightarrow> bool" where
  "breaks res \<longleftrightarrow> (\<forall>reason. fst res = Inr (Some reason) \<longrightarrow> reason = StopBreakpoint)"

named_theorems break_rules

lemma breaks_leaf [break_rules]:
  "breaks (done_step b)" "breaks (unsupportedThumb b)" "breaks (unsupportedARM b)"
  "breaks (Inr (Some StopBreakpoint), b)" "breaks (Inr None, b)" "breaks (Inl e, b)"
  by (simp_all add: breaks_def done_step_def unsupportedThumb_def unsupportedARM_def)

lemma breaks_and_then [break_rules]: "(\<And>v s. breaks (k v s)) \<Longrightarrow> breaks (and_then r k)"
  by (cases r; cases "fst r") (auto simp: breaks_def)

lemma breaks_split [break_rules]:
  "breaks x \<Longrightarrow> breaks y \<Longrightarrow> breaks (if c then x else y)"
  "(\<And>u v. breaks (f u v)) \<Longrightarrow> breaks (case p of (u, v) \<Rightarrow> f u v)"
  "breaks x \<Longrightarrow> (\<And>v. breaks (g v)) \<Longrightarrow> breaks (case w of None \<Rightarrow> x | Some v \<Rightarrow> g v)"
  by (auto split: option.split prod.split)

lemma breaks_loads [break_rules]: "breaks (loadReg rd r)" "breaks (after_store r')"
  unfolding loadReg_def after_store_def by (intro break_rules)+

lemma breaks_thumb: "breaks (executeThumb pc i b)"
  unfolding executeThumb_def execShiftImmediate_def execMoveImmediate_def execCompareImmediate_def
    execAddImmediate_def execSubtractImmediate_def execAddSubtract_def execAdjustStack_def execAddPCSP_def
    execALU_def execHighRegister_def execLiteralLoad_def execRegisterTransfer_def execImmediateTransfer_def
    execHalfwordTransfer_def execStackTransfer_def execPush_def execPop_def execMultipleTransfer_def
    execConditionalBranch_def execLongBranch_def execUnconditionalBranch_def Let_def
  by (cases "thumbInstructionClasses i") (simp_all only: thumbInstructionClass.case, (intro break_rules)+)

lemma breaks_arm_leaves:
  "breaks (armBX pc i b)" "breaks (armBLX pc i b)" "breaks (armBLXImmediate pc i b)" "breaks (armBranch pc i b)"
  "breaks (armCLZ i b)" "breaks (armSWP i b)" "breaks (armMultiply i b)" "breaks (armMultiplyLong i b)"
  "breaks (armHalfword pc i b)" "breaks (armMRS i b)" "breaks (armMSRRegister i b)" "breaks (armMSRImmediate i b)"
  "breaks (armDataProcessing pc i b)" "breaks (armTransfer pc i b)" "breaks (armBlock pc i b)"
  "breaks (armSWI pc i b)"
  unfolding armBX_def armBLX_def armBLXImmediate_def armBranch_def armCLZ_def armSWP_def armMultiply_def
    armMultiplyLong_def armHalfword_def armMRS_def armMSRRegister_def armMSRImmediate_def
    armDataProcessing_def armTransfer_def armBlock_def finishLDM_def armSWI_def Let_def
  by (intro break_rules)+

lemma breaks_arm: "breaks (executeARM pc i b)" "breaks (stepARM b)"
proof -
  show ex: "breaks (executeARM pc i b)" for pc i b
    unfolding executeARM_def by (intro break_rules breaks_arm_leaves)
  show "breaks (stepARM b)" unfolding stepARM_def Let_def by (intro break_rules ex)
qed

definition batch_stops :: "batch \<times> backend \<Rightarrow> bool" where
  "batch_stops r \<longleftrightarrow> (\<forall>reason. batch_reason (fst r) = Some reason \<longrightarrow>
     reason = StopBreakpoint \<or> reason = StopExecutionTrap)"

lemma breaks_eq: "breaks r \<Longrightarrow> r = (Inr (Some reason), b) \<Longrightarrow> reason = StopBreakpoint"
  by (simp add: breaks_def)

lemma stops_thumbLoop: "batch_stops (thumbLoop traced n b)"
proof (induction n arbitrary: b)
  case (Suc n)
  then show ?case
    by (auto simp: Let_def batch_stops_def batch_defs split: prod.split sum.split option.split
        dest: breaks_eq [OF breaks_thumb])
qed (simp add: batch_stops_def batch_defs)

lemma stops_thumbSystem: "batch_stops (runThumbSystem n b)"
proof (induction n arbitrary: b)
  case (Suc n)
  obtain taken s where s: "takePendingInterrupt b = (taken, s)" by fastforce
  obtain t u where t: "runThumbBatch (Suc 0) (s\<lparr>instructionAddress := regs s RegisterPC\<rparr>) = (t, u)" by fastforce
  have "batch_stops (t, u)"
    using stops_thumbLoop t by (metis runThumbBatch_def)
  then show ?case using Suc.IH [of u] by (auto simp: s t Let_def batch_stops_def batch_defs)
qed (simp add: batch_stops_def batch_defs)

lemma stops_armLoop: "batch_stops (armLoop n b)"
proof (induction n arbitrary: b)
  case (Suc n)
  then show ?case
    by (auto simp: batch_stops_def batch_defs split: prod.split sum.split option.split
        dest: breaks_eq [OF breaks_arm(2)])
qed (simp add: batch_stops_def batch_defs)

lemma stops_round:
  "armInstrumentedRound w traced b = (Finished t, s) \<Longrightarrow> batch_stops (t, s)"
  unfolding armInstrumentedRound_def Let_def
  by (auto simp: batch_stops_def batch_defs split: if_splits prod.splits sum.splits option.splits
      dest: breaks_eq [OF breaks_arm(2)])

lemma stops_instrumented: "armInstrumentedLoop fuel w traced n faults b = Some r \<Longrightarrow> batch_stops r"
proof (induction fuel arbitrary: n faults b r)
  case 0
  then show ?case by (cases n) (auto simp: batch_stops_def batch_defs)
next
  case (Suc fuel)
  obtain q s where round: "armInstrumentedRound w traced b = (q, s)" by fastforce
  have err: "batch_stops (batchError 0 e, s)" "batch_stops (batchEnd 0, b)" for e
    by (simp_all add: batch_stops_def batch_defs)
  have "batch_stops (retire 1 r')" if "batch_stops r'" for r' using that by (simp add: batch_stops_def)
  then show ?case
    using Suc.prems Suc.IH stops_round round err
    by (cases n; cases q) (auto split: if_splits)
qed

subsection \<open>Runs with a budget end\<close>

lemma runBatch_facts:
  assumes "0 < n" and "runBatch n b = Some (t, s)"
  shows "retired t \<le> n" "batch_stops (t, s)"
    "batch_progress (t, s) \<or> mode b = ModeThumb \<and> mode s = ModeARM"
    "systemBus b \<noteq> None \<Longrightarrow> mode b = ModeARM \<Longrightarrow> batch_err t = Some e \<Longrightarrow> \<not> mmu_error e"
proof -
  have eq: "if mode b = ModeThumb
      then (if systemBus b \<noteq> None then runThumbSystem n b = (t, s) else thumbLoop (tracing b) n b = (t, s))
      else (if systemBus b \<noteq> None \<or> tracing b
            then armInstrumentedLoop (armInstrumentedFuel n) (systemBus b \<noteq> None) (tracing b) n 0 b = Some (t, s)
            else armLoop n b = (t, s))"
    using assms(2) by (auto simp: runBatch_def runThumb_def runThumbBatch_def runARM_def runARMInstrumented_def)
  have arm: "mode b \<noteq> ModeThumb \<Longrightarrow> mode b = ModeARM" by (cases "mode b") auto
  show "retired t \<le> n"
    using eq thumbSystem_progress(1) [of n b] thumbLoop_progress(1) [of n "tracing b" b]
      armLoop_progress(1) [of n b] instrumented_progress(1)
    by (fastforce simp: batch_sound_def split: if_splits)
  show "batch_stops (t, s)"
    using eq stops_thumbSystem [of n b] stops_thumbLoop [of "tracing b" n b] stops_armLoop [of n b] stops_instrumented
    by (auto split: if_splits)
  show "batch_progress (t, s) \<or> mode b = ModeThumb \<and> mode s = ModeARM"
    using eq arm assms(1) thumbSystem_progress(2) [of n b] thumbLoop_progress(2) [of n "tracing b" b]
      armLoop_progress(2) [of b n] instrumented_progress(3) [of _ _ _ n 0 b "(t, s)"]
    by (auto split: if_splits)
  show "systemBus b \<noteq> None \<Longrightarrow> mode b = ModeARM \<Longrightarrow> batch_err t = Some e \<Longrightarrow> \<not> mmu_error e"
    using eq instrumented_progress(2) [of _ _ _ n 0 b "(t, s)" e] by auto
qed

lemma runBatch_returns: "\<exists>t s. runBatch n b = Some (t, s)"
proof -
  have "\<exists>t s. armInstrumentedLoop (armInstrumentedFuel n) w traced n 0 b = Some (t, s)" for w traced
    using unmasked_le [of b] by (intro instrumented_returns) (simp_all add: armInstrumentedFuel_def)
  then show ?thesis by (cases "armLoop n b"; cases "runThumb n b")
      (auto simp: runBatch_def runARM_def runARMInstrumented_def)
qed

text \<open>A machine whose runs cannot stall: a bus, or an application guest.\<close>

definition schedulable :: "backend \<Rightarrow> bool" where
  "schedulable b \<longleftrightarrow> systemBus b \<noteq> None \<or> guest_inv b"

lemma schedulable_step: "guest_step b b' \<Longrightarrow> schedulable b \<Longrightarrow> schedulable b'"
  by (auto simp: schedulable_def guest_step_def)

text \<open>What a finished run reports.\<close>

definition run_result :: "nat \<Rightarrow> Result \<times> backend \<Rightarrow> bool" where
  "run_result budget r \<longleftrightarrow> Instructions (fst r) \<le> budget \<and> result_PC (fst r) = regs (snd r) RegisterPC \<and>
     (Reason (fst r) = StopBudget \<longrightarrow> Instructions (fst r) = budget)"

definition run_measure :: "nat \<Rightarrow> nat \<Rightarrow> backend \<Rightarrow> nat" where
  "run_measure budget executed b = 2 * (budget - executed) + (if mode b = ModeThumb then 1 else 0)"

lemma pollHost_mode: "mode (snd (pollHost h executed b)) = mode b"
  by (auto simp: pollHost_def Let_def split: option.split)

lemma pollHost_result:
  "pollHost h executed b = (Some r, s) \<Longrightarrow> executed \<le> budget \<Longrightarrow> run_result budget (r, s)"
  by (auto simp: pollHost_def Let_def runResult_def run_result_def split: if_splits option.splits)

lemma runLoop_returns:
  assumes "schedulable b" and "0 < budget" and "executed \<le> budget" and "run_measure budget executed b \<le> fuel"
  shows "\<exists>r. runLoop fuel polls k budget executed b = Some r \<and> run_result budget r"
  using assms
proof (induction fuel arbitrary: k executed b)
  case 0
  then have "budget \<le> executed" "executed \<le> budget" by (simp_all add: run_measure_def)
  then show ?case using "0.prems" pollHost_result [of "polls k" executed b]
    by (auto simp: runLoop.simps [of 0] run_result_def runResult_def split: prod.split option.split)
next
  case (Suc fuel)
  obtain q s where poll: "pollHost (polls k) executed b = (q, s)" by fastforce
  have s: "guest_step b s" "mode s = mode b"
    using guest.R_pollHost [of b "polls k" executed] pollHost_mode [of "polls k" executed b]
    by (simp_all add: poll)
  show ?case
  proof (cases "budget \<le> executed \<or> q \<noteq> None")
    case True
    then have "(budget \<noteq> 0 \<and> budget \<le> executed) \<or> pollHost (polls k) executed b = (Some (the q), s)"
      using poll Suc.prems(2) by auto
    from runLoop_end [where fuel = fuel and polls = polls, OF this] show ?thesis
      using True Suc.prems(2,3) pollHost_result [of "polls k" executed b]
      by (auto simp: poll run_result_def runResult_def split: option.splits)
  next
    case False
    then have go: "budget = 0 \<or> executed < budget" "pollHost (polls k) executed b = (None, s)"
      using poll by auto
    note step = runLoop_step [where polls = polls and k = k, OF go]
    define n where "n = batchLimit budget executed"
    have n: "0 < n" "executed + n \<le> budget"
      using go(1) Suc.prems(2) by (auto simp: n_def batchLimit_def runBatchInstructions_def)
    obtain t u where batch: "runBatch n s = Some (t, u)" using runBatch_returns by blast
    note f = runBatch_facts [OF n(1) batch]
    have b: "guest_step s u" "\<And>e. batch_err t = Some e \<Longrightarrow> \<not> guest_bad s e"
      using guest.keeps_runBatch [OF batch] by (auto simp: guest.keeps_batch_def)
    have sch: "schedulable s" by (rule schedulable_step [OF s(1) Suc.prems(1)])
    have ret: "executed + retired t \<le> budget" using f(1) n(2) by simp
    have next_turn: "\<exists>r. runLoop fuel polls (Suc k) budget (executed + retired t) v = Some r \<and> run_result budget r"
      if "guest_step s v" "0 < retired t \<or> mode s = ModeThumb \<and> mode v = ModeARM" for v
    proof (rule Suc.IH [OF schedulable_step [OF that(1) sch] Suc.prems(2) ret])
      show "run_measure budget (executed + retired t) v \<le> fuel"
        using that(2) Suc.prems(4) go(1) Suc.prems(2) ret s(2) by (auto simp: run_measure_def split: if_splits)
    qed
    have result: "run_result budget (runResult reason (executed + retired t) e v, v)" if "reason \<noteq> StopBudget"
      for reason e v using that ret by (simp add: run_result_def runResult_def)
    show ?thesis
    proof (cases "batch_err t")
      case None
      have "reason \<noteq> StopBudget" if "batch_reason t = Some reason" for reason
        using f(2) that by (auto simp: batch_stops_def)
      moreover have "batch_reason t = None \<Longrightarrow> 0 < retired t \<or> mode s = ModeThumb \<and> mode u = ModeARM"
        using f(3) None by (auto simp: batch_progress_def)
      ultimately show ?thesis
        using None next_turn [OF b(1)] result
        by (cases "batch_reason t") (auto simp: step n_def [symmetric] batch)
    next
      case (Some e)
      let ?v = "snd (handleCurrentMMUFault e u)"
      show ?thesis
      proof (cases "mmu_error e")
        case True
        have "mode s \<noteq> ModeARM"
          using f(4) [OF _ _ Some] b(2) [OF Some] sch True by (auto simp: schedulable_def guest_bad_def)
        then have "mode s = ModeThumb" by (cases "mode s") auto
        moreover have "mode ?v = ModeARM" "fst (handleCurrentMMUFault e u)"
          using True handled_mmu(2) [of e u] fault_mode(2) [of e u ?v] by (simp_all add: prod_eq_iff)
        ultimately show ?thesis
          using next_turn [OF guest.R_fault(2) [OF b(2) [OF Some] b(1)]] Some
          by (simp add: step n_def [symmetric] batch)
      next
        case False
        then show ?thesis using Some result handled_mmu(2) [of e u] by (simp add: step n_def [symmetric] batch)
      qed
    qed
  qed
qed

text \<open>
  C3.  A run with a budget comes back.  On a machine with a bus, and on an application guest
  without one, whatever the code, the interrupts, the aborts and the host do, \<open>Run\<close> returns
  after at most \<open>2 * budget + 1\<close> batches; it has retired at most the budget, reports the
  program counter the machine is left with, and reports an exhausted budget only when exactly
  that many instructions retired.
\<close>

theorem Run_returns:
  assumes "schedulable b" and "0 < budget" and "\<not> closed b" and "\<not> misaligned address m"
  shows "\<exists>r b'. Run (2 * budget + 1) polls address m budget b = Some (r, b') \<and>
    Instructions r \<le> budget \<and> result_PC r = regs b' RegisterPC \<and>
    (Reason r = StopBudget \<longrightarrow> Instructions r = budget)"
proof -
  have "guest_step b (startRun address m b)"
    unfolding startRun_def
    by (rule guest.frame_trans [OF guest.R_updates(1) [OF guest.mode_law] guest.host_law(4)]) simp
  then have "schedulable (startRun address m b)" using assms(1) by (rule schedulable_step)
  moreover have "run_measure budget 0 (startRun address m b) \<le> 2 * budget + 1" by (simp add: run_measure_def)
  ultimately obtain r where "runLoop (2 * budget + 1) polls 0 budget 0 (startRun address m b) = Some r"
    "run_result budget r"
    using runLoop_returns [OF _ assms(2)] by blast
  then show ?thesis using assms(3,4) by (cases r) (auto simp: Run_def run_result_def)
qed

theorem Run_returns_witness:
  "\<exists>r b'. Run 21 quietHost 0x2000 ModeThumb 10 sampleBackend = Some (r, b') \<and> Instructions r \<le> 10"
proof -
  have "schedulable sampleBackend" "\<not> closed sampleBackend" "\<not> misaligned 0x2000 ModeThumb"
    by (simp_all add: schedulable_def guest_inv_sample sampleBackend_fields misaligned_def)
  from Run_returns [OF this(1) _ this(2,3), of 10 quietHost] show ?thesis by auto
qed

subsection \<open>The public interface keeps the invariant\<close>

lemma machine_inv_core: "core_frame b b' \<Longrightarrow> machine_inv b \<Longrightarrow> machine_inv b'"
  using machine_core by (simp add: machine_step_def)

lemma machine_inv_step: "machine_step b b' \<Longrightarrow> machine_inv b \<Longrightarrow> machine_inv b'"
  by (simp add: machine_step_def)

text \<open>Anything that leaves the processor alone.\<close>

lemma machine_inv_same:
  "regs b' = regs b \<Longrightarrow> flags b' = flags b \<Longrightarrow> mode b' = mode b \<Longrightarrow> banks b' = banks b \<Longrightarrow>
     machine_inv b \<Longrightarrow> machine_inv b'"
  by (simp add: machine_inv_def wf_flags_def)

lemma machine_inv_host_ops:
  assumes "machine_inv b"
  shows "machine_inv (snd (Map_op a sz p b))" "machine_inv (snd (AttachSystemBus bus b))"
    "machine_inv (snd (SetInterruptLine line asserted b))" "machine_inv (snd (SetExecutionTraps traps b))"
    "machine_inv (snd (SetPCHistoryLimit n b))" "machine_inv (snd (SetPCRegisterCapture a n b))"
    "machine_inv (snd (SetCP15ControlHistoryLimit n b))"
    "machine_inv (snd (SetInstructionCachePrefetchHistoryLimit n b))"
    "machine_inv (snd (Stop b))" "machine_inv (snd (Close b))"
  by (rule machine_inv_same [OF _ _ _ _ assms];
      simp add: Map_op_def AttachSystemBus_def SetInterruptLine_def SetExecutionTraps_def SetPCHistoryLimit_def
        SetPCRegisterCapture_def SetCP15ControlHistoryLimit_def SetInstructionCachePrefetchHistoryLimit_def
        Stop_def Close_def Let_def clearDataCaches_def invalidateInstructionWindow_def refreshPhysicalAccess_def
        invalidateTranslations_def split: option.split sum.split)+

lemma machine_inv_memory_ops:
  assumes "machine_inv b"
  shows "machine_inv (snd (ReadMemory a n b))" "machine_inv (snd (WriteMemory a vs b))"
    "machine_inv (snd (PhysicalAddress a p b))"
  by (rule machine_inv_core [OF core_access assms];
      simp add: ReadMemory_def WriteMemory_def PhysicalAddress_def frames)+

lemma machine_inv_status:
  "wf_banks (banks s) \<Longrightarrow> \<not> flags_dirty (flags s) \<Longrightarrow>
     machine_inv (invalidateInstructionWindow ((setReg RegisterCPSR v s)\<lparr>mode := modeOfStatus v\<rparr>))"
  by (simp add: machine_inv_def wf_flags_def invalidateInstructionWindow_def setReg_def thumb_modeOfStatus)

lemma machine_inv_writeRegister:
  assumes "machine_inv b"
  shows "machine_inv (snd (writeRegisterLocked r v b))"
proof (cases "17 \<le> r \<or> r \<noteq> RegisterCPSR")
  case True
  then show ?thesis
    using assms machine_inv_step [OF machine_setReg [of r b v]]
    by (auto simp: writeRegisterLocked_def register_defs)
next
  case False
  then show ?thesis
    using machine_invD(2) [OF assms]
    by (auto simp: writeRegisterLocked_def Let_def split_beta intro!: machine_inv_status wf_banks_switch)
qed

lemma machine_inv_statistics [simp]: "machine_inv (b\<lparr>executionStatistics := x\<rparr>) = machine_inv b"
  by (simp add: machine_inv_def wf_flags_def)

lemma machine_inv_register_ops:
  assumes "machine_inv b"
  shows "machine_inv (snd (ReadRegister r b))" "machine_inv (snd (WriteRegister r v b))"
  using assms machine_inv_writeRegister machine_inv_step [OF machine_resolve]
  by (auto simp: ReadRegister_def WriteRegister_def Let_def)

lemma machine_inv_commit: "machine_inv b \<Longrightarrow> machine_inv (snd (commitRegisters commit rs b))"
proof (induction rs arbitrary: b)
  case (Cons r rs)
  obtain x s where x: "writeRegisterLocked r (commit_Values commit r) b = (x, s)" by fastforce
  have "machine_inv s" using machine_inv_writeRegister [OF Cons.prems, of r "commit_Values commit r"] by (simp add: x)
  then show ?case using Cons x by (cases x) auto
qed simp

lemma capture_frame: "access_frame b (snd (captureHostCallWords a n b))"
  unfolding captureHostCallWords_def
  by (auto simp: frames intro!: access.and_then_frame)

lemma and_then_inv:
  "machine_inv (snd r) \<Longrightarrow> (\<And>v s. machine_inv s \<Longrightarrow> machine_inv (snd (k v s))) \<Longrightarrow> machine_inv (snd (and_then r k))"
  by (cases r; cases "fst r") auto

lemma machine_inv_host_calls:
  assumes "machine_inv b"
  shows "machine_inv (snd (CaptureHostCallFrame request b))"
    "machine_inv (snd (CommitHostCallRegisters commit b))" "machine_inv (snd (ReturnHostCallFrame low high b))"
proof -
  have res: "machine_inv (resolveFlags b)" by (rule machine_inv_step [OF machine_resolve assms])
  have cap: "machine_inv (snd (captureHostCallWords a n s))" if "machine_inv s" for a n s
    by (rule machine_inv_core [OF core_access [OF capture_frame] that])
  show "machine_inv (snd (CaptureHostCallFrame request b))"
    using res assms unfolding CaptureHostCallFrame_def Let_def
    by (auto intro!: and_then_inv cap simp: countFrameCapture_def)
  show "machine_inv (snd (CommitHostCallRegisters commit b))"
    using assms unfolding CommitHostCallRegisters_def
    by (auto intro!: and_then_inv machine_inv_commit simp: countRegisterCommit_def)
  show "machine_inv (snd (ReturnHostCallFrame low high b))"
    using assms machine_invD(2) [OF assms] unfolding ReturnHostCallFrame_def Let_def
    by (auto simp: countRegisterCommit_def countReturnBatch_def countFrameCapture_def
        intro!: machine_inv_status) (simp_all add: setReg_def)
qed

text \<open>Contexts, from any bytes.\<close>

lemma machine_inv_setMode:
  "wf_banks (banks b) \<Longrightarrow> \<not> flags_dirty (flags b) \<Longrightarrow> machine_inv (setModeFlag (b\<lparr>mode := m\<rparr>))"
  by (cases m) (auto simp: machine_inv_def wf_flags_def setModeFlag_def bit_or_iff bit_and_iff bit_not_iff
      bit_StatusThumb)

lemma restored_lines_frame:
  "banks (fold (\<lambda>(address, line). restoreInstructionCacheLine address line) ls b) = banks b"
  "regs (fold (\<lambda>(address, line). restoreInstructionCacheLine address line) ls b) = regs b"
  "spsr (fold (\<lambda>(address, line). restoreInstructionCacheLine address line) ls b) = spsr b"
  "cp15 (fold (\<lambda>(address, line). restoreInstructionCacheLine address line) ls b) = cp15 b"
  by (induction ls arbitrary: b)
    (auto simp: restoreInstructionCacheLine_def Let_def setICEntry_def nextICSerial_def ensureICTable_def
      invalidateInstructionWindow_def split: option.split)

lemma machine_inv_contexts:
  assumes "machine_inv b"
  shows "machine_inv (snd (SaveContext b))" "machine_inv (snd (RestoreContext iter data b))"
    "machine_inv (snd (SaveExecutionContext self dst b))"
    "machine_inv (snd (MarshalExecutionContext self ctx b))"
    "wf_banks (ctx_banks ctx) \<Longrightarrow> machine_inv (snd (RestoreExecutionContext self ctx b))"
proof -
  have res: "machine_inv (resolveFlags b)" by (rule machine_inv_step [OF machine_resolve assms])
  show "machine_inv (snd (SaveContext b))" "machine_inv (snd (SaveExecutionContext self dst b))"
    "machine_inv (snd (MarshalExecutionContext self ctx b))"
    using assms res by (auto simp: SaveContext_def SaveExecutionContext_def MarshalExecutionContext_def Let_def
        countSerializedSave_def countFastSave_def)
  have wf: "wf_banks (readBanks data)" "wf_banks zeroBanks"
    by (simp_all add: wf_banks_def readBanks_def zeroBanks_def readWords_def)
  show "machine_inv (snd (RestoreContext iter data b))"
    using assms wf unfolding RestoreContext_def Let_def
    by (auto split: sum.split option.split simp: countSerializedRestore_def restored_lines_frame
        clearDataCaches_def refreshPhysicalAccess_def invalidateTLB_def invalidateTranslations_def
        invalidateInstructionWindow_def intro!: machine_inv_setMode)
  show "wf_banks (ctx_banks ctx) \<Longrightarrow> machine_inv (snd (RestoreExecutionContext self ctx b))"
    using assms unfolding RestoreExecutionContext_def Let_def
    by (auto simp: countFastRestore_def noFlags_def intro!: machine_inv_setMode)
qed

text \<open>The operations of the public interface, on one backend.\<close>

inductive api_step :: "backend \<Rightarrow> backend \<Rightarrow> bool" where
  api_Map: "api_step b (snd (Map_op a sz p b))"
| api_AttachSystemBus: "api_step b (snd (AttachSystemBus bus b))"
| api_ReadMemory: "api_step b (snd (ReadMemory a n b))"
| api_WriteMemory: "api_step b (snd (WriteMemory a vs b))"
| api_PhysicalAddress: "api_step b (snd (PhysicalAddress a p b))"
| api_ReadRegister: "api_step b (snd (ReadRegister r b))"
| api_WriteRegister: "api_step b (snd (WriteRegister r v b))"
| api_SetInterruptLine: "api_step b (snd (SetInterruptLine line asserted b))"
| api_SetExecutionTraps: "api_step b (snd (SetExecutionTraps traps b))"
| api_SetPCHistoryLimit: "api_step b (snd (SetPCHistoryLimit w b))"
| api_SetPCRegisterCapture: "api_step b (snd (SetPCRegisterCapture a w b))"
| api_SetCP15ControlHistoryLimit: "api_step b (snd (SetCP15ControlHistoryLimit w b))"
| api_SetPrefetchHistoryLimit: "api_step b (snd (SetInstructionCachePrefetchHistoryLimit w b))"
| api_Run: "Run fuel polls a m budget b = Some (r, b') \<Longrightarrow> api_step b b'"
| api_Stop: "api_step b (snd (Stop b))"
| api_Close: "api_step b (snd (Close b))"
| api_CaptureHostCallFrame: "api_step b (snd (CaptureHostCallFrame request b))"
| api_CommitHostCallRegisters: "api_step b (snd (CommitHostCallRegisters commit b))"
| api_ReturnHostCallFrame: "api_step b (snd (ReturnHostCallFrame low high b))"
| api_SaveContext: "api_step b (snd (SaveContext b))"
| api_RestoreContext: "api_step b (snd (RestoreContext iter data b))"
| api_SaveExecutionContext: "api_step b (snd (SaveExecutionContext self dst b))"
| api_MarshalExecutionContext: "api_step b (snd (MarshalExecutionContext self ctx b))"
| api_RestoreExecutionContext:
    "wf_banks (ctx_banks ctx) \<Longrightarrow> api_step b (snd (RestoreExecutionContext self ctx b))"

inductive_cases api_stepE: "api_step b b'"

lemma api_step_inv: "api_step b b' \<Longrightarrow> machine_inv b \<Longrightarrow> machine_inv b'"
  by (induction rule: api_step.induct)
    (auto intro: machine_inv_host_ops machine_inv_memory_ops machine_inv_register_ops machine_inv_host_calls
      machine_inv_contexts machine_inv_step [OF machine.R_Run])

definition reachable :: "backend \<Rightarrow> bool" where
  "reachable b \<longleftrightarrow> (\<exists>pc_trace limit spsr_as_cpsr.
     api_step\<^sup>*\<^sup>* ((NewWithMemoryLimit pc_trace limit)\<lparr>userSystemSPSRReadAsCPSR := spsr_as_cpsr\<rparr>) b)"

lemma machine_inv_New:
  "machine_inv ((NewWithMemoryLimit pc_trace limit)\<lparr>userSystemSPSRReadAsCPSR := c\<rparr>)"
  by (simp add: machine_inv_def NewWithMemoryLimit_def wf_flags_def noFlags_def wf_banks_def zeroBanks_def)

text \<open>
  C2.  Whatever sequence of public operations a host performs on a new backend - mapping,
  attaching a bus, running guest code of either instruction set for any budget, raising
  interrupts, restoring arbitrary bytes as a context, committing registers - the pending
  flags are confined to N, Z, C and V, every register bank has its size, and the T bit of the
  status word names the instruction set that executes next.
\<close>

theorem reachable_machine_inv:
  assumes "reachable b"
  shows "wf_flags b \<and> wf_banks (banks b) \<and> (bit (regs b RegisterCPSR) 5 \<longleftrightarrow> mode b = ModeThumb)"
proof -
  obtain t l c where "api_step\<^sup>*\<^sup>* ((NewWithMemoryLimit t l)\<lparr>userSystemSPSRReadAsCPSR := c\<rparr>) b"
    using assms by (auto simp: reachable_def)
  then have "machine_inv b" by (induction rule: rtranclp_induct) (auto intro: machine_inv_New api_step_inv)
  then show ?thesis by (simp add: machine_inv_def)
qed

theorem reachable_machine_inv_witness:
  "reachable (snd (WriteRegister 16 0x20 (NewWithMemoryLimit False 0))) \<and>
   mode (snd (WriteRegister 16 0x20 (NewWithMemoryLimit False 0))) = ModeThumb"
proof -
  let ?b = "NewWithMemoryLimit False 0"
  have same: "?b\<lparr>userSystemSPSRReadAsCPSR := False\<rparr> = ?b" by (simp add: NewWithMemoryLimit_def)
  have r: "reachable (snd (WriteRegister 16 0x20 ?b))"
    unfolding reachable_def
    by (rule exI [of _ False], rule exI [of _ 0], rule exI [of _ False])
      (simp add: same api_WriteRegister r_into_rtranclp)
  have "regs (snd (WriteRegister 16 0x20 ?b)) RegisterCPSR = 0x20"
    by (simp add: WriteRegister_def writeRegisterLocked_def Let_def split_beta register_defs
        NewWithMemoryLimit_def invalidateInstructionWindow_def)
  then show ?thesis using r reachable_machine_inv [OF r] by simp
qed

end
