(* ===== verification/Cpu_Saved_State.thy ===== *)
theory Cpu_Saved_State
  imports Cpu_Machine
begin

text \<open>
  Saved processor state: what \<open>SaveContext\<close> writes, \<open>RestoreContext\<close> reads back, on the
  same or another backend, with the resident instruction-cache lines; a rejected context
  changes nothing; task contexts restore the task they were taken from and leave memory
  alone.
\<close>

subsection \<open>Reading words back\<close>

lemma wordAt_skip: "wordAt (xs @ ys) (length xs + k) = wordAt ys k"
  by (simp add: wordAt_def slice_def)

lemma length_putWords [simp]: "length (putWords ws) = 4 * length ws"
  by (induction ws) (simp_all add: putWords_def)

lemma wordAt_putWords: "i < length ws \<Longrightarrow> wordAt (putWords ws @ ys) (4 * i) = ws ! i"
proof (induction ws arbitrary: i)
  case (Cons w ws)
  show ?case
  proof (cases i)
    case 0
    then show ?thesis by (simp add: wordAt_def slice_def putWords_def)
  next
    case (Suc j)
    have "wordAt (putWords (w # ws) @ ys) (4 * i) = wordAt (PutUint32 w @ (putWords ws @ ys)) (length (PutUint32 w) + 4 * j)"
      by (simp add: putWords_def Suc)
    also have "\<dots> = wordAt (putWords ws @ ys) (4 * j)" by (rule wordAt_skip)
    finally show ?thesis using Cons Suc by simp
  qed
qed simp

lemma wordAt_word: "wordAt (PutUint32 w @ ys) 0 = w"
  by (simp add: wordAt_def slice_def)

text \<open>The 51 words between the header and the cache lines.\<close>

definition contextWords :: "(u32 \<Rightarrow> u32) \<Rightarrow> bankedRegisters \<Rightarrow> savedProgramStatus \<Rightarrow> cp15State \<Rightarrow> u32 list" where
  "contextWords rs k s c = regWords rs @ bankWords k @ spsrWords s @ cp15Words c"

lemma length_contextWords: "wf_banks k \<Longrightarrow> length (contextWords rs k s c) = 51"
  by (simp add: contextWords_def regWords_def bankWords_def spsrWords_def cp15Words_def wf_banks_def)

subsection \<open>Cache lines\<close>

definition line_wf :: "u32 \<times> u8 list \<Rightarrow> bool" where
  "line_wf l \<longleftrightarrow> fst l AND 31 = 0 \<and> length (snd l) = 32"

definition lineBytes :: "(u32 \<times> u8 list) list \<Rightarrow> u8 list" where
  "lineBytes lines = concat (map (\<lambda>(address, line). PutUint32 address @ line) lines)"

lemma length_lineBytes: "\<forall>l \<in> set lines. line_wf l \<Longrightarrow> length (lineBytes lines) = 36 * length lines"
  by (induction lines) (auto simp: lineBytes_def line_wf_def)

lemma readLines_lineBytes:
  "\<forall>l \<in> set lines. line_wf l \<Longrightarrow> distinct (map fst (acc @ lines)) \<Longrightarrow>
     readLines (length lines) (lineBytes lines @ rest) acc = Inr (acc @ lines)"
proof (induction lines arbitrary: acc)
  case (Cons l lines)
  obtain a bs where l: "l = (a, bs)" by (cases l)
  have wf: "a AND 31 = 0" "length bs = 32" using Cons.prems(1) by (auto simp: l line_wf_def)
  have fresh: "a \<notin> fst ` set acc" using Cons.prems(2) by (auto simp: l)
  have "readLines (length lines) (lineBytes lines @ rest) (acc @ [l]) = Inr ((acc @ [l]) @ lines)"
    using Cons.prems by (intro Cons.IH) auto
  then show ?case
    using wf fresh wordAt_word [of a "bs @ lineBytes lines @ rest"]
    by (simp add: l lineBytes_def slice_def)
qed simp

text \<open>A well-formed table: every resident line sits in the slot its address selects.\<close>

definition ic_wf :: "backend \<Rightarrow> bool" where
  "ic_wf b \<longleftrightarrow> (case instructionCacheTable b of
     None \<Rightarrow> True
   | Some t \<Rightarrow> \<forall>i < 2048. ic_valid (t (of_nat i)) \<and> ic_gen (t (of_nat i)) = mappingGen b \<longrightarrow>
       ic_tag (t (of_nat i)) AND 31 = 0 \<and> icIndex (ic_tag (t (of_nat i))) = of_nat i \<and>
       length (ic_line (t (of_nat i))) = 32)"

lemma resident_lines:
  assumes "ic_wf b"
  shows "a \<in> set (residentInstructionCacheLines b) \<Longrightarrow> line_wf (residentLine b a)"
    "distinct (map icIndex (residentInstructionCacheLines b))" "length (residentInstructionCacheLines b) \<le> 2048"
    "a \<in> set (residentInstructionCacheLines b) \<Longrightarrow> instructionCacheEntryAt a b \<noteq> None"
proof -
  show "length (residentInstructionCacheLines b) \<le> 2048"
    by (auto simp: residentInstructionCacheLines_def split: option.split
        intro: order_trans [OF length_filter_le])
  show "a \<in> set (residentInstructionCacheLines b) \<Longrightarrow> instructionCacheEntryAt a b \<noteq> None"
    by (cases "instructionCacheTable b") (auto simp: residentInstructionCacheLines_def instructionCacheEntryAt_def)
  show "a \<in> set (residentInstructionCacheLines b) \<Longrightarrow> line_wf (residentLine b a)"
    using assms
    by (auto simp: ic_wf_def residentInstructionCacheLines_def residentLine_def line_wf_def
        instructionCacheEntryAt_def split: option.splits)
  show "distinct (map icIndex (residentInstructionCacheLines b))"
  proof (cases "instructionCacheTable b")
    case (Some t)
    define live where "live = (\<lambda>i. ic_valid (t (of_nat i)) \<and> ic_gen (t (of_nat i)) = mappingGen b)"
    have "residentInstructionCacheLines b = map (\<lambda>i. ic_tag (t (of_nat i))) (filter live [0..<2048])"
      by (simp add: residentInstructionCacheLines_def Some filter_map comp_def live_def)
    then have "map icIndex (residentInstructionCacheLines b) = map (\<lambda>i. (of_nat i :: u32)) (filter live [0..<2048])"
      using assms by (auto simp: ic_wf_def Some live_def)
    moreover have "distinct (map (\<lambda>i. (of_nat i :: u32)) (filter live [0..<2048]))"
      unfolding distinct_map
      by (auto intro!: inj_onI simp: word_of_nat_eq_iff take_bit_nat_eq_self)
    ultimately show ?thesis by simp
  qed (simp add: residentInstructionCacheLines_def)
qed

text \<open>Installing lines: each entry that no later line displaces is resident.\<close>

definition holds_line :: "backend \<Rightarrow> u32 \<times> u8 list \<Rightarrow> bool" where
  "holds_line b l \<longleftrightarrow> (\<exists>e. instructionCacheEntryAt (fst l) b = Some e \<and> ic_line e = snd l \<and> ic_tag e = fst l \<and>
     ic_valid e \<and> ic_gen e = mappingGen b)"

lemma restore_line:
  "holds_line (restoreInstructionCacheLine a bs b) (a, bs)"
  "icIndex (fst l) \<noteq> icIndex a \<Longrightarrow> holds_line b l \<Longrightarrow> holds_line (restoreInstructionCacheLine a bs b) l"
  by (auto simp: holds_line_def restoreInstructionCacheLine_def Let_def setICEntry_def nextICSerial_def
      ensureICTable_def invalidateInstructionWindow_def instructionCacheEntryAt_def split: option.split)

lemma restore_lines:
  "distinct (map (\<lambda>l. icIndex (fst l)) ls) \<Longrightarrow>
     (l \<in> set ls \<or> icIndex (fst l) \<notin> (\<lambda>l. icIndex (fst l)) ` set ls \<and> holds_line b l) \<Longrightarrow>
     holds_line (fold (\<lambda>(address, line). restoreInstructionCacheLine address line) ls b) l"
proof (induction ls arbitrary: b)
  case (Cons x ls)
  obtain a bs where x: "x = (a, bs)" by (cases x)
  have "l \<in> set ls \<or> icIndex (fst l) \<notin> (\<lambda>l. icIndex (fst l)) ` set ls \<and>
      holds_line (restoreInstructionCacheLine a bs b) l"
    using Cons.prems restore_line(1) [of a bs b] restore_line(2) [of l a b bs] by (force simp: x)
  then show ?case using Cons by (simp add: x)
qed simp

subsection \<open>Round trips\<close>

lemma regWords_nth: "r < 17 \<Longrightarrow> regWords f ! unat r = f r"
  by (simp add: regWords_def word_less_nat_alt)

lemma setModeFlag_agrees:
  assumes "bit (regs b RegisterCPSR) 5 \<longleftrightarrow> mode b = ModeThumb"
  shows "setModeFlag b = b"
proof -
  have "(if mode b = ModeThumb then regs b RegisterCPSR OR StatusThumb else regs b RegisterCPSR AND NOT StatusThumb) =
      regs b RegisterCPSR"
    using assms by (auto intro!: bit_word_eqI simp: bit_or_iff bit_and_iff bit_not_iff bit_StatusThumb)
  then show ?thesis by (cases "mode b") (simp_all add: setModeFlag_def)
qed

lemma setModeFlag_fields:
  "banks (setModeFlag b) = banks b" "spsr (setModeFlag b) = spsr b" "cp15 (setModeFlag b) = cp15 b"
  "mode (setModeFlag b) = mode b" "flags (setModeFlag b) = flags b"
  "instructionCacheTable (setModeFlag b) = instructionCacheTable b" "mappingGen (setModeFlag b) = mappingGen b"
  by (simp_all add: setModeFlag_def)

subsection \<open>The inputs a restore takes\<close>

text \<open>
  The byte format, as a grammar that knows nothing of the decoder.  An image is the magic, the
  version, the words of that version (17 registers; from version 2 on also 34 words of banks, saved
  status and CP15 registers), in version 3 the number of cache lines and the lines, and the word
  of the instruction set.
\<close>

definition contextImage :: "u32 \<Rightarrow> u32 list \<Rightarrow> (u32 \<times> u8 list) list \<Rightarrow> u32 \<Rightarrow> u8 list" where
  "contextImage v ws lines m = contextMagic @ PutUint32 v @ putWords ws @
     (if v = 3 then PutUint32 (of_nat (length lines)) @ lineBytes lines else []) @ PutUint32 m"

definition contextGrammar :: "u32 \<Rightarrow> u32 list \<Rightarrow> (u32 \<times> u8 list) list \<Rightarrow> u32 \<Rightarrow> bool" where
  "contextGrammar v ws lines m \<longleftrightarrow>
     (v = 1 \<and> length ws = 17 \<and> lines = [] \<or> v = 2 \<and> length ws = 51 \<and> lines = [] \<or>
      v = 3 \<and> length ws = 51 \<and> length lines \<le> 2 ^ 20 \<and> distinct (map fst lines) \<and> (\<forall>l \<in> set lines. line_wf l)) \<and>
     m AND 0xff \<in> {0, 1}"

definition banksOf :: "u32 list \<Rightarrow> bankedRegisters" where
  "banksOf ws = \<lparr>bank_userHigh = slice ws 17 5, bank_userStackLink = slice ws 22 2, bank_fiq = slice ws 24 7,
     bank_irq = slice ws 31 2, bank_supervisor = slice ws 33 2, bank_abort = slice ws 35 2, bank_undefined = slice ws 37 2\<rparr>"

definition spsrOf :: "u32 list \<Rightarrow> savedProgramStatus" where
  "spsrOf ws = \<lparr>spsr_fiq = ws ! 39, spsr_irq = ws ! 40, spsr_supervisor = ws ! 41, spsr_abort = ws ! 42, spsr_undefined = ws ! 43\<rparr>"

definition cp15Of :: "u32 list \<Rightarrow> cp15State" where
  "cp15Of ws = \<lparr>cp15_control = ws ! 44, cp15_translationTableBase = ws ! 45, cp15_domainAccessControl = ws ! 46,
     cp15_dataFaultStatus = ws ! 47, cp15_instructionFaultStatus = ws ! 48, cp15_faultAddress = ws ! 49, cp15_processID = ws ! 50\<rparr>"

lemma image_word: "i < length ws \<Longrightarrow> wordAt (contextMagic @ PutUint32 v @ putWords ws @ rest) (8 + 4 * i) = ws ! i"
  using wordAt_skip [of "contextMagic @ PutUint32 v" "putWords ws @ rest" "4 * i"] wordAt_putWords [of i ws rest]
  by (simp add: contextMagic_def)

lemma image_words:
  assumes "off + n \<le> length ws"
  shows "readWords (contextMagic @ PutUint32 v @ putWords ws @ rest) (8 + 4 * off) n = slice ws off n"
proof (rule nth_equalityI)
  fix i assume "i < length (readWords (contextMagic @ PutUint32 v @ putWords ws @ rest) (8 + 4 * off) n)"
  then have "i < n" by (simp add: readWords_def)
  then show "readWords (contextMagic @ PutUint32 v @ putWords ws @ rest) (8 + 4 * off) n ! i = slice ws off n ! i"
    using assms image_word [of "off + i" ws v rest] by (simp add: readWords_def nth_slice algebra_simps)
qed (use assms in \<open>simp add: readWords_def\<close>)

lemma image_state:
  assumes "length ws = 51" and "data = contextMagic @ PutUint32 v @ putWords ws @ rest"
  shows "readBanks data = banksOf ws" "readSPSR data = spsrOf ws" "readCP15State data = cp15Of ws"
proof -
  note w = image_words [of _ _ ws v rest, folded assms(2), unfolded assms(1)]
  show "readBanks data = banksOf ws"
    using w [of 17 5] w [of 22 2] w [of 24 7] w [of 31 2] w [of 33 2] w [of 35 2] w [of 37 2]
    by (simp add: readBanks_def banksOf_def)
  note t = image_word [of _ ws v rest, folded assms(2), unfolded assms(1)]
  show "readSPSR data = spsrOf ws"
    using t [of 39] t [of 40] t [of 41] t [of 42] t [of 43] by (simp add: readSPSR_def spsrOf_def)
  show "readCP15State data = cp15Of ws"
    using t [of 44] t [of 45] t [of 46] t [of 47] t [of 48] t [of 49] t [of 50]
    by (simp add: readCP15State_def cp15Of_def)
qed

lemma wordAt_end: "wordAt (pre @ PutUint32 m) (length pre) = m"
  using wordAt_skip [of pre "PutUint32 m" 0] wordAt_word [of m "[]"] by simp

lemma mode_byte: "(ucast (m :: u32) :: u8) = k \<longleftrightarrow> m AND 0xff = ucast k" for k :: u8
proof -
  have byte: "(0xff :: u32) = mask 8" by (simp add: mask_eq_exp_minus_1)
  have "m AND 0xff = ucast (ucast m :: u8)"
    unfolding byte by (rule bit_word_eqI) (auto simp: bit_and_iff bit_ucast_iff bit_mask_iff)
  moreover have "(ucast x :: u32) = ucast y \<longleftrightarrow> x = y" for x y :: u8
  proof
    assume eq: "(ucast x :: u32) = ucast y"
    have "bit x n = bit y n" if "n < 8" for n
      using that arg_cong [OF eq, of "\<lambda>u. bit u n"] by (simp add: bit_ucast_iff)
    then show "x = y" by (auto intro: bit_word_eqI)
  qed simp
  ultimately show ?thesis by simp
qed

lemma image_decodes:
  assumes g: "contextGrammar v ws lines m" and data_def: "data = contextImage v ws lines m"
  shows "take 4 data = contextMagic" "wordAt data 4 = v" "\<not> length data < 8" "contextSizeOk v (length data)"
    "readCacheLines v data = Inr lines"
    "readMode data (modeOffset v (length lines)) = Some (if m AND 0xff = 0 then ModeARM else ModeThumb)"
proof -
  note data = data_def [unfolded contextImage_def]
  show "take 4 data = contextMagic" "wordAt data 4 = v" "\<not> length data < 8"
    using wordAt_skip [of contextMagic _ 0] by (simp_all add: data contextMagic_def wordAt_def slice_def)
  have len: "length data = modeOffset v (length lines) + 4"
    using g length_lineBytes [of lines] by (auto simp: data contextGrammar_def modeOffset_def contextMagic_def)
  then show "contextSizeOk v (length data)"
    using g by (auto simp: contextGrammar_def contextSizeOk_def modeOffset_def)
  have n: "unat (of_nat (length lines) :: u32) = length lines" "\<not> (of_nat (length lines) :: u32) > push_bit 20 1"
    using g by (auto simp: contextGrammar_def unat_of_nat take_bit_nat_eq_self word_less_nat_alt not_less)
  show "readCacheLines v data = Inr lines"
  proof (cases "v = 3")
    case True
    then have l: "length ws = 51" "\<forall>l \<in> set lines. line_wf l" "distinct (map fst lines)" using g by (auto simp: contextGrammar_def)
    let ?pre = "contextMagic @ PutUint32 v @ putWords ws"
    have pre: "length ?pre = 212" using l(1) by (simp add: contextMagic_def)
    have "wordAt data 212 = of_nat (length lines)"
      using wordAt_skip [of ?pre "PutUint32 (of_nat (length lines)) @ lineBytes lines @ PutUint32 m" 0]
      by (simp add: data True wordAt_word contextMagic_def l(1))
    moreover have "drop 216 data = lineBytes lines @ PutUint32 m" using l(1) by (simp add: data True contextMagic_def)
    ultimately show ?thesis
      using readLines_lineBytes [OF l(2), of "[]" "PutUint32 m"] l(3) n len True
      by (simp add: readCacheLines_def Let_def modeOffset_def)
  next
    case False
    then show ?thesis using g by (auto simp: contextGrammar_def readCacheLines_def)
  qed
  let ?front = "contextMagic @ PutUint32 v @ putWords ws @
    (if v = 3 then PutUint32 (of_nat (length lines)) @ lineBytes lines else [])"
  have "length ?front = modeOffset v (length lines)" using len by (simp add: data)
  then have "wordAt data (modeOffset v (length lines)) = m"
    using wordAt_end [of ?front m] by (simp add: data)
  then show "readMode data (modeOffset v (length lines)) = Some (if m AND 0xff = 0 then ModeARM else ModeThumb)"
    using g by (auto simp: readMode_def Let_def mode_byte contextGrammar_def)
qed

text \<open>Conversely, bytes that decode are an image of what they decode to.\<close>

lemma slice_append: "slice xs off (a + b) = slice xs off a @ slice xs (off + a) b"
  by (simp add: slice_def take_add add.commute)

lemma PutUint32_Uint32: "length bs = 4 \<Longrightarrow> PutUint32 (Uint32 bs) = bs"
proof -
  assume "length bs = 4"
  then obtain w x y z where bs: "bs = [w, x, y, z]" by (auto simp: eval_nat_numeral length_Suc_conv)
  have "bit (ucast (Uint32 bs) :: u8) n = bit w n" "bit (ucast (drop_bit 8 (Uint32 bs)) :: u8) n = bit x n"
    "bit (ucast (drop_bit 16 (Uint32 bs)) :: u8) n = bit y n" "bit (ucast (drop_bit 24 (Uint32 bs)) :: u8) n = bit z n"
    if "n < 8" for n
    using that bit_imp_le_length [of w "8 + n"] bit_imp_le_length [of w "16 + n"] bit_imp_le_length [of w "24 + n"]
      bit_imp_le_length [of x "8 + n"] bit_imp_le_length [of x "16 + n"] bit_imp_le_length [of y "8 + n"]
    by (auto simp: Uint32_def bs bit_or_iff bit_push_bit_iff bit_ucast_iff bit_drop_bit_eq)
  then show ?thesis unfolding PutUint32_def bs [symmetric] by (auto simp: bs intro!: bit_word_eqI)
qed

lemma putWord_slice: "off + 4 \<le> length data \<Longrightarrow> PutUint32 (wordAt data off) = slice data off 4"
  by (simp add: wordAt_def PutUint32_Uint32)

lemma putWords_slice: "off + 4 * n \<le> length data \<Longrightarrow> putWords (readWords data off n) = slice data off (4 * n)"
proof (induction n)
  case (Suc n)
  have "putWords (readWords data off (Suc n)) = putWords (readWords data off n) @ PutUint32 (wordAt data (off + 4 * n))"
    by (simp add: putWords_def readWords_def)
  also have "\<dots> = slice data off (4 * n) @ slice data (off + 4 * n) 4"
    using Suc putWord_slice [of "off + 4 * n" data] by simp
  also have "\<dots> = slice data off (4 * Suc n)" using slice_append [of data off "4 * n" 4] by (simp add: add.commute)
  finally show ?case .
qed (simp add: putWords_def readWords_def slice_def)

lemma readLines_image:
  "readLines n data acc = Inr ls \<Longrightarrow> 36 * n \<le> length data \<Longrightarrow> distinct (map fst acc) \<Longrightarrow>
     \<exists>lines. ls = acc @ lines \<and> length lines = n \<and> distinct (map fst ls) \<and> (\<forall>l \<in> set lines. line_wf l) \<and>
       lineBytes lines = take (36 * n) data"
proof (induction n data acc rule: readLines.induct)
  case (2 n data acc)
  let ?l = "(wordAt data 0, slice data 4 32)"
  have ok: "wordAt data 0 AND 31 = 0" "wordAt data 0 \<notin> fst ` set acc" "readLines n (drop 36 data) (acc @ [?l]) = Inr ls"
    using 2(2) by (auto simp: Let_def split: if_splits)
  have "\<exists>lines. ls = (acc @ [?l]) @ lines \<and> length lines = n \<and> distinct (map fst ls) \<and> (\<forall>l \<in> set lines. line_wf l) \<and>
      lineBytes lines = take (36 * n) (drop 36 data)"
    using 2(3,4) ok by (intro 2(1)) auto
  then obtain lines where lines: "ls = (acc @ [?l]) @ lines" "length lines = n" "distinct (map fst ls)"
    "\<forall>l \<in> set lines. line_wf l" "lineBytes lines = take (36 * n) (drop 36 data)" by blast
  have "lineBytes (?l # lines) = (slice data 0 4 @ slice data (0 + 4) 32) @ take (36 * n) (drop 36 data)"
    using 2(3) putWord_slice [of 0 data] lines(5) by (simp add: lineBytes_def)
  also have "\<dots> = take (36 * Suc n) data"
    unfolding slice_append [symmetric] by (simp add: slice_def take_add)
  finally show ?case
    using lines 2(3) ok(1) by (intro exI [of _ "?l # lines"]) (simp add: line_wf_def)
qed (simp add: lineBytes_def)

lemma image_of_decoded:
  assumes "8 \<le> length data" "take 4 data = contextMagic" and v: "v = wordAt data 4" "contextSizeOk v (length data)"
    and lines: "readCacheLines v data = Inr lines" and m: "readMode data (modeOffset v (length lines)) = Some k"
  defines "ws \<equiv> readWords data 8 (if v = 1 then 17 else 51)" and "w \<equiv> wordAt data (modeOffset v (length lines))"
  shows "contextGrammar v ws lines w" "data = contextImage v ws lines w"
proof -
  have mode: "w AND 0xff \<in> {0, 1}"
    using m by (auto simp: readMode_def Let_def mode_byte w_def split: if_splits)
  have lw: "v \<noteq> 3 \<longrightarrow> lines = []"
    "v = 3 \<longrightarrow> length lines \<le> 2 ^ 20 \<and> wordAt data 212 = of_nat (length lines) \<and> length data = 220 + 36 * length lines \<and>
      distinct (map fst lines) \<and> (\<forall>l \<in> set lines. line_wf l) \<and> lineBytes lines = slice data 216 (36 * length lines)"
  proof -
    show "v \<noteq> 3 \<longrightarrow> lines = []" using lines by (auto simp: readCacheLines_def Let_def split: if_splits)
    show "v = 3 \<longrightarrow> length lines \<le> 2 ^ 20 \<and> wordAt data 212 = of_nat (length lines) \<and> length data = 220 + 36 * length lines \<and>
      distinct (map fst lines) \<and> (\<forall>l \<in> set lines. line_wf l) \<and> lineBytes lines = slice data 216 (36 * length lines)"
    proof
      assume "v = 3"
      then have r: "\<not> wordAt data 212 > push_bit 20 1" "length data = 220 + 36 * unat (wordAt data 212)"
        "readLines (unat (wordAt data 212)) (drop 216 data) [] = Inr lines"
        using lines by (auto simp: readCacheLines_def Let_def split: if_splits)
      have few: "unat (wordAt data 212) \<le> 2 ^ 20" using r(1) by (simp add: word_less_nat_alt not_less)
      show "length lines \<le> 2 ^ 20 \<and> wordAt data 212 = of_nat (length lines) \<and> length data = 220 + 36 * length lines \<and>
          distinct (map fst lines) \<and> (\<forall>l \<in> set lines. line_wf l) \<and> lineBytes lines = slice data 216 (36 * length lines)"
        using readLines_image [OF r(3)] r(2) few by (auto simp: slice_def)
    qed
  qed
  show "contextGrammar v ws lines w"
    using v(2) lw mode by (auto simp: contextGrammar_def contextSizeOk_def ws_def readWords_def)
  have cut: "slice data 0 4 = contextMagic" "slice data 4 4 = PutUint32 v"
    using assms(1,2) putWord_slice [of 4 data] by (simp_all add: slice_def v(1))
  have all: "data = slice data 0 (length data)" by (simp add: slice_def)
  show "data = contextImage v ws lines w"
  proof (cases "v = 3")
    case True
    let ?k = "36 * length lines"
    have len: "length data = 4 + (4 + (4 * 51 + (4 + (?k + 4))))" using lw(2) True by simp
    have "data = slice data 0 4 @ slice data 4 4 @ slice data 8 (4 * 51) @ slice data 212 4 @ slice data 216 ?k @ slice data (216 + ?k) 4"
      using all unfolding len slice_append by simp
    also have "\<dots> = contextMagic @ PutUint32 v @ putWords ws @ PutUint32 (of_nat (length lines)) @ lineBytes lines @ PutUint32 w"
      using cut lw(2) True putWords_slice [of 8 51 data] putWord_slice [of 212 data] putWord_slice [of "216 + ?k" data] len
      by (simp add: ws_def w_def modeOffset_def mult.commute)
    finally show ?thesis by (simp add: contextImage_def True)
  next
    case False
    define n where "n = (if v = 1 then 17 else 51 :: nat)"
    have len: "length data = 4 + (4 + (4 * n + 4))" "modeOffset v (length lines) = 8 + 4 * n"
      using v(2) False by (auto simp: contextSizeOk_def n_def modeOffset_def)
    have "data = slice data 0 4 @ slice data 4 4 @ slice data 8 (4 * n) @ slice data (8 + 4 * n) 4"
      using all unfolding len(1) slice_append by simp
    also have "\<dots> = contextMagic @ PutUint32 v @ putWords ws @ PutUint32 w"
      using cut putWords_slice [of 8 n data] putWord_slice [of "8 + 4 * n" data] len
      by (simp add: ws_def w_def n_def [symmetric])
    finally show ?thesis by (simp add: contextImage_def False)
  qed
qed

text \<open>An image restores the state it describes.\<close>

definition holds_image :: "u32 \<Rightarrow> u32 list \<Rightarrow> u32 \<Rightarrow> backend \<Rightarrow> bool" where
  "holds_image v ws m b \<longleftrightarrow>
     (\<forall>r < 16. regs b r = ws ! unat r) \<and>
     regs b RegisterCPSR = (if m AND 0xff = 0 then ws ! 16 AND NOT StatusThumb else ws ! 16 OR StatusThumb) \<and>
     \<not> flags_dirty (flags b) \<and>
     banks b = (if v = 1 then zeroBanks else banksOf ws) \<and> spsr b = (if v = 1 then zeroSPSR else spsrOf ws) \<and>
     cp15 b = (if v = 1 then zeroCP15 else cp15Of ws) \<and> mode b = (if m AND 0xff = 0 then ModeARM else ModeThumb)"

lemma restore_image:
  assumes "\<not> closed c" and g: "contextGrammar v ws lines m"
  shows "\<exists>c'. RestoreContext iter (contextImage v ws lines m) c = (Inr (), c') \<and> holds_image v ws m c' \<and>
    (distinct (map (\<lambda>l. icIndex (fst l)) lines) \<and> mset (iter lines) = mset lines \<longrightarrow> (\<forall>l \<in> set lines. holds_line c' l))"
proof -
  let ?d = "contextImage v ws lines m" and ?mode = "if m AND 0xff = 0 then ModeARM else ModeThumb"
  let ?k = "if v = 1 then zeroBanks else banksOf ws" and ?s = "if v = 1 then zeroSPSR else spsrOf ws"
    and ?cp = "if v = 1 then zeroCP15 else cp15Of ws"
  note d = image_decodes [OF g refl]
  have v: "v = 1 \<and> length ws = 17 \<or> (v = 2 \<or> v = 3) \<and> v \<noteq> 1 \<and> length ws = 51" using g by (auto simp: contextGrammar_def)
  then have ws: "readWords ?d 8 17 = slice ws 0 17"
    using image_words [of 0 17 ws v] by (auto simp: contextImage_def)
  have st: "readBanks ?d = banksOf ws" "readSPSR ?d = spsrOf ws" "readCP15State ?d = cp15Of ws" if "v \<noteq> 1"
    using image_state [OF _ contextImage_def [of v ws lines m]] v that by auto
  define c1 where "c1 = (invalidateTLB (refreshPhysicalAccess (c\<lparr>regs := (\<lambda>r. if r < 17 then slice ws 0 17 ! unat r else regs c r),
      banks := ?k, spsr := ?s, cp15 := ?cp\<rparr>)))\<lparr>instructionCacheTable := None\<rparr>"
  define c2 where "c2 = fold (\<lambda>(address, line). restoreInstructionCacheLine address line) (iter lines) c1"
  define c3 where "c3 = clearDataCaches (c2\<lparr>executeData := None\<rparr>)"
  define c4 where "c4 = c3\<lparr>flags := (flags c3)\<lparr>flags_dirty := False\<rparr>, mode := ?mode\<rparr>"
  have "RestoreContext iter ?d c = (Inr (), countSerializedRestore (setModeFlag c4))"
    using assms(1) d v ws st by (auto simp: RestoreContext_def Let_def c1_def c2_def c3_def c4_def)
  moreover
  have word: "regs c1 r = ws ! unat r" if "r < 17" for r
    using that v nth_slice [of 0 17 ws "unat r"]
    by (auto simp: c1_def invalidateTLB_def invalidateTranslations_def invalidateInstructionWindow_def
        refreshPhysicalAccess_def word_less_nat_alt)
  have f: "regs c4 = regs c1" "banks c4 = ?k" "spsr c4 = ?s" "cp15 c4 = ?cp" "mode c4 = ?mode" "\<not> flags_dirty (flags c4)"
    "instructionCacheTable c4 = instructionCacheTable c2" "mappingGen c4 = mappingGen c2"
    by (simp_all add: c4_def c3_def clearDataCaches_def c2_def restored_lines_frame)
      (simp_all add: c1_def invalidateTLB_def invalidateTranslations_def invalidateInstructionWindow_def
        refreshPhysicalAccess_def)
  have below: "r \<noteq> RegisterCPSR \<and> r < 17" if "r < 16" for r :: u32 using that by (auto simp: register_defs word_less_nat_alt)
  have "holds_image v ws m (setModeFlag c4)"
    using f word below by (auto simp: holds_image_def setModeFlag_fields) (auto simp: setModeFlag_def f register_defs)
  moreover have "holds_line (setModeFlag c4) l"
    if "distinct (map (\<lambda>l. icIndex (fst l)) lines)" "mset (iter lines) = mset lines" "l \<in> set lines" for l
  proof -
    have "distinct (map (\<lambda>l. icIndex (fst l)) (iter lines))"
      using that(1,2) by (metis distinct_map mset_eq_imp_distinct_iff mset_eq_setD)
    moreover have "l \<in> set (iter lines)" using that(2,3) mset_eq_setD by blast
    ultimately have "holds_line c2 l" unfolding c2_def by (intro restore_lines) auto
    then show ?thesis by (simp add: holds_line_def instructionCacheEntryAt_def setModeFlag_fields f)
  qed
  ultimately show ?thesis
    by (auto simp: holds_image_def countSerializedRestore_def holds_line_def instructionCacheEntryAt_def)
qed

text \<open>A context written by the encoder is an image and restores the state it encodes.\<close>

lemma contextWords_state:
  assumes "wf_banks k"
  shows "banksOf (contextWords rs k s c) = k" "spsrOf (contextWords rs k s c) = s" "cp15Of (contextWords rs k s c) = c"
    "r < 17 \<Longrightarrow> contextWords rs k s c ! unat r = rs r"
proof -
  show "banksOf (contextWords rs k s c) = k"
    using assms by (simp add: banksOf_def slice_def contextWords_def regWords_def bankWords_def wf_banks_def)
  show "spsrOf (contextWords rs k s c) = s" "cp15Of (contextWords rs k s c) = c"
    using assms by (simp_all add: spsrOf_def cp15Of_def contextWords_def regWords_def bankWords_def wf_banks_def
        nth_append spsrWords_def cp15Words_def)
  show "contextWords rs k s c ! unat r = rs r" if "r < 17"
    using that regWords_nth [OF that, of rs] by (simp add: contextWords_def nth_append regWords_def word_less_nat_alt)
qed

lemma restore_encoded:
  assumes "\<not> closed c" and "wf_banks k" and "\<forall>l \<in> set lines. line_wf l" and "distinct (map (\<lambda>l. icIndex (fst l)) lines)"
    and "length lines \<le> 2048" and iter: "mset (iter lines) = mset lines"
    and agree: "bit (rs RegisterCPSR) 5 \<longleftrightarrow> m = ModeThumb"
  shows "\<exists>c'. RestoreContext iter (contextBytes rs k s cp lines m) c = (Inr (), c') \<and>
    (\<forall>r < 17. regs c' r = rs r) \<and> \<not> flags_dirty (flags c') \<and> banks c' = k \<and> spsr c' = s \<and> cp15 c' = cp \<and>
    mode c' = m \<and> (\<forall>l \<in> set lines. holds_line c' l)"
proof -
  let ?ws = "contextWords rs k s cp"
  have "distinct (map fst lines)" using assms(4) by (simp add: distinct_map inj_on_def)
  then have g: "contextGrammar 3 ?ws lines (modeWord m)"
    using assms(3,5) length_contextWords [OF assms(2)] by (auto simp: contextGrammar_def modeWord_def split: Mode.split)
  have image: "contextBytes rs k s cp lines m = contextImage 3 ?ws lines (modeWord m)"
    by (simp add: contextBytes_def contextImage_def contextWords_def lineBytes_def)
  obtain c' where c': "RestoreContext iter (contextBytes rs k s cp lines m) c = (Inr (), c')" "holds_image 3 ?ws (modeWord m) c'"
    "\<forall>l \<in> set lines. holds_line c' l"
    using restore_image [OF assms(1) g, of iter] assms(4) iter unfolding image by blast
  note w = contextWords_state [OF assms(2), where rs = rs and s = s and c = cp]
  have "modeWord m AND 0xff = 0 \<longleftrightarrow> m = ModeARM" by (cases m) (simp_all add: modeWord_def)
  moreover have "rs RegisterCPSR = (if m = ModeARM then rs RegisterCPSR AND NOT StatusThumb else rs RegisterCPSR OR StatusThumb)"
    using agree by (cases m) (auto intro!: bit_word_eqI simp: bit_or_iff bit_and_iff bit_not_iff bit_StatusThumb)
  moreover have "r < 16 \<or> r = RegisterCPSR" if "r < 17" for r :: u32
    using that by (auto simp: register_defs word_less_nat_alt word_unat_eq_iff)
  moreover have "?ws ! 16 = rs RegisterCPSR" using w(4) [where r = 16] by (simp add: register_defs)
  ultimately have "regs c' r = rs r" if "r < 17" for r
    using c'(2) that w(4) [where r = r] unfolding holds_image_def by metis
  moreover have "mode c' = m" using c'(2) by (cases m) (simp_all add: holds_image_def modeWord_def)
  ultimately show ?thesis using c' w(1-3) by (auto simp: holds_image_def)
qed

lemma resolve_cache:
  "instructionCacheTable (resolveFlags b) = instructionCacheTable b" "mappingGen (resolveFlags b) = mappingGen b"
  by (simp_all add: resolveFlags_def)

lemma resident_resolve:
  "residentInstructionCacheLines (resolveFlags b) = residentInstructionCacheLines b"
  "residentLine (resolveFlags b) = residentLine b" "ic_wf (resolveFlags b) = ic_wf b"
  unfolding residentInstructionCacheLines_def residentLine_def instructionCacheEntryAt_def ic_wf_def resolve_cache
  by simp_all

lemma context_roundtrip_state:
  assumes "machine_inv b" and "ic_wf b" and "\<not> closed b" and "\<not> closed c" and "\<And>xs. mset (iter xs) = mset xs"
  shows "\<exists>data c'. fst (SaveContext b) = Inr data \<and> RestoreContext iter data c = (Inr (), c') \<and>
    (\<forall>r < 16. regs c' r = regs b r) \<and> cpsr c' = cpsr b \<and> banks c' = banks b \<and> spsr c' = spsr b \<and>
    cp15 c' = cp15 b \<and> mode c' = mode b \<and>
    (\<forall>a \<in> set (residentInstructionCacheLines b). holds_line c' (residentLine b a))"
proof -
  define s where "s = resolveFlags b"
  have inv: "machine_inv s" using machine_inv_step [OF machine_resolve assms(1)] by (simp add: s_def)
  have wf: "ic_wf s" using assms(2) by (simp add: s_def resident_resolve)
  have res: "residentInstructionCacheLines s = residentInstructionCacheLines b" "residentLine s = residentLine b"
    by (simp_all add: s_def resident_resolve)
  define lines where "lines = map (residentLine s) (sort (residentInstructionCacheLines s))"
  have fst_line: "(\<lambda>l. icIndex (fst l)) \<circ> residentLine s = icIndex" by (simp add: residentLine_def comp_def)
  have "distinct (map icIndex (sort (residentInstructionCacheLines s)))"
    using resident_lines(2) [OF wf] by (metis distinct_map distinct_sort set_sort)
  then have lw: "\<forall>l \<in> set lines. line_wf l" "distinct (map (\<lambda>l. icIndex (fst l)) lines)" "length lines \<le> 2048"
    using resident_lines(1,3) [OF wf] by (auto simp: lines_def fst_line)
  obtain c' where c': "RestoreContext iter (contextBytes (regs s) (banks s) (spsr s) (cp15 s) lines (mode s)) c = (Inr (), c')"
    "\<forall>r < 17. regs c' r = regs s r" "\<not> flags_dirty (flags c')" "banks c' = banks s" "spsr c' = spsr s"
    "cp15 c' = cp15 s" "mode c' = mode s" "\<forall>l \<in> set lines. holds_line c' l"
    using restore_encoded [where rs = "regs s" and iter = iter, OF assms(4) machine_invD(2) [OF inv] lw assms(5) [of lines] machine_invD(3) [OF inv]] by blast
  have "cpsr c' = cpsr b"
    using c'(2,3) by (simp add: cpsr_def resolveFlags_def s_def register_defs)
  moreover have "\<forall>r < 16. regs c' r = regs b r"
  proof (intro allI impI)
    fix r :: u32 assume "r < 16"
    then have "r < 17" "r \<noteq> 16" by (auto simp: word_less_nat_alt)
    then show "regs c' r = regs b r" using c'(2) by (simp add: s_def resolve_regs)
  qed
  moreover have "fst (SaveContext b) = Inr (contextBytes (regs s) (banks s) (spsr s) (cp15 s) lines (mode s))"
    using assms(3) by (simp add: SaveContext_def Let_def s_def [symmetric] lines_def)
  moreover have "\<forall>a \<in> set (residentInstructionCacheLines b). holds_line c' (residentLine b a)"
    using c'(8) by (simp add: lines_def res)
  moreover have "banks s = banks b" "spsr s = spsr b" "cp15 s = cp15 b" "mode s = mode b" by (simp_all add: s_def)
  ultimately show ?thesis using c'(1,4-7) by auto
qed

text \<open>
  C20.  A saved context restores: what \<open>SaveContext\<close> writes for a machine in a consistent
  state is accepted by \<open>RestoreContext\<close> of any open backend, whatever the order in which the
  runtime iterates the line map, and leaves there the registers, the status with its pending
  flags, banks, saved status words, CP15 registers and instruction set of the saved machine;
  every instruction-cache line that was resident is resident with the same bytes.
\<close>

theorem context_roundtrip:
  assumes "machine_inv b" and "ic_wf b" and "\<not> closed b" and "\<not> closed c" and "\<And>xs. mset (iter xs) = mset xs"
  shows "\<exists>data c'. fst (SaveContext b) = Inr data \<and> RestoreContext iter data c = (Inr (), c') \<and>
    (\<forall>r < 16. regs c' r = regs b r) \<and> cpsr c' = cpsr b \<and> banks c' = banks b \<and> spsr c' = spsr b \<and>
    cp15 c' = cp15 b \<and> mode c' = mode b \<and>
    (\<forall>a \<in> set (residentInstructionCacheLines b). holds_line c' (residentLine b a))"
  by (rule context_roundtrip_state [OF assms])

text \<open>A machine in Thumb state with a pending flag update and one resident line.\<close>

definition sampleLine :: "u8 list" where "sampleLine = replicate 32 7"

definition sampleCached :: backend where
  "sampleCached =
     setNZ 0 (snd (WriteRegister 16 0x20 (restoreInstructionCacheLine 0x40 sampleLine (NewWithMemoryLimit False 0))))"

lemma sampleCached_ok:
  "machine_inv sampleCached" "ic_wf sampleCached" "\<not> closed sampleCached" "mode sampleCached = ModeThumb"
  "0x40 \<in> set (residentInstructionCacheLines sampleCached)" "residentLine sampleCached 0x40 = (0x40, sampleLine)"
proof -
  let ?b = "restoreInstructionCacheLine 0x40 sampleLine (NewWithMemoryLimit False 0)"
  have "machine_inv ((NewWithMemoryLimit False 0)\<lparr>userSystemSPSRReadAsCPSR := False\<rparr>)" by (rule machine_inv_New)
  then have "machine_inv ?b"
    by (rule machine_inv_same [rotated -1])
      (simp_all add: NewWithMemoryLimit_def restoreInstructionCacheLine_def Let_def setICEntry_def nextICSerial_def
        ensureICTable_def invalidateInstructionWindow_def)
  then have w: "machine_inv (snd (WriteRegister 16 0x20 ?b))" by (rule machine_inv_register_ops)
  have lazy: "sampleCached = lazy_update (UpdNZ 0) (snd (WriteRegister 16 0x20 ?b))"
    by (simp add: sampleCached_def)
  show "machine_inv sampleCached" unfolding lazy by (rule machine_inv_step [OF machine_lazy w])
  define t where "t = (\<lambda>_ :: u32. emptyICEntry)(2 := \<lparr>ic_line = sampleLine, ic_tag = 0x40, ic_serial = 1, ic_gen = 0,
    ic_privileged = True, ic_valid = True\<rparr>)"
  have f: "instructionCacheTable sampleCached = Some t" "mappingGen sampleCached = 0" "\<not> closed sampleCached"
    "mode sampleCached = ModeThumb"
    by (simp_all add: sampleCached_def setNZ_def deferFlags_def WriteRegister_def writeRegisterLocked_def Let_def
        split_beta register_defs restoreInstructionCacheLine_def setICEntry_def nextICSerial_def ensureICTable_def
        invalidateInstructionWindow_def NewWithMemoryLimit_def icIndex_def t_def currentlyPrivileged_def
        processorModeMask_def modeOfStatus_def StatusThumb_def resolveFlags_def noFlags_def setReg_def
        decodeProcessorMode_def)
  then show "\<not> closed sampleCached" "mode sampleCached = ModeThumb" by simp_all
  have two: "of_nat i = (2 :: u32) \<longleftrightarrow> i = 2" if "i < 2048" for i
    using that word_of_nat_eq_iff [of i 2, where 'a = 32] by (simp add: take_bit_nat_eq_self)
  show "ic_wf sampleCached"
    by (auto simp: ic_wf_def f t_def emptyICEntry_def sampleLine_def icIndex_def two)
  have "t (of_nat 2) \<in> set (filter (\<lambda>e. ic_valid e \<and> ic_gen e = 0) (map (\<lambda>i. t (of_nat i)) [0..<2048]))"
    by (simp only: set_filter set_map image_iff) (auto simp: t_def intro!: bexI [of _ "2 :: nat"])
  then have "ic_tag (t (of_nat 2)) \<in> set (residentInstructionCacheLines sampleCached)"
    unfolding residentInstructionCacheLines_def f option.case set_map by (rule imageI)
  then show "0x40 \<in> set (residentInstructionCacheLines sampleCached)" by (simp add: t_def)
  show "residentLine sampleCached 0x40 = (0x40, sampleLine)"
    by (simp add: residentLine_def instructionCacheEntryAt_def f icIndex_def t_def)
qed

theorem context_roundtrip_witness:
  "\<exists>data c'. fst (SaveContext sampleCached) = Inr data \<and>
     RestoreContext rev data (NewWithMemoryLimit False 0) = (Inr (), c') \<and> mode c' = ModeThumb \<and>
     cpsr c' = cpsr sampleCached \<and> holds_line c' (0x40, sampleLine)"
proof -
  have "\<not> closed (NewWithMemoryLimit False 0)" by (simp add: NewWithMemoryLimit_def)
  from context_roundtrip [OF sampleCached_ok(1-3) this, of rev] sampleCached_ok(4-6) show ?thesis by fastforce
qed

text \<open>
  C22.  A context is taken in full or not at all.  \<open>RestoreContext\<close> succeeds exactly on an open
  backend and an image of the byte format: the magic, one of the three versions with exactly its
  words, in version 3 at most \<open>2 ^ 20\<close> cache lines of 32 bytes at distinct line addresses, and a
  word whose low byte, the only one the decoder looks at, names an instruction set.  Then the
  machine holds what the image describes: its 17 registers with the instruction-set bit of the
  status made to agree, no pending flags, the instruction set, the banks, saved status words and
  CP15 registers, which a version 1 image leaves zero; and, when no two lines of the image share a
  slot of the table, every line is resident whatever order the runtime iterates them in.
  Otherwise it answers an error and the machine is exactly as before.
\<close>

theorem restore_all_or_nothing:
  "(fst (RestoreContext iter data b) = Inr () \<longleftrightarrow>
      \<not> closed b \<and> (\<exists>v ws lines m. contextGrammar v ws lines m \<and> data = contextImage v ws lines m)) \<and>
   (fst (RestoreContext iter data b) = Inr () \<or> snd (RestoreContext iter data b) = b) \<and>
   (\<not> closed b \<and> contextGrammar v ws lines m \<and> data = contextImage v ws lines m \<longrightarrow>
      holds_image v ws m (snd (RestoreContext iter data b)) \<and>
      (distinct (map (\<lambda>l. icIndex (fst l)) lines) \<and> mset (iter lines) = mset lines \<longrightarrow>
        (\<forall>l \<in> set lines. holds_line (snd (RestoreContext iter data b)) l)))"
proof (intro conjI)
  show "fst (RestoreContext iter data b) = Inr () \<longleftrightarrow>
      \<not> closed b \<and> (\<exists>v ws lines m. contextGrammar v ws lines m \<and> data = contextImage v ws lines m)"
  proof
    assume ok: "fst (RestoreContext iter data b) = Inr ()"
    then have "\<not> closed b" "8 \<le> length data" "take 4 data = contextMagic" "contextSizeOk (wordAt data 4) (length data)"
      by (auto simp: RestoreContext_def Let_def split: if_splits)
    moreover from ok this obtain lines where lines: "readCacheLines (wordAt data 4) data = Inr lines"
      by (auto simp: RestoreContext_def Let_def split: sum.splits if_splits)
    moreover from ok calculation obtain k where "readMode data (modeOffset (wordAt data 4) (length lines)) = Some k"
      by (auto simp: RestoreContext_def Let_def split: sum.splits if_splits option.splits)
    ultimately show "\<not> closed b \<and> (\<exists>v ws lines m. contextGrammar v ws lines m \<and> data = contextImage v ws lines m)"
      using image_of_decoded [of data "wordAt data 4" lines k] by blast
  next
    assume "\<not> closed b \<and> (\<exists>v ws lines m. contextGrammar v ws lines m \<and> data = contextImage v ws lines m)"
    then obtain v ws lines m where "\<not> closed b" "contextGrammar v ws lines m" "data = contextImage v ws lines m" by blast
    then show "fst (RestoreContext iter data b) = Inr ()" using restore_image [of b v ws lines m iter] by auto
  qed
  show "fst (RestoreContext iter data b) = Inr () \<or> snd (RestoreContext iter data b) = b"
    by (auto simp: RestoreContext_def Let_def split: sum.split option.split)
  show "\<not> closed b \<and> contextGrammar v ws lines m \<and> data = contextImage v ws lines m \<longrightarrow>
      holds_image v ws m (snd (RestoreContext iter data b)) \<and>
      (distinct (map (\<lambda>l. icIndex (fst l)) lines) \<and> mset (iter lines) = mset lines \<longrightarrow>
        (\<forall>l \<in> set lines. holds_line (snd (RestoreContext iter data b)) l))"
    using restore_image [of b v ws lines m iter] by auto
qed

text \<open>A version 1 image in Thumb state.\<close>

theorem restore_all_or_nothing_witness:
  "fst (RestoreContext rev (contextImage 1 (replicate 17 5) [] 1) (NewWithMemoryLimit False 0)) = Inr () \<and>
   regs (snd (RestoreContext rev (contextImage 1 (replicate 17 5) [] 1) (NewWithMemoryLimit False 0))) 3 = 5 \<and>
   regs (snd (RestoreContext rev (contextImage 1 (replicate 17 5) [] 1) (NewWithMemoryLimit False 0))) 16 = 0x25"
proof -
  have "\<not> closed (NewWithMemoryLimit False 0)" by (simp add: NewWithMemoryLimit_def)
  moreover have "contextGrammar 1 (replicate 17 5) [] 1" by (simp add: contextGrammar_def)
  ultimately show ?thesis
    using restore_all_or_nothing [where b = "NewWithMemoryLimit False 0" and v = 1 and ws = "replicate 17 5" and lines = "[]" and m = 1
        and data = "contextImage 1 (replicate 17 5) [] 1" and iter = rev]
    by (auto simp: holds_image_def register_defs StatusThumb_def nth_replicate)
qed

text \<open>
   A task context restores its task.  What \<open>SaveExecutionContext\<close> takes of an application
  machine in a consistent state, \<open>RestoreExecutionContext\<close> puts back into the machine it was
  taken from, whatever ran there in between: registers, status with its pending flags, banks,
  saved status words, CP15 registers and instruction set; memory, mappings, interrupt lines
  and traps stay those of the running machine.  A context of another backend is refused, and
  the bytes \<open>MarshalExecutionContext\<close> gives for it are those of \<open>SaveContext\<close> on the machine.
\<close>

theorem task_context_roundtrip:
  assumes "machine_inv b" and "\<not> closed b" and "fastExecutionContextAvailable b"
    and "\<not> closed c" and "fastExecutionContextAvailable c" and "residentInstructionCacheLines b = []"
  shows "\<exists>ctx b1 c'. SaveExecutionContext self None b = (Inr ctx, b1) \<and>
    RestoreExecutionContext self ctx c = (Inr (), c') \<and>
    (\<forall>r < 16. regs c' r = regs b r) \<and> cpsr c' = cpsr b \<and> banks c' = banks b \<and> spsr c' = spsr b \<and>
    cp15 c' = cp15 b \<and> mode c' = mode b \<and> arrays c' = arrays c \<and> machine_config c' = machine_config c \<and>
    (self' \<noteq> self \<longrightarrow> RestoreExecutionContext self' ctx c = (Inl ErrInvalidAddress, c)) \<and>
    fst (MarshalExecutionContext self ctx c) = fst (SaveContext b)"
proof -
  define s where "s = resolveFlags b"
  have inv: "machine_inv s" using machine_inv_step [OF machine_resolve assms(1)] by (simp add: s_def)
  define ctx where "ctx = \<lparr>ctx_owner = self, ctx_regs = regs s, ctx_banks = banks s, ctx_spsr = spsr s,
    ctx_cp15 = cp15 s, ctx_mode = mode s\<rparr>"
  have save: "SaveExecutionContext self None b = (Inr ctx, countFastSave s)"
    using assms(2,3) by (simp add: SaveExecutionContext_def Let_def ctx_def s_def)
  define c1 where "c1 = c\<lparr>regs := regs s, banks := banks s, spsr := spsr s, cp15 := cp15 s, flags := noFlags, mode := mode s\<rparr>"
  have off: "cp15_control (cp15 s) AND 1 = 0" "cp15_control (cp15 s) AND push_bit 12 1 = 0"
    using assms(3) by (simp_all add: fastExecutionContextAvailable_def mmuEnabled_def instructionCacheEnabled_def s_def)
  have "setModeFlag c1 = c1"
    using machine_invD(3) [OF inv] by (intro setModeFlag_agrees) (simp add: c1_def)
  then have restore: "RestoreExecutionContext self ctx c = (Inr (), countFastRestore c1)"
    using assms(4,5) off by (simp add: RestoreExecutionContext_def ctx_def c1_def)
  have refused: "self' \<noteq> self \<longrightarrow> RestoreExecutionContext self' ctx c = (Inl ErrInvalidAddress, c)"
    using assms(4,5) by (simp add: RestoreExecutionContext_def ctx_def)
  have "residentInstructionCacheLines s = residentInstructionCacheLines b" by (simp add: s_def resident_resolve)
  then have "fst (MarshalExecutionContext self ctx c) = fst (SaveContext b)"
    using assms(2,4,6) by (simp add: MarshalExecutionContext_def SaveContext_def ctx_def s_def [symmetric] Let_def)
  moreover have "cpsr (countFastRestore c1) = cpsr b"
    by (simp add: cpsr_def resolveFlags_def countFastRestore_def c1_def noFlags_def s_def)
  moreover have "\<forall>r < 16. regs (countFastRestore c1) r = regs b r"
    by (auto simp: countFastRestore_def c1_def s_def resolve_regs)
  ultimately show ?thesis
    using save restore refused
    by (intro exI [of _ ctx] exI [of _ "countFastSave s"] exI [of _ "countFastRestore c1"])
      (simp add: countFastRestore_def c1_def s_def machine_config_def)
qed

theorem task_context_roundtrip_witness:
  "\<exists>ctx b1 c'. SaveExecutionContext 5 None sampleBackend = (Inr ctx, b1) \<and>
     RestoreExecutionContext 5 ctx (setReg 3 9 sampleBackend) = (Inr (), c') \<and> regs c' 3 = 0 \<and>
     RestoreExecutionContext 6 ctx (setReg 3 9 sampleBackend) = (Inl ErrInvalidAddress, setReg 3 9 sampleBackend)"
proof -
  let ?b = sampleBackend
  have "machine_inv ((NewWithMemoryLimit False 0x20000)\<lparr>userSystemSPSRReadAsCPSR := False\<rparr>)"
    by (rule machine_inv_New)
  then have "machine_inv (NewWithMemoryLimit False 0x20000)" by (simp add: machine_inv_def wf_flags_def)
  then have inv: "machine_inv ?b" unfolding sampleBackend_def by (intro machine_inv_host_ops)
  have fast: "fastExecutionContextAvailable ?b" "residentInstructionCacheLines ?b = []"
    using app_guestD [OF app_guest_sample]
    by (simp_all add: fastExecutionContextAvailable_def residentInstructionCacheLines_def
        sampleBackend_def NewWithMemoryLimit_def Map_op_def Let_def clearDataCaches_def invalidateInstructionWindow_def)
  then have "fastExecutionContextAvailable (setReg 3 9 ?b)"
    by (simp add: fastExecutionContextAvailable_def mmuEnabled_def instructionCacheEnabled_def setReg_def)
  moreover have "\<not> closed ?b" "\<not> closed (setReg 3 9 ?b)" by (simp_all add: sampleBackend_fields setReg_def)
  ultimately show ?thesis
    using task_context_roundtrip [OF inv _ fast(1) _ _ fast(2), where c = "setReg 3 9 ?b" and self = 5 and self' = 6]
    by (auto simp: sampleBackend_cpu)
qed

text \<open>The processor state of a saved machine, seen on another.\<close>

definition same_task :: "backend \<Rightarrow> backend \<Rightarrow> bool" where
  "same_task b c \<longleftrightarrow> (\<forall>r < 16. regs c r = regs b r) \<and> cpsr c = cpsr b \<and> banks c = banks b \<and>
     spsr c = spsr b \<and> cp15 c = cp15 b \<and> mode c = mode b"

text \<open>What the fast representation holds.\<close>

definition taskContext :: "nat \<Rightarrow> backend \<Rightarrow> executionContext" where
  "taskContext self b = \<lparr>ctx_owner = self, ctx_regs = regs (resolveFlags b), ctx_banks = banks b,
     ctx_spsr = spsr b, ctx_cp15 = cp15 b, ctx_mode = mode b\<rparr>"

lemma same_taskI:
  assumes "\<forall>r < 17. regs c r = regs (resolveFlags b) r" and "\<not> flags_dirty (flags c)" and "banks c = banks b"
    and "spsr c = spsr b" and "cp15 c = cp15 b" and "mode c = mode b"
  shows "same_task b c"
proof -
  have "regs c r = regs b r" if "r < 16" for r :: u32
  proof -
    have "r < 17" "r \<noteq> 16" using that by (auto simp: word_less_nat_alt)
    then show ?thesis using assms(1) by (simp add: resolve_regs)
  qed
  moreover have "cpsr c = cpsr b"
    using assms(1,2) by (simp add: cpsr_def resolveFlags_def register_defs)
  ultimately show ?thesis using assms by (simp add: same_task_def)
qed

lemma saveFast_spec:
  "saveFast self reuse b =
     (if closed b then (Inl ErrClosed, b)
      else if \<not> fastExecutionContextAvailable b then (Inl ErrExecutionContextUnavailable, b)
      else (Inr (taskContext self b), countFastSave (resolveFlags b)))"
  by (auto simp: saveFast_def SaveExecutionContext_def taskContext_def Let_def split: option.split)

lemma restore_task:
  assumes "machine_inv b" and "fastExecutionContextAvailable b" and "\<not> closed c" and "\<And>xs. mset (iter xs) = mset xs"
  shows "\<exists>c'. ScopedContext_Restore iter self \<lparr>scoped_fast = Some (taskContext self b), scoped_bytes = None\<rparr> c = (Inr (), c') \<and>
    same_task b c'"
proof (cases "fastExecutionContextAvailable c")
  case True
  have inv: "machine_inv (resolveFlags b)" by (rule machine_inv_step [OF machine_resolve assms(1)])
  define c1 where "c1 = c\<lparr>regs := regs (resolveFlags b), banks := banks b, spsr := spsr b, cp15 := cp15 b,
    flags := noFlags, mode := mode b\<rparr>"
  have off: "cp15_control (cp15 b) AND 1 = 0" "cp15_control (cp15 b) AND push_bit 12 1 = 0"
    using assms(2) by (simp_all add: fastExecutionContextAvailable_def mmuEnabled_def instructionCacheEnabled_def)
  have "setModeFlag c1 = c1"
    using machine_invD(3) [OF inv] by (intro setModeFlag_agrees) (simp add: c1_def)
  then have "RestoreExecutionContext self (taskContext self b) c = (Inr (), countFastRestore c1)"
    using True off assms(3) by (simp add: RestoreExecutionContext_def taskContext_def c1_def)
  moreover have "same_task b (countFastRestore c1)"
    by (rule same_taskI) (simp_all add: countFastRestore_def c1_def noFlags_def)
  ultimately show ?thesis by (simp add: ScopedContext_Restore_def)
next
  case False
  have inv: "machine_inv (resolveFlags b)" by (rule machine_inv_step [OF machine_resolve assms(1)])
  have "RestoreExecutionContext self (taskContext self b) c = (Inl ErrExecutionContextUnavailable, c)"
    using False assms(3) by (simp add: RestoreExecutionContext_def)
  moreover have "MarshalExecutionContext self (taskContext self b) c =
      (Inr (contextBytes (regs (resolveFlags b)) (banks b) (spsr b) (cp15 b) [] (mode b)), countSerializedSave c)"
    using assms(3) by (simp add: MarshalExecutionContext_def taskContext_def)
  moreover have "\<not> closed (countSerializedSave c)" using assms(3) by (simp add: countSerializedSave_def)
  then obtain c' where "RestoreContext iter (contextBytes (regs (resolveFlags b)) (banks b) (spsr b) (cp15 b) [] (mode b))
      (countSerializedSave c) = (Inr (), c')"
    "\<forall>r < 17. regs c' r = regs (resolveFlags b) r" "\<not> flags_dirty (flags c')" "banks c' = banks b" "spsr c' = spsr b"
    "cp15 c' = cp15 b" "mode c' = mode b"
    using restore_encoded [where rs = "regs (resolveFlags b)" and iter = iter and lines = "[]" and k = "banks b" and m = "mode b"
        and s = "spsr b" and cp = "cp15 b", of "countSerializedSave c"]
      machine_invD(2,3) [OF inv] assms(4) [of "[]"]
    by auto
  ultimately show ?thesis by (auto simp: ScopedContext_Restore_def intro!: same_taskI)
qed

text \<open>
   A nested guest call returns to the state it left.  On any open machine in a consistent
  state, \<open>SaveScopedContext\<close> succeeds, whatever context it is given to reuse, in the fast
  representation where that is available and in bytes otherwise; and \<open>Restore\<close> on whatever the
  nested call has made of the machine, with the MMU, the instruction cache or a bus on or off,
  brings back its registers, status, banks, saved status words, CP15 registers and instruction
  set.
\<close>

theorem scoped_context_restores:
  assumes "machine_inv b" and "ic_wf b" and "\<not> closed b" and "\<not> closed c" and "\<And>xs. mset (iter xs) = mset xs"
  shows "\<exists>saved c'. fst (SaveScopedContext self reuse b) = Inr saved \<and>
    ScopedContext_Restore iter self saved c = (Inr (), c') \<and> same_task b c' \<and>
    (scoped_fast saved \<noteq> None \<longleftrightarrow> fastExecutionContextAvailable b)"
proof (cases "fastExecutionContextAvailable b")
  case True
  then have "fst (SaveScopedContext self reuse b) = Inr \<lparr>scoped_fast = Some (taskContext self b), scoped_bytes = None\<rparr>"
    using assms(3) by (simp add: SaveScopedContext_def saveFast_spec)
  then show ?thesis using restore_task [OF assms(1) True assms(4,5)] True by auto
next
  case False
  obtain data c' where "fst (SaveContext b) = Inr data" "RestoreContext iter data c = (Inr (), c')"
    "\<forall>r < 16. regs c' r = regs b r" "cpsr c' = cpsr b" "banks c' = banks b" "spsr c' = spsr b"
    "cp15 c' = cp15 b" "mode c' = mode b"
    using context_roundtrip_state [OF assms] by blast
  then show ?thesis
    using False assms(3)
    by (cases "SaveContext b") (auto simp: SaveScopedContext_def saveFast_spec ScopedContext_Restore_def same_task_def)
qed

theorem scoped_context_restores_witness:
  "\<exists>saved c'. fst (SaveScopedContext 1 noScopedContext sampleCached) = Inr saved \<and>
     ScopedContext_Restore rev 1 saved (NewWithMemoryLimit False 0) = (Inr (), c') \<and>
     same_task sampleCached c' \<and> scoped_fast saved \<noteq> None"
proof -
  have "\<not> closed (NewWithMemoryLimit False 0)" by (simp add: NewWithMemoryLimit_def)
  moreover have "fastExecutionContextAvailable sampleCached"
    by (simp add: fastExecutionContextAvailable_def mmuEnabled_def instructionCacheEnabled_def sampleCached_def
        setNZ_def deferFlags_def WriteRegister_def writeRegisterLocked_def Let_def split_beta register_defs
        restoreInstructionCacheLine_def setICEntry_def nextICSerial_def ensureICTable_def
        invalidateInstructionWindow_def NewWithMemoryLimit_def resolveFlags_def noFlags_def setReg_def
        decodeProcessorMode_def zeroCP15_def processorModeMask_def)
  ultimately show ?thesis
    using scoped_context_restores [OF sampleCached_ok(1-3), of "NewWithMemoryLimit False 0" rev 1 noScopedContext]
    by fastforce
qed

end
