(* ===== verification/Service_Prelude.thy ===== *)
theory Service_Prelude
  imports Aram_Prelude
begin

text \<open>
  Shared vocabulary of the components around the processor: what package runtime and the
  guest package have in common.  The locale \<open>scripted\<close> is the interface of a component whose
  operations keep an invariant: its lemmas carry the invariant over every sequence of
  operations, and the components interpret it on their own operation datatypes.
\<close>

subsection \<open>Components driven by operations\<close>

locale scripted =
  fixes inv :: "'s \<Rightarrow> bool"
    and step :: "'op \<Rightarrow> 's \<Rightarrow> 's"
  assumes step_inv: "inv s \<Longrightarrow> inv (step a s)"
begin

lemma script_inv: "inv s \<Longrightarrow> inv (fold step script s)"
  by (induction script arbitrary: s) (simp_all add: step_inv)

text \<open>A reflexive and transitive relation that every step respects holds across a script.\<close>

lemma script_rel:
  assumes "\<And>s. R s s" and "\<And>s t u. R s t \<Longrightarrow> R t u \<Longrightarrow> R s u"
    and "\<And>s a. inv s \<Longrightarrow> R s (step a s)" and "inv s"
  shows "R s (fold step script s)"
  using assms(4)
proof (induction script arbitrary: s)
  case (Cons a script)
  then have "R (step a s) (fold step script (step a s))" using step_inv by blast
  then show ?case using assms(2) assms(3) [OF Cons.prems] by fastforce
qed (simp add: assms(1))

end

subsection \<open>Signed integers\<close>

definition MaxInt64 :: int where "MaxInt64 = 2 ^ 63 - 1"
definition MinInt64 :: int where "MinInt64 = - (2 ^ 63)"
definition MaxUint64 :: nat where "MaxUint64 = 2 ^ 64 - 1"

lemmas int64_defs = MaxInt64_def MinInt64_def MaxUint64_def

definition wrap64 :: "int \<Rightarrow> int" where
  "wrap64 x = (x + 2 ^ 63) mod 2 ^ 64 - 2 ^ 63"

lemma wrap64_id: "MinInt64 \<le> x \<Longrightarrow> x \<le> MaxInt64 \<Longrightarrow> wrap64 x = x"
  by (simp add: wrap64_def int64_defs)

text \<open>The conversion to int32.\<close>

definition int32 :: "int \<Rightarrow> int" where
  "int32 x = (x + 2 ^ 31) mod 2 ^ 32 - 2 ^ 31"

lemma int32_id: "- 2147483648 \<le> x \<Longrightarrow> x < 2147483648 \<Longrightarrow> int32 x = x"
  by (simp add: int32_def)

lemma unat_of_nat_u32: "n < 2 ^ 32 \<Longrightarrow> unat (of_nat n :: u32) = n"
  by (simp add: unat_of_nat)

subsection \<open>Strings\<close>

text \<open>
  Strings are their UTF-8 bytes.  \<open>strings.TrimSpace\<close> answers the empty string exactly when
  every rune is white space: the ASCII spaces, U+0085, U+00A0, U+1680, U+2000 to U+200A,
  U+2028, U+2029, U+202F, U+205F and U+3000.
\<close>

type_synonym name = "u8 list"

definition isSpace :: "u8 \<Rightarrow> bool" where
  "isSpace c \<longleftrightarrow> c = 0x20 \<or> 0x09 \<le> c \<and> c \<le> 0x0D"

definition wideSpace :: "u8 \<Rightarrow> u8 \<Rightarrow> u8 \<Rightarrow> bool" where
  "wideSpace a b c \<longleftrightarrow>
     a = 0xE1 \<and> b = 0x9A \<and> c = 0x80 \<or>
     a = 0xE2 \<and> b = 0x80 \<and> (0x80 \<le> c \<and> c \<le> 0x8A \<or> c = 0xA8 \<or> c = 0xA9 \<or> c = 0xAF) \<or>
     a = 0xE2 \<and> b = 0x81 \<and> c = 0x9F \<or>
     a = 0xE3 \<and> b = 0x80 \<and> c = 0x80"

fun TrimSpaceEmpty :: "name \<Rightarrow> bool" where
  "TrimSpaceEmpty [] = True"
| "TrimSpaceEmpty (a # bs) =
     (if a < 0x80 then isSpace a \<and> TrimSpaceEmpty bs
      else case bs of
        [] \<Rightarrow> False
      | b # cs \<Rightarrow>
          if a = 0xC2 then (b = 0x85 \<or> b = 0xA0) \<and> TrimSpaceEmpty cs
          else (case cs of [] \<Rightarrow> False | c # ds \<Rightarrow> wideSpace a b c \<and> TrimSpaceEmpty ds))"

definition hasNUL :: "name \<Rightarrow> bool" where
  "hasNUL s \<longleftrightarrow> 0 \<in> set s"

subsection \<open>Sorted snapshots of maps\<close>

text \<open>
  A snapshot lists a map by ascending key; a restore rejects a list whose keys do not
  ascend.  Reading the list back as a map gives the map, and the other way round.
\<close>

definition entriesOf :: "('k::linorder \<rightharpoonup> 'v) \<Rightarrow> ('k \<times> 'v) list" where
  "entriesOf m = map (\<lambda>k. (k, the (m k))) (sorted_list_of_set (dom m))"

lemma entriesOf_keys [simp]: "map fst (entriesOf m) = sorted_list_of_set (dom m)"
  by (simp add: entriesOf_def comp_def)

lemma length_entriesOf: "length (entriesOf m) = card (dom m)"
  by (simp add: entriesOf_def)

lemma set_entriesOf: "finite (dom m) \<Longrightarrow> (k, v) \<in> set (entriesOf m) \<longleftrightarrow> m k = Some v"
  by (auto simp: entriesOf_def dom_def)

lemma map_of_entriesOf: "finite (dom m) \<Longrightarrow> map_of (entriesOf m) = m"
proof
  fix k assume fin: "finite (dom m)"
  have d: "distinct (map fst (entriesOf m))" by simp
  show "map_of (entriesOf m) k = m k"
  proof (cases "m k")
    case None
    then have "k \<notin> fst ` set (entriesOf m)" using set_entriesOf [OF fin, of k] by force
    then show ?thesis using None by (simp add: map_of_eq_None_iff)
  next
    case (Some v)
    then show ?thesis using d set_entriesOf [OF fin, of k v] by (simp add: map_of_is_SomeI)
  qed
qed

lemma entriesOf_map_of:
  assumes "sorted_wrt (<) (map fst xs)"
  shows "entriesOf (map_of xs) = xs"
proof -
  have d: "distinct (map fst xs)" using assms by (simp add: strict_sorted_iff)
  have "sorted_list_of_set (set (map fst xs)) = map fst xs"
    by (rule sorted_list_of_set.idem_if_sorted_distinct) (use assms in \<open>simp_all add: strict_sorted_iff\<close>)
  then have "entriesOf (map_of xs) = map (\<lambda>x. (fst x, the (map_of xs (fst x)))) xs"
    by (simp add: entriesOf_def dom_map_of_conv_image_fst comp_def)
  also have "\<dots> = xs" using d by (intro map_idI) (auto simp: map_of_is_SomeI)
  finally show ?thesis .
qed

lemma map_add_Cons:
  "s \<notin> dom (map_of xs) \<Longrightarrow> m(s \<mapsto> v) ++ map_of xs = m ++ map_of ((s, v) # xs)"
  by (simp only: map_of.simps fst_conv snd_conv map_add_upd map_add_upd_left not_False_eq_True)

lemma filter_sorted_list_of_set:
  "finite A \<Longrightarrow> filter P (sorted_list_of_set A) = sorted_list_of_set {x \<in> A. P x}"
  by (rule sorted_distinct_set_unique) (auto simp: sorted_wrt_filter)

subsection \<open>Insertion by binary search\<close>

definition insertAt :: "nat \<Rightarrow> 'a \<Rightarrow> 'a list \<Rightarrow> 'a list" where
  "insertAt i x xs = take i xs @ x # drop i xs"

lemma Search_takeWhile:
  assumes "sorted_wrt (\<lambda>x y. P x \<longrightarrow> P y) xs"
  shows "Search (length xs) (\<lambda>i. P (xs ! i)) = length (takeWhile (\<lambda>x. \<not> P x) xs)"
proof -
  let ?n = "Search (length xs) (\<lambda>i. P (xs ! i))"
  have mono: "P (xs ! k) \<Longrightarrow> P (xs ! l)" if "k \<le> l" "l < length xs" for k l
    using sorted_wrt_nth_less [OF assms, of k l] that by (cases "k = l") auto
  have s: "?n \<le> length xs" "\<And>k. k < ?n \<Longrightarrow> \<not> P (xs ! k)" "?n < length xs \<Longrightarrow> P (xs ! ?n)"
    using Search_least [of "length xs" "\<lambda>i. P (xs ! i)"] mono by blast+
  have "takeWhile (\<lambda>x. \<not> P x) xs = take ?n xs"
    using s by (intro takeWhile_eq_take_P_nth) auto
  then show ?thesis using s(1) by simp
qed

lemma insertAt_Search:
  assumes "sorted_wrt (\<lambda>x y. P x \<longrightarrow> P y) xs"
  shows "insertAt (Search (length xs) (\<lambda>i. P (xs ! i))) x xs =
    takeWhile (\<lambda>y. \<not> P y) xs @ x # dropWhile (\<lambda>y. \<not> P y) xs"
  unfolding Search_takeWhile [OF assms] insertAt_def
  by (simp add: takeWhile_eq_take [symmetric] dropWhile_eq_drop [symmetric])

lemma insort_split:
  "takeWhile (\<lambda>y. \<not> x \<le> y) xs @ x # dropWhile (\<lambda>y. \<not> x \<le> y) xs = insort (x :: 'a::linorder) xs"
  by (induction xs) auto

lemma set_insertAt [simp]: "set (insertAt i x xs) = insert x (set xs)"
  by (metis Un_insert_right append_take_drop_id insertAt_def list.simps(15) set_append)

lemma length_insertAt [simp]: "length (insertAt i x xs) = Suc (length xs)"
  by (simp add: insertAt_def)

end
