(* ===== verification/Guest_Heap.thy ===== *)
theory Guest_Heap
  imports Cpu_Guest_Memory Service_Prelude
begin

text \<open>
  The guest heap the application platforms share, src/application/internal/guest/heap.go,
  heap_state.go and memory.go: first-fit allocation from an address-ordered free list,
  release with coalescing, and the reconstruction of the free list from a saved allocation
  table.  A heap is a record in a store of heaps, because a heap may delegate to another
  through its \<open>Shared\<close> pointer; the backend whose memory \<open>Allocate\<close> clears is an argument.

  The invariant \<open>heap_inv\<close> says that the free list is the list of maximal gaps that the
  live allocations leave in the arena.  Such a list is unique (\<open>separated_unique\<close>), which
  carries the equalities between different ways of reaching a heap.
\<close>

subsection \<open>State\<close>

record Block =
  blk_Address :: u32
  blk_Size :: u32

record Heap =
  heap_Free :: "Block list"
  heap_Allocations :: "u32 \<rightharpoonup> u32"
  heap_Shared :: "nat option"

type_synonym heaps = "nat \<Rightarrow> Heap"

definition NewHeap :: "u32 \<Rightarrow> u32 \<Rightarrow> Heap" where
  "NewHeap base sz =
     \<lparr>heap_Free = [\<lparr>blk_Address = base, blk_Size = sz\<rparr>], heap_Allocations = Map.empty, heap_Shared = None\<rparr>"

text \<open>Following \<open>Shared\<close> need not end on a cyclic chain, which is the value \<open>None\<close>.\<close>

partial_function (option) Root :: "heaps \<Rightarrow> nat \<Rightarrow> nat option" where
  "Root hs h = (case heap_Shared (hs h) of None \<Rightarrow> Some h | Some p \<Rightarrow> Root hs p)"

subsection \<open>Clearing guest memory\<close>

function zeroLoop :: "u32 \<Rightarrow> nat \<Rightarrow> nat \<Rightarrow> backend \<Rightarrow> unit res" where
  "zeroLoop address offset sz b =
     (if offset < sz
      then let n = min (min (64 * 1024) sz) (sz - offset) in
           and_then (WriteMemory (address + of_nat offset) (replicate n 0) b)
             (\<lambda>_ b. zeroLoop address (offset + n) sz b)
      else (Inr (), b))"
  by pat_completeness auto

termination
  by (relation "measure (\<lambda>(_, offset, sz, _). sz - offset)") auto

declare zeroLoop.simps [simp del]

definition ZeroMemory :: "u32 \<Rightarrow> u32 \<Rightarrow> backend \<Rightarrow> unit res" where
  "ZeroMemory address sz b = zeroLoop address 0 (unat sz) b"

subsection \<open>Allocation\<close>

text \<open>The loop over the free list: the first block that is large enough gives up its front.\<close>

fun firstFit :: "u32 \<Rightarrow> Block list \<Rightarrow> (u32 \<times> Block list) option" where
  "firstFit sz [] = None"
| "firstFit sz (block # rest) =
     (if blk_Size block < sz
      then map_option (\<lambda>(address, free). (address, block # free)) (firstFit sz rest)
      else Some (blk_Address block,
        if blk_Size block = sz then rest
        else block\<lparr>blk_Address := blk_Address block + sz, blk_Size := blk_Size block - sz\<rparr> # rest))"

definition roundSize :: "u32 \<Rightarrow> u32" where
  "roundSize sz = (sz + 7) AND NOT 7"

definition allocateRoot :: "u32 \<Rightarrow> bool \<Rightarrow> Heap \<Rightarrow> backend \<Rightarrow> (cpu_error + u32) \<times> Heap \<times> backend" where
  "allocateRoot sz clearMemory h b =
     (let sz = (if sz = 0 then 1 else sz) in
      if NOT 0 - 7 < sz then (Inr 0, h, b)
      else
        let sz = roundSize sz in
        case firstFit sz (heap_Free h) of
          None \<Rightarrow> (Inr 0, h, b)
        | Some (address, free) \<Rightarrow>
            let h = h\<lparr>heap_Allocations := (heap_Allocations h)(address \<mapsto> sz), heap_Free := free\<rparr> in
            if clearMemory
            then (case ZeroMemory address sz b of
                    (Inl e, b) \<Rightarrow> (Inl e, h, b)
                  | (Inr _, b) \<Rightarrow> (Inr address, h, b))
            else (Inr address, h, b))"

text \<open>The heap methods look up the owning heap first; an endless chain gives \<open>None\<close>.\<close>

definition Allocate :: "nat \<Rightarrow> u32 \<Rightarrow> bool \<Rightarrow> heaps \<times> backend \<Rightarrow>
    ((cpu_error + u32) \<times> heaps \<times> backend) option" where
  "Allocate h sz clearMemory s =
     (let (hs, b) = s in
      map_option (\<lambda>r. let (result, heap, b) = allocateRoot sz clearMemory (hs r) b
                      in (result, hs(r := heap), b)) (Root hs h))"

subsection \<open>Release\<close>

fun mergeFrom :: "Block \<Rightarrow> Block list \<Rightarrow> Block list" where
  "mergeFrom prev [] = [prev]"
| "mergeFrom prev (block # rest) =
     (if blk_Address prev + blk_Size prev = blk_Address block
      then mergeFrom (prev\<lparr>blk_Size := blk_Size prev + blk_Size block\<rparr>) rest
      else prev # mergeFrom block rest)"

fun mergeBlocks :: "Block list \<Rightarrow> Block list" where
  "mergeBlocks [] = []"
| "mergeBlocks (block # rest) = mergeFrom block rest"

text \<open>
  \<open>sort.Slice\<close> orders the blocks by address; what it does with equal addresses is not
  specified, and the invariant excludes them.
\<close>

definition dropAllocation :: "u32 \<Rightarrow> Heap \<Rightarrow> Heap option" where
  "dropAllocation address h =
     (case heap_Allocations h address of
        None \<Rightarrow> None
      | Some sz \<Rightarrow> Some (h\<lparr>heap_Allocations := (heap_Allocations h)(address := None),
          heap_Free := heap_Free h @ [\<lparr>blk_Address = address, blk_Size = sz\<rparr>]\<rparr>))"

definition normalizeFree :: "Heap \<Rightarrow> Heap" where
  "normalizeFree h = h\<lparr>heap_Free := mergeBlocks (sort_key blk_Address (heap_Free h))\<rparr>"

definition releaseRoot :: "u32 \<Rightarrow> Heap \<Rightarrow> bool \<times> Heap" where
  "releaseRoot address h =
     (case dropAllocation address h of None \<Rightarrow> (False, h) | Some h \<Rightarrow> (True, normalizeFree h))"

fun dropAll :: "u32 list \<Rightarrow> nat \<Rightarrow> Heap \<Rightarrow> nat \<times> Heap" where
  "dropAll [] freed h = (freed, h)"
| "dropAll (address # rest) freed h =
     (case dropAllocation address h of
        None \<Rightarrow> dropAll rest freed h
      | Some h \<Rightarrow> dropAll rest (freed + 1) h)"

definition releaseAllRoot :: "u32 list \<Rightarrow> Heap \<Rightarrow> nat \<times> Heap" where
  "releaseAllRoot addresses h =
     (let (freed, h) = dropAll addresses 0 h in if freed = 0 then (0, h) else (freed, normalizeFree h))"

definition Release :: "nat \<Rightarrow> u32 \<Rightarrow> heaps \<Rightarrow> (bool \<times> heaps) option" where
  "Release h address hs =
     map_option (\<lambda>r. let (ok, heap) = releaseRoot address (hs r) in (ok, hs(r := heap))) (Root hs h)"

definition ReleaseAll :: "nat \<Rightarrow> u32 list \<Rightarrow> heaps \<Rightarrow> (nat \<times> heaps) option" where
  "ReleaseAll h addresses hs =
     map_option (\<lambda>r. let (n, heap) = releaseAllRoot addresses (hs r) in (n, hs(r := heap))) (Root hs h)"

subsection \<open>Free lists as sets of addresses\<close>

definition blk_span :: "u32 \<Rightarrow> u32 \<Rightarrow> nat set" where
  "blk_span a s = {unat a ..< unat a + unat s}"

definition spans :: "Block list \<Rightarrow> nat set" where
  "spans bs = (\<Union>b \<in> set bs. blk_span (blk_Address b) (blk_Size b))"

text \<open>Blocks in address order with a gap of at least one byte between neighbours.\<close>

fun separated :: "nat \<Rightarrow> Block list \<Rightarrow> bool" where
  "separated lo [] \<longleftrightarrow> True"
| "separated lo (b # bs) \<longleftrightarrow> lo \<le> unat (blk_Address b) \<and> 0 < unat (blk_Size b) \<and>
     separated (unat (blk_Address b) + unat (blk_Size b) + 1) bs"

text \<open>Blocks in address order that may touch.\<close>

fun ascending :: "nat \<Rightarrow> Block list \<Rightarrow> bool" where
  "ascending lo [] \<longleftrightarrow> True"
| "ascending lo (b # bs) \<longleftrightarrow> lo \<le> unat (blk_Address b) \<and> 0 < unat (blk_Size b) \<and>
     ascending (unat (blk_Address b) + unat (blk_Size b)) bs"

definition blocks_ok :: "Block list \<Rightarrow> bool" where
  "blocks_ok bs \<longleftrightarrow> distinct bs \<and> (\<forall>b \<in> set bs. 0 < unat (blk_Size b)) \<and>
     (\<forall>b \<in> set bs. \<forall>c \<in> set bs. b \<noteq> c \<longrightarrow>
        blk_span (blk_Address b) (blk_Size b) \<inter> blk_span (blk_Address c) (blk_Size c) = {})"

lemma spans_simps [simp]:
  "spans [] = {}" "spans (b # bs) = blk_span (blk_Address b) (blk_Size b) \<union> spans bs"
  "spans (xs @ ys) = spans xs \<union> spans ys"
  by (auto simp: spans_def)

lemma separated_mono: "separated lo bs \<Longrightarrow> lo' \<le> lo \<Longrightarrow> separated lo' bs"
  by (cases bs) auto

lemma ascending_mono: "ascending lo bs \<Longrightarrow> lo' \<le> lo \<Longrightarrow> ascending lo' bs"
  by (cases bs) auto

lemma separated_ge: "separated lo bs \<Longrightarrow> x \<in> spans bs \<Longrightarrow> lo \<le> x"
  by (induction lo bs rule: separated.induct) (auto simp: blk_span_def)

lemma separated_ascending: "separated lo bs \<Longrightarrow> ascending lo bs"
  by (induction lo bs rule: separated.induct) (auto intro: ascending_mono)

lemma ascending_ge: "ascending lo bs \<Longrightarrow> x \<in> spans bs \<Longrightarrow> lo \<le> x"
  by (induction lo bs rule: ascending.induct) (auto simp: blk_span_def)

lemma ascending_blocks_ok: "ascending lo bs \<Longrightarrow> blocks_ok bs"
proof (induction lo bs rule: ascending.induct)
  case (2 lo b bs)
  let ?e = "unat (blk_Address b) + unat (blk_Size b)"
  have away: "blk_span (blk_Address b) (blk_Size b) \<inter> blk_span (blk_Address c) (blk_Size c) = {}"
    if "c \<in> set bs" for c
  proof -
    have "blk_span (blk_Address c) (blk_Size c) \<subseteq> {?e..}"
      using ascending_ge [of ?e bs] 2 that by (auto simp: spans_def)
    moreover have "blk_span (blk_Address b) (blk_Size b) \<subseteq> {..< ?e}" by (auto simp: blk_span_def)
    ultimately show ?thesis by fastforce
  qed
  moreover have "b \<notin> set bs"
    using away [of b] 2 by (auto simp: blk_span_def)
  ultimately show ?case using 2 by (auto simp: blocks_ok_def Int_commute)
qed (simp add: blocks_ok_def)

lemma sorted_ascending:
  assumes "blocks_ok bs" "sorted (map blk_Address bs)" "\<forall>b \<in> set bs. lo \<le> unat (blk_Address b)"
  shows "ascending lo bs"
  using assms
proof (induction bs arbitrary: lo)
  case (Cons b bs)
  have "unat (blk_Address b) + unat (blk_Size b) \<le> unat (blk_Address c)" if "c \<in> set bs" for c
  proof (rule ccontr)
    assume "\<not> ?thesis"
    moreover have "unat (blk_Address b) \<le> unat (blk_Address c)"
      using Cons.prems(2) that by (auto simp: word_le_nat_alt)
    moreover have "0 < unat (blk_Size c)" "b \<noteq> c" using Cons.prems(1) that by (auto simp: blocks_ok_def)
    ultimately have "unat (blk_Address c) \<in> blk_span (blk_Address b) (blk_Size b) \<inter> blk_span (blk_Address c) (blk_Size c)"
      by (auto simp: blk_span_def)
    then show False using Cons.prems(1) that \<open>b \<noteq> c\<close> by (auto simp: blocks_ok_def)
  qed
  moreover have "blocks_ok bs" using Cons.prems(1) by (auto simp: blocks_ok_def)
  ultimately show ?case using Cons.IH Cons.prems by (auto simp: blocks_ok_def)
qed simp

text \<open>A set of addresses has at most one separated list of blocks.\<close>

lemma separated_unique:
  "separated lo bs \<Longrightarrow> separated lo cs \<Longrightarrow> spans bs = spans cs \<Longrightarrow> bs = cs"
proof (induction bs arbitrary: lo cs)
  case Nil
  then show ?case by (cases cs) (auto simp: blk_span_def)
next
  case (Cons b bs)
  then obtain c cs' where cs: "cs = c # cs'" by (cases cs) (auto simp: blk_span_def)
  let ?a = "unat (blk_Address b)" and ?s = "unat (blk_Size b)"
  let ?a' = "unat (blk_Address c)" and ?s' = "unat (blk_Size c)"
  have b: "0 < ?s" "separated (?a + ?s + 1) bs" and c: "0 < ?s'" "separated (?a' + ?s' + 1) cs'"
    using Cons.prems cs by auto
  have eq: "blk_span (blk_Address b) (blk_Size b) \<union> spans bs = blk_span (blk_Address c) (blk_Size c) \<union> spans cs'"
    using Cons.prems(3) cs by simp
  note ge = separated_ge [OF b(2)] separated_ge [OF c(2)]
  have "?a \<in> blk_span (blk_Address c) (blk_Size c) \<union> spans cs'"
    "?a' \<in> blk_span (blk_Address b) (blk_Size b) \<union> spans bs"
    using eq b(1) c(1) by (auto simp: blk_span_def)
  then have a: "?a = ?a'" using ge by (fastforce simp: blk_span_def)
  have "?a + ?s \<notin> blk_span (blk_Address b) (blk_Size b) \<union> spans bs"
    "?a' + ?s' \<notin> blk_span (blk_Address c) (blk_Size c) \<union> spans cs'"
    using ge by (fastforce simp: blk_span_def)+
  then have "?a + ?s \<notin> blk_span (blk_Address c) (blk_Size c)" "?a' + ?s' \<notin> blk_span (blk_Address b) (blk_Size b)"
    using eq by auto
  then have s: "?s = ?s'" using a by (auto simp: blk_span_def)
  then have "b = c" using a by (intro Block.equality) (simp_all add: word_unat_eq_iff)
  moreover have "spans bs = spans cs'"
  proof -
    have "spans bs = (blk_span (blk_Address b) (blk_Size b) \<union> spans bs) \<inter> {?a + ?s ..}"
      "spans cs' = (blk_span (blk_Address c) (blk_Size c) \<union> spans cs') \<inter> {?a' + ?s' ..}"
      using ge by (fastforce simp: blk_span_def)+
    then show ?thesis using eq a s by simp
  qed
  ultimately show ?case using Cons.IH b(2) c(2) a s cs by simp
qed

subsection \<open>Coalescing\<close>

lemma mergeFrom_separated:
  assumes "ascending lo (prev # rest)" "spans (prev # rest) \<subseteq> {..< N}" "N < 2 ^ 32"
  shows "separated lo (mergeFrom prev rest) \<and> spans (mergeFrom prev rest) = spans (prev # rest)"
  using assms
proof (induction rest arbitrary: lo prev)
  case (Cons block rest)
  let ?a = "unat (blk_Address prev)" and ?s = "unat (blk_Size prev)"
  let ?a' = "unat (blk_Address block)" and ?s' = "unat (blk_Size block)"
  have pos: "0 < ?s" "0 < ?s'" "?a + ?s \<le> ?a'" using Cons.prems(1) by auto
  have "?a' + ?s' - 1 \<in> spans (prev # block # rest)" using pos by (auto simp: blk_span_def)
  then have "?a' + ?s' - 1 < N" using Cons.prems(2) by blast
  then have top: "?a' + ?s' < 2 ^ 32" using Cons.prems(3) by linarith
  have sum: "unat (blk_Address prev + blk_Size prev) = ?a + ?s"
    using pos top by (intro unat_add_lem [THEN iffD1]) simp
  show ?case
  proof (cases "blk_Address prev + blk_Size prev = blk_Address block")
    case True
    let ?p = "prev\<lparr>blk_Size := blk_Size prev + blk_Size block\<rparr>"
    have touch: "?a + ?s = ?a'" using True sum by simp
    have size: "unat (blk_Size prev + blk_Size block) = ?s + ?s'"
      using touch top by (intro unat_add_lem [THEN iffD1]) simp
    have span: "blk_span (blk_Address ?p) (blk_Size ?p) =
        blk_span (blk_Address prev) (blk_Size prev) \<union> blk_span (blk_Address block) (blk_Size block)"
      using touch by (auto simp: blk_span_def size)
    have "ascending lo (?p # rest)" "spans (?p # rest) \<subseteq> {..< N}"
      using Cons.prems span touch by (auto simp: size add.assoc [symmetric])
    from Cons.IH [OF this Cons.prems(3)] show ?thesis using True span by (auto simp: Un_assoc)
  next
    case False
    have "?a + ?s \<noteq> ?a'" using False sum by (metis word_unat_eq_iff)
    then have "ascending (?a + ?s + 1) (block # rest)" "spans (block # rest) \<subseteq> {..< N}"
      using Cons.prems pos by auto
    from Cons.IH [OF this Cons.prems(3)] show ?thesis using False Cons.prems(1) by auto
  qed
qed auto

lemma mergeBlocks_separated:
  assumes "ascending lo bs" "spans bs \<subseteq> {..< N}" "N < 2 ^ 32"
  shows "separated lo (mergeBlocks bs) \<and> spans (mergeBlocks bs) = spans bs"
  using assms by (cases bs) (simp_all add: mergeFrom_separated del: ascending.simps)

subsection \<open>The invariant\<close>

definition arena :: "u32 \<Rightarrow> u32 \<Rightarrow> nat set" where
  "arena base sz = {unat base ..< unat base + unat sz}"

definition live :: "(u32 \<rightharpoonup> u32) \<Rightarrow> nat set" where
  "live al = {x. \<exists>a s. al a = Some s \<and> x \<in> blk_span a s}"

definition allocations_ok :: "u32 \<Rightarrow> u32 \<Rightarrow> (u32 \<rightharpoonup> u32) \<Rightarrow> bool" where
  "allocations_ok base sz al \<longleftrightarrow>
     (\<forall>a s. al a = Some s \<longrightarrow> 0 < unat s \<and> 8 dvd unat s \<and> blk_span a s \<subseteq> arena base sz) \<and>
     (\<forall>a s a' s'. al a = Some s \<and> al a' = Some s' \<and> a \<noteq> a' \<longrightarrow> blk_span a s \<inter> blk_span a' s' = {})"

definition heap_arena :: "u32 \<Rightarrow> u32 \<Rightarrow> bool" where
  "heap_arena base sz \<longleftrightarrow> 0 < unat base \<and> 0 < unat sz \<and> unat base + unat sz < 2 ^ 32"

definition heap_inv :: "u32 \<Rightarrow> u32 \<Rightarrow> Heap \<Rightarrow> bool" where
  "heap_inv base sz h \<longleftrightarrow> heap_arena base sz \<and> allocations_ok base sz (heap_Allocations h) \<and>
     separated (unat base) (heap_Free h) \<and>
     spans (heap_Free h) = arena base sz - live (heap_Allocations h)"

text \<open>Between the removal of an allocation and the next sort the free list is unordered.\<close>

definition heap_loose :: "u32 \<Rightarrow> u32 \<Rightarrow> Heap \<Rightarrow> bool" where
  "heap_loose base sz h \<longleftrightarrow> heap_arena base sz \<and> allocations_ok base sz (heap_Allocations h) \<and>
     blocks_ok (heap_Free h) \<and> spans (heap_Free h) = arena base sz - live (heap_Allocations h)"

lemma heap_inv_loose: "heap_inv base sz h \<Longrightarrow> heap_loose base sz h"
  by (auto simp: heap_inv_def heap_loose_def intro: ascending_blocks_ok separated_ascending)

lemma live_update:
  assumes "al a = None"
  shows "live (al(a \<mapsto> s)) = live al \<union> blk_span a s"
proof (rule set_eqI)
  fix x show "x \<in> live (al(a \<mapsto> s)) \<longleftrightarrow> x \<in> live al \<union> blk_span a s"
    using assms by (cases "x \<in> blk_span a s") (auto simp: live_def, metis option.simps(3))
qed

lemma live_remove:
  assumes "allocations_ok base sz al" "al a = Some s"
  shows "live (al(a := None)) = live al - blk_span a s"
proof -
  have "blk_span a' s' \<inter> blk_span a s = {}" if "al a' = Some s'" "a' \<noteq> a" for a' s'
    using assms that unfolding allocations_ok_def by blast
  then have "x \<in> live (al(a := None)) \<longleftrightarrow> x \<in> live al - blk_span a s" for x
    using assms(2) by (auto simp: live_def disjoint_iff) (metis option.inject)
  then show ?thesis by blast
qed

lemma live_arena: "allocations_ok base sz al \<Longrightarrow> live al \<subseteq> arena base sz"
  by (fastforce simp: allocations_ok_def live_def)

lemma allocations_ok_update:
  assumes "allocations_ok base sz al" "0 < unat s" "8 dvd unat s" "blk_span a s \<subseteq> arena base sz - live al"
  shows "allocations_ok base sz (al(a \<mapsto> s)) \<and> al a = None"
proof -
  have apart: "blk_span a s \<inter> blk_span a' s' = {}" if "al a' = Some s'" for a' s'
    using assms(4) that by (fastforce simp: live_def)
  have "al a = None"
  proof (rule ccontr)
    assume "al a \<noteq> None"
    then obtain s' where s': "al a = Some s'" by auto
    then have "0 < unat s'" using assms(1) by (auto simp: allocations_ok_def)
    then have "unat a \<in> blk_span a s \<inter> blk_span a s'" using assms(2) by (simp add: blk_span_def)
    then show False using apart [OF s'] by simp
  qed
  then show ?thesis
    using assms apart by (auto simp: allocations_ok_def Int_commute)
qed

lemma allocations_ok_remove: "allocations_ok base sz al \<Longrightarrow> allocations_ok base sz (al(a := None))"
  by (auto simp: allocations_ok_def)

lemma NewHeap_inv: "heap_arena base sz \<Longrightarrow> heap_inv base sz (NewHeap base sz)"
  by (auto simp: heap_inv_def NewHeap_def allocations_ok_def live_def arena_def heap_arena_def blk_span_def)

text \<open>The allocation table determines the free list.\<close>

lemma heap_inv_free_unique:
  "heap_inv base sz h \<Longrightarrow> heap_inv base sz h' \<Longrightarrow> heap_Allocations h = heap_Allocations h' \<Longrightarrow>
     heap_Free h = heap_Free h'"
  by (rule separated_unique [of "unat base"]) (auto simp: heap_inv_def)

lemma normalizeFree_inv:
  assumes "heap_loose base sz h"
  shows "heap_inv base sz (normalizeFree h)"
proof -
  let ?bs = "sort_key blk_Address (heap_Free h)"
  have sp: "spans ?bs = spans (heap_Free h)" by (simp add: spans_def)
  have ok: "blocks_ok (heap_Free h)" and in_arena: "spans (heap_Free h) \<subseteq> arena base sz"
    and N: "unat base + unat sz < 2 ^ 32"
    using assms by (auto simp: heap_loose_def heap_arena_def)
  have "blocks_ok ?bs" using ok by (simp add: blocks_ok_def)
  moreover have "unat base \<le> unat (blk_Address b)" if "b \<in> set ?bs" for b
  proof -
    have "unat (blk_Address b) \<in> spans (heap_Free h)"
      using that ok by (force simp: spans_def blk_span_def blocks_ok_def)
    then show ?thesis using in_arena by (auto simp: arena_def)
  qed
  ultimately have "ascending (unat base) ?bs" by (intro sorted_ascending) auto
  moreover have "spans ?bs \<subseteq> {..< unat base + unat sz}" using in_arena sp by (auto simp: arena_def)
  ultimately have "separated (unat base) (mergeBlocks ?bs) \<and> spans (mergeBlocks ?bs) = spans (heap_Free h)"
    using mergeBlocks_separated N sp by metis
  then show ?thesis using assms by (simp add: heap_inv_def heap_loose_def normalizeFree_def)
qed

subsection \<open>The operations keep the invariant\<close>

lemma dropAllocation_loose:
  assumes "heap_loose base sz h" "dropAllocation a h = Some h'"
  shows "heap_loose base sz h' \<and> heap_Allocations h' = (heap_Allocations h)(a := None) \<and>
    heap_Shared h' = heap_Shared h \<and> a \<in> dom (heap_Allocations h)"
proof -
  let ?al = "heap_Allocations h" and ?bs = "heap_Free h"
  obtain s where s: "?al a = Some s"
    and h': "h' = h\<lparr>heap_Allocations := ?al(a := None), heap_Free := ?bs @ [\<lparr>blk_Address = a, blk_Size = s\<rparr>]\<rparr>"
    using assms(2) by (auto simp: dropAllocation_def split: option.splits)
  have al: "allocations_ok base sz ?al" and free: "blocks_ok ?bs" "spans ?bs = arena base sz - live ?al"
    using assms(1) by (auto simp: heap_loose_def)
  have span: "blk_span a s \<subseteq> live ?al" "blk_span a s \<subseteq> arena base sz" "0 < unat s"
    using al s by (auto simp: live_def allocations_ok_def)
  have away: "blk_span a s \<inter> blk_span (blk_Address b) (blk_Size b) = {}" if "b \<in> set ?bs" for b
    using free(2) span(1) that by (fastforce simp: spans_def)
  have fresh: "\<lparr>blk_Address = a, blk_Size = s\<rparr> \<notin> set ?bs"
    using away [of "\<lparr>blk_Address = a, blk_Size = s\<rparr>"] span(3) by (auto simp: blk_span_def)
  have "blocks_ok (?bs @ [\<lparr>blk_Address = a, blk_Size = s\<rparr>])"
    using free(1) away fresh span(3) by (auto simp: blocks_ok_def Int_commute)
  moreover have "spans (?bs @ [\<lparr>blk_Address = a, blk_Size = s\<rparr>]) = arena base sz - live (?al(a := None))"
    using free(2) span(2) live_remove [OF al s] by auto
  ultimately show ?thesis
    using assms(1) al s h' by (auto simp: heap_loose_def allocations_ok_remove)
qed

lemma normalizeFree_fields [simp]:
  "heap_Allocations (normalizeFree h) = heap_Allocations h" "heap_Shared (normalizeFree h) = heap_Shared h"
  by (simp_all add: normalizeFree_def)

lemma releaseRoot_inv:
  assumes "heap_inv base sz h"
  shows "heap_inv base sz (snd (releaseRoot a h))"
    and "fst (releaseRoot a h) \<longleftrightarrow> a \<in> dom (heap_Allocations h)"
    and "heap_Allocations (snd (releaseRoot a h)) = (heap_Allocations h)(a := None)"
    and "heap_Shared (snd (releaseRoot a h)) = heap_Shared h"
    and "a \<notin> dom (heap_Allocations h) \<Longrightarrow> snd (releaseRoot a h) = h"
proof -
  show "fst (releaseRoot a h) \<longleftrightarrow> a \<in> dom (heap_Allocations h)"
    by (auto simp: releaseRoot_def dropAllocation_def split: option.splits)
  show "a \<notin> dom (heap_Allocations h) \<Longrightarrow> snd (releaseRoot a h) = h"
    by (auto simp: releaseRoot_def dropAllocation_def split: option.splits)
  show "heap_Allocations (snd (releaseRoot a h)) = (heap_Allocations h)(a := None)"
    by (auto simp: releaseRoot_def dropAllocation_def split: option.splits)
  show "heap_Shared (snd (releaseRoot a h)) = heap_Shared h"
    by (auto simp: releaseRoot_def dropAllocation_def split: option.splits)
  show "heap_inv base sz (snd (releaseRoot a h))"
    using assms dropAllocation_loose [OF heap_inv_loose [OF assms]]
    by (auto simp: releaseRoot_def normalizeFree_inv split: option.splits)
qed

lemma firstFit_some:
  assumes "separated lo bs" "firstFit n bs = Some (a, bs')" "0 < unat n" "spans bs \<subseteq> {..< 2 ^ 32}"
  shows "separated lo bs' \<and> spans bs' = spans bs - blk_span a n \<and> blk_span a n \<subseteq> spans bs"
  using assms
proof (induction bs arbitrary: lo bs')
  case (Cons b bs)
  let ?a = "unat (blk_Address b)" and ?s = "unat (blk_Size b)"
  have tail: "separated (?a + ?s + 1) bs" using Cons.prems by simp
  have high: "?a + ?s < x" if "x \<in> spans bs" for x using separated_ge [OF tail that] by simp
  consider (small) "blk_Size b < n" | (exact) "blk_Size b = n" | (large) "n < blk_Size b" by force
  then show ?case
  proof cases
    case small
    then obtain bs'' where r: "firstFit n bs = Some (a, bs'')" "bs' = b # bs''" using Cons.prems(2) by auto
    note ih = Cons.IH [OF tail r(1) Cons.prems(3)] Cons.prems(4)
    have "blk_span (blk_Address b) (blk_Size b) \<inter> blk_span a n = {}"
      using ih high by (fastforce simp: blk_span_def)
    then show ?thesis using ih r Cons.prems(1) by auto
  next
    case exact
    then have "a = blk_Address b" "bs' = bs" using Cons.prems(2) by auto
    moreover have "spans bs \<inter> blk_span (blk_Address b) n = {}" using high exact by (fastforce simp: blk_span_def)
    ultimately show ?thesis using exact Cons.prems(1) separated_mono [OF tail, of lo] by auto
  next
    case large
    let ?r = "b\<lparr>blk_Address := blk_Address b + n, blk_Size := blk_Size b - n\<rparr>"
    have n: "unat n < ?s" using large by (simp add: word_less_nat_alt)
    have r: "a = blk_Address b" "bs' = ?r # bs" using Cons.prems(2) n by (auto simp: word_less_nat_alt)
    have "?a + ?s - 1 \<in> spans (b # bs)" using n by (auto simp: blk_span_def)
    then have bound: "?a + ?s - 1 < 2 ^ 32" using Cons.prems(4) by blast
    have u: "unat (blk_Address b + n) = ?a + unat n" "unat (blk_Size b - n) = ?s - unat n"
      using n bound by (auto simp: unat_sub_if' intro!: unat_add_lem [THEN iffD1])
    have cut: "blk_span (blk_Address b + n) (blk_Size b - n) = blk_span (blk_Address b) (blk_Size b) - blk_span a n"
      "blk_span a n \<subseteq> blk_span (blk_Address b) (blk_Size b)"
      using n r(1) by (auto simp: blk_span_def u)
    have "spans bs \<inter> blk_span a n = {}" using high cut(2) by (fastforce simp: blk_span_def)
    moreover have "separated lo (?r # bs)" using tail Cons.prems(1) n by (simp add: u)
    ultimately show ?thesis using cut r by auto
  qed
qed simp

lemma firstFit_none: "firstFit n bs = None \<longleftrightarrow> (\<forall>b \<in> set bs. blk_Size b < n)"
  by (induction bs) auto

lemma unat_and_not_seven: "unat ((x :: 32 word) AND NOT 7) = unat x div 8 * 8"
proof -
  have split: "x = (x AND 7) + (x AND NOT 7)"
    by (subst disjunctive_add) (auto simp: bit_simps intro: bit_word_eqI)
  have low: "unat (x AND 7) = unat x mod 8"
  proof -
    have "unat (x AND 7) = unat x AND 7" by (simp add: unsigned_and_eq)
    also have "\<dots> = take_bit 3 (unat x)" by (simp add: take_bit_eq_mask mask_eq_exp_minus_1)
    finally show ?thesis by (simp add: take_bit_eq_mod)
  qed
  have "unat (x AND NOT 7) = unat (x - (x AND 7))" using split by (metis add_diff_cancel_left')
  also have "\<dots> = unat x - unat (x AND 7)"
    by (rule unat_sub) (simp add: word_and_le2)
  finally show ?thesis by (simp add: low minus_mod_eq_div_mult)
qed

lemma roundSize:
  assumes "0 < n" "n \<le> NOT 0 - 7"
  shows "unat (roundSize n) = (unat n + 7) div 8 * 8" "0 < unat (roundSize n)" "8 dvd unat (roundSize n)"
    "unat n \<le> unat (roundSize n)"
proof -
  have "unat n \<le> 2 ^ 32 - 1 - 7" "0 < unat n" using assms by (auto simp: word_le_nat_alt word_less_nat_alt)
  then have "unat (n + 7) = unat n + 7" by (subst unat_add_lem [THEN iffD1]) simp_all
  then show r: "unat (roundSize n) = (unat n + 7) div 8 * 8"
    unfolding roundSize_def unat_and_not_seven by simp
  show "0 < unat (roundSize n)" "8 dvd unat (roundSize n)" "unat n \<le> unat (roundSize n)"
    unfolding r using \<open>0 < unat n\<close> by auto
qed

subsection \<open>Clearing\<close>

lemma WriteMemory_app:
  assumes "app_guest b" "\<not> closed b"
  shows "writes_as_spec (spec_write (guest_memory b) PermissionWrite (unat a) vs) b (WriteMemory a vs b)"
  using copyIn_spec [of b PermissionWrite a vs] assms by (simp add: WriteMemory_def app_guest_def)

lemma same_but_memory_app:
  "app_guest b \<Longrightarrow> same_but_memory b b' \<Longrightarrow> wf_memory b' \<Longrightarrow> app_guest b' \<and> closed b' = closed b"
  unfolding same_but_memory_def app_guest_def mmuEnabled_def instructionCacheEnabled_def
  by (cases b; cases b') simp

lemma zeroLoop_spec:
  assumes "app_guest b" "\<not> closed b" "unat a + n \<le> 2 ^ 32"
  shows "writes_as_spec (spec_write (guest_memory b) PermissionWrite (unat a + off) (replicate (n - off) 0)) b
     (zeroLoop a off n b)"
  using assms
proof (induction a off n b rule: zeroLoop.induct)
  case (1 a off n b)
  show ?case
  proof (cases "off < n")
    case True
    let ?k = "min (min (64 * 1024) n) (n - off)"
    let ?m = "guest_memory b"
    have adr: "unat (a + of_nat off) = unat a + off"
      using True 1(4) by (simp add: unat_word_ariths unat_of_nat)
    obtain out b1 where w: "WriteMemory (a + of_nat off) (replicate ?k 0) b = (out, b1)"
      by (cases "WriteMemory (a + of_nat off) (replicate ?k 0) b")
    have spec: "(out, guest_memory b1) = spec_write ?m PermissionWrite (unat a + off) (replicate ?k 0)"
      and b1: "wf_memory b1" "same_but_memory b b1"
      using WriteMemory_app [OF 1(2,3), of "a + of_nat off" "replicate ?k 0"] w adr
      by (auto simp: writes_as_spec_def)
    have parts: "replicate (n - off) (0 :: u8) = replicate ?k 0 @ replicate (n - (off + ?k)) 0"
      using True by (simp add: replicate_add [symmetric])
    show ?thesis
    proof (cases out)
      case (Inl e)
      then have "zeroLoop a off n b = (Inl e, b1)"
        using True w by (subst zeroLoop.simps) (simp add: Let_def)
      moreover have "spec_write ?m PermissionWrite (unat a + off) (replicate (n - off) 0) = (Inl e, guest_memory b1)"
        unfolding parts spec_write_append spec [symmetric] Inl by simp
      ultimately show ?thesis using b1 by (simp add: writes_as_spec_def)
    next
      case (Inr u)
      then have step: "zeroLoop a off n b = zeroLoop a (off + ?k) n b1"
        using True w by (subst zeroLoop.simps) (simp add: Let_def)
      have "app_guest b1" "\<not> closed b1" using same_but_memory_app [OF 1(2) b1(2,1)] 1(3) by auto
      then have "writes_as_spec (spec_write (guest_memory b1) PermissionWrite (unat a + (off + ?k))
          (replicate (n - (off + ?k)) 0)) b1 (zeroLoop a (off + ?k) n b1)"
        using 1(1) [OF True refl] 1(4) by blast
      moreover have "spec_write ?m PermissionWrite (unat a + off) (replicate (n - off) 0) =
          spec_write (guest_memory b1) PermissionWrite (unat a + (off + ?k)) (replicate (n - (off + ?k)) 0)"
        unfolding parts spec_write_append spec [symmetric] Inr by (simp add: add.assoc)
      ultimately show ?thesis
        using b1(2) unfolding step by (auto simp: writes_as_spec_def intro: same_but_memory_trans)
    qed
  next
    case False
    then have "zeroLoop a off n b = (Inr (), b)" by (subst zeroLoop.simps) simp
    then show ?thesis using False 1(2) by (simp add: writes_as_spec_def app_guest_def)
  qed
qed

subsection \<open>Allocation against the specification\<close>

text \<open>The bytes a request takes, and whether the arena has that many free bytes in a row.\<close>

definition request :: "u32 \<Rightarrow> nat" where
  "request n = (max 1 (unat n) + 7) div 8 * 8"

definition fits :: "u32 \<Rightarrow> u32 \<Rightarrow> Heap \<Rightarrow> nat \<Rightarrow> bool" where
  "fits base sz h k \<longleftrightarrow> (\<exists>a. {a ..< a + k} \<subseteq> arena base sz - live (heap_Allocations h))"

definition writable :: "nat set \<Rightarrow> backend \<Rightarrow> bool" where
  "writable A b \<longleftrightarrow> (\<forall>x \<in> A. \<exists>q v. guest_memory b x = Some (q, v) \<and> q AND PermissionWrite = PermissionWrite)"

definition cleared :: "nat set \<Rightarrow> memory \<Rightarrow> memory" where
  "cleared A m = (\<lambda>x. if x \<in> A then map_option (\<lambda>(q, _). (q, 0)) (m x) else m x)"

lemma run_in_block:
  assumes "separated lo bs" "{a ..< a + k} \<subseteq> spans bs" "0 < k"
  shows "\<exists>b \<in> set bs. k \<le> unat (blk_Size b)"
  using assms
proof (induction bs arbitrary: lo)
  case (Cons b bs)
  let ?e = "unat (blk_Address b) + unat (blk_Size b)"
  have tail: "separated (?e + 1) bs" using Cons.prems by simp
  have gap: "?e \<notin> spans (b # bs)" using separated_ge [OF tail, of ?e] by (auto simp: blk_span_def)
  have "\<not> (a < ?e \<and> ?e < a + k)" using gap subsetD [OF Cons.prems(2), of ?e] by auto
  moreover have "a \<noteq> ?e" using gap subsetD [OF Cons.prems(2), of ?e] Cons.prems(3) by auto
  ultimately consider "a + k \<le> ?e" | "?e < a" by linarith
  then show ?case
  proof cases
    case 1
    then have "a \<notin> spans bs" using separated_ge [OF tail, of a] Cons.prems(3) by auto
    then have "a \<in> blk_span (blk_Address b) (blk_Size b)" using Cons.prems(2,3) by fastforce
    then show ?thesis using 1 by (intro bexI [of _ b]) (auto simp: blk_span_def)
  next
    case 2
    then have "{a ..< a + k} \<inter> blk_span (blk_Address b) (blk_Size b) = {}" by (auto simp: blk_span_def)
    then have "{a ..< a + k} \<subseteq> spans bs" using Cons.prems(2) by auto
    then show ?thesis using Cons.IH [OF tail _ Cons.prems(3)] by auto
  qed
qed (auto dest: subsetD [of _ _ a])

lemma fits_iff:
  assumes "heap_inv base sz h" "0 < k"
  shows "fits base sz h k \<longleftrightarrow> (\<exists>b \<in> set (heap_Free h). k \<le> unat (blk_Size b))"
proof
  show "fits base sz h k \<Longrightarrow> \<exists>b \<in> set (heap_Free h). k \<le> unat (blk_Size b)"
    using run_in_block [of "unat base" "heap_Free h" _ k] assms by (auto simp: fits_def heap_inv_def)
next
  assume "\<exists>b \<in> set (heap_Free h). k \<le> unat (blk_Size b)"
  then obtain b where b: "b \<in> set (heap_Free h)" "k \<le> unat (blk_Size b)" by auto
  then have "{unat (blk_Address b) ..< unat (blk_Address b) + k} \<subseteq> spans (heap_Free h)"
    by (force simp: spans_def blk_span_def)
  then show "fits base sz h k" using assms(1) by (auto simp: fits_def heap_inv_def)
qed

lemma ZeroMemory_writable:
  assumes "app_guest b" "\<not> closed b" "unat a + unat s \<le> 2 ^ 32" "writable (blk_span a s) b"
  shows "\<exists>b'. ZeroMemory a s b = (Inr (), b') \<and> guest_memory b' = cleared (blk_span a s) (guest_memory b) \<and>
    app_guest b' \<and> \<not> closed b' \<and> same_but_memory b b'"
proof -
  have "spec_write (guest_memory b) PermissionWrite (unat a) (replicate (unat s) 0) =
      (Inr (), cleared (blk_span a s) (guest_memory b))"
  proof -
    have "\<exists>q v. guest_memory b (unat a + i) = Some (q, v) \<and> q AND PermissionWrite = PermissionWrite"
      if "i < length (replicate (unat s) (0 :: u8))" for i
      using assms(4) that by (simp add: writable_def blk_span_def)
    from spec_write_ok [where m = "guest_memory b" and a = "unat a" and p = PermissionWrite
        and vs = "replicate (unat s) 0", OF this]
    show ?thesis by (auto simp: cleared_def blk_span_def fun_eq_iff)
  qed
  with zeroLoop_spec [OF assms(1,2,3), of 0] show ?thesis
    using same_but_memory_app [OF assms(1)] assms(2)
    by (cases "ZeroMemory a s b") (auto simp: writes_as_spec_def ZeroMemory_def)
qed

text \<open>Writes in general: the bytes outside the span, the permissions, and when they succeed.\<close>

lemma spec_write_frame:
  "x \<notin> {a ..< a + length vs} \<Longrightarrow> snd (spec_write m p a vs) x = m x"
proof (induction vs arbitrary: m a)
  case (Cons v vs)
  have "snd (spec_write (spec_store m a v) p (Suc a) vs) x = spec_store m a v x" by (rule Cons.IH) (use Cons.prems in auto)
  moreover have "spec_store m a v x = m x" using Cons.prems by (auto simp: spec_store_def)
  ultimately show ?case by (auto split: sum.splits)
qed simp

lemma spec_write_prot: "map_option fst (snd (spec_write m p a vs) x) = map_option fst (m x)"
proof (induction vs arbitrary: m a)
  case (Cons v vs)
  have "map_option fst (spec_store m a v x) = map_option fst (m x)"
    by (auto simp: spec_store_def option.map_comp comp_def case_prod_unfold)
  then show ?case using Cons.IH [of "spec_store m a v" "Suc a"] by (auto split: sum.splits)
qed simp

lemma spec_write_Inr:
  "fst (spec_write m p a vs) = Inr () \<longleftrightarrow>
     (\<forall>i < length vs. \<exists>q. map_option fst (m (a + i)) = Some q \<and> q AND p = p)"
proof (induction vs arbitrary: m a)
  case (Cons v vs)
  have keep: "map_option fst (spec_store m a v x) = map_option fst (m x)" for x
    by (auto simp: spec_store_def option.map_comp comp_def case_prod_unfold)
  let ?P = "\<lambda>x. \<exists>q. map_option fst (m x) = Some q \<and> q AND p = p"
  have "(\<forall>i < length (v # vs). ?P (a + i)) \<longleftrightarrow> ?P a \<and> (\<forall>i < length vs. ?P (Suc a + i))"
    using All_less_Suc2 [of "length vs" "\<lambda>i. ?P (a + i)"] by simp
  moreover have "fst (spec_write (spec_store m a v) p (Suc a) vs) = Inr () \<longleftrightarrow> (\<forall>i < length vs. ?P (Suc a + i))"
    using Cons.IH [of "spec_store m a v" "Suc a"] unfolding keep .
  ultimately show ?case
    by (auto simp: spec_byte_def split: sum.splits option.splits)
qed simp

lemma spec_write_zeros:
  "snd (spec_write m p a (replicate n 0)) x = m x \<or>
     snd (spec_write m p a (replicate n 0)) x = map_option (\<lambda>(q, _). (q, 0)) (m x)"
proof (induction n arbitrary: m a)
  case (Suc n)
  have "map_option (\<lambda>(q, _). (q, 0)) (spec_store m a 0 x) = map_option (\<lambda>(q, _). (q, 0)) (m x)"
    "spec_store m a 0 x = m x \<or> spec_store m a 0 x = map_option (\<lambda>(q, _). (q, 0)) (m x)"
    by (auto simp: spec_store_def option.map_comp comp_def case_prod_unfold)
  then show ?case using Suc.IH [of "spec_store m a 0" "Suc a"] by (auto split: sum.splits)
qed simp

text \<open>Clearing fails on a span with a byte that is not writable, having touched only the span.\<close>

lemma ZeroMemory_unwritable:
  assumes "app_guest b" "\<not> closed b" "unat a + unat s \<le> 2 ^ 32" "\<not> writable (blk_span a s) b"
  shows "\<exists>e b'. ZeroMemory a s b = (Inl e, b') \<and>
    (\<forall>x. guest_memory b' x = guest_memory b x \<or>
      x \<in> blk_span a s \<and> guest_memory b' x = cleared (blk_span a s) (guest_memory b) x)"
proof -
  let ?w = "spec_write (guest_memory b) PermissionWrite (unat a) (replicate (unat s) 0)"
  obtain out b' where z: "ZeroMemory a s b = (out, b')" by fastforce
  then have "(out, guest_memory b') = ?w"
    using zeroLoop_spec [OF assms(1-3), of 0] by (simp add: writes_as_spec_def ZeroMemory_def)
  from arg_cong [OF this, of fst] arg_cong [OF this, of snd] have w: "out = fst ?w" "guest_memory b' = snd ?w" by simp_all
  have "fst ?w \<noteq> Inr ()"
    using assms(4) unfolding spec_write_Inr
    by (auto simp: writable_def blk_span_def) (metis add_diff_cancel_left' add_less_cancel_left le_Suc_ex)
  then obtain e where "out = Inl e" unfolding w(1) by (cases "fst ?w") auto
  moreover have "snd ?w x = guest_memory b x \<or> x \<in> blk_span a s \<and> snd ?w x = cleared (blk_span a s) (guest_memory b) x" for x
    using spec_write_frame [of x "unat a" "replicate (unat s) 0" "guest_memory b" PermissionWrite]
      spec_write_zeros [of "guest_memory b" PermissionWrite "unat a" "unat s" x]
    by (auto simp: cleared_def blk_span_def)
  ultimately show ?thesis using z w(2) by auto
qed

text \<open>What a successful search of the free list does to the heap.\<close>

lemma allocate_block:
  assumes "heap_inv base sz h" "firstFit s (heap_Free h) = Some (a, free)" "0 < unat s" "8 dvd unat s"
  shows "blk_span a s \<subseteq> arena base sz - live (heap_Allocations h) \<and> a \<noteq> 0 \<and> unat a + unat s \<le> 2 ^ 32 \<and>
    heap_inv base sz (h\<lparr>heap_Allocations := (heap_Allocations h)(a \<mapsto> s), heap_Free := free\<rparr>)"
proof -
  let ?al = "heap_Allocations h"
  have inv: "heap_arena base sz" "allocations_ok base sz ?al" "separated (unat base) (heap_Free h)"
    "spans (heap_Free h) = arena base sz - live ?al"
    using assms(1) by (auto simp: heap_inv_def)
  then have "spans (heap_Free h) \<subseteq> {..< 2 ^ 32}" by (auto simp: arena_def heap_arena_def)
  from firstFit_some [OF inv(3) assms(2,3) this]
  have f: "separated (unat base) free" "spans free = spans (heap_Free h) - blk_span a s"
    "blk_span a s \<subseteq> spans (heap_Free h)" by auto
  have sub: "blk_span a s \<subseteq> arena base sz - live ?al" using f(3) inv(4) by simp
  have "{unat a, unat a + unat s - 1} \<subseteq> blk_span a s" using assms(3) by (auto simp: blk_span_def)
  then have "{unat a, unat a + unat s - 1} \<subseteq> arena base sz" using sub by blast
  then have a: "a \<noteq> 0" "unat a + unat s \<le> 2 ^ 32" using inv(1) by (auto simp: arena_def heap_arena_def)
  from allocations_ok_update [OF inv(2) assms(3,4) sub]
  have "allocations_ok base sz (?al(a \<mapsto> s))" "live (?al(a \<mapsto> s)) = live ?al \<union> blk_span a s"
    by (auto simp: live_update)
  then show ?thesis using inv f sub a by (auto simp: heap_inv_def)
qed

lemma allocateRoot_none:
  assumes "heap_inv base sz h" "\<not> fits base sz h (request n)"
  shows "allocateRoot n c h b = (Inr 0, h, b)"
proof -
  let ?n = "if n = 0 then 1 else n"
  have n: "0 < ?n" by (auto simp: word_gt_0)
  have "request n = (unat ?n + 7) div 8 * 8"
    by (auto simp: request_def max_def unat_gt_0 Suc_le_eq)
  moreover have "firstFit (roundSize ?n) (heap_Free h) = None" if "?n \<le> NOT 0 - 7"
    using assms fits_iff [OF assms(1), of "request n"] roundSize(1,2) [OF n that] calculation
    by (auto simp: firstFit_none word_less_nat_alt not_le)
  ultimately show ?thesis by (auto simp: allocateRoot_def Let_def)
qed

lemma allocateRoot_some:
  assumes "heap_inv base sz h" "fits base sz h (request n)"
  shows "\<exists>a s free. firstFit s (heap_Free h) = Some (a, free) \<and> unat s = request n \<and>
    allocateRoot n c h b =
      (let h' = h\<lparr>heap_Allocations := (heap_Allocations h)(a \<mapsto> s), heap_Free := free\<rparr> in
       if c then (case ZeroMemory a s b of (Inl e, b') \<Rightarrow> (Inl e, h', b') | (Inr _, b') \<Rightarrow> (Inr a, h', b'))
       else (Inr a, h', b))"
proof -
  let ?n = "if n = 0 then 1 else n"
  have n: "0 < ?n" by (auto simp: word_gt_0)
  have req: "request n = (unat ?n + 7) div 8 * 8"
    by (auto simp: request_def max_def unat_gt_0 Suc_le_eq)
  then have pos: "0 < request n" using n by (auto simp: word_less_nat_alt)
  obtain b0 where b0: "b0 \<in> set (heap_Free h)" "request n \<le> unat (blk_Size b0)"
    using assms(2) fits_iff [OF assms(1) pos] by auto
  have "request n < 2 ^ 32" using b0(2) unsigned_less [of "blk_Size b0", where ?'a = nat] by simp
  then have small: "?n \<le> NOT 0 - 7" unfolding req by (simp add: word_le_nat_alt)
  have s: "unat (roundSize ?n) = request n" using roundSize(1) [OF n small] req by simp
  then have "firstFit (roundSize ?n) (heap_Free h) \<noteq> None"
    using b0 by (auto simp: firstFit_none word_less_nat_alt not_less)
  then obtain a free where fit: "firstFit (roundSize ?n) (heap_Free h) = Some (a, free)" by auto
  have "allocateRoot n c h b =
      (let h' = h\<lparr>heap_Allocations := (heap_Allocations h)(a \<mapsto> roundSize ?n), heap_Free := free\<rparr> in
       if c then (case ZeroMemory a (roundSize ?n) b of (Inl e, b') \<Rightarrow> (Inl e, h', b') | (Inr _, b') \<Rightarrow> (Inr a, h', b'))
       else (Inr a, h', b))"
    using fit leD [OF small] by (simp add: allocateRoot_def Let_def)
  then show ?thesis using fit s by blast
qed

text \<open>
  C31. The allocator hands out what is free and nothing else.  On a consistent heap, and
  on an open application guest when clearing is asked for, a request for \<open>n\<close> bytes, through the heap itself or one that shares it, answers address 0 and changes nothing
  exactly when no run of free bytes of the arena is long enough for \<open>n\<close> rounded up to a multiple
  of eight.  Otherwise it takes a block at a nonzero address that lies inside the arena and apart
  from every live allocation, records exactly that block and keeps the heap consistent.  Without
  clearing it answers the address and touches no memory.  With clearing it answers the address and
  leaves exactly the bytes of the block zero when they are all writable; when one is not, it answers an error in place of the address, although
  the block stays recorded, and only bytes of the block may have been cleared.
\<close>

theorem Allocate_correct:
  assumes "heap_inv base sz (hs r)" and "Root hs h = Some r"
    and "c \<longrightarrow> app_guest b \<and> \<not> closed b"
  shows "if fits base sz (hs r) (request n)
    then \<exists>a s h' b' res. Allocate h n c (hs, b) = Some (res, hs(r := h'), b') \<and> a \<noteq> 0 \<and> unat s = request n \<and>
      blk_span a s \<subseteq> arena base sz - live (heap_Allocations (hs r)) \<and>
      heap_Allocations h' = (heap_Allocations (hs r))(a \<mapsto> s) \<and> heap_inv base sz h' \<and>
      (if \<not> c then res = Inr a \<and> b' = b
       else if writable (blk_span a s) b
       then res = Inr a \<and> guest_memory b' = cleared (blk_span a s) (guest_memory b)
       else (\<exists>e. res = Inl e) \<and>
         (\<forall>x. guest_memory b' x = guest_memory b x \<or>
           x \<in> blk_span a s \<and> guest_memory b' x = cleared (blk_span a s) (guest_memory b) x))
    else Allocate h n c (hs, b) = Some (Inr 0, hs, b)"
proof (cases "fits base sz (hs r) (request n)")
  case True
  let ?al = "heap_Allocations (hs r)"
  obtain a s free where f: "firstFit s (heap_Free (hs r)) = Some (a, free)" "unat s = request n"
    and run: "allocateRoot n c (hs r) b =
      (let h' = (hs r)\<lparr>heap_Allocations := ?al(a \<mapsto> s), heap_Free := free\<rparr> in
       if c then (case ZeroMemory a s b of (Inl e, b') \<Rightarrow> (Inl e, h', b') | (Inr _, b') \<Rightarrow> (Inr a, h', b'))
       else (Inr a, h', b))"
    using allocateRoot_some [OF assms(1) True] by blast
  have "0 < unat s" "8 dvd unat s" unfolding f(2) by (auto simp: request_def max_def)
  note blk = allocate_block [OF assms(1) f(1) this]
  let ?h = "(hs r)\<lparr>heap_Allocations := ?al(a \<mapsto> s), heap_Free := free\<rparr>"
  let ?after = "\<lambda>res b'. if \<not> c then res = Inr a \<and> b' = b
       else if writable (blk_span a s) b
       then res = Inr a \<and> guest_memory b' = cleared (blk_span a s) (guest_memory b)
       else (\<exists>e. res = Inl e) \<and>
         (\<forall>x. guest_memory b' x = guest_memory b x \<or>
           x \<in> blk_span a s \<and> guest_memory b' x = cleared (blk_span a s) (guest_memory b) x)"
  have "\<exists>res b'. allocateRoot n c (hs r) b = (res, ?h, b') \<and> ?after res b'"
  proof (cases c)
    case True
    then have b: "app_guest b" "\<not> closed b" using assms(3) by simp_all
    have fit: "unat a + unat s \<le> 2 ^ 32" using blk by simp
    show ?thesis
      using True ZeroMemory_writable [OF b fit] ZeroMemory_unwritable [OF b fit] unfolding run
      by (cases "writable (blk_span a s) b") auto
  qed (use run in simp)
  then obtain res b' where alloc: "Allocate h n c (hs, b) = Some (res, hs(r := ?h), b')" and after: "?after res b'"
    using assms(2) by (auto simp: Allocate_def)
  have "heap_Allocations ?h = ?al(a \<mapsto> s)" by simp
  with alloc after blk f(2) True show ?thesis unfolding if_P [OF True] by blast
next
  case False
  then show ?thesis
    using allocateRoot_none [OF assms(1) False] assms(2) by (simp add: Allocate_def)
qed

text \<open>An arena of 64 bytes over the first writable region of the sample machine.\<close>

definition sampleHeaps :: heaps where
  "sampleHeaps = (\<lambda>_. NewHeap 0x1000 64)"

lemma sampleHeaps_ok:
  "heap_inv 0x1000 64 (sampleHeaps 0)" "Root sampleHeaps 0 = Some 0"
  "app_guest sampleBackend" "\<not> closed sampleBackend" "writable (arena 0x1000 64) sampleBackend"
proof -
  show "heap_inv 0x1000 64 (sampleHeaps 0)"
    unfolding sampleHeaps_def by (rule NewHeap_inv) (simp add: heap_arena_def)
  show "Root sampleHeaps 0 = Some 0" by (subst Root.simps) (simp add: sampleHeaps_def NewHeap_def)
  show "\<not> closed sampleBackend" by (simp add: sampleBackend_fields)
  show "writable (arena 0x1000 64) sampleBackend"
    by (auto simp: writable_def arena_def sampleBackend_memory span_def PermissionWrite_def)
  show "app_guest sampleBackend" by simp
qed

theorem Allocate_correct_witness:
  "(\<exists>a (s :: u32) h' b'. Allocate 0 10 True (sampleHeaps, sampleBackend) = Some (Inr a, sampleHeaps(0 := h'), b') \<and>
      a \<noteq> 0 \<and> unat s = 16 \<and> heap_inv 0x1000 64 h') \<and>
   Allocate 0 100 True (sampleHeaps, sampleBackend) = Some (Inr 0, sampleHeaps, sampleBackend)"
proof -
  have r: "request 10 = 16" "request 100 = 104" by (simp_all add: request_def)
  have al: "heap_Free (sampleHeaps 0) = [\<lparr>blk_Address = 0x1000, blk_Size = 64\<rparr>]"
    by (simp add: sampleHeaps_def NewHeap_def)
  have f: "fits 0x1000 64 (sampleHeaps 0) 16" "\<not> fits 0x1000 64 (sampleHeaps 0) 104"
    by (simp_all add: fits_iff [OF sampleHeaps_ok(1)] al)
  have c: "True \<longrightarrow> app_guest sampleBackend \<and> \<not> closed sampleBackend" using sampleHeaps_ok(3,4) by simp
  have "writable (blk_span a s) sampleBackend"
    if "blk_span a s \<subseteq> arena 0x1000 64 - live (heap_Allocations (sampleHeaps 0))" for a s
    using that sampleHeaps_ok(5) by (auto simp: writable_def)
  then have "\<exists>a (s :: u32) h' b'. Allocate 0 10 True (sampleHeaps, sampleBackend) = Some (Inr a, sampleHeaps(0 := h'), b') \<and>
      a \<noteq> 0 \<and> unat s = 16 \<and> heap_inv 0x1000 64 h'"
    using Allocate_correct [OF sampleHeaps_ok(1,2) c, of 10] f(1) unfolding r by (simp only: if_True not_True_eq_False if_False) metis
  moreover have "Allocate 0 100 True (sampleHeaps, sampleBackend) = Some (Inr 0, sampleHeaps, sampleBackend)"
    using Allocate_correct [OF sampleHeaps_ok(1,2) c, of 100] f(2) unfolding r by (simp only: if_False)
  ultimately show ?thesis ..
qed

subsection \<open>Release against the specification\<close>

lemma heap_eqI:
  "heap_inv base sz (h :: Heap) \<Longrightarrow> heap_inv base sz h' \<Longrightarrow> heap_Allocations h = heap_Allocations h' \<Longrightarrow>
     heap_Shared h = heap_Shared h' \<Longrightarrow> h = h'"
  using heap_inv_free_unique [of base sz h h'] by (simp add: Heap.equality)

text \<open>Releasing addresses one after the other.\<close>

definition releaseEach :: "u32 list \<Rightarrow> Heap \<Rightarrow> Heap" where
  "releaseEach addresses h = fold (\<lambda>a h. snd (releaseRoot a h)) addresses h"

lemma releaseEach_simps [simp]:
  "releaseEach [] h = h" "releaseEach (a # as) h = releaseEach as (snd (releaseRoot a h))"
  by (simp_all add: releaseEach_def)

lemma dropAll_loose:
  assumes "heap_loose base sz h" "heap_Allocations g = heap_Allocations h"
  shows "heap_loose base sz (snd (dropAll as n h)) \<and>
    heap_Allocations (snd (dropAll as n h)) = heap_Allocations (releaseEach as g) \<and>
    heap_Shared (snd (dropAll as n h)) = heap_Shared h \<and> n \<le> fst (dropAll as n h) \<and>
    (fst (dropAll as n h) = n \<longrightarrow> snd (dropAll as n h) = h)"
  using assms
proof (induction as arbitrary: n h g)
  case (Cons a as)
  have al: "heap_Allocations (snd (releaseRoot a g)) = (heap_Allocations g)(a := None)"
    by (auto simp: releaseRoot_def dropAllocation_def split: option.splits)
  show ?case
  proof (cases "dropAllocation a h")
    case None
    then have "a \<notin> dom (heap_Allocations h)" by (auto simp: dropAllocation_def split: option.splits)
    then have "heap_Allocations (snd (releaseRoot a g)) = heap_Allocations h"
      using al Cons.prems(2) by (auto simp: fun_upd_idem_iff)
    from Cons.IH [OF Cons.prems(1) this, of n] show ?thesis using None by simp
  next
    case (Some h')
    note d = dropAllocation_loose [OF Cons.prems(1) Some]
    have "heap_Allocations (snd (releaseRoot a g)) = heap_Allocations h'" using al Cons.prems(2) d by simp
    from Cons.IH [OF _ this, of "n + 1"] d show ?thesis using Some by auto
  qed
qed simp

lemma releaseEach_inv:
  "heap_inv base sz h \<Longrightarrow>
     heap_inv base sz (releaseEach as h) \<and> heap_Shared (releaseEach as h) = heap_Shared h"
  by (induction as arbitrary: h) (auto simp: releaseRoot_inv)

lemma releaseAllRoot_eq:
  assumes "heap_inv base sz h"
  shows "snd (releaseAllRoot as h) = releaseEach as h"
proof -
  note d = dropAll_loose [OF heap_inv_loose [OF assms] refl, of as 0]
  have "heap_inv base sz (snd (releaseAllRoot as h)) \<and>
      heap_Allocations (snd (releaseAllRoot as h)) = heap_Allocations (snd (dropAll as 0 h)) \<and>
      heap_Shared (snd (releaseAllRoot as h)) = heap_Shared h"
    using d assms normalizeFree_inv by (cases "dropAll as 0 h") (auto simp: releaseAllRoot_def)
  then show ?thesis using d releaseEach_inv [OF assms, of as] by (intro heap_eqI [of base sz]) auto
qed

lemma Root_mono:
  assumes "Root hs h = Some r" "\<forall>i. heap_Shared (hs' i) = heap_Shared (hs i)"
  shows "Root hs' h = Some r \<and> heap_Shared (hs r) = None"
  using assms
proof (induction hs h r rule: Root.raw_induct [rotated, consumes 1])
  case (1 root hs h r)
  show ?case
  proof (cases "heap_Shared (hs h)")
    case None
    then show ?thesis using 1 by (subst Root.simps) simp
  next
    case (Some p)
    then show ?thesis using 1 by (subst Root.simps) simp
  qed
qed



subsection \<open>Sequences of operations\<close>

datatype heapOp = OpAllocate u32 bool | OpRelease u32 | OpReleaseAll "u32 list"

fun heapStep :: "heapOp \<Rightarrow> Heap \<times> backend \<Rightarrow> Heap \<times> backend" where
  "heapStep (OpAllocate n c) (h, b) = snd (allocateRoot n c h b)"
| "heapStep (OpRelease a) (h, b) = (snd (releaseRoot a h), b)"
| "heapStep (OpReleaseAll as) (h, b) = (snd (releaseAllRoot as h), b)"

text \<open>Also an allocation whose clearing fails leaves a consistent heap: the block stays taken.\<close>

lemma allocateRoot_inv:
  assumes "heap_inv base sz h"
  shows "heap_inv base sz (fst (snd (allocateRoot n c h b)))"
proof (cases "fits base sz h (request n)")
  case True
  obtain a s free where f: "firstFit s (heap_Free h) = Some (a, free)" "unat s = request n"
    and run: "allocateRoot n c h b =
      (let h' = h\<lparr>heap_Allocations := (heap_Allocations h)(a \<mapsto> s), heap_Free := free\<rparr> in
       if c then (case ZeroMemory a s b of (Inl e, b') \<Rightarrow> (Inl e, h', b') | (Inr _, b') \<Rightarrow> (Inr a, h', b'))
       else (Inr a, h', b))"
    using allocateRoot_some [OF assms True] by blast
  have "0 < unat s" "8 dvd unat s" unfolding f(2) by (auto simp: request_def max_def)
  from allocate_block [OF assms f(1) this] show ?thesis
    unfolding run by (auto simp: Let_def split: prod.splits sum.splits)
next
  case False
  then show ?thesis using allocateRoot_none [OF assms False] assms by simp
qed

interpretation heap_script: scripted "\<lambda>(h, b). heap_inv base sz h" heapStep for base sz
proof unfold_locales
  fix s :: "Heap \<times> backend" and a
  assume "case s of (h, b) \<Rightarrow> heap_inv base sz h"
  then show "case heapStep a s of (h, b) \<Rightarrow> heap_inv base sz h"
    by (cases s; cases a)
      (auto simp: releaseRoot_inv releaseEach_inv releaseAllRoot_eq split_beta allocateRoot_inv)
qed

text \<open>
  C6. No sequence of heap calls lets two blocks overlap.  After any sequence of
  allocations, with or without clearing and whether or not the guest memory accepts the
  clearing, releases and bulk releases on a new heap, of whatever addresses, the live
  allocations lie inside the arena and are pairwise disjoint, and the free list, in address
  order and fully coalesced, holds exactly the remaining bytes: nothing is lost or counted
  twice.
\<close>

theorem heap_operations_safe:
  assumes "heap_arena base sz" and "fold heapStep script (NewHeap base sz, b) = (h, b')"
  shows "(\<forall>a s. heap_Allocations h a = Some s \<longrightarrow> blk_span a s \<subseteq> arena base sz \<and>
      (\<forall>a' s'. heap_Allocations h a' = Some s' \<and> a' \<noteq> a \<longrightarrow> blk_span a s \<inter> blk_span a' s' = {})) \<and>
    separated (unat base) (heap_Free h) \<and> spans (heap_Free h) = arena base sz - live (heap_Allocations h)"
proof -
  have "heap_inv base sz h"
    using heap_script.script_inv [of base sz "(NewHeap base sz, b)" script] NewHeap_inv [OF assms(1)] assms(2)
    by simp
  then show ?thesis unfolding heap_inv_def allocations_ok_def by metis
qed

theorem heap_operations_safe_witness:
  "\<exists>h b'. fold heapStep [OpAllocate 10 False, OpAllocate 3 False, OpRelease 0x1000, OpAllocate 60 False]
       (NewHeap 0x1000 64, sampleBackend) = (h, b') \<and>
     heap_Allocations h = [0x1010 \<mapsto> 8] \<and> spans (heap_Free h) = arena 0x1000 64 - blk_span 0x1010 8"
proof -
  let ?r = "fold heapStep [OpAllocate 10 False, OpAllocate 3 False, OpRelease 0x1000, OpAllocate 60 False]
       (NewHeap 0x1000 64, sampleBackend)"
  have al: "heap_Allocations (fst ?r) = [0x1010 \<mapsto> 8]"
    by (simp add: allocateRoot_def releaseRoot_def dropAllocation_def normalizeFree_def Let_def NewHeap_def
        roundSize_def fun_eq_iff)
  have "heap_arena 0x1000 64" by (simp add: heap_arena_def)
  from heap_operations_safe [OF this surjective_pairing]
  have "spans (heap_Free (fst ?r)) = arena 0x1000 64 - live (heap_Allocations (fst ?r))" by blast
  moreover have "live [0x1010 \<mapsto> (8 :: u32)] = blk_span 0x1010 8" by (auto simp: live_def split: if_splits)
  ultimately have "spans (heap_Free (fst ?r)) = arena 0x1000 64 - blk_span 0x1010 8" unfolding al by simp
  then show ?thesis using al surjective_pairing [of ?r] by blast
qed

end
