(* ===== verification/Guest_State.thy ===== *)
theory Guest_State
  imports Guest_Heap
begin

text \<open>
  Saved guest state, src/application/internal/guest/state_io.go and heap_state.go: the
  sticky-error writer and decoder the platform adapters share, and the heap allocation
  table they save.  The destination of a writer is an \<open>io.Writer\<close> of the host, an argument:
  a function of the bytes it has and the bytes offered that answers how many it took and an
  error.  The running digest of the writer is not modelled.
\<close>

subsection \<open>Errors\<close>

datatype stateError =
    ErrShortWrite
  | ErrStateString
  | ErrSink nat
  | ErrLoad nat string
  | ErrFreeList

subsection \<open>Writer\<close>

type_synonym sink = "u8 list \<Rightarrow> u8 list \<Rightarrow> nat \<times> stateError option"

record StateWriter =
  sw_output :: "u8 list"
  sw_Offset :: nat
  sw_Err :: "stateError option"

definition NewStateWriter :: StateWriter where
  "NewStateWriter = \<lparr>sw_output = [], sw_Offset = 0, sw_Err = None\<rparr>"

definition StateWriter_Write :: "sink \<Rightarrow> u8 list \<Rightarrow> StateWriter \<Rightarrow> StateWriter" where
  "StateWriter_Write out data w =
     (if sw_Err w \<noteq> None then w
      else
        let (n, err) = out (sw_output w) data;
            w = w\<lparr>sw_output := sw_output w @ take n data, sw_Offset := sw_Offset w + n\<rparr>;
            err = (if err = None \<and> n \<noteq> length data then Some ErrShortWrite else err)
        in w\<lparr>sw_Err := err\<rparr>)"

definition StateWriter_U8 :: "sink \<Rightarrow> u8 \<Rightarrow> StateWriter \<Rightarrow> StateWriter" where
  "StateWriter_U8 out v w = StateWriter_Write out [v] w"

definition StateWriter_U32 :: "sink \<Rightarrow> u32 \<Rightarrow> StateWriter \<Rightarrow> StateWriter" where
  "StateWriter_U32 out v w = StateWriter_Write out (PutUint32 v) w"

definition PutUint64 :: "u64 \<Rightarrow> u8 list" where
  "PutUint64 v = PutUint32 (ucast v) @ PutUint32 (ucast (drop_bit 32 v))"

definition Uint64 :: "u8 list \<Rightarrow> u64" where
  "Uint64 bs = ucast (Uint32 bs) OR push_bit 32 (ucast (Uint32 (drop 4 bs)))"

definition StateWriter_U64 :: "sink \<Rightarrow> u64 \<Rightarrow> StateWriter \<Rightarrow> StateWriter" where
  "StateWriter_U64 out v w = StateWriter_Write out (PutUint64 v) w"

text \<open>\<open>utf8.ValidString\<close>: the lead byte fixes the length and the range of the second byte.\<close>

definition inRange :: "u8 \<Rightarrow> u8 \<Rightarrow> u8 \<Rightarrow> bool" where
  "inRange lo hi x \<longleftrightarrow> lo \<le> x \<and> x \<le> hi"

fun ValidString :: "u8 list \<Rightarrow> bool" where
  "ValidString [] = True"
| "ValidString (a # bs) =
     (if a < 0x80 then ValidString bs
      else case bs of
        [] \<Rightarrow> False
      | b # cs \<Rightarrow>
          if inRange 0xC2 0xDF a then inRange 0x80 0xBF b \<and> ValidString cs
          else (case cs of
            [] \<Rightarrow> False
          | c # ds \<Rightarrow>
              if inRange 0xE0 0xEF a
              then inRange (if a = 0xE0 then 0xA0 else 0x80) (if a = 0xED then 0x9F else 0xBF) b \<and>
                   inRange 0x80 0xBF c \<and> ValidString ds
              else (case ds of
                [] \<Rightarrow> False
              | d # es \<Rightarrow>
                  inRange 0xF0 0xF4 a \<and>
                  inRange (if a = 0xF0 then 0x90 else 0x80) (if a = 0xF4 then 0x8F else 0xBF) b \<and>
                  inRange 0x80 0xBF c \<and> inRange 0x80 0xBF d \<and> ValidString es)))"

definition StateWriter_String16 :: "sink \<Rightarrow> u8 list \<Rightarrow> StateWriter \<Rightarrow> StateWriter" where
  "StateWriter_String16 out v w =
     (if sw_Err w \<noteq> None then w
      else if \<not> ValidString v \<or> 0xFFFF < length v then w\<lparr>sw_Err := Some ErrStateString\<rparr>
      else StateWriter_Write out v (StateWriter_Write out (PutUint16 (of_nat (length v))) w))"

subsection \<open>Decoder\<close>

record StateDecoder =
  sd_Reader :: "u8 list"
  sd_Offset :: nat
  sd_Err :: "stateError option"

definition StateDecoder_Bytes :: "int \<Rightarrow> StateDecoder \<Rightarrow> u8 list \<times> StateDecoder" where
  "StateDecoder_Bytes n d =
     (if sd_Err d \<noteq> None then ([], d)
      else if n < 0 \<or> int (length (sd_Reader d)) < n
      then ([], d\<lparr>sd_Err := Some (ErrLoad (sd_Offset d) ''truncated field'')\<rparr>)
      else (take (nat n) (sd_Reader d),
            d\<lparr>sd_Reader := drop (nat n) (sd_Reader d), sd_Offset := sd_Offset d + nat n\<rparr>))"

definition StateDecoder_U8 :: "StateDecoder \<Rightarrow> u8 \<times> StateDecoder" where
  "StateDecoder_U8 d = (let (data, d) = StateDecoder_Bytes 1 d in
     (if length data \<noteq> 1 then 0 else data ! 0, d))"

definition StateDecoder_U32 :: "StateDecoder \<Rightarrow> u32 \<times> StateDecoder" where
  "StateDecoder_U32 d = (let (data, d) = StateDecoder_Bytes 4 d in
     (if length data \<noteq> 4 then 0 else Uint32 data, d))"

definition StateDecoder_U64 :: "StateDecoder \<Rightarrow> u64 \<times> StateDecoder" where
  "StateDecoder_U64 d = (let (data, d) = StateDecoder_Bytes 8 d in
     (if length data \<noteq> 8 then 0 else Uint64 data, d))"

definition StateDecoder_String16 :: "StateDecoder \<Rightarrow> u8 list \<times> StateDecoder" where
  "StateDecoder_String16 d =
     (let (sizeData, d) = StateDecoder_Bytes 2 d in
      if length sizeData \<noteq> 2 then ([], d)
      else
        let (v, d) = StateDecoder_Bytes (int (unat (Uint16 sizeData))) d in
        (v, if sd_Err d = None \<and> \<not> ValidString v
            then d\<lparr>sd_Err := Some (ErrLoad (sd_Offset d - length v) ''invalid UTF-8 string'')\<rparr> else d))"

definition StateDecoder_Reserved :: "int \<Rightarrow> StateDecoder \<Rightarrow> StateDecoder" where
  "StateDecoder_Reserved n d =
     (let (data, d) = StateDecoder_Bytes n d in
      if sd_Err d = None \<and> (\<exists>v \<in> set data. v \<noteq> 0)
      then d\<lparr>sd_Err := Some (ErrLoad (sd_Offset d - nat n) ''nonzero reserved field'')\<rparr> else d)"

definition StateDecoder_Fail :: "string \<Rightarrow> StateDecoder \<Rightarrow> stateError" where
  "StateDecoder_Fail reason d =
     (case sd_Err d of Some e \<Rightarrow> e | None \<Rightarrow> ErrLoad (sd_Offset d) reason)"

subsection \<open>The heap allocation table\<close>

definition MaxSavedHeapAllocations :: u32 where "MaxSavedHeapAllocations = 0x100000"

definition WriteHeapAllocations :: "sink \<Rightarrow> (u32 \<rightharpoonup> u32) \<Rightarrow> StateWriter \<Rightarrow> StateWriter" where
  "WriteHeapAllocations out allocations w =
     (let addresses = sorted_list_of_set (dom allocations);
          w = StateWriter_U32 out (of_nat (length addresses)) w
      in fold (\<lambda>address w. StateWriter_U32 out (the (allocations address)) (StateWriter_U32 out address w))
           addresses w)"

text \<open>The sums of the loop are 64-bit sums of 32-bit values: they are naturals here.\<close>

fun readBlocks :: "nat \<Rightarrow> nat \<Rightarrow> nat \<Rightarrow> nat \<Rightarrow> StateDecoder \<Rightarrow> (stateError + Block list) \<times> StateDecoder" where
  "readBlocks 0 base ending previousEnd d = (Inr [], d)"
| "readBlocks (Suc n) base ending previousEnd d =
     (let (address, d) = StateDecoder_U32 d;
          (sz, d) = StateDecoder_U32 d;
          blockEnd = unat address + unat sz
      in if sz = 0 \<or> sz AND 7 \<noteq> 0 \<or> unat address < previousEnd \<or> unat address < base \<or> ending < blockEnd
         then (Inl (StateDecoder_Fail ''invalid heap allocation'' d), d)
         else and_then (readBlocks n base ending blockEnd d)
           (\<lambda>rest d. (Inr (\<lparr>blk_Address = address, blk_Size = sz\<rparr> # rest), d)))"

definition ReadHeapAllocations :: "u32 \<Rightarrow> u32 \<Rightarrow> StateDecoder \<Rightarrow> (stateError + Block list) \<times> StateDecoder" where
  "ReadHeapAllocations base sz d =
     (let (n, d) = StateDecoder_U32 d in
      if MaxSavedHeapAllocations < n
      then (Inl (StateDecoder_Fail ''heap allocation count exceeds limit'' d), d)
      else and_then (readBlocks (unat n) (unat base) (unat base + unat sz) (unat base) d)
        (\<lambda>blocks d. (case sd_Err d of Some e \<Rightarrow> Inl e | None \<Rightarrow> Inr blocks, d)))"

fun restoreLoop :: "u32 \<Rightarrow> Block list \<Rightarrow> Heap \<Rightarrow> u32 \<times> Heap" where
  "restoreLoop cursor [] h = (cursor, h)"
| "restoreLoop cursor (block # rest) h =
     (let h = (if cursor < blk_Address block
               then h\<lparr>heap_Free := heap_Free h @ [\<lparr>blk_Address = cursor, blk_Size = blk_Address block - cursor\<rparr>]\<rparr>
               else h);
          h = h\<lparr>heap_Allocations := (heap_Allocations h)(blk_Address block \<mapsto> blk_Size block)\<rparr>
      in restoreLoop (blk_Address block + blk_Size block) rest h)"

definition RestoreHeapMetadata :: "u32 \<Rightarrow> u32 \<Rightarrow> Block list \<Rightarrow> Heap \<Rightarrow> (stateError + unit) \<times> Heap" where
  "RestoreHeapMetadata base sz blocks h =
     (let h = h\<lparr>heap_Allocations := Map.empty, heap_Free := []\<rparr>;
          (cursor, h) = restoreLoop base blocks h;
          ending = base + sz;
          h = (if cursor < ending
               then h\<lparr>heap_Free := heap_Free h @ [\<lparr>blk_Address = cursor, blk_Size = ending - cursor\<rparr>]\<rparr> else h)
      in if blocks = [] \<and> length (heap_Free h) \<noteq> 1 then (Inl ErrFreeList, h) else (Inr (), h))"

subsection \<open>Written bytes decode\<close>

definition accepts :: "sink \<Rightarrow> bool" where
  "accepts out \<longleftrightarrow> (\<forall>old data. out old data = (length data, None))"

definition appended :: "u8 list \<Rightarrow> StateWriter \<Rightarrow> StateWriter" where
  "appended bytes w = w\<lparr>sw_output := sw_output w @ bytes, sw_Offset := sw_Offset w + length bytes\<rparr>"

lemma appended_append [simp]: "appended ys (appended xs w) = appended (xs @ ys) w"
  by (simp add: appended_def)

lemma appended_fields [simp]:
  "sw_Err (appended bytes w) = sw_Err w" "sw_output (appended bytes w) = sw_output w @ bytes"
  by (simp_all add: appended_def)

lemma write_accepts:
  "accepts out \<Longrightarrow> sw_Err w = None \<Longrightarrow> StateWriter_Write out data w = appended data w"
  by (simp add: StateWriter_Write_def accepts_def appended_def)

lemma U32_accepts:
  "accepts out \<Longrightarrow> sw_Err w = None \<Longrightarrow> StateWriter_U32 out v w = appended (PutUint32 v) w"
  by (simp add: StateWriter_U32_def write_accepts)

definition consumed :: "nat \<Rightarrow> StateDecoder \<Rightarrow> StateDecoder" where
  "consumed n d = d\<lparr>sd_Reader := drop n (sd_Reader d), sd_Offset := sd_Offset d + n\<rparr>"

lemma consumed_consumed [simp]: "consumed m (consumed n d) = consumed (n + m) d"
  by (simp add: consumed_def add.commute)

lemma consumed_fields [simp]:
  "sd_Err (consumed n d) = sd_Err d" "sd_Reader (consumed n d) = drop n (sd_Reader d)" "consumed 0 d = d"
  by (simp_all add: consumed_def)

lemma U32_decodes:
  assumes "sd_Err d = None" "sd_Reader d = PutUint32 v @ rest"
  shows "StateDecoder_U32 d = (v, consumed 4 d)"
  using assms by (simp add: StateDecoder_U32_def StateDecoder_Bytes_def consumed_def PutUint32_def)
    (simp add: PutUint32_def [symmetric])

subsection \<open>Rebuilding the free list\<close>

fun gaps :: "u32 \<Rightarrow> Block list \<Rightarrow> u32 \<Rightarrow> Block list" where
  "gaps c [] e = (if c < e then [\<lparr>blk_Address = c, blk_Size = e - c\<rparr>] else [])"
| "gaps c (b # bs) e =
     (if c < blk_Address b then [\<lparr>blk_Address = c, blk_Size = blk_Address b - c\<rparr>] else []) @
     gaps (blk_Address b + blk_Size b) bs e"

definition blockMap :: "Block list \<Rightarrow> (u32 \<rightharpoonup> u32)" where
  "blockMap bs = map_of (map (\<lambda>b. (blk_Address b, blk_Size b)) bs)"

lemma word_gap: "c < a \<Longrightarrow> blk_span c (a - c) = {unat c ..< unat a} \<and> 0 < unat (a - c)"
  by (auto simp: blk_span_def word_less_nat_alt unat_sub_if' not_le)

lemma ascending_end:
  assumes "ascending lo (b # bs)" "spans (b # bs) \<subseteq> {..< N}" "N < 2 ^ 32"
  shows "unat (blk_Address b + blk_Size b) = unat (blk_Address b) + unat (blk_Size b)"
    and "unat (blk_Address b) + unat (blk_Size b) \<le> N"
proof -
  have "unat (blk_Address b) + unat (blk_Size b) - 1 \<in> spans (b # bs)"
    using assms(1) by (auto simp: blk_span_def)
  then have "unat (blk_Address b) + unat (blk_Size b) - 1 < N" using assms(2) by blast
  then show le: "unat (blk_Address b) + unat (blk_Size b) \<le> N" by linarith
  show "unat (blk_Address b + blk_Size b) = unat (blk_Address b) + unat (blk_Size b)"
    using le assms(3) by (intro unat_add_lem [THEN iffD1]) simp
qed

lemma gaps_spec:
  assumes "ascending (unat c) bs" "spans bs \<subseteq> {..< unat e}" "unat c \<le> unat e"
  shows "separated (unat c) (gaps c bs e) \<and> spans (gaps c bs e) = {unat c ..< unat e} - spans bs"
  using assms
proof (induction bs arbitrary: c)
  case Nil
  show ?case
  proof (cases "c < e")
    case True
    with word_gap [OF this] show ?thesis by simp
  next
    case False
    then show ?thesis by (auto simp: word_less_nat_alt)
  qed
next
  case (Cons b bs)
  let ?a = "unat (blk_Address b)" and ?s = "unat (blk_Size b)"
  have N: "unat e < 2 ^ 32" using unsigned_less [of e, where ?'a = nat] by simp
  note ends = ascending_end [OF Cons.prems(1,2) N]
  have pre: "ascending (unat (blk_Address b + blk_Size b)) bs" "spans bs \<subseteq> {..< unat e}"
    "unat (blk_Address b + blk_Size b) \<le> unat e" using Cons.prems ends by auto
  note ih = Cons.IH [OF pre]
  let ?gs = "gaps (blk_Address b + blk_Size b) bs e"
  have sep: "separated (?a + 1) ?gs" using ih ends Cons.prems(1) by (auto intro: separated_mono)
  have low: "x \<in> spans bs \<Longrightarrow> ?a + ?s \<le> x" for x using ascending_ge [OF pre(1)] ends by simp
  have tail: "spans ?gs = {?a + ?s ..< unat e} - spans bs" using ih ends by simp
  show ?case
  proof (cases "c < blk_Address b")
    case True
    have "spans (gaps c (b # bs) e) = {unat c ..< ?a} \<union> ({?a + ?s ..< unat e} - spans bs)"
      using True word_gap [OF True] tail by simp
    moreover have "separated (unat c) (gaps c (b # bs) e)"
      using True word_gap [OF True] sep by (auto simp: blk_span_def unat_sub_if' word_less_nat_alt)
    ultimately show ?thesis using low Cons.prems ends(2) True by (force simp: blk_span_def word_less_nat_alt)
  next
    case False
    then have "?a = unat c" using Cons.prems(1) by (auto simp: word_less_nat_alt)
    moreover have "separated (unat c) (gaps c (b # bs) e)"
      using False separated_mono [OF sep, of "unat c"] calculation by simp
    ultimately show ?thesis using False tail low by (force simp: blk_span_def)
  qed
qed

lemma ascending_addresses: "ascending lo bs \<Longrightarrow> b \<in> set bs \<Longrightarrow> lo \<le> unat (blk_Address b)"
  by (induction lo bs rule: ascending.induct) auto

lemma dom_blockMap: "dom (blockMap bs) = blk_Address ` set bs"
  by (simp add: blockMap_def dom_map_of_conv_image_fst image_image)

lemma restoreLoop_spec:
  assumes "ascending lo bs"
  shows "heap_Allocations (snd (restoreLoop c bs h)) = heap_Allocations h ++ blockMap bs \<and>
    heap_Shared (snd (restoreLoop c bs h)) = heap_Shared h \<and>
    heap_Free (snd (restoreLoop c bs h)) @ gaps (fst (restoreLoop c bs h)) [] e = heap_Free h @ gaps c bs e"
  using assms
proof (induction bs arbitrary: lo c h)
  case Nil
  then show ?case by (simp add: blockMap_def)
next
  case (Cons b bs)
  define g where "g = (if c < blk_Address b
       then h\<lparr>heap_Free := heap_Free h @ [\<lparr>blk_Address = c, blk_Size = blk_Address b - c\<rparr>]\<rparr> else h)
     \<lparr>heap_Allocations := (heap_Allocations h)(blk_Address b \<mapsto> blk_Size b)\<rparr>"
  have step: "restoreLoop c (b # bs) h = restoreLoop (blk_Address b + blk_Size b) bs g"
    by (auto simp: Let_def g_def)
  have g: "heap_Allocations g = (heap_Allocations h)(blk_Address b \<mapsto> blk_Size b)"
    "heap_Shared g = heap_Shared h"
    "heap_Free g @ gaps (blk_Address b + blk_Size b) bs e = heap_Free h @ gaps c (b # bs) e"
    by (simp_all add: g_def)
  have tail: "ascending (unat (blk_Address b) + unat (blk_Size b)) bs" "0 < unat (blk_Size b)"
    using Cons.prems by auto
  have "blk_Address c \<noteq> blk_Address b" if "c \<in> set bs" for c
    using ascending_addresses [OF tail(1) that] tail(2) by auto
  then have "blk_Address b \<notin> dom (blockMap bs)" unfolding dom_blockMap by fastforce
  then have "heap_Allocations g ++ blockMap bs = heap_Allocations h ++ blockMap (b # bs)"
    unfolding g(1) by (auto simp: blockMap_def map_add_def fun_eq_iff split: option.splits)
  then show ?case using Cons.IH [OF tail(1), of "blk_Address b + blk_Size b" g] unfolding step g(2,3) by metis
qed

lemma blockMap_some:
  "ascending lo bs \<Longrightarrow> blockMap bs a = Some s \<longleftrightarrow> (\<exists>b \<in> set bs. blk_Address b = a \<and> blk_Size b = s)"
proof (induction bs arbitrary: lo)
  case (Cons b bs)
  then have tail: "ascending (unat (blk_Address b) + unat (blk_Size b)) bs" "0 < unat (blk_Size b)" by auto
  have "blk_Address c \<noteq> blk_Address b" if "c \<in> set bs" for c
    using ascending_addresses [OF tail(1) that] tail(2) by auto
  then show ?case using Cons.IH [OF tail(1)] by (auto simp: blockMap_def)
qed (simp add: blockMap_def)

text \<open>A table of blocks that the reader accepts: in order, inside the arena, of whole units.\<close>

definition table_ok :: "u32 \<Rightarrow> u32 \<Rightarrow> Block list \<Rightarrow> bool" where
  "table_ok base sz bs \<longleftrightarrow> ascending (unat base) bs \<and> spans bs \<subseteq> arena base sz \<and>
     (\<forall>b \<in> set bs. 8 dvd unat (blk_Size b))"

lemma blockMap_ok:
  assumes "table_ok base sz bs"
  shows "allocations_ok base sz (blockMap bs)" "live (blockMap bs) = spans bs"
proof -
  have asc: "ascending (unat base) bs" using assms by (simp add: table_ok_def)
  note some = blockMap_some [OF asc]
  have ok: "blocks_ok bs" by (rule ascending_blocks_ok [OF asc])
  show "live (blockMap bs) = spans bs" by (auto simp: live_def spans_def some)
  have "blk_span (blk_Address b) (blk_Size b) \<inter> blk_span (blk_Address c) (blk_Size c) = {}"
    if "b \<in> set bs" "c \<in> set bs" "blk_Address b \<noteq> blk_Address c" for b c
    using ok that unfolding blocks_ok_def by metis
  moreover have "blk_span (blk_Address b) (blk_Size b) \<subseteq> arena base sz" if "b \<in> set bs" for b
    using assms that by (auto simp: table_ok_def spans_def)
  ultimately show "allocations_ok base sz (blockMap bs)"
    using assms ok by (auto simp: allocations_ok_def some table_ok_def blocks_ok_def)
qed

lemma RestoreHeapMetadata_spec:
  assumes "heap_arena base sz" "table_ok base sz bs"
  shows "\<exists>h'. RestoreHeapMetadata base sz bs h = (Inr (), h') \<and> heap_inv base sz h' \<and>
    heap_Allocations h' = blockMap bs \<and> heap_Shared h' = heap_Shared h"
proof -
  have arena: "0 < unat base" "0 < unat sz" "unat base + unat sz < 2 ^ 32" using assms(1) by (auto simp: heap_arena_def)
  have e: "unat (base + sz) = unat base + unat sz" using arena by (intro unat_add_lem [THEN iffD1]) simp
  have bs: "ascending (unat base) bs" "spans bs \<subseteq> {..< unat (base + sz)}"
    using assms(2) by (auto simp: table_ok_def arena_def e)
  define h0 where "h0 = h\<lparr>heap_Allocations := Map.empty, heap_Free := []\<rparr>"
  obtain c h1 where loop: "restoreLoop base bs h0 = (c, h1)" by (cases "restoreLoop base bs h0")
  note sp = restoreLoop_spec [OF bs(1), of base h0 "base + sz", unfolded loop fst_conv snd_conv]
  define h' where "h' = h1\<lparr>heap_Free := gaps base bs (base + sz)\<rparr>"
  have free: "heap_Free h1 @ gaps c [] (base + sz) = gaps base bs (base + sz)" using sp by (simp add: h0_def)
  have g: "separated (unat base) (gaps base bs (base + sz))"
    "spans (gaps base bs (base + sz)) = arena base sz - spans bs"
    using gaps_spec [OF bs] e by (auto simp: arena_def)
  have al: "heap_Allocations h1 = blockMap bs" "heap_Shared h1 = heap_Shared h"
    using sp by (simp_all add: h0_def)
  have "heap_inv base sz h'"
    using assms(1) g blockMap_ok [OF assms(2)] al by (simp add: heap_inv_def h'_def)
  moreover have "RestoreHeapMetadata base sz bs h = (Inr (), h')"
  proof -
    have "(if c < base + sz then h1\<lparr>heap_Free := heap_Free h1 @ [\<lparr>blk_Address = c, blk_Size = base + sz - c\<rparr>]\<rparr> else h1) = h'"
      using free by (auto simp: h'_def)
    moreover have "length (gaps base [] (base + sz)) = 1" using arena by (simp add: word_less_nat_alt e)
    ultimately show ?thesis
      unfolding RestoreHeapMetadata_def Let_def h0_def [symmetric] loop by (auto simp: h'_def)
  qed
  ultimately show ?thesis using al by (auto simp: h'_def)
qed

subsection \<open>Reading the table\<close>

lemma and_seven_zero: "(s :: u32) AND 7 = 0 \<longleftrightarrow> 8 dvd unat s"
proof -
  have "unat (s AND 7) = unat s AND 7" by (simp add: unsigned_and_eq)
  also have "\<dots> = take_bit 3 (unat s)" by (simp add: take_bit_eq_mask mask_eq_exp_minus_1)
  also have "\<dots> = unat s mod 8" by (simp add: take_bit_eq_mod)
  finally show ?thesis by (metis dvd_eq_mod_eq_0 unat_eq_zero)
qed

lemma readBlocks_valid:
  assumes "readBlocks n base e p d = (Inr bs, d')" "base \<le> p"
  shows "ascending p bs \<and> spans bs \<subseteq> {p ..< e} \<and> (\<forall>b \<in> set bs. 8 dvd unat (blk_Size b)) \<and> length bs = n"
  using assms
proof (induction n arbitrary: p d bs)
  case (Suc n)
  obtain a d1 where a: "StateDecoder_U32 d = (a, d1)" by (cases "StateDecoder_U32 d")
  obtain s d2 where s: "StateDecoder_U32 d1 = (s, d2)" by (cases "StateDecoder_U32 d1")
  have ok: "s \<noteq> 0" "s AND 7 = 0" "p \<le> unat a" "unat a + unat s \<le> e"
    using Suc.prems(1) by (auto simp: a s Let_def split: if_splits)
  obtain rest where r: "readBlocks n base e (unat a + unat s) d2 = (Inr rest, d')"
    "bs = \<lparr>blk_Address = a, blk_Size = s\<rparr> # rest"
    using Suc.prems(1) ok by (auto simp: a s Let_def split: if_splits elim!: and_then_InrD)
  have "base \<le> unat a + unat s" using Suc.prems(2) ok(3) by simp
  note ih = Suc.IH [OF r(1) this]
  have "0 < unat s" using ok(1) by (simp add: unat_gt_0)
  then show ?case using ih ok r(2) by (auto simp: and_seven_zero blk_span_def)
qed simp

definition blockBytes :: "Block \<Rightarrow> u8 list" where
  "blockBytes b = PutUint32 (blk_Address b) @ PutUint32 (blk_Size b)"

lemma readBlocks_written:
  assumes "ascending p bs" "spans bs \<subseteq> {..< e}" "\<forall>b \<in> set bs. 8 dvd unat (blk_Size b)" "base \<le> p"
    "sd_Err d = None" "sd_Reader d = concat (map blockBytes bs) @ rest"
  shows "readBlocks (length bs) base e p d = (Inr bs, consumed (8 * length bs) d)"
  using assms
proof (induction bs arbitrary: p d)
  case (Cons b bs)
  let ?a = "blk_Address b" and ?s = "blk_Size b"
  have d1: "StateDecoder_U32 d = (?a, consumed 4 d)"
    using Cons.prems(5,6) by (intro U32_decodes) (auto simp: blockBytes_def)
  have d2: "StateDecoder_U32 (consumed 4 d) = (?s, consumed 8 d)"
    using U32_decodes [of "consumed 4 d" ?s "concat (map blockBytes bs) @ rest"] Cons.prems(5,6)
    by (simp add: blockBytes_def [of b])
  have "unat ?a + unat ?s - 1 \<in> spans (b # bs)" using Cons.prems(1) by (auto simp: blk_span_def)
  then have "unat ?a + unat ?s \<le> e" using Cons.prems(2) by fastforce
  then have ok: "\<not> (?s = 0 \<or> ?s AND 7 \<noteq> 0 \<or> unat ?a < p \<or> unat ?a < base \<or> e < unat ?a + unat ?s)"
    using Cons.prems by (auto simp: and_seven_zero)
  have "readBlocks (length bs) base e (unat ?a + unat ?s) (consumed 8 d) =
      (Inr bs, consumed (8 * length bs) (consumed 8 d))"
    using Cons.prems by (intro Cons.IH) (auto simp: blockBytes_def)
  then show ?case using ok by (simp add: d1 d2 Let_def)
qed simp

text \<open>The table that is written: the live allocations by address.\<close>

definition savedTable :: "(u32 \<rightharpoonup> u32) \<Rightarrow> Block list" where
  "savedTable al = map (\<lambda>a. \<lparr>blk_Address = a, blk_Size = the (al a)\<rparr>) (sorted_list_of_set (dom al))"

lemma finite_dom_word [simp]: "finite (dom (al :: u32 \<rightharpoonup> u32))"
  by (rule finite_subset [OF subset_UNIV]) simp

lemma savedTable_ok:
  assumes "allocations_ok base sz al"
  shows "table_ok base sz (savedTable al)" "blockMap (savedTable al) = al"
proof -
  let ?bs = "savedTable al"
  have mem: "b \<in> set ?bs \<longleftrightarrow> al (blk_Address b) = Some (blk_Size b)" for b
    by (cases b) (auto simp: savedTable_def dom_def image_iff intro: Block.equality)
  have "distinct ?bs" by (auto simp: savedTable_def distinct_map inj_on_def)
  moreover have "blk_Address b \<noteq> blk_Address c" if "b \<in> set ?bs" "c \<in> set ?bs" "b \<noteq> c" for b c
    using that unfolding mem by (metis Block.equality option.inject unit.exhaust)
  ultimately have ok: "blocks_ok ?bs" 
    using assms unfolding blocks_ok_def allocations_ok_def Ball_def mem by metis
  have srt: "sorted (map blk_Address ?bs)" by (simp add: savedTable_def comp_def)
  have inside: "blk_span (blk_Address b) (blk_Size b) \<subseteq> arena base sz" "0 < unat (blk_Size b)"
    "8 dvd unat (blk_Size b)" if "b \<in> set ?bs" for b
    using assms that by (auto simp: allocations_ok_def mem)
  have "unat base \<le> unat (blk_Address b)" if "b \<in> set ?bs" for b
    using inside(1,2) [OF that] by (force simp: arena_def blk_span_def)
  then have asc: "ascending (unat base) ?bs" by (intro sorted_ascending [OF ok srt]) blast
  then show "table_ok base sz ?bs" using inside by (auto simp: table_ok_def spans_def)
  show "blockMap ?bs = al"
  proof
    fix a show "blockMap ?bs a = al a"
    proof (cases "al a")
      case None
      then have "\<nexists>s. blockMap ?bs a = Some s" unfolding blockMap_some [OF asc] Bex_def mem by auto
      then show ?thesis using None by (cases "blockMap ?bs a") auto
    next
      case (Some s)
      then have "blockMap ?bs a = Some s" unfolding blockMap_some [OF asc]
        by (intro bexI [of _ "\<lparr>blk_Address = a, blk_Size = s\<rparr>"]) (simp_all add: mem)
      then show ?thesis using Some by simp
    qed
  qed
qed

lemma WriteHeapAllocations_bytes:
  assumes "accepts out" "sw_Err w = None"
  shows "WriteHeapAllocations out al w =
    appended (PutUint32 (of_nat (length (savedTable al))) @ concat (map blockBytes (savedTable al))) w"
proof -
  have "fold (\<lambda>a w. StateWriter_U32 out (the (al a)) (StateWriter_U32 out a w)) as w =
      appended (concat (map (\<lambda>a. blockBytes \<lparr>blk_Address = a, blk_Size = the (al a)\<rparr>) as)) w"
    if "sw_Err w = None" for as w
    using that by (induction as arbitrary: w) (simp_all add: U32_accepts [OF assms(1)] blockBytes_def appended_def)
  then show ?thesis
    by (simp add: WriteHeapAllocations_def Let_def U32_accepts [OF assms] assms(2) savedTable_def comp_def)
qed

text \<open>
  C33. A saved heap comes back.  The allocation table that a consistent heap with at most
  2^20 allocations writes, read back from the front of any longer state, rebuilds exactly
  that heap: the same allocations and, although the free list is not saved, the same free
  blocks in the same order; the decoder stops right after the table.
\<close>

theorem heap_state_roundtrip:
  assumes "heap_inv base sz h" and "card (dom (heap_Allocations h)) \<le> 2 ^ 20"
    and "accepts out" and "sw_Err w = None"
    and "WriteHeapAllocations out (heap_Allocations h) w = w'"
    and "sd_Err d = None" and "sw_output w' @ rest = sw_output w @ sd_Reader d"
  shows "\<exists>blocks d'. ReadHeapAllocations base sz d = (Inr blocks, d') \<and> sd_Err d' = None \<and> sd_Reader d' = rest \<and>
    RestoreHeapMetadata base sz blocks h' = (Inr (), h\<lparr>heap_Shared := heap_Shared h'\<rparr>)"
proof -
  let ?al = "heap_Allocations h"
  let ?bs = "savedTable ?al"
  have al: "heap_arena base sz" "allocations_ok base sz ?al" using assms(1) by (auto simp: heap_inv_def)
  note tab = savedTable_ok [OF al(2)]
  have len: "length ?bs \<le> 2 ^ 20" using assms(2) by (simp add: savedTable_def)
  then have n: "unat (of_nat (length ?bs) :: u32) = length ?bs" by (simp add: unat_of_nat)
  have rd: "sd_Reader d = PutUint32 (of_nat (length ?bs)) @ concat (map blockBytes ?bs) @ rest"
    using assms(7) unfolding assms(5) [symmetric] WriteHeapAllocations_bytes [OF assms(3,4)] by simp
  have u: "StateDecoder_U32 d = (of_nat (length ?bs), consumed 4 d)" by (rule U32_decodes [OF assms(6) rd])
  have "readBlocks (length ?bs) (unat base) (unat base + unat sz) (unat base) (consumed 4 d) =
      (Inr ?bs, consumed (8 * length ?bs) (consumed 4 d))"
    using tab(1) assms(6) rd by (intro readBlocks_written) (auto simp: table_ok_def arena_def)
  then have "ReadHeapAllocations base sz d = (Inr ?bs, consumed (4 + 8 * length ?bs) d)"
    using len assms(6) by (simp add: ReadHeapAllocations_def u n MaxSavedHeapAllocations_def word_less_nat_alt)
  moreover have "length (concat (map blockBytes bs)) = 8 * length bs" for bs
    by (induction bs) (simp_all add: blockBytes_def)
  then have "sd_Reader (consumed (4 + 8 * length ?bs) d) = rest" using rd by simp
  moreover obtain g where "RestoreHeapMetadata base sz ?bs h' = (Inr (), g)" "heap_inv base sz g"
    "heap_Allocations g = ?al" "heap_Shared g = heap_Shared h'"
    using RestoreHeapMetadata_spec [OF al(1) tab(1), of h'] tab(2) by auto
  moreover have "g = h\<lparr>heap_Shared := heap_Shared h'\<rparr>"
    using calculation assms(1) by (intro heap_eqI [of base sz]) (auto simp: heap_inv_def)
  ultimately show ?thesis using assms(6) by auto
qed

definition sampleSaved :: Heap where
  "sampleSaved = \<lparr>heap_Free = [\<lparr>blk_Address = 0x1000, blk_Size = 8\<rparr>, \<lparr>blk_Address = 0x1018, blk_Size = 40\<rparr>],
     heap_Allocations = [0x1008 \<mapsto> 16], heap_Shared = None\<rparr>"

lemma sampleSaved_inv: "heap_inv 0x1000 64 sampleSaved"
proof -
  have "live [0x1008 \<mapsto> (16 :: u32)] = blk_span 0x1008 16" by (auto simp: live_def split: if_splits)
  then show ?thesis
    by (auto simp: heap_inv_def sampleSaved_def heap_arena_def allocations_ok_def arena_def blk_span_def
        split: if_splits)
qed

theorem heap_state_roundtrip_witness:
  "\<exists>blocks d'. ReadHeapAllocations 0x1000 64
       \<lparr>sd_Reader = sw_output (WriteHeapAllocations (\<lambda>_ data. (length data, None)) [0x1008 \<mapsto> 16] NewStateWriter) @ [1, 2],
        sd_Offset = 0, sd_Err = None\<rparr> = (Inr blocks, d') \<and> sd_Reader d' = [1, 2] \<and>
     RestoreHeapMetadata 0x1000 64 blocks (NewHeap 0x1000 64) = (Inr (), sampleSaved)"
proof -
  let ?out = "\<lambda>_ (data :: u8 list). (length data, None :: stateError option)"
  have "accepts ?out" by (simp add: accepts_def)
  moreover have "sw_Err NewStateWriter = None" "sw_output NewStateWriter = []" by (simp_all add: NewStateWriter_def)
  moreover have "heap_Allocations sampleSaved = [0x1008 \<mapsto> 16]" by (simp add: sampleSaved_def)
  moreover have "sampleSaved\<lparr>heap_Shared := heap_Shared (NewHeap 0x1000 64)\<rparr> = sampleSaved"
    by (simp add: sampleSaved_def NewHeap_def)
  ultimately show ?thesis
    using heap_state_roundtrip [OF sampleSaved_inv _ _ _ refl, of ?out NewStateWriter
        "\<lparr>sd_Reader = sw_output (WriteHeapAllocations ?out [0x1008 \<mapsto> 16] NewStateWriter) @ [1, 2],
          sd_Offset = 0, sd_Err = None\<rparr>" "[1, 2]" "NewHeap 0x1000 64"]
    by (simp only: StateDecoder.simps) (simp; blast)
qed

text \<open>
  A damaged state cannot corrupt a heap.  Whatever bytes the reader is given, if it
  accepts an allocation table then rebuilding the heap from it succeeds, and the heap is
  consistent: the allocations are those of the table, lie inside the arena, do not overlap,
  and the free list holds exactly the bytes between them.
\<close>

theorem heap_state_reader_safe:
  assumes "heap_arena base sz" and "ReadHeapAllocations base sz d = (Inr blocks, d')"
  shows "\<exists>h'. RestoreHeapMetadata base sz blocks h = (Inr (), h') \<and> heap_inv base sz h' \<and>
    (\<forall>a s. heap_Allocations h' a = Some s \<longleftrightarrow> \<lparr>blk_Address = a, blk_Size = s\<rparr> \<in> set blocks) \<and>
    heap_Shared h' = heap_Shared h"
proof -
  obtain n d1 where n: "StateDecoder_U32 d = (n, d1)" by (cases "StateDecoder_U32 d")
  have "readBlocks (unat n) (unat base) (unat base + unat sz) (unat base) d1 = (Inr blocks, d')"
    using assms(2) by (auto simp: ReadHeapAllocations_def n split: if_splits option.splits elim!: and_then_InrD)
  from readBlocks_valid [OF this order_refl] have tab: "table_ok base sz blocks"
    by (auto simp: table_ok_def arena_def)
  then have asc: "ascending (unat base) blocks" by (simp add: table_ok_def)
  obtain h' where "RestoreHeapMetadata base sz blocks h = (Inr (), h')" "heap_inv base sz h'"
    "heap_Allocations h' = blockMap blocks" "heap_Shared h' = heap_Shared h"
    using RestoreHeapMetadata_spec [OF assms(1) tab, of h] by blast
  moreover have "blockMap blocks a = Some s \<longleftrightarrow> \<lparr>blk_Address = a, blk_Size = s\<rparr> \<in> set blocks" for a s
    unfolding blockMap_some [OF asc] by (metis Block.select_convs(1,2) Block.surjective unit.exhaust)
  ultimately show ?thesis by auto
qed

theorem heap_state_reader_safe_witness:
  "\<exists>h'. RestoreHeapMetadata 0x1000 64 [\<lparr>blk_Address = 0x1008, blk_Size = 16\<rparr>] (NewHeap 0x1000 64) = (Inr (), h') \<and>
     heap_inv 0x1000 64 h'"
proof -
  let ?d = "\<lparr>sd_Reader = [1, 0, 0, 0, 8, 0x10, 0, 0, 16, 0, 0, 0], sd_Offset = 0, sd_Err = None\<rparr>"
  have "ReadHeapAllocations 0x1000 64 ?d = (Inr [\<lparr>blk_Address = 0x1008, blk_Size = 16\<rparr>],
      \<lparr>sd_Reader = [], sd_Offset = 12, sd_Err = None\<rparr>)"
    by code_simp
  from heap_state_reader_safe [OF _ this, of "NewHeap 0x1000 64"] show ?thesis by (auto simp: heap_arena_def)
qed

end
