(* ===== verification/Runtime_Registry.thy ===== *)
theory Runtime_Registry
  imports Service_Prelude
begin

text \<open>
  Service identifiers, src/runtime/types.go and registry.go: the registry hands out
  generation-tagged identifiers, validates owner and kind, counts references, and is saved
  and restored as sorted tables.  A Go map is a partial function; the value a missing key
  reads as is written out.
\<close>

subsection \<open>Types\<close>

datatype serviceError =
    ErrInvalidArgument | ErrLimitExceeded | ErrNotFound | ErrWrongKind | ErrWrongOwner
  | ErrStaleID | ErrReadOnly | ErrInvalidState | ErrMediaUnsupported

type_synonym OwnerID = u32
type_synonym ObjectKind = name
type_synonym ServiceID = u64

definition ObjectKind_Validate :: "ObjectKind \<Rightarrow> serviceError + unit" where
  "ObjectKind_Validate k =
     (if TrimSpaceEmpty k \<or> 64 < length k then Inl ErrInvalidArgument else Inr ())"

text \<open>The bytes of the kind \<open>"timer"\<close>.\<close>

definition KindTimer :: ObjectKind where
  "KindTimer = [0x74, 0x69, 0x6D, 0x65, 0x72]"

definition makeServiceID :: "u32 \<Rightarrow> u32 \<Rightarrow> ServiceID" where
  "makeServiceID slot generation = push_bit 32 (ucast generation) OR ucast slot"

definition ServiceID_Slot :: "ServiceID \<Rightarrow> u32" where
  "ServiceID_Slot ident = ucast ident"

definition ServiceID_Generation :: "ServiceID \<Rightarrow> u32" where
  "ServiceID_Generation ident = ucast (drop_bit 32 ident)"

definition ServiceID_Valid :: "ServiceID \<Rightarrow> bool" where
  "ServiceID_Valid ident \<longleftrightarrow> ServiceID_Slot ident \<noteq> 0 \<and> ServiceID_Generation ident \<noteq> 0"

record registryEntry =
  re_id :: ServiceID
  re_kind :: ObjectKind
  re_owner :: OwnerID
  re_refs :: u32

record Registry =
  reg_limit :: u32
  reg_nextSlot :: u32
  reg_generations :: "u32 \<rightharpoonup> u32"
  reg_entries :: "u32 \<rightharpoonup> registryEntry"
  reg_free :: "u32 list"

definition DefaultMaxObjects :: u32 where "DefaultMaxObjects = 4096"

definition NewRegistry :: "u32 \<Rightarrow> Registry" where
  "NewRegistry limit =
     \<lparr>reg_limit = (if limit = 0 then DefaultMaxObjects else limit), reg_nextSlot = 1,
      reg_generations = Map.empty, reg_entries = Map.empty, reg_free = []\<rparr>"

definition generationOf :: "Registry \<Rightarrow> u32 \<Rightarrow> u32" where
  "generationOf r slot = (case reg_generations r slot of None \<Rightarrow> 0 | Some g \<Rightarrow> g)"

type_synonym 'a service = "(serviceError + 'a) \<times> Registry"

subsection \<open>Creation\<close>

text \<open>The first free slot whose generation is not exhausted.\<close>

definition pickFree :: "Registry \<Rightarrow> u32 option" where
  "pickFree r = find (\<lambda>c. generationOf r c \<noteq> NOT 0) (reg_free r)"

text \<open>The count of entries is compared as a 32-bit value.\<close>

definition entryCount :: "Registry \<Rightarrow> nat" where
  "entryCount r = card (dom (reg_entries r))"

definition Create :: "OwnerID \<Rightarrow> ObjectKind \<Rightarrow> Registry \<Rightarrow> ServiceID service" where
  "Create owner kind r =
     (case ObjectKind_Validate kind of
        Inl e \<Rightarrow> (Inl e, r)
      | Inr _ \<Rightarrow>
          if reg_limit r \<le> of_nat (entryCount r) then (Inl ErrLimitExceeded, r)
          else
            let picked = pickFree r;
                slot = (case picked of None \<Rightarrow> 0 | Some c \<Rightarrow> c);
                exhausted = (slot = 0 \<and>
                  (reg_nextSlot r = 0 \<or> reg_nextSlot r = NOT 0 \<or> reg_limit r < reg_nextSlot r));
                slot = (if slot = 0 then reg_nextSlot r else slot)
            in
            if exhausted then (Inl ErrLimitExceeded, r)
            else
              let generation = generationOf r slot + 1 in
              if generation = 0 then (Inl ErrLimitExceeded, r)
              else
                let r = (case picked of
                           Some c \<Rightarrow> r\<lparr>reg_free := remove1 c (reg_free r)\<rparr>
                         | None \<Rightarrow> r\<lparr>reg_nextSlot := reg_nextSlot r + 1\<rparr>);
                    ident = makeServiceID slot generation
                in (Inr ident,
                    r\<lparr>reg_generations := (reg_generations r)(slot \<mapsto> generation),
                      reg_entries := (reg_entries r)(slot \<mapsto>
                        \<lparr>re_id = ident, re_kind = kind, re_owner = owner, re_refs = 1\<rparr>)\<rparr>))"

subsection \<open>Lookup\<close>

definition lookup :: "ServiceID \<Rightarrow> Registry \<Rightarrow> serviceError + registryEntry" where
  "lookup ident r =
     (if \<not> ServiceID_Valid ident then Inl ErrNotFound
      else case reg_entries r (ServiceID_Slot ident) of
        None \<Rightarrow>
          let generation = generationOf r (ServiceID_Slot ident) in
          if generation \<noteq> 0 \<and> generation \<noteq> ServiceID_Generation ident then Inl ErrStaleID else Inl ErrNotFound
      | Some entry \<Rightarrow> if re_id entry \<noteq> ident then Inl ErrStaleID else Inr entry)"

definition Validate :: "ServiceID \<Rightarrow> OwnerID \<Rightarrow> ObjectKind \<Rightarrow> Registry \<Rightarrow> serviceError + unit" where
  "Validate ident owner kind r =
     (case lookup ident r of
        Inl e \<Rightarrow> Inl e
      | Inr entry \<Rightarrow>
          if kind \<noteq> [] \<and> re_kind entry \<noteq> kind then Inl ErrWrongKind
          else if re_owner entry \<noteq> owner then Inl ErrWrongOwner
          else Inr ())"

definition Registry_Kind :: "ServiceID \<Rightarrow> Registry \<Rightarrow> serviceError + ObjectKind" where
  "Registry_Kind ident r = (case lookup ident r of Inl e \<Rightarrow> Inl e | Inr entry \<Rightarrow> Inr (re_kind entry))"

definition Registry_Owner :: "ServiceID \<Rightarrow> Registry \<Rightarrow> serviceError + OwnerID" where
  "Registry_Owner ident r = (case lookup ident r of Inl e \<Rightarrow> Inl e | Inr entry \<Rightarrow> Inr (re_owner entry))"

subsection \<open>Updates\<close>

definition setEntry :: "ServiceID \<Rightarrow> registryEntry \<Rightarrow> Registry \<Rightarrow> Registry" where
  "setEntry ident entry r = r\<lparr>reg_entries := (reg_entries r)(ServiceID_Slot ident \<mapsto> entry)\<rparr>"

definition Transfer :: "ServiceID \<Rightarrow> OwnerID \<Rightarrow> OwnerID \<Rightarrow> Registry \<Rightarrow> unit service" where
  "Transfer ident source target r =
     (case lookup ident r of
        Inl e \<Rightarrow> (Inl e, r)
      | Inr entry \<Rightarrow>
          if re_owner entry \<noteq> source then (Inl ErrWrongOwner, r)
          else (Inr (), setEntry ident (entry\<lparr>re_owner := target\<rparr>) r))"

definition Retain :: "ServiceID \<Rightarrow> Registry \<Rightarrow> unit service" where
  "Retain ident r =
     (case lookup ident r of
        Inl e \<Rightarrow> (Inl e, r)
      | Inr entry \<Rightarrow>
          if re_refs entry = NOT 0 then (Inl ErrLimitExceeded, r)
          else (Inr (), setEntry ident (entry\<lparr>re_refs := re_refs entry + 1\<rparr>) r))"

definition insertFree :: "u32 \<Rightarrow> Registry \<Rightarrow> Registry" where
  "insertFree slot r =
     (let free = reg_free r; index = Search (length free) (\<lambda>i. slot \<le> free ! i) in
      if index < length free \<and> free ! index = slot then r
      else r\<lparr>reg_free := insertAt index slot free\<rparr>)"

definition removeEntry :: "ServiceID \<Rightarrow> Registry \<Rightarrow> Registry" where
  "removeEntry ident r =
     insertFree (ServiceID_Slot ident) (r\<lparr>reg_entries := (reg_entries r)(ServiceID_Slot ident := None)\<rparr>)"

definition Registry_Release :: "ServiceID \<Rightarrow> Registry \<Rightarrow> bool service" where
  "Registry_Release ident r =
     (case lookup ident r of
        Inl e \<Rightarrow> (Inl e, r)
      | Inr entry \<Rightarrow>
          let entry = entry\<lparr>re_refs := re_refs entry - 1\<rparr> in
          if re_refs entry \<noteq> 0 then (Inr False, setEntry ident entry r)
          else (Inr True, removeEntry ident r))"

definition Registry_Destroy :: "ServiceID \<Rightarrow> OwnerID \<Rightarrow> ObjectKind \<Rightarrow> Registry \<Rightarrow> unit service" where
  "Registry_Destroy ident owner kind r =
     (case Validate ident owner kind r of
        Inl e \<Rightarrow> (Inl e, r)
      | Inr _ \<Rightarrow> (Inr (), removeEntry ident r))"

subsection \<open>Snapshots\<close>

text \<open>A saved entry has the fields of an entry.\<close>

record RegistryState =
  rs_Limit :: u32
  rs_NextSlot :: u32
  rs_Generations :: "(u32 \<times> u32) list"
  rs_Entries :: "registryEntry list"

definition Registry_Snapshot :: "Registry \<Rightarrow> RegistryState" where
  "Registry_Snapshot r =
     \<lparr>rs_Limit = reg_limit r, rs_NextSlot = reg_nextSlot r, rs_Generations = entriesOf (reg_generations r),
      rs_Entries = map snd (entriesOf (reg_entries r))\<rparr>"

fun loadGenerations :: "u32 \<Rightarrow> nat \<Rightarrow> u32 \<Rightarrow> (u32 \<times> u32) list \<Rightarrow> (u32 \<rightharpoonup> u32) \<Rightarrow> serviceError + (u32 \<rightharpoonup> u32)" where
  "loadGenerations nextSlot index previous [] gens = Inr gens"
| "loadGenerations nextSlot index previous ((slot, generation) # rest) gens =
     (if slot = 0 \<or> generation = 0 \<or> index \<noteq> 0 \<and> slot \<le> previous \<or> slot \<noteq> of_nat index + 1 \<or> nextSlot \<le> slot
      then Inl ErrInvalidState
      else loadGenerations nextSlot (index + 1) slot rest (gens(slot \<mapsto> generation)))"

fun loadEntries :: "(u32 \<rightharpoonup> u32) \<Rightarrow> nat \<Rightarrow> u32 \<Rightarrow> registryEntry list \<Rightarrow> (u32 \<rightharpoonup> registryEntry) \<Rightarrow>
    serviceError + (u32 \<rightharpoonup> registryEntry)" where
  "loadEntries gens index previous [] entries = Inr entries"
| "loadEntries gens index previous (saved # rest) entries =
     (if \<not> ServiceID_Valid (re_id saved) \<or> re_refs saved = 0 \<or>
         index \<noteq> 0 \<and> ServiceID_Slot (re_id saved) \<le> previous \<or>
         ObjectKind_Validate (re_kind saved) \<noteq> Inr () \<or>
         gens (ServiceID_Slot (re_id saved)) \<noteq> Some (ServiceID_Generation (re_id saved))
      then Inl ErrInvalidState
      else loadEntries gens (index + 1) (ServiceID_Slot (re_id saved)) rest
        (entries(ServiceID_Slot (re_id saved) \<mapsto> saved)))"

definition registryFromState :: "RegistryState \<Rightarrow> serviceError + Registry" where
  "registryFromState st =
     (if rs_Limit st = 0 \<or> rs_NextSlot st = 0 \<or> unat (rs_Limit st) + 1 < unat (rs_NextSlot st) \<or>
         length (rs_Generations st) \<noteq> unat (rs_NextSlot st) - 1 \<or>
         unat (rs_Limit st) < length (rs_Generations st) \<or> unat (rs_Limit st) < length (rs_Entries st)
      then Inl ErrInvalidState
      else case loadGenerations (rs_NextSlot st) 0 0 (rs_Generations st) Map.empty of
        Inl e \<Rightarrow> Inl e
      | Inr gens \<Rightarrow>
          (case loadEntries gens 0 0 (rs_Entries st) Map.empty of
             Inl e \<Rightarrow> Inl e
           | Inr entries \<Rightarrow>
               Inr \<lparr>reg_limit = rs_Limit st, reg_nextSlot = rs_NextSlot st, reg_generations = gens,
                    reg_entries = entries,
                    reg_free = filter (\<lambda>slot. entries slot = None) (map fst (rs_Generations st))\<rparr>))"

definition Registry_Restore :: "RegistryState \<Rightarrow> Registry \<Rightarrow> unit service" where
  "Registry_Restore st r =
     (case registryFromState st of Inl e \<Rightarrow> (Inl e, r) | Inr candidate \<Rightarrow> (Inr (), candidate))"

subsection \<open>Identifiers\<close>

lemma ServiceID_parts [simp]:
  "ServiceID_Slot (makeServiceID s g) = s" "ServiceID_Generation (makeServiceID s g) = g"
  by (rule bit_word_eqI; auto simp: ServiceID_Slot_def ServiceID_Generation_def makeServiceID_def bit_simps
      dest: bit_imp_le_length)+

lemma makeServiceID_parts [simp]: "makeServiceID (ServiceID_Slot i) (ServiceID_Generation i) = i"
  by (rule bit_word_eqI) (auto simp: ServiceID_Slot_def ServiceID_Generation_def makeServiceID_def bit_simps)

lemma ServiceID_eq_iff:
  "i = j \<longleftrightarrow> ServiceID_Slot i = ServiceID_Slot j \<and> ServiceID_Generation i = ServiceID_Generation j"
  by (metis makeServiceID_parts)

subsection \<open>The invariant\<close>

definition slots :: "Registry \<Rightarrow> u32 set" where
  "slots r = {s. 0 < s \<and> s < reg_nextSlot r}"

definition entry_ok :: "Registry \<Rightarrow> u32 \<Rightarrow> registryEntry \<Rightarrow> bool" where
  "entry_ok r s e \<longleftrightarrow> re_id e = makeServiceID s (generationOf r s) \<and> ObjectKind_Validate (re_kind e) = Inr () \<and>
     re_refs e \<noteq> 0"

definition registry_inv :: "Registry \<Rightarrow> bool" where
  "registry_inv r \<longleftrightarrow> reg_limit r \<noteq> 0 \<and> reg_nextSlot r \<noteq> 0 \<and> unat (reg_nextSlot r) \<le> unat (reg_limit r) + 1 \<and>
     dom (reg_generations r) = slots r \<and> (\<forall>s \<in> slots r. generationOf r s \<noteq> 0) \<and>
     dom (reg_entries r) \<subseteq> slots r \<and> (\<forall>s e. reg_entries r s = Some e \<longrightarrow> entry_ok r s e) \<and>
     reg_free r = sorted_list_of_set (slots r - dom (reg_entries r))"

lemma finite_words [simp]: "finite (A :: 'a::len word set)"
  by (rule finite_subset [OF subset_UNIV]) simp

lemma registry_free_set: "registry_inv r \<Longrightarrow> set (reg_free r) = slots r - dom (reg_entries r)"
  by (simp add: registry_inv_def)

lemma NewRegistry_inv: "registry_inv (NewRegistry limit)"
proof -
  have "slots (NewRegistry limit) = {}" by (auto simp: NewRegistry_def slots_def word_less_nat_alt)
  then show ?thesis
    by (simp add: registry_inv_def) (simp add: NewRegistry_def DefaultMaxObjects_def)
qed

lemma lookup_Inr:
  assumes "registry_inv r" "lookup i r = Inr e"
  shows "reg_entries r (ServiceID_Slot i) = Some e" "re_id e = i" "ServiceID_Slot i \<in> slots r"
    "ServiceID_Generation i = generationOf r (ServiceID_Slot i)" "entry_ok r (ServiceID_Slot i) e"
proof -
  show e: "reg_entries r (ServiceID_Slot i) = Some e" "re_id e = i"
    using assms(2) by (auto simp: lookup_def Let_def split: if_splits option.splits)
  show "ServiceID_Slot i \<in> slots r" using assms(1) e by (auto simp: registry_inv_def dom_def)
  show ok: "entry_ok r (ServiceID_Slot i) e" using assms(1) e by (simp add: registry_inv_def)
  then show "ServiceID_Generation i = generationOf r (ServiceID_Slot i)"
    using e(2) by (metis ServiceID_parts(2) entry_ok_def)
qed

lemma lookup_live:
  assumes "registry_inv r"
  shows "(\<exists>e. lookup i r = Inr e) \<longleftrightarrow>
    ServiceID_Slot i \<in> dom (reg_entries r) \<and> ServiceID_Generation i = generationOf r (ServiceID_Slot i)"
proof
  assume "\<exists>e. lookup i r = Inr e"
  then show "ServiceID_Slot i \<in> dom (reg_entries r) \<and> ServiceID_Generation i = generationOf r (ServiceID_Slot i)"
    using lookup_Inr [OF assms] by blast
next
  assume live: "ServiceID_Slot i \<in> dom (reg_entries r) \<and> ServiceID_Generation i = generationOf r (ServiceID_Slot i)"
  then obtain e where e: "reg_entries r (ServiceID_Slot i) = Some e" by auto
  have "re_id e = makeServiceID (ServiceID_Slot i) (generationOf r (ServiceID_Slot i))"
    using assms e by (simp add: registry_inv_def entry_ok_def)
  then have "re_id e = i" using live by (metis makeServiceID_parts)
  moreover have "ServiceID_Slot i \<in> slots r" "generationOf r (ServiceID_Slot i) \<noteq> 0"
    using assms e by (auto simp: registry_inv_def dom_def)
  then have "ServiceID_Valid i" using live by (auto simp: ServiceID_Valid_def slots_def)
  ultimately show "\<exists>e. lookup i r = Inr e" using e by (simp add: lookup_def)
qed

lemma setEntry_inv:
  assumes "registry_inv r" "lookup i r = Inr e" "re_id e' = i" "re_kind e' = re_kind e" "re_refs e' \<noteq> 0"
  shows "registry_inv (setEntry i e' r)"
proof -
  note l = lookup_Inr [OF assms(1,2)]
  have d: "dom (reg_entries (setEntry i e' r)) = dom (reg_entries r)"
    using l(1) by (auto simp: setEntry_def)
  have g: "slots (setEntry i e' r) = slots r" "generationOf (setEntry i e' r) = generationOf r"
    by (simp_all add: setEntry_def slots_def generationOf_def fun_eq_iff)
  have "entry_ok r (ServiceID_Slot i) e'"
    using l(4,5) assms(3-5) unfolding entry_ok_def by (metis makeServiceID_parts)
  then have "entry_ok (setEntry i e' r) s x" if "reg_entries (setEntry i e' r) s = Some x" for s x
    using assms(1) that g(2) by (auto simp: setEntry_def registry_inv_def entry_ok_def split: if_splits)
  then show ?thesis
    using assms(1) d g by (simp add: registry_inv_def) (simp add: setEntry_def)
qed

lemma insertFree_sorted:
  assumes "reg_free r = sorted_list_of_set A" "s \<notin> A"
  shows "insertFree s r = r\<lparr>reg_free := sorted_list_of_set (insert s A)\<rparr>"
proof -
  let ?xs = "reg_free r"
  let ?i = "Search (length ?xs) (\<lambda>i. s \<le> ?xs ! i)"
  have srt: "sorted ?xs" "s \<notin> set ?xs" using assms by simp_all
  have mono: "sorted_wrt (\<lambda>x y. s \<le> x \<longrightarrow> s \<le> y) ?xs"
    by (rule sorted_wrt_mono_rel [OF _ srt(1)]) auto
  have ins: "insertAt ?i s ?xs = insort s ?xs"
    unfolding insertAt_Search [OF mono] insort_split ..
  have "\<not> (?i < length ?xs \<and> ?xs ! ?i = s)" using srt(2) nth_mem by metis
  then show ?thesis using ins assms by (auto simp: insertFree_def Let_def)
qed

lemma removeEntry_inv:
  assumes "registry_inv r" "lookup i r = Inr e"
  shows "registry_inv (removeEntry i r)"
    and "reg_entries (removeEntry i r) = (reg_entries r)(ServiceID_Slot i := None)"
    and "generationOf (removeEntry i r) = generationOf r"
proof -
  let ?s = "ServiceID_Slot i"
  let ?r = "r\<lparr>reg_entries := (reg_entries r)(?s := None)\<rparr>"
  note l = lookup_Inr [OF assms]
  have "insert ?s (slots r - dom (reg_entries r)) = slots r - dom (reg_entries ?r)" using l by auto
  then have rem: "removeEntry i r = ?r\<lparr>reg_free := sorted_list_of_set (slots r - dom (reg_entries ?r))\<rparr>"
    unfolding removeEntry_def
    using insertFree_sorted [of ?r "slots r - dom (reg_entries r)" ?s] assms(1) l(1)
    by (simp add: registry_inv_def dom_def)
  have same: "slots (removeEntry i r) = slots r" "generationOf (removeEntry i r) = generationOf r"
    "reg_entries (removeEntry i r) = (reg_entries r)(?s := None)"
    by (simp_all add: rem slots_def generationOf_def fun_eq_iff)
  then show "reg_entries (removeEntry i r) = (reg_entries r)(?s := None)"
    "generationOf (removeEntry i r) = generationOf r" by simp_all
  have "entry_ok (removeEntry i r) s x" if "reg_entries (removeEntry i r) s = Some x" for s x
    using assms(1) that same by (auto simp: registry_inv_def entry_ok_def split: if_splits)
  then show "registry_inv (removeEntry i r)"
    using assms(1) same by (auto simp: registry_inv_def) (auto simp: rem)
qed

text \<open>What a successful creation does.\<close>

lemma Create_shape:
  assumes "Create owner kind r = (Inr i, r')"
  shows "ObjectKind_Validate kind = Inr () \<and> ServiceID_Generation i = generationOf r (ServiceID_Slot i) + 1 \<and>
    ServiceID_Generation i \<noteq> 0 \<and>
    (\<exists>r0. r' = r0\<lparr>reg_generations := (reg_generations r)(ServiceID_Slot i \<mapsto> ServiceID_Generation i),
        reg_entries := (reg_entries r)(ServiceID_Slot i \<mapsto>
          \<lparr>re_id = i, re_kind = kind, re_owner = owner, re_refs = 1\<rparr>)\<rparr> \<and>
      (case pickFree r of
         Some c \<Rightarrow> r0 = r\<lparr>reg_free := remove1 c (reg_free r)\<rparr> \<and> (c \<noteq> 0 \<longrightarrow> ServiceID_Slot i = c)
       | None \<Rightarrow> r0 = r\<lparr>reg_nextSlot := reg_nextSlot r + 1\<rparr> \<and> ServiceID_Slot i = reg_nextSlot r \<and>
           reg_nextSlot r \<noteq> NOT 0 \<and> reg_nextSlot r \<le> reg_limit r))"
  using assms
  by (auto simp: Create_def Let_def not_less split: sum.splits if_splits option.splits)

lemma Create_reuse_inv:
  assumes inv: "registry_inv r" and c: "c \<in> slots r - dom (reg_entries r)"
    and g: "g \<noteq> 0" and kind: "ObjectKind_Validate kind = Inr ()"
  shows "registry_inv (r\<lparr>reg_free := remove1 c (reg_free r), reg_generations := (reg_generations r)(c \<mapsto> g),
     reg_entries := (reg_entries r)(c \<mapsto> \<lparr>re_id = makeServiceID c g, re_kind = kind, re_owner = owner, re_refs = 1\<rparr>)\<rparr>)"
    (is "registry_inv ?r")
proof -
  have sl: "slots ?r = slots r" and gen: "generationOf ?r = (generationOf r)(c := g)"
    by (auto simp: slots_def generationOf_def)
  have "slots r - dom (reg_entries ?r) = slots r - dom (reg_entries r) - {c}" by auto
  then have free: "reg_free ?r = sorted_list_of_set (slots r - dom (reg_entries ?r))"
    using inv by (simp add: registry_inv_def sorted_list_of_set.sorted_key_list_of_set_remove)
  have "entry_ok ?r s x" if "reg_entries ?r s = Some x" for s x
    using that inv c kind unfolding entry_ok_def gen by (auto simp: registry_inv_def entry_ok_def split: if_splits)
  moreover have "dom (reg_generations ?r) = slots ?r" "dom (reg_entries ?r) \<subseteq> slots ?r"
    "\<forall>s \<in> slots ?r. generationOf ?r s \<noteq> 0"
    unfolding sl gen using inv c g by (auto simp: registry_inv_def)
  moreover have "reg_limit ?r \<noteq> 0 \<and> reg_nextSlot ?r \<noteq> 0 \<and> unat (reg_nextSlot ?r) \<le> unat (reg_limit ?r) + 1"
    using inv by (simp add: registry_inv_def)
  ultimately show ?thesis using free sl unfolding registry_inv_def by metis
qed

lemma Create_fresh_inv:
  assumes inv: "registry_inv r" and n: "reg_nextSlot r \<noteq> NOT 0" "reg_nextSlot r \<le> reg_limit r"
    and g: "g \<noteq> 0" and kind: "ObjectKind_Validate kind = Inr ()"
  defines "c \<equiv> reg_nextSlot r"
  shows "registry_inv (r\<lparr>reg_nextSlot := reg_nextSlot r + 1, reg_generations := (reg_generations r)(c \<mapsto> g),
     reg_entries := (reg_entries r)(c \<mapsto> \<lparr>re_id = makeServiceID c g, re_kind = kind, re_owner = owner, re_refs = 1\<rparr>)\<rparr>)"
    (is "registry_inv ?r")
proof -
  have "1 + c \<noteq> 0" using n(1) unfolding c_def by (metis add.commute add_eq_0_iff2 bit.compl_zero)
  then have u: "unat (c + 1) = unat c + 1" by (simp add: unatSuc add.commute)
  have c0: "c \<noteq> 0" using inv by (simp add: registry_inv_def c_def)
  have lt: "s < c + 1 \<longleftrightarrow> s < c \<or> s = c" for s :: u32
    unfolding word_less_nat_alt u word_unat_eq_iff by auto
  have "slots ?r = {s. 0 < s \<and> s < c + 1}" "slots r = {s. 0 < s \<and> s < c}" by (simp_all add: slots_def c_def)
  then have sl: "slots ?r = insert c (slots r)" using c0 unfolding lt by (auto simp: word_gt_0)
  have gen: "generationOf ?r = (generationOf r)(c := g)" by (auto simp: generationOf_def)
  have "slots ?r - dom (reg_entries ?r) = slots r - dom (reg_entries r)"
    unfolding sl by (auto simp: slots_def c_def)
  then have free: "reg_free ?r = sorted_list_of_set (slots ?r - dom (reg_entries ?r))"
    using inv by (simp add: registry_inv_def)
  have "c \<notin> dom (reg_entries r)" using inv by (auto simp: registry_inv_def slots_def c_def)
  then have "entry_ok ?r s x" if "reg_entries ?r s = Some x" for s x
    using that inv kind unfolding entry_ok_def gen by (auto simp: registry_inv_def entry_ok_def split: if_splits)
  moreover have "dom (reg_generations ?r) = slots ?r" "dom (reg_entries ?r) \<subseteq> slots ?r"
    "\<forall>s \<in> slots ?r. generationOf ?r s \<noteq> 0"
    unfolding sl gen using inv g by (auto simp: registry_inv_def)
  moreover have "reg_limit ?r \<noteq> 0 \<and> reg_nextSlot ?r \<noteq> 0 \<and> unat (reg_nextSlot ?r) \<le> unat (reg_limit ?r) + 1"
    using inv u n(2) unfolding c_def by (auto simp: registry_inv_def word_le_nat_alt word_unat_eq_iff)
  ultimately show ?thesis using free unfolding registry_inv_def by metis
qed

lemma Create_cases:
  assumes "registry_inv r" "Create owner kind r = (Inr i, r')"
  shows "ServiceID_Slot i \<notin> dom (reg_entries r)" "ServiceID_Generation i = generationOf r (ServiceID_Slot i) + 1"
    "ServiceID_Generation i \<noteq> 0"
    "reg_entries r' = (reg_entries r)(ServiceID_Slot i \<mapsto>
       \<lparr>re_id = i, re_kind = kind, re_owner = owner, re_refs = 1\<rparr>)"
    "generationOf r' = (generationOf r)(ServiceID_Slot i := ServiceID_Generation i)" "registry_inv r'"
proof -
  let ?s = "ServiceID_Slot i" and ?g = "ServiceID_Generation i"
  obtain r0 where kind: "ObjectKind_Validate kind = Inr ()" and g: "?g = generationOf r ?s + 1" "?g \<noteq> 0"
    and r': "r' = r0\<lparr>reg_generations := (reg_generations r)(?s \<mapsto> ?g), reg_entries := (reg_entries r)(?s \<mapsto>
          \<lparr>re_id = i, re_kind = kind, re_owner = owner, re_refs = 1\<rparr>)\<rparr>"
    and pick: "case pickFree r of
         Some c \<Rightarrow> r0 = r\<lparr>reg_free := remove1 c (reg_free r)\<rparr> \<and> (c \<noteq> 0 \<longrightarrow> ?s = c)
       | None \<Rightarrow> r0 = r\<lparr>reg_nextSlot := reg_nextSlot r + 1\<rparr> \<and> ?s = reg_nextSlot r \<and>
           reg_nextSlot r \<noteq> NOT 0 \<and> reg_nextSlot r \<le> reg_limit r"
    using Create_shape [OF assms(2)] by blast
  have i: "makeServiceID ?s ?g = i" by simp
  have "?s \<notin> dom (reg_entries r) \<and> registry_inv r'"
  proof (cases "pickFree r")
    case None
    then show ?thesis
      using pick Create_fresh_inv [OF assms(1) _ _ g(2) kind, of owner] i assms(1)
      by (auto simp: r' registry_inv_def slots_def)
  next
    case (Some c)
    then have c: "c \<in> slots r - dom (reg_entries r)"
      unfolding registry_free_set [OF assms(1), symmetric] by (auto simp: pickFree_def find_Some_iff)
    then have "c \<noteq> 0" by (auto simp: slots_def)
    then show ?thesis
      using pick Some c Create_reuse_inv [OF assms(1) c g(2) kind, of owner] i by (auto simp: r')
  qed
  then show "?s \<notin> dom (reg_entries r)" "registry_inv r'" by auto
  show "?g = generationOf r ?s + 1" "?g \<noteq> 0" by (rule g)+
  show "reg_entries r' = (reg_entries r)(?s \<mapsto> \<lparr>re_id = i, re_kind = kind, re_owner = owner, re_refs = 1\<rparr>)"
    by (simp add: r')
  show "generationOf r' = (generationOf r)(?s := ?g)" by (auto simp: r' generationOf_def)
qed

lemma Create_live:
  assumes "registry_inv r" "Create owner kind r = (Inr i, r')"
  shows "lookup i r' = Inr \<lparr>re_id = i, re_kind = kind, re_owner = owner, re_refs = 1\<rparr>"
proof -
  note c = Create_cases [OF assms]
  have "\<exists>e. lookup i r' = Inr e" unfolding lookup_live [OF c(6)] by (simp add: c(4,5))
  then obtain e where e: "lookup i r' = Inr e" ..
  from lookup_Inr(1) [OF c(6) e] e show ?thesis by (simp add: c(4))
qed

lemma Create_error: "Create owner kind r = (Inl e, r') \<Longrightarrow> r' = r"
  by (auto simp: Create_def Let_def split: sum.splits if_splits option.splits)

subsection \<open>Saved tables\<close>

lemma slots_list:
  "sorted_list_of_set (slots r) = map (\<lambda>i. of_nat (Suc i)) [0..<unat (reg_nextSlot r) - 1]"
proof -
  let ?n = "unat (reg_nextSlot r)"
  let ?xs = "map (\<lambda>i. of_nat (Suc i) :: u32) [0..<?n - 1]"
  have u: "unat (of_nat (Suc i) :: u32) = Suc i" if "i < ?n - 1" for i
    using that unsigned_less [of "reg_nextSlot r", where ?'a = nat] by (intro unat_of_nat_u32) simp
  have "sorted_wrt (<) ?xs"
    by (auto simp: sorted_wrt_map sorted_wrt_iff_nth_less word_less_nat_alt u simp del: of_nat_Suc)
  moreover have "set ?xs = slots r"
  proof (intro set_eqI iffI)
    fix s assume "s \<in> slots r"
    then have "s = of_nat (Suc (unat s - 1)) \<and> unat s - 1 < ?n - 1"
      by (auto simp: slots_def word_less_nat_alt simp del: of_nat_Suc)
    then show "s \<in> set ?xs" by (auto simp del: of_nat_Suc)
  qed (auto simp: slots_def word_less_nat_alt u simp del: of_nat_Suc)
  ultimately show ?thesis by (metis sorted_list_of_set.idem_if_sorted_distinct strict_sorted_iff)
qed

lemma loadGenerations_iff:
  assumes "k + length gs < 2 ^ 32" "p = of_nat k"
  shows "loadGenerations n k p gs m =
    (if map fst gs = map (\<lambda>i. of_nat (Suc (k + i))) [0..<length gs] \<and> (\<forall>x \<in> set gs. snd x \<noteq> 0 \<and> fst x < n)
     then Inr (m ++ map_of gs) else Inl ErrInvalidState)"
  using assms
proof (induction gs arbitrary: k p m)
  case (Cons x gs)
  obtain s g where x: "x = (s, g)" by (cases x)
  have u: "unat (of_nat (Suc k) :: u32) = Suc k" "unat (of_nat k :: u32) = k"
    using Cons.prems(1) by (simp_all add: unat_of_nat del: of_nat_Suc)
  then have gt: "(of_nat k :: u32) < of_nat (Suc k)" "(of_nat (Suc k) :: u32) \<noteq> 0"
    by (auto simp: word_less_nat_alt word_unat_eq_iff simp del: of_nat_Suc)
  have upt: "map (\<lambda>i. of_nat (Suc (k + i)) :: u32) [0..<length (x # gs)] =
      of_nat (Suc k) # map (\<lambda>i. of_nat (Suc (Suc k + i))) [0..<length gs]"
    by (simp add: map_upt_Suc del: upt_Suc of_nat_Suc)
  show ?case
  proof (cases "s = of_nat (Suc k) \<and> g \<noteq> 0 \<and> s < n")
    case True
    let ?keys = "map fst gs = map (\<lambda>i. of_nat (Suc (Suc k + i))) [0..<length gs]"
    let ?vals = "\<forall>x \<in> set gs. snd x \<noteq> 0 \<and> fst x < n"
    have "s \<notin> fst ` set gs" if ?keys
    proof -
      have "unat y \<noteq> Suc k" if "y \<in> set (map (\<lambda>i. of_nat (Suc (Suc k + i)) :: u32) [0..<length gs])" for y
        using that Cons.prems(1) by (auto simp: unat_of_nat simp del: of_nat_Suc)
      moreover have "unat s = Suc k" using True u(1) by simp
      moreover have "s \<in> fst ` set gs \<Longrightarrow> s \<in> set (map (\<lambda>i. of_nat (Suc (Suc k + i))) [0..<length gs])"
        using that by (metis list.set_map)
      ultimately show ?thesis by blast
    qed
    then have maps: "m(s \<mapsto> g) ++ map_of gs = m ++ map_of (x # gs)" if ?keys
      using that map_add_Cons [of s gs m g] unfolding x dom_map_of_conv_image_fst by blast
    have "loadGenerations n k p (x # gs) m = loadGenerations n (Suc k) s gs (m(s \<mapsto> g))"
      using True gt Cons.prems(2) unfolding x by auto
    also have "\<dots> = (if ?keys \<and> ?vals then Inr (m(s \<mapsto> g) ++ map_of gs) else Inl ErrInvalidState)"
      by (rule Cons.IH) (use True Cons.prems(1) in simp_all)
    also have "\<dots> = (if map fst (x # gs) = map (\<lambda>i. of_nat (Suc (k + i))) [0..<length (x # gs)] \<and>
        (\<forall>x \<in> set (x # gs). snd x \<noteq> 0 \<and> fst x < n) then Inr (m ++ map_of (x # gs)) else Inl ErrInvalidState)"
      using True maps unfolding upt by (intro if_cong) (auto simp: x simp del: of_nat_Suc)
    finally show ?thesis .
  next
    case False
    then have "loadGenerations n k p (x # gs) m = Inl ErrInvalidState"
      unfolding x by (auto simp: not_less add.commute)
    moreover have "\<not> (map fst (x # gs) = map (\<lambda>i. of_nat (Suc (k + i))) [0..<length (x # gs)] \<and>
        (\<forall>x \<in> set (x # gs). snd x \<noteq> 0 \<and> fst x < n))"
      unfolding upt using False by (auto simp: x simp del: of_nat_Suc)
    ultimately show ?thesis by (simp only: if_False)
  qed
qed simp

definition saved_ok :: "(u32 \<rightharpoonup> u32) \<Rightarrow> registryEntry \<Rightarrow> bool" where
  "saved_ok gens e \<longleftrightarrow> ServiceID_Valid (re_id e) \<and> re_refs e \<noteq> 0 \<and> ObjectKind_Validate (re_kind e) = Inr () \<and>
     gens (ServiceID_Slot (re_id e)) = Some (ServiceID_Generation (re_id e))"

abbreviation entrySlot :: "registryEntry \<Rightarrow> u32" where
  "entrySlot e \<equiv> ServiceID_Slot (re_id e)"

lemma loadEntries_iff:
  assumes "k = 0 \<longrightarrow> p = 0"
  shows "loadEntries gens k p es m =
    (if sorted_wrt (<) (p # map entrySlot es) \<and> list_all (saved_ok gens) es
     then Inr (m ++ map_of (map (\<lambda>e. (entrySlot e, e)) es)) else Inl ErrInvalidState)"
  using assms
proof (induction es arbitrary: k p m)
  case (Cons e es)
  show ?case
  proof (cases "saved_ok gens e \<and> p < entrySlot e")
    case True
    have step: "loadEntries gens k p (e # es) m = loadEntries gens (Suc k) (entrySlot e) es (m(entrySlot e \<mapsto> e))"
      using True by (auto simp: saved_ok_def)
    let ?sorted = "sorted_wrt (<) (entrySlot e # map entrySlot es)"
    have "entrySlot e \<notin> dom (map_of (map (\<lambda>e. (entrySlot e, e)) es))" if ?sorted
      using that by (auto simp: dom_map_of_conv_image_fst)
    then have maps: "m(entrySlot e \<mapsto> e) ++ map_of (map (\<lambda>e. (entrySlot e, e)) es) =
        m ++ map_of (map (\<lambda>e. (entrySlot e, e)) (e # es))" if ?sorted
      using that map_add_Cons [of "entrySlot e" "map (\<lambda>e. (entrySlot e, e)) es" m e] unfolding list.map by blast
    have srt: "sorted_wrt (<) (p # map entrySlot (e # es)) \<longleftrightarrow> ?sorted" using True by auto
    have "loadEntries gens k p (e # es) m =
        (if ?sorted \<and> list_all (saved_ok gens) es
         then Inr (m(entrySlot e \<mapsto> e) ++ map_of (map (\<lambda>e. (entrySlot e, e)) es)) else Inl ErrInvalidState)"
      unfolding step by (rule Cons.IH) simp
    also have "\<dots> = (if sorted_wrt (<) (p # map entrySlot (e # es)) \<and> list_all (saved_ok gens) (e # es)
         then Inr (m ++ map_of (map (\<lambda>e. (entrySlot e, e)) (e # es))) else Inl ErrInvalidState)"
      unfolding srt using True maps by (intro if_cong) auto
    finally show ?thesis .
  next
    case False
    have "0 < entrySlot e" if "saved_ok gens e" using that by (simp add: saved_ok_def ServiceID_Valid_def word_gt_0)
    then show ?thesis using False Cons.prems by (auto simp: saved_ok_def not_less word_gt_0)
  qed
qed simp

lemma snapshot_generations:
  assumes "registry_inv r"
  shows "loadGenerations (reg_nextSlot r) 0 0 (entriesOf (reg_generations r)) Map.empty = Inr (reg_generations r)"
    and "length (entriesOf (reg_generations r)) = unat (reg_nextSlot r) - 1"
proof -
  let ?gs = "entriesOf (reg_generations r)"
  have dom: "dom (reg_generations r) = slots r" using assms by (simp add: registry_inv_def)
  have keys: "map fst ?gs = map (\<lambda>i. of_nat (Suc i)) [0..<unat (reg_nextSlot r) - 1]"
    by (simp only: entriesOf_keys dom slots_list)
  from arg_cong [OF this, of length] show len: "length ?gs = unat (reg_nextSlot r) - 1"
    unfolding length_map by simp
  have val: "snd x \<noteq> 0 \<and> fst x < reg_nextSlot r" if "x \<in> set ?gs" for x
  proof -
    have "reg_generations r (fst x) = Some (snd x)"
      using that set_entriesOf [of "reg_generations r" "fst x" "snd x"] by simp
    moreover from this have "fst x \<in> slots r" using dom by auto
    ultimately show ?thesis using assms by (auto simp: registry_inv_def generationOf_def slots_def)
  qed
  have "length ?gs < 2 ^ 32" using len unsigned_less [of "reg_nextSlot r", where ?'a = nat] by simp
  then show "loadGenerations (reg_nextSlot r) 0 0 ?gs Map.empty = Inr (reg_generations r)"
    using keys len val by (simp add: loadGenerations_iff map_of_entriesOf del: of_nat_Suc)
qed

lemma snapshot_entries:
  assumes "registry_inv r"
  defines "es \<equiv> map snd (entriesOf (reg_entries r))"
  shows "loadEntries (reg_generations r) 0 0 es Map.empty = Inr (reg_entries r)"
    and "length es \<le> unat (reg_limit r)"
proof -
  have mem: "reg_entries r k = Some e \<and> entrySlot e = k" if "(k, e) \<in> set (entriesOf (reg_entries r))" for k e
    using that assms(1) by (auto simp: set_entriesOf registry_inv_def entry_ok_def)
  have pairs: "map (\<lambda>e. (entrySlot e, e)) es = entriesOf (reg_entries r)"
    unfolding es_def map_map by (rule map_idI) (use mem in force)
  have keys: "map entrySlot es = sorted_list_of_set (dom (reg_entries r))"
    using arg_cong [OF pairs, of "map fst"] by (simp add: comp_def)
  have pos: "0 < s" if "s \<in> dom (reg_entries r)" for s
    using that assms(1) by (auto simp: registry_inv_def slots_def)
  have "saved_ok (reg_generations r) e" if "e \<in> set es" for e
  proof -
    obtain k where "(k, e) \<in> set (entriesOf (reg_entries r))" using \<open>e \<in> set es\<close> by (auto simp: es_def)
    then have e: "reg_entries r k = Some e" "entrySlot e = k" using mem by auto
    have k: "k \<in> slots r" "entry_ok r k e" using assms(1) e by (auto simp: registry_inv_def dom_def)
    then have "reg_generations r k = Some (generationOf r k)" "generationOf r k \<noteq> 0"
      using assms(1) by (auto simp: registry_inv_def generationOf_def dom_def set_eq_iff split: option.splits)
    then show ?thesis using k e(2) by (auto simp: saved_ok_def entry_ok_def ServiceID_Valid_def slots_def)
  qed
  then show "loadEntries (reg_generations r) 0 0 es Map.empty = Inr (reg_entries r)"
    using pos unfolding loadEntries_iff [OF impI [OF refl]] keys pairs
    by (simp add: list_all_iff map_of_entriesOf strict_sorted_iff)
  have "card (dom (reg_entries r)) \<le> card (slots r)" using assms(1) by (intro card_mono) (auto simp: registry_inv_def)
  also have "card (slots r) = unat (reg_nextSlot r) - 1"
    using arg_cong [OF slots_list [of r], of length] by simp
  finally show "length es \<le> unat (reg_limit r)"
    using assms(1) unfolding es_def length_map length_entriesOf registry_inv_def by linarith
qed

lemma registryFromState_inv:
  assumes "registryFromState st = Inr r"
  shows "registry_inv r"
proof -
  let ?gs = "rs_Generations st" and ?es = "rs_Entries st" and ?n = "rs_NextSlot st"
  let ?pairs = "map (\<lambda>e. (entrySlot e, e)) ?es"
  have st: "rs_Limit st \<noteq> 0" "?n \<noteq> 0" "unat ?n \<le> unat (rs_Limit st) + 1" "length ?gs = unat ?n - 1"
    using assms by (auto simp: registryFromState_def split: if_splits)
  have small: "0 + length ?gs < 2 ^ 32" using st(4) unsigned_less [of ?n, where ?'a = nat] by simp
  have zero: "(0 :: u32) = of_nat 0" by simp
  have load: "map fst ?gs = map (\<lambda>i. of_nat (Suc (0 + i))) [0..<length ?gs]" "\<forall>x \<in> set ?gs. snd x \<noteq> 0 \<and> fst x < ?n"
    "sorted_wrt (<) (0 # map entrySlot ?es)" "list_all (saved_ok (map_of ?gs)) ?es"
    and r: "r = \<lparr>reg_limit = rs_Limit st, reg_nextSlot = ?n, reg_generations = map_of ?gs,
       reg_entries = map_of ?pairs, reg_free = filter (\<lambda>slot. map_of ?pairs slot = None) (map fst ?gs)\<rparr>"
    using assms unfolding registryFromState_def loadGenerations_iff [OF small zero]
      loadEntries_iff [OF impI [OF refl]]
    by (auto split: if_splits simp del: of_nat_Suc)
  have keys: "map fst ?gs = sorted_list_of_set (slots r)" unfolding slots_list using load(1) st(4) r by simp
  then have dom: "dom (map_of ?gs) = slots r" by (simp add: dom_map_of_conv_image_fst flip: list.set_map)
  have gen: "generationOf r s = g \<and> g \<noteq> 0 \<and> s \<in> slots r" if "map_of ?gs s = Some g" for s g
  proof -
    have "g \<noteq> 0" using load(2) map_of_SomeD [OF that] by force
    moreover have "s \<in> slots r" unfolding dom [symmetric] using that by blast
    ultimately show ?thesis using that by (simp add: generationOf_def r)
  qed
  have entry: "entry_ok r s e \<and> s \<in> slots r" if "map_of ?pairs s = Some e" for s e
  proof -
    have "e \<in> set ?es" "s = entrySlot e" using map_of_SomeD [OF that] by auto
    then show ?thesis
      using load(4) gen [of "entrySlot e" "ServiceID_Generation (re_id e)"]
      by (auto simp: list_all_iff saved_ok_def entry_ok_def)
  qed
  have "reg_free r = filter (\<lambda>slot. reg_entries r slot = None) (map fst ?gs)" by (simp add: r)
  then have "reg_free r = sorted_list_of_set (slots r - dom (reg_entries r))"
    unfolding keys by (simp add: filter_sorted_list_of_set dom_def set_diff_eq)
  moreover have "generationOf r s \<noteq> 0" if "s \<in> slots r" for s using that gen dom by (metis domD)
  ultimately show ?thesis
    using st entry dom unfolding registry_inv_def by (auto simp: r)
qed

text \<open>An accepted state is the snapshot of the registry it becomes.\<close>

lemma registryFromState_snapshot:
  assumes "registryFromState st = Inr r"
  shows "Registry_Snapshot r = st"
proof -
  let ?gs = "rs_Generations st" and ?es = "rs_Entries st"
  let ?pairs = "map (\<lambda>e. (entrySlot e, e)) ?es"
  have "length ?gs = unat (rs_NextSlot st) - 1" using assms by (auto simp: registryFromState_def split: if_splits)
  then have small: "0 + length ?gs < 2 ^ 32" using unsigned_less [of "rs_NextSlot st", where ?'a = nat] by simp
  have zero: "(0 :: u32) = of_nat 0" by simp
  have load: "map fst ?gs = map (\<lambda>i. of_nat (Suc (0 + i))) [0..<length ?gs]" "sorted_wrt (<) (0 # map entrySlot ?es)"
    and r: "reg_limit r = rs_Limit st" "reg_nextSlot r = rs_NextSlot st" "reg_generations r = map_of ?gs" "reg_entries r = map_of ?pairs"
    using assms unfolding registryFromState_def loadGenerations_iff [OF small zero] loadEntries_iff [OF impI [OF refl]]
    by (auto split: if_splits simp del: of_nat_Suc)
  have "unat (of_nat (Suc i) :: u32) = Suc i" if "i < length ?gs" for i
    using that small by (simp add: unat_of_nat del: of_nat_Suc)
  then have "sorted_wrt (<) (map fst ?gs)" unfolding load(1)
    by (auto simp: sorted_wrt_map sorted_wrt_iff_nth_less word_less_nat_alt simp del: of_nat_Suc)
  then have gens: "entriesOf (map_of ?gs) = ?gs" by (rule entriesOf_map_of)
  have "sorted_wrt (<) (map fst ?pairs)" using load(2) by (simp add: comp_def)
  then have "entriesOf (map_of ?pairs) = ?pairs" by (rule entriesOf_map_of)
  then have "map snd (entriesOf (map_of ?pairs)) = ?es" by (simp add: comp_def)
  then show ?thesis using gens by (simp add: Registry_Snapshot_def r)
qed

lemma snapshot_loads:
  assumes inv: "registry_inv r"
  shows "registryFromState (Registry_Snapshot r) = Inr r"
proof -
  note g = snapshot_generations [OF inv] and e = snapshot_entries [OF inv]
  have "filter (\<lambda>slot. reg_entries r slot = None) (map fst (entriesOf (reg_generations r))) = reg_free r"
    using inv by (simp add: registry_inv_def filter_sorted_list_of_set dom_def set_diff_eq)
  then show ?thesis using g e inv by (auto simp: registryFromState_def Registry_Snapshot_def registry_inv_def)
qed

lemma registryFromState_error:
  assumes "registryFromState st = Inl e"
  shows "e = ErrInvalidState"
proof -
  have "loadGenerations n k p gs m = Inl e' \<Longrightarrow> e' = ErrInvalidState" for n k p gs m e'
    by (induction n k p gs m rule: loadGenerations.induct) (auto split: if_splits)
  moreover have "loadEntries gens k p es m = Inl e' \<Longrightarrow> e' = ErrInvalidState" for gens k p es m e'
    by (induction gens k p es m rule: loadEntries.induct) (auto split: if_splits)
  ultimately show ?thesis using assms by (auto simp: registryFromState_def split: if_splits sum.splits)
qed

text \<open>What a saved table says of an identifier.\<close>

definition savedGeneration :: "u32 \<Rightarrow> RegistryState \<Rightarrow> u32" where
  "savedGeneration slot st = (case map_of (rs_Generations st) slot of None \<Rightarrow> 0 | Some g \<Rightarrow> g)"

definition savedLive :: "ServiceID \<Rightarrow> RegistryState \<Rightarrow> bool" where
  "savedLive i st \<longleftrightarrow> i \<in> re_id ` set (rs_Entries st)"

lemma registryFromState_tables:
  assumes "registryFromState st = Inr r"
  shows "generationOf r slot = savedGeneration slot st" "(\<exists>e. lookup i r = Inr e) \<longleftrightarrow> savedLive i st"
proof -
  note inv = registryFromState_inv [OF assms] and st = registryFromState_snapshot [OF assms, symmetric]
  have "savedGeneration slot st = (case reg_generations r slot of None \<Rightarrow> 0 | Some g \<Rightarrow> g)"
    unfolding st by (simp add: savedGeneration_def Registry_Snapshot_def map_of_entriesOf)
  then show "generationOf r slot = savedGeneration slot st" by (simp add: generationOf_def)
  have "set (rs_Entries (Registry_Snapshot r)) = snd ` {(s, e). reg_entries r s = Some e}"
    using set_entriesOf [of "reg_entries r"] by (auto simp: Registry_Snapshot_def image_iff)
  then have entries: "set (rs_Entries st) = ran (reg_entries r)"
    unfolding st [symmetric] by (auto simp: ran_def image_iff)
  show "(\<exists>e. lookup i r = Inr e) \<longleftrightarrow> savedLive i st"
  proof
    assume "\<exists>e. lookup i r = Inr e"
    then show "savedLive i st"
      using lookup_Inr(1,2) [OF inv, of i] unfolding savedLive_def entries ran_def by blast
  next
    assume "savedLive i st"
    then obtain s e where e: "reg_entries r s = Some e" "re_id e = i" unfolding savedLive_def entries ran_def by blast
    then have "i = makeServiceID s (generationOf r s)" using inv by (auto simp: registry_inv_def entry_ok_def)
    then show "\<exists>e. lookup i r = Inr e" unfolding lookup_live [OF inv] using e(1) by auto
  qed
qed

subsection \<open>Sequences of operations\<close>

datatype registryOp =
    OpCreate OwnerID ObjectKind
  | OpTransfer ServiceID OwnerID OwnerID
  | OpRetain ServiceID
  | OpRelease ServiceID
  | OpDestroy ServiceID OwnerID ObjectKind
  | OpRestore RegistryState

fun registryStep :: "registryOp \<Rightarrow> Registry \<Rightarrow> Registry" where
  "registryStep (OpCreate owner kind) r = snd (Create owner kind r)"
| "registryStep (OpTransfer i f t) r = snd (Transfer i f t r)"
| "registryStep (OpRetain i) r = snd (Retain i r)"
| "registryStep (OpRelease i) r = snd (Registry_Release i r)"
| "registryStep (OpDestroy i owner kind) r = snd (Registry_Destroy i owner kind r)"
| "registryStep (OpRestore st) r = snd (Registry_Restore st r)"

text \<open>
  Every operation but a creation and a restore either rewrites the entry of a live identifier or
  removes it, and leaves the generations alone.
\<close>

lemma registryStep_cases:
  assumes "registry_inv r"
  obtains (create) i r' owner kind where "a = OpCreate owner kind" "Create owner kind r = (Inr i, r')" "registryStep a r = r'"
  | (same) "registryStep a r = r"
  | (update) i e e' where "lookup i r = Inr e" "registryStep a r = setEntry i e' r" "re_id e' = i"
      "re_kind e' = re_kind e" "re_refs e' \<noteq> 0"
  | (remove) i e where "lookup i r = Inr e" "registryStep a r = removeEntry i r"
  | (restore) st where "a = OpRestore st" "registryFromState st = Inr (registryStep a r)"
proof (cases a)
  case (OpRestore st)
  then show ?thesis using same restore by (cases "registryFromState st") (auto simp: Registry_Restore_def)
next
  case (OpCreate owner kind)
  then show ?thesis
  proof (cases "Create owner kind r")
    case (Pair out r')
    then show ?thesis using OpCreate Create_error [of owner kind r _ r'] create same by (cases out) auto
  qed
next
  case (OpTransfer i f t)
  then show ?thesis
  proof (cases "lookup i r")
    case (Inr e)
    then show ?thesis
      using OpTransfer Inr same update [OF Inr, of "e\<lparr>re_owner := t\<rparr>"] lookup_Inr [OF assms Inr]
      by (cases "re_owner e = f") (auto simp: Transfer_def entry_ok_def)
  qed (use OpTransfer same in \<open>auto simp: Transfer_def\<close>)
next
  case (OpRetain i)
  then show ?thesis
  proof (cases "lookup i r")
    case (Inr e)
    have "re_refs e + 1 \<noteq> 0" if "re_refs e \<noteq> NOT 0" using that by (simp add: add_eq_0_iff2)
    then show ?thesis
      using OpRetain Inr same update [OF Inr, of "e\<lparr>re_refs := re_refs e + 1\<rparr>"] lookup_Inr [OF assms Inr]
      by (cases "re_refs e = NOT 0") (auto simp: Retain_def)
  qed (use OpRetain same in \<open>auto simp: Retain_def\<close>)
next
  case (OpRelease i)
  then show ?thesis
  proof (cases "lookup i r")
    case (Inr e)
    then show ?thesis
      using OpRelease Inr remove [OF Inr] update [OF Inr, of "e\<lparr>re_refs := re_refs e - 1\<rparr>"] lookup_Inr [OF assms Inr]
      by (cases "re_refs e = 1") (auto simp: Registry_Release_def Let_def)
  qed (use OpRelease same in \<open>auto simp: Registry_Release_def\<close>)
next
  case (OpDestroy i owner kind)
  then show ?thesis
  proof (cases "Validate i owner kind r")
    case (Inr u)
    then obtain e where "lookup i r = Inr e" by (auto simp: Validate_def split: sum.splits if_splits)
    then show ?thesis using OpDestroy remove Inr by (auto simp: Registry_Destroy_def)
  qed (use OpDestroy same in \<open>auto simp: Registry_Destroy_def\<close>)
qed

lemma registryStep_inv:
  assumes "registry_inv r"
  shows "registry_inv (registryStep a r)"
  using assms
  by (cases rule: registryStep_cases [of r a])
    (use assms in \<open>auto simp: setEntry_inv removeEntry_inv dest: Create_cases(6) registryFromState_inv\<close>)

interpretation registry: scripted registry_inv registryStep
  by unfold_locales (rule registryStep_inv)

text \<open>
  An identifier is spent in a state when its slot has reached its generation and it is not
  live: no later operation but a restore makes it live again.
\<close>

definition spent :: "ServiceID \<Rightarrow> Registry \<Rightarrow> bool" where
  "spent i r \<longleftrightarrow> ServiceID_Generation i \<le> generationOf r (ServiceID_Slot i) \<and> (\<nexists>e. lookup i r = Inr e)"

definition issued :: "ServiceID \<Rightarrow> Registry \<Rightarrow> bool" where
  "issued i r \<longleftrightarrow> ServiceID_Generation i \<le> generationOf r (ServiceID_Slot i)"

lemma word_succ_le: "(g :: u32) + 1 \<noteq> 0 \<Longrightarrow> x \<le> g \<Longrightarrow> x \<le> g + 1 \<and> x \<noteq> g + 1"
  using unatSuc [of g] by (auto simp: word_le_nat_alt add.commute word_unat_eq_iff)

text \<open>
  Restores replace the whole table.  A step forgets an identifier when it restores a state saved
  before the identifier was handed out, and revives it when it restores one that lists it.
\<close>

fun forgets :: "ServiceID \<Rightarrow> registryOp \<Rightarrow> bool" where
  "forgets i (OpRestore st) \<longleftrightarrow> savedGeneration (ServiceID_Slot i) st < ServiceID_Generation i"
| "forgets i _ \<longleftrightarrow> False"

fun revives :: "ServiceID \<Rightarrow> registryOp \<Rightarrow> bool" where
  "revives i (OpRestore st) \<longleftrightarrow> savedLive i st"
| "revives i _ \<longleftrightarrow> False"

lemma issued_step:
  assumes "registry_inv r" "issued i r" "\<not> forgets i a"
  shows "issued i (registryStep a r)"
  using assms(1)
proof (cases rule: registryStep_cases [of r a])
  case (create j r' owner kind)
  note c = Create_cases [OF assms(1) create(2)]
  show ?thesis
    using assms(2) c(2,3) word_succ_le [of "generationOf r (ServiceID_Slot i)" "ServiceID_Generation i"]
    unfolding issued_def create(3) c(5) by auto
next
  case (update j e e')
  then show ?thesis using assms(2) by (simp add: issued_def setEntry_def generationOf_def)
next
  case (remove j e)
  then show ?thesis using assms(2) by (simp add: issued_def removeEntry_inv(3) [OF assms(1)])
next
  case (restore st)
  then show ?thesis
    using assms(3) registryFromState_tables(1) [OF restore(2)] by (simp add: issued_def not_less)
qed (use assms(2) in simp)

lemma spent_step:
  assumes "registry_inv r" "spent i r" "\<not> forgets i a" "\<not> revives i a"
  shows "spent i (registryStep a r)"
proof -
  have inv: "registry_inv (registryStep a r)" by (rule registryStep_inv [OF assms(1)])
  have iss: "issued i (registryStep a r)" using assms(1-3) issued_step by (simp add: spent_def issued_def)
  have dead: "\<not> (ServiceID_Slot i \<in> dom (reg_entries r) \<and> ServiceID_Generation i = generationOf r (ServiceID_Slot i))"
    and old: "ServiceID_Generation i \<le> generationOf r (ServiceID_Slot i)"
    using assms(2) unfolding spent_def lookup_live [OF assms(1)] by auto
  from assms(1) have "\<not> (ServiceID_Slot i \<in> dom (reg_entries (registryStep a r)) \<and>
      ServiceID_Generation i = generationOf (registryStep a r) (ServiceID_Slot i))"
  proof (cases rule: registryStep_cases [of r a])
    case (create j r' owner kind)
    note c = Create_cases [OF assms(1) create(2)]
    show ?thesis
      using dead old c(2,3) word_succ_le [of "generationOf r (ServiceID_Slot i)" "ServiceID_Generation i"]
      unfolding create(3) c(4,5) by auto
  next
    case (update j e e')
    then show ?thesis
      using dead lookup_Inr(1) [OF assms(1) update(1)] by (auto simp: setEntry_def generationOf_def)
  next
    case (remove j e)
    then show ?thesis
      using dead removeEntry_inv(2,3) [OF assms(1) remove(1)] by auto
  next
    case (restore st)
    then show ?thesis
      using assms(4) registryFromState_tables(2) [OF restore(2), of i] unfolding lookup_live [OF inv] by simp
  qed (use dead in simp)
  then show ?thesis using iss unfolding spent_def lookup_live [OF inv] issued_def by blast
qed

lemma script_issued:
  "registry_inv r \<Longrightarrow> issued i r \<Longrightarrow> \<forall>a \<in> set script. \<not> forgets i a \<Longrightarrow> issued i (fold registryStep script r)"
  by (induction script arbitrary: r) (simp_all add: issued_step registryStep_inv)

lemma script_spent:
  "registry_inv r \<Longrightarrow> spent i r \<Longrightarrow> \<forall>a \<in> set script. \<not> forgets i a \<and> \<not> revives i a \<Longrightarrow>
     spent i (fold registryStep script r)"
  by (induction script arbitrary: r) (simp_all add: spent_step registryStep_inv)

lemma Create_not_issued:
  assumes "registry_inv r" "Create owner kind r = (Inr i, r')"
  shows "\<not> issued i r" "issued i r'"
  using Create_cases(2,3,5) [OF assms] word_succ_le [of "generationOf r (ServiceID_Slot i)" "ServiceID_Generation i"]
  by (auto simp: issued_def)

text \<open>
  C16. Identifiers are never reused except through a restore.  An identifier that \<open>Create\<close> hands
  out is live at once with its owner, its kind and one reference.  Take any sequence of
  operations, restores of arbitrary states included.  As long as no restore goes back to a
  generation from before the identifier was handed out, no creation answers it again, even after
  its slot has been recycled; and once it has been released or destroyed, it stays invalid, every
  later use being an error, as long as no restore goes back like that or restores a state that
  lists it.  A restore is the one exception: after one that is accepted, exactly the identifiers
  its state lists are live.
\<close>

theorem registry_ids_never_reused:
  assumes "registry_inv r" and "Create owner kind r = (Inr i, r1)"
    and "fold registryStep s1 r1 = r2" and "fold registryStep s2 r2 = r3"
  shows "lookup i r1 = Inr \<lparr>re_id = i, re_kind = kind, re_owner = owner, re_refs = 1\<rparr> \<and>
    ((\<forall>a \<in> set s1. \<not> forgets i a) \<longrightarrow> (\<forall>owner' kind' j r'. Create owner' kind' r2 = (Inr j, r') \<longrightarrow> j \<noteq> i)) \<and>
    ((\<forall>a \<in> set s1. \<not> forgets i a) \<and> (\<forall>a \<in> set s2. \<not> forgets i a \<and> \<not> revives i a) \<longrightarrow>
      (\<forall>e. lookup i r2 = Inl e \<longrightarrow> (\<exists>e'. lookup i r3 = Inl e'))) \<and>
    (\<forall>st r'. Registry_Restore st r3 = (Inr (), r') \<longrightarrow> (\<forall>j. (\<exists>e. lookup j r' = Inr e) \<longleftrightarrow> savedLive j st))"
proof (intro conjI allI impI)
  note c = Create_cases [OF assms(1,2)]
  have inv2: "registry_inv r2" using registry.script_inv [OF c(6), of s1] assms(3) by simp
  have iss: "issued i r2" if "\<forall>a \<in> set s1. \<not> forgets i a"
    using script_issued [OF c(6) Create_not_issued(2) [OF assms(1,2)] that] assms(3) by simp
  show "lookup i r1 = Inr \<lparr>re_id = i, re_kind = kind, re_owner = owner, re_refs = 1\<rparr>"
    by (rule Create_live [OF assms(1,2)])
  show "j \<noteq> i" if "\<forall>a \<in> set s1. \<not> forgets i a" "Create owner' kind' r2 = (Inr j, r')" for owner' kind' j r'
    using Create_not_issued(1) [OF inv2 that(2)] iss [OF that(1)] by auto
  show "\<exists>e'. lookup i r3 = Inl e'"
    if kept: "(\<forall>a \<in> set s1. \<not> forgets i a) \<and> (\<forall>a \<in> set s2. \<not> forgets i a \<and> \<not> revives i a)" and e: "lookup i r2 = Inl e" for e
  proof -
    have "spent i r2" using e iss kept by (simp add: spent_def issued_def)
    from script_spent [OF inv2 this conjunct2 [OF kept]] show ?thesis
      unfolding assms(4) by (cases "lookup i r3") (auto simp: spent_def)
  qed
  show "(\<exists>e. lookup j r' = Inr e) \<longleftrightarrow> savedLive j st" if "Registry_Restore st r3 = (Inr (), r')" for st r' j
    using registryFromState_tables(2) [of st r' j] that by (auto simp: Registry_Restore_def split: sum.splits)
qed

theorem registry_ids_never_reused_witness:
  "\<exists>i r1 r2. Create 7 KindTimer (NewRegistry 4) = (Inr i, r1) \<and>
     registryStep (OpDestroy i 7 KindTimer) r1 = r2 \<and> (\<exists>e. lookup i r2 = Inl e) \<and>
     (\<exists>j r3. Create 7 KindTimer r2 = (Inr j, r3) \<and> j \<noteq> i \<and> (\<exists>e. lookup i r3 = Inl e))"
proof -
  let ?r = "NewRegistry 4" and ?i = "makeServiceID 1 1" and ?j = "makeServiceID 1 2"
  have k: "ObjectKind_Validate KindTimer = Inr ()"
    by (simp add: ObjectKind_Validate_def KindTimer_def isSpace_def)
  let ?r1 = "\<lparr>reg_limit = 4, reg_nextSlot = 2, reg_generations = [1 \<mapsto> 1],
     reg_entries = [1 \<mapsto> \<lparr>re_id = ?i, re_kind = KindTimer, re_owner = 7, re_refs = 1\<rparr>], reg_free = []\<rparr>"
  have c1: "Create 7 KindTimer ?r = (Inr ?i, ?r1)"
    by (simp add: Create_def k NewRegistry_def entryCount_def pickFree_def generationOf_def Let_def)
  have "Validate ?i 7 KindTimer ?r1 = Inr ()"
    by (simp add: Validate_def lookup_def ServiceID_Valid_def)
  then have r2: "registryStep (OpDestroy ?i 7 KindTimer) ?r1 =
      ?r1\<lparr>reg_entries := Map.empty, reg_free := [1]\<rparr>" (is "_ = ?r2")
    by (simp add: Registry_Destroy_def removeEntry_def insertFree_def Search_def Search_between_done insertAt_def Let_def)
  have dead: "lookup ?i ?r2 = Inl ErrNotFound"
    by (simp add: lookup_def ServiceID_Valid_def generationOf_def)
  obtain r3 where c2: "Create 7 KindTimer ?r2 = (Inr ?j, r3)"
    by (simp add: Create_def k entryCount_def pickFree_def generationOf_def Let_def)
  then have r3: "registryStep (OpCreate 7 KindTimer) ?r2 = r3" by simp
  have "\<exists>e. lookup ?i r3 = Inl e" "?j \<noteq> ?i"
    using registry_ids_never_reused [OF NewRegistry_inv c1, of "[OpDestroy ?i 7 KindTimer]" ?r2 "[OpCreate 7 KindTimer]" r3]
      r2 r3 dead c2 by auto
  then show ?thesis using c1 r2 dead c2 by metis
qed

subsection \<open>Snapshots round trip\<close>

text \<open>
  C34. Saved registries are exactly what a restore accepts.  Restoring the snapshot of a
  consistent registry into any registry gives that registry, with the free list rebuilt from the
  tables.  Whatever state is accepted is the snapshot of the consistent registry it becomes: its
  generations cover the slots in order, its entries ascend without a duplicate, each with the
  generation of its slot.  A state that is no snapshot of a consistent registry is refused with
  the error for an invalid state and changes nothing.
\<close>

theorem registry_snapshot_roundtrip:
  "(registry_inv r \<longrightarrow> Registry_Restore (Registry_Snapshot r) r0 = (Inr (), r)) \<and>
   (case Registry_Restore st r0 of
      (Inl e, r') \<Rightarrow> e = ErrInvalidState \<and> r' = r0 \<and> (\<nexists>c. registry_inv c \<and> Registry_Snapshot c = st)
    | (Inr _, r') \<Rightarrow> registry_inv r' \<and> Registry_Snapshot r' = st)"
proof (intro conjI impI)
  show "registry_inv r \<Longrightarrow> Registry_Restore (Registry_Snapshot r) r0 = (Inr (), r)"
    by (simp add: Registry_Restore_def snapshot_loads)
  show "case Registry_Restore st r0 of
      (Inl e, r') \<Rightarrow> e = ErrInvalidState \<and> r' = r0 \<and> (\<nexists>c. registry_inv c \<and> Registry_Snapshot c = st)
    | (Inr _, r') \<Rightarrow> registry_inv r' \<and> Registry_Snapshot r' = st"
  proof (cases "registryFromState st")
    case (Inl e)
    then show ?thesis
      using registryFromState_error [OF Inl] snapshot_loads by (force simp: Registry_Restore_def)
  next
    case (Inr r')
    then show ?thesis
      using registryFromState_inv [OF Inr] registryFromState_snapshot [OF Inr] by (simp add: Registry_Restore_def)
  qed
qed

theorem registry_snapshot_roundtrip_witness:
  "\<exists>i r. Create 7 KindTimer (NewRegistry 4) = (Inr i, r) \<and>
     Registry_Restore (Registry_Snapshot r) (NewRegistry 9) = (Inr (), r)"
proof -
  have k: "ObjectKind_Validate KindTimer = Inr ()"
    by (simp add: ObjectKind_Validate_def KindTimer_def isSpace_def)
  obtain i r where c: "Create 7 KindTimer (NewRegistry 4) = (Inr i, r)"
    by (simp add: Create_def k NewRegistry_def entryCount_def pickFree_def generationOf_def Let_def)
  have "registry_inv r" by (rule Create_cases(6) [OF NewRegistry_inv c])
  then show ?thesis using c registry_snapshot_roundtrip by blast
qed

end
