(* ===== verification/Runtime_Events.thy ===== *)
theory Runtime_Events
  imports Runtime_Registry "HOL-Library.Multiset"
begin

text \<open>
  The event bus, src/runtime/events.go: a bounded queue of guest-neutral events ordered by
  virtual time and, at equal times, by enqueue sequence.  Times are nanoseconds, the values
  of \<open>time.Duration\<close>, as integers; the code compares them but never adds them here.  Copies
  of payload bytes are values.
\<close>

subsection \<open>Events\<close>

datatype EventKind =
    EventInputPress | EventInputRelease | EventInputRepeat | EventTimer | EventRepaint
  | EventAudioComplete | EventNetworkReady | EventStorageComplete | EventSerialComplete
  | EventLifecycle | EventApplication | EventKindOther name

definition EventKind_Validate :: "EventKind \<Rightarrow> serviceError + unit" where
  "EventKind_Validate k = (case k of EventKindOther _ \<Rightarrow> Inl ErrInvalidArgument | _ \<Rightarrow> Inr ())"

record Event =
  ev_Sequence :: u64
  ev_At :: int
  ev_Kind :: EventKind
  ev_Owner :: OwnerID
  ev_ServiceID :: ServiceID
  ev_Control :: name
  ev_Name :: name
  ev_Value :: int
  ev_Data :: "u8 list"

definition Event_Validate :: "nat \<Rightarrow> Event \<Rightarrow> serviceError + unit" where
  "Event_Validate maxData e =
     (case EventKind_Validate (ev_Kind e) of
        Inl err \<Rightarrow> Inl err
      | Inr _ \<Rightarrow>
          if ev_At e < 0 \<or> 255 < length (ev_Control e) \<or> 255 < length (ev_Name e) \<or>
             hasNUL (ev_Control e) \<or> hasNUL (ev_Name e)
          then Inl ErrInvalidArgument
          else if maxData < length (ev_Data e) then Inl ErrLimitExceeded
          else Inr ())"

subsection \<open>The bus\<close>

record EventBus =
  eb_maxEvents :: u32
  eb_maxEventData :: u32
  eb_nextSequence :: u64
  eb_events :: "Event list"

definition DefaultMaxEvents :: u32 where "DefaultMaxEvents = 1024"
definition DefaultMaxEventData :: u32 where "DefaultMaxEventData = 0x10000"

definition NewEventBus :: "u32 \<Rightarrow> u32 \<Rightarrow> EventBus" where
  "NewEventBus maxEvents maxEventData =
     \<lparr>eb_maxEvents = (if maxEvents = 0 then DefaultMaxEvents else maxEvents),
      eb_maxEventData = (if maxEventData = 0 then DefaultMaxEventData else maxEventData),
      eb_nextSequence = 1, eb_events = []\<rparr>"

definition Enqueue :: "Event \<Rightarrow> EventBus \<Rightarrow> (serviceError + u64) \<times> EventBus" where
  "Enqueue event b =
     (case Event_Validate (unat (eb_maxEventData b)) event of
        Inl e \<Rightarrow> (Inl e, b)
      | Inr _ \<Rightarrow>
          if eb_maxEvents b \<le> of_nat (length (eb_events b)) then (Inl ErrLimitExceeded, b)
          else if eb_nextSequence b = 0 \<or> eb_nextSequence b = NOT 0 then (Inl ErrLimitExceeded, b)
          else
            let event = event\<lparr>ev_Sequence := eb_nextSequence b\<rparr>;
                b = b\<lparr>eb_nextSequence := eb_nextSequence b + 1\<rparr>;
                index = Search (length (eb_events b)) (\<lambda>i.
                  let current = eb_events b ! i in
                  ev_At event < ev_At current \<or>
                  ev_At current = ev_At event \<and> ev_Sequence event < ev_Sequence current)
            in (Inr (ev_Sequence event), b\<lparr>eb_events := insertAt index event (eb_events b)\<rparr>))"

definition HasPendingRepeat :: "OwnerID \<Rightarrow> name \<Rightarrow> EventBus \<Rightarrow> bool" where
  "HasPendingRepeat owner control b \<longleftrightarrow>
     (\<exists>e \<in> set (eb_events b). ev_Kind e = EventInputRepeat \<and> ev_Owner e = owner \<and> ev_Control e = control)"

text \<open>The removals keep the events that do not match, in order, and count the others.\<close>

definition dropEvents :: "(Event \<Rightarrow> bool) \<Rightarrow> EventBus \<Rightarrow> nat \<times> EventBus" where
  "dropEvents gone b =
     (length (filter gone (eb_events b)), b\<lparr>eb_events := filter (\<lambda>e. \<not> gone e) (eb_events b)\<rparr>)"

definition DropPendingLifecycle :: "OwnerID \<Rightarrow> EventBus \<Rightarrow> nat \<times> EventBus" where
  "DropPendingLifecycle owner b = dropEvents (\<lambda>e. ev_Kind e = EventLifecycle \<and> ev_Owner e = owner) b"

definition DropOwner :: "OwnerID \<Rightarrow> EventBus \<Rightarrow> nat \<times> EventBus" where
  "DropOwner owner b = dropEvents (\<lambda>e. ev_Owner e = owner) b"

definition RemoveService :: "ServiceID \<Rightarrow> EventBus \<Rightarrow> nat \<times> EventBus" where
  "RemoveService ident b = dropEvents (\<lambda>e. ev_ServiceID e = ident) b"

definition Peek :: "EventBus \<Rightarrow> Event option" where
  "Peek b = (case eb_events b of [] \<Rightarrow> None | e # _ \<Rightarrow> Some e)"

definition PopReady :: "int \<Rightarrow> EventBus \<Rightarrow> Event option \<times> EventBus" where
  "PopReady now b =
     (case eb_events b of
        [] \<Rightarrow> (None, b)
      | e # rest \<Rightarrow> if now < ev_At e then (None, b) else (Some e, b\<lparr>eb_events := rest\<rparr>))"

subsection \<open>Snapshots\<close>

text \<open>A snapshot has the fields of the bus; \<open>SnapshotInto\<close> differs in storage only.\<close>

type_synonym EventBusState = EventBus

definition EventBus_Snapshot :: "EventBus \<Rightarrow> EventBusState" where
  "EventBus_Snapshot b = b"

fun eventsValid :: "EventBusState \<Rightarrow> Event option \<Rightarrow> u64 list \<Rightarrow> Event list \<Rightarrow> bool" where
  "eventsValid st previous seen [] \<longleftrightarrow> True"
| "eventsValid st previous seen (e # rest) \<longleftrightarrow>
     \<not> (ev_Sequence e = 0 \<or> eb_nextSequence st \<le> ev_Sequence e \<or> ev_Sequence e \<in> set seen \<or>
        Event_Validate (unat (eb_maxEventData st)) e \<noteq> Inr () \<or>
        (case previous of
           None \<Rightarrow> False
         | Some p \<Rightarrow> ev_At e < ev_At p \<or> ev_At e = ev_At p \<and> ev_Sequence e \<le> ev_Sequence p)) \<and>
     eventsValid st (Some e) (ev_Sequence e # seen) rest"

definition EventBus_Restore :: "EventBusState \<Rightarrow> EventBus \<Rightarrow> (serviceError + unit) \<times> EventBus" where
  "EventBus_Restore st b =
     (if eb_maxEvents st = 0 \<or> eb_maxEventData st = 0 \<or> eb_nextSequence st = 0 \<or>
         unat (eb_maxEvents st) < length (eb_events st)
      then (Inl ErrInvalidState, b)
      else if \<not> eventsValid st None [] (eb_events st) then (Inl ErrInvalidState, b)
      else (Inr (), st))"

subsection \<open>The invariant\<close>

definition event_before :: "Event \<Rightarrow> Event \<Rightarrow> bool" where
  "event_before x y \<longleftrightarrow> ev_At x < ev_At y \<or> ev_At x = ev_At y \<and> ev_Sequence x < ev_Sequence y"

definition bus_inv :: "EventBus \<Rightarrow> bool" where
  "bus_inv b \<longleftrightarrow> eb_maxEvents b \<noteq> 0 \<and> eb_maxEventData b \<noteq> 0 \<and> eb_nextSequence b \<noteq> 0 \<and>
     length (eb_events b) \<le> unat (eb_maxEvents b) \<and> sorted_wrt event_before (eb_events b) \<and>
     distinct (map ev_Sequence (eb_events b)) \<and>
     (\<forall>e \<in> set (eb_events b). ev_Sequence e \<noteq> 0 \<and> ev_Sequence e < eb_nextSequence b \<and>
        Event_Validate (unat (eb_maxEventData b)) e = Inr ())"

lemma NewEventBus_inv: "bus_inv (NewEventBus m n)"
  by (simp add: bus_inv_def NewEventBus_def DefaultMaxEvents_def DefaultMaxEventData_def)

lemma event_before_trans: "event_before x y \<Longrightarrow> event_before y z \<Longrightarrow> event_before x z"
  by (auto simp: event_before_def)

text \<open>Binary search puts a new event behind every event due no later than it.\<close>

definition insertEvent :: "Event \<Rightarrow> Event list \<Rightarrow> Event list" where
  "insertEvent e es = takeWhile (\<lambda>c. ev_At c \<le> ev_At e) es @ e # dropWhile (\<lambda>c. ev_At c \<le> ev_At e) es"

lemma Enqueue_spec:
  assumes "bus_inv b"
  shows "Enqueue event b =
    (if Event_Validate (unat (eb_maxEventData b)) event \<noteq> Inr ()
     then (Inl (projl (Event_Validate (unat (eb_maxEventData b)) event)), b)
     else if length (eb_events b) = unat (eb_maxEvents b) \<or> eb_nextSequence b = NOT 0
     then (Inl ErrLimitExceeded, b)
     else (Inr (eb_nextSequence b), b\<lparr>eb_nextSequence := eb_nextSequence b + 1,
       eb_events := insertEvent (event\<lparr>ev_Sequence := eb_nextSequence b\<rparr>) (eb_events b)\<rparr>))"
proof -
  let ?n = "eb_nextSequence b" and ?es = "eb_events b"
  let ?P = "\<lambda>c. ev_At event < ev_At c \<or> ev_At c = ev_At event \<and> ?n < ev_Sequence c"
  have seqs: "?P c \<longleftrightarrow> \<not> ev_At c \<le> ev_At event" if "c \<in> set ?es" for c
    using assms that by (auto simp: bus_inv_def)
  have full: "eb_maxEvents b \<le> of_nat (length ?es) \<longleftrightarrow> length ?es = unat (eb_maxEvents b)"
  proof -
    have "unat (of_nat (length ?es) :: u32) = length ?es"
      using assms unsigned_less [of "eb_maxEvents b", where ?'a = nat]
      by (intro unat_of_nat_u32) (simp add: bus_inv_def)
    then show ?thesis using assms by (auto simp: word_le_nat_alt bus_inv_def)
  qed
  have "sorted_wrt (\<lambda>x y. ?P x \<longrightarrow> ?P y) ?es"
    by (rule sorted_wrt_mono_rel [of _ event_before]) (use assms seqs in \<open>auto simp: bus_inv_def event_before_def\<close>)
  from insertAt_Search [OF this, of "event\<lparr>ev_Sequence := ?n\<rparr>"]
  have ins: "insertAt (Search (length ?es) (\<lambda>i. ?P (?es ! i))) (event\<lparr>ev_Sequence := ?n\<rparr>) ?es =
      insertEvent (event\<lparr>ev_Sequence := ?n\<rparr>) ?es"
    unfolding insertEvent_def using seqs by (simp cong: takeWhile_cong dropWhile_cong)
  have "?n \<noteq> 0" using assms by (simp add: bus_inv_def)
  then show ?thesis
    using ins full by (auto simp: Enqueue_def Let_def split: sum.splits)
qed

lemma insertEvent_facts [simp]:
  "mset (insertEvent e es) = add_mset e (mset es)" "set (insertEvent e es) = insert e (set es)"
  "length (insertEvent e es) = Suc (length es)"
proof -
  show m: "mset (insertEvent e es) = add_mset e (mset es)"
    by (simp add: insertEvent_def) (metis mset_append takeWhile_dropWhile_id union_commute)
  show "set (insertEvent e es) = insert e (set es)" using arg_cong [OF m, of set_mset] by simp
  show "length (insertEvent e es) = Suc (length es)" using arg_cong [OF m, of size] by simp
qed

lemma insertEvent_sorted:
  assumes "sorted_wrt event_before es" "\<forall>c \<in> set es. ev_Sequence c < ev_Sequence e"
  shows "sorted_wrt event_before (insertEvent e es)"
proof -
  let ?front = "takeWhile (\<lambda>c. ev_At c \<le> ev_At e) es" and ?tail = "dropWhile (\<lambda>c. ev_At c \<le> ev_At e) es"
  have "sorted_wrt event_before (?front @ ?tail)" using assms(1) by simp
  then have parts: "sorted_wrt event_before ?front" "sorted_wrt event_before ?tail" by (simp_all only: sorted_wrt_append)
  have front: "event_before c e" if "c \<in> set ?front" for c
    using set_takeWhileD [OF that] assms(2) by (auto simp: event_before_def)
  have tail: "event_before e c" if "c \<in> set ?tail" for c
  proof (cases ?tail)
    case (Cons d ds)
    have "\<not> ev_At d \<le> ev_At e" using hd_dropWhile [of "\<lambda>c. ev_At c \<le> ev_At e" es] Cons by simp
    moreover have "c = d \<or> event_before d c" using parts(2) that Cons by auto
    ultimately show ?thesis by (auto simp: event_before_def)
  next
    case Nil
    then show ?thesis using that by (simp only: list.set empty_iff)
  qed
  show ?thesis
    unfolding insertEvent_def using parts front tail event_before_trans
    by (simp add: sorted_wrt_append del: takeWhile_dropWhile_id) metis
qed

lemma Validate_sequence [simp]: "Event_Validate n (e\<lparr>ev_Sequence := s\<rparr>) = Event_Validate n e"
  by (simp add: Event_Validate_def)

lemma Enqueue_inv:
  assumes "bus_inv b"
  shows "bus_inv (snd (Enqueue event b))"
proof -
  let ?n = "eb_nextSequence b" and ?es = "eb_events b"
  have step: "x < ?n + 1" if "x \<le> ?n" "?n \<noteq> NOT 0" for x
  proof -
    have "1 + ?n \<noteq> 0" using that(2) by (metis add.commute add_eq_0_iff2 bit.compl_zero)
    then show ?thesis using that(1) unatSuc [of ?n] by (simp add: word_less_nat_alt word_le_nat_alt add.commute)
  qed
  show ?thesis
  proof (cases "Event_Validate (unat (eb_maxEventData b)) event = Inr () \<and>
      \<not> (length ?es = unat (eb_maxEvents b) \<or> ?n = NOT 0)")
    case True
    let ?e = "event\<lparr>ev_Sequence := ?n\<rparr>"
    have "?n \<notin> ev_Sequence ` set ?es" using assms by (auto simp: bus_inv_def)
    then have "distinct (map ev_Sequence (insertEvent ?e ?es))"
      using assms mset_eq_imp_distinct_iff [of "map ev_Sequence (insertEvent ?e ?es)" "?n # map ev_Sequence ?es"]
      by (simp add: bus_inv_def)
    moreover have "sorted_wrt event_before (insertEvent ?e ?es)"
      using assms by (intro insertEvent_sorted) (auto simp: bus_inv_def)
    moreover have "?n + 1 \<noteq> 0" using step [of ?n] True by (auto simp: word_less_nat_alt)
    ultimately show ?thesis
      using True assms step by (auto simp: Enqueue_spec [OF assms] bus_inv_def)
  next
    case False
    then show ?thesis using assms by (auto simp: Enqueue_spec)
  qed
qed

lemma dropEvents_inv: "bus_inv b \<Longrightarrow> bus_inv (snd (dropEvents gone b))"
  by (auto simp: bus_inv_def dropEvents_def sorted_wrt_filter distinct_map_filter
      intro: order_trans [OF length_filter_le])

lemma PopReady_inv: "bus_inv b \<Longrightarrow> bus_inv (snd (PopReady now b))"
  by (auto simp: bus_inv_def PopReady_def split: list.splits)

lemma eventsValid_iff:
  "eventsValid st previous seen es \<longleftrightarrow>
     sorted_wrt event_before (case previous of None \<Rightarrow> es | Some p \<Rightarrow> p # es) \<and> distinct (map ev_Sequence es) \<and>
     set seen \<inter> ev_Sequence ` set es = {} \<and>
     (\<forall>e \<in> set es. ev_Sequence e \<noteq> 0 \<and> ev_Sequence e < eb_nextSequence st \<and>
        Event_Validate (unat (eb_maxEventData st)) e = Inr ())"
proof (induction st previous seen es rule: eventsValid.induct)
  case (2 st previous seen e rest)
  have "sorted_wrt event_before (case previous of None \<Rightarrow> e # rest | Some p \<Rightarrow> p # e # rest) \<longleftrightarrow>
      (case previous of None \<Rightarrow> True | Some p \<Rightarrow> event_before p e) \<and> sorted_wrt event_before (e # rest)"
    by (cases previous) (auto intro: event_before_trans)
  moreover have "(case previous of None \<Rightarrow> True | Some p \<Rightarrow> event_before p e) \<longleftrightarrow>
      \<not> (case previous of None \<Rightarrow> False
         | Some p \<Rightarrow> ev_At e < ev_At p \<or> ev_At e = ev_At p \<and> ev_Sequence e \<le> ev_Sequence p)"
    by (cases previous) (auto simp: event_before_def not_less)
  ultimately show ?case using 2 by (auto simp: not_le)
qed (auto split: option.splits)

lemma EventBus_Restore_spec:
  "EventBus_Restore st b = (if bus_inv st then (Inr (), st) else (Inl ErrInvalidState, b))"
proof -
  have "eventsValid st None [] (eb_events st) \<longleftrightarrow> sorted_wrt event_before (eb_events st) \<and>
      distinct (map ev_Sequence (eb_events st)) \<and>
      (\<forall>e \<in> set (eb_events st). ev_Sequence e \<noteq> 0 \<and> ev_Sequence e < eb_nextSequence st \<and>
         Event_Validate (unat (eb_maxEventData st)) e = Inr ())"
    by (simp add: eventsValid_iff)
  then show ?thesis by (auto simp: EventBus_Restore_def bus_inv_def not_less)
qed

subsection \<open>Sequences of operations\<close>

datatype busOp =
    OpEnqueue Event | OpPop int | OpDropLifecycle OwnerID | OpDropOwner OwnerID
  | OpRemoveService ServiceID | OpRestoreBus EventBusState

fun busStep :: "busOp \<Rightarrow> EventBus \<Rightarrow> EventBus" where
  "busStep (OpEnqueue e) b = snd (Enqueue e b)"
| "busStep (OpPop now) b = snd (PopReady now b)"
| "busStep (OpDropLifecycle owner) b = snd (DropPendingLifecycle owner b)"
| "busStep (OpDropOwner owner) b = snd (DropOwner owner b)"
| "busStep (OpRemoveService ident) b = snd (RemoveService ident b)"
| "busStep (OpRestoreBus st) b = snd (EventBus_Restore st b)"

lemma busStep_inv: "bus_inv b \<Longrightarrow> bus_inv (busStep a b)"
  by (cases a) (simp_all add: Enqueue_inv PopReady_inv dropEvents_inv DropPendingLifecycle_def DropOwner_def
      RemoveService_def EventBus_Restore_spec)

interpretation bus: scripted bus_inv busStep
  by unfold_locales (rule busStep_inv)

text \<open>A client that pops until nothing is ready.\<close>

function drain :: "int \<Rightarrow> EventBus \<Rightarrow> Event list \<times> EventBus" where
  "drain now b =
     (case PopReady now b of
        (None, b) \<Rightarrow> ([], b)
      | (Some e, b) \<Rightarrow> let (es, b) = drain now b in (e # es, b))"
  by pat_completeness auto
termination
  by (relation "measure (\<lambda>(now, b). length (eb_events b))")
    (auto simp: PopReady_def split: list.splits if_splits)

declare drain.simps [simp del]

lemma drain_spec:
  "drain now b = (takeWhile (\<lambda>e. ev_At e \<le> now) (eb_events b),
     b\<lparr>eb_events := dropWhile (\<lambda>e. ev_At e \<le> now) (eb_events b)\<rparr>)"
proof (induction "eb_events b" arbitrary: b)
  case Nil
  then show ?case by (subst drain.simps) (simp add: PopReady_def flip: Nil)
next
  case (Cons e es)
  then show ?case
    using Cons(1) [of "b\<lparr>eb_events := es\<rparr>"]
    by (subst drain.simps) (simp add: PopReady_def flip: Cons(2))
qed

lemma sorted_takeWhile_filter:
  "sorted_wrt event_before es \<Longrightarrow> takeWhile (\<lambda>e. ev_At e \<le> now) es = filter (\<lambda>e. ev_At e \<le> now) es"
proof (induction es)
  case (Cons e es)
  have "filter (\<lambda>e. ev_At e \<le> now) es = []" if "\<not> ev_At e \<le> now"
    using Cons.prems that by (auto simp: filter_empty_conv event_before_def)
  then show ?case using Cons by simp
qed simp

text \<open>
  C17. Events are delivered in order.  After any sequence of enqueues, pops, removals and
  restores, of valid states or not, on a consistent bus: popping until nothing is ready
  delivers exactly the queued events due by then, each once, ordered by time and among
  equal times by enqueue sequence, and leaves the others; and an accepted event is added to
  the queue under a sequence number above every queued one, which makes the order of equal
  times first in, first out.
\<close>

theorem events_delivered_in_order:
  assumes "bus_inv b0" and "fold busStep script b0 = b" and "drain now b = (delivered, rest)"
  shows "mset delivered = filter_mset (\<lambda>e. ev_At e \<le> now) (mset (eb_events b)) \<and>
    sorted_wrt event_before delivered \<and>
    mset (eb_events rest) = filter_mset (\<lambda>e. now < ev_At e) (mset (eb_events b)) \<and>
    length (eb_events b) \<le> unat (eb_maxEvents b) \<and>
    (\<forall>event n b'. Enqueue event b = (Inr n, b') \<longrightarrow>
       mset (eb_events b') = add_mset (event\<lparr>ev_Sequence := n\<rparr>) (mset (eb_events b)) \<and>
       (\<forall>e \<in> set (eb_events b). ev_Sequence e < n))"
proof -
  have inv: "bus_inv b" using bus.script_inv [OF assms(1), of script] assms(2) by simp
  then have srt: "sorted_wrt event_before (eb_events b)" by (simp add: bus_inv_def)
  have d: "delivered = takeWhile (\<lambda>e. ev_At e \<le> now) (eb_events b)"
    "eb_events rest = dropWhile (\<lambda>e. ev_At e \<le> now) (eb_events b)"
    using assms(3) by (auto simp: drain_spec)
  have del: "mset delivered = filter_mset (\<lambda>e. ev_At e \<le> now) (mset (eb_events b))"
    unfolding d(1) sorted_takeWhile_filter [OF srt] by simp
  have "mset delivered + mset (eb_events rest) = mset (eb_events b)"
    unfolding d by (simp flip: mset_append)
  also have "\<dots> = filter_mset (\<lambda>e. ev_At e \<le> now) (mset (eb_events b)) + filter_mset (\<lambda>e. now < ev_At e) (mset (eb_events b))"
    using multiset_partition [of "mset (eb_events b)" "\<lambda>e. ev_At e \<le> now"] by (simp add: not_le)
  finally have "mset (eb_events rest) = filter_mset (\<lambda>e. now < ev_At e) (mset (eb_events b))"
    unfolding del by simp
  moreover have "sorted_wrt event_before delivered"
    unfolding d sorted_takeWhile_filter [OF srt] using srt by (rule sorted_wrt_filter)
  ultimately show ?thesis
    using inv del by (auto simp: Enqueue_spec [OF inv] bus_inv_def split: if_splits)
qed

definition sampleEvent :: "int \<Rightarrow> Event" where
  "sampleEvent at = \<lparr>ev_Sequence = 0, ev_At = at, ev_Kind = EventRepaint, ev_Owner = 1, ev_ServiceID = 0,
     ev_Control = [], ev_Name = [], ev_Value = 0, ev_Data = []\<rparr>"

theorem events_delivered_in_order_witness:
  "\<exists>rest delivered. drain 5 (fold busStep [OpEnqueue (sampleEvent 5), OpEnqueue (sampleEvent 2), OpEnqueue (sampleEvent 9)]
     (NewEventBus 4 8)) = (delivered, rest) \<and> length delivered = 2 \<and> sorted_wrt event_before delivered"
proof -
  let ?script = "[OpEnqueue (sampleEvent 5), OpEnqueue (sampleEvent 2), OpEnqueue (sampleEvent 9)]"
  let ?b = "fold busStep ?script (NewEventBus 4 8)"
  obtain delivered rest where d: "drain 5 ?b = (delivered, rest)" by (cases "drain 5 ?b")
  have "map ev_At (fst (drain 5 ?b)) = [2, 5]" by code_simp
  then have "length delivered = 2" by (metis d fst_conv length_map length_Cons list.size(3) numeral_2_eq_2)
  then show ?thesis using d events_delivered_in_order [OF NewEventBus_inv refl d] by blast
qed

end
