(* ===== verification/Runtime_Timers.thy ===== *)
theory Runtime_Timers
  imports Runtime_Events
begin

text \<open>
  Virtual-time timers, src/runtime/timers.go: timers are defined through the registry, armed
  with a deadline and an interval, and expire into the event bus; \<open>Advance\<close> is a transaction
  over both.  The registry a timer service points to is passed along.  A timer is mutated
  through its pointer, which is its key here; the order in which a Go map is ranged over is
  unspecified, and \<open>selectDue_order\<close> shows that it does not matter.
\<close>

subsection \<open>State\<close>

record Timer =
  tm_ID :: ServiceID
  tm_Owner :: OwnerID
  tm_Name :: name
  tm_Deadline :: int
  tm_Interval :: int
  tm_Active :: bool
  tm_Value :: int

type_synonym timers = "ServiceID \<rightharpoonup> Timer"

record Timers =
  ts_maxTimers :: u32
  ts_timers :: timers

definition NewTimers :: "u32 \<Rightarrow> Timers" where
  "NewTimers maxTimers =
     \<lparr>ts_maxTimers = (if maxTimers = 0 then 1024 else maxTimers), ts_timers = Map.empty\<rparr>"

definition validTimerName :: "name \<Rightarrow> bool" where
  "validTimerName s \<longleftrightarrow> \<not> (TrimSpaceEmpty s \<or> 255 < length s \<or> hasNUL s)"

subsection \<open>Definition, arming and destruction\<close>

definition Timers_Define :: "OwnerID \<Rightarrow> name \<Rightarrow> Registry \<times> Timers \<Rightarrow> (serviceError + ServiceID) \<times> Registry \<times> Timers" where
  "Timers_Define owner n s =
     (let (r, t) = s in
      if \<not> validTimerName n then (Inl ErrInvalidArgument, s)
      else if ts_maxTimers t \<le> of_nat (card (dom (ts_timers t))) then (Inl ErrLimitExceeded, s)
      else case Create owner KindTimer r of
        (Inl e, r) \<Rightarrow> (Inl e, r, t)
      | (Inr ident, r) \<Rightarrow>
          (Inr ident, r, t\<lparr>ts_timers := (ts_timers t)(ident \<mapsto>
             \<lparr>tm_ID = ident, tm_Owner = owner, tm_Name = n, tm_Deadline = 0, tm_Interval = 0,
              tm_Active = False, tm_Value = 0\<rparr>)\<rparr>))"

definition getTimer :: "ServiceID \<Rightarrow> OwnerID \<Rightarrow> Registry \<Rightarrow> Timers \<Rightarrow> serviceError + Timer" where
  "getTimer ident owner r t =
     (case Validate ident owner KindTimer r of
        Inl e \<Rightarrow> Inl e
      | Inr _ \<Rightarrow> (case ts_timers t ident of None \<Rightarrow> Inl ErrInvalidState | Some timer \<Rightarrow> Inr timer))"

definition putTimer :: "ServiceID \<Rightarrow> Timer \<Rightarrow> Timers \<Rightarrow> Timers" where
  "putTimer ident timer t = t\<lparr>ts_timers := (ts_timers t)(ident \<mapsto> timer)\<rparr>"

definition Timers_Set :: "ServiceID \<Rightarrow> OwnerID \<Rightarrow> int \<Rightarrow> int \<Rightarrow> int \<Rightarrow> Registry \<Rightarrow> Timers \<Rightarrow> (serviceError + unit) \<times> Timers" where
  "Timers_Set ident owner deadline interval v r t =
     (case getTimer ident owner r t of
        Inl e \<Rightarrow> (Inl e, t)
      | Inr timer \<Rightarrow>
          if deadline < 0 \<or> interval < 0 then (Inl ErrInvalidArgument, t)
          else (Inr (), putTimer ident (timer\<lparr>tm_Deadline := deadline, tm_Interval := interval,
                  tm_Value := v, tm_Active := True\<rparr>) t))"

definition Timers_Cancel :: "ServiceID \<Rightarrow> OwnerID \<Rightarrow> Registry \<Rightarrow> Timers \<Rightarrow> (serviceError + unit) \<times> Timers" where
  "Timers_Cancel ident owner r t =
     (case getTimer ident owner r t of
        Inl e \<Rightarrow> (Inl e, t)
      | Inr timer \<Rightarrow> (Inr (), putTimer ident (timer\<lparr>tm_Active := False\<rparr>) t))"

definition Timers_Destroy :: "ServiceID \<Rightarrow> OwnerID \<Rightarrow> EventBus option \<Rightarrow> Registry \<times> Timers \<Rightarrow>
    (serviceError + unit) \<times> (Registry \<times> Timers) \<times> EventBus option" where
  "Timers_Destroy ident owner bus s =
     (let (r, t) = s in
      case getTimer ident owner r t of
        Inl e \<Rightarrow> (Inl e, s, bus)
      | Inr _ \<Rightarrow>
          (case Registry_Destroy ident owner KindTimer r of
             (Inl e, r) \<Rightarrow> (Inl e, (r, t), bus)
           | (Inr _, r) \<Rightarrow>
               (Inr (), (r, t\<lparr>ts_timers := (ts_timers t)(ident := None)\<rparr>),
                map_option (\<lambda>b. snd (RemoveService ident b)) bus)))"

subsection \<open>Expiry\<close>

text \<open>The scan for the earliest due timer; ties go to the smaller identifier.\<close>

definition timerDue :: "int \<Rightarrow> Timer \<Rightarrow> bool" where
  "timerDue now t \<longleftrightarrow> \<not> (\<not> tm_Active t \<or> now < tm_Deadline t)"

definition selectDue :: "int \<Rightarrow> (ServiceID \<times> Timer) list \<Rightarrow> (ServiceID \<times> Timer) option" where
  "selectDue now ts =
     foldl (\<lambda>selected (k, t).
       if \<not> timerDue now t then selected
       else case selected of
         None \<Rightarrow> Some (k, t)
       | Some (k', s) \<Rightarrow>
           if tm_Deadline t < tm_Deadline s \<or> tm_Deadline t = tm_Deadline s \<and> tm_ID t < tm_ID s
           then Some (k, t) else selected) None ts"

definition timerEvent :: "Timer \<Rightarrow> Event" where
  "timerEvent t = \<lparr>ev_Sequence = 0, ev_At = tm_Deadline t, ev_Kind = EventTimer, ev_Owner = tm_Owner t,
     ev_ServiceID = tm_ID t, ev_Control = [], ev_Name = tm_Name t, ev_Value = tm_Value t, ev_Data = []\<rparr>"

text \<open>The journal of a transaction: the deadline and state of each timer before its first change.\<close>

type_synonym journal = "(ServiceID \<times> int \<times> bool) list"

definition journalPut :: "ServiceID \<times> Timer \<Rightarrow> journal \<Rightarrow> journal" where
  "journalPut kt saved =
     (let (k, t) = kt in if k \<in> fst ` set saved then saved else saved @ [(k, tm_Deadline t, tm_Active t)])"

definition busRoom :: "EventBus \<Rightarrow> nat" where
  "busRoom b = unat (eb_maxEvents b) - unat (of_nat (length (eb_events b)) :: u32)"

lemma Enqueue_room:
  assumes "Enqueue e b = (Inr n, b')"
  shows "busRoom b' < busRoom b"
proof -
  have lt: "of_nat (length (eb_events b)) < eb_maxEvents b" and
    b': "length (eb_events b') = Suc (length (eb_events b))" "eb_maxEvents b' = eb_maxEvents b"
    using assms by (auto simp: Enqueue_def Let_def not_le split: sum.splits if_splits)
  let ?x = "of_nat (length (eb_events b)) :: u32"
  have "unat ?x < unat (eb_maxEvents b)" using lt by (simp add: word_less_nat_alt)
  moreover from this have "unat (1 + ?x) = Suc (unat ?x)"
    using unsigned_less [of "eb_maxEvents b", where ?'a = nat] by (subst unat_add_lem [THEN iffD1]) simp_all
  ultimately show ?thesis by (simp add: busRoom_def b')
qed

function advanceLoop :: "int \<Rightarrow> timers \<Rightarrow> EventBus \<Rightarrow> journal \<Rightarrow>
    (serviceError + unit) \<times> timers \<times> EventBus \<times> journal" where
  "advanceLoop now ts b saved =
     (case selectDue now (entriesOf ts) of
        None \<Rightarrow> (Inr (), ts, b, saved)
      | Some (k, t) \<Rightarrow>
          let saved = journalPut (k, t) saved in
          (case Enqueue (timerEvent t) b of
             (Inl e, b) \<Rightarrow> (Inl e, ts, b, saved)
           | (Inr _, b) \<Rightarrow>
               if tm_Interval t = 0 then advanceLoop now (ts(k \<mapsto> t\<lparr>tm_Active := False\<rparr>)) b saved
               else if MaxInt64 - tm_Interval t < tm_Deadline t then (Inl ErrLimitExceeded, ts, b, saved)
               else advanceLoop now (ts(k \<mapsto> t\<lparr>tm_Deadline := tm_Deadline t + tm_Interval t\<rparr>)) b saved))"
  by pat_completeness auto

termination
  by (relation "measure (\<lambda>(now, ts, b, saved). busRoom b)") (auto intro: Enqueue_room [OF sym])

declare advanceLoop.simps [simp del]

definition restoreAdvance :: "journal \<Rightarrow> timers \<Rightarrow> timers" where
  "restoreAdvance saved ts =
     fold (\<lambda>(k, deadline, active) ts.
       ts(k := map_option (\<lambda>t. t\<lparr>tm_Deadline := deadline, tm_Active := active\<rparr>) (ts k))) saved ts"

definition Timers_Advance :: "int \<Rightarrow> EventBus option \<Rightarrow> Timers \<Rightarrow> (serviceError + unit) \<times> EventBus option \<times> Timers" where
  "Timers_Advance now bus t =
     (case bus of
        None \<Rightarrow> (Inl ErrInvalidArgument, bus, t)
      | Some b \<Rightarrow>
          if now < 0 then (Inl ErrInvalidArgument, bus, t)
          else
            let busBefore = EventBus_Snapshot b in
            (case advanceLoop now (ts_timers t) b [] of
               (Inl e, ts, b, saved) \<Rightarrow>
                 (Inl e, Some (snd (EventBus_Restore busBefore b)), t\<lparr>ts_timers := restoreAdvance saved ts\<rparr>)
             | (Inr _, ts, b, saved) \<Rightarrow> (Inr (), Some b, t\<lparr>ts_timers := ts\<rparr>)))"

subsection \<open>Snapshots\<close>

text \<open>A saved timer has the fields of a timer.\<close>

record TimersState =
  tss_MaxTimers :: u32
  tss_Timers :: "Timer list"

definition Timers_Snapshot :: "Timers \<Rightarrow> TimersState" where
  "Timers_Snapshot t = \<lparr>tss_MaxTimers = ts_maxTimers t, tss_Timers = map snd (entriesOf (ts_timers t))\<rparr>"

fun loadTimers :: "Registry \<Rightarrow> nat \<Rightarrow> ServiceID \<Rightarrow> Timer list \<Rightarrow> timers \<Rightarrow> serviceError + timers" where
  "loadTimers r index previous [] ts = Inr ts"
| "loadTimers r index previous (saved # rest) ts =
     (if \<not> ServiceID_Valid (tm_ID saved) \<or> index \<noteq> 0 \<and> tm_ID saved \<le> previous \<or>
         \<not> validTimerName (tm_Name saved) \<or> tm_Deadline saved < 0 \<or> tm_Interval saved < 0 \<or>
         Validate (tm_ID saved) (tm_Owner saved) KindTimer r \<noteq> Inr ()
      then Inl ErrInvalidState
      else loadTimers r (index + 1) (tm_ID saved) rest (ts(tm_ID saved \<mapsto> saved)))"

definition Timers_Restore :: "TimersState \<Rightarrow> Registry \<Rightarrow> Timers \<Rightarrow> (serviceError + unit) \<times> Timers" where
  "Timers_Restore st r t =
     (if tss_MaxTimers st = 0 \<or> unat (tss_MaxTimers st) < length (tss_Timers st) then (Inl ErrInvalidState, t)
      else case loadTimers r 0 0 (tss_Timers st) Map.empty of
        Inl e \<Rightarrow> (Inl e, t)
      | Inr ts \<Rightarrow> (Inr (), \<lparr>ts_maxTimers = tss_MaxTimers st, ts_timers = ts\<rparr>))"

subsection \<open>The selection\<close>

definition timer_le :: "Timer \<Rightarrow> Timer \<Rightarrow> bool" where
  "timer_le t s \<longleftrightarrow> tm_Deadline t < tm_Deadline s \<or> tm_Deadline t = tm_Deadline s \<and> tm_ID t \<le> tm_ID s"

lemma selectDue_snoc:
  "selectDue now (xs @ [(k, t)]) =
     (if \<not> timerDue now t then selectDue now xs
      else case selectDue now xs of
        None \<Rightarrow> Some (k, t)
      | Some (k', s) \<Rightarrow>
          if tm_Deadline t < tm_Deadline s \<or> tm_Deadline t = tm_Deadline s \<and> tm_ID t < tm_ID s
          then Some (k, t) else Some (k', s))"
  by (auto simp: selectDue_def split: option.splits)

lemma selectDue_spec:
  "case selectDue now xs of
     None \<Rightarrow> \<forall>(k, t) \<in> set xs. \<not> timerDue now t
   | Some (k, t) \<Rightarrow> (k, t) \<in> set xs \<and> timerDue now t \<and>
       (\<forall>(k', s) \<in> set xs. timerDue now s \<longrightarrow> timer_le t s)"
proof (induction xs rule: rev_induct)
  case (snoc x xs)
  obtain k t where "x = (k, t)" by (cases x)
  with snoc show ?case
    by (auto simp: selectDue_snoc timer_le_def split: option.splits; fastforce)
qed (simp add: selectDue_def)

text \<open>The order of the scan is immaterial when no two timers share an identifier.\<close>

lemma selectDue_order:
  assumes "set xs = set ys" and "\<And>k t k' t'. (k, t) \<in> set xs \<Longrightarrow> (k', t') \<in> set xs \<Longrightarrow> tm_ID t = tm_ID t' \<Longrightarrow> (k, t) = (k', t')"
  shows "selectDue now xs = selectDue now ys"
proof (cases "selectDue now xs")
  case None
  then show ?thesis
    using selectDue_spec [where now = now and xs = xs] selectDue_spec [where now = now and xs = ys] assms(1)
    by (auto split: option.splits)
next
  case (Some kt)
  then obtain k t where xs: "selectDue now xs = Some (k, t)" by (cases kt) auto
  then have x: "(k, t) \<in> set xs" "timerDue now t" "\<forall>(k', s) \<in> set xs. timerDue now s \<longrightarrow> timer_le t s"
    using selectDue_spec [where now = now and xs = xs] by auto
  then obtain k' s where ys: "selectDue now ys = Some (k', s)"
    using selectDue_spec [where now = now and xs = ys] assms(1) by (fastforce split: option.splits)
  then have y: "(k', s) \<in> set ys" "timerDue now s" "\<forall>(k', t) \<in> set ys. timerDue now t \<longrightarrow> timer_le s t"
    using selectDue_spec [where now = now and xs = ys] by auto
  have "timer_le t s" "timer_le s t" using x y assms(1) by auto
  then have "tm_ID t = tm_ID s" by (auto simp: timer_le_def)
  then show ?thesis using assms x(1) y(1) xs ys by metis
qed

subsection \<open>Specification of an advance\<close>

definition timers_inv :: "timers \<Rightarrow> bool" where
  "timers_inv ts \<longleftrightarrow> (\<forall>k t. ts k = Some t \<longrightarrow> tm_ID t = k \<and> 0 \<le> tm_Deadline t \<and> 0 \<le> tm_Interval t \<and>
     tm_Deadline t \<le> MaxInt64 \<and> tm_Interval t \<le> MaxInt64)"

text \<open>How often a timer fires by \<open>now\<close>, the events it sends, and what it becomes.\<close>

definition fires :: "int \<Rightarrow> Timer \<Rightarrow> nat" where
  "fires now t =
     (if \<not> timerDue now t then 0
      else if tm_Interval t = 0 then 1
      else nat ((now - tm_Deadline t) div tm_Interval t) + 1)"

definition occurrences :: "int \<Rightarrow> Timer \<Rightarrow> Event list" where
  "occurrences now t =
     map (\<lambda>i. timerEvent (t\<lparr>tm_Deadline := tm_Deadline t + int i * tm_Interval t\<rparr>)) [0..<fires now t]"

definition expired :: "int \<Rightarrow> Timer \<Rightarrow> Timer" where
  "expired now t =
     (if \<not> timerDue now t then t
      else if tm_Interval t = 0 then t\<lparr>tm_Active := False\<rparr>
      else t\<lparr>tm_Deadline := tm_Deadline t + int (fires now t) * tm_Interval t\<rparr>)"

definition dueEvents :: "int \<Rightarrow> timers \<Rightarrow> Event multiset" where
  "dueEvents now ts = (\<Sum>k \<in> dom ts. mset (occurrences now (the (ts k))))"

definition fireOnce :: "Timer \<Rightarrow> Timer" where
  "fireOnce t =
     (if tm_Interval t = 0 then t\<lparr>tm_Active := False\<rparr>
      else t\<lparr>tm_Deadline := tm_Deadline t + tm_Interval t\<rparr>)"

lemma fires_step:
  assumes "timerDue now t" "0 \<le> tm_Interval t"
  shows "fires now t = Suc (fires now (fireOnce t))"
proof (cases "tm_Interval t = 0")
  case True
  then show ?thesis using assms by (simp add: fires_def fireOnce_def timerDue_def)
next
  case False
  let ?i = "tm_Interval t" and ?d = "now - tm_Deadline t"
  have i: "0 < ?i" "0 \<le> ?d" using assms False by (auto simp: timerDue_def)
  show ?thesis
  proof (cases "?d < ?i")
    case True
    then show ?thesis using assms False i by (simp add: fires_def fireOnce_def timerDue_def div_pos_pos_trivial)
  next
    case below: False
    have "?d div ?i = (?d - ?i) div ?i + 1" using i by (simp add: div_pos_geq below not_less [symmetric])
    moreover have "0 \<le> (?d - ?i) div ?i" using below i by (simp add: pos_imp_zdiv_nonneg_iff)
    ultimately show ?thesis
      using assms False below by (simp add: fires_def fireOnce_def timerDue_def diff_diff_eq nat_add_distrib)
  qed
qed

lemma occurrences_step:
  assumes "timerDue now t" "0 \<le> tm_Interval t"
  shows "occurrences now t = timerEvent t # occurrences now (fireOnce t)"
proof (cases "tm_Interval t = 0")
  case True
  then show ?thesis using assms by (simp add: occurrences_def fires_def fireOnce_def timerDue_def)
next
  case False
  then show ?thesis
    using fires_step [OF assms]
    by (simp add: occurrences_def map_upt_Suc fireOnce_def algebra_simps del: upt_Suc)
qed

lemma expired_step:
  assumes "timerDue now t" "0 \<le> tm_Interval t"
  shows "expired now (fireOnce t) = expired now t"
proof (cases "tm_Interval t = 0")
  case True
  then show ?thesis using assms by (simp add: expired_def fireOnce_def timerDue_def)
next
  case False
  then show ?thesis
    using fires_step [OF assms] assms(1)
    by (auto simp: expired_def fireOnce_def algebra_simps) (simp add: fires_def)
qed

lemma dueEvents_update:
  assumes "ts k = Some t" "timerDue now t" "0 \<le> tm_Interval t"
  shows "dueEvents now ts = add_mset (timerEvent t) (dueEvents now (ts(k \<mapsto> fireOnce t)))"
proof -
  have fin: "finite (dom ts)" "k \<in> dom ts" using assms(1) by auto
  have same: "(\<Sum>j \<in> dom ts - {k}. mset (occurrences now (the ((ts(k \<mapsto> fireOnce t)) j)))) =
      (\<Sum>j \<in> dom ts - {k}. mset (occurrences now (the (ts j))))"
    by (intro sum.cong) auto
  have "dom (ts(k \<mapsto> fireOnce t)) = dom ts" using assms(1) by auto
  then show ?thesis
    using same assms unfolding dueEvents_def sum.remove [OF fin]
    by (simp add: sum.remove [OF fin] occurrences_step)
qed

lemma dueEvents_none: "\<forall>k t. ts k = Some t \<longrightarrow> \<not> timerDue now t \<Longrightarrow> dueEvents now ts = {#}"
  by (auto simp: dueEvents_def occurrences_def fires_def intro!: sum.neutral)

lemma selectDue_timers:
  assumes "timers_inv ts" "selectDue now (entriesOf ts) = Some (k, t)"
  shows "ts k = Some t" "timerDue now t" "tm_ID t = k"
    "\<And>k' s. ts k' = Some s \<Longrightarrow> timerDue now s \<Longrightarrow> timer_le t s"
proof -
  have mem: "(k', s) \<in> set (entriesOf ts) \<longleftrightarrow> ts k' = Some s" for k' s by (rule set_entriesOf) simp
  have "(k, t) \<in> set (entriesOf ts) \<and> timerDue now t \<and>
      (\<forall>(k', s) \<in> set (entriesOf ts). timerDue now s \<longrightarrow> timer_le t s)"
    using selectDue_spec [where now = now and xs = "entriesOf ts"] assms(2) by simp
  then show "ts k = Some t" "timerDue now t" using mem by auto
  show "timer_le t s" if "ts k' = Some s" "timerDue now s" for k' s
    using \<open>_ \<and> _ \<and> (\<forall>(k', s) \<in> _. _)\<close> that mem [of k' s] by (auto dest!: bspec [where x = "(k', s)"])
  from \<open>ts k = Some t\<close> show "tm_ID t = k" using assms(1) by (auto simp: timers_inv_def)
qed

lemma fireOnce_inv:
  assumes "timers_inv ts" "ts k = Some t" "tm_Interval t = 0 \<or> tm_Deadline t \<le> MaxInt64 - tm_Interval t"
  shows "timers_inv (ts(k \<mapsto> fireOnce t))"
  using assms by (auto simp: timers_inv_def fireOnce_def MaxInt64_def)

text \<open>The events of one advance, in the order in which they were queued.\<close>

definition due_before :: "Event \<Rightarrow> Event \<Rightarrow> bool" where
  "due_before x y \<longleftrightarrow> ev_At x < ev_At y \<or> ev_At x = ev_At y \<and> ev_ServiceID x < ev_ServiceID y"

definition unnumbered :: "Event \<Rightarrow> Event" where
  "unnumbered e = e\<lparr>ev_Sequence := 0\<rparr>"

definition enqueued :: "EventBus \<Rightarrow> Event list \<Rightarrow> EventBus \<Rightarrow> bool" where
  "enqueued b log b' \<longleftrightarrow> mset (eb_events b') = mset (eb_events b) + mset log \<and>
     sorted_wrt (\<lambda>x y. due_before x y \<and> ev_Sequence x < ev_Sequence y) log \<and>
     (\<forall>e \<in> set log. eb_nextSequence b \<le> ev_Sequence e)"

lemma occurrences_after:
  assumes "e \<in> set (occurrences now t)" "0 \<le> tm_Interval t"
  shows "ev_ServiceID e = tm_ID t" "tm_Deadline t \<le> ev_At e" "timerDue now t"
  using assms by (auto simp: occurrences_def timerEvent_def fires_def split: if_splits)

lemma dueEvents_after:
  assumes inv: "timers_inv ts" and sel: "selectDue now (entriesOf ts) = Some (k, t)"
    and e: "e \<in># dueEvents now (ts(k \<mapsto> fireOnce t))"
  shows "due_before (timerEvent t) e"
proof -
  note s = selectDue_timers [OF inv sel]
  have int: "0 \<le> tm_Interval s" if "ts j = Some s" for j s using inv that by (auto simp: timers_inv_def)
  let ?ts = "ts(k \<mapsto> fireOnce t)"
  obtain j where "j \<in> dom ?ts" "e \<in> set (occurrences now (the (?ts j)))"
    using e unfolding dueEvents_def by (subst (asm) set_mset_sum) (auto simp del: fun_upd_apply)
  then obtain u where u: "?ts j = Some u" "e \<in> set (occurrences now u)" by fastforce
  show ?thesis
  proof (cases "j = k")
    case True
    then have [simp]: "u = fireOnce t" using u(1) by simp
    have "0 \<le> tm_Interval u" using int [OF s(1)] by (simp add: fireOnce_def)
    note o = occurrences_after [OF u(2) this]
    have "tm_Interval t \<noteq> 0" using o(3) by (auto simp: fireOnce_def timerDue_def)
    then show ?thesis using o(2) int [OF s(1)] by (auto simp: due_before_def timerEvent_def fireOnce_def)
  next
    case False
    then have j: "ts j = Some u" using u(1) by simp
    note o = occurrences_after [OF u(2) int [OF j]]
    have "timer_le t u" by (rule s(4) [OF j o(3)])
    moreover have "tm_ID u \<noteq> tm_ID t" using inv j s(3) False by (auto simp: timers_inv_def)
    ultimately show ?thesis using o by (auto simp: timer_le_def due_before_def timerEvent_def)
  qed
qed

lemma Enqueue_added:
  assumes "bus_inv b" "Enqueue e b = (Inr n, b')"
  shows "n = eb_nextSequence b"
    "mset (eb_events b') = add_mset (e\<lparr>ev_Sequence := n\<rparr>) (mset (eb_events b))" "n < eb_nextSequence b'"
proof -
  show n: "n = eb_nextSequence b" and "mset (eb_events b') = add_mset (e\<lparr>ev_Sequence := n\<rparr>) (mset (eb_events b))"
    using assms(2) by (auto simp: Enqueue_spec [OF assms(1)] split: if_splits)
  have "bus_inv b'" using Enqueue_inv [OF assms(1), of e] assms(2) by simp
  moreover have "e\<lparr>ev_Sequence := n\<rparr> \<in> set (eb_events b')"
    using assms(2) n by (auto simp: Enqueue_spec [OF assms(1)] split: if_splits)
  ultimately show "n < eb_nextSequence b'" by (force simp: bus_inv_def)
qed

lemma advanceLoop_success:
  assumes "advanceLoop now ts b saved = (Inr (), ts', b', saved')" "timers_inv ts" "bus_inv b"
  shows "ts' = (\<lambda>k. map_option (expired now) (ts k)) \<and> bus_inv b' \<and>
    (\<exists>log. enqueued b log b' \<and> mset (map unnumbered log) = dueEvents now ts)"
  using assms
proof (induction now ts b saved arbitrary: ts' b' saved' rule: advanceLoop.induct)
  case (1 now ts b saved)
  show ?case
  proof (cases "selectDue now (entriesOf ts)")
    case None
    then have none: "\<forall>k t. ts k = Some t \<longrightarrow> \<not> timerDue now t"
      using selectDue_spec [where now = now and xs = "entriesOf ts"] set_entriesOf [of ts] by fastforce
    have "ts' = ts" "b' = b" using 1(3) None by (auto simp: advanceLoop.simps [of now ts])
    moreover have "map_option (expired now) (ts k) = ts k" for k
      using none by (cases "ts k") (auto simp: expired_def)
    moreover have "enqueued b [] b" by (simp add: enqueued_def)
    ultimately show ?thesis using none 1(5) by (auto simp: dueEvents_none)
  next
    case (Some kt)
    obtain k t where kt: "kt = (k, t)" by (cases kt)
    note sel = Some [unfolded kt]
    note s = selectDue_timers [OF 1(4) sel]
    have int: "0 \<le> tm_Interval t" using 1(4) s(1) by (auto simp: timers_inv_def)
    obtain n b1 where q: "Enqueue (timerEvent t) b = (Inr n, b1)"
      using 1(3) sel by (auto simp: advanceLoop.simps [of now ts] Let_def split: sum.splits prod.splits)
    let ?ts = "ts(k \<mapsto> fireOnce t)" and ?saved = "journalPut (k, t) saved"
    have step: "advanceLoop now ?ts b1 ?saved = (Inr (), ts', b', saved')"
      and dl: "tm_Interval t = 0 \<or> tm_Deadline t \<le> MaxInt64 - tm_Interval t"
      using 1(3) sel q by (auto simp: advanceLoop.simps [of now ts] Let_def fireOnce_def split: if_splits)
    have inv1: "bus_inv b1" using Enqueue_inv [OF 1(5), of "timerEvent t"] q by simp
    have "ts' = (\<lambda>j. map_option (expired now) (?ts j)) \<and> bus_inv b' \<and>
        (\<exists>log. enqueued b1 log b' \<and> mset (map unnumbered log) = dueEvents now ?ts)"
    proof (cases "tm_Interval t = 0")
      case True
      have eq: "fireOnce t = t\<lparr>tm_Active := False\<rparr>" using True by (simp add: fireOnce_def)
      show ?thesis
        using 1(1) [OF sel refl refl q [symmetric] refl True step [unfolded eq]
            fireOnce_inv [OF 1(4) s(1) dl, unfolded eq] inv1] unfolding eq .
    next
      case False
      have eq: "fireOnce t = t\<lparr>tm_Deadline := tm_Deadline t + tm_Interval t\<rparr>" using False by (simp add: fireOnce_def)
      have ok: "\<not> MaxInt64 - tm_Interval t < tm_Deadline t" using dl False by simp
      show ?thesis
        using 1(2) [OF sel refl refl q [symmetric] refl False ok step [unfolded eq]
            fireOnce_inv [OF 1(4) s(1) dl, unfolded eq] inv1] unfolding eq .
    qed
    then obtain log where ts': "ts' = (\<lambda>j. map_option (expired now) (?ts j))" and b': "bus_inv b'"
      and log: "enqueued b1 log b'" "mset (map unnumbered log) = dueEvents now ?ts" by blast
    let ?e = "timerEvent t\<lparr>ev_Sequence := n\<rparr>"
    note n = Enqueue_added [OF 1(5) q]
    have "due_before ?e x \<and> n < ev_Sequence x" if "x \<in> set log" for x
    proof -
      have "unnumbered x \<in># dueEvents now ?ts" using that by (simp flip: log(2))
      then have "due_before (timerEvent t) (unnumbered x)" by (rule dueEvents_after [OF 1(4) sel])
      moreover have "eb_nextSequence b1 \<le> ev_Sequence x" using log(1) that by (simp add: enqueued_def)
      ultimately show ?thesis using n(3) by (auto simp: due_before_def unnumbered_def)
    qed
    then have "enqueued b (?e # log) b'"
      using log(1) n by (auto simp: enqueued_def intro: order.trans [OF less_imp_le])
    moreover have "mset (map unnumbered (?e # log)) = dueEvents now ts"
      using log(2) dueEvents_update [where ts = ts, OF s(1,2) int] by (simp add: unnumbered_def timerEvent_def)
    moreover have "map_option (expired now) (?ts j) = map_option (expired now) (ts j)" for j
      using s(1) expired_step [OF s(2) int] by auto
    ultimately show ?thesis using ts' b' by auto
  qed
qed

lemma restoreAdvance_nth:
  assumes "distinct (map fst saved)"
  shows "restoreAdvance saved ts k =
    (case map_of saved k of None \<Rightarrow> ts k
     | Some (d, a) \<Rightarrow> map_option (\<lambda>t. t\<lparr>tm_Deadline := d, tm_Active := a\<rparr>) (ts k))"
  using assms
proof (induction saved arbitrary: ts)
  case (Cons x saved)
  obtain j d a where x: "x = (j, d, a)" by (cases x)
  have none: "map_of saved j = None" and d: "distinct (map fst saved)"
    using Cons.prems x by (simp_all add: map_of_eq_None_iff)
  have step: "restoreAdvance (x # saved) ts =
      restoreAdvance saved (ts(j := map_option (\<lambda>t. t\<lparr>tm_Deadline := d, tm_Active := a\<rparr>) (ts j)))"
    by (simp add: restoreAdvance_def x)
  show ?case unfolding step Cons.IH [OF d] using none by (auto simp: x split: option.splits)
qed (simp add: restoreAdvance_def)

lemma restoreAdvance_put:
  assumes "distinct (map fst saved)" "ts k = Some t"
  shows "restoreAdvance (journalPut (k, t) saved) ts = restoreAdvance saved ts \<and>
    restoreAdvance (journalPut (k, t) saved) (ts(k \<mapsto> fireOnce t)) = restoreAdvance saved ts"
proof -
  let ?saved = "journalPut (k, t) saved"
  have d: "distinct (map fst ?saved)" using assms(1) by (auto simp: journalPut_def Let_def)
  have m: "map_of ?saved j = (if map_of saved j = None \<and> j = k then Some (tm_Deadline t, tm_Active t) else map_of saved j)" for j
    by (auto simp: journalPut_def Let_def map_add_def map_of_eq_None_iff split: option.splits)
      (metis map_of_eq_None_iff option.distinct(1))+
  have undo: "(fireOnce t)\<lparr>tm_Deadline := d, tm_Active := a\<rparr> = t\<lparr>tm_Deadline := d, tm_Active := a\<rparr>" for d a
    by (simp add: fireOnce_def)
  show ?thesis
    using assms(2) by (auto simp: fun_eq_iff restoreAdvance_nth [OF d] restoreAdvance_nth [OF assms(1)] m undo
        split: option.splits)
qed

lemma advanceLoop_journal:
  assumes "advanceLoop now ts b saved = (out, ts', b', saved')" "timers_inv ts"
    "distinct (map fst saved)" "restoreAdvance saved ts = ts0"
  shows "restoreAdvance saved' ts' = ts0"
  using assms
proof (induction now ts b saved arbitrary: ts' b' saved' rule: advanceLoop.induct)
  case (1 now ts b saved)
  show ?case
  proof (cases "selectDue now (entriesOf ts)")
    case None
    then show ?thesis using 1(3,6) by (auto simp: advanceLoop.simps [of now ts])
  next
    case (Some kt)
    obtain k t where kt: "kt = (k, t)" by (cases kt)
    note sel = Some [unfolded kt]
    note s = selectDue_timers [OF 1(4) sel]
    let ?saved = "journalPut (k, t) saved"
    have d: "distinct (map fst ?saved)" using 1(5) by (auto simp: journalPut_def Let_def)
    have fired: "restoreAdvance ?saved (ts(k \<mapsto> fireOnce t)) = ts0" and keep: "restoreAdvance ?saved ts = ts0"
      using restoreAdvance_put [where ts = ts, OF 1(5) s(1)] 1(6) by simp_all
    obtain q b1 where q: "Enqueue (timerEvent t) b = (q, b1)" by (cases "Enqueue (timerEvent t) b")
    note inv = fireOnce_inv [OF 1(4) s(1)]
    show ?thesis
    proof (cases q)
      case (Inl e)
      then show ?thesis using 1(3) sel q keep by (simp add: advanceLoop.simps [of now ts] Let_def)
    next
      case (Inr n)
      note qn = q [unfolded Inr]
      consider (once) "tm_Interval t = 0" | (over) "tm_Interval t \<noteq> 0" "MaxInt64 - tm_Interval t < tm_Deadline t"
        | (again) "tm_Interval t \<noteq> 0" "\<not> MaxInt64 - tm_Interval t < tm_Deadline t" by blast
      then show ?thesis
      proof cases
        case once
        have f: "fireOnce t = t\<lparr>tm_Active := False\<rparr>" using once by (simp add: fireOnce_def)
        have "advanceLoop now (ts(k \<mapsto> t\<lparr>tm_Active := False\<rparr>)) b1 ?saved = (out, ts', b', saved')"
          using 1(3) sel qn once by (simp add: advanceLoop.simps [of now ts] Let_def)
        from 1(1) [OF sel refl refl qn [symmetric] refl once this inv [unfolded f] d fired [unfolded f]] once
        show ?thesis by simp
      next
        case over
        then show ?thesis using 1(3) sel qn keep by (simp add: advanceLoop.simps [of now ts] Let_def)
      next
        case again
        have f: "fireOnce t = t\<lparr>tm_Deadline := tm_Deadline t + tm_Interval t\<rparr>"
          using again by (simp add: fireOnce_def)
        have "advanceLoop now (ts(k \<mapsto> t\<lparr>tm_Deadline := tm_Deadline t + tm_Interval t\<rparr>)) b1 ?saved =
            (out, ts', b', saved')"
          using 1(3) sel qn again by (simp add: advanceLoop.simps [of now ts] Let_def)
        from 1(2) [OF sel refl refl qn [symmetric] refl again this inv [unfolded f] d fired [unfolded f]] again
        show ?thesis by simp
      qed
    qed
  qed
qed

text \<open>
  C13. Advancing time is a transaction.  On consistent timers and a consistent bus, an
  advance that fails - the queue is full, the sequence or a deadline runs out - leaves bus
  and timers exactly as they were.  One that succeeds queues, for every active timer, one
  event for each of its deadlines up to \<open>now\<close>, in order of deadline and then identifier, with
  ascending sequence numbers; a one-shot timer is then inactive, and a repeating one is due
  at its first deadline after \<open>now\<close>.
\<close>

theorem timers_advance_transaction:
  assumes "timers_inv (ts_timers t)" and "bus_inv b" and "0 \<le> now"
    and "Timers_Advance now (Some b) t = (out, bus', t')"
  shows "case out of
      Inl e \<Rightarrow> bus' = Some b \<and> t' = t
    | Inr _ \<Rightarrow>
        t' = t\<lparr>ts_timers := (\<lambda>k. map_option (expired now) (ts_timers t k))\<rparr> \<and>
        (\<forall>k u. ts_timers t' k = Some u \<longrightarrow> \<not> timerDue now u) \<and>
        (\<exists>b' log. bus' = Some b' \<and> bus_inv b' \<and> enqueued b log b' \<and>
           mset (map unnumbered log) = dueEvents now (ts_timers t))"
proof -
  obtain res ts' b' saved where run: "advanceLoop now (ts_timers t) b [] = (res, ts', b', saved)"
    by (cases "advanceLoop now (ts_timers t) b []")
  show ?thesis
  proof (cases res)
    case (Inl e)
    have "restoreAdvance saved ts' = ts_timers t"
      by (rule advanceLoop_journal [OF run assms(1)]) (simp_all add: restoreAdvance_def)
    moreover have "snd (EventBus_Restore (EventBus_Snapshot b) b') = b"
      using assms(2) by (simp add: EventBus_Snapshot_def EventBus_Restore_spec)
    ultimately show ?thesis
      using assms(3,4) run Inl by (auto simp: Timers_Advance_def Let_def)
  next
    case (Inr u)
    have "advanceLoop now (ts_timers t) b [] = (Inr (), ts', b', saved)" using run Inr by (cases u) simp
    note ok = advanceLoop_success [OF this assms(1,2)]
    have idle: "\<not> timerDue now (expired now u)" if "ts_timers t k = Some u" for k u
    proof -
      have int: "0 \<le> tm_Interval u" using assms(1) that by (auto simp: timers_inv_def)
      show ?thesis
      proof (cases "timerDue now u \<and> tm_Interval u \<noteq> 0")
        case True
        let ?q = "(now - tm_Deadline u) div tm_Interval u"
        have i: "0 < tm_Interval u" "0 \<le> now - tm_Deadline u" using True int by (auto simp: timerDue_def)
        then have "0 \<le> ?q" by (simp add: pos_imp_zdiv_nonneg_iff)
        moreover have "now - tm_Deadline u < (?q + 1) * tm_Interval u"
          using i(1) by (metis add.commute mult.commute div_mult_mod_eq distrib_right mult_1 pos_mod_bound add_less_cancel_left)
        ultimately show ?thesis using True by (simp add: expired_def fires_def timerDue_def algebra_simps)
      qed (auto simp: expired_def timerDue_def)
    qed
    have "bus' = Some b'" "t' = t\<lparr>ts_timers := ts'\<rparr>" "out = Inr ()"
      using assms(3,4) run Inr by (auto simp: Timers_Advance_def Let_def)
    then show ?thesis using ok idle by auto
  qed
qed

definition sampleTimer :: "int \<Rightarrow> Timer" where
  "sampleTimer at = \<lparr>tm_ID = 5, tm_Owner = 7, tm_Name = [0x61], tm_Deadline = at, tm_Interval = 5,
     tm_Active = True, tm_Value = 3\<rparr>"

definition sampleTimers :: Timers where
  "sampleTimers = \<lparr>ts_maxTimers = 4, ts_timers = [5 \<mapsto> sampleTimer 10]\<rparr>"

lemma sampleTimers_inv: "timers_inv (ts_timers sampleTimers)"
  by (simp add: timers_inv_def sampleTimers_def sampleTimer_def MaxInt64_def)

lemma sampleTimer_fields:
  "tm_Interval (sampleTimer at) = 5" "tm_Deadline (sampleTimer at) = at"
  "sampleTimer at\<lparr>tm_Deadline := d\<rparr> = sampleTimer d"
  by (simp_all add: sampleTimer_def)

lemma sample_select: "selectDue 21 (entriesOf [5 \<mapsto> sampleTimer at]) = (if at \<le> 21 then Some (5, sampleTimer at) else None)"
  by (simp add: entriesOf_def selectDue_def timerDue_def sampleTimer_def)

lemma sample_advance:
  assumes "Enqueue (timerEvent (sampleTimer at)) b = (Inr n, b')" "at \<le> 21"
  shows "advanceLoop 21 [5 \<mapsto> sampleTimer at] b saved =
    advanceLoop 21 [5 \<mapsto> sampleTimer (at + 5)] b' (journalPut (5, sampleTimer at) saved)"
  using assms by (subst advanceLoop.simps) (simp add: sample_select Let_def sampleTimer_fields MaxInt64_def)

definition sampleBus :: "u32 \<Rightarrow> nat \<Rightarrow> EventBus" where
  "sampleBus m n = fold (\<lambda>at b. snd (Enqueue (timerEvent (sampleTimer at)) b)) (take n [10, 15, 20]) (NewEventBus m 8)"

theorem timers_advance_transaction_witness:
  "(\<exists>bus' t'. Timers_Advance 21 (Some (NewEventBus 4 8)) sampleTimers = (Inr (), bus', t') \<and>
      (\<forall>k u. ts_timers t' k = Some u \<longrightarrow> \<not> timerDue 21 u)) \<and>
   (\<exists>e. Timers_Advance 21 (Some (NewEventBus 2 8)) sampleTimers = (Inl e, Some (NewEventBus 2 8), sampleTimers))"
proof -
  have q: "Enqueue (timerEvent (sampleTimer 10)) (sampleBus 4 0) = (Inr 1, sampleBus 4 1)"
    "Enqueue (timerEvent (sampleTimer 15)) (sampleBus 4 1) = (Inr 2, sampleBus 4 2)"
    "Enqueue (timerEvent (sampleTimer 20)) (sampleBus 4 2) = (Inr 3, sampleBus 4 3)"
    "Enqueue (timerEvent (sampleTimer 10)) (sampleBus 2 0) = (Inr 1, sampleBus 2 1)"
    "Enqueue (timerEvent (sampleTimer 15)) (sampleBus 2 1) = (Inr 2, sampleBus 2 2)"
    "Enqueue (timerEvent (sampleTimer 20)) (sampleBus 2 2) = (Inl ErrLimitExceeded, sampleBus 2 2)"
    by code_simp+
  have new: "NewEventBus m 8 = sampleBus m 0" for m by (simp add: sampleBus_def)
  have finished: "advanceLoop 21 [5 \<mapsto> sampleTimer 25] b saved = (Inr (), [5 \<mapsto> sampleTimer 25], b, saved)" for b saved
    by (subst advanceLoop.simps) (simp add: sample_select)
  have "\<exists>bus' t'. Timers_Advance 21 (Some (NewEventBus 4 8)) sampleTimers = (Inr (), bus', t')"
  proof -
    have "\<exists>s. advanceLoop 21 [5 \<mapsto> sampleTimer 10] (sampleBus 4 0) [] = (Inr (), [5 \<mapsto> sampleTimer 25], sampleBus 4 3, s)"
      unfolding sample_advance [OF q(1), simplified] sample_advance [OF q(2), simplified]
        sample_advance [OF q(3), simplified] finished by blast
    then show ?thesis by (auto simp: Timers_Advance_def sampleTimers_def new)
  qed
  moreover have "\<exists>e bus' t'. Timers_Advance 21 (Some (NewEventBus 2 8)) sampleTimers = (Inl e, bus', t')"
  proof -
    have full: "\<exists>ts b' s. advanceLoop 21 [5 \<mapsto> sampleTimer 20] (sampleBus 2 2) saved = (Inl ErrLimitExceeded, ts, b', s)" for saved
      by (subst advanceLoop.simps) (simp add: sample_select Let_def q(6))
    have "\<exists>ts b' s. advanceLoop 21 [5 \<mapsto> sampleTimer 10] (sampleBus 2 0) [] = (Inl ErrLimitExceeded, ts, b', s)"
      unfolding sample_advance [OF q(4), simplified] sample_advance [OF q(5), simplified] by (rule full)
    then show ?thesis by (auto simp: Timers_Advance_def sampleTimers_def new)
  qed
  ultimately obtain bus1 t1 e bus2 t2 where
    run: "Timers_Advance 21 (Some (NewEventBus 4 8)) sampleTimers = (Inr (), bus1, t1)"
      "Timers_Advance 21 (Some (NewEventBus 2 8)) sampleTimers = (Inl e, bus2, t2)" by blast
  note tr = timers_advance_transaction [OF sampleTimers_inv NewEventBus_inv, of 21]
  show ?thesis using tr [OF _ run(1)] tr [OF _ run(2)] run by simp
qed

subsection \<open>The timer service\<close>

text \<open>
  A consistent service: every timer of the table is a live registry object of kind timer
  with the owner the timer names.
\<close>

definition timer_ok :: "Registry \<Rightarrow> Timer \<Rightarrow> bool" where
  "timer_ok r u \<longleftrightarrow> validTimerName (tm_Name u) \<and> Validate (tm_ID u) (tm_Owner u) KindTimer r = Inr ()"

definition service_inv :: "Registry \<times> Timers \<Rightarrow> bool" where
  "service_inv s \<longleftrightarrow> (let (r, t) = s in
     registry_inv r \<and> timers_inv (ts_timers t) \<and> ts_maxTimers t \<noteq> 0 \<and>
     card (dom (ts_timers t)) \<le> unat (ts_maxTimers t) \<and>
     (\<forall>k u. ts_timers t k = Some u \<longrightarrow> timer_ok r u))"

lemma finite_timers [simp]: "finite (dom (ts :: timers))"
  by (rule finite_subset [OF subset_UNIV]) simp

lemma Validate_lookup: "Validate i owner kind r = Inr u \<Longrightarrow> \<exists>e. lookup i r = Inr e"
  by (auto simp: Validate_def split: sum.splits)

lemma lookup_same:
  "lookup j r = Inr e \<Longrightarrow> reg_entries r' (ServiceID_Slot j) = reg_entries r (ServiceID_Slot j) \<Longrightarrow>
     lookup j r' = Inr e"
  by (cases "reg_entries r (ServiceID_Slot j)") (auto simp: lookup_def Let_def split: if_splits)

lemma Validate_create:
  assumes "registry_inv r" "Create owner kind r = (Inr i, r')" "Validate j o' kind' r = Inr ()"
  shows "Validate j o' kind' r' = Inr ()"
proof -
  note c = Create_cases [OF assms(1,2)]
  obtain e where e: "lookup j r = Inr e" using Validate_lookup [OF assms(3)] ..
  then have "ServiceID_Slot j \<noteq> ServiceID_Slot i" using lookup_Inr(1) [OF assms(1) e] c(1) by auto
  then have "lookup j r' = Inr e" by (intro lookup_same [OF e]) (simp add: c(4))
  then show ?thesis using assms(3) e by (simp add: Validate_def)
qed

lemma Validate_destroy:
  assumes "registry_inv r" "lookup i r = Inr e" "Validate j o' kind' r = Inr ()" "j \<noteq> i"
  shows "Validate j o' kind' (removeEntry i r) = Inr ()"
proof -
  obtain f where f: "lookup j r = Inr f" using Validate_lookup [OF assms(3)] ..
  have "ServiceID_Slot j \<noteq> ServiceID_Slot i"
    using lookup_Inr(4) [OF assms(1,2)] lookup_Inr(4) [OF assms(1) f] assms(4) ServiceID_eq_iff by metis
  then have "lookup j (removeEntry i r) = Inr f"
    by (intro lookup_same [OF f]) (simp add: removeEntry_inv(2) [OF assms(1,2)])
  then show ?thesis using assms(3) f by (simp add: Validate_def)
qed

datatype timerOp =
    OpDefine OwnerID name
  | OpSet ServiceID OwnerID int int int
  | OpCancel ServiceID OwnerID
  | OpDestroyTimer ServiceID OwnerID
  | OpAdvance int EventBus
  | OpCreateOther OwnerID ObjectKind

text \<open>Durations are 64-bit values: arguments are taken as such.\<close>

fun timerStep :: "timerOp \<Rightarrow> Registry \<times> Timers \<Rightarrow> Registry \<times> Timers" where
  "timerStep (OpDefine owner n) s = snd (Timers_Define owner n s)"
| "timerStep (OpSet i owner d iv v) (r, t) = (r, snd (Timers_Set i owner (wrap64 d) (wrap64 iv) v r t))"
| "timerStep (OpCancel i owner) (r, t) = (r, snd (Timers_Cancel i owner r t))"
| "timerStep (OpDestroyTimer i owner) s = fst (snd (Timers_Destroy i owner None s))"
| "timerStep (OpAdvance now b) (r, t) =
     (r, if bus_inv b then snd (snd (Timers_Advance now (Some b) t)) else t)"
| "timerStep (OpCreateOther owner kind) (r, t) = (snd (Create owner kind r), t)"

lemma wrap64_le: "wrap64 x \<le> MaxInt64"
  using pos_mod_bound [of "2 ^ 64" "x + 2 ^ 63"] by (simp add: wrap64_def MaxInt64_def)

lemma getTimer_Inr:
  assumes "service_inv (r, t)" "getTimer i owner r t = Inr u"
  shows "ts_timers t i = Some u" "tm_ID u = i" "timer_ok r u" "tm_Owner u = owner"
proof -
  show u: "ts_timers t i = Some u"
    using assms(2) by (auto simp: getTimer_def split: sum.splits option.splits)
  show i: "tm_ID u = i" and ok: "timer_ok r u" using assms(1) u by (auto simp: service_inv_def timers_inv_def)
  have "Validate i owner KindTimer r = Inr ()" using assms(2) by (auto simp: getTimer_def split: sum.splits)
  then show "tm_Owner u = owner"
    using ok i by (auto simp: timer_ok_def Validate_def split: sum.splits if_splits)
qed

lemma putTimer_inv:
  assumes "service_inv (r, t)" "getTimer i owner r t = Inr u"
    "tm_ID u' = tm_ID u" "tm_Owner u' = tm_Owner u" "tm_Name u' = tm_Name u"
    "0 \<le> tm_Deadline u'" "0 \<le> tm_Interval u'" "tm_Deadline u' \<le> MaxInt64" "tm_Interval u' \<le> MaxInt64"
  shows "service_inv (r, putTimer i u' t)"
proof -
  note g = getTimer_Inr [OF assms(1,2)]
  have "i \<in> dom (ts_timers t)" using g(1) by auto
  then show ?thesis
    using assms g by (simp add: service_inv_def putTimer_def timers_inv_def timer_ok_def insert_absorb) metis
qed

lemma Timers_Define_inv:
  assumes "service_inv (r, t)"
  shows "service_inv (snd (Timers_Define owner n (r, t)))"
proof (cases "validTimerName n \<and> \<not> ts_maxTimers t \<le> of_nat (card (dom (ts_timers t)))")
  case True
  show ?thesis
  proof (cases "Create owner KindTimer r")
    case (Pair out r')
    show ?thesis
    proof (cases out)
      case (Inl e)
      then show ?thesis using True Pair assms Create_error [of owner KindTimer r e r'] by (simp add: Timers_Define_def)
    next
      case (Inr i)
      have inv: "registry_inv r" using assms by (simp add: service_inv_def)
      note c = Create_cases [OF inv Pair [unfolded Inr]]
      let ?u = "\<lparr>tm_ID = i, tm_Owner = owner, tm_Name = n, tm_Deadline = 0, tm_Interval = 0,
         tm_Active = False, tm_Value = 0\<rparr>"
      have "lookup i r' = Inr \<lparr>re_id = i, re_kind = KindTimer, re_owner = owner, re_refs = 1\<rparr>"
        by (rule Create_live [OF inv Pair [unfolded Inr]])
      then have new: "timer_ok r' ?u" using True by (simp add: timer_ok_def Validate_def)
      have old: "timer_ok r' u" if "timer_ok r u" for u
        using that Validate_create [OF inv Pair [unfolded Inr]] by (simp add: timer_ok_def)
      have "card (dom (ts_timers t)) < unat (ts_maxTimers t)"
      proof -
        have "card (dom (ts_timers t)) \<le> unat (ts_maxTimers t)" using assms by (simp add: service_inv_def)
        moreover from this have "unat (of_nat (card (dom (ts_timers t))) :: u32) = card (dom (ts_timers t))"
          using unsigned_less [of "ts_maxTimers t", where ?'a = nat] by (intro unat_of_nat_u32) simp
        ultimately show ?thesis using True by (simp add: word_le_nat_alt)
      qed
      then have "card (dom ((ts_timers t)(i \<mapsto> ?u))) \<le> unat (ts_maxTimers t)"
        by (simp add: card_insert_if)
      then show ?thesis
        using True Pair Inr assms new old c(6)
        by (auto simp: Timers_Define_def service_inv_def timers_inv_def MaxInt64_def)
    qed
  qed
qed (use assms in \<open>auto simp: Timers_Define_def\<close>)

lemma Timers_Destroy_inv:
  assumes "service_inv (r, t)"
  shows "service_inv (fst (snd (Timers_Destroy i owner bus (r, t))))"
proof (cases "getTimer i owner r t")
  case (Inr u)
  note g = getTimer_Inr [OF assms Inr]
  have v: "Validate i owner KindTimer r = Inr ()" using Inr by (auto simp: getTimer_def split: sum.splits)
  obtain e where e: "lookup i r = Inr e" using Validate_lookup [OF v] ..
  have inv: "registry_inv r" using assms by (simp add: service_inv_def)
  have "timer_ok (removeEntry i r) w" if "ts_timers t k = Some w" "k \<noteq> i" for k w
    using assms that Validate_destroy [OF inv e, of "tm_ID w"]
    by (auto simp: service_inv_def timers_inv_def timer_ok_def)
  moreover have "card (dom ((ts_timers t)(i := None))) \<le> unat (ts_maxTimers t)"
    using assms card_mono [of "dom (ts_timers t)" "dom ((ts_timers t)(i := None))"] by (auto simp: service_inv_def)
  ultimately show ?thesis
    using Inr v assms removeEntry_inv(1) [OF inv e]
    by (auto simp: Timers_Destroy_def Registry_Destroy_def service_inv_def timers_inv_def)
qed (use assms in \<open>simp add: Timers_Destroy_def\<close>)

lemma expired_fields [simp]:
  "tm_ID (expired now u) = tm_ID u" "tm_Owner (expired now u) = tm_Owner u" "tm_Name (expired now u) = tm_Name u"
  "tm_Interval (expired now u) = tm_Interval u" "tm_Value (expired now u) = tm_Value u"
  by (simp_all add: expired_def)

lemma advanceLoop_inv:
  assumes "advanceLoop now ts b saved = (out, ts', b', saved')" "timers_inv ts"
  shows "timers_inv ts'"
  using assms
proof (induction now ts b saved arbitrary: ts' b' saved' rule: advanceLoop.induct)
  case (1 now ts b saved)
  show ?case
  proof (cases "selectDue now (entriesOf ts)")
    case None
    then show ?thesis using 1(3,4) by (auto simp: advanceLoop.simps [of now ts])
  next
    case (Some kt)
    obtain k t where kt: "kt = (k, t)" by (cases kt)
    note sel = Some [unfolded kt]
    note s = selectDue_timers [OF 1(4) sel]
    note inv = fireOnce_inv [OF 1(4) s(1)]
    obtain q b1 where q: "Enqueue (timerEvent t) b = (q, b1)" by (cases "Enqueue (timerEvent t) b")
    show ?thesis
    proof (cases q)
      case (Inl e)
      then show ?thesis using 1(3,4) sel q by (simp add: advanceLoop.simps [of now ts] Let_def)
    next
      case (Inr n)
      note qn = q [unfolded Inr]
      consider (once) "tm_Interval t = 0" | (over) "tm_Interval t \<noteq> 0" "MaxInt64 - tm_Interval t < tm_Deadline t"
        | (again) "tm_Interval t \<noteq> 0" "\<not> MaxInt64 - tm_Interval t < tm_Deadline t" by blast
      then show ?thesis
      proof cases
        case once
        have f: "fireOnce t = t\<lparr>tm_Active := False\<rparr>" using once by (simp add: fireOnce_def)
        have "advanceLoop now (ts(k \<mapsto> t\<lparr>tm_Active := False\<rparr>)) b1 (journalPut (k, t) saved) = (out, ts', b', saved')"
          using 1(3) sel qn once by (simp add: advanceLoop.simps [of now ts] Let_def)
        from 1(1) [OF sel refl refl qn [symmetric] refl once this inv [unfolded f]] once
        show ?thesis by simp
      next
        case over
        then show ?thesis using 1(3,4) sel qn by (simp add: advanceLoop.simps [of now ts] Let_def)
      next
        case again
        have f: "fireOnce t = t\<lparr>tm_Deadline := tm_Deadline t + tm_Interval t\<rparr>"
          using again by (simp add: fireOnce_def)
        have "advanceLoop now (ts(k \<mapsto> t\<lparr>tm_Deadline := tm_Deadline t + tm_Interval t\<rparr>)) b1
            (journalPut (k, t) saved) = (out, ts', b', saved')"
          using 1(3) sel qn again by (simp add: advanceLoop.simps [of now ts] Let_def)
        from 1(2) [OF sel refl refl qn [symmetric] refl again this inv [unfolded f]] again
        show ?thesis by simp
      qed
    qed
  qed
qed

lemma Timers_Advance_inv:
  assumes "service_inv (r, t)" "bus_inv b"
  shows "service_inv (r, snd (snd (Timers_Advance now (Some b) t)))"
proof (cases "now < 0")
  case False
  have inv: "timers_inv (ts_timers t)" using assms(1) by (simp add: service_inv_def)
  obtain res ts' b' saved where run: "advanceLoop now (ts_timers t) b [] = (res, ts', b', saved)"
    by (cases "advanceLoop now (ts_timers t) b []")
  show ?thesis
  proof (cases res)
    case (Inl e)
    have "restoreAdvance saved ts' = ts_timers t"
      by (rule advanceLoop_journal [OF run inv]) (simp_all add: restoreAdvance_def)
    then show ?thesis using False assms run Inl by (simp add: Timers_Advance_def Let_def)
  next
    case (Inr u)
    then have run': "advanceLoop now (ts_timers t) b [] = (Inr (), ts', b', saved)" using run by (cases u) simp
    have ts': "ts' = (\<lambda>k. map_option (expired now) (ts_timers t k))"
      using advanceLoop_success [OF run' inv assms(2)] by blast
    have "dom ts' = dom (ts_timers t)" by (auto simp: ts' dom_def)
    then have "service_inv (r, t\<lparr>ts_timers := ts'\<rparr>)"
      using assms(1) advanceLoop_inv [OF run inv] by (auto simp: service_inv_def ts' timer_ok_def)
    then show ?thesis using False run' by (simp add: Timers_Advance_def)
  qed
qed (use assms in \<open>simp add: Timers_Advance_def\<close>)

lemma timerStep_inv:
  assumes "service_inv s"
  shows "service_inv (timerStep a s)"
proof -
  obtain r t where s: "s = (r, t)" by (cases s)
  note inv = assms [unfolded s]
  show ?thesis
  proof (cases a)
    case (OpDefine owner n)
    then show ?thesis using Timers_Define_inv [OF inv] by (simp add: s)
  next
    case (OpSet i owner d iv v)
    show ?thesis
    proof (cases "getTimer i owner r t")
      case (Inr u)
      show ?thesis
      proof (cases "wrap64 d < 0 \<or> wrap64 iv < 0")
        case False
        then have "service_inv (r, putTimer i (u\<lparr>tm_Deadline := wrap64 d, tm_Interval := wrap64 iv,
            tm_Value := v, tm_Active := True\<rparr>) t)"
          by (intro putTimer_inv [OF inv Inr]) (simp_all add: wrap64_le)
        then show ?thesis using False Inr by (simp add: OpSet s Timers_Set_def)
      qed (use inv Inr in \<open>simp add: OpSet s Timers_Set_def\<close>)
    qed (use inv in \<open>simp add: OpSet s Timers_Set_def\<close>)
  next
    case (OpCancel i owner)
    show ?thesis
    proof (cases "getTimer i owner r t")
      case (Inr u)
      have "ts_timers t i = Some u" "timers_inv (ts_timers t)"
        using getTimer_Inr [OF inv Inr] inv by (simp_all add: service_inv_def)
      then have "service_inv (r, putTimer i (u\<lparr>tm_Active := False\<rparr>) t)"
        by (intro putTimer_inv [OF inv Inr]) (auto simp: timers_inv_def)
      then show ?thesis using Inr by (simp add: OpCancel s Timers_Cancel_def)
    qed (use inv in \<open>simp add: OpCancel s Timers_Cancel_def\<close>)
  next
    case (OpDestroyTimer i owner)
    then show ?thesis using Timers_Destroy_inv [OF inv] by (simp add: s)
  next
    case (OpAdvance now b)
    then show ?thesis using Timers_Advance_inv [OF inv] inv by (simp add: s)
  next
    case (OpCreateOther owner kind)
    show ?thesis
    proof (cases "Create owner kind r")
      case (Pair out r')
      show ?thesis
      proof (cases out)
        case (Inl e)
        then show ?thesis using Pair inv Create_error [of owner kind r e r'] by (simp add: OpCreateOther s)
      next
        case (Inr i)
        have reg: "registry_inv r" using inv by (simp add: service_inv_def)
        show ?thesis
          using Pair Inr inv Create_cases(6) [OF reg Pair [unfolded Inr]]
            Validate_create [OF reg Pair [unfolded Inr]]
          by (auto simp: OpCreateOther s service_inv_def timer_ok_def)
      qed
    qed
  qed
qed

interpretation timer_service: scripted service_inv timerStep
  by unfold_locales (rule timerStep_inv)

lemma NewTimers_inv: "registry_inv r \<Longrightarrow> service_inv (r, NewTimers m)"
  by (auto simp: service_inv_def NewTimers_def timers_inv_def)

lemma loadTimers_entries:
  assumes "\<And>k. k \<in> set ks \<Longrightarrow> \<exists>u. ts k = Some u \<and> tm_ID u = k \<and> 0 \<le> tm_Deadline u \<and> 0 \<le> tm_Interval u \<and> timer_ok r u"
    and "sorted_wrt (<) ks" "index = 0 \<or> (\<forall>k \<in> set ks. previous < k)"
  shows "loadTimers r index previous (map (\<lambda>k. the (ts k)) ks) acc = Inr (acc ++ map_of (map (\<lambda>k. (k, the (ts k))) ks))"
  using assms
proof (induction ks arbitrary: index previous acc)
  case (Cons k ks)
  obtain u where u: "ts k = Some u" "tm_ID u = k" "0 \<le> tm_Deadline u" "0 \<le> tm_Interval u" "timer_ok r u"
    using Cons.prems(1) [of k] by auto
  obtain e where "lookup k r = Inr e" using Validate_lookup u(2,5) unfolding timer_ok_def by metis
  then have valid: "ServiceID_Valid k" by (auto simp: lookup_def Let_def split: if_splits option.splits)
  have "k \<notin> set ks" using Cons.prems(2) by auto
  then have fresh: "k \<notin> dom (map_of (map (\<lambda>k. (k, the (ts k))) ks))" by (auto simp: dom_map_of_conv_image_fst)
  have rest: "loadTimers r (index + 1) k (map (\<lambda>k. the (ts k)) ks) (acc(k \<mapsto> u)) =
      Inr (acc(k \<mapsto> u) ++ map_of (map (\<lambda>k. (k, the (ts k))) ks))"
    using Cons.prems by (intro Cons.IH) auto
  have "loadTimers r index previous (map (\<lambda>k. the (ts k)) (k # ks)) acc =
      loadTimers r (index + 1) k (map (\<lambda>k. the (ts k)) ks) (acc(k \<mapsto> u))"
    using Cons.prems(3) u valid by (auto simp: timer_ok_def)
  also note rest
  also note map_add_Cons [OF fresh]
  also have "(k, u) # map (\<lambda>k. (k, the (ts k))) ks = map (\<lambda>k. (k, the (ts k))) (k # ks)" using u(1) by simp
  finally show ?case .
qed simp

lemma loadTimers_errors: "loadTimers r index previous us ts = Inl e \<Longrightarrow> e = ErrInvalidState"
  by (induction r index previous us ts rule: loadTimers.induct) (auto split: if_splits)

text \<open>What a restore accepts.\<close>

definition restorable :: "Registry \<Rightarrow> TimersState \<Rightarrow> bool" where
  "restorable r st \<longleftrightarrow> tss_MaxTimers st \<noteq> 0 \<and> length (tss_Timers st) \<le> unat (tss_MaxTimers st) \<and>
     sorted_wrt (\<lambda>x y. tm_ID x < tm_ID y) (tss_Timers st) \<and>
     (\<forall>u \<in> set (tss_Timers st). 0 \<le> tm_Deadline u \<and> 0 \<le> tm_Interval u \<and> timer_ok r u)"

lemma timer_ok_Valid: "timer_ok r u \<Longrightarrow> ServiceID_Valid (tm_ID u)"
  by (auto simp: timer_ok_def Validate_def lookup_def Let_def split: if_splits option.splits sum.splits)

lemma loadTimers_accepts:
  assumes "sorted_wrt (\<lambda>x y. tm_ID x < tm_ID y) us"
    "index = 0 \<or> (\<forall>u \<in> set us. previous < tm_ID u)"
    "\<forall>u \<in> set us. 0 \<le> tm_Deadline u \<and> 0 \<le> tm_Interval u \<and> timer_ok r u"
  shows "loadTimers r index previous us ts \<noteq> Inl e"
  using assms
proof (induction us arbitrary: index previous ts)
  case (Cons u us)
  have "loadTimers r (index + 1) (tm_ID u) us (ts(tm_ID u \<mapsto> u)) \<noteq> Inl e"
    using Cons.prems by (intro Cons.IH) auto
  moreover have "ServiceID_Valid (tm_ID u)" by (rule timer_ok_Valid [where r = r]) (use Cons.prems(3) in simp)
  ultimately show ?case using Cons.prems by (auto simp: timer_ok_def)
qed simp

lemma loadTimers_refuses:
  assumes "loadTimers r index previous us ts = Inr ts'"
  shows "sorted_wrt (\<lambda>x y. tm_ID x < tm_ID y) us \<and> (index = 0 \<or> (\<forall>u \<in> set us. previous < tm_ID u)) \<and>
    (\<forall>u \<in> set us. 0 \<le> tm_Deadline u \<and> 0 \<le> tm_Interval u \<and> timer_ok r u)"
  using assms
proof (induction r index previous us ts rule: loadTimers.induct)
  case (2 r index previous u us ts)
  have ok: "ServiceID_Valid (tm_ID u)" "index = 0 \<or> previous < tm_ID u" "timer_ok r u"
    "0 \<le> tm_Deadline u" "0 \<le> tm_Interval u"
    using 2(2) by (auto simp: timer_ok_def split: if_splits)
  let ?bad = "\<not> ServiceID_Valid (tm_ID u) \<or> index \<noteq> 0 \<and> tm_ID u \<le> previous \<or>
      \<not> validTimerName (tm_Name u) \<or> tm_Deadline u < 0 \<or> tm_Interval u < 0 \<or>
      Validate (tm_ID u) (tm_Owner u) KindTimer r \<noteq> Inr ()"
  have fine: "\<not> ?bad" using 2(2) by (auto split: if_splits)
  then have "loadTimers r (index + 1) (tm_ID u) us (ts(tm_ID u \<mapsto> u)) = Inr ts'"
    using 2(2) by (simp only: loadTimers.simps if_False)
  note ih = 2(1) [OF fine this]
  show ?case using ih ok by force
qed simp

text \<open>
  Whatever sequence of definitions, settings, cancellations, destructions, advances and
  creations of other services runs from a consistent service, the table stays consistent
  with the registry, and its snapshot restores it exactly into any timer service on that
  registry.  A snapshot is accepted exactly when its limit is positive and not exceeded, its
  identifiers ascend and each timer has a valid name, no negative time and a live registry
  entry of its owner; a refused one changes nothing.
\<close>

theorem timers_snapshot_roundtrip:
  assumes "service_inv s" and "fold timerStep script s = (r, t)"
  shows "service_inv (r, t) \<and> restorable r (Timers_Snapshot t) \<and>
    Timers_Restore (Timers_Snapshot t) r t0 = (Inr (), t) \<and>
    (\<forall>st. if restorable r st then fst (Timers_Restore st r t) = Inr ()
       else Timers_Restore st r t = (Inl ErrInvalidState, t))"
proof -
  have inv: "service_inv (r, t)" using timer_service.script_inv [OF assms(1), of script] assms(2) by simp
  let ?us = "tss_Timers (Timers_Snapshot t)" and ?ks = "sorted_list_of_set (dom (ts_timers t))"
  have us: "?us = map (\<lambda>k. the (ts_timers t k)) ?ks"
    by (simp add: Timers_Snapshot_def entriesOf_def)
  have load: "loadTimers r 0 0 ?us Map.empty = Inr (ts_timers t)"
    using inv map_of_entriesOf [of "ts_timers t"] unfolding us
    by (subst loadTimers_entries [where ts = "ts_timers t"])
      (auto simp: service_inv_def timers_inv_def entriesOf_def)
  moreover have "\<not> unat (ts_maxTimers t) < length ?us" "ts_maxTimers t \<noteq> 0"
    using inv by (simp_all add: us service_inv_def)
  ultimately have restores: "Timers_Restore (Timers_Snapshot t) r t0 = (Inr (), t)" for t0
    by (simp add: Timers_Restore_def) (simp add: Timers_Snapshot_def)
  have iff: "if restorable r st then fst (Timers_Restore st r t) = Inr ()
       else Timers_Restore st r t = (Inl ErrInvalidState, t)" for st
  proof (cases "loadTimers r 0 0 (tss_Timers st) Map.empty")
    case (Inl e)
    have "\<not> restorable r st"
    proof
      assume "restorable r st"
      then have "loadTimers r 0 0 (tss_Timers st) Map.empty \<noteq> Inl e"
        by (intro loadTimers_accepts) (simp_all add: restorable_def)
      then show False using Inl by simp
    qed
    then show ?thesis using Inl loadTimers_errors [OF Inl] by (simp add: Timers_Restore_def)
  next
    case (Inr ts')
    then show ?thesis
      using loadTimers_refuses [OF Inr] by (auto simp: Timers_Restore_def restorable_def)
  qed
  moreover have "restorable r (Timers_Snapshot t)"
    using iff [of "Timers_Snapshot t"] restores [of t] by (auto split: if_splits)
  ultimately show ?thesis using inv restores by blast
qed

lemma NewRegistry_service: "service_inv (NewRegistry m, NewTimers n)"
  using registry.script_inv [OF NewRegistry_inv, where script = "[]"] by (simp add: NewTimers_inv)

theorem timers_snapshot_roundtrip_witness:
  "\<exists>r t. fold timerStep [OpDefine 7 [0x61], OpCreateOther 7 KindTimer, OpDefine 7 [0x62]] (NewRegistry 8, NewTimers 4) = (r, t) \<and>
     Timers_Restore (Timers_Snapshot t) r (NewTimers 1) = (Inr (), t)"
proof -
  obtain r t where run: "fold timerStep [OpDefine 7 [0x61], OpCreateOther 7 KindTimer, OpDefine 7 [0x62]]
      (NewRegistry 8, NewTimers 4) = (r, t)" by (rule prod.exhaust)
  show ?thesis using timers_snapshot_roundtrip [OF NewRegistry_service run] run by blast
qed

end
