(* ===== verification/Runtime_Random.thy ===== *)
theory Runtime_Random
  imports Runtime_Registry "HOL-Library.List_Lexorder"
begin

text \<open>
  Deterministic random numbers, src/runtime/random.go: named streams of three historical
  generators - xoshiro256**, the 48-bit generator of java.util.Random and a 32-bit linear
  congruential generator - with counted draws, unbiased bounded values and snapshots.  Names
  are byte strings in byte order; a stream is mutated through its pointer, which is its name
  here.
\<close>

subsection \<open>State\<close>

text \<open>The algorithm is a string of the saved state; other strings than the three are invalid.\<close>

datatype RNGAlgorithm = RNGXoshiro256StarStar | RNGJava48 | RNGLCG214013Output15 | RNGOther name

definition RNGAlgorithm_valid :: "RNGAlgorithm \<Rightarrow> bool" where
  "RNGAlgorithm_valid a \<longleftrightarrow> a = RNGXoshiro256StarStar \<or> a = RNGJava48 \<or> a = RNGLCG214013Output15"

definition javaRandomMultiplier :: u64 where "javaRandomMultiplier = 0x5deece66d"
definition javaRandomMask :: u64 where "javaRandomMask = push_bit 48 1 - 1"

type_synonym rngWords = "u64 \<times> u64 \<times> u64 \<times> u64"

record rngStream =
  rng_algorithm :: RNGAlgorithm
  rng_state :: rngWords
  rng_draws :: u64

record Random =
  rnd_seed :: u64
  rnd_maxStreams :: u32
  rnd_streams :: "name \<rightharpoonup> rngStream"

definition DefaultMaxStreams :: u32 where "DefaultMaxStreams = 64"

definition NewRandom :: "u64 \<Rightarrow> u32 \<Rightarrow> Random" where
  "NewRandom seed maxStreams =
     \<lparr>rnd_seed = seed, rnd_maxStreams = (if maxStreams = 0 then DefaultMaxStreams else maxStreams),
      rnd_streams = Map.empty\<rparr>"

definition streamCount :: "Random \<Rightarrow> u32" where
  "streamCount r = of_nat (card (dom (rnd_streams r)))"

definition putStream :: "name \<Rightarrow> rngStream \<Rightarrow> Random \<Rightarrow> Random" where
  "putStream n s r = r\<lparr>rnd_streams := (rnd_streams r)(n \<mapsto> s)\<rparr>"

definition validRandomStreamName :: "name \<Rightarrow> bool" where
  "validRandomStreamName n \<longleftrightarrow> \<not> (TrimSpaceEmpty n \<or> 64 < length n \<or> hasNUL n)"

definition rotateLeft :: "u64 \<Rightarrow> nat \<Rightarrow> u64" where
  "rotateLeft v n = push_bit n v OR drop_bit (64 - n) v"

definition hashString64 :: "name \<Rightarrow> u64" where
  "hashString64 s = foldl (\<lambda>hash c. (hash XOR ucast c) * 1099511628211) 14695981039346656037 s"

subsection \<open>Streams\<close>

definition splitmix :: "u64 \<Rightarrow> u64" where
  "splitmix seed =
     (let v = seed;
          v = (v XOR drop_bit 30 v) * 0xbf58476d1ce4e5b9;
          v = (v XOR drop_bit 27 v) * 0x94d049bb133111eb
      in v XOR drop_bit 31 v)"

definition initialWords :: "u64 \<Rightarrow> rngWords" where
  "initialWords seed =
     (let g = 0x9e3779b97f4a7c15;
          w = (splitmix (seed + g), splitmix (seed + g + g), splitmix (seed + g + g + g),
               splitmix (seed + g + g + g + g))
      in if w = (0, 0, 0, 0) then (1, 0, 0, 0) else w)"

definition ensureStream :: "name \<Rightarrow> RNGAlgorithm \<Rightarrow> Random \<Rightarrow> (serviceError + rngStream) \<times> Random" where
  "ensureStream n algorithm r =
     (if \<not> validRandomStreamName n then (Inl ErrInvalidArgument, r)
      else if \<not> RNGAlgorithm_valid algorithm then (Inl ErrInvalidArgument, r)
      else case rnd_streams r n of
        Some s \<Rightarrow> (Inr s, r)
      | None \<Rightarrow>
          if algorithm = RNGLCG214013Output15 then (Inl ErrNotFound, r)
          else if rnd_maxStreams r \<le> streamCount r then (Inl ErrLimitExceeded, r)
          else
            let seed = rnd_seed r XOR hashString64 n;
                s = \<lparr>rng_algorithm = algorithm,
                     rng_state = (if algorithm = RNGJava48 then (0x5deece66d, 0, 0, 0) else initialWords seed),
                     rng_draws = 0\<rparr>
            in (Inr s, putStream n s r))"

definition xoshiroStream :: "name \<Rightarrow> Random \<Rightarrow> (serviceError + rngStream) \<times> Random" where
  "xoshiroStream n r =
     (case ensureStream n RNGXoshiro256StarStar r of
        (Inl e, r) \<Rightarrow> (Inl e, r)
      | (Inr s, r) \<Rightarrow> if rng_algorithm s \<noteq> RNGXoshiro256StarStar then (Inl ErrInvalidState, r) else (Inr s, r))"

subsection \<open>The generators\<close>

definition SetLCG214013Seed :: "name \<Rightarrow> u32 \<Rightarrow> Random \<Rightarrow> (serviceError + unit) \<times> Random" where
  "SetLCG214013Seed n seed r =
     (if \<not> validRandomStreamName n then (Inl ErrInvalidArgument, r)
      else
        let seeded = \<lparr>rng_algorithm = RNGLCG214013Output15, rng_state = (ucast seed, 0, 0, 0), rng_draws = 0\<rparr> in
        (case rnd_streams r n of
           Some s \<Rightarrow>
             if rng_algorithm s \<noteq> RNGLCG214013Output15 then (Inl ErrInvalidState, r)
             else (Inr (), putStream n seeded r)
         | None \<Rightarrow>
             if rnd_maxStreams r \<le> streamCount r then (Inl ErrLimitExceeded, r)
             else (Inr (), putStream n seeded r)))"

definition LCG214013Output15 :: "name \<Rightarrow> Random \<Rightarrow> (serviceError + u32) \<times> Random" where
  "LCG214013Output15 n r =
     (if \<not> validRandomStreamName n then (Inl ErrInvalidArgument, r)
      else case rnd_streams r n of
        None \<Rightarrow> (Inl ErrNotFound, r)
      | Some s \<Rightarrow>
          if rng_algorithm s \<noteq> RNGLCG214013Output15 then (Inl ErrInvalidState, r)
          else if rng_draws s = - 1 then (Inl ErrLimitExceeded, r)
          else
            let (s0, rest) = rng_state s;
                state = (ucast s0 :: u32) * 214013 + 2531011
            in (Inr (drop_bit 16 state AND 0x7fff),
                putStream n (s\<lparr>rng_state := (ucast state, rest), rng_draws := rng_draws s + 1\<rparr>) r))"

definition xoshiroNext :: "rngWords \<Rightarrow> rngWords" where
  "xoshiroNext w =
     (let (s0, s1, s2, s3) = w;
          t = push_bit 17 s1;
          s2 = s2 XOR s0;
          s3 = s3 XOR s1;
          s1 = s1 XOR s2;
          s0 = s0 XOR s3;
          s2 = s2 XOR t;
          s3 = rotateLeft s3 45
      in (s0, s1, s2, s3))"

definition xoshiroOutput :: "rngWords \<Rightarrow> u64" where
  "xoshiroOutput w = (let (s0, s1, s2, s3) = w in rotateLeft (s1 * 5) 7 * 9)"

definition Random_Uint64 :: "name \<Rightarrow> Random \<Rightarrow> (serviceError + u64) \<times> Random" where
  "Random_Uint64 n r =
     (case xoshiroStream n r of
        (Inl e, r) \<Rightarrow> (Inl e, r)
      | (Inr s, r) \<Rightarrow>
          if rng_algorithm s \<noteq> RNGXoshiro256StarStar then (Inl ErrInvalidState, r)
          else if rng_draws s = - 1 then (Inl ErrLimitExceeded, r)
          else (Inr (xoshiroOutput (rng_state s)),
                putStream n (s\<lparr>rng_state := xoshiroNext (rng_state s), rng_draws := rng_draws s + 1\<rparr>) r))"

definition JavaRandomSeed :: "u64 \<Rightarrow> u64" where
  "JavaRandomSeed seed = (seed XOR javaRandomMultiplier) AND javaRandomMask"

definition SetJavaSeed :: "name \<Rightarrow> u64 \<Rightarrow> Random \<Rightarrow> (serviceError + unit) \<times> Random" where
  "SetJavaSeed n seed r =
     (case ensureStream n RNGJava48 r of
        (Inl e, r) \<Rightarrow> (Inl e, r)
      | (Inr s, r) \<Rightarrow>
          (Inr (), putStream n \<lparr>rng_algorithm = RNGJava48, rng_state = (JavaRandomSeed seed, 0, 0, 0), rng_draws = 0\<rparr> r))"

definition JavaRandomBits :: "u64 \<Rightarrow> u8 \<Rightarrow> (serviceError + u32) \<times> u64" where
  "JavaRandomBits state bits =
     (if bits = 0 \<or> 32 < bits then (Inl ErrInvalidArgument, state)
      else
        let state = (state * javaRandomMultiplier + 0xb) AND javaRandomMask
        in (Inr (ucast (drop_bit (unat (48 - bits)) state)), state))"

definition JavaBits :: "name \<Rightarrow> u8 \<Rightarrow> Random \<Rightarrow> (serviceError + u32) \<times> Random" where
  "JavaBits n bits r =
     (if bits = 0 \<or> 32 < bits then (Inl ErrInvalidArgument, r)
      else case ensureStream n RNGJava48 r of
        (Inl e, r) \<Rightarrow> (Inl e, r)
      | (Inr s, r) \<Rightarrow>
          if rng_algorithm s \<noteq> RNGJava48 then (Inl ErrInvalidState, r)
          else if rng_draws s = - 1 then (Inl ErrLimitExceeded, r)
          else
            let (s0, rest) = rng_state s in
            (case JavaRandomBits s0 bits of
               (Inl e, s0) \<Rightarrow> (Inl e, putStream n (s\<lparr>rng_state := (s0, rest)\<rparr>) r)
             | (Inr v, s0) \<Rightarrow> (Inr v, putStream n (s\<lparr>rng_state := (s0, rest), rng_draws := rng_draws s + 1\<rparr>) r)))"

definition JavaInt :: "name \<Rightarrow> Random \<Rightarrow> (serviceError + int) \<times> Random" where
  "JavaInt n r = (case JavaBits n 32 r of (Inl e, r) \<Rightarrow> (Inl e, r) | (Inr v, r) \<Rightarrow> (Inr (sint v), r))"

definition Random_Uint32 :: "name \<Rightarrow> Random \<Rightarrow> (serviceError + u32) \<times> Random" where
  "Random_Uint32 n r =
     (case Random_Uint64 n r of (Inl e, r) \<Rightarrow> (Inl e, r) | (Inr v, r) \<Rightarrow> (Inr (ucast (drop_bit 32 v)), r))"

subsection \<open>Bounded values\<close>

text \<open>The rejection loop ends because a stream counts its draws and is exhausted at the last.\<close>

definition drawsLeft :: "name \<Rightarrow> Random \<Rightarrow> nat" where
  "drawsLeft n r = (case rnd_streams r n of None \<Rightarrow> Suc MaxUint64 | Some s \<Rightarrow> MaxUint64 - unat (rng_draws s))"

lemma unat_plus_one: "x \<noteq> - 1 \<Longrightarrow> unat (x + 1) = Suc (unat (x :: 'a::len word))"
  by (metis add.commute add_eq_0_iff minus_minus unatSuc)

lemma unat_lt_max: "x \<noteq> - 1 \<Longrightarrow> unat (x :: u64) < MaxUint64"
proof -
  assume "x \<noteq> - 1"
  then have "unat x \<noteq> unat (- 1 :: u64)" by (metis word_unat_eq_iff)
  moreover have "unat (- 1 :: u64) = MaxUint64" by (simp add: MaxUint64_def unsigned_minus_1_eq_mask mask_eq_exp_minus_1)
  moreover have "unat x \<le> MaxUint64" using unsigned_less [of x, where ?'a = nat] by (simp add: MaxUint64_def)
  ultimately show ?thesis by simp
qed

lemma Random_Uint64_draws:
  assumes "Random_Uint64 n r = (Inr v, r')"
  shows "drawsLeft n r' < drawsLeft n r"
proof -
  obtain s r1 where s: "xoshiroStream n r = (Inr s, r1)" "rng_draws s \<noteq> - 1"
    and r': "r' = putStream n (s\<lparr>rng_state := xoshiroNext (rng_state s), rng_draws := rng_draws s + 1\<rparr>) r1"
    using assms by (auto simp: Random_Uint64_def split: sum.splits prod.splits if_splits)
  have left: "drawsLeft n r' = MaxUint64 - Suc (unat (rng_draws s))"
    using s(2) by (simp add: drawsLeft_def r' putStream_def unat_plus_one)
  have "rnd_streams r n = None \<or> rnd_streams r n = Some s"
    using s(1) by (auto simp: xoshiroStream_def ensureStream_def Let_def split: sum.splits prod.splits if_splits option.splits)
  then show ?thesis using left unat_lt_max [OF s(2)] by (auto simp: drawsLeft_def)
qed

lemma Random_Uint32_draws: "Random_Uint32 n r = (Inr v, r') \<Longrightarrow> drawsLeft n r' < drawsLeft n r"
  by (auto simp: Random_Uint32_def split: sum.splits prod.splits intro: Random_Uint64_draws)

function intnLoop :: "u32 \<Rightarrow> u32 \<Rightarrow> name \<Rightarrow> Random \<Rightarrow> (serviceError + u32) \<times> Random" where
  "intnLoop limit threshold n r =
     (case Random_Uint32 n r of
        (Inl e, r) \<Rightarrow> (Inl e, r)
      | (Inr v, r) \<Rightarrow> if threshold \<le> v then (Inr (v mod limit), r) else intnLoop limit threshold n r)"
  by pat_completeness auto

termination
  by (relation "measure (\<lambda>(limit, threshold, n, r). drawsLeft n r)") (auto intro: Random_Uint32_draws [OF sym])

declare intnLoop.simps [simp del]

definition Intn :: "name \<Rightarrow> u32 \<Rightarrow> Random \<Rightarrow> (serviceError + u32) \<times> Random" where
  "Intn n limit r =
     (if limit = 0 then (Inl ErrInvalidArgument, r) else intnLoop limit (- limit mod limit) n r)"

subsection \<open>Snapshots\<close>

record RNGStreamState =
  rss_Name :: name
  rss_Algorithm :: RNGAlgorithm
  rss_State :: rngWords
  rss_Draws :: u64

record RandomState =
  rs_Seed :: u64
  rs_MaxStreams :: u32
  rs_Streams :: "RNGStreamState list"

definition Random_Snapshot :: "Random \<Rightarrow> RandomState" where
  "Random_Snapshot r =
     \<lparr>rs_Seed = rnd_seed r, rs_MaxStreams = rnd_maxStreams r,
      rs_Streams = map (\<lambda>(n, s). \<lparr>rss_Name = n, rss_Algorithm = rng_algorithm s, rss_State = rng_state s,
        rss_Draws = rng_draws s\<rparr>) (entriesOf (rnd_streams r))\<rparr>"

definition validWords :: "RNGAlgorithm \<Rightarrow> rngWords \<Rightarrow> bool" where
  "validWords algorithm w \<longleftrightarrow> (let (s0, s1, s2, s3) = w in
     \<not> (algorithm = RNGXoshiro256StarStar \<and> w = (0, 0, 0, 0)) \<and>
     \<not> (algorithm = RNGLCG214013Output15 \<and> (0xffffffff < s0 \<or> s1 \<noteq> 0 \<or> s2 \<noteq> 0 \<or> s3 \<noteq> 0)) \<and>
     \<not> (algorithm = RNGJava48 \<and> (push_bit 48 1 \<le> s0 \<or> s1 \<noteq> 0 \<or> s2 \<noteq> 0 \<or> s3 \<noteq> 0)))"

fun loadStreams :: "nat \<Rightarrow> name \<Rightarrow> RNGStreamState list \<Rightarrow> (name \<rightharpoonup> rngStream) \<Rightarrow> serviceError + (name \<rightharpoonup> rngStream)" where
  "loadStreams i previous [] m = Inr m"
| "loadStreams i previous (saved # rest) m =
     (if \<not> validRandomStreamName (rss_Name saved) \<or> i \<noteq> 0 \<and> rss_Name saved \<le> previous \<or>
         \<not> RNGAlgorithm_valid (rss_Algorithm saved) \<or> \<not> validWords (rss_Algorithm saved) (rss_State saved)
      then Inl ErrInvalidState
      else loadStreams (i + 1) (rss_Name saved) rest
        (m(rss_Name saved \<mapsto> \<lparr>rng_algorithm = rss_Algorithm saved, rng_state = rss_State saved, rng_draws = rss_Draws saved\<rparr>)))"

definition Random_Restore :: "RandomState \<Rightarrow> Random \<Rightarrow> (serviceError + unit) \<times> Random" where
  "Random_Restore st r =
     (if rs_MaxStreams st = 0 \<or> unat (rs_MaxStreams st) < length (rs_Streams st) then (Inl ErrInvalidState, r)
      else case loadStreams 0 [] (rs_Streams st) Map.empty of
        Inl e \<Rightarrow> (Inl e, r)
      | Inr m \<Rightarrow> (Inr (), \<lparr>rnd_seed = rs_Seed st, rnd_maxStreams = rs_MaxStreams st, rnd_streams = m\<rparr>))"

subsection \<open>No bias\<close>

lemma card_residue_block:
  fixes L :: nat
  assumes w: "w < L"
  shows "card {x \<in> {a..<a + L}. x mod L = w} = 1"
proof -
  let ?x = "a + (w + L - a mod L) mod L"
  have "?x mod L = w"
  proof -
    have "?x mod L = (a mod L + (w + L - a mod L)) mod L" by (simp add: mod_simps)
    also have "a mod L + (w + L - a mod L) = w + L"
    proof (rule le_add_diff_inverse)
      have "a mod L < L" using w by simp
      then show "a mod L \<le> w + L" by linarith
    qed
    finally show ?thesis using w by simp
  qed
  moreover have "x = y" if "x \<in> {a..<a + L}" "y \<in> {a..<a + L}" "x mod L = y mod L" for x y
  proof -
    have "x = y" if "x \<le> y" "y < a + L" "a \<le> x" "x mod L = y mod L" for x y
      using that mod_eq_dvd_iff_nat [of x y L] nat_dvd_not_less [of "y - x" L] by (cases "x = y") auto
    then show ?thesis using that by (metis atLeastLessThan_iff nat_le_linear)
  qed
  ultimately have "{x \<in> {a..<a + L}. x mod L = w} = {?x}" using w by (auto intro: mod_less_divisor)
  then show ?thesis by simp
qed

lemma card_residues: "w < (L :: nat) \<Longrightarrow> card {x \<in> {a..<a + m * L}. x mod L = w} = m"
proof (induction m)
  case (Suc m)
  have "{x \<in> {a..<a + Suc m * L}. x mod L = w} =
      {x \<in> {a..<a + m * L}. x mod L = w} \<union> {x \<in> {a + m * L..<a + m * L + L}. x mod L = w}" by auto
  moreover have "{x \<in> {a..<a + m * L}. x mod L = w} \<inter> {x \<in> {a + m * L..<a + m * L + L}. x mod L = w} = {}" by auto
  ultimately show ?case
    using Suc card_residue_block [OF Suc.prems, of "a + m * L"] by (simp add: card_Un_disjoint)
qed simp

lemma threshold: 
  assumes "limit \<noteq> (0 :: u32)"
  shows "unat (- limit mod limit) = 2 ^ 32 mod unat limit"
proof -
  have pos: "0 < unat limit" using assms by (simp add: unat_gt_0)
  have le: "unat limit \<le> 2 ^ 32" using unsigned_less [of limit, where ?'a = nat] by simp
  have "- limit = of_nat (2 ^ 32 - unat limit)" using le by (simp add: of_nat_diff)
  then have "unat (- limit) = 2 ^ 32 - unat limit" using pos by (simp add: unat_of_nat_u32)
  then have "unat (- limit mod limit) = (2 ^ 32 - unat limit) mod unat limit" by (simp add: unat_mod)
  also have "\<dots> = 2 ^ 32 mod unat limit" using le by (metis le_mod_geq)
  finally show ?thesis .
qed

lemma uniform:
  assumes "w < (limit :: u32)"
  shows "card {x :: u32. - limit mod limit \<le> x \<and> x mod limit = w} = 2 ^ 32 div unat limit"
proof -
  let ?L = "unat limit" and ?T = "2 ^ 32 mod unat limit"
  have nz: "limit \<noteq> 0" using assms by auto
  have range: "?T + (2 ^ 32 div ?L) * ?L = 2 ^ 32" by (simp add: mult.commute)
  have "unat ` {x :: u32. - limit mod limit \<le> x \<and> x mod limit = w} = {x \<in> {?T..<2 ^ 32}. x mod ?L = unat w}"
  proof (intro equalityI subsetI)
    fix x assume "x \<in> {x \<in> {?T..<2 ^ 32}. x mod ?L = unat w}"
    then have "x = unat (of_nat x :: u32)" "?T \<le> x" "x mod ?L = unat w" by (simp_all add: unat_of_nat)
    then show "x \<in> unat ` {x :: u32. - limit mod limit \<le> x \<and> x mod limit = w}"
      using threshold [OF nz] by (intro image_eqI [of _ _ "of_nat x"])
        (simp_all add: word_le_nat_alt word_unat_eq_iff [of _ w] unat_mod)
  next
    fix x assume "x \<in> unat ` {x :: u32. - limit mod limit \<le> x \<and> x mod limit = w}"
    then obtain y :: u32 where y: "x = unat y" "unat (- limit mod limit) \<le> unat y" "y mod limit = w"
      by (auto simp: word_le_nat_alt)
    have "unat y < 2 ^ 32" using unsigned_less [of y, where ?'a = nat] by simp
    moreover have "unat y mod ?L = unat w" using y(3) by (simp flip: unat_mod)
    ultimately show "x \<in> {x \<in> {?T..<2 ^ 32}. x mod ?L = unat w}" using y(1,2) threshold [OF nz] by simp
  qed
  then have "card {x :: u32. - limit mod limit \<le> x \<and> x mod limit = w} = card {x \<in> {?T..<2 ^ 32}. x mod ?L = unat w}"
    by (metis (no_types, lifting) card_image inj_on_subset [OF inj_unsigned subset_UNIV])
  also have "\<dots> = 2 ^ 32 div ?L"
    using card_residues [of "unat w" ?L ?T "2 ^ 32 div ?L"] assms by (simp add: range word_less_nat_alt)
  finally show ?thesis .
qed

text \<open>Successive draws of a stream.\<close>

fun drawn :: "name \<Rightarrow> u32 list \<Rightarrow> Random \<Rightarrow> Random \<Rightarrow> bool" where
  "drawn n [] r r' \<longleftrightarrow> r' = r"
| "drawn n (x # xs) r r' \<longleftrightarrow> (case Random_Uint32 n r of (Inl e, _) \<Rightarrow> False | (Inr v, r1) \<Rightarrow> v = x \<and> drawn n xs r1 r')"

lemma intnLoop_draws:
  "case intnLoop limit thr n r of
     (Inr v, r') \<Rightarrow> \<exists>xs x. drawn n (xs @ [x]) r r' \<and> (\<forall>y \<in> set xs. y < thr) \<and> thr \<le> x \<and> v = x mod limit
   | (Inl e, r') \<Rightarrow> \<exists>xs r1. drawn n xs r r1 \<and> (\<forall>y \<in> set xs. y < thr) \<and> Random_Uint32 n r1 = (Inl e, r')"
proof (induction limit thr n r rule: intnLoop.induct)
  case (1 limit thr n r)
  obtain out r1 where q: "Random_Uint32 n r = (out, r1)" by (cases "Random_Uint32 n r")
  show ?case
  proof (cases out)
    case (Inl e)
    have "drawn n [] r r" by simp
    then show ?thesis using q Inl by (subst intnLoop.simps) (force intro: exI [of _ "[]"])
  next
    case (Inr v)
    show ?thesis
    proof (cases "thr \<le> v")
      case True
      have "drawn n ([] @ [v]) r r1" using q Inr by simp
      then show ?thesis using q Inr True by (subst intnLoop.simps) (force intro: exI [of _ "[]"])
    next
      case False
      have step: "intnLoop limit thr n r = intnLoop limit thr n r1"
        using q Inr False by (simp add: intnLoop.simps [of _ _ _ r])
      have cons: "drawn n xs r1 r2 \<Longrightarrow> drawn n (v # xs) r r2" for xs r2 using q Inr by simp
      have "v < thr" using False by simp
      note ih = 1 [OF q [symmetric] Inr False]
      obtain res r2 where out: "intnLoop limit thr n r1 = (res, r2)" by (cases "intnLoop limit thr n r1")
      show ?thesis
      proof (cases res)
        case (Inl e)
        then obtain xs r3 where "drawn n xs r1 r3" "\<forall>y \<in> set xs. y < thr" "Random_Uint32 n r3 = (Inl e, r2)"
          using ih out by auto
        then show ?thesis using step out Inl cons \<open>v < thr\<close> by (force intro: exI [of _ "v # xs"])
      next
        case (Inr w)
        then obtain xs x where x: "drawn n (xs @ [x]) r1 r2" "\<forall>y \<in> set xs. y < thr" "thr \<le> x" "w = x mod limit"
          using ih out by auto
        then have "drawn n ((v # xs) @ [x]) r r2" using cons by simp
        then show ?thesis using step out Inr x \<open>v < thr\<close> by (force intro: exI [of _ "v # xs"])
      qed
    qed
  qed
qed

text \<open>
  C26. Bounded random numbers are unbiased and always come.  \<open>Intn\<close> returns for every limit:
  with the first draw of the stream that is not below \<open>2 ^ 32 mod limit\<close>, reduced modulo the
  limit, or with the error of the draw that failed, or with an error for limit 0.  The value
  is below the limit; each value below the limit is the outcome of exactly the same number of
  accepted draws, \<open>2 ^ 32 div limit\<close>; and fewer than half of all draws are rejected.
\<close>

theorem Intn_unbiased:
  assumes "limit \<noteq> 0"
  shows "(case Intn n limit r of
       (Inr v, r') \<Rightarrow> v < limit \<and> (\<exists>xs x. drawn n (xs @ [x]) r r' \<and>
         (\<forall>y \<in> set xs. unat y < 2 ^ 32 mod unat limit) \<and> 2 ^ 32 mod unat limit \<le> unat x \<and> v = x mod limit)
     | (Inl e, r') \<Rightarrow> \<exists>xs r1. drawn n xs r r1 \<and> (\<forall>y \<in> set xs. unat y < 2 ^ 32 mod unat limit) \<and>
         Random_Uint32 n r1 = (Inl e, r')) \<and>
     (\<forall>w < limit. card {x :: u32. 2 ^ 32 mod unat limit \<le> unat x \<and> x mod limit = w} = 2 ^ 32 div unat limit) \<and>
     2 * (2 ^ 32 mod unat limit) < (2 ^ 32 :: nat) \<and> Intn n 0 r = (Inl ErrInvalidArgument, r)"
proof -
  let ?t = "- limit mod limit"
  have t: "y < ?t \<longleftrightarrow> unat y < 2 ^ 32 mod unat limit" "?t \<le> y \<longleftrightarrow> 2 ^ 32 mod unat limit \<le> unat y" for y
    by (simp_all add: word_less_nat_alt word_le_nat_alt threshold [OF assms])
  have run: "Intn n limit r = intnLoop limit ?t n r" using assms by (simp add: Intn_def)
  have lt: "x mod limit < limit" for x using assms by (intro word_mod_less_divisor) (simp add: word_gt_0)
  have "case Intn n limit r of
       (Inr v, r') \<Rightarrow> v < limit \<and> (\<exists>xs x. drawn n (xs @ [x]) r r' \<and>
         (\<forall>y \<in> set xs. unat y < 2 ^ 32 mod unat limit) \<and> 2 ^ 32 mod unat limit \<le> unat x \<and> v = x mod limit)
     | (Inl e, r') \<Rightarrow> \<exists>xs r1. drawn n xs r r1 \<and> (\<forall>y \<in> set xs. unat y < 2 ^ 32 mod unat limit) \<and>
         Random_Uint32 n r1 = (Inl e, r')"
    using intnLoop_draws [where limit = limit and thr = ?t and n = n and r = r] lt unfolding run t
    by (cases "intnLoop limit ?t n r"; cases "fst (intnLoop limit ?t n r)") (fastforce simp: t)+
  moreover have "card {x :: u32. 2 ^ 32 mod unat limit \<le> unat x \<and> x mod limit = w} = 2 ^ 32 div unat limit" if "w < limit" for w
    using uniform [OF that] by (simp add: t)
  moreover have "2 * (2 ^ 32 mod unat limit) < (2 ^ 32 :: nat)"
  proof -
    have pos: "0 < unat limit" "unat limit < 2 ^ 32"
      using assms unsigned_less [of limit, where ?'a = nat] by (simp_all add: unat_gt_0)
    then have "2 ^ 32 mod unat limit < unat limit" "1 \<le> 2 ^ 32 div unat limit" by (simp_all add: Suc_leI div_greater_zero_iff)
    from this(2) have "unat limit * 1 \<le> unat limit * (2 ^ 32 div unat limit)" by (rule mult_le_mono2)
    moreover have "unat limit * (2 ^ 32 div unat limit) + 2 ^ 32 mod unat limit = 2 ^ 32" by (rule mult_div_mod_eq)
    ultimately show ?thesis using \<open>2 ^ 32 mod unat limit < unat limit\<close> by linarith
  qed
  ultimately show ?thesis by (simp add: Intn_def)
qed

theorem Intn_unbiased_witness:
  "\<exists>v r. Intn [0x61] 6 (NewRandom 42 0) = (Inr v, r) \<and> v < 6 \<and>
     card {x :: u32. 4 \<le> unat x \<and> x mod 6 = 5} = 715827882"
proof -
  have "\<exists>v r. Intn [0x61] 6 (NewRandom 42 0) = (Inr v, r)"
  proof -
    let ?w = "initialWords (42 XOR hashString64 [0x61])"
    have "validRandomStreamName [0x61]" "(- 6 :: u32) mod 6 \<le> ucast (drop_bit 32 (xoshiroOutput ?w))" by code_simp+
    then show ?thesis
      by (simp add: Intn_def intnLoop.simps Random_Uint32_def Random_Uint64_def xoshiroStream_def ensureStream_def
          NewRandom_def streamCount_def DefaultMaxStreams_def RNGAlgorithm_valid_def Let_def)
  qed
  then obtain v r where run: "Intn [0x61] 6 (NewRandom 42 0) = (Inr v, r)" by blast
  have "(6 :: u32) \<noteq> 0" by simp
  note u = Intn_unbiased [OF this, of "[0x61]" "NewRandom 42 0"]
  have "v < 6" using u run by simp
  moreover have "card {x :: u32. 4 \<le> unat x \<and> x mod 6 = 5} = 715827882"
    using u [THEN conjunct2, THEN conjunct1, rule_format, of 5] by simp
  ultimately show ?thesis using run by blast
qed

subsection \<open>Independent streams\<close>

datatype randomOp = DrawUint64 name | DrawIntn name u32 | SeedJava name u64 | DrawJava name u8
  | SeedLCG name u32 | DrawLCG name

fun opStream :: "randomOp \<Rightarrow> name" where
  "opStream (DrawUint64 n) = n"
| "opStream (DrawIntn n _) = n"
| "opStream (SeedJava n _) = n"
| "opStream (DrawJava n _) = n"
| "opStream (SeedLCG n _) = n"
| "opStream (DrawLCG n) = n"

text \<open>An operation and its answer, as a 64-bit value.\<close>

fun randomStep :: "randomOp \<Rightarrow> Random \<Rightarrow> (serviceError + u64) \<times> Random" where
  "randomStep (DrawUint64 n) r = Random_Uint64 n r"
| "randomStep (DrawIntn n limit) r = map_prod (map_sum id ucast) id (Intn n limit r)"
| "randomStep (SeedJava n seed) r = map_prod (map_sum id (\<lambda>_. 0)) id (SetJavaSeed n seed r)"
| "randomStep (DrawJava n bits) r = map_prod (map_sum id ucast) id (JavaBits n bits r)"
| "randomStep (SeedLCG n seed) r = map_prod (map_sum id (\<lambda>_. 0)) id (SetLCG214013Seed n seed r)"
| "randomStep (DrawLCG n) r = map_prod (map_sum id ucast) id (LCG214013Output15 n r)"

fun randomRun :: "randomOp list \<Rightarrow> Random \<Rightarrow> (serviceError + u64) list \<times> Random" where
  "randomRun [] r = ([], r)"
| "randomRun (a # script) r =
     (let (out, r) = randomStep a r; (outs, r) = randomRun script r in (out # outs, r))"

definition elsewhere :: "name \<Rightarrow> Random \<Rightarrow> Random \<Rightarrow> bool" where
  "elsewhere n r r' \<longleftrightarrow> (\<forall>m. m \<noteq> n \<longrightarrow> rnd_streams r' m = rnd_streams r m)"

lemma elsewhere_refl [simp]: "elsewhere n r r"
  by (simp add: elsewhere_def)

lemma elsewhere_trans: "elsewhere n r1 r2 \<Longrightarrow> elsewhere n r2 r3 \<Longrightarrow> elsewhere n r1 r3"
  by (simp add: elsewhere_def)

lemma elsewhere_put [simp]: "elsewhere n r (putStream n s r') \<longleftrightarrow> elsewhere n r r'"
  by (auto simp: elsewhere_def putStream_def)

lemma ensureStream_elsewhere: "elsewhere n r (snd (ensureStream n algorithm r))"
  by (simp add: ensureStream_def Let_def split: option.split)

lemma xoshiroStream_elsewhere: "elsewhere n r (snd (xoshiroStream n r))"
  using ensureStream_elsewhere [of n r RNGXoshiro256StarStar]
  by (auto simp: xoshiroStream_def split: prod.splits sum.splits)

lemma Random_Uint64_elsewhere: "elsewhere n r (snd (Random_Uint64 n r))"
  using xoshiroStream_elsewhere [of n r]
  by (auto simp: Random_Uint64_def split: prod.splits sum.splits)

lemma intnLoop_elsewhere: "elsewhere n r (snd (intnLoop limit thr n r))"
proof (induction limit thr n r rule: intnLoop.induct)
  case (1 limit thr n r)
  obtain out r1 where q: "Random_Uint32 n r = (out, r1)" by (cases "Random_Uint32 n r")
  have e: "elsewhere n r r1"
    using Random_Uint64_elsewhere [of n r] q by (auto simp: Random_Uint32_def split: prod.splits sum.splits)
  show ?case
  proof (cases out)
    case (Inr v)
    then show ?thesis
      using q e 1 [OF q [symmetric] Inr] by (subst intnLoop.simps) (auto intro: elsewhere_trans)
  qed (use q e in \<open>simp add: intnLoop.simps [of _ _ _ r]\<close>)
qed

lemma randomStep_elsewhere: "elsewhere (opStream a) r (snd (randomStep a r))"
proof (cases a)
  case (SeedJava n seed)
  then show ?thesis using ensureStream_elsewhere [of n r RNGJava48] by (auto simp: SetJavaSeed_def split: prod.splits sum.splits)
next
  case (DrawJava n bits)
  then show ?thesis
    using ensureStream_elsewhere [of n r RNGJava48]
    by (auto simp: JavaBits_def Let_def split: prod.splits sum.splits)
qed (auto simp: Random_Uint64_elsewhere Intn_def intnLoop_elsewhere SetLCG214013Seed_def LCG214013Output15_def
    Let_def split: prod.splits option.splits)

text \<open>On an existing stream an operation sees that stream only.\<close>

definition same_stream :: "name \<Rightarrow> Random \<Rightarrow> Random \<Rightarrow> bool" where
  "same_stream n r r' \<longleftrightarrow> (\<exists>s. rnd_streams r n = Some s \<and> rnd_streams r' n = Some s)"

definition agree :: "name \<Rightarrow> 'a \<times> Random \<Rightarrow> 'a \<times> Random \<Rightarrow> bool" where
  "agree n x y \<longleftrightarrow> fst x = fst y \<and> same_stream n (snd x) (snd y)"

lemma same_put [simp]: "same_stream n (putStream n s r) (putStream n s r')"
  by (simp add: same_stream_def putStream_def)

lemma agreeI: "same_stream n r r' \<Longrightarrow> agree n (x, r) (x, r')"
  by (simp add: agree_def)

lemma ensureStream_existing:
  "rnd_streams r n = Some s \<Longrightarrow> ensureStream n algorithm r =
     (if \<not> validRandomStreamName n \<or> \<not> RNGAlgorithm_valid algorithm then Inl ErrInvalidArgument else Inr s, r)"
  by (simp add: ensureStream_def)

lemma Random_Uint64_agree: "same_stream n r r' \<Longrightarrow> agree n (Random_Uint64 n r) (Random_Uint64 n r')"
  by (auto simp: same_stream_def agree_def Random_Uint64_def xoshiroStream_def ensureStream_existing putStream_def)

lemma Random_Uint32_agree: "same_stream n r r' \<Longrightarrow> agree n (Random_Uint32 n r) (Random_Uint32 n r')"
  using Random_Uint64_agree [of n r r'] by (auto simp: Random_Uint32_def agree_def split: prod.splits sum.splits)

lemma intnLoop_agree: "same_stream n r r' \<Longrightarrow> agree n (intnLoop limit thr n r) (intnLoop limit thr n r')"
proof (induction limit thr n r arbitrary: r' rule: intnLoop.induct)
  case (1 limit thr n r)
  obtain out r1 where q: "Random_Uint32 n r = (out, r1)" by (cases "Random_Uint32 n r")
  obtain r2 where q': "Random_Uint32 n r' = (out, r2)" and same: "same_stream n r1 r2"
    using Random_Uint32_agree [OF 1(2)] q by (cases "Random_Uint32 n r'") (auto simp: agree_def)
  show ?case
  proof (cases out)
    case (Inr v)
    then show ?thesis
      using q q' same 1(1) [OF q [symmetric] Inr _ same]
      by (subst (1 2) intnLoop.simps) (simp add: agree_def)
  qed (use q q' same in \<open>simp add: intnLoop.simps [of _ _ _ r] intnLoop.simps [of _ _ _ r'] agree_def\<close>)
qed

lemma randomStep_agree:
  assumes "same_stream n r r'" "opStream a = n"
  shows "agree n (randomStep a r) (randomStep a r')"
proof -
  obtain s where s: "rnd_streams r n = Some s" "rnd_streams r' n = Some s" using assms(1) by (auto simp: same_stream_def)
  have map: "agree n (map_prod f id x) (map_prod f id y)" if "agree n x y" for f :: "'c \<Rightarrow> 'd" and x y
    using that by (cases x; cases y) (simp add: agree_def)
  show ?thesis
  proof (cases a)
    case (DrawUint64 m)
    then show ?thesis using Random_Uint64_agree assms by simp
  next
    case (DrawIntn m limit)
    have "agree n (Intn n limit r) (Intn n limit r')"
      using intnLoop_agree [OF assms(1)] assms(1) by (simp add: Intn_def agree_def)
    then show ?thesis using DrawIntn assms(2) map by simp
  next
    case (SeedJava m seed)
    have "agree n (SetJavaSeed n seed r) (SetJavaSeed n seed r')"
      using assms(1) s by (simp add: SetJavaSeed_def ensureStream_existing agree_def)
    then show ?thesis using SeedJava assms(2) map by simp
  next
    case (DrawJava m bits)
    have "agree n (JavaBits n bits r) (JavaBits n bits r')"
      using assms(1) s by (simp add: JavaBits_def ensureStream_existing agree_def Let_def split: prod.split sum.split)
    then show ?thesis using DrawJava assms(2) map by simp
  next
    case (SeedLCG m seed)
    have "agree n (SetLCG214013Seed n seed r) (SetLCG214013Seed n seed r')"
      using assms(1) s by (simp add: SetLCG214013Seed_def agree_def Let_def)
    then show ?thesis using SeedLCG assms(2) map by simp
  next
    case (DrawLCG m)
    have "agree n (LCG214013Output15 n r) (LCG214013Output15 n r')"
      using assms(1) s by (simp add: LCG214013Output15_def agree_def Let_def split: prod.split)
    then show ?thesis using DrawLCG assms(2) map by simp
  qed
qed

text \<open>
  C25. Named streams are independent.  Once a stream exists, the answers of its operations -
  seeds, draws, bounded draws and their errors - depend on nothing but the operations on that
  stream: leaving out every operation of any script that concerns other streams changes none
  of them.
\<close>

theorem random_streams_independent:
  assumes "rnd_streams r n \<noteq> None"
  shows "map snd (filter (\<lambda>(a, _). opStream a = n) (zip script (fst (randomRun script r)))) =
    fst (randomRun (filter (\<lambda>a. opStream a = n) script) r)"
proof -
  have "map snd (filter (\<lambda>(a, _). opStream a = n) (zip script (fst (randomRun script r)))) =
      fst (randomRun (filter (\<lambda>a. opStream a = n) script) r')" if "same_stream n r r'" for r r'
    using that
  proof (induction script arbitrary: r r')
    case (Cons a script)
    obtain out r1 where step: "randomStep a r = (out, r1)" by (cases "randomStep a r")
    obtain outs r2 where rest: "randomRun script r1 = (outs, r2)" by (cases "randomRun script r1")
    show ?case
    proof (cases "opStream a = n")
      case True
      then obtain r1' where s: "randomStep a r' = (out, r1')" "same_stream n r1 r1'"
        using randomStep_agree [OF Cons.prems True] step by (cases "randomStep a r'") (auto simp: agree_def)
      show ?thesis using Cons.IH [OF s(2)] True step s(1) rest by (simp add: Let_def split: prod.split)
    next
      case False
      have "same_stream n r1 r'"
        using randomStep_elsewhere [of a r] Cons.prems False step by (simp add: same_stream_def elsewhere_def)
      then show ?thesis using Cons.IH [of r1 r'] False step rest by (simp add: Let_def)
    qed
  qed simp
  moreover have "same_stream n r r" using assms by (auto simp: same_stream_def)
  ultimately show ?thesis .
qed

theorem random_streams_independent_witness:
  "\<exists>r outs r'. rnd_streams r [0x61] \<noteq> None \<and>
     randomRun [DrawLCG [0x61], DrawUint64 [0x62], DrawLCG [0x61]] r = (outs, r') \<and>
     [outs ! 0, outs ! 2] = fst (randomRun [DrawLCG [0x61], DrawLCG [0x61]] r)"
proof -
  let ?r = "snd (SetLCG214013Seed [0x61] 7 (NewRandom 1 0))"
  have "validRandomStreamName [0x61]" by code_simp
  then have some: "rnd_streams ?r [0x61] \<noteq> None"
    by (simp add: SetLCG214013Seed_def NewRandom_def streamCount_def DefaultMaxStreams_def putStream_def)
  obtain outs r' where run: "randomRun [DrawLCG [0x61], DrawUint64 [0x62], DrawLCG [0x61]] ?r = (outs, r')" by fastforce
  then obtain x y z where "outs = [x, y, z]" by (auto simp: Let_def split: prod.splits)
  then show ?thesis
    using random_streams_independent [OF some, of "[DrawLCG [0x61], DrawUint64 [0x62], DrawLCG [0x61]]"] run some
    by (intro exI [of _ ?r] exI [of _ outs] exI [of _ r']) simp
qed

subsection \<open>Consistent states\<close>

definition stream_ok :: "name \<times> rngStream \<Rightarrow> bool" where
  "stream_ok e \<longleftrightarrow> (let (n, s) = e in
     validRandomStreamName n \<and> RNGAlgorithm_valid (rng_algorithm s) \<and> validWords (rng_algorithm s) (rng_state s))"

definition random_inv :: "Random \<Rightarrow> bool" where
  "random_inv r \<longleftrightarrow> finite (dom (rnd_streams r)) \<and> rnd_maxStreams r \<noteq> 0 \<and>
     card (dom (rnd_streams r)) \<le> unat (rnd_maxStreams r) \<and> (\<forall>n s. rnd_streams r n = Some s \<longrightarrow> stream_ok (n, s))"

lemma putStream_inv:
  assumes "random_inv r" "stream_ok (n, s)" "rnd_streams r n \<noteq> None \<or> \<not> rnd_maxStreams r \<le> streamCount r"
  shows "random_inv (putStream n s r)"
proof -
  have "card (dom (rnd_streams r)) < unat (rnd_maxStreams r)" if "\<not> rnd_maxStreams r \<le> streamCount r"
  proof -
    have "card (dom (rnd_streams r)) < 2 ^ 32"
      using assms(1) unsigned_less [of "rnd_maxStreams r", where ?'a = nat] by (simp add: random_inv_def)
    then show ?thesis using that by (simp add: streamCount_def word_le_nat_alt unat_of_nat_u32 not_le)
  qed
  moreover have "insert n (dom (rnd_streams r)) = dom (rnd_streams r)" if "rnd_streams r n \<noteq> None"
    using that by auto
  ultimately show ?thesis
    using assms by (auto simp: random_inv_def putStream_def card_insert_if)
qed

lemma splitmix_words: "validWords RNGXoshiro256StarStar (initialWords seed)"
  by (auto simp: validWords_def initialWords_def Let_def)

lemma shift_fixpoint:
  assumes "x = push_bit k (x :: 'a::len word)" "0 < k"
  shows "x = 0"
proof -
  have "\<not> bit x i" for i
  proof (induction i rule: less_induct)
    case (less i)
    show ?case
    proof
      assume b: "bit x i"
      then have "bit (push_bit k x) i" using assms(1) by simp
      then have "k \<le> i" "bit x (i - k)" by (simp_all add: bit_push_bit_iff)
      then show False using less [of "i - k"] assms(2) by simp
    qed
  qed
  then show ?thesis by (simp add: bit_eq_iff)
qed

lemma rotateLeft_zero:
  assumes "rotateLeft v n = 0" "n < 64"
  shows "v = 0"
proof -
  have z: "push_bit n v = 0" "drop_bit (64 - n) v = 0" using assms(1) by (simp_all add: rotateLeft_def or_eq_0_iff)
  have "\<not> bit v i" for i
  proof
    assume b: "bit v i"
    then have i: "i < 64" using bit_imp_le_length [OF b] by simp
    show False
    proof (cases "i + n < 64")
      case True
      then have "bit (push_bit n v) (i + n)" using b by (simp add: bit_push_bit_iff)
      then show False using z(1) by simp
    next
      case False
      then have "bit (drop_bit (64 - n) v) (i - (64 - n))" using b i assms(2) by (simp add: bit_drop_bit_eq)
      then show False using z(2) by simp
    qed
  qed
  then show ?thesis by (simp add: bit_eq_iff)
qed

lemma xor_eq_zeroD: "x XOR y = 0 \<Longrightarrow> x = (y :: 'a::len word)"
  by (metis xor.assoc xor.left_neutral xor.right_neutral xor_self_eq)

lemma xoshiro_nonzero:
  assumes "w \<noteq> (0, 0, 0, 0)"
  shows "xoshiroNext w \<noteq> (0, 0, 0, 0)"
proof
  obtain s0 s1 s2 s3 where w: "w = (s0, s1, s2, s3)" by (cases w)
  assume zero: "xoshiroNext w = (0, 0, 0, 0)"
  let ?s2 = "s2 XOR s0" and ?s3 = "s3 XOR s1"
  have z: "s0 XOR ?s3 = 0" "s1 XOR ?s2 = 0" "?s2 XOR push_bit 17 s1 = 0" "rotateLeft ?s3 45 = 0"
    using zero by (simp_all add: xoshiroNext_def w Let_def)
  have s3: "?s3 = 0" by (rule rotateLeft_zero [OF z(4)]) simp
  then have s0: "s0 = 0" using z(1) by simp
  have "s1 = ?s2" "?s2 = push_bit 17 s1" using z(2,3) by (auto dest: xor_eq_zeroD)
  then have "s1 = 0" using shift_fixpoint [of s1 17] by simp
  moreover from this have "s2 = 0" using \<open>s1 = ?s2\<close> s0 by simp
  moreover have "s3 = 0" using s3 calculation(1) by simp
  ultimately show False using assms s0 w by simp
qed

lemma words_next: "validWords RNGXoshiro256StarStar w \<Longrightarrow> validWords RNGXoshiro256StarStar (xoshiroNext w)"
  using xoshiro_nonzero [of w] by (auto simp: validWords_def split: prod.splits)

lemma masked_48: "(x AND javaRandomMask) < push_bit 48 1"
proof -
  have "javaRandomMask = mask 48" by (simp add: javaRandomMask_def mask_eq_exp_minus_1 push_bit_eq_mult)
  moreover have "x AND mask 48 < 2 ^ 48" by (rule and_mask_less') simp
  ultimately show ?thesis by (simp add: push_bit_eq_mult)
qed

lemma stream_words:
  "stream_ok (n, s) \<Longrightarrow> rng_algorithm s = RNGLCG214013Output15 \<Longrightarrow> \<exists>s0. rng_state s = (s0, 0, 0, 0)"
  "stream_ok (n, s) \<Longrightarrow> rng_algorithm s = RNGJava48 \<Longrightarrow> \<exists>s0. rng_state s = (s0, 0, 0, 0)"
  by (auto simp: stream_ok_def validWords_def split: prod.splits)

lemma javaWords: "validWords RNGJava48 ((x AND javaRandomMask), 0, 0, 0)"
  using masked_48 [of x] by (simp add: validWords_def not_le)

lemma ucast_u32_le: "ucast (x :: u32) \<le> (0xffffffff :: u64)"
proof -
  have "unat x < 2 ^ 32" using unsigned_less [of x, where ?'a = nat] by simp
  then show ?thesis by (simp add: word_le_nat_alt unsigned_ucast_eq take_bit_nat_eq_self)
qed

lemma lcgWords: "validWords RNGLCG214013Output15 (ucast (x :: u32), 0, 0, 0)"
  using ucast_u32_le [of x] by (simp add: validWords_def not_less)

lemma ensureStream_inv:
  assumes "random_inv r" "ensureStream n algorithm r = (out, r1)"
  shows "random_inv r1 \<and> (\<forall>s. out = Inr s \<longrightarrow> rnd_streams r1 n = Some s \<and> stream_ok (n, s)) \<and> (\<forall>e. out = Inl e \<longrightarrow> r1 = r)"
proof -
  have start: "validWords RNGJava48 (0x5deece66d, 0, 0, 0)" by (simp add: validWords_def)
  have "stream_ok (n, s)" if "rnd_streams r n = Some s" for s using assms(1) that by (simp add: random_inv_def)
  then show ?thesis
    using assms start splitmix_words
    by (auto simp: ensureStream_def Let_def stream_ok_def putStream_def RNGAlgorithm_valid_def
        split: if_splits option.splits
        intro!: putStream_inv [unfolded putStream_def] elim: notE)
qed

lemma put_existing_inv:
  assumes "random_inv r" "rnd_streams r n = Some s" "stream_ok (n, s)" "RNGAlgorithm_valid (rng_algorithm s')"
    "validWords (rng_algorithm s') (rng_state s')"
  shows "random_inv (putStream n s' r)"
  using assms by (intro putStream_inv) (auto simp: stream_ok_def)

lemma stream_words_ok: "stream_ok (n, s) \<Longrightarrow> validWords (rng_algorithm s) (rng_state s)"
  by (simp add: stream_ok_def)

lemma Random_Uint64_inv:
  assumes "random_inv r"
  shows "random_inv (snd (Random_Uint64 n r))"
proof -
  obtain out r1 where e: "ensureStream n RNGXoshiro256StarStar r = (out, r1)" by (cases "ensureStream n RNGXoshiro256StarStar r")
  note i = ensureStream_inv [OF assms e]
  show ?thesis
  proof (cases out)
    case (Inr s)
    then have s: "rnd_streams r1 n = Some s" "stream_ok (n, s)" "random_inv r1" using i by auto
    have "random_inv (putStream n (s\<lparr>rng_state := xoshiroNext (rng_state s), rng_draws := rng_draws s + 1\<rparr>) r1)"
      if "rng_algorithm s = RNGXoshiro256StarStar"
      using that words_next stream_words_ok [OF s(2)]
      by (intro put_existing_inv [OF s(3,1,2)]) (simp_all add: RNGAlgorithm_valid_def)
    then show ?thesis using e Inr s(3) by (simp add: Random_Uint64_def xoshiroStream_def)
  qed (use assms e i in \<open>simp add: Random_Uint64_def xoshiroStream_def\<close>)
qed

lemma Random_Uint32_snd: "snd (Random_Uint32 n r) = snd (Random_Uint64 n r)"
  by (simp add: Random_Uint32_def split: prod.split sum.split)

lemma intnLoop_inv: "random_inv r \<Longrightarrow> random_inv (snd (intnLoop limit thr n r))"
proof (induction limit thr n r rule: intnLoop.induct)
  case (1 limit thr n r)
  obtain out r1 where q: "Random_Uint32 n r = (out, r1)" by (cases "Random_Uint32 n r")
  have "random_inv (snd (Random_Uint32 n r))" unfolding Random_Uint32_snd by (rule Random_Uint64_inv [OF 1(2)])
  then have r1: "random_inv r1" using q by simp
  show ?case
  proof (cases out)
    case (Inr v)
    then show ?thesis using q r1 1(1) [OF q [symmetric] Inr _ r1] by (subst intnLoop.simps) simp
  qed (use q r1 in \<open>simp add: intnLoop.simps [of _ _ _ r]\<close>)
qed

lemma randomStep_inv:
  assumes "random_inv r"
  shows "random_inv (snd (randomStep a r))"
proof (cases a)
  case (SeedJava n seed)
  obtain out r1 where e: "ensureStream n RNGJava48 r = (out, r1)" by (cases "ensureStream n RNGJava48 r")
  note i = ensureStream_inv [OF assms e]
  show ?thesis
  proof (cases out)
    case (Inr s)
    then have s: "rnd_streams r1 n = Some s" "stream_ok (n, s)" "random_inv r1" using i by auto
    have "random_inv (putStream n \<lparr>rng_algorithm = RNGJava48, rng_state = (JavaRandomSeed seed, 0, 0, 0), rng_draws = 0\<rparr> r1)"
      by (rule put_existing_inv [OF s(3,1,2)]) (simp_all add: RNGAlgorithm_valid_def JavaRandomSeed_def javaWords)
    then show ?thesis using e Inr by (simp add: SeedJava SetJavaSeed_def)
  qed (use assms e i in \<open>simp add: SeedJava SetJavaSeed_def\<close>)
next
  case (DrawJava n bits)
  show ?thesis
  proof (cases "bits = 0 \<or> 32 < bits")
    case False
    obtain out r1 where e: "ensureStream n RNGJava48 r = (out, r1)" by (cases "ensureStream n RNGJava48 r")
    note i = ensureStream_inv [OF assms e]
    show ?thesis
    proof (cases out)
      case (Inr s)
      then have s: "rnd_streams r1 n = Some s" "stream_ok (n, s)" "random_inv r1" using i by auto
      have "random_inv (snd (JavaBits n bits r))"
      proof (cases "rng_algorithm s = RNGJava48")
        case True
        obtain s0 where w: "rng_state s = (s0, 0, 0, 0)" using stream_words(2) [OF s(2) True] ..
        let ?s0 = "(s0 * javaRandomMultiplier + 0xb) AND javaRandomMask"
        have "random_inv (putStream n (s\<lparr>rng_state := (?s0, 0, 0, 0), rng_draws := rng_draws s + 1\<rparr>) r1)"
          using True javaWords by (intro put_existing_inv [OF s(3,1,2)]) (simp_all add: RNGAlgorithm_valid_def)
        then show ?thesis
          using False e Inr w s(3) True by (simp add: JavaBits_def JavaRandomBits_def Let_def)
      qed (use False e Inr s(3) in \<open>simp add: JavaBits_def\<close>)
      then show ?thesis by (simp add: DrawJava)
    qed (use assms e i False in \<open>simp add: DrawJava JavaBits_def\<close>)
  qed (use assms in \<open>simp add: DrawJava JavaBits_def\<close>)
next
  case (SeedLCG n seed)
  let ?s = "\<lparr>rng_algorithm = RNGLCG214013Output15, rng_state = (ucast seed, 0, 0, 0), rng_draws = 0\<rparr>"
  have ok: "validRandomStreamName n \<Longrightarrow> stream_ok (n, ?s)" by (simp add: stream_ok_def RNGAlgorithm_valid_def lcgWords)
  show ?thesis
    using assms putStream_inv [OF assms ok] by (simp add: SeedLCG SetLCG214013Seed_def Let_def split: option.split)
next
  case (DrawLCG n)
  show ?thesis
  proof (cases "rnd_streams r n")
    case (Some s)
    have ok: "stream_ok (n, s)" using assms Some by (simp add: random_inv_def)
    show ?thesis
    proof (cases "rng_algorithm s = RNGLCG214013Output15")
      case True
      obtain s0 where w: "rng_state s = (s0, 0, 0, 0)" using stream_words(1) [OF ok True] ..
      have "random_inv (putStream n (s\<lparr>rng_state := (ucast (x :: u32), 0, 0, 0), rng_draws := rng_draws s + 1\<rparr>) r)" for x
        using True lcgWords by (intro put_existing_inv [OF assms Some ok]) (simp_all add: RNGAlgorithm_valid_def)
      then show ?thesis using assms Some True w by (simp add: DrawLCG LCG214013Output15_def Let_def)
    qed (use assms Some in \<open>simp add: DrawLCG LCG214013Output15_def\<close>)
  qed (use assms in \<open>simp add: DrawLCG LCG214013Output15_def\<close>)
qed (simp_all add: assms Random_Uint64_inv Intn_def intnLoop_inv)

interpretation random: scripted random_inv "\<lambda>a r. snd (randomStep a r)"
  by unfold_locales (rule randomStep_inv)

lemma NewRandom_inv: "random_inv (NewRandom seed m)"
  by (simp add: random_inv_def NewRandom_def DefaultMaxStreams_def)

subsection \<open>Saved streams\<close>

definition savedStream :: "RNGStreamState \<Rightarrow> name \<times> rngStream" where
  "savedStream u = (rss_Name u, \<lparr>rng_algorithm = rss_Algorithm u, rng_state = rss_State u, rng_draws = rss_Draws u\<rparr>)"

lemma savedFields:
  "\<lparr>rss_Name = rss_Name u, rss_Algorithm = rss_Algorithm u, rss_State = rss_State u, rss_Draws = rss_Draws u\<rparr> = u"
  "\<lparr>rs_Seed = rs_Seed st, rs_MaxStreams = rs_MaxStreams st, rs_Streams = rs_Streams st\<rparr> = st"
  by (cases u, simp) (cases st, simp)

lemma saveStream [simp]:
  "savedStream \<lparr>rss_Name = n, rss_Algorithm = rng_algorithm s, rss_State = rng_state s, rss_Draws = rng_draws s\<rparr> = (n, s)"
  by (cases s) (simp add: savedStream_def)

lemma loadStreams_eq:
  "loadStreams i previous us m =
     (if (i = 0 \<or> (\<forall>u \<in> set us. previous < rss_Name u)) \<and> sorted_wrt (\<lambda>x y. rss_Name x < rss_Name y) us \<and>
         (\<forall>u \<in> set us. stream_ok (savedStream u))
      then Inr (m ++ map_of (map savedStream us)) else Inl ErrInvalidState)"
proof (induction i previous us m rule: loadStreams.induct)
  case (2 i previous u us m)
  let ?bad = "\<not> validRandomStreamName (rss_Name u) \<or> i \<noteq> 0 \<and> rss_Name u \<le> previous \<or>
         \<not> RNGAlgorithm_valid (rss_Algorithm u) \<or> \<not> validWords (rss_Algorithm u) (rss_State u)"
  have bad: "?bad \<longleftrightarrow> \<not> stream_ok (savedStream u) \<or> i \<noteq> 0 \<and> \<not> previous < rss_Name u"
    by (auto simp: stream_ok_def savedStream_def not_less)
  show ?case
  proof (cases ?bad)
    case True
    then show ?thesis using bad by auto
  next
    case False
    let ?m = "m(rss_Name u \<mapsto> \<lparr>rng_algorithm = rss_Algorithm u, rng_state = rss_State u, rng_draws = rss_Draws u\<rparr>)"
    let ?rest = "(\<forall>v \<in> set us. rss_Name u < rss_Name v) \<and> sorted_wrt (\<lambda>x y. rss_Name x < rss_Name y) us \<and>
         (\<forall>v \<in> set us. stream_ok (savedStream v))"
    have step: "loadStreams i previous (u # us) m = loadStreams (i + 1) (rss_Name u) us ?m"
      by (subst loadStreams.simps(2)) (simp only: if_not_P [OF False])
    have ih: "loadStreams (i + 1) (rss_Name u) us ?m =
        (if ?rest then Inr (?m ++ map_of (map savedStream us)) else Inl ErrInvalidState)"
      unfolding 2 [OF False] by simp
    have "?m ++ map_of (map savedStream us) = m ++ map_of (map savedStream (u # us))" if "?rest"
    proof -
      have "rss_Name u \<notin> dom (map_of (map savedStream us))"
        using that by (auto simp: dom_map_of_conv_image_fst savedStream_def image_image)
      from map_add_Cons [OF this] show ?thesis by (simp add: savedStream_def)
    qed
    moreover have "(i = 0 \<or> (\<forall>v \<in> set (u # us). previous < rss_Name v)) \<and> sorted_wrt (\<lambda>x y. rss_Name x < rss_Name y) (u # us) \<and>
         (\<forall>v \<in> set (u # us). stream_ok (savedStream v)) \<longleftrightarrow> ?rest"
    proof -
      have "stream_ok (savedStream u)" "i = 0 \<or> previous < rss_Name u" using False bad by auto
      moreover from this(2) have "i = 0 \<or> (\<forall>v \<in> set us. rss_Name u < rss_Name v \<longrightarrow> previous < rss_Name v)"
        by (blast intro: less_trans)
      ultimately show ?thesis unfolding set_simps ball_simps sorted_wrt.simps by blast
    qed
    ultimately show ?thesis unfolding step ih by presburger
  qed
qed simp

definition random_restorable :: "RandomState \<Rightarrow> bool" where
  "random_restorable st \<longleftrightarrow> rs_MaxStreams st \<noteq> 0 \<and> length (rs_Streams st) \<le> unat (rs_MaxStreams st) \<and>
     sorted_wrt (\<lambda>x y. rss_Name x < rss_Name y) (rs_Streams st) \<and> (\<forall>u \<in> set (rs_Streams st). stream_ok (savedStream u))"

lemma Random_Restore_eq:
  "Random_Restore st r =
     (if random_restorable st
      then (Inr (), \<lparr>rnd_seed = rs_Seed st, rnd_maxStreams = rs_MaxStreams st, rnd_streams = map_of (map savedStream (rs_Streams st))\<rparr>)
      else (Inl ErrInvalidState, r))"
  by (auto simp: Random_Restore_def random_restorable_def loadStreams_eq)

text \<open>
  Saved generators continue their sequences.  Whatever was seeded and drawn before, with
  whatever errors, the state stays consistent - no xoshiro stream reaches the all-zero state
  it could not leave - and restoring its snapshot into any generator service gives exactly
  that state, so that every later draw is the same.  A state that is not the snapshot of a
  consistent service is refused and changes nothing.
\<close>

theorem random_snapshot_roundtrip:
  assumes "random_inv r0" and "r = snd (randomRun script r0)"
  shows "random_inv r \<and> Random_Restore (Random_Snapshot r) q = (Inr (), r) \<and>
    (\<forall>st. if random_restorable st then (\<exists>r'. Random_Restore st q = (Inr (), r') \<and> random_inv r' \<and> Random_Snapshot r' = st)
       else Random_Restore st q = (Inl ErrInvalidState, q))"
proof -
  have run: "snd (randomRun script r) = fold (\<lambda>a r. snd (randomStep a r)) script r" for script r
    by (induction script arbitrary: r) (simp_all add: Let_def split: prod.split, metis snd_conv)
  have inv: "random_inv r" using random.script_inv [OF assms(1)] assms(2) run by simp
  have fin: "finite (dom (rnd_streams r))" using inv by (simp add: random_inv_def)
  have saved: "map savedStream (rs_Streams (Random_Snapshot r)) = entriesOf (rnd_streams r)"
    by (simp add: Random_Snapshot_def saveStream comp_def case_prod_beta)
  have names: "map rss_Name (rs_Streams (Random_Snapshot r)) = sorted_list_of_set (dom (rnd_streams r))"
    by (simp add: Random_Snapshot_def comp_def case_prod_beta flip: entriesOf_keys)
  have "sorted_wrt (<) (map rss_Name (rs_Streams (Random_Snapshot r)))" unfolding names by simp
  then have sorted: "sorted_wrt (\<lambda>x y. rss_Name x < rss_Name y) (rs_Streams (Random_Snapshot r))" by (simp add: sorted_wrt_map)
  have "stream_ok (savedStream u)" if "u \<in> set (rs_Streams (Random_Snapshot r))" for u
  proof -
    have "savedStream u \<in> set (entriesOf (rnd_streams r))" using that by (simp flip: saved)
    moreover obtain n s where u: "savedStream u = (n, s)" by (cases "savedStream u")
    ultimately have "rnd_streams r n = Some s" using set_entriesOf [OF fin, of n s] by simp
    then show ?thesis using inv u by (simp add: random_inv_def)
  qed
  moreover have "length (rs_Streams (Random_Snapshot r)) \<le> unat (rs_MaxStreams (Random_Snapshot r))"
    using inv length_entriesOf [of "rnd_streams r"] by (simp add: Random_Snapshot_def random_inv_def)
  ultimately have "random_restorable (Random_Snapshot r)"
    using sorted inv by (simp add: random_restorable_def) (simp add: Random_Snapshot_def random_inv_def)
  then have restores: "Random_Restore (Random_Snapshot r) q = (Inr (), r)"
    unfolding Random_Restore_eq saved map_of_entriesOf [OF fin] by (simp add: Random_Snapshot_def)
  have "\<exists>r'. Random_Restore st q = (Inr (), r') \<and> random_inv r' \<and> Random_Snapshot r' = st" if ok: "random_restorable st" for st
  proof -
    let ?xs = "map savedStream (rs_Streams st)"
    let ?r = "\<lparr>rnd_seed = rs_Seed st, rnd_maxStreams = rs_MaxStreams st, rnd_streams = map_of ?xs\<rparr>"
    have s: "sorted_wrt (<) (map fst ?xs)" using ok by (simp add: random_restorable_def savedStream_def comp_def sorted_wrt_map)
    then have "distinct (map fst ?xs)" by (simp add: strict_sorted_iff)
    then have "card (dom (map_of ?xs)) = length (rs_Streams st)"
      by (simp add: dom_map_of_conv_image_fst distinct_card flip: set_map)
    moreover have "stream_ok (n, u)" if "map_of ?xs n = Some u" for n u
      using map_of_SomeD [OF that] ok by (auto simp: random_restorable_def)
    ultimately have "random_inv ?r" using ok finite_dom_map_of [of ?xs] by (simp add: random_restorable_def random_inv_def)
    moreover have "Random_Snapshot ?r = st"
      by (simp add: Random_Snapshot_def entriesOf_map_of [OF s] comp_def savedStream_def savedFields)
    ultimately show ?thesis using ok by (simp add: Random_Restore_eq)
  qed
  then show ?thesis using inv restores by (simp add: Random_Restore_eq)
qed

theorem random_snapshot_roundtrip_witness:
  "\<exists>r. r = snd (randomRun [SeedJava [0x61] 5, DrawJava [0x61] 32, DrawUint64 [0x62], SeedLCG [0x63] 1] (NewRandom 9 2)) \<and>
     Random_Restore (Random_Snapshot r) (NewRandom 1 1) = (Inr (), r)"
  using random_snapshot_roundtrip [OF NewRandom_inv refl] by blast

end
