(* ===== verification/Runtime_Clock.thy ===== *)
theory Runtime_Clock
  imports Runtime_Registry
begin

text \<open>
  The virtual clock, src/runtime/clock.go, and the geometry and colours of
  src/runtime/types.go.  Times are int64 nanoseconds or milliseconds and coordinates int32
  values, as integers: every sum the code computes is written with its wrap-around, and the
  lemmas show where none happens.
\<close>

subsection \<open>The clock\<close>

record ClockState =
  cs_MonotonicNanos :: int
  cs_WallEpochMillis :: int
  cs_TimezoneOffsetMins :: int
  cs_Locale :: name
  cs_AdvanceSequence :: u64

record Clock =
  clk_monotonic :: int
  clk_wallEpochMillis :: int
  clk_timezoneOffsetMins :: int
  clk_locale :: name
  clk_advanceSequence :: u64

definition DefaultWallEpochMillis :: int where "DefaultWallEpochMillis = 1167609600000"

text \<open>\<open>time.Duration.Milliseconds\<close> divides towards zero.\<close>

definition Milliseconds :: "int \<Rightarrow> int" where
  "Milliseconds d = (if 0 \<le> d then d div 1000000 else - ((- d) div 1000000))"

definition WallMillis :: "Clock \<Rightarrow> int" where
  "WallMillis c = wrap64 (clk_wallEpochMillis c + Milliseconds (clk_monotonic c))"

definition LocalMillis :: "Clock \<Rightarrow> int" where
  "LocalMillis c = wrap64 (WallMillis c + wrap64 (clk_timezoneOffsetMins c * 60000))"

definition validWallTime :: "int \<Rightarrow> int \<Rightarrow> int \<Rightarrow> bool" where
  "validWallTime epochMillis monotonic timezoneOffsetMins =
     (let elapsedMillis = Milliseconds monotonic in
      if 0 < elapsedMillis \<and> wrap64 (MaxInt64 - elapsedMillis) < epochMillis then False
      else
        let wall = wrap64 (epochMillis + elapsedMillis);
            offset = wrap64 (timezoneOffsetMins * 60000)
        in if 0 < offset then wall \<le> wrap64 (MaxInt64 - offset)
           else offset = 0 \<or> wrap64 (MinInt64 - offset) \<le> wall)"

definition Clock_Advance :: "int \<Rightarrow> Clock \<Rightarrow> (serviceError + unit) \<times> Clock" where
  "Clock_Advance delta c =
     (if delta < 0 \<or> wrap64 (MaxInt64 - clk_monotonic c) < delta then (Inl ErrInvalidArgument, c)
      else if delta = 0 then (Inr (), c)
      else if clk_advanceSequence c = - 1 then (Inl ErrLimitExceeded, c)
      else
        let next' = wrap64 (clk_monotonic c + delta) in
        if \<not> validWallTime (clk_wallEpochMillis c) next' (clk_timezoneOffsetMins c) then (Inl ErrLimitExceeded, c)
        else (Inr (), c\<lparr>clk_monotonic := next', clk_advanceSequence := clk_advanceSequence c + 1\<rparr>))"

definition Clock_Snapshot :: "Clock \<Rightarrow> ClockState" where
  "Clock_Snapshot c =
     \<lparr>cs_MonotonicNanos = clk_monotonic c, cs_WallEpochMillis = clk_wallEpochMillis c,
      cs_TimezoneOffsetMins = clk_timezoneOffsetMins c, cs_Locale = clk_locale c,
      cs_AdvanceSequence = clk_advanceSequence c\<rparr>"

definition Clock_Restore :: "ClockState \<Rightarrow> Clock \<Rightarrow> (serviceError + unit) \<times> Clock" where
  "Clock_Restore st c =
     (if cs_MonotonicNanos st < 0 \<or> cs_TimezoneOffsetMins st < - 24 * 60 \<or> 24 * 60 < cs_TimezoneOffsetMins st \<or>
         64 < length (cs_Locale st) \<or> hasNUL (cs_Locale st) \<or>
         \<not> validWallTime (cs_WallEpochMillis st) (cs_MonotonicNanos st) (cs_TimezoneOffsetMins st)
      then (Inl ErrInvalidState, c)
      else (Inr (), \<lparr>clk_monotonic = cs_MonotonicNanos st, clk_wallEpochMillis = cs_WallEpochMillis st,
        clk_timezoneOffsetMins = cs_TimezoneOffsetMins st, clk_locale = cs_Locale st,
        clk_advanceSequence = cs_AdvanceSequence st\<rparr>))"

definition NewClock :: "int \<Rightarrow> int \<Rightarrow> name \<Rightarrow> serviceError + Clock" where
  "NewClock epochMillis timezoneOffsetMins locale =
     (let epochMillis = (if epochMillis = 0 then DefaultWallEpochMillis else epochMillis);
          zero = \<lparr>clk_monotonic = 0, clk_wallEpochMillis = 0, clk_timezoneOffsetMins = 0, clk_locale = [],
            clk_advanceSequence = 0\<rparr>
      in case Clock_Restore \<lparr>cs_MonotonicNanos = 0, cs_WallEpochMillis = epochMillis,
            cs_TimezoneOffsetMins = timezoneOffsetMins, cs_Locale = locale, cs_AdvanceSequence = 0\<rparr> zero of
        (Inl e, _) \<Rightarrow> Inl e
      | (Inr _, c) \<Rightarrow> Inr c)"

subsection \<open>Times that fit\<close>

definition int64 :: "int \<Rightarrow> bool" where
  "int64 x \<longleftrightarrow> MinInt64 \<le> x \<and> x \<le> MaxInt64"

definition time_fits :: "int \<Rightarrow> int \<Rightarrow> int \<Rightarrow> bool" where
  "time_fits epoch now tz \<longleftrightarrow> int64 (epoch + now div 1000000) \<and> int64 (epoch + now div 1000000 + tz * 60000)"

definition clock_inv :: "Clock \<Rightarrow> bool" where
  "clock_inv c \<longleftrightarrow> 0 \<le> clk_monotonic c \<and> clk_monotonic c \<le> MaxInt64 \<and> int64 (clk_wallEpochMillis c) \<and>
     - 1440 \<le> clk_timezoneOffsetMins c \<and> clk_timezoneOffsetMins c \<le> 1440 \<and> length (clk_locale c) \<le> 64 \<and>
     \<not> hasNUL (clk_locale c) \<and> time_fits (clk_wallEpochMillis c) (clk_monotonic c) (clk_timezoneOffsetMins c)"

lemma validWallTime_eq:
  assumes "int64 epoch" "0 \<le> now" "now \<le> MaxInt64" "- 1440 \<le> tz" "tz \<le> 1440"
  shows "validWallTime epoch now tz \<longleftrightarrow> time_fits epoch now tz"
proof -
  let ?e = "now div 1000000" and ?o = "tz * 60000"
  have e: "0 \<le> ?e" "?e \<le> MaxInt64" using assms(2,3) by (simp_all add: pos_imp_zdiv_nonneg_iff div_le_dividend MaxInt64_def)
  have ms: "Milliseconds now = ?e" using assms(2) by (simp add: Milliseconds_def)
  have o: "wrap64 ?o = ?o" "-86400000 \<le> ?o" "?o \<le> 86400000" using assms(4,5) by (simp_all add: wrap64_id int64_defs)
  have m: "wrap64 (MaxInt64 - ?e) = MaxInt64 - ?e" using e by (intro wrap64_id) (simp_all add: int64_defs)
  have n: "0 \<le> ?o \<Longrightarrow> wrap64 (MaxInt64 - ?o) = MaxInt64 - ?o" "?o \<le> 0 \<Longrightarrow> wrap64 (MinInt64 - ?o) = MinInt64 - ?o"
    using o by (simp_all add: wrap64_id int64_defs)
  have w: "epoch + ?e \<le> MaxInt64 \<Longrightarrow> wrap64 (epoch + ?e) = epoch + ?e"
    using assms(1) e by (intro wrap64_id) (simp_all add: int64_def)
  show ?thesis
    using assms(1) e w n o
    by (auto simp: validWallTime_def Let_def ms m time_fits_def int64_def)
qed

lemma Clock_Advance_eq:
  assumes "clock_inv c" "int64 delta"
  shows "Clock_Advance delta c =
    (if delta < 0 \<or> MaxInt64 < clk_monotonic c + delta then (Inl ErrInvalidArgument, c)
     else if delta = 0 then (Inr (), c)
     else if clk_advanceSequence c = - 1 \<or> \<not> time_fits (clk_wallEpochMillis c) (clk_monotonic c + delta) (clk_timezoneOffsetMins c)
       then (Inl ErrLimitExceeded, c)
     else (Inr (), c\<lparr>clk_monotonic := clk_monotonic c + delta, clk_advanceSequence := clk_advanceSequence c + 1\<rparr>))"
proof -
  have now: "0 \<le> clk_monotonic c" "clk_monotonic c \<le> MaxInt64" using assms(1) by (simp_all add: clock_inv_def)
  have m: "wrap64 (MaxInt64 - clk_monotonic c) = MaxInt64 - clk_monotonic c"
    using now by (intro wrap64_id) (simp_all add: int64_defs)
  have s: "0 \<le> delta \<Longrightarrow> clk_monotonic c + delta \<le> MaxInt64 \<Longrightarrow> wrap64 (clk_monotonic c + delta) = clk_monotonic c + delta"
    using now by (intro wrap64_id) (simp_all add: int64_defs)
  have v: "0 \<le> delta \<Longrightarrow> clk_monotonic c + delta \<le> MaxInt64 \<Longrightarrow>
      validWallTime (clk_wallEpochMillis c) (clk_monotonic c + delta) (clk_timezoneOffsetMins c) =
      time_fits (clk_wallEpochMillis c) (clk_monotonic c + delta) (clk_timezoneOffsetMins c)"
    using assms(1) by (intro validWallTime_eq) (auto simp: clock_inv_def)
  show ?thesis using m s v by (auto simp: Clock_Advance_def Let_def)
qed

text \<open>A saved state as the decoder delivers it: its numbers are int64 and int32 values.\<close>

definition state_range :: "ClockState \<Rightarrow> bool" where
  "state_range st \<longleftrightarrow> int64 (cs_MonotonicNanos st) \<and> int64 (cs_WallEpochMillis st) \<and>
     int32 (cs_TimezoneOffsetMins st) = cs_TimezoneOffsetMins st"

lemma Clock_Restore_inv:
  assumes "state_range st" "Clock_Restore st c = (Inr (), c')"
  shows "clock_inv c' \<and> Clock_Snapshot c' = st"
  using assms validWallTime_eq [of "cs_WallEpochMillis st" "cs_MonotonicNanos st" "cs_TimezoneOffsetMins st"]
  by (auto simp: Clock_Restore_def clock_inv_def state_range_def Clock_Snapshot_def int64_def split: if_splits)

lemma Restore_Snapshot: "clock_inv c \<Longrightarrow> Clock_Restore (Clock_Snapshot c) c0 = (Inr (), c)"
  using validWallTime_eq [of "clk_wallEpochMillis c" "clk_monotonic c" "clk_timezoneOffsetMins c"]
  by (auto simp: Clock_Restore_def clock_inv_def Clock_Snapshot_def)

text \<open>The operations of a session; durations and saved numbers are within their types.\<close>

datatype clockOp = AdvanceClock int | RestoreClock ClockState

fun clockStep :: "clockOp \<Rightarrow> Clock \<Rightarrow> Clock" where
  "clockStep (AdvanceClock delta) c = (if int64 delta then snd (Clock_Advance delta c) else c)"
| "clockStep (RestoreClock st) c = (if state_range st then snd (Clock_Restore st c) else c)"

lemma clockStep_inv: "clock_inv c \<Longrightarrow> clock_inv (clockStep a c)"
proof (cases a)
  case (AdvanceClock delta)
  assume "clock_inv c"
  then show ?thesis using AdvanceClock by (auto simp: Clock_Advance_eq clock_inv_def)
next
  case (RestoreClock st)
  assume inv: "clock_inv c"
  show ?thesis
  proof (cases "fst (Clock_Restore st c)")
    case (Inl e)
    then have "snd (Clock_Restore st c) = c" by (auto simp: Clock_Restore_def split: if_splits)
    then show ?thesis using inv RestoreClock by simp
  next
    case (Inr u)
    then have "Clock_Restore st c = (Inr (), snd (Clock_Restore st c))" by (cases u) (simp add: prod_eq_iff)
    then show ?thesis using inv RestoreClock Clock_Restore_inv by (metis clockStep.simps(2))
  qed
qed

interpretation clock: scripted clock_inv clockStep
  by unfold_locales (rule clockStep_inv)

text \<open>
  C27. Clock readings never overflow.  A clock that was created and then advanced and
  restored in any way reads as exact integers: the wall clock is the epoch plus the whole
  milliseconds of virtual time, the local time that plus the timezone, all within int64.
  An advance takes effect exactly when it is not negative, the virtual time, both readings
  and the sequence number stay within their types, and then adds exactly its duration;
  otherwise it is an error and changes nothing.  Saving and restoring loses nothing.
\<close>

theorem clock_readings_exact:
  assumes "NewClock epoch tz locale = Inr c0" "int64 epoch" "int32 tz = tz" "c = fold clockStep script c0"
  shows "WallMillis c = clk_wallEpochMillis c + clk_monotonic c div 1000000 \<and> int64 (WallMillis c) \<and>
    LocalMillis c = WallMillis c + clk_timezoneOffsetMins c * 60000 \<and> int64 (LocalMillis c) \<and>
    0 \<le> clk_monotonic c \<and> clk_monotonic c \<le> MaxInt64 \<and>
    (\<forall>delta. int64 delta \<longrightarrow>
       (if delta = 0 \<or> 0 \<le> delta \<and> clk_monotonic c + delta \<le> MaxInt64 \<and> clk_advanceSequence c \<noteq> - 1 \<and>
           time_fits (clk_wallEpochMillis c) (clk_monotonic c + delta) (clk_timezoneOffsetMins c)
        then \<exists>c'. Clock_Advance delta c = (Inr (), c') \<and> clk_monotonic c' = clk_monotonic c + delta \<and>
          clk_wallEpochMillis c' = clk_wallEpochMillis c \<and> clk_timezoneOffsetMins c' = clk_timezoneOffsetMins c
        else \<exists>e. Clock_Advance delta c = (Inl e, c))) \<and>
    Clock_Restore (Clock_Snapshot c) c1 = (Inr (), c)"
proof -
  let ?st = "\<lparr>cs_MonotonicNanos = 0, cs_WallEpochMillis = if epoch = 0 then DefaultWallEpochMillis else epoch,
            cs_TimezoneOffsetMins = tz, cs_Locale = locale, cs_AdvanceSequence = 0\<rparr>"
  have "\<exists>z. Clock_Restore ?st z = (Inr (), c0)"
    using assms(1) by (auto simp: NewClock_def Let_def split: prod.splits sum.splits)
  moreover have "state_range ?st"
    using assms(2,3) by (simp add: state_range_def int64_def int64_defs DefaultWallEpochMillis_def)
  ultimately have "clock_inv c0" using Clock_Restore_inv by blast
  then have inv: "clock_inv c" using clock.script_inv assms(4) by simp
  let ?w = "clk_wallEpochMillis c + clk_monotonic c div 1000000" and ?o = "clk_timezoneOffsetMins c * 60000"
  have w: "int64 ?w" "int64 (?w + ?o)" using inv by (simp_all add: clock_inv_def time_fits_def)
  have o: "int64 ?o" using inv by (auto simp: clock_inv_def int64_def int64_defs)
  have wall: "WallMillis c = ?w"
    using inv w(1) by (simp add: WallMillis_def Milliseconds_def clock_inv_def int64_def wrap64_id)
  have "LocalMillis c = ?w + ?o"
    using w(2) o by (simp add: LocalMillis_def wall int64_def wrap64_id)
  moreover have "if delta = 0 \<or> 0 \<le> delta \<and> clk_monotonic c + delta \<le> MaxInt64 \<and> clk_advanceSequence c \<noteq> - 1 \<and>
           time_fits (clk_wallEpochMillis c) (clk_monotonic c + delta) (clk_timezoneOffsetMins c)
        then \<exists>c'. Clock_Advance delta c = (Inr (), c') \<and> clk_monotonic c' = clk_monotonic c + delta \<and>
          clk_wallEpochMillis c' = clk_wallEpochMillis c \<and> clk_timezoneOffsetMins c' = clk_timezoneOffsetMins c
        else \<exists>e. Clock_Advance delta c = (Inl e, c)" if "int64 delta" for delta
    using inv by (auto simp: Clock_Advance_eq [OF inv that] clock_inv_def)
  moreover have "0 \<le> clk_monotonic c" "clk_monotonic c \<le> MaxInt64" using inv by (simp_all add: clock_inv_def)
  ultimately show ?thesis using w wall Restore_Snapshot [OF inv] by simp
qed

theorem clock_readings_exact_witness:
  "\<exists>c0 c. NewClock 0 540 [0x6B, 0x6F] = Inr c0 \<and> c = fold clockStep [AdvanceClock 2500000, AdvanceClock (-1)] c0 \<and>
     clk_monotonic c = 2500000 \<and> WallMillis c = 1167609600002 \<and> LocalMillis c = 1167642000002"
proof -
  let ?start = "\<lparr>clk_monotonic = 0, clk_wallEpochMillis = 1167609600000, clk_timezoneOffsetMins = 540,
      clk_locale = [0x6B, 0x6F], clk_advanceSequence = 0\<rparr>"
  let ?c = "fold clockStep [AdvanceClock 2500000, AdvanceClock (-1)] ?start"
  have new: "NewClock 0 540 [0x6B, 0x6F] = Inr ?start" by code_simp
  have now: "clk_monotonic ?c = 2500000" "clk_wallEpochMillis ?c = 1167609600000" "clk_timezoneOffsetMins ?c = 540"
    by code_simp+
  have "int64 0" "int32 540 = 540" by code_simp+
  note e = clock_readings_exact [OF new this refl, of "[AdvanceClock 2500000, AdvanceClock (-1)]"]
  have "WallMillis ?c = 1167609600002" using e [THEN conjunct1] unfolding now by simp
  moreover have "LocalMillis ?c = 1167642000002"
    using e [THEN conjunct2, THEN conjunct2, THEN conjunct1] calculation unfolding now by simp
  ultimately show ?thesis using new now(1) by blast
qed

end
