(* ===== verification/Runtime_Geometry.thy ===== *)
theory Runtime_Geometry
  imports Service_Prelude
begin

text \<open>
  Rectangles and colours of the drawing services, src/runtime/types.go.  Coordinates and
  sizes are int32 values, as integers; edges are computed in int64, where they cannot wrap,
  and the conversions back are written out.
\<close>

subsection \<open>Rectangles\<close>

record Rectangle =
  rect_X :: int
  rect_Y :: int
  rect_Width :: int
  rect_Height :: int

definition rect :: "int \<Rightarrow> int \<Rightarrow> int \<Rightarrow> int \<Rightarrow> Rectangle" where
  "rect x y w h = \<lparr>rect_X = x, rect_Y = y, rect_Width = w, rect_Height = h\<rparr>"

definition Rectangle_Valid :: "Rectangle \<Rightarrow> bool" where
  "Rectangle_Valid r \<longleftrightarrow> 0 \<le> rect_Width r \<and> 0 \<le> rect_Height r"

definition Rectangle_Empty :: "Rectangle \<Rightarrow> bool" where
  "Rectangle_Empty r \<longleftrightarrow> rect_Width r = 0 \<or> rect_Height r = 0"

definition Rectangle_Right :: "Rectangle \<Rightarrow> int" where "Rectangle_Right r = rect_X r + rect_Width r"
definition Rectangle_Bottom :: "Rectangle \<Rightarrow> int" where "Rectangle_Bottom r = rect_Y r + rect_Height r"

definition MinInt32 :: int where "MinInt32 = - (2 ^ 31)"
definition MaxInt32 :: int where "MaxInt32 = 2 ^ 31 - 1"

definition Rectangle_Intersect :: "Rectangle \<Rightarrow> Rectangle \<Rightarrow> Rectangle" where
  "Rectangle_Intersect r other =
     (let left = max (rect_X r) (rect_X other);
          top = max (rect_Y r) (rect_Y other);
          right = min (Rectangle_Right r) (Rectangle_Right other);
          bottom = min (Rectangle_Bottom r) (Rectangle_Bottom other)
      in if right \<le> left \<or> bottom \<le> top \<or> left < MinInt32 \<or> MaxInt32 < left \<or> top < MinInt32 \<or> MaxInt32 < top
         then rect 0 0 0 0
         else rect (int32 left) (int32 top) (int32 (right - left)) (int32 (bottom - top)))"

definition Rectangle_Union :: "Rectangle \<Rightarrow> Rectangle \<Rightarrow> Rectangle" where
  "Rectangle_Union r other =
     (if Rectangle_Empty r then other
      else if Rectangle_Empty other then r
      else
        let left = min (rect_X r) (rect_X other);
            top = min (rect_Y r) (rect_Y other);
            right = max (Rectangle_Right r) (Rectangle_Right other);
            bottom = max (Rectangle_Bottom r) (Rectangle_Bottom other)
        in if left < MinInt32 \<or> MaxInt32 < left \<or> top < MinInt32 \<or> MaxInt32 < top \<or>
              MaxInt32 < right - left \<or> MaxInt32 < bottom - top
           then rect 0 0 0 0
           else rect (int32 left) (int32 top) (int32 (right - left)) (int32 (bottom - top)))"

text \<open>The pixels of a rectangle, and the rectangles whose fields are int32 values.\<close>

definition pixels :: "Rectangle \<Rightarrow> (int \<times> int) set" where
  "pixels r = {rect_X r..<Rectangle_Right r} \<times> {rect_Y r..<Rectangle_Bottom r}"

definition rect_range :: "Rectangle \<Rightarrow> bool" where
  "rect_range r \<longleftrightarrow> (\<forall>x \<in> {rect_X r, rect_Y r, rect_Width r, rect_Height r}. MinInt32 \<le> x \<and> x \<le> MaxInt32)"

lemma rect_sel [simp]:
  "rect_X (rect x y w h) = x" "rect_Y (rect x y w h) = y" "rect_Width (rect x y w h) = w" "rect_Height (rect x y w h) = h"
  by (simp_all add: rect_def)

lemma fits_int32: "MinInt32 \<le> x \<Longrightarrow> x \<le> MaxInt32 \<Longrightarrow> int32 x = x"
  by (simp add: int32_id MinInt32_def MaxInt32_def)

lemma pixels_zero [simp]: "pixels (rect 0 0 0 0) = {}"
  by (simp add: pixels_def Rectangle_Right_def)

lemma Rectangle_Intersect_pixels:
  assumes "rect_range r" "rect_range s"
  shows "pixels (Rectangle_Intersect r s) = pixels r \<inter> pixels s"
proof -
  let ?l = "max (rect_X r) (rect_X s)" and ?t = "max (rect_Y r) (rect_Y s)"
    and ?r = "min (Rectangle_Right r) (Rectangle_Right s)" and ?b = "min (Rectangle_Bottom r) (Rectangle_Bottom s)"
  have cut: "pixels r \<inter> pixels s = {?l..<?r} \<times> {?t..<?b}" by (auto simp: pixels_def)
  have range: "MinInt32 \<le> ?l" "?l \<le> MaxInt32" "MinInt32 \<le> ?t" "?t \<le> MaxInt32"
    "?r - ?l \<le> MaxInt32" "?b - ?t \<le> MaxInt32"
    using assms by (auto simp: rect_range_def Rectangle_Right_def Rectangle_Bottom_def)
  show ?thesis
  proof (cases "?r \<le> ?l \<or> ?b \<le> ?t")
    case True
    then have "Rectangle_Intersect r s = rect 0 0 0 0" by (auto simp: Rectangle_Intersect_def Let_def)
    then show ?thesis unfolding cut using True by auto
  next
    case False
    then have "int32 (?r - ?l) = ?r - ?l" "int32 (?b - ?t) = ?b - ?t"
      using range by (simp_all add: fits_int32 MinInt32_def)
    moreover have "\<not> (?r \<le> ?l \<or> ?b \<le> ?t \<or> ?l < MinInt32 \<or> MaxInt32 < ?l \<or> ?t < MinInt32 \<or> MaxInt32 < ?t)"
      using False range by linarith
    then have "Rectangle_Intersect r s = rect (int32 ?l) (int32 ?t) (int32 (?r - ?l)) (int32 (?b - ?t))"
      unfolding Rectangle_Intersect_def Let_def by (rule if_not_P)
    moreover have "int32 ?l = ?l" "int32 ?t = ?t" using range by (simp_all add: fits_int32)
    ultimately have "Rectangle_Intersect r s = rect ?l ?t (?r - ?l) (?b - ?t)" by (simp only:)
    then show ?thesis unfolding cut by (simp add: pixels_def Rectangle_Right_def Rectangle_Bottom_def)
  qed
qed

lemma pixels_empty: "Rectangle_Valid r \<Longrightarrow> pixels r = {} \<longleftrightarrow> Rectangle_Empty r"
  by (auto simp: pixels_def Rectangle_Valid_def Rectangle_Empty_def Rectangle_Right_def Rectangle_Bottom_def)

lemma pixels_subset:
  assumes "pixels r \<subseteq> pixels u" "pixels r \<noteq> {}"
  shows "rect_X u \<le> rect_X r" "rect_Y u \<le> rect_Y r" "Rectangle_Right r \<le> Rectangle_Right u" "Rectangle_Bottom r \<le> Rectangle_Bottom u"
  using assms unfolding pixels_def times_subset_iff times_eq_iff by (auto simp: atLeastLessThan_subset_iff)

text \<open>
  Rectangle operations are exact.  On rectangles of int32 fields, \<open>Intersect\<close> holds
  exactly the common pixels.  \<open>Union\<close> of valid rectangles is the smallest rectangle around
  both: when some representable valid rectangle holds the pixels of both, the union holds
  them and lies inside every such rectangle; when none does, the union is the empty rectangle.
\<close>

theorem rectangle_operations_exact:
  assumes "rect_range r" "rect_range s" "Rectangle_Valid r" "Rectangle_Valid s"
  shows "pixels (Rectangle_Intersect r s) = pixels r \<inter> pixels s \<and>
    (if \<exists>u. rect_range u \<and> Rectangle_Valid u \<and> pixels r \<union> pixels s \<subseteq> pixels u
     then rect_range (Rectangle_Union r s) \<and> Rectangle_Valid (Rectangle_Union r s) \<and> pixels r \<union> pixels s \<subseteq> pixels (Rectangle_Union r s) \<and>
       (\<forall>u. pixels r \<union> pixels s \<subseteq> pixels u \<longrightarrow> pixels (Rectangle_Union r s) \<subseteq> pixels u)
     else Rectangle_Union r s = rect 0 0 0 0)"
proof -
  let ?l = "min (rect_X r) (rect_X s)" and ?t = "min (rect_Y r) (rect_Y s)"
    and ?r = "max (Rectangle_Right r) (Rectangle_Right s)" and ?b = "max (Rectangle_Bottom r) (Rectangle_Bottom s)"
  have range: "MinInt32 \<le> ?l" "?l \<le> MaxInt32" "MinInt32 \<le> ?t" "?t \<le> MaxInt32" "0 \<le> ?r - ?l" "0 \<le> ?b - ?t"
    using assms by (auto simp: rect_range_def Rectangle_Right_def Rectangle_Bottom_def Rectangle_Valid_def)
  show ?thesis
  proof (cases "Rectangle_Empty r \<or> Rectangle_Empty s")
    case True
    then have "Rectangle_Union r s = s \<and> pixels r = {} \<or> Rectangle_Union r s = r \<and> pixels s = {}"
      using pixels_empty assms by (auto simp: Rectangle_Union_def)
    then show ?thesis using assms Rectangle_Intersect_pixels by auto
  next
    case False
    then have ne: "pixels r \<noteq> {}" "pixels s \<noteq> {}" using pixels_empty assms by auto
    let ?fits = "?r - ?l \<le> MaxInt32 \<and> ?b - ?t \<le> MaxInt32"
    have u: "rect_X u \<le> ?l \<and> rect_Y u \<le> ?t \<and> ?r \<le> Rectangle_Right u \<and> ?b \<le> Rectangle_Bottom u" if "pixels r \<union> pixels s \<subseteq> pixels u" for u
      using that pixels_subset [of r u] pixels_subset [of s u] ne by auto
    show ?thesis
    proof (cases ?fits)
      case True
      have "\<not> (?l < MinInt32 \<or> MaxInt32 < ?l \<or> ?t < MinInt32 \<or> MaxInt32 < ?t \<or> MaxInt32 < ?r - ?l \<or> MaxInt32 < ?b - ?t)"
        using True range by linarith
      then have "Rectangle_Union r s = rect (int32 ?l) (int32 ?t) (int32 (?r - ?l)) (int32 (?b - ?t))"
        using False unfolding Rectangle_Union_def Let_def by (simp only: if_False de_Morgan_disj simp_thms)
      moreover have "int32 ?l = ?l" "int32 ?t = ?t" "int32 (?r - ?l) = ?r - ?l" "int32 (?b - ?t) = ?b - ?t"
        using True range by (simp_all add: fits_int32 MinInt32_def)
      ultimately have eq: "Rectangle_Union r s = rect ?l ?t (?r - ?l) (?b - ?t)" by (simp only:)
      have "rect_range (Rectangle_Union r s)" "Rectangle_Valid (Rectangle_Union r s)"
        using range True by (auto simp: eq rect_range_def Rectangle_Valid_def MinInt32_def)
      moreover have "pixels r \<union> pixels s \<subseteq> pixels (Rectangle_Union r s)"
        by (auto simp: eq pixels_def Rectangle_Right_def Rectangle_Bottom_def)
      moreover have "pixels (Rectangle_Union r s) \<subseteq> pixels u" if "pixels r \<union> pixels s \<subseteq> pixels u" for u
        using u [OF that] by (auto simp: eq pixels_def Rectangle_Right_def [of "rect _ _ _ _"] Rectangle_Bottom_def [of "rect _ _ _ _"])
      ultimately show ?thesis using Rectangle_Intersect_pixels assms by auto
    next
      case no: False
      have "\<not> pixels r \<union> pixels s \<subseteq> pixels u" if "rect_range u" for u
        using u [of u] that no by (auto simp: rect_range_def Rectangle_Right_def [of u] Rectangle_Bottom_def [of u])
      moreover have "Rectangle_Union r s = rect 0 0 0 0" using no False by (auto simp: Rectangle_Union_def Let_def)
      ultimately show ?thesis using Rectangle_Intersect_pixels assms by auto
    qed
  qed
qed

theorem rectangle_operations_exact_witness:
  "pixels (Rectangle_Intersect (rect 0 0 10 10) (rect 5 (-5) 10 10)) = pixels (rect 0 0 10 10) \<inter> pixels (rect 5 (-5) 10 10) \<and>
   pixels (rect 0 0 10 10) \<subseteq> pixels (Rectangle_Union (rect 0 0 10 10) (rect 5 (-5) 10 10))"
proof -
  have ok: "rect_range (rect 0 0 10 10)" "rect_range (rect 5 (-5) 10 10)"
    "Rectangle_Valid (rect 0 0 10 10)" "Rectangle_Valid (rect 5 (-5) 10 10)"
    by (simp_all add: rect_range_def Rectangle_Valid_def MinInt32_def MaxInt32_def)
  have "rect_range (rect 0 (-5) 15 15)" "Rectangle_Valid (rect 0 (-5) 15 15)"
    "pixels (rect 0 0 10 10) \<union> pixels (rect 5 (-5) 10 10) \<subseteq> pixels (rect 0 (-5) 15 15)"
    by (auto simp: rect_range_def Rectangle_Valid_def MinInt32_def MaxInt32_def pixels_def Rectangle_Right_def Rectangle_Bottom_def)
  then show ?thesis using rectangle_operations_exact [OF ok] by (auto split: if_splits)
qed

subsection \<open>Colours\<close>

record Color =
  col_R :: u8
  col_G :: u8
  col_B :: u8
  col_A :: u8

definition RGB :: "u8 \<Rightarrow> u8 \<Rightarrow> u8 \<Rightarrow> Color" where
  "RGB red green blue = \<lparr>col_R = red, col_G = green, col_B = blue, col_A = 0xff\<rparr>"

definition RGBA32 :: "Color \<Rightarrow> u32" where
  "RGBA32 c = push_bit 24 (ucast (col_R c)) OR push_bit 16 (ucast (col_G c)) OR push_bit 8 (ucast (col_B c)) OR ucast (col_A c)"

definition ColorFromRGBA32 :: "u32 \<Rightarrow> Color" where
  "ColorFromRGBA32 v =
     \<lparr>col_R = ucast (drop_bit 24 v), col_G = ucast (drop_bit 16 v), col_B = ucast (drop_bit 8 v), col_A = ucast v\<rparr>"

lemma bit_u8 [simp]: "8 \<le> n \<Longrightarrow> \<not> bit (x :: u8) n"
  by (auto dest: bit_imp_le_length)

lemma color_roundtrip: "ColorFromRGBA32 (RGBA32 c) = c" "RGBA32 (ColorFromRGBA32 v) = v"
proof -
  show "ColorFromRGBA32 (RGBA32 c) = c"
    by (cases c) (auto simp: ColorFromRGBA32_def RGBA32_def bit_simps intro!: bit_word_eqI dest: bit_imp_le_length)
  show "RGBA32 (ColorFromRGBA32 v) = v"
  proof (rule bit_word_eqI)
    fix n assume "n < LENGTH(32)"
    then have "n < 8 \<or> 8 \<le> n \<and> n < 16 \<or> 16 \<le> n \<and> n < 24 \<or> 24 \<le> n \<and> n < 32" by auto
    then show "bit (RGBA32 (ColorFromRGBA32 v)) n = bit v n"
      by (auto simp: ColorFromRGBA32_def RGBA32_def bit_simps)
  qed
qed

end
