(* ===== verification/Ime_Automata.thy ===== *)
theory Ime_Automata
  imports Service_Prelude "HOL-Library.Signed_Division" "HOL-Library.Sublist"
begin

text \<open>
  The input method, src/internal/ime: the multi-tap automaton behind a text field
  (automata.go) and its Hangul syllable automaton (hangul.go).  A key press changes the
  automaton and answers the edits to make at the caret of the field.  Runes are int32
  values and the automaton's indices Go integers, all as integers, with the conversions
  written out; an index out of range, which panics in Go, is \<open>None\<close>.
\<close>

subsection \<open>Runes and indices\<close>

definition indexInt :: "'a list \<Rightarrow> int \<Rightarrow> 'a option" where
  "indexInt xs i = (if 0 \<le> i \<and> i < int (length xs) then Some (xs ! nat i) else None)"

definition runes :: "string \<Rightarrow> int list" where
  "runes s = map of_char s"

subsection \<open>Edits\<close>

datatype OpKind = OpInsert | OpReplace | OpDelete

record Op =
  Kind :: OpKind
  Char :: int

definition op :: "OpKind \<Rightarrow> int \<Rightarrow> Op" where
  "op kind c = \<lparr>Kind = kind, Char = c\<rparr>"

subsection \<open>The Hangul automaton\<close>

definition hangulSyllableBase :: int where "hangulSyllableBase = 0xAC00"
definition hangulJungCompat :: int where "hangulJungCompat = 0x314F"

definition vowelNone :: int where "vowelNone = -1"
definition vowelDot1 :: int where "vowelDot1 = -2"
definition vowelDot2 :: int where "vowelDot2 = -3"

definition strokeI :: int where "strokeI = 1"
definition strokeD :: int where "strokeD = 2"
definition strokeU :: int where "strokeU = 3"

lemmas vowel_defs = vowelNone_def vowelDot1_def vowelDot2_def strokeI_def strokeD_def strokeU_def

definition choseongCompat :: "int list" where
  "choseongCompat =
     [0x3131, 0x3132, 0x3134, 0x3137, 0x3138, 0x3139, 0x3141, 0x3142, 0x3143,
      0x3145, 0x3146, 0x3147, 0x3148, 0x3149, 0x314A, 0x314B, 0x314C, 0x314D,
      0x314E]"

definition consonantChoseong :: "int \<Rightarrow> int list option" where
  "consonantChoseong = map_of (zip (runes ''4567890'')
     [[0, 15, 1], [2, 5], [3, 16, 4], [7, 17, 8], [9, 18, 10], [12, 14, 13], [11, 6]])"

definition consonantJongseong :: "int \<Rightarrow> int list option" where
  "consonantJongseong = map_of (zip (runes ''4567890'')
     [[1, 24, 2], [4, 8], [7, 25], [17, 26], [19, 27, 20], [22, 23], [21, 16]])"

definition jongseongToChoseong :: "int \<Rightarrow> int option" where
  "jongseongToChoseong = map_of
     [(1, 0), (2, 1), (4, 2), (7, 3), (8, 5), (16, 6), (17, 7),
      (19, 9), (20, 10), (21, 11), (22, 12), (23, 14), (24, 15), (25, 16), (26, 17), (27, 18)]"

definition vowelTransitions :: "int \<times> int \<Rightarrow> int option" where
  "vowelTransitions = map_of
     [((vowelNone, strokeI), 20), ((vowelNone, strokeD), vowelDot1), ((vowelNone, strokeU), 18),
      ((20, strokeD), 0), ((0, strokeD), 2), ((0, strokeI), 1), ((2, strokeI), 3),
      ((vowelDot1, strokeD), vowelDot2), ((vowelDot1, strokeI), 4), ((vowelDot1, strokeU), 8),
      ((vowelDot2, strokeI), 6), ((vowelDot2, strokeU), 12),
      ((4, strokeI), 5), ((4, strokeD), 6), ((6, strokeI), 7),
      ((8, strokeI), 11), ((18, strokeD), 13), ((18, strokeI), 19), ((13, strokeD), 17), ((13, strokeI), 16)]"

text \<open>A missing transition answers the zero rune and \<open>false\<close>.\<close>

definition vowelStep :: "int \<Rightarrow> int \<Rightarrow> int \<times> bool" where
  "vowelStep state stroke =
     (case vowelTransitions (state, stroke) of None \<Rightarrow> (0, False) | Some v \<Rightarrow> (v, True))"

definition isRealVowel :: "int \<Rightarrow> bool" where
  "isRealVowel state \<longleftrightarrow> 0 \<le> state \<and> state \<le> 20"

record koreanAutomata =
  choseong :: int
  jungseong :: int
  jongseong :: int
  composing :: bool
  lastKey :: int
  lastIndex :: int

definition koreanReset :: "koreanAutomata \<Rightarrow> koreanAutomata" where
  "koreanReset k = k\<lparr>choseong := -1, jungseong := vowelNone, jongseong := 0, composing := False,
     lastKey := 0, lastIndex := 0\<rparr>"

definition render :: "koreanAutomata \<Rightarrow> int option" where
  "render k =
     (let jung = int32 (jungseong k) in
      if 0 \<le> choseong k \<and> isRealVowel jung then
        Some (int32 (hangulSyllableBase + int32 ((choseong k * 21 + jung) * 28 + jongseong k)))
      else if 0 \<le> choseong k then indexInt choseongCompat (choseong k)
      else if isRealVowel jung then Some (hangulJungCompat + jung)
      else Some 0)"

definition emit :: "koreanAutomata \<Rightarrow> (Op list \<times> koreanAutomata) option" where
  "emit k =
     (case render k of
        None \<Rightarrow> None
      | Some glyph \<Rightarrow>
          if glyph = 0 then Some ([], k)
          else if composing k then Some ([op OpReplace glyph], k)
          else Some ([op OpInsert glyph], k\<lparr>composing := True\<rparr>))"

definition startSyllable :: "koreanAutomata \<Rightarrow> koreanAutomata" where
  "startSyllable k = k\<lparr>choseong := -1, jungseong := vowelNone, jongseong := 0, composing := False,
     lastKey := 0, lastIndex := 0\<rparr>"

text \<open>The rotation through the candidates of a key.\<close>

definition cycled :: "int list \<Rightarrow> koreanAutomata \<Rightarrow> (int \<times> int) option" where
  "cycled xs k =
     (let i = (lastIndex k + 1) smod int (length xs) in
      case indexInt xs i of None \<Rightarrow> None | Some x \<Rightarrow> Some (i, x))"

definition pressConsonant :: "int \<Rightarrow> int list \<Rightarrow> int list \<Rightarrow> koreanAutomata \<Rightarrow> (Op list \<times> koreanAutomata) option" where
  "pressConsonant key choCycle jongCycle k =
     (let jung = int32 (jungseong k);
          fresh = (case indexInt choCycle 0 of None \<Rightarrow> None
            | Some c \<Rightarrow> Some ((startSyllable k)\<lparr>choseong := c, lastKey := key\<rparr>));
          k' =
            (if choseong k < 0 \<and> jung = vowelNone then
               (case indexInt choCycle 0 of None \<Rightarrow> None
                | Some c \<Rightarrow> Some (k\<lparr>choseong := c, lastKey := key, lastIndex := 0\<rparr>))
             else if 0 \<le> choseong k \<and> jung = vowelNone then
               if lastKey k = key then
                 (case cycled choCycle k of None \<Rightarrow> None
                  | Some (i, c) \<Rightarrow> Some (k\<lparr>lastIndex := i, choseong := c\<rparr>))
               else fresh
             else if 0 \<le> choseong k \<and> isRealVowel jung \<and> jongseong k = 0 then
               (case indexInt jongCycle 0 of None \<Rightarrow> None
                | Some j \<Rightarrow> Some (k\<lparr>jongseong := j, lastKey := key, lastIndex := 0\<rparr>))
             else if 0 \<le> choseong k \<and> isRealVowel jung \<and> jongseong k \<noteq> 0 then
               if lastKey k = key then
                 (case cycled jongCycle k of None \<Rightarrow> None
                  | Some (i, j) \<Rightarrow> Some (k\<lparr>lastIndex := i, jongseong := j\<rparr>))
               else fresh
             else fresh)
      in case k' of None \<Rightarrow> None | Some k \<Rightarrow> emit k)"

text \<open>The medial of the syllable under construction, extended by a stroke.\<close>

definition extendVowel :: "int \<Rightarrow> koreanAutomata \<Rightarrow> (Op list \<times> koreanAutomata) option" where
  "extendVowel stroke k =
     (let (v, ok) = vowelStep (int32 (jungseong k)) stroke in
      if ok then emit (k\<lparr>jungseong := v\<rparr>)
      else
        let k = startSyllable k;
            (v, _) = vowelStep vowelNone stroke
        in emit (k\<lparr>jungseong := v\<rparr>))"

definition pressVowel :: "int \<Rightarrow> koreanAutomata \<Rightarrow> (Op list \<times> koreanAutomata) option" where
  "pressVowel stroke k =
     (if 0 \<le> choseong k \<and> isRealVowel (int32 (jungseong k)) \<and> jongseong k \<noteq> 0 then
        (case jongseongToChoseong (jongseong k) of
           Some moved \<Rightarrow>
             let k = k\<lparr>jongseong := 0\<rparr> in
             (case render k of
                None \<Rightarrow> None
              | Some g \<Rightarrow>
                  let (v, _) = vowelStep vowelNone stroke;
                      k = (startSyllable k)\<lparr>choseong := moved, jungseong := v\<rparr>
                  in (case emit k of
                        None \<Rightarrow> None
                      | Some (add, k) \<Rightarrow> Some (op OpReplace g # add, k)))
         | None \<Rightarrow> extendVowel stroke k)
      else extendVowel stroke k)"

definition handled :: "(Op list \<times> 's) option \<Rightarrow> ((Op list \<times> bool) \<times> 's) option" where
  "handled r = map_option (\<lambda>(ops, s). ((ops, True), s)) r"

definition koreanPress :: "int \<Rightarrow> koreanAutomata \<Rightarrow> ((Op list \<times> bool) \<times> koreanAutomata) option" where
  "koreanPress key k =
     (case consonantChoseong key of
        Some choCycle \<Rightarrow>
          handled (pressConsonant key choCycle
            (case consonantJongseong key of Some c \<Rightarrow> c | None \<Rightarrow> []) k)
      | None \<Rightarrow>
          if key = of_char CHR ''1'' then handled (pressVowel strokeI k)
          else if key = of_char CHR ''2'' then handled (pressVowel strokeD k)
          else if key = of_char CHR ''3'' then handled (pressVowel strokeU k)
          else Some (([], False), k))"

subsection \<open>The automaton\<close>

definition ModeENLower :: int where "ModeENLower = 0"
definition ModeENUpper :: int where "ModeENUpper = 1"
definition ModeNumeric :: int where "ModeNumeric = 2"
definition ModeKorean :: int where "ModeKorean = 3"
definition ModeCount :: int where "ModeCount = 4"

lemmas mode_defs = ModeENLower_def ModeENUpper_def ModeNumeric_def ModeKorean_def ModeCount_def

record mhImaKey =
  lower :: "int list"
  upper :: "int list"

definition mhImaEnglishKeymap :: "int \<Rightarrow> mhImaKey option" where
  "mhImaEnglishKeymap =
     map_of (zip (runes ''1234567890'') (map (\<lambda>(l, u). \<lparr>lower = runes l, upper = runes u\<rparr>)
       [(''.,?!1'', ''.,?!1''), (''abc2'', ''ABC2''), (''def3'', ''DEF3''), (''ghi4'', ''GHI4''),
        (''jkl5'', ''JKL5''), (''mno6'', ''MNO6''), (''pqrs7'', ''PQRS7''), (''tuv8'', ''TUV8''),
        (''wxyz9'', ''WXYZ9''), ('' 0'', '' 0'')]))"

definition ModeKey :: int where "ModeKey = of_char CHR ''*''"
definition SpaceKey :: int where "SpaceKey = of_char (CHR 0x23)"

record Automata =
  ime_mode :: int
  composingKey :: int
  composingIndex :: int
  korean :: koreanAutomata

definition Automata_Reset :: "Automata \<Rightarrow> Automata" where
  "Automata_Reset a = a\<lparr>composingKey := 0, composingIndex := 0, korean := koreanReset (korean a)\<rparr>"

definition Automata_Commit :: "Automata \<Rightarrow> Automata" where
  "Automata_Commit a = a\<lparr>composingKey := 0, composingIndex := 0, korean := koreanReset (korean a)\<rparr>"

definition Automata_SetMode :: "int \<Rightarrow> Automata \<Rightarrow> Automata" where
  "Automata_SetMode m a = (if m < 0 \<or> ModeCount \<le> m then a else Automata_Reset (a\<lparr>ime_mode := m\<rparr>))"

definition zeroAutomata :: Automata where
  "zeroAutomata = \<lparr>ime_mode = 0, composingKey = 0, composingIndex = 0,
     korean = \<lparr>choseong = 0, jungseong = 0, jongseong = 0, composing = False, lastKey = 0, lastIndex = 0\<rparr>\<rparr>"

definition Automata_New :: "int \<Rightarrow> Automata" where
  "Automata_New m = Automata_SetMode m zeroAutomata"

definition pressNumeric :: "int \<Rightarrow> Automata \<Rightarrow> ((Op list \<times> bool) \<times> Automata) option" where
  "pressNumeric key a =
     (if key < of_char CHR ''0'' \<or> of_char CHR ''9'' < key then Some (([], False), a)
      else Some (([op OpInsert key], True), Automata_Commit a))"

definition pressEnglish :: "int \<Rightarrow> bool \<Rightarrow> Automata \<Rightarrow> ((Op list \<times> bool) \<times> Automata) option" where
  "pressEnglish key up a =
     (case mhImaEnglishKeymap key of
        None \<Rightarrow> Some (([], False), a)
      | Some entry \<Rightarrow>
          let candidates = (if up then upper entry else lower entry) in
          if length candidates = 0 then Some (([], False), a)
          else if composingKey a = key then
            let i = (composingIndex a + 1) smod int (length candidates) in
            (case indexInt candidates i of
               None \<Rightarrow> None
             | Some c \<Rightarrow> Some (([op OpReplace c], True), a\<lparr>composingIndex := i\<rparr>))
          else
            Some (([op OpInsert (candidates ! 0)], True), a\<lparr>composingKey := key, composingIndex := 0\<rparr>))"

definition Press :: "int \<Rightarrow> Automata \<Rightarrow> ((Op list \<times> bool) \<times> Automata) option" where
  "Press key a =
     (if key = ModeKey then
        (let a = Automata_Commit a in Some (([], True), a\<lparr>ime_mode := (ime_mode a + 1) smod ModeCount\<rparr>))
      else if key = SpaceKey then Some (([op OpInsert (of_char CHR '' '')], True), Automata_Commit a)
      else if ime_mode a = ModeNumeric then pressNumeric key a
      else if ime_mode a = ModeENLower then pressEnglish key False a
      else if ime_mode a = ModeENUpper then pressEnglish key True a
      else if ime_mode a = ModeKorean then
        map_option (\<lambda>(r, k). (r, a\<lparr>korean := k\<rparr>)) (koreanPress key (korean a))
      else Some (([], False), a))"

subsection \<open>Snapshots\<close>

record ImeState =
  st_Mode :: int
  st_ComposingKey :: int
  st_ComposingIndex :: int
  st_Choseong :: int
  st_Jungseong :: int
  st_Jongseong :: int
  st_Composing :: bool
  st_LastKey :: int
  st_LastIndex :: int

definition Automata_Snapshot :: "Automata \<Rightarrow> ImeState" where
  "Automata_Snapshot a =
     \<lparr>st_Mode = int32 (ime_mode a), st_ComposingKey = composingKey a,
      st_ComposingIndex = int32 (composingIndex a), st_Choseong = int32 (choseong (korean a)),
      st_Jungseong = int32 (jungseong (korean a)), st_Jongseong = int32 (jongseong (korean a)),
      st_Composing = composing (korean a), st_LastKey = lastKey (korean a),
      st_LastIndex = int32 (lastIndex (korean a))\<rparr>"

definition Automata_Restore :: "ImeState \<Rightarrow> Automata \<Rightarrow> Automata" where
  "Automata_Restore s a =
     a\<lparr>ime_mode := (if st_Mode s < 0 \<or> ModeCount \<le> st_Mode s then ModeKorean else st_Mode s),
       composingKey := st_ComposingKey s, composingIndex := st_ComposingIndex s,
       korean := (korean a)\<lparr>choseong := st_Choseong s, jungseong := st_Jungseong s,
         jongseong := st_Jongseong s, composing := st_Composing s,
         lastKey := st_LastKey s, lastIndex := st_LastIndex s\<rparr>\<rparr>"

subsection \<open>The text field\<close>

text \<open>The characters before the caret; an edit of a missing character fails.\<close>

definition applyOp :: "Op \<Rightarrow> int list \<Rightarrow> int list option" where
  "applyOp e t =
     (case Kind e of
        OpInsert \<Rightarrow> Some (t @ [Char e])
      | OpReplace \<Rightarrow> if t = [] then None else Some (butlast t @ [Char e])
      | OpDelete \<Rightarrow> if t = [] then None else Some (butlast t))"

fun applyOps :: "Op list \<Rightarrow> int list \<Rightarrow> int list option" where
  "applyOps [] t = Some t"
| "applyOps (e # es) t = (case applyOp e t of None \<Rightarrow> None | Some t \<Rightarrow> applyOps es t)"

lemma applyOps_frame: "applyOps es t = Some t' \<Longrightarrow> applyOps es (p @ t) = Some (p @ t')"
proof (induction es arbitrary: t)
  case (Cons e es)
  then obtain u where u: "applyOp e t = Some u" "applyOps es u = Some t'" by (auto split: option.splits)
  then have "applyOp e (p @ t) = Some (p @ u)"
    by (auto simp: applyOp_def butlast_append split: OpKind.splits if_splits)
  then show ?case using Cons.IH [OF u(2)] by simp
qed simp

lemma op_sel [simp]: "Kind (op kind c) = kind" "Char (op kind c) = c"
  by (simp_all add: op_def)

subsection \<open>The consistent states\<close>

definition medials :: "int list" where
  "medials = [0, 1, 2, 3, 4, 5, 6, 7, 8, 11, 12, 13, 16, 17, 18, 19, 20]"

definition finals :: "int list" where
  "finals = [1, 2, 4, 7, 8, 16, 17, 19, 20, 21, 22, 23, 24, 25, 26, 27]"

definition syllable :: "int \<Rightarrow> int \<Rightarrow> int \<Rightarrow> int" where
  "syllable cho jung jong = 0xAC00 + (cho * 21 + jung) * 28 + jong"

text \<open>What the field shows of a syllable under construction; 0 for nothing.\<close>

definition glyph :: "koreanAutomata \<Rightarrow> int" where
  "glyph k =
     (if 0 \<le> choseong k then
        if 0 \<le> jungseong k then syllable (choseong k) (jungseong k) (jongseong k)
        else choseongCompat ! nat (choseong k)
      else if 0 \<le> jungseong k then 0x314F + jungseong k else 0)"

definition korean_core :: "koreanAutomata \<Rightarrow> bool" where
  "korean_core k \<longleftrightarrow> -1 \<le> choseong k \<and> choseong k \<le> 18 \<and>
     jungseong k \<in> set (-1 # -2 # -3 # medials) \<and>
     (jongseong k = 0 \<or> jongseong k \<in> set finals \<and> 0 \<le> choseong k \<and> 0 \<le> jungseong k) \<and>
     0 \<le> lastIndex k"

definition korean_inv :: "koreanAutomata \<Rightarrow> bool" where
  "korean_inv k \<longleftrightarrow> korean_core k \<and> (composing k \<longleftrightarrow> glyph k \<noteq> 0)"

definition koreanShown :: "koreanAutomata \<Rightarrow> int list" where
  "koreanShown k = (if composing k then [glyph k] else [])"

text \<open>The Hangul characters the automaton can leave in a field.\<close>

definition hangul :: "int set" where
  "hangul = set choseongCompat \<union> (\<lambda>v. 0x314F + v) ` set medials \<union>
     {syllable c v j | c v j. 0 \<le> c \<and> c \<le> 18 \<and> v \<in> set medials \<and> j \<in> set (0 # finals)}"

lemma length_choseongCompat [simp]: "length choseongCompat = 19"
  by (simp add: choseongCompat_def)

lemma choseongCompat_pos: "i < 19 \<Longrightarrow> choseongCompat ! i \<noteq> 0"
proof -
  assume "i < 19"
  then have "choseongCompat ! i \<in> set choseongCompat" by (intro nth_mem) simp
  then show ?thesis by (auto simp: choseongCompat_def)
qed

lemma medials_range: "v \<in> set medials \<Longrightarrow> 0 \<le> v \<and> v \<le> 20"
  by (auto simp: medials_def)

lemma finals_range: "j \<in> set finals \<Longrightarrow> 1 \<le> j \<and> j \<le> 27"
  by (auto simp: finals_def)

lemma core_ranges:
  assumes "korean_core k"
  shows "int32 (jungseong k) = jungseong k" "isRealVowel (jungseong k) \<longleftrightarrow> 0 \<le> jungseong k"
    "0 \<le> jongseong k" "jongseong k \<le> 27" "jungseong k \<le> 20" "-3 \<le> jungseong k"
    "0 \<le> jungseong k \<Longrightarrow> jungseong k \<in> set medials"
    "jungseong k < 0 \<Longrightarrow> jungseong k \<in> {-1, -2, -3}"
  using assms medials_range [of "jungseong k"] finals_range [of "jongseong k"]
  by (auto simp: korean_core_def isRealVowel_def int32_id)

lemma glyph_pos:
  assumes "korean_core k"
  shows "glyph k = 0 \<longleftrightarrow> choseong k < 0 \<and> jungseong k < 0"
proof -
  have "choseongCompat ! nat (choseong k) \<noteq> 0"
    by (rule choseongCompat_pos) (use assms in \<open>auto simp: korean_core_def\<close>)
  then show ?thesis using core_ranges(3) [OF assms] by (simp add: glyph_def syllable_def)
qed

lemma glyph_hangul:
  assumes "korean_core k" "glyph k \<noteq> 0"
  shows "glyph k \<in> hangul"
proof (cases "0 \<le> choseong k")
  case True
  show ?thesis
  proof (cases "0 \<le> jungseong k")
    case real: True
    then have "jungseong k \<in> set medials" "choseong k \<le> 18" "jongseong k \<in> set (0 # finals)"
      using core_ranges [OF assms(1)] assms(1) by (auto simp: korean_core_def)
    then show ?thesis using True real by (auto simp: glyph_def hangul_def)
  next
    case False
    have "choseongCompat ! nat (choseong k) \<in> set choseongCompat"
      using True assms(1) by (intro nth_mem) (simp add: korean_core_def nat_less_iff)
    then show ?thesis using True False by (simp add: glyph_def hangul_def)
  qed
next
  case False
  then have "0 \<le> jungseong k" using assms glyph_pos [OF assms(1)] by auto
  then show ?thesis using False core_ranges(7) [OF assms(1)] by (auto simp: glyph_def hangul_def)
qed

lemma render_glyph:
  assumes "korean_core k"
  shows "render k = Some (glyph k)"
proof -
  note r = core_ranges [OF assms]
  have c: "-1 \<le> choseong k" "choseong k \<le> 18" using assms by (simp_all add: korean_core_def)
  let ?x = "(choseong k * 21 + jungseong k) * 28 + jongseong k"
  have x: "0 \<le> choseong k \<Longrightarrow> 0 \<le> jungseong k \<Longrightarrow> 0 \<le> ?x \<and> ?x < 20000" using c r by auto
  have "int32 (0xAC00 + int32 ?x) = 0xAC00 + ?x" if "0 \<le> choseong k" "0 \<le> jungseong k"
    using x [OF that] by (simp add: int32_id)
  then show ?thesis
    using r c by (auto simp: render_def Let_def glyph_def syllable_def hangulSyllableBase_def
        hangulJungCompat_def indexInt_def)
qed

lemma emit_text:
  assumes "korean_core k" "composing k \<Longrightarrow> glyph k \<noteq> 0"
  shows "\<exists>ops. emit k = Some (ops, k\<lparr>composing := glyph k \<noteq> 0\<rparr>) \<and>
    (\<forall>g. (g = [] \<longleftrightarrow> \<not> composing k) \<and> length g \<le> 1 \<longrightarrow>
      applyOps ops g = Some (koreanShown (k\<lparr>composing := glyph k \<noteq> 0\<rparr>)))"
proof -
  have same: "k\<lparr>composing := True\<rparr> = k" if "composing k" using that by (cases k) simp
  have off: "k\<lparr>composing := False\<rparr> = k" if "\<not> composing k" using that by (cases k) simp
  have g: "glyph (k\<lparr>composing := c\<rparr>) = glyph k" for c by (simp add: glyph_def)
  have one: "butlast g = []" if "length g \<le> 1" for g :: "int list" using that by (cases g) auto
  show ?thesis
    using assms(2) one
    by (auto simp: emit_def render_glyph [OF assms(1)] same off g koreanShown_def applyOp_def)
qed

text \<open>
  The outcome of a key on a syllable: the edits turn the shown glyph into committed
  characters followed by the glyph shown next.
\<close>

definition pressed :: "koreanAutomata \<Rightarrow> (Op list \<times> koreanAutomata) option \<Rightarrow> bool" where
  "pressed k r \<longleftrightarrow> (\<exists>ops k' p. r = Some (ops, k') \<and> korean_inv k' \<and> set p \<subseteq> hangul \<and>
     applyOps ops (koreanShown k) = Some (p @ koreanShown k'))"

lemma emit_pressed:
  assumes "korean_inv k" "korean_core k1" "composing k1 \<Longrightarrow> composing k \<and> glyph k1 \<noteq> 0"
  shows "pressed k (emit k1)"
proof -
  let ?k' = "k1\<lparr>composing := glyph k1 \<noteq> 0\<rparr>"
  obtain ops where ops: "emit k1 = Some (ops, ?k')"
    and edits: "\<And>g. (g = [] \<longleftrightarrow> \<not> composing k1) \<Longrightarrow> length g \<le> 1 \<Longrightarrow> applyOps ops g = Some (koreanShown ?k')"
    using emit_text [OF assms(2)] assms(3) by blast
  have inv: "korean_inv ?k'" using assms(2) by (simp add: korean_inv_def korean_core_def glyph_def)
  show ?thesis
  proof (cases "composing k1")
    case True
    then have "applyOps ops (koreanShown k) = Some ([] @ koreanShown ?k')"
      using assms(3) by (subst edits) (simp_all add: koreanShown_def)
    then show ?thesis using ops inv unfolding pressed_def by (metis empty_iff list.set(1) subsetI)
  next
    case False
    have "applyOps ops (koreanShown k @ []) = Some (koreanShown k @ koreanShown ?k')"
      by (rule applyOps_frame, rule edits) (simp_all add: False)
    moreover have "set (koreanShown k) \<subseteq> hangul"
      using assms(1) glyph_hangul [of k] by (auto simp: korean_inv_def koreanShown_def)
    ultimately show ?thesis using ops inv unfolding pressed_def by (metis append_Nil2)
  qed
qed

lemma startSyllable_core [simp]: "korean_core (startSyllable k)" "composing (startSyllable k) = False"
  by (simp_all add: startSyllable_def korean_core_def vowelNone_def)

definition cycles :: "int list \<Rightarrow> int list \<Rightarrow> bool" where
  "cycles cho jong \<longleftrightarrow> cho \<noteq> [] \<and> jong \<noteq> [] \<and> set cho \<subseteq> {0..18} \<and> set jong \<subseteq> set finals"

lemma cycled_some:
  assumes "xs \<noteq> []" "0 \<le> lastIndex k"
  obtains i x where "cycled xs k = Some (i, x)" "0 \<le> i" "x \<in> set xs"
proof -
  let ?i = "(lastIndex k + 1) smod int (length xs)"
  have i: "?i = (lastIndex k + 1) mod int (length xs)"
    using assms by (simp add: smod_int_alt_def sgn_if)
  then have "0 \<le> ?i" "?i < int (length xs)" using assms(1) by simp_all
  then have "cycled xs k = Some (?i, xs ! nat ?i)" "xs ! nat ?i \<in> set xs"
    by (auto simp: cycled_def Let_def indexInt_def intro!: nth_mem)
  then show ?thesis using \<open>0 \<le> ?i\<close> that by blast
qed

lemma indexInt_0: "xs \<noteq> [] \<Longrightarrow> indexInt xs 0 = Some (hd xs)"
  by (cases xs) (simp_all add: indexInt_def)

lemma pressConsonant_pressed:
  assumes "korean_inv k" "cycles cho jong"
  shows "pressed k (pressConsonant key cho jong k)"
proof -
  have core: "korean_core k" and comp: "composing k \<longleftrightarrow> glyph k \<noteq> 0" using assms(1) by (simp_all add: korean_inv_def)
  note r = core_ranges [OF core]
  have ne: "cho \<noteq> []" "jong \<noteq> []"
    and all: "\<And>c. c \<in> set cho \<Longrightarrow> 0 \<le> c \<and> c \<le> 18" "\<And>j. j \<in> set jong \<Longrightarrow> j \<in> set finals"
    using assms(2) by (auto simp: cycles_def)
  then have hd: "hd cho \<in> {0..18}" "hd jong \<in> set finals" by simp_all
  have li: "0 \<le> lastIndex k" using core by (simp add: korean_core_def)
  have fresh: "pressed k (emit ((startSyllable k)\<lparr>choseong := hd cho, lastKey := key\<rparr>))"
    by (rule emit_pressed [OF assms(1)]) (use hd in \<open>auto simp: startSyllable_def korean_core_def vowelNone_def\<close>)
  consider (first) "choseong k < 0" "jungseong k = -1" | (lead) "0 \<le> choseong k" "jungseong k = -1"
    | (final) "0 \<le> choseong k" "0 \<le> jungseong k" "jongseong k = 0"
    | (cycle) "0 \<le> choseong k" "0 \<le> jungseong k" "jongseong k \<noteq> 0"
    | (other) "jungseong k \<noteq> -1" "\<not> (0 \<le> choseong k \<and> 0 \<le> jungseong k)" by linarith
  then show ?thesis
  proof cases
    case first
    have "pressed k (emit (k\<lparr>choseong := hd cho, lastKey := key, lastIndex := 0\<rparr>))"
      by (rule emit_pressed [OF assms(1)])
        (use first core hd comp glyph_pos [OF core] in \<open>auto simp: korean_core_def\<close>)
    then show ?thesis using first r ne by (simp add: pressConsonant_def Let_def indexInt_0 vowelNone_def)
  next
    case lead
    obtain i c where c: "cycled cho k = Some (i, c)" "0 \<le> i" "c \<in> set cho" by (rule cycled_some [OF ne(1) li])
    have new: "korean_core (k\<lparr>lastIndex := i, choseong := c\<rparr>)"
      using lead core c all(1) [OF c(3)] by (auto simp: korean_core_def)
    have "pressed k (emit (k\<lparr>lastIndex := i, choseong := c\<rparr>))"
      by (rule emit_pressed [OF assms(1) new]) (use all(1) [OF c(3)] glyph_pos [OF new] in auto)
    then show ?thesis
      using lead r ne c fresh by (simp add: pressConsonant_def Let_def indexInt_0 vowelNone_def)
  next
    case final
    have new: "korean_core (k\<lparr>jongseong := hd jong, lastKey := key, lastIndex := 0\<rparr>)"
      using final core hd by (auto simp: korean_core_def)
    have "pressed k (emit (k\<lparr>jongseong := hd jong, lastKey := key, lastIndex := 0\<rparr>))"
      by (rule emit_pressed [OF assms(1) new]) (use final glyph_pos [OF new] in auto)
    then show ?thesis using final r ne by (simp add: pressConsonant_def Let_def indexInt_0 vowelNone_def)
  next
    case cycle
    obtain i j where j: "cycled jong k = Some (i, j)" "0 \<le> i" "j \<in> set jong" by (rule cycled_some [OF ne(2) li])
    have new: "korean_core (k\<lparr>lastIndex := i, jongseong := j\<rparr>)"
      using cycle core j all(2) [OF j(3)] by (auto simp: korean_core_def)
    have "pressed k (emit (k\<lparr>lastIndex := i, jongseong := j\<rparr>))"
      by (rule emit_pressed [OF assms(1) new]) (use cycle glyph_pos [OF new] in auto)
    then show ?thesis
      using cycle r ne j fresh by (simp add: pressConsonant_def Let_def indexInt_0 vowelNone_def)
  next
    case other
    then show ?thesis using r ne fresh by (auto simp: pressConsonant_def Let_def indexInt_0 vowelNone_def)
  qed
qed

lemma vowelStep_closed:
  "\<forall>v \<in> set (-1 # -2 # -3 # medials). \<forall>st \<in> {1, 2, 3}.
     snd (vowelStep v st) \<longrightarrow> fst (vowelStep v st) \<in> set (-2 # -3 # medials) \<and> (0 \<le> v \<longrightarrow> 0 \<le> fst (vowelStep v st))"
  "\<forall>st \<in> {1, 2, 3}. snd (vowelStep (-1) st)"
  by code_simp+

lemma jongseongToChoseong_some: "j \<in> set finals \<Longrightarrow> \<exists>c. jongseongToChoseong j = Some c \<and> 0 \<le> c \<and> c \<le> 18"
  by (auto simp: finals_def jongseongToChoseong_def)

lemma stroke_cases: "st \<in> {strokeI, strokeD, strokeU} \<longleftrightarrow> st \<in> {1, 2, 3}"
  by (simp add: vowel_defs)

lemma vowelStep_fresh:
  assumes "st \<in> {1, 2, 3}"
  obtains v where "vowelStep vowelNone st = (v, True)" "v \<in> set (-2 # -3 # medials)"
  using vowelStep_closed(1) [THEN bspec, of "-1"] vowelStep_closed(2) assms
  by (cases "vowelStep (-1) st") (auto simp: vowelNone_def)

lemma extendVowel_pressed:
  assumes "korean_inv k" "st \<in> {1, 2, 3}" "jongseong k = 0 \<or> \<not> (0 \<le> choseong k \<and> 0 \<le> jungseong k)"
  shows "pressed k (extendVowel st k)"
proof -
  have core: "korean_core k" and comp: "composing k \<longleftrightarrow> glyph k \<noteq> 0" using assms(1) by (simp_all add: korean_inv_def)
  note r = core_ranges [OF core]
  have zero: "jongseong k = 0" using assms(3) core by (auto simp: korean_core_def)
  have mem: "jungseong k \<in> set (-1 # -2 # -3 # medials)" using core by (simp add: korean_core_def)
  obtain v ok where v: "vowelStep (jungseong k) st = (v, ok)" by (cases "vowelStep (jungseong k) st")
  show ?thesis
  proof (cases ok)
    case True
    have vv: "v \<in> set (-2 # -3 # medials)" "0 \<le> jungseong k \<Longrightarrow> 0 \<le> v"
      using vowelStep_closed(1) [THEN bspec, OF mem, THEN bspec, OF assms(2)] v True by simp_all
    then have new: "korean_core (k\<lparr>jungseong := v\<rparr>)" using core zero by (auto simp: korean_core_def)
    have "pressed k (emit (k\<lparr>jungseong := v\<rparr>))"
      by (rule emit_pressed [OF assms(1) new])
        (use vv comp glyph_pos [OF core] glyph_pos [OF new] in auto)
    then show ?thesis using v True r by (simp add: extendVowel_def)
  next
    case False
    obtain w where w: "vowelStep vowelNone st = (w, True)" "w \<in> set (-2 # -3 # medials)"
      by (rule vowelStep_fresh [OF assms(2)])
    have "pressed k (emit ((startSyllable k)\<lparr>jungseong := w\<rparr>))"
      by (rule emit_pressed [OF assms(1)]) (use w(2) in \<open>auto simp: startSyllable_def korean_core_def\<close>)
    then show ?thesis using v False r w by (simp add: extendVowel_def Let_def)
  qed
qed

lemma pressVowel_pressed:
  assumes "korean_inv k" "st \<in> {1, 2, 3}"
  shows "pressed k (pressVowel st k)"
proof (cases "0 \<le> choseong k \<and> 0 \<le> jungseong k \<and> jongseong k \<noteq> 0")
  case False
  have core: "korean_core k" using assms(1) by (simp add: korean_inv_def)
  have "pressVowel st k = extendVowel st k" using False core_ranges [OF core] by (auto simp: pressVowel_def)
  then show ?thesis using extendVowel_pressed [OF assms] False by auto
next
  case True
  have core: "korean_core k" and comp: "composing k \<longleftrightarrow> glyph k \<noteq> 0" using assms(1) by (simp_all add: korean_inv_def)
  note r = core_ranges [OF core]
  have shown: "koreanShown k = [glyph k]" using comp glyph_pos [OF core] True by (simp add: koreanShown_def)
  have "jongseong k \<in> set finals" using core True by (simp add: korean_core_def)
  then obtain c where c: "jongseongToChoseong (jongseong k) = Some c" "0 \<le> c" "c \<le> 18"
    using jongseongToChoseong_some by blast
  obtain w where w: "vowelStep vowelNone st = (w, True)" "w \<in> set (-2 # -3 # medials)"
    by (rule vowelStep_fresh [OF assms(2)])
  let ?k0 = "k\<lparr>jongseong := 0\<rparr>" and ?k1 = "(startSyllable (k\<lparr>jongseong := 0\<rparr>))\<lparr>choseong := c, jungseong := w\<rparr>"
  have core0: "korean_core ?k0" using core by (auto simp: korean_core_def)
  have core1: "korean_core ?k1" using c w(2) by (auto simp: startSyllable_def korean_core_def)
  obtain ops where ops: "emit ?k1 = Some (ops, ?k1\<lparr>composing := glyph ?k1 \<noteq> 0\<rparr>)"
    and edits: "applyOps ops [] = Some (koreanShown (?k1\<lparr>composing := glyph ?k1 \<noteq> 0\<rparr>))"
    using emit_text [OF core1] by (fastforce simp: startSyllable_def)
  let ?k' = "?k1\<lparr>composing := glyph ?k1 \<noteq> 0\<rparr>"
  have "applyOps (op OpReplace (glyph ?k0) # ops) (koreanShown k) = Some ([glyph ?k0] @ koreanShown ?k')"
    using applyOps_frame [OF edits, of "[glyph ?k0]"] by (simp add: shown applyOp_def)
  moreover have "korean_inv ?k'" using core1 by (simp add: korean_inv_def korean_core_def glyph_def)
  moreover have "glyph ?k0 \<in> hangul" by (rule glyph_hangul [OF core0]) (use glyph_pos [OF core0] True in auto)
  moreover have "pressVowel st k = Some (op OpReplace (glyph ?k0) # ops, ?k')"
    using True r c w ops by (simp add: pressVowel_def Let_def render_glyph [OF core0])
  ultimately show ?thesis unfolding pressed_def by (intro exI [of _ "op OpReplace (glyph ?k0) # ops"] exI [of _ ?k'] exI [of _ "[glyph ?k0]"]) simp
qed

lemma consonant_cycles:
  assumes "consonantChoseong key = Some cho"
  shows "\<exists>jong. consonantJongseong key = Some jong \<and> cycles cho jong"
  using assms
  by (auto simp: consonantChoseong_def consonantJongseong_def cycles_def runes_def finals_def split: if_splits)

lemma koreanPress_pressed:
  assumes "korean_inv k"
  shows "\<exists>ops h k' p. koreanPress key k = Some ((ops, h), k') \<and> korean_inv k' \<and> set p \<subseteq> hangul \<and>
    applyOps ops (koreanShown k) = Some (p @ koreanShown k')"
proof -
  have pr: ?thesis if "pressed k r" "koreanPress key k = handled r" for r
    using that unfolding pressed_def by (auto simp: handled_def)
  have v: "pressed k (pressVowel st k)" if "st \<in> {strokeI, strokeD, strokeU}" for st
    using pressVowel_pressed [OF assms, of st] that stroke_cases by blast
  show ?thesis
  proof (cases "consonantChoseong key")
    case (Some cho)
    then obtain jong where j: "consonantJongseong key = Some jong" "cycles cho jong" using consonant_cycles by blast
    show ?thesis using pr [OF pressConsonant_pressed [OF assms j(2)]] Some j(1) by (simp add: koreanPress_def)
  next
    case None
    show ?thesis
    proof (cases "key \<in> {of_char CHR ''1'', of_char CHR ''2'', of_char CHR ''3''}")
      case True
      then show ?thesis
        using None v pr [of "pressVowel strokeI k"] pr [of "pressVowel strokeD k"] pr [of "pressVowel strokeU k"]
        by (auto simp: koreanPress_def)
    next
      case False
      then have "koreanPress key k = Some (([], False), k)" using None by (simp add: koreanPress_def)
      moreover have "applyOps [] (koreanShown k) = Some ([] @ koreanShown k)" by simp
      ultimately show ?thesis using assms by (metis empty_iff list.set(1) subsetI)
    qed
  qed
qed

definition latin :: "int set" where
  "latin = set (runes '' 0123456789.,?!abcdefghijklmnopqrstuvwxyzABCDEFGHIJKLMNOPQRSTUVWXYZ'')"

definition candidatesOf :: "int \<Rightarrow> mhImaKey \<Rightarrow> int list" where
  "candidatesOf m e = (if m = ModeENUpper then upper e else lower e)"

definition shown :: "Automata \<Rightarrow> int list" where
  "shown a =
     (if ime_mode a = ModeKorean then koreanShown (korean a)
      else case mhImaEnglishKeymap (composingKey a) of
        None \<Rightarrow> []
      | Some e \<Rightarrow> [candidatesOf (ime_mode a) e ! nat (composingIndex a)])"

definition automata_inv :: "Automata \<Rightarrow> bool" where
  "automata_inv a \<longleftrightarrow> 0 \<le> ime_mode a \<and> ime_mode a < ModeCount \<and> korean_inv (korean a) \<and>
     (ime_mode a \<noteq> ModeKorean \<longrightarrow> \<not> composing (korean a)) \<and>
     (composingKey a \<noteq> 0 \<longrightarrow> ime_mode a \<in> {ModeENLower, ModeENUpper} \<and>
       (\<exists>e. mhImaEnglishKeymap (composingKey a) = Some e \<and> 0 \<le> composingIndex a \<and>
          composingIndex a < int (length (candidatesOf (ime_mode a) e))))"

lemma keymap_zero [simp]: "mhImaEnglishKeymap 0 = None"
  by (simp add: mhImaEnglishKeymap_def runes_def)

lemma keymap_latin:
  assumes "mhImaEnglishKeymap key = Some e"
  shows "candidatesOf m e \<noteq> []" "set (candidatesOf m e) \<subseteq> latin" "key \<noteq> 0"
  using assms
  by (auto simp: mhImaEnglishKeymap_def candidatesOf_def latin_def runes_def split: if_splits)

lemma koreanReset_inv [simp]: "korean_inv (koreanReset k)" "koreanShown (koreanReset k) = []" "\<not> composing (koreanReset k)"
  by (simp_all add: korean_inv_def korean_core_def koreanReset_def vowelNone_def glyph_def koreanShown_def)

lemma Commit_shown [simp]:
  "shown (Automata_Commit a) = []" "shown (Automata_Commit a\<lparr>ime_mode := m\<rparr>) = []"
  by (simp_all add: shown_def Automata_Commit_def)

lemma Commit_inv: "0 \<le> m \<Longrightarrow> m < ModeCount \<Longrightarrow> automata_inv (Automata_Commit a\<lparr>ime_mode := m\<rparr>)"
  by (simp add: automata_inv_def Automata_Commit_def)

lemma Reset_is_Commit: "Automata_Reset a = Automata_Commit a"
  by (simp add: Automata_Reset_def Automata_Commit_def)

lemma shown_alphabet:
  assumes "automata_inv a"
  shows "set (shown a) \<subseteq> hangul \<union> latin"
proof (cases "ime_mode a = ModeKorean")
  case True
  have "korean_inv (korean a)" using assms by (simp add: automata_inv_def)
  then show ?thesis using True glyph_hangul [of "korean a"] by (auto simp: shown_def koreanShown_def korean_inv_def)
next
  case False
  show ?thesis
  proof (cases "mhImaEnglishKeymap (composingKey a)")
    case (Some e)
    have "composingKey a \<noteq> 0" using keymap_latin(3) [OF Some] .
    then have "nat (composingIndex a) < length (candidatesOf (ime_mode a) e)"
      using assms Some by (auto simp: automata_inv_def)
    then have "candidatesOf (ime_mode a) e ! nat (composingIndex a) \<in> latin"
      using keymap_latin(2) [OF Some] nth_mem by blast
    then show ?thesis using False Some by (simp add: shown_def)
  qed (use False in \<open>simp add: shown_def\<close>)
qed

text \<open>One key, in any mode.\<close>

definition typed :: "Automata \<Rightarrow> ((Op list \<times> bool) \<times> Automata) option \<Rightarrow> bool" where
  "typed a r \<longleftrightarrow> (\<exists>ops h a' p. r = Some ((ops, h), a') \<and> automata_inv a' \<and> set p \<subseteq> hangul \<union> latin \<and>
     applyOps ops (shown a) = Some (p @ shown a'))"

lemma typed_same: "automata_inv a \<Longrightarrow> typed a (Some (([], h), a))"
  unfolding typed_def by (intro exI [of _ "[]"] exI [of _ h] exI [of _ a]) simp

text \<open>Every edit that commits and inserts.\<close>

lemma typed_commit:
  assumes "automata_inv a" "automata_inv a'" "shown a' = []" "c \<in> latin"
  shows "typed a (Some (([op OpInsert c], h), a'))"
  unfolding typed_def
  using assms shown_alphabet [OF assms(1)]
  by (intro exI [of _ "[op OpInsert c]"] exI [of _ h] exI [of _ a'] exI [of _ "shown a @ [c]"]) (simp add: applyOp_def)

lemma pressEnglish_typed:
  assumes "automata_inv a" "ime_mode a = (if up then ModeENUpper else ModeENLower)"
  shows "typed a (pressEnglish key up a)"
proof (cases "mhImaEnglishKeymap key")
  case None
  then show ?thesis using typed_same [OF assms(1)] by (simp add: pressEnglish_def)
next
  case (Some e)
  let ?c = "candidatesOf (ime_mode a) e"
  have up: "(if up then upper e else lower e) = ?c"
    using assms(2) by (simp add: candidatesOf_def mode_defs)
  have en: "ime_mode a \<noteq> ModeKorean" "ime_mode a \<in> {ModeENLower, ModeENUpper}"
    using assms(2) by (simp_all add: mode_defs)
  note k = keymap_latin [OF Some]
  show ?thesis
  proof (cases "composingKey a = key")
    case True
    let ?i = "(composingIndex a + 1) smod int (length ?c)"
    have ci: "0 \<le> composingIndex a" using assms(1) True k(3) by (auto simp: automata_inv_def)
    have i: "?i = (composingIndex a + 1) mod int (length ?c)" using ci k(1) by (simp add: smod_int_alt_def sgn_if)
    then have r: "0 \<le> ?i" "?i < int (length ?c)" using k(1) by simp_all
    let ?a = "a\<lparr>composingIndex := ?i\<rparr>"
    have "pressEnglish key up a = Some (([op OpReplace (?c ! nat ?i)], True), ?a)"
      using Some True up k(1) r by (simp add: pressEnglish_def Let_def indexInt_def)
    moreover have "automata_inv ?a" using assms(1) True Some r en by (auto simp: automata_inv_def)
    moreover have "applyOps [op OpReplace (?c ! nat ?i)] (shown a) = Some ([] @ shown ?a)"
      using Some True en by (simp add: shown_def applyOp_def)
    ultimately show ?thesis unfolding typed_def by (metis empty_iff list.set(1) subsetI)
  next
    case False
    let ?a = "a\<lparr>composingKey := key, composingIndex := 0\<rparr>"
    have "pressEnglish key up a = Some (([op OpInsert (?c ! 0)], True), ?a)"
      using Some False up k(1) by (simp add: pressEnglish_def Let_def)
    moreover have "automata_inv ?a" using assms(1) Some k(1) en by (auto simp: automata_inv_def)
    moreover have "applyOps [op OpInsert (?c ! 0)] (shown a) = Some (shown a @ shown ?a)"
      using Some en by (simp add: shown_def applyOp_def)
    ultimately show ?thesis using shown_alphabet [OF assms(1)] unfolding typed_def by metis
  qed
qed

lemma digit_latin: "of_char CHR ''0'' \<le> key \<Longrightarrow> key \<le> of_char CHR ''9'' \<Longrightarrow> key \<in> latin"
proof -
  assume "of_char CHR ''0'' \<le> key" "key \<le> of_char CHR ''9''"
  then have "key \<in> {48..57}" by simp
  then have "key = 48 \<or> key = 49 \<or> key = 50 \<or> key = 51 \<or> key = 52 \<or> key = 53 \<or> key = 54 \<or> key = 55 \<or>
      key = 56 \<or> key = 57" unfolding atLeastAtMost_iff by presburger
  then show ?thesis by (elim disjE) (simp_all add: latin_def runes_def)
qed

lemma Press_typed:
  assumes "automata_inv a"
  shows "typed a (Press key a)"
proof -
  have m: "0 \<le> ime_mode a" "ime_mode a < 4" using assms by (simp_all add: automata_inv_def ModeCount_def)
  have commit: "automata_inv (Automata_Commit a)"
    using Commit_inv [of "ime_mode a" a] m by (simp add: ModeCount_def Automata_Commit_def)
  consider (mode) "key = ModeKey" | (space) "key \<noteq> ModeKey" "key = SpaceKey" | (other) "key \<noteq> ModeKey" "key \<noteq> SpaceKey"
    by blast
  then show ?thesis
  proof cases
    case mode
    let ?m = "(ime_mode a + 1) smod ModeCount"
    have "?m = (ime_mode a + 1) mod 4" using m by (simp add: smod_int_alt_def sgn_if ModeCount_def)
    then have "automata_inv (Automata_Commit a\<lparr>ime_mode := ?m\<rparr>)" by (intro Commit_inv) (simp_all add: ModeCount_def)
    moreover have "ime_mode (Automata_Commit a) = ime_mode a" by (simp add: Automata_Commit_def)
    ultimately show ?thesis
      using mode shown_alphabet [OF assms] unfolding typed_def
      by (intro exI [of _ "[]"] exI [of _ True] exI [of _ "Automata_Commit a\<lparr>ime_mode := ?m\<rparr>"] exI [of _ "shown a"])
        (simp add: Press_def Let_def)
  next
    case space
    have "(32 :: int) \<in> latin" by (simp add: latin_def runes_def)
    then show ?thesis using space typed_commit [OF assms commit Commit_shown(1)] by (simp add: Press_def)
  next
    case other
    consider (num) "ime_mode a = ModeNumeric" | (low) "ime_mode a = ModeENLower" | (up) "ime_mode a = ModeENUpper"
      | (ko) "ime_mode a = ModeKorean" using m by (force simp: mode_defs)
    then show ?thesis
    proof cases
      case num
      then show ?thesis
        using other typed_same [OF assms] typed_commit [OF assms commit Commit_shown(1) digit_latin, of key]
        by (simp add: Press_def pressNumeric_def)
    next
      case low
      then show ?thesis using other pressEnglish_typed [OF assms, of False] by (simp add: Press_def mode_defs)
    next
      case up
      then show ?thesis using other pressEnglish_typed [OF assms, of True] by (simp add: Press_def mode_defs)
    next
      case ko
      have "korean_inv (korean a)" using assms by (simp add: automata_inv_def)
      from koreanPress_pressed [OF this, of key] obtain ops h k' p where
        r: "koreanPress key (korean a) = Some ((ops, h), k')" and k': "korean_inv k'" "set p \<subseteq> hangul"
        "applyOps ops (koreanShown (korean a)) = Some (p @ koreanShown k')" by blast
      have "Press key a = Some ((ops, h), a\<lparr>korean := k'\<rparr>)"
        using ko other r by (simp add: Press_def mode_defs)
      moreover have "automata_inv (a\<lparr>korean := k'\<rparr>)" using assms ko k' by (simp add: automata_inv_def mode_defs)
      moreover have "applyOps ops (shown a) = Some (p @ shown (a\<lparr>korean := k'\<rparr>))"
        using ko k'(3) by (simp add: shown_def)
      ultimately show ?thesis using k'(2) unfolding typed_def by blast
    qed
  qed
qed

subsection \<open>A field under the input method\<close>

datatype imeEvent = KeyPress int | ModeChange int | EndComposition | ClearComposition

definition imeStep :: "imeEvent \<Rightarrow> Automata \<times> int list \<Rightarrow> (Automata \<times> int list) option" where
  "imeStep e s =
     (let (a, t) = s in
      case e of
        KeyPress key \<Rightarrow>
          (case Press key a of
             None \<Rightarrow> None
           | Some ((ops, _), a) \<Rightarrow> map_option (Pair a) (applyOps ops t))
      | ModeChange m \<Rightarrow> Some (Automata_SetMode m a, t)
      | EndComposition \<Rightarrow> Some (Automata_Commit a, t)
      | ClearComposition \<Rightarrow> Some (Automata_Reset a, t))"

fun imeRun :: "imeEvent list \<Rightarrow> Automata \<times> int list \<Rightarrow> (Automata \<times> int list) option" where
  "imeRun [] s = Some s"
| "imeRun (e # es) s = (case imeStep e s of None \<Rightarrow> None | Some s \<Rightarrow> imeRun es s)"

lemma imeRun_append: "imeRun (es @ fs) s = (case imeRun es s of None \<Rightarrow> None | Some s \<Rightarrow> imeRun fs s)"
  by (induction es arbitrary: s) (simp_all split: option.splits)

text \<open>A state of the field: committed characters and the composing glyph.\<close>

definition field_ok :: "int list \<Rightarrow> Automata \<times> int list \<Rightarrow> bool" where
  "field_ok p s \<longleftrightarrow> automata_inv (fst s) \<and>
     (\<exists>q. snd s = p @ q @ shown (fst s) \<and> set q \<subseteq> hangul \<union> latin)"

lemma commit_field:
  assumes "field_ok p (a, t)" "automata_inv a'" "shown a' = []"
  shows "field_ok p (a', t)"
  using assms shown_alphabet [of a] by (auto simp: field_ok_def)

lemma imeStep_field:
  assumes "field_ok p s"
  shows "\<exists>s'. imeStep e s = Some s' \<and> field_ok p s'"
proof -
  obtain a t where s: "s = (a, t)" by (cases s)
  obtain q where inv: "automata_inv a" and t: "t = p @ q @ shown a" and q: "set q \<subseteq> hangul \<union> latin"
    using assms by (auto simp: field_ok_def s)
  have m: "0 \<le> ime_mode a" "ime_mode a < ModeCount" using inv by (simp_all add: automata_inv_def)
  have commit: "automata_inv (Automata_Commit a)"
    using Commit_inv [OF m, of a] by (simp add: Automata_Commit_def)
  note same = commit_field [OF assms [unfolded s] commit Commit_shown(1)]
  show ?thesis
  proof (cases e)
    case (KeyPress key)
    obtain ops h a' r where pr: "Press key a = Some ((ops, h), a')" "automata_inv a'" "set r \<subseteq> hangul \<union> latin"
      "applyOps ops (shown a) = Some (r @ shown a')"
      using Press_typed [OF inv, of key] by (auto simp: typed_def)
    have "applyOps ops t = Some (p @ (q @ r) @ shown a')"
      using applyOps_frame [OF pr(4), of "p @ q"] by (simp add: t)
    moreover have "field_ok p (a', p @ (q @ r) @ shown a')"
      using pr(2,3) q unfolding field_ok_def by (intro conjI exI [of _ "q @ r"]) simp_all
    ultimately show ?thesis using pr(1) by (simp add: imeStep_def s KeyPress)
  next
    case (ModeChange m')
    show ?thesis
    proof (cases "m' < 0 \<or> ModeCount \<le> m'")
      case True
      then show ?thesis using assms by (auto simp: imeStep_def s ModeChange Automata_SetMode_def)
    next
      case False
      have eq: "Automata_SetMode m' a = Automata_Commit a\<lparr>ime_mode := m'\<rparr>"
        using False by (auto simp: Automata_SetMode_def Automata_Reset_def Automata_Commit_def)
      have "automata_inv (Automata_Commit a\<lparr>ime_mode := m'\<rparr>)" using False by (intro Commit_inv) auto
      then have "field_ok p (Automata_SetMode m' a, t)"
        unfolding eq by (rule commit_field [OF assms [unfolded s]]) simp
      then show ?thesis by (simp add: imeStep_def s ModeChange)
    qed
  qed (use same in \<open>simp_all add: imeStep_def s Reset_is_Commit\<close>)
qed

lemma imeRun_field: "field_ok p s \<Longrightarrow> \<exists>s'. imeRun es s = Some s' \<and> field_ok p s'"
proof (induction es arbitrary: s)
  case (Cons e es)
  obtain s1 where "imeStep e s = Some s1" "field_ok p s1" using imeStep_field [OF Cons.prems] by blast
  then show ?case using Cons.IH by simp
qed simp

lemma New_inv: "0 \<le> m \<Longrightarrow> m < ModeCount \<Longrightarrow> automata_inv (Automata_New m) \<and> shown (Automata_New m) = []"
  by (auto simp: Automata_New_def Automata_SetMode_def Reset_is_Commit automata_inv_def shown_def
      Automata_Commit_def zeroAutomata_def)

text \<open>
  C24. Typing never breaks the text.  From a new automaton in any mode, whatever keys are
  pressed and whenever modes are switched or compositions ended, no press panics and every
  edit applies: a replacement always meets the composing glyph.  The text before the caret is
  the original text, committed characters and at most one composing glyph; whatever was
  committed at some point stays as it is through everything typed later; and every typed
  character is an ASCII candidate of the keypad or a Hangul character that can be composed.
\<close>

theorem typing_preserves_committed_text:
  assumes "0 \<le> m" "m < ModeCount"
  shows "\<exists>a q a' q'.
    imeRun es (Automata_New m, t0) = Some (a, t0 @ q @ shown a) \<and>
    imeRun (es @ fs) (Automata_New m, t0) = Some (a', t0 @ q @ q' @ shown a') \<and>
    length (shown a) \<le> 1 \<and> set (q @ q' @ shown a @ shown a') \<subseteq> hangul \<union> latin"
proof -
  have "field_ok t0 (Automata_New m, t0)" using New_inv [OF assms] by (simp add: field_ok_def)
  then obtain a t where run: "imeRun es (Automata_New m, t0) = Some (a, t)" and f: "field_ok t0 (a, t)"
    using imeRun_field by (metis surj_pair)
  then obtain q where t: "t = t0 @ q @ shown a" and inv: "automata_inv a" and q: "set q \<subseteq> hangul \<union> latin"
    by (auto simp: field_ok_def)
  have "field_ok (t0 @ q) (a, t)" using inv by (simp add: field_ok_def t)
  then obtain a' t' where run': "imeRun fs (a, t) = Some (a', t')" and f': "field_ok (t0 @ q) (a', t')"
    using imeRun_field by (metis surj_pair)
  then obtain q' where t': "t' = t0 @ q @ q' @ shown a'" and inv': "automata_inv a'" and q': "set q' \<subseteq> hangul \<union> latin"
    by (auto simp: field_ok_def)
  have "length (shown a) \<le> 1" by (simp add: shown_def koreanShown_def split: option.splits)
  then show ?thesis
    using run run' shown_alphabet [OF inv] shown_alphabet [OF inv'] q q'
    by (intro exI [of _ a] exI [of _ q] exI [of _ a'] exI [of _ q']) (simp add: imeRun_append t t')
qed

theorem typing_preserves_committed_text_witness:
  "map_option snd (imeRun [KeyPress 52, KeyPress 49, KeyPress 50, KeyPress 53] (Automata_New ModeKorean, [33])) = Some [33, 0xAC04] \<and>
   (\<exists>a q q'. imeRun ([KeyPress 52, KeyPress 49, KeyPress 50, KeyPress 53] @ [KeyPress 49]) (Automata_New ModeKorean, [33]) =
      Some (a, [33] @ q @ q' @ shown a))"
proof -
  have "map_option snd (imeRun [KeyPress 52, KeyPress 49, KeyPress 50, KeyPress 53] (Automata_New ModeKorean, [33])) = Some [33, 0xAC04]"
    by code_simp
  moreover have "0 \<le> ModeKorean" "ModeKorean < ModeCount" by (simp_all add: mode_defs)
  note typing_preserves_committed_text [OF this, of "[KeyPress 52, KeyPress 49, KeyPress 50, KeyPress 53]" "[33]" "[KeyPress 49]"]
  ultimately show ?thesis by blast
qed

subsection \<open>What can be typed\<close>

text \<open>A sequence of keys in Korean mode.\<close>

fun koreanRun :: "int list \<Rightarrow> koreanAutomata \<times> int list \<Rightarrow> (koreanAutomata \<times> int list) option" where
  "koreanRun [] s = Some s"
| "koreanRun (key # keys) (k, t) =
     (case koreanPress key k of
        None \<Rightarrow> None
      | Some ((ops, _), k) \<Rightarrow> (case applyOps ops t of None \<Rightarrow> None | Some t \<Rightarrow> koreanRun keys (k, t)))"

lemma koreanRun_append:
  "koreanRun (xs @ ys) s = (case koreanRun xs s of None \<Rightarrow> None | Some s \<Rightarrow> koreanRun ys s)"
  by (induction xs s rule: koreanRun.induct) (auto split: option.splits)

lemma imeRun_korean:
  assumes "ime_mode a = ModeKorean" "\<forall>key \<in> set keys. key \<noteq> ModeKey \<and> key \<noteq> SpaceKey"
    "koreanRun keys (k, t) = Some (k', t')"
  shows "imeRun (map KeyPress keys) (a\<lparr>korean := k\<rparr>, t) = Some (a\<lparr>korean := k'\<rparr>, t')"
  using assms(2,3)
proof (induction keys arbitrary: k t)
  case (Cons key keys)
  obtain ops h k1 t1 where p: "koreanPress key k = Some ((ops, h), k1)" "applyOps ops t = Some t1"
    "koreanRun keys (k1, t1) = Some (k', t')"
    using Cons.prems(2) by (auto split: option.splits)
  have "Press key (a\<lparr>korean := k\<rparr>) = Some ((ops, h), a\<lparr>korean := k1\<rparr>)"
    using Cons.prems(1) assms(1) p(1) by (simp add: Press_def mode_defs)
  then show ?case using p(2) Cons.IH [OF _ p(3)] Cons.prems(1) by (simp add: imeStep_def)
qed simp

lemma emit_replace:
  assumes "korean_inv k" "composing k" "korean_core k1" "composing k1" "0 \<le> choseong k1"
  shows "emit k1 = Some ([op OpReplace (glyph k1)], k1)" "applyOps [op OpReplace (glyph k1)] (t @ [x]) = Some (t @ [glyph k1])"
    "korean_inv k1"
  using assms glyph_pos [OF assms(3)]
  by (simp_all add: emit_def render_glyph applyOp_def korean_inv_def butlast_append)

text \<open>Presses of one consonant key run through its cycle: as initial, and as final.\<close>

lemma composing_inv: "korean_inv (k\<lparr>composing := True\<rparr>) \<longleftrightarrow> korean_core k \<and> glyph k \<noteq> 0"
  by (simp add: korean_inv_def korean_core_def glyph_def)

lemma repeat_initial:
  assumes "consonantChoseong key = Some cho" "n < length cho"
  shows "\<exists>k. koreanRun (replicate (Suc n) key) (koreanReset k0, t) = Some (k, t @ [glyph k]) \<and> korean_inv k \<and>
    composing k \<and> choseong k = cho ! n \<and> jungseong k = -1 \<and> jongseong k = 0 \<and> lastKey k = key \<and> lastIndex k = int n"
  using assms(2)
proof (induction n)
  case 0
  obtain jong where j: "consonantJongseong key = Some jong" "cycles cho jong" using consonant_cycles assms(1) by blast
  let ?k = "(koreanReset k0)\<lparr>choseong := cho ! 0, lastKey := key, lastIndex := 0\<rparr>"
  have c: "0 \<le> cho ! 0" "cho ! 0 \<le> 18" using j(2) nth_mem [OF 0] unfolding cycles_def by force+
  have core: "korean_core ?k" using c by (simp add: koreanReset_def korean_core_def vowelNone_def)
  have g: "glyph ?k \<noteq> 0" using glyph_pos [OF core] c by simp
  have "koreanPress key (koreanReset k0) = Some (([op OpInsert (glyph ?k)], True), ?k\<lparr>composing := True\<rparr>)"
    using assms(1) j c g 0 render_glyph [OF core]
    by (simp add: koreanPress_def pressConsonant_def koreanReset_def vowelNone_def int32_id indexInt_def
        handled_def emit_def Let_def)
  moreover have "glyph (?k\<lparr>composing := True\<rparr>) = glyph ?k" by (simp add: glyph_def)
  moreover have "korean_inv (?k\<lparr>composing := True\<rparr>)"
    using composing_inv core g by blast
  ultimately show ?case
    by (intro exI [of _ "?k\<lparr>composing := True\<rparr>"]) (simp add: applyOp_def koreanReset_def vowelNone_def)
next
  case (Suc n)
  obtain jong where j: "consonantJongseong key = Some jong" "cycles cho jong" using consonant_cycles assms(1) by blast
  from Suc obtain k where run: "koreanRun (replicate (Suc n) key) (koreanReset k0, t) = Some (k, t @ [glyph k])"
    and k: "korean_inv k" "composing k" "choseong k = cho ! n" "jungseong k = -1" "jongseong k = 0"
      "lastKey k = key" "lastIndex k = int n" by auto
  let ?k = "k\<lparr>lastIndex := int (Suc n), choseong := cho ! Suc n\<rparr>"
  have c: "0 \<le> cho ! Suc n" "cho ! Suc n \<le> 18" "0 \<le> cho ! n"
    using j(2) Suc.prems nth_mem [OF Suc.prems] nth_mem [of n cho] unfolding cycles_def by force+
  have core: "korean_core ?k" using k c by (simp add: korean_inv_def korean_core_def)
  have "cycled cho k = Some (int (Suc n), cho ! Suc n)"
    using Suc.prems k(7) by (auto simp: cycled_def Let_def indexInt_def smod_int_alt_def sgn_if nat_add_distrib)
  then have "pressConsonant key cho jong k = emit ?k"
    using k c by (simp add: pressConsonant_def vowelNone_def int32_id)
  then have "koreanPress key k = Some (([op OpReplace (glyph ?k)], True), ?k)"
    using assms(1) j emit_replace(1) [OF k(1,2) core] k c by (simp add: koreanPress_def handled_def)
  moreover have "korean_inv ?k" using emit_replace(3) [OF k(1,2) core] k c by simp
  moreover have "replicate (Suc (Suc n)) key = replicate (Suc n) key @ [key]" by (simp flip: replicate_append_same)
  ultimately show ?case
    using run k by (intro exI [of _ ?k]) (simp only: koreanRun_append option.case koreanRun.simps prod.case,
      simp add: applyOp_def)
qed

lemma repeat_final:
  assumes "consonantChoseong key = Some cho" "consonantJongseong key = Some jong" "n < length jong"
    "korean_inv k0" "composing k0" "0 \<le> choseong k0" "0 \<le> jungseong k0" "jongseong k0 = 0"
  shows "\<exists>k. koreanRun (replicate (Suc n) key) (k0, t @ [x]) = Some (k, t @ [glyph k]) \<and> korean_inv k \<and>
    composing k \<and> choseong k = choseong k0 \<and> jungseong k = jungseong k0 \<and> jongseong k = jong ! n \<and>
    lastKey k = key \<and> lastIndex k = int n"
  using assms(3)
proof (induction n)
  case 0
  have j: "cycles cho jong" using consonant_cycles [OF assms(1)] assms(2) by simp
  let ?k = "k0\<lparr>jongseong := jong ! 0, lastKey := key, lastIndex := 0\<rparr>"
  have "jong ! 0 \<in> set finals" using j nth_mem [OF 0] by (auto simp: cycles_def)
  then have core: "korean_core ?k" using assms by (simp add: korean_inv_def korean_core_def)
  have core0: "korean_core k0" using assms(4) by (simp add: korean_inv_def)
  have "pressConsonant key cho jong k0 = emit ?k"
    using assms 0 core_ranges [OF core0] by (simp add: pressConsonant_def indexInt_def vowelNone_def)
  then have "koreanPress key k0 = Some (([op OpReplace (glyph ?k)], True), ?k)"
    using assms emit_replace(1) [OF assms(4,5) core] by (simp add: koreanPress_def handled_def)
  moreover have "korean_inv ?k" using emit_replace(3) [OF assms(4,5) core] assms by simp
  ultimately show ?case using assms by (intro exI [of _ ?k]) (simp add: applyOp_def)
next
  case (Suc n)
  have j: "cycles cho jong" using consonant_cycles [OF assms(1)] assms(2) by simp
  from Suc obtain k where run: "koreanRun (replicate (Suc n) key) (k0, t @ [x]) = Some (k, t @ [glyph k])"
    and k: "korean_inv k" "composing k" "choseong k = choseong k0" "jungseong k = jungseong k0" "jongseong k = jong ! n"
      "lastKey k = key" "lastIndex k = int n" by auto
  let ?k = "k\<lparr>lastIndex := int (Suc n), jongseong := jong ! Suc n\<rparr>"
  have f: "jong ! Suc n \<in> set finals" "jong ! n \<in> set finals"
    using j Suc.prems nth_mem [OF Suc.prems] nth_mem [of n jong] by (auto simp: cycles_def)
  have core: "korean_core ?k" using k f assms by (simp add: korean_inv_def korean_core_def)
  have core0: "korean_core k" using k(1) by (simp add: korean_inv_def)
  have "cycled jong k = Some (int (Suc n), jong ! Suc n)"
    using Suc.prems k(7) by (auto simp: cycled_def Let_def indexInt_def smod_int_alt_def sgn_if nat_add_distrib)
  then have "pressConsonant key cho jong k = emit ?k"
    using k assms core_ranges [OF core0] finals_range [OF f(2)] by (simp add: pressConsonant_def vowelNone_def)
  then have "koreanPress key k = Some (([op OpReplace (glyph ?k)], True), ?k)"
    using assms emit_replace(1) [OF k(1,2) core] k by (simp add: koreanPress_def handled_def)
  moreover have "korean_inv ?k" using emit_replace(3) [OF k(1,2) core] k assms by simp
  moreover have "replicate (Suc (Suc n)) key = replicate (Suc n) key @ [key]" by (simp flip: replicate_append_same)
  ultimately show ?case
    using run k by (intro exI [of _ ?k]) (simp only: koreanRun_append option.case koreanRun.simps prod.case,
      simp add: applyOp_def)
qed

text \<open>Strokes after an initial build a medial.\<close>

definition strokeKey :: "int \<Rightarrow> int" where
  "strokeKey st = (if st = strokeI then of_char CHR ''1'' else if st = strokeD then of_char CHR ''2'' else of_char CHR ''3'')"

lemma koreanPress_stroke:
  assumes "st \<in> {1, 2, 3}"
  shows "koreanPress (strokeKey st) k = handled (pressVowel st k)"
  using assms by (auto simp: koreanPress_def strokeKey_def consonantChoseong_def runes_def vowel_defs)

fun strokes :: "int list \<Rightarrow> int \<Rightarrow> int option" where
  "strokes [] v = Some v"
| "strokes (st # sts) v = (case vowelStep v st of (w, ok) \<Rightarrow> if ok then strokes sts w else None)"

lemma strokes_medial:
  assumes "strokes sts (jungseong k) = Some v" "set sts \<subseteq> {1, 2, 3}"
    "korean_inv k" "composing k" "0 \<le> choseong k" "jongseong k = 0"
  shows "\<exists>k'. koreanRun (map strokeKey sts) (k, t @ [x]) = Some (k', t @ [if sts = [] then x else glyph k']) \<and>
    korean_inv k' \<and> composing k' \<and> choseong k' = choseong k \<and> jungseong k' = v \<and> jongseong k' = 0"
  using assms
proof (induction sts arbitrary: k x)
  case (Cons st sts)
  obtain w where w: "vowelStep (jungseong k) st = (w, True)" "strokes sts w = Some v"
    using Cons.prems(1) by (auto split: prod.splits if_splits)
  have st: "st \<in> {1, 2, 3}" using Cons.prems(2) by simp
  have core0: "korean_core k" using Cons.prems(3) by (simp add: korean_inv_def)
  have "jungseong k \<in> set (-1 # -2 # -3 # medials)" using core0 by (simp add: korean_core_def)
  from vowelStep_closed(1) [THEN bspec, OF this, THEN bspec, OF st] w(1)
  have "w \<in> set (-2 # -3 # medials)" by simp
  then have core: "korean_core (k\<lparr>jungseong := w\<rparr>)" using core0 Cons.prems(6) by (auto simp: korean_core_def)
  have e: "emit (k\<lparr>jungseong := w\<rparr>) = Some ([op OpReplace (glyph (k\<lparr>jungseong := w\<rparr>))], k\<lparr>jungseong := w\<rparr>)"
    "korean_inv (k\<lparr>jungseong := w\<rparr>)"
    using emit_replace(1,3) [OF Cons.prems(3,4) core] Cons.prems by simp_all
  have "pressVowel st k = emit (k\<lparr>jungseong := w\<rparr>)"
    using Cons.prems(6) w(1) core_ranges(1) [OF core0] by (simp add: pressVowel_def extendVowel_def)
  then have "koreanPress (strokeKey st) k = Some (([op OpReplace (glyph (k\<lparr>jungseong := w\<rparr>))], True), k\<lparr>jungseong := w\<rparr>)"
    using e(1) by (simp add: koreanPress_stroke [OF st] handled_def)
  moreover obtain k' where "koreanRun (map strokeKey sts) (k\<lparr>jungseong := w\<rparr>, t @ [glyph (k\<lparr>jungseong := w\<rparr>)]) =
      Some (k', t @ [if sts = [] then glyph (k\<lparr>jungseong := w\<rparr>) else glyph k'])" and
    k': "korean_inv k'" "composing k'" "choseong k' = choseong k" "jungseong k' = v" "jongseong k' = 0"
    using Cons.IH [of "k\<lparr>jungseong := w\<rparr>" "glyph (k\<lparr>jungseong := w\<rparr>)"] w(2) e(2) Cons.prems by auto
  moreover have "sts = [] \<Longrightarrow> k' = k\<lparr>jungseong := w\<rparr>" using calculation(2) by simp
  ultimately show ?case by (intro exI [of _ k']) (auto simp: applyOp_def)
qed simp

definition medialStrokes :: "(int \<times> int list) list" where
  "medialStrokes = [(0, [1, 2]), (1, [1, 2, 1]), (2, [1, 2, 2]), (3, [1, 2, 2, 1]), (4, [2, 1]), (5, [2, 1, 1]),
     (6, [2, 1, 2]), (7, [2, 1, 2, 1]), (8, [2, 3]), (11, [2, 3, 1]), (12, [2, 2, 3]), (13, [3, 2]), (16, [3, 2, 1]),
     (17, [3, 2, 2]), (18, [3]), (19, [3, 1]), (20, [1])]"

lemma medial_strokes:
  assumes "v \<in> set medials"
  shows "\<exists>sts. sts \<noteq> [] \<and> set sts \<subseteq> {1, 2, 3} \<and> strokes sts (-1) = Some v"
proof -
  have all: "\<forall>(v, sts) \<in> set medialStrokes. sts \<noteq> [] \<and> set sts \<subseteq> {1, 2, 3} \<and> strokes sts (-1) = Some v"
    by code_simp
  have "map fst medialStrokes = medials" by (simp add: medialStrokes_def medials_def)
  then have "v \<in> fst ` set medialStrokes" using assms by (metis list.set_map)
  then obtain sts where "(v, sts) \<in> set medialStrokes" by auto
  from bspec [OF all this] show ?thesis by auto
qed

lemma initial_key: "0 \<le> c \<Longrightarrow> c \<le> 18 \<Longrightarrow>
  \<exists>key cho n. key \<in> set (runes ''4567890'') \<and> consonantChoseong key = Some cho \<and> n < length cho \<and> cho ! n = c"
proof -
  assume "0 \<le> c" "c \<le> 18"
  then have "c \<in> set (map int [0..<19])" by (auto intro!: image_eqI [of _ _ "nat c"])
  moreover have "set (concat (map (\<lambda>key. the (consonantChoseong key)) (runes ''4567890''))) = set (map int [0..<19])"
    by code_simp
  ultimately have "c \<in> set (concat (map (\<lambda>key. the (consonantChoseong key)) (runes ''4567890'')))" by blast
  then obtain key where "key \<in> set (runes ''4567890'')" "c \<in> set (the (consonantChoseong key))" by auto
  moreover have "\<forall>key \<in> set (runes ''4567890''). \<exists>cho. consonantChoseong key = Some cho"
    by (simp add: consonantChoseong_def runes_def)
  ultimately show ?thesis by (metis in_set_conv_nth option.sel)
qed

lemma final_key: "j \<in> set finals \<Longrightarrow>
  \<exists>key cho jong n. key \<in> set (runes ''4567890'') \<and> consonantChoseong key = Some cho \<and>
    consonantJongseong key = Some jong \<and> n < length jong \<and> jong ! n = j"
proof -
  assume "j \<in> set finals"
  moreover have "set (concat (map (\<lambda>key. the (consonantJongseong key)) (runes ''4567890''))) = set finals"
    by code_simp
  ultimately have "j \<in> set (concat (map (\<lambda>key. the (consonantJongseong key)) (runes ''4567890'')))" by blast
  then obtain key where "key \<in> set (runes ''4567890'')" "j \<in> set (the (consonantJongseong key))" by auto
  moreover have "\<forall>key \<in> set (runes ''4567890''). \<exists>cho jong. consonantChoseong key = Some cho \<and> consonantJongseong key = Some jong"
    by (simp add: consonantJongseong_def consonantChoseong_def runes_def)
  ultimately show ?thesis by (metis in_set_conv_nth option.sel)
qed

lemma typable:
  assumes "automata_inv a" "ime_mode a = ModeKorean" "0 \<le> c" "c \<le> 18" "v \<in> set medials" "j \<in> set (0 # finals)"
  shows "\<exists>keys a'. imeRun (EndComposition # map KeyPress keys) (a, t) = Some (a', t @ [syllable c v j])"
proof -
  let ?k0 = "koreanReset (korean a)"
  obtain key cho n where key: "key \<in> set (runes ''4567890'')" "consonantChoseong key = Some cho" "n < length cho" "cho ! n = c"
    using initial_key [OF assms(3,4)] by blast
  obtain k1 where k1: "koreanRun (replicate (Suc n) key) (?k0, t) = Some (k1, t @ [glyph k1])"
    "korean_inv k1" "composing k1" "choseong k1 = c" "jungseong k1 = -1" "jongseong k1 = 0"
    using repeat_initial [OF key(2,3), where ?k0.0 = "korean a" and t = t] key(4) by blast
  obtain sts where sts: "sts \<noteq> []" "set sts \<subseteq> {1, 2, 3}" "strokes sts (-1) = Some v"
    using medial_strokes [OF assms(5)] by blast
  obtain k2 where k2: "koreanRun (map strokeKey sts) (k1, t @ [glyph k1]) = Some (k2, t @ [glyph k2])"
    "korean_inv k2" "composing k2" "choseong k2 = c" "jungseong k2 = v" "jongseong k2 = 0"
    using strokes_medial [of sts k1 v t "glyph k1"] sts k1 assms(3) by auto
  have v: "0 \<le> v" using medials_range assms(5) by blast
  have "\<exists>keys k3. koreanRun keys (k2, t @ [glyph k2]) = Some (k3, t @ [glyph k3]) \<and> choseong k3 = c \<and> jungseong k3 = v \<and>
      jongseong k3 = j \<and> set keys \<subseteq> set (runes ''4567890'')"
  proof (cases "j = 0")
    case True
    then show ?thesis using k2 by (intro exI [of _ "[]"] exI [of _ k2]) simp
  next
    case False
    then have "j \<in> set finals" using assms(6) by simp
    then obtain key cho jong n where f: "key \<in> set (runes ''4567890'')" "consonantChoseong key = Some cho"
      "consonantJongseong key = Some jong" "n < length jong" "jong ! n = j" using final_key by blast
    obtain k3 where "koreanRun (replicate (Suc n) key) (k2, t @ [glyph k2]) = Some (k3, t @ [glyph k3])"
      "choseong k3 = c" "jungseong k3 = v" "jongseong k3 = j"
      using repeat_final [OF f(2-4) k2(2,3), where t = t and x = "glyph k2"] k2 assms(3) v f(5) by auto
    then show ?thesis using f(1) by (intro exI [of _ "replicate (Suc n) key"] exI [of _ k3]) auto
  qed
  then obtain keys k3 where k3: "koreanRun keys (k2, t @ [glyph k2]) = Some (k3, t @ [glyph k3])"
    "choseong k3 = c" "jungseong k3 = v" "jongseong k3 = j" "set keys \<subseteq> set (runes ''4567890'')" by blast
  let ?keys = "replicate (Suc n) key @ map strokeKey sts @ keys"
  have run: "koreanRun ?keys (?k0, t) = Some (k3, t @ [glyph k3])"
    by (simp only: koreanRun_append k1(1) k2(1) k3(1) option.case)
  have "\<forall>key \<in> set (runes ''4567890''). key \<noteq> ModeKey \<and> key \<noteq> SpaceKey" "\<forall>st. strokeKey st \<noteq> ModeKey \<and> strokeKey st \<noteq> SpaceKey"
    by (simp_all add: runes_def ModeKey_def SpaceKey_def strokeKey_def)
  then have "\<forall>key \<in> set ?keys. key \<noteq> ModeKey \<and> key \<noteq> SpaceKey" using key(1) k3(5) by auto
  from imeRun_korean [where a = "Automata_Commit a", OF _ this run]
  have "imeRun (map KeyPress ?keys) (Automata_Commit a, t) = Some (Automata_Commit a\<lparr>korean := k3\<rparr>, t @ [glyph k3])"
    using assms(2) by (simp add: Automata_Commit_def)
  moreover have "glyph k3 = syllable c v j" using k3 assms(3) v by (simp add: glyph_def)
  ultimately show ?thesis by (intro exI [of _ ?keys] exI) (simp add: imeStep_def)
qed

lemma syllable_eq:
  assumes "syllable c v j = syllable c' v' j'" "0 \<le> v" "v \<le> 20" "0 \<le> j" "j \<le> 27" "0 \<le> v'" "v' \<le> 20" "0 \<le> j'" "j' \<le> 27"
  shows "v = v' \<and> j = j'"
proof -
  have e: "(c * 21 + v) * 28 + j = (c' * 21 + v') * 28 + j'" using assms(1) by (simp add: syllable_def)
  have rem: "(x * m + y) mod m = y" if "0 \<le> y" "y < m" for x y m :: int using that by simp
  have j: "j = j'" using arg_cong [OF e, of "\<lambda>x. x mod 28"] rem [of j 28 "c * 21 + v"] rem [of j' 28 "c' * 21 + v'"] assms by linarith
  then have "c * 21 + v = c' * 21 + v'" using e by simp
  then have "v = v'" using rem [of v 21 c] rem [of v' 21 c'] assms by simp
  then show ?thesis using j ..
qed

lemma small_chars: "x \<in> latin \<Longrightarrow> x < 0xAC00" "x \<in> set choseongCompat \<Longrightarrow> x < 0xAC00"
  by (auto simp: latin_def runes_def choseongCompat_def)

text \<open>
  C36. Exactly the syllables of the keypad can be typed, and always.  Whatever was typed
  before, in Korean mode once the composition has ended, there are keys that append just the
  syllable with initial \<open>c\<close>, medial \<open>v\<close> and final \<open>j\<close> to the text if and only if \<open>v\<close> is one of
  17 medials and \<open>j\<close> is no final or one of 16: every one of the 19 initials combines, but the
  compound medials 9, 10, 14 and 15 and the final clusters are out of reach of any keys.
\<close>

theorem typable_syllables:
  assumes "automata_inv a" "ime_mode a = ModeKorean" "0 \<le> c" "c \<le> 18" "0 \<le> v" "v \<le> 20" "0 \<le> j" "j \<le> 27"
  shows "(\<exists>keys a'. imeRun (EndComposition # map KeyPress keys) (a, t) = Some (a', t @ [syllable c v j])) \<longleftrightarrow>
    v \<in> set medials \<and> j \<in> set (0 # finals)"
proof
  assume "\<exists>keys a'. imeRun (EndComposition # map KeyPress keys) (a, t) = Some (a', t @ [syllable c v j])"
  then obtain keys a' where run: "imeRun (map KeyPress keys) (Automata_Commit a, t) = Some (a', t @ [syllable c v j])"
    by (auto simp: imeStep_def)
  have "automata_inv (Automata_Commit a)"
    using Commit_inv [of "ime_mode a" a] assms(1) by (simp add: automata_inv_def Automata_Commit_def)
  then have "field_ok t (Automata_Commit a, t)" by (simp add: field_ok_def)
  from imeRun_field [OF this, of "map KeyPress keys"] run have "field_ok t (a', t @ [syllable c v j])" by auto
  then have "syllable c v j \<in> hangul \<union> latin"
    using shown_alphabet [of a'] unfolding field_ok_def by (metis (no_types, lifting) Un_iff append_eq_append_conv fst_conv
        in_set_conv_decomp same_append_eq set_append snd_conv subset_iff)
  moreover have big: "0xAC00 \<le> syllable c v j" using assms by (simp add: syllable_def)
  ultimately have "syllable c v j \<in> hangul" "syllable c v j \<notin> set choseongCompat" using small_chars by force+
  then have "(\<exists>w \<in> set medials. syllable c v j = 0x314F + w) \<or>
      (\<exists>c' v' j'. syllable c v j = syllable c' v' j' \<and> v' \<in> set medials \<and> j' \<in> set (0 # finals))"
    by (auto simp: hangul_def)
  moreover have "0x314F + w < 0xAC00" if "w \<in> set medials" for w using medials_range [OF that] by simp
  ultimately obtain c' v' j' where e: "syllable c v j = syllable c' v' j'" "v' \<in> set medials" "j' \<in> set (0 # finals)"
    using big by fastforce
  moreover have "0 \<le> v'" "v' \<le> 20" "0 \<le> j'" "j' \<le> 27" using medials_range [OF e(2)] finals_range e(3) by force+
  ultimately show "v \<in> set medials \<and> j \<in> set (0 # finals)" using syllable_eq [OF e(1)] assms by simp
qed (use typable [OF assms(1-4)] in blast)

theorem typable_syllables_witness:
  "(\<exists>keys a'. imeRun (EndComposition # map KeyPress keys) (Automata_New ModeKorean, [33]) = Some (a', [33] @ [0xAC04])) \<and>
   \<not> (\<exists>keys a'. imeRun (EndComposition # map KeyPress keys) (Automata_New ModeKorean, [33]) = Some (a', [33] @ [0xACFC]))"
proof -
  have inv: "automata_inv (Automata_New ModeKorean)" "ime_mode (Automata_New ModeKorean) = ModeKorean"
    using New_inv [of ModeKorean] by (simp_all add: mode_defs Automata_New_def Automata_SetMode_def Automata_Reset_def)
  note t = typable_syllables [OF inv, where t = "[33]"]
  have "syllable 0 0 4 = 0xAC04" "syllable 0 9 0 = 0xACFC" by (simp_all add: syllable_def)
  then show ?thesis using t [of 0 0 4] t [of 0 9 0] by (simp add: medials_def finals_def)
qed

text \<open>A restored state is not checked: its indices can be out of range, and the next key panics.\<close>

lemma restore_unchecked:
  "Press 52 (Automata_Restore \<lparr>st_Mode = 3, st_ComposingKey = 0, st_ComposingIndex = 0, st_Choseong = 0,
     st_Jungseong = -1, st_Jongseong = 0, st_Composing = True, st_LastKey = 52, st_LastIndex = -3\<rparr>
     (Automata_New ModeKorean)) = None"
  by code_simp

end
