(* ===== verification/Loader_Eads.thy ===== *)
theory Loader_Eads
  imports Service_Prelude
begin

text \<open>
  The EADS executable container, src/loader/eads/eads.go: parsing one record, loading its
  text and BSS into guest buffers, and scanning an input for records.  Offsets into the input
  are uint64 values that the code keeps from wrapping, natural numbers here; the conversions
  to uint32 are written out.  The scan of an input of more than 4 GiB can return to an
  earlier offset, so it is a partial function.
\<close>

subsection \<open>Records\<close>

definition HeaderSize :: nat where "HeaderSize = 0x30"
definition Magic :: "u8 list" where "Magic = [0x45, 0x41, 0x44, 0x53]"

record Image =
  RecordOffset :: u32
  FormatWord :: u32
  BuildWord :: u32
  TextBase :: u32
  TextSize :: u32
  DataBase :: u32
  BSSSize :: u32
  Reserved :: u32
  Name :: "u8 list"

definition PayloadOffset :: "Image \<Rightarrow> u32" where "PayloadOffset i = RecordOffset i + of_nat HeaderSize"
definition RecordEnd :: "Image \<Rightarrow> u32" where "RecordEnd i = PayloadOffset i + TextSize i"
definition GuestEntry :: "Image \<Rightarrow> u32" where "GuestEntry i = TextBase i OR 1"

record LoadedImage =
  li_Image :: Image
  li_GuestEntry :: u32
  li_TextAddress :: u32
  li_TextSize :: u32
  li_DataAddress :: u32
  li_BSSSize :: u32

text \<open>The offset of a failure and its reason.\<close>

datatype FormatError = FormatError nat string

definition eadsU32 :: "u8 list \<Rightarrow> nat \<Rightarrow> u32" where
  "eadsU32 data offset = Uint32 (slice data offset 4)"

text \<open>Runes outside printable ASCII: every byte of a longer encoding is at least 0x80.\<close>

definition notPrintable :: "u8 list \<Rightarrow> bool" where
  "notPrintable s \<longleftrightarrow> (\<exists>c \<in> set s. c < 0x20 \<or> 0x7E < c)"

definition header :: "u8 list \<Rightarrow> u32 \<Rightarrow> Image" where
  "header data recordOffset =
     (let recordStart = unat recordOffset in
      \<lparr>RecordOffset = recordOffset,
       FormatWord = eadsU32 data (recordStart + 4),
       BuildWord = eadsU32 data (recordStart + 8),
       TextBase = eadsU32 data (recordStart + 12),
       TextSize = eadsU32 data (recordStart + 16),
       DataBase = eadsU32 data (recordStart + 20),
       BSSSize = eadsU32 data (recordStart + 24),
       Reserved = eadsU32 data (recordStart + 28),
       Name = takeWhile (\<lambda>c. c \<noteq> 0) (slice data (recordStart + 0x20) 0x10)\<rparr>)"

definition Eads_Parse :: "u8 list \<Rightarrow> u32 \<Rightarrow> FormatError + Image" where
  "Eads_Parse data recordOffset =
     (let recordStart = unat recordOffset in
      if length data < recordStart \<or> length data - recordStart < HeaderSize
      then Inl (FormatError recordStart ''truncated header'')
      else if slice data recordStart 4 \<noteq> Magic then Inl (FormatError recordStart ''magic mismatch'')
      else
        let img = header data recordOffset;
            payload = recordStart + HeaderSize;
            recordEnd = payload + unat (TextSize img);
            textEnd = unat (TextBase img) + unat (TextSize img);
            dataEnd = unat (DataBase img) + unat (BSSSize img);
            entry = Uint16 (slice data payload 2)
        in
        if Name img = [] \<or> notPrintable (Name img) then Inl (FormatError (recordStart + 0x20) ''image name is not printable ASCII'')
        else if TextBase img AND 0xfff \<noteq> 0 then Inl (FormatError (recordStart + 12) ''text base is not page aligned'')
        else if DataBase img AND 0xfff \<noteq> 0 then Inl (FormatError (recordStart + 20) ''data base is not page aligned'')
        else if TextSize img < 4 then Inl (FormatError (recordStart + 16) ''text section is smaller than its fixed veneer'')
        else if BSSSize img < 4 then Inl (FormatError (recordStart + 24) ''BSS section is too small'')
        else if length data < recordEnd then Inl (FormatError (recordStart + 16) ''text section exceeds input'')
        else if 2 ^ 32 - 1 < recordEnd then Inl (FormatError recordStart ''record end exceeds 32-bit format'')
        else if 2 ^ 32 < textEnd then Inl (FormatError (recordStart + 16) ''text range exceeds 32-bit guest address space'')
        else if 2 ^ 32 < dataEnd then Inl (FormatError (recordStart + 24) ''BSS range exceeds 32-bit guest address space'')
        else if unat (TextBase img) < dataEnd \<and> unat (DataBase img) < textEnd
        then Inl (FormatError (recordStart + 12) ''guest ranges overlap'')
        else if entry \<noteq> 0xb500 \<and> \<not> (FormatWord img = 0x00300501 \<and> entry AND 0xff00 = 0xb500)
        then Inl (FormatError payload ''text does not start with a supported Thumb entry'')
        else Inr img)"

definition verified :: "u8 list \<Rightarrow> Image \<Rightarrow> FormatError + Image" where
  "verified data img =
     (case Eads_Parse data (RecordOffset img) of
        Inl e \<Rightarrow> Inl e
      | Inr v \<Rightarrow>
          if v \<noteq> img then Inl (FormatError (unat (RecordOffset img)) ''image metadata does not match input'')
          else Inr v)"

definition ExtractText :: "u8 list \<Rightarrow> Image \<Rightarrow> FormatError + u8 list" where
  "ExtractText data img =
     (case verified data img of
        Inl e \<Rightarrow> Inl e
      | Inr _ \<Rightarrow> Inr (slice data (unat (PayloadOffset img)) (unat (TextSize img))))"

text \<open>The destination buffers are answered updated.\<close>

definition Eads_Load :: "u8 list \<Rightarrow> Image \<Rightarrow> u8 list \<Rightarrow> u8 list \<Rightarrow> (FormatError + LoadedImage) \<times> u8 list \<times> u8 list" where
  "Eads_Load data img text bss =
     (case verified data img of
        Inl e \<Rightarrow> (Inl e, text, bss)
      | Inr _ \<Rightarrow>
          if length text < unat (TextSize img)
          then (Inl (FormatError (unat (RecordOffset img) + 16) ''text destination is too small''), text, bss)
          else if length bss < unat (BSSSize img)
          then (Inl (FormatError (unat (RecordOffset img) + 24) ''BSS destination is too small''), text, bss)
          else
            (Inr \<lparr>li_Image = img, li_GuestEntry = GuestEntry img, li_TextAddress = TextBase img,
               li_TextSize = TextSize img, li_DataAddress = DataBase img, li_BSSSize = BSSSize img\<rparr>,
             overwrite text 0 (slice data (unat (PayloadOffset img)) (unat (TextSize img))),
             overwrite bss 0 (replicate (unat (BSSSize img)) 0)))"

subsection \<open>Scanning\<close>

definition bytesIndex :: "u8 list \<Rightarrow> u8 list \<Rightarrow> nat option" where
  "bytesIndex data m = find (\<lambda>i. take (length m) (drop i data) = m) [0..<length data]"

partial_function (option) inspectLoop :: "u8 list \<Rightarrow> nat \<Rightarrow> Image list \<Rightarrow> Image list option" where
  "inspectLoop data start images =
     (if \<not> start < length data then Some images
      else case bytesIndex (drop start data) Magic of
        None \<Rightarrow> Some images
      | Some i \<Rightarrow>
          (case Eads_Parse data (of_nat (start + i)) of
             Inr img \<Rightarrow> inspectLoop data (unat (RecordEnd img)) (images @ [img])
           | Inl _ \<Rightarrow> inspectLoop data (start + i + 1) images))"

definition Eads_Inspect :: "u8 list \<Rightarrow> Image list option" where
  "Eads_Inspect data = inspectLoop data 0 []"

subsection \<open>Accepted records\<close>

definition recordSpan :: "Image \<Rightarrow> nat set" where
  "recordSpan i = {unat (RecordOffset i)..<unat (RecordOffset i) + HeaderSize + unat (TextSize i)}"

lemma Parse_accepts:
  assumes "Eads_Parse data off = Inr img"
  shows "img = header data off" "RecordOffset img = off" "slice data (unat off) 4 = Magic"
    "unat off + HeaderSize + unat (TextSize img) \<le> length data"
    "unat off + HeaderSize + unat (TextSize img) < 2 ^ 32"
    "4 \<le> unat (TextSize img)" "4 \<le> unat (BSSSize img)"
    "unat (TextBase img) + unat (TextSize img) \<le> 2 ^ 32" "unat (DataBase img) + unat (BSSSize img) \<le> 2 ^ 32"
    "{unat (TextBase img)..<unat (TextBase img) + unat (TextSize img)} \<inter>
       {unat (DataBase img)..<unat (DataBase img) + unat (BSSSize img)} = {}"
    "TextBase img AND 0xfff = 0" "DataBase img AND 0xfff = 0" "Name img \<noteq> []" "\<not> notPrintable (Name img)"
  using assms by (auto simp: Eads_Parse_def Let_def header_def word_less_nat_alt not_less split: if_splits)

lemma record_offsets:
  assumes "Eads_Parse data off = Inr img"
  shows "unat (PayloadOffset img) = unat off + HeaderSize"
    "unat (RecordEnd img) = unat off + HeaderSize + unat (TextSize img)"
proof -
  note p = Parse_accepts [OF assms]
  have "unat off + HeaderSize < 2 ^ 32" using p(5) by simp
  then show o: "unat (PayloadOffset img) = unat off + HeaderSize"
    by (simp add: PayloadOffset_def p(2) HeaderSize_def unat_word_ariths)
  show "unat (RecordEnd img) = unat off + HeaderSize + unat (TextSize img)"
    using p(5) by (simp add: RecordEnd_def o unat_word_ariths)
qed

lemma bytesIndex_Some:
  assumes "bytesIndex (drop start data) m = Some i"
  shows "start + i < length data" "slice data (start + i) (length m) = m"
    "\<And>j. start \<le> j \<Longrightarrow> j < start + i \<Longrightarrow> slice data j (length m) \<noteq> m"
proof -
  have i: "i < length data - start" "take (length m) (drop i (drop start data)) = m"
    "\<And>j. j < i \<Longrightarrow> take (length m) (drop j (drop start data)) \<noteq> m"
    using assms by (auto simp: bytesIndex_def find_Some_iff)
  show "start + i < length data" "slice data (start + i) (length m) = m"
    using i(1,2) by (simp_all add: slice_def add.commute)
  show "slice data j (length m) \<noteq> m" if "start \<le> j" "j < start + i" for j
    using i(3) [of "j - start"] that by (simp add: slice_def)
qed

lemma bytesIndex_None:
  assumes "bytesIndex (drop start data) m = None" "start \<le> j" "j < length data"
  shows "slice data j (length m) \<noteq> m"
proof -
  have "j - start < length data - start" using assms(2,3) by simp
  then show ?thesis using assms by (auto simp: bytesIndex_def find_None_iff slice_def)
qed

lemma Magic_length: "length Magic = 4"
  by (simp add: Magic_def)

text \<open>What the scan finds from an offset on.\<close>

definition scanned :: "u8 list \<Rightarrow> nat \<Rightarrow> Image list \<Rightarrow> bool" where
  "scanned data start found \<longleftrightarrow>
     (\<forall>i \<in> set found. Eads_Parse data (RecordOffset i) = Inr i \<and> start \<le> unat (RecordOffset i)) \<and>
     sorted_wrt (\<lambda>i j. unat (RecordEnd i) \<le> unat (RecordOffset j)) found \<and>
     (\<forall>off i. Eads_Parse data off = Inr i \<and> start \<le> unat off \<longrightarrow>
        i \<in> set found \<or> (\<exists>j \<in> set found. off \<noteq> RecordOffset j \<and> unat off \<in> recordSpan j))"

lemma scanned_none:
  assumes "\<And>off i. Eads_Parse data off = Inr i \<Longrightarrow> start \<le> unat off \<Longrightarrow> False"
  shows "scanned data start []"
  using assms by (auto simp: scanned_def)

lemma inspectLoop_scans:
  assumes "length data \<le> 2 ^ 32"
  shows "\<exists>found. inspectLoop data start images = Some (images @ found) \<and> scanned data start found"
proof (induction "length data - start" arbitrary: start images rule: less_induct)
  case less
  have magic: "slice data (unat off) (length Magic) = Magic \<and> unat off < length data" if "Eads_Parse data off = Inr i" for off i
    using Parse_accepts(3,4) [OF that] by (simp add: Magic_length HeaderSize_def)
  show ?case
  proof (cases "start < length data")
    case False
    have "scanned data start []" using magic False by (intro scanned_none) fastforce
    then show ?thesis using False by (subst inspectLoop.simps) simp
  next
    case True
    show ?thesis
    proof (cases "bytesIndex (drop start data) Magic")
      case None
      have "scanned data start []" using magic bytesIndex_None [OF None] by (intro scanned_none) blast
      then show ?thesis using True None by (subst inspectLoop.simps) simp
    next
      case (Some k)
      let ?o = "start + k"
      note b = bytesIndex_Some [OF Some]
      have u: "unat (of_nat ?o :: u32) = ?o" using b(1) assms by (intro unat_of_nat_u32) simp
      have skip: "?o \<le> unat off" if "Eads_Parse data off = Inr i" "start \<le> unat off" for off i
        using magic [OF that(1)] b(3) [OF that(2)] by (meson not_le)
      show ?thesis
      proof (cases "Eads_Parse data (of_nat ?o)")
        case (Inl e)
        have "length data - (?o + 1) < length data - start" using b(1) True by linarith
        then obtain found where f: "inspectLoop data (?o + 1) images = Some (images @ found)" "scanned data (?o + 1) found"
          using less [of "?o + 1"] by blast
        have "?o < unat off" if "Eads_Parse data off = Inr i" "start \<le> unat off" for off i
        proof -
          have "off \<noteq> of_nat ?o" using that(1) Inl by auto
          then have "unat off \<noteq> ?o" unfolding word_unat_eq_iff u .
          then show ?thesis using skip [OF that] by simp
        qed
        then have "scanned data start found" using f(2) unfolding scanned_def by (fastforce simp: Suc_le_eq)
        moreover have "inspectLoop data start images = Some (images @ found)"
          using True Some Inl f(1) by (subst inspectLoop.simps) simp
        ultimately show ?thesis by blast
      next
        case (Inr img)
        note p = Parse_accepts [OF Inr] and e = record_offsets(2) [OF Inr]
        have "?o < unat (RecordEnd img)" unfolding e u by (simp add: HeaderSize_def)
        then have "length data - unat (RecordEnd img) < length data - start" using b(1) by linarith
        then obtain found where f: "inspectLoop data (unat (RecordEnd img)) (images @ [img]) = Some ((images @ [img]) @ found)"
          "scanned data (unat (RecordEnd img)) found"
          using less [of "unat (RecordEnd img)" "images @ [img]"] by blast
        have off: "RecordOffset img = of_nat ?o" by (rule p(2))
        have span: "recordSpan img = {?o..<unat (RecordEnd img)}" unfolding recordSpan_def e off u ..
        have "scanned data start (img # found)"
          unfolding scanned_def
        proof (intro conjI allI impI)
          show "\<forall>i \<in> set (img # found). Eads_Parse data (RecordOffset i) = Inr i \<and> start \<le> unat (RecordOffset i)"
            using f(2) Inr off u \<open>?o < unat (RecordEnd img)\<close> by (auto simp: scanned_def)
          show "sorted_wrt (\<lambda>i j. unat (RecordEnd i) \<le> unat (RecordOffset j)) (img # found)"
            using f(2) by (auto simp: scanned_def)
          fix o' i assume h: "Eads_Parse data o' = Inr i \<and> start \<le> unat o'"
          show "i \<in> set (img # found) \<or> (\<exists>j \<in> set (img # found). o' \<noteq> RecordOffset j \<and> unat o' \<in> recordSpan j)"
          proof (cases "unat (RecordEnd img) \<le> unat o'")
            case True
            then show ?thesis using f(2) h by (auto simp: scanned_def)
          next
            case False
            have "?o \<le> unat o'" using skip h by blast
            then have "unat o' \<in> recordSpan img" using False span by simp
            moreover have "o' = RecordOffset img \<Longrightarrow> i = img" using h Inr off by simp
            ultimately show ?thesis by auto
          qed
        qed
        moreover have "inspectLoop data start images = Some (images @ img # found)"
          using True Some Inr f(1) by (subst inspectLoop.simps) simp
        ultimately show ?thesis by blast
      qed
    qed
  qed
qed

text \<open>
  C29. Scanning finds every record, once.  On an input of at most 4 GiB the scan ends and
  answers, in order of offset, records that each parse at their offset and do not overlap;
  and every offset at which a record parses is that of an answered record or lies inside
  one.
\<close>

theorem inspect_finds_records:
  assumes "length data \<le> 2 ^ 32"
  shows "\<exists>images. Eads_Inspect data = Some images \<and>
    (\<forall>i \<in> set images. Eads_Parse data (RecordOffset i) = Inr i \<and> recordSpan i \<subseteq> {..<length data}) \<and>
    sorted_wrt (\<lambda>i j. unat (RecordOffset i) < unat (RecordOffset j) \<and> recordSpan i \<inter> recordSpan j = {}) images \<and>
    (\<forall>off i. Eads_Parse data off = Inr i \<longrightarrow>
       i \<in> set images \<or> (\<exists>j \<in> set images. off \<noteq> RecordOffset j \<and> unat off \<in> recordSpan j))"
proof -
  obtain images where run: "Eads_Inspect data = Some images" and s: "scanned data 0 images"
    using inspectLoop_scans [OF assms, of 0 "[]"] by (auto simp: Eads_Inspect_def)
  have span: "recordSpan i = {unat (RecordOffset i)..<unat (RecordEnd i)} \<and> unat (RecordEnd i) \<le> length data \<and>
      unat (RecordOffset i) < unat (RecordEnd i)" if "i \<in> set images" for i
  proof -
    have "Eads_Parse data (RecordOffset i) = Inr i" using s that by (simp add: scanned_def)
    from record_offsets(2) [OF this] Parse_accepts(4) [OF this] show ?thesis by (simp add: recordSpan_def HeaderSize_def)
  qed
  have "sorted_wrt (\<lambda>i j. unat (RecordEnd i) \<le> unat (RecordOffset j)) images" using s by (simp add: scanned_def)
  then have "sorted_wrt (\<lambda>i j. unat (RecordOffset i) < unat (RecordOffset j) \<and> recordSpan i \<inter> recordSpan j = {}) images"
    by (rule sorted_wrt_mono_rel [rotated]) (use span in force)
  then show ?thesis using run s span by (fastforce simp: scanned_def)
qed

text \<open>A smallest record, at offset 1 of its input.\<close>

definition sampleEads :: "u8 list" where
  "sampleEads = 0 # Magic @ PutUint32 0x00300501 @ PutUint32 1 @ PutUint32 0x1000 @ PutUint32 4 @ PutUint32 0x2000 @
     PutUint32 4 @ PutUint32 0 @ (0x61 # replicate 15 0) @ [0x00, 0xB5, 0x70, 0x47]"

definition sampleImage :: Image where
  "sampleImage = \<lparr>RecordOffset = 1, FormatWord = 0x00300501, BuildWord = 1, TextBase = 0x1000, TextSize = 4,
     DataBase = 0x2000, BSSSize = 4, Reserved = 0, Name = [0x61]\<rparr>"

lemma sampleEads_bytes:
  "sampleEads = [0, 0x45, 0x41, 0x44, 0x53, 0x01, 0x05, 0x30, 0, 1, 0, 0, 0, 0, 0x10, 0, 0, 4, 0, 0, 0, 0, 0x20, 0, 0,
     4, 0, 0, 0, 0, 0, 0, 0, 0x61, 0, 0, 0, 0, 0, 0, 0, 0, 0, 0, 0, 0, 0, 0, 0, 0x00, 0xB5, 0x70, 0x47]"
  by code_simp

lemma sampleEads_parses: "Eads_Parse sampleEads 1 = Inr sampleImage"
proof -
  have h: "header sampleEads 1 = sampleImage" "slice sampleEads 1 4 = Magic" "Uint16 (slice sampleEads 49 2) = 0xB500"
    "\<not> notPrintable [0x61]"
    by code_simp+
  have "length sampleEads = 53" by (simp add: sampleEads_bytes)
  then show ?thesis using h by (simp add: Eads_Parse_def Let_def HeaderSize_def sampleImage_def)
qed

theorem inspect_finds_records_witness:
  "\<exists>images. Eads_Inspect sampleEads = Some images \<and> sampleImage \<in> set images"
proof -
  have "length sampleEads \<le> 2 ^ 32" by (simp add: sampleEads_bytes)
  from inspect_finds_records [OF this] obtain images where run: "Eads_Inspect sampleEads = Some images" and
    parse: "\<forall>i \<in> set images. Eads_Parse sampleEads (RecordOffset i) = Inr i" and
    all: "sampleImage \<in> set images \<or> (\<exists>j \<in> set images. 1 \<noteq> RecordOffset j \<and> unat (1 :: u32) \<in> recordSpan j)"
    using sampleEads_parses by blast
  have "unat (1 :: u32) \<notin> recordSpan j" if "j \<in> set images" "1 \<noteq> RecordOffset j" for j
  proof
    assume "unat (1 :: u32) \<in> recordSpan j"
    then have "unat (RecordOffset j) \<le> 1" by (simp add: recordSpan_def)
    then have "RecordOffset j = 0" using that(2) by (metis le_eq_less_or_eq less_one unat_1 unat_eq_zero word_unat_eq_iff)
    then have "slice sampleEads 0 4 = Magic" using Parse_accepts(3) [OF bspec [OF parse that(1)]] by simp
    moreover have "slice sampleEads 0 4 \<noteq> Magic" by code_simp
    ultimately show False by blast
  qed
  then show ?thesis using run all by blast
qed

text \<open>The low bits that a page mask clears.\<close>

lemma page_aligned: "x AND 0xfff = 0 \<Longrightarrow> unat (x :: u32) mod 0x1000 = 0"
proof -
  assume "x AND 0xfff = 0"
  then have "take_bit 12 x = 0" by (simp add: take_bit_eq_mask mask_numeral)
  then have "take_bit 12 (unat x) = 0" by (metis unat_0 unsigned_take_bit_eq)
  then show ?thesis by (simp add: take_bit_eq_mod)
qed

text \<open>
  C28. Loading is confined and exact.  A description loads exactly when the input holds it as a
  record and both buffers are large enough; otherwise the answer is an error and nothing changes.
  When it loads, the text and data it declares start at page-aligned addresses, lie in the 32-bit
  guest space and are apart from each other, and the entry address is odd, one past the start of
  the text; the text buffer then starts with the payload bytes of the input, the BSS buffer with
  zeros, and neither changes beyond the declared sizes.
\<close>

theorem load_confined:
  assumes "Eads_Load data img text bss = (out, text', bss')"
  shows "case out of
      Inl e \<Rightarrow> text' = text \<and> bss' = bss \<and>
        (Eads_Parse data (RecordOffset img) \<noteq> Inr img \<or> length text < unat (TextSize img) \<or> length bss < unat (BSSSize img))
    | Inr loaded \<Rightarrow>
        Eads_Parse data (RecordOffset img) = Inr img \<and>
        length text' = length text \<and> length bss' = length bss \<and>
        unat (TextSize img) \<le> length text \<and> unat (BSSSize img) \<le> length bss \<and>
        li_TextSize loaded = TextSize img \<and> li_BSSSize loaded = BSSSize img \<and>
        (\<forall>i < length text. text' ! i = (if i < unat (li_TextSize loaded)
           then data ! (unat (RecordOffset img) + HeaderSize + i) else text ! i)) \<and>
        (\<forall>i < length bss. bss' ! i = (if i < unat (li_BSSSize loaded) then 0 else bss ! i)) \<and>
        unat (li_TextAddress loaded) mod 0x1000 = 0 \<and> unat (li_DataAddress loaded) mod 0x1000 = 0 \<and>
        unat (li_TextAddress loaded) + unat (li_TextSize loaded) \<le> 2 ^ 32 \<and>
        unat (li_DataAddress loaded) + unat (li_BSSSize loaded) \<le> 2 ^ 32 \<and>
        {unat (li_TextAddress loaded)..<unat (li_TextAddress loaded) + unat (li_TextSize loaded)} \<inter>
          {unat (li_DataAddress loaded)..<unat (li_DataAddress loaded) + unat (li_BSSSize loaded)} = {} \<and>
        unat (li_GuestEntry loaded) = unat (li_TextAddress loaded) + 1 \<and> odd (unat (li_GuestEntry loaded)) \<and>
        4 \<le> unat (li_TextSize loaded)"
proof (cases out)
  case (Inl e)
  then show ?thesis using assms by (auto simp: Eads_Load_def verified_def split: sum.splits if_splits)
next
  case (Inr loaded)
  have ok: "Eads_Parse data (RecordOffset img) = Inr img" and fits: "unat (TextSize img) \<le> length text" "unat (BSSSize img) \<le> length bss"
    and eq: "loaded = \<lparr>li_Image = img, li_GuestEntry = GuestEntry img, li_TextAddress = TextBase img,
               li_TextSize = TextSize img, li_DataAddress = DataBase img, li_BSSSize = BSSSize img\<rparr>"
    "text' = overwrite text 0 (slice data (unat (PayloadOffset img)) (unat (TextSize img)))"
    "bss' = overwrite bss 0 (replicate (unat (BSSSize img)) 0)"
    using assms Inr by (auto simp: Eads_Load_def verified_def split: sum.splits if_splits)
  note p = Parse_accepts [OF ok] and o = record_offsets [OF ok]
  have len: "length (slice data (unat (PayloadOffset img)) (unat (TextSize img))) = unat (TextSize img)"
    using p(4) by (intro length_slice) (simp add: o)
  have aligned: "unat (TextBase img OR 1) = unat (TextBase img) + 1"
  proof -
    have "TextBase img AND 1 = (TextBase img AND 0xfff) AND 1" by (simp add: and.assoc)
    also have "\<dots> = 0" unfolding p(11) by simp
    finally have z: "TextBase img AND 1 = 0" .
    have "TextBase img OR 1 = TextBase img + 1" by (simp add: disjunctive_add_eq_or [OF z])
    moreover have "unat (TextBase img) + 1 < 2 ^ 32" using p(6,8) by simp
    ultimately show ?thesis by (simp add: unat_word_ariths)
  qed
  note pages = page_aligned [OF p(11)] page_aligned [OF p(12)]
  have "4096 dvd unat (TextBase img)" using pages(1) by (rule dvd_eq_mod_eq_0 [THEN iffD2])
  then have even: "even (unat (TextBase img))" by (rule dvd_trans [rotated]) simp
  show ?thesis
    unfolding Inr sum.case
    using ok p(4,6,8,9,10) fits len
    by (simp add: eq nth_overwrite nth_slice o GuestEntry_def pages aligned even)
qed

theorem load_confined_witness:
  "\<exists>out text' bss'. Eads_Load sampleEads sampleImage (replicate 5 1) (replicate 6 1) = (out, text', bss') \<and>
     (\<exists>loaded. out = Inr loaded \<and> text' ! 3 = sampleEads ! 52 \<and> bss' ! 4 = 1)"
proof -
  obtain out text' bss' where run: "Eads_Load sampleEads sampleImage (replicate 5 1) (replicate 6 1) = (out, text', bss')"
    by (rule prod_cases3)
  have "RecordOffset sampleImage = 1" "TextSize sampleImage = 4" "BSSSize sampleImage = 4" by (simp_all add: sampleImage_def)
  then obtain loaded where l: "out = Inr loaded" "li_TextSize loaded = 4" "li_BSSSize loaded = 4"
    using run sampleEads_parses by (auto simp: Eads_Load_def verified_def)
  have "text' ! 3 = sampleEads ! 52" "bss' ! 4 = 1"
    using load_confined [OF run] l \<open>RecordOffset sampleImage = 1\<close> by (simp_all add: HeaderSize_def)
  then show ?thesis using run l(1) by blast
qed

end
