(* ===== verification/Cheat_Values.thy ===== *)
theory Cheat_Values
  imports Service_Prelude
begin

text \<open>
  Typed scalars of the cheat engine, src/cheat/types.go, and their comparison,
  src/cheat/scanner.go: a value is its bit pattern in guest memory, encoded in the byte order
  of the machine.  Floating-point values are compared through their IEEE 754 encodings: a NaN
  is unordered, and other values are ordered as sign and magnitude of the encoding; widening
  a float32 to a float64 keeps that order.
\<close>

subsection \<open>Errors\<close>

text \<open>Errors that carry only a message are \<open>ErrInvalid\<close>; those of the memory keep its error.\<close>

datatype 'e cheatError =
    ErrAddressOutsideRegions | ErrReadOnlyRegion | ErrScanNotStarted | ErrTooManyResults
  | ErrScanLimitExceeded | ErrUnexpectedOriginal | ErrCodeAlreadyExists | ErrCodeNotFound
  | ErrWrongTarget | ErrTargetIdentityUnavailable | ErrInvalid | ErrMemory 'e

subsection \<open>Types and values\<close>

text \<open>Byte orders and value types are bytes; other values than the named ones are invalid.\<close>

datatype Endian = EndianLittle | EndianBig | EndianOther u8

definition Endian_valid :: "Endian \<Rightarrow> bool" where
  "Endian_valid e \<longleftrightarrow> e = EndianLittle \<or> e = EndianBig"

datatype ValueType =
    TypeUint8 | TypeInt8 | TypeUint16 | TypeInt16 | TypeUint32 | TypeInt32 | TypeUint64 | TypeInt64
  | TypeFloat32 | TypeFloat64 | TypeOther u8

fun ValueType_Valid :: "ValueType \<Rightarrow> bool" where
  "ValueType_Valid (TypeOther _) = False"
| "ValueType_Valid _ = True"

fun ValueType_Size :: "ValueType \<Rightarrow> nat" where
  "ValueType_Size TypeUint8 = 1"
| "ValueType_Size TypeInt8 = 1"
| "ValueType_Size TypeUint16 = 2"
| "ValueType_Size TypeInt16 = 2"
| "ValueType_Size TypeUint32 = 4"
| "ValueType_Size TypeInt32 = 4"
| "ValueType_Size TypeFloat32 = 4"
| "ValueType_Size TypeUint64 = 8"
| "ValueType_Size TypeInt64 = 8"
| "ValueType_Size TypeFloat64 = 8"
| "ValueType_Size (TypeOther _) = 0"

definition ValueType_signed :: "ValueType \<Rightarrow> bool" where
  "ValueType_signed t \<longleftrightarrow> t \<in> {TypeInt8, TypeInt16, TypeInt32, TypeInt64}"

definition ValueType_floating :: "ValueType \<Rightarrow> bool" where
  "ValueType_floating t \<longleftrightarrow> t \<in> {TypeFloat32, TypeFloat64}"

record Value =
  val_Type :: ValueType
  val_Bits :: u64

definition Value_Validate :: "Value \<Rightarrow> 'e cheatError + unit" where
  "Value_Validate v =
     (if \<not> ValueType_Valid (val_Type v) then Inl ErrInvalid
      else
        let sz = ValueType_Size (val_Type v) in
        if sz < 8 \<and> push_bit (sz * 8) 1 \<le> val_Bits v then Inl ErrInvalid else Inr ())"

text \<open>\<open>encoding/binary\<close> on one, two, four and eight bytes.\<close>

definition leBytes :: "nat \<Rightarrow> u64 \<Rightarrow> u8 list" where
  "leBytes n v = map (\<lambda>i. ucast (drop_bit (8 * i) v)) [0..<n]"

definition leValue :: "u8 list \<Rightarrow> u64" where
  "leValue bs = foldr (\<lambda>c acc. ucast c OR push_bit 8 acc) bs 0"

definition Value_Encode :: "Endian \<Rightarrow> Value \<Rightarrow> 'e cheatError + u8 list" where
  "Value_Encode endian v =
     (case Value_Validate v of
        Inl e \<Rightarrow> Inl e
      | Inr _ \<Rightarrow>
          if \<not> Endian_valid endian then Inl ErrInvalid
          else
            let output = leBytes (ValueType_Size (val_Type v)) (val_Bits v)
            in Inr (if endian = EndianBig then rev output else output))"

definition Value_Decode :: "ValueType \<Rightarrow> u8 list \<Rightarrow> Endian \<Rightarrow> 'e cheatError + Value" where
  "Value_Decode valueType data endian =
     (if \<not> ValueType_Valid valueType then Inl ErrInvalid
      else if \<not> Endian_valid endian then Inl ErrInvalid
      else if length data \<noteq> ValueType_Size valueType then Inl ErrInvalid
      else Inr \<lparr>val_Type = valueType, val_Bits = leValue (if endian = EndianBig then rev data else data)\<rparr>)"

subsection \<open>Comparisons\<close>

datatype Comparison =
    CompareUnknown | CompareEqual | CompareNotEqual | CompareGreater | CompareLess
  | CompareChanged | CompareUnchanged | CompareIncreased | CompareDecreased | CompareOther u8

fun Comparison_Valid :: "Comparison \<Rightarrow> bool" where
  "Comparison_Valid (CompareOther _) = False"
| "Comparison_Valid _ = True"

definition needsTarget :: "Comparison \<Rightarrow> bool" where
  "needsTarget c \<longleftrightarrow> c \<in> {CompareEqual, CompareNotEqual, CompareGreater, CompareLess}"

definition needsPrevious :: "Comparison \<Rightarrow> bool" where
  "needsPrevious c \<longleftrightarrow> c \<in> {CompareChanged, CompareUnchanged, CompareIncreased, CompareDecreased}"

text \<open>The encoding of a float as an integer in its order, and the NaNs.\<close>

definition floatBits :: "ValueType \<Rightarrow> u64 \<Rightarrow> u64" where
  "floatBits t v = (if t = TypeFloat32 then push_bit 32 v else v)"

definition floatKey :: "u64 \<Rightarrow> int" where
  "floatKey v = (let magnitude = uint (v AND 0x7FFFFFFFFFFFFFFF) in if bit v 63 then - magnitude else magnitude)"

definition isNaN :: "ValueType \<Rightarrow> u64 \<Rightarrow> bool" where
  "isNaN t v \<longleftrightarrow>
     (if t = TypeFloat32 then 0x7F800000 < v AND 0x7FFFFFFF
      else 0x7FF0000000000000 < v AND 0x7FFFFFFFFFFFFFFF)"

definition signedValue :: "Value \<Rightarrow> int" where
  "signedValue v =
     (let sz = ValueType_Size (val_Type v) in
      if sz = 1 then sint (ucast (val_Bits v) :: u8)
      else if sz = 2 then sint (ucast (val_Bits v) :: u16)
      else if sz = 4 then sint (ucast (val_Bits v) :: u32)
      else sint (val_Bits v))"

definition compareInt :: "int \<Rightarrow> int \<Rightarrow> int" where
  "compareInt left right = (if left < right then -1 else if right < left then 1 else 0)"

definition compareOrdered :: "Value \<Rightarrow> Value \<Rightarrow> 'e cheatError + int \<times> bool" where
  "compareOrdered left right =
     (if val_Type left \<noteq> val_Type right then Inl ErrInvalid
      else case Value_Validate left of
        Inl e \<Rightarrow> Inl e
      | Inr _ \<Rightarrow>
          (case Value_Validate right of
             Inl e \<Rightarrow> Inl e
           | Inr _ \<Rightarrow>
               let t = val_Type left in
               if ValueType_floating t then
                 if isNaN t (val_Bits left) \<or> isNaN t (val_Bits right) then Inr (0, False)
                 else Inr (compareInt (floatKey (floatBits t (val_Bits left))) (floatKey (floatBits t (val_Bits right))), True)
               else if ValueType_signed t then Inr (compareInt (signedValue left) (signedValue right), True)
               else Inr (compareInt (uint (val_Bits left)) (uint (val_Bits right)), True)))"

definition targetMatch :: "Comparison \<Rightarrow> Value \<Rightarrow> Value \<Rightarrow> 'e cheatError + bool" where
  "targetMatch comparison current target =
     (case compareOrdered current target of
        Inl e \<Rightarrow> Inl e
      | Inr (result, ordered) \<Rightarrow>
          (case comparison of
             CompareEqual \<Rightarrow> Inr (ordered \<and> result = 0)
           | CompareNotEqual \<Rightarrow> Inr (\<not> ordered \<or> result \<noteq> 0)
           | CompareGreater \<Rightarrow> Inr (ordered \<and> 0 < result)
           | CompareLess \<Rightarrow> Inr (ordered \<and> result < 0)
           | _ \<Rightarrow> Inl ErrInvalid))"

text \<open>A missing target is \<open>None\<close>; dereferencing one panics, which the validated calls never do.\<close>

definition initialMatch :: "Comparison \<Rightarrow> Value \<Rightarrow> Value option \<Rightarrow> 'e cheatError + bool" where
  "initialMatch comparison current target =
     (if comparison = CompareUnknown then Inr True
      else if needsTarget comparison then
        (case target of Some t \<Rightarrow> targetMatch comparison current t | None \<Rightarrow> Inl ErrInvalid)
      else Inl ErrInvalid)"

definition nextMatch :: "Comparison \<Rightarrow> Value \<Rightarrow> Value \<Rightarrow> Value option \<Rightarrow> bool \<Rightarrow> 'e cheatError + bool" where
  "nextMatch comparison current previous target sameBits =
     (if needsTarget comparison then
        (case target of Some t \<Rightarrow> targetMatch comparison current t | None \<Rightarrow> Inl ErrInvalid)
      else if comparison = CompareChanged then Inr (\<not> sameBits)
      else if comparison = CompareUnchanged then Inr sameBits
      else if comparison = CompareIncreased then
        (case compareOrdered current previous of Inl e \<Rightarrow> Inl e | Inr (result, ordered) \<Rightarrow> Inr (0 < result \<and> ordered))
      else if comparison = CompareDecreased then
        (case compareOrdered current previous of Inl e \<Rightarrow> Inl e | Inr (result, ordered) \<Rightarrow> Inr (result < 0 \<and> ordered))
      else Inl ErrInvalid)"

definition validateScanTarget :: "ValueType \<Rightarrow> Comparison \<Rightarrow> Value option \<Rightarrow> 'e cheatError + Value option" where
  "validateScanTarget valueType comparison target =
     (if needsTarget comparison then
        (case target of
           None \<Rightarrow> Inl ErrInvalid
         | Some t \<Rightarrow>
             if val_Type t \<noteq> valueType then Inl ErrInvalid
             else case Value_Validate t of Inl e \<Rightarrow> Inl e | Inr _ \<Rightarrow> Inr target)
      else if target \<noteq> None then Inl ErrInvalid
      else Inr None)"

subsection \<open>Encoding round trips\<close>

lemma length_leBytes [simp]: "length (leBytes n v) = n"
  by (simp add: leBytes_def)

lemma size_cases: "ValueType_Valid t \<Longrightarrow> ValueType_Size t \<in> {1, 2, 4, 8}"
  by (cases t) simp_all

lemma bit_leValue: "bit (leValue bs) i \<longleftrightarrow> i < 64 \<and> i div 8 < length bs \<and> bit (bs ! (i div 8)) (i mod 8)"
proof (induction bs arbitrary: i)
  case (Cons c bs)
  have step: "leValue (c # bs) = ucast c OR push_bit 8 (leValue bs)" by (simp add: leValue_def)
  show ?case
  proof (cases "i < 8")
    case True
    then show ?thesis unfolding step by (auto simp: bit_simps)
  next
    case False
    then have i: "i div 8 = Suc ((i - 8) div 8)" "i mod 8 = (i - 8) mod 8" by (simp_all add: le_div_geq le_mod_geq)
    have "\<not> bit (ucast c :: u64) i" using False by (auto simp: bit_simps dest: bit_imp_le_length)
    then show ?thesis
      unfolding step using False by (auto simp: bit_simps Cons.IH i)
  qed
qed (simp add: leValue_def)

lemma leValue_leBytes: "n \<le> 8 \<Longrightarrow> leValue (leBytes n v) = take_bit (8 * n) v"
proof (rule bit_word_eqI)
  fix i assume n: "n \<le> 8" and i: "i < LENGTH(64)"
  have "bit (leBytes n v ! (i div 8)) (i mod 8) \<longleftrightarrow> bit v i" if "i div 8 < n"
    using that i by (simp add: leBytes_def bit_simps)
  moreover have "i div 8 < n \<longleftrightarrow> i < 8 * n" by auto
  ultimately show "bit (leValue (leBytes n v)) i \<longleftrightarrow> bit (take_bit (8 * n) v) i"
    using i by (auto simp: bit_leValue bit_simps)
qed

lemma leBytes_leValue: "length bs \<le> 8 \<Longrightarrow> leBytes (length bs) (leValue bs) = bs"
proof (rule nth_equalityI)
  fix k assume n: "length bs \<le> 8" and k: "k < length (leBytes (length bs) (leValue bs))"
  show "leBytes (length bs) (leValue bs) ! k = bs ! k"
  proof (rule bit_word_eqI)
    fix j assume j: "j < LENGTH(8)"
    have "(8 * k + j) div 8 = k" "(8 * k + j) mod 8 = j" "8 * k + j < 64" using j k n by auto
    then show "bit (leBytes (length bs) (leValue bs) ! k) j \<longleftrightarrow> bit (bs ! k) j"
      using j k by (simp add: leBytes_def bit_simps bit_leValue)
  qed
qed simp

lemma leValue_bound:
  assumes "length bs < 8"
  shows "leValue bs < push_bit (length bs * 8) 1"
proof -
  have "take_bit (8 * length bs) (leValue bs) = leValue bs"
  proof (rule bit_word_eqI)
    fix i assume "i < LENGTH(64)"
    have "i div 8 < length bs \<longleftrightarrow> i < 8 * length bs" by auto
    then show "bit (take_bit (8 * length bs) (leValue bs)) i = bit (leValue bs) i" by (auto simp: bit_simps bit_leValue)
  qed
  then have "leValue bs AND mask (8 * length bs) = leValue bs" by (simp add: take_bit_eq_mask)
  moreover have "leValue bs AND mask (8 * length bs) < 2 ^ (8 * length bs)"
    by (rule and_mask_less') (use assms in simp)
  ultimately show ?thesis by (simp add: push_bit_eq_mult mult.commute)
qed

definition value_ok :: "Value \<Rightarrow> bool" where
  "value_ok v \<longleftrightarrow> Value_Validate v = (Inr () :: unit cheatError + unit)"

lemma Validate_ok: "Value_Validate v = (if value_ok v then Inr () else Inl ErrInvalid)"
  by (auto simp: value_ok_def Value_Validate_def Let_def)

lemma Decode_total:
  assumes "ValueType_Valid t" "Endian_valid en" "length data = ValueType_Size t"
  shows "\<exists>v. Value_Decode t data en = Inr v \<and> value_ok v \<and> val_Type v = t"
proof -
  let ?bs = "if en = EndianBig then rev data else data"
  have "length ?bs = ValueType_Size t" using assms(3) by simp
  then have "ValueType_Size t < 8 \<Longrightarrow> \<not> push_bit (ValueType_Size t * 8) 1 \<le> leValue ?bs"
    using leValue_bound [of ?bs] by (simp add: not_le)
  then show ?thesis using assms by (auto simp: Value_Decode_def value_ok_def Value_Validate_def Let_def)
qed

lemma Encode_Decode:
  assumes "value_ok v" "Endian_valid en"
  shows "\<exists>bs. Value_Encode en v = Inr bs \<and> length bs = ValueType_Size (val_Type v) \<and> Value_Decode (val_Type v) bs en = Inr v"
proof -
  let ?t = "val_Type v"
  have t: "ValueType_Valid ?t" using assms(1) by (auto simp: value_ok_def Value_Validate_def split: if_splits)
  have sz: "ValueType_Size ?t \<in> {1, 2, 4, 8}" by (rule size_cases [OF t])
  have "take_bit (8 * ValueType_Size ?t) (val_Bits v) = val_Bits v"
  proof (cases "ValueType_Size ?t < 8")
    case True
    then have "val_Bits v < 2 ^ (8 * ValueType_Size ?t)"
      using assms(1) by (auto simp: value_ok_def Value_Validate_def Let_def push_bit_eq_mult not_le mult.commute split: if_splits)
    then show ?thesis using True by (simp add: take_bit_eq_mask less_mask_eq)
  next
    case False
    then have "ValueType_Size ?t = 8" using sz by auto
    then show ?thesis by (auto intro: bit_word_eqI simp: bit_simps)
  qed
  moreover have "ValueType_Size ?t \<le> 8" using sz by auto
  ultimately have "leValue (leBytes (ValueType_Size ?t) (val_Bits v)) = val_Bits v" by (simp add: leValue_leBytes)
  then show ?thesis
    using assms t by (cases v) (simp add: Value_Encode_def Validate_ok Value_Decode_def Let_def)
qed

end
