(* ===== verification/Cheat_Engine.thy ===== *)
theory Cheat_Engine
  imports Cheat_Values Guest_Heap "HOL-Library.List_Lexorder"
begin

text \<open>
  The cheat engine, src/cheat/engine.go: memory regions, checked reads and writes, and the codes
  that patch and freeze memory.  The machine's memory is reached through the two operations of
  the interface \<open>Memory\<close>, a field of the engine; its state is threaded through every operation.
  The interpreter of package cpu provides them in \<open>guest_cheats\<close>.  The lock of the engine is
  held for every whole operation, so operations are atomic.
\<close>

subsection \<open>Strings\<close>

text \<open>
  \<open>strings.TrimSpace\<close> removes white space at both ends, rune by rune; from the end, a rune is
  white space exactly when the string ends in the encoding of one.
\<close>

fun trimLeft :: "name \<Rightarrow> name" where
  "trimLeft [] = []"
| "trimLeft (a # bs) =
     (if a < 0x80 then (if isSpace a then trimLeft bs else a # bs)
      else case bs of
        [] \<Rightarrow> a # bs
      | b # cs \<Rightarrow>
          if a = 0xC2 then (if b = 0x85 \<or> b = 0xA0 then trimLeft cs else a # bs)
          else (case cs of [] \<Rightarrow> a # bs | c # ds \<Rightarrow> if wideSpace a b c then trimLeft ds else a # bs))"

fun trimReversed :: "name \<Rightarrow> name" where
  "trimReversed [] = []"
| "trimReversed (c # bs) =
     (if c < 0x80 then (if isSpace c then trimReversed bs else c # bs)
      else case bs of
        [] \<Rightarrow> c # bs
      | b # cs \<Rightarrow>
          if b = 0xC2 then (if c = 0x85 \<or> c = 0xA0 then trimReversed cs else c # bs)
          else (case cs of [] \<Rightarrow> c # bs | a # ds \<Rightarrow> if wideSpace a b c then trimReversed ds else c # bs))"

definition TrimSpace :: "name \<Rightarrow> name" where
  "TrimSpace s = rev (trimReversed (rev (trimLeft s)))"

text \<open>
  \<open>strings.ToLower\<close> on the bytes of a digest: no letter outside ASCII has a hexadecimal digit as
  its lower case, so a string with such a letter is refused either way.
\<close>

definition lowerByte :: "u8 \<Rightarrow> u8" where
  "lowerByte c = (if 0x41 \<le> c \<and> c \<le> 0x5A then c + 0x20 else c)"

definition hexDigit :: "u8 \<Rightarrow> bool" where
  "hexDigit c \<longleftrightarrow> 0x30 \<le> c \<and> c \<le> 0x39 \<or> 0x61 \<le> c \<and> c \<le> 0x66"

definition normalizeSHA256 :: "name \<Rightarrow> 'e cheatError + name" where
  "normalizeSHA256 v =
     (let v = map lowerByte (TrimSpace v) in
      if v = [] then Inr []
      else if length v \<noteq> 64 then Inl ErrInvalid
      else if \<not> list_all hexDigit v then Inl ErrInvalid
      else Inr v)"

subsection \<open>Regions\<close>

record Region =
  rgn_Name :: name
  rgn_Start :: u32
  rgn_Size :: u32
  rgn_Writable :: bool
  rgn_Scannable :: bool

definition Region_Validate :: "Region \<Rightarrow> 'e cheatError + unit" where
  "Region_Validate r =
     (if TrimSpace (rgn_Name r) = [] then Inl ErrInvalid
      else if rgn_Size r = 0 then Inl ErrInvalid
      else if 2 ^ 32 < unat (rgn_Start r) + unat (rgn_Size r) then Inl ErrInvalid
      else Inr ())"

definition Region_contains :: "Region \<Rightarrow> u32 \<Rightarrow> int \<Rightarrow> bool" where
  "Region_contains r address sz =
     (if sz \<le> 0 then False
      else
        let start = uint address; stop = start + sz in
        uint (rgn_Start r) \<le> start \<and> stop \<le> uint (rgn_Start r) + uint (rgn_Size r) \<and> stop \<le> 2 ^ 32)"

subsection \<open>State\<close>

record ('m, 'e) Memory =
  mem_Read :: "u32 \<Rightarrow> nat \<Rightarrow> 'm \<Rightarrow> ('e + u8 list) \<times> 'm"
  mem_Write :: "u32 \<Rightarrow> u8 list \<Rightarrow> 'm \<Rightarrow> ('e + unit) \<times> 'm"

text \<open>A nil slice of expected bytes is \<open>None\<close>.\<close>

record Code =
  cd_ID :: name
  cd_Description :: name
  cd_TargetSHA256 :: name
  cd_Address :: u32
  cd_Value :: "u8 list"
  cd_Expected :: "u8 list option"
  cd_Freeze :: bool
  cd_RestoreOnDisable :: bool

record CodeState =
  cs_Code :: Code
  cs_Enabled :: bool

record storedCode =
  sc_code :: Code
  sc_enabled :: bool
  sc_original :: "u8 list option"

record scanRegion =
  sr_index :: nat
  sr_first :: nat
  sr_slots :: nat
  sr_bitmap :: "u64 list"
  sr_previous :: "u8 list"

record scanState =
  ss_valueType :: ValueType
  ss_alignment :: u32
  ss_regions :: "scanRegion list"
  ss_count :: nat

record ('m, 'e) Engine =
  eng_memory :: "('m, 'e) Memory"
  eng_targetSHA256 :: name
  eng_imageSHA256 :: name
  eng_byteOrder :: Endian
  eng_regions :: "Region list"
  eng_maxScanBytes :: u64
  eng_maxResults :: int
  eng_codes :: "name \<rightharpoonup> storedCode"
  eng_scan :: "scanState option"

record Options =
  opt_TargetSHA256 :: name
  opt_ImageSHA256 :: name
  opt_ByteOrder :: Endian
  opt_Regions :: "Region list"
  opt_MaxScanBytes :: u64
  opt_MaxResults :: int

definition DefaultMaxScanBytes :: u64 where "DefaultMaxScanBytes = push_bit 20 128"
definition DefaultMaxResults :: int where "DefaultMaxResults = 2000000"
definition MaxCodeBytes :: nat where "MaxCodeBytes = 2 ^ 20"

text \<open>The regions of the options with their names trimmed; names must be distinct.\<close>

fun loadRegions :: "name list \<Rightarrow> Region list \<Rightarrow> 'e cheatError + Region list" where
  "loadRegions names [] = Inr []"
| "loadRegions names (r # rs) =
     (let r = r\<lparr>rgn_Name := TrimSpace (rgn_Name r)\<rparr> in
      case Region_Validate r of
        Inl e \<Rightarrow> Inl e
      | Inr _ \<Rightarrow>
          if rgn_Name r \<in> set names then Inl ErrInvalid
          else case loadRegions (rgn_Name r # names) rs of Inl e \<Rightarrow> Inl e | Inr rs \<Rightarrow> Inr (r # rs))"

definition Engine_New :: "('m, 'e) Memory option \<Rightarrow> Options \<Rightarrow> 'e cheatError + ('m, 'e) Engine" where
  "Engine_New memory options =
     (case memory of
        None \<Rightarrow> Inl ErrInvalid
      | Some mem \<Rightarrow>
          if \<not> Endian_valid (opt_ByteOrder options) then Inl ErrInvalid
          else case normalizeSHA256 (opt_TargetSHA256 options) of
            Inl e \<Rightarrow> Inl e
          | Inr target \<Rightarrow>
              (case normalizeSHA256 (opt_ImageSHA256 options) of
                 Inl e \<Rightarrow> Inl e
               | Inr imageIdentity \<Rightarrow>
                   (case loadRegions [] (opt_Regions options) of
                      Inl e \<Rightarrow> Inl e
                    | Inr rgns \<Rightarrow>
                        if rgns = [] then Inl ErrInvalid
                        else
                          let maxScanBytes = (if opt_MaxScanBytes options = 0 then DefaultMaxScanBytes else opt_MaxScanBytes options);
                              maxResults = (if opt_MaxResults options = 0 then DefaultMaxResults else opt_MaxResults options)
                          in
                          if maxResults < 0 then Inl ErrInvalid
                          else Inr \<lparr>eng_memory = mem, eng_targetSHA256 = target, eng_imageSHA256 = imageIdentity,
                            eng_byteOrder = opt_ByteOrder options, eng_regions = rgns, eng_maxScanBytes = maxScanBytes,
                            eng_maxResults = maxResults, eng_codes = Map.empty, eng_scan = None\<rparr>)))"

definition identitiesLocked :: "('m, 'e) Engine \<Rightarrow> name list" where
  "identitiesLocked e =
     (if eng_imageSHA256 e \<noteq> [] then [eng_imageSHA256 e] else []) @
     (if eng_targetSHA256 e \<noteq> [] then [eng_targetSHA256 e] else [])"

fun matchLoop :: "name list \<Rightarrow> name list \<Rightarrow> name list \<Rightarrow> 'e cheatError + name" where
  "matchLoop identities [] normalized = (if normalized = [] then Inl ErrTargetIdentityUnavailable else Inl ErrWrongTarget)"
| "matchLoop identities (candidate # rest) normalized =
     (case normalizeSHA256 candidate of
        Inl e \<Rightarrow> Inl e
      | Inr v \<Rightarrow>
          if v = [] then matchLoop identities rest normalized
          else if v \<in> set identities then Inr v
          else matchLoop identities rest (normalized @ [v]))"

definition MatchIdentity :: "name list \<Rightarrow> ('m, 'e) Engine \<Rightarrow> 'e cheatError + name" where
  "MatchIdentity candidates e =
     (if identitiesLocked e = [] then Inl ErrTargetIdentityUnavailable
      else matchLoop (identitiesLocked e) candidates [])"

subsection \<open>Reads and writes\<close>

fun findFor :: "u32 \<Rightarrow> int \<Rightarrow> bool \<Rightarrow> Region list \<Rightarrow> 'e cheatError + Region" where
  "findFor address sz needWrite [] = Inl ErrAddressOutsideRegions"
| "findFor address sz needWrite (r # rs) =
     (if \<not> Region_contains r address sz then findFor address sz needWrite rs
      else if needWrite \<and> \<not> rgn_Writable r then Inl ErrReadOnlyRegion
      else Inr r)"

definition regionForLocked :: "u32 \<Rightarrow> int \<Rightarrow> bool \<Rightarrow> ('m, 'e) Engine \<Rightarrow> 'e cheatError + Region" where
  "regionForLocked address sz needWrite e = findFor address sz needWrite (eng_regions e)"

definition readMem :: "u32 \<Rightarrow> nat \<Rightarrow> ('m, 'e) Engine \<Rightarrow> 'm \<Rightarrow> ('e cheatError + u8 list) \<times> 'm" where
  "readMem address n e m =
     (case mem_Read (eng_memory e) address n m of
        (Inl x, m) \<Rightarrow> (Inl (ErrMemory x), m)
      | (Inr bs, m) \<Rightarrow> (Inr bs, m))"

definition writeMem :: "u32 \<Rightarrow> u8 list \<Rightarrow> ('m, 'e) Engine \<Rightarrow> 'm \<Rightarrow> ('e cheatError + unit) \<times> 'm" where
  "writeMem address bs e m =
     (case mem_Write (eng_memory e) address bs m of
        (Inl x, m) \<Rightarrow> (Inl (ErrMemory x), m)
      | (Inr _, m) \<Rightarrow> (Inr (), m))"

definition readBytesLocked :: "u32 \<Rightarrow> int \<Rightarrow> ('m, 'e) Engine \<Rightarrow> 'm \<Rightarrow> ('e cheatError + u8 list) \<times> 'm" where
  "readBytesLocked address sz e m =
     (case regionForLocked address sz False e of
        Inl x \<Rightarrow> (Inl x, m)
      | Inr _ \<Rightarrow> readMem address (nat sz) e m)"

definition Engine_Read :: "u32 \<Rightarrow> ValueType \<Rightarrow> ('m, 'e) Engine \<Rightarrow> 'm \<Rightarrow> ('e cheatError + Value) \<times> 'm" where
  "Engine_Read address valueType e m =
     (if \<not> ValueType_Valid valueType then (Inl ErrInvalid, m)
      else case readBytesLocked address (int (ValueType_Size valueType)) e m of
        (Inl x, m) \<Rightarrow> (Inl x, m)
      | (Inr data, m) \<Rightarrow> (Value_Decode valueType data (eng_byteOrder e), m))"

text \<open>The comparison with the expected bytes that precedes a write.\<close>

definition checkExpected :: "u32 \<Rightarrow> nat \<Rightarrow> u8 list option \<Rightarrow> ('m, 'e) Engine \<Rightarrow> 'm \<Rightarrow> ('e cheatError + unit) \<times> 'm" where
  "checkExpected address n expected e m =
     (case expected of
        None \<Rightarrow> (Inr (), m)
      | Some xs \<Rightarrow>
          if length xs \<noteq> n then (Inl ErrInvalid, m)
          else case readMem address n e m of
            (Inl x, m) \<Rightarrow> (Inl x, m)
          | (Inr current, m) \<Rightarrow> if current \<noteq> xs then (Inl ErrUnexpectedOriginal, m) else (Inr (), m))"

definition writeBytesLocked ::
    "u32 \<Rightarrow> u8 list \<Rightarrow> u8 list option \<Rightarrow> ('m, 'e) Engine \<Rightarrow> 'm \<Rightarrow> ('e cheatError + unit) \<times> 'm" where
  "writeBytesLocked address v expected e m =
     (if v = [] \<or> MaxCodeBytes < length v then (Inl ErrInvalid, m)
      else case regionForLocked address (int (length v)) True e of
        Inl x \<Rightarrow> (Inl x, m)
      | Inr _ \<Rightarrow>
          (case checkExpected address (length v) expected e m of
             (Inl x, m) \<Rightarrow> (Inl x, m)
           | (Inr _, m) \<Rightarrow> writeMem address v e m))"

definition Engine_Write ::
    "u32 \<Rightarrow> Value \<Rightarrow> Value option \<Rightarrow> ('m, 'e) Engine \<Rightarrow> 'm \<Rightarrow> ('e cheatError + unit) \<times> 'm" where
  "Engine_Write address v expected e m =
     (case Value_Encode (eng_byteOrder e) v of
        Inl x \<Rightarrow> (Inl x, m)
      | Inr encoded \<Rightarrow>
          (case expected of
             None \<Rightarrow> writeBytesLocked address encoded None e m
           | Some x \<Rightarrow>
               if val_Type x \<noteq> val_Type v then (Inl ErrInvalid, m)
               else case Value_Encode (eng_byteOrder e) x of
                 Inl x \<Rightarrow> (Inl x, m)
               | Inr expectedBytes \<Rightarrow> writeBytesLocked address encoded (Some expectedBytes) e m))"

subsection \<open>Codes\<close>

type_synonym ('m, 'e) cheatState = "('m, 'e) Engine \<times> 'm"

definition snapshotCode :: "storedCode \<Rightarrow> CodeState" where
  "snapshotCode s = \<lparr>cs_Code = sc_code s, cs_Enabled = sc_enabled s\<rparr>"

definition codeIdentity :: "Code \<Rightarrow> ('m, 'e) Engine \<Rightarrow> 'e cheatError + name" where
  "codeIdentity code e =
     (case normalizeSHA256 (cd_TargetSHA256 code) of
        Inl x \<Rightarrow> Inl x
      | Inr target \<Rightarrow>
          let identities = identitiesLocked e in
          if identities = [] then Inl ErrTargetIdentityUnavailable
          else
            let target = (if target = [] then identities ! 0 else target) in
            if target \<notin> set identities then Inl ErrWrongTarget else Inr target)"

definition AddCode :: "Code \<Rightarrow> ('m, 'e) Engine \<Rightarrow> 'm \<Rightarrow> ('e cheatError + CodeState) \<times> ('m, 'e) cheatState" where
  "AddCode code e m =
     (let code = code\<lparr>cd_ID := TrimSpace (cd_ID code)\<rparr>; n = length (cd_Value code) in
      if cd_ID code = [] then (Inl ErrInvalid, e, m)
      else if eng_codes e (cd_ID code) \<noteq> None then (Inl ErrCodeAlreadyExists, e, m)
      else if cd_Value code = [] \<or> MaxCodeBytes < n then (Inl ErrInvalid, e, m)
      else case regionForLocked (cd_Address code) (int n) True e of
        Inl x \<Rightarrow> (Inl x, e, m)
      | Inr _ \<Rightarrow>
          (case codeIdentity code e of
             Inl x \<Rightarrow> (Inl x, e, m)
           | Inr target \<Rightarrow>
               (case readMem (cd_Address code) n e m of
                  (Inl x, m) \<Rightarrow> (Inl x, e, m)
                | (Inr current, m) \<Rightarrow>
                    let keep = (\<lambda>xs.
                      let stored = \<lparr>sc_code = code\<lparr>cd_TargetSHA256 := target, cd_Expected := Some xs\<rparr>,
                            sc_enabled = False, sc_original = None\<rparr>
                      in (Inr (snapshotCode stored), e\<lparr>eng_codes := (eng_codes e)(cd_ID code \<mapsto> stored)\<rparr>, m))
                    in case cd_Expected code of
                      None \<Rightarrow> keep current
                    | Some xs \<Rightarrow>
                        if length xs \<noteq> n then (Inl ErrInvalid, e, m)
                        else if current \<noteq> xs then (Inl ErrUnexpectedOriginal, e, m)
                        else keep xs)))"

definition codeLocked :: "name \<Rightarrow> ('m, 'e) Engine \<Rightarrow> 'e cheatError + storedCode" where
  "codeLocked ident e =
     (case eng_codes e (TrimSpace ident) of None \<Rightarrow> Inl ErrCodeNotFound | Some s \<Rightarrow> Inr s)"

definition putCode :: "storedCode \<Rightarrow> ('m, 'e) Engine \<Rightarrow> ('m, 'e) Engine" where
  "putCode s e = e\<lparr>eng_codes := (eng_codes e)(cd_ID (sc_code s) \<mapsto> s)\<rparr>"

definition EnableCode :: "name \<Rightarrow> ('m, 'e) Engine \<Rightarrow> 'm \<Rightarrow> ('e cheatError + unit) \<times> ('m, 'e) cheatState" where
  "EnableCode ident e m =
     (case codeLocked ident e of
        Inl x \<Rightarrow> (Inl x, e, m)
      | Inr s \<Rightarrow>
          if sc_enabled s then (Inr (), e, m)
          else case readMem (cd_Address (sc_code s)) (length (cd_Value (sc_code s))) e m of
            (Inl x, m) \<Rightarrow> (Inl x, e, m)
          | (Inr current, m) \<Rightarrow>
              if Some current \<noteq> cd_Expected (sc_code s) then (Inl ErrUnexpectedOriginal, e, m)
              else (case writeMem (cd_Address (sc_code s)) (cd_Value (sc_code s)) e m of
                (Inl x, m) \<Rightarrow> (Inl x, e, m)
              | (Inr _, m) \<Rightarrow> (Inr (), putCode (s\<lparr>sc_original := Some current, sc_enabled := True\<rparr>) e, m)))"

definition restoreOriginal :: "storedCode \<Rightarrow> ('m, 'e) Engine \<Rightarrow> 'm \<Rightarrow> ('e cheatError + unit) \<times> 'm" where
  "restoreOriginal s e m =
     (case sc_original s of
        Some original \<Rightarrow>
          if cd_RestoreOnDisable (sc_code s) then writeMem (cd_Address (sc_code s)) original e m else (Inr (), m)
      | None \<Rightarrow> (Inr (), m))"

definition DisableCode :: "name \<Rightarrow> ('m, 'e) Engine \<Rightarrow> 'm \<Rightarrow> ('e cheatError + unit) \<times> ('m, 'e) cheatState" where
  "DisableCode ident e m =
     (case codeLocked ident e of
        Inl x \<Rightarrow> (Inl x, e, m)
      | Inr s \<Rightarrow>
          if \<not> sc_enabled s then (Inr (), e, m)
          else case restoreOriginal s e m of
            (Inl x, m) \<Rightarrow> (Inl x, e, m)
          | (Inr _, m) \<Rightarrow> (Inr (), putCode (s\<lparr>sc_enabled := False, sc_original := None\<rparr>) e, m))"

definition SetCodeEnabled :: "name \<Rightarrow> bool \<Rightarrow> ('m, 'e) Engine \<Rightarrow> 'm \<Rightarrow> ('e cheatError + unit) \<times> ('m, 'e) cheatState" where
  "SetCodeEnabled ident enabled = (if enabled then EnableCode ident else DisableCode ident)"

definition RemoveCode :: "name \<Rightarrow> ('m, 'e) Engine \<Rightarrow> 'm \<Rightarrow> ('e cheatError + unit) \<times> ('m, 'e) cheatState" where
  "RemoveCode ident e m =
     (case codeLocked ident e of
        Inl x \<Rightarrow> (Inl x, e, m)
      | Inr s \<Rightarrow>
          (case (if sc_enabled s then restoreOriginal s e m else (Inr (), m)) of
             (Inl x, m) \<Rightarrow> (Inl x, e, m)
           | (Inr _, m) \<Rightarrow> (Inr (), e\<lparr>eng_codes := (eng_codes e)(cd_ID (sc_code s) := None)\<rparr>, m)))"

text \<open>The stored codes by ascending identifier.\<close>

definition sortedCodes :: "bool \<Rightarrow> ('m, 'e) Engine \<Rightarrow> storedCode list" where
  "sortedCodes enabledOnly e = filter (\<lambda>s. enabledOnly \<longrightarrow> sc_enabled s) (map snd (entriesOf (eng_codes e)))"

definition Engine_Codes :: "('m, 'e) Engine \<Rightarrow> CodeState list" where
  "Engine_Codes e = map snapshotCode (sortedCodes False e)"

fun applyLoop :: "storedCode list \<Rightarrow> ('m, 'e) Engine \<Rightarrow> 'm \<Rightarrow> ('e cheatError + unit) \<times> 'm" where
  "applyLoop [] e m = (Inr (), m)"
| "applyLoop (s # rest) e m =
     (case writeMem (cd_Address (sc_code s)) (cd_Value (sc_code s)) e m of
        (Inl x, m) \<Rightarrow> (Inl x, m)
      | (Inr _, m) \<Rightarrow> applyLoop rest e m)"

definition applyFrozenLocked :: "('m, 'e) Engine \<Rightarrow> 'm \<Rightarrow> ('e cheatError + unit) \<times> 'm" where
  "applyFrozenLocked e = applyLoop (filter (\<lambda>s. cd_Freeze (sc_code s)) (sortedCodes True e)) e"

definition reapplyEnabledLocked :: "('m, 'e) Engine \<Rightarrow> 'm \<Rightarrow> ('e cheatError + unit) \<times> 'm" where
  "reapplyEnabledLocked e = applyLoop (sortedCodes True e) e"

datatype applyMode = ApplyNone | ApplyFrozenCodes | ApplyAllEnabled

text \<open>The action of the machine is an argument; its error is the machine's.\<close>

definition runMachineLocked ::
    "('m \<Rightarrow> ('e + unit) \<times> 'm) \<Rightarrow> applyMode \<Rightarrow> ('m, 'e) Engine \<Rightarrow> 'm \<Rightarrow> ('e cheatError + unit) \<times> 'm" where
  "runMachineLocked action m' e m =
     (case action m of
        (Inl x, m) \<Rightarrow> (Inl (ErrMemory x), m)
      | (Inr _, m) \<Rightarrow>
          (case m' of
             ApplyFrozenCodes \<Rightarrow> applyFrozenLocked e m
           | ApplyAllEnabled \<Rightarrow> reapplyEnabledLocked e m
           | ApplyNone \<Rightarrow> (Inr (), m)))"

definition runMachineAndResetScan ::
    "('m \<Rightarrow> ('e + unit) \<times> 'm) \<Rightarrow> applyMode \<Rightarrow> ('m, 'e) Engine \<Rightarrow> 'm \<Rightarrow> ('e cheatError + unit) \<times> ('m, 'e) cheatState" where
  "runMachineAndResetScan action m' e m =
     (let e = e\<lparr>eng_scan := None\<rparr>; (r, m) = runMachineLocked action m' e m in (r, e, m))"

subsection \<open>The interface of guest memory\<close>

text \<open>
  What the engine relies on: a read answers the bytes of the memory and changes none; a write
  changes bytes in its span only, stores its bytes when it succeeds, and succeeds again on the
  same span as long as the protection of the memory is the same.
\<close>

locale cheat_memory =
  fixes M :: "('m, 'e) Memory"
    and ready :: "'m \<Rightarrow> bool"
    and view :: "'m \<Rightarrow> nat \<Rightarrow> u8 option"
    and prot :: "'m \<Rightarrow> nat \<Rightarrow> 'p"
  assumes read_keeps: "ready m \<Longrightarrow> mem_Read M a n m = (r, m') \<Longrightarrow> ready m' \<and> view m' = view m \<and> prot m' = prot m"
    and read_value: "ready m \<Longrightarrow> mem_Read M a n m = (Inr bs, m') \<Longrightarrow> map Some bs = map (view m) [unat a ..< unat a + n]"
    and write_keeps: "ready m \<Longrightarrow> mem_Write M a bs m = (w, m') \<Longrightarrow> ready m' \<and> prot m' = prot m"
    and write_confined: "ready m \<Longrightarrow> mem_Write M a bs m = (w, m') \<Longrightarrow> x \<notin> {unat a ..< unat a + length bs} \<Longrightarrow> view m' x = view m x"
    and write_value: "ready m \<Longrightarrow> mem_Write M a bs m = (Inr (), m') \<Longrightarrow> map (view m') [unat a ..< unat a + length bs] = map Some bs"
    and write_again: "ready m \<Longrightarrow> mem_Write M a bs m = (Inr (), m1) \<Longrightarrow> ready m2 \<Longrightarrow> prot m2 = prot m \<Longrightarrow>
      length cs = length bs \<Longrightarrow> \<exists>m3. mem_Write M a cs m2 = (Inr (), m3)"
begin

lemma readMem_keeps:
  "ready m \<Longrightarrow> eng_memory e = M \<Longrightarrow> readMem a n e m = (r, m') \<Longrightarrow> ready m' \<and> view m' = view m \<and> prot m' = prot m"
  by (auto simp: readMem_def split: prod.splits sum.splits dest: read_keeps)

lemma readMem_value:
  "ready m \<Longrightarrow> eng_memory e = M \<Longrightarrow> readMem a n e m = (Inr bs, m') \<Longrightarrow>
     map Some bs = map (view m) [unat a ..< unat a + n] \<and> length bs = n"
  by (auto simp: readMem_def split: prod.splits sum.splits dest: read_value dest!: arg_cong [where f = length])

lemma writeMem_keeps:
  "ready m \<Longrightarrow> eng_memory e = M \<Longrightarrow> writeMem a bs e m = (r, m') \<Longrightarrow>
     ready m' \<and> prot m' = prot m \<and> (\<forall>x. x \<notin> {unat a ..< unat a + length bs} \<longrightarrow> view m' x = view m x)"
  by (auto simp: writeMem_def split: prod.splits sum.splits dest: write_keeps write_confined)

lemma writeMem_value:
  "ready m \<Longrightarrow> eng_memory e = M \<Longrightarrow> writeMem a bs e m = (Inr (), m') \<Longrightarrow>
     map (view m') [unat a ..< unat a + length bs] = map Some bs"
  by (auto simp: writeMem_def split: prod.splits sum.splits dest: write_value)

lemma writeMem_again:
  assumes "ready m" "eng_memory e = M" "writeMem a bs e m = (Inr (), m1)" "ready m2" "prot m2 = prot m" "length cs = length bs"
    and "eng_memory e' = M"
  shows "\<exists>m3. writeMem a cs e' m2 = (Inr (), m3)"
proof -
  have "mem_Write M a bs m = (Inr (), m1)"
    using assms(2,3) by (auto simp: writeMem_def split: prod.splits sum.splits)
  from write_again [OF assms(1) this assms(4,5,6)] show ?thesis using assms(7) by (auto simp: writeMem_def)
qed

text \<open>Writing back what a span held restores the whole view.\<close>

lemma write_back:
  assumes r: "ready m" "eng_memory e = M" "eng_memory e' = M"
    and old: "map Some old = map (view m) [unat a ..< unat a + length bs]"
    and w: "writeMem a bs e m = (Inr (), m1)"
  shows "\<exists>m2. writeMem a old e' m1 = (Inr (), m2) \<and> ready m2 \<and> view m2 = view m \<and> prot m2 = prot m"
proof -
  have k: "ready m1" "prot m1 = prot m" "\<And>x. x \<notin> {unat a ..< unat a + length bs} \<Longrightarrow> view m1 x = view m x"
    using writeMem_keeps [OF r(1,2) w] by auto
  have len: "length old = length bs" using arg_cong [OF old, of length] by simp
  obtain m2 where m2: "writeMem a old e' m1 = (Inr (), m2)"
    using writeMem_again [OF r(1,2) w k(1,2) len r(3)] by blast
  have k2: "ready m2" "prot m2 = prot m1" "\<And>x. x \<notin> {unat a ..< unat a + length bs} \<Longrightarrow> view m2 x = view m1 x"
    using writeMem_keeps [OF k(1) r(3) m2] len by auto
  have "map (view m2) [unat a ..< unat a + length bs] = map (view m) [unat a ..< unat a + length bs]"
    using writeMem_value [OF k(1) r(3) m2] old len by simp
  then have "view m2 x = view m x" if "x \<in> {unat a ..< unat a + length bs}" for x using that by auto
  then have "view m2 = view m" using k(3) k2(3) by (auto simp: fun_eq_iff)
  then show ?thesis using m2 k k2 by auto
qed

end

subsection \<open>The interpreter's memory\<close>

lemma spec_write_stored:
  assumes "fst (spec_write m p a vs) = Inr ()" "i < length vs"
  shows "map_option snd (snd (spec_write m p a vs) (a + i)) = Some (vs ! i)"
proof -
  have "\<exists>q v. m (a + j) = Some (q, v) \<and> q AND p = p" if "j < length vs" for j
    using assms(1) that unfolding spec_write_Inr by fastforce
  from spec_write_ok [where m = m and a = a and vs = vs and p = p, OF this]
  have "snd (spec_write m p a vs) (a + i) = map_option (\<lambda>(q, _). (q, vs ! i)) (m (a + i))"
    using assms(2) by simp
  moreover have "m (a + i) \<noteq> None" using assms unfolding spec_write_Inr by fastforce
  ultimately show ?thesis by auto
qed

lemma spec_read_Inr:
  "spec_read m p a n = Inr bs \<Longrightarrow> map Some bs = map (\<lambda>x. map_option snd (m x)) [a ..< a + n]"
proof (induction n arbitrary: a bs)
  case (Suc n)
  then have "\<exists>v vs. bs = v # vs \<and> map_option snd (m a) = Some v \<and> spec_read m p (Suc a) n = Inr vs"
    by (auto simp: spec_byte_def split: sum.splits option.splits if_splits)
  moreover have "[a ..< a + Suc n] = a # [Suc a ..< Suc a + n]" by (simp add: upt_rec)
  ultimately show ?case using Suc.IH [of "Suc a"] by auto
qed simp

definition guestMemory :: "(backend, cpu_error) Memory" where
  "guestMemory = \<lparr>mem_Read = ReadMemory, mem_Write = WriteMemory\<rparr>"

definition guest_ready :: "backend \<Rightarrow> bool" where
  "guest_ready b \<longleftrightarrow> app_guest b \<and> \<not> closed b"

definition guest_view :: "backend \<Rightarrow> nat \<Rightarrow> u8 option" where
  "guest_view b x = map_option snd (guest_memory b x)"

definition guest_prot :: "backend \<Rightarrow> nat \<Rightarrow> Permissions option" where
  "guest_prot b x = map_option fst (guest_memory b x)"

lemma guest_Read:
  assumes "guest_ready b"
  shows "\<exists>h. ReadMemory a n b = (spec_read (guest_memory b) PermissionRead (unat a) n, b\<lparr>regionHints := h\<rparr>)"
  using copyOut_spec [of b a n PermissionRead] assms
  by (simp add: guest_ready_def app_guest_def ReadMemory_def)

lemma guest_ready_hints [simp]: "guest_ready (b\<lparr>regionHints := h\<rparr>) = guest_ready b"
  by (simp add: guest_ready_def app_guest_def mmuEnabled_def instructionCacheEnabled_def)

lemma guest_Write:
  assumes "guest_ready b" and "WriteMemory a vs b = (r, b')"
  shows "guest_ready b'" "r = fst (spec_write (guest_memory b) PermissionWrite (unat a) vs)"
    "guest_memory b' = snd (spec_write (guest_memory b) PermissionWrite (unat a) vs)"
proof -
  have g: "app_guest b" "\<not> closed b" using assms(1) by (simp_all add: guest_ready_def)
  have w: "writes_as_spec (spec_write (guest_memory b) PermissionWrite (unat a) vs) b (r, b')"
    using WriteMemory_app [OF g, of a vs] assms(2) by simp
  then show "r = fst (spec_write (guest_memory b) PermissionWrite (unat a) vs)"
    "guest_memory b' = snd (spec_write (guest_memory b) PermissionWrite (unat a) vs)"
    by (auto simp: writes_as_spec_def prod_eq_iff)
  show "guest_ready b'"
    using w same_but_memory_app [OF g(1)] g(2) unfolding writes_as_spec_def guest_ready_def by force
qed

interpretation guest_cheats: cheat_memory guestMemory guest_ready guest_view guest_prot
proof
  fix m m' m1 m2 :: backend and a :: u32 and n x and bs cs :: "u8 list" and r :: "cpu_error + u8 list" and w :: "cpu_error + unit"
  assume ready: "guest_ready m"
  show "mem_Read guestMemory a n m = (r, m') \<Longrightarrow> guest_ready m' \<and> guest_view m' = guest_view m \<and> guest_prot m' = guest_prot m"
    using guest_Read [OF ready, of a n] ready by (auto simp: guestMemory_def guest_view_def guest_prot_def fun_eq_iff)
  show "mem_Read guestMemory a n m = (Inr bs, m') \<Longrightarrow> map Some bs = map (guest_view m) [unat a ..< unat a + n]"
    using guest_Read [OF ready, of a n] spec_read_Inr [of "guest_memory m" PermissionRead "unat a" n bs]
    by (auto simp: guestMemory_def guest_view_def)
  show "mem_Write guestMemory a bs m = (w, m') \<Longrightarrow> guest_ready m' \<and> guest_prot m' = guest_prot m"
    using guest_Write [OF ready, of a bs w m'] by (auto simp: guestMemory_def guest_prot_def fun_eq_iff spec_write_prot)
  show "mem_Write guestMemory a bs m = (w, m') \<Longrightarrow> x \<notin> {unat a ..< unat a + length bs} \<Longrightarrow> guest_view m' x = guest_view m x"
    using guest_Write [OF ready, of a bs w m'] spec_write_frame [of x "unat a" bs "guest_memory m" PermissionWrite]
    by (simp add: guestMemory_def guest_view_def)
  show "mem_Write guestMemory a bs m = (Inr (), m') \<Longrightarrow> map (guest_view m') [unat a ..< unat a + length bs] = map Some bs"
    using guest_Write [OF ready, of a bs "Inr ()" m'] spec_write_stored [of "guest_memory m" PermissionWrite "unat a" bs]
    by (auto simp: guestMemory_def guest_view_def intro!: nth_equalityI)
  assume w: "mem_Write guestMemory a bs m = (Inr (), m1)" and m2: "guest_ready m2" "guest_prot m2 = guest_prot m"
    and len: "length cs = length bs"
  have "fst (spec_write (guest_memory m) PermissionWrite (unat a) bs) = Inr ()"
    using guest_Write(2) [OF ready, of a bs "Inr ()" m1] w by (simp add: guestMemory_def)
  then have "fst (spec_write (guest_memory m2) PermissionWrite (unat a) cs) = Inr ()"
    using fun_cong [OF m2(2)] len by (simp add: spec_write_Inr guest_prot_def)
  then show "\<exists>m3. mem_Write guestMemory a cs m2 = (Inr (), m3)"
    using guest_Write(2) [OF m2(1), of a cs] by (cases "WriteMemory a cs m2") (simp add: guestMemory_def)
qed

end
