(* ===== verification/Cheat_Scan.thy ===== *)
theory Cheat_Scan
  imports Cheat_Engine
begin

text \<open>
  Memory scans, src/cheat/scanner.go: a session keeps, for every region with candidates, one
  bit per aligned position and the bytes the region held.  Offsets and slot counts stay below
  2^33 in the source's 64-bit integers, so they are natural numbers here.
\<close>

subsection \<open>Bitmaps\<close>

definition TrailingZeros64 :: "u64 \<Rightarrow> nat" where
  "TrailingZeros64 w = length (takeWhile (\<lambda>i. \<not> bit w i) [0..<64])"

definition OnesCount64 :: "u64 \<Rightarrow> nat" where
  "OnesCount64 w = length (filter (bit w) [0..<64])"

text \<open>The loop that takes the lowest set bit and clears it.\<close>

function wordBits :: "u64 \<Rightarrow> nat list" where
  "wordBits w = (if w = 0 then [] else TrailingZeros64 w # wordBits (w AND (w - 1)))"
  by pat_completeness auto

termination
proof (relation "measure unat")
  fix w :: u64 assume w: "w \<noteq> 0"
  have "unat (w AND (w - 1)) \<le> unat (w - 1)" unfolding word_le_nat_alt [symmetric] by (rule word_and_le1)
  moreover have "unat (w - 1) < unat w" using w unat_gt_0 [of w] by (simp add: unat_minus_one)
  ultimately show "(w AND (w - 1), w) \<in> measure unat" by simp
qed simp

declare wordBits.simps [simp del]

fun wordSlots :: "nat \<Rightarrow> u64 list \<Rightarrow> nat list" where
  "wordSlots i [] = []"
| "wordSlots i (w # ws) = map (\<lambda>b. i * 64 + b) (wordBits w) @ wordSlots (i + 1) ws"

definition setSlot :: "nat \<Rightarrow> u64 list \<Rightarrow> u64 list" where
  "setSlot slot bm = bm[slot div 64 := bm ! (slot div 64) OR push_bit (slot mod 64) 1]"

lemma lowest_bit:
  assumes "w \<noteq> 0"
  shows "TrailingZeros64 w < 64" "bit w (TrailingZeros64 w)" "i < TrailingZeros64 w \<Longrightarrow> \<not> bit w i"
proof -
  let ?k = "TrailingZeros64 w"
  obtain j where j: "bit w j" "j < 64" using assms by (auto simp: bit_eq_iff dest: bit_imp_le_length)
  have le: "?k \<le> length [0..<64::nat]" unfolding TrailingZeros64_def by (rule length_takeWhile_le)
  show below: "\<not> bit w i" if "i < ?k" for i
  proof -
    have "takeWhile (\<lambda>i. \<not> bit w i) [0..<64] ! i = [0..<64] ! i"
      by (rule takeWhile_nth) (use that in \<open>simp add: TrailingZeros64_def\<close>)
    moreover have "takeWhile (\<lambda>i. \<not> bit w i) [0..<64] ! i \<in> set (takeWhile (\<lambda>i. \<not> bit w i) [0..<64])"
      by (rule nth_mem) (use that in \<open>simp add: TrailingZeros64_def\<close>)
    ultimately show ?thesis using that le by (auto dest: set_takeWhileD)
  qed
  then have "?k \<le> j" using j by (meson not_le)
  then show k: "?k < 64" using j(2) by simp
  have "\<not> \<not> bit w ([0..<64] ! ?k)"
    unfolding TrailingZeros64_def by (rule nth_length_takeWhile) (use k in \<open>simp add: TrailingZeros64_def\<close>)
  then show "bit w ?k" using k by simp
qed

lemma bit_clear_lowest:
  assumes "w \<noteq> 0"
  shows "bit (w AND (w - 1)) i \<longleftrightarrow> bit w i \<and> i \<noteq> TrailingZeros64 w"
proof -
  let ?k = "TrailingZeros64 w" and ?r = "w AND NOT (mask (Suc (TrailingZeros64 w)))"
  note low = lowest_bit [OF assms]
  have "w = ?r OR push_bit ?k 1"
  proof (rule bit_word_eqI)
    fix n assume "n < LENGTH(64)"
    consider "n < ?k" | "n = ?k" | "?k < n" by linarith
    then show "bit w n = bit (?r OR push_bit ?k 1) n"
    proof cases
      case 3
      then show ?thesis
        using \<open>n < LENGTH(64)\<close> by (simp add: bit_and_iff bit_or_iff bit_not_iff bit_mask_iff bit_exp_iff)
    qed (use low in \<open>simp_all add: bit_and_iff bit_or_iff bit_not_iff bit_mask_iff bit_exp_iff\<close>)
  qed
  also have "\<dots> = ?r + push_bit ?k 1"
    by (rule disjunctive_add_eq_or [symmetric], rule bit_word_eqI)
      (auto simp: bit_and_iff bit_not_iff bit_mask_iff bit_exp_iff)
  finally have "w - 1 = ?r + mask ?k" by (simp add: mask_eq_exp_minus_1 push_bit_eq_mult algebra_simps)
  also have "\<dots> = ?r OR mask ?k"
    by (rule disjunctive_add_eq_or) (auto simp: bit_eq_iff bit_simps)
  finally have "w - 1 = ?r OR mask ?k" .
  then show ?thesis using low by (cases "i < ?k"; cases "i = ?k") (auto simp: bit_simps less_Suc_eq dest: bit_imp_le_length)
qed

lemma wordBits_filter: "wordBits w = filter (bit w) [0..<64]"
proof (induction w rule: wordBits.induct)
  case (1 w)
  show ?case
  proof (cases "w = 0")
    case True
    then show ?thesis by (simp add: wordBits.simps [of 0])
  next
    case False
    let ?k = "TrailingZeros64 w"
    note low = lowest_bit [OF False]
    have parts: "[0..<64] = [0..<?k] @ ?k # [Suc ?k..<64]"
      using low(1) by (metis less_imp_le_nat upt_add_eq_append le_add_diff_inverse upt_conv_Cons zero_le)
    have none: "filter (bit w) [0..<?k] = []" "filter (bit (w AND (w - 1))) [0..<?k] = []"
      using low(3) by (auto simp: filter_empty_conv bit_simps)
    have above: "filter (bit (w AND (w - 1))) [Suc ?k..<64] = filter (bit w) [Suc ?k..<64]"
      by (rule filter_cong) (auto simp: bit_clear_lowest [OF False])
    have "wordBits w = ?k # filter (bit (w AND (w - 1))) [0..<64]"
      using 1 False by (simp add: wordBits.simps [of w])
    also have "\<dots> = ?k # filter (bit w) [Suc ?k..<64]"
      unfolding parts by (simp add: none above bit_clear_lowest [OF False])
    also have "\<dots> = filter (bit w) [0..<64]" unfolding parts by (simp add: none low(2))
    finally show ?thesis .
  qed
qed

definition slotSet :: "u64 list \<Rightarrow> nat \<Rightarrow> bool" where
  "slotSet bm s \<longleftrightarrow> bit (bm ! (s div 64)) (s mod 64)"

lemma wordSlots_from:
  "wordSlots i bm = filter (\<lambda>s. bit (bm ! (s div 64 - i)) (s mod 64)) [64 * i ..< 64 * (i + length bm)]"
proof (induction bm arbitrary: i)
  case (Cons w ws)
  let ?P = "\<lambda>s. bit ((w # ws) ! (s div 64 - i)) (s mod 64)"
  have parts: "[64 * i ..< 64 * (i + length (w # ws))] = [64 * i ..< 64 * i + 64] @ [64 * (i + 1) ..< 64 * (i + 1 + length ws)]"
  proof -
    have e: "64 * (i + length (w # ws)) = 64 * i + 64 + 64 * length ws" "64 * (i + 1) = 64 * i + 64"
      "64 * (i + 1 + length ws) = 64 * i + 64 + 64 * length ws" by simp_all
    show ?thesis unfolding e by (rule upt_add_eq_append) simp
  qed
  have "filter ?P [64 * i ..< 64 * i + 64] = map (\<lambda>b. i * 64 + b) (filter (bit w) [0..<64])"
  proof -
    have "[64 * i ..< 64 * i + 64] = map (\<lambda>b. i * 64 + b) [0..<64]"
      using map_add_upt [of "i * 64" 64] by (simp add: mult.commute add.commute)
    then show ?thesis by (auto simp: filter_map comp_def intro!: filter_cong)
  qed
  moreover have "filter ?P [64 * (i + 1) ..< 64 * (i + 1 + length ws)] = wordSlots (i + 1) ws"
    unfolding Cons.IH
  proof (rule filter_cong [OF refl])
    fix s assume "s \<in> set [64 * (i + 1) ..< 64 * (i + 1 + length ws)]"
    then have "s div 64 - i = Suc (s div 64 - (i + 1))" by auto
    then show "?P s = bit (ws ! (s div 64 - (i + 1))) (s mod 64)" by simp
  qed
  ultimately show ?case unfolding parts by (simp add: wordBits_filter)
qed simp

lemma wordSlots_filter: "wordSlots 0 bm = filter (slotSet bm) [0 ..< 64 * length bm]"
  using wordSlots_from [of 0 bm] unfolding slotSet_def [abs_def] by simp

lemma length_setSlot [simp]: "length (setSlot s bm) = length bm"
  by (simp add: setSlot_def)

lemma slotSet_setSlot:
  assumes "s < 64 * length bm"
  shows "slotSet (setSlot s bm) t \<longleftrightarrow> t = s \<or> slotSet bm t"
proof -
  have len: "s div 64 < length bm" using assms by auto
  have eq: "t = s \<longleftrightarrow> t div 64 = s div 64 \<and> t mod 64 = s mod 64" by (metis div_mult_mod_eq)
  have one: "bit (x OR push_bit k 1) j \<longleftrightarrow> bit x j \<or> j = k" if "j < 64" for x :: u64 and j k
    using that by (auto simp: bit_or_iff bit_exp_iff)
  have j: "t mod 64 < 64" by simp
  show ?thesis
  proof (cases "t div 64 = s div 64")
    case True
    then have "slotSet (setSlot s bm) t \<longleftrightarrow> bit (bm ! (s div 64) OR push_bit (s mod 64) 1) (t mod 64)"
      using len by (simp add: slotSet_def setSlot_def)
    then show ?thesis unfolding one [OF j] using True eq by (auto simp: slotSet_def)
  next
    case False
    then show ?thesis using eq by (simp add: slotSet_def setSlot_def)
  qed
qed

lemma fold_setSlot:
  assumes "\<forall>s \<in> set hits. s < 64 * length bm"
  shows "length (fold setSlot hits bm) = length bm \<and>
     (\<forall>t. slotSet (fold setSlot hits bm) t \<longleftrightarrow> t \<in> set hits \<or> slotSet bm t)"
  using assms
proof (induction hits arbitrary: bm)
  case (Cons s hits)
  have "slotSet (setSlot s bm) t \<longleftrightarrow> t = s \<or> slotSet bm t" for t by (rule slotSet_setSlot) (use Cons.prems in simp)
  then show ?case using Cons.IH [of "setSlot s bm"] Cons.prems by auto
qed simp

lemma wordSlots_fold:
  assumes "sorted_wrt (<) hits" "\<forall>s \<in> set hits. s < 64 * n"
  shows "wordSlots 0 (fold setSlot hits (replicate n 0)) = hits"
proof -
  let ?bm = "fold setSlot hits (replicate n (0 :: u64))"
  have f: "length ?bm = n" "slotSet ?bm t \<longleftrightarrow> t \<in> set hits" if "t < 64 * n" for t
    using fold_setSlot [of hits "replicate n 0"] assms(2) that by (auto simp: slotSet_def)
  have len: "length ?bm = n" using fold_setSlot [of hits "replicate n 0"] assms(2) by simp
  have "sorted_wrt (<) (filter (slotSet ?bm) [0..<64 * n])" by (simp add: sorted_wrt_filter)
  moreover have "set (filter (slotSet ?bm) [0..<64 * n]) = set hits" using f(2) assms(2) by auto
  ultimately show ?thesis
    unfolding wordSlots_filter len using assms(1) by (metis strict_sorted_equal)
qed

subsection \<open>Starting and refining a scan\<close>

record ScanRequest =
  sq_Type :: ValueType
  sq_Comparison :: Comparison
  sq_Value :: "Value option"
  sq_Alignment :: u32
  sq_Regions :: "name list"

record NextScanRequest =
  nq_Comparison :: Comparison
  nq_Value :: "Value option"

record Match =
  mt_Address :: u32
  mt_Region :: name
  mt_Value :: Value

record ScanSummary =
  sum_Type :: ValueType
  sum_Total :: nat

record ScanPage =
  pg_Summary :: ScanSummary
  pg_Offset :: int
  pg_Matches :: "Match list"

definition MaxScanPageSize :: int where "MaxScanPageSize = 256"

fun findName :: "name \<Rightarrow> nat \<Rightarrow> Region list \<Rightarrow> nat option" where
  "findName n i [] = None"
| "findName n i (r # rs) = (if rgn_Name r = n then Some i else findName n (i + 1) rs)"

fun selectNames :: "Region list \<Rightarrow> name list \<Rightarrow> name list \<Rightarrow> nat list \<Rightarrow> 'e cheatError + nat list" where
  "selectNames rs [] seen selected = Inr selected"
| "selectNames rs (n # names) seen selected =
     (if n \<in> set seen then selectNames rs names seen selected
      else case findName n 0 rs of
        None \<Rightarrow> Inl ErrInvalid
      | Some i \<Rightarrow> selectNames rs names (n # seen) (selected @ [i]))"

definition selectScanRegionsLocked :: "name list \<Rightarrow> ('m, 'e) Engine \<Rightarrow> 'e cheatError + nat list" where
  "selectScanRegionsLocked names e =
     (let rs = eng_regions e in
      if names = [] then
        let selected = filter (\<lambda>i. rgn_Scannable (rs ! i)) [0..<length rs]
        in if selected = [] then Inl ErrInvalid else Inr selected
      else selectNames rs names [] [])"

fun withinLimit :: "u64 \<Rightarrow> Region list \<Rightarrow> nat list \<Rightarrow> u64 \<Rightarrow> bool" where
  "withinLimit limit rs [] used = True"
| "withinLimit limit rs (i # is) used =
     (let used = used + ucast (rgn_Size (rs ! i)) in if limit < used then False else withinLimit limit rs is used)"

fun readRegions ::
    "nat list \<Rightarrow> (nat \<rightharpoonup> u8 list) \<Rightarrow> ('m, 'e) Engine \<Rightarrow> 'm \<Rightarrow> ('e cheatError + (nat \<rightharpoonup> u8 list)) \<times> 'm" where
  "readRegions [] out e m = (Inr out, m)"
| "readRegions (i # is) out e m =
     (let region = eng_regions e ! i in
      case readMem (rgn_Start region) (unat (rgn_Size region)) e m of
        (Inl x, m) \<Rightarrow> (Inl x, m)
      | (Inr data, m) \<Rightarrow> readRegions is (out(i \<mapsto> data)) e m)"

definition readScanRegionsLocked ::
    "nat list \<Rightarrow> ('m, 'e) Engine \<Rightarrow> 'm \<Rightarrow> ('e cheatError + (nat \<rightharpoonup> u8 list)) \<times> 'm" where
  "readScanRegionsLocked indexes e m =
     (if \<not> withinLimit (eng_maxScanBytes e) (eng_regions e) indexes 0 then (Inl ErrScanLimitExceeded, m)
      else readRegions indexes Map.empty e m)"

text \<open>The loop over candidate slots: the new found and the bitmap of the slots that match.\<close>

fun markSlots ::
    "(nat \<Rightarrow> 'e cheatError + bool) \<Rightarrow> int \<Rightarrow> nat list \<Rightarrow> nat \<Rightarrow> u64 list \<Rightarrow> 'e cheatError + nat \<times> u64 list" where
  "markSlots f limit [] found bm = Inr (found, bm)"
| "markSlots f limit (slot # slots) found bm =
     (case f slot of
        Inl x \<Rightarrow> Inl x
      | Inr matched \<Rightarrow>
          if matched then
            (if 0 < limit \<and> limit < int (found + 1) then Inl ErrTooManyResults
             else markSlots f limit slots (found + 1) (setSlot slot bm))
          else markSlots f limit slots found bm)"

definition firstOffset :: "u32 \<Rightarrow> u32 \<Rightarrow> nat" where
  "firstOffset start alignment =
     (let remainder = start mod alignment in if remainder \<noteq> 0 then unat (alignment - remainder) else 0)"

definition slotCount :: "nat \<Rightarrow> nat \<Rightarrow> nat \<Rightarrow> nat \<Rightarrow> nat" where
  "slotCount len first sz alignment = (if first + sz \<le> len then (len - first - sz) div alignment + 1 else 0)"

text \<open>What the loops do for one slot: decode the bytes and compare them.\<close>

definition initialSlot ::
    "ScanRequest \<Rightarrow> Value option \<Rightarrow> Endian \<Rightarrow> u8 list \<Rightarrow> nat \<Rightarrow> 'e cheatError + bool" where
  "initialSlot req target order data off =
     (case Value_Decode (sq_Type req) (slice data off (ValueType_Size (sq_Type req))) order of
        Inl x \<Rightarrow> Inl x
      | Inr current \<Rightarrow> initialMatch (sq_Comparison req) current target)"

definition nextSlot ::
    "ValueType \<Rightarrow> Comparison \<Rightarrow> Value option \<Rightarrow> Endian \<Rightarrow> u8 list \<Rightarrow> u8 list \<Rightarrow> nat \<Rightarrow> 'e cheatError + bool" where
  "nextSlot valueType comparison target order data previous off =
     (let sz = ValueType_Size valueType; raw = slice data off sz; before = slice previous off sz in
      case Value_Decode valueType raw order of
        Inl x \<Rightarrow> Inl x
      | Inr current \<Rightarrow>
          (case Value_Decode valueType before order of
             Inl x \<Rightarrow> Inl x
           | Inr prior \<Rightarrow> nextMatch comparison current prior target (raw = before)))"

fun startRegions ::
    "ScanRequest \<Rightarrow> Value option \<Rightarrow> u32 \<Rightarrow> int \<Rightarrow> Endian \<Rightarrow> Region list \<Rightarrow> (nat \<rightharpoonup> u8 list) \<Rightarrow> nat list \<Rightarrow>
     nat \<Rightarrow> scanRegion list \<Rightarrow> 'e cheatError + nat \<times> scanRegion list" where
  "startRegions req target alignment limit order rs snapshots [] found parts = Inr (found, parts)"
| "startRegions req target alignment limit order rs snapshots (i # is) found parts =
     (let data = the (snapshots i);
          first = firstOffset (rgn_Start (rs ! i)) alignment;
          slots = slotCount (length data) first (ValueType_Size (sq_Type req)) (unat alignment)
      in
      case markSlots (\<lambda>slot. initialSlot req target order data (first + slot * unat alignment)) limit
             [0..<slots] found (replicate ((slots + 63) div 64) 0) of
        Inl x \<Rightarrow> Inl x
      | Inr (found', bm) \<Rightarrow>
          let part = \<lparr>sr_index = i, sr_first = first, sr_slots = slots, sr_bitmap = bm, sr_previous = data\<rparr> in
          startRegions req target alignment limit order rs snapshots is found'
            (if found < found' then parts @ [part] else parts))"

definition startScanLocked ::
    "ScanRequest \<Rightarrow> int \<Rightarrow> ('m, 'e) Engine \<Rightarrow> 'm \<Rightarrow> ('e cheatError + unit) \<times> ('m, 'e) cheatState" where
  "startScanLocked req resultLimit e m =
     (if \<not> ValueType_Valid (sq_Type req) then (Inl ErrInvalid, e, m)
      else if \<not> Comparison_Valid (sq_Comparison req) \<or> needsPrevious (sq_Comparison req) then (Inl ErrInvalid, e, m)
      else case validateScanTarget (sq_Type req) (sq_Comparison req) (sq_Value req) of
        Inl x \<Rightarrow> (Inl x, e, m)
      | Inr target \<Rightarrow>
          let alignment = (if sq_Alignment req = 0 then of_nat (ValueType_Size (sq_Type req)) else sq_Alignment req) in
          (case selectScanRegionsLocked (sq_Regions req) e of
             Inl x \<Rightarrow> (Inl x, e, m)
           | Inr indexes \<Rightarrow>
               (case readScanRegionsLocked indexes e m of
                  (Inl x, m) \<Rightarrow> (Inl x, e, m)
                | (Inr snapshots, m) \<Rightarrow>
                    (case startRegions req target alignment resultLimit (eng_byteOrder e) (eng_regions e) snapshots indexes 0 [] of
                       Inl x \<Rightarrow> (Inl x, e, m)
                     | Inr (found, parts) \<Rightarrow>
                         (Inr (), e\<lparr>eng_scan := Some \<lparr>ss_valueType = sq_Type req, ss_alignment = alignment,
                            ss_regions = parts, ss_count = found\<rparr>\<rparr>, m)))))"

fun refineRegions ::
    "ValueType \<Rightarrow> u32 \<Rightarrow> Comparison \<Rightarrow> Value option \<Rightarrow> Endian \<Rightarrow> (nat \<rightharpoonup> u8 list) \<Rightarrow> scanRegion list \<Rightarrow>
     nat \<Rightarrow> scanRegion list \<Rightarrow> 'e cheatError + nat \<times> scanRegion list" where
  "refineRegions valueType alignment comparison target order snapshots [] found parts = Inr (found, parts)"
| "refineRegions valueType alignment comparison target order snapshots (old # rest) found parts =
     (let data = the (snapshots (sr_index old)) in
      case markSlots (\<lambda>slot. nextSlot valueType comparison target order data (sr_previous old)
                               (sr_first old + slot * unat alignment)) 0
             (wordSlots 0 (sr_bitmap old)) found (replicate (length (sr_bitmap old)) 0) of
        Inl x \<Rightarrow> Inl x
      | Inr (found', bm) \<Rightarrow>
          let part = old\<lparr>sr_bitmap := bm, sr_previous := data\<rparr> in
          refineRegions valueType alignment comparison target order snapshots rest found'
            (if found < found' then parts @ [part] else parts))"

definition refineScanLocked ::
    "NextScanRequest \<Rightarrow> ('m, 'e) Engine \<Rightarrow> 'm \<Rightarrow> ('e cheatError + unit) \<times> ('m, 'e) cheatState" where
  "refineScanLocked req e m =
     (case eng_scan e of
        None \<Rightarrow> (Inl ErrScanNotStarted, e, m)
      | Some st \<Rightarrow>
          if \<not> Comparison_Valid (nq_Comparison req) \<or> nq_Comparison req = CompareUnknown then (Inl ErrInvalid, e, m)
          else case validateScanTarget (ss_valueType st) (nq_Comparison req) (nq_Value req) of
            Inl x \<Rightarrow> (Inl x, e, m)
          | Inr target \<Rightarrow>
              if ss_count st = 0 then (Inr (), e, m)
              else case readScanRegionsLocked (map sr_index (ss_regions st)) e m of
                (Inl x, m) \<Rightarrow> (Inl x, e, m)
              | (Inr snapshots, m) \<Rightarrow>
                  (case refineRegions (ss_valueType st) (ss_alignment st) (nq_Comparison req) target (eng_byteOrder e)
                          snapshots (ss_regions st) 0 [] of
                     Inl x \<Rightarrow> (Inl x, e, m)
                   | Inr (found, parts) \<Rightarrow>
                       (Inr (), e\<lparr>eng_scan := Some (st\<lparr>ss_regions := parts, ss_count := found\<rparr>)\<rparr>, m)))"

subsection \<open>Results\<close>

text \<open>One candidate of a word: skipped, or read and appended; \<open>True\<close> is the return at the limit.\<close>

fun emitBits ::
    "(nat \<Rightarrow> 'm \<Rightarrow> ('e cheatError + Match) \<times> 'm) \<Rightarrow> nat \<Rightarrow> nat list \<Rightarrow> nat \<Rightarrow> Match list \<Rightarrow> 'm \<Rightarrow>
     ('e cheatError + bool \<times> nat \<times> Match list) \<times> 'm" where
  "emitBits f limit [] skip out m = (Inr (False, skip, out), m)"
| "emitBits f limit (b # bs) skip out m =
     (if length out = limit then (Inr (True, skip, out), m)
      else if 0 < skip then emitBits f limit bs (skip - 1) out m
      else case f b m of
        (Inl x, m) \<Rightarrow> (Inl x, m)
      | (Inr r, m) \<Rightarrow> emitBits f limit bs skip (out @ [r]) m)"

fun emitWords ::
    "(nat \<Rightarrow> 'm \<Rightarrow> ('e cheatError + Match) \<times> 'm) \<Rightarrow> nat \<Rightarrow> nat \<Rightarrow> u64 list \<Rightarrow> nat \<Rightarrow> Match list \<Rightarrow> 'm \<Rightarrow>
     ('e cheatError + bool \<times> nat \<times> Match list) \<times> 'm" where
  "emitWords f limit i [] skip out m = (Inr (False, skip, out), m)"
| "emitWords f limit i (w # ws) skip out m =
     (if OnesCount64 w \<le> skip then emitWords f limit (i + 1) ws (skip - OnesCount64 w) out m
      else case emitBits (\<lambda>b. f (i * 64 + b)) limit (wordBits w) skip out m of
        (Inr (False, skip, out), m) \<Rightarrow> emitWords f limit (i + 1) ws skip out m
      | r \<Rightarrow> r)"

definition matchAt ::
    "bool \<Rightarrow> scanState \<Rightarrow> scanRegion \<Rightarrow> ('m, 'e) Engine \<Rightarrow> nat \<Rightarrow> 'm \<Rightarrow> ('e cheatError + Match) \<times> 'm" where
  "matchAt fresh st part e slot m =
     (let region = eng_regions e ! sr_index part;
          sz = ValueType_Size (ss_valueType st);
          position = sr_first part + slot * unat (ss_alignment st);
          address = rgn_Start region + of_nat position
      in
      case (if fresh then readMem address sz e m else (Inr (slice (sr_previous part) position sz), m)) of
        (Inl x, m) \<Rightarrow> (Inl x, m)
      | (Inr raw, m) \<Rightarrow>
          (case Value_Decode (ss_valueType st) raw (eng_byteOrder e) of
             Inl x \<Rightarrow> (Inl x, m)
           | Inr v \<Rightarrow> (Inr \<lparr>mt_Address = address, mt_Region = rgn_Name region, mt_Value = v\<rparr>, m)))"

fun emitRegions ::
    "bool \<Rightarrow> scanState \<Rightarrow> ('m, 'e) Engine \<Rightarrow> nat \<Rightarrow> scanRegion list \<Rightarrow> nat \<Rightarrow> Match list \<Rightarrow> 'm \<Rightarrow>
     ('e cheatError + bool \<times> nat \<times> Match list) \<times> 'm" where
  "emitRegions fresh st e limit [] skip out m = (Inr (False, skip, out), m)"
| "emitRegions fresh st e limit (part # parts) skip out m =
     (case emitWords (matchAt fresh st part e) limit 0 (sr_bitmap part) skip out m of
        (Inr (False, skip, out), m) \<Rightarrow> emitRegions fresh st e limit parts skip out m
      | r \<Rightarrow> r)"

definition scanMatchesLocked ::
    "nat \<Rightarrow> nat \<Rightarrow> bool \<Rightarrow> scanState \<Rightarrow> ('m, 'e) Engine \<Rightarrow> 'm \<Rightarrow> ('e cheatError + Match list) \<times> 'm" where
  "scanMatchesLocked offset limit fresh st e m =
     (if limit = 0 \<or> ss_count st \<le> offset then (Inr [], m)
      else case emitRegions fresh st e limit (ss_regions st) offset [] m of
        (Inl x, m) \<Rightarrow> (Inl x, m)
      | (Inr (_, _, out), m) \<Rightarrow> (Inr out, m))"

definition matchesLocked :: "('m, 'e) Engine \<Rightarrow> 'm \<Rightarrow> ('e cheatError + Match list) \<times> 'm" where
  "matchesLocked e m =
     (case eng_scan e of
        None \<Rightarrow> (Inl ErrScanNotStarted, m)
      | Some st \<Rightarrow>
          if eng_maxResults e < int (ss_count st) then (Inl ErrTooManyResults, m)
          else scanMatchesLocked 0 (ss_count st) False st e m)"

definition summaryLocked :: "scanState \<Rightarrow> ScanSummary" where
  "summaryLocked st = \<lparr>sum_Type = ss_valueType st, sum_Total = ss_count st\<rparr>"

definition Scan :: "ScanRequest \<Rightarrow> ('m, 'e) Engine \<Rightarrow> 'm \<Rightarrow> ('e cheatError + Match list) \<times> ('m, 'e) cheatState" where
  "Scan req e m =
     (case startScanLocked req (eng_maxResults e) e m of
        (Inl x, e, m) \<Rightarrow> (Inl x, e, m)
      | (Inr _, e, m) \<Rightarrow> (let (r, m) = matchesLocked e m in (r, e, m)))"

definition StartScan :: "ScanRequest \<Rightarrow> ('m, 'e) Engine \<Rightarrow> 'm \<Rightarrow> ('e cheatError + ScanSummary) \<times> ('m, 'e) cheatState" where
  "StartScan req e m =
     (case startScanLocked req 0 e m of
        (Inl x, e, m) \<Rightarrow> (Inl x, e, m)
      | (Inr _, e, m) \<Rightarrow> (Inr (summaryLocked (the (eng_scan e))), e, m))"

definition NextScan :: "NextScanRequest \<Rightarrow> ('m, 'e) Engine \<Rightarrow> 'm \<Rightarrow> ('e cheatError + Match list) \<times> ('m, 'e) cheatState" where
  "NextScan req e m =
     (if (case eng_scan e of None \<Rightarrow> False | Some st \<Rightarrow> eng_maxResults e < int (ss_count st)) then (Inl ErrTooManyResults, e, m)
      else case refineScanLocked req e m of
        (Inl x, e, m) \<Rightarrow> (Inl x, e, m)
      | (Inr _, e, m) \<Rightarrow> (let (r, m) = matchesLocked e m in (r, e, m)))"

definition RefineScan :: "NextScanRequest \<Rightarrow> ('m, 'e) Engine \<Rightarrow> 'm \<Rightarrow> ('e cheatError + ScanSummary) \<times> ('m, 'e) cheatState" where
  "RefineScan req e m =
     (case refineScanLocked req e m of
        (Inl x, e, m) \<Rightarrow> (Inl x, e, m)
      | (Inr _, e, m) \<Rightarrow> (Inr (summaryLocked (the (eng_scan e))), e, m))"

definition Engine_ScanSummary :: "('m, 'e) Engine \<Rightarrow> 'e cheatError + ScanSummary" where
  "Engine_ScanSummary e = (case eng_scan e of None \<Rightarrow> Inl ErrScanNotStarted | Some st \<Rightarrow> Inr (summaryLocked st))"

text \<open>The page that accompanies an error has no matches.\<close>

definition Engine_ScanPage ::
    "int \<Rightarrow> int \<Rightarrow> ('m, 'e) Engine \<Rightarrow> 'm \<Rightarrow> ('e cheatError + ScanPage) \<times> 'm" where
  "Engine_ScanPage offset limit e m =
     (case eng_scan e of
        None \<Rightarrow> (Inl ErrScanNotStarted, m)
      | Some st \<Rightarrow>
          if offset < 0 \<or> limit \<le> 0 \<or> MaxScanPageSize < limit then (Inl ErrInvalid, m)
          else case scanMatchesLocked (nat offset) (nat limit) True st e m of
            (Inl x, m) \<Rightarrow> (Inl x, m)
          | (Inr matches, m) \<Rightarrow>
              (Inr \<lparr>pg_Summary = summaryLocked st, pg_Offset = offset, pg_Matches = matches\<rparr>, m))"

definition ResetScan :: "('m, 'e) Engine \<Rightarrow> ('m, 'e) Engine" where
  "ResetScan e = e\<lparr>eng_scan := None\<rparr>"

subsection \<open>Comparisons as an order\<close>

text \<open>
  What the comparisons mean: values of one type are ordered by a key, which a NaN lacks; a NaN
  is unequal to everything.
\<close>

definition scanKey :: "Value \<Rightarrow> int option" where
  "scanKey v =
     (let t = val_Type v in
      if ValueType_floating t then
        (if isNaN t (val_Bits v) then None else Some (floatKey (floatBits t (val_Bits v))))
      else if ValueType_signed t then Some (signedValue v)
      else Some (uint (val_Bits v)))"

definition relates :: "Comparison \<Rightarrow> Value \<Rightarrow> Value \<Rightarrow> bool" where
  "relates c x y =
     (case (scanKey x, scanKey y) of
        (Some a, Some b) \<Rightarrow>
          (case c of CompareEqual \<Rightarrow> a = b | CompareNotEqual \<Rightarrow> a \<noteq> b | CompareGreater \<Rightarrow> b < a | CompareLess \<Rightarrow> a < b | _ \<Rightarrow> False)
      | _ \<Rightarrow> c = CompareNotEqual)"

definition initialHolds :: "Comparison \<Rightarrow> Value option \<Rightarrow> Value \<Rightarrow> bool" where
  "initialHolds c target cur \<longleftrightarrow> c = CompareUnknown \<or> relates c cur (the target)"

definition nextHolds :: "Comparison \<Rightarrow> Value option \<Rightarrow> Value \<Rightarrow> Value \<Rightarrow> bool" where
  "nextHolds c target cur prior \<longleftrightarrow>
     (case c of
        CompareChanged \<Rightarrow> cur \<noteq> prior
      | CompareUnchanged \<Rightarrow> cur = prior
      | CompareIncreased \<Rightarrow> relates CompareGreater cur prior
      | CompareDecreased \<Rightarrow> relates CompareLess cur prior
      | _ \<Rightarrow> relates c cur (the target))"

definition valueOf :: "ValueType \<Rightarrow> Endian \<Rightarrow> u8 list \<Rightarrow> Value" where
  "valueOf t order raw = \<lparr>val_Type = t, val_Bits = leValue (if order = EndianBig then rev raw else raw)\<rparr>"

lemma Decode_valueOf:
  assumes "ValueType_Valid t" "Endian_valid order" "length raw = ValueType_Size t"
  shows "Value_Decode t raw order = Inr (valueOf t order raw)" "value_ok (valueOf t order raw)"
    "val_Type (valueOf t order raw) = t"
proof -
  show d: "Value_Decode t raw order = Inr (valueOf t order raw)" using assms by (simp add: Value_Decode_def valueOf_def)
  show "value_ok (valueOf t order raw)" "val_Type (valueOf t order raw) = t"
    using Decode_total [OF assms, where ?'a = unit] assms by (auto simp: Value_Decode_def valueOf_def)
qed

lemma valueOf_inject:
  assumes "length raw = length raw'" "length raw \<le> 8" "valueOf t order raw = valueOf t order raw'"
  shows "raw = raw'"
proof -
  let ?r = "\<lambda>bs. if order = EndianBig then rev bs else bs"
  have "leValue (?r raw) = leValue (?r raw')" using assms(3) by (simp add: valueOf_def)
  then have "leBytes (length (?r raw)) (leValue (?r raw)) = leBytes (length (?r raw')) (leValue (?r raw'))"
    using assms(1) by simp
  then have "?r raw = ?r raw'" using assms by (simp add: leBytes_leValue split: if_splits)
  then show ?thesis by (auto split: if_splits)
qed

lemma compareOrdered_key:
  assumes "value_ok x" "value_ok y" "val_Type x = val_Type y"
  shows "compareOrdered x y =
     Inr (case (scanKey x, scanKey y) of (Some a, Some b) \<Rightarrow> (compareInt a b, True) | _ \<Rightarrow> (0, False))"
  using assms by (auto simp: compareOrdered_def Validate_ok scanKey_def Let_def)

lemma targetMatch_relates:
  assumes "value_ok x" "value_ok y" "val_Type x = val_Type y" "needsTarget c"
  shows "targetMatch c x y = Inr (relates c x y)"
proof -
  have "c = CompareEqual \<or> c = CompareNotEqual \<or> c = CompareGreater \<or> c = CompareLess"
    using assms(4) by (auto simp: needsTarget_def)
  then show ?thesis
    by (auto simp: targetMatch_def relates_def compareInt_def compareOrdered_key [OF assms(1-3)] split: option.splits)
qed

definition target_ok :: "ValueType \<Rightarrow> Comparison \<Rightarrow> Value option \<Rightarrow> bool" where
  "target_ok t c target \<longleftrightarrow>
     (if needsTarget c then \<exists>v. target = Some v \<and> val_Type v = t \<and> value_ok v else target = None)"

lemma validateScanTarget_ok:
  "validateScanTarget t c target = (if target_ok t c target then Inr target else Inl ErrInvalid)"
  by (cases target) (auto simp: validateScanTarget_def target_ok_def Validate_ok)

lemma initialMatch_holds:
  assumes "value_ok x" "val_Type x = t" "target_ok t c target" "Comparison_Valid c" "\<not> needsPrevious c"
  shows "initialMatch c x target = Inr (initialHolds c target x)"
proof (cases "needsTarget c")
  case True
  then obtain v where v: "target = Some v" "val_Type v = t" "value_ok v" using assms(3) by (auto simp: target_ok_def)
  have "c \<noteq> CompareUnknown" using True by (auto simp: needsTarget_def)
  then show ?thesis
    using True v assms(1,2) by (simp add: initialMatch_def initialHolds_def targetMatch_relates)
next
  case False
  then have "c = CompareUnknown" using assms(4,5) by (cases c) (auto simp: needsTarget_def needsPrevious_def)
  then show ?thesis by (simp add: initialMatch_def initialHolds_def)
qed

lemma nextMatch_holds:
  assumes "value_ok x" "val_Type x = t" "value_ok y" "val_Type y = t" "target_ok t c target"
    and "Comparison_Valid c" "c \<noteq> CompareUnknown"
  shows "nextMatch c x y target (x = y) = Inr (nextHolds c target x y)"
proof (cases "needsTarget c")
  case True
  then obtain v where v: "target = Some v" "val_Type v = t" "value_ok v" using assms(5) by (auto simp: target_ok_def)
  have "nextHolds c target x y = relates c x v"
    using True v(1) by (cases c) (auto simp: needsTarget_def nextHolds_def)
  then show ?thesis using True v assms(1,2) by (simp add: nextMatch_def targetMatch_relates)
next
  case False
  then have "c = CompareChanged \<or> c = CompareUnchanged \<or> c = CompareIncreased \<or> c = CompareDecreased"
    using assms(6,7) by (cases c) (auto simp: needsTarget_def)
  then show ?thesis
    using False assms(1-4)
    by (auto simp: nextMatch_def nextHolds_def relates_def compareInt_def compareOrdered_key split: option.splits)
qed

subsection \<open>The abstract session\<close>

text \<open>
  A session is the list of its candidates: the region, the offset of a position in it and the
  bytes last seen there.
\<close>

type_synonym candidate = "nat \<times> nat \<times> u8 list"

definition spanBytes :: "(nat \<Rightarrow> u8 option) \<Rightarrow> nat \<Rightarrow> nat \<Rightarrow> u8 list" where
  "spanBytes v a n = map (\<lambda>x. the (v x)) [a ..< a + n]"

definition regionAddress :: "Region list \<Rightarrow> nat \<Rightarrow> nat \<Rightarrow> nat" where
  "regionAddress rs i off = unat (rgn_Start (rs ! i)) + off"

definition positions :: "Region \<Rightarrow> nat \<Rightarrow> nat \<Rightarrow> nat list" where
  "positions r al sz = filter (\<lambda>off. al dvd unat (rgn_Start r) + off \<and> off + sz \<le> unat (rgn_Size r)) [0..<unat (rgn_Size r)]"

definition specStart :: "Region list \<Rightarrow> (nat \<Rightarrow> u8 option) \<Rightarrow> nat \<Rightarrow> nat \<Rightarrow> (u8 list \<Rightarrow> bool) \<Rightarrow> nat list \<Rightarrow> candidate list" where
  "specStart rs v al sz P is =
     filter (\<lambda>(_, _, raw). P raw)
       (concat (map (\<lambda>i. map (\<lambda>off. (i, off, spanBytes v (regionAddress rs i off) sz)) (positions (rs ! i) al sz)) is))"

definition specRefine :: "Region list \<Rightarrow> (nat \<Rightarrow> u8 option) \<Rightarrow> nat \<Rightarrow> (u8 list \<Rightarrow> u8 list \<Rightarrow> bool) \<Rightarrow> candidate list \<Rightarrow> candidate list" where
  "specRefine rs v sz P cs =
     map (\<lambda>(i, off, _). (i, off, spanBytes v (regionAddress rs i off) sz))
       (filter (\<lambda>(i, off, old). P (spanBytes v (regionAddress rs i off) sz) old) cs)"

definition partCandidates :: "nat \<Rightarrow> nat \<Rightarrow> scanRegion \<Rightarrow> candidate list" where
  "partCandidates al sz p =
     map (\<lambda>slot. let off = sr_first p + slot * al in (sr_index p, off, slice (sr_previous p) off sz)) (wordSlots 0 (sr_bitmap p))"

definition candidates :: "scanState \<Rightarrow> candidate list" where
  "candidates st = concat (map (partCandidates (unat (ss_alignment st)) (ValueType_Size (ss_valueType st))) (ss_regions st))"

definition part_ok :: "Region list \<Rightarrow> nat \<Rightarrow> nat \<Rightarrow> scanRegion \<Rightarrow> bool" where
  "part_ok rs al sz p \<longleftrightarrow> sr_index p < length rs \<and> length (sr_previous p) = unat (rgn_Size (rs ! sr_index p)) \<and>
     (\<forall>slot \<in> set (wordSlots 0 (sr_bitmap p)). sr_first p + slot * al + sz \<le> unat (rgn_Size (rs ! sr_index p)))"

definition scan_ok :: "Region list \<Rightarrow> scanState \<Rightarrow> bool" where
  "scan_ok rs st \<longleftrightarrow> ValueType_Valid (ss_valueType st) \<and> ss_count st = length (candidates st) \<and>
     (\<forall>p \<in> set (ss_regions st). part_ok rs (unat (ss_alignment st)) (ValueType_Size (ss_valueType st)) p)"

lemma length_spanBytes [simp]: "length (spanBytes v a n) = n"
  by (simp add: spanBytes_def)

lemma slice_spanBytes: "off + n \<le> len \<Longrightarrow> slice (spanBytes v a len) off n = spanBytes v (a + off) n"
  by (rule nth_equalityI) (simp_all add: nth_slice spanBytes_def add.assoc)

lemma view_spanBytes: "map Some bs = map v [a ..< a + n] \<Longrightarrow> bs = spanBytes v a n"
proof -
  assume "map Some bs = map v [a ..< a + n]"
  then have "map the (map Some bs) = map the (map v [a ..< a + n])" by simp
  then show ?thesis by (simp add: spanBytes_def comp_def)
qed

text \<open>The slots the code counts are the aligned positions that fit.\<close>

lemma slots_positions:
  assumes al: "unat al > 0" and sz: "sz > 0"
  shows "map (\<lambda>slot. firstOffset (rgn_Start r) al + slot * unat al)
      [0..<slotCount (unat (rgn_Size r)) (firstOffset (rgn_Start r) al) sz (unat al)] = positions r (unat al) sz"
    (is "?L = ?R")
proof (rule sorted_distinct_set_unique)
  let ?s = "unat (rgn_Start r)" and ?a = "unat al" and ?n = "unat (rgn_Size r)" and ?f = "firstOffset (rgn_Start r) al"
  have al0: "al \<noteq> 0" using al by auto
  have rem: "unat (rgn_Start r mod al) = ?s mod ?a" by (simp add: unat_mod)
  have sub: "unat (al - rgn_Start r mod al) = ?a - ?s mod ?a"
  proof -
    have "rgn_Start r mod al \<le> al" using al unfolding word_le_nat_alt rem by (simp add: less_imp_le)
    then show ?thesis by (simp add: unat_sub rem)
  qed
  have f: "?f = (if ?s mod ?a = 0 then 0 else ?a - ?s mod ?a)"
  proof -
    have "rgn_Start r mod al = 0 \<longleftrightarrow> ?s mod ?a = 0" unfolding rem [symmetric] by (simp only: unsigned_eq_0_iff)
    then show ?thesis unfolding firstOffset_def Let_def sub by (simp only: if_not_P if_P if_cancel split: if_split) simp
  qed
  have least: "?f < ?a" using al by (simp add: f)
  have fdvd: "?a dvd ?s + ?f"
  proof (cases "?s mod ?a = 0")
    case True
    then show ?thesis by (simp add: f dvd_eq_mod_eq_0)
  next
    case False
    have "?f + ?s mod ?a = ?a" using False f mod_less_divisor [OF al, of ?s] by simp
    then have "?s + ?f = (?s div ?a) * ?a + ?a" using div_mult_mod_eq [of ?s ?a] by linarith
    then show ?thesis by simp
  qed
  have dvd: "?a dvd ?s + off \<longleftrightarrow> (\<exists>k. off = ?f + k * ?a)" for off
  proof
    assume d: "?a dvd ?s + off"
    show "\<exists>k. off = ?f + k * ?a"
    proof (cases "?f \<le> off")
      case True
      then have "?a dvd (?s + off) - (?s + ?f)" using d fdvd by (intro dvd_diff_nat)
      then have "?a dvd off - ?f" using True by simp
      then obtain k where "off - ?f = ?a * k" by (auto simp: dvd_def)
      then have "off = ?f + k * ?a" using True by (simp add: mult.commute)
      then show ?thesis ..
    next
      case False
      then have "?a dvd (?s + ?f) - (?s + off)" using d fdvd by (intro dvd_diff_nat)
      then have "?a dvd ?f - off" using False by simp
      then have "?f - off = 0" using least by (meson dvd_imp_le le_less_trans diff_le_self less_le_not_le not_gr_zero)
      then show ?thesis using False by simp
    qed
  next
    assume "\<exists>k. off = ?f + k * ?a"
    then obtain k where "off = ?f + k * ?a" by blast
    then have "?s + off = (?s + ?f) + k * ?a" by simp
    then show "?a dvd ?s + off" using fdvd by (simp only: dvd_add dvd_triv_right)
  qed
  have in_range: "k < slotCount ?n ?f sz ?a \<longleftrightarrow> ?f + k * ?a + sz \<le> ?n" for k
  proof (cases "?f + sz \<le> ?n")
    case True
    have "k < slotCount ?n ?f sz ?a \<longleftrightarrow> k \<le> (?n - ?f - sz) div ?a" using True by (auto simp: slotCount_def)
    also have "\<dots> \<longleftrightarrow> k * ?a \<le> ?n - ?f - sz" by (rule less_eq_div_iff_mult_less_eq [OF al])
    finally show ?thesis using True by auto
  qed (auto simp: slotCount_def)
  show "set ?L = set ?R" using in_range dvd sz by (auto simp: positions_def image_iff)
  show "sorted ?L" using al by (auto simp: sorted_iff_nth_mono)
  show "distinct ?L" using al by (simp add: distinct_map inj_on_def)
  show "sorted ?R" "distinct ?R" by (simp_all add: positions_def sorted_wrt_filter)
qed

subsection \<open>The loops compute the specification\<close>

lemma markSlots_spec:
  assumes "\<And>s. s \<in> set ss \<Longrightarrow> f s = Inr (P s)"
  shows "markSlots f L ss n bm =
    (if filter P ss \<noteq> [] \<and> 0 < L \<and> L < int (n + length (filter P ss)) then Inl ErrTooManyResults
     else Inr (n + length (filter P ss), fold setSlot (filter P ss) bm))"
  using assms
proof (induction ss arbitrary: n bm)
  case (Cons s ss)
  have IH: "markSlots f L ss n bm =
    (if filter P ss \<noteq> [] \<and> 0 < L \<and> L < int (n + length (filter P ss)) then Inl ErrTooManyResults
     else Inr (n + length (filter P ss), fold setSlot (filter P ss) bm))" for n bm
    by (rule Cons.IH) (use Cons.prems in simp)
  have f: "f s = Inr (P s)" using Cons.prems by simp
  show ?case
  proof (cases "P s")
    case True
    then show ?thesis using f IH [of "n + 1" "setSlot s bm"] by (cases "filter P ss") auto
  next
    case False
    then show ?thesis using f IH [of n bm] by simp
  qed
qed simp

lemma initialSlot_holds:
  assumes "ValueType_Valid (sq_Type q)" "Endian_valid order" "target_ok (sq_Type q) (sq_Comparison q) target"
    "Comparison_Valid (sq_Comparison q)" "\<not> needsPrevious (sq_Comparison q)"
    "off + ValueType_Size (sq_Type q) \<le> length data"
  shows "initialSlot q target order data off =
    Inr (initialHolds (sq_Comparison q) target (valueOf (sq_Type q) order (slice data off (ValueType_Size (sq_Type q)))))"
proof -
  let ?raw = "slice data off (ValueType_Size (sq_Type q))"
  have len: "length ?raw = ValueType_Size (sq_Type q)" using assms(6) by simp
  note d = Decode_valueOf [OF assms(1,2) len]
  show ?thesis
    using initialMatch_holds [OF d(2,3) assms(3,4,5)] by (simp add: initialSlot_def d(1))
qed

lemma nextSlot_holds:
  assumes "ValueType_Valid t" "Endian_valid order" "target_ok t c target" "Comparison_Valid c" "c \<noteq> CompareUnknown"
    "off + ValueType_Size t \<le> length data" "off + ValueType_Size t \<le> length previous"
  shows "nextSlot t c target order data previous off =
    Inr (nextHolds c target (valueOf t order (slice data off (ValueType_Size t))) (valueOf t order (slice previous off (ValueType_Size t))))"
proof -
  let ?new = "slice data off (ValueType_Size t)" and ?old = "slice previous off (ValueType_Size t)"
  have len: "length ?new = ValueType_Size t" "length ?old = ValueType_Size t" using assms(6,7) by simp_all
  have "ValueType_Size t \<le> 8" using size_cases [OF assms(1)] by auto
  then have same: "(?new = ?old) = (valueOf t order ?new = valueOf t order ?old)"
    using valueOf_inject [of ?new ?old t order] len by auto
  note d = Decode_valueOf [OF assms(1,2) len(1)] Decode_valueOf [OF assms(1,2) len(2)]
  show ?thesis
    using nextMatch_holds [OF d(2,3) d(5,6) assms(3,4,5)] by (simp add: nextSlot_def Let_def d(1,4) same)
qed

lemma partCandidates_marked:
  assumes "sorted_wrt (<) slots" "\<forall>s \<in> set slots. s < 64 * n"
  shows "partCandidates al sz \<lparr>sr_index = i, sr_first = first, sr_slots = k, sr_bitmap = fold setSlot slots (replicate n 0), sr_previous = data\<rparr> =
    map (\<lambda>slot. (i, first + slot * al, slice data (first + slot * al) sz)) slots"
  by (simp add: partCandidates_def wordSlots_fold [OF assms] Let_def)

text \<open>One region: the bitmap of the positions that match, and the candidates it stands for.\<close>

lemma mark_region:
  fixes rs v order target q i al
  defines "sz \<equiv> ValueType_Size (sq_Type q)" and "r \<equiv> rs ! i"
  defines "P \<equiv> \<lambda>raw. initialHolds (sq_Comparison q) target (valueOf (sq_Type q) order raw)"
  defines "data \<equiv> spanBytes v (unat (rgn_Start r)) (unat (rgn_Size r))" and "first \<equiv> firstOffset (rgn_Start r) al"
  defines "k \<equiv> slotCount (unat (rgn_Size r)) first sz (unat al)"
  defines "hits \<equiv> filter (\<lambda>slot. P (slice data (first + slot * unat al) sz)) [0..<k]"
  defines "part \<equiv> \<lparr>sr_index = i, sr_first = first, sr_slots = k,
    sr_bitmap = fold setSlot hits (replicate ((k + 63) div 64) 0), sr_previous = data\<rparr>"
  assumes q: "ValueType_Valid (sq_Type q)" "Endian_valid order" "target_ok (sq_Type q) (sq_Comparison q) target"
      "Comparison_Valid (sq_Comparison q)" "\<not> needsPrevious (sq_Comparison q)"
    and al: "0 < unat al" and i: "i < length rs"
  shows "markSlots (\<lambda>slot. initialSlot q target order data (first + slot * unat al)) L [0..<k] n (replicate ((k + 63) div 64) 0) =
      (if hits \<noteq> [] \<and> 0 < L \<and> L < int (n + length hits) then Inl ErrTooManyResults
       else Inr (n + length hits, sr_bitmap part))"
    and "partCandidates (unat al) sz part = specStart rs v (unat al) sz P [i]"
    and "length (specStart rs v (unat al) sz P [i]) = length hits" "specStart rs v (unat al) sz P [i] = [] \<longleftrightarrow> hits = []"
    and "part_ok rs (unat al) sz part"
proof -
  let ?off = "\<lambda>slot. first + slot * unat al"
  have sz: "0 < sz" unfolding sz_def using size_cases [OF q(1)] by auto
  have pos: "map ?off [0..<k] = positions r (unat al) sz" unfolding k_def first_def by (rule slots_positions [OF al sz])
  have fits: "?off slot + sz \<le> unat (rgn_Size r)" if "slot < k" for slot
  proof -
    have "?off slot \<in> set (positions r (unat al) sz)"
      unfolding pos [symmetric] set_map by (rule imageI) (use that in simp)
    then show ?thesis by (simp add: positions_def)
  qed
  have f: "initialSlot q target order data (?off slot) = Inr (P (slice data (?off slot) sz))" if "slot \<in> set [0..<k]" for slot
    unfolding P_def sz_def
    by (rule initialSlot_holds [OF q]) (use that fits in \<open>simp add: sz_def data_def\<close>)
  show "markSlots (\<lambda>slot. initialSlot q target order data (first + slot * unat al)) L [0..<k] n (replicate ((k + 63) div 64) 0) =
      (if hits \<noteq> [] \<and> 0 < L \<and> L < int (n + length hits) then Inl ErrTooManyResults
       else Inr (n + length hits, sr_bitmap part))"
    unfolding hits_def part_def scanRegion.simps by (rule markSlots_spec [OF f])
  have less: "\<forall>s \<in> set hits. s < 64 * ((k + 63) div 64)" unfolding hits_def by auto
  have strict: "sorted_wrt (<) hits" by (simp add: hits_def sorted_wrt_filter)
  have cands: "partCandidates (unat al) sz part = map (\<lambda>slot. (i, ?off slot, slice data (?off slot) sz)) hits"
    unfolding part_def by (rule partCandidates_marked [OF strict less])
  have "specStart rs v (unat al) sz P [i] =
      filter (\<lambda>(_, _, raw). P raw) (map (\<lambda>off. (i, off, spanBytes v (regionAddress rs i off) sz)) (map ?off [0..<k]))"
    by (simp add: specStart_def pos r_def)
  also have "map (\<lambda>off. (i, off, spanBytes v (regionAddress rs i off) sz)) (map ?off [0..<k]) =
      map (\<lambda>slot. (i, ?off slot, slice data (?off slot) sz)) [0..<k]"
    using fits by (auto simp: regionAddress_def slice_spanBytes data_def r_def)
  finally show "partCandidates (unat al) sz part = specStart rs v (unat al) sz P [i]"
    unfolding cands by (simp add: filter_map comp_def hits_def)
  then have same: "specStart rs v (unat al) sz P [i] = map (\<lambda>slot. (i, ?off slot, slice data (?off slot) sz)) hits"
    unfolding cands by simp
  show "length (specStart rs v (unat al) sz P [i]) = length hits" "specStart rs v (unat al) sz P [i] = [] \<longleftrightarrow> hits = []"
    unfolding same by simp_all
  show "part_ok rs (unat al) sz part"
  proof -
    have slots: "wordSlots 0 (sr_bitmap part) = hits" by (simp add: part_def wordSlots_fold [OF strict less])
    show ?thesis unfolding part_ok_def slots using i fits by (simp add: part_def data_def r_def hits_def)
  qed
qed

lemma specStart_Cons: "specStart rs v al sz P (i # is) = specStart rs v al sz P [i] @ specStart rs v al sz P is"
  by (simp add: specStart_def)

text \<open>The outcomes of the loop over the regions, from a count \<open>n\<close> on.\<close>

definition started ::
    "Region list \<Rightarrow> nat \<Rightarrow> nat \<Rightarrow> int \<Rightarrow> nat \<Rightarrow> candidate list \<Rightarrow> scanRegion list \<Rightarrow> 'e cheatError + nat \<times> scanRegion list \<Rightarrow> bool" where
  "started rs al sz L n cs parts res \<longleftrightarrow>
     (\<exists>ps. res = Inr (n + length cs, parts @ ps) \<and> concat (map (partCandidates al sz) ps) = cs \<and>
        (\<forall>p \<in> set ps. part_ok rs al sz p) \<and> (0 < L \<longrightarrow> int n \<le> L \<longrightarrow> int (n + length cs) \<le> L)) \<or>
     0 < L \<and> res = Inl ErrTooManyResults"

lemma started_one:
  assumes "started rs al sz L (n + length hs) cs (if hs \<noteq> [] then parts @ [p] else parts) res"
    and "partCandidates al sz p = hs" "part_ok rs al sz p" "\<not> (hs \<noteq> [] \<and> 0 < L \<and> L < int (n + length hs))"
  shows "started rs al sz L n (hs @ cs) parts res"
  using assms(1) unfolding started_def
proof
  assume "\<exists>ps. res = Inr (n + length hs + length cs, (if hs \<noteq> [] then parts @ [p] else parts) @ ps) \<and>
     concat (map (partCandidates al sz) ps) = cs \<and> (\<forall>p \<in> set ps. part_ok rs al sz p) \<and>
     (0 < L \<longrightarrow> int (n + length hs) \<le> L \<longrightarrow> int (n + length hs + length cs) \<le> L)"
  then obtain ps where ps: "res = Inr (n + length hs + length cs, (if hs \<noteq> [] then parts @ [p] else parts) @ ps)"
    "concat (map (partCandidates al sz) ps) = cs" "\<forall>p \<in> set ps. part_ok rs al sz p"
    "0 < L \<longrightarrow> int (n + length hs) \<le> L \<longrightarrow> int (n + length hs + length cs) \<le> L" by blast
  let ?ps = "if hs \<noteq> [] then p # ps else ps"
  have "res = Inr (n + length (hs @ cs), parts @ ?ps)" using ps(1) by (simp add: add.assoc)
  moreover have "concat (map (partCandidates al sz) ?ps) = hs @ cs" using ps(2) assms(2) by (cases "hs = []") simp_all
  moreover have "\<forall>p \<in> set ?ps. part_ok rs al sz p" using ps(3) assms(3) by simp
  moreover have "0 < L \<longrightarrow> int n \<le> L \<longrightarrow> int (n + length (hs @ cs)) \<le> L"
    using ps(4) assms(4) by (cases "hs = []") (auto simp: add.assoc)
  ultimately show "(\<exists>ps. res = Inr (n + length (hs @ cs), parts @ ps) \<and> concat (map (partCandidates al sz) ps) = hs @ cs \<and>
      (\<forall>p \<in> set ps. part_ok rs al sz p) \<and> (0 < L \<longrightarrow> int n \<le> L \<longrightarrow> int (n + length (hs @ cs)) \<le> L)) \<or>
     0 < L \<and> res = Inl ErrTooManyResults" by blast
qed simp

definition snapshots_of :: "Region list \<Rightarrow> (nat \<Rightarrow> u8 option) \<Rightarrow> (nat \<rightharpoonup> u8 list) \<Rightarrow> nat list \<Rightarrow> bool" where
  "snapshots_of rs v snaps is \<longleftrightarrow>
     (\<forall>i \<in> set is. i < length rs \<and> snaps i = Some (spanBytes v (unat (rgn_Start (rs ! i))) (unat (rgn_Size (rs ! i)))))"

lemma startRegions_spec:
  assumes q: "ValueType_Valid (sq_Type q)" "Endian_valid order" "target_ok (sq_Type q) (sq_Comparison q) target"
      "Comparison_Valid (sq_Comparison q)" "\<not> needsPrevious (sq_Comparison q)"
    and al: "0 < unat al" and snaps: "snapshots_of rs v snaps is"
  shows "started rs (unat al) (ValueType_Size (sq_Type q)) L n
      (specStart rs v (unat al) (ValueType_Size (sq_Type q))
        (\<lambda>raw. initialHolds (sq_Comparison q) target (valueOf (sq_Type q) order raw)) is) parts
      (startRegions q target al L order rs snaps is n parts :: 'e cheatError + nat \<times> scanRegion list)"
  using snaps
proof (induction "is" arbitrary: n parts)
  case Nil
  then show ?case by (simp add: specStart_def started_def)
next
  case (Cons i "is")
  have i: "i < length rs" "snaps i = Some (spanBytes v (unat (rgn_Start (rs ! i))) (unat (rgn_Size (rs ! i))))"
    and tail: "snapshots_of rs v snaps is" using Cons.prems by (auto simp: snapshots_of_def)
  let ?P = "\<lambda>raw. initialHolds (sq_Comparison q) target (valueOf (sq_Type q) order raw)"
  note region = mark_region(1) [OF q al i(1), where v = v and L = L and n = n] mark_region(2-5) [OF q al i(1), where v = v]
  let ?hs = "specStart rs v (unat al) (ValueType_Size (sq_Type q)) ?P [i]"
  obtain part where part: "partCandidates (unat al) (ValueType_Size (sq_Type q)) part = ?hs"
      "part_ok rs (unat al) (ValueType_Size (sq_Type q)) part"
    and step: "(startRegions q target al L order rs snaps (i # is) n parts :: 'e cheatError + nat \<times> scanRegion list) =
      (if ?hs \<noteq> [] \<and> 0 < L \<and> L < int (n + length ?hs) then Inl ErrTooManyResults
       else startRegions q target al L order rs snaps is (n + length ?hs) (if ?hs \<noteq> [] then parts @ [part] else parts))"
    by (rule that [OF region(2) region(5)]) (simp add: i(2) region(1,3,4) Let_def)
  have cons: "specStart rs v (unat al) (ValueType_Size (sq_Type q)) ?P (i # is) =
      ?hs @ specStart rs v (unat al) (ValueType_Size (sq_Type q)) ?P is" by (rule specStart_Cons)
  show ?case
  proof (cases "?hs \<noteq> [] \<and> 0 < L \<and> L < int (n + length ?hs)")
    case True
    then show ?thesis unfolding cons step by (simp add: started_def)
  next
    case False
    show ?thesis unfolding cons step if_not_P [OF False] by (rule started_one [OF Cons.IH [OF tail] part False])
  qed
qed

lemma refine_region:
  fixes rs v order target t c al old
  defines "sz \<equiv> ValueType_Size t" and "r \<equiv> rs ! sr_index old"
  defines "P \<equiv> \<lambda>raw before. nextHolds c target (valueOf t order raw) (valueOf t order before)"
  defines "data \<equiv> spanBytes v (unat (rgn_Start r)) (unat (rgn_Size r))"
  defines "hits \<equiv> filter (\<lambda>slot. P (slice data (sr_first old + slot * al) sz) (slice (sr_previous old) (sr_first old + slot * al) sz))
    (wordSlots 0 (sr_bitmap old))"
  defines "part \<equiv> old\<lparr>sr_bitmap := fold setSlot hits (replicate (length (sr_bitmap old)) 0), sr_previous := data\<rparr>"
  assumes q: "ValueType_Valid t" "Endian_valid order" "target_ok t c target" "Comparison_Valid c" "c \<noteq> CompareUnknown"
    and old: "part_ok rs al sz old"
  shows "markSlots (\<lambda>slot. nextSlot t c target order data (sr_previous old) (sr_first old + slot * al)) 0
      (wordSlots 0 (sr_bitmap old)) n (replicate (length (sr_bitmap old)) 0) = Inr (n + length hits, sr_bitmap part)"
    and "partCandidates al sz part = specRefine rs v sz P (partCandidates al sz old)"
    and "length (specRefine rs v sz P (partCandidates al sz old)) = length hits"
    and "specRefine rs v sz P (partCandidates al sz old) = [] \<longleftrightarrow> hits = []"
    and "part_ok rs al sz part"
proof -
  let ?off = "\<lambda>slot. sr_first old + slot * al"
  have fits: "?off slot + sz \<le> unat (rgn_Size r)" if "slot \<in> set (wordSlots 0 (sr_bitmap old))" for slot
    using old that by (simp add: part_ok_def r_def)
  have prev: "length (sr_previous old) = unat (rgn_Size r)" using old by (simp add: part_ok_def r_def)
  have f: "nextSlot t c target order data (sr_previous old) (?off slot) =
      Inr (P (slice data (?off slot) sz) (slice (sr_previous old) (?off slot) sz))" if "slot \<in> set (wordSlots 0 (sr_bitmap old))" for slot
    unfolding P_def sz_def
    by (rule nextSlot_holds [OF q]) (use fits [OF that] prev in \<open>simp_all add: sz_def data_def\<close>)
  show "markSlots (\<lambda>slot. nextSlot t c target order data (sr_previous old) (sr_first old + slot * al)) 0
      (wordSlots 0 (sr_bitmap old)) n (replicate (length (sr_bitmap old)) 0) = Inr (n + length hits, sr_bitmap part)"
    unfolding hits_def part_def using markSlots_spec [where L = 0, OF f] by simp
  have less: "\<forall>s \<in> set hits. s < 64 * length (sr_bitmap old)" by (auto simp: hits_def wordSlots_filter)
  have strict: "sorted_wrt (<) hits" by (simp add: hits_def wordSlots_filter sorted_wrt_filter)
  have slots: "wordSlots 0 (sr_bitmap part) = hits" by (simp add: part_def wordSlots_fold [OF strict less])
  have cands: "partCandidates al sz part = map (\<lambda>slot. (sr_index old, ?off slot, slice data (?off slot) sz)) hits"
    unfolding partCandidates_def slots by (simp add: part_def Let_def)
  have here: "spanBytes v (regionAddress rs (sr_index old) (?off slot)) sz = slice data (?off slot) sz"
    if "slot \<in> set (wordSlots 0 (sr_bitmap old))" for slot
    using fits [OF that] by (simp add: data_def slice_spanBytes regionAddress_def r_def)
  have same: "specRefine rs v sz P (partCandidates al sz old) = map (\<lambda>slot. (sr_index old, ?off slot, slice data (?off slot) sz)) hits"
  proof -
    have "filter (\<lambda>x. P (spanBytes v (regionAddress rs (sr_index old) (?off x)) sz) (slice (sr_previous old) (?off x) sz))
        (wordSlots 0 (sr_bitmap old)) = hits"
      unfolding hits_def by (rule filter_cong) (simp_all add: here)
    then have "specRefine rs v sz P (partCandidates al sz old) =
        map (\<lambda>x. (sr_index old, ?off x, spanBytes v (regionAddress rs (sr_index old) (?off x)) sz)) hits"
      by (simp add: specRefine_def partCandidates_def filter_map comp_def Let_def)
    also have "\<dots> = map (\<lambda>slot. (sr_index old, ?off slot, slice data (?off slot) sz)) hits"
      by (rule map_cong) (auto simp: here hits_def)
    finally show ?thesis .
  qed
  show "partCandidates al sz part = specRefine rs v sz P (partCandidates al sz old)" unfolding cands same ..
  show "length (specRefine rs v sz P (partCandidates al sz old)) = length hits"
    "specRefine rs v sz P (partCandidates al sz old) = [] \<longleftrightarrow> hits = []"
    unfolding same by simp_all
  show "part_ok rs al sz part"
    unfolding part_ok_def slots using old fits by (simp add: part_ok_def part_def data_def r_def hits_def)
qed

lemma specRefine_append: "specRefine rs v sz P (xs @ ys) = specRefine rs v sz P xs @ specRefine rs v sz P ys"
  by (simp add: specRefine_def)

lemma refineRegions_spec:
  assumes q: "ValueType_Valid t" "Endian_valid order" "target_ok t c target" "Comparison_Valid c" "c \<noteq> CompareUnknown"
    and olds: "\<forall>p \<in> set olds. part_ok rs (unat al) (ValueType_Size t) p" "snapshots_of rs v snaps (map sr_index olds)"
  shows "started rs (unat al) (ValueType_Size t) 0 n
      (specRefine rs v (ValueType_Size t) (\<lambda>raw before. nextHolds c target (valueOf t order raw) (valueOf t order before))
        (concat (map (partCandidates (unat al) (ValueType_Size t)) olds))) parts
      (refineRegions t al c target order snaps olds n parts :: 'e cheatError + nat \<times> scanRegion list)"
  using olds
proof (induction olds arbitrary: n parts)
  case Nil
  then show ?case by (simp add: specRefine_def started_def)
next
  case (Cons old olds)
  have i: "snaps (sr_index old) = Some (spanBytes v (unat (rgn_Start (rs ! sr_index old))) (unat (rgn_Size (rs ! sr_index old))))"
    and tail: "\<forall>p \<in> set olds. part_ok rs (unat al) (ValueType_Size t) p" "snapshots_of rs v snaps (map sr_index olds)"
    and old: "part_ok rs (unat al) (ValueType_Size t) old" using Cons.prems by (auto simp: snapshots_of_def)
  let ?P = "\<lambda>raw before. nextHolds c target (valueOf t order raw) (valueOf t order before)"
  note region = refine_region(1) [OF q old, where v = v and n = n] refine_region(2-5) [OF q old, where v = v]
  let ?hs = "specRefine rs v (ValueType_Size t) ?P (partCandidates (unat al) (ValueType_Size t) old)"
  obtain part where part: "partCandidates (unat al) (ValueType_Size t) part = ?hs"
      "part_ok rs (unat al) (ValueType_Size t) part"
    and step: "(refineRegions t al c target order snaps (old # olds) n parts :: 'e cheatError + nat \<times> scanRegion list) =
       refineRegions t al c target order snaps olds (n + length ?hs) (if ?hs \<noteq> [] then parts @ [part] else parts)"
    by (rule that [OF region(2) region(5)]) (simp add: i region(1,3,4) Let_def)
  have cons: "specRefine rs v (ValueType_Size t) ?P (concat (map (partCandidates (unat al) (ValueType_Size t)) (old # olds))) =
      ?hs @ specRefine rs v (ValueType_Size t) ?P (concat (map (partCandidates (unat al) (ValueType_Size t)) olds))"
    by (simp add: specRefine_append)
  show ?case unfolding cons step by (rule started_one [OF Cons.IH [OF tail] part]) simp
qed

subsection \<open>Scans over a memory\<close>

definition engine_static :: "('m, 'e) Memory \<Rightarrow> ('m, 'e) Engine \<Rightarrow> bool" where
  "engine_static M e \<longleftrightarrow> eng_memory e = M \<and> Endian_valid (eng_byteOrder e) \<and>
     (\<forall>r \<in> set (eng_regions e). 0 < unat (rgn_Size r) \<and> unat (rgn_Start r) + unat (rgn_Size r) \<le> 2 ^ 32)"

lemma selectNames_range:
  "selectNames rs names seen acc = Inr is \<Longrightarrow> \<forall>i \<in> set acc. i < length rs \<Longrightarrow> \<forall>i \<in> set is. i < length rs"
proof (induction rs names seen acc rule: selectNames.induct)
  case (2 rs n names seen acc)
  have bound: "findName n k qs = Some i \<Longrightarrow> i < k + length qs" for k i and qs :: "Region list"
    by (induction n k qs rule: findName.induct) (auto split: if_splits)
  show ?case using 2 bound [of 0 rs] by (force split: if_splits option.splits)
qed simp

lemma select_range: "selectScanRegionsLocked names e = Inr is \<Longrightarrow> \<forall>i \<in> set is. i < length (eng_regions e)"
  using selectNames_range [of "eng_regions e" names "[]" "[]" "is"]
  by (auto simp: selectScanRegionsLocked_def Let_def split: if_splits)

context cheat_memory
begin

definition unchanged :: "'m \<Rightarrow> 'm \<Rightarrow> bool" where
  "unchanged m m' \<longleftrightarrow> ready m' \<and> view m' = view m \<and> prot m' = prot m"

lemma unchanged_refl [simp]: "ready m \<Longrightarrow> unchanged m m"
  by (simp add: unchanged_def)

lemma unchanged_trans: "unchanged m m1 \<Longrightarrow> unchanged m1 m2 \<Longrightarrow> unchanged m m2"
  by (simp add: unchanged_def)

lemma readRegions_spec:
  assumes "ready m" "eng_memory e = M" "readRegions is out e m = (res, m')" "\<forall>i \<in> set is. i < length (eng_regions e)"
    "snapshots_of (eng_regions e) (view m) out done"
  shows "unchanged m m' \<and> (\<forall>snaps. res = Inr snaps \<longrightarrow> snapshots_of (eng_regions e) (view m) snaps (done @ is))"
  using assms
proof (induction "is" out e m arbitrary: "done" rule: readRegions.induct)
  case (1 out e m)
  then show ?case by auto
next
  case (2 i "is" out e m)
  let ?r = "eng_regions e ! i"
  show ?case
  proof (cases "readMem (rgn_Start ?r) (unat (rgn_Size ?r)) e m")
    case (Pair x m1)
    have same: "unchanged m m1" using readMem_keeps [OF 2(2,3) Pair] by (simp add: unchanged_def)
    show ?thesis
    proof (cases x)
      case (Inl err)
      then show ?thesis using 2(4) Pair same by (auto simp: Let_def)
    next
      case (Inr data)
      have data: "data = spanBytes (view m) (unat (rgn_Start ?r)) (unat (rgn_Size ?r))"
        using readMem_value [OF 2(2,3)] Pair Inr view_spanBytes by blast
      have snaps: "snapshots_of (eng_regions e) (view m1) (out(i \<mapsto> data)) (done @ [i])"
        using 2(5,6) same data by (auto simp: snapshots_of_def unchanged_def)
      have "readRegions is (out(i \<mapsto> data)) e m1 = (res, m')" using 2(4) Pair Inr by (simp add: Let_def)
      from 2(1) [OF refl Pair [symmetric] Inr _ 2(3) this _ snaps] 2(5) same show ?thesis
        by (auto simp: unchanged_def)
    qed
  qed
qed

lemma readScanRegionsLocked_spec:
  assumes "ready m" "eng_memory e = M" "readScanRegionsLocked is e m = (res, m')" "\<forall>i \<in> set is. i < length (eng_regions e)"
  shows "unchanged m m' \<and> (\<forall>snaps. res = Inr snaps \<longrightarrow> snapshots_of (eng_regions e) (view m) snaps is)"
  using readRegions_spec [OF assms(1,2) _ assms(4), of Map.empty res m' "[]"] assms(1,3)
  by (auto simp: readScanRegionsLocked_def snapshots_of_def split: if_splits)

end

definition scanAlignment :: "ScanRequest \<Rightarrow> u32" where
  "scanAlignment q = (if sq_Alignment q = 0 then of_nat (ValueType_Size (sq_Type q)) else sq_Alignment q)"

lemma scanAlignment_pos: "ValueType_Valid (sq_Type q) \<Longrightarrow> 0 < unat (scanAlignment q)"
  using size_cases [of "sq_Type q"] by (auto simp: scanAlignment_def unat_gt_0)

definition foundBy :: "ScanRequest \<Rightarrow> (nat \<Rightarrow> u8 option) \<Rightarrow> ('m, 'e) Engine \<Rightarrow> nat list \<Rightarrow> candidate list" where
  "foundBy q v e is = specStart (eng_regions e) v (unat (scanAlignment q)) (ValueType_Size (sq_Type q))
     (\<lambda>raw. initialHolds (sq_Comparison q) (sq_Value q) (valueOf (sq_Type q) (eng_byteOrder e) raw)) is"

definition keptBy :: "NextScanRequest \<Rightarrow> (nat \<Rightarrow> u8 option) \<Rightarrow> ('m, 'e) Engine \<Rightarrow> scanState \<Rightarrow> candidate list" where
  "keptBy q v e st = specRefine (eng_regions e) v (ValueType_Size (ss_valueType st))
     (\<lambda>raw before. nextHolds (nq_Comparison q) (nq_Value q) (valueOf (ss_valueType st) (eng_byteOrder e) raw)
        (valueOf (ss_valueType st) (eng_byteOrder e) before)) (candidates st)"

context cheat_memory
begin

lemma startScanLocked_spec:
  assumes e: "ready m" "engine_static M e"
  shows "case startScanLocked q L e m of
      (Inl x, e', m') \<Rightarrow> e' = e \<and> unchanged m m'
    | (Inr _, e', m') \<Rightarrow> unchanged m m' \<and> (\<exists>st is. e' = e\<lparr>eng_scan := Some st\<rparr> \<and> scan_ok (eng_regions e) st \<and>
        selectScanRegionsLocked (sq_Regions q) e = Inr is \<and> ss_valueType st = sq_Type q \<and>
        candidates st = foundBy q (view m) e is \<and> (0 < L \<longrightarrow> int (ss_count st) \<le> L))"
proof -
  let ?t = "sq_Type q" and ?c = "sq_Comparison q" and ?al = "scanAlignment q"
  consider (bad) x where "startScanLocked q L e m = (Inl x, e, m)"
    | (go) "is" where "ValueType_Valid ?t" "Comparison_Valid ?c" "\<not> needsPrevious ?c" "target_ok ?t ?c (sq_Value q)"
        "selectScanRegionsLocked (sq_Regions q) e = Inr is"
  proof (cases "ValueType_Valid ?t \<and> Comparison_Valid ?c \<and> \<not> needsPrevious ?c \<and> target_ok ?t ?c (sq_Value q)")
    case True
    then show ?thesis
      using that by (cases "selectScanRegionsLocked (sq_Regions q) e") (simp_all add: startScanLocked_def validateScanTarget_ok Let_def)
  next
    case False
    then have "startScanLocked q L e m = (Inl ErrInvalid, e, m)"
      by (auto simp: startScanLocked_def validateScanTarget_ok)
    then show ?thesis by (rule that(1))
  qed
  then show ?thesis
  proof cases
    case bad
    then show ?thesis using e(1) by simp
  next
    case go
    obtain res m1 where r: "readScanRegionsLocked is e m = (res, m1)" by fastforce
    have mem: "eng_memory e = M" "Endian_valid (eng_byteOrder e)" using e(2) by (simp_all add: engine_static_def)
    note spec = readScanRegionsLocked_spec [OF e(1) mem(1) r select_range [OF go(5)]]
    have expand: "startScanLocked q L e m =
      (case res of Inl x \<Rightarrow> (Inl x, e, m1)
       | Inr snapshots \<Rightarrow>
           (case startRegions q (sq_Value q) ?al L (eng_byteOrder e) (eng_regions e) snapshots is 0 [] of
              Inl x \<Rightarrow> (Inl x, e, m1)
            | Inr (n, parts) \<Rightarrow> (Inr (), e\<lparr>eng_scan := Some \<lparr>ss_valueType = ?t, ss_alignment = ?al,
                ss_regions = parts, ss_count = n\<rparr>\<rparr>, m1)))"
      unfolding startScanLocked_def validateScanTarget_ok using go r
      by (simp add: Let_def scanAlignment_def split: sum.split)
    show ?thesis
    proof (cases res)
      case (Inl x)
      then show ?thesis using spec expand by simp
    next
      case (Inr snaps)
      have "started (eng_regions e) (unat ?al) (ValueType_Size ?t) L 0 (foundBy q (view m) e is) []
          (startRegions q (sq_Value q) ?al L (eng_byteOrder e) (eng_regions e) snaps is 0 [] :: 'e cheatError + nat \<times> scanRegion list)"
        unfolding foundBy_def
        by (rule startRegions_spec [OF go(1) mem(2) go(4,2,3) scanAlignment_pos [OF go(1)]]) (use spec Inr in simp)
      then consider (found) ps where "startRegions q (sq_Value q) ?al L (eng_byteOrder e) (eng_regions e) snaps is 0 [] =
            (Inr (length (foundBy q (view m) e is), ps) :: 'e cheatError + nat \<times> scanRegion list)"
          "concat (map (partCandidates (unat ?al) (ValueType_Size ?t)) ps) = foundBy q (view m) e is"
          "\<forall>p \<in> set ps. part_ok (eng_regions e) (unat ?al) (ValueType_Size ?t) p"
          "0 < L \<longrightarrow> int (length (foundBy q (view m) e is)) \<le> L"
        | (many) "startRegions q (sq_Value q) ?al L (eng_byteOrder e) (eng_regions e) snaps is 0 [] =
            (Inl ErrTooManyResults :: 'e cheatError + nat \<times> scanRegion list)"
        by (auto simp: started_def)
      then show ?thesis
      proof cases
        case found
        let ?st = "\<lparr>ss_valueType = ?t, ss_alignment = ?al, ss_regions = ps, ss_count = length (foundBy q (view m) e is)\<rparr>"
        have "scan_ok (eng_regions e) ?st" "candidates ?st = foundBy q (view m) e is"
          using go(1) found(2,3) by (simp_all add: scan_ok_def candidates_def)
        then show ?thesis using spec Inr expand go(5) found(1,4) by (simp add: exI [of _ ?st])
      next
        case many
        then show ?thesis using spec Inr expand by simp
      qed
    qed
  qed
qed

lemma refineScanLocked_spec:
  assumes e: "ready m" "engine_static M e" "\<forall>st. eng_scan e = Some st \<longrightarrow> scan_ok (eng_regions e) st"
  shows "case refineScanLocked q e m of
      (Inl x, e', m') \<Rightarrow> e' = e \<and> unchanged m m'
    | (Inr _, e', m') \<Rightarrow> unchanged m m' \<and> (\<exists>st st'. eng_scan e = Some st \<and> e' = e\<lparr>eng_scan := Some st'\<rparr> \<and>
        scan_ok (eng_regions e) st' \<and> ss_valueType st' = ss_valueType st \<and> candidates st' = keptBy q (view m) e st)"
proof -
  let ?c = "nq_Comparison q"
  consider (bad) x where "refineScanLocked q e m = (Inl x, e, m)"
    | (go) st where "eng_scan e = Some st" "Comparison_Valid ?c" "?c \<noteq> CompareUnknown"
        "target_ok (ss_valueType st) ?c (nq_Value q)"
    unfolding refineScanLocked_def validateScanTarget_ok by (fastforce simp: Let_def split: option.splits)
  then show ?thesis
  proof cases
    case bad
    then show ?thesis using e(1) by simp
  next
    case go
    have mem: "eng_memory e = M" "Endian_valid (eng_byteOrder e)" using e(2) by (simp_all add: engine_static_def)
    have st: "scan_ok (eng_regions e) st" using e(3) go(1) by simp
    then have t: "ValueType_Valid (ss_valueType st)" and len: "ss_count st = length (candidates st)"
      and parts: "\<forall>p \<in> set (ss_regions st). part_ok (eng_regions e) (unat (ss_alignment st)) (ValueType_Size (ss_valueType st)) p"
      by (simp_all add: scan_ok_def)
    show ?thesis
    proof (cases "ss_count st = 0")
      case True
      have "refineScanLocked q e m = (Inr (), e, m)"
        unfolding refineScanLocked_def validateScanTarget_ok using go True by simp
      moreover have "e = e\<lparr>eng_scan := Some st\<rparr>" using go(1) by simp
      moreover have "candidates st = keptBy q (view m) e st" using True len by (simp add: keptBy_def specRefine_def)
      ultimately show ?thesis using e(1) st go(1) by (simp add: exI [of _ st])
    next
      case False
      let ?is = "map sr_index (ss_regions st)"
      obtain res m1 where r: "readScanRegionsLocked ?is e m = (res, m1)" by fastforce
      have rng: "\<forall>i \<in> set ?is. i < length (eng_regions e)" using parts by (auto simp: part_ok_def)
      note spec = readScanRegionsLocked_spec [OF e(1) mem(1) r rng]
      have expand: "refineScanLocked q e m =
        (case res of Inl x \<Rightarrow> (Inl x, e, m1)
         | Inr snapshots \<Rightarrow>
             (case refineRegions (ss_valueType st) (ss_alignment st) ?c (nq_Value q) (eng_byteOrder e) snapshots (ss_regions st) 0 [] of
                Inl x \<Rightarrow> (Inl x, e, m1)
              | Inr (n, parts) \<Rightarrow> (Inr (), e\<lparr>eng_scan := Some (st\<lparr>ss_regions := parts, ss_count := n\<rparr>)\<rparr>, m1)))"
        unfolding refineScanLocked_def validateScanTarget_ok using go r False by (simp split: sum.split)
      show ?thesis
      proof (cases res)
        case (Inl x)
        then show ?thesis using spec expand by simp
      next
        case (Inr snaps)
        have "started (eng_regions e) (unat (ss_alignment st)) (ValueType_Size (ss_valueType st)) 0 0 (keptBy q (view m) e st) []
            (refineRegions (ss_valueType st) (ss_alignment st) ?c (nq_Value q) (eng_byteOrder e) snaps (ss_regions st) 0 []
              :: 'e cheatError + nat \<times> scanRegion list)"
          unfolding keptBy_def candidates_def
          by (rule refineRegions_spec [OF t mem(2) go(4,2,3) parts]) (use spec Inr in simp)
        then obtain ps where ps: "refineRegions (ss_valueType st) (ss_alignment st) ?c (nq_Value q) (eng_byteOrder e) snaps
              (ss_regions st) 0 [] = (Inr (length (keptBy q (view m) e st), ps) :: 'e cheatError + nat \<times> scanRegion list)"
            "concat (map (partCandidates (unat (ss_alignment st)) (ValueType_Size (ss_valueType st))) ps) = keptBy q (view m) e st"
            "\<forall>p \<in> set ps. part_ok (eng_regions e) (unat (ss_alignment st)) (ValueType_Size (ss_valueType st)) p"
          by (auto simp: started_def)
        let ?st = "st\<lparr>ss_regions := ps, ss_count := length (keptBy q (view m) e st)\<rparr>"
        have "scan_ok (eng_regions e) ?st" "candidates ?st = keptBy q (view m) e st"
          using t ps(2,3) by (simp_all add: scan_ok_def candidates_def)
        then show ?thesis using spec Inr expand go(1) ps(1) by (simp add: exI [of _ ?st])
      qed
    qed
  qed
qed

end

subsection \<open>Paging through the candidates\<close>

text \<open>Running one action per candidate, stopping at the first error.\<close>

fun runAll :: "('m \<Rightarrow> ('x + 'a) \<times> 'm) list \<Rightarrow> 'a list \<Rightarrow> 'm \<Rightarrow> ('x + 'a list) \<times> 'm" where
  "runAll [] out m = (Inr out, m)"
| "runAll (g # gs) out m = (case g m of (Inl x, m) \<Rightarrow> (Inl x, m) | (Inr r, m) \<Rightarrow> runAll gs (out @ [r]) m)"

lemma runAll_append:
  "runAll (gs @ hs) out m = (case runAll gs out m of (Inl x, m) \<Rightarrow> (Inl x, m) | (Inr out, m) \<Rightarrow> runAll hs out m)"
  by (induction gs out m rule: runAll.induct) (auto split: prod.splits sum.splits)

lemma runAll_length: "runAll gs out m = (Inr out', m') \<Longrightarrow> length out' = length out + length gs"
  by (induction gs out m rule: runAll.induct) (auto split: prod.splits sum.splits)

text \<open>
  The result of the paging loops over a list of actions: the first \<open>skip\<close> of them are passed
  over and the following ones run until \<open>limit\<close> results are there.
\<close>

definition emits ::
    "nat \<Rightarrow> nat \<Rightarrow> ('m \<Rightarrow> ('x + 'a) \<times> 'm) list \<Rightarrow> 'a list \<Rightarrow> 'm \<Rightarrow> ('x + bool \<times> nat \<times> 'a list) \<times> 'm \<Rightarrow> bool" where
  "emits limit skip gs out m res \<longleftrightarrow>
     (case runAll (take (limit - length out) (drop skip gs)) out m of
        (Inl x, m') \<Rightarrow> res = (Inl x, m')
      | (Inr out', m') \<Rightarrow>
          (if length gs - skip \<le> limit - length out \<and> res = (Inr (False, skip - length gs, out'), m') then True
           else length out' = limit \<and> (\<exists>k. res = (Inr (True, k, out'), m'))))"

lemma emits_append:
  assumes "length out \<le> limit" and first: "emits limit skip gs out m res1"
    and cont: "\<And>k out' m'. res1 = (Inr (False, k, out'), m') \<Longrightarrow> length out' \<le> limit \<Longrightarrow> emits limit k hs out' m' res2"
    and res: "res = (case res1 of (Inr (False, k, out'), m') \<Rightarrow> res2 | r \<Rightarrow> r)"
  shows "emits limit skip (gs @ hs) out m res"
proof -
  let ?n = "limit - length out"
  have split: "take ?n (drop skip (gs @ hs)) = take ?n (drop skip gs) @ take (?n - (length gs - skip)) (drop (skip - length gs) hs)"
    by simp
  show ?thesis
  proof (cases "runAll (take ?n (drop skip gs)) out m")
    case (Pair x m1)
    show ?thesis
    proof (cases x)
      case (Inl err)
      then have "res1 = (Inl err, m1)" using first Pair by (simp add: emits_def)
      then show ?thesis using Inl Pair res unfolding emits_def split runAll_append by simp
    next
      case (Inr out1)
      have len: "length out1 = length out + min ?n (length gs - skip)"
        using runAll_length [OF Pair [unfolded Inr]] by simp
      show ?thesis
      proof (cases "length gs - skip \<le> ?n \<and> res1 = (Inr (False, skip - length gs, out1), m1)")
        case True
        then have l1: "length out1 = length out + (length gs - skip)" "length out1 \<le> limit" using len assms(1) by auto
        have "emits limit (skip - length gs) hs out1 m1 res2" using cont True l1(2) by blast
        moreover have "?n - (length gs - skip) = limit - length out1" using l1 by simp
        moreover have "res = res2" using res True by simp
        moreover have "length (gs @ hs) - skip \<le> ?n \<longleftrightarrow> length hs - (skip - length gs) \<le> limit - length out1"
          using l1 by auto
        ultimately show ?thesis
          using Inr Pair unfolding emits_def split runAll_append by (simp split: prod.splits sum.splits)
      next
        case False
        then obtain k where k: "length out1 = limit" "res1 = (Inr (True, k, out1), m1)"
          using first Pair Inr by (auto simp: emits_def)
        then have "?n - (length gs - skip) = 0" using len by simp
        then show ?thesis
          using Inr Pair k res unfolding emits_def split runAll_append by simp
      qed
    qed
  qed
qed

lemma emits_one:
  assumes "length out \<le> limit"
  shows "emits limit skip [g] out m
    (if length out = limit then (Inr (True, skip, out), m)
     else if 0 < skip then (Inr (False, skip - 1, out), m)
     else case g m of (Inl x, m) \<Rightarrow> (Inl x, m) | (Inr r, m) \<Rightarrow> (Inr (False, 0, out @ [r]), m))"
  using assms by (cases skip; cases "limit - length out") (auto simp: emits_def split: prod.splits sum.splits)

lemma emits_nil: "length out \<le> limit \<Longrightarrow> emits limit skip [] out m (Inr (False, skip, out), m)"
  by (simp add: emits_def)

lemma emits_skip: "length gs \<le> skip \<Longrightarrow> length out \<le> limit \<Longrightarrow> emits limit skip gs out m (Inr (False, skip - length gs, out), m)"
  by (simp add: emits_def)

lemma emitBits_emits:
  "length out \<le> limit \<Longrightarrow> emits limit skip (map f bs) out m (emitBits f limit bs skip out m)"
proof (induction bs arbitrary: skip out m)
  case Nil
  then show ?case by (simp add: emits_nil)
next
  case (Cons b bs)
  let ?first = "if length out = limit then (Inr (True, skip, out), m)
     else if 0 < skip then (Inr (False, skip - 1, out), m)
     else case f b m of (Inl x, m) \<Rightarrow> (Inl x, m) | (Inr r, m) \<Rightarrow> (Inr (False, 0, out @ [r]), m)"
  let ?rest = "case ?first of (Inr (False, k, out'), m') \<Rightarrow> emitBits f limit bs k out' m' | r \<Rightarrow> r"
  have "emits limit skip ([f b] @ map f bs) out m ?rest"
  proof (rule emits_append [where ?res1.0 = "?first" and ?res2.0 = "?rest"])
    show "length out \<le> limit" by (rule Cons.prems)
    show "emits limit skip [f b] out m ?first" by (rule emits_one [OF Cons.prems])
    fix k out' m' assume "?first = (Inr (False, k, out'), m')" "length out' \<le> limit"
    then show "emits limit k (map f bs) out' m' ?rest" using Cons.IH by simp
  qed (auto split: prod.splits sum.splits bool.splits)
  moreover have "?rest = emitBits f limit (b # bs) skip out m" by (auto split: prod.splits sum.splits)
  ultimately show ?case by simp
qed

lemma length_wordBits: "length (wordBits w) = OnesCount64 w"
  by (simp add: wordBits_filter OnesCount64_def)

lemma emitWords_emits:
  "length out \<le> limit \<Longrightarrow> emits limit skip (map f (wordSlots i ws)) out m (emitWords f limit i ws skip out m)"
proof (induction ws arbitrary: i skip out m)
  case Nil
  then show ?case by (simp add: emits_nil)
next
  case (Cons w ws)
  let ?g = "\<lambda>b. f (i * 64 + b)"
  let ?first = "if OnesCount64 w \<le> skip then (Inr (False, skip - OnesCount64 w, out), m)
     else emitBits ?g limit (wordBits w) skip out m"
  let ?rest = "case ?first of (Inr (False, k, out'), m') \<Rightarrow> emitWords f limit (i + 1) ws k out' m' | r \<Rightarrow> r"
  have "emits limit skip (map ?g (wordBits w) @ map f (wordSlots (i + 1) ws)) out m ?rest"
  proof (rule emits_append [where ?res1.0 = "?first" and ?res2.0 = "?rest"])
    show "length out \<le> limit" by (rule Cons.prems)
    show "emits limit skip (map ?g (wordBits w)) out m ?first"
      using emits_skip [of "map ?g (wordBits w)" skip out limit m] emitBits_emits [OF Cons.prems, where f = ?g] Cons.prems
      by (simp add: length_wordBits)
    fix k out' m' assume "?first = (Inr (False, k, out'), m')" "length out' \<le> limit"
    then show "emits limit k (map f (wordSlots (i + 1) ws)) out' m' ?rest" using Cons.IH by simp
  qed (auto split: prod.splits sum.splits bool.splits)
  moreover have "?rest = emitWords f limit i (w # ws) skip out m" by (auto split: prod.splits sum.splits bool.splits)
  ultimately show ?case by (simp add: comp_def)
qed

definition matchActions ::
    "bool \<Rightarrow> scanState \<Rightarrow> ('m, 'e) Engine \<Rightarrow> scanRegion list \<Rightarrow> ('m \<Rightarrow> ('e cheatError + Match) \<times> 'm) list" where
  "matchActions fresh st e parts = concat (map (\<lambda>p. map (matchAt fresh st p e) (wordSlots 0 (sr_bitmap p))) parts)"

lemma emitRegions_emits:
  "length out \<le> limit \<Longrightarrow> emits limit skip (matchActions fresh st e parts) out m (emitRegions fresh st e limit parts skip out m)"
proof (induction parts arbitrary: skip out m)
  case Nil
  then show ?case by (simp add: emits_nil matchActions_def)
next
  case (Cons p parts)
  let ?first = "emitWords (matchAt fresh st p e) limit 0 (sr_bitmap p) skip out m"
  let ?rest = "case ?first of (Inr (False, k, out'), m') \<Rightarrow> emitRegions fresh st e limit parts k out' m' | r \<Rightarrow> r"
  have "emits limit skip (map (matchAt fresh st p e) (wordSlots 0 (sr_bitmap p)) @ matchActions fresh st e parts) out m ?rest"
  proof (rule emits_append [where ?res1.0 = "?first" and ?res2.0 = "?rest"])
    show "length out \<le> limit" by (rule Cons.prems)
    show "emits limit skip (map (matchAt fresh st p e) (wordSlots 0 (sr_bitmap p))) out m ?first"
      by (rule emitWords_emits [OF Cons.prems])
    fix k out' m' assume "?first = (Inr (False, k, out'), m')" "length out' \<le> limit"
    then show "emits limit k (matchActions fresh st e parts) out' m' ?rest" using Cons.IH by simp
  qed (auto split: prod.splits sum.splits bool.splits)
  then show ?case by (simp add: matchActions_def)
qed

lemma scanMatches_runs:
  assumes "ss_count st = length (matchActions fresh st e (ss_regions st))"
  shows "scanMatchesLocked offset limit fresh st e m =
    runAll (take limit (drop offset (matchActions fresh st e (ss_regions st)))) [] m"
proof (cases "limit = 0 \<or> ss_count st \<le> offset")
  case True
  then show ?thesis using assms by (auto simp: scanMatchesLocked_def)
next
  case False
  then show ?thesis
    using emitRegions_emits [of "[]" limit offset fresh st e "ss_regions st" m]
    by (auto simp: scanMatchesLocked_def emits_def split: prod.splits sum.splits if_splits)
qed

definition matchOf :: "ValueType \<Rightarrow> ('m, 'e) Engine \<Rightarrow> candidate \<Rightarrow> Match" where
  "matchOf t e = (\<lambda>(i, off, raw).
     \<lparr>mt_Address = rgn_Start (eng_regions e ! i) + of_nat off, mt_Region = rgn_Name (eng_regions e ! i),
      mt_Value = valueOf t (eng_byteOrder e) raw\<rparr>)"

definition nowAt :: "(nat \<Rightarrow> u8 option) \<Rightarrow> ValueType \<Rightarrow> ('m, 'e) Engine \<Rightarrow> candidate \<Rightarrow> candidate" where
  "nowAt v t e = (\<lambda>(i, off, _). (i, off, spanBytes v (regionAddress (eng_regions e) i off) (ValueType_Size t)))"

text \<open>The actions by candidate.\<close>

definition actionOf :: "bool \<Rightarrow> ValueType \<Rightarrow> ('m, 'e) Engine \<Rightarrow> candidate \<Rightarrow> 'm \<Rightarrow> ('e cheatError + Match) \<times> 'm" where
  "actionOf fresh t e = (\<lambda>(i, off, old) m.
     case (if fresh then readMem (rgn_Start (eng_regions e ! i) + of_nat off) (ValueType_Size t) e m else (Inr old, m)) of
       (Inl x, m) \<Rightarrow> (Inl x, m)
     | (Inr raw, m) \<Rightarrow>
         (case Value_Decode t raw (eng_byteOrder e) of
            Inl x \<Rightarrow> (Inl x, m)
          | Inr v \<Rightarrow> (Inr \<lparr>mt_Address = rgn_Start (eng_regions e ! i) + of_nat off, mt_Region = rgn_Name (eng_regions e ! i),
              mt_Value = v\<rparr>, m)))"

lemma matchActions_candidates:
  "matchActions fresh st e (ss_regions st) = map (actionOf fresh (ss_valueType st) e) (candidates st)"
proof -
  have "map (matchAt fresh st p e) (wordSlots 0 (sr_bitmap p)) =
    map (actionOf fresh (ss_valueType st) e) (partCandidates (unat (ss_alignment st)) (ValueType_Size (ss_valueType st)) p)" for p
    by (simp add: partCandidates_def matchAt_def [abs_def] actionOf_def Let_def comp_def)
  then show ?thesis by (simp add: matchActions_def candidates_def map_concat comp_def)
qed

lemma runAll_values:
  assumes "\<And>c m. c \<in> set cs \<Longrightarrow> Q m \<Longrightarrow> (case act c m of (Inl x, m') \<Rightarrow> Q m' | (Inr r, m') \<Rightarrow> r = g c \<and> Q m')" and "Q m"
  shows "case runAll (map act cs) out m of (Inl x, m') \<Rightarrow> Q m' | (Inr out', m') \<Rightarrow> out' = out @ map g cs \<and> Q m'"
  using assms
proof (induction cs arbitrary: out m)
  case (Cons c cs)
  obtain x m1 where act: "act c m = (x, m1)" by fastforce
  note first = Cons.prems(1) [of c m]
  show ?case
  proof (cases x)
    case (Inl err)
    then show ?thesis using first Cons.prems(2) act by simp
  next
    case (Inr r)
    then have r: "r = g c" "Q m1" using first Cons.prems(2) act by simp_all
    have "case runAll (map act cs) (out @ [r]) m1 of (Inl x, m') \<Rightarrow> Q m' | (Inr out', m') \<Rightarrow> out' = (out @ [r]) @ map g cs \<and> Q m'"
      by (rule Cons.IH) (use Cons.prems(1) r(2) in auto)
    then show ?thesis using act Inr unfolding r(1) by (simp split: prod.splits sum.splits)
  qed
qed simp

lemma candidate_fits:
  assumes "scan_ok rs st" "(i, off, raw) \<in> set (candidates st)"
  shows "i < length rs" "off + ValueType_Size (ss_valueType st) \<le> unat (rgn_Size (rs ! i))" "length raw = ValueType_Size (ss_valueType st)"
  using assms by (auto simp: scan_ok_def candidates_def partCandidates_def part_ok_def Let_def)

context cheat_memory
begin

lemma scanMatches_spec:
  assumes e: "ready m" "engine_static M e" "scan_ok (eng_regions e) st"
  shows "case scanMatchesLocked offset limit fresh st e m of
      (Inl x, m') \<Rightarrow> unchanged m m'
    | (Inr ms, m') \<Rightarrow> unchanged m m' \<and>
        ms = map (matchOf (ss_valueType st) e \<circ> (if fresh then nowAt (view m) (ss_valueType st) e else id))
          (take limit (drop offset (candidates st)))"
proof -
  let ?t = "ss_valueType st" and ?cs = "take limit (drop offset (candidates st))"
  let ?g = "matchOf (ss_valueType st) e \<circ> (if fresh then nowAt (view m) (ss_valueType st) e else id)"
  have t: "ValueType_Valid ?t" and n: "ss_count st = length (candidates st)" using e(3) by (simp_all add: scan_ok_def)
  have mem: "eng_memory e = M" "Endian_valid (eng_byteOrder e)" using e(2) by (simp_all add: engine_static_def)
  have act: "case actionOf fresh ?t e c m1 of (Inl x, m') \<Rightarrow> unchanged m m' | (Inr r, m') \<Rightarrow> r = ?g c \<and> unchanged m m'"
    if c: "c \<in> set ?cs" and m1: "unchanged m m1" for c m1
  proof -
    obtain i off raw where c3: "c = (i, off, raw)" by (cases c)
    have "(i, off, raw) \<in> set (candidates st)" using c c3 by (meson in_set_dropD in_set_takeD)
    note fit = candidate_fits [OF e(3) this]
    show ?thesis
    proof (cases fresh)
      case False
      then show ?thesis using m1 c3 by (simp add: actionOf_def matchOf_def Decode_valueOf(1) [OF t mem(2) fit(3)])
    next
      case True
      let ?a = "rgn_Start (eng_regions e ! i) + of_nat off" and ?sz = "ValueType_Size ?t"
      have "unat (rgn_Start (eng_regions e ! i)) + unat (rgn_Size (eng_regions e ! i)) \<le> 2 ^ 32"
        using e(2) fit(1) by (simp add: engine_static_def)
      moreover have "0 < ?sz" using size_cases [OF t] by auto
      ultimately have "unat (rgn_Start (eng_regions e ! i)) + off < 2 ^ 32" using fit(2) by linarith
      then have adr: "unat ?a = regionAddress (eng_regions e) i off"
        by (simp add: regionAddress_def unat_word_ariths unat_of_nat)
      obtain res m2 where r: "readMem ?a ?sz e m1 = (res, m2)" by fastforce
      have rdy: "ready m1" "view m1 = view m" using m1 by (simp_all add: unchanged_def)
      have m2: "unchanged m m2" using readMem_keeps [OF rdy(1) mem(1) r] m1 by (simp add: unchanged_def)
      show ?thesis
      proof (cases res)
        case (Inl x)
        then show ?thesis using True c3 r m2 by (simp add: actionOf_def)
      next
        case (Inr bs)
        have bs: "bs = spanBytes (view m) (regionAddress (eng_regions e) i off) ?sz"
          using readMem_value [OF rdy(1) mem(1)] r Inr adr rdy(2) view_spanBytes by metis
        have len: "length bs = ?sz" unfolding bs by simp
        show ?thesis
          using True c3 r m2 Inr by (simp add: actionOf_def matchOf_def nowAt_def Decode_valueOf(1) [OF t mem(2) len] flip: bs)
      qed
    qed
  qed
  have "scanMatchesLocked offset limit fresh st e m = runAll (map (actionOf fresh ?t e) ?cs) [] m"
    using scanMatches_runs [of st fresh e offset limit m] n by (simp add: matchActions_candidates take_map drop_map)
  then show ?thesis
    using runAll_values [where cs = ?cs and Q = "unchanged m" and act = "actionOf fresh ?t e" and g = ?g and m = m and out = "[]"] act e(1)
    by (auto split: prod.splits sum.splits)
qed

end

end
