(* ===== verification/Cheat_Codes.thy ===== *)
theory Cheat_Codes
  imports Cheat_Scan
begin

text \<open>
  What the cheat engine guarantees: every script of its operations keeps the invariant and
  changes memory in writable regions only, enabling and disabling a code restores memory, and
  scan sessions are lists of candidates filtered by the meaning of the comparisons.
\<close>

subsection \<open>The invariant of the engine\<close>

definition writableSpan :: "Region list \<Rightarrow> nat set" where
  "writableSpan rs = (\<Union>r \<in> {r \<in> set rs. rgn_Writable r}. {unat (rgn_Start r) ..< unat (rgn_Start r) + unat (rgn_Size r)})"

definition code_ok :: "Region list \<Rightarrow> name \<Rightarrow> storedCode \<Rightarrow> bool" where
  "code_ok rs ident s \<longleftrightarrow>
     (let c = sc_code s; n = length (cd_Value c) in
      cd_ID c = ident \<and> 0 < n \<and> n \<le> MaxCodeBytes \<and> {unat (cd_Address c) ..< unat (cd_Address c) + n} \<subseteq> writableSpan rs \<and>
      (\<exists>xs. cd_Expected c = Some xs \<and> length xs = n) \<and>
      sc_original s = (if sc_enabled s then cd_Expected c else None))"

definition engine_inv :: "('m, 'e) Memory \<Rightarrow> ('m, 'e) Engine \<Rightarrow> bool" where
  "engine_inv M e \<longleftrightarrow> engine_static M e \<and> finite (dom (eng_codes e)) \<and>
     (\<forall>ident s. eng_codes e ident = Some s \<longrightarrow> code_ok (eng_regions e) ident s) \<and>
     (\<forall>st. eng_scan e = Some st \<longrightarrow> scan_ok (eng_regions e) st)"

lemma contains_span:
  "Region_contains r a (int n) \<Longrightarrow>
     {unat a ..< unat a + n} \<subseteq> {unat (rgn_Start r) ..< unat (rgn_Start r) + unat (rgn_Size r)} \<and> 0 < n"
proof -
  assume "Region_contains r a (int n)"
  then have h: "0 < n" "uint (rgn_Start r) \<le> uint a" "uint a + int n \<le> uint (rgn_Start r) + uint (rgn_Size r)"
    by (auto simp: Region_contains_def Let_def split: if_splits)
  have u: "uint w = int (unat w)" for w :: u32 by simp
  have "unat (rgn_Start r) \<le> unat a" using h(2) unfolding u of_nat_le_iff .
  moreover have "unat a + n \<le> unat (rgn_Start r) + unat (rgn_Size r)"
    using h(3) unfolding u of_nat_add [symmetric] of_nat_le_iff .
  ultimately show ?thesis using h(1) by auto
qed

lemma regionFor_span:
  assumes "regionForLocked a (int n) True e = Inr r"
  shows "{unat a ..< unat a + n} \<subseteq> writableSpan (eng_regions e) \<and> 0 < n"
proof -
  have "findFor a (int n) True rs = Inr r \<Longrightarrow> r \<in> set rs \<and> Region_contains r a (int n) \<and> rgn_Writable r" for rs
    by (induction rs) (auto split: if_splits)
  then have r: "r \<in> set (eng_regions e)" "Region_contains r a (int n)" "rgn_Writable r"
    using assms by (auto simp: regionForLocked_def)
  then show ?thesis using contains_span [OF r(2)] by (auto simp: writableSpan_def)
qed

lemma loadRegions_valid:
  "loadRegions names rs = (Inr qs :: 'e cheatError + Region list) \<Longrightarrow>
     \<forall>r \<in> set qs. 0 < unat (rgn_Size r) \<and> unat (rgn_Start r) + unat (rgn_Size r) \<le> 2 ^ 32"
proof (induction rs arbitrary: names qs)
  case (Cons r rs)
  let ?r = "r\<lparr>rgn_Name := TrimSpace (rgn_Name r)\<rparr>"
  from Cons.prems obtain ts where ts: "Region_Validate ?r = (Inr () :: 'e cheatError + unit)" "qs = ?r # ts"
    "loadRegions (rgn_Name ?r # names) rs = (Inr ts :: 'e cheatError + Region list)" "rgn_Name ?r \<notin> set names"
    by (auto simp: Let_def split: sum.splits if_splits)
  have "0 < unat (rgn_Size r)" "unat (rgn_Start r) + unat (rgn_Size r) \<le> 2 ^ 32"
    using ts(1) by (auto simp: Region_Validate_def unat_gt_0 split: if_splits)
  then show ?case using Cons.IH [OF ts(3)] ts(2) by simp
qed simp

lemma Engine_New_inv: "Engine_New (Some M) options = Inr e \<Longrightarrow> engine_inv M e"
  by (auto simp: Engine_New_def engine_inv_def engine_static_def Let_def dest!: loadRegions_valid split: sum.splits if_splits)

lemma putCode_inv:
  assumes "engine_inv M e" "code_ok (eng_regions e) (cd_ID (sc_code s)) s"
  shows "engine_inv M (putCode s e)" "eng_regions (putCode s e) = eng_regions e" "eng_memory (putCode s e) = eng_memory e"
  using assms by (auto simp: engine_inv_def engine_static_def putCode_def)

lemma removeCode_inv: "engine_inv M e \<Longrightarrow> engine_inv M (e\<lparr>eng_codes := (eng_codes e)(ident := None)\<rparr>)"
  by (auto simp: engine_inv_def engine_static_def)

lemma scan_inv: "engine_inv M e \<Longrightarrow> scan_ok (eng_regions e) st \<Longrightarrow> engine_inv M (e\<lparr>eng_scan := Some st\<rparr>)"
  by (auto simp: engine_inv_def engine_static_def)

lemma codeLocked_ok:
  "engine_inv M e \<Longrightarrow> codeLocked ident e = Inr s \<Longrightarrow>
     code_ok (eng_regions e) (cd_ID (sc_code s)) s \<and> eng_codes e (cd_ID (sc_code s)) = Some s \<and> TrimSpace ident = cd_ID (sc_code s)"
  by (auto simp: engine_inv_def codeLocked_def code_ok_def Let_def split: option.splits)

lemma sortedCodes_ok:
  "engine_inv M e \<Longrightarrow> s \<in> set (sortedCodes b e) \<Longrightarrow> \<exists>ident. code_ok (eng_regions e) ident s"
  unfolding sortedCodes_def engine_inv_def by (auto simp: set_entriesOf) blast+

subsection \<open>Operations\<close>

datatype cheatOp =
    CheatWrite u32 "u8 list" "u8 list option" | CheatPoke u32 Value "Value option"
  | CheatAdd Code | CheatEnable name | CheatDisable name | CheatRemove name | CheatFreeze | CheatReapply
  | CheatScan ScanRequest | CheatStart ScanRequest | CheatNext NextScanRequest | CheatRefine NextScanRequest | CheatReset

fun cheatStep :: "cheatOp \<Rightarrow> ('m, 'e) cheatState \<Rightarrow> ('m, 'e) cheatState" where
  "cheatStep (CheatWrite a bs expected) (e, m) = (e, snd (writeBytesLocked a bs expected e m))"
| "cheatStep (CheatPoke a v expected) (e, m) = (e, snd (Engine_Write a v expected e m))"
| "cheatStep (CheatAdd c) (e, m) = snd (AddCode c e m)"
| "cheatStep (CheatEnable n) (e, m) = snd (EnableCode n e m)"
| "cheatStep (CheatDisable n) (e, m) = snd (DisableCode n e m)"
| "cheatStep (CheatRemove n) (e, m) = snd (RemoveCode n e m)"
| "cheatStep CheatFreeze (e, m) = (e, snd (applyFrozenLocked e m))"
| "cheatStep CheatReapply (e, m) = (e, snd (reapplyEnabledLocked e m))"
| "cheatStep (CheatScan q) (e, m) = snd (Scan q e m)"
| "cheatStep (CheatStart q) (e, m) = snd (StartScan q e m)"
| "cheatStep (CheatNext q) (e, m) = snd (NextScan q e m)"
| "cheatStep (CheatRefine q) (e, m) = snd (RefineScan q e m)"
| "cheatStep CheatReset (e, m) = (ResetScan e, m)"

context cheat_memory
begin

definition cheat_ready :: "('m, 'e) cheatState \<Rightarrow> bool" where
  "cheat_ready = (\<lambda>(e, m). engine_inv M e \<and> ready m)"

text \<open>Memory changes in the writable regions only.\<close>

definition confined :: "Region list \<Rightarrow> 'm \<Rightarrow> 'm \<Rightarrow> bool" where
  "confined rs m m' \<longleftrightarrow> ready m' \<and> prot m' = prot m \<and> (\<forall>x. x \<notin> writableSpan rs \<longrightarrow> view m' x = view m x)"

definition step_ok :: "('m, 'e) cheatState \<Rightarrow> ('m, 'e) cheatState \<Rightarrow> bool" where
  "step_ok s s' \<longleftrightarrow> (case s of (e, m) \<Rightarrow> case s' of (e', m') \<Rightarrow>
     engine_inv M e' \<and> eng_regions e' = eng_regions e \<and> confined (eng_regions e) m m')"

lemma confined_refl [simp]: "ready m \<Longrightarrow> confined rs m m"
  by (simp add: confined_def)

lemma confined_trans: "confined rs m m1 \<Longrightarrow> confined rs m1 m2 \<Longrightarrow> confined rs m m2"
  by (simp add: confined_def)

lemma unchanged_confined: "unchanged m m' \<Longrightarrow> confined rs m m'"
  by (simp add: unchanged_def confined_def)

lemma inv_memory: "engine_inv M e \<Longrightarrow> eng_memory e = M"
  by (simp add: engine_inv_def engine_static_def)

lemma readMem_unchanged: "engine_inv M e \<Longrightarrow> ready m \<Longrightarrow> readMem a n e m = (r, m') \<Longrightarrow> unchanged m m'"
  using readMem_keeps inv_memory unfolding unchanged_def by blast

lemma writeMem_confined:
  assumes "engine_inv M e" "ready m" "{unat a ..< unat a + length bs} \<subseteq> writableSpan rs" "writeMem a bs e m = (r, m')"
  shows "confined rs m m'"
  using writeMem_keeps [OF assms(2) inv_memory [OF assms(1)] assms(4)] assms(3) unfolding confined_def by blast

lemma writeBytes_confined:
  assumes "engine_inv M e" "ready m" "writeBytesLocked a bs x e m = (r, m')"
  shows "confined (eng_regions e) m m'"
proof -
  have check: "confined (eng_regions e) m m1" if "checkExpected a n x e m = (q, m1)" for n q m1
  proof (cases "readMem a n e m")
    case (Pair res m2)
    then have "confined (eng_regions e) m m2" using readMem_unchanged [OF assms(1,2)] unchanged_confined by blast
    then show ?thesis
      using that assms(2) Pair by (auto simp: checkExpected_def split: option.splits if_splits sum.splits)
  qed
  show ?thesis
  proof (cases "bs = [] \<or> MaxCodeBytes < length bs \<or> (\<exists>err. regionForLocked a (int (length bs)) True e = Inl err)")
    case True
    then show ?thesis using assms by (auto simp: writeBytesLocked_def split: if_splits)
  next
    case False
    then obtain rg where rg: "regionForLocked a (int (length bs)) True e = Inr rg"
      by (cases "regionForLocked a (int (length bs)) True e") auto
    obtain q m1 where c: "checkExpected a (length bs) x e m = (q, m1)" by fastforce
    have m1: "confined (eng_regions e) m m1" using check c by blast
    show ?thesis
    proof (cases q)
      case (Inl err)
      then show ?thesis using False rg c assms(3) m1 by (auto simp: writeBytesLocked_def)
    next
      case (Inr u)
      then have w: "writeMem a bs e m1 = (r, m')" using False rg c assms(3) by (simp add: writeBytesLocked_def)
      have "confined (eng_regions e) m1 m'"
        by (rule writeMem_confined [OF assms(1) _ _ w]) (use m1 regionFor_span [OF rg] in \<open>simp_all add: confined_def\<close>)
      then show ?thesis by (rule confined_trans [OF m1])
    qed
  qed
qed

lemma Write_confined:
  assumes "engine_inv M e" "ready m" "Engine_Write a v x e m = (r, m')"
  shows "confined (eng_regions e) m m'"
  using assms(3) writeBytes_confined [OF assms(1,2)] confined_refl [OF assms(2)]
  by (auto simp: Engine_Write_def split: sum.splits option.splits if_splits)

lemma restoreOriginal_confined:
  assumes "engine_inv M e" "ready m" "code_ok (eng_regions e) i s" "restoreOriginal s e m = (r, m')"
  shows "confined (eng_regions e) m m'"
proof -
  have "{unat (cd_Address (sc_code s)) ..< unat (cd_Address (sc_code s)) + length old} \<subseteq> writableSpan (eng_regions e)"
    if "sc_original s = Some old" for old
    using assms(3) that by (auto simp: code_ok_def Let_def split: if_splits)
  then show ?thesis
    using assms writeMem_confined [OF assms(1,2)]
    by (auto simp: restoreOriginal_def split: option.splits if_splits)
qed

lemma applyLoop_confined:
  assumes "engine_inv M e" "ready m" "\<forall>s \<in> set ss. \<exists>i. code_ok (eng_regions e) i s" "applyLoop ss e m = (r, m')"
  shows "confined (eng_regions e) m m'"
  using assms(2-4)
proof (induction ss arbitrary: m)
  case (Cons s ss)
  obtain q m1 where w: "writeMem (cd_Address (sc_code s)) (cd_Value (sc_code s)) e m = (q, m1)" by fastforce
  have "{unat (cd_Address (sc_code s)) ..< unat (cd_Address (sc_code s)) + length (cd_Value (sc_code s))} \<subseteq> writableSpan (eng_regions e)"
    using Cons.prems(2) by (auto simp: code_ok_def Let_def)
  then have m1: "confined (eng_regions e) m m1" by (rule writeMem_confined [OF assms(1) Cons.prems(1) _ w])
  show ?case
  proof (cases q)
    case (Inl x)
    then show ?thesis using Cons.prems(3) w m1 by simp
  next
    case (Inr u)
    then have "confined (eng_regions e) m1 m'"
      using Cons.IH [of m1] Cons.prems(2,3) w m1 by (simp add: confined_def)
    then show ?thesis by (rule confined_trans [OF m1])
  qed
qed simp

end

context cheat_memory
begin

lemma step_same: "engine_inv M e \<Longrightarrow> confined (eng_regions e) m m' \<Longrightarrow> step_ok (e, m) (e, m')"
  by (simp add: step_ok_def)

lemma step_put:
  assumes "engine_inv M e" "confined (eng_regions e) m m'" "code_ok (eng_regions e) (cd_ID (sc_code s)) s"
  shows "step_ok (e, m) (putCode s e, m')"
  using putCode_inv [OF assms(1,3)] assms(2) by (simp add: step_ok_def)

lemma AddCode_step:
  assumes e: "engine_inv M e" and m: "ready m"
  shows "step_ok (e, m) (snd (AddCode c e m))"
proof -
  let ?c = "c\<lparr>cd_ID := TrimSpace (cd_ID c)\<rparr>" and ?n = "length (cd_Value c)"
  obtain q m1 where r: "readMem (cd_Address c) ?n e m = (q, m1)" by fastforce
  have same: "confined (eng_regions e) m m1" using readMem_unchanged [OF e m r] by (rule unchanged_confined)
  have stay: "step_ok (e, m) (e, m)" "step_ok (e, m) (e, m1)" using step_same [OF e] same m by simp_all
  have keep: "step_ok (e, m) (e\<lparr>eng_codes := (eng_codes e)(TrimSpace (cd_ID c) \<mapsto>
      \<lparr>sc_code = ?c\<lparr>cd_TargetSHA256 := target, cd_Expected := Some xs\<rparr>, sc_enabled = False, sc_original = None\<rparr>)\<rparr>, m1)"
    if "length xs = ?n" "regionForLocked (cd_Address c) (int ?n) True e = Inr rg" "?n \<le> MaxCodeBytes" for xs target rg
    using step_put [OF e same, of "\<lparr>sc_code = ?c\<lparr>cd_TargetSHA256 := target, cd_Expected := Some xs\<rparr>, sc_enabled = False, sc_original = None\<rparr>"]
      regionFor_span [OF that(2)] that by (simp add: putCode_def code_ok_def)
  have len: "length bs = ?n" if "q = Inr bs" for bs
    using readMem_value [OF m inv_memory [OF e] r [unfolded that]] by simp
  show ?thesis
    unfolding AddCode_def Let_def using stay keep len r
    by (auto split: sum.split option.split)
qed

lemma EnableCode_step:
  assumes e: "engine_inv M e" and m: "ready m"
  shows "step_ok (e, m) (snd (EnableCode ident e m))"
proof (cases "codeLocked ident e")
  case (Inl x)
  then show ?thesis using step_same [OF e] m by (simp add: EnableCode_def)
next
  case (Inr s)
  note s = codeLocked_ok [OF e Inr]
  let ?a = "cd_Address (sc_code s)" and ?bs = "cd_Value (sc_code s)"
  obtain q m1 where r: "readMem ?a (length ?bs) e m = (q, m1)" by fastforce
  obtain w m2 where wr: "writeMem ?a ?bs e m1 = (w, m2)" by fastforce
  have m1: "confined (eng_regions e) m m1" using readMem_unchanged [OF e m r] by (rule unchanged_confined)
  have "confined (eng_regions e) m1 m2"
    by (rule writeMem_confined [OF e _ _ wr]) (use m1 s in \<open>auto simp: confined_def code_ok_def Let_def\<close>)
  then have m2: "confined (eng_regions e) m m2" by (rule confined_trans [OF m1])
  have put: "step_ok (e, m) (putCode (s\<lparr>sc_original := cd_Expected (sc_code s), sc_enabled := True\<rparr>) e, m2)"
    by (rule step_put [OF e m2]) (use s in \<open>auto simp: code_ok_def Let_def\<close>)
  have stay: "step_ok (e, m) (e, m)" "step_ok (e, m) (e, m1)" "step_ok (e, m) (e, m2)"
    using step_same [OF e] m m1 m2 by simp_all
  show ?thesis
    unfolding EnableCode_def Inr sum.case r prod.case using stay put wr
    by (auto split: sum.split)
qed

lemma DisableCode_step:
  assumes e: "engine_inv M e" and m: "ready m"
  shows "step_ok (e, m) (snd (DisableCode ident e m))"
proof (cases "codeLocked ident e")
  case (Inl x)
  then show ?thesis using step_same [OF e] m by (simp add: DisableCode_def)
next
  case (Inr s)
  note s = codeLocked_ok [OF e Inr]
  obtain w m1 where r: "restoreOriginal s e m = (w, m1)" by fastforce
  have m1: "confined (eng_regions e) m m1" by (rule restoreOriginal_confined [OF e m _ r]) (use s in blast)
  have put: "step_ok (e, m) (putCode (s\<lparr>sc_enabled := False, sc_original := None\<rparr>) e, m1)"
    by (rule step_put [OF e m1]) (use s in \<open>auto simp: code_ok_def Let_def\<close>)
  show ?thesis
    unfolding DisableCode_def Inr sum.case r using step_same [OF e] m m1 put by (auto split: sum.split)
qed

lemma RemoveCode_step:
  assumes e: "engine_inv M e" and m: "ready m"
  shows "step_ok (e, m) (snd (RemoveCode ident e m))"
proof (cases "codeLocked ident e")
  case (Inl x)
  then show ?thesis using step_same [OF e] m by (simp add: RemoveCode_def)
next
  case (Inr s)
  note s = codeLocked_ok [OF e Inr]
  obtain w m1 where r: "(if sc_enabled s then restoreOriginal s e m else (Inr (), m)) = (w, m1)" by fastforce
  have m1: "confined (eng_regions e) m m1"
    using restoreOriginal_confined [OF e m] s r m by (auto split: if_splits)
  show ?thesis
    unfolding RemoveCode_def Inr sum.case r
    using step_same [OF e m1] removeCode_inv [OF e] m1 by (auto simp: step_ok_def split: sum.split)
qed

lemma inv_parts: "engine_inv M e \<Longrightarrow> engine_static M e \<and> (\<forall>st. eng_scan e = Some st \<longrightarrow> scan_ok (eng_regions e) st)"
  by (simp add: engine_inv_def)

lemma startScan_step:
  assumes e: "engine_inv M e" and m: "ready m" and r: "startScanLocked q L e m = (r, e', m')"
  shows "step_ok (e, m) (e', m')"
proof -
  have st: "engine_static M e" using inv_parts [OF e] by blast
  show ?thesis
    using startScanLocked_spec [OF m st, of q L] r scan_inv [OF e] e
    by (cases r) (auto simp: step_ok_def unchanged_confined)
qed

lemma refineScan_step:
  assumes e: "engine_inv M e" and m: "ready m" and r: "refineScanLocked q e m = (r, e', m')"
  shows "step_ok (e, m) (e', m')"
proof -
  have st: "engine_static M e" "\<forall>st. eng_scan e = Some st \<longrightarrow> scan_ok (eng_regions e) st" using inv_parts [OF e] by blast+
  show ?thesis
    using refineScanLocked_spec [OF m st, of q] r scan_inv [OF e] e
    by (cases r) (auto simp: step_ok_def unchanged_confined)
qed

lemma matches_unchanged:
  assumes e: "engine_inv M e" and m: "ready m" and r: "matchesLocked e m = (r, m')"
  shows "unchanged m m'"
proof (cases "eng_scan e")
  case None
  then show ?thesis using r m by (simp add: matchesLocked_def)
next
  case (Some st)
  then have st: "engine_static M e" "scan_ok (eng_regions e) st" using inv_parts [OF e] by blast+
  show ?thesis
    using scanMatches_spec [OF m st, where offset = 0 and limit = "ss_count st" and fresh = False] r m Some
    by (auto simp: matchesLocked_def split: if_splits sum.splits prod.splits)
qed

lemma step_ok_trans: "step_ok (e, m) (e1, m1) \<Longrightarrow> step_ok (e1, m1) (e2, m2) \<Longrightarrow> step_ok (e, m) (e2, m2)"
  by (auto simp: step_ok_def intro: confined_trans)

lemma matches_step: "step_ok (e, m) (e1, m1) \<Longrightarrow> matchesLocked e1 m1 = (r, m2) \<Longrightarrow> step_ok (e, m) (e1, m2)"
proof -
  assume s: "step_ok (e, m) (e1, m1)" and r: "matchesLocked e1 m1 = (r, m2)"
  then have "engine_inv M e1" "ready m1" by (simp_all add: step_ok_def confined_def)
  then have "step_ok (e1, m1) (e1, m2)" using step_same unchanged_confined matches_unchanged [OF _ _ r] by blast
  then show ?thesis by (rule step_ok_trans [OF s])
qed

lemma cheatStep_ok:
  assumes e: "engine_inv M e" and m: "ready m"
  shows "step_ok (e, m) (cheatStep a (e, m))"
proof (cases a)
  case (CheatWrite ad bs x)
  then show ?thesis using step_same [OF e writeBytes_confined [OF e m prod.collapse [symmetric]]] by simp
next
  case (CheatPoke ad v x)
  then show ?thesis using step_same [OF e Write_confined [OF e m prod.collapse [symmetric]]] by simp
next
  case CheatFreeze
  have "\<forall>s \<in> set (filter (\<lambda>s. cd_Freeze (sc_code s)) (sortedCodes True e)). \<exists>i. code_ok (eng_regions e) i s"
    using sortedCodes_ok [OF e] by auto
  from step_same [OF e applyLoop_confined [OF e m this prod.collapse [symmetric]]] CheatFreeze
  show ?thesis by (simp add: applyFrozenLocked_def)
next
  case CheatReapply
  have "\<forall>s \<in> set (sortedCodes True e). \<exists>i. code_ok (eng_regions e) i s" using sortedCodes_ok [OF e] by auto
  from step_same [OF e applyLoop_confined [OF e m this prod.collapse [symmetric]]] CheatReapply
  show ?thesis by (simp add: reapplyEnabledLocked_def)
next
  case (CheatScan q)
  obtain r e1 m1 where s: "startScanLocked q (eng_maxResults e) e m = (r, e1, m1)" by (metis surj_pair)
  obtain ms m2 where l: "matchesLocked e1 m1 = (ms, m2)" by fastforce
  have "step_ok (e, m) (e1, m1)" by (rule startScan_step [OF e m s])
  then show ?thesis using CheatScan s l matches_step [OF _ l] by (cases r) (simp_all add: Scan_def)
next
  case (CheatStart q)
  obtain r e1 m1 where s: "startScanLocked q 0 e m = (r, e1, m1)" by (metis surj_pair)
  then show ?thesis using CheatStart startScan_step [OF e m s] by (cases r) (simp_all add: StartScan_def)
next
  case (CheatNext q)
  obtain r e1 m1 where s: "refineScanLocked q e m = (r, e1, m1)" by (metis surj_pair)
  obtain ms m2 where l: "matchesLocked e1 m1 = (ms, m2)" by fastforce
  have "step_ok (e, m) (e1, m1)" by (rule refineScan_step [OF e m s])
  then show ?thesis
    using CheatNext s l matches_step [OF _ l] step_same [OF e] m by (cases r) (simp_all add: NextScan_def)
next
  case (CheatRefine q)
  obtain r e1 m1 where s: "refineScanLocked q e m = (r, e1, m1)" by (metis surj_pair)
  then show ?thesis using CheatRefine refineScan_step [OF e m s] by (cases r) (simp_all add: RefineScan_def)
next
  case CheatReset
  then show ?thesis using e m by (auto simp: ResetScan_def step_ok_def engine_inv_def engine_static_def)
qed (simp_all add: AddCode_step [OF e m] EnableCode_step [OF e m] DisableCode_step [OF e m] RemoveCode_step [OF e m])

end

sublocale cheat_memory \<subseteq> cheats: scripted cheat_ready cheatStep
proof
  fix s :: "('m, 'e) cheatState" and a
  assume "cheat_ready s"
  then show "cheat_ready (cheatStep a s)"
    using cheatStep_ok [of "fst s" "snd s" a] by (cases s) (auto simp: cheat_ready_def step_ok_def confined_def split: prod.splits)
qed

context cheat_memory
begin

lemma script_confined:
  assumes "engine_inv M e" "ready m"
  shows "step_ok (e, m) (fold cheatStep script (e, m))"
proof (rule cheats.script_rel [where R = "\<lambda>s t. cheat_ready s \<longrightarrow> step_ok s t", THEN mp])
  fix s :: "('m, 'e) cheatState"
  show "cheat_ready s \<longrightarrow> step_ok s s" by (cases s) (simp add: cheat_ready_def step_same)
  fix a show "cheat_ready s \<Longrightarrow> cheat_ready s \<longrightarrow> step_ok s (cheatStep a s)"
    by (cases s) (simp add: cheat_ready_def cheatStep_ok)
next
  fix s t u :: "('m, 'e) cheatState"
  assume st: "cheat_ready s \<longrightarrow> step_ok s t" and tu: "cheat_ready t \<longrightarrow> step_ok t u"
  show "cheat_ready s \<longrightarrow> step_ok s u"
  proof
    assume s: "cheat_ready s"
    then have "step_ok s t" using st by blast
    moreover from this have "cheat_ready t" by (cases s; cases t) (simp add: step_ok_def cheat_ready_def confined_def)
    ultimately show "step_ok s u" using tu step_ok_trans by (cases s; cases t; cases u) blast
  qed
qed (use assms in \<open>simp_all add: cheat_ready_def\<close>)

text \<open>Enabling a code stores its value; disabling it puts back every byte and the code.\<close>

lemma toggle_restores:
  assumes e: "engine_inv M e" and m: "ready m" and s: "codeLocked ident e = Inr s" "\<not> sc_enabled s" "cd_RestoreOnDisable (sc_code s)"
    and r: "EnableCode ident e m = (Inr (), e1, m1)"
  shows "\<exists>m2. DisableCode ident e1 m1 = (Inr (), e, m2) \<and> view m2 = view m \<and> prot m2 = prot m \<and>
     map (view m1) [unat (cd_Address (sc_code s)) ..< unat (cd_Address (sc_code s)) + length (cd_Value (sc_code s))] =
       map Some (cd_Value (sc_code s)) \<and>
     map (view m) [unat (cd_Address (sc_code s)) ..< unat (cd_Address (sc_code s)) + length (cd_Value (sc_code s))] =
       map Some (the (cd_Expected (sc_code s)))"
proof -
  let ?a = "cd_Address (sc_code s)" and ?bs = "cd_Value (sc_code s)"
  obtain q m0 where rd: "readMem ?a (length ?bs) e m = (q, m0)" by fastforce
  obtain w mw where wr: "writeMem ?a ?bs e m0 = (w, mw)" by fastforce
  from r obtain cur where cur: "q = Inr cur" "cd_Expected (sc_code s) = Some cur" "w = Inr ()" "m1 = mw"
    "e1 = putCode (s\<lparr>sc_original := Some cur, sc_enabled := True\<rparr>) e"
    unfolding EnableCode_def s(1) sum.case rd prod.case using s(2) wr by (auto split: sum.splits if_splits)
  note mem = inv_memory [OF e]
  have same: "ready m0" "view m0 = view m" "prot m0 = prot m" using readMem_keeps [OF m mem rd] by auto
  have old: "map Some cur = map (view m0) [unat ?a ..< unat ?a + length ?bs]"
    using readMem_value [OF m mem] rd cur(1) same(2) by simp
  note ok = codeLocked_ok [OF e s(1)]
  have e1: "eng_memory e1 = M" unfolding cur(5) by (simp add: putCode_def mem)
  obtain m2 where m2: "writeMem ?a cur e1 m1 = (Inr (), m2)" "ready m2" "view m2 = view m0" "prot m2 = prot m0"
    using write_back [OF same(1) mem e1 old] wr cur(3,4) by blast
  have locked: "codeLocked ident e1 = Inr (s\<lparr>sc_original := Some cur, sc_enabled := True\<rparr>)"
    using ok unfolding cur(5) by (simp add: codeLocked_def putCode_def)
  have none: "sc_original s = None" using ok s(2) by (simp add: code_ok_def Let_def)
  have "putCode (s\<lparr>sc_enabled := False, sc_original := None\<rparr>) e1 = e"
    unfolding cur(5) using ok s(2) none by (auto simp: putCode_def fun_upd_idem)
  then have "DisableCode ident e1 m1 = (Inr (), e, m2)"
    using locked m2(1) s(3) by (simp add: DisableCode_def restoreOriginal_def)
  then show ?thesis
    using m2 same writeMem_value [OF same(1) mem] wr cur old by simp
qed

end

subsection \<open>The guarantees on the interpreter's memory\<close>

lemma guest_memory_parts: "guest_view b' x = guest_view b x \<Longrightarrow> guest_prot b' x = guest_prot b x \<Longrightarrow> guest_memory b' x = guest_memory b x"
  by (cases "guest_memory b' x"; cases "guest_memory b x") (auto simp: guest_view_def guest_prot_def)

text \<open>
  C9. Cheats are confined: a fresh engine over the guest's memory, driven by any script of
  writes, codes, freezes and scans, successful or not, changes no byte outside its writable
  regions, no protection anywhere, and keeps the guest usable; every code in its table stays
  within a writable region, with expected bytes of its own length, and holds the original
  bytes exactly while it is enabled.
\<close>

theorem cheats_confined:
  assumes "Engine_New (Some guestMemory) options = Inr e" and "guest_ready b"
  shows "case fold cheatStep script (e, b) of (e', b') \<Rightarrow>
    guest_ready b' \<and> eng_regions e' = eng_regions e \<and>
    (\<forall>x. x \<notin> writableSpan (eng_regions e) \<longrightarrow> guest_memory b' x = guest_memory b x) \<and>
    guest_prot b' = guest_prot b \<and>
    (\<forall>ident s. eng_codes e' ident = Some s \<longrightarrow> code_ok (eng_regions e) ident s)"
proof -
  have inv: "engine_inv guestMemory e" by (rule Engine_New_inv [OF assms(1)])
  show ?thesis
    using guest_cheats.script_confined [OF inv assms(2), of script]
    by (auto simp: guest_cheats.step_ok_def guest_cheats.confined_def engine_inv_def intro: guest_memory_parts fun_cong)
qed

definition sampleOptions :: Options where
  "sampleOptions = \<lparr>opt_TargetSHA256 = replicate 64 0x41, opt_ImageSHA256 = [], opt_ByteOrder = EndianLittle,
     opt_Regions = [\<lparr>rgn_Name = [0x20, 0x61], rgn_Start = 0x1000, rgn_Size = 4, rgn_Writable = True, rgn_Scannable = True\<rparr>],
     opt_MaxScanBytes = 0, opt_MaxResults = 0\<rparr>"

definition sampleEngine :: "(backend, cpu_error) Engine" where
  "sampleEngine = \<lparr>eng_memory = guestMemory, eng_targetSHA256 = replicate 64 0x61, eng_imageSHA256 = [],
     eng_byteOrder = EndianLittle,
     eng_regions = [\<lparr>rgn_Name = [0x61], rgn_Start = 0x1000, rgn_Size = 4, rgn_Writable = True, rgn_Scannable = True\<rparr>],
     eng_maxScanBytes = DefaultMaxScanBytes, eng_maxResults = DefaultMaxResults, eng_codes = Map.empty, eng_scan = None\<rparr>"

lemma sampleEngine_New: "Engine_New (Some guestMemory) sampleOptions = Inr sampleEngine"
proof -
  have "normalizeSHA256 (replicate 64 0x41) = (Inr (replicate 64 0x61) :: cpu_error cheatError + name)" by code_simp
  moreover have "TrimSpace [0x20, 0x61] = [0x61]" "TrimSpace [0x61] = [0x61]" by code_simp+
  ultimately show ?thesis
    by (simp add: Engine_New_def sampleOptions_def sampleEngine_def normalizeSHA256_def [of "[]"] TrimSpace_def [of "[]"]
        Region_Validate_def Endian_valid_def Let_def DefaultMaxResults_def)
qed

lemma sample_guest: "guest_ready sampleBackend"
  using app_guest_sample by (simp add: guest_ready_def sampleBackend_fields)

definition sampleScript :: "cheatOp list" where
  "sampleScript = [CheatWrite 0x1001 [7] None, CheatWrite 0x1003 [8, 9] None, CheatFreeze]"

theorem cheats_confined_witness:
  "guest_memory (snd (fold cheatStep sampleScript (sampleEngine, sampleBackend))) 0x1004 = Some (3, 0)"
proof -
  have "x \<notin> writableSpan (eng_regions sampleEngine)" if "x = 0x1004" for x
    using that by (auto simp: writableSpan_def sampleEngine_def)
  then have "guest_memory (snd (fold cheatStep sampleScript (sampleEngine, sampleBackend))) 0x1004 = guest_memory sampleBackend 0x1004"
    using cheats_confined [OF sampleEngine_New sample_guest, of sampleScript] by (auto split: prod.splits)
  then show ?thesis by (simp add: sampleBackend_memory span_def)
qed

text \<open>
  C32. A code is a reversible patch: enabling it is refused unless memory holds its expected
  bytes, and then stores its value; disabling it again, with restoring switched on, always
  succeeds and leaves every byte of the guest and the whole engine as they were.
\<close>

theorem code_toggle_roundtrip:
  assumes "engine_inv guestMemory e" "guest_ready b" and "codeLocked ident e = Inr s" "\<not> sc_enabled s"
    "cd_RestoreOnDisable (sc_code s)"
  shows "let a = unat (cd_Address (sc_code s)); n = length (cd_Value (sc_code s)) in
    case EnableCode ident e b of
      (Inl _, e1, b1) \<Rightarrow> e1 = e
    | (Inr _, e1, b1) \<Rightarrow>
        map (guest_view b) [a ..< a + n] = map Some (the (cd_Expected (sc_code s))) \<and>
        map (guest_view b1) [a ..< a + n] = map Some (cd_Value (sc_code s)) \<and>
        (case DisableCode ident e1 b1 of (r, e2, b2) \<Rightarrow> r = Inr () \<and> e2 = e \<and> guest_memory b2 = guest_memory b)"
proof (cases "EnableCode ident e b")
  case (fields r e1 b1)
  show ?thesis
  proof (cases r)
    case (Inl x)
    then have "e1 = e" using fields by (auto simp: EnableCode_def split: sum.splits prod.splits if_splits)
    then show ?thesis using fields Inl by (simp add: Let_def)
  next
    case (Inr u)
    then have "EnableCode ident e b = (Inr (), e1, b1)" using fields by simp
    from guest_cheats.toggle_restores [OF assms this] obtain b2 where
      "DisableCode ident e1 b1 = (Inr (), e, b2)" "guest_view b2 = guest_view b" "guest_prot b2 = guest_prot b"
      "map (guest_view b1) [unat (cd_Address (sc_code s)) ..< unat (cd_Address (sc_code s)) + length (cd_Value (sc_code s))] =
         map Some (cd_Value (sc_code s))"
      "map (guest_view b) [unat (cd_Address (sc_code s)) ..< unat (cd_Address (sc_code s)) + length (cd_Value (sc_code s))] =
         map Some (the (cd_Expected (sc_code s)))" by blast
    moreover from this have "guest_memory b2 = guest_memory b" by (intro ext guest_memory_parts) simp_all
    ultimately show ?thesis using fields Inr by (simp add: Let_def)
  qed
qed

definition sampleCode :: storedCode where
  "sampleCode = \<lparr>sc_code = \<lparr>cd_ID = [0x63], cd_Description = [], cd_TargetSHA256 = replicate 64 0x61, cd_Address = 0x1001,
     cd_Value = [5, 6], cd_Expected = Some [0, 0], cd_Freeze = False, cd_RestoreOnDisable = True\<rparr>,
     sc_enabled = False, sc_original = None\<rparr>"

definition samplePatched :: "(backend, cpu_error) Engine" where
  "samplePatched = putCode sampleCode sampleEngine"

lemma samplePatched_inv: "engine_inv guestMemory samplePatched"
  unfolding samplePatched_def
  by (rule putCode_inv(1) [OF Engine_New_inv [OF sampleEngine_New]])
    (auto simp: code_ok_def sampleCode_def sampleEngine_def writableSpan_def Let_def MaxCodeBytes_def)

lemma sampleCode_locked: "codeLocked [0x63] samplePatched = Inr sampleCode"
proof -
  have "TrimSpace [0x63] = [0x63]" by code_simp
  then show ?thesis by (simp add: codeLocked_def samplePatched_def putCode_def sampleCode_def)
qed

lemma sample_zeros:
  assumes "0x1000 \<le> unat a" "unat a + n \<le> 0x2000"
  shows "\<exists>h. ReadMemory a n sampleBackend = (Inr (replicate n 0), sampleBackend\<lparr>regionHints := h\<rparr>)"
proof -
  have "spec_read (guest_memory sampleBackend) PermissionRead (unat a) n = Inr (map (\<lambda>i. 0) [0..<n])"
    by (rule spec_read_ok) (use assms in \<open>auto simp: sampleBackend_memory span_def PermissionRead_def\<close>)
  then show ?thesis using guest_Read [OF sample_guest, of a n] by (simp add: map_replicate_const)
qed

lemma sample_writable:
  "0x1000 \<le> unat (a :: u32) \<Longrightarrow> unat a + length bs \<le> 0x2000 \<Longrightarrow>
     fst (spec_write (guest_memory sampleBackend) PermissionWrite (unat a) bs) = Inr ()"
  unfolding spec_write_Inr by (simp add: sampleBackend_memory span_def PermissionWrite_def)

theorem code_toggle_roundtrip_witness:
  "\<exists>e1 b1 b2. EnableCode [0x63] samplePatched sampleBackend = (Inr (), e1, b1) \<and> guest_view b1 0x1002 = Some 6 \<and>
     DisableCode [0x63] e1 b1 = (Inr (), samplePatched, b2) \<and> guest_memory b2 = guest_memory sampleBackend"
proof -
  have two: "replicate 2 (0 :: u8) = [0, 0]" by (simp add: numeral_2_eq_2)
  obtain h where rd: "ReadMemory 0x1001 2 sampleBackend = (Inr [0, 0], sampleBackend\<lparr>regionHints := h\<rparr>)"
    using sample_zeros [of "0x1001" 2] unfolding two by auto
  obtain w b1 where wr: "WriteMemory 0x1001 [5, 6] (sampleBackend\<lparr>regionHints := h\<rparr>) = (w, b1)" by fastforce
  have "w = Inr ()"
    using guest_Write(2) [OF _ wr] sample_guest sample_writable [of "0x1001" "[5, 6]"] by simp
  then have io: "readMem 0x1001 2 samplePatched sampleBackend = (Inr [0, 0], sampleBackend\<lparr>regionHints := h\<rparr>)"
    "writeMem 0x1001 [5, 6] samplePatched (sampleBackend\<lparr>regionHints := h\<rparr>) = (Inr (), b1)"
    using rd wr by (simp_all add: readMem_def writeMem_def samplePatched_def putCode_def sampleEngine_def guestMemory_def)
  have code: "cd_Address (sc_code sampleCode) = 0x1001" "cd_Value (sc_code sampleCode) = [5, 6]" "length [5, 6 :: u8] = 2"
    "cd_Expected (sc_code sampleCode) = Some [0, 0]" "\<not> sc_enabled sampleCode" "cd_RestoreOnDisable (sc_code sampleCode)"
    by (simp_all add: sampleCode_def)
  obtain e1 where en: "EnableCode [0x63] samplePatched sampleBackend = (Inr (), e1, b1)"
    unfolding EnableCode_def sampleCode_locked code sum.case io prod.case using code(5) by simp
  show ?thesis
    using code_toggle_roundtrip [OF samplePatched_inv sample_guest sampleCode_locked code(5,6)] en
    by (auto simp: code Let_def upt_rec split: prod.splits)
qed

lemma scan_parts:
  "engine_inv guestMemory e \<Longrightarrow> engine_static guestMemory e"
  "engine_inv guestMemory e \<Longrightarrow> \<forall>st. eng_scan e = Some st \<longrightarrow> scan_ok (eng_regions e) st"
  by (simp_all add: engine_inv_def)

lemma unchanged_memory: "guest_cheats.unchanged b b' \<Longrightarrow> guest_memory b' = guest_memory b"
  by (intro ext guest_memory_parts) (simp_all add: guest_cheats.unchanged_def)

lemma StartScan_filters:
  assumes "engine_inv guestMemory e" and "guest_ready b"
  shows "case StartScan q e b of
      (Inl x, e', b') \<Rightarrow> e' = e \<and> guest_memory b' = guest_memory b
    | (Inr s, e', b') \<Rightarrow> guest_memory b' = guest_memory b \<and> engine_inv guestMemory e' \<and>
        (\<exists>st is. eng_scan e' = Some st \<and> selectScanRegionsLocked (sq_Regions q) e = Inr is \<and>
          candidates st = foundBy q (guest_view b) e is \<and> s = \<lparr>sum_Type = sq_Type q, sum_Total = length (candidates st)\<rparr>)"
proof -
  note static = scan_parts(1) [OF assms(1)] and ok = scan_parts(2) [OF assms(1)] and mem = unchanged_memory [where b = b]
  obtain r e1 b1 where r: "startScanLocked q 0 e b = (r, e1, b1)" by (metis surj_pair)
  note spec = guest_cheats.startScanLocked_spec [OF assms(2) static, of q 0, unfolded r prod.case]
  show ?thesis
  proof (cases r)
    case (Inl x)
    then show ?thesis using spec mem by (simp add: StartScan_def r)
  next
    case (Inr u)
    then obtain st "is" where st: "guest_cheats.unchanged b b1" "e1 = e\<lparr>eng_scan := Some st\<rparr>" "scan_ok (eng_regions e) st"
      "selectScanRegionsLocked (sq_Regions q) e = Inr is" "ss_valueType st = sq_Type q" "candidates st = foundBy q (guest_view b) e is"
      using spec by auto
    have "ss_count st = length (candidates st)" using st(3) by (simp add: scan_ok_def)
    then show ?thesis
      using Inr st(4-6) mem [OF st(1)] scan_inv [OF assms(1) st(3)] unfolding StartScan_def r
      by (simp add: st(2) summaryLocked_def)
  qed
qed

lemma RefineScan_filters:
  assumes "engine_inv guestMemory e" and "guest_ready b"
  shows "case RefineScan nq e b of
      (Inl x, e', b') \<Rightarrow> e' = e \<and> guest_memory b' = guest_memory b
    | (Inr s, e', b') \<Rightarrow> guest_memory b' = guest_memory b \<and> engine_inv guestMemory e' \<and>
        (\<exists>st st'. eng_scan e = Some st \<and> eng_scan e' = Some st' \<and> candidates st' = keptBy nq (guest_view b) e st \<and>
          s = \<lparr>sum_Type = ss_valueType st, sum_Total = length (candidates st')\<rparr>)"
proof -
  note static = scan_parts(1) [OF assms(1)] and ok = scan_parts(2) [OF assms(1)] and mem = unchanged_memory [where b = b]
  obtain r e1 b1 where r: "refineScanLocked nq e b = (r, e1, b1)" by (metis surj_pair)
  note spec = guest_cheats.refineScanLocked_spec [OF assms(2) static ok, of nq, unfolded r prod.case]
  show ?thesis
  proof (cases r)
    case (Inl x)
    then show ?thesis using spec mem by (simp add: RefineScan_def r)
  next
    case (Inr u)
    then obtain st st' where st: "guest_cheats.unchanged b b1" "eng_scan e = Some st" "e1 = e\<lparr>eng_scan := Some st'\<rparr>"
      "scan_ok (eng_regions e) st'" "ss_valueType st' = ss_valueType st" "candidates st' = keptBy nq (guest_view b) e st"
      using spec by auto
    have "ss_count st' = length (candidates st')" using st(4) by (simp add: scan_ok_def)
    then show ?thesis
      using Inr st(2,5,6) mem [OF st(1)] scan_inv [OF assms(1) st(4)] unfolding RefineScan_def r
      by (simp add: st(3) summaryLocked_def)
  qed
qed

lemma ScanPage_filters:
  assumes "engine_inv guestMemory e" and "guest_ready b"
  shows "case Engine_ScanPage off len e b of
      (Inl x, b') \<Rightarrow> guest_memory b' = guest_memory b
    | (Inr p, b') \<Rightarrow> guest_memory b' = guest_memory b \<and>
        (\<exists>st. eng_scan e = Some st \<and> pg_Matches p =
          map (matchOf (ss_valueType st) e \<circ> nowAt (guest_view b) (ss_valueType st) e)
            (take (nat len) (drop (nat off) (candidates st))))"
proof (cases "eng_scan e")
  case None
  then show ?thesis by (simp add: Engine_ScanPage_def)
next
  case (Some st)
  note static = scan_parts(1) [OF assms(1)] and ok = scan_parts(2) [OF assms(1)] and mem = unchanged_memory [where b = b]
  have "scan_ok (eng_regions e) st" using ok Some by blast
  from guest_cheats.scanMatches_spec [OF assms(2) static this, where offset = "nat off" and limit = "nat len" and fresh = True]
  show ?thesis using Some mem by (auto simp: Engine_ScanPage_def split: sum.splits prod.splits)
qed

text \<open>
  C12. Scan sessions are filtered candidate lists.  Starting a scan lists every aligned
  position of the selected regions whose current bytes satisfy the comparison, in address
  order within each region; refining keeps exactly the candidates whose current bytes satisfy
  the comparison against the bytes last seen, which become the new baseline; a page is the
  requested slice of the candidates with the values memory holds now.  The bitmaps and counts
  of the source implement this; a failed scan leaves the session alone, and no scan changes a
  byte of the guest.
\<close>

theorem scan_sessions_filter:
  assumes "engine_inv guestMemory e" and "guest_ready b"
  shows "(case StartScan q e b of
      (Inl x, e', b') \<Rightarrow> e' = e \<and> guest_memory b' = guest_memory b
    | (Inr s, e', b') \<Rightarrow> guest_memory b' = guest_memory b \<and> engine_inv guestMemory e' \<and>
        (\<exists>st is. eng_scan e' = Some st \<and> selectScanRegionsLocked (sq_Regions q) e = Inr is \<and>
          candidates st = foundBy q (guest_view b) e is \<and> s = \<lparr>sum_Type = sq_Type q, sum_Total = length (candidates st)\<rparr>)) \<and>
    (case RefineScan nq e b of
      (Inl x, e', b') \<Rightarrow> e' = e \<and> guest_memory b' = guest_memory b
    | (Inr s, e', b') \<Rightarrow> guest_memory b' = guest_memory b \<and> engine_inv guestMemory e' \<and>
        (\<exists>st st'. eng_scan e = Some st \<and> eng_scan e' = Some st' \<and> candidates st' = keptBy nq (guest_view b) e st \<and>
          s = \<lparr>sum_Type = ss_valueType st, sum_Total = length (candidates st')\<rparr>)) \<and>
    (case Engine_ScanPage off len e b of
      (Inl x, b') \<Rightarrow> guest_memory b' = guest_memory b
    | (Inr p, b') \<Rightarrow> guest_memory b' = guest_memory b \<and>
        (\<exists>st. eng_scan e = Some st \<and> pg_Matches p =
          map (matchOf (ss_valueType st) e \<circ> nowAt (guest_view b) (ss_valueType st) e)
            (take (nat len) (drop (nat off) (candidates st)))))"
  by (intro conjI StartScan_filters [OF assms] RefineScan_filters [OF assms] ScanPage_filters [OF assms])

definition sampleScan :: ScanRequest where
  "sampleScan = \<lparr>sq_Type = TypeUint16, sq_Comparison = CompareEqual, sq_Value = Some \<lparr>val_Type = TypeUint16, val_Bits = 0\<rparr>,
     sq_Alignment = 0, sq_Regions = []\<rparr>"

lemma sample_found: "foundBy sampleScan (guest_view sampleBackend) sampleEngine [0] = [(0, 0, [0, 0]), (0, 2, [0, 0])]"
proof -
  let ?r = "eng_regions sampleEngine ! 0"
  have "[0..<4] = [0, 1, 2, 3 :: nat]" by (simp add: upt_rec)
  then have pos: "positions ?r 2 2 = [0, 2]" by (simp add: positions_def sampleEngine_def)
  have zero: "spanBytes (guest_view sampleBackend) (0x1000 + k) 2 = [0, 0]" if "k \<in> {0, 2}" for k
    using that by (auto simp: spanBytes_def guest_view_def sampleBackend_memory span_def upt_rec)
  have holds: "initialHolds CompareEqual (Some \<lparr>val_Type = TypeUint16, val_Bits = 0\<rparr>) (valueOf TypeUint16 EndianLittle [0, 0])"
    by code_simp
  have al: "unat (scanAlignment sampleScan) = 2" "eng_byteOrder sampleEngine = EndianLittle"
    by (simp_all add: scanAlignment_def sampleScan_def sampleEngine_def)
  show ?thesis
    unfolding foundBy_def specStart_def al
    using pos zero [of 0] zero [of 2] holds by (simp add: sampleScan_def regionAddress_def sampleEngine_def)
qed

theorem scan_sessions_filter_witness:
  "\<exists>e b st. StartScan sampleScan sampleEngine sampleBackend = (Inr \<lparr>sum_Type = TypeUint16, sum_Total = 2\<rparr>, e, b) \<and>
     eng_scan e = Some st \<and> candidates st = [(0, 0, [0, 0]), (0, 2, [0, 0])] \<and> guest_memory b = guest_memory sampleBackend"
proof -
  have four: "replicate 4 (0 :: u8) = [0, 0, 0, 0]" by (simp add: numeral_eq_Suc)
  obtain h where rd: "ReadMemory 0x1000 4 sampleBackend = (Inr [0, 0, 0, 0], sampleBackend\<lparr>regionHints := h\<rparr>)"
    using sample_zeros [of "0x1000" 4] unfolding four by auto
  have sel: "selectScanRegionsLocked [] sampleEngine = (Inr [0] :: cpu_error cheatError + nat list)"
    by (simp add: selectScanRegionsLocked_def sampleEngine_def Let_def)
  have snaps: "readScanRegionsLocked [0] sampleEngine sampleBackend =
      (Inr [0 \<mapsto> [0, 0, 0, 0]], sampleBackend\<lparr>regionHints := h\<rparr>)"
    using rd by (simp add: readScanRegionsLocked_def readMem_def sampleEngine_def guestMemory_def DefaultMaxScanBytes_def Let_def)
  have "isl (startRegions sampleScan (sq_Value sampleScan) 2 0 EndianLittle (eng_regions sampleEngine) [0 \<mapsto> [0, 0, 0, 0]] [0] 0 []
      :: cpu_error cheatError + nat \<times> scanRegion list) = False" by code_simp
  then obtain n parts where "startRegions sampleScan (sq_Value sampleScan) 2 0 EndianLittle (eng_regions sampleEngine)
      [0 \<mapsto> [0, 0, 0, 0]] [0] 0 [] = (Inr (n, parts) :: cpu_error cheatError + nat \<times> scanRegion list)"
    by (metis isl_def sum.exhaust surj_pair)
  moreover have "ValueType_Valid (sq_Type sampleScan)" "Comparison_Valid (sq_Comparison sampleScan)"
    "\<not> needsPrevious (sq_Comparison sampleScan)" "target_ok (sq_Type sampleScan) (sq_Comparison sampleScan) (sq_Value sampleScan)"
    "sq_Alignment sampleScan = 0" "of_nat (ValueType_Size (sq_Type sampleScan)) = (2 :: u32)" "sq_Regions sampleScan = []"
    by (simp_all add: sampleScan_def needsPrevious_def target_ok_def needsTarget_def value_ok_def Value_Validate_def)
  moreover have "eng_byteOrder sampleEngine = EndianLittle" by (simp add: sampleEngine_def)
  ultimately have "\<exists>s e b. StartScan sampleScan sampleEngine sampleBackend = (Inr s, e, b)"
    using sel snaps
    unfolding StartScan_def startScanLocked_def validateScanTarget_ok by (simp add: Let_def del: startRegions.simps)
  then obtain s e b where st: "StartScan sampleScan sampleEngine sampleBackend = (Inr s, e, b)" by blast
  have "sq_Regions sampleScan = []" "sq_Type sampleScan = TypeUint16" by (simp_all add: sampleScan_def)
  then show ?thesis
    using conjunct1 [OF scan_sessions_filter [where q = sampleScan, OF Engine_New_inv [OF sampleEngine_New] sample_guest]] st sel sample_found
    by (auto simp: sampleScan_def)
qed

end
