(* ===== verification/System_Sparse.thy ===== *)
theory System_Sparse
  imports Service_Prelude
begin

text \<open>
  Sparse memory, src/system/sparse_ram.go: a large window whose pages are allocated when a byte
  of theirs becomes nonzero and dropped when the last nonzero byte goes, with its saved form.
  The abstraction \<open>sparseByte\<close> is the byte at an offset; the invariant \<open>sparse_ok\<close> makes the
  representation canonical, so the bytes determine the pages.
\<close>

subsection \<open>State and operations\<close>

definition sparseRAMPageSize :: u32 where "sparseRAMPageSize = 4096"

record sparseRAM =
  sp_pages :: "u32 \<rightharpoonup> u8 list"
  sp_nonzero :: "u32 \<rightharpoonup> u32"

datatype sparseError = ErrSparsePage u32 | ErrSparseTooLarge | ErrSparseState

definition newSparseRAM :: sparseRAM where
  "newSparseRAM = \<lparr>sp_pages = Map.empty, sp_nonzero = Map.empty\<rparr>"

text \<open>A key that a Go map does not have reads as zero.\<close>

definition nonzeroCount :: "sparseRAM \<Rightarrow> u32 \<Rightarrow> u32" where
  "nonzeroCount m i = (case sp_nonzero m i of None \<Rightarrow> 0 | Some n \<Rightarrow> n)"

definition allZero :: "u8 list \<Rightarrow> bool" where
  "allZero data \<longleftrightarrow> list_all (\<lambda>v. v = 0) data"

definition chunkSize :: "u32 \<Rightarrow> nat \<Rightarrow> nat" where
  "chunkSize offset n = min n (unat (sparseRAMPageSize - offset mod sparseRAMPageSize))"

lemma page_offset [simp]: "unat (offset mod sparseRAMPageSize) = unat (offset :: u32) mod 4096"
  by (simp add: sparseRAMPageSize_def unat_mod)

lemma page_rest [simp]: "unat (sparseRAMPageSize - offset mod sparseRAMPageSize) = 4096 - unat (offset :: u32) mod 4096"
proof -
  have "unat (offset mod sparseRAMPageSize) \<le> unat sparseRAMPageSize"
    unfolding page_offset by (simp add: sparseRAMPageSize_def)
  then have "offset mod sparseRAMPageSize \<le> sparseRAMPageSize" unfolding word_le_nat_alt .
  then show ?thesis using page_offset [of offset] by (simp add: unat_sub sparseRAMPageSize_def)
qed

lemma chunkSize_nat: "chunkSize offset n = min n (4096 - unat offset mod 4096)"
  unfolding chunkSize_def page_rest ..

lemma chunkSize_pos: "0 < n \<Longrightarrow> 0 < chunkSize offset n"
  by (simp add: chunkSize_nat)

lemma chunkSize_le: "chunkSize offset n \<le> n"
  by (simp add: chunkSize_nat)

function sparseRead :: "u32 \<Rightarrow> nat \<Rightarrow> sparseRAM \<Rightarrow> u8 list" where
  "sparseRead offset n m =
     (if n = 0 then []
      else
        let pageIndex = offset div sparseRAMPageSize;
            count = chunkSize offset n;
            bytes = (case sp_pages m pageIndex of
                       Some page \<Rightarrow> slice page (unat (offset mod sparseRAMPageSize)) count
                     | None \<Rightarrow> replicate count 0)
        in bytes @ sparseRead (offset + of_nat count) (n - count) m)"
  by pat_completeness auto
termination
  by (relation "measure (\<lambda>(_, n, _). n)") (simp_all add: chunkSize_pos)

declare sparseRead.simps [simp del]

text \<open>The loop over the bytes of one page; the count of nonzero bytes goes along.\<close>

fun storePage :: "nat \<Rightarrow> u8 list \<Rightarrow> u8 list \<Rightarrow> u32 \<Rightarrow> u8 list \<times> u32" where
  "storePage position [] page nonzero = (page, nonzero)"
| "storePage position (v # vs) page nonzero =
     (let previous = page ! position;
          nonzero = (if previous = 0 \<and> v \<noteq> 0 then nonzero + 1 else if previous \<noteq> 0 \<and> v = 0 then nonzero - 1 else nonzero)
      in storePage (position + 1) vs (page[position := v]) nonzero)"

definition writePage :: "u32 \<Rightarrow> nat \<Rightarrow> u8 list \<Rightarrow> u8 list \<Rightarrow> sparseRAM \<Rightarrow> sparseRAM" where
  "writePage pageIndex pageOffset chunk page m =
     (let (page, nonzero) = storePage pageOffset chunk page (nonzeroCount m pageIndex) in
      if nonzero = 0
      then m\<lparr>sp_pages := (sp_pages m)(pageIndex := None), sp_nonzero := (sp_nonzero m)(pageIndex := None)\<rparr>
      else m\<lparr>sp_pages := (sp_pages m)(pageIndex \<mapsto> page), sp_nonzero := (sp_nonzero m)(pageIndex \<mapsto> nonzero)\<rparr>)"

function sparseWrite :: "u32 \<Rightarrow> u8 list \<Rightarrow> sparseRAM \<Rightarrow> sparseRAM" where
  "sparseWrite offset source m =
     (if source = [] then m
      else
        let pageIndex = offset div sparseRAMPageSize;
            pageOffset = unat (offset mod sparseRAMPageSize);
            count = chunkSize offset (length source);
            chunk = take count source;
            m = (case sp_pages m pageIndex of
                   None \<Rightarrow> if allZero chunk then m
                           else writePage pageIndex pageOffset chunk (replicate (unat sparseRAMPageSize) 0) m
                 | Some page \<Rightarrow> writePage pageIndex pageOffset chunk page m)
        in sparseWrite (offset + of_nat count) (drop count source) m)"
  by pat_completeness auto
termination
  by (relation "measure (\<lambda>(_, source, _). length source)") (simp_all add: chunkSize_pos)

declare sparseWrite.simps [simp del]

definition sparseReset :: "sparseRAM \<Rightarrow> sparseRAM" where
  "sparseReset m = newSparseRAM"

subsection \<open>Saved form\<close>

definition sparseHeader :: "u8 list" where
  "sparseHeader = [0x53, 0x50, 0x52, 0x4D] @ PutUint32 1 @ PutUint32 sparseRAMPageSize"

definition sparsePageBad :: "u32 \<Rightarrow> sparseRAM \<Rightarrow> u32 \<Rightarrow> bool" where
  "sparsePageBad sz m i \<longleftrightarrow>
     unat sz \<le> unat i * 4096 \<or> length (the (sp_pages m i)) \<noteq> 4096 \<or> nonzeroCount m i = 0"

text \<open>The first invalid page in the order of the map is reported; which one it is, is left to the map.\<close>

definition sparseSave :: "u32 \<Rightarrow> sparseRAM \<Rightarrow> sparseError + u8 list" where
  "sparseSave sz m =
     (let indices = sorted_list_of_set (dom (sp_pages m)) in
      case filter (sparsePageBad sz m) indices of
        i # _ \<Rightarrow> Inl (ErrSparsePage i)
      | [] \<Rightarrow>
          let stateSize = 16 + length indices * (4 + 4096) in
          if 2 ^ 32 - 1 < stateSize then Inl ErrSparseTooLarge
          else Inr (sparseHeader @ PutUint32 (of_nat (length indices)) @
                 concat (map (\<lambda>i. PutUint32 i @ the (sp_pages m i)) indices)))"

text \<open>The sums of the decoder are 64-bit sums of 32-bit values: they are naturals here.\<close>

fun decodePages :: "nat \<Rightarrow> u32 \<Rightarrow> u8 list \<Rightarrow> sparseRAM \<Rightarrow> sparseError + sparseRAM" where
  "decodePages 0 sz state decoded = Inr decoded"
| "decodePages (Suc n) sz state decoded =
     (let pageIndex = Uint32 (take 4 state);
          pageEnd = unat (pageIndex + 1) * 4096
      in
      if unat sz \<le> unat pageIndex * 4096 \<or> pageEnd < unat pageIndex * 4096 \<or> sp_pages decoded pageIndex \<noteq> None
      then Inl ErrSparseState
      else
        let page = slice state 4 4096;
            nonzero = (of_nat (length page - length (filter (\<lambda>v. v = 0) page)) :: u32)
        in
        if nonzero = 0 then Inl ErrSparseState
        else if unat sz < pageEnd \<and> \<not> allZero (drop (unat sz - unat pageIndex * 4096) page) then Inl ErrSparseState
        else decodePages n sz (drop (4 + 4096) state)
          \<lparr>sp_pages = (sp_pages decoded)(pageIndex \<mapsto> page), sp_nonzero = (sp_nonzero decoded)(pageIndex \<mapsto> nonzero)\<rparr>)"

definition decodeSparseRAMState :: "u32 \<Rightarrow> u8 list \<Rightarrow> sparseError + sparseRAM" where
  "decodeSparseRAMState sz state =
     (if length state < 16 \<or> take 12 state \<noteq> sparseHeader then Inl ErrSparseState
      else
        let pageCount = unat (Uint32 (slice state 12 4)) in
        if 16 + pageCount * (4 + 4096) \<noteq> length state then Inl ErrSparseState
        else decodePages pageCount sz (drop 16 state) newSparseRAM)"

subsection \<open>The bytes of a sparse memory\<close>

definition nonzeros :: "u8 list \<Rightarrow> nat" where
  "nonzeros page = length (filter (\<lambda>v. v \<noteq> 0) page)"

definition pageAt :: "sparseRAM \<Rightarrow> u32 \<Rightarrow> u8 list" where
  "pageAt m i = (case sp_pages m i of None \<Rightarrow> replicate 4096 0 | Some page \<Rightarrow> page)"

definition sparseByte :: "sparseRAM \<Rightarrow> nat \<Rightarrow> u8" where
  "sparseByte m x = pageAt m (of_nat (x div 4096)) ! (x mod 4096)"

definition sparse_ok :: "sparseRAM \<Rightarrow> bool" where
  "sparse_ok m \<longleftrightarrow> dom (sp_nonzero m) = dom (sp_pages m) \<and>
     (\<forall>i page. sp_pages m i = Some page \<longrightarrow>
        unat i < 2 ^ 20 \<and> length page = 4096 \<and> nonzeros page \<noteq> 0 \<and> sp_nonzero m i = Some (of_nat (nonzeros page)))"

definition sparse_within :: "nat \<Rightarrow> sparseRAM \<Rightarrow> bool" where
  "sparse_within sz m \<longleftrightarrow> (\<forall>x. sz \<le> x \<longrightarrow> x < 2 ^ 32 \<longrightarrow> sparseByte m x = 0)"

lemma nonzeros_replicate [simp]: "nonzeros (replicate n 0) = 0"
  by (simp add: nonzeros_def)

lemma nonzeros_le: "nonzeros page \<le> length page"
  by (simp add: nonzeros_def)

lemma nonzeros_zero: "nonzeros page = 0 \<longleftrightarrow> page = replicate (length page) 0"
proof
  assume "nonzeros page = 0"
  then have "\<forall>v \<in> set page. v = 0" by (simp add: nonzeros_def filter_empty_conv)
  then show "page = replicate (length page) 0" by (simp add: replicate_length_same)
next
  assume "page = replicate (length page) 0"
  then show "nonzeros page = 0" using nonzeros_replicate by metis
qed

lemma nonzeros_update:
  "i < length page \<Longrightarrow>
     nonzeros (page[i := v]) + (if page ! i = 0 then 0 else 1) = nonzeros page + (if v = 0 then 0 else 1)"
proof (induction page arbitrary: i)
  case (Cons a page)
  show ?case
  proof (cases i)
    case (Suc j)
    then show ?thesis using Cons.IH [of j] Cons.prems by (simp add: nonzeros_def split: if_splits)
  qed (simp add: nonzeros_def)
qed simp

lemma of_nat_zero_small: "n \<le> 4096 \<Longrightarrow> (of_nat n :: u32) = 0 \<longleftrightarrow> n = 0"
  using unat_of_nat_u32 [of n] by (auto simp: unat_eq_zero [symmetric])

lemma overwrite_Cons:
  assumes "pos < length page"
  shows "overwrite (page[pos := v]) (Suc pos) vs = overwrite page pos (v # vs)"
proof -
  have "take (Suc pos) (page[pos := v]) = take pos page @ [v]"
    using assms by (simp add: take_Suc_conv_app_nth take_update_cancel)
  then show ?thesis by (simp add: overwrite_def)
qed

lemma storePage_spec:
  "pos + length vs \<le> length page \<Longrightarrow>
     storePage pos vs page (of_nat (nonzeros page)) = (overwrite page pos vs, of_nat (nonzeros (overwrite page pos vs)))"
proof (induction vs arbitrary: pos page)
  case Nil
  then show ?case by (simp add: overwrite_def)
next
  case (Cons v vs)
  note step = nonzeros_update [of pos page v]
  have "(of_nat (nonzeros (page[pos := v])) :: u32) =
      (if page ! pos = 0 \<and> v \<noteq> 0 then of_nat (nonzeros page) + 1
       else if page ! pos \<noteq> 0 \<and> v = 0 then of_nat (nonzeros page) - 1 else of_nat (nonzeros page))"
    using step Cons.prems by (auto split: if_splits simp flip: of_nat_Suc simp: algebra_simps)
  then have "storePage pos (v # vs) page (of_nat (nonzeros page)) =
      storePage (Suc pos) vs (page[pos := v]) (of_nat (nonzeros (page[pos := v])))"
    by (simp only: storePage.simps Let_def Suc_eq_plus1)
  then show ?case using Cons.IH [of "Suc pos" "page[pos := v]"] Cons.prems by (simp add: overwrite_Cons)
qed

lemma sparse_ok_new [simp]: "sparse_ok newSparseRAM"
  by (simp add: sparse_ok_def newSparseRAM_def)

lemma sparseByte_new [simp]: "sparseByte newSparseRAM x = 0"
  by (simp add: sparseByte_def pageAt_def newSparseRAM_def)

lemma length_pageAt: "sparse_ok m \<Longrightarrow> length (pageAt m i) = 4096"
  by (auto simp: pageAt_def sparse_ok_def split: option.splits)

lemma nonzeroCount_pageAt: "sparse_ok m \<Longrightarrow> nonzeroCount m i = of_nat (nonzeros (pageAt m i))"
  by (cases "sp_pages m i") (force simp: nonzeroCount_def pageAt_def sparse_ok_def dom_def split: option.splits)+

lemma writePage_spec:
  assumes m: "sparse_ok m" and fit: "off + length chunk \<le> 4096" and i: "unat i < 2 ^ 20"
  shows "sparse_ok (writePage i off chunk (pageAt m i) m)"
    "pageAt (writePage i off chunk (pageAt m i) m) j =
       (if j = i then overwrite (pageAt m i) off chunk else pageAt m j)"
proof -
  let ?p = "overwrite (pageAt m i) off chunk"
  have len: "length ?p = 4096" using fit length_pageAt [OF m] by simp
  have "nonzeros ?p \<le> 4096" using nonzeros_le [of ?p] len by simp
  note zero = of_nat_zero_small [OF this]
  have store: "storePage off chunk (pageAt m i) (nonzeroCount m i) = (?p, of_nat (nonzeros ?p))"
    unfolding nonzeroCount_pageAt [OF m] by (rule storePage_spec) (use fit length_pageAt [OF m] in simp)
  show "sparse_ok (writePage i off chunk (pageAt m i) m)"
    using m len zero i by (auto simp: writePage_def store sparse_ok_def dom_def split: if_splits)
  have zeros: "?p = replicate 4096 0" if "nonzeros ?p = 0" using that nonzeros_zero [of ?p] len by simp
  have upd: "pageAt (m\<lparr>sp_pages := P, sp_nonzero := Q\<rparr>) j = (case P j of None \<Rightarrow> replicate 4096 0 | Some page \<Rightarrow> page)"
    for P Q by (simp add: pageAt_def)
  have other: "(case sp_pages m j of None \<Rightarrow> replicate 4096 0 | Some page \<Rightarrow> page) = pageAt m j"
    by (simp add: pageAt_def)
  show "pageAt (writePage i off chunk (pageAt m i) m) j = (if j = i then ?p else pageAt m j)"
    by (cases "nonzeros ?p = 0") (simp_all add: writePage_def store zero upd zeros other)
qed

lemma unat_u32_less: "unat (x :: u32) < 2 ^ 32"
  using unsigned_less [of x] by simp

lemma unat_suc_u32: "unat x < 2 ^ 32 - 1 \<Longrightarrow> unat (x + 1) = unat (x :: u32) + 1"
  using unat_of_nat_u32 [of "unat x + 1"] by (simp add: add.commute)

lemma page_index [simp]: "offset div sparseRAMPageSize = (of_nat (unat (offset :: u32) div 4096) :: u32)"
proof -
  have "unat (offset div sparseRAMPageSize) = unat (of_nat (unat offset div 4096) :: u32)"
    using unat_u32_less [of offset] by (simp add: sparseRAMPageSize_def unat_div unat_of_nat_u32)
  then show ?thesis by (simp only: word_unat_eq_iff)
qed

lemma page_index_eq:
  assumes "x < 2 ^ 32" "y < 2 ^ 32"
  shows "(of_nat (x div 4096) :: u32) = of_nat (y div 4096) \<longleftrightarrow> x div 4096 = y div 4096"
proof
  assume "(of_nat (x div 4096) :: u32) = of_nat (y div 4096)"
  then have "unat (of_nat (x div 4096) :: u32) = unat (of_nat (y div 4096) :: u32)" by simp
  then show "x div 4096 = y div 4096" using assms by (simp add: unat_of_nat_u32)
qed simp

text \<open>Positions within a page around \<open>a\<close>.\<close>

lemma same_page:
  fixes a y :: nat
  shows "y div 4096 = a div 4096 \<longleftrightarrow> a - a mod 4096 \<le> y \<and> y < a - a mod 4096 + 4096"
    and "y div 4096 = a div 4096 \<Longrightarrow> y mod 4096 = a mod 4096 + y - a"
proof -
  have a: "a - a mod 4096 = 4096 * (a div 4096)" by (simp add: minus_mod_eq_mult_div)
  have y: "y = 4096 * (y div 4096) + y mod 4096" by simp
  show "y div 4096 = a div 4096 \<longleftrightarrow> a - a mod 4096 \<le> y \<and> y < a - a mod 4096 + 4096"
  proof
    assume "y div 4096 = a div 4096"
    then show "a - a mod 4096 \<le> y \<and> y < a - a mod 4096 + 4096"
      unfolding a using y mod_less_divisor [of 4096 y] by linarith
  next
    assume b: "a - a mod 4096 \<le> y \<and> y < a - a mod 4096 + 4096"
    show "y div 4096 = a div 4096" by (rule div_nat_eqI) (use b a in simp_all)
  qed
  assume e: "y div 4096 = a div 4096"
  have "a = 4096 * (a div 4096) + a mod 4096" by simp
  with y e show "y mod 4096 = a mod 4096 + y - a" by linarith
qed

lemma write_chunk:
  fixes offset :: u32
  assumes m: "sparse_ok m" and chunk: "length chunk \<le> 4096 - unat offset mod 4096"
    and page: "case sp_pages m (of_nat (unat offset div 4096)) of
        None \<Rightarrow> if allZero chunk then m' = m
                else m' = writePage (of_nat (unat offset div 4096)) (unat offset mod 4096) chunk (replicate 4096 0) m
      | Some p \<Rightarrow> m' = writePage (of_nat (unat offset div 4096)) (unat offset mod 4096) chunk p m"
  shows "sparse_ok m'" and "x < 2 ^ 32 \<Longrightarrow> sparseByte m' x =
      (if unat offset \<le> x \<and> x < unat offset + length chunk then chunk ! (x - unat offset) else sparseByte m x)"
proof -
  let ?a = "unat offset" and ?i = "of_nat (unat offset div 4096) :: u32"
  have fit: "?a mod 4096 + length chunk \<le> 4096" using chunk mod_less_divisor [of 4096 ?a] by linarith
  have i: "unat ?i < 2 ^ 20"
    using unat_u32_less [of offset] by (simp add: unat_of_nat_u32 less_mult_imp_div_less)
  have cases: "m' = m \<and> pageAt m ?i = replicate 4096 0 \<and> chunk = replicate (length chunk) 0 \<or>
      m' = writePage ?i (?a mod 4096) chunk (pageAt m ?i) m"
    using page by (auto simp: pageAt_def allZero_def list_all_iff replicate_length_same split: option.splits if_splits)
  then show "sparse_ok m'" using writePage_spec(1) [OF m fit i] m by auto
  have p: "pageAt m' j = (if j = ?i then overwrite (pageAt m ?i) (?a mod 4096) chunk else pageAt m j)" for j
  proof (cases "m' = m")
    case True
    show ?thesis
    proof (cases "m' = writePage ?i (?a mod 4096) chunk (pageAt m ?i) m")
      case False
      with cases have z: "pageAt m ?i = replicate 4096 0" "chunk = replicate (length chunk) 0" by auto
      have "overwrite (replicate 4096 0) (?a mod 4096) (replicate (length chunk) 0) = (replicate 4096 0 :: u8 list)"
        by (rule replicate_eqI) (use fit in \<open>auto simp: overwrite_def\<close>)
      then show ?thesis using z True by simp
    qed (use writePage_spec(2) [OF m fit i] in simp)
  qed (use cases writePage_spec(2) [OF m fit i] in auto)
  assume x: "x < 2 ^ 32"
  have same: "(of_nat (x div 4096) :: u32) = ?i \<longleftrightarrow> x div 4096 = ?a div 4096"
    using page_index_eq [OF x, of "unat offset"] unat_u32_less [of offset] by blast
  have inside: "x div 4096 = ?a div 4096" if "?a \<le> x" "x < ?a + length chunk"
    using that fit unfolding same_page(1) by linarith
  show "sparseByte m' x = (if ?a \<le> x \<and> x < ?a + length chunk then chunk ! (x - ?a) else sparseByte m x)"
  proof (cases "x div 4096 = ?a div 4096")
    case True
    note pos = same_page(2) [OF True]
    have "x mod 4096 < 4096" by simp
    then have "sparseByte m' x = (if ?a mod 4096 \<le> x mod 4096 \<and> x mod 4096 < ?a mod 4096 + length chunk
        then chunk ! (x mod 4096 - ?a mod 4096) else sparseByte m x)"
      using True same fit length_pageAt [OF m] by (simp add: sparseByte_def p nth_overwrite)
    moreover have "?a mod 4096 \<le> x mod 4096 \<and> x mod 4096 < ?a mod 4096 + length chunk \<longleftrightarrow> ?a \<le> x \<and> x < ?a + length chunk"
    proof -
      have "?a - ?a mod 4096 \<le> x" using True unfolding same_page(1) by blast
      then show ?thesis using pos by linarith
    qed
    moreover have "x mod 4096 - ?a mod 4096 = x - ?a" if "?a \<le> x" using pos that by linarith
    ultimately show ?thesis by auto
  next
    case False
    then have "\<not> (?a \<le> x \<and> x < ?a + length chunk)" using inside by blast
    then have "(if ?a \<le> x \<and> x < ?a + length chunk then chunk ! (x - ?a) else sparseByte m x) = sparseByte m x" by (rule if_not_P)
    then show ?thesis using False same by (simp add: sparseByte_def p)
  qed
qed

lemma offset_step:
  assumes "unat (offset :: u32) + n \<le> 2 ^ 32" "count < n"
  shows "unat (offset + of_nat count) = unat offset + count"
proof -
  have c: "unat (of_nat count :: u32) = count" by (rule unat_of_nat_u32) (use assms in linarith)
  have "unat offset + unat (of_nat count :: u32) < 2 ^ LENGTH(32)" using assms c by simp
  then show ?thesis using c by (simp add: unat_add_lem [THEN iffD1])
qed

lemma sparseWrite_spec:
  assumes "sparse_ok m" "unat offset + length source \<le> 2 ^ 32"
  shows "sparse_ok (sparseWrite offset source m) \<and> (\<forall>x < 2 ^ 32. sparseByte (sparseWrite offset source m) x =
      (if unat offset \<le> x \<and> x < unat offset + length source then source ! (x - unat offset) else sparseByte m x))"
  using assms
proof (induction offset source m rule: sparseWrite.induct)
  case (1 offset source m)
  show ?case
  proof (cases "source = []")
    case True
    then have "sparseWrite offset source m = m" by (simp add: sparseWrite.simps)
    then show ?thesis using "1.prems"(1) unfolding True by auto
  next
    case False
    define count where "count = chunkSize offset (length source)"
    define chunk where "chunk = take count source"
    define m' where "m' = (case sp_pages m (of_nat (unat offset div 4096)) of
        None \<Rightarrow> if allZero chunk then m
                else writePage (of_nat (unat offset div 4096)) (unat offset mod 4096) chunk (replicate 4096 0) m
      | Some page \<Rightarrow> writePage (of_nat (unat offset div 4096)) (unat offset mod 4096) chunk page m)"
    have size: "unat sparseRAMPageSize = 4096" by (simp add: sparseRAMPageSize_def)
    have c: "0 < count" "count \<le> length source" "count \<le> 4096 - unat offset mod 4096"
      using False chunkSize_pos [of "length source" offset] by (simp_all add: count_def chunkSize_nat)
    have len: "length chunk = count" using c by (simp add: chunk_def)
    have idx: "of_nat (unat offset div 4096) = offset div sparseRAMPageSize" by simp
    have offm: "unat offset mod 4096 = unat (offset mod sparseRAMPageSize)" by simp
    have rec: "sparseWrite offset source m = sparseWrite (offset + of_nat count) (drop count source) m'"
      by (subst sparseWrite.simps)
        (simp only: False if_False Let_def page_index page_offset size m'_def chunk_def count_def)
    have step: "sparse_ok m'" "\<And>x. x < 2 ^ 32 \<Longrightarrow> sparseByte m' x =
        (if unat offset \<le> x \<and> x < unat offset + count then chunk ! (x - unat offset) else sparseByte m x)"
      using write_chunk [OF "1.prems"(1), of chunk offset m'] c len
      by (simp_all add: m'_def split: option.split)
    show ?thesis
    proof (cases "count = length source")
      case True
      then show ?thesis using step unfolding rec
        by (simp add: sparseWrite.simps [of _ "[]"] chunk_def)
    next
      case less: False
      have off: "unat (offset + of_nat count) = unat offset + count"
        by (rule offset_step [OF "1.prems"(2)]) (use c less in simp)
      have "sparse_ok (sparseWrite (offset + of_nat count) (drop count source) m') \<and>
        (\<forall>x < 2 ^ 32. sparseByte (sparseWrite (offset + of_nat count) (drop count source) m') x =
          (if unat (offset + of_nat count) \<le> x \<and> x < unat (offset + of_nat count) + length (drop count source)
           then drop count source ! (x - unat (offset + of_nat count)) else sparseByte m' x))"
        by (rule "1.IH" [OF False idx offm count_def chunk_def])
          (simp only: m'_def size, rule step(1), use off c "1.prems"(2) in simp)
      then show ?thesis unfolding rec off using step(2) c
        by (auto simp: chunk_def nth_append)
    qed
  qed
qed

lemma sparseRead_spec:
  assumes "sparse_ok m" "unat offset + n \<le> 2 ^ 32"
  shows "sparseRead offset n m = map (sparseByte m) [unat offset ..< unat offset + n]"
  using assms
proof (induction offset n m rule: sparseRead.induct)
  case (1 offset n m)
  show ?case
  proof (cases "n = 0")
    case True
    then show ?thesis by (simp add: sparseRead.simps)
  next
    case False
    let ?a = "unat offset"
    define count where "count = chunkSize offset n"
    have c: "0 < count" "count \<le> n" "count \<le> 4096 - ?a mod 4096"
      using False chunkSize_pos [of n offset] by (simp_all add: count_def chunkSize_nat)
    have rec: "sparseRead offset n m = slice (pageAt m (of_nat (?a div 4096))) (?a mod 4096) count @
        sparseRead (offset + of_nat count) (n - count) m"
      using c(3) False by (subst sparseRead.simps)
        (simp add: Let_def count_def [symmetric] pageAt_def slice_def split: option.split)
    have fit: "?a mod 4096 + count \<le> length (pageAt m (of_nat (?a div 4096)))"
      using c(3) mod_less_divisor [of 4096 ?a] by (simp add: length_pageAt [OF "1.prems"(1)])
    have first: "slice (pageAt m (of_nat (?a div 4096))) (?a mod 4096) count = map (sparseByte m) [?a ..< ?a + count]"
    proof (rule nth_equalityI)
      fix i assume "i < length (slice (pageAt m (of_nat (?a div 4096))) (?a mod 4096) count)"
      then have i: "i < count" using fit by simp
      have d: "(?a + i) div 4096 = ?a div 4096"
        using i c(3) unfolding same_page(1) by linarith
      moreover have "(?a + i) mod 4096 = ?a mod 4096 + i" unfolding same_page(2) [OF d] by simp
      ultimately show "slice (pageAt m (of_nat (?a div 4096))) (?a mod 4096) count ! i =
          map (sparseByte m) [?a ..< ?a + count] ! i"
        using i fit by (simp add: nth_slice sparseByte_def)
    qed (use fit in simp)
    have "sparseRead (offset + of_nat count) (n - count) m = map (sparseByte m) [?a + count ..< ?a + n]"
    proof (cases "count = n")
      case True
      then show ?thesis by (simp add: sparseRead.simps [of _ 0])
    next
      case less: False
      have off: "unat (offset + of_nat count) = ?a + count"
        by (rule offset_step [OF "1.prems"(2)]) (use c less in simp)
      have "sparseRead (offset + of_nat count) (n - count) m =
          map (sparseByte m) [unat (offset + of_nat count) ..< unat (offset + of_nat count) + (n - count)]"
        by (rule "1.IH" [OF False refl count_def refl "1.prems"(1)]) (use off c "1.prems"(2) in simp)
      then show ?thesis using off c by simp
    qed
    then show ?thesis unfolding rec first
      using upt_add_eq_append [of ?a "?a + count" "n - count"] c by simp
  qed
qed

lemma sparse_none: "sparse_ok m \<Longrightarrow> sp_pages m i = None \<Longrightarrow> sp_nonzero m i = None"
  by (metis domIff sparse_ok_def)

lemma sparse_some:
  assumes "sparse_ok m" "sp_pages m i = Some page"
  shows "unat i < 2 ^ 20" "length page = 4096" "nonzeros page \<noteq> 0" "sp_nonzero m i = Some (of_nat (nonzeros page))"
    "nonzeroCount m i \<noteq> 0"
proof -
  show p: "unat i < 2 ^ 20" "length page = 4096" "nonzeros page \<noteq> 0" "sp_nonzero m i = Some (of_nat (nonzeros page))"
    using assms by (auto simp: sparse_ok_def)
  then show "nonzeroCount m i \<noteq> 0" using of_nat_zero_small [of "nonzeros page"] nonzeros_le [of page]
    by (simp add: nonzeroCount_def)
qed

text \<open>The bytes determine the representation.\<close>

lemma sparse_canonical:
  assumes "sparse_ok m" "sparse_ok m'" and "\<And>x. x < 2 ^ 32 \<Longrightarrow> sparseByte m x = sparseByte m' x"
  shows "m = m'"
proof -
  have high: "pageAt m i = replicate 4096 0" if "sparse_ok m" "\<not> unat i < 2 ^ 20" for m i
    using that by (auto simp: pageAt_def sparse_ok_def split: option.split)
  have pages: "pageAt m i = pageAt m' i" for i
  proof (rule nth_equalityI)
    fix k assume "k < length (pageAt m i)"
    then have k: "k < 4096" by (simp add: length_pageAt [OF assms(1)])
    show "pageAt m i ! k = pageAt m' i ! k"
    proof (cases "unat i < 2 ^ 20")
      case True
      then have "4096 * unat i + k < 2 ^ 32" using k by simp
      moreover have "(4096 * unat i + k) div 4096 = unat i" "(4096 * unat i + k) mod 4096 = k" using k by simp_all
      ultimately show ?thesis using assms(3) [of "4096 * unat i + k"] by (simp add: sparseByte_def)
    next
      case False
      then show ?thesis by (simp only: high assms(1,2) False)
    qed
  qed (simp add: length_pageAt assms)
  have some: "sp_pages m i = (if nonzeros (pageAt m i) = 0 then None else Some (pageAt m i))" if "sparse_ok m" for m i
    using that by (cases "sp_pages m i") (auto simp: pageAt_def sparse_ok_def)
  have counts: "sp_nonzero m i = (if sp_pages m i = None then None else Some (of_nat (nonzeros (pageAt m i))))"
    if "sparse_ok m" for m i
    using that by (cases "sp_pages m i") (auto simp: pageAt_def sparse_none sparse_some)
  have "sp_pages m = sp_pages m'" using some [OF assms(1)] some [OF assms(2)] pages by auto
  moreover have "sp_nonzero m = sp_nonzero m'"
    using counts [OF assms(1)] counts [OF assms(2)] pages \<open>sp_pages m = sp_pages m'\<close> by auto
  ultimately show ?thesis by simp
qed

subsection \<open>Saving and loading\<close>

lemma byte_in_page:
  assumes "sp_pages m i = Some page" "k < 4096" "unat i < 2 ^ 20"
  shows "sparseByte m (unat i * 4096 + k) = page ! k"
proof -
  have "(unat i * 4096 + k) div 4096 = unat i" "(unat i * 4096 + k) mod 4096 = k" using assms(2) by simp_all
  then show ?thesis using assms(1) by (simp add: sparseByte_def pageAt_def)
qed

lemma page_in_window:
  assumes "sparse_ok m" "sparse_within sz m" "sp_pages m i = Some page"
  shows "unat i * 4096 < sz" and "sz < unat i * 4096 + 4096 \<Longrightarrow> allZero (drop (sz - unat i * 4096) page)"
proof -
  note p = sparse_some [OF assms(1,3)]
  have byte: "sparseByte m (unat i * 4096 + k) = page ! k" if "k < 4096" for k
    by (rule byte_in_page) (use assms(3) p(1) that in auto)
  have bound: "unat i * 4096 + k < 2 ^ 32" if "k < 4096" for k using that p(1) by simp
  have zero: "page ! k = 0" if "k < 4096" "sz \<le> unat i * 4096 + k" for k
    using assms(2) byte [OF that(1)] bound [OF that(1)] that(2) by (auto simp: sparse_within_def)
  show "unat i * 4096 < sz"
  proof (rule ccontr)
    assume n: "\<not> unat i * 4096 < sz"
    have "page = replicate 4096 0" by (rule nth_equalityI) (use zero p(2) n in auto)
    then show False using p(3) nonzeros_replicate by metis
  qed
  assume "sz < unat i * 4096 + 4096"
  show "allZero (drop (sz - unat i * 4096) page)"
    unfolding allZero_def list_all_length using zero p(2) by auto
qed

lemma count_zeros: "length page - length (filter (\<lambda>v. v = 0) page) = nonzeros page" for page :: "u8 list"
  using sum_length_filter_compl [of "\<lambda>v. v = 0" page] by (simp add: nonzeros_def)

definition pageBytes :: "sparseRAM \<Rightarrow> u32 \<Rightarrow> u8 list" where
  "pageBytes m i = PutUint32 i @ the (sp_pages m i)"

lemma decodePages_saved:
  assumes m: "sparse_ok m" "sparse_within (unat sz) m"
  shows "distinct is \<Longrightarrow> set is \<subseteq> dom (sp_pages m) \<Longrightarrow> set is \<inter> dom (sp_pages decoded) = {} \<Longrightarrow>
    decodePages (length is) sz (concat (map (pageBytes m) is)) decoded =
      Inr \<lparr>sp_pages = (\<lambda>i. if i \<in> set is then sp_pages m i else sp_pages decoded i),
           sp_nonzero = (\<lambda>i. if i \<in> set is then sp_nonzero m i else sp_nonzero decoded i)\<rparr>"
proof (induction "is" arbitrary: decoded)
  case (Cons i "is")
  obtain page where page: "sp_pages m i = Some page" using Cons.prems(2) by auto
  note p = sparse_some [OF m(1) page] and w = page_in_window [OF m page]
  define rest where "rest = concat (map (pageBytes m) is)"
  have bytes: "concat (map (pageBytes m) (i # is)) = PutUint32 i @ page @ rest"
    by (simp add: rest_def pageBytes_def page)
  have parts: "take 4 (PutUint32 i @ page @ rest) = PutUint32 i" "slice (PutUint32 i @ page @ rest) 4 4096 = page"
      "drop (4 + 4096) (PutUint32 i @ page @ rest) = rest"
    using p(2) by (simp_all add: slice_def)
  have succ: "unat (i + 1) = unat i + 1" by (rule unat_suc_u32) (use p(1) in simp)
  have index: "\<not> (unat sz \<le> unat i * 4096 \<or> unat (i + 1) * 4096 < unat i * 4096 \<or> sp_pages decoded i \<noteq> None)"
    using w(1) succ Cons.prems(3) by auto
  have tail: "\<not> (unat sz < unat (i + 1) * 4096 \<and> \<not> allZero (drop (unat sz - unat i * 4096) page))"
    using w(2) succ by (auto simp: algebra_simps)
  have nz: "(of_nat (nonzeros page) :: u32) \<noteq> 0"
    using of_nat_zero_small [of "nonzeros page"] nonzeros_le [of page] p(2,3) by simp
  have "decodePages (length (i # is)) sz (concat (map (pageBytes m) (i # is))) decoded =
      decodePages (length is) sz rest
        \<lparr>sp_pages = (sp_pages decoded)(i \<mapsto> page), sp_nonzero = (sp_nonzero decoded)(i \<mapsto> of_nat (nonzeros page))\<rparr>"
    unfolding bytes list.size(4) add_0_right add_Suc_right One_nat_def
    by (simp only: decodePages.simps parts Let_def count_zeros Uint32_PutUint32 index tail nz if_False)
  also have "\<dots> = Inr \<lparr>sp_pages = (\<lambda>j. if j \<in> set is then sp_pages m j else ((sp_pages decoded)(i \<mapsto> page)) j),
      sp_nonzero = (\<lambda>j. if j \<in> set is then sp_nonzero m j else ((sp_nonzero decoded)(i \<mapsto> of_nat (nonzeros page))) j)\<rparr>"
    unfolding rest_def by (subst Cons.IH) (use Cons.prems in auto)
  also have "\<dots> = Inr \<lparr>sp_pages = (\<lambda>j. if j \<in> set (i # is) then sp_pages m j else sp_pages decoded j),
      sp_nonzero = (\<lambda>j. if j \<in> set (i # is) then sp_nonzero m j else sp_nonzero decoded j)\<rparr>"
    using page p(4) by (auto simp: fun_eq_iff)
  finally show ?case .
qed simp

lemma if_in_dom: "(\<lambda>i. if i \<in> dom f then f i else None) = f"
proof
  show "(if i \<in> dom f then f i else None) = f i" for i by (cases "f i") (simp_all add: domIff)
qed

lemma sparseSave_ok:
  assumes "sparse_ok m" "sparse_within (unat sz) m"
  shows "sparseSave sz m =
    (let indices = sorted_list_of_set (dom (sp_pages m)) in
     if 2 ^ 32 - 1 < 16 + length indices * 4100 then Inl ErrSparseTooLarge
     else Inr (sparseHeader @ PutUint32 (of_nat (length indices)) @ concat (map (pageBytes m) indices)))"
proof -
  have fin: "finite (dom (sp_pages m))" by simp
  have "\<not> sparsePageBad sz m i" if i: "i \<in> set (sorted_list_of_set (dom (sp_pages m)))" for i
  proof -
    obtain page where page: "sp_pages m i = Some page" using i set_sorted_list_of_set [OF fin] by auto
    show ?thesis
      using page_in_window(1) [OF assms page] sparse_some [OF assms(1) page] page by (simp add: sparsePageBad_def)
  qed
  then have "filter (sparsePageBad sz m) (sorted_list_of_set (dom (sp_pages m))) = []"
    by (simp add: filter_empty_conv)
  then show ?thesis by (simp add: sparseSave_def Let_def pageBytes_def [abs_def])
qed

lemma sparse_save_load:
  assumes "sparse_ok m" "sparse_within (unat sz) m" and save: "sparseSave sz m = Inr state"
  shows "decodeSparseRAMState sz state = Inr m"
proof -
  define indices where "indices = sorted_list_of_set (dom (sp_pages m))"
  have small: "16 + length indices * 4100 \<le> 2 ^ 32 - 1"
    and state: "state = sparseHeader @ PutUint32 (of_nat (length indices)) @ concat (map (pageBytes m) indices)"
    using save unfolding sparseSave_ok [OF assms(1,2)] by (simp_all add: indices_def Let_def split: if_splits)
  have set: "set indices = dom (sp_pages m)" "distinct indices" by (simp_all add: indices_def)
  have head: "length sparseHeader = 12" by (simp add: sparseHeader_def)
  have n: "unat (of_nat (length indices) :: u32) = length indices" by (rule unat_of_nat_u32) (use small in simp)
  have len: "length (concat (map (pageBytes m) is)) = length is * 4100" if "set is \<subseteq> dom (sp_pages m)" for "is"
    using that
  proof (induction "is")
    case (Cons i "is")
    then obtain page where page: "sp_pages m i = Some page" by auto
    then show ?case using Cons sparse_some(2) [OF assms(1) page] by (simp add: pageBytes_def)
  qed simp
  have parts: "slice state 12 4 = PutUint32 (of_nat (length indices))" "drop 16 state = concat (map (pageBytes m) indices)"
      "take 12 state = sparseHeader" "length state = 16 + length indices * 4100"
    using head len [of indices] set(1) by (simp_all add: state slice_def)
  have "decodeSparseRAMState sz state = decodePages (length indices) sz (concat (map (pageBytes m) indices)) newSparseRAM"
    by (simp add: decodeSparseRAMState_def parts n)
  also have "\<dots> = Inr \<lparr>sp_pages = (\<lambda>i. if i \<in> set indices then sp_pages m i else None),
      sp_nonzero = (\<lambda>i. if i \<in> set indices then sp_nonzero m i else None)\<rparr>"
    by (subst decodePages_saved [OF assms(1,2)]) (use set in \<open>auto simp: newSparseRAM_def fun_eq_iff intro: not_sym\<close>)
  also have "\<dots> = Inr m"
  proof -
    have "(\<lambda>i. if i \<in> set indices then sp_pages m i else None) = sp_pages m"
      unfolding set by (rule if_in_dom)
    moreover have "(\<lambda>i. if i \<in> set indices then sp_nonzero m i else None) = sp_nonzero m"
    proof -
      have "dom (sp_nonzero m) = dom (sp_pages m)" using assms(1) by (simp add: sparse_ok_def)
      then show ?thesis unfolding set by (metis if_in_dom)
    qed
    ultimately show ?thesis by simp
  qed
  finally show ?thesis .
qed

lemma allZero_drop:
  assumes "allZero (drop d page)" "d \<le> k" "k < length page"
  shows "page ! k = 0"
proof -
  have "drop d page ! (k - d) = 0" 
    using assms(1) [unfolded allZero_def list_all_length, rule_format, of "k - d"] assms(2,3) by simp
  then show ?thesis using assms(2,3) by simp
qed

lemma decodePages_ok:
  "decodePages n sz state decoded = Inr m \<Longrightarrow> length state = n * 4100 \<Longrightarrow>
     sparse_ok decoded \<Longrightarrow> sparse_within (unat sz) decoded \<Longrightarrow> sparse_ok m \<and> sparse_within (unat sz) m"
proof (induction n arbitrary: state decoded)
  case (Suc n)
  define i where "i = Uint32 (take 4 state)"
  define page where "page = slice state 4 4096"
  define next' where "next' = \<lparr>sp_pages = (sp_pages decoded)(i \<mapsto> page), sp_nonzero = (sp_nonzero decoded)(i \<mapsto> of_nat (nonzeros page))\<rparr>"
  have g: "\<not> (unat sz \<le> unat i * 4096 \<or> unat (i + 1) * 4096 < unat i * 4096 \<or> sp_pages decoded i \<noteq> None)"
      "(of_nat (nonzeros page) :: u32) \<noteq> 0"
      "\<not> (unat sz < unat (i + 1) * 4096 \<and> \<not> allZero (drop (unat sz - unat i * 4096) page))"
      "decodePages n sz (drop 4100 state) next' = Inr m"
    using Suc.prems(1)
    by (simp_all add: Let_def count_zeros i_def [symmetric] page_def [symmetric] next'_def split: if_splits)
  have len: "length page = 4096" using Suc.prems(2) by (simp add: page_def)
  have i: "unat i < 2 ^ 20" using g(1) unat_u32_less [of sz] by simp
  have succ: "unat (i + 1) = unat i + 1" by (rule unat_suc_u32) (use i in simp)
  have nz: "nonzeros page \<noteq> 0" using g(2) by (intro notI) simp
  have ok: "sparse_ok next'"
    using Suc.prems(3) i len nz by (auto simp: sparse_ok_def next'_def dom_def)
  have other: "sparseByte next' x = (if x div 4096 = unat i then page ! (x mod 4096) else sparseByte decoded x)"
    if "x < 2 ^ 32" for x
  proof -
    have "unat (of_nat (x div 4096) :: u32) = x div 4096" by (rule unat_of_nat_u32) (use that in simp)
    then have "(of_nat (x div 4096) :: u32) = i \<longleftrightarrow> x div 4096 = unat i" by (simp add: word_unat_eq_iff)
    then show ?thesis by (simp add: sparseByte_def pageAt_def next'_def)
  qed
  have "sparse_within (unat sz) next'"
    unfolding sparse_within_def
  proof (intro allI impI)
    fix x :: nat assume x: "unat sz \<le> x" "x < 2 ^ 32"
    have "page ! (x mod 4096) = 0" if "x div 4096 = unat i"
    proof -
      have s: "x = unat i * 4096 + x mod 4096" using that div_mult_mod_eq [of x 4096] by simp
      moreover have "x mod 4096 < 4096" by simp
      ultimately have "unat sz < unat (i + 1) * 4096" "unat sz - unat i * 4096 \<le> x mod 4096"
        using x(1) succ by linarith+
      then have "allZero (drop (unat sz - unat i * 4096) page)" using g(3) by blast
      then show ?thesis
        by (rule allZero_drop) (use len \<open>unat sz - unat i * 4096 \<le> x mod 4096\<close> in simp_all)
    qed
    then show "sparseByte next' x = 0"
      using other [OF x(2)] Suc.prems(4) x by (simp add: sparse_within_def)
  qed
  then show ?case using Suc.IH [OF g(4) _ ok] Suc.prems(2) by simp
qed simp

lemma decodeSparse_ok:
  assumes "decodeSparseRAMState sz state = Inr m"
  shows "sparse_ok m \<and> sparse_within (unat sz) m"
proof -
  have "sparse_within (unat sz) newSparseRAM" by (simp add: sparse_within_def)
  then show ?thesis
    using assms decodePages_ok [OF _ _ sparse_ok_new]
    by (auto simp: decodeSparseRAMState_def Let_def split: if_splits)
qed

end
