(* ===== verification/System_Bus.thy ===== *)
theory System_Bus
  imports System_Sparse Cpu_Memory "HOL-Library.Monad_Syntax"
begin

text \<open>
  The physical bus of a whole handset, src/system/bus.go: RAM, ROM, sparse RAM and device
  regions, width-typed accesses with faults, block and host copies, observers, reset and saved
  states.  A device is a record of its operations over the state \<open>'d\<close> of the devices and of
  the host that observes the bus, which is threaded through; its errors have type \<open>'e\<close>.  The
  lock of the bus is held for every whole operation, so operations are atomic.  The pointer to
  the region of the last access is its index: only \<open>mapRegion\<close> moves regions, and it drops the
  pointer.
\<close>

subsection \<open>Widths, errors, accesses\<close>

type_synonym Width = u8

definition Width8 :: Width where "Width8 = 1"
definition Width16 :: Width where "Width16 = 2"
definition Width32 :: Width where "Width32 = 4"

lemmas width_defs = Width8_def Width16_def Width32_def

definition Width_valid :: "Width \<Rightarrow> bool" where
  "Width_valid w \<longleftrightarrow> w = Width8 \<or> w = Width16 \<or> w = Width32"

definition widthForSize :: "nat \<Rightarrow> Width option" where
  "widthForSize n =
     (if n = 1 then Some Width8 else if n = 2 then Some Width16 else if n = 4 then Some Width32 else None)"

text \<open>The comparison \<open>value >= uint32(1) << (uint32(width) * 8)\<close> of a width below 32 bits.\<close>

definition exceedsWidth :: "Width \<Rightarrow> u32 \<Rightarrow> bool" where
  "exceedsWidth w v \<longleftrightarrow> w < Width32 \<and> push_bit (unat w * 8) 1 \<le> v"

text \<open>
  An error is identified by the sentinel it wraps.  \<open>ErrPanic\<close> is not an error value but the
  run-time panic of a type assertion on a nil interface.
\<close>

datatype 'e busError =
    ErrInvalidRegion | ErrRegionOverlap | ErrInvalidWidth | ErrUnalignedAccess | ErrRegionBoundary
  | ErrInvalidState | ErrCpu cpu_error | ErrDevice 'e | ErrSparse sparseError | ErrStateless
  | ErrComponentTooLarge | ErrPanic

record 'e Fault =
  flt_Region :: name
  flt_Address :: u32
  flt_Width :: Width
  flt_Permission :: Permissions
  flt_Err :: "'e busError"

definition ExternalAbort :: "'e Fault \<Rightarrow> bool" where
  "ExternalAbort f \<longleftrightarrow> flt_Region f = [] \<and> flt_Err f = ErrCpu ErrInvalidAddress"

record MemoryAccessContext =
  mac_InstructionAddress :: u32
  mac_Instruction :: u32
  mac_LinkAddress :: u32
  mac_StackAddress :: u32
  mac_Mode :: Mode
  mac_Attributed :: bool

record 'e MMIOAccess =
  ma_Context :: MemoryAccessContext
  ma_Region :: name
  ma_Address :: u32
  ma_Offset :: u32
  ma_Width :: Width
  ma_Permission :: Permissions
  ma_Value :: u32
  ma_Write :: bool
  ma_Err :: "'e Fault option"

record 'e MemoryAccess = "'e MMIOAccess" +
  ma_MMIO :: bool

subsection \<open>Devices and regions\<close>

record ('d, 'e) StatefulDevice =
  sd_SaveState :: "'d \<Rightarrow> ('e + u8 list) \<times> 'd"
  sd_LoadState :: "u8 list \<Rightarrow> 'd \<Rightarrow> ('e + unit) \<times> 'd"
  sd_LoadStateSubset :: "(u8 list \<Rightarrow> 'd \<Rightarrow> ('e + unit) \<times> 'd) option"

record ('d, 'e) Device =
  dev_Reset :: "'d \<Rightarrow> ('e + unit) \<times> 'd"
  dev_Read :: "u32 \<Rightarrow> Width \<Rightarrow> 'd \<Rightarrow> ('e + u32) \<times> 'd"
  dev_Write :: "u32 \<Rightarrow> Width \<Rightarrow> u32 \<Rightarrow> 'd \<Rightarrow> ('e + unit) \<times> 'd"
  dev_Stateful :: "('d, 'e) StatefulDevice option"
  dev_Advance :: "(u64 \<Rightarrow> 'd \<Rightarrow> ('e + unit) \<times> 'd) option"

datatype regionKind = regionRAM | regionROM | regionMMIO | regionSparseRAM

definition kindByte :: "regionKind \<Rightarrow> u8" where
  "kindByte k = (case k of regionRAM \<Rightarrow> 1 | regionROM \<Rightarrow> 2 | regionMMIO \<Rightarrow> 3 | regionSparseRAM \<Rightarrow> 4)"

record memoryWriteResponseKey =
  rk_offset :: u32
  rk_width :: Width
  rk_value :: u32

record memoryResponseWrite =
  rw_offset :: u32
  rw_width :: Width
  rw_value :: u32

text \<open>The fields that a kind of region does not use are empty, as Go's zero values are.\<close>

record ('d, 'e) busRegion =
  rg_name :: name
  rg_address :: u32
  rg_size :: u32
  rg_permissions :: Permissions
  rg_kind :: regionKind
  rg_data :: "u8 list"
  rg_initial :: "u8 list"
  rg_device :: "('d, 'e) Device option"
  rg_sparse :: sparseRAM
  rg_writeResponses :: "memoryWriteResponseKey \<rightharpoonup> memoryResponseWrite list"

definition rg_end :: "('d, 'e) busRegion \<Rightarrow> nat" where
  "rg_end r = unat (rg_address r) + unat (rg_size r)"

record ('d, 'e) Bus =
  pb_regions :: "('d, 'e) busRegion list"
  pb_lastRegion :: "nat option"
  pb_observed :: bool
  pb_mmioObserver :: "('e MMIOAccess \<Rightarrow> 'd \<Rightarrow> 'd) option"
  pb_memoryObserver :: "('e MemoryAccess \<Rightarrow> 'd \<Rightarrow> 'd) option"
  pb_memoryObserverStart :: u32
  pb_memoryObserverEnd :: nat
  pb_contextObserver :: "('e MemoryAccess \<Rightarrow> 'd \<Rightarrow> 'd) option"
  pb_contextObserverStart :: u32
  pb_contextObserverEnd :: nat
  pb_directMemoryInvalidator :: "('d \<Rightarrow> 'd) option"

type_synonym ('d, 'e) busState = "('d, 'e) Bus \<times> 'd"

definition NewBus :: "('d, 'e) Bus" where
  "NewBus = \<lparr>pb_regions = [], pb_lastRegion = None, pb_observed = False, pb_mmioObserver = None,
     pb_memoryObserver = None, pb_memoryObserverStart = 0, pb_memoryObserverEnd = 0,
     pb_contextObserver = None, pb_contextObserverStart = 0, pb_contextObserverEnd = 0,
     pb_directMemoryInvalidator = None\<rparr>"

text \<open>The callback that is called after the lock is released, when there is one.\<close>

definition callback :: "('d \<Rightarrow> 'd) option \<Rightarrow> 'd \<Rightarrow> 'd" where
  "callback f d = (case f of None \<Rightarrow> d | Some f \<Rightarrow> f d)"

definition invalidateDirect :: "('d, 'e) Bus \<Rightarrow> 'd \<Rightarrow> 'd" where
  "invalidateDirect b = callback (pb_directMemoryInvalidator b)"

definition ClockedDevices :: "('d, 'e) Bus \<Rightarrow> (u64 \<Rightarrow> 'd \<Rightarrow> ('e + unit) \<times> 'd) list" where
  "ClockedDevices b =
     List.map_filter (\<lambda>r. if rg_kind r \<noteq> regionMMIO then None else Option.bind (rg_device r) dev_Advance) (pb_regions b)"

subsection \<open>Observers\<close>

definition SetDirectMemoryInvalidator :: "('d \<Rightarrow> 'd) option \<Rightarrow> ('d, 'e) Bus \<Rightarrow> ('d, 'e) Bus" where
  "SetDirectMemoryInvalidator f b = b\<lparr>pb_directMemoryInvalidator := f\<rparr>"

definition refreshObserved :: "('d, 'e) Bus \<Rightarrow> ('d, 'e) Bus" where
  "refreshObserved b = b\<lparr>pb_observed :=
     pb_mmioObserver b \<noteq> None \<or> pb_memoryObserver b \<noteq> None \<or> pb_contextObserver b \<noteq> None\<rparr>"

definition SetMMIOObserver :: "('e MMIOAccess \<Rightarrow> 'd \<Rightarrow> 'd) option \<Rightarrow> ('d, 'e) Bus \<Rightarrow> 'd \<Rightarrow> ('d, 'e) busState" where
  "SetMMIOObserver observer b d =
     (let b = refreshObserved (b\<lparr>pb_mmioObserver := observer\<rparr>) in (b, invalidateDirect b d))"

definition SetMemoryObserver ::
    "u32 \<Rightarrow> u32 \<Rightarrow> ('e MemoryAccess \<Rightarrow> 'd \<Rightarrow> 'd) option \<Rightarrow> ('d, 'e) Bus \<Rightarrow> 'd \<Rightarrow> ('e busError + unit) \<times> ('d, 'e) busState" where
  "SetMemoryObserver address sz observer b d =
     (let stop = unat address + unat sz in
      if observer \<noteq> None \<and> (sz = 0 \<or> 2 ^ 32 < stop) then (Inl ErrInvalidRegion, b, d)
      else
        let b = refreshObserved (b\<lparr>pb_memoryObserver := observer, pb_memoryObserverStart := address, pb_memoryObserverEnd := stop\<rparr>)
        in (Inr (), b, invalidateDirect b d))"

definition SetInstructionMemoryObserver ::
    "u32 \<Rightarrow> u32 \<Rightarrow> ('e MemoryAccess \<Rightarrow> 'd \<Rightarrow> 'd) option \<Rightarrow> ('d, 'e) Bus \<Rightarrow> 'd \<Rightarrow> ('e busError + unit) \<times> ('d, 'e) busState" where
  "SetInstructionMemoryObserver address sz observer b d =
     (let stop = unat address + unat sz in
      if observer \<noteq> None \<and> (sz = 0 \<or> 2 ^ 32 < stop) then (Inl ErrInvalidRegion, b, d)
      else
        let b = refreshObserved (b\<lparr>pb_contextObserver := observer, pb_contextObserverStart := address, pb_contextObserverEnd := stop\<rparr>)
        in (Inr (), b, invalidateDirect b d))"

definition observesMemory :: "u32 \<Rightarrow> nat \<Rightarrow> ('d, 'e) Bus \<Rightarrow> bool" where
  "observesMemory address n b \<longleftrightarrow> pb_memoryObserver b \<noteq> None \<and>
     unat address < pb_memoryObserverEnd b \<and> unat (pb_memoryObserverStart b) < unat address + n"

definition observesInstruction :: "MemoryAccessContext \<Rightarrow> ('d, 'e) Bus \<Rightarrow> bool" where
  "observesInstruction c b \<longleftrightarrow> pb_contextObserver b \<noteq> None \<and> mac_Attributed c \<and>
     unat (pb_contextObserverStart b) \<le> unat (mac_InstructionAddress c) \<and>
     unat (mac_InstructionAddress c) < pb_contextObserverEnd b"

subsection \<open>Mapping\<close>

definition RWX :: Permissions where "RWX = PermissionRead OR PermissionWrite OR PermissionExecute"

definition blankRegion :: "name \<Rightarrow> u32 \<Rightarrow> u32 \<Rightarrow> Permissions \<Rightarrow> regionKind \<Rightarrow> ('d, 'e) busRegion" where
  "blankRegion n address sz p k = \<lparr>rg_name = n, rg_address = address, rg_size = sz, rg_permissions = p,
     rg_kind = k, rg_data = [], rg_initial = [], rg_device = None, rg_sparse = newSparseRAM,
     rg_writeResponses = Map.empty\<rparr>"

text \<open>The scan of the regions already mapped.\<close>

fun checkOverlap :: "('d, 'e) busRegion \<Rightarrow> ('d, 'e) busRegion list \<Rightarrow> 'e busError option" where
  "checkOverlap r [] = None"
| "checkOverlap r (x # xs) =
     (if rg_name x = rg_name r then Some ErrInvalidRegion
      else if unat (rg_address r) < rg_end x \<and> unat (rg_address x) < rg_end r then Some ErrRegionOverlap
      else checkOverlap r xs)"

definition mapRegion :: "('d, 'e) busRegion \<Rightarrow> ('d, 'e) Bus \<Rightarrow> 'd \<Rightarrow> ('e busError + unit) \<times> ('d, 'e) busState" where
  "mapRegion r b d =
     (let b = b\<lparr>pb_lastRegion := None\<rparr> in
      if TrimSpaceEmpty (rg_name r) \<or> 255 < length (rg_name r) \<or> hasNUL (rg_name r) \<or>
         rg_size r = 0 \<or> 2 ^ 32 < unat (rg_address r) + unat (rg_size r)
      then (Inl ErrInvalidRegion, b, d)
      else case checkOverlap r (pb_regions b) of
        Some e \<Rightarrow> (Inl e, b, d)
      | None \<Rightarrow>
          let b = b\<lparr>pb_regions := sort_key rg_address (pb_regions b @ [r])\<rparr>
          in (Inr (), b, invalidateDirect b d))"

definition MapRAMImage ::
    "name \<Rightarrow> u32 \<Rightarrow> u32 \<Rightarrow> u8 list \<Rightarrow> ('d, 'e) Bus \<Rightarrow> 'd \<Rightarrow> ('e busError + unit) \<times> ('d, 'e) busState" where
  "MapRAMImage n address sz initial b d =
     (if unat sz < length initial then (Inl ErrInvalidRegion, b, d)
      else
        let data = overwrite (replicate (unat sz) 0) 0 initial in
        mapRegion ((blankRegion n address sz RWX regionRAM)\<lparr>rg_data := data, rg_initial := data\<rparr>) b d)"

definition MapRAM :: "name \<Rightarrow> u32 \<Rightarrow> u32 \<Rightarrow> ('d, 'e) Bus \<Rightarrow> 'd \<Rightarrow> ('e busError + unit) \<times> ('d, 'e) busState" where
  "MapRAM n address sz = MapRAMImage n address sz []"

definition MapSparseRAM :: "name \<Rightarrow> u32 \<Rightarrow> u32 \<Rightarrow> ('d, 'e) Bus \<Rightarrow> 'd \<Rightarrow> ('e busError + unit) \<times> ('d, 'e) busState" where
  "MapSparseRAM n address sz = mapRegion (blankRegion n address sz RWX regionSparseRAM)"

definition MapROM :: "name \<Rightarrow> u32 \<Rightarrow> u8 list \<Rightarrow> ('d, 'e) Bus \<Rightarrow> 'd \<Rightarrow> ('e busError + unit) \<times> ('d, 'e) busState" where
  "MapROM n address data b d =
     (if 2 ^ 32 - 1 < length data then (Inl ErrInvalidRegion, b, d)
      else mapRegion ((blankRegion n address (of_nat (length data)) (PermissionRead OR PermissionExecute) regionROM)
             \<lparr>rg_data := data\<rparr>) b d)"

definition MapMMIO ::
    "name \<Rightarrow> u32 \<Rightarrow> u32 \<Rightarrow> ('d, 'e) Device option \<Rightarrow> ('d, 'e) Bus \<Rightarrow> 'd \<Rightarrow> ('e busError + unit) \<times> ('d, 'e) busState" where
  "MapMMIO n address sz device b d =
     (if device = None then (Inl ErrInvalidRegion, b, d)
      else mapRegion ((blankRegion n address sz (PermissionRead OR PermissionWrite) regionMMIO)
             \<lparr>rg_device := device\<rparr>) b d)"

subsection \<open>Values and plain memory\<close>

definition valueOf_bytes :: "u8 list \<Rightarrow> u32" where
  "valueOf_bytes data =
     (if length data = 1 then ucast (data ! 0) else if length data = 2 then ucast (Uint16 data) else Uint32 data)"

definition putValue :: "nat \<Rightarrow> u32 \<Rightarrow> u8 list" where
  "putValue n v = (if n = 1 then [ucast v] else if n = 2 then PutUint16 (ucast v) else PutUint32 v)"

definition readPlain :: "u32 \<Rightarrow> nat \<Rightarrow> ('d, 'e) busRegion \<Rightarrow> u8 list" where
  "readPlain offset n r =
     (if rg_kind r = regionSparseRAM then sparseRead offset n (rg_sparse r) else slice (rg_data r) (unat offset) n)"

definition writePlain :: "u32 \<Rightarrow> u8 list \<Rightarrow> ('d, 'e) busRegion \<Rightarrow> ('d, 'e) busRegion" where
  "writePlain offset source r =
     (if rg_kind r = regionSparseRAM then r\<lparr>rg_sparse := sparseWrite offset source (rg_sparse r)\<rparr>
      else r\<lparr>rg_data := overwrite (rg_data r) (unat offset) source\<rparr>)"

definition setRegion :: "nat \<Rightarrow> ('d, 'e) busRegion \<Rightarrow> ('d, 'e) Bus \<Rightarrow> ('d, 'e) Bus" where
  "setRegion i r b = b\<lparr>pb_regions := (pb_regions b)[i := r]\<rparr>"

subsection \<open>Write responses\<close>

record MemoryWriteResponseProfile =
  wp_Offset :: u32
  wp_Width :: Width
  wp_Request :: u32
  wp_Writes :: "memoryResponseWrite list"

definition responseWriteBad :: "u32 \<Rightarrow> u32 \<Rightarrow> Width \<Rightarrow> u32 \<Rightarrow> bool" where
  "responseWriteBad sz offset w v \<longleftrightarrow>
     \<not> Width_valid w \<or> offset mod ucast w \<noteq> 0 \<or> unat sz < unat offset + unat w \<or> exceedsWidth w v"

fun responseRules ::
    "u32 \<Rightarrow> MemoryWriteResponseProfile list \<Rightarrow> (memoryWriteResponseKey \<rightharpoonup> memoryResponseWrite list) \<Rightarrow>
     'e busError + (memoryWriteResponseKey \<rightharpoonup> memoryResponseWrite list)" where
  "responseRules sz [] rules = Inr rules"
| "responseRules sz (p # ps) rules =
     (if responseWriteBad sz (wp_Offset p) (wp_Width p) (wp_Request p) \<or> wp_Writes p = [] then Inl ErrInvalidRegion
      else
        let key = \<lparr>rk_offset = wp_Offset p, rk_width = wp_Width p, rk_value = wp_Request p\<rparr> in
        if rules key \<noteq> None then Inl ErrInvalidRegion
        else if list_ex (\<lambda>w. responseWriteBad sz (rw_offset w) (rw_width w) (rw_value w)) (wp_Writes p)
        then Inl ErrInvalidRegion
        else responseRules sz ps (rules(key \<mapsto> wp_Writes p)))"

fun regionByName :: "name \<Rightarrow> nat \<Rightarrow> ('d, 'e) busRegion list \<Rightarrow> nat option" where
  "regionByName n i [] = None"
| "regionByName n i (r # rs) = (if rg_name r = n then Some i else regionByName n (i + 1) rs)"

definition configureMemoryWriteResponses ::
    "name \<Rightarrow> MemoryWriteResponseProfile list \<Rightarrow> ('d, 'e) Bus \<Rightarrow> 'd \<Rightarrow> ('e busError + unit) \<times> ('d, 'e) busState" where
  "configureMemoryWriteResponses n profiles b d =
     (if profiles = [] then (Inr (), b, d)
      else case regionByName n 0 (pb_regions b) of
        None \<Rightarrow> (Inl ErrInvalidRegion, b, d)
      | Some i \<Rightarrow>
          let r = pb_regions b ! i in
          if rg_kind r = regionROM \<or> rg_kind r = regionMMIO then (Inl ErrInvalidRegion, b, d)
          else case responseRules (rg_size r) profiles Map.empty of
            Inl e \<Rightarrow> (Inl e, b, d)
          | Inr rules \<Rightarrow>
              let b = setRegion i (r\<lparr>rg_writeResponses := rules\<rparr>) b in (Inr (), b, invalidateDirect b d))"

definition applyMemoryWriteResponse :: "u32 \<Rightarrow> Width \<Rightarrow> u32 \<Rightarrow> ('d, 'e) busRegion \<Rightarrow> ('d, 'e) busRegion" where
  "applyMemoryWriteResponse offset w v r =
     (case rg_writeResponses r \<lparr>rk_offset = offset, rk_width = w, rk_value = v\<rparr> of
        None \<Rightarrow> r
      | Some writes \<Rightarrow> fold (\<lambda>x. writePlain (rw_offset x) (putValue (unat (rw_width x)) (rw_value x))) writes r)"

subsection \<open>Resolution\<close>

definition missesLast :: "u32 \<Rightarrow> ('d, 'e) Bus \<Rightarrow> bool" where
  "missesLast address b \<longleftrightarrow>
     (case pb_lastRegion b of
        None \<Rightarrow> True
      | Some i \<Rightarrow> let r = pb_regions b ! i in address < rg_address r \<or> rg_end r \<le> unat address)"

definition searchRegion :: "u32 \<Rightarrow> ('d, 'e) Bus \<Rightarrow> nat option" where
  "searchRegion address b =
     (let rs = pb_regions b; i = Search (length rs) (\<lambda>i. unat address < rg_end (rs ! i)) in
      if length rs \<le> i \<or> address < rg_address (rs ! i) then None else Some i)"

text \<open>The region of the last access, or the one the search finds, which is then remembered.\<close>

definition regionFor :: "u32 \<Rightarrow> ('d, 'e) Bus \<Rightarrow> nat option \<times> ('d, 'e) Bus" where
  "regionFor address b =
     (if missesLast address b
      then case searchRegion address b of
        None \<Rightarrow> (None, b)
      | Some i \<Rightarrow> (Some i, b\<lparr>pb_lastRegion := Some i\<rparr>)
      else (pb_lastRegion b, b))"

definition faultAt :: "name \<Rightarrow> u32 \<Rightarrow> Width \<Rightarrow> Permissions \<Rightarrow> 'e busError \<Rightarrow> 'e Fault" where
  "faultAt n address w p e = \<lparr>flt_Region = n, flt_Address = address, flt_Width = w, flt_Permission = p, flt_Err = e\<rparr>"

definition resolve ::
    "u32 \<Rightarrow> nat \<Rightarrow> Permissions \<Rightarrow> ('d, 'e) Bus \<Rightarrow> ('e Fault + Width \<times> nat \<times> u32) \<times> ('d, 'e) Bus" where
  "resolve address n p b =
     (case widthForSize n of
        None \<Rightarrow> (Inl (faultAt [] address 0 p ErrInvalidWidth), b)
      | Some w \<Rightarrow>
          if address mod ucast w \<noteq> 0 then (Inl (faultAt [] address w p ErrUnalignedAccess), b)
          else case regionFor address b of
            (None, b) \<Rightarrow> (Inl (faultAt [] address w p (ErrCpu ErrInvalidAddress)), b)
          | (Some i, b) \<Rightarrow>
              let r = pb_regions b ! i in
              if rg_end r < unat address + n then (Inl (faultAt (rg_name r) address w p ErrRegionBoundary), b)
              else if rg_permissions r AND p \<noteq> p
              then (Inl (faultAt (rg_name r) address w p (ErrCpu ErrPermissionDenied)), b)
              else (Inr (w, i, address - rg_address r), b))"

definition resolveBlock :: "u32 \<Rightarrow> nat \<Rightarrow> Permissions \<Rightarrow> ('d, 'e) Bus \<Rightarrow> (nat \<times> u32) option \<times> ('d, 'e) Bus" where
  "resolveBlock address n p b =
     (if n = 0 \<or> pb_observed b then (None, b)
      else case regionFor address b of
        (None, b) \<Rightarrow> (None, b)
      | (Some i, b) \<Rightarrow>
          let r = pb_regions b ! i in
          if rg_kind r = regionMMIO \<or> rg_end r < unat address + n \<or> rg_permissions r AND p \<noteq> p then (None, b)
          else (Some (i, address - rg_address r), b))"

subsection \<open>Accesses\<close>

text \<open>The report to the observers that watch a plain access or a device access.\<close>

definition accessOf ::
    "MemoryAccessContext \<Rightarrow> name \<Rightarrow> u32 \<Rightarrow> u32 \<Rightarrow> Width \<Rightarrow> Permissions \<Rightarrow> u32 \<Rightarrow> bool \<Rightarrow> 'e Fault option \<Rightarrow> 'e MMIOAccess" where
  "accessOf c n address offset w p v wr e = \<lparr>ma_Context = c, ma_Region = n, ma_Address = address, ma_Offset = offset,
     ma_Width = w, ma_Permission = p, ma_Value = v, ma_Write = wr, ma_Err = e\<rparr>"

definition observe :: "bool \<Rightarrow> 'e MMIOAccess \<Rightarrow> MemoryAccessContext \<Rightarrow> u32 \<Rightarrow> nat \<Rightarrow> ('d, 'e) Bus \<Rightarrow> 'd \<Rightarrow> 'd" where
  "observe mmio a c address n b d =
     (let access = MMIOAccess.extend a \<lparr>ma_MMIO = mmio\<rparr>;
          d = (if observesMemory address n b then callback (map_option (\<lambda>f. f access) (pb_memoryObserver b)) d else d)
      in if observesInstruction c b then callback (map_option (\<lambda>f. f access) (pb_contextObserver b)) d else d)"

definition deviceFault :: "name \<Rightarrow> u32 \<Rightarrow> Width \<Rightarrow> Permissions \<Rightarrow> ('e + 'a) \<Rightarrow> 'e Fault option" where
  "deviceFault n address w p res =
     (case res of Inl e \<Rightarrow> Some (faultAt n address w p (ErrDevice e)) | Inr _ \<Rightarrow> None)"

text \<open>A successful read answers the bytes it puts into the destination.\<close>

definition ReadContext ::
    "MemoryAccessContext \<Rightarrow> u32 \<Rightarrow> nat \<Rightarrow> Permissions \<Rightarrow> ('d, 'e) Bus \<Rightarrow> 'd \<Rightarrow> ('e Fault + u8 list) \<times> ('d, 'e) busState" where
  "ReadContext c address n p b d =
     (case resolve address n p b of
        (Inl f, b) \<Rightarrow> (Inl f, b, d)
      | (Inr (w, i, offset), b) \<Rightarrow>
          let r = pb_regions b ! i in
          if rg_kind r \<noteq> regionMMIO then
            let destination = readPlain offset n r in
            (Inr destination, b,
             if pb_observed b
             then observe False (accessOf c (rg_name r) address offset w p (valueOf_bytes destination) False None) c address n b d
             else d)
          else
            let (res, d) = dev_Read (the (rg_device r)) offset w d;
                err = deviceFault (rg_name r) address w p res;
                a = accessOf c (rg_name r) address offset w p (case res of Inl _ \<Rightarrow> 0 | Inr v \<Rightarrow> v) False err;
                d = callback (map_option (\<lambda>f. f a) (pb_mmioObserver b)) d
            in (case err of Some f \<Rightarrow> Inl f | None \<Rightarrow> Inr (putValue n (projr res)), b, observe True a c address n b d))"

definition WriteContext ::
    "MemoryAccessContext \<Rightarrow> u32 \<Rightarrow> u8 list \<Rightarrow> Permissions \<Rightarrow> ('d, 'e) Bus \<Rightarrow> 'd \<Rightarrow> ('e Fault + unit) \<times> ('d, 'e) busState" where
  "WriteContext c address source p b d =
     (case resolve address (length source) p b of
        (Inl f, b) \<Rightarrow> (Inl f, b, d)
      | (Inr (w, i, offset), b) \<Rightarrow>
          let r = pb_regions b ! i; v = valueOf_bytes source; n = length source in
          if rg_kind r \<noteq> regionMMIO then
            let r = writePlain offset source r;
                r = (if rg_writeResponses r \<noteq> Map.empty then applyMemoryWriteResponse offset w v r else r);
                b = setRegion i r b
            in (Inr (), b,
                if pb_observed b
                then observe False (accessOf c (rg_name r) address offset w p v True None) c address n b d
                else d)
          else
            let (res, d) = dev_Write (the (rg_device r)) offset w v d;
                err = deviceFault (rg_name r) address w p res;
                a = accessOf c (rg_name r) address offset w p v True err;
                d = callback (map_option (\<lambda>f. f a) (pb_mmioObserver b)) d
            in (case err of Some f \<Rightarrow> Inl f | None \<Rightarrow> Inr (), b, observe True a c address n b d))"

definition noContext :: MemoryAccessContext where
  "noContext = \<lparr>mac_InstructionAddress = 0, mac_Instruction = 0, mac_LinkAddress = 0, mac_StackAddress = 0,
     mac_Mode = ModeARM, mac_Attributed = False\<rparr>"

definition Bus_Read :: "u32 \<Rightarrow> nat \<Rightarrow> Permissions \<Rightarrow> ('d, 'e) Bus \<Rightarrow> 'd \<Rightarrow> ('e Fault + u8 list) \<times> ('d, 'e) busState" where
  "Bus_Read = ReadContext noContext"

definition Bus_Write :: "u32 \<Rightarrow> u8 list \<Rightarrow> Permissions \<Rightarrow> ('d, 'e) Bus \<Rightarrow> 'd \<Rightarrow> ('e Fault + unit) \<times> ('d, 'e) busState" where
  "Bus_Write = WriteContext noContext"

subsection \<open>Blocks\<close>

definition ReadBlock :: "u32 \<Rightarrow> nat \<Rightarrow> Permissions \<Rightarrow> ('d, 'e) Bus \<Rightarrow> u8 list option \<times> ('d, 'e) Bus" where
  "ReadBlock address n p b =
     (case resolveBlock address n p b of
        (None, b) \<Rightarrow> (None, b)
      | (Some (i, offset), b) \<Rightarrow> (Some (readPlain offset n (pb_regions b ! i)), b))"

definition WriteBlock :: "u32 \<Rightarrow> u8 list \<Rightarrow> Permissions \<Rightarrow> ('d, 'e) Bus \<Rightarrow> bool \<times> ('d, 'e) Bus" where
  "WriteBlock address source p b =
     (case resolveBlock address (length source) p b of
        (None, b) \<Rightarrow> (False, b)
      | (Some (i, offset), b) \<Rightarrow>
          let r = writePlain offset source (pb_regions b ! i);
              r = (case widthForSize (length source) of
                     None \<Rightarrow> r
                   | Some w \<Rightarrow>
                       if rg_writeResponses r \<noteq> Map.empty
                       then applyMemoryWriteResponse offset w (valueOf_bytes source) r else r)
          in (True, setRegion i r b))"

text \<open>The slice that is handed out is the region's own; here it is the bytes it holds now.\<close>

definition DirectMemoryRegion ::
    "u32 \<Rightarrow> nat \<Rightarrow> Permissions \<Rightarrow> ('d, 'e) Bus \<Rightarrow> (u32 \<times> u8 list \<times> Permissions) option \<times> ('d, 'e) Bus" where
  "DirectMemoryRegion address n p b =
     (case resolveBlock address n p b of
        (None, b) \<Rightarrow> (None, b)
      | (Some (i, _), b) \<Rightarrow>
          let r = pb_regions b ! i in
          if rg_kind r \<noteq> regionRAM \<or> rg_writeResponses r \<noteq> Map.empty then (None, b)
          else (Some (rg_address r, rg_data r, rg_permissions r), b))"

subsection \<open>Host copies\<close>

text \<open>The search answers an index at which the predicate held, whatever the predicate is.\<close>

lemma Search_between_hit: "i \<le> j \<Longrightarrow> Search_between f i j \<le> j \<and> (Search_between f i j < j \<longrightarrow> f (Search_between f i j))"
proof (induction f i j rule: Search_between.induct)
  case (1 f i j)
  let ?h = "(i + j) div 2"
  consider "\<not> i < j" | "i < j" "\<not> f ?h" | "i < j" "f ?h" by blast
  then show ?case
  proof cases
    case 1
    then show ?thesis using "1.prems" by (simp add: Search_between_done)
  next
    case 2
    then show ?thesis using "1.IH"(1) [OF 2(1) refl 2(2)] by (simp add: Search_between_right)
  next
    case 3
    then have "Search_between f i ?h \<le> ?h \<and> (Search_between f i ?h < ?h \<longrightarrow> f (Search_between f i ?h))"
      using "1.IH"(2) [OF 3(1) refl] by simp
    then show ?thesis using 3 by (auto simp: Search_between_left le_less)
  qed
qed

lemma searchRegion_SomeD:
  assumes "searchRegion address b = Some i"
  shows "i < length (pb_regions b)" "rg_address (pb_regions b ! i) \<le> address" "unat address < rg_end (pb_regions b ! i)"
  using assms Search_between_hit [of 0 "length (pb_regions b)" "\<lambda>i. unat address < rg_end (pb_regions b ! i)"]
  by (auto simp: searchRegion_def Let_def Search_def not_le split: if_splits)

definition hostChunk :: "u32 \<Rightarrow> nat \<Rightarrow> ('d, 'e) busRegion \<Rightarrow> nat" where
  "hostChunk current n r = min n (rg_end r - unat current)"

text \<open>Copies go on across regions; the copied part is not taken back when a later byte faults.\<close>

function readMemoryLoop :: "u32 \<Rightarrow> nat \<Rightarrow> Permissions \<Rightarrow> ('d, 'e) Bus \<Rightarrow> u8 list \<Rightarrow> 'e Fault option \<times> u8 list" where
  "readMemoryLoop current n p b copied =
     (if n = 0 then (None, copied)
      else case searchRegion current b of
        None \<Rightarrow> (Some (faultAt [] current 0 p (ErrCpu ErrInvalidAddress)), copied)
      | Some i \<Rightarrow>
          let r = pb_regions b ! i in
          if rg_kind r = regionMMIO then (Some (faultAt (rg_name r) current 0 p (ErrCpu ErrInvalidAddress)), copied)
          else if rg_permissions r AND p \<noteq> p
          then (Some (faultAt (rg_name r) current 0 p (ErrCpu ErrPermissionDenied)), copied)
          else
            let chunk = hostChunk current n r in
            readMemoryLoop (current + of_nat chunk) (n - chunk) p b
              (copied @ readPlain (current - rg_address r) chunk r))"
  by pat_completeness auto
termination
proof (relation "measure (\<lambda>(_, n, _, _, _). n)")
  fix current :: u32 and n :: nat and p :: Permissions and b :: "('d, 'e) Bus" and copied :: "u8 list" and i r chunk
  assume "n \<noteq> 0" "searchRegion current b = Some i" "r = pb_regions b ! i" "chunk = hostChunk current n r"
  then have "0 < chunk" using searchRegion_SomeD(3) [of current b i] by (simp add: hostChunk_def)
  then show "((current + of_nat chunk, n - chunk, p, b, copied @ readPlain (current - rg_address r) chunk r),
      (current, n, p, b, copied)) \<in> measure (\<lambda>(_, n, _, _, _). n)" using \<open>n \<noteq> 0\<close> by simp
qed simp

declare readMemoryLoop.simps [simp del]

text \<open>On a fault the destination keeps the bytes copied before it.\<close>

definition Bus_ReadMemory :: "u32 \<Rightarrow> nat \<Rightarrow> Permissions \<Rightarrow> ('d, 'e) Bus \<Rightarrow> 'e Fault option \<times> u8 list" where
  "Bus_ReadMemory address n p b =
     (if n = 0 then (None, [])
      else if 2 ^ 32 < unat address + n then (Some (faultAt [] address 0 p (ErrCpu ErrInvalidAddress)), [])
      else readMemoryLoop address n p b [])"

function writeMemoryLoop :: "u32 \<Rightarrow> u8 list \<Rightarrow> Permissions \<Rightarrow> ('d, 'e) Bus \<Rightarrow> 'e Fault option \<times> ('d, 'e) Bus" where
  "writeMemoryLoop current source p b =
     (if source = [] then (None, b)
      else case searchRegion current b of
        None \<Rightarrow> (Some (faultAt [] current 0 p (ErrCpu ErrInvalidAddress)), b)
      | Some i \<Rightarrow>
          let r = pb_regions b ! i in
          if rg_kind r = regionMMIO \<or> rg_kind r = regionROM
          then (Some (faultAt (rg_name r) current 0 p (ErrCpu ErrInvalidAddress)), b)
          else if rg_permissions r AND p \<noteq> p
          then (Some (faultAt (rg_name r) current 0 p (ErrCpu ErrPermissionDenied)), b)
          else
            let chunk = hostChunk current (length source) r in
            writeMemoryLoop (current + of_nat chunk) (drop chunk source) p
              (setRegion i (writePlain (current - rg_address r) (take chunk source) r) b))"
  by pat_completeness auto
termination
proof (relation "measure (\<lambda>(_, source, _, _). length source)")
  fix current :: u32 and source :: "u8 list" and p :: Permissions and b :: "('d, 'e) Bus" and i r chunk
  assume "source \<noteq> []" "searchRegion current b = Some i" "r = pb_regions b ! i"
    "chunk = hostChunk current (length source) r"
  then have "0 < chunk" using searchRegion_SomeD(3) [of current b i] by (simp add: hostChunk_def)
  then show "((current + of_nat chunk, drop chunk source, p,
      setRegion i (writePlain (current - rg_address r) (take chunk source) r) b), (current, source, p, b))
      \<in> measure (\<lambda>(_, source, _, _). length source)" using \<open>source \<noteq> []\<close> by simp
qed simp

declare writeMemoryLoop.simps [simp del]

definition Bus_WriteMemory :: "u32 \<Rightarrow> u8 list \<Rightarrow> Permissions \<Rightarrow> ('d, 'e) Bus \<Rightarrow> 'e Fault option \<times> ('d, 'e) Bus" where
  "Bus_WriteMemory address source p b =
     (if source = [] then (None, b)
      else if 2 ^ 32 < unat address + length source
      then (Some (faultAt [] address 0 p (ErrCpu ErrInvalidAddress)), b)
      else writeMemoryLoop address source p b)"

subsection \<open>Reset and saved states\<close>

text \<open>Regions are reset in order; a device that fails stops the reset.\<close>

fun resetRegions :: "('d, 'e) busRegion list \<Rightarrow> 'd \<Rightarrow> ('e busError + unit) \<times> ('d, 'e) busRegion list \<times> 'd" where
  "resetRegions [] d = (Inr (), [], d)"
| "resetRegions (r # rs) d =
     (let (e, r, d) =
        (case rg_kind r of
           regionRAM \<Rightarrow> (Inr (), r\<lparr>rg_data := rg_initial r\<rparr>, d)
         | regionSparseRAM \<Rightarrow> (Inr (), r\<lparr>rg_sparse := sparseReset (rg_sparse r)\<rparr>, d)
         | regionMMIO \<Rightarrow>
             (case dev_Reset (the (rg_device r)) d of
                (Inl e, d) \<Rightarrow> (Inl (ErrDevice e), r, d)
              | (Inr _, d) \<Rightarrow> (Inr (), r, d))
         | regionROM \<Rightarrow> (Inr (), r, d))
      in case e of
           Inl x \<Rightarrow> (Inl x, r # rs, d)
         | Inr _ \<Rightarrow> (case resetRegions rs d of (e, rs, d) \<Rightarrow> (e, r # rs, d)))"

definition Bus_Reset :: "('d, 'e) Bus \<Rightarrow> 'd \<Rightarrow> ('e busError + unit) \<times> ('d, 'e) busState" where
  "Bus_Reset b d = (case resetRegions (pb_regions b) d of (e, rs, d) \<Rightarrow> (e, b\<lparr>pb_regions := rs\<rparr>, d))"

text \<open>The state of one region; \<open>None\<close> for ROM, which has none.\<close>

definition regionState :: "('d, 'e) busRegion \<Rightarrow> 'd \<Rightarrow> ('e busError + u8 list option) \<times> 'd" where
  "regionState r d =
     (case rg_kind r of
        regionRAM \<Rightarrow> (Inr (Some (rg_data r)), d)
      | regionSparseRAM \<Rightarrow>
          (case sparseSave (rg_size r) (rg_sparse r) of Inl e \<Rightarrow> (Inl (ErrSparse e), d) | Inr st \<Rightarrow> (Inr (Some st), d))
      | regionMMIO \<Rightarrow>
          (case Option.bind (rg_device r) dev_Stateful of
             None \<Rightarrow> (Inl ErrStateless, d)
           | Some sd \<Rightarrow>
               (case sd_SaveState sd d of (Inl e, d) \<Rightarrow> (Inl (ErrDevice e), d) | (Inr st, d) \<Rightarrow> (Inr (Some st), d)))
      | regionROM \<Rightarrow> (Inr None, d))"

fun saveComponents ::
    "('d, 'e) busRegion list \<Rightarrow> 'd \<Rightarrow> ('e busError + (('d, 'e) busRegion \<times> u8 list) list) \<times> 'd" where
  "saveComponents [] d = (Inr [], d)"
| "saveComponents (r # rs) d =
     (case regionState r d of
        (Inl e, d) \<Rightarrow> (Inl e, d)
      | (Inr st, d) \<Rightarrow>
          (case saveComponents rs d of
             (Inl e, d) \<Rightarrow> (Inl e, d)
           | (Inr cs, d) \<Rightarrow> (Inr ((case st of None \<Rightarrow> [] | Some st \<Rightarrow> [(r, st)]) @ cs), d)))"

definition componentBytes :: "('d, 'e) busRegion \<times> u8 list \<Rightarrow> u8 list" where
  "componentBytes c =
     (let (r, st) = c in
      PutUint16 (of_nat (length (rg_name r))) @ rg_name r @ [kindByte (rg_kind r), 0] @
      PutUint32 (rg_address r) @ PutUint32 (rg_size r) @ PutUint32 (of_nat (length st)) @ st)"

definition busMagic :: "u8 list" where "busMagic = [0x41, 0x52, 0x42, 0x53]"

definition Bus_SaveState :: "('d, 'e) Bus \<Rightarrow> 'd \<Rightarrow> ('e busError + u8 list) \<times> 'd" where
  "Bus_SaveState b d =
     (case saveComponents (pb_regions b) d of
        (Inl e, d) \<Rightarrow> (Inl e, d)
      | (Inr cs, d) \<Rightarrow>
          if list_ex (\<lambda>c. 2 ^ 32 - 1 < length (snd c)) cs then (Inl ErrComponentTooLarge, d)
          else (Inr (busMagic @ PutUint32 1 @ PutUint32 (of_nat (length cs)) @ concat (map componentBytes cs)), d))"

text \<open>A reader over the remaining bytes; a short read is \<open>None\<close>.\<close>

definition takeBytes :: "nat \<Rightarrow> u8 list \<Rightarrow> (u8 list \<times> u8 list) option" where
  "takeBytes n s = (if n \<le> length s then Some (take n s, drop n s) else None)"

record restored =
  it_region :: nat
  it_state :: "u8 list"
  it_sparse :: sparseRAM

fun regionByIdentity :: "name \<Rightarrow> u8 \<Rightarrow> u32 \<Rightarrow> u32 \<Rightarrow> nat \<Rightarrow> ('d, 'e) busRegion list \<Rightarrow> nat option" where
  "regionByIdentity n k address sz i [] = None"
| "regionByIdentity n k address sz i (r # rs) =
     (if rg_name r = n \<and> kindByte (rg_kind r) = k \<and> rg_address r = address \<and> rg_size r = sz then Some i
      else regionByIdentity n k address sz (i + 1) rs)"

text \<open>The checks on one component's state; the decoded memory of a sparse region goes along.\<close>

definition restoredItem :: "nat \<Rightarrow> ('d, 'e) busRegion \<Rightarrow> u8 list \<Rightarrow> restored option" where
  "restoredItem i r st =
     (if rg_kind r = regionRAM \<and> length st \<noteq> length (rg_data r) then None
      else if rg_kind r = regionMMIO \<and> Option.bind (rg_device r) dev_Stateful = None then None
      else if rg_kind r = regionSparseRAM
      then (case decodeSparseRAMState (rg_size r) st of
              Inl _ \<Rightarrow> None
            | Inr m \<Rightarrow> Some \<lparr>it_region = i, it_state = st, it_sparse = m\<rparr>)
      else Some \<lparr>it_region = i, it_state = st, it_sparse = newSparseRAM\<rparr>)"

definition parseComponent ::
    "('d, 'e) busRegion list \<Rightarrow> name list \<Rightarrow> u8 list \<Rightarrow> (restored \<times> name \<times> u8 list) option" where
  "parseComponent rs seen s =
     do {
       (lengthBytes, s) \<leftarrow> takeBytes 2 s;
       let nameLength = unat (Uint16 lengthBytes);
       (if nameLength = 0 then None else Some ());
       (n, s) \<leftarrow> takeBytes nameLength s;
       (kind, s) \<leftarrow> takeBytes 1 s;
       (reserved, s) \<leftarrow> takeBytes 1 s;
       (address, s) \<leftarrow> takeBytes 4 s;
       (sz, s) \<leftarrow> takeBytes 4 s;
       (stateLength, s) \<leftarrow> takeBytes 4 s;
       (if length s < unat (Uint32 stateLength) then None else Some ());
       i \<leftarrow> regionByIdentity n (kind ! 0) (Uint32 address) (Uint32 sz) 0 rs;
       (if n \<in> set seen then None else Some ());
       (st, s) \<leftarrow> takeBytes (unat (Uint32 stateLength)) s;
       item \<leftarrow> restoredItem i (rs ! i) st;
       Some (item, n, s)
     }"

fun parseComponents ::
    "nat \<Rightarrow> ('d, 'e) busRegion list \<Rightarrow> name list \<Rightarrow> u8 list \<Rightarrow> (restored list \<times> u8 list) option" where
  "parseComponents 0 rs seen s = Some ([], s)"
| "parseComponents (Suc k) rs seen s =
     (case parseComponent rs seen s of
        None \<Rightarrow> None
      | Some (item, n, s) \<Rightarrow>
          (case parseComponents k rs (n # seen) s of None \<Rightarrow> None | Some (items, s) \<Rightarrow> Some (item # items, s)))"

definition statefulCount :: "('d, 'e) busRegion list \<Rightarrow> nat" where
  "statefulCount rs = length (filter (\<lambda>r. rg_kind r \<noteq> regionROM) rs)"

definition parseState :: "bool \<Rightarrow> ('d, 'e) busRegion list \<Rightarrow> u8 list \<Rightarrow> restored list option" where
  "parseState allowMissing rs state =
     do {
       (magic, s) \<leftarrow> takeBytes 4 state;
       (if magic \<noteq> busMagic then None else Some ());
       (version, s) \<leftarrow> takeBytes 4 s;
       (if Uint32 version \<noteq> 1 then None else Some ());
       (countBytes, s) \<leftarrow> takeBytes 4 s;
       let n = unat (Uint32 countBytes);
       (if statefulCount rs < n \<or> \<not> allowMissing \<and> n \<noteq> statefulCount rs then None else Some ());
       (items, s) \<leftarrow> parseComponents n rs [] s;
       (if s \<noteq> [] then None else Some items)
     }"

text \<open>
  The states of the regions before a restore.  A component may carry the identity of a ROM
  region, which has no device: the type assertion panics on it.
\<close>

fun savePrevious ::
    "restored list \<Rightarrow> ('d, 'e) busRegion list \<Rightarrow> 'd \<Rightarrow> ('e busError + (nat \<times> u8 list) list) \<times> 'd" where
  "savePrevious [] rs d = (Inr [], d)"
| "savePrevious (item # items) rs d =
     (let i = it_region item; r = rs ! i;
          (before, d) =
            (if rg_kind r = regionRAM then (Inr (rg_data r), d)
             else if rg_kind r = regionSparseRAM
             then ((case sparseSave (rg_size r) (rg_sparse r) of Inl e \<Rightarrow> Inl (ErrSparse e) | Inr st \<Rightarrow> Inr st), d)
             else case Option.bind (rg_device r) dev_Stateful of
               None \<Rightarrow> (Inl ErrPanic, d)
             | Some sd \<Rightarrow> (case sd_SaveState sd d of (Inl e, d) \<Rightarrow> (Inl (ErrDevice e), d) | (Inr st, d) \<Rightarrow> (Inr st, d)))
      in case before of
           Inl e \<Rightarrow> (Inl e, d)
         | Inr st \<Rightarrow>
             (case savePrevious items rs d of
                (Inl e, d) \<Rightarrow> (Inl e, d)
              | (Inr previous, d) \<Rightarrow> (Inr ((i, st) # previous), d)))"

fun rollback :: "(nat \<times> u8 list) list \<Rightarrow> ('d, 'e) busRegion list \<Rightarrow> 'd \<Rightarrow> ('d, 'e) busRegion list \<times> 'd" where
  "rollback [] rs d = (rs, d)"
| "rollback ((i, st) # previous) rs d =
     (let r = rs ! i in
      if rg_kind r = regionRAM then rollback previous (rs[i := r\<lparr>rg_data := st\<rparr>]) d
      else if rg_kind r = regionSparseRAM
      then rollback previous
             (case decodeSparseRAMState (rg_size r) st of Inl _ \<Rightarrow> rs | Inr m \<Rightarrow> rs[i := r\<lparr>rg_sparse := m\<rparr>]) d
      else case Option.bind (rg_device r) dev_Stateful of
        None \<Rightarrow> rollback previous rs d
      | Some sd \<Rightarrow> rollback previous rs (snd (sd_LoadState sd st d)))"

definition loadDevice :: "bool \<Rightarrow> ('d, 'e) StatefulDevice \<Rightarrow> u8 list \<Rightarrow> 'd \<Rightarrow> ('e + unit) \<times> 'd" where
  "loadDevice allowMissing sd st =
     (case (if allowMissing then sd_LoadStateSubset sd else None) of
        Some loadSubset \<Rightarrow> loadSubset st
      | None \<Rightarrow> sd_LoadState sd st)"

fun applyItems ::
    "bool \<Rightarrow> (nat \<times> u8 list) list \<Rightarrow> restored list \<Rightarrow> ('d, 'e) busRegion list \<Rightarrow> 'd \<Rightarrow>
     ('e busError + unit) \<times> ('d, 'e) busRegion list \<times> 'd" where
  "applyItems allowMissing previous [] rs d = (Inr (), rs, d)"
| "applyItems allowMissing previous (item # items) rs d =
     (let i = it_region item; r = rs ! i in
      if rg_kind r = regionRAM
      then applyItems allowMissing previous items (rs[i := r\<lparr>rg_data := it_state item\<rparr>]) d
      else if rg_kind r = regionSparseRAM
      then applyItems allowMissing previous items (rs[i := r\<lparr>rg_sparse := it_sparse item\<rparr>]) d
      else case Option.bind (rg_device r) dev_Stateful of
        None \<Rightarrow> (Inl ErrInvalidState, rollback previous rs d)
      | Some sd \<Rightarrow>
          (case loadDevice allowMissing sd (it_state item) d of
             (Inl e, d) \<Rightarrow> (Inl (ErrDevice e), rollback previous rs d)
           | (Inr _, d) \<Rightarrow> applyItems allowMissing previous items rs d))"

definition loadState :: "bool \<Rightarrow> u8 list \<Rightarrow> ('d, 'e) Bus \<Rightarrow> 'd \<Rightarrow> ('e busError + unit) \<times> ('d, 'e) busState" where
  "loadState allowMissing state b d =
     (case parseState allowMissing (pb_regions b) state of
        None \<Rightarrow> (Inl ErrInvalidState, b, d)
      | Some items \<Rightarrow>
          (case savePrevious items (pb_regions b) d of
             (Inl e, d) \<Rightarrow> (Inl e, b, d)
           | (Inr previous, d) \<Rightarrow>
               (case applyItems allowMissing previous items (pb_regions b) d of
                  (e, rs, d) \<Rightarrow> (e, b\<lparr>pb_regions := rs\<rparr>, d))))"

definition Bus_LoadState :: "u8 list \<Rightarrow> ('d, 'e) Bus \<Rightarrow> 'd \<Rightarrow> ('e busError + unit) \<times> ('d, 'e) busState" where
  "Bus_LoadState = loadState False"

definition Bus_LoadStateSubset :: "u8 list \<Rightarrow> ('d, 'e) Bus \<Rightarrow> 'd \<Rightarrow> ('e busError + unit) \<times> ('d, 'e) busState" where
  "Bus_LoadStateSubset = loadState True"

end
