(* ===== verification/System_Memory.thy ===== *)
theory System_Memory
  imports System_Bus
begin

text \<open>
  What the physical bus promises: its invariant, the memory it presents, and that accesses,
  blocks and host copies are reads and writes of that memory.  The abstract memory is the one
  of the processor's mappings: addresses to permissions and bytes.
\<close>

subsection \<open>The invariant\<close>

definition response_ok :: "u32 \<Rightarrow> memoryResponseWrite \<Rightarrow> bool" where
  "response_ok sz w \<longleftrightarrow> \<not> responseWriteBad sz (rw_offset w) (rw_width w) (rw_value w)"

definition responses_ok :: "u32 \<Rightarrow> (memoryWriteResponseKey \<rightharpoonup> memoryResponseWrite list) \<Rightarrow> bool" where
  "responses_ok sz rules \<longleftrightarrow> (\<forall>k ws. rules k = Some ws \<longrightarrow>
     \<not> responseWriteBad sz (rk_offset k) (rk_width k) (rk_value k) \<and> list_all (response_ok sz) ws)"

definition storage_ok :: "('d, 'e) busRegion \<Rightarrow> bool" where
  "storage_ok r \<longleftrightarrow>
     (case rg_kind r of
        regionRAM \<Rightarrow> length (rg_data r) = unat (rg_size r) \<and> length (rg_initial r) = unat (rg_size r) \<and>
          rg_permissions r = RWX
      | regionROM \<Rightarrow> length (rg_data r) = unat (rg_size r) \<and>
          rg_permissions r = PermissionRead OR PermissionExecute \<and> rg_writeResponses r = Map.empty \<and> rg_device r = None
      | regionMMIO \<Rightarrow> rg_device r \<noteq> None \<and> rg_permissions r = PermissionRead OR PermissionWrite \<and>
          rg_writeResponses r = Map.empty
      | regionSparseRAM \<Rightarrow> sparse_ok (rg_sparse r) \<and> sparse_within (unat (rg_size r)) (rg_sparse r) \<and>
          rg_permissions r = RWX)"

definition region_ok :: "('d, 'e) busRegion \<Rightarrow> bool" where
  "region_ok r \<longleftrightarrow> \<not> TrimSpaceEmpty (rg_name r) \<and> length (rg_name r) \<le> 255 \<and> \<not> hasNUL (rg_name r) \<and>
     rg_size r \<noteq> 0 \<and> rg_end r \<le> 2 ^ 32 \<and> storage_ok r \<and> responses_ok (rg_size r) (rg_writeResponses r)"

definition regions_ok :: "('d, 'e) busRegion list \<Rightarrow> bool" where
  "regions_ok rs \<longleftrightarrow> sorted_wrt (\<lambda>r s. rg_end r \<le> unat (rg_address s)) rs \<and> distinct (map rg_name rs) \<and>
     (\<forall>r \<in> set rs. region_ok r)"

definition bus_ok :: "('d, 'e) Bus \<Rightarrow> bool" where
  "bus_ok b \<longleftrightarrow> regions_ok (pb_regions b) \<and>
     (case pb_lastRegion b of None \<Rightarrow> True | Some i \<Rightarrow> i < length (pb_regions b)) \<and>
     (pb_observed b \<longleftrightarrow> pb_mmioObserver b \<noteq> None \<or> pb_memoryObserver b \<noteq> None \<or> pb_contextObserver b \<noteq> None)"

lemma bus_okD:
  assumes "bus_ok b"
  shows "regions_ok (pb_regions b)" "i < length (pb_regions b) \<Longrightarrow> region_ok (pb_regions b ! i)"
    "i < j \<Longrightarrow> j < length (pb_regions b) \<Longrightarrow> rg_end (pb_regions b ! i) \<le> unat (rg_address (pb_regions b ! j))"
    "pb_lastRegion b = Some i \<Longrightarrow> i < length (pb_regions b)"
proof -
  show r: "regions_ok (pb_regions b)" using assms by (simp add: bus_ok_def)
  then show "i < length (pb_regions b) \<Longrightarrow> region_ok (pb_regions b ! i)"
    unfolding regions_ok_def by (meson nth_mem)
  have "sorted_wrt (\<lambda>r s. rg_end r \<le> unat (rg_address s)) (pb_regions b)"
    using r unfolding regions_ok_def by blast
  then show "i < j \<Longrightarrow> j < length (pb_regions b) \<Longrightarrow> rg_end (pb_regions b ! i) \<le> unat (rg_address (pb_regions b ! j))"
    by (rule sorted_wrt_nth_less)
  show "pb_lastRegion b = Some i \<Longrightarrow> i < length (pb_regions b)"
    using assms by (simp add: bus_ok_def)
qed

lemma region_okD:
  assumes "region_ok r"
  shows "rg_end r \<le> 2 ^ 32" "unat (rg_address r) < rg_end r" "0 < unat (rg_size r)"
  using assms by (auto simp: region_ok_def rg_end_def unat_gt_0)

subsection \<open>Which region answers\<close>

definition in_region :: "nat \<Rightarrow> ('d, 'e) busRegion \<Rightarrow> bool" where
  "in_region x r \<longleftrightarrow> unat (rg_address r) \<le> x \<and> x < rg_end r"

definition region_index :: "('d, 'e) busRegion list \<Rightarrow> nat \<Rightarrow> nat option" where
  "region_index rs x = find (\<lambda>i. in_region x (rs ! i)) [0..<length rs]"

lemma in_region_unique:
  assumes "regions_ok rs" "i < length rs" "j < length rs" "in_region x (rs ! i)" "in_region x (rs ! j)"
  shows "i = j"
proof -
  have sorted: "sorted_wrt (\<lambda>r s. rg_end r \<le> unat (rg_address s)) rs"
    using assms(1) unfolding regions_ok_def by blast
  have "\<not> k < l" if "in_region x (rs ! k)" "in_region x (rs ! l)" "l < length rs" for k l
  proof
    assume "k < l"
    then have "rg_end (rs ! k) \<le> unat (rg_address (rs ! l))" using sorted_wrt_nth_less [OF sorted _ that(3)] by blast
    then show False using that(1,2) by (simp add: in_region_def)
  qed
  then show ?thesis using assms(2-5) by (meson linorder_neqE_nat)
qed

lemma region_index_Some:
  assumes "regions_ok rs"
  shows "region_index rs x = Some i \<longleftrightarrow> i < length rs \<and> in_region x (rs ! i)"
proof
  assume "region_index rs x = Some i"
  then show "i < length rs \<and> in_region x (rs ! i)" by (auto simp: region_index_def find_Some_iff)
next
  assume i: "i < length rs \<and> in_region x (rs ! i)"
  show "region_index rs x = Some i"
  proof (cases "region_index rs x")
    case None
    then show ?thesis using i by (auto simp: region_index_def find_None_iff)
  next
    case (Some j)
    then have "j < length rs \<and> in_region x (rs ! j)" by (auto simp: region_index_def find_Some_iff)
    then show ?thesis using in_region_unique [OF assms] i Some by blast
  qed
qed

lemma region_index_None: "region_index rs x = None \<longleftrightarrow> (\<forall>r \<in> set rs. \<not> in_region x r)"
proof -
  have "region_index rs x = None \<longleftrightarrow> (\<forall>i < length rs. \<not> in_region x (rs ! i))"
    unfolding region_index_def find_None_iff by simp
  then show ?thesis by (metis in_set_conv_nth)
qed

lemma searchRegion_index:
  assumes b: "bus_ok b"
  shows "searchRegion address b = region_index (pb_regions b) (unat address)"
proof -
  let ?rs = "pb_regions b" and ?x = "unat address"
  define f where "f = (\<lambda>i. ?x < rg_end (?rs ! i))"
  define i where "i = Search (length ?rs) f"
  note ok = bus_okD [OF b]
  have mono: "f l" if "k \<le> l" "l < length ?rs" "f k" for k l
    using that ok(3) [of k l] region_okD(2) [OF ok(2) [of l]] by (cases "k = l") (auto simp: f_def)
  have least: "k < i \<Longrightarrow> \<not> f k" "i < length ?rs \<Longrightarrow> f i" for k
    unfolding i_def using Search_least [of "length ?rs" f] mono by blast+
  have s: "searchRegion address b = (if length ?rs \<le> i \<or> address < rg_address (?rs ! i) then None else Some i)"
    by (simp add: searchRegion_def Let_def i_def f_def)
  have none: "region_index ?rs ?x = None" if "\<And>k. k < length ?rs \<Longrightarrow> \<not> in_region ?x (?rs ! k)"
    using that by (auto simp: region_index_None in_set_conv_nth)
  show ?thesis
  proof (cases "length ?rs \<le> i")
    case True
    then have "\<not> in_region ?x (?rs ! k)" if "k < length ?rs" for k
      using least(1) [of k] that by (simp add: in_region_def f_def)
    then show ?thesis using none s True by simp
  next
    case False
    then have hit: "?x < rg_end (?rs ! i)" using least(2) by (simp add: f_def)
    show ?thesis
    proof (cases "address < rg_address (?rs ! i)")
      case True
      have "\<not> in_region ?x (?rs ! k)" if "k < length ?rs" for k
      proof (cases "k < i")
        case True
        then show ?thesis using least(1) by (simp add: in_region_def f_def)
      next
        case False
        then have "unat (rg_address (?rs ! i)) \<le> unat (rg_address (?rs ! k))"
          using ok(3) [of i k] that region_okD(2) [OF ok(2) [of i]] by (cases "i = k") auto
        then show ?thesis using True by (simp add: in_region_def word_less_nat_alt)
      qed
      then show ?thesis using none s True by simp
    next
      case ge: False
      then have "region_index ?rs ?x = Some i"
        using False hit by (simp add: region_index_Some [OF ok(1)] in_region_def word_less_nat_alt)
      then show ?thesis using s False ge by simp
    qed
  qed
qed

text \<open>The remembered region never shows: it only saves the search.\<close>

lemma regionFor_index:
  assumes b: "bus_ok b"
  shows "\<exists>l. regionFor address b = (region_index (pb_regions b) (unat address), b\<lparr>pb_lastRegion := l\<rparr>) \<and>
    (l = pb_lastRegion b \<or> l = region_index (pb_regions b) (unat address))"
proof (cases "missesLast address b")
  case True
  then show ?thesis
    by (cases "region_index (pb_regions b) (unat address)")
      (auto simp: regionFor_def searchRegion_index [OF b] intro: exI [of _ "pb_lastRegion b"])
next
  case False
  then obtain i where i: "pb_lastRegion b = Some i" "\<not> address < rg_address (pb_regions b ! i)"
      "unat address < rg_end (pb_regions b ! i)"
    by (auto simp: missesLast_def Let_def not_le split: option.splits)
  then have "region_index (pb_regions b) (unat address) = Some i"
    using bus_okD(4) [OF b i(1)] by (simp add: region_index_Some [OF bus_okD(1) [OF b]] in_region_def word_less_nat_alt)
  then show ?thesis using False i(1) by (auto simp: regionFor_def intro: exI [of _ "pb_lastRegion b"])
qed

lemma bus_ok_last:
  assumes "bus_ok b" "l = pb_lastRegion b \<or> l = region_index (pb_regions b) x"
  shows "bus_ok (b\<lparr>pb_lastRegion := l\<rparr>)"
proof -
  have l: "i < length (pb_regions b)" if "l = Some i" for i
    using assms(2) that bus_okD(4) [OF assms(1)] region_index_Some [OF bus_okD(1) [OF assms(1)], of x i] by auto
  then show ?thesis using assms(1) by (cases l) (simp_all add: bus_ok_def)
qed

subsection \<open>The memory of the bus\<close>

definition byteOf :: "('d, 'e) busRegion \<Rightarrow> nat \<Rightarrow> u8" where
  "byteOf r k = (if rg_kind r = regionSparseRAM then sparseByte (rg_sparse r) k else rg_data r ! k)"

definition bus_memory :: "('d, 'e) Bus \<Rightarrow> memory" where
  "bus_memory b x =
     (case region_index (pb_regions b) x of
        None \<Rightarrow> None
      | Some i \<Rightarrow>
          let r = pb_regions b ! i in
          if rg_kind r = regionMMIO then None else Some (rg_permissions r, byteOf r (x - unat (rg_address r))))"

lemma bus_memory_cong: "pb_regions b = pb_regions b' \<Longrightarrow> bus_memory b = bus_memory b'"
  by (rule ext) (simp add: bus_memory_def split: option.split)

lemma bus_memory_last [simp]: "bus_memory (b\<lparr>pb_lastRegion := l\<rparr>) = bus_memory b"
  by (rule bus_memory_cong) simp

lemma plain_length:
  "region_ok r \<Longrightarrow> rg_kind r \<noteq> regionMMIO \<Longrightarrow> rg_kind r \<noteq> regionSparseRAM \<Longrightarrow> length (rg_data r) = unat (rg_size r)"
  by (cases "rg_kind r") (simp_all add: region_ok_def storage_ok_def)

lemma sparse_storage:
  "region_ok r \<Longrightarrow> rg_kind r = regionSparseRAM \<Longrightarrow> sparse_ok (rg_sparse r) \<and> sparse_within (unat (rg_size r)) (rg_sparse r)"
  by (simp add: region_ok_def storage_ok_def)

lemma readPlain_bytes:
  assumes "region_ok r" "rg_kind r \<noteq> regionMMIO" "unat offset + n \<le> unat (rg_size r)"
  shows "readPlain offset n r = map (byteOf r) [unat offset ..< unat offset + n]"
proof (cases "rg_kind r = regionSparseRAM")
  case True
  have "unat offset + n \<le> 2 ^ 32" using assms(3) unat_u32_less [of "rg_size r"] by linarith
  then have "sparseRead offset n (rg_sparse r) = map (sparseByte (rg_sparse r)) [unat offset ..< unat offset + n]"
    by (rule sparseRead_spec [OF conjunct1 [OF sparse_storage [OF assms(1) True]]])
  moreover have "byteOf r = sparseByte (rg_sparse r)" by (simp add: byteOf_def fun_eq_iff True)
  ultimately show ?thesis by (simp add: readPlain_def True)
next
  case False
  then have len: "length (rg_data r) = unat (rg_size r)" using assms(1,2) by (simp add: plain_length)
  have "readPlain offset n r = slice (rg_data r) (unat offset) n" by (simp add: readPlain_def False)
  also have "\<dots> = map (byteOf r) [unat offset ..< unat offset + n]"
    by (rule nth_equalityI) (use assms(3) len False in \<open>simp_all add: nth_slice byteOf_def\<close>)
  finally show ?thesis .
qed

text \<open>What a write leaves alone.\<close>

definition same_shape :: "('d, 'e) busRegion \<Rightarrow> ('d, 'e) busRegion \<Rightarrow> bool" where
  "same_shape r s \<longleftrightarrow> rg_name s = rg_name r \<and> rg_address s = rg_address r \<and> rg_size s = rg_size r \<and>
     rg_permissions s = rg_permissions r \<and> rg_kind s = rg_kind r \<and> rg_initial s = rg_initial r \<and>
     rg_device s = rg_device r \<and> rg_writeResponses s = rg_writeResponses r"

lemma same_shape_refl [simp]: "same_shape r r"
  by (simp add: same_shape_def)

lemma same_shape_trans: "same_shape r s \<Longrightarrow> same_shape s t \<Longrightarrow> same_shape r t"
  by (simp add: same_shape_def)

lemma same_shape_end: "same_shape r s \<Longrightarrow> rg_end s = rg_end r"
  by (simp add: same_shape_def rg_end_def)

lemma writePlain_bytes:
  assumes r: "region_ok r" "rg_kind r \<noteq> regionMMIO" and fit: "unat offset + length source \<le> unat (rg_size r)"
  shows "region_ok (writePlain offset source r)" "same_shape r (writePlain offset source r)"
    "k < unat (rg_size r) \<Longrightarrow> byteOf (writePlain offset source r) k =
       (if unat offset \<le> k \<and> k < unat offset + length source then source ! (k - unat offset) else byteOf r k)"
proof -
  show shape: "same_shape r (writePlain offset source r)"
    by (simp add: same_shape_def writePlain_def)
  have size: "unat (rg_size r) < 2 ^ 32" by (rule unat_u32_less)
  have "region_ok (writePlain offset source r) \<and> (k < unat (rg_size r) \<longrightarrow> byteOf (writePlain offset source r) k =
      (if unat offset \<le> k \<and> k < unat offset + length source then source ! (k - unat offset) else byteOf r k))"
  proof (cases "rg_kind r = regionSparseRAM")
    case True
    note s = sparse_storage [OF r(1) True]
    have "unat offset + length source \<le> 2 ^ 32" using fit size by linarith
    note w = sparseWrite_spec [OF conjunct1 [OF s] this]
    have within: "sparse_within (unat (rg_size r)) (sparseWrite offset source (rg_sparse r))"
      unfolding sparse_within_def
    proof (intro allI impI)
      fix x :: nat assume x: "unat (rg_size r) \<le> x" "x < 2 ^ 32"
      then have "sparseByte (rg_sparse r) x = 0" using s by (simp add: sparse_within_def)
      then show "sparseByte (sparseWrite offset source (rg_sparse r)) x = 0" using w x fit by auto
    qed
    show ?thesis
      using r(1) True w within size by (auto simp: region_ok_def storage_ok_def rg_end_def byteOf_def writePlain_def)
  next
    case False
    then have len: "length (rg_data r) = unat (rg_size r)" using r by (simp add: plain_length)
    have "storage_ok (writePlain offset source r)"
      using r(1) False r(2) len fit by (cases "rg_kind r") (simp_all add: region_ok_def storage_ok_def writePlain_def)
    then show ?thesis
      using r(1) False len fit by (simp add: region_ok_def rg_end_def byteOf_def writePlain_def nth_overwrite)
  qed
  then show "region_ok (writePlain offset source r)"
    "k < unat (rg_size r) \<Longrightarrow> byteOf (writePlain offset source r) k =
       (if unat offset \<le> k \<and> k < unat offset + length source then source ! (k - unat offset) else byteOf r k)"
    by blast+
qed

lemma region_index_update:
  "i < length rs \<Longrightarrow> same_shape (rs ! i) r \<Longrightarrow> region_index (rs[i := r]) x = region_index rs x"
proof -
  assume i: "i < length rs" "same_shape (rs ! i) r"
  have "(\<lambda>j. in_region x (rs[i := r] ! j)) = (\<lambda>j. in_region x (rs ! j))"
  proof
    fix j show "in_region x (rs[i := r] ! j) = in_region x (rs ! j)"
      using i by (cases "j = i") (simp_all add: in_region_def rg_end_def same_shape_def)
  qed
  then show ?thesis by (simp add: region_index_def)
qed

lemma regions_ok_update:
  assumes "regions_ok rs" "i < length rs" "same_shape (rs ! i) r" "region_ok r"
  shows "regions_ok (rs[i := r])"
proof -
  have same: "rg_address (rs[i := r] ! j) = rg_address (rs ! j) \<and> rg_end (rs[i := r] ! j) = rg_end (rs ! j)" for j
    using assms(2,3) same_shape_end [OF assms(3)] by (cases "j = i") (simp_all add: same_shape_def)
  have names: "map rg_name (rs[i := r]) = map rg_name rs"
    using assms(2,3) by (simp add: map_update same_shape_def list_update_same_conv)
  have "sorted_wrt (\<lambda>r s. rg_end r \<le> unat (rg_address s)) (rs[i := r])"
    using assms(1) same unfolding regions_ok_def sorted_wrt_iff_nth_less by simp
  moreover have "\<forall>s \<in> set (rs[i := r]). region_ok s"
    using assms(1,4) set_update_subset_insert [of rs i r] unfolding regions_ok_def by blast
  ultimately show ?thesis using assms(1) names by (simp add: regions_ok_def)
qed

lemma bus_ok_setRegion:
  assumes "bus_ok b" "i < length (pb_regions b)" "same_shape (pb_regions b ! i) r" "region_ok r"
  shows "bus_ok (setRegion i r b)"
  using assms regions_ok_update [OF bus_okD(1) [OF assms(1)] assms(2-4)]
  by (simp add: bus_ok_def setRegion_def split: option.splits)

lemma bus_memory_setRegion:
  assumes "i < length (pb_regions b)" "same_shape (pb_regions b ! i) r"
  shows "bus_memory (setRegion i r b) x =
    (if region_index (pb_regions b) x = Some i
     then (if rg_kind r = regionMMIO then None else Some (rg_permissions r, byteOf r (x - unat (rg_address r))))
     else bus_memory b x)"
  using region_index_update [OF assms, of x] assms(1)
  by (auto simp: bus_memory_def setRegion_def Let_def nth_list_update split: option.split)

lemma bus_memory_in_region:
  assumes "bus_ok b" "i < length (pb_regions b)" "rg_kind (pb_regions b ! i) \<noteq> regionMMIO" "in_region x (pb_regions b ! i)"
  shows "bus_memory b x = Some (rg_permissions (pb_regions b ! i), byteOf (pb_regions b ! i) (x - unat (rg_address (pb_regions b ! i))))"
proof -
  have "region_index (pb_regions b) x = Some i"
    using assms(2,4) by (simp add: region_index_Some [OF bus_okD(1) [OF assms(1)]])
  then show ?thesis using assms(3) by (simp add: bus_memory_def Let_def)
qed

text \<open>Reads and writes within one plain region.\<close>

lemma region_read:
  assumes b: "bus_ok b" and i: "i < length (pb_regions b)" "rg_kind (pb_regions b ! i) \<noteq> regionMMIO"
    and a: "in_region (unat address) (pb_regions b ! i)" "unat address + n \<le> rg_end (pb_regions b ! i)"
    and p: "rg_permissions (pb_regions b ! i) AND p = p"
  shows "spec_read (bus_memory b) p (unat address) n =
    Inr (readPlain (address - rg_address (pb_regions b ! i)) n (pb_regions b ! i))"
proof -
  let ?r = "pb_regions b ! i"
  define off where "off = unat (address - rg_address ?r)"
  have at: "unat address = unat (rg_address ?r) + off"
    using a(1) by (simp add: off_def in_region_def unat_sub word_le_nat_alt)
  have "spec_read (bus_memory b) p (unat address) n =
      Inr (map (\<lambda>k. byteOf ?r (unat address + k - unat (rg_address ?r))) [0..<n])"
  proof (rule spec_read_ok)
    fix k assume "k < n"
    then have "in_region (unat address + k) ?r" using a by (simp add: in_region_def)
    then show "\<exists>q. bus_memory b (unat address + k) = Some (q, byteOf ?r (unat address + k - unat (rg_address ?r))) \<and> q AND p = p"
      using bus_memory_in_region [OF b i] p by simp
  qed
  also have "map (\<lambda>k. byteOf ?r (unat address + k - unat (rg_address ?r))) [0..<n] =
      map (byteOf ?r) [off ..< off + n]"
    by (rule nth_equalityI) (simp_all add: at)
  also have "\<dots> = readPlain (address - rg_address ?r) n ?r"
    unfolding off_def
    by (rule readPlain_bytes [symmetric])
      (use bus_okD(2) [OF b i(1)] i(2) a(2) at in \<open>simp_all add: off_def [symmetric] rg_end_def\<close>)
  finally show ?thesis .
qed

lemma region_write:
  assumes b: "bus_ok b" and i: "i < length (pb_regions b)" "rg_kind (pb_regions b ! i) \<noteq> regionMMIO"
    and a: "in_region (unat address) (pb_regions b ! i)" "unat address + length source \<le> rg_end (pb_regions b ! i)"
    and p: "rg_permissions (pb_regions b ! i) AND p = p"
  shows "spec_write (bus_memory b) p (unat address) source =
      (Inr (), bus_memory (setRegion i (writePlain (address - rg_address (pb_regions b ! i)) source (pb_regions b ! i)) b))"
    and "bus_ok (setRegion i (writePlain (address - rg_address (pb_regions b ! i)) source (pb_regions b ! i)) b)"
proof -
  let ?r = "pb_regions b ! i"
  let ?w = "writePlain (address - rg_address ?r) source ?r"
  have off: "unat (address - rg_address ?r) = unat address - unat (rg_address ?r)"
    using a(1) by (simp add: in_region_def unat_sub word_le_nat_alt)
  have fit: "unat (address - rg_address ?r) + length source \<le> unat (rg_size ?r)"
    using a off by (simp add: in_region_def rg_end_def)
  note w = writePlain_bytes [OF bus_okD(2) [OF b i(1)] i(2) fit]
  show "bus_ok (setRegion i ?w b)" by (rule bus_ok_setRegion [OF b i(1) w(2) w(1)])
  have "spec_write (bus_memory b) p (unat address) source =
      (Inr (), \<lambda>x. if unat address \<le> x \<and> x < unat address + length source
         then map_option (\<lambda>(q, _). (q, source ! (x - unat address))) (bus_memory b x) else bus_memory b x)"
  proof (rule spec_write_ok)
    fix k assume "k < length source"
    then have "in_region (unat address + k) ?r" using a by (simp add: in_region_def)
    then show "\<exists>q w. bus_memory b (unat address + k) = Some (q, w) \<and> q AND p = p"
      using bus_memory_in_region [OF b i] p by simp
  qed
  also have "(\<lambda>x. if unat address \<le> x \<and> x < unat address + length source
      then map_option (\<lambda>(q, _). (q, source ! (x - unat address))) (bus_memory b x) else bus_memory b x) =
      bus_memory (setRegion i ?w b)"
  proof
    fix x
    have index: "region_index (pb_regions b) x = Some i \<longleftrightarrow> in_region x ?r"
      using i(1) by (simp add: region_index_Some [OF bus_okD(1) [OF b]])
    show "(if unat address \<le> x \<and> x < unat address + length source
        then map_option (\<lambda>(q, _). (q, source ! (x - unat address))) (bus_memory b x) else bus_memory b x) =
        bus_memory (setRegion i ?w b) x"
    proof (cases "in_region x ?r")
      case True
      have k: "x - unat (rg_address ?r) < unat (rg_size ?r)" using True by (auto simp: in_region_def rg_end_def)
      have "unat (rg_address ?r) \<le> x" "unat (rg_address ?r) \<le> unat address" using True a(1) by (auto simp: in_region_def)
      then show ?thesis
        using True i(2) w(2) w(3) [OF k] off
        by (auto simp: bus_memory_setRegion [OF i(1) w(2)] index bus_memory_in_region [OF b i True] same_shape_def)
    next
      case False
      then have "\<not> (unat address \<le> x \<and> x < unat address + length source)" using a by (auto simp: in_region_def)
      then show ?thesis using False by (auto simp: bus_memory_setRegion [OF i(1) w(2)] index)
    qed
  qed
  finally show "spec_write (bus_memory b) p (unat address) source = (Inr (), bus_memory (setRegion i ?w b))" .
qed

subsection \<open>Write responses\<close>

definition respond :: "('d, 'e) busRegion \<Rightarrow> u32 \<Rightarrow> Width \<Rightarrow> u32 \<Rightarrow> memory \<Rightarrow> memory" where
  "respond r offset w v m =
     (case rg_writeResponses r \<lparr>rk_offset = offset, rk_width = w, rk_value = v\<rparr> of
        None \<Rightarrow> m
      | Some ws \<Rightarrow>
          fold (\<lambda>x m. snd (spec_write m 0 (unat (rg_address r) + unat (rw_offset x))
                              (putValue (unat (rw_width x)) (rw_value x)))) ws m)"

lemma length_putValue: "n = 1 \<or> n = 2 \<or> n = 4 \<Longrightarrow> length (putValue n v) = n"
  by (auto simp: putValue_def)

lemma length_putWidth: "Width_valid w \<Longrightarrow> length (putValue (unat w) v) = unat w"
  by (rule length_putValue) (auto simp: Width_valid_def width_defs)

lemma setRegion_setRegion [simp]: "setRegion i r (setRegion i s b) = setRegion i r b"
  by (simp add: setRegion_def)

lemma setRegion_same [simp]: "setRegion i (pb_regions b ! i) b = b"
  by (simp add: setRegion_def)

lemma setRegion_regions [simp]: "pb_regions (setRegion i r b) = (pb_regions b)[i := r]"
  by (simp add: setRegion_def)

lemma address_offset:
  assumes "rg_end r \<le> 2 ^ 32" "unat off + n \<le> unat (rg_size r)" "0 < n"
  shows "unat (rg_address r + off) = unat (rg_address r) + unat off"
proof -
  have "unat (rg_address r) + unat off < 2 ^ LENGTH(32)" using assms by (simp add: rg_end_def)
  then show ?thesis by (simp add: unat_add_lem [THEN iffD1])
qed

lemma response_writes:
  assumes "bus_ok b" "i < length (pb_regions b)" "rg_kind (pb_regions b ! i) \<noteq> regionMMIO"
    and "list_all (response_ok (rg_size (pb_regions b ! i))) ws"
  shows "bus_ok (setRegion i (fold (\<lambda>x. writePlain (rw_offset x) (putValue (unat (rw_width x)) (rw_value x))) ws (pb_regions b ! i)) b)
    \<and> same_shape (pb_regions b ! i) (fold (\<lambda>x. writePlain (rw_offset x) (putValue (unat (rw_width x)) (rw_value x))) ws (pb_regions b ! i))
    \<and> bus_memory (setRegion i (fold (\<lambda>x. writePlain (rw_offset x) (putValue (unat (rw_width x)) (rw_value x))) ws (pb_regions b ! i)) b) =
      fold (\<lambda>x m. snd (spec_write m 0 (unat (rg_address (pb_regions b ! i)) + unat (rw_offset x))
                              (putValue (unat (rw_width x)) (rw_value x)))) ws (bus_memory b)"
  using assms
proof (induction ws arbitrary: b)
  case (Cons x ws)
  let ?r = "pb_regions b ! i" and ?bytes = "putValue (unat (rw_width x)) (rw_value x)"
  let ?w = "writePlain (rw_offset x) ?bytes ?r"
  have x: "Width_valid (rw_width x)" "unat (rw_offset x) + unat (rw_width x) \<le> unat (rg_size ?r)"
    using Cons.prems(4) by (simp_all add: response_ok_def responseWriteBad_def)
  note ok = bus_okD(2) [OF Cons.prems(1,2)]
  have pos: "0 < unat (rw_width x)" using x(1) by (auto simp: Width_valid_def width_defs)
  have at: "unat (rg_address ?r + rw_offset x) = unat (rg_address ?r) + unat (rw_offset x)"
    by (rule address_offset [OF region_okD(1) [OF ok] x(2) pos])
  have inr: "in_region (unat (rg_address ?r + rw_offset x)) ?r"
    using x(2) pos by (simp add: at in_region_def rg_end_def)
  have fit: "unat (rg_address ?r + rw_offset x) + length ?bytes \<le> rg_end ?r"
    using x by (simp add: at rg_end_def length_putWidth)
  note w = region_write [OF Cons.prems(1-3) inr fit, of 0]
  have shape: "same_shape ?r ?w"
    by (rule writePlain_bytes(2) [OF ok Cons.prems(3)]) (use x in \<open>simp add: length_putWidth\<close>)
  define b1 where "b1 = setRegion i ?w b"
  have b1: "bus_ok b1" "pb_regions b1 ! i = ?w" "i < length (pb_regions b1)" "rg_address ?w = rg_address ?r"
      "bus_memory b1 = snd (spec_write (bus_memory b) 0 (unat (rg_address ?r) + unat (rw_offset x)) ?bytes)"
    using w Cons.prems(2) shape by (simp_all add: b1_def at same_shape_def)
  have "rg_kind (pb_regions b1 ! i) \<noteq> regionMMIO" "list_all (response_ok (rg_size (pb_regions b1 ! i))) ws"
    using Cons.prems(3,4) shape by (simp_all add: b1(2) same_shape_def)
  from Cons.IH [OF b1(1) b1(3) this]
  show ?case using same_shape_trans [OF shape] by (simp only: b1(2,4,5) fold_simps) (simp add: b1_def)
qed simp

lemma apply_response:
  assumes "bus_ok b" "i < length (pb_regions b)" "rg_kind (pb_regions b ! i) \<noteq> regionMMIO"
  shows "bus_ok (setRegion i (applyMemoryWriteResponse offset w v (pb_regions b ! i)) b)"
    "same_shape (pb_regions b ! i) (applyMemoryWriteResponse offset w v (pb_regions b ! i))"
    "bus_memory (setRegion i (applyMemoryWriteResponse offset w v (pb_regions b ! i)) b) =
       respond (pb_regions b ! i) offset w v (bus_memory b)"
proof -
  let ?r = "pb_regions b ! i" and ?k = "\<lparr>rk_offset = offset, rk_width = w, rk_value = v\<rparr>"
  have rules: "responses_ok (rg_size ?r) (rg_writeResponses ?r)"
    using bus_okD(2) [OF assms(1,2)] by (simp add: region_ok_def)
  have "bus_ok (setRegion i (applyMemoryWriteResponse offset w v ?r) b) \<and>
      same_shape ?r (applyMemoryWriteResponse offset w v ?r) \<and>
      bus_memory (setRegion i (applyMemoryWriteResponse offset w v ?r) b) = respond ?r offset w v (bus_memory b)"
  proof (cases "rg_writeResponses ?r ?k")
    case None
    then show ?thesis using assms(1) by (simp add: applyMemoryWriteResponse_def respond_def)
  next
    case (Some ws)
    have "list_all (response_ok (rg_size ?r)) ws" using rules Some by (simp add: responses_ok_def)
    from response_writes [OF assms this] show ?thesis by (simp add: applyMemoryWriteResponse_def respond_def Some)
  qed
  then show "bus_ok (setRegion i (applyMemoryWriteResponse offset w v ?r) b)"
    "same_shape ?r (applyMemoryWriteResponse offset w v ?r)"
    "bus_memory (setRegion i (applyMemoryWriteResponse offset w v ?r) b) = respond ?r offset w v (bus_memory b)"
    by blast+
qed

lemma respond_empty: "rg_writeResponses r = Map.empty \<Longrightarrow> respond r offset w v m = m"
  by (simp add: respond_def)

lemma respond_shape: "same_shape r s \<Longrightarrow> respond s = respond r"
proof -
  assume "same_shape r s"
  then have eqs: "rg_address s = rg_address r" "rg_writeResponses s = rg_writeResponses r" by (simp_all add: same_shape_def)
  show ?thesis by (intro ext) (simp only: respond_def eqs)
qed

text \<open>A write into a plain region followed by its response.\<close>

definition responded :: "u32 \<Rightarrow> Width \<Rightarrow> u32 \<Rightarrow> ('d, 'e) busRegion \<Rightarrow> ('d, 'e) busRegion" where
  "responded offset w v r = (if rg_writeResponses r \<noteq> Map.empty then applyMemoryWriteResponse offset w v r else r)"

lemma write_and_respond:
  assumes b: "bus_ok b" and i: "i < length (pb_regions b)" "rg_kind (pb_regions b ! i) \<noteq> regionMMIO"
    and a: "in_region (unat address) (pb_regions b ! i)" "unat address + length source \<le> rg_end (pb_regions b ! i)"
    and p: "rg_permissions (pb_regions b ! i) AND p = p"
    and b': "b' = setRegion i (responded offset w v (writePlain (address - rg_address (pb_regions b ! i)) source (pb_regions b ! i))) b"
  shows "bus_ok b'" "same_shape (pb_regions b ! i) (pb_regions b' ! i)"
    "bus_memory b' = respond (pb_regions b ! i) offset w v (snd (spec_write (bus_memory b) p (unat address) source))"
proof -
  let ?r = "pb_regions b ! i"
  let ?w = "writePlain (address - rg_address ?r) source ?r"
  note w = region_write [OF b i a p]
  have fit: "unat (address - rg_address ?r) + length source \<le> unat (rg_size ?r)"
    using a by (simp add: in_region_def rg_end_def unat_sub word_le_nat_alt)
  have shape: "same_shape ?r ?w" by (rule writePlain_bytes(2) [OF bus_okD(2) [OF b i(1)] i(2) fit])
  have at: "pb_regions (setRegion i ?w b) ! i = ?w" "i < length (pb_regions (setRegion i ?w b))" using i(1) by simp_all
  have kind: "rg_kind (pb_regions (setRegion i ?w b) ! i) \<noteq> regionMMIO"
    unfolding at(1) using i(2) shape by (simp add: same_shape_def)
  note r = apply_response [OF w(2) at(2) kind, of offset w v, unfolded at(1)]
  have all: "bus_ok b' \<and> same_shape ?r (pb_regions b' ! i) \<and>
      bus_memory b' = respond ?r offset w v (snd (spec_write (bus_memory b) p (unat address) source))"
  proof (cases "rg_writeResponses ?w = Map.empty")
    case True
    then have "rg_writeResponses ?r = Map.empty" using shape by (simp add: same_shape_def)
    then show ?thesis using True w shape i(1) by (simp add: b' responded_def respond_empty)
  next
    case False
    then show ?thesis using r w(1) i(1) same_shape_trans [OF shape r(2)] by (simp add: b' responded_def respond_shape [OF shape])
  qed
  then show "bus_ok b'" "same_shape ?r (pb_regions b' ! i)"
    "bus_memory b' = respond ?r offset w v (snd (spec_write (bus_memory b) p (unat address) source))" by blast+
qed

subsection \<open>Accesses\<close>

text \<open>What an access resolves to, without the remembered region.\<close>

definition target :: "u32 \<Rightarrow> nat \<Rightarrow> Permissions \<Rightarrow> ('d, 'e) Bus \<Rightarrow> 'e Fault + Width \<times> nat \<times> u32" where
  "target address n p b =
     (if \<not> (n = 1 \<or> n = 2 \<or> n = 4) then Inl (faultAt [] address 0 p ErrInvalidWidth)
      else if unat address mod n \<noteq> 0 then Inl (faultAt [] address (of_nat n) p ErrUnalignedAccess)
      else case region_index (pb_regions b) (unat address) of
        None \<Rightarrow> Inl (faultAt [] address (of_nat n) p (ErrCpu ErrInvalidAddress))
      | Some i \<Rightarrow>
          let r = pb_regions b ! i in
          if rg_end r < unat address + n then Inl (faultAt (rg_name r) address (of_nat n) p ErrRegionBoundary)
          else if rg_permissions r AND p \<noteq> p
          then Inl (faultAt (rg_name r) address (of_nat n) p (ErrCpu ErrPermissionDenied))
          else Inr (of_nat n, i, address - rg_address r))"

lemma widthForSize_cases:
  "widthForSize n = (if n = 1 \<or> n = 2 \<or> n = 4 then Some (of_nat n) else None)"
  by (simp add: widthForSize_def width_defs)

lemma aligned_iff: "n = 1 \<or> n = 2 \<or> n = 4 \<Longrightarrow> address mod ucast (of_nat n :: u8) \<noteq> 0 \<longleftrightarrow> unat (address :: u32) mod n \<noteq> 0"
proof -
  assume n: "n = 1 \<or> n = 2 \<or> n = 4"
  then have "unat (ucast (of_nat n :: u8) :: u32) = n" by auto
  then have "unat (address mod ucast (of_nat n :: u8)) = unat address mod n" by (simp add: unat_mod)
  then show ?thesis by (metis unat_eq_zero)
qed

lemma resolve_target:
  assumes "bus_ok b"
  shows "\<exists>l. resolve address n p b = (target address n p b, b\<lparr>pb_lastRegion := l\<rparr>) \<and> bus_ok (b\<lparr>pb_lastRegion := l\<rparr>)"
proof -
  obtain l where l: "regionFor address b = (region_index (pb_regions b) (unat address), b\<lparr>pb_lastRegion := l\<rparr>)"
      "l = pb_lastRegion b \<or> l = region_index (pb_regions b) (unat address)"
    using regionFor_index [OF assms] by blast
  note ok = bus_ok_last [OF assms l(2)]
  have same: "b\<lparr>pb_lastRegion := pb_lastRegion b\<rparr> = b" by simp
  show ?thesis
  proof (cases "(n = 1 \<or> n = 2 \<or> n = 4) \<and> unat address mod n = 0")
    case True
    then have w: "widthForSize n = Some (of_nat n)" "\<not> address mod ucast (of_nat n :: u8) \<noteq> 0"
      using aligned_iff [of n address] by (auto simp: widthForSize_cases)
    have "resolve address n p b = (target address n p b, b\<lparr>pb_lastRegion := l\<rparr>)"
      using True by (cases "region_index (pb_regions b) (unat address)")
        (simp_all add: resolve_def target_def w l Let_def)
    then show ?thesis using ok by blast
  next
    case False
    then have "resolve address n p b = (target address n p b, b)"
      using aligned_iff [of n address] by (auto simp: resolve_def target_def widthForSize_cases)
    then show ?thesis using assms same by metis
  qed
qed

lemma target_Inr:
  fixes b :: "('d, 'e) Bus"
  assumes "bus_ok b" "target address n p b = Inr (w, i, offset)"
  shows "n = 1 \<or> n = 2 \<or> n = 4" "w = of_nat n" "i < length (pb_regions b)" "in_region (unat address) (pb_regions b ! i)"
    "unat address + n \<le> rg_end (pb_regions b ! i)" "rg_permissions (pb_regions b ! i) AND p = p"
    "offset = address - rg_address (pb_regions b ! i)" "unat address mod n = 0"
proof -
  show n: "n = 1 \<or> n = 2 \<or> n = 4" using assms(2) unfolding target_def by (metis sum.distinct(1))
  show al: "unat address mod n = 0" using assms(2) n unfolding target_def by (metis sum.distinct(1))
  have "region_index (pb_regions b) (unat address) \<noteq> None"
  proof
    assume "region_index (pb_regions b) (unat address) = None"
    then have "target address n p b = Inl (faultAt [] address (of_nat n) p (ErrCpu ErrInvalidAddress))"
      using n al by (simp only: target_def if_False if_True simp_thms option.case)
    then show False using assms(2) by simp
  qed
  then obtain j where j: "region_index (pb_regions b) (unat address) = Some j" by blast
  have t: "(let r = pb_regions b ! j in
      if rg_end r < unat address + n then Inl (faultAt (rg_name r) address (of_nat n) p ErrRegionBoundary)
      else if rg_permissions r AND p \<noteq> p then Inl (faultAt (rg_name r) address (of_nat n) p (ErrCpu ErrPermissionDenied))
      else Inr (of_nat n, j, address - rg_address r)) = (Inr (w, i, offset) :: 'e Fault + Width \<times> nat \<times> u32)"
    using assms(2) n al by (simp only: target_def j if_False if_True simp_thms option.case)
  then show "w = of_nat n" "unat address + n \<le> rg_end (pb_regions b ! i)" "rg_permissions (pb_regions b ! i) AND p = p"
    "offset = address - rg_address (pb_regions b ! i)"
    by (auto simp: Let_def not_less split: if_splits)
  have "i = j" using t by (simp add: Let_def split: if_splits)
  then show "i < length (pb_regions b)" "in_region (unat address) (pb_regions b ! i)"
    using j region_index_Some [OF bus_okD(1) [OF assms(1)]] by simp_all
qed

lemma ReadContext_spec:
  assumes b: "bus_ok b"
  shows "\<exists>l. bus_ok (b\<lparr>pb_lastRegion := l\<rparr>) \<and> fst (snd (ReadContext c address n p b d)) = b\<lparr>pb_lastRegion := l\<rparr> \<and>
    (case target address n p b of
       Inl f \<Rightarrow> fst (ReadContext c address n p b d) = Inl f \<and> snd (snd (ReadContext c address n p b d)) = d
     | Inr (w, i, offset) \<Rightarrow>
         if rg_kind (pb_regions b ! i) = regionMMIO
         then (case dev_Read (the (rg_device (pb_regions b ! i))) offset w d of (res, d') \<Rightarrow>
            fst (ReadContext c address n p b d) =
              (case res of Inl e \<Rightarrow> Inl (faultAt (rg_name (pb_regions b ! i)) address w p (ErrDevice e)) | Inr v \<Rightarrow> Inr (putValue n v)) \<and>
            (\<not> pb_observed b \<longrightarrow> snd (snd (ReadContext c address n p b d)) = d'))
         else (\<exists>bytes. spec_read (bus_memory b) p (unat address) n = Inr bytes \<and>
            fst (ReadContext c address n p b d) = Inr bytes) \<and>
            (\<not> pb_observed b \<longrightarrow> snd (snd (ReadContext c address n p b d)) = d))"
proof -
  obtain l where l: "resolve address n p b = (target address n p b, b\<lparr>pb_lastRegion := l\<rparr>)" "bus_ok (b\<lparr>pb_lastRegion := l\<rparr>)"
    using resolve_target [OF b] by blast
  have quiet: "callback (map_option g (pb_mmioObserver b)) d = d" "observe m a c address n b' d = d"
    if "\<not> pb_observed b" "b' = b\<lparr>pb_lastRegion := l\<rparr>" for g :: "('b MMIOAccess \<Rightarrow> 'a \<Rightarrow> 'a) \<Rightarrow> 'a \<Rightarrow> 'a" and m a d b'
  proof -
    have "pb_mmioObserver b = None" "pb_memoryObserver b = None" "pb_contextObserver b = None"
      using b that(1) by (auto simp: bus_ok_def)
    then show "callback (map_option g (pb_mmioObserver b)) d = d" "observe m a c address n b' d = d"
      using that(2) by (simp_all add: callback_def observe_def Let_def observesMemory_def observesInstruction_def)
  qed
  show ?thesis
  proof (cases "target address n p b")
    case (Inl f)
    then show ?thesis using l by (intro exI [of _ l]) (simp add: ReadContext_def)
  next
    case (Inr t)
    obtain w i offset where t: "t = (w, i, offset)" by (cases t) auto
    note T = target_Inr [OF b Inr [unfolded t]]
    have n: "0 < n" using T(1) by auto
    show ?thesis
    proof (cases "rg_kind (pb_regions b ! i) = regionMMIO")
      case True
      obtain res d' where dr: "dev_Read (the (rg_device (pb_regions b ! i))) offset w d = (res, d')" by fastforce
      show ?thesis
        by (rule exI [of _ l], cases res)
          (simp_all add: ReadContext_def l Inr t True dr Let_def deviceFault_def quiet)
    next
      case False
      then show ?thesis
        using region_read [OF b T(3) False T(4,5,6)]
        by (intro exI [of _ l]) (simp add: ReadContext_def l Inr t Let_def quiet T(7))
    qed
  qed
qed

lemma WriteContext_spec:
  assumes b: "bus_ok b"
  shows "bus_ok (fst (snd (WriteContext c address source p b d))) \<and>
    list_all2 same_shape (pb_regions b) (pb_regions (fst (snd (WriteContext c address source p b d)))) \<and>
    (case target address (length source) p b of
       Inl f \<Rightarrow> fst (WriteContext c address source p b d) = Inl f \<and>
         bus_memory (fst (snd (WriteContext c address source p b d))) = bus_memory b \<and>
         snd (snd (WriteContext c address source p b d)) = d
     | Inr (w, i, offset) \<Rightarrow>
         if rg_kind (pb_regions b ! i) = regionMMIO
         then bus_memory (fst (snd (WriteContext c address source p b d))) = bus_memory b \<and>
           (case dev_Write (the (rg_device (pb_regions b ! i))) offset w (valueOf_bytes source) d of (res, d') \<Rightarrow>
              fst (WriteContext c address source p b d) =
                (case res of Inl e \<Rightarrow> Inl (faultAt (rg_name (pb_regions b ! i)) address w p (ErrDevice e)) | Inr _ \<Rightarrow> Inr ()) \<and>
              (\<not> pb_observed b \<longrightarrow> snd (snd (WriteContext c address source p b d)) = d'))
         else fst (WriteContext c address source p b d) = Inr () \<and>
           bus_memory (fst (snd (WriteContext c address source p b d))) =
             respond (pb_regions b ! i) offset w (valueOf_bytes source) (snd (spec_write (bus_memory b) p (unat address) source)) \<and>
           (\<not> pb_observed b \<longrightarrow> snd (snd (WriteContext c address source p b d)) = d))"
proof -
  obtain l where l: "resolve address (length source) p b = (target address (length source) p b, b\<lparr>pb_lastRegion := l\<rparr>)"
      "bus_ok (b\<lparr>pb_lastRegion := l\<rparr>)"
    using resolve_target [OF b] by blast
  have refl: "list_all2 same_shape (pb_regions b) (pb_regions b)" by (simp add: list_all2_refl)
  have quiet: "callback (map_option g (pb_mmioObserver b)) d = d" "observe m a c address n b' d = d"
    if "\<not> pb_observed b" "pb_memoryObserver b' = pb_memoryObserver b" "pb_contextObserver b' = pb_contextObserver b"
    for g :: "('b MMIOAccess \<Rightarrow> 'a \<Rightarrow> 'a) \<Rightarrow> 'a \<Rightarrow> 'a" and m a n d b'
  proof -
    have "pb_mmioObserver b = None" "pb_memoryObserver b = None" "pb_contextObserver b = None"
      using b that(1) by (auto simp: bus_ok_def)
    then show "callback (map_option g (pb_mmioObserver b)) d = d" "observe m a c address n b' d = d"
      using that(2,3) by (simp_all add: callback_def observe_def Let_def observesMemory_def observesInstruction_def)
  qed
  show ?thesis
  proof (cases "target address (length source) p b")
    case (Inl f)
    then show ?thesis using l refl by (simp add: WriteContext_def)
  next
    case (Inr t)
    obtain w i offset where t: "t = (w, i, offset)" by (cases t) auto
    note T = target_Inr [OF b Inr [unfolded t]]
    show ?thesis
    proof (cases "rg_kind (pb_regions b ! i) = regionMMIO")
      case True
      obtain res d' where dw: "dev_Write (the (rg_device (pb_regions b ! i))) offset w (valueOf_bytes source) d = (res, d')" by fastforce
      show ?thesis
        by (cases res) (simp_all add: WriteContext_def l Inr t True dw Let_def deviceFault_def quiet refl)
    next
      case False
      define b1 where "b1 = b\<lparr>pb_lastRegion := l\<rparr>"
      define b2 where "b2 = setRegion i (responded offset w (valueOf_bytes source) (writePlain offset source (pb_regions b ! i))) b1"
      have r1: "pb_regions b1 = pb_regions b" by (simp add: b1_def)
      have ok1: "bus_ok b1" using l(2) by (simp add: b1_def)
      have b2': "b2 = setRegion i (responded offset w (valueOf_bytes source)
          (writePlain (address - rg_address (pb_regions b1 ! i)) source (pb_regions b1 ! i))) b1"
        by (simp add: b2_def r1 T(7))
      note W = write_and_respond [OF ok1 _ _ _ _ _ b2', of p, unfolded r1, OF T(3) False T(4,5,6)]
      have mem: "bus_memory b1 = bus_memory b" by (simp add: b1_def)
      have shape: "list_all2 same_shape (pb_regions b) (pb_regions b2)"
        using W(2) T(3) by (simp add: list_all2_conv_all_nth b2_def r1 nth_list_update)
      have eq: "fst (WriteContext c address source p b d) = Inr ()" "fst (snd (WriteContext c address source p b d)) = b2"
        by (simp_all add: WriteContext_def l Inr t False Let_def b2_def b1_def responded_def)
      have q: "\<not> pb_observed b \<longrightarrow> snd (snd (WriteContext c address source p b d)) = d"
        by (simp add: WriteContext_def l Inr t False Let_def quiet setRegion_def)
      show ?thesis using W(1,3) shape eq q False by (simp add: Inr t mem)
    qed
  qed
qed

subsection \<open>Blocks and host copies\<close>

lemma resolveBlock_spec:
  assumes b: "bus_ok b"
  shows "\<exists>l. snd (resolveBlock address n p b) = b\<lparr>pb_lastRegion := l\<rparr> \<and> bus_ok (b\<lparr>pb_lastRegion := l\<rparr>)"
    and "fst (resolveBlock address n p b) = Some (i, offset) \<Longrightarrow>
      n \<noteq> 0 \<and> \<not> pb_observed b \<and> i < length (pb_regions b) \<and> in_region (unat address) (pb_regions b ! i) \<and>
      rg_kind (pb_regions b ! i) \<noteq> regionMMIO \<and> unat address + n \<le> rg_end (pb_regions b ! i) \<and>
      rg_permissions (pb_regions b ! i) AND p = p \<and> offset = address - rg_address (pb_regions b ! i)"
proof -
  obtain l where l: "regionFor address b = (region_index (pb_regions b) (unat address), b\<lparr>pb_lastRegion := l\<rparr>)"
      "l = pb_lastRegion b \<or> l = region_index (pb_regions b) (unat address)"
    using regionFor_index [OF b] by blast
  note ok = bus_ok_last [OF b l(2)]
  have same: "b\<lparr>pb_lastRegion := pb_lastRegion b\<rparr> = b" by simp
  have r: "resolveBlock address n p b =
      (if n = 0 \<or> pb_observed b then (None, b)
       else (case region_index (pb_regions b) (unat address) of
          None \<Rightarrow> None
        | Some i \<Rightarrow>
            let r = pb_regions b ! i in
            if rg_kind r = regionMMIO \<or> rg_end r < unat address + n \<or> rg_permissions r AND p \<noteq> p then None
            else Some (i, address - rg_address r), b\<lparr>pb_lastRegion := l\<rparr>))"
    by (cases "region_index (pb_regions b) (unat address)") (simp_all add: resolveBlock_def l Let_def)
  show "\<exists>l. snd (resolveBlock address n p b) = b\<lparr>pb_lastRegion := l\<rparr> \<and> bus_ok (b\<lparr>pb_lastRegion := l\<rparr>)"
  proof (cases "n = 0 \<or> pb_observed b")
    case True
    then show ?thesis using r same b by (intro exI [of _ "pb_lastRegion b"]) simp
  next
    case False
    then show ?thesis using r ok by (intro exI [of _ l]) simp
  qed
  assume some: "fst (resolveBlock address n p b) = Some (i, offset)"
  show "n \<noteq> 0 \<and> \<not> pb_observed b \<and> i < length (pb_regions b) \<and> in_region (unat address) (pb_regions b ! i) \<and>
      rg_kind (pb_regions b ! i) \<noteq> regionMMIO \<and> unat address + n \<le> rg_end (pb_regions b ! i) \<and>
      rg_permissions (pb_regions b ! i) AND p = p \<and> offset = address - rg_address (pb_regions b ! i)"
  proof (cases "n = 0 \<or> pb_observed b")
    case True
    then show ?thesis using some r by simp
  next
    case False
    then obtain j where j: "region_index (pb_regions b) (unat address) = Some j"
      using some r by (cases "region_index (pb_regions b) (unat address)") simp_all
    then show ?thesis
      using some r False region_index_Some [OF bus_okD(1) [OF b], of "unat address" j]
      by (auto simp: Let_def not_less split: if_splits)
  qed
qed

lemma ReadBlock_spec:
  assumes b: "bus_ok b"
  shows "\<exists>l. snd (ReadBlock address n p b) = b\<lparr>pb_lastRegion := l\<rparr> \<and> bus_ok (b\<lparr>pb_lastRegion := l\<rparr>)"
    and "fst (ReadBlock address n p b) = Some bytes \<Longrightarrow> spec_read (bus_memory b) p (unat address) n = Inr bytes"
proof -
  obtain l where l: "snd (resolveBlock address n p b) = b\<lparr>pb_lastRegion := l\<rparr>" "bus_ok (b\<lparr>pb_lastRegion := l\<rparr>)"
    using resolveBlock_spec(1) [OF b] by blast
  show "\<exists>l. snd (ReadBlock address n p b) = b\<lparr>pb_lastRegion := l\<rparr> \<and> bus_ok (b\<lparr>pb_lastRegion := l\<rparr>)"
    using l by (intro exI [of _ l]) (auto simp: ReadBlock_def split: prod.split option.split)
  assume some: "fst (ReadBlock address n p b) = Some bytes"
  then obtain i offset where io: "fst (resolveBlock address n p b) = Some (i, offset)"
      "bytes = readPlain offset n (pb_regions b ! i)"
    using l(1) by (auto simp: ReadBlock_def split: prod.splits option.splits)
  from resolveBlock_spec(2) [OF b io(1)] io(2) show "spec_read (bus_memory b) p (unat address) n = Inr bytes"
    using region_read [OF b, of i address n p] by auto
qed

lemma WriteBlock_spec:
  assumes b: "bus_ok b"
  shows "bus_ok (snd (WriteBlock address source p b))"
    and "list_all2 same_shape (pb_regions b) (pb_regions (snd (WriteBlock address source p b)))"
    and "\<not> fst (WriteBlock address source p b) \<Longrightarrow> \<exists>l. snd (WriteBlock address source p b) = b\<lparr>pb_lastRegion := l\<rparr>"
    and "fst (WriteBlock address source p b) \<Longrightarrow>
      \<exists>i < length (pb_regions b). in_region (unat address) (pb_regions b ! i) \<and> unat address + length source \<le> rg_end (pb_regions b ! i) \<and>
        bus_memory (snd (WriteBlock address source p b)) =
        (case widthForSize (length source) of
           None \<Rightarrow> snd (spec_write (bus_memory b) p (unat address) source)
         | Some w \<Rightarrow> respond (pb_regions b ! i) (address - rg_address (pb_regions b ! i)) w (valueOf_bytes source)
             (snd (spec_write (bus_memory b) p (unat address) source)))"
proof -
  let ?out = "snd (WriteBlock address source p b)"
  obtain l where l: "snd (resolveBlock address (length source) p b) = b\<lparr>pb_lastRegion := l\<rparr>" "bus_ok (b\<lparr>pb_lastRegion := l\<rparr>)"
    using resolveBlock_spec(1) [OF b] by blast
  define b1 where "b1 = b\<lparr>pb_lastRegion := l\<rparr>"
  have b1: "pb_regions b1 = pb_regions b" "bus_memory b1 = bus_memory b" "bus_ok b1" using l(2) by (simp_all add: b1_def)
  have refl: "list_all2 same_shape (pb_regions b) (pb_regions b)" by (simp add: list_all2_refl)
  have all: "bus_ok ?out \<and> list_all2 same_shape (pb_regions b) (pb_regions ?out) \<and>
      (if fst (WriteBlock address source p b)
       then \<exists>i < length (pb_regions b). in_region (unat address) (pb_regions b ! i) \<and> unat address + length source \<le> rg_end (pb_regions b ! i) \<and>
          bus_memory ?out =
          (case widthForSize (length source) of
             None \<Rightarrow> snd (spec_write (bus_memory b) p (unat address) source)
           | Some w \<Rightarrow> respond (pb_regions b ! i) (address - rg_address (pb_regions b ! i)) w (valueOf_bytes source)
               (snd (spec_write (bus_memory b) p (unat address) source)))
       else ?out = b1)"
  proof (cases "fst (resolveBlock address (length source) p b)")
    case None
    then have "WriteBlock address source p b = (False, b1)"
      using l(1) by (simp add: WriteBlock_def b1_def prod_eq_iff split: prod.split)
    then show ?thesis using b1 refl by simp
  next
    case (Some io)
    obtain i offset where io: "io = (i, offset)" by (cases io)
    from resolveBlock_spec(2) [OF b Some [unfolded io]]
    have i: "i < length (pb_regions b1)" "rg_kind (pb_regions b1 ! i) \<noteq> regionMMIO"
        and a: "in_region (unat address) (pb_regions b1 ! i)" "unat address + length source \<le> rg_end (pb_regions b1 ! i)"
        and p: "rg_permissions (pb_regions b1 ! i) AND p = p" and off: "offset = address - rg_address (pb_regions b1 ! i)"
      unfolding b1(1) by blast+
    let ?w = "writePlain offset source (pb_regions b1 ! i)"
    have rb: "resolveBlock address (length source) p b = (Some (i, offset), b1)"
      using Some io l(1) by (simp add: b1_def prod_eq_iff)
    have out: "WriteBlock address source p b =
        (True, setRegion i (case widthForSize (length source) of None \<Rightarrow> ?w | Some w \<Rightarrow> responded offset w (valueOf_bytes source) ?w) b1)"
      by (simp add: WriteBlock_def rb b1(1) Let_def responded_def split: option.split)
    show ?thesis
    proof (cases "widthForSize (length source)")
      case None
      note w = region_write [OF b1(3) i a p, folded off]
      have fit: "unat offset + length source \<le> unat (rg_size (pb_regions b1 ! i))"
        using a by (simp add: off in_region_def rg_end_def unat_sub word_le_nat_alt)
      have "same_shape (pb_regions b ! i) ?w"
        using writePlain_bytes(2) [OF bus_okD(2) [OF b1(3) i(1)] i(2) fit] by (simp add: b1(1))
      then have "list_all2 same_shape (pb_regions b) (pb_regions (setRegion i ?w b1))"
        using i(1) by (auto simp: list_all2_conv_all_nth b1(1) nth_list_update)
      then show ?thesis using w i a None b1(1,2) by (auto simp: out)
    next
      case w: (Some w)
      note W = write_and_respond [OF b1(3) i a p HOL.refl, of offset w "valueOf_bytes source", folded off]
      have "list_all2 same_shape (pb_regions b) (pb_regions (setRegion i (responded offset w (valueOf_bytes source) ?w) b1))"
        using W(2) i(1) by (simp add: list_all2_conv_all_nth b1(1) nth_list_update)
      then show ?thesis using W(1,3) i a w b1(1,2) off by (auto simp: out)
    qed
  qed
  then show "bus_ok ?out" "list_all2 same_shape (pb_regions b) (pb_regions ?out)" by blast+
  show "\<not> fst (WriteBlock address source p b) \<Longrightarrow> \<exists>l. ?out = b\<lparr>pb_lastRegion := l\<rparr>"
    using all by (auto simp: b1_def)
  assume "fst (WriteBlock address source p b)"
  then show "\<exists>i < length (pb_regions b). in_region (unat address) (pb_regions b ! i) \<and> unat address + length source \<le> rg_end (pb_regions b ! i) \<and>
        bus_memory ?out =
        (case widthForSize (length source) of
           None \<Rightarrow> snd (spec_write (bus_memory b) p (unat address) source)
         | Some w \<Rightarrow> respond (pb_regions b ! i) (address - rg_address (pb_regions b ! i)) w (valueOf_bytes source)
             (snd (spec_write (bus_memory b) p (unat address) source)))"
    using all by (simp only: if_True)
qed

text \<open>The part of the memory that a host may write.\<close>

definition ram_memory :: "('d, 'e) Bus \<Rightarrow> memory" where
  "ram_memory b x =
     (case region_index (pb_regions b) x of
        None \<Rightarrow> None
      | Some i \<Rightarrow> if rg_kind (pb_regions b ! i) = regionROM then None else bus_memory b x)"

lemma host_chunk:
  fixes current :: u32
  assumes b: "bus_ok b" and i: "searchRegion current b = Some i" and n: "0 < n" "unat current + n \<le> 2 ^ 32"
  shows "i < length (pb_regions b)" "in_region (unat current) (pb_regions b ! i)"
    "0 < hostChunk current n (pb_regions b ! i)" "hostChunk current n (pb_regions b ! i) \<le> n"
    "unat current + hostChunk current n (pb_regions b ! i) \<le> rg_end (pb_regions b ! i)"
    "hostChunk current n (pb_regions b ! i) < n \<Longrightarrow>
       unat (current + of_nat (hostChunk current n (pb_regions b ! i))) = unat current + hostChunk current n (pb_regions b ! i)"
proof -
  show "i < length (pb_regions b)" "in_region (unat current) (pb_regions b ! i)"
    using searchRegion_SomeD [OF i] by (simp_all add: in_region_def word_le_nat_alt)
  then show "0 < hostChunk current n (pb_regions b ! i)" "hostChunk current n (pb_regions b ! i) \<le> n"
    "unat current + hostChunk current n (pb_regions b ! i) \<le> rg_end (pb_regions b ! i)"
    using n(1) by (auto simp: hostChunk_def in_region_def)
  show "hostChunk current n (pb_regions b ! i) < n \<Longrightarrow>
       unat (current + of_nat (hostChunk current n (pb_regions b ! i))) = unat current + hostChunk current n (pb_regions b ! i)"
    by (rule offset_step [OF n(2)])
qed

lemma spec_byte_bus:
  assumes b: "bus_ok b"
  shows "spec_byte (bus_memory b) p (unat a) =
    (case searchRegion a b of
       None \<Rightarrow> Inl ErrInvalidAddress
     | Some i \<Rightarrow>
         if rg_kind (pb_regions b ! i) = regionMMIO then Inl ErrInvalidAddress
         else if rg_permissions (pb_regions b ! i) AND p \<noteq> p then Inl ErrPermissionDenied
         else Inr (byteOf (pb_regions b ! i) (unat a - unat (rg_address (pb_regions b ! i)))))"
    and "spec_byte (ram_memory b) p (unat a) =
    (case searchRegion a b of
       None \<Rightarrow> Inl ErrInvalidAddress
     | Some i \<Rightarrow>
         if rg_kind (pb_regions b ! i) = regionMMIO \<or> rg_kind (pb_regions b ! i) = regionROM then Inl ErrInvalidAddress
         else if rg_permissions (pb_regions b ! i) AND p \<noteq> p then Inl ErrPermissionDenied
         else Inr (byteOf (pb_regions b ! i) (unat a - unat (rg_address (pb_regions b ! i)))))"
  unfolding searchRegion_index [OF b]
  by (simp_all add: spec_byte_def bus_memory_def ram_memory_def Let_def split: option.split)

lemma spec_read_length: "spec_read m p a n = Inr bytes \<Longrightarrow> length bytes = n"
  by (induction n arbitrary: a bytes) (auto split: sum.splits)

lemma spec_write_None: "snd (spec_write m p a vs) x = None \<longleftrightarrow> m x = None"
  by (induction vs arbitrary: m a) (auto simp: spec_store_def split: sum.splits)

lemma readMemoryLoop_spec:
  assumes "bus_ok b" "unat current + n \<le> 2 ^ 32"
  shows "case readMemoryLoop current n p b copied of
      (None, out) \<Rightarrow> \<exists>bytes. out = copied @ bytes \<and> spec_read (bus_memory b) p (unat current) n = Inr bytes
    | (Some f, out) \<Rightarrow> \<exists>e bytes. flt_Err f = ErrCpu e \<and> spec_read (bus_memory b) p (unat current) n = Inl e \<and>
        out = copied @ bytes \<and> spec_read (bus_memory b) p (unat current) (length bytes) = Inr bytes \<and>
        length bytes < n \<and> spec_byte (bus_memory b) p (unat current + length bytes) = Inl e \<and>
        flt_Address f = current + of_nat (length bytes)"
  using assms(2)
proof (induction n arbitrary: current copied rule: less_induct)
  case (less n)
  show ?case
  proof (cases "n = 0")
    case True
    then show ?thesis by (simp add: readMemoryLoop.simps)
  next
    case False
    then have n: "0 < n" by simp
    note byte = spec_byte_bus(1) [OF assms(1), of p current]
    show ?thesis
    proof (cases "\<exists>e. spec_byte (bus_memory b) p (unat current) = Inl e")
      case True
      then obtain e where e: "spec_byte (bus_memory b) p (unat current) = Inl e" by blast
      have "\<exists>f. readMemoryLoop current n p b copied = (Some f, copied) \<and> flt_Err f = ErrCpu e \<and> flt_Address f = current"
        using e False unfolding byte
        by (subst readMemoryLoop.simps) (auto simp: faultAt_def Let_def split: option.splits if_splits)
      then show ?thesis using spec_read_bad_first [OF n e] e n by auto
    next
      case ok: False
      then obtain i where i: "searchRegion current b = Some i" "rg_kind (pb_regions b ! i) \<noteq> regionMMIO"
          "rg_permissions (pb_regions b ! i) AND p = p"
        unfolding byte by (auto split: option.splits if_splits)
      let ?r = "pb_regions b ! i"
      define chunk where "chunk = hostChunk current n ?r"
      note h = host_chunk [OF assms(1) i(1) n less.prems, folded chunk_def]
      define first where "first = readPlain (current - rg_address ?r) chunk ?r"
      have head: "spec_read (bus_memory b) p (unat current) chunk = Inr first"
        unfolding first_def by (rule region_read [OF assms(1) h(1) i(2) h(2) h(5) i(3)])
      have loop: "readMemoryLoop current n p b copied =
          readMemoryLoop (current + of_nat chunk) (n - chunk) p b (copied @ first)"
        using i False by (subst readMemoryLoop.simps) (simp add: Let_def chunk_def first_def)
      have split: "spec_read (bus_memory b) p (unat current) (chunk + k) =
          (case spec_read (bus_memory b) p (unat current + chunk) k of Inl e \<Rightarrow> Inl e | Inr ys \<Rightarrow> Inr (first @ ys))" for k
        using head by (simp add: spec_read_append)
      show ?thesis
      proof (cases "chunk = n")
        case True
        then show ?thesis unfolding loop using head by (simp add: readMemoryLoop.simps [of _ 0])
      next
        case False
        then have at: "unat (current + of_nat chunk) = unat current + chunk" using h(4,6) by simp
        have bound: "unat (current + of_nat chunk) + (n - chunk) \<le> 2 ^ 32" using at h(4) less.prems by simp
        have k: "n = chunk + (n - chunk)" using h(4) by simp
        have "n - chunk < n" using h(3,4) by simp
        note IH = less.IH [OF this bound, of "copied @ first", unfolded at]
        have n_split: "spec_read (bus_memory b) p (unat current) n =
            (case spec_read (bus_memory b) p (unat current + chunk) (n - chunk) of Inl e \<Rightarrow> Inl e | Inr ys \<Rightarrow> Inr (first @ ys))"
          by (subst k) (rule split)
        have len: "length first = chunk" by (rule spec_read_length [OF head])
        obtain res out where rest: "readMemoryLoop (current + of_nat chunk) (n - chunk) p b (copied @ first) = (res, out)"
          by fastforce
        show ?thesis
        proof (cases res)
          case None
          then show ?thesis using IH unfolding loop by (auto simp: rest n_split)
        next
          case (Some f)
          then obtain e bytes where e: "flt_Err f = ErrCpu e" "spec_read (bus_memory b) p (unat current + chunk) (n - chunk) = Inl e"
            "out = (copied @ first) @ bytes" "spec_read (bus_memory b) p (unat current + chunk) (length bytes) = Inr bytes"
            "length bytes < n - chunk" "spec_byte (bus_memory b) p (unat current + chunk + length bytes) = Inl e"
            "flt_Address f = current + of_nat chunk + of_nat (length bytes)"
            using IH unfolding rest by auto
          then show ?thesis unfolding loop rest Some
            by (auto simp: n_split split len add.assoc intro!: exI [of _ "first @ bytes"])
        qed
      qed
    qed
  qed
qed

lemma same_shapes_index:
  assumes "list_all2 same_shape rs rs'"
  shows "region_index rs' x = region_index rs x"
    "i < length rs \<Longrightarrow> same_shape (rs ! i) (rs' ! i)" "length rs' = length rs"
proof -
  show len: "length rs' = length rs" using assms by (simp add: list_all2_lengthD)
  show shape: "same_shape (rs ! i) (rs' ! i)" if "i < length rs" for i using assms that by (simp add: list_all2_nthD)
  have "find (\<lambda>i. in_region x (rs' ! i)) [0..<length rs] = find (\<lambda>i. in_region x (rs ! i)) [0..<length rs]"
    by (rule find_cong) (use shape in \<open>auto simp: in_region_def same_shape_def rg_end_def\<close>)
  then show "region_index rs' x = region_index rs x" by (simp add: region_index_def len)
qed

lemma list_all2_same_shape_trans:
  "list_all2 same_shape a b \<Longrightarrow> list_all2 same_shape b c \<Longrightarrow> list_all2 same_shape a c"
  using list_all2_trans [of same_shape same_shape same_shape] same_shape_trans by blast

lemma region_write_ram:
  assumes b: "bus_ok b" and i: "i < length (pb_regions b)" "rg_kind (pb_regions b ! i) \<noteq> regionMMIO" "rg_kind (pb_regions b ! i) \<noteq> regionROM"
    and a: "in_region (unat address) (pb_regions b ! i)" "unat address + length source \<le> rg_end (pb_regions b ! i)"
    and p: "rg_permissions (pb_regions b ! i) AND p = p"
    and b': "b' = setRegion i (writePlain (address - rg_address (pb_regions b ! i)) source (pb_regions b ! i)) b"
  shows "bus_ok b'" "list_all2 same_shape (pb_regions b) (pb_regions b')"
    "spec_write (ram_memory b) p (unat address) source = (Inr (), ram_memory b')"
    "ram_memory b x = None \<Longrightarrow> bus_memory b' x = bus_memory b x"
proof -
  let ?upd = "\<lambda>m x. if unat address \<le> x \<and> x < unat address + length source
      then map_option (\<lambda>(q, _). (q, source ! (x - unat address))) (m x) else (m x :: (Permissions \<times> u8) option)"
  note w = region_write [OF b i(1,2) a p, folded b']
  have hit: "in_region (unat address + k) (pb_regions b ! i)" if "k < length source" for k
    using a that by (simp add: in_region_def)
  have bytes: "bus_memory b (unat address + k) = Some (rg_permissions (pb_regions b ! i),
      byteOf (pb_regions b ! i) (unat address + k - unat (rg_address (pb_regions b ! i))))" if "k < length source" for k
    by (rule bus_memory_in_region [OF b i(1,2) hit [OF that]])
  have ram: "ram_memory b (unat address + k) = bus_memory b (unat address + k)" if "k < length source" for k
    using hit [OF that] i(1,3) region_index_Some [OF bus_okD(1) [OF b], of "unat address + k" i] by (simp add: ram_memory_def)
  have "spec_write (bus_memory b) p (unat address) source = (Inr (), ?upd (bus_memory b))"
    by (rule spec_write_ok) (use bytes p in auto)
  with w(1) have bus: "bus_memory b' = ?upd (bus_memory b)" by simp
  have R: "spec_write (ram_memory b) p (unat address) source = (Inr (), ?upd (ram_memory b))"
    by (rule spec_write_ok) (use ram bytes p in auto)
  show "bus_ok b'" by (rule w(2))
  have fit: "unat (address - rg_address (pb_regions b ! i)) + length source \<le> unat (rg_size (pb_regions b ! i))"
    using a by (simp add: in_region_def rg_end_def unat_sub word_le_nat_alt)
  show shapes: "list_all2 same_shape (pb_regions b) (pb_regions b')"
    using writePlain_bytes(2) [OF bus_okD(2) [OF b i(1)] i(2) fit] i(1)
    by (auto simp: b' list_all2_conv_all_nth nth_list_update)
  have "?upd (ram_memory b) = ram_memory b'"
  proof
    fix x
    show "?upd (ram_memory b) x = ram_memory b' x"
    proof (cases "region_index (pb_regions b) x")
      case None
      then show ?thesis by (simp add: ram_memory_def same_shapes_index(1) [OF shapes])
    next
      case (Some j)
      then have "j < length (pb_regions b)" by (simp add: region_index_Some [OF bus_okD(1) [OF b]])
      then have "rg_kind (pb_regions b' ! j) = rg_kind (pb_regions b ! j)"
        using same_shapes_index(2) [OF shapes] by (simp add: same_shape_def)
      then show ?thesis using Some by (simp add: ram_memory_def same_shapes_index(1) [OF shapes] bus)
    qed
  qed
  then show "spec_write (ram_memory b) p (unat address) source = (Inr (), ram_memory b')" using R by simp
  assume none: "ram_memory b x = None"
  have "\<not> (unat address \<le> x \<and> x < unat address + length source)"
  proof
    assume "unat address \<le> x \<and> x < unat address + length source"
    then obtain k where "x = unat address + k" "k < length source" using le_Suc_ex by auto
    then show False using ram bytes none by simp
  qed
  then show "bus_memory b' x = bus_memory b x" by (simp only: bus if_False)
qed

lemma writeMemoryLoop_spec:
  assumes "bus_ok b" "unat current + length source \<le> 2 ^ 32"
  shows "bus_ok (snd (writeMemoryLoop current source p b)) \<and>
    list_all2 same_shape (pb_regions b) (pb_regions (snd (writeMemoryLoop current source p b))) \<and>
    snd (spec_write (ram_memory b) p (unat current) source) = ram_memory (snd (writeMemoryLoop current source p b)) \<and>
    (case fst (writeMemoryLoop current source p b) of
       None \<Rightarrow> fst (spec_write (ram_memory b) p (unat current) source) = Inr ()
     | Some f \<Rightarrow> \<exists>e. fst (spec_write (ram_memory b) p (unat current) source) = Inl e \<and> flt_Err f = ErrCpu e) \<and>
    (\<forall>x. ram_memory b x = None \<longrightarrow> bus_memory (snd (writeMemoryLoop current source p b)) x = bus_memory b x)"
  using assms
proof (induction "length source" arbitrary: current source b rule: less_induct)
  case less
  have refl: "list_all2 same_shape (pb_regions b) (pb_regions b)" by (simp add: list_all2_refl)
  show ?case
  proof (cases "source = []")
    case True
    then show ?thesis using less.prems(1) refl by (simp add: writeMemoryLoop.simps)
  next
    case False
    then have n: "0 < length source" by simp
    note byte = spec_byte_bus(2) [OF less.prems(1), of p current]
    show ?thesis
    proof (cases "\<exists>e. spec_byte (ram_memory b) p (unat current) = Inl e")
      case True
      then obtain e where e: "spec_byte (ram_memory b) p (unat current) = Inl e" by blast
      have "\<exists>f. writeMemoryLoop current source p b = (Some f, b) \<and> flt_Err f = ErrCpu e"
        using e False unfolding byte
        by (subst writeMemoryLoop.simps) (auto simp: faultAt_def Let_def split: option.splits if_splits)
      moreover have "spec_write (ram_memory b) p (unat current) source = (Inl e, ram_memory b)"
        using False e by (cases source) simp_all
      ultimately show ?thesis using less.prems(1) refl by auto
    next
      case ok: False
      then obtain i where i: "searchRegion current b = Some i" "rg_kind (pb_regions b ! i) \<noteq> regionMMIO"
          "rg_kind (pb_regions b ! i) \<noteq> regionROM" "rg_permissions (pb_regions b ! i) AND p = p"
        unfolding byte by (auto split: option.splits if_splits)
      let ?r = "pb_regions b ! i"
      define chunk where "chunk = hostChunk current (length source) ?r"
      note h = host_chunk [OF less.prems(1) i(1) n less.prems(2), folded chunk_def]
      define b1 where "b1 = setRegion i (writePlain (current - rg_address ?r) (take chunk source) ?r) b"
      have fit: "unat current + length (take chunk source) \<le> rg_end ?r" using h(4,5) by simp
      note W = region_write_ram [OF less.prems(1) h(1) i(2,3) h(2) fit i(4) b1_def]
      have loop: "writeMemoryLoop current source p b = writeMemoryLoop (current + of_nat chunk) (drop chunk source) p b1"
        using i False by (subst writeMemoryLoop.simps) (simp add: Let_def chunk_def b1_def)
      have split: "spec_write (ram_memory b) p (unat current) source =
          spec_write (ram_memory b1) p (unat current + chunk) (drop chunk source)"
        using spec_write_append [of "ram_memory b" p "unat current" "take chunk source" "drop chunk source"] W(3) h(4) by simp
      have rom: "ram_memory b x = None \<longleftrightarrow> ram_memory b1 x = None" for x
      proof -
        have "ram_memory b1 = snd (spec_write (ram_memory b) p (unat current) (take chunk source))" using W(3) by simp
        then show ?thesis using spec_write_None [of "ram_memory b" p "unat current" "take chunk source" x] by simp
      qed
      show ?thesis
      proof (cases "chunk = length source")
        case True
        have "writeMemoryLoop current source p b = (None, b1)"
          unfolding loop using True by (simp add: writeMemoryLoop.simps [of _ "[]"])
        then show ?thesis using W True by simp
      next
        case False
        then have at: "unat (current + of_nat chunk) = unat current + chunk" using h(4,6) by simp
        have bound: "unat (current + of_nat chunk) + length (drop chunk source) \<le> 2 ^ 32" using at h(4) less.prems(2) by simp
        have "length (drop chunk source) < length source" using h(3,4) by simp
        from less.hyps [OF this W(1) bound]
        show ?thesis unfolding loop split at using list_all2_same_shape_trans [OF W(2)] W(4) rom by auto
      qed
    qed
  qed
qed

subsection \<open>Mapping keeps the invariant\<close>

lemma checkOverlap_None:
  "checkOverlap r xs = None \<longleftrightarrow> (\<forall>x \<in> set xs. rg_name x \<noteq> rg_name r \<and>
     \<not> (unat (rg_address r) < rg_end x \<and> unat (rg_address x) < rg_end r))"
  by (induction xs) auto

lemma distinct_mapI: "distinct (map f xs) \<Longrightarrow> distinct xs"
  by (simp add: distinct_map)

lemma regions_ok_insert:
  assumes rs: "regions_ok rs" and r: "region_ok r" and free: "checkOverlap r rs = None"
  shows "regions_ok (sort_key rg_address (rs @ [r]))"
proof -
  let ?s = "sort_key rg_address (rs @ [r])"
  note ov = free [unfolded checkOverlap_None]
  have names: "distinct (map rg_name (rs @ [r]))" using rs ov by (auto simp: regions_ok_def)
  have "mset (map rg_name ?s) = mset (map rg_name (rs @ [r]))" by simp
  then have dist: "distinct (map rg_name ?s)" using names by (metis mset_eq_imp_distinct_iff)
  have ok: "\<forall>x \<in> set ?s. region_ok x" using rs r by (auto simp: regions_ok_def)
  have apart: "rg_end x \<le> unat (rg_address y) \<or> rg_end y \<le> unat (rg_address x)"
    if m: "x \<in> set ?s" "y \<in> set ?s" "x \<noteq> y" for x y
  proof -
    have old: "rg_end x \<le> unat (rg_address y) \<or> rg_end y \<le> unat (rg_address x)"
      if xy: "x \<in> set rs" "y \<in> set rs" "x \<noteq> y" for x y
    proof -
      obtain i j where ij: "i < length rs" "j < length rs" "x = rs ! i" "y = rs ! j" "i \<noteq> j"
        using xy by (metis in_set_conv_nth)
      have sorted: "sorted_wrt (\<lambda>r s. rg_end r \<le> unat (rg_address s)) rs" using rs by (simp add: regions_ok_def)
      show ?thesis using sorted_wrt_nth_less [OF sorted, of i j] sorted_wrt_nth_less [OF sorted, of j i] ij by (cases "i < j") auto
    qed
    consider "x \<in> set rs" "y \<in> set rs" | "x = r" "y \<in> set rs" | "x \<in> set rs" "y = r" using m by auto
    then show ?thesis
    proof cases
      case 1
      then show ?thesis using old m(3) by blast
    next
      case 2
      then show ?thesis using ov by (auto simp: not_less)
    next
      case 3
      then show ?thesis using ov by (auto simp: not_less)
    qed
  qed
  have "sorted_wrt (\<lambda>r s. rg_end r \<le> unat (rg_address s)) ?s"
    unfolding sorted_wrt_iff_nth_less
  proof (intro allI impI)
    fix i j assume ij: "i < j" "j < length ?s"
    have le: "rg_address (?s ! i) \<le> rg_address (?s ! j)"
      using sorted_nth_mono [OF sorted_sort_key [of rg_address "rs @ [r]"], of i j] ij by (simp only: length_map nth_map less_imp_le)
    have len: "i < length ?s" using ij by (rule less_trans)
    have "?s ! i \<noteq> ?s ! j"
      using nth_eq_iff_index_eq [OF distinct_mapI [OF dist] len ij(2)] ij(1) by blast
    note ne = this and len
    then have mem: "?s ! i \<in> set ?s" "?s ! j \<in> set ?s" using ij nth_mem by blast+
    have "unat (rg_address (?s ! j)) < rg_end (?s ! j)" using ok mem(2) region_okD(2) by blast
    then show "rg_end (?s ! i) \<le> unat (rg_address (?s ! j))"
      using apart [OF mem ne] le by (auto simp: word_le_nat_alt)
  qed
  then show ?thesis using dist ok by (simp add: regions_ok_def)
qed

lemma mapRegion_ok:
  assumes b: "bus_ok b" and s: "storage_ok r" "rg_writeResponses r = Map.empty"
  shows "bus_ok (fst (snd (mapRegion r b d)))"
proof -
  let ?b = "b\<lparr>pb_lastRegion := None\<rparr>"
  have b0: "bus_ok ?b" using b by (simp add: bus_ok_def)
  have sorted: "bus_ok (?b\<lparr>pb_regions := sort_key rg_address (pb_regions ?b @ [r])\<rparr>)"
    if "\<not> (TrimSpaceEmpty (rg_name r) \<or> 255 < length (rg_name r) \<or> hasNUL (rg_name r) \<or>
         rg_size r = 0 \<or> 2 ^ 32 < unat (rg_address r) + unat (rg_size r))" "checkOverlap r (pb_regions b) = None"
  proof -
    have "region_ok r" using that(1) s by (auto simp: region_ok_def rg_end_def responses_ok_def)
    from regions_ok_insert [OF bus_okD(1) [OF b] this that(2)] show ?thesis using b by (simp add: bus_ok_def)
  qed
  show ?thesis
  proof (cases "TrimSpaceEmpty (rg_name r) \<or> 255 < length (rg_name r) \<or> hasNUL (rg_name r) \<or>
         rg_size r = 0 \<or> 2 ^ 32 < unat (rg_address r) + unat (rg_size r)")
    case True
    then show ?thesis using b0 by (simp only: mapRegion_def Let_def if_True fst_conv snd_conv)
  next
    case False
    show ?thesis
    proof (cases "checkOverlap r (pb_regions b)")
      case None
      have "mapRegion r b d = (Inr (), ?b\<lparr>pb_regions := sort_key rg_address (pb_regions ?b @ [r])\<rparr>,
          invalidateDirect (?b\<lparr>pb_regions := sort_key rg_address (pb_regions ?b @ [r])\<rparr>) d)"
        using False None by (simp add: mapRegion_def Let_def)
      then show ?thesis using sorted [OF False None] by simp
    next
      case (Some e)
      then have "mapRegion r b d = (Inl e, ?b, d)" using False by (simp add: mapRegion_def Let_def)
      then show ?thesis using b0 by simp
    qed
  qed
qed

lemma mapping_ok:
  assumes b: "bus_ok b"
  shows "bus_ok (fst (snd (MapRAMImage n a sz initial b d)))" "bus_ok (fst (snd (MapRAM n a sz b d)))"
    "bus_ok (fst (snd (MapSparseRAM n a sz b d)))" "bus_ok (fst (snd (MapROM n a data b d)))"
    "bus_ok (fst (snd (MapMMIO n a sz device b d)))"
proof -
  have ram: "bus_ok (fst (snd (MapRAMImage n a sz initial b d)))" for initial
  proof (cases "unat sz < length initial")
    case False
    then show ?thesis
      by (simp add: MapRAMImage_def Let_def, intro mapRegion_ok [OF b]) (simp_all add: blankRegion_def storage_ok_def)
  qed (use b in \<open>simp add: MapRAMImage_def\<close>)
  then show "bus_ok (fst (snd (MapRAMImage n a sz initial b d)))" "bus_ok (fst (snd (MapRAM n a sz b d)))"
    by (simp_all add: MapRAM_def)
  show "bus_ok (fst (snd (MapSparseRAM n a sz b d)))"
    unfolding MapSparseRAM_def
    by (rule mapRegion_ok [OF b]) (simp_all add: blankRegion_def storage_ok_def sparse_within_def)
  show "bus_ok (fst (snd (MapROM n a data b d)))"
  proof (cases "2 ^ 32 - 1 < length data")
    case False
    then have "unat (of_nat (length data) :: u32) = length data" by (intro unat_of_nat_u32) simp
    then show ?thesis using False
      by (simp add: MapROM_def, intro mapRegion_ok [OF b]) (simp_all add: blankRegion_def storage_ok_def)
  qed (use b in \<open>simp add: MapROM_def\<close>)
  show "bus_ok (fst (snd (MapMMIO n a sz device b d)))"
  proof (cases "device = None")
    case False
    then obtain dev where "device = Some dev" by blast
    then show ?thesis
      by (simp add: MapMMIO_def, intro mapRegion_ok [OF b]) (simp_all add: blankRegion_def storage_ok_def)
  qed (use b in \<open>simp add: MapMMIO_def\<close>)
qed

lemma observers_ok:
  assumes b: "bus_ok b"
  shows "bus_ok (SetDirectMemoryInvalidator f b)" "bus_ok (fst (SetMMIOObserver mo b d))"
    "bus_ok (fst (snd (SetMemoryObserver a sz o1 b d)))" "bus_ok (fst (snd (SetInstructionMemoryObserver a sz o2 b d)))"
proof -
  have same: "bus_ok b'"
    if "pb_regions b' = pb_regions b" "pb_lastRegion b' = pb_lastRegion b"
      "pb_observed b' \<longleftrightarrow> pb_mmioObserver b' \<noteq> None \<or> pb_memoryObserver b' \<noteq> None \<or> pb_contextObserver b' \<noteq> None" for b'
    using b that by (simp only: bus_ok_def)
  have observed: "pb_observed b \<longleftrightarrow> pb_mmioObserver b \<noteq> None \<or> pb_memoryObserver b \<noteq> None \<or> pb_contextObserver b \<noteq> None"
    using b by (simp add: bus_ok_def)
  show "bus_ok (SetDirectMemoryInvalidator f b)"
    by (rule same) (use observed in \<open>simp_all add: SetDirectMemoryInvalidator_def\<close>)
  show "bus_ok (fst (SetMMIOObserver mo b d))"
    by (rule same) (simp_all add: SetMMIOObserver_def refreshObserved_def Let_def)
  show "bus_ok (fst (snd (SetMemoryObserver a sz o1 b d)))"
    by (rule same) (use observed in \<open>simp_all add: SetMemoryObserver_def refreshObserved_def Let_def\<close>)
  show "bus_ok (fst (snd (SetInstructionMemoryObserver a sz o2 b d)))"
    by (rule same) (use observed in \<open>simp_all add: SetInstructionMemoryObserver_def refreshObserved_def Let_def\<close>)
qed

lemma responseRules_ok:
  "responseRules sz ps rules = Inr rules' \<Longrightarrow> responses_ok sz rules \<Longrightarrow> responses_ok sz rules'"
proof (induction ps arbitrary: rules)
  case (Cons p ps)
  have p: "\<not> responseWriteBad sz (wp_Offset p) (wp_Width p) (wp_Request p)" "list_all (response_ok sz) (wp_Writes p)"
    using Cons.prems(1) by (auto simp: Let_def list_ex_iff list_all_iff response_ok_def split: if_splits)
  have "responses_ok sz (rules(\<lparr>rk_offset = wp_Offset p, rk_width = wp_Width p, rk_value = wp_Request p\<rparr> \<mapsto> wp_Writes p))"
    using p Cons.prems(2) by (auto simp: responses_ok_def)
  with Cons.prems(1) show ?case using Cons.IH by (auto simp: Let_def split: if_splits)
qed simp

lemma regionByName_Some: "regionByName n i rs = Some j \<Longrightarrow> i \<le> j \<and> j - i < length rs \<and> rg_name (rs ! (j - i)) = n"
proof (induction rs arbitrary: i)
  case (Cons r rs)
  show ?case
  proof (cases "rg_name r = n")
    case False
    then have "regionByName n (i + 1) rs = Some j" using Cons.prems by simp
    from Cons.IH [OF this] show ?thesis by (auto simp: nth_Cons')
  qed (use Cons.prems in auto)
qed simp

lemma configure_ok:
  fixes b :: "('d, 'e) Bus"
  assumes b: "bus_ok b"
  shows "bus_ok (fst (snd (configureMemoryWriteResponses n ps b d)))"
proof -
  have "bus_ok (setRegion i ((pb_regions b ! i)\<lparr>rg_writeResponses := rules\<rparr>) b)"
    if i: "regionByName n 0 (pb_regions b) = Some i" and k: "\<not> (rg_kind (pb_regions b ! i) = regionROM \<or> rg_kind (pb_regions b ! i) = regionMMIO)"
      and r: "responseRules (rg_size (pb_regions b ! i)) ps Map.empty = (Inr rules :: 'e busError + _)" for i rules
  proof -
    have len: "i < length (pb_regions b)" using regionByName_Some [OF i] by simp
    let ?r = "pb_regions b ! i" and ?s = "(pb_regions b ! i)\<lparr>rg_writeResponses := rules\<rparr>"
    have "responses_ok (rg_size ?r) rules" by (rule responseRules_ok [OF r]) (simp add: responses_ok_def)
    then have "region_ok ?s"
      using bus_okD(2) [OF b len] k by (cases "rg_kind ?r") (simp_all add: region_ok_def storage_ok_def rg_end_def)
    moreover have "map rg_name ((pb_regions b)[i := ?s]) = map rg_name (pb_regions b)"
      using len by (simp add: map_update list_update_same_conv)
    moreover have "sorted_wrt (\<lambda>r s. rg_end r \<le> unat (rg_address s)) ((pb_regions b)[i := ?s])"
    proof -
      have "rg_address ((pb_regions b)[i := ?s] ! j) = rg_address (pb_regions b ! j) \<and>
          rg_end ((pb_regions b)[i := ?s] ! j) = rg_end (pb_regions b ! j)" for j
        using len by (cases "j = i") (simp_all add: rg_end_def)
      then show ?thesis using bus_okD(1) [OF b] unfolding regions_ok_def sorted_wrt_iff_nth_less by simp
    qed
    moreover have "\<forall>x \<in> set ((pb_regions b)[i := ?s]). region_ok x"
      using bus_okD(1) [OF b] \<open>region_ok ?s\<close> set_update_subset_insert [of "pb_regions b" i ?s] unfolding regions_ok_def by blast
    ultimately have "regions_ok ((pb_regions b)[i := ?s])" using bus_okD(1) [OF b] by (simp add: regions_ok_def)
    then show ?thesis using b len by (simp add: bus_ok_def setRegion_def split: option.splits)
  qed
  then show ?thesis using b
    by (simp add: configureMemoryWriteResponses_def Let_def split: option.split sum.split)
qed

end
