(* ===== verification/System_Accesses.thy ===== *)
theory System_Accesses
  imports System_Memory
begin

text \<open>
  What the accesses of the physical bus promise: an abstract bus of a memory map and devices that
  the width-typed accesses implement, the faults that are external aborts, the host copies and
  the block transfers, all over the specification of memory that the processor's mappings use.
\<close>

subsection \<open>The abstract bus\<close>

definition busRead ::
    "u32 \<Rightarrow> nat \<Rightarrow> Permissions \<Rightarrow> ('d, 'e) Bus \<Rightarrow> 'd \<Rightarrow> ('e Fault + u8 list) \<times> 'd" where
  "busRead address n p b d =
     (case target address n p b of
        Inl f \<Rightarrow> (Inl f, d)
      | Inr (w, i, offset) \<Rightarrow>
          let r = pb_regions b ! i in
          if rg_kind r = regionMMIO
          then (case dev_Read (the (rg_device r)) offset w d of
                  (Inl e, d) \<Rightarrow> (Inl (faultAt (rg_name r) address w p (ErrDevice e)), d)
                | (Inr v, d) \<Rightarrow> (Inr (putValue n v), d))
          else (case spec_read (bus_memory b) p (unat address) n of
                  Inl e \<Rightarrow> (Inl (faultAt (rg_name r) address w p (ErrCpu e)), d)
                | Inr bytes \<Rightarrow> (Inr bytes, d)))"

definition busWrite ::
    "u32 \<Rightarrow> u8 list \<Rightarrow> Permissions \<Rightarrow> ('d, 'e) Bus \<Rightarrow> 'd \<Rightarrow> ('e Fault + unit) \<times> memory \<times> 'd" where
  "busWrite address source p b d =
     (case target address (length source) p b of
        Inl f \<Rightarrow> (Inl f, bus_memory b, d)
      | Inr (w, i, offset) \<Rightarrow>
          let r = pb_regions b ! i in
          if rg_kind r = regionMMIO
          then (case dev_Write (the (rg_device r)) offset w (valueOf_bytes source) d of
                  (Inl e, d) \<Rightarrow> (Inl (faultAt (rg_name r) address w p (ErrDevice e)), bus_memory b, d)
                | (Inr _, d) \<Rightarrow> (Inr (), bus_memory b, d))
          else (Inr (), respond r offset w (valueOf_bytes source) (snd (spec_write (bus_memory b) p (unat address) source)), d))"

text \<open>The memory map of a bus under construction, for concrete runs.\<close>

definition smallBus :: "('d, 'e) Bus" where
  "smallBus = (let b = fst (snd (MapRAMImage [0x61] 0x1000 4 [1, 2, 3] NewBus undefined))
               in fst (snd (MapROM [0x62] 0x1004 [9, 8, 7, 6] b undefined)))"

lemma New_bus_ok [simp]: "bus_ok NewBus"
  by (simp add: bus_ok_def NewBus_def regions_ok_def)

lemma smallBus_ok: "bus_ok smallBus"
  by (simp add: smallBus_def Let_def mapping_ok)

text \<open>
  C7. The accesses of an unobserved bus implement the abstract one: an access faults for a bad
  width, misalignment, an unmapped address, a span that leaves its region or a missing permission,
  in that order and with the region's name; a device answers its own accesses; otherwise a read
  answers the bytes of the memory map and a write stores into it, followed by the writes its
  response rule lists.  The processor's context, the region search and the remembered region of
  the last access make no difference.
\<close>

theorem bus_accesses_refine_memory:
  fixes b :: "('d, 'e) Bus"
  assumes b: "bus_ok b" and quiet: "\<not> pb_observed b"
  shows "(fst (ReadContext c address n p b d), snd (snd (ReadContext c address n p b d))) = busRead address n p b d \<and>
    bus_memory (fst (snd (ReadContext c address n p b d))) = bus_memory b \<and>
    (fst (WriteContext c address source p b d), bus_memory (fst (snd (WriteContext c address source p b d))),
      snd (snd (WriteContext c address source p b d))) = busWrite address source p b d"
proof (intro conjI)
  obtain l where l: "fst (snd (ReadContext c address n p b d)) = b\<lparr>pb_lastRegion := l\<rparr>"
    using ReadContext_spec [OF b] by blast
  then show "bus_memory (fst (snd (ReadContext c address n p b d))) = bus_memory b"
    by (simp add: bus_memory_cong [of "b\<lparr>pb_lastRegion := l\<rparr>" b])
  show "(fst (ReadContext c address n p b d), snd (snd (ReadContext c address n p b d))) = busRead address n p b d"
    using ReadContext_spec [OF b, of c address n p d] quiet unfolding busRead_def Let_def
    by (auto split: sum.splits prod.splits if_splits)
  show "(fst (WriteContext c address source p b d), bus_memory (fst (snd (WriteContext c address source p b d))),
      snd (snd (WriteContext c address source p b d))) = busWrite address source p b d"
    using WriteContext_spec [OF b, of c address source p d] quiet unfolding busWrite_def Let_def
    by (auto split: sum.splits prod.splits if_splits)
qed

text \<open>The witnesses run on a RAM region at 0x1000 followed by a ROM region at 0x1004.\<close>

lemma smallBus_regions:
  "pb_regions (smallBus :: ('d, 'e) Bus) =
     [(blankRegion [0x61] 0x1000 4 RWX regionRAM)\<lparr>rg_data := [1, 2, 3, 0], rg_initial := [1, 2, 3, 0]\<rparr>,
      (blankRegion [0x62] 0x1004 4 (PermissionRead OR PermissionExecute) regionROM)\<lparr>rg_data := [9, 8, 7, 6]\<rparr>]"
  "pb_observed (smallBus :: ('d, 'e) Bus) = False"
proof -
  have four: "overwrite (replicate 4 0) 0 [1, 2, 3] = [1, 2, 3, 0 :: u8]" by (simp add: overwrite_def eval_nat_numeral)
  have names: "\<not> TrimSpaceEmpty [0x61]" "\<not> TrimSpaceEmpty [0x62]" by (simp_all add: isSpace_def)
  have ram: "fst (snd (MapRAMImage [0x61] 0x1000 4 [1, 2, 3] (NewBus :: ('d, 'e) Bus) d)) = NewBus\<lparr>pb_regions :=
      [(blankRegion [0x61] 0x1000 4 RWX regionRAM)\<lparr>rg_data := [1, 2, 3, 0], rg_initial := [1, 2, 3, 0]\<rparr>]\<rparr>" for d :: 'd
    by (simp add: MapRAMImage_def mapRegion_def Let_def four blankRegion_def names hasNUL_def NewBus_def del: TrimSpaceEmpty.simps)
  show "pb_regions (smallBus :: ('d, 'e) Bus) =
     [(blankRegion [0x61] 0x1000 4 RWX regionRAM)\<lparr>rg_data := [1, 2, 3, 0], rg_initial := [1, 2, 3, 0]\<rparr>,
      (blankRegion [0x62] 0x1004 4 (PermissionRead OR PermissionExecute) regionROM)\<lparr>rg_data := [9, 8, 7, 6]\<rparr>]"
    "pb_observed (smallBus :: ('d, 'e) Bus) = False"
    unfolding smallBus_def Let_def ram
    by (simp_all add: MapROM_def mapRegion_def Let_def blankRegion_def names hasNUL_def rg_end_def NewBus_def
        del: TrimSpaceEmpty.simps)
qed

theorem bus_accesses_refine_memory_witness:
  "(fst (WriteContext noContext 0x1002 [0xAB, 0xCD] PermissionWrite (smallBus :: (unit, unit) Bus) ()),
      bus_memory (fst (snd (WriteContext noContext 0x1002 [0xAB, 0xCD] PermissionWrite (smallBus :: (unit, unit) Bus) ()))),
      snd (snd (WriteContext noContext 0x1002 [0xAB, 0xCD] PermissionWrite (smallBus :: (unit, unit) Bus) ()))) =
    busWrite 0x1002 [0xAB, 0xCD] PermissionWrite smallBus ()"
  using bus_accesses_refine_memory 
    [where b = "smallBus :: (unit, unit) Bus" and address = "0x1002" and c = noContext and p = PermissionWrite and d = "()" and source = "[0xAB, 0xCD]" and n = 2]
  by (simp add: smallBus_regions smallBus_ok)

subsection \<open>External aborts\<close>

text \<open>
  C23. An access is answered with an external abort, which the processor takes as a data or
  prefetch abort, exactly when it is a well-aligned access of width one, two or four to an address
  outside every region: permissions, boundaries, widths and the errors of devices are never one,
  whatever observes the bus and whatever the device does.
\<close>

theorem bus_external_abort:
  fixes b :: "('d, 'e) Bus"
  assumes b: "bus_ok b"
  shows "((\<exists>f. fst (ReadContext c address n p b d) = Inl f \<and> ExternalAbort f) \<longleftrightarrow>
      (n = 1 \<or> n = 2 \<or> n = 4) \<and> unat address mod n = 0 \<and> (\<forall>r \<in> set (pb_regions b). \<not> in_region (unat address) r)) \<and>
    ((\<exists>f. fst (WriteContext c address source p b d) = Inl f \<and> ExternalAbort f) \<longleftrightarrow>
      (length source = 1 \<or> length source = 2 \<or> length source = 4) \<and> unat address mod length source = 0 \<and>
      (\<forall>r \<in> set (pb_regions b). \<not> in_region (unat address) r))"
    (is "?reads \<and> ?writes")
proof -
  have named: "rg_name (pb_regions b ! i) \<noteq> []" if "i < length (pb_regions b)" for i
    using bus_okD(2) [OF b that] by (auto simp: region_ok_def)
  have unmapped: "region_index (pb_regions b) (unat address) = None \<longleftrightarrow> (\<forall>r \<in> set (pb_regions b). \<not> in_region (unat address) r)"
    by (rule region_index_None)
  have abort: "(\<exists>f. target address n p b = Inl f \<and> ExternalAbort f) \<longleftrightarrow>
      (n = 1 \<or> n = 2 \<or> n = 4) \<and> unat address mod n = 0 \<and> (\<forall>r \<in> set (pb_regions b). \<not> in_region (unat address) r)" for n
  proof (cases "region_index (pb_regions b) (unat address)")
    case None
    then show ?thesis using unmapped by (auto simp: target_def ExternalAbort_def faultAt_def)
  next
    case (Some i)
    then have "rg_name (pb_regions b ! i) \<noteq> []"
      using region_index_Some [OF bus_okD(1) [OF b]] named by blast
    then show ?thesis using Some unmapped by (auto simp: target_def ExternalAbort_def faultAt_def Let_def)
  qed
  have "(\<exists>f. fst (ReadContext c address n p b d) = Inl f \<and> ExternalAbort f) \<longleftrightarrow> (\<exists>f. target address n p b = Inl f \<and> ExternalAbort f)"
    using ReadContext_spec [OF b, of c address n p d]
    by (auto simp: ExternalAbort_def faultAt_def split: sum.splits prod.splits if_splits)
  then have reads: ?reads using abort by simp
  have "(\<exists>f. fst (WriteContext c address source p b d) = Inl f \<and> ExternalAbort f) \<longleftrightarrow>
      (\<exists>f. target address (length source) p b = Inl f \<and> ExternalAbort f)"
    using WriteContext_spec [OF b, of c address source p d]
    by (auto simp: ExternalAbort_def faultAt_def split: sum.splits prod.splits if_splits)
  then show ?thesis using abort reads by simp
qed

theorem bus_external_abort_witness:
  "\<exists>f. fst (ReadContext noContext 0x2000 4 PermissionRead (smallBus :: (unit, unit) Bus) ()) = Inl f \<and> ExternalAbort f"
  using bus_external_abort [where b = "smallBus :: (unit, unit) Bus" and address = "0x2000" and n = 4 and c = noContext
      and p = PermissionRead and d = "()" and source = "[]"]
  by (simp add: smallBus_ok smallBus_regions in_region_def rg_end_def blankRegion_def)

subsection \<open>Host copies\<close>

lemma bus_memory_end: "bus_ok b \<Longrightarrow> 2 ^ 32 \<le> x \<Longrightarrow> bus_memory b x = None"
proof -
  assume b: "bus_ok b" and x: "2 ^ 32 \<le> x"
  have "region_index (pb_regions b) x = None"
    using bus_okD(1) [OF b] x by (fastforce simp: region_index_None in_region_def regions_ok_def region_ok_def)
  then show ?thesis by (simp add: bus_memory_def)
qed

text \<open>
  C19. The host's copies treat the bus as one flat memory: a read answers exactly the bytes of
  the memory map across as many regions as the span needs, or stops at the first unmapped,
  device or protected byte: its fault carries the error and the address of that byte, and it has
  copied exactly the bytes before it; a write stores the bytes up to the
  first byte that is not writable RAM, keeps ROM and every byte outside the span, and neither
  calls a device.  A span past the end of the address space is refused without copying.
\<close>

theorem bus_host_copies:
  fixes b :: "('d, 'e) Bus"
  assumes b: "bus_ok b"
  shows "(case Bus_ReadMemory address n p b of
      (None, out) \<Rightarrow> spec_read (bus_memory b) p (unat address) n = Inr out
    | (Some f, out) \<Rightarrow> \<exists>e. flt_Err f = ErrCpu e \<and>
        (if 2 ^ 32 < unat address + n then e = ErrInvalidAddress \<and> out = []
         else spec_read (bus_memory b) p (unat address) n = Inl e \<and> length out < n \<and>
           spec_read (bus_memory b) p (unat address) (length out) = Inr out \<and>
           spec_byte (bus_memory b) p (unat address + length out) = Inl e \<and>
           flt_Address f = address + of_nat (length out))) \<and>
    bus_ok (snd (Bus_WriteMemory address source p b)) \<and>
    (if source \<noteq> [] \<and> 2 ^ 32 < unat address + length source
     then snd (Bus_WriteMemory address source p b) = b
     else ram_memory (snd (Bus_WriteMemory address source p b)) = snd (spec_write (ram_memory b) p (unat address) source)) \<and>
    (\<forall>x. ram_memory b x = None \<longrightarrow> bus_memory (snd (Bus_WriteMemory address source p b)) x = bus_memory b x) \<and>
    (fst (Bus_WriteMemory address source p b) = None \<longleftrightarrow>
      (source = [] \<or> unat address + length source \<le> 2 ^ 32) \<and> fst (spec_write (ram_memory b) p (unat address) source) = Inr ())"
    (is "?read \<and> ?store")
proof (rule conjI)
  show ?read
  proof (cases "n = 0 \<or> 2 ^ 32 < unat address + n")
    case True
    then show ?thesis by (auto simp: Bus_ReadMemory_def faultAt_def)
  next
    case False
    then have "unat address + n \<le> 2 ^ 32" by simp
    from readMemoryLoop_spec [OF b this, where p = p and copied = "[]"] show ?thesis
      using False by (auto simp: Bus_ReadMemory_def split: prod.splits option.splits)
  qed
  show ?store
  proof (cases "source = [] \<or> 2 ^ 32 < unat address + length source")
    case True
    then show ?thesis using b by (auto simp: Bus_WriteMemory_def)
  next
    case False
    then have "unat address + length source \<le> 2 ^ 32" by simp
    from writeMemoryLoop_spec [OF b this, of p] show ?thesis
      using False by (cases "fst (writeMemoryLoop address source p b)") (auto simp: Bus_WriteMemory_def)
  qed
qed

theorem bus_host_copies_witness:
  "Bus_ReadMemory 0x1002 4 PermissionRead (smallBus :: (unit, unit) Bus) = (None, [3, 0, 9, 8]) \<and>
    spec_read (bus_memory (smallBus :: (unit, unit) Bus)) PermissionRead 0x1002 4 = Inr [3, 0, 9, 8]"
proof -
  have bytes: "bus_memory (smallBus :: (unit, unit) Bus) 0x1002 = Some (RWX, 3)" "bus_memory (smallBus :: (unit, unit) Bus) 0x1003 = Some (RWX, 0)"
    "bus_memory (smallBus :: (unit, unit) Bus) 0x1004 = Some (PermissionRead OR PermissionExecute, 9)"
    "bus_memory (smallBus :: (unit, unit) Bus) 0x1005 = Some (PermissionRead OR PermissionExecute, 8)"
    by (simp_all add: bus_memory_def region_index_def smallBus_regions in_region_def rg_end_def blankRegion_def byteOf_def)
  then have spec: "spec_read (bus_memory (smallBus :: (unit, unit) Bus)) PermissionRead 0x1002 4 = Inr [3, 0, 9, 8]"
    by (simp add: eval_nat_numeral spec_byte_def RWX_def PermissionRead_def PermissionWrite_def PermissionExecute_def)
  obtain f out where out: "Bus_ReadMemory 0x1002 4 PermissionRead (smallBus :: (unit, unit) Bus) = (f, out)" by fastforce
  have "f = None \<and> out = [3, 0, 9, 8]"
    using bus_host_copies [where b = "smallBus :: (unit, unit) Bus" and address = "0x1002" and n = 4 and p = PermissionRead and source = "[]"]
      spec smallBus_ok by (cases f) (auto simp: out)
  with spec out show ?thesis by blast
qed

subsection \<open>Blocks\<close>

lemma resolveBlock_target:
  assumes b: "bus_ok b" and quiet: "\<not> pb_observed b" and n: "n = 1 \<or> n = 2 \<or> n = 4" "unat address mod n = 0"
  shows "fst (resolveBlock address n p b) =
    (case target address n p b of
       Inl _ \<Rightarrow> None
     | Inr (w, i, offset) \<Rightarrow> if rg_kind (pb_regions b ! i) = regionMMIO then None else Some (i, offset))"
proof -
  obtain l where l: "regionFor address b = (region_index (pb_regions b) (unat address), b\<lparr>pb_lastRegion := l\<rparr>)"
    using regionFor_index [OF b] by blast
  have "n \<noteq> 0" using n(1) by auto
  then show ?thesis
    using quiet n by (cases "region_index (pb_regions b) (unat address)")
      (simp_all add: resolveBlock_def target_def l Let_def)
qed

lemma block_declined:
  assumes b: "bus_ok b" and hit: "fst (resolveBlock address n p b) = None" and len: "length source = n"
  shows "fst (ReadBlock address n p b) = None \<and> \<not> fst (WriteBlock address source p b) \<and>
    bus_memory (snd (WriteBlock address source p b)) = bus_memory b"
proof -
  obtain l where l: "resolveBlock address n p b = (None, b\<lparr>pb_lastRegion := l\<rparr>)"
    using resolveBlock_spec(1) [OF b, of address n p] hit by (metis prod.collapse)
  have "bus_memory (b\<lparr>pb_lastRegion := l\<rparr>) = bus_memory b" by (rule bus_memory_cong) simp
  then show ?thesis by (simp add: ReadBlock_def WriteBlock_def l len)
qed

lemma block_carried_out:
  fixes b :: "('d, 'e) Bus"
  assumes b: "bus_ok b" and quiet: "\<not> pb_observed b" and w: "n = 1 \<or> n = 2 \<or> n = 4" "unat address mod n = 0" and len: "length source = n"
    and t: "target address n p b = Inr (w, i, offset)" and plain: "rg_kind (pb_regions b ! i) \<noteq> regionMMIO"
  shows "(\<exists>bytes. fst (ReadBlock address n p b) = Some bytes \<and> fst (busRead address n p b d) = Inr bytes) \<and>
    fst (WriteBlock address source p b) \<and>
    bus_memory (snd (WriteBlock address source p b)) = fst (snd (busWrite address source p b d))"
proof (intro conjI)
  note tgt = target_Inr [OF b t]
  have "fst (resolveBlock address n p b) = Some (i, offset)"
    using resolveBlock_target [OF b quiet w] plain by (simp add: t)
  then obtain l where hit: "resolveBlock address n p b = (Some (i, offset), b\<lparr>pb_lastRegion := l\<rparr>)"
    using resolveBlock_spec(1) [OF b, of address n p] by (metis prod.collapse)
  have read: "fst (ReadBlock address n p b) = Some (readPlain offset n (pb_regions b ! i))"
    by (simp add: ReadBlock_def hit)
  have "fst (busRead address n p b d) = Inr (readPlain offset n (pb_regions b ! i))"
    using ReadBlock_spec(2) [OF b read] by (simp add: busRead_def t plain Let_def)
  with read show "\<exists>bytes. fst (ReadBlock address n p b) = Some bytes \<and> fst (busRead address n p b d) = Inr bytes" by simp
  show ok: "fst (WriteBlock address source p b)" by (simp add: WriteBlock_def len hit Let_def)
  obtain j where j: "j < length (pb_regions b)" "in_region (unat address) (pb_regions b ! j)"
    "bus_memory (snd (WriteBlock address source p b)) =
      respond (pb_regions b ! j) (address - rg_address (pb_regions b ! j)) (of_nat n) (valueOf_bytes source)
        (snd (spec_write (bus_memory b) p (unat address) source))"
    using WriteBlock_spec(4) [OF b ok] len w by (auto simp: widthForSize_cases)
  have "j = i" by (rule in_region_unique [OF bus_okD(1) [OF b] j(1) tgt(3) j(2) tgt(4)])
  then show "bus_memory (snd (WriteBlock address source p b)) = fst (snd (busWrite address source p b d))"
    using j(3) tgt(2,7) by (simp add: busWrite_def len t plain Let_def)
qed

text \<open>The spans a block transfer takes: they lie in one region that is no device and grants the access.\<close>

definition blockSpan :: "u32 \<Rightarrow> nat \<Rightarrow> Permissions \<Rightarrow> ('d, 'e) Bus \<Rightarrow> bool" where
  "blockSpan address n p b \<longleftrightarrow> n \<noteq> 0 \<and> (\<exists>r \<in> set (pb_regions b). in_region (unat address) r \<and>
     rg_kind r \<noteq> regionMMIO \<and> unat address + n \<le> rg_end r \<and> rg_permissions r AND p = p)"

lemma block_taken_iff:
  assumes b: "bus_ok b"
  shows "fst (resolveBlock address n p b) \<noteq> None \<longleftrightarrow> \<not> pb_observed b \<and> blockSpan address n p b"
proof
  assume "fst (resolveBlock address n p b) \<noteq> None"
  then obtain i offset where "fst (resolveBlock address n p b) = Some (i, offset)" by auto
  from resolveBlock_spec(2) [OF b this] show "\<not> pb_observed b \<and> blockSpan address n p b"
    by (auto simp: blockSpan_def)
next
  assume taken: "\<not> pb_observed b \<and> blockSpan address n p b"
  then obtain i where i: "i < length (pb_regions b)" "in_region (unat address) (pb_regions b ! i)"
    "rg_kind (pb_regions b ! i) \<noteq> regionMMIO" "unat address + n \<le> rg_end (pb_regions b ! i)"
    "rg_permissions (pb_regions b ! i) AND p = p" "n \<noteq> 0"
    by (auto simp: blockSpan_def in_set_conv_nth)
  have "region_index (pb_regions b) (unat address) = Some i"
    using region_index_Some [OF bus_okD(1) [OF b]] i(1,2) by blast
  moreover obtain l where "regionFor address b = (region_index (pb_regions b) (unat address), b\<lparr>pb_lastRegion := l\<rparr>)"
    using regionFor_index [OF b] by blast
  ultimately show "fst (resolveBlock address n p b) \<noteq> None"
    using i taken by (simp add: resolveBlock_def Let_def)
qed

lemma block_done_iff:
  assumes "bus_ok b" and "length source = n"
  shows "fst (ReadBlock address n p b) \<noteq> None \<longleftrightarrow> \<not> pb_observed b \<and> blockSpan address n p b"
    "fst (WriteBlock address source p b) \<longleftrightarrow> \<not> pb_observed b \<and> blockSpan address n p b"
  unfolding block_taken_iff [OF assms(1), symmetric] ReadBlock_def WriteBlock_def assms(2)
  by (auto simp: Let_def split: prod.splits option.splits)

text \<open>
  C21. Block transfers and the accesses they stand for.  On a bus without an observer a block of
  any size and alignment is carried out exactly when it is not empty and lies in one region that
  is no device and grants the permission; an observed bus declines every block.  A block that is
  carried out reads the bytes of the memory map, or stores its bytes and, at width one, two or
  four, the response writes of its region.  A block that is declined changes no byte, so the
  caller's fallback sees what the access would have seen.  At width one, two or four and an
  aligned address the block is carried out if and only if the single access would reach plain
  memory without a fault, with the same bytes, the same stored memory and the same response
  writes.  Alignment is where the two part: the blocks have no such rule, while a single access of
  width two or four at an unaligned address faults.
\<close>

theorem bus_blocks_are_accesses:
  fixes b :: "('d, 'e) Bus"
  assumes b: "bus_ok b" and len: "length source = n"
  shows "(fst (ReadBlock address n p b) \<noteq> None \<longleftrightarrow> \<not> pb_observed b \<and> blockSpan address n p b) \<and>
    (fst (WriteBlock address source p b) \<longleftrightarrow> \<not> pb_observed b \<and> blockSpan address n p b) \<and>
    (\<forall>bytes. fst (ReadBlock address n p b) = Some bytes \<longrightarrow> spec_read (bus_memory b) p (unat address) n = Inr bytes) \<and>
    (if fst (WriteBlock address source p b)
     then \<exists>r \<in> set (pb_regions b). in_region (unat address) r \<and>
       bus_memory (snd (WriteBlock address source p b)) =
       (case widthForSize n of
          None \<Rightarrow> snd (spec_write (bus_memory b) p (unat address) source)
        | Some w \<Rightarrow> respond r (address - rg_address r) w (valueOf_bytes source) (snd (spec_write (bus_memory b) p (unat address) source)))
     else bus_memory (snd (WriteBlock address source p b)) = bus_memory b) \<and>
    (\<not> pb_observed b \<and> (n = 1 \<or> n = 2 \<or> n = 4) \<and> unat address mod n = 0 \<longrightarrow>
      (case target address n p b of
         Inl _ \<Rightarrow> fst (ReadBlock address n p b) = None \<and> \<not> fst (WriteBlock address source p b)
       | Inr (w, i, offset) \<Rightarrow>
           if rg_kind (pb_regions b ! i) = regionMMIO
           then fst (ReadBlock address n p b) = None \<and> \<not> fst (WriteBlock address source p b)
           else (\<exists>bytes. fst (ReadBlock address n p b) = Some bytes \<and> fst (busRead address n p b d) = Inr bytes) \<and>
             fst (WriteBlock address source p b) \<and>
             bus_memory (snd (WriteBlock address source p b)) = fst (snd (busWrite address source p b d)))) \<and>
    ((n = 2 \<or> n = 4) \<and> unat address mod n \<noteq> 0 \<longrightarrow>
      (\<exists>f. fst (busRead address n p b d) = Inl f \<and> fst (busWrite address source p b d) = Inl f \<and> flt_Err f = ErrUnalignedAccess))"
    (is "_ \<and> _ \<and> ?reads \<and> ?stores \<and> (_ \<longrightarrow> ?result) \<and> _")
proof (intro conjI impI)
  show "fst (ReadBlock address n p b) \<noteq> None \<longleftrightarrow> \<not> pb_observed b \<and> blockSpan address n p b"
    "fst (WriteBlock address source p b) \<longleftrightarrow> \<not> pb_observed b \<and> blockSpan address n p b"
    by (rule block_done_iff [OF b len])+
  show ?reads using ReadBlock_spec(2) [OF b] by blast
  show ?stores
  proof (cases "fst (WriteBlock address source p b)")
    case True
    then show ?thesis using WriteBlock_spec(4) [OF b True] unfolding len by (auto intro: nth_mem)
  next
    case False
    obtain l where "snd (WriteBlock address source p b) = b\<lparr>pb_lastRegion := l\<rparr>" using WriteBlock_spec(3) [OF b False] by blast
    then show ?thesis using False bus_memory_cong [of "b\<lparr>pb_lastRegion := l\<rparr>" b] by simp
  qed
  show "\<exists>f. fst (busRead address n p b d) = Inl f \<and> fst (busWrite address source p b d) = Inl f \<and> flt_Err f = ErrUnalignedAccess"
    if "(n = 2 \<or> n = 4) \<and> unat address mod n \<noteq> 0"
  proof -
    have "target address n p b = Inl (faultAt [] address (of_nat n) p ErrUnalignedAccess)"
      using that by (auto simp: target_def)
    then show ?thesis by (simp add: busRead_def busWrite_def len faultAt_def)
  qed
  assume n: "\<not> pb_observed b \<and> (n = 1 \<or> n = 2 \<or> n = 4) \<and> unat address mod n = 0"
  then have quiet: "\<not> pb_observed b" and w: "n = 1 \<or> n = 2 \<or> n = 4" "unat address mod n = 0" by auto
  note hit = resolveBlock_target [OF b quiet w, of p]
  show ?result
  proof (cases "target address n p b")
    case (Inl f)
    then show ?thesis using block_declined [OF b _ len] hit by simp
  next
    case (Inr t)
    obtain w' i offset where t: "target address n p b = Inr (w', i, offset)" using Inr by (metis prod_cases3)
    show ?thesis
      using block_declined [OF b _ len] hit block_carried_out [OF b quiet w len t] by (simp add: t)
  qed
qed

theorem bus_blocks_are_accesses_witness:
  "\<exists>bytes. fst (ReadBlock 0x1000 2 PermissionRead (smallBus :: (unit, unit) Bus)) = Some bytes \<and>
    fst (busRead 0x1000 2 PermissionRead (smallBus :: (unit, unit) Bus) ()) = Inr bytes"
proof -
  have "target 0x1000 2 PermissionRead (smallBus :: (unit, unit) Bus) = Inr (2, 0, 0)"
    by (simp add: target_def region_index_def smallBus_regions in_region_def rg_end_def blankRegion_def RWX_def
        PermissionRead_def PermissionWrite_def PermissionExecute_def)
  then show ?thesis
    using bus_blocks_are_accesses [where b = "smallBus :: (unit, unit) Bus" and address = "0x1000" and n = 2
        and p = PermissionRead and source = "[0, 0]" and d = "()"]
    by (simp add: smallBus_ok smallBus_regions blankRegion_def)
qed

end
