(* ===== verification/System_Snapshots.thy ===== *)
theory System_Snapshots
  imports System_Accesses
begin

text \<open>
  Reset, saved states and restores of the physical bus: the invariant survives them, a state
  restores the memory and the devices it was saved from, a restore that a device refuses is
  rolled back, and the invariant holds after every sequence of operations.
\<close>

subsection \<open>Regions that keep their shape\<close>

lemma storage_ok_RAM:
  "region_ok r \<Longrightarrow> rg_kind r = regionRAM \<Longrightarrow> length data = unat (rg_size r) \<Longrightarrow> region_ok (r\<lparr>rg_data := data\<rparr>)"
  by (simp add: region_ok_def storage_ok_def rg_end_def)

lemma storage_ok_sparse:
  "region_ok r \<Longrightarrow> rg_kind r = regionSparseRAM \<Longrightarrow> sparse_ok m \<Longrightarrow> sparse_within (unat (rg_size r)) m \<Longrightarrow>
     region_ok (r\<lparr>rg_sparse := m\<rparr>)"
  by (simp add: region_ok_def storage_ok_def rg_end_def)

lemma RAM_initial: "region_ok r \<Longrightarrow> rg_kind r = regionRAM \<Longrightarrow> length (rg_initial r) = unat (rg_size r)"
  by (simp add: region_ok_def storage_ok_def)

lemma regions_ok_shapes:
  assumes "regions_ok rs" "list_all2 same_shape rs rs'" "\<forall>r \<in> set rs'. region_ok r"
  shows "regions_ok rs'"
proof -
  note s = same_shapes_index(2,3) [OF assms(2)]
  have "map rg_name rs' = map rg_name rs"
    by (rule nth_equalityI) (use s in \<open>simp_all add: same_shape_def\<close>)
  moreover have "sorted_wrt (\<lambda>r s. rg_end r \<le> unat (rg_address s)) rs'"
    unfolding sorted_wrt_iff_nth_less
  proof (intro allI impI)
    fix i j assume ij: "i < j" "j < length rs'"
    have sorted: "sorted_wrt (\<lambda>r s. rg_end r \<le> unat (rg_address s)) rs" using assms(1) unfolding regions_ok_def by blast
    have "rg_end (rs ! i) \<le> unat (rg_address (rs ! j))"
      using sorted_wrt_nth_less [OF sorted ij(1)] ij(2) s(2) by simp
    then show "rg_end (rs' ! i) \<le> unat (rg_address (rs' ! j))"
      using s(1) [of i] s(1) [of j] s(2) ij by (simp add: same_shape_def rg_end_def)
  qed
  ultimately show ?thesis using assms(1,3) by (simp add: regions_ok_def)
qed

lemma bus_ok_regions:
  "bus_ok b \<Longrightarrow> regions_ok rs \<Longrightarrow> length rs = length (pb_regions b) \<Longrightarrow> bus_ok (b\<lparr>pb_regions := rs\<rparr>)"
  by (simp add: bus_ok_def split: option.splits)

lemma update_shape:
  assumes "i < length rs" "same_shape (rs ! i) r"
  shows "list_all2 same_shape rs (rs[i := r])"
  using assms by (auto simp: list_all2_conv_all_nth nth_list_update)

subsection \<open>Reset\<close>

lemma resetRegions_ok:
  "\<forall>r \<in> set rs. region_ok r \<Longrightarrow>
     list_all2 same_shape rs (fst (snd (resetRegions rs d))) \<and> (\<forall>r \<in> set (fst (snd (resetRegions rs d))). region_ok r)"
proof (induction rs arbitrary: d)
  case (Cons r rs)
  define out where "out = (case rg_kind r of
         regionRAM \<Rightarrow> (Inr (), r\<lparr>rg_data := rg_initial r\<rparr>, d)
       | regionSparseRAM \<Rightarrow> (Inr (), r\<lparr>rg_sparse := sparseReset (rg_sparse r)\<rparr>, d)
       | regionMMIO \<Rightarrow>
           (case dev_Reset (the (rg_device r)) d of
              (Inl e, d) \<Rightarrow> (Inl (ErrDevice e), r, d)
            | (Inr _, d) \<Rightarrow> (Inr (), r, d))
       | regionROM \<Rightarrow> (Inr (), r, d))"
  obtain e s d1 where o: "out = (e, s, d1)" by (cases out) auto
  have r: "region_ok r" using Cons.prems by simp
  have s: "same_shape r s \<and> region_ok s"
  proof (cases "rg_kind r")
    case regionRAM
    then show ?thesis using o storage_ok_RAM [OF r regionRAM RAM_initial [OF r regionRAM]]
      by (auto simp: out_def same_shape_def)
  next
    case regionSparseRAM
    have "region_ok (r\<lparr>rg_sparse := newSparseRAM\<rparr>)"
      by (rule storage_ok_sparse [OF r regionSparseRAM]) (simp_all add: sparse_within_def)
    then show ?thesis using o regionSparseRAM by (auto simp: out_def same_shape_def sparseReset_def)
  next
    case regionMMIO
    then show ?thesis using o r by (auto simp: out_def split: prod.splits sum.splits)
  next
    case regionROM
    then show ?thesis using o r by (auto simp: out_def)
  qed
  have eq: "resetRegions (r # rs) d =
      (case e of Inl x \<Rightarrow> (Inl x, s # rs, d1) | Inr _ \<Rightarrow> (case resetRegions rs d1 of (e, rs, d) \<Rightarrow> (e, s # rs, d)))"
    using o unfolding out_def by simp
  have "list_all2 same_shape rs rs" by (simp add: list_all2_refl)
  then show ?case using s Cons.IH [of d1] Cons.prems unfolding eq
    by (cases e) (auto split: prod.splits)
qed simp

lemma Bus_Reset_ok:
  assumes "bus_ok b"
  shows "bus_ok (fst (snd (Bus_Reset b d)))" "list_all2 same_shape (pb_regions b) (pb_regions (fst (snd (Bus_Reset b d))))"
proof -
  have all: "\<forall>r \<in> set (pb_regions b). region_ok r" using bus_okD(1) [OF assms] by (simp add: regions_ok_def)
  note r = resetRegions_ok [OF all, of d]
  then show "list_all2 same_shape (pb_regions b) (pb_regions (fst (snd (Bus_Reset b d))))"
    by (auto simp: Bus_Reset_def split: prod.split)
  have "regions_ok (fst (snd (resetRegions (pb_regions b) d)))"
    using regions_ok_shapes [OF bus_okD(1) [OF assms]] r by blast
  from bus_ok_regions [OF assms this] show "bus_ok (fst (snd (Bus_Reset b d)))"
    using r by (auto simp: Bus_Reset_def list_all2_lengthD split: prod.split)
qed

subsection \<open>Restored components\<close>

definition item_ok :: "('d, 'e) busRegion list \<Rightarrow> restored \<Rightarrow> bool" where
  "item_ok rs item \<longleftrightarrow> it_region item < length rs \<and>
     (let r = rs ! it_region item in
      (rg_kind r = regionRAM \<longrightarrow> length (it_state item) = unat (rg_size r)) \<and>
      (rg_kind r = regionSparseRAM \<longrightarrow> sparse_ok (it_sparse item) \<and> sparse_within (unat (rg_size r)) (it_sparse item)))"

lemma item_ok_shapes: "list_all2 same_shape rs rs' \<Longrightarrow> item_ok rs' item \<longleftrightarrow> item_ok rs item"
  using same_shapes_index(2,3) [of rs rs'] by (auto simp: item_ok_def Let_def same_shape_def)

lemma regionByIdentity_Some:
  "regionByIdentity n k a sz i rs = Some j \<Longrightarrow> i \<le> j \<and> j - i < length rs \<and>
     rg_name (rs ! (j - i)) = n \<and> kindByte (rg_kind (rs ! (j - i))) = k \<and>
     rg_address (rs ! (j - i)) = a \<and> rg_size (rs ! (j - i)) = sz"
proof (induction rs arbitrary: i)
  case (Cons r rs)
  show ?case
  proof (cases "rg_name r = n \<and> kindByte (rg_kind r) = k \<and> rg_address r = a \<and> rg_size r = sz")
    case False
    then have "regionByIdentity n k a sz (i + 1) rs = Some j" using Cons.prems by (simp only: regionByIdentity.simps if_False)
    from Cons.IH [OF this] show ?thesis by (auto simp: nth_Cons')
  qed (use Cons.prems in auto)
qed simp

lemma restoredItem_ok:
  assumes "restoredItem i (rs ! i) st = Some item" "i < length rs" "region_ok (rs ! i)"
  shows "item_ok rs item" "it_region item = i" "it_state item = st"
proof -
  have len: "rg_kind (rs ! i) = regionRAM \<Longrightarrow> length (rg_data (rs ! i)) = unat (rg_size (rs ! i))"
    using plain_length [OF assms(3)] by simp
  show "it_region item = i" "it_state item = st"
    using assms(1) by (auto simp: restoredItem_def split: if_splits sum.splits)
  show "item_ok rs item"
    using assms(1,2) len decodeSparse_ok [of "rg_size (rs ! i)" st]
    by (auto simp: item_ok_def Let_def restoredItem_def split: if_splits sum.splits)
qed

lemma parseComponent_ok:
  assumes "parseComponent rs seen s = Some (item, n, s')" "\<forall>r \<in> set rs. region_ok r"
  shows "item_ok rs item" "rg_name (rs ! it_region item) = n" "n \<notin> set seen"
proof -
  obtain i st where i: "restoredItem i (rs ! i) st = Some item" "i < length rs" "rg_name (rs ! i) = n" "n \<notin> set seen"
    using assms(1) regionByIdentity_Some [of _ _ _ _ 0 rs]
    by (fastforce simp: parseComponent_def Let_def bind_eq_Some_conv split: if_splits prod.splits)
  then have "region_ok (rs ! i)" using assms(2) by simp
  with i show "item_ok rs item" "rg_name (rs ! it_region item) = n" "n \<notin> set seen"
    using restoredItem_ok [OF i(1,2)] by auto
qed

lemma parseComponents_ok:
  assumes "\<forall>r \<in> set rs. region_ok r"
  shows "parseComponents k rs seen s = Some (items, s') \<Longrightarrow>
    list_all (item_ok rs) items \<and> distinct (map (\<lambda>item. rg_name (rs ! it_region item)) items) \<and>
    set seen \<inter> (\<lambda>item. rg_name (rs ! it_region item)) ` set items = {}"
proof (induction k arbitrary: seen s items)
  case (Suc k)
  obtain item n s1 rest where p: "parseComponent rs seen s = Some (item, n, s1)"
      "parseComponents k rs (n # seen) s1 = Some (rest, s')" "items = item # rest"
    using Suc.prems by (auto split: option.splits)
  show ?case using Suc.IH [OF p(2)] parseComponent_ok [OF p(1) assms] by (auto simp: p(3))
qed simp

lemma parseState_ok:
  assumes "parseState allow rs state = Some items" "\<forall>r \<in> set rs. region_ok r"
  shows "list_all (item_ok rs) items \<and> distinct (map (\<lambda>item. rg_name (rs ! it_region item)) items)"
proof -
  obtain k s s' where "parseComponents k rs [] s = Some (items, s')"
    using assms(1) by (auto simp: parseState_def Let_def bind_eq_Some_conv split: if_splits prod.splits)
  then show ?thesis using parseComponents_ok [OF assms(2)] by blast
qed

subsection \<open>Applying and rolling back\<close>

definition previous_ok :: "('d, 'e) busRegion list \<Rightarrow> nat \<times> u8 list \<Rightarrow> bool" where
  "previous_ok rs p \<longleftrightarrow> fst p < length rs \<and>
     (rg_kind (rs ! fst p) = regionRAM \<longrightarrow> length (snd p) = unat (rg_size (rs ! fst p)))"

lemma previous_ok_shapes: "list_all2 same_shape rs rs' \<Longrightarrow> previous_ok rs' p \<longleftrightarrow> previous_ok rs p"
  using same_shapes_index(2,3) [of rs rs'] by (auto simp: previous_ok_def same_shape_def)

lemma savePrevious_ok:
  "savePrevious items rs d = (Inr previous, d') \<Longrightarrow> list_all (item_ok rs) items \<Longrightarrow> \<forall>r \<in> set rs. region_ok r \<Longrightarrow>
     list_all (previous_ok rs) previous \<and> map fst previous = map it_region items"
proof (induction items arbitrary: d previous)
  case (Cons item items)
  let ?r = "rs ! it_region item"
  obtain st d1 rest where s: "savePrevious items rs d1 = (Inr rest, d')" "previous = (it_region item, st) # rest"
      "rg_kind ?r = regionRAM \<longrightarrow> st = rg_data ?r"
    using Cons.prems(1) by (auto simp: Let_def split: if_splits sum.splits prod.splits option.splits)
  have i: "it_region item < length rs" using Cons.prems(2) by (simp add: item_ok_def)
  then have "region_ok ?r" using Cons.prems(3) by simp
  then have "previous_ok rs (it_region item, st)" using i s(3) plain_length [of ?r] by (simp add: previous_ok_def)
  then show ?case using Cons.IH [OF s(1)] Cons.prems(2,3) s(2) by simp
qed simp

lemma update_region_ok:
  assumes "\<forall>r \<in> set rs. region_ok r" "i < length rs" "region_ok r" "same_shape (rs ! i) r"
  shows "\<forall>r \<in> set (rs[i := r]). region_ok r" "list_all2 same_shape rs (rs[i := r])"
  using assms set_update_subset_insert [of rs i r] update_shape [OF assms(2,4)] by blast+

lemma rollback_ok:
  assumes "\<forall>r \<in> set rs. region_ok r" "list_all (previous_ok rs) previous"
  shows "list_all2 same_shape rs (fst (rollback previous rs d)) \<and> (\<forall>r \<in> set (fst (rollback previous rs d)). region_ok r)"
  using assms
proof (induction previous arbitrary: rs d)
  case Nil
  then show ?case by (simp add: list_all2_refl)
next
  case (Cons p previous)
  obtain i st where p: "p = (i, st)" by (cases p)
  have i: "i < length rs" "region_ok (rs ! i)" "rg_kind (rs ! i) = regionRAM \<Longrightarrow> length st = unat (rg_size (rs ! i))"
    using Cons.prems by (auto simp: p previous_ok_def)
  have step: ?case if "rollback (p # previous) rs d = rollback previous rs' d'" "list_all2 same_shape rs rs'"
      "\<forall>r \<in> set rs'. region_ok r" for rs' d'
  proof -
    have "list_all (previous_ok rs') previous"
      using Cons.prems(2) previous_ok_shapes [OF that(2)] by (simp add: list_all_iff)
    from Cons.IH [OF that(3) this, of d'] show ?thesis
      unfolding that(1) using list_all2_same_shape_trans [OF that(2)] by blast
  qed
  have refl: "list_all2 same_shape rs rs" by (simp add: list_all2_refl)
  show ?case
  proof (cases "rg_kind (rs ! i) = regionRAM")
    case True
    have u: "region_ok ((rs ! i)\<lparr>rg_data := st\<rparr>)" "same_shape (rs ! i) ((rs ! i)\<lparr>rg_data := st\<rparr>)"
      using storage_ok_RAM [OF i(2) True i(3) [OF True]] by (simp_all add: same_shape_def)
    show ?thesis by (rule step [OF _ update_region_ok(2,1) [OF Cons.prems(1) i(1) u]]) (simp add: p Let_def True)
  next
    case ram: False
    show ?thesis
    proof (cases "rg_kind (rs ! i) = regionSparseRAM")
      case True
      show ?thesis
      proof (cases "decodeSparseRAMState (rg_size (rs ! i)) st")
        case (Inl e)
        show ?thesis by (rule step [OF _ refl Cons.prems(1)]) (simp add: p Let_def True Inl)
      next
        case (Inr m)
        have u: "region_ok ((rs ! i)\<lparr>rg_sparse := m\<rparr>)" "same_shape (rs ! i) ((rs ! i)\<lparr>rg_sparse := m\<rparr>)"
          using storage_ok_sparse [OF i(2) True] decodeSparse_ok [OF Inr] by (simp_all add: same_shape_def)
        show ?thesis by (rule step [OF _ update_region_ok(2,1) [OF Cons.prems(1) i(1) u]]) (simp add: p Let_def True Inr)
      qed
    next
      case False
      show ?thesis
      proof (cases "Option.bind (rg_device (rs ! i)) dev_Stateful")
        case None
        show ?thesis by (rule step [OF _ refl Cons.prems(1)]) (simp add: p Let_def ram False None)
      next
        case (Some sd)
        show ?thesis by (rule step [OF _ refl Cons.prems(1)]) (simp add: p Let_def ram False Some)
      qed
    qed
  qed
qed

lemma applyItems_ok:
  assumes "\<forall>r \<in> set rs. region_ok r" "list_all (item_ok rs) items" "list_all (previous_ok rs) previous"
  shows "list_all2 same_shape rs (fst (snd (applyItems allow previous items rs d))) \<and>
    (\<forall>r \<in> set (fst (snd (applyItems allow previous items rs d))). region_ok r)"
  using assms
proof (induction items arbitrary: rs d)
  case Nil
  then show ?case by (simp add: list_all2_refl)
next
  case (Cons item items)
  let ?i = "it_region item"
  have i: "?i < length rs" "region_ok (rs ! ?i)" using Cons.prems by (auto simp: item_ok_def)
  have step: ?case if "applyItems allow previous (item # items) rs d = applyItems allow previous items rs' d'"
      "list_all2 same_shape rs rs'" "\<forall>r \<in> set rs'. region_ok r" for rs' d'
  proof -
    have "list_all (item_ok rs') items" "list_all (previous_ok rs') previous"
      using Cons.prems(2,3) item_ok_shapes [OF that(2)] previous_ok_shapes [OF that(2)] by (simp_all add: list_all_iff)
    from Cons.IH [OF that(3) this, of d'] show ?thesis
      unfolding that(1) using list_all2_same_shape_trans [OF that(2)] by blast
  qed
  have refl: "list_all2 same_shape rs rs" by (simp add: list_all2_refl)
  show ?case
  proof (cases "rg_kind (rs ! ?i) = regionRAM")
    case True
    have len: "length (it_state item) = unat (rg_size (rs ! ?i))" using Cons.prems(2) True by (simp add: item_ok_def Let_def)
    have u: "region_ok ((rs ! ?i)\<lparr>rg_data := it_state item\<rparr>)" "same_shape (rs ! ?i) ((rs ! ?i)\<lparr>rg_data := it_state item\<rparr>)"
      using storage_ok_RAM [OF i(2) True len] by (simp_all add: same_shape_def)
    show ?thesis by (rule step [OF _ update_region_ok(2,1) [OF Cons.prems(1) i(1) u]]) (simp add: Let_def True)
  next
    case ram: False
    show ?thesis
    proof (cases "rg_kind (rs ! ?i) = regionSparseRAM")
      case True
      have m: "sparse_ok (it_sparse item)" "sparse_within (unat (rg_size (rs ! ?i))) (it_sparse item)"
        using Cons.prems(2) True by (simp_all add: item_ok_def Let_def)
      have u: "region_ok ((rs ! ?i)\<lparr>rg_sparse := it_sparse item\<rparr>)" "same_shape (rs ! ?i) ((rs ! ?i)\<lparr>rg_sparse := it_sparse item\<rparr>)"
        using storage_ok_sparse [OF i(2) True m] by (simp_all add: same_shape_def)
      show ?thesis by (rule step [OF _ update_region_ok(2,1) [OF Cons.prems(1) i(1) u]]) (simp add: Let_def True)
    next
      case False
      show ?thesis
      proof (cases "Option.bind (rg_device (rs ! ?i)) dev_Stateful")
        case None
        then show ?thesis using rollback_ok [OF Cons.prems(1,3), of d] by (simp add: Let_def ram False)
      next
        case (Some sd)
        obtain res d1 where l: "loadDevice allow sd (it_state item) d = (res, d1)" by fastforce
        show ?thesis
        proof (cases res)
          case (Inl e)
          then show ?thesis using rollback_ok [OF Cons.prems(1,3), of d1] by (simp add: Let_def ram False Some l)
        next
          case (Inr u)
          show ?thesis by (rule step [OF _ refl Cons.prems(1)]) (simp add: Let_def ram False Some l Inr)
        qed
      qed
    qed
  qed
qed

lemma loadState_ok:
  assumes b: "bus_ok b"
  shows "bus_ok (fst (snd (loadState allow state b d)))"
    "list_all2 same_shape (pb_regions b) (pb_regions (fst (snd (loadState allow state b d))))"
proof -
  have refl: "list_all2 same_shape (pb_regions b) (pb_regions b)" by (simp add: list_all2_refl)
  have all: "\<forall>r \<in> set (pb_regions b). region_ok r" using bus_okD(1) [OF b] by (simp add: regions_ok_def)
  have "bus_ok (fst (snd (loadState allow state b d))) \<and>
      list_all2 same_shape (pb_regions b) (pb_regions (fst (snd (loadState allow state b d))))"
  proof (cases "parseState allow (pb_regions b) state")
    case None
    then show ?thesis using b refl by (simp add: loadState_def)
  next
    case (Some items)
    note items = parseState_ok [OF Some all]
    obtain res d1 where p: "savePrevious items (pb_regions b) d = (res, d1)" by fastforce
    show ?thesis
    proof (cases res)
      case (Inl e)
      then show ?thesis using b refl by (simp add: loadState_def Some p)
    next
      case (Inr previous)
      have prev: "list_all (previous_ok (pb_regions b)) previous"
        using savePrevious_ok [OF p [unfolded Inr] _ all] items by blast
      obtain e rs d2 where a: "applyItems allow previous items (pb_regions b) d1 = (e, rs, d2)" by (metis prod_cases3)
      have rs: "list_all2 same_shape (pb_regions b) rs" "\<forall>r \<in> set rs. region_ok r"
        using applyItems_ok [OF all conjunct1 [OF items] prev, of allow d1] by (simp_all add: a)
      have "regions_ok rs" by (rule regions_ok_shapes [OF bus_okD(1) [OF b] rs])
      from bus_ok_regions [OF b this] show ?thesis
        using rs by (simp add: loadState_def Some p Inr a list_all2_lengthD)
    qed
  qed
  then show "bus_ok (fst (snd (loadState allow state b d)))"
    "list_all2 same_shape (pb_regions b) (pb_regions (fst (snd (loadState allow state b d))))" by blast+
qed

subsection \<open>Every sequence of operations\<close>

datatype ('d, 'e) boardOp =
    OpMapRAMImage name u32 u32 "u8 list"
  | OpMapSparseRAM name u32 u32
  | OpMapROM name u32 "u8 list"
  | OpMapMMIO name u32 u32 "('d, 'e) Device option"
  | OpConfigureResponses name "MemoryWriteResponseProfile list"
  | OpSetInvalidator "('d \<Rightarrow> 'd) option"
  | OpSetMMIOObserver "('e MMIOAccess \<Rightarrow> 'd \<Rightarrow> 'd) option"
  | OpSetMemoryObserver u32 u32 "('e MemoryAccess \<Rightarrow> 'd \<Rightarrow> 'd) option"
  | OpSetInstructionObserver u32 u32 "('e MemoryAccess \<Rightarrow> 'd \<Rightarrow> 'd) option"
  | OpRead MemoryAccessContext u32 nat Permissions
  | OpWrite MemoryAccessContext u32 "u8 list" Permissions
  | OpReadBlock u32 nat Permissions
  | OpWriteBlock u32 "u8 list" Permissions
  | OpDirectRegion u32 nat Permissions
  | OpHostWrite u32 "u8 list" Permissions
  | OpReset
  | OpSave
  | OpLoad bool "u8 list"

fun boardStep :: "('d, 'e) boardOp \<Rightarrow> ('d, 'e) busState \<Rightarrow> ('d, 'e) busState" where
  "boardStep (OpMapRAMImage n a sz initial) (b, d) = snd (MapRAMImage n a sz initial b d)"
| "boardStep (OpMapSparseRAM n a sz) (b, d) = snd (MapSparseRAM n a sz b d)"
| "boardStep (OpMapROM n a data) (b, d) = snd (MapROM n a data b d)"
| "boardStep (OpMapMMIO n a sz device) (b, d) = snd (MapMMIO n a sz device b d)"
| "boardStep (OpConfigureResponses n profiles) (b, d) = snd (configureMemoryWriteResponses n profiles b d)"
| "boardStep (OpSetInvalidator f) (b, d) = (SetDirectMemoryInvalidator f b, d)"
| "boardStep (OpSetMMIOObserver f) (b, d) = SetMMIOObserver f b d"
| "boardStep (OpSetMemoryObserver a sz f) (b, d) = snd (SetMemoryObserver a sz f b d)"
| "boardStep (OpSetInstructionObserver a sz f) (b, d) = snd (SetInstructionMemoryObserver a sz f b d)"
| "boardStep (OpRead c a n p) (b, d) = snd (ReadContext c a n p b d)"
| "boardStep (OpWrite c a source p) (b, d) = snd (WriteContext c a source p b d)"
| "boardStep (OpReadBlock a n p) (b, d) = (snd (ReadBlock a n p b), d)"
| "boardStep (OpWriteBlock a source p) (b, d) = (snd (WriteBlock a source p b), d)"
| "boardStep (OpDirectRegion a n p) (b, d) = (snd (DirectMemoryRegion a n p b), d)"
| "boardStep (OpHostWrite a source p) (b, d) = (snd (Bus_WriteMemory a source p b), d)"
| "boardStep OpReset (b, d) = snd (Bus_Reset b d)"
| "boardStep OpSave (b, d) = (b, snd (Bus_SaveState b d))"
| "boardStep (OpLoad allow state) (b, d) = snd (loadState allow state b d)"

lemma DirectMemoryRegion_ok:
  assumes "bus_ok b"
  shows "bus_ok (snd (DirectMemoryRegion a n p b))"
proof -
  have "snd (DirectMemoryRegion a n p b) = snd (resolveBlock a n p b)"
    by (simp add: DirectMemoryRegion_def Let_def split: prod.split option.split)
  then show ?thesis using resolveBlock_spec(1) [OF assms, of a n p] by auto
qed

lemma Bus_WriteMemory_ok:
  assumes "bus_ok b"
  shows "bus_ok (snd (Bus_WriteMemory a source p b))"
  using assms writeMemoryLoop_spec [OF assms, of a source p] by (auto simp: Bus_WriteMemory_def)

lemma boardStep_ok: "bus_ok (fst s) \<Longrightarrow> bus_ok (fst (boardStep x s))"
proof -
  assume ok: "bus_ok (fst s)"
  obtain b d where s: "s = (b, d)" by (cases s)
  have b: "bus_ok b" using ok s by simp
  show ?thesis unfolding s
  proof (cases x)
    case (OpRead c a n p)
    then show "bus_ok (fst (boardStep x (b, d)))" using ReadContext_spec [OF b, of c a n p d] by auto
  next
    case (OpWrite c a source p)
    then show "bus_ok (fst (boardStep x (b, d)))" using WriteContext_spec [OF b, of c a source p d] by simp
  next
    case (OpReadBlock a n p)
    then show "bus_ok (fst (boardStep x (b, d)))" using ReadBlock_spec(1) [OF b, of a n p] by auto
  qed (use b in \<open>simp_all add: mapping_ok observers_ok configure_ok WriteBlock_spec(1) DirectMemoryRegion_ok
      Bus_WriteMemory_ok Bus_Reset_ok(1) loadState_ok(1)\<close>)
qed

interpretation bus_script: scripted "\<lambda>s :: ('d, 'e) busState. bus_ok (fst s)" boardStep
  by unfold_locales (rule boardStep_ok)

text \<open>
  C18. A physical bus is well formed however it is built and used: after any sequence of
  mappings, response rules, observers, accesses, blocks, host writes, resets, saves and loads of
  arbitrary bytes, with any devices and whether they succeed or fail, the regions are sorted,
  disjoint, uniquely and properly named and inside the address space, every region holds exactly
  its storage with the permissions of its kind, response rules stay in their region, the
  remembered region exists and the observer summary is right.
\<close>

theorem bus_well_formed:
  "bus_ok (fst (fold boardStep script (NewBus, d)))"
  by (rule bus_script.script_inv) simp

subsection \<open>Reading back what was written\<close>

lemma takeBytes_append [simp]: "n = length xs \<Longrightarrow> takeBytes n (xs @ ys) = Some (xs, ys)"
  by (simp add: takeBytes_def)

lemma length_busMagic: "length busMagic = 4"
  by (simp add: busMagic_def)

lemma kindByte_inject [simp]: "kindByte k = kindByte l \<longleftrightarrow> k = l"
  by (cases k; cases l) (simp_all add: kindByte_def)

lemma regionByIdentity_at:
  assumes "i < length rs" "distinct (map rg_name rs)"
  shows "regionByIdentity (rg_name (rs ! i)) (kindByte (rg_kind (rs ! i))) (rg_address (rs ! i)) (rg_size (rs ! i)) k rs = Some (k + i)"
  using assms
proof (induction rs arbitrary: i k)
  case (Cons r rs)
  show ?case
  proof (cases i)
    case (Suc j)
    have "rg_name (rs ! j) \<in> rg_name ` set rs" using Cons.prems(1) Suc by simp
    then have "rg_name r \<noteq> rg_name (rs ! j)" using Cons.prems(2) by auto
    then show ?thesis using Cons.IH [of j "k + 1"] Cons.prems Suc by simp
  qed simp
qed simp

lemma parse_written:
  assumes rs: "regions_ok rs" and i: "i < length rs" and r: "same_shape r (rs ! i)"
    and n: "rg_name r \<notin> set seen" and st: "length st < 2 ^ 32" "restoredItem i (rs ! i) st = Some item"
  shows "parseComponent rs seen (componentBytes (r, st) @ rest) = Some (item, rg_name r, rest)"
proof -
  have ok: "region_ok (rs ! i)" using rs i by (simp add: regions_ok_def)
  have name: "rg_name r \<noteq> []" "length (rg_name r) \<le> 255"
    using ok r by (auto simp: region_ok_def same_shape_def)
  have len: "unat (of_nat (length (rg_name r)) :: u16) = length (rg_name r)" "unat (of_nat (length st) :: u32) = length st"
    using name(2) st(1) by (simp_all add: unat_of_nat unat_of_nat_u32)
  have id: "regionByIdentity (rg_name r) (kindByte (rg_kind r)) (rg_address r) (rg_size r) 0 rs = Some i"
    using regionByIdentity_at [OF i, of 0] rs r by (simp add: regions_ok_def same_shape_def)
  have one: "takeBytes (Suc 0) (x # xs) = Some ([x], xs)" for x :: u8 and xs by (simp add: takeBytes_def)
  show ?thesis
    by (simp add: parseComponent_def componentBytes_def len name(1) id n st(2) one Let_def)
qed

subsection \<open>The contract of devices with a state\<close>

text \<open>
  What the bus relies on.  \<open>dev n\<close> is the device behind the region named \<open>n\<close>, \<open>view n\<close> what its
  saved state determines, and \<open>inv\<close> what every operation keeps.  Saving changes nothing; a saved
  state loads into any later state of the same device and brings its view back; a load, accepted
  or refused, changes no other device.
\<close>

locale stateful_devices =
  fixes inv :: "'d \<Rightarrow> bool"
    and view :: "name \<Rightarrow> 'd \<Rightarrow> 'v"
    and dev :: "name \<Rightarrow> ('d, 'e) StatefulDevice"
    and names :: "name set"
  assumes save: "n \<in> names \<Longrightarrow> inv d \<Longrightarrow> \<exists>st. sd_SaveState (dev n) d = (Inr st, d) \<and> length st < 2 ^ 32"
    and load_saved: "n \<in> names \<Longrightarrow> inv d \<Longrightarrow> inv d0 \<Longrightarrow> sd_SaveState (dev n) d = (Inr st, d) \<Longrightarrow>
      fst (sd_LoadState (dev n) st d0) = Inr () \<and> view n (snd (sd_LoadState (dev n) st d0)) = view n d"
    and load_frame: "n \<in> names \<Longrightarrow> inv d \<Longrightarrow> inv (snd (sd_LoadState (dev n) st d)) \<and>
      (\<forall>m. m \<noteq> n \<longrightarrow> view m (snd (sd_LoadState (dev n) st d)) = view m d)"
    and subset_frame: "n \<in> names \<Longrightarrow> inv d \<Longrightarrow> sd_LoadStateSubset (dev n) = Some f \<Longrightarrow> inv (snd (f st d)) \<and>
      (\<forall>m. m \<noteq> n \<longrightarrow> view m (snd (f st d)) = view m d)"

text \<open>The bus whose MMIO regions are these devices, and whose counts and sparse windows fit a saved state.\<close>

definition attached :: "(name \<Rightarrow> ('d, 'e) StatefulDevice) \<Rightarrow> name set \<Rightarrow> ('d, 'e) busRegion list \<Rightarrow> bool" where
  "attached dev names rs \<longleftrightarrow> (\<forall>r \<in> set rs. rg_kind r = regionMMIO \<longrightarrow> rg_name r \<in> names \<and>
     (\<exists>device. rg_device r = Some device \<and> dev_Stateful device = Some (dev (rg_name r))))"

definition savable :: "('d, 'e) busRegion list \<Rightarrow> bool" where
  "savable rs \<longleftrightarrow> length rs < 2 ^ 32 \<and> (\<forall>r \<in> set rs. rg_kind r = regionSparseRAM \<longrightarrow> unat (rg_size r) \<le> 2 ^ 31)"

text \<open>Regions that differ in the storage a restore replaces.\<close>

definition reloaded :: "('d, 'e) busRegion \<Rightarrow> ('d, 'e) busRegion \<Rightarrow> bool" where
  "reloaded r s \<longleftrightarrow>
     (case rg_kind r of
        regionRAM \<Rightarrow> \<exists>data. s = r\<lparr>rg_data := data\<rparr>
      | regionSparseRAM \<Rightarrow> \<exists>m. s = r\<lparr>rg_sparse := m\<rparr>
      | _ \<Rightarrow> s = r)"

lemma reloaded_refl [simp]: "reloaded r r"
  by (cases "rg_kind r") (auto simp: reloaded_def intro: exI [of _ "rg_data r"] exI [of _ "rg_sparse r"])

lemma reloaded_shape: "reloaded r s \<Longrightarrow> same_shape r s"
  by (cases "rg_kind r") (auto simp: reloaded_def same_shape_def)

lemma reloaded_storage:
  "reloaded r s \<Longrightarrow> rg_kind r = regionRAM \<Longrightarrow> s\<lparr>rg_data := data\<rparr> = r\<lparr>rg_data := data\<rparr>"
  "reloaded r s \<Longrightarrow> rg_kind r = regionSparseRAM \<Longrightarrow> s\<lparr>rg_sparse := m\<rparr> = r\<lparr>rg_sparse := m\<rparr>"
  "reloaded r s \<Longrightarrow> rg_kind r \<noteq> regionRAM \<Longrightarrow> rg_kind r \<noteq> regionSparseRAM \<Longrightarrow> s = r"
  "reloaded r s \<Longrightarrow> rg_kind s = rg_kind r"
  by (auto simp: reloaded_def split: regionKind.splits)

lemma sparse_savable:
  assumes "region_ok r" "rg_kind r = regionSparseRAM" "unat (rg_size r) \<le> 2 ^ 31"
  shows "\<exists>st. sparseSave (rg_size r) (rg_sparse r) = Inr st \<and> length st < 2 ^ 32 \<and>
    decodeSparseRAMState (rg_size r) st = Inr (rg_sparse r)"
proof -
  let ?m = "rg_sparse r" and ?sz = "rg_size r"
  note s = sparse_storage [OF assms(1,2)]
  define indices where "indices = sorted_list_of_set (dom (sp_pages ?m))"
  have pages: "unat i < 2 ^ 19" if "i \<in> dom (sp_pages ?m)" for i
    using that page_in_window(1) [of ?m "unat ?sz" i] s assms(3) by fastforce
  have "card (dom (sp_pages ?m)) \<le> card (unat ` dom (sp_pages ?m))"
    by (subst card_image) (simp_all add: inj_on_def word_unat_eq_iff)
  also have "\<dots> \<le> card {..<2 ^ 19 :: nat}" by (rule card_mono) (use pages in auto)
  finally have len: "length indices \<le> 2 ^ 19" by (simp add: indices_def)
  define st where "st = sparseHeader @ PutUint32 (of_nat (length indices)) @ concat (map (pageBytes ?m) indices)"
  have ok: "sparseSave ?sz ?m = Inr st"
    using len unfolding sparseSave_ok [OF conjunct1 [OF s] conjunct2 [OF s]] by (simp add: indices_def [symmetric] st_def)
  have "length (concat (map (pageBytes ?m) is)) = length is * 4100" if "set is \<subseteq> dom (sp_pages ?m)" for "is"
    using that
  proof (induction "is")
    case (Cons i "is")
    then obtain page where page: "sp_pages ?m i = Some page" by auto
    then show ?case using Cons sparse_some(2) [OF conjunct1 [OF s] page] by (simp add: pageBytes_def)
  qed simp
  then have "length st = 16 + length indices * 4100" by (simp add: st_def sparseHeader_def indices_def)
  then show ?thesis using ok len sparse_save_load [OF conjunct1 [OF s] conjunct2 [OF s] ok] by auto
qed

text \<open>A region of the target with the storage of the saved one.\<close>

definition carried :: "('d, 'e) busRegion \<Rightarrow> ('d, 'e) busRegion \<Rightarrow> ('d, 'e) busRegion" where
  "carried r s =
     (case rg_kind r of
        regionRAM \<Rightarrow> s\<lparr>rg_data := rg_data r\<rparr>
      | regionSparseRAM \<Rightarrow> s\<lparr>rg_sparse := rg_sparse r\<rparr>
      | _ \<Rightarrow> s)"

lemma carried_shape: "same_shape r s \<Longrightarrow> same_shape r (carried r s)"
  by (simp add: carried_def same_shape_def split: regionKind.split)

lemma carried_ok:
  assumes "same_shape r s" "region_ok r" "region_ok s"
  shows "region_ok (carried r s)"
proof -
  have "rg_kind s = rg_kind r" "rg_size s = rg_size r" using assms(1) by (simp_all add: same_shape_def)
  then show ?thesis
    using storage_ok_RAM [OF assms(3), of "rg_data r"] storage_ok_sparse [OF assms(3), of "rg_sparse r"]
      plain_length [OF assms(2)] sparse_storage [OF assms(2)] assms(3)
    by (cases "rg_kind r") (simp_all add: carried_def)
qed

lemma carried_bytes:
  assumes "same_shape r s"
  shows "rg_kind r = regionRAM \<or> rg_kind r = regionSparseRAM \<Longrightarrow> byteOf (carried r s) = byteOf r"
    "rg_kind r = regionROM \<Longrightarrow> carried r s = s"
  using assms by (auto simp: carried_def byteOf_def same_shape_def fun_eq_iff)

lemma fold_carried:
  "distinct is \<Longrightarrow> \<forall>i \<in> set is. i < length rs' \<Longrightarrow> j < length rs' \<Longrightarrow>
     fold (\<lambda>i rs'. rs'[i := h i (rs' ! i)]) is rs' ! j = (if j \<in> set is then h j (rs' ! j) else rs' ! j)"
  by (induction "is" arbitrary: rs') (auto simp: nth_list_update)

lemma length_fold_carried: "length (fold (\<lambda>i rs'. rs'[i := h i (rs' ! i)]) is rs') = length rs'"
  by (induction "is" arbitrary: rs') simp_all

context stateful_devices
begin

text \<open>The saved state of one region.\<close>

definition state_of :: "('d, 'e) busRegion \<Rightarrow> 'd \<Rightarrow> u8 list \<Rightarrow> bool" where
  "state_of r d st \<longleftrightarrow>
     (case rg_kind r of
        regionRAM \<Rightarrow> st = rg_data r
      | regionSparseRAM \<Rightarrow> sparseSave (rg_size r) (rg_sparse r) = Inr st
      | regionMMIO \<Rightarrow> sd_SaveState (dev (rg_name r)) d = (Inr st, d)
      | regionROM \<Rightarrow> False)"

lemma state_exists:
  assumes "region_ok r" "rg_kind r \<noteq> regionROM" "rg_kind r = regionSparseRAM \<Longrightarrow> unat (rg_size r) \<le> 2 ^ 31"
    "rg_kind r = regionMMIO \<Longrightarrow> rg_name r \<in> names" "inv d"
  shows "\<exists>st. state_of r d st \<and> length st < 2 ^ 32"
proof (cases "rg_kind r")
  case regionRAM
  then show ?thesis using plain_length [OF assms(1)] unat_u32_less [of "rg_size r"] by (simp add: state_of_def)
next
  case regionSparseRAM
  then show ?thesis using sparse_savable [OF assms(1) regionSparseRAM assms(3)] by (auto simp: state_of_def)
next
  case regionMMIO
  then show ?thesis using save [OF assms(4) assms(5)] by (simp add: state_of_def)
qed (use assms in simp)

definition pending :: "('d, 'e) busRegion list \<Rightarrow> (nat \<times> u8 list) list \<Rightarrow> name set" where
  "pending rs previous = (\<lambda>p. rg_name (rs ! fst p)) ` {p \<in> set previous. rg_kind (rs ! fst p) = regionMMIO}"

lemma pending_Cons:
  "pending rs (p # previous) =
     (if rg_kind (rs ! fst p) = regionMMIO then insert (rg_name (rs ! fst p)) (pending rs previous) else pending rs previous)"
  by (auto simp: pending_def)

lemma rollback_restores:
  assumes "list_all (\<lambda>(i, st). i < length rs0 \<and> state_of (rs0 ! i) d0 st) previous"
    and "list_all2 reloaded rs0 rs" and "\<forall>j < length rs0. j \<notin> fst ` set previous \<longrightarrow> rs ! j = rs0 ! j"
    and "inv d" "inv d0" and "\<forall>n. n \<notin> pending rs0 previous \<longrightarrow> view n d = view n d0"
    and "attached dev names rs0" "regions_ok rs0" "savable rs0"
  shows "fst (rollback previous rs d) = rs0 \<and> inv (snd (rollback previous rs d)) \<and>
    (\<forall>n. view n (snd (rollback previous rs d)) = view n d0)"
  using assms(1-4,6)
proof (induction previous arbitrary: rs d)
  case Nil
  then have "rs = rs0" by (intro nth_equalityI) (simp_all add: list_all2_lengthD)
  then show ?case using Nil by (simp add: pending_def)
next
  case (Cons p previous)
  obtain i st where p: "p = (i, st)" by (cases p)
  let ?r = "rs0 ! i"
  have i: "i < length rs0" "state_of ?r d0 st" using Cons.prems(1) by (simp_all add: p)
  have len: "length rs = length rs0" using Cons.prems(2) by (simp add: list_all2_lengthD)
  have rel: "reloaded ?r (rs ! i)" using Cons.prems(2) i(1) by (simp add: list_all2_nthD)
  have ok: "region_ok ?r" using assms(8) i(1) by (simp add: regions_ok_def)
  have kind: "rg_kind (rs ! i) = rg_kind ?r" by (rule reloaded_storage(4) [OF rel])
  have shape: "rg_size (rs ! i) = rg_size ?r" "rg_name (rs ! i) = rg_name ?r" "rg_device (rs ! i) = rg_device ?r"
    using reloaded_shape [OF rel] by (simp_all add: same_shape_def)
  have prev: "list_all (\<lambda>(i, st). i < length rs0 \<and> state_of (rs0 ! i) d0 st) previous" using Cons.prems(1) by simp
  have step: ?case if "rollback (p # previous) rs d = rollback previous rs' d'"
    "rs' = rs[i := ?r]" "inv d'" "\<forall>n. n \<notin> pending rs0 previous \<longrightarrow> view n d' = view n d0" for rs' d'
  proof -
    have "list_all2 reloaded rs0 rs'"
      using Cons.prems(2) i(1) len by (auto simp: that(2) list_all2_conv_all_nth nth_list_update)
    moreover have "\<forall>j < length rs0. j \<notin> fst ` set previous \<longrightarrow> rs' ! j = rs0 ! j"
      using Cons.prems(3) i(1) len by (auto simp: that(2) p nth_list_update)
    ultimately show ?thesis using Cons.IH [OF prev _ _ that(3,4)] unfolding that(1) by blast
  qed
  show ?case
  proof (cases "rg_kind ?r")
    case regionRAM
    have "(rs ! i)\<lparr>rg_data := st\<rparr> = rs0 ! i"
      using reloaded_storage(1) [OF rel regionRAM, of st] i(2) regionRAM by (simp add: state_of_def)
    then show ?thesis
      by (intro step [of "rs[i := ?r]" d])
        (use Cons.prems(4,5) kind regionRAM in \<open>simp_all add: p Let_def pending_Cons\<close>)
  next
    case regionSparseRAM
    have st: "sparseSave (rg_size ?r) (rg_sparse ?r) = Inr st" using i(2) regionSparseRAM by (simp add: state_of_def)
    have "decodeSparseRAMState (rg_size ?r) st = Inr (rg_sparse ?r)"
      using sparse_save_load [OF _ _ st] sparse_storage [OF ok regionSparseRAM] by blast
    moreover have "(rs ! i)\<lparr>rg_sparse := rg_sparse ?r\<rparr> = rs0 ! i"
      using reloaded_storage(2) [OF rel regionSparseRAM, of "rg_sparse ?r"] by simp
    ultimately show ?thesis
      by (intro step [of "rs[i := ?r]" d])
        (use Cons.prems(4,5) kind shape regionSparseRAM in \<open>simp_all add: p Let_def pending_Cons\<close>)
  next
    case regionMMIO
    obtain device where device: "rg_name ?r \<in> names" "rg_device ?r = Some device" "dev_Stateful device = Some (dev (rg_name ?r))"
      using assms(7) i(1) regionMMIO unfolding attached_def by (metis nth_mem)
    have st: "sd_SaveState (dev (rg_name ?r)) d0 = (Inr st, d0)" using i(2) regionMMIO by (simp add: state_of_def)
    let ?d = "snd (sd_LoadState (dev (rg_name ?r)) st d)"
    note l = load_saved [OF device(1) assms(5) Cons.prems(4) st] load_frame [OF device(1) Cons.prems(4), of st]
    have same: "rs ! i = ?r" by (rule reloaded_storage(3) [OF rel]) (simp_all add: regionMMIO)
    have "rs = rs[i := ?r]" using same by (metis list_update_id)
    moreover have "\<forall>n. n \<notin> pending rs0 previous \<longrightarrow> view n ?d = view n d0"
    proof (intro allI impI)
      fix n assume n: "n \<notin> pending rs0 previous"
      show "view n ?d = view n d0"
        using l Cons.prems(5) n regionMMIO by (cases "n = rg_name ?r") (auto simp: p pending_Cons)
    qed
    ultimately show ?thesis
      by (intro step [of "rs[i := ?r]" ?d])
        (use l same device regionMMIO in \<open>simp_all add: p Let_def\<close>)
  next
    case regionROM
    then show ?thesis using i(2) by (simp add: state_of_def)
  qed
qed

lemma savePrevious_states:
  assumes "attached dev names rs" "savable rs" "\<forall>r \<in> set rs. region_ok r" "inv d"
  shows "list_all (item_ok rs) items \<Longrightarrow> snd (savePrevious items rs d) = d \<and>
    (case fst (savePrevious items rs d) of
       Inl e \<Rightarrow> e = ErrPanic \<and> (\<exists>item \<in> set items. rg_kind (rs ! it_region item) = regionROM)
     | Inr previous \<Rightarrow> list_all (\<lambda>(i, st). i < length rs \<and> state_of (rs ! i) d st) previous \<and>
         map fst previous = map it_region items)"
proof (induction items)
  case (Cons item items)
  let ?i = "it_region item" and ?r = "rs ! it_region item"
  have i: "?i < length rs" using Cons.prems by (simp add: item_ok_def)
  then have mem: "?r \<in> set rs" by simp
  have ok: "region_ok ?r" using mem assms(3) by blast
  have IH: "snd (savePrevious items rs d) = d \<and>
    (case fst (savePrevious items rs d) of
       Inl e \<Rightarrow> e = ErrPanic \<and> (\<exists>item \<in> set items. rg_kind (rs ! it_region item) = regionROM)
     | Inr previous \<Rightarrow> list_all (\<lambda>(i, st). i < length rs \<and> state_of (rs ! i) d st) previous \<and>
         map fst previous = map it_region items)"
    using Cons by simp
  have step: ?case if "savePrevious (item # items) rs d =
      (case savePrevious items rs d of (Inl e, d) \<Rightarrow> (Inl e, d) | (Inr previous, d) \<Rightarrow> (Inr ((?i, st) # previous), d))"
      "state_of ?r d st" for st
    using IH that i by (cases "savePrevious items rs d"; cases "fst (savePrevious items rs d)") auto
  show ?case
  proof (cases "rg_kind ?r")
    case regionRAM
    show ?thesis by (rule step [of "rg_data ?r"]) (simp_all add: Let_def regionRAM state_of_def)
  next
    case regionSparseRAM
    then have "unat (rg_size ?r) \<le> 2 ^ 31" using assms(2) mem by (simp add: savable_def)
    then obtain st where "sparseSave (rg_size ?r) (rg_sparse ?r) = Inr st" using sparse_savable [OF ok regionSparseRAM] by blast
    then show ?thesis by (intro step [of st]) (simp_all add: Let_def regionSparseRAM state_of_def)
  next
    case regionMMIO
    then obtain device where device: "rg_name ?r \<in> names" "rg_device ?r = Some device" "dev_Stateful device = Some (dev (rg_name ?r))"
      using assms(1) mem unfolding attached_def by blast
    obtain st where "sd_SaveState (dev (rg_name ?r)) d = (Inr st, d)" using save [OF device(1) assms(4)] by blast
    then show ?thesis by (intro step [of st]) (simp_all add: Let_def regionMMIO device state_of_def)
  next
    case regionROM
    have "rg_device ?r = None" using ok regionROM by (simp add: region_ok_def storage_ok_def)
    then have "savePrevious (item # items) rs d = (Inl ErrPanic, d)" by (simp add: Let_def regionROM)
    then show ?thesis using regionROM by simp
  qed
qed simp

lemma applyItems_fails:
  assumes "list_all (\<lambda>(i, st). i < length rs0 \<and> state_of (rs0 ! i) d0 st) previous"
    and "inv d0" "attached dev names rs0" "regions_ok rs0" "savable rs0"
  shows "applyItems allow previous items rs d = (Inl e, rs', d') \<Longrightarrow>
    it_region ` set items \<subseteq> fst ` set previous \<Longrightarrow>
    list_all2 reloaded rs0 rs \<Longrightarrow> \<forall>j < length rs0. j \<notin> fst ` set previous \<longrightarrow> rs ! j = rs0 ! j \<Longrightarrow>
    inv d \<Longrightarrow> \<forall>n. n \<notin> pending rs0 previous \<longrightarrow> view n d = view n d0 \<Longrightarrow>
    rs' = rs0 \<and> inv d' \<and> (\<forall>n. view n d' = view n d0)"
proof (induction items arbitrary: rs d)
  case (Cons item items)
  let ?i = "it_region item"
  let ?r = "rs0 ! ?i"
  obtain st where st: "(?i, st) \<in> set previous" using Cons.prems(2) by auto
  then have i: "?i < length rs0" "state_of ?r d0 st" using assms(1) by (auto simp: list_all_iff)
  have len: "length rs = length rs0" using Cons.prems(3) by (simp add: list_all2_lengthD)
  have rel: "reloaded ?r (rs ! ?i)" using Cons.prems(3) i(1) by (simp add: list_all2_nthD)
  have kind: "rg_kind (rs ! ?i) = rg_kind ?r" by (rule reloaded_storage(4) [OF rel])
  have items: "it_region ` set items \<subseteq> fst ` set previous" using Cons.prems(2) by simp
  have put: "list_all2 reloaded rs0 (rs[?i := r]) \<and> (\<forall>j < length rs0. j \<notin> fst ` set previous \<longrightarrow> rs[?i := r] ! j = rs0 ! j)"
    if "reloaded ?r r" for r
    using Cons.prems(2-4) i(1) len that by (auto simp: list_all2_conv_all_nth nth_list_update)
  note undo = rollback_restores [OF assms(1) Cons.prems(3,4) _ assms(2) _ assms(3-5)]
  show ?case
  proof (cases "rg_kind ?r")
    case regionRAM
    then have "reloaded ?r ((rs ! ?i)\<lparr>rg_data := it_state item\<rparr>)"
      unfolding reloaded_storage(1) [OF rel regionRAM] by (auto simp: reloaded_def)
    then show ?thesis
      using Cons.IH [OF _ items, of "rs[?i := (rs ! ?i)\<lparr>rg_data := it_state item\<rparr>]" d] Cons.prems put
      by (simp add: Let_def kind regionRAM)
  next
    case regionSparseRAM
    then have "reloaded ?r ((rs ! ?i)\<lparr>rg_sparse := it_sparse item\<rparr>)"
      unfolding reloaded_storage(2) [OF rel regionSparseRAM] by (auto simp: reloaded_def)
    then show ?thesis
      using Cons.IH [OF _ items, of "rs[?i := (rs ! ?i)\<lparr>rg_sparse := it_sparse item\<rparr>]" d] Cons.prems put
      by (simp add: Let_def kind regionSparseRAM)
  next
    case regionMMIO
    obtain device where device: "rg_name ?r \<in> names" "rg_device ?r = Some device" "dev_Stateful device = Some (dev (rg_name ?r))"
      using assms(3) i(1) regionMMIO unfolding attached_def by (metis nth_mem)
    have same: "rs ! ?i = ?r" by (rule reloaded_storage(3) [OF rel]) (simp_all add: regionMMIO)
    obtain res d1 where l: "loadDevice allow (dev (rg_name ?r)) (it_state item) d = (res, d1)" by fastforce
    have d1: "inv d1 \<and> (\<forall>m. m \<noteq> rg_name ?r \<longrightarrow> view m d1 = view m d)"
      using load_frame [OF device(1) Cons.prems(5), of "it_state item"] l
        subset_frame [OF device(1) Cons.prems(5), of _ "it_state item"]
      by (auto simp: loadDevice_def split: option.splits if_splits)
    have "rg_name ?r \<in> pending rs0 previous" using st regionMMIO by (force simp: pending_def)
    then have views: "\<forall>n. n \<notin> pending rs0 previous \<longrightarrow> view n d1 = view n d0" using d1 Cons.prems(6) by metis
    show ?thesis
    proof (cases res)
      case (Inl x)
      then have "(rs', d') = rollback previous rs d1"
        using Cons.prems(1) by (simp add: Let_def same regionMMIO device l)
      then show ?thesis using undo [of d1] d1 views by (metis fst_conv snd_conv)
    next
      case (Inr u)
      then have "applyItems allow previous items rs d1 = (Inl e, rs', d')"
        using Cons.prems(1) by (simp add: Let_def same regionMMIO device l)
      from Cons.IH [OF this items Cons.prems(3,4) conjunct1 [OF d1] views] show ?thesis .
    qed
  next
    case regionROM
    then show ?thesis using i(2) by (simp add: state_of_def)
  qed
qed simp

lemma load_rolls_back:
  assumes "bus_ok b" "attached dev names (pb_regions b)" "savable (pb_regions b)" "inv d"
    and "loadState allow state b d = (Inl e, b', d')"
  shows "b' = b \<and> inv d' \<and> (\<forall>n. view n d' = view n d)"
proof (cases "parseState allow (pb_regions b) state")
  case None
  then show ?thesis using assms(4,5) by (simp add: loadState_def)
next
  case (Some items)
  have all: "\<forall>r \<in> set (pb_regions b). region_ok r" using bus_okD(1) [OF assms(1)] by (simp add: regions_ok_def)
  have ok: "list_all (item_ok (pb_regions b)) items" using parseState_ok [OF Some all] by blast
  obtain res d1 where p: "savePrevious items (pb_regions b) d = (res, d1)" by fastforce
  note s = savePrevious_states [OF assms(2,3) all assms(4) ok, unfolded p fst_conv snd_conv]
  show ?thesis
  proof (cases res)
    case (Inl x)
    then show ?thesis using assms(4,5) s by (simp add: loadState_def Some p)
  next
    case (Inr previous)
    obtain r rs d2 where a: "applyItems allow previous items (pb_regions b) d = (r, rs, d2)" by (metis prod_cases3)
    have r: "r = Inl e" "b' = b\<lparr>pb_regions := rs\<rparr>" "d' = d2"
      using assms(5) s a by (auto simp: loadState_def Some p Inr)
    have "map fst previous = map it_region items" using s Inr by simp
    from arg_cong [OF this, of set] have "it_region ` set items \<subseteq> fst ` set previous" by simp
    moreover have "list_all2 reloaded (pb_regions b) (pb_regions b)" by (simp add: list_all2_refl)
    ultimately have "rs = pb_regions b \<and> inv d2 \<and> (\<forall>n. view n d2 = view n d)"
      using applyItems_fails [OF _ assms(4,2) bus_okD(1) [OF assms(1)] assms(3) a [unfolded r(1)]] s Inr assms(4) by simp
    then show ?thesis using r by simp
  qed
qed

lemma saveComponents_states:
  "\<forall>r \<in> set rs. rg_kind r \<noteq> regionROM \<longrightarrow> state_of r d (g r) \<Longrightarrow> attached dev names rs \<Longrightarrow>
     saveComponents rs d = (Inr (map (\<lambda>r. (r, g r)) (filter (\<lambda>r. rg_kind r \<noteq> regionROM) rs)), d)"
proof (induction rs)
  case (Cons r rs)
  have IH: "saveComponents rs d = (Inr (map (\<lambda>r. (r, g r)) (filter (\<lambda>r. rg_kind r \<noteq> regionROM) rs)), d)"
    using Cons by (simp add: attached_def)
  have "regionState r d = (Inr (if rg_kind r = regionROM then None else Some (g r)), d)"
  proof (cases "rg_kind r")
    case regionMMIO
    then obtain device where "rg_device r = Some device" "dev_Stateful device = Some (dev (rg_name r))"
      using Cons.prems(2) by (auto simp: attached_def)
    then show ?thesis using Cons.prems(1) regionMMIO by (simp add: regionState_def state_of_def)
  qed (use Cons.prems(1) in \<open>simp_all add: regionState_def state_of_def\<close>)
  then show ?case using IH by simp
qed simp

definition item_of :: "('d, 'e) busRegion list \<Rightarrow> (nat \<Rightarrow> u8 list) \<Rightarrow> nat \<Rightarrow> restored" where
  "item_of rs f i = \<lparr>it_region = i, it_state = f i,
     it_sparse = (if rg_kind (rs ! i) = regionSparseRAM then rg_sparse (rs ! i) else newSparseRAM)\<rparr>"

lemma restored_item:
  assumes "regions_ok rs" "attached dev names rs" "list_all2 same_shape rs rs'" "regions_ok rs'"
    "i < length rs" "state_of (rs ! i) d (f i)"
  shows "restoredItem i (rs' ! i) (f i) = Some (item_of rs f i)"
proof -
  have shape: "same_shape (rs ! i) (rs' ! i)" using assms(3,5) by (simp add: list_all2_nthD)
  have len: "i < length rs'" using assms(3,5) by (simp add: list_all2_lengthD)
  have ok: "region_ok (rs ! i)" "region_ok (rs' ! i)" using assms(1,4,5) len by (simp_all add: regions_ok_def)
  show ?thesis
  proof (cases "rg_kind (rs ! i)")
    case regionRAM
    then have "length (f i) = unat (rg_size (rs ! i))" using assms(6) plain_length [OF ok(1)] by (simp add: state_of_def)
    moreover have "length (rg_data (rs' ! i)) = unat (rg_size (rs' ! i))"
      using plain_length [OF ok(2)] shape regionRAM by (simp add: same_shape_def)
    ultimately show ?thesis using shape regionRAM by (simp add: restoredItem_def same_shape_def item_of_def)
  next
    case regionSparseRAM
    have "sparseSave (rg_size (rs ! i)) (rg_sparse (rs ! i)) = Inr (f i)" using assms(6) regionSparseRAM by (simp add: state_of_def)
    then have "decodeSparseRAMState (rg_size (rs ! i)) (f i) = Inr (rg_sparse (rs ! i))"
      using sparse_save_load sparse_storage [OF ok(1) regionSparseRAM] by blast
    then show ?thesis using shape regionSparseRAM by (simp add: restoredItem_def same_shape_def item_of_def)
  next
    case regionMMIO
    then obtain device where "rg_device (rs ! i) = Some device" "dev_Stateful device = Some (dev (rg_name (rs ! i)))"
      using assms(2,5) unfolding attached_def by (metis nth_mem)
    then show ?thesis using shape regionMMIO by (simp add: restoredItem_def same_shape_def item_of_def)
  next
    case regionROM
    then show ?thesis using assms(6) by (simp add: state_of_def)
  qed
qed

lemma parse_all_written:
  assumes "regions_ok rs" "attached dev names rs" "list_all2 same_shape rs rs'" "regions_ok rs'"
  shows "\<forall>i \<in> set is. i < length rs \<and> state_of (rs ! i) d (f i) \<and> length (f i) < 2 ^ 32 \<Longrightarrow> distinct is \<Longrightarrow>
    \<forall>i \<in> set is. rg_name (rs ! i) \<notin> set seen \<Longrightarrow>
    parseComponents (length is) rs' seen (concat (map (\<lambda>i. componentBytes (rs ! i, f i)) is)) = Some (map (item_of rs f) is, [])"
proof (induction "is" arbitrary: seen)
  case (Cons i "is")
  have i: "i < length rs" "state_of (rs ! i) d (f i)" "length (f i) < 2 ^ 32" using Cons.prems(1) by auto
  have len: "i < length rs'" using assms(3) i(1) by (simp add: list_all2_lengthD)
  have shape: "same_shape (rs ! i) (rs' ! i)" using assms(3) i(1) by (simp add: list_all2_nthD)
  have first: "parseComponent rs' seen (componentBytes (rs ! i, f i) @ rest) = Some (item_of rs f i, rg_name (rs ! i), rest)" for rest
    by (rule parse_written [OF assms(4) len shape _ i(3) restored_item [OF assms i(1), of d f, OF i(2)]]) (use Cons.prems(3) in simp)
  have "rg_name (rs ! j) \<noteq> rg_name (rs ! i)" if "j \<in> set is" for j
  proof -
    have "distinct (map rg_name rs)" using assms(1) by (simp add: regions_ok_def)
    moreover have "j < length rs" "j \<noteq> i" using Cons.prems(1,2) that by auto
    ultimately show ?thesis using i(1) nth_eq_iff_index_eq [of "map rg_name rs" j i] by simp
  qed
  then have fresh: "\<forall>j \<in> set is. rg_name (rs ! j) \<notin> set (rg_name (rs ! i) # seen)" using Cons.prems(3) by auto
  have "parseComponents (length is) rs' (rg_name (rs ! i) # seen) (concat (map (\<lambda>i. componentBytes (rs ! i, f i)) is)) =
      Some (map (item_of rs f) is, [])"
    by (rule Cons.IH [OF _ _ fresh]) (use Cons.prems in simp_all)
  then show ?case by (simp add: first)
qed simp

lemma applyItems_loads:
  assumes "attached dev names rs" "list_all2 same_shape rs rs0" "inv d"
  shows "\<forall>i \<in> set is. i < length rs \<and> state_of (rs ! i) d (f i) \<Longrightarrow> distinct is \<Longrightarrow> inv e \<Longrightarrow> list_all2 same_shape rs rs' \<Longrightarrow>
    \<exists>e'. applyItems False previous (map (item_of rs f) is) rs' e =
        (Inr (), fold (\<lambda>i rs'. rs'[i := carried (rs ! i) (rs' ! i)]) is rs', e') \<and> inv e' \<and>
      (\<forall>n. view n e' = (if n \<in> (\<lambda>i. rg_name (rs ! i)) ` {i \<in> set is. rg_kind (rs ! i) = regionMMIO} then view n d else view n e))"
proof (induction "is" arbitrary: rs' e)
  case (Cons i "is")
  let ?r = "rs ! i" and ?s = "rs' ! i"
  have i: "i < length rs" "state_of ?r d (f i)" using Cons.prems(1) by auto
  have shape: "same_shape ?r ?s" using Cons.prems(4) i(1) by (simp add: list_all2_nthD)
  have len: "i < length rs'" using Cons.prems(4) i(1) by (simp add: list_all2_lengthD)
  have kind: "rg_kind ?s = rg_kind ?r" "rg_device ?s = rg_device ?r" using shape by (simp_all add: same_shape_def)
  have rest: "\<forall>i \<in> set is. i < length rs \<and> state_of (rs ! i) d (f i)" "distinct is" using Cons.prems(1,2) by auto
  have item: "it_region (item_of rs f i) = i" "it_state (item_of rs f i) = f i" by (simp_all add: item_of_def)
  have put: "list_all2 same_shape rs (rs'[i := carried ?r ?s])"
    using Cons.prems(4) i(1) shape carried_shape [OF shape] len
    by (auto simp: list_all2_conv_all_nth nth_list_update)
  have step: ?case if s: "applyItems False previous (map (item_of rs f) (i # is)) rs' e =
        applyItems False previous (map (item_of rs f) is) (rs'[i := carried ?r ?s]) e1"
      "inv e1" "\<forall>n. view n e1 = (if n = rg_name ?r \<and> rg_kind ?r = regionMMIO then view n d else view n e)" for e1
  proof -
    obtain e' where e': "applyItems False previous (map (item_of rs f) is) (rs'[i := carried ?r ?s]) e1 =
        (Inr (), fold (\<lambda>i rs'. rs'[i := carried (rs ! i) (rs' ! i)]) is (rs'[i := carried ?r ?s]), e')" "inv e'"
      "\<forall>n. view n e' = (if n \<in> (\<lambda>i. rg_name (rs ! i)) ` {i \<in> set is. rg_kind (rs ! i) = regionMMIO} then view n d else view n e1)"
      using Cons.IH [OF rest s(2) put] by blast
    have "view n e' = (if n \<in> (\<lambda>i. rg_name (rs ! i)) ` {j \<in> set (i # is). rg_kind (rs ! j) = regionMMIO} then view n d else view n e)" for n
      using e'(3) s(3) by auto
    then show ?thesis using e'(1,2) s(1) by auto
  qed
  show ?case
  proof (cases "rg_kind ?r")
    case regionRAM
    then have "f i = rg_data ?r" using i(2) by (simp add: state_of_def)
    then show ?thesis
      by (intro step [of e]) (use Cons.prems(3) regionRAM in \<open>simp_all add: item kind Let_def carried_def\<close>)
  next
    case regionSparseRAM
    then have "it_sparse (item_of rs f i) = rg_sparse ?r" by (simp add: item_of_def)
    then show ?thesis
      by (intro step [of e]) (use Cons.prems(3) regionSparseRAM in \<open>simp_all add: item kind Let_def carried_def\<close>)
  next
    case regionMMIO
    have "?r \<in> set rs" using i(1) by simp
    then obtain device where device: "rg_name ?r \<in> names" "rg_device ?r = Some device" "dev_Stateful device = Some (dev (rg_name ?r))"
      using assms(1) regionMMIO unfolding attached_def by blast
    have st: "sd_SaveState (dev (rg_name ?r)) d = (Inr (f i), d)" using i(2) regionMMIO by (simp add: state_of_def)
    obtain res e1 where l: "sd_LoadState (dev (rg_name ?r)) (f i) e = (res, e1)" by fastforce
    have e1: "res = Inr ()" "view (rg_name ?r) e1 = view (rg_name ?r) d" "inv e1" "\<forall>m. m \<noteq> rg_name ?r \<longrightarrow> view m e1 = view m e"
      using load_saved [OF device(1) assms(3) Cons.prems(3) st] load_frame [OF device(1) Cons.prems(3), of "f i"]
      unfolding l by simp_all
    moreover have "carried ?r ?s = ?s" using regionMMIO by (simp add: carried_def)
    ultimately show ?thesis
      by (intro step [of e1]) (use l regionMMIO device in \<open>simp_all add: item kind Let_def loadDevice_def\<close>)
  next
    case regionROM
    then show ?thesis using i(2) by (simp add: state_of_def)
  qed
qed (use assms in simp)

lemma save_and_load:
  assumes b: "bus_ok b" "attached dev names (pb_regions b)" "savable (pb_regions b)" "inv d"
    and b': "bus_ok b'" "list_all2 same_shape (pb_regions b) (pb_regions b')" "inv d'"
  shows "\<exists>st e. Bus_SaveState b d = (Inr st, d) \<and>
    Bus_LoadState st b' d' = (Inr (), b'\<lparr>pb_regions := map2 carried (pb_regions b) (pb_regions b')\<rparr>, e) \<and> inv e \<and>
    (\<forall>n. view n e = (if n \<in> rg_name ` {r \<in> set (pb_regions b). rg_kind r = regionMMIO} then view n d else view n d'))"
proof -
  define rs rs' where "rs = pb_regions b" and "rs' = pb_regions b'"
  have ok: "regions_ok rs" "regions_ok rs'" using bus_okD(1) [OF b(1)] bus_okD(1) [OF b'(1)] by (simp_all add: rs_def rs'_def)
  have all: "\<forall>r \<in> set rs. region_ok r" "\<forall>r \<in> set rs'. region_ok r" using ok by (simp_all add: regions_ok_def)
  have shapes: "list_all2 same_shape rs rs'" using b'(2) by (simp add: rs_def rs'_def)
  have att: "attached dev names rs" "savable rs" using b by (simp_all add: rs_def)
  note rs = all(1) att(1,2)
  have len: "length rs' = length rs" using shapes by (simp add: list_all2_lengthD)
  define P where "P = (\<lambda>r :: ('d, 'e) busRegion. rg_kind r \<noteq> regionROM)"
  define "is" where "is = filter (P \<circ> (!) rs) [0..<length rs]"
  have "\<forall>r \<in> {r \<in> set rs. P r}. \<exists>st. state_of r d st \<and> length st < 2 ^ 32"
    using state_exists [OF _ _ _ _ b(4)] rs by (fastforce simp: P_def attached_def savable_def)
  then obtain g where g: "\<forall>r \<in> {r \<in> set rs. P r}. state_of r d (g r) \<and> length (g r) < 2 ^ 32"
    by (rule bchoice [THEN exE])
  define f where "f = (\<lambda>i. g (rs ! i))"
  have regions: "filter P rs = map ((!) rs) is"
    by (simp add: is_def filter_map [symmetric] map_nth)
  have is_: "\<forall>i \<in> set is. i < length rs \<and> state_of (rs ! i) d (f i) \<and> length (f i) < 2 ^ 32" "distinct is"
    using g by (auto simp: is_def f_def)
  have count_le: "length is < 2 ^ 32" using att(2) length_filter_le [of "P \<circ> (!) rs" "[0..<length rs]"]
    by (simp add: is_def savable_def)
  have "saveComponents rs d = (Inr (map (\<lambda>r. (r, g r)) (filter P rs)), d)"
    unfolding P_def by (rule saveComponents_states) (use g att in \<open>auto simp: P_def\<close>)
  also have "map (\<lambda>r. (r, g r)) (filter P rs) = map (\<lambda>i. (rs ! i, f i)) is"
    by (simp add: regions f_def)
  finally have components: "saveComponents rs d = (Inr (map (\<lambda>i. (rs ! i, f i)) is), d)" .
  define st where "st = busMagic @ PutUint32 1 @ PutUint32 (of_nat (length is)) @ concat (map (\<lambda>i. componentBytes (rs ! i, f i)) is)"
  have save: "Bus_SaveState b d = (Inr st, d)"
    using is_(1) by (auto simp: Bus_SaveState_def rs_def [symmetric] components list_ex_iff st_def o_def)
  have parsed: "parseComponents (length is) rs' [] (concat (map (\<lambda>i. componentBytes (rs ! i, f i)) is)) = Some (map (item_of rs f) is, [])"
    by (rule parse_all_written [OF ok(1) att(1) shapes ok(2) is_(1,2)]) simp
  have "map rg_kind rs' = map rg_kind rs"
    using shapes by (intro nth_equalityI) (auto simp: same_shape_def list_all2_conv_all_nth)
  from arg_cong [OF this, of "\<lambda>ks. length (filter (\<lambda>k. k \<noteq> regionROM) ks)"]
  have "statefulCount rs' = length (filter P rs)"
    by (simp add: statefulCount_def filter_map o_def P_def)
  then have n: "statefulCount rs' = length is" by (simp add: regions)
  have fits: "unat (of_nat (length is) :: u32) = length is" using count_le by (rule unat_of_nat_u32)
  have items: "parseState False rs' st = Some (map (item_of rs f) is)"
    by (simp add: parseState_def st_def length_busMagic Let_def fits n parsed)
  have item_oks: "list_all (item_ok rs') (map (item_of rs f) is)"
    using parseState_ok [OF items all(2)] by blast
  have att': "attached dev names rs'"
    unfolding attached_def
  proof (intro ballI impI)
    fix r assume r: "r \<in> set rs'" "rg_kind r = regionMMIO"
    then obtain i where i: "i < length rs'" "r = rs' ! i" by (auto simp: in_set_conv_nth)
    then have "same_shape (rs ! i) r" "rs ! i \<in> set rs" using shapes len by (simp_all add: list_all2_nthD)
    then show "rg_name r \<in> names \<and> (\<exists>device. rg_device r = Some device \<and> dev_Stateful device = Some (dev (rg_name r)))"
      using att(1) r(2) by (auto simp: attached_def same_shape_def)
  qed
  have "\<forall>r \<in> set rs'. rg_kind r = regionSparseRAM \<longrightarrow> unat (rg_size r) \<le> 2 ^ 31"
  proof (intro ballI impI)
    fix r assume r: "r \<in> set rs'" "rg_kind r = regionSparseRAM"
    then obtain i where i: "i < length rs'" "r = rs' ! i" by (auto simp: in_set_conv_nth)
    then have "same_shape (rs ! i) r" "rs ! i \<in> set rs" using shapes len by (simp_all add: list_all2_nthD)
    then show "unat (rg_size r) \<le> 2 ^ 31" using att(2) r(2) by (auto simp: savable_def same_shape_def)
  qed
  then have "savable rs'" using att(2) len by (simp add: savable_def)
  note p = savePrevious_states [OF att' this all(2) b'(3) item_oks]
  have noROM: "rg_kind (rs' ! i) \<noteq> regionROM" if "i \<in> set is" for i
    using that shapes by (auto simp: is_def P_def list_all2_conv_all_nth same_shape_def)
  have "\<not> (\<exists>item \<in> set (map (item_of rs f) is). rg_kind (rs' ! it_region item) = regionROM)"
    using noROM by (auto simp: item_of_def)
  then obtain previous where previous: "savePrevious (map (item_of rs f) is) rs' d' = (Inr previous, d')"
    using p by (cases "savePrevious (map (item_of rs f) is) rs' d'"; cases "fst (savePrevious (map (item_of rs f) is) rs' d')") auto
  have "\<forall>i \<in> set is. i < length rs \<and> state_of (rs ! i) d (f i)" using is_(1) by blast
  from applyItems_loads [OF att(1) shapes b(4) this is_(2) b'(3) shapes, of previous]
  obtain e where e: "applyItems False previous (map (item_of rs f) is) rs' d' =
        (Inr (), fold (\<lambda>i rs'. rs'[i := carried (rs ! i) (rs' ! i)]) is rs', e)" "inv e"
      "\<forall>n. view n e = (if n \<in> (\<lambda>i. rg_name (rs ! i)) ` {i \<in> set is. rg_kind (rs ! i) = regionMMIO} then view n d else view n d')"
    by blast
  have "fold (\<lambda>i rs'. rs'[i := carried (rs ! i) (rs' ! i)]) is rs' = map2 carried rs rs'"
  proof (rule nth_equalityI)
    fix j assume "j < length (fold (\<lambda>i rs'. rs'[i := carried (rs ! i) (rs' ! i)]) is rs')"
    then have j: "j < length rs'" "j < length rs" using len length_fold_carried [of "\<lambda>i. carried (rs ! i)" "is" rs'] by simp_all
    have "carried (rs ! j) (rs' ! j) = rs' ! j" if "j \<notin> set is"
      using that j by (auto simp: is_def P_def carried_def)
    then show "fold (\<lambda>i rs'. rs'[i := carried (rs ! i) (rs' ! i)]) is rs' ! j = map2 carried rs rs' ! j"
      using fold_carried [OF is_(2) _ j(1), of "\<lambda>i. carried (rs ! i)"] is_(1) j len by auto
  qed (use length_fold_carried [of "\<lambda>i. carried (rs ! i)" "is" rs'] len in simp)
  moreover have "(\<lambda>i. rg_name (rs ! i)) ` {i \<in> set is. rg_kind (rs ! i) = regionMMIO} = rg_name ` {r \<in> set rs. rg_kind r = regionMMIO}"
    by (auto simp: is_def P_def in_set_conv_nth)
  ultimately have "Bus_LoadState st b' d' = (Inr (), b'\<lparr>pb_regions := map2 carried rs rs'\<rparr>, e)"
      "\<forall>n. view n e = (if n \<in> rg_name ` {r \<in> set rs. rg_kind r = regionMMIO} then view n d else view n d')"
    using e by (simp_all add: Bus_LoadState_def loadState_def rs'_def [symmetric] items previous)
  then show ?thesis using save e(2) by (auto simp: rs_def rs'_def)
qed

end

subsection \<open>The memory after a restore\<close>

lemma carried_bus:
  fixes b b' :: "('d, 'e) Bus"
  assumes b: "bus_ok b" and b': "bus_ok b'" and shapes: "list_all2 same_shape (pb_regions b) (pb_regions b')"
    and c: "c = b'\<lparr>pb_regions := map2 carried (pb_regions b) (pb_regions b')\<rparr>"
  shows "bus_ok c" "ram_memory c = ram_memory b" "ram_memory b x = None \<Longrightarrow> bus_memory c x = bus_memory b' x"
proof -
  let ?rs = "pb_regions b" and ?rs' = "pb_regions b'" and ?cs = "map2 carried (pb_regions b) (pb_regions b')"
  have len: "length ?rs' = length ?rs" using shapes by (simp add: list_all2_lengthD)
  have nth: "?cs ! i = carried (?rs ! i) (?rs' ! i)" if "i < length ?rs" for i using that len by simp
  have shape: "same_shape (?rs ! i) (?rs' ! i)" if "i < length ?rs" for i using shapes that by (simp add: list_all2_nthD)
  have cs: "list_all2 same_shape ?rs ?cs"
    using nth shape carried_shape len by (auto simp: list_all2_conv_all_nth)
  have "\<forall>r \<in> set ?cs. region_ok r"
    using carried_ok [OF shape] bus_okD(2) [OF b] bus_okD(2) [OF b'] len by (auto simp: in_set_conv_nth)
  from regions_ok_shapes [OF bus_okD(1) [OF b] cs this] show "bus_ok c"
    unfolding c using bus_ok_regions [OF b'] len by simp
  note idx = same_shapes_index(1) [OF shapes] same_shapes_index(1) [OF cs]
  have kinds: "rg_kind (?cs ! i) = rg_kind (?rs ! i)" "rg_kind (?rs' ! i) = rg_kind (?rs ! i)"
      "rg_permissions (?cs ! i) = rg_permissions (?rs ! i)" "rg_address (?cs ! i) = rg_address (?rs ! i)"
    if "i < length ?rs" for i
    using shape [OF that] carried_shape [OF shape [OF that]] nth [OF that] by (simp_all add: same_shape_def)
  show "ram_memory c = ram_memory b"
  proof
    fix x
    show "ram_memory c x = ram_memory b x"
    proof (cases "region_index ?rs x")
      case (Some i)
      then have i: "i < length ?rs" using region_index_Some [OF bus_okD(1) [OF b]] by simp
      have "rg_kind (?rs ! i) = regionRAM \<or> rg_kind (?rs ! i) = regionSparseRAM \<Longrightarrow> byteOf (?cs ! i) = byteOf (?rs ! i)"
        using carried_bytes(1) [OF shape [OF i]] nth [OF i] by simp
      then show ?thesis using Some kinds [OF i] idx
        by (cases "rg_kind (?rs ! i)") (simp_all add: c ram_memory_def bus_memory_def Let_def)
    qed (simp add: c ram_memory_def idx)
  qed
  assume none: "ram_memory b x = None"
  show "bus_memory c x = bus_memory b' x"
  proof (cases "region_index ?rs x")
    case (Some i)
    then have i: "i < length ?rs" using region_index_Some [OF bus_okD(1) [OF b]] by simp
    have "rg_kind (?rs ! i) = regionROM \<or> rg_kind (?rs ! i) = regionMMIO"
      using none Some by (cases "rg_kind (?rs ! i)") (simp_all add: ram_memory_def bus_memory_def Let_def)
    then show ?thesis
    proof
      assume "rg_kind (?rs ! i) = regionROM"
      then have "?cs ! i = ?rs' ! i" using carried_bytes(2) [OF shape [OF i]] nth [OF i] by simp
      then show ?thesis using Some idx by (simp add: c bus_memory_def Let_def)
    qed (use Some idx kinds [OF i] in \<open>simp add: c bus_memory_def Let_def\<close>)
  qed (simp add: c bus_memory_def idx)
qed

end
