(* ===== verification/System_Registers.thy ===== *)
theory System_Registers
  imports System_Bus
begin

text \<open>
  The register devices that board profiles place on the physical bus, src/system/: status wires,
  read-only and latched registers, register windows, sparse word files, indexed halfword banks and
  mixed-width registers.  Each is a record with the constructor and the methods of its file.  A
  method that fails answers the error and leaves the device as it was, unless its definition
  answers the device next to the result.  The locale \<open>stored_device\<close> is the interface of their
  saved states.
\<close>

datatype deviceError =
    ErrReadOnlyRegisterMMIO | ErrLatchedRegisterMMIO | ErrLatchedRegisterWindowMMIO | ErrSparseWordRegistersMMIO
  | ErrIndexedHalfwordRegistersMMIO | ErrMixedWidthLatchedRegisterMMIO | ErrQualcommVicMMIO
  | ErrDeviceConfig | ErrDeviceState | ErrInterruptSource | ErrInterruptLine cpu_error

definition widthValue :: "Width \<Rightarrow> u32" where "widthValue w = ucast w"

text \<open>The mask of a width below 32 bits.\<close>

definition widthMask32 :: "Width \<Rightarrow> u32" where
  "widthMask32 w = push_bit (unat w * 8) 1 - 1"

subsection \<open>Status wires\<close>

record StatusSignal =
  sig_value :: u32

definition NewStatusSignal :: StatusSignal where "NewStatusSignal = \<lparr>sig_value = 0\<rparr>"

definition Signal_Set :: "u32 \<Rightarrow> StatusSignal \<Rightarrow> StatusSignal" where
  "Signal_Set v s = s\<lparr>sig_value := v\<rparr>"

definition Signal_Clear :: "u32 \<Rightarrow> StatusSignal \<Rightarrow> StatusSignal" where
  "Signal_Clear m s = s\<lparr>sig_value := sig_value s AND NOT m\<rparr>"

definition Signal_Value :: "StatusSignal \<Rightarrow> u32" where "Signal_Value s = sig_value s"

subsection \<open>Read-only registers\<close>

record ReadOnlyRegister =
  ror_width :: Width
  ror_value :: u32

definition NewReadOnlyRegister :: "Width \<Rightarrow> u32 \<Rightarrow> deviceError + ReadOnlyRegister" where
  "NewReadOnlyRegister w v =
     (if \<not> Width_valid w then Inl ErrReadOnlyRegisterMMIO
      else if exceedsWidth w v then Inl ErrReadOnlyRegisterMMIO
      else Inr \<lparr>ror_width = w, ror_value = v\<rparr>)"

definition ReadOnly_Read :: "u32 \<Rightarrow> Width \<Rightarrow> ReadOnlyRegister \<Rightarrow> deviceError + u32" where
  "ReadOnly_Read offset w r =
     (if offset \<noteq> 0 \<or> w \<noteq> ror_width r then Inl ErrReadOnlyRegisterMMIO else Inr (ror_value r))"

definition ReadOnly_Write :: "u32 \<Rightarrow> Width \<Rightarrow> u32 \<Rightarrow> ReadOnlyRegister \<Rightarrow> deviceError + ReadOnlyRegister" where
  "ReadOnly_Write offset w v r = Inl ErrReadOnlyRegisterMMIO"

definition ReadOnly_SaveState :: "ReadOnlyRegister \<Rightarrow> u8 list" where
  "ReadOnly_SaveState r = [0x52, 0x52, 0x45, 0x47] @ PutUint32 2 @ PutUint32 (widthValue (ror_width r)) @ PutUint32 (ror_value r)"

definition ReadOnly_LoadState :: "u8 list \<Rightarrow> ReadOnlyRegister \<Rightarrow> deviceError + ReadOnlyRegister" where
  "ReadOnly_LoadState st r =
     (if length st \<noteq> 16 \<or> take 4 st \<noteq> [0x52, 0x52, 0x45, 0x47] \<or> Uint32 (slice st 4 4) \<noteq> 2 \<or>
         ucast (Uint32 (slice st 8 4)) \<noteq> ror_width r \<or> Uint32 (slice st 12 4) \<noteq> ror_value r
      then Inl ErrDeviceState else Inr r)"

subsection \<open>Register windows\<close>

record LatchedRegisterWindow =
  lrw_width :: Width
  lrw_data :: "u8 list"

definition NewLatchedRegisterWindow :: "u32 \<Rightarrow> Width \<Rightarrow> deviceError + LatchedRegisterWindow" where
  "NewLatchedRegisterWindow sz w =
     (if \<not> Width_valid w \<or> sz = 0 \<or> sz mod widthValue w \<noteq> 0 then Inl ErrDeviceConfig
      else Inr \<lparr>lrw_width = w, lrw_data = replicate (unat sz) 0\<rparr>)"

definition Window_Reset :: "LatchedRegisterWindow \<Rightarrow> LatchedRegisterWindow" where
  "Window_Reset d = d\<lparr>lrw_data := replicate (length (lrw_data d)) 0\<rparr>"

definition Window_validAccess :: "u32 \<Rightarrow> Width \<Rightarrow> LatchedRegisterWindow \<Rightarrow> bool" where
  "Window_validAccess offset w d \<longleftrightarrow> w = lrw_width d \<and> offset mod widthValue (lrw_width d) = 0 \<and>
     unat offset + unat w \<le> length (lrw_data d)"

definition Window_Read :: "u32 \<Rightarrow> Width \<Rightarrow> LatchedRegisterWindow \<Rightarrow> deviceError + u32" where
  "Window_Read offset w d =
     (if \<not> Window_validAccess offset w d then Inl ErrLatchedRegisterWindowMMIO
      else
        let start = unat offset in
        if lrw_width d = Width8 then Inr (ucast (lrw_data d ! start))
        else if lrw_width d = Width16 then Inr (ucast (Uint16 (slice (lrw_data d) start 2)))
        else Inr (Uint32 (slice (lrw_data d) start 4)))"

definition Window_Write :: "u32 \<Rightarrow> Width \<Rightarrow> u32 \<Rightarrow> LatchedRegisterWindow \<Rightarrow> deviceError + LatchedRegisterWindow" where
  "Window_Write offset w v d =
     (if \<not> Window_validAccess offset w d \<or> exceedsWidth (lrw_width d) v then Inl ErrLatchedRegisterWindowMMIO
      else
        let start = unat offset in
        if lrw_width d = Width8 then Inr (d\<lparr>lrw_data := (lrw_data d)[start := ucast v]\<rparr>)
        else if lrw_width d = Width16 then Inr (d\<lparr>lrw_data := overwrite (lrw_data d) start (PutUint16 (ucast v))\<rparr>)
        else Inr (d\<lparr>lrw_data := overwrite (lrw_data d) start (PutUint32 v)\<rparr>))"

definition Window_SetBits :: "u32 \<Rightarrow> u32 \<Rightarrow> bool \<Rightarrow> LatchedRegisterWindow \<Rightarrow> deviceError + LatchedRegisterWindow" where
  "Window_SetBits offset m asserted d =
     (if \<not> Window_validAccess offset (lrw_width d) d \<or> m = 0 \<or> exceedsWidth (lrw_width d) m
      then Inl ErrLatchedRegisterWindowMMIO
      else case Window_Read offset (lrw_width d) d of
        Inl e \<Rightarrow> Inl e
      | Inr v \<Rightarrow> Window_Write offset (lrw_width d) (if asserted then v OR m else v AND NOT m) d)"

definition Window_SaveState :: "LatchedRegisterWindow \<Rightarrow> u8 list" where
  "Window_SaveState d = [0x4C, 0x52, 0x57, 0x4E] @ PutUint32 1 @ [lrw_width d, 0, 0, 0] @
     PutUint32 (of_nat (length (lrw_data d))) @ lrw_data d"

definition Window_LoadState :: "u8 list \<Rightarrow> LatchedRegisterWindow \<Rightarrow> deviceError + LatchedRegisterWindow" where
  "Window_LoadState st d =
     (if length st < 16 \<or> take 4 st \<noteq> [0x4C, 0x52, 0x57, 0x4E] \<or> Uint32 (slice st 4 4) \<noteq> 1 \<or> st ! 8 \<noteq> lrw_width d \<or>
         st ! 9 \<noteq> 0 \<or> st ! 10 \<noteq> 0 \<or> st ! 11 \<noteq> 0 \<or> Uint32 (slice st 12 4) \<noteq> of_nat (length (lrw_data d)) \<or>
         length st \<noteq> 16 + length (lrw_data d)
      then Inl ErrDeviceState else Inr (d\<lparr>lrw_data := drop 16 st\<rparr>))"

subsection \<open>Mixed-width registers\<close>

record MixedWidthLatchedRegister =
  mwl_widths :: "Width list"
  mwl_widthMask :: u8
  mwl_allowSubwordOffsets :: bool
  mwl_resetValue :: u32
  mwl_value :: u32

definition newMixedWidthLatchedRegister :: "Width list \<Rightarrow> u32 \<Rightarrow> bool \<Rightarrow> deviceError + MixedWidthLatchedRegister" where
  "newMixedWidthLatchedRegister widths resetValue subwords =
     (let normalized = sort widths in
      if length widths < 2 then Inl ErrDeviceConfig
      else if list_ex (\<lambda>w. \<not> Width_valid w) normalized \<or> \<not> distinct normalized then Inl ErrDeviceConfig
      else if exceedsWidth (List.last normalized) resetValue then Inl ErrDeviceConfig
      else Inr \<lparr>mwl_widths = normalized, mwl_widthMask = fold (\<lambda>w m. m OR push_bit (unat w) 1) normalized 0,
                 mwl_allowSubwordOffsets = subwords, mwl_resetValue = resetValue, mwl_value = resetValue\<rparr>)"

definition NewMixedWidthLatchedRegister :: "Width list \<Rightarrow> u32 \<Rightarrow> deviceError + MixedWidthLatchedRegister" where
  "NewMixedWidthLatchedRegister widths resetValue = newMixedWidthLatchedRegister widths resetValue False"

definition NewMixedWidthLatchedRegisterWithSubwordOffsets :: "Width list \<Rightarrow> u32 \<Rightarrow> deviceError + MixedWidthLatchedRegister" where
  "NewMixedWidthLatchedRegisterWithSubwordOffsets widths resetValue = newMixedWidthLatchedRegister widths resetValue True"

definition Mixed_Reset :: "MixedWidthLatchedRegister \<Rightarrow> MixedWidthLatchedRegister" where
  "Mixed_Reset d = d\<lparr>mwl_value := mwl_resetValue d\<rparr>"

definition Mixed_supports :: "Width \<Rightarrow> MixedWidthLatchedRegister \<Rightarrow> bool" where
  "Mixed_supports w d \<longleftrightarrow> Width_valid w \<and> mwl_widthMask d AND push_bit (unat w) 1 \<noteq> 0"

definition Mixed_validAccess :: "u32 \<Rightarrow> Width \<Rightarrow> MixedWidthLatchedRegister \<Rightarrow> bool" where
  "Mixed_validAccess offset w d \<longleftrightarrow>
     (if \<not> Mixed_supports w d \<or> offset mod widthValue w \<noteq> 0 then False
      else if \<not> mwl_allowSubwordOffsets d then offset = 0
      else unat offset + unat w \<le> unat (List.last (mwl_widths d)))"

definition Mixed_Read :: "u32 \<Rightarrow> Width \<Rightarrow> MixedWidthLatchedRegister \<Rightarrow> deviceError + u32" where
  "Mixed_Read offset w d =
     (if \<not> Mixed_validAccess offset w d then Inl ErrMixedWidthLatchedRegisterMMIO
      else if w = Width32 then Inr (mwl_value d)
      else Inr (drop_bit (unat (offset * 8)) (mwl_value d) AND widthMask32 w))"

definition Mixed_Write :: "u32 \<Rightarrow> Width \<Rightarrow> u32 \<Rightarrow> MixedWidthLatchedRegister \<Rightarrow> deviceError + MixedWidthLatchedRegister" where
  "Mixed_Write offset w v d =
     (if \<not> Mixed_validAccess offset w d \<or> exceedsWidth w v then Inl ErrMixedWidthLatchedRegisterMMIO
      else if w = Width32 then Inr (d\<lparr>mwl_value := v\<rparr>)
      else
        let m = widthMask32 w; shift = unat (offset * 8)
        in Inr (d\<lparr>mwl_value := mwl_value d AND NOT (push_bit shift m) OR push_bit shift v\<rparr>))"

definition boolByte :: "bool \<Rightarrow> u8" where "boolByte b = (if b then 1 else 0)"

definition Mixed_SaveState :: "MixedWidthLatchedRegister \<Rightarrow> u8 list" where
  "Mixed_SaveState d = [0x4D, 0x57, 0x4C, 0x52] @ PutUint32 1 @
     [mwl_widthMask d, boolByte (mwl_allowSubwordOffsets d), 0, 0] @ PutUint32 (mwl_resetValue d) @ PutUint32 (mwl_value d)"

definition Mixed_LoadState :: "u8 list \<Rightarrow> MixedWidthLatchedRegister \<Rightarrow> deviceError + MixedWidthLatchedRegister" where
  "Mixed_LoadState st d =
     (if length st \<noteq> 20 \<or> take 4 st \<noteq> [0x4D, 0x57, 0x4C, 0x52] \<or> Uint32 (slice st 4 4) \<noteq> 1 \<or> st ! 8 \<noteq> mwl_widthMask d \<or>
         st ! 9 \<noteq> boolByte (mwl_allowSubwordOffsets d) \<or> st ! 10 \<noteq> 0 \<or> st ! 11 \<noteq> 0 \<or>
         Uint32 (slice st 12 4) \<noteq> mwl_resetValue d
      then Inl ErrDeviceState
      else
        let v = Uint32 (slice st 16 4) in
        if exceedsWidth (List.last (mwl_widths d)) v then Inl ErrDeviceState else Inr (d\<lparr>mwl_value := v\<rparr>))"

subsection \<open>Sparse word files\<close>

text \<open>\<open>binary.Read\<close> of a little-endian integer from the remaining bytes.\<close>

definition takeUint32 :: "u8 list \<Rightarrow> (u32 \<times> u8 list) option" where
  "takeUint32 s = map_option (\<lambda>(b, s). (Uint32 b, s)) (takeBytes 4 s)"

definition takeUint16 :: "u8 list \<Rightarrow> (u16 \<times> u8 list) option" where
  "takeUint16 s = map_option (\<lambda>(b, s). (Uint16 b, s)) (takeBytes 2 s)"

text \<open>The value of a Go map at a key, zero when there is none.\<close>

definition valueAt :: "('k \<rightharpoonup> 'v::zero) \<Rightarrow> 'k \<Rightarrow> 'v" where
  "valueAt m k = (case m k of None \<Rightarrow> 0 | Some v \<Rightarrow> v)"

record SparseWordRegisters =
  swr_offsets :: "u32 list"
  swr_resets :: "u32 \<rightharpoonup> u32"
  swr_readClear :: "u32 set"
  swr_registers :: "u32 \<rightharpoonup> u32"

record SparseWordRegisterReset =
  swc_Offset :: u32
  swc_Value :: u32

record SparseWordRegistersConfig =
  swc_Offsets :: "u32 list"
  swc_Resets :: "SparseWordRegisterReset list"
  swc_ReadClearOffsets :: "u32 list"

fun wordResets :: "u32 set \<Rightarrow> SparseWordRegisterReset list \<Rightarrow> (u32 \<rightharpoonup> u32) \<Rightarrow> (u32 \<rightharpoonup> u32) option" where
  "wordResets allowed [] m = Some m"
| "wordResets allowed (r # rs) m =
     (if swc_Offset r \<notin> allowed then None
      else if m (swc_Offset r) \<noteq> None then None
      else wordResets allowed rs (m(swc_Offset r \<mapsto> swc_Value r)))"

fun wordReadClears :: "u32 set \<Rightarrow> u32 list \<Rightarrow> u32 set \<Rightarrow> u32 set option" where
  "wordReadClears allowed [] s = Some s"
| "wordReadClears allowed (x # xs) s =
     (if x \<notin> allowed then None else if x \<in> s then None else wordReadClears allowed xs (insert x s))"

definition Words_Reset :: "SparseWordRegisters \<Rightarrow> SparseWordRegisters" where
  "Words_Reset d = d\<lparr>swr_registers := map_of (map (\<lambda>offset. (offset, valueAt (swr_resets d) offset)) (swr_offsets d))\<rparr>"

definition NewSparseWordRegistersWithConfig :: "SparseWordRegistersConfig \<Rightarrow> deviceError + SparseWordRegisters" where
  "NewSparseWordRegistersWithConfig config =
     (let ordered = sort (swc_Offsets config) in
      if swc_Offsets config = [] then Inl ErrDeviceConfig
      else if list_ex (\<lambda>offset. offset mod 4 \<noteq> 0) ordered \<or> \<not> distinct ordered then Inl ErrDeviceConfig
      else case wordResets (set ordered) (swc_Resets config) Map.empty of
        None \<Rightarrow> Inl ErrDeviceConfig
      | Some resets \<Rightarrow>
          (case wordReadClears (set ordered) (swc_ReadClearOffsets config) {} of
             None \<Rightarrow> Inl ErrDeviceConfig
           | Some readClear \<Rightarrow>
               Inr (Words_Reset \<lparr>swr_offsets = ordered, swr_resets = resets, swr_readClear = readClear, swr_registers = Map.empty\<rparr>)))"

definition NewSparseWordRegisters :: "u32 list \<Rightarrow> deviceError + SparseWordRegisters" where
  "NewSparseWordRegisters offsets =
     NewSparseWordRegistersWithConfig \<lparr>swc_Offsets = offsets, swc_Resets = [], swc_ReadClearOffsets = []\<rparr>"

definition Words_Read :: "u32 \<Rightarrow> Width \<Rightarrow> SparseWordRegisters \<Rightarrow> (deviceError + u32) \<times> SparseWordRegisters" where
  "Words_Read offset w d =
     (case swr_registers d offset of
        None \<Rightarrow> (Inl ErrSparseWordRegistersMMIO, d)
      | Some v \<Rightarrow>
          if w \<noteq> Width32 then (Inl ErrSparseWordRegistersMMIO, d)
          else (Inr v, if offset \<in> swr_readClear d then d\<lparr>swr_registers := (swr_registers d)(offset \<mapsto> 0)\<rparr> else d))"

definition Words_Write :: "u32 \<Rightarrow> Width \<Rightarrow> u32 \<Rightarrow> SparseWordRegisters \<Rightarrow> deviceError + SparseWordRegisters" where
  "Words_Write offset w v d =
     (if w \<noteq> Width32 \<or> swr_registers d offset = None then Inl ErrSparseWordRegistersMMIO
      else Inr (d\<lparr>swr_registers := (swr_registers d)(offset \<mapsto> v)\<rparr>))"

definition Words_SaveState :: "SparseWordRegisters \<Rightarrow> u8 list" where
  "Words_SaveState d = [0x53, 0x57, 0x52, 0x46] @ PutUint32 2 @ PutUint32 (of_nat (length (swr_offsets d))) @
     concat (map (\<lambda>offset. PutUint32 offset @ PutUint32 (valueAt (swr_registers d) offset) @
       PutUint32 (if offset \<in> swr_readClear d then 1 else 0)) (swr_offsets d))"

text \<open>The registers of a saved file, in the order of the offsets; version 1 has no flags.\<close>

fun loadWords :: "u32 \<Rightarrow> u32 set \<Rightarrow> u32 list \<Rightarrow> u8 list \<Rightarrow> (u32 \<rightharpoonup> u32) \<Rightarrow> ((u32 \<rightharpoonup> u32) \<times> u8 list) option" where
  "loadWords version readClear [] s m = Some (m, s)"
| "loadWords version readClear (want # offsets) s m =
     do {
       (offset, s) \<leftarrow> takeUint32 s;
       (if offset \<noteq> want then None else Some ());
       (v, s) \<leftarrow> takeUint32 s;
       s \<leftarrow> (if version = 2
             then do {
               (flags, s) \<leftarrow> takeUint32 s;
               (if flags AND NOT 1 \<noteq> 0 then None else Some ());
               (if (flags AND 1 \<noteq> 0) \<noteq> (offset \<in> readClear) then None else Some s)
             }
             else Some s);
       loadWords version readClear offsets s (m(want \<mapsto> v))
     }"

definition Words_LoadState :: "u8 list \<Rightarrow> SparseWordRegisters \<Rightarrow> deviceError + SparseWordRegisters" where
  "Words_LoadState st d =
     (case do {
        (magic, s) \<leftarrow> takeBytes 4 st;
        (if magic \<noteq> [0x53, 0x57, 0x52, 0x46] then None else Some ());
        (version, s) \<leftarrow> takeUint32 s;
        (if version \<noteq> 1 \<and> version \<noteq> 2 then None else Some ());
        (n, s) \<leftarrow> takeUint32 s;
        (if unat n \<noteq> length (swr_offsets d) then None else Some ());
        (if version = 1 \<and> swr_readClear d \<noteq> {} then None else Some ());
        (m, s) \<leftarrow> loadWords version (swr_readClear d) (swr_offsets d) s Map.empty;
        (if s \<noteq> [] then None else Some m)
      } of
        None \<Rightarrow> Inl ErrDeviceState
      | Some m \<Rightarrow> Inr (d\<lparr>swr_registers := m\<rparr>))"

subsection \<open>Indexed halfword banks\<close>

record IndexedHalfwordRegisters =
  ihr_commandReadValue :: u16
  ihr_selected :: u16
  ihr_registers :: "u16 \<rightharpoonup> u16"

definition Indexed_Reset :: "IndexedHalfwordRegisters \<Rightarrow> IndexedHalfwordRegisters" where
  "Indexed_Reset d = d\<lparr>ihr_selected := 0, ihr_registers := Map.empty\<rparr>"

definition NewIndexedHalfwordRegisters :: "u16 \<Rightarrow> IndexedHalfwordRegisters" where
  "NewIndexedHalfwordRegisters v =
     Indexed_Reset \<lparr>ihr_commandReadValue = v, ihr_selected = 0, ihr_registers = Map.empty\<rparr>"

definition Indexed_SaveState :: "IndexedHalfwordRegisters \<Rightarrow> u8 list" where
  "Indexed_SaveState d = [0x49, 0x48, 0x52, 0x47] @ PutUint32 1 @ PutUint16 (ihr_commandReadValue d) @ PutUint16 (ihr_selected d) @
     PutUint32 (of_nat (length (entriesOf (ihr_registers d)))) @
     concat (map (\<lambda>(i, v). PutUint16 i @ PutUint16 v) (entriesOf (ihr_registers d)))"

text \<open>The entries must ascend; \<open>previous\<close> is the register before, none at the first.\<close>

fun loadBank :: "nat \<Rightarrow> u16 option \<Rightarrow> u8 list \<Rightarrow> (u16 \<rightharpoonup> u16) \<Rightarrow> (u16 \<rightharpoonup> u16) option" where
  "loadBank 0 previous s m = Some m"
| "loadBank (Suc n) previous s m =
     do {
       (register, s) \<leftarrow> takeUint16 s;
       (v, s) \<leftarrow> takeUint16 s;
       (if (case previous of None \<Rightarrow> False | Some p \<Rightarrow> register \<le> p) then None else Some ());
       loadBank n (Some register) s (m(register \<mapsto> v))
     }"

definition Indexed_LoadState :: "u8 list \<Rightarrow> IndexedHalfwordRegisters \<Rightarrow> deviceError + IndexedHalfwordRegisters" where
  "Indexed_LoadState st d =
     (case do {
        (magic, s) \<leftarrow> takeBytes 4 st;
        (if magic \<noteq> [0x49, 0x48, 0x52, 0x47] then None else Some ());
        (version, s) \<leftarrow> takeUint32 s;
        (if version \<noteq> 1 then None else Some ());
        (commandReadValue, s) \<leftarrow> takeUint16 s;
        (if commandReadValue \<noteq> ihr_commandReadValue d then None else Some ());
        (selected, s) \<leftarrow> takeUint16 s;
        (n, s) \<leftarrow> takeUint32 s;
        (if unat n * 4 \<noteq> length s then None else Some ());
        m \<leftarrow> loadBank (unat n) None s Map.empty;
        Some (selected, m)
      } of
        None \<Rightarrow> Inl ErrDeviceState
      | Some (selected, m) \<Rightarrow> Inr (d\<lparr>ihr_selected := selected, ihr_registers := m\<rparr>))"

text \<open>A port is the command half or the data half of a bank; the command half resets and saves it.\<close>

definition Port_Reset :: "bool \<Rightarrow> IndexedHalfwordRegisters \<Rightarrow> IndexedHalfwordRegisters" where
  "Port_Reset isData bank = (if isData then bank else Indexed_Reset bank)"

definition Port_validAccess :: "u32 \<Rightarrow> Width \<Rightarrow> bool" where
  "Port_validAccess offset w \<longleftrightarrow> offset = 0 \<and> w = Width16"

definition Port_Read :: "bool \<Rightarrow> u32 \<Rightarrow> Width \<Rightarrow> IndexedHalfwordRegisters \<Rightarrow> deviceError + u32" where
  "Port_Read isData offset w bank =
     (if \<not> Port_validAccess offset w then Inl ErrIndexedHalfwordRegistersMMIO
      else if \<not> isData then Inr (ucast (ihr_commandReadValue bank))
      else Inr (ucast (valueAt (ihr_registers bank) (ihr_selected bank))))"

definition Port_Write :: "bool \<Rightarrow> u32 \<Rightarrow> Width \<Rightarrow> u32 \<Rightarrow> IndexedHalfwordRegisters \<Rightarrow> deviceError + IndexedHalfwordRegisters" where
  "Port_Write isData offset w v bank =
     (if \<not> Port_validAccess offset w \<or> 0xFFFF < v then Inl ErrIndexedHalfwordRegistersMMIO
      else if isData then Inr (bank\<lparr>ihr_registers := (ihr_registers bank)(ihr_selected bank \<mapsto> ucast v)\<rparr>)
      else Inr (bank\<lparr>ihr_selected := ucast v\<rparr>))"

definition portHeader :: "bool \<Rightarrow> u8 list" where
  "portHeader isData = [0x49, 0x48, 0x50, 0x54] @ PutUint32 1 @ [if isData then 1 else 0]"

definition Port_SaveState :: "bool \<Rightarrow> IndexedHalfwordRegisters \<Rightarrow> u8 list" where
  "Port_SaveState isData bank = (if isData then portHeader True else portHeader False @ Indexed_SaveState bank)"

definition Port_LoadState :: "bool \<Rightarrow> u8 list \<Rightarrow> IndexedHalfwordRegisters \<Rightarrow> deviceError + IndexedHalfwordRegisters" where
  "Port_LoadState isData st bank =
     (let wantData = (if isData then 1 else 0) in
      if length st < 9 \<or> take 4 st \<noteq> [0x49, 0x48, 0x50, 0x54] \<or> Uint32 (slice st 4 4) \<noteq> 1 \<or> st ! 8 \<noteq> wantData
      then Inl ErrDeviceState
      else if isData then (if length st \<noteq> 9 then Inl ErrDeviceState else Inr bank)
      else Indexed_LoadState (drop 9 st) bank)"

subsection \<open>The interface of saved states\<close>

text \<open>
  What a board relies on.  \<open>ok\<close> is the invariant, \<open>config\<close> what the constructor fixed.  A state
  loads into any device of the same construction and makes it equal to the one it was saved from;
  a load keeps the invariant and the construction; states are small.
\<close>

locale stored_device =
  fixes ok :: "'s \<Rightarrow> bool"
    and config :: "'s \<Rightarrow> 'c"
    and save :: "'s \<Rightarrow> u8 list"
    and load :: "u8 list \<Rightarrow> 's \<Rightarrow> deviceError + 's"
  assumes load_keeps: "ok s \<Longrightarrow> load st s = Inr s' \<Longrightarrow> ok s' \<and> config s' = config s"
    and load_save: "ok s \<Longrightarrow> ok t \<Longrightarrow> config t = config s \<Longrightarrow> load (save s) t = Inr s"
    and save_small: "ok s \<Longrightarrow> length (save s) < 2 ^ 32"
begin

lemma save_inject:
  assumes a: "ok s" "ok t" "config s = config t" "save s = save t"
  shows "s = t"
proof -
  have "load (save t) t = Inr s" using load_save [OF a(1,2) a(3) [symmetric]] by (simp only: a(4))
  then have "Inr s = (Inr t :: deviceError + 's)" using load_save [OF a(2,2) refl] by (rule trans [OF sym])
  then show ?thesis by simp
qed

text \<open>Whatever was loaded before, a saved state decides the device.\<close>

lemma load_over:
  assumes "ok s" "ok t" "config t = config s" "load st t = Inr t'"
  shows "load (save s) t' = Inr s"
  using load_keeps [OF assms(2,4)] load_save [OF assms(1)] assms(3) by simp

end

subsection \<open>Invariants\<close>

definition ReadOnly_ok :: "ReadOnlyRegister \<Rightarrow> bool" where
  "ReadOnly_ok r \<longleftrightarrow> Width_valid (ror_width r) \<and> \<not> exceedsWidth (ror_width r) (ror_value r)"

definition Window_ok :: "LatchedRegisterWindow \<Rightarrow> bool" where
  "Window_ok d \<longleftrightarrow> Width_valid (lrw_width d) \<and> length (lrw_data d) mod unat (lrw_width d) = 0 \<and>
     lrw_data d \<noteq> [] \<and> length (lrw_data d) < 2 ^ 32 - 16"

definition Mixed_ok :: "MixedWidthLatchedRegister \<Rightarrow> bool" where
  "Mixed_ok d \<longleftrightarrow> 2 \<le> length (mwl_widths d) \<and> sorted (mwl_widths d) \<and> distinct (mwl_widths d) \<and> list_all Width_valid (mwl_widths d) \<and>
     mwl_widthMask d = fold (\<lambda>w m. m OR push_bit (unat w) 1) (mwl_widths d) 0 \<and>
     \<not> exceedsWidth (List.last (mwl_widths d)) (mwl_resetValue d) \<and> \<not> exceedsWidth (List.last (mwl_widths d)) (mwl_value d)"

definition Words_ok :: "SparseWordRegisters \<Rightarrow> bool" where
  "Words_ok d \<longleftrightarrow> sorted (swr_offsets d) \<and> distinct (swr_offsets d) \<and> dom (swr_registers d) = set (swr_offsets d) \<and>
     swr_readClear d \<subseteq> set (swr_offsets d) \<and> length (swr_offsets d) < 2 ^ 28"

lemma unat_widthValue: "unat (widthValue w) = unat w"
  unfolding widthValue_def by transfer simp

lemma ucast_widthValue: "(ucast (widthValue w) :: u8) = w"
  unfolding widthValue_def by transfer simp

lemma New_registers_ok:
  "NewReadOnlyRegister w v = Inr r \<Longrightarrow> ReadOnly_ok r"
  "NewLatchedRegisterWindow sz w = Inr l \<Longrightarrow> sz < 2 ^ 32 - 16 \<Longrightarrow> Window_ok l"
  "newMixedWidthLatchedRegister ws v subwords = Inr m \<Longrightarrow> Mixed_ok m"
proof -
  show "NewReadOnlyRegister w v = Inr r \<Longrightarrow> ReadOnly_ok r"
    by (auto simp: NewReadOnlyRegister_def ReadOnly_ok_def split: if_splits)
  show "newMixedWidthLatchedRegister ws v subwords = Inr m \<Longrightarrow> Mixed_ok m"
    by (auto simp: newMixedWidthLatchedRegister_def Mixed_ok_def Let_def list_all_iff list_ex_iff split: if_splits)
  assume l: "NewLatchedRegisterWindow sz w = Inr l" and sz: "sz < 2 ^ 32 - 16"
  then have w: "Width_valid w" "sz \<noteq> 0" "sz mod widthValue w = 0" "l = \<lparr>lrw_width = w, lrw_data = replicate (unat sz) 0\<rparr>"
    by (auto simp: NewLatchedRegisterWindow_def split: if_splits)
  have "unat sz mod unat w = 0" using arg_cong [OF w(3), of unat] by (simp add: unat_mod unat_widthValue)
  moreover have "unat sz \<noteq> 0" using w(2) by (simp add: unat_eq_zero)
  moreover have "unat sz < 2 ^ 32 - 16" using sz by (simp add: word_less_nat_alt)
  ultimately show "Window_ok l" using w by (auto simp: Window_ok_def)
qed

lemma wordReadClears_subset: "wordReadClears allowed xs s = Some t \<Longrightarrow> s \<subseteq> allowed \<Longrightarrow> t \<subseteq> allowed"
  by (induction xs arbitrary: s) (auto split: if_splits)

lemma Words_Reset_ok:
  assumes "sorted (swr_offsets d)" "distinct (swr_offsets d)" "swr_readClear d \<subseteq> set (swr_offsets d)" "length (swr_offsets d) < 2 ^ 28"
  shows "Words_ok (Words_Reset d)"
  using assms by (simp add: Words_ok_def Words_Reset_def dom_map_of_conv_image_fst image_image)

lemma New_words_ok:
  "NewSparseWordRegistersWithConfig config = Inr d \<Longrightarrow> length (swc_Offsets config) < 2 ^ 28 \<Longrightarrow> Words_ok d"
  using wordReadClears_subset [of "set (sort (swc_Offsets config))" "swc_ReadClearOffsets config" "{}"]
  by (auto simp: NewSparseWordRegistersWithConfig_def Let_def split: if_splits option.splits intro!: Words_Reset_ok)

subsection \<open>The register devices keep their states\<close>

lemma take_slice_append:
  "slice (xs @ ys) n k = (if n + k \<le> length xs then slice xs n k else slice xs n k @ slice ys (n - length xs) (k - (length xs - n)))"
  by (simp add: slice_def)

interpretation read_only: stored_device ReadOnly_ok "\<lambda>r. r" ReadOnly_SaveState ReadOnly_LoadState
proof unfold_locales
  fix s t :: ReadOnlyRegister and st s'
  show "ReadOnly_ok s \<Longrightarrow> ReadOnly_LoadState st s = Inr s' \<Longrightarrow> ReadOnly_ok s' \<and> s' = s"
    by (simp add: ReadOnly_LoadState_def split: if_splits)
  show "ReadOnly_ok s \<Longrightarrow> ReadOnly_ok t \<Longrightarrow> t = s \<Longrightarrow> ReadOnly_LoadState (ReadOnly_SaveState s) t = Inr s"
    by (simp add: ReadOnly_LoadState_def ReadOnly_SaveState_def slice_def ucast_widthValue)
  show "ReadOnly_ok s \<Longrightarrow> length (ReadOnly_SaveState s) < 2 ^ 32"
    by (simp add: ReadOnly_SaveState_def)
qed

interpretation window: stored_device Window_ok "\<lambda>d. (lrw_width d, length (lrw_data d))" Window_SaveState Window_LoadState
proof unfold_locales
  fix s t :: LatchedRegisterWindow and st s'
  show "Window_ok s \<Longrightarrow> Window_LoadState st s = Inr s' \<Longrightarrow> Window_ok s' \<and> (lrw_width s', length (lrw_data s')) = (lrw_width s, length (lrw_data s))"
    by (auto simp: Window_LoadState_def Window_ok_def split: if_splits)
  show "Window_ok s \<Longrightarrow> Window_ok t \<Longrightarrow> (lrw_width t, length (lrw_data t)) = (lrw_width s, length (lrw_data s)) \<Longrightarrow>
      Window_LoadState (Window_SaveState s) t = Inr s"
    by (simp add: Window_LoadState_def Window_SaveState_def slice_def nth_append)
  show "Window_ok s \<Longrightarrow> length (Window_SaveState s) < 2 ^ 32"
    by (simp add: Window_SaveState_def Window_ok_def)
qed

interpretation mixed: stored_device Mixed_ok "\<lambda>d. (mwl_widths d, mwl_widthMask d, mwl_allowSubwordOffsets d, mwl_resetValue d)"
  Mixed_SaveState Mixed_LoadState
proof unfold_locales
  fix s t :: MixedWidthLatchedRegister and st s'
  show "Mixed_ok s \<Longrightarrow> Mixed_LoadState st s = Inr s' \<Longrightarrow> Mixed_ok s' \<and>
      (mwl_widths s', mwl_widthMask s', mwl_allowSubwordOffsets s', mwl_resetValue s') =
      (mwl_widths s, mwl_widthMask s, mwl_allowSubwordOffsets s, mwl_resetValue s)"
    by (auto simp: Mixed_LoadState_def Mixed_ok_def Let_def split: if_splits)
  show "Mixed_ok s \<Longrightarrow> Mixed_ok t \<Longrightarrow>
      (mwl_widths t, mwl_widthMask t, mwl_allowSubwordOffsets t, mwl_resetValue t) =
      (mwl_widths s, mwl_widthMask s, mwl_allowSubwordOffsets s, mwl_resetValue s) \<Longrightarrow>
      Mixed_LoadState (Mixed_SaveState s) t = Inr s"
    by (simp add: Mixed_LoadState_def Mixed_SaveState_def slice_def nth_append Mixed_ok_def Let_def)
  show "Mixed_ok s \<Longrightarrow> length (Mixed_SaveState s) < 2 ^ 32"
    by (simp add: Mixed_SaveState_def)
qed

lemma takeUint_Put [simp]: "takeUint32 (PutUint32 v @ s) = Some (v, s)" "takeUint16 (PutUint16 w @ s) = Some (w, s)"
  by (simp_all add: takeUint32_def takeUint16_def takeBytes_def)

lemma take_magic: "length magic = 4 \<Longrightarrow> takeBytes 4 (magic @ s) = Some (magic, s)"
  by (simp add: takeBytes_def)

lemma loadWords_saved:
  "loadWords 2 clears offsets (concat (map (\<lambda>offset. PutUint32 offset @ PutUint32 (valueAt m offset) @
     PutUint32 (if offset \<in> clears then 1 else 0)) offsets) @ rest) acc =
   Some (\<lambda>x. if x \<in> set offsets then Some (valueAt m x) else acc x, rest)"
proof (induction offsets arbitrary: acc)
  case (Cons offset offsets)
  have "(1 :: u32) AND NOT 1 = 0" "(0 :: u32) AND NOT 1 = 0" by simp_all
  then show ?case using Cons by (auto simp: fun_eq_iff)
qed simp

lemma loadWords_dom: "loadWords v clears offsets s acc = Some (m, s') \<Longrightarrow> dom m = dom acc \<union> set offsets"
proof (induction offsets arbitrary: s acc)
  case (Cons offset offsets)
  obtain s1 x where "loadWords v clears offsets s1 (acc(offset \<mapsto> x)) = Some (m, s')"
    using Cons.prems by (auto simp: bind_eq_Some_conv split: if_splits)
  from Cons.IH [OF this] show ?case by auto
qed simp

lemma valueAt_dom: "dom m = A \<Longrightarrow> (\<lambda>x. if x \<in> A then Some (valueAt m x) else None) = m"
  by (auto simp: fun_eq_iff valueAt_def dom_def split: option.splits)

interpretation words: stored_device Words_ok "\<lambda>d. (swr_offsets d, swr_resets d, swr_readClear d)" Words_SaveState Words_LoadState
proof unfold_locales
  fix s t :: SparseWordRegisters and st s'
  assume s: "Words_ok s"
  then have fits: "unat (of_nat (length (swr_offsets s)) :: u32) = length (swr_offsets s)"
    by (intro unat_of_nat_u32) (simp add: Words_ok_def)
  show "Words_ok s' \<and> (swr_offsets s', swr_resets s', swr_readClear s') = (swr_offsets s, swr_resets s, swr_readClear s)"
    if l: "Words_LoadState st s = Inr s'"
  proof -
    obtain v rest m where m: "loadWords v (swr_readClear s) (swr_offsets s) rest Map.empty = Some (m, [])"
        "s' = s\<lparr>swr_registers := m\<rparr>"
      using l by (auto simp: Words_LoadState_def bind_eq_Some_conv split: option.splits if_splits)
    from loadWords_dom [OF m(1)] show ?thesis using s by (simp add: m(2) Words_ok_def)
  qed
  show "Words_LoadState (Words_SaveState s) t = Inr s"
    if t: "Words_ok t" "(swr_offsets t, swr_resets t, swr_readClear t) = (swr_offsets s, swr_resets s, swr_readClear s)"
  proof -
    have "(\<lambda>x. if x \<in> set (swr_offsets s) then Some (valueAt (swr_registers s) x) else None) = swr_registers s"
      by (rule valueAt_dom) (use s in \<open>simp add: Words_ok_def\<close>)
    moreover have "(2 :: u32) \<noteq> 1" by simp
    ultimately show ?thesis
      using t loadWords_saved [of "swr_readClear s" "swr_offsets s" "swr_registers s" "[]" Map.empty]
      by (simp add: Words_LoadState_def Words_SaveState_def take_magic [of "[0x53, 0x57, 0x52, 0x46]", simplified] fits)
  qed
  have "length (concat (map (\<lambda>offset. PutUint32 offset @ PutUint32 (valueAt (swr_registers s) offset) @
      PutUint32 (if offset \<in> swr_readClear s then 1 else 0)) offsets)) = 12 * length offsets" for offsets
    by (induction offsets) simp_all
  then show "length (Words_SaveState s) < 2 ^ 32"
    using s by (simp add: Words_SaveState_def Words_ok_def)
qed

lemma loadBank_saved:
  "sorted_wrt (<) (map fst es) \<Longrightarrow> (case previous of None \<Rightarrow> True | Some p \<Rightarrow> \<forall>e \<in> set es. p < fst e) \<Longrightarrow>
     loadBank (length es) previous (concat (map (\<lambda>(i, v). PutUint16 i @ PutUint16 v) es)) acc = Some (acc ++ map_of es)"
proof (induction es arbitrary: previous acc)
  case (Cons e es)
  obtain i v where e: "e = (i, v)" by (cases e)
  have "i \<notin> dom (map_of es)" using Cons.prems(1) by (auto simp: e dom_map_of_conv_image_fst)
  then have "acc(i \<mapsto> v) ++ map_of es = acc ++ map_of ((i, v) # es)" by (simp add: map_add_upd_left)
  moreover have "loadBank (length es) (Some i) (concat (map (\<lambda>(i, v). PutUint16 i @ PutUint16 v) es)) (acc(i \<mapsto> v)) =
      Some (acc(i \<mapsto> v) ++ map_of es)"
    by (rule Cons.IH) (use Cons.prems(1) in \<open>auto simp: e\<close>)
  moreover have "\<not> (case previous of None \<Rightarrow> False | Some p \<Rightarrow> i \<le> p)"
    using Cons.prems(2) by (auto simp: e split: option.splits)
  ultimately show ?case by (simp add: e del: map_of.simps)
qed simp

lemma card_u16: "card (A :: u16 set) \<le> 65536"
proof -
  have "card A = card (unat ` A)" by (subst card_image) (simp_all add: inj_on_def word_unat_eq_iff)
  also have "\<dots> \<le> card {..<2 ^ 16 :: nat}"
    by (rule card_mono) (use unsigned_less [of "_ :: u16"] in \<open>auto simp del: unsigned_less\<close>)
  finally show ?thesis by simp
qed

interpretation indexed: stored_device "\<lambda>_. True" ihr_commandReadValue Indexed_SaveState Indexed_LoadState
proof unfold_locales
  fix s t :: IndexedHalfwordRegisters and st s'
  define es where "es = entriesOf (ihr_registers s)"
  have small: "length es \<le> 65536" using card_u16 by (simp add: es_def length_entriesOf)
  then have fits: "unat (of_nat (length es) :: u32) = length es" by (intro unat_of_nat_u32) simp
  have bytes: "length (concat (map (\<lambda>(i, v). PutUint16 i @ PutUint16 v) es)) = length es * 4" for es
    by (induction es) auto
  show "Indexed_LoadState st s = Inr s' \<Longrightarrow> True \<and> ihr_commandReadValue s' = ihr_commandReadValue s"
    by (auto simp: Indexed_LoadState_def split: option.splits)
  have "sorted_wrt (<) (map fst es)" by (simp add: es_def)
  then have "loadBank (length es) None (concat (map (\<lambda>(i, v). PutUint16 i @ PutUint16 v) es)) Map.empty = Some (Map.empty ++ map_of es)"
    by (rule loadBank_saved) simp
  then have bank: "loadBank (length es) None (concat (map (\<lambda>(i, v). PutUint16 i @ PutUint16 v) es)) Map.empty = Some (ihr_registers s)"
    by (simp add: es_def map_of_entriesOf)
  show "Indexed_LoadState (Indexed_SaveState s) t = Inr s" if "ihr_commandReadValue t = ihr_commandReadValue s"
    using that bank by (simp add: Indexed_LoadState_def Indexed_SaveState_def es_def [symmetric]
        take_magic [of "[0x49, 0x48, 0x52, 0x47]", simplified] fits bytes)
  show "length (Indexed_SaveState s) < 2 ^ 32"
    using small by (simp add: Indexed_SaveState_def es_def [symmetric] bytes)
qed

subsection \<open>Registers as little-endian memory\<close>

lemma widthMask32_mask: "widthMask32 Width8 = mask 8" "widthMask32 Width16 = mask 16"
  by (simp_all add: widthMask32_def width_defs mask_numeral)

lemma not_exceeds: "\<not> exceedsWidth w v \<Longrightarrow> w = Width8 \<or> w = Width16 \<Longrightarrow> take_bit (unat w * 8) v = v"
  by (auto simp: exceedsWidth_def width_defs not_le word_less_nat_alt word_unat_eq_iff unsigned_take_bit_eq take_bit_nat_eq_self_iff)

lemma Mixed_valid_cases:
  assumes "Mixed_validAccess offset w d" "Mixed_ok d"
  shows "(w = Width32 \<and> offset = 0) \<or> (w = Width16 \<and> (offset = 0 \<or> offset = 2)) \<or>
    (w = Width8 \<and> (offset = 0 \<or> offset = 1 \<or> offset = 2 \<or> offset = 3))"
proof -
  have "List.last (mwl_widths d) \<in> set (mwl_widths d)" using assms(2) by (intro last_in_set) (auto simp: Mixed_ok_def)
  then have "Width_valid (List.last (mwl_widths d))" using assms(2) by (simp add: Mixed_ok_def list_all_iff)
  then have four: "unat (List.last (mwl_widths d)) \<le> 4" by (auto simp: Width_valid_def width_defs)
  have w: "Width_valid w" "offset mod widthValue w = 0" using assms(1) by (auto simp: Mixed_validAccess_def Mixed_supports_def split: if_splits)
  have "offset = 0 \<or> unat offset + unat w \<le> 4"
    using assms(1) four by (auto simp: Mixed_validAccess_def split: if_splits)
  then have "offset = 0 \<or> (unat offset + unat w \<le> 4 \<and> unat offset mod unat w = 0)"
    using arg_cong [OF w(2), of unat] by (auto simp: unat_mod unat_widthValue)
  then have "offset = 0 \<or> (w = 1 \<and> unat offset \<in> {1, 2, 3}) \<or> (w = 2 \<and> unat offset = 2)"
    using w(1) by (auto simp: Width_valid_def width_defs unat_eq_zero [symmetric] simp del: unat_eq_zero)
  then show ?thesis
    using w(1) by (auto simp: Width_valid_def width_defs word_unat_eq_iff)
qed


text \<open>A byte of a word after some of its bytes were replaced.\<close>

lemma replaced_byte:
  fixes x v :: u32
  assumes v: "take_bit m v = v" and j: "j + 8 \<le> s \<or> s + m \<le> j \<or> s \<le> j \<and> j + 8 \<le> s + m" "j + 8 \<le> 32"
  shows "(ucast (drop_bit j (x AND NOT (push_bit s (mask m)) OR push_bit s v)) :: u8) =
    (if s \<le> j \<and> j + 8 \<le> s + m \<and> m \<noteq> 0 then ucast (drop_bit (j - s) v) else ucast (drop_bit j x))"
proof (rule bit_word_eqI)
  fix n assume "n < LENGTH(8)"
  then have n: "n < 8" by simp
  have low: "bit v k \<Longrightarrow> k < m" for k using v by (metis bit_take_bit_iff)
  show "bit (ucast (drop_bit j (x AND NOT (push_bit s (mask m)) OR push_bit s v)) :: u8) n \<longleftrightarrow>
      bit (if s \<le> j \<and> j + 8 \<le> s + m \<and> m \<noteq> 0 then ucast (drop_bit (j - s) v) else ucast (drop_bit j x) :: u8) n"
    using n j low [of "j + n - s"] by (auto simp: bit_simps add.commute)
qed

lemma masked_bytes:
  fixes x :: u32
  shows "(ucast (drop_bit s x AND mask 8) :: u8) = ucast (drop_bit s x)"
    "(ucast (ucast (drop_bit s x AND mask 16) :: u16) :: u8) = ucast (drop_bit s x)"
    "(ucast (drop_bit 8 (ucast (drop_bit s x AND mask 16) :: u16)) :: u8) = ucast (drop_bit (s + 8) x)"
    "(ucast (ucast x :: u16) :: u8) = ucast x" "(ucast (drop_bit 8 (ucast x :: u16)) :: u8) = ucast (drop_bit 8 x)"
  by (rule bit_word_eqI; auto simp: bit_simps add.commute add.left_commute)+

lemma low_bytes:
  fixes x v :: u32
  shows "(ucast (x AND mask 16) :: u8) = ucast x" "(ucast (x AND mask 8) :: u8) = ucast x"
    "(ucast (x AND drop_bit 8 (mask 16)) :: u8) = ucast x"
    "8 \<le> s \<Longrightarrow> (ucast (x AND NOT (push_bit s y) OR push_bit s v) :: u8) = ucast x"
    "8 \<le> m \<Longrightarrow> (ucast (x AND NOT (mask m) OR v) :: u8) = ucast v"
  by (rule bit_word_eqI; auto simp: bit_simps add.commute)+

text \<open>The unfolding of a narrow access to bytes.\<close>

lemmas mixed_bytes = Mixed_Read_def Mixed_Write_def width_defs putValue_def slice_def overwrite_def PutUint32_def PutUint16_def
  Let_def masked_bytes low_bytes

text \<open>
  C35. A mixed-width register is four bytes of little-endian memory: whatever widths and subword
  offsets it accepts, a read answers the bytes at the offset and a write replaces exactly those
  bytes, so narrow and wide accesses see each other's effects; a refused access changes nothing.
\<close>

theorem mixed_register_is_memory:
  assumes d: "Mixed_ok d"
  shows "(case Mixed_Read offset w d of
      Inl e \<Rightarrow> e = ErrMixedWidthLatchedRegisterMMIO \<and> \<not> Mixed_validAccess offset w d
    | Inr v \<Rightarrow> unat offset + unat w \<le> 4 \<and> putValue (unat w) v = slice (PutUint32 (mwl_value d)) (unat offset) (unat w)) \<and>
    (case Mixed_Write offset w v d of
      Inl e \<Rightarrow> e = ErrMixedWidthLatchedRegisterMMIO
    | Inr d' \<Rightarrow> unat offset + unat w \<le> 4 \<and>
        d' = d\<lparr>mwl_value := mwl_value d'\<rparr> \<and>
        PutUint32 (mwl_value d') = overwrite (PutUint32 (mwl_value d)) (unat offset) (putValue (unat w) v))"
proof (cases "Mixed_validAccess offset w d")
  case False
  then show ?thesis by (simp add: Mixed_Read_def Mixed_Write_def)
next
  case True
  have width: "widthMask32 1 = mask 8" "widthMask32 2 = mask 16" using widthMask32_mask by (simp_all add: width_defs)
  have fits: "take_bit 8 v = v" if "w = 1" "\<not> exceedsWidth w v"
    using not_exceeds [OF that(2)] that(1) by (simp add: width_defs)
  have fits2: "take_bit 16 v = v" if "w = 2" "\<not> exceedsWidth w v"
    using not_exceeds [OF that(2)] that(1) by (simp add: width_defs)
  have ne: "(1 :: u8) \<noteq> 4" "(2 :: u8) \<noteq> 4" by simp_all
  let ?x = "mwl_value d"
  from Mixed_valid_cases [OF True d] consider
      "w = 4" "offset = 0" | "w = 2" "offset = 0" | "w = 2" "offset = 2"
    | "w = 1" "offset = 0" | "w = 1" "offset = 1" | "w = 1" "offset = 2" | "w = 1" "offset = 3"
    by (auto simp: width_defs)
  then show ?thesis
  proof cases
    case 1
    then show ?thesis using True by (simp add: Mixed_Read_def Mixed_Write_def width_defs putValue_def slice_def overwrite_def)
  next
    case 2
    then show ?thesis using True replaced_byte [OF fits2 [OF 2(1)], where x = ?x and s = 0]
      by (auto simp: mixed_bytes width ne)
  next
    case 3
    then show ?thesis using True replaced_byte [OF fits2 [OF 3(1)], where x = ?x and s = 16]
      by (auto simp: mixed_bytes width ne)
  next
    case 4
    then show ?thesis using True replaced_byte [OF fits [OF 4(1)], where x = ?x and s = 0]
      by (auto simp: mixed_bytes width ne)
  next
    case 5
    then show ?thesis using True replaced_byte [OF fits [OF 5(1)], where x = ?x and s = 8]
      by (auto simp: mixed_bytes width ne)
  next
    case 6
    then show ?thesis using True replaced_byte [OF fits [OF 6(1)], where x = ?x and s = 16]
      by (auto simp: mixed_bytes width ne)
  next
    case 7
    then show ?thesis using True replaced_byte [OF fits [OF 7(1)], where x = ?x and s = 24]
      by (auto simp: mixed_bytes width ne)
  qed
qed

definition sampleMixed :: MixedWidthLatchedRegister where
  "sampleMixed = \<lparr>mwl_widths = [1, 2, 4], mwl_widthMask = 22, mwl_allowSubwordOffsets = True, mwl_resetValue = 0x11223344, mwl_value = 0x11223344\<rparr>"

theorem mixed_register_is_memory_witness:
  "Mixed_Write 1 1 0xFF sampleMixed = Inr (sampleMixed\<lparr>mwl_value := 0x1122FF44\<rparr>) \<and>
    PutUint32 0x1122FF44 = overwrite (PutUint32 0x11223344) 1 (putValue 1 0xFF)"
proof -
  have ok: "Mixed_ok sampleMixed"
    by (simp add: Mixed_ok_def sampleMixed_def Width_valid_def width_defs exceedsWidth_def)
  have "Mixed_Write 1 1 0xFF sampleMixed = Inr (sampleMixed\<lparr>mwl_value := 0x1122FF44\<rparr>)"
    by (simp add: Mixed_Write_def Mixed_validAccess_def Mixed_supports_def sampleMixed_def Width_valid_def width_defs
        exceedsWidth_def widthMask32_def widthValue_def)
  then show ?thesis
    using mixed_register_is_memory [OF ok, of 1 1 "0xFF"] by (simp add: sampleMixed_def)
qed

end
