(* ===== verification/System_Vic.thy ===== *)
theory System_Vic
  imports System_Registers Cpu_Privileged
begin

text \<open>
  The compact vectored interrupt controller, src/system/qualcomm_vic.go, and the interface of the
  interrupt line it drives.  The sink is the interface \<open>InterruptLineSink\<close>: an operation on the
  state \<open>'w\<close> of whatever it is wired to, which the controller's operations thread through; the
  processor provides it.  Arrays are lists of their fixed length.
\<close>

subsection \<open>Configuration\<close>

record QualcommVectoredInterruptGroupConfig =
  vg_Source :: u8
  vg_EnableOffset :: u32
  vg_StatusOffset :: u32
  vg_ValidMask :: u32

record QualcommVectoredInterruptConfig =
  vc_SourceCount :: u8
  vc_Bank0Sources :: u8
  vc_ReverseSourceOrder :: bool
  vc_VectorOffset :: u8
  vc_ResetEnabledSources :: "u32 list"
  vc_GroupCount :: u8
  vc_Groups :: "QualcommVectoredInterruptGroupConfig list"

definition VicWindowSize :: u32 where "VicWindowSize = 0x200"
definition VicAcknowledge0 :: u32 where "VicAcknowledge0 = 0x00"
definition VicAcknowledge1 :: u32 where "VicAcknowledge1 = 0x04"
definition VicEnable0 :: u32 where "VicEnable0 = 0x30"
definition VicEnable1 :: u32 where "VicEnable1 = 0x34"
definition VicStatus0 :: u32 where "VicStatus0 = 0x74"
definition VicStatus1 :: u32 where "VicStatus1 = 0x78"
definition VicVectorRead :: u32 where "VicVectorRead = 0x9C"
definition VicPendingRead :: u32 where "VicPendingRead = 0xA0"
definition VicVectorWrite :: u32 where "VicVectorWrite = 0xA4"
definition VicInService :: u32 where "VicInService = 0xA8"
definition VicNoPendingVector :: u32 where "VicNoPendingVector = 0x3F"
definition VicNoInServiceVector :: u32 where "VicNoInServiceVector = 0xFF"
definition VicMaximumGroups :: nat where "VicMaximumGroups = 6"

lemmas vic_offsets = VicAcknowledge0_def VicAcknowledge1_def VicEnable0_def VicEnable1_def VicStatus0_def VicStatus1_def
  VicVectorRead_def VicPendingRead_def VicVectorWrite_def VicInService_def

definition isQualcommVICCoreOffset :: "u32 \<Rightarrow> bool" where
  "isQualcommVICCoreOffset offset \<longleftrightarrow> offset \<in> {VicAcknowledge0, VicAcknowledge1, VicEnable0, VicEnable1, VicStatus0,
     VicStatus1, VicVectorRead, VicPendingRead, VicVectorWrite, VicInService}"

text \<open>The mask of a bank with so many sources.\<close>

definition bankMask :: "u8 \<Rightarrow> u32" where
  "bankMask n = (if n = 32 then NOT 0 else push_bit (unat n) 1 - 1)"

fun validGroups :: "u8 \<Rightarrow> QualcommVectoredInterruptGroupConfig list \<Rightarrow> u8 set \<Rightarrow> u32 set \<Rightarrow> bool" where
  "validGroups sources [] seenSources seenOffsets = True"
| "validGroups sources (g # gs) seenSources seenOffsets =
     (if sources \<le> vg_Source g \<or> vg_ValidMask g = 0 \<or> vg_EnableOffset g mod 4 \<noteq> 0 \<or> vg_StatusOffset g mod 4 \<noteq> 0 \<or>
         VicWindowSize \<le> vg_EnableOffset g \<or> VicWindowSize \<le> vg_StatusOffset g \<or>
         isQualcommVICCoreOffset (vg_EnableOffset g) \<or> isQualcommVICCoreOffset (vg_StatusOffset g) \<or>
         vg_EnableOffset g = vg_StatusOffset g
      then False
      else if vg_Source g \<in> seenSources then False
      else if vg_EnableOffset g \<in> seenOffsets \<or> vg_StatusOffset g \<in> seenOffsets then False
      else validGroups sources gs (insert (vg_Source g) seenSources)
             (insert (vg_EnableOffset g) (insert (vg_StatusOffset g) seenOffsets)))"

definition vicGroups :: "QualcommVectoredInterruptConfig \<Rightarrow> QualcommVectoredInterruptGroupConfig list" where
  "vicGroups c = take (unat (vc_GroupCount c)) (vc_Groups c)"

definition VicConfig_validate :: "QualcommVectoredInterruptConfig \<Rightarrow> bool" where
  "VicConfig_validate c \<longleftrightarrow>
     \<not> (vc_SourceCount c = 0 \<or> 64 < vc_SourceCount c \<or> vc_Bank0Sources c = 0 \<or> vc_SourceCount c \<le> vc_Bank0Sources c \<or>
        32 < vc_Bank0Sources c \<or> 32 < vc_SourceCount c - vc_Bank0Sources c \<or>
        63 \<le> unat (vc_VectorOffset c) + unat (vc_SourceCount c) - 1) \<and>
     \<not> (vc_ResetEnabledSources c ! 0 AND NOT (bankMask (vc_Bank0Sources c)) \<noteq> 0 \<or>
        vc_ResetEnabledSources c ! 1 AND NOT (bankMask (vc_SourceCount c - vc_Bank0Sources c)) \<noteq> 0) \<and>
     unat (vc_GroupCount c) \<le> length (vc_Groups c) \<and>
     validGroups (vc_SourceCount c) (vicGroups c) {} {}"

subsection \<open>State\<close>

record QualcommVIC =
  vic_config :: QualcommVectoredInterruptConfig
  vic_enable :: "u32 list"
  vic_status :: "u32 list"
  vic_level :: "u32 list"
  vic_groupEnable :: "u32 list"
  vic_groupLevel :: "u32 list"
  vic_inService :: u8
  vic_inServiceValid :: bool

type_synonym 'w InterruptLineSink = "u8 \<Rightarrow> bool \<Rightarrow> 'w \<Rightarrow> (cpu_error + unit) \<times> 'w"

type_synonym ('a, 'w) vicResult = "(deviceError + 'a) \<times> QualcommVIC \<times> 'w"

definition Vic_packedSource :: "u8 \<Rightarrow> QualcommVIC \<Rightarrow> u8" where
  "Vic_packedSource source d =
     (if vc_ReverseSourceOrder (vic_config d) then vc_SourceCount (vic_config d) - 1 - source else source)"

definition Vic_logicalSource :: "u8 \<Rightarrow> QualcommVIC \<Rightarrow> u8" where
  "Vic_logicalSource packed d =
     (if vc_ReverseSourceOrder (vic_config d) then vc_SourceCount (vic_config d) - 1 - packed else packed)"

definition Vic_vectorForSource :: "u8 \<Rightarrow> QualcommVIC \<Rightarrow> u8" where
  "Vic_vectorForSource source d = Vic_packedSource source d + vc_VectorOffset (vic_config d)"

definition Vic_sourceMask :: "u8 \<Rightarrow> QualcommVIC \<Rightarrow> (nat \<times> u32) option" where
  "Vic_sourceMask source d =
     (if vc_SourceCount (vic_config d) \<le> source then None
      else
        let packed = Vic_packedSource source d; bank0 = vc_Bank0Sources (vic_config d) in
        if packed < bank0 then Some (0, push_bit (unat packed) 1) else Some (1, push_bit (unat (packed - bank0)) 1))"

definition Vic_validMask :: "nat \<Rightarrow> QualcommVIC \<Rightarrow> u32" where
  "Vic_validMask bank d =
     bankMask (if bank = 1 then vc_SourceCount (vic_config d) - vc_Bank0Sources (vic_config d) else vc_Bank0Sources (vic_config d))"

definition Vic_asserted :: "QualcommVIC \<Rightarrow> bool" where
  "Vic_asserted d \<longleftrightarrow> \<not> vic_inServiceValid d \<and>
     (vic_status d ! 0 AND vic_enable d ! 0 \<noteq> 0 \<or> vic_status d ! 1 AND vic_enable d ! 1 \<noteq> 0)"

definition Vic_updateOutput :: "'w InterruptLineSink option \<Rightarrow> QualcommVIC \<Rightarrow> 'w \<Rightarrow> (deviceError + unit) \<times> 'w" where
  "Vic_updateOutput sink d w =
     (case sink of
        None \<Rightarrow> (Inr (), w)
      | Some drive \<Rightarrow>
          (case drive InterruptIRQ (Vic_asserted d) w of
             (Inl e, w) \<Rightarrow> (Inl (ErrInterruptLine e), w)
           | (Inr _, w) \<Rightarrow> (Inr (), w)))"

text \<open>A change that ends with driving the line.\<close>

definition Vic_drive :: "'w InterruptLineSink option \<Rightarrow> QualcommVIC \<Rightarrow> 'w \<Rightarrow> (unit, 'w) vicResult" where
  "Vic_drive sink d w = (case Vic_updateOutput sink d w of (res, w) \<Rightarrow> (res, d, w))"

definition Vic_Reset :: "'w InterruptLineSink option \<Rightarrow> QualcommVIC \<Rightarrow> 'w \<Rightarrow> (unit, 'w) vicResult" where
  "Vic_Reset sink d w =
     Vic_drive sink (d\<lparr>vic_enable := vc_ResetEnabledSources (vic_config d), vic_status := [0, 0], vic_level := [0, 0],
       vic_groupEnable := replicate VicMaximumGroups 0, vic_groupLevel := replicate VicMaximumGroups 0,
       vic_inService := 0, vic_inServiceValid := False\<rparr>) w"

definition NewQualcommVIC ::
    "QualcommVectoredInterruptConfig \<Rightarrow> 'w InterruptLineSink option \<Rightarrow> 'w \<Rightarrow> (deviceError + QualcommVIC) \<times> 'w" where
  "NewQualcommVIC c sink w =
     (if \<not> VicConfig_validate c then (Inl ErrDeviceConfig, w)
      else case Vic_Reset sink \<lparr>vic_config = c, vic_enable = [0, 0], vic_status = [0, 0], vic_level = [0, 0],
             vic_groupEnable = replicate VicMaximumGroups 0, vic_groupLevel = replicate VicMaximumGroups 0,
             vic_inService = 0, vic_inServiceValid = False\<rparr> w of
        (Inl e, _, w) \<Rightarrow> (Inl e, w)
      | (Inr _, d, w) \<Rightarrow> (Inr d, w))"

fun findGroup :: "u32 \<Rightarrow> nat \<Rightarrow> QualcommVectoredInterruptGroupConfig list \<Rightarrow> (nat \<times> bool) option" where
  "findGroup offset i [] = None"
| "findGroup offset i (g # gs) =
     (if offset = vg_EnableOffset g then Some (i, False)
      else if offset = vg_StatusOffset g then Some (i, True)
      else findGroup offset (i + 1) gs)"

definition Vic_groupForOffset :: "u32 \<Rightarrow> QualcommVIC \<Rightarrow> (nat \<times> bool) option" where
  "Vic_groupForOffset offset d = findGroup offset 0 (vicGroups (vic_config d))"

definition Vic_Handles :: "u32 \<Rightarrow> QualcommVIC \<Rightarrow> bool" where
  "Vic_Handles offset d \<longleftrightarrow> isQualcommVICCoreOffset offset \<or> Vic_groupForOffset offset d \<noteq> None"

subsection \<open>Sources\<close>

definition Vic_SetSource :: "'w InterruptLineSink option \<Rightarrow> u8 \<Rightarrow> bool \<Rightarrow> QualcommVIC \<Rightarrow> 'w \<Rightarrow> (unit, 'w) vicResult" where
  "Vic_SetSource sink source asserted d w =
     (case Vic_sourceMask source d of
        None \<Rightarrow> (Inl ErrInterruptSource, d, w)
      | Some (bank, m) \<Rightarrow>
          Vic_drive sink
            (if asserted
             then d\<lparr>vic_level := (vic_level d)[bank := vic_level d ! bank OR m],
                    vic_status := (vic_status d)[bank := vic_status d ! bank OR m]\<rparr>
             else d\<lparr>vic_level := (vic_level d)[bank := vic_level d ! bank AND NOT m]\<rparr>) w)"

definition Vic_PulseSource :: "'w InterruptLineSink option \<Rightarrow> u8 \<Rightarrow> QualcommVIC \<Rightarrow> 'w \<Rightarrow> (unit, 'w) vicResult" where
  "Vic_PulseSource sink source d w =
     (case Vic_sourceMask source d of
        None \<Rightarrow> (Inl ErrInterruptSource, d, w)
      | Some (bank, m) \<Rightarrow>
          if vic_inServiceValid d \<and> vic_inService d = source then (Inr (), d, w)
          else Vic_drive sink (d\<lparr>vic_status := (vic_status d)[bank := vic_status d ! bank OR m]\<rparr>) w)"

definition Vic_refreshGroupSource :: "'w InterruptLineSink option \<Rightarrow> nat \<Rightarrow> QualcommVIC \<Rightarrow> 'w \<Rightarrow> (unit, 'w) vicResult" where
  "Vic_refreshGroupSource sink index d w =
     (if unat (vc_GroupCount (vic_config d)) \<le> index then (Inl ErrInterruptSource, d, w)
      else
        let source = vg_Source (vc_Groups (vic_config d) ! index);
            asserted = vic_groupLevel d ! index AND vic_groupEnable d ! index \<noteq> 0
        in case Vic_SetSource sink source asserted d w of
             (Inl e, d, w) \<Rightarrow> (Inl e, d, w)
           | (Inr _, d, w) \<Rightarrow>
               if asserted then (Inr (), d, w)
               else case Vic_sourceMask source d of
                 None \<Rightarrow> (Inl ErrInterruptSource, d, w)
               | Some (bank, m) \<Rightarrow>
                   let d = d\<lparr>vic_status := (vic_status d)[bank := vic_status d ! bank AND NOT m]\<rparr>;
                       d = (if vic_inServiceValid d \<and> vic_inService d = source
                            then d\<lparr>vic_inService := 0, vic_inServiceValid := False\<rparr> else d)
                   in Vic_drive sink d w)"

definition Vic_SetGroupedSource ::
    "'w InterruptLineSink option \<Rightarrow> u32 \<Rightarrow> u32 \<Rightarrow> bool \<Rightarrow> QualcommVIC \<Rightarrow> 'w \<Rightarrow> (unit, 'w) vicResult" where
  "Vic_SetGroupedSource sink statusOffset m asserted d w =
     (case Vic_groupForOffset statusOffset d of
        None \<Rightarrow> (Inl ErrInterruptSource, d, w)
      | Some (index, status) \<Rightarrow>
          if \<not> status \<or> m = 0 \<or> m AND NOT (vg_ValidMask (vc_Groups (vic_config d) ! index)) \<noteq> 0
          then (Inl ErrInterruptSource, d, w)
          else
            let level = vic_groupLevel d ! index;
                level = (if asserted then level OR m else level AND NOT m)
            in Vic_refreshGroupSource sink index (d\<lparr>vic_groupLevel := (vic_groupLevel d)[index := level]\<rparr>) w)"

subsection \<open>Claiming\<close>

definition TrailingZeros32 :: "u32 \<Rightarrow> nat" where
  "TrailingZeros32 x = length (takeWhile (\<lambda>n. \<not> bit x n) [0..<32])"

text \<open>The pending sources of a bank, without the one whose handler is running.\<close>

definition Vic_pendingBank :: "nat \<Rightarrow> QualcommVIC \<Rightarrow> u32" where
  "Vic_pendingBank bank d =
     (let pending = vic_status d ! bank AND vic_enable d ! bank in
      if vic_inServiceValid d
      then (case Vic_sourceMask (vic_inService d) d of
              Some (serviceBank, serviceMask) \<Rightarrow> if serviceBank = bank then pending AND NOT serviceMask else pending
            | None \<Rightarrow> pending)
      else pending)"

definition Vic_pendingSource :: "QualcommVIC \<Rightarrow> u8 option" where
  "Vic_pendingSource d =
     (if Vic_pendingBank 0 d \<noteq> 0 then Some (Vic_logicalSource (of_nat (TrailingZeros32 (Vic_pendingBank 0 d))) d)
      else if Vic_pendingBank 1 d \<noteq> 0
      then Some (Vic_logicalSource (of_nat (TrailingZeros32 (Vic_pendingBank 1 d)) + vc_Bank0Sources (vic_config d)) d)
      else None)"

definition Vic_completeEmptyService :: "'w InterruptLineSink option \<Rightarrow> QualcommVIC \<Rightarrow> 'w \<Rightarrow> (u32, 'w) vicResult" where
  "Vic_completeEmptyService sink d w =
     (case Vic_drive sink (d\<lparr>vic_inService := 0, vic_inServiceValid := False\<rparr>) w of
        (Inl e, d, w) \<Rightarrow> (Inl e, d, w)
      | (Inr _, d, w) \<Rightarrow> (Inr VicNoPendingVector, d, w))"

definition Vic_claimPendingSource :: "'w InterruptLineSink option \<Rightarrow> QualcommVIC \<Rightarrow> 'w \<Rightarrow> (u32, 'w) vicResult" where
  "Vic_claimPendingSource sink d w =
     (case Vic_pendingSource d of
        None \<Rightarrow> Vic_completeEmptyService sink d w
      | Some source \<Rightarrow>
          let d' = d\<lparr>vic_inService := source, vic_inServiceValid := True\<rparr> in
          (case Vic_updateOutput sink d' w of
             (Inl e, w) \<Rightarrow> (Inl e, d, snd (Vic_updateOutput sink d w))
           | (Inr _, w) \<Rightarrow> (Inr (ucast (Vic_vectorForSource source d')), d', w)))"

definition Vic_readPendingSource :: "'w InterruptLineSink option \<Rightarrow> QualcommVIC \<Rightarrow> 'w \<Rightarrow> (u32, 'w) vicResult" where
  "Vic_readPendingSource sink d w =
     (case Vic_pendingSource d of
        None \<Rightarrow> Vic_completeEmptyService sink d w
      | Some source \<Rightarrow> (Inr (ucast (Vic_vectorForSource source d)), d, w))"

subsection \<open>Registers\<close>

definition Vic_Read :: "'w InterruptLineSink option \<Rightarrow> u32 \<Rightarrow> Width \<Rightarrow> QualcommVIC \<Rightarrow> 'w \<Rightarrow> (u32, 'w) vicResult" where
  "Vic_Read sink offset width d w =
     (if width \<noteq> Width32 then (Inl ErrQualcommVicMMIO, d, w)
      else case Vic_groupForOffset offset d of
        Some (index, status) \<Rightarrow> (Inr (if status then vic_groupLevel d ! index else vic_groupEnable d ! index), d, w)
      | None \<Rightarrow>
          if offset = VicEnable0 then (Inr (vic_enable d ! 0), d, w)
          else if offset = VicEnable1 then (Inr (vic_enable d ! 1), d, w)
          else if offset = VicStatus0 then (Inr (vic_status d ! 0), d, w)
          else if offset = VicStatus1 then (Inr (vic_status d ! 1), d, w)
          else if offset = VicVectorRead then Vic_claimPendingSource sink d w
          else if offset = VicPendingRead then Vic_readPendingSource sink d w
          else if offset = VicVectorWrite then (Inr 0, d, w)
          else if offset = VicInService
          then (Inr (if \<not> vic_inServiceValid d then VicNoInServiceVector else ucast (Vic_vectorForSource (vic_inService d) d)), d, w)
          else (Inl ErrQualcommVicMMIO, d, w))"

definition Vic_acknowledge :: "nat \<Rightarrow> u32 \<Rightarrow> QualcommVIC \<Rightarrow> QualcommVIC" where
  "Vic_acknowledge bank v d = d\<lparr>vic_status := (vic_status d)[bank := vic_status d ! bank AND NOT (v AND NOT (vic_level d ! bank))]\<rparr>"

definition Vic_enableSet :: "nat \<Rightarrow> u32 \<Rightarrow> QualcommVIC \<Rightarrow> QualcommVIC" where
  "Vic_enableSet bank v d = d\<lparr>vic_enable := (vic_enable d)[bank := vic_enable d ! bank OR v AND Vic_validMask bank d]\<rparr>"

definition Vic_Write :: "'w InterruptLineSink option \<Rightarrow> u32 \<Rightarrow> Width \<Rightarrow> u32 \<Rightarrow> QualcommVIC \<Rightarrow> 'w \<Rightarrow> (unit, 'w) vicResult" where
  "Vic_Write sink offset width v d w =
     (if width \<noteq> Width32 then (Inl ErrQualcommVicMMIO, d, w)
      else case Vic_groupForOffset offset d of
        Some (index, status) \<Rightarrow>
          if status then (Inl ErrQualcommVicMMIO, d, w)
          else Vic_refreshGroupSource sink index
            (d\<lparr>vic_groupEnable := (vic_groupEnable d)
               [index := vic_groupEnable d ! index OR v AND vg_ValidMask (vc_Groups (vic_config d) ! index)]\<rparr>) w
      | None \<Rightarrow>
          if offset = VicAcknowledge0 then Vic_drive sink (Vic_acknowledge 0 v d) w
          else if offset = VicAcknowledge1 then Vic_drive sink (Vic_acknowledge 1 v d) w
          else if offset = VicEnable0 then Vic_drive sink (Vic_enableSet 0 v d) w
          else if offset = VicEnable1 then Vic_drive sink (Vic_enableSet 1 v d) w
          else if offset = VicVectorWrite then Vic_drive sink (d\<lparr>vic_inService := 0, vic_inServiceValid := False\<rparr>) w
          else (Inl ErrQualcommVicMMIO, d, w))"

subsection \<open>Saved states\<close>

definition Vic_SaveState :: "QualcommVIC \<Rightarrow> u8 list" where
  "Vic_SaveState d =
     (let c = vic_config d in
      [0x51, 0x56, 0x49, 0x43] @ PutUint32 3 @
      [vc_SourceCount c, vc_Bank0Sources c, boolByte (vc_ReverseSourceOrder c), vc_VectorOffset c,
       vic_inService d, boolByte (vic_inServiceValid d), vc_GroupCount c, 0] @
      concat (map PutUint32 (vic_enable d @ vic_status d @ vic_level d)) @
      concat (map (\<lambda>i. PutUint32 (vic_groupEnable d ! i) @ PutUint32 (vic_groupLevel d ! i)) [0..<unat (vc_GroupCount c)]))"

text \<open>The checks on a state and the controller it describes.\<close>

definition Vic_decode :: "u8 list \<Rightarrow> QualcommVIC \<Rightarrow> QualcommVIC option" where
  "Vic_decode st d =
     (let c = vic_config d; n = unat (vc_GroupCount c); word = (\<lambda>k. Uint32 (slice st k 4));
          enable = [word 16, word 20]; status = [word 24, word 28]; level = [word 32, word 36];
          groupEnable = map (\<lambda>i. if i < n then word (40 + 8 * i) else 0) [0..<VicMaximumGroups];
          groupLevel = map (\<lambda>i. if i < n then word (44 + 8 * i) else 0) [0..<VicMaximumGroups]
      in
        if length st < 40 \<or> take 4 st \<noteq> [0x51, 0x56, 0x49, 0x43] \<or> (word 4 \<noteq> 3 \<and> word 4 \<noteq> 2) \<or> length st \<noteq> 40 + n * 8 \<or>
           st ! 8 \<noteq> vc_SourceCount c \<or> st ! 9 \<noteq> vc_Bank0Sources c \<or> st ! 10 \<noteq> boolByte (vc_ReverseSourceOrder c) \<or>
           st ! 11 \<noteq> vc_VectorOffset c \<or> 1 < st ! 13 \<or> (st ! 13 = 1 \<and> vc_SourceCount c \<le> st ! 12) \<or>
           st ! 14 \<noteq> vc_GroupCount c \<or> st ! 15 \<noteq> 0
        then None
        else if \<exists>i \<in> set [0..<n]. groupEnable ! i AND NOT (vg_ValidMask (vc_Groups c ! i)) \<noteq> 0 \<or>
                  groupLevel ! i AND NOT (vg_ValidMask (vc_Groups c ! i)) \<noteq> 0
        then None
        else if \<exists>bank \<in> set [0, 1]. enable ! bank AND NOT (Vic_validMask bank d) \<noteq> 0 \<or> status ! bank AND NOT (Vic_validMask bank d) \<noteq> 0 \<or>
                  level ! bank AND NOT (Vic_validMask bank d) \<noteq> 0 \<or> status ! bank AND level ! bank \<noteq> level ! bank
        then None
        else Some (d\<lparr>vic_enable := enable, vic_status := status, vic_level := level, vic_groupEnable := groupEnable,
          vic_groupLevel := groupLevel, vic_inService := st ! 12, vic_inServiceValid := (st ! 13 = 1)\<rparr>))"

definition Vic_LoadState :: "'w InterruptLineSink option \<Rightarrow> u8 list \<Rightarrow> QualcommVIC \<Rightarrow> 'w \<Rightarrow> (unit, 'w) vicResult" where
  "Vic_LoadState sink st d w =
     (case Vic_decode st d of
        None \<Rightarrow> (Inl ErrDeviceState, d, w)
      | Some d' \<Rightarrow>
          (case Vic_updateOutput sink d' w of
             (Inl e, w) \<Rightarrow> (Inl e, d, snd (Vic_updateOutput sink d w))
           | (Inr _, w) \<Rightarrow> (Inr (), d', w)))"

subsection \<open>Well-formed controllers\<close>

text \<open>Every bit of the first word is in the second.\<close>

definition within :: "u32 \<Rightarrow> u32 \<Rightarrow> bool" where
  "within x y \<longleftrightarrow> x AND NOT y = 0"

lemma within_iff: "within x y \<longleftrightarrow> (\<forall>n. bit x n \<longrightarrow> bit y n)"
proof -
  have "within x y \<longleftrightarrow> (\<forall>n < 32. bit x n \<longrightarrow> bit y n)"
    by (auto simp: within_def bit_eq_iff bit_simps)
  then show ?thesis using bit_imp_le_length [of x] by auto
qed

lemma within_and: "x AND y = y \<longleftrightarrow> within y x"
proof -
  have "x AND y = y \<longleftrightarrow> (\<forall>n < 32. bit y n \<longrightarrow> bit x n)"
    by (auto simp: bit_eq_iff bit_simps)
  then show ?thesis using bit_imp_le_length [of y] by (auto simp: within_iff)
qed

lemma within_trans: "within x y \<Longrightarrow> within y z \<Longrightarrow> within x z"
  by (simp add: within_iff)

definition config_shape :: "QualcommVectoredInterruptConfig \<Rightarrow> bool" where
  "config_shape c \<longleftrightarrow> VicConfig_validate c \<and> length (vc_ResetEnabledSources c) = 2 \<and> length (vc_Groups c) = VicMaximumGroups"

definition vic_ok :: "QualcommVIC \<Rightarrow> bool" where
  "vic_ok d \<longleftrightarrow> config_shape (vic_config d) \<and>
     length (vic_enable d) = 2 \<and> length (vic_status d) = 2 \<and> length (vic_level d) = 2 \<and>
     length (vic_groupEnable d) = VicMaximumGroups \<and> length (vic_groupLevel d) = VicMaximumGroups \<and>
     (\<forall>bank < 2. within (vic_enable d ! bank) (Vic_validMask bank d) \<and> within (vic_status d ! bank) (Vic_validMask bank d) \<and>
        within (vic_level d ! bank) (vic_status d ! bank)) \<and>
     (\<forall>i < VicMaximumGroups. if i < unat (vc_GroupCount (vic_config d))
        then within (vic_groupEnable d ! i) (vg_ValidMask (vc_Groups (vic_config d) ! i)) \<and>
          within (vic_groupLevel d ! i) (vg_ValidMask (vc_Groups (vic_config d) ! i))
        else vic_groupEnable d ! i = 0 \<and> vic_groupLevel d ! i = 0) \<and>
     (vic_inServiceValid d \<longrightarrow> vic_inService d < vc_SourceCount (vic_config d))"

lemma config_counts:
  assumes "config_shape c"
  shows "0 < unat (vc_Bank0Sources c)" "unat (vc_Bank0Sources c) < unat (vc_SourceCount c)" "unat (vc_Bank0Sources c) \<le> 32"
    "unat (vc_SourceCount c) \<le> unat (vc_Bank0Sources c) + 32" "unat (vc_SourceCount c - vc_Bank0Sources c) = unat (vc_SourceCount c) - unat (vc_Bank0Sources c)"
    "unat (vc_VectorOffset c) + unat (vc_SourceCount c) \<le> 63" "unat (vc_GroupCount c) \<le> VicMaximumGroups"
proof -
  have v: "vc_Bank0Sources c \<noteq> 0" "\<not> vc_SourceCount c \<le> vc_Bank0Sources c" "\<not> 32 < vc_Bank0Sources c"
      "\<not> 32 < vc_SourceCount c - vc_Bank0Sources c" "\<not> 63 \<le> unat (vc_VectorOffset c) + unat (vc_SourceCount c) - 1"
      "unat (vc_GroupCount c) \<le> length (vc_Groups c)" "length (vc_Groups c) = VicMaximumGroups"
    using assms by (auto simp: config_shape_def VicConfig_validate_def)
  show "0 < unat (vc_Bank0Sources c)" using v(1) by (simp add: unat_gt_0)
  show lt: "unat (vc_Bank0Sources c) < unat (vc_SourceCount c)" using v(2) by (simp add: word_le_nat_alt)
  then show diff: "unat (vc_SourceCount c - vc_Bank0Sources c) = unat (vc_SourceCount c) - unat (vc_Bank0Sources c)"
    by (simp add: unat_sub word_le_nat_alt)
  show "unat (vc_Bank0Sources c) \<le> 32" using v(3) by (simp add: word_less_nat_alt)
  have "unat (vc_SourceCount c - vc_Bank0Sources c) \<le> 32" using v(4) by (simp add: word_less_nat_alt)
  then show "unat (vc_SourceCount c) \<le> unat (vc_Bank0Sources c) + 32" unfolding diff by simp
  show "unat (vc_VectorOffset c) + unat (vc_SourceCount c) \<le> 63" using v(5) lt by linarith
  show "unat (vc_GroupCount c) \<le> VicMaximumGroups" using v(6,7) by simp
qed

lemma bankMask_bit: "unat n \<le> 32 \<Longrightarrow> bit (bankMask n) k \<longleftrightarrow> k < unat n"
proof -
  assume n: "unat n \<le> 32"
  have "bankMask n = mask (unat n)"
  proof (cases "n = 32")
    case True
    then show ?thesis by (simp add: bankMask_def mask_numeral)
  next
    case False
    then show ?thesis by (simp add: bankMask_def mask_eq_exp_minus_1 push_bit_eq_mult)
  qed
  then show ?thesis using n by (auto simp: bit_simps)
qed

lemma validMask_bit:
  assumes "config_shape (vic_config d)" "bank < 2"
  shows "bit (Vic_validMask bank d) k \<longleftrightarrow>
    k < (if bank = 1 then unat (vc_SourceCount (vic_config d)) - unat (vc_Bank0Sources (vic_config d))
         else unat (vc_Bank0Sources (vic_config d)))"
proof -
  note c = config_counts [OF assms(1)]
  have "unat (vc_SourceCount (vic_config d) - vc_Bank0Sources (vic_config d)) \<le> 32" using c(4,5) by simp
  then show ?thesis using c(3,5) bankMask_bit by (simp add: Vic_validMask_def)
qed

subsection \<open>Sources and masks\<close>

lemma packed_unat:
  assumes "config_shape (vic_config d)" "source < vc_SourceCount (vic_config d)"
  shows "unat (Vic_packedSource source d) =
      (if vc_ReverseSourceOrder (vic_config d) then unat (vc_SourceCount (vic_config d)) - 1 - unat source else unat source)"
    "unat (Vic_packedSource source d) < unat (vc_SourceCount (vic_config d))"
    "Vic_logicalSource (Vic_packedSource source d) d = source" "Vic_packedSource (Vic_logicalSource source d) d = source"
    "Vic_logicalSource source d < vc_SourceCount (vic_config d)"
proof -
  let ?n = "vc_SourceCount (vic_config d)"
  have lt: "unat source < unat ?n" using assms(2) by (simp add: word_less_nat_alt)
  then have one: "unat (?n - 1) = unat ?n - 1" by (intro unat_minus_one) auto
  have le: "source \<le> ?n - 1" using lt one by (simp add: word_le_nat_alt)
  then have sub: "unat (?n - 1 - source) = unat ?n - 1 - unat source" by (simp add: unat_sub one)
  show packed: "unat (Vic_packedSource source d) = (if vc_ReverseSourceOrder (vic_config d) then unat ?n - 1 - unat source else unat source)"
    by (simp add: Vic_packedSource_def sub)
  then show "unat (Vic_packedSource source d) < unat ?n" using lt by auto
  show "Vic_logicalSource (Vic_packedSource source d) d = source" "Vic_packedSource (Vic_logicalSource source d) d = source"
    by (simp_all add: Vic_packedSource_def Vic_logicalSource_def)
  show "Vic_logicalSource source d < ?n" using lt sub by (auto simp: Vic_logicalSource_def word_less_nat_alt)
qed

lemma sourceMask_Some:
  assumes "config_shape (vic_config d)" "Vic_sourceMask source d = Some (bank, m)"
  shows "bank < 2" "within m (Vic_validMask bank d)" "source < vc_SourceCount (vic_config d)"
    "bit m k \<longleftrightarrow> k + (if bank = 1 then unat (vc_Bank0Sources (vic_config d)) else 0) = unat (Vic_packedSource source d)"
    "bank = (if unat (Vic_packedSource source d) < unat (vc_Bank0Sources (vic_config d)) then 0 else 1)"
proof -
  let ?p = "Vic_packedSource source d" and ?b = "vc_Bank0Sources (vic_config d)"
  note c = config_counts [OF assms(1)]
  show src: "source < vc_SourceCount (vic_config d)"
    using assms(2) by (auto simp: Vic_sourceMask_def Let_def not_le split: if_splits)
  then have ns: "\<not> vc_SourceCount (vic_config d) \<le> source" by (simp add: not_le)
  note p = packed_unat(2) [OF assms(1) src]
  have "bank < 2 \<and> within m (Vic_validMask bank d) \<and> (\<forall>k. bit m k \<longleftrightarrow> k + (if bank = 1 then unat ?b else 0) = unat ?p) \<and>
      bank = (if unat ?p < unat ?b then 0 else 1)"
  proof (cases "?p < ?b")
    case True
    then have lt: "unat ?p < unat ?b" by (simp add: word_less_nat_alt)
    have m: "bank = 0" "m = push_bit (unat ?p) 1" using assms(2) True by (simp_all add: Vic_sourceMask_def Let_def ns)
    have b: "bit m k \<longleftrightarrow> k = unat ?p" for k using lt c(3) by (auto simp: m(2) bit_simps)
    show ?thesis using m(1) b lt validMask_bit [OF assms(1), of 0] by (auto simp: within_iff)
  next
    case False
    then have ge: "unat ?b \<le> unat ?p" by (simp add: word_less_nat_alt)
    then have diff: "unat (?p - ?b) = unat ?p - unat ?b" by (simp add: unat_sub word_le_nat_alt)
    have m: "bank = 1" "m = push_bit (unat ?p - unat ?b) 1" using assms(2) False by (simp_all add: Vic_sourceMask_def Let_def ns diff)
    have "unat ?p - unat ?b < 32" using p c(4) ge by linarith
    then have b: "bit m k \<longleftrightarrow> k = unat ?p - unat ?b" for k by (auto simp: m(2) bit_simps)
    show ?thesis using m(1) b ge p validMask_bit [OF assms(1), of 1] by (auto simp: within_iff)
  qed
  then show "bank < 2" "within m (Vic_validMask bank d)"
    "bit m k \<longleftrightarrow> k + (if bank = 1 then unat ?b else 0) = unat ?p" "bank = (if unat ?p < unat ?b then 0 else 1)" by blast+
qed

lemma sourceMask_total: "source < vc_SourceCount (vic_config d) \<Longrightarrow> Vic_sourceMask source d \<noteq> None"
  by (auto simp: Vic_sourceMask_def Let_def)

lemma validGroups_nth: "validGroups n gs a b \<Longrightarrow> i < length gs \<Longrightarrow> vg_Source (gs ! i) < n"
  by (induction gs arbitrary: a b i) (auto simp: nth_Cons' not_le split: if_splits)

lemma group_source:
  assumes "config_shape c" "i < unat (vc_GroupCount c)"
  shows "vg_Source (vc_Groups c ! i) < vc_SourceCount c" "i < VicMaximumGroups"
proof -
  have "validGroups (vc_SourceCount c) (vicGroups c) {} {}" "length (vicGroups c) = unat (vc_GroupCount c)"
    using assms(1) by (auto simp: config_shape_def VicConfig_validate_def vicGroups_def)
  then show "vg_Source (vc_Groups c ! i) < vc_SourceCount c"
    using validGroups_nth [of "vc_SourceCount c" "vicGroups c" "{}" "{}" i] assms(2) by (simp add: vicGroups_def)
  show "i < VicMaximumGroups" using assms(2) config_counts(7) [OF assms(1)] by simp
qed

lemma findGroup_Some: "findGroup offset i gs = Some (j, s) \<Longrightarrow> i \<le> j \<and> j - i < length gs"
proof (induction gs arbitrary: i)
  case (Cons g gs)
  show ?case
  proof (cases "offset = vg_EnableOffset g \<or> offset = vg_StatusOffset g")
    case False
    then have "findGroup offset (i + 1) gs = Some (j, s)" using Cons.prems by simp
    from Cons.IH [OF this] show ?thesis by auto
  qed (use Cons.prems in \<open>auto split: if_splits\<close>)
qed simp

lemma groupForOffset_Some:
  assumes "config_shape (vic_config d)" "Vic_groupForOffset offset d = Some (i, s)"
  shows "i < unat (vc_GroupCount (vic_config d))" "i < VicMaximumGroups"
proof -
  show i: "i < unat (vc_GroupCount (vic_config d))"
    using findGroup_Some [of offset 0 "vicGroups (vic_config d)" i s] assms(2)
    by (simp add: Vic_groupForOffset_def vicGroups_def)
  show "i < VicMaximumGroups" by (rule group_source(2) [OF assms(1) i])
qed

subsection \<open>Changes that keep a controller well formed\<close>

lemma validMask_config [simp]:
  "Vic_validMask bank (d\<lparr>vic_enable := e\<rparr>) = Vic_validMask bank d" "Vic_validMask bank (d\<lparr>vic_status := s\<rparr>) = Vic_validMask bank d"
  "Vic_validMask bank (d\<lparr>vic_level := l\<rparr>) = Vic_validMask bank d" "Vic_validMask bank (d\<lparr>vic_groupEnable := ge\<rparr>) = Vic_validMask bank d"
  "Vic_validMask bank (d\<lparr>vic_groupLevel := gl\<rparr>) = Vic_validMask bank d" "Vic_validMask bank (d\<lparr>vic_inService := i\<rparr>) = Vic_validMask bank d"
  "Vic_validMask bank (d\<lparr>vic_inServiceValid := v\<rparr>) = Vic_validMask bank d"
  by (simp_all add: Vic_validMask_def)

lemma vic_ok_status:
  assumes d: "vic_ok d" and m: "bank < 2" and s: "within s (Vic_validMask bank d)" "within (vic_level d ! bank) s"
  shows "vic_ok (d\<lparr>vic_status := (vic_status d)[bank := s]\<rparr>)"
  using assms by (auto simp: vic_ok_def nth_list_update)

lemma vic_ok_deassert:
  assumes "vic_ok d" "bank < 2"
  shows "vic_ok (d\<lparr>vic_level := (vic_level d)[bank := vic_level d ! bank AND NOT m]\<rparr>)"
  using assms by (auto simp: vic_ok_def nth_list_update within_iff bit_simps)

lemma vic_ok_assert:
  assumes d: "vic_ok d" and m: "bank < 2" "within m (Vic_validMask bank d)"
  shows "vic_ok (d\<lparr>vic_level := (vic_level d)[bank := vic_level d ! bank OR m], vic_status := (vic_status d)[bank := vic_status d ! bank OR m]\<rparr>)"
  using assms by (auto simp: vic_ok_def nth_list_update within_iff bit_simps)

lemma vic_ok_pulse:
  assumes d: "vic_ok d" and m: "bank < 2" "within m (Vic_validMask bank d)"
  shows "vic_ok (d\<lparr>vic_status := (vic_status d)[bank := vic_status d ! bank OR m]\<rparr>)"
  using assms by (auto simp: vic_ok_def nth_list_update within_iff bit_simps)

lemma vic_ok_acknowledge: "vic_ok d \<Longrightarrow> bank < 2 \<Longrightarrow> vic_ok (Vic_acknowledge bank v d)"
  by (auto simp: vic_ok_def Vic_acknowledge_def nth_list_update within_iff bit_simps dest: bit_imp_le_length)

lemma vic_ok_enableSet: "vic_ok d \<Longrightarrow> bank < 2 \<Longrightarrow> vic_ok (Vic_enableSet bank v d)"
  by (auto simp: vic_ok_def Vic_enableSet_def nth_list_update within_iff bit_simps)

lemma vic_ok_service:
  "vic_ok d \<Longrightarrow> vic_ok (d\<lparr>vic_inService := 0, vic_inServiceValid := False\<rparr>)"
  "vic_ok d \<Longrightarrow> source < vc_SourceCount (vic_config d) \<Longrightarrow> vic_ok (d\<lparr>vic_inService := source, vic_inServiceValid := True\<rparr>)"
  by (simp_all add: vic_ok_def)

lemma vic_ok_groups:
  assumes d: "vic_ok d" and i: "i < unat (vc_GroupCount (vic_config d))" and x: "within x (vg_ValidMask (vc_Groups (vic_config d) ! i))"
  shows "vic_ok (d\<lparr>vic_groupEnable := (vic_groupEnable d)[i := x]\<rparr>)" "vic_ok (d\<lparr>vic_groupLevel := (vic_groupLevel d)[i := x]\<rparr>)"
  using assms group_source(2) [of "vic_config d" i] by (auto simp: vic_ok_def nth_list_update)

subsection \<open>Pending sources\<close>

definition source_pending :: "u8 \<Rightarrow> QualcommVIC \<Rightarrow> bool" where
  "source_pending source d \<longleftrightarrow>
     (case Vic_sourceMask source d of
        None \<Rightarrow> False
      | Some (bank, m) \<Rightarrow> vic_status d ! bank AND vic_enable d ! bank AND m \<noteq> 0)"

text \<open>The sources a claim may answer: pending and not in service.\<close>

definition claimable :: "u8 \<Rightarrow> QualcommVIC \<Rightarrow> bool" where
  "claimable source d \<longleftrightarrow> source_pending source d \<and> \<not> (vic_inServiceValid d \<and> vic_inService d = source)"

lemma TrailingZeros32_spec:
  assumes "x \<noteq> 0"
  shows "bit x (TrailingZeros32 x)" "bit x j \<Longrightarrow> TrailingZeros32 x \<le> j" "TrailingZeros32 x < 32"
proof -
  obtain n where n: "n < 32" "bit x n" using assms by (auto simp: bit_eq_iff)
  let ?t = "takeWhile (\<lambda>n. \<not> bit x n) [0..<32]"
  have lt: "length ?t < 32"
    using n length_takeWhile_le [of "\<lambda>n. \<not> bit x n" "[0..<32]"] takeWhile_eq_all_conv [of "\<lambda>n. \<not> bit x n" "[0..<32]"]
      takeWhile_eq_take [of "\<lambda>n. \<not> bit x n" "[0..<32]"]
    by (metis atLeastLessThan_iff diff_zero le_neq_implies_less length_upt order_refl set_upt take_all zero_le)
  then show small: "TrailingZeros32 x < 32" by (simp add: TrailingZeros32_def)
  show "bit x (TrailingZeros32 x)"
    using nth_length_takeWhile [of "\<lambda>n. \<not> bit x n" "[0..<32]"] lt by (simp add: TrailingZeros32_def)
  show "TrailingZeros32 x \<le> j" if j: "bit x j"
  proof (rule ccontr)
    assume "\<not> TrailingZeros32 x \<le> j"
    then have "j < length ?t" by (simp add: TrailingZeros32_def)
    then have t: "?t ! j \<in> set ?t" "?t ! j = [0..<32] ! j" by (rule nth_mem, rule takeWhile_nth)
    have "?t ! j = j" using t(2) lt \<open>j < length ?t\<close> by (simp only:) simp
    then show False using j set_takeWhileD [OF t(1)] by simp
  qed
qed

lemma claimable_bit:
  assumes d: "config_shape (vic_config d)" and m: "Vic_sourceMask source d = Some (bank, m)" and k: "bit m k"
    and service: "vic_inServiceValid d \<Longrightarrow> vic_inService d < vc_SourceCount (vic_config d)"
  shows "claimable source d \<longleftrightarrow> bit (Vic_pendingBank bank d) k"
proof -
  note s = sourceMask_Some [OF d m]
  have only: "bit m j \<longleftrightarrow> j = k" for j using s(4) [of j] s(4) [of k] k by auto
  have "vic_status d ! bank AND vic_enable d ! bank AND m \<noteq> 0 \<longleftrightarrow> bit (vic_status d ! bank AND vic_enable d ! bank) k"
    using only k bit_imp_le_length [OF k] bit_eq_iff [of "vic_status d ! bank AND vic_enable d ! bank AND m" 0]
    by (auto simp: bit_simps)
  then have pending: "source_pending source d \<longleftrightarrow> bit (vic_status d ! bank AND vic_enable d ! bank) k"
    by (simp add: source_pending_def m)
  show ?thesis
  proof (cases "vic_inServiceValid d")
    case True
    then obtain sb sm where i: "Vic_sourceMask (vic_inService d) d = Some (sb, sm)"
      using sourceMask_total [OF service] by fastforce
    note t = sourceMask_Some [OF d i]
    have "vic_inService d = source \<longleftrightarrow> sb = bank \<and> bit sm k"
    proof
      assume "vic_inService d = source"
      then show "sb = bank \<and> bit sm k" using i m k by simp
    next
      assume "sb = bank \<and> bit sm k"
      then have "sb = bank" "bit sm k" by simp_all
      then have "unat (Vic_packedSource (vic_inService d) d) = unat (Vic_packedSource source d)"
        using t(4) [of k] s(4) [of k] k by (simp only: simp_thms)
      then have "Vic_packedSource (vic_inService d) d = Vic_packedSource source d" by (simp add: word_unat_eq_iff)
      then show "vic_inService d = source" using packed_unat(3) [OF d t(3)] packed_unat(3) [OF d s(3)] by metis
    qed
    then show ?thesis using True bit_imp_le_length [OF k] by (auto simp: claimable_def pending Vic_pendingBank_def i Let_def bit_simps)
  qed (simp add: claimable_def pending Vic_pendingBank_def)
qed

lemma pendingBank_source:
  assumes d: "vic_ok d" and bank: "bank < 2" and k: "bit (Vic_pendingBank bank d) k"
  shows "\<exists>source m. Vic_sourceMask source d = Some (bank, m) \<and> bit m k \<and> source < vc_SourceCount (vic_config d) \<and>
    source = Vic_logicalSource (of_nat k + (if bank = 1 then vc_Bank0Sources (vic_config d) else 0)) d \<and>
    unat (Vic_packedSource source d) = k + (if bank = 1 then unat (vc_Bank0Sources (vic_config d)) else 0)"
proof -
  let ?c = "vic_config d"
  have c: "config_shape ?c" using d by (simp add: vic_ok_def)
  note n = config_counts [OF c]
  have "bit (vic_status d ! bank) k" using k by (auto simp: Vic_pendingBank_def Let_def bit_simps split: if_splits option.splits prod.splits)
  then have "bit (Vic_validMask bank d) k" using d bank by (auto simp: vic_ok_def within_iff)
  then have kb: "k < (if bank = 1 then unat (vc_SourceCount ?c) - unat (vc_Bank0Sources ?c) else unat (vc_Bank0Sources ?c))"
    using validMask_bit [OF c bank] by simp
  have sc: "unat (vc_SourceCount ?c) < 256" using unsigned_less [of "vc_SourceCount ?c"] by simp
  define p where "p = (of_nat k + (if bank = 1 then vc_Bank0Sources ?c else 0) :: u8)"
  have p: "unat p = k + (if bank = 1 then unat (vc_Bank0Sources ?c) else 0)"
    using kb sc n(2) by (simp add: p_def unat_word_ariths unat_of_nat split: if_splits)
  have lt: "p < vc_SourceCount ?c" using kb n(2) by (simp add: word_less_nat_alt p split: if_splits)
  define source where "source = Vic_logicalSource p d"
  have s: "source < vc_SourceCount ?c" "Vic_packedSource source d = p"
    using packed_unat(4,5) [OF c lt] by (simp_all add: source_def)
  obtain b m where m: "Vic_sourceMask source d = Some (b, m)" using sourceMask_total [OF s(1)] by fastforce
  note sm = sourceMask_Some [OF c m]
  have "b = bank" using sm(5) kb p s(2) bank by (auto simp: less_2_cases_iff split: if_splits)
  then show ?thesis using m sm(4) [of k] s p by (intro exI [of _ source] exI [of _ m]) (simp add: source_def p_def)
qed

lemma pendingSource_spec:
  assumes d: "vic_ok d"
  shows "case Vic_pendingSource d of
      None \<Rightarrow> \<forall>source. \<not> claimable source d
    | Some source \<Rightarrow> source < vc_SourceCount (vic_config d) \<and> claimable source d \<and>
        (\<forall>other. claimable other d \<longrightarrow> unat (Vic_packedSource source d) \<le> unat (Vic_packedSource other d))"
proof -
  let ?c = "vic_config d" and ?B = "unat (vc_Bank0Sources (vic_config d))"
  have c: "config_shape ?c" and service: "vic_inServiceValid d \<Longrightarrow> vic_inService d < vc_SourceCount ?c"
    using d by (auto simp: vic_ok_def)
  have other: "\<exists>bank k. bank < 2 \<and> bit (Vic_pendingBank bank d) k \<and>
      unat (Vic_packedSource source d) = k + (if bank = 1 then ?B else 0) \<and> (bank = 0 \<longrightarrow> k < ?B)"
    if cl: "claimable source d" for source
  proof -
    obtain bank m where m: "Vic_sourceMask source d = Some (bank, m)"
      using cl by (auto simp: claimable_def source_pending_def split: option.splits)
    note s = sourceMask_Some [OF c m]
    define k where "k = unat (Vic_packedSource source d) - (if bank = 1 then ?B else 0)"
    have k: "k + (if bank = 1 then ?B else 0) = unat (Vic_packedSource source d)" using s(5) by (auto simp: k_def)
    then have "bit m k" using s(4) by simp
    then have "bit (Vic_pendingBank bank d) k" using claimable_bit [OF c m _ service] cl by simp
    moreover have "bank = 0 \<longrightarrow> k < ?B" using s(5) k by (auto split: if_splits)
    ultimately show ?thesis using s(1) k by (intro exI [of _ bank] exI [of _ k]) simp
  qed
  have first: ?thesis if bank: "bank < 2" and x: "Vic_pendingBank bank d \<noteq> 0" and zero: "bank = 1 \<Longrightarrow> Vic_pendingBank 0 d = 0"
    and eq: "Vic_pendingSource d = Some (Vic_logicalSource (of_nat (TrailingZeros32 (Vic_pendingBank bank d)) + (if bank = 1 then vc_Bank0Sources ?c else 0)) d)" for bank
  proof -
    note t = TrailingZeros32_spec [OF x]
    obtain source m where s: "Vic_sourceMask source d = Some (bank, m)" "bit m (TrailingZeros32 (Vic_pendingBank bank d))"
        "source < vc_SourceCount ?c"
        "source = Vic_logicalSource (of_nat (TrailingZeros32 (Vic_pendingBank bank d)) + (if bank = 1 then vc_Bank0Sources ?c else 0)) d"
        "unat (Vic_packedSource source d) = TrailingZeros32 (Vic_pendingBank bank d) + (if bank = 1 then ?B else 0)"
      using pendingBank_source [OF d bank t(1)] by blast
    have "claimable source d" using claimable_bit [OF c s(1,2) service] t(1) by simp
    moreover have "unat (Vic_packedSource source d) \<le> unat (Vic_packedSource other_source d)" if cl: "claimable other_source d" for other_source
    proof -
      obtain b k where b: "b < 2" "bit (Vic_pendingBank b d) k"
          "unat (Vic_packedSource other_source d) = k + (if b = 1 then ?B else 0)" "b = 0 \<longrightarrow> k < ?B"
        using other [OF cl] by blast
      show ?thesis
      proof (cases "b = bank")
        case True
        then show ?thesis using t(2) [of k] b(2,3) s(5) by simp
      next
        case False
        then have "bank = 0 \<and> b = 1 \<or> bank = 1 \<and> b = 0" using b(1) bank by auto
        then show ?thesis
        proof
          assume bb: "bank = 0 \<and> b = 1"
          have "TrailingZeros32 (Vic_pendingBank bank d) < ?B"
            using sourceMask_Some(5) [OF c s(1)] s(5) bb by (auto split: if_splits)
          then show ?thesis using b(3) s(5) bb by simp
        next
          assume "bank = 1 \<and> b = 0"
          then show ?thesis using zero b(2) by simp
        qed
      qed
    qed
    ultimately show ?thesis using s(3,4) eq by simp
  qed
  show ?thesis
  proof (cases "Vic_pendingBank 0 d = 0")
    case False
    show ?thesis by (rule first [of 0]) (use False in \<open>simp_all add: Vic_pendingSource_def\<close>)
  next
    case zero: True
    show ?thesis
    proof (cases "Vic_pendingBank 1 d = 0")
      case False
      show ?thesis by (rule first [of 1]) (use False zero in \<open>simp_all add: Vic_pendingSource_def\<close>)
    next
      case True
      then have "Vic_pendingSource d = None" using zero by (simp add: Vic_pendingSource_def)
      moreover have "\<not> claimable source d" for source
        using other [of source] True zero by (auto simp: less_2_cases_iff)
      ultimately show ?thesis by simp
    qed
  qed
qed

subsection \<open>Saving and loading\<close>

lemma slice_bytes: "slice (xs @ ys @ zs) n k = ys" if "length xs = n" "length ys = k" for xs ys zs :: "u8 list"
  using that by (simp add: slice_def)

lemma slice_words:
  "i < length ws \<Longrightarrow> slice (concat (map PutUint32 ws) @ rest) (4 * i) 4 = PutUint32 (ws ! i)"
proof (induction ws arbitrary: i)
  case (Cons w ws)
  show ?case
  proof (cases i)
    case (Suc j)
    then have "slice (concat (map PutUint32 ws) @ rest) (4 * j) 4 = PutUint32 (ws ! j)" using Cons by simp
    then show ?thesis by (simp add: Suc slice_def)
  qed (simp add: slice_def)
qed simp

text \<open>The words of a state after its header.\<close>

definition vicWords :: "QualcommVIC \<Rightarrow> u32 list" where
  "vicWords d = vic_enable d @ vic_status d @ vic_level d @
     concat (map (\<lambda>i. [vic_groupEnable d ! i, vic_groupLevel d ! i]) [0..<unat (vc_GroupCount (vic_config d))])"

definition vicHeader :: "QualcommVIC \<Rightarrow> u8 list" where
  "vicHeader d = [0x51, 0x56, 0x49, 0x43] @ PutUint32 3 @
     [vc_SourceCount (vic_config d), vc_Bank0Sources (vic_config d), boolByte (vc_ReverseSourceOrder (vic_config d)),
      vc_VectorOffset (vic_config d), vic_inService d, boolByte (vic_inServiceValid d), vc_GroupCount (vic_config d), 0]"

lemma concat_pairs: "concat (concat (map (\<lambda>x. [f x, g x]) xs)) = concat (map (\<lambda>x. f x @ g x) xs)"
  by (induction xs) simp_all

lemma Vic_SaveState_words: "Vic_SaveState d = vicHeader d @ concat (map PutUint32 (vicWords d))"
  by (simp add: Vic_SaveState_def vicHeader_def vicWords_def Let_def map_concat o_def concat_pairs)

lemma pairs_nth:
  "i < n \<Longrightarrow> concat (map (\<lambda>i. [f i, g i]) [0..<n]) ! (2 * i) = f i \<and> concat (map (\<lambda>i. [f i, g i]) [0..<n]) ! (2 * i + 1) = g i \<and>
     length (concat (map (\<lambda>i. [f i, g i]) [0..<n])) = 2 * n"
proof (induction n)
  case (Suc n)
  have len: "length (concat (map (\<lambda>i. [f i, g i]) [0..<n])) = 2 * n" by (induction n) simp_all
  show ?case using Suc len by (cases "i = n") (auto simp: nth_append)
qed simp

lemma vicWords_nth:
  assumes "vic_ok d"
  shows "length (vicWords d) = 6 + 2 * unat (vc_GroupCount (vic_config d))"
    "bank < 2 \<Longrightarrow> vicWords d ! bank = vic_enable d ! bank" "bank < 2 \<Longrightarrow> vicWords d ! (2 + bank) = vic_status d ! bank"
    "bank < 2 \<Longrightarrow> vicWords d ! (4 + bank) = vic_level d ! bank"
    "i < unat (vc_GroupCount (vic_config d)) \<Longrightarrow> vicWords d ! (6 + 2 * i) = vic_groupEnable d ! i"
    "i < unat (vc_GroupCount (vic_config d)) \<Longrightarrow> vicWords d ! (7 + 2 * i) = vic_groupLevel d ! i"
proof -
  define pairs where "pairs = concat (map (\<lambda>i. [vic_groupEnable d ! i, vic_groupLevel d ! i]) [0..<unat (vc_GroupCount (vic_config d))])"
  have len: "length (vic_enable d) = 2" "length (vic_status d) = 2" "length (vic_level d) = 2" using assms by (simp_all add: vic_ok_def)
  have "length pairs = 2 * unat (vc_GroupCount (vic_config d))"
    unfolding pairs_def by (induction "unat (vc_GroupCount (vic_config d))") (simp_all add: length_concat o_def sum_list_triv)
  then show "length (vicWords d) = 6 + 2 * unat (vc_GroupCount (vic_config d))"
    using len by (simp add: vicWords_def pairs_def)
  show "bank < 2 \<Longrightarrow> vicWords d ! bank = vic_enable d ! bank" "bank < 2 \<Longrightarrow> vicWords d ! (2 + bank) = vic_status d ! bank"
    "bank < 2 \<Longrightarrow> vicWords d ! (4 + bank) = vic_level d ! bank"
    using len by (simp_all add: vicWords_def nth_append)
  assume i: "i < unat (vc_GroupCount (vic_config d))"
  show "vicWords d ! (6 + 2 * i) = vic_groupEnable d ! i" "vicWords d ! (7 + 2 * i) = vic_groupLevel d ! i"
    using len pairs_nth [OF i, of "(!) (vic_groupEnable d)" "(!) (vic_groupLevel d)"] by (simp_all add: vicWords_def nth_append)
qed

text \<open>A state decodes, in any controller of the same configuration, to what was saved.\<close>

lemma Vic_decode_saved:
  assumes d: "vic_ok d" and t: "vic_ok t" "vic_config t = vic_config d"
  shows "Vic_decode (Vic_SaveState d) t = Some d"
proof -
  let ?n = "unat (vc_GroupCount (vic_config d))" and ?st = "Vic_SaveState d"
  note w = vicWords_nth [OF d]
  have header: "length (vicHeader d) = 16" by (simp add: vicHeader_def)
  have bytes: "length (concat (map PutUint32 ws)) = 4 * length ws" for ws by (induction ws) simp_all
  have word: "Uint32 (slice ?st (16 + 4 * i) 4) = vicWords d ! i" if "i < 6 + 2 * ?n" for i
  proof -
    have "slice ?st (16 + 4 * i) 4 = slice (concat (map PutUint32 (vicWords d))) (4 * i) 4"
      by (simp add: Vic_SaveState_words slice_def header)
    then show ?thesis using slice_words [of i "vicWords d" "[]"] that w(1) by simp
  qed
  have six: "Uint32 (slice ?st 16 4) = vic_enable d ! 0" "Uint32 (slice ?st 20 4) = vic_enable d ! 1"
      "Uint32 (slice ?st 24 4) = vic_status d ! 0" "Uint32 (slice ?st 28 4) = vic_status d ! 1"
      "Uint32 (slice ?st 32 4) = vic_level d ! 0" "Uint32 (slice ?st 36 4) = vic_level d ! 1"
    using word [of 0] word [of 1] word [of 2] word [of 3] word [of 4] word [of 5] w(2-4) [of 0] w(2-4) [of 1]
    by (simp_all add: numeral_eq_Suc)
  have groups: "Uint32 (slice ?st (40 + 8 * i) 4) = vic_groupEnable d ! i" "Uint32 (slice ?st (44 + 8 * i) 4) = vic_groupLevel d ! i"
    if i: "i < ?n" for i
  proof -
    have "16 + 4 * (6 + 2 * i) = 40 + 8 * i" "16 + 4 * (7 + 2 * i) = 44 + 8 * i" by simp_all
    moreover have "6 + 2 * i < 6 + 2 * ?n" "7 + 2 * i < 6 + 2 * ?n" using i by simp_all
    ultimately show "Uint32 (slice ?st (40 + 8 * i) 4) = vic_groupEnable d ! i" "Uint32 (slice ?st (44 + 8 * i) 4) = vic_groupLevel d ! i"
      using word [of "6 + 2 * i"] word [of "7 + 2 * i"] w(5,6) [OF i] by simp_all
  qed
  have pair: "xs = [xs ! 0, xs ! 1]" if "length xs = 2" for xs :: "u32 list"
    using that by (auto simp: length_Suc_conv numeral_2_eq_2)
  have banks: "[vic_enable d ! 0, vic_enable d ! 1] = vic_enable d" "[vic_status d ! 0, vic_status d ! 1] = vic_status d"
      "[vic_level d ! 0, vic_level d ! 1] = vic_level d"
    using d pair by (simp_all add: vic_ok_def)
  have arrays: "map (\<lambda>i. if i < ?n then Uint32 (slice ?st (40 + 8 * i) 4) else 0) [0..<VicMaximumGroups] = vic_groupEnable d"
      "map (\<lambda>i. if i < ?n then Uint32 (slice ?st (44 + 8 * i) 4) else 0) [0..<VicMaximumGroups] = vic_groupLevel d"
    by (rule nth_equalityI; use d groups in \<open>auto simp: vic_ok_def\<close>)+
  have head: "take 4 ?st = [0x51, 0x56, 0x49, 0x43]" "Uint32 (slice ?st 4 4) = 3" "length ?st = 40 + ?n * 8"
      "?st ! 8 = vc_SourceCount (vic_config d)" "?st ! 9 = vc_Bank0Sources (vic_config d)"
      "?st ! 10 = boolByte (vc_ReverseSourceOrder (vic_config d))" "?st ! 11 = vc_VectorOffset (vic_config d)"
      "?st ! 12 = vic_inService d" "?st ! 13 = boolByte (vic_inServiceValid d)" "?st ! 14 = vc_GroupCount (vic_config d)" "?st ! 15 = 0"
    using w(1) by (simp_all add: Vic_SaveState_words header bytes) (simp_all add: vicHeader_def slice_def nth_append)
  have service: "\<not> 1 < boolByte (vic_inServiceValid d)" "boolByte (vic_inServiceValid d) = 1 \<longleftrightarrow> vic_inServiceValid d"
    by (simp_all add: boolByte_def)
  have masks: "\<not> (\<exists>i \<in> set [0..<?n]. vic_groupEnable d ! i AND NOT (vg_ValidMask (vc_Groups (vic_config d) ! i)) \<noteq> 0 \<or>
        vic_groupLevel d ! i AND NOT (vg_ValidMask (vc_Groups (vic_config d) ! i)) \<noteq> 0)"
  proof -
    have "within (vic_groupEnable d ! i) (vg_ValidMask (vc_Groups (vic_config d) ! i)) \<and>
        within (vic_groupLevel d ! i) (vg_ValidMask (vc_Groups (vic_config d) ! i))" if "i < ?n" for i
      using d group_source(2) [of "vic_config d" i] that by (auto simp: vic_ok_def)
    then show ?thesis by (auto simp: within_def)
  qed
  have mask_t: "Vic_validMask bank t = Vic_validMask bank d" for bank by (simp add: Vic_validMask_def t(2))
  have bank_ok: "vic_enable d ! bank AND NOT (Vic_validMask bank d) = 0" "vic_status d ! bank AND NOT (Vic_validMask bank d) = 0"
      "vic_level d ! bank AND NOT (Vic_validMask bank d) = 0" "vic_status d ! bank AND vic_level d ! bank = vic_level d ! bank"
    if "bank < 2" for bank
    using d that within_trans [of "vic_level d ! bank" "vic_status d ! bank" "Vic_validMask bank d"]
      within_and [of "vic_status d ! bank" "vic_level d ! bank"]
    by (simp_all add: vic_ok_def within_def [symmetric])
  have in_service: "\<not> (vic_inServiceValid d \<and> vc_SourceCount (vic_config d) \<le> vic_inService d)"
    using d by (auto simp: vic_ok_def not_le)
  show ?thesis
    unfolding Vic_decode_def Let_def t(2) arrays six banks head service mask_t
    using masks bank_ok in_service service t(2) by simp
qed

lemma Vic_decode_ok:
  assumes d: "vic_ok d" and st: "Vic_decode st d = Some d'"
  shows "vic_ok d' \<and> vic_config d' = vic_config d"
proof -
  let ?c = "vic_config d" and ?n = "unat (vc_GroupCount (vic_config d))"
  have c: "config_shape ?c" using d by (simp add: vic_ok_def)
  note facts = st [unfolded Vic_decode_def Let_def, simplified]
  define enable status level where "enable = [Uint32 (slice st 16 4), Uint32 (slice st 20 4)]"
    and "status = [Uint32 (slice st 24 4), Uint32 (slice st 28 4)]" and "level = [Uint32 (slice st 32 4), Uint32 (slice st 36 4)]"
  define ge gl where "ge = map (\<lambda>i. if i < ?n then Uint32 (slice st (40 + 8 * i) 4) else 0) [0..<VicMaximumGroups]"
    and "gl = map (\<lambda>i. if i < ?n then Uint32 (slice st (44 + 8 * i) 4) else 0) [0..<VicMaximumGroups]"
  have d': "d' = d\<lparr>vic_enable := enable, vic_status := status, vic_level := level, vic_groupEnable := ge,
          vic_groupLevel := gl, vic_inService := st ! 12, vic_inServiceValid := (st ! 13 = 1)\<rparr>"
      and groups: "\<forall>i < ?n. ge ! i AND NOT (vg_ValidMask (vc_Groups ?c ! i)) = 0 \<and> gl ! i AND NOT (vg_ValidMask (vc_Groups ?c ! i)) = 0"
      and banks: "\<forall>bank \<in> set [0, 1]. enable ! bank AND NOT (Vic_validMask bank d) = 0 \<and> status ! bank AND NOT (Vic_validMask bank d) = 0 \<and>
        status ! bank AND level ! bank = level ! bank"
      and service: "st ! 13 = 1 \<longrightarrow> \<not> vc_SourceCount ?c \<le> st ! 12"
    using st unfolding Vic_decode_def Let_def enable_def [symmetric] status_def [symmetric] level_def [symmetric]
      ge_def [symmetric] gl_def [symmetric] by (auto split: if_splits)
  have lens: "length enable = 2" "length status = 2" "length level = 2" "length ge = VicMaximumGroups" "length gl = VicMaximumGroups"
    by (simp_all add: enable_def status_def level_def ge_def gl_def)
  have mask': "Vic_validMask bank d' = Vic_validMask bank d" for bank by (simp add: d')
  have "within (enable ! bank) (Vic_validMask bank d) \<and> within (status ! bank) (Vic_validMask bank d) \<and> within (level ! bank) (status ! bank)"
    if "bank < 2" for bank
  proof -
    have "bank \<in> set [0, 1]" using that by auto
    then show ?thesis using banks within_and [of "status ! bank" "level ! bank"] unfolding within_def by blast
  qed
  moreover have "if i < ?n then within (ge ! i) (vg_ValidMask (vc_Groups ?c ! i)) \<and> within (gl ! i) (vg_ValidMask (vc_Groups ?c ! i))
      else ge ! i = 0 \<and> gl ! i = 0" if "i < VicMaximumGroups" for i
    using groups that by (cases "i < ?n") (simp add: within_def, simp add: ge_def gl_def)
  ultimately show ?thesis
    using c lens service unfolding vic_ok_def mask' by (simp add: d' not_le)
qed

subsection \<open>The interrupt line\<close>

text \<open>
  What the controller relies on: while the sink is usable, driving the IRQ line succeeds, and the
  line is then what it was driven to.
\<close>

locale interrupt_sink =
  fixes usable :: "'w \<Rightarrow> bool"
    and drive :: "'w InterruptLineSink"
    and line :: "'w \<Rightarrow> bool"
  assumes driven: "usable w \<Longrightarrow> fst (drive InterruptIRQ a w) = Inr () \<and> usable (snd (drive InterruptIRQ a w)) \<and>
      line (snd (drive InterruptIRQ a w)) = a"
begin

text \<open>A well-formed controller whose output is on the line.\<close>

definition settled :: "QualcommVIC \<times> 'w \<Rightarrow> bool" where
  "settled s \<longleftrightarrow> vic_ok (fst s) \<and> usable (snd s) \<and> (line (snd s) \<longleftrightarrow> Vic_asserted (fst s))"

lemma updateOutput_driven:
  assumes "usable w"
  shows "\<exists>w'. Vic_updateOutput (Some drive) d w = (Inr (), w') \<and> usable w' \<and> (line w' \<longleftrightarrow> Vic_asserted d)"
proof -
  obtain res w' where "drive InterruptIRQ (Vic_asserted d) w = (res, w')" by fastforce
  then show ?thesis using driven [OF assms, of "Vic_asserted d"] by (simp add: Vic_updateOutput_def)
qed

lemma drive_settles:
  assumes "vic_ok d" "usable w"
  shows "settled (snd (Vic_drive (Some drive) d w))" "fst (Vic_drive (Some drive) d w) = Inr ()"
    "fst (snd (Vic_drive (Some drive) d w)) = d"
  using updateOutput_driven [OF assms(2), of d] assms(1) by (auto simp: Vic_drive_def settled_def)

lemma settledD: "settled (d, w) \<Longrightarrow> vic_ok d" "settled (d, w) \<Longrightarrow> usable w" "settled (d, w) \<Longrightarrow> line w \<longleftrightarrow> Vic_asserted d"
  by (simp_all add: settled_def)

lemma vic_ok_shape: "vic_ok d \<Longrightarrow> config_shape (vic_config d)"
  by (simp add: vic_ok_def)

lemma Reset_settles:
  assumes "config_shape (vic_config d)" "usable w"
  shows "settled (snd (Vic_Reset (Some drive) d w))" "fst (Vic_Reset (Some drive) d w) = Inr ()"
proof -
  have "within (vc_ResetEnabledSources (vic_config d) ! bank) (Vic_validMask bank d)" if "bank < 2" for bank
    using assms(1) that by (auto simp: config_shape_def VicConfig_validate_def Vic_validMask_def within_def less_2_cases_iff)
  moreover have "within 0 x" for x by (simp add: within_def)
  ultimately have "vic_ok (d\<lparr>vic_enable := vc_ResetEnabledSources (vic_config d), vic_status := [0, 0], vic_level := [0, 0],
       vic_groupEnable := replicate VicMaximumGroups 0, vic_groupLevel := replicate VicMaximumGroups 0,
       vic_inService := 0, vic_inServiceValid := False\<rparr>)"
    using assms(1) by (auto simp: vic_ok_def config_shape_def less_2_cases_iff)
  from drive_settles [OF this assms(2)] show "settled (snd (Vic_Reset (Some drive) d w))" "fst (Vic_Reset (Some drive) d w) = Inr ()"
    by (simp_all add: Vic_Reset_def)
qed

lemma SetSource_settles:
  assumes "settled (d, w)"
  shows "settled (snd (Vic_SetSource (Some drive) source asserted d w))"
proof (cases "Vic_sourceMask source d")
  case None
  then show ?thesis using assms by (simp add: Vic_SetSource_def)
next
  case (Some p)
  obtain bank m where p: "p = (bank, m)" by (cases p)
  note d = settledD(1) [OF assms]
  note s = sourceMask_Some [OF vic_ok_shape [OF d] Some [unfolded p]]
  show ?thesis
    using drive_settles(1) [OF vic_ok_assert [OF d s(1,2)] settledD(2) [OF assms]]
      drive_settles(1) [OF vic_ok_deassert [OF d s(1), of m] settledD(2) [OF assms]]
    by (simp add: Vic_SetSource_def Some p)
qed

lemma PulseSource_settles:
  assumes "settled (d, w)"
  shows "settled (snd (Vic_PulseSource (Some drive) source d w))"
proof (cases "Vic_sourceMask source d")
  case None
  then show ?thesis using assms by (simp add: Vic_PulseSource_def)
next
  case (Some p)
  obtain bank m where p: "p = (bank, m)" by (cases p)
  note d = settledD(1) [OF assms]
  note s = sourceMask_Some [OF vic_ok_shape [OF d] Some [unfolded p]]
  show ?thesis
    using drive_settles(1) [OF vic_ok_pulse [OF d s(1,2)] settledD(2) [OF assms]] assms
    by (simp add: Vic_PulseSource_def Some p)
qed

lemma asserted_groups [simp]:
  "Vic_asserted (d\<lparr>vic_groupEnable := g\<rparr>) = Vic_asserted d" "Vic_asserted (d\<lparr>vic_groupLevel := g\<rparr>) = Vic_asserted d"
  by (simp_all add: Vic_asserted_def)

lemma sourceMask_level: "Vic_sourceMask source (d\<lparr>vic_level := l\<rparr>) = Vic_sourceMask source d"
  by (simp add: Vic_sourceMask_def Vic_packedSource_def)

lemma refresh_settles:
  assumes s: "settled (d, w)" and i: "i < unat (vc_GroupCount (vic_config d))"
  shows "settled (snd (Vic_refreshGroupSource (Some drive) i d w))"
proof -
  let ?src = "vg_Source (vc_Groups (vic_config d) ! i)"
  note d = settledD(1) [OF s]
  have src: "?src < vc_SourceCount (vic_config d)" by (rule group_source(1) [OF vic_ok_shape [OF d] i])
  obtain bank m where m: "Vic_sourceMask ?src d = Some (bank, m)" using sourceMask_total [OF src] by fastforce
  note sm = sourceMask_Some [OF vic_ok_shape [OF d] m]
  define a where "a = (vic_groupLevel d ! i AND vic_groupEnable d ! i \<noteq> 0)"
  define d' where "d' = (if a then d\<lparr>vic_level := (vic_level d)[bank := vic_level d ! bank OR m], vic_status := (vic_status d)[bank := vic_status d ! bank OR m]\<rparr>
       else d\<lparr>vic_level := (vic_level d)[bank := vic_level d ! bank AND NOT m]\<rparr>)"
  obtain w1 where "Vic_updateOutput (Some drive) d' w = (Inr (), w1)"
    using updateOutput_driven [OF settledD(2) [OF s], of d'] by blast
  then have on: "Vic_SetSource (Some drive) ?src a d w = (Inr (), d', w1)"
    by (simp add: Vic_SetSource_def m Vic_drive_def d'_def)
  have settled1: "settled (snd (Vic_SetSource (Some drive) ?src a d w))" by (rule SetSource_settles [OF s])
  show ?thesis
  proof (cases a)
    case True
    then show ?thesis using on settled1 i by (simp add: Vic_refreshGroupSource_def d'_def Let_def a_def [symmetric] not_le)
  next
    case False
    let ?d1 = "d\<lparr>vic_level := (vic_level d)[bank := vic_level d ! bank AND NOT m]\<rparr>"
    have d1: "vic_ok ?d1" "usable w1" using settled1 [unfolded on settled_def] False by (simp_all add: d'_def)
    have m1: "Vic_sourceMask ?src ?d1 = Some (bank, m)"
      using m by (simp only: sourceMask_level)
    let ?d2 = "?d1\<lparr>vic_status := (vic_status ?d1)[bank := vic_status ?d1 ! bank AND NOT m]\<rparr>"
    have "vic_ok ?d2"
      by (rule vic_ok_status [OF d1(1) sm(1)])
        (use d sm(1) in \<open>auto simp: vic_ok_def within_iff bit_simps dest: bit_imp_le_length\<close>)
    note ok2 = this vic_ok_service(1) [OF this]
    show ?thesis
      using drive_settles(1) [OF ok2(1) d1(2)] drive_settles(1) [OF ok2(2) d1(2)] on False i m1
      by (simp add: Vic_refreshGroupSource_def d'_def Let_def a_def [symmetric] not_le)
  qed
qed

lemma SetGroupedSource_settles:
  assumes s: "settled (d, w)"
  shows "settled (snd (Vic_SetGroupedSource (Some drive) offset m asserted d w))"
proof (cases "Vic_groupForOffset offset d")
  case None
  then show ?thesis using s by (simp add: Vic_SetGroupedSource_def)
next
  case (Some p)
  obtain i status where p: "p = (i, status)" by (cases p)
  note d = settledD(1) [OF s]
  note i = groupForOffset_Some [OF vic_ok_shape [OF d] Some [unfolded p]]
  let ?mask = "vg_ValidMask (vc_Groups (vic_config d) ! i)"
  show ?thesis
  proof (cases "\<not> status \<or> m = 0 \<or> m AND NOT ?mask \<noteq> 0")
    case True
    then show ?thesis using s by (auto simp: Vic_SetGroupedSource_def Some p)
  next
    case False
    define x where "x = (if asserted then vic_groupLevel d ! i OR m else vic_groupLevel d ! i AND NOT m)"
    have "within (vic_groupLevel d ! i) ?mask" "within m ?mask" using d i False by (auto simp: vic_ok_def within_def)
    then have "within x ?mask" by (auto simp: x_def within_iff bit_simps)
    from vic_ok_groups(2) [OF d i(1) this] have "settled (d\<lparr>vic_groupLevel := (vic_groupLevel d)[i := x]\<rparr>, w)"
      using s by (simp add: settled_def)
    from refresh_settles [OF this, of i] show ?thesis
      using i(1) False by (simp add: Vic_SetGroupedSource_def Some p Let_def x_def [symmetric])
  qed
qed

lemma empty_settles:
  assumes s: "settled (d, w)"
  shows "settled (snd (Vic_completeEmptyService (Some drive) d w))"
    "fst (Vic_completeEmptyService (Some drive) d w) = Inr VicNoPendingVector"
    "fst (snd (Vic_completeEmptyService (Some drive) d w)) = d\<lparr>vic_inService := 0, vic_inServiceValid := False\<rparr>"
  using drive_settles [OF vic_ok_service(1) [OF settledD(1) [OF s]] settledD(2) [OF s]]
  by (auto simp: Vic_completeEmptyService_def split: prod.split sum.split)

lemma claim_settles:
  assumes s: "settled (d, w)"
  shows "settled (snd (Vic_claimPendingSource (Some drive) d w))"
    "Vic_pendingSource d = Some source \<Longrightarrow>
      fst (Vic_claimPendingSource (Some drive) d w) = Inr (ucast (Vic_vectorForSource source d)) \<and>
      fst (snd (Vic_claimPendingSource (Some drive) d w)) = d\<lparr>vic_inService := source, vic_inServiceValid := True\<rparr>"
proof -
  have one: "settled (snd (Vic_claimPendingSource (Some drive) d w)) \<and>
      fst (Vic_claimPendingSource (Some drive) d w) = Inr (ucast (Vic_vectorForSource source d)) \<and>
      fst (snd (Vic_claimPendingSource (Some drive) d w)) = d\<lparr>vic_inService := source, vic_inServiceValid := True\<rparr>"
    if p: "Vic_pendingSource d = Some source" for source
  proof -
    let ?d = "d\<lparr>vic_inService := source, vic_inServiceValid := True\<rparr>"
    have "source < vc_SourceCount (vic_config d)" using pendingSource_spec [OF settledD(1) [OF s]] p by simp
    note ok = vic_ok_service(2) [OF settledD(1) [OF s] this]
    obtain w' where "Vic_updateOutput (Some drive) ?d w = (Inr (), w')" "usable w'" "line w' \<longleftrightarrow> Vic_asserted ?d"
      using updateOutput_driven [OF settledD(2) [OF s], of ?d] by blast
    moreover have "Vic_vectorForSource source ?d = Vic_vectorForSource source d"
      by (simp add: Vic_vectorForSource_def Vic_packedSource_def)
    ultimately show ?thesis using ok by (simp add: Vic_claimPendingSource_def p settled_def)
  qed
  show "settled (snd (Vic_claimPendingSource (Some drive) d w))"
    using one empty_settles(1) [OF s] by (cases "Vic_pendingSource d") (simp_all add: Vic_claimPendingSource_def)
  show "Vic_pendingSource d = Some source \<Longrightarrow>
      fst (Vic_claimPendingSource (Some drive) d w) = Inr (ucast (Vic_vectorForSource source d)) \<and>
      fst (snd (Vic_claimPendingSource (Some drive) d w)) = d\<lparr>vic_inService := source, vic_inServiceValid := True\<rparr>"
    using one by blast
qed

lemma Read_settles:
  assumes s: "settled (d, w)"
  shows "settled (snd (Vic_Read (Some drive) offset width d w))"
proof (cases "Vic_groupForOffset offset d")
  case None
  have "settled (snd (Vic_readPendingSource (Some drive) d w))"
    using s empty_settles(1) [OF s] by (cases "Vic_pendingSource d") (simp_all add: Vic_readPendingSource_def)
  then show ?thesis using s claim_settles(1) [OF s] by (simp add: Vic_Read_def None)
next
  case (Some p)
  then show ?thesis using s by (cases p) (simp add: Vic_Read_def)
qed

lemma Write_settles:
  assumes s: "settled (d, w)"
  shows "settled (snd (Vic_Write (Some drive) offset width v d w))"
proof (cases "Vic_groupForOffset offset d")
  case None
  note d = settledD(1) [OF s] and u = settledD(2) [OF s]
  have two: "(0 :: nat) < 2" "(1 :: nat) < 2" by simp_all
  show ?thesis
    using s drive_settles(1) [OF vic_ok_acknowledge [OF d two(1)] u, of v] drive_settles(1) [OF vic_ok_acknowledge [OF d two(2)] u, of v]
      drive_settles(1) [OF vic_ok_enableSet [OF d two(1)] u, of v] drive_settles(1) [OF vic_ok_enableSet [OF d two(2)] u, of v]
      drive_settles(1) [OF vic_ok_service(1) [OF d] u]
    by (simp add: Vic_Write_def None)
next
  case (Some p)
  obtain i status where p: "p = (i, status)" by (cases p)
  note d = settledD(1) [OF s]
  note i = groupForOffset_Some [OF vic_ok_shape [OF d] Some [unfolded p]]
  define x where "x = vic_groupEnable d ! i OR v AND vg_ValidMask (vc_Groups (vic_config d) ! i)"
  have "within (vic_groupEnable d ! i) (vg_ValidMask (vc_Groups (vic_config d) ! i))" using d i by (auto simp: vic_ok_def)
  then have "within x (vg_ValidMask (vc_Groups (vic_config d) ! i))" by (auto simp: x_def within_iff bit_simps)
  from vic_ok_groups(1) [OF d i(1) this] have "settled (d\<lparr>vic_groupEnable := (vic_groupEnable d)[i := x]\<rparr>, w)"
    using s by (simp add: settled_def)
  from refresh_settles [OF this, of i] show ?thesis
    using i(1) s by (simp add: Vic_Write_def Some p x_def [symmetric])
qed

lemma LoadState_settles:
  assumes s: "settled (d, w)"
  shows "settled (snd (Vic_LoadState (Some drive) st d w))"
    "fst (Vic_LoadState (Some drive) st d w) = (if Vic_decode st d = None then Inl ErrDeviceState else Inr ())"
    "fst (snd (Vic_LoadState (Some drive) st d w)) = (case Vic_decode st d of None \<Rightarrow> d | Some d' \<Rightarrow> d')"
proof -
  have "settled (snd (Vic_LoadState (Some drive) st d w)) \<and>
    fst (Vic_LoadState (Some drive) st d w) = (if Vic_decode st d = None then Inl ErrDeviceState else Inr ()) \<and>
    fst (snd (Vic_LoadState (Some drive) st d w)) = (case Vic_decode st d of None \<Rightarrow> d | Some d' \<Rightarrow> d')"
  proof (cases "Vic_decode st d")
    case None
    then show ?thesis using s by (simp add: Vic_LoadState_def)
  next
    case (Some d')
    obtain w' where "Vic_updateOutput (Some drive) d' w = (Inr (), w')" "usable w'" "line w' \<longleftrightarrow> Vic_asserted d'"
      using updateOutput_driven [OF settledD(2) [OF s], of d'] by blast
    then show ?thesis using Vic_decode_ok [OF settledD(1) [OF s] Some] by (simp add: Vic_LoadState_def Some settled_def)
  qed
  then show "settled (snd (Vic_LoadState (Some drive) st d w))"
    "fst (Vic_LoadState (Some drive) st d w) = (if Vic_decode st d = None then Inl ErrDeviceState else Inr ())"
    "fst (snd (Vic_LoadState (Some drive) st d w)) = (case Vic_decode st d of None \<Rightarrow> d | Some d' \<Rightarrow> d')" by blast+
qed

end

text \<open>The processor's interrupt line is such a sink until the processor is closed.\<close>

interpretation cpu_line: interrupt_sink "\<lambda>b. \<not> closed b" SetInterruptLine "line_asserted InterruptIRQ"
proof
  fix b :: backend and a
  assume "\<not> closed b"
  then show "fst (SetInterruptLine InterruptIRQ a b) = Inr () \<and> \<not> closed (snd (SetInterruptLine InterruptIRQ a b)) \<and>
      line_asserted InterruptIRQ (snd (SetInterruptLine InterruptIRQ a b)) = a"
    unfolding line_asserted_bits(1)
    by (cases a) (simp_all add: SetInterruptLine_def InterruptLine_Valid_def Let_def InterruptIRQ_def bit_simps)
qed

subsection \<open>Every sequence of operations\<close>

datatype vicOp =
    VicReset
  | VicRead u32 Width
  | VicWrite u32 Width u32
  | VicSource u8 bool
  | VicPulse u8
  | VicGrouped u32 u32 bool
  | VicLoad "u8 list"

fun vicStep :: "'w InterruptLineSink option \<Rightarrow> vicOp \<Rightarrow> QualcommVIC \<times> 'w \<Rightarrow> QualcommVIC \<times> 'w" where
  "vicStep sink VicReset (d, w) = snd (Vic_Reset sink d w)"
| "vicStep sink (VicRead offset width) (d, w) = snd (Vic_Read sink offset width d w)"
| "vicStep sink (VicWrite offset width v) (d, w) = snd (Vic_Write sink offset width v d w)"
| "vicStep sink (VicSource source asserted) (d, w) = snd (Vic_SetSource sink source asserted d w)"
| "vicStep sink (VicPulse source) (d, w) = snd (Vic_PulseSource sink source d w)"
| "vicStep sink (VicGrouped offset m asserted) (d, w) = snd (Vic_SetGroupedSource sink offset m asserted d w)"
| "vicStep sink (VicLoad st) (d, w) = snd (Vic_LoadState sink st d w)"

context interrupt_sink
begin

lemma vicStep_settles: "settled s \<Longrightarrow> settled (vicStep (Some drive) x s)"
proof -
  assume s: "settled s"
  obtain d w where p: "s = (d, w)" by (cases s)
  note r = s [unfolded p]
  show ?thesis
    using Reset_settles(1) [OF vic_ok_shape [OF settledD(1) [OF r]] settledD(2) [OF r]] Read_settles [OF r] Write_settles [OF r]
      SetSource_settles [OF r] PulseSource_settles [OF r] SetGroupedSource_settles [OF r] LoadState_settles(1) [OF r]
    unfolding p by (cases x) simp_all
qed

lemma New_settles:
  assumes "NewQualcommVIC c (Some drive) w = (Inr d, w')" "usable w"
    "length (vc_ResetEnabledSources c) = 2" "length (vc_Groups c) = VicMaximumGroups"
  shows "settled (d, w')"
proof -
  let ?d = "\<lparr>vic_config = c, vic_enable = [0, 0], vic_status = [0, 0], vic_level = [0, 0],
             vic_groupEnable = replicate VicMaximumGroups 0, vic_groupLevel = replicate VicMaximumGroups 0,
             vic_inService = 0, vic_inServiceValid = False\<rparr>"
  have "config_shape (vic_config ?d)" using assms by (simp add: config_shape_def NewQualcommVIC_def split: if_splits)
  from Reset_settles [OF this assms(2)] assms(1) show ?thesis
    by (auto simp: NewQualcommVIC_def split: if_splits prod.splits sum.splits)
qed

end

interpretation vic_script: scripted cpu_line.settled "vicStep (Some SetInterruptLine)"
  by unfold_locales (rule cpu_line.vicStep_settles)

lemma asserted_claimable:
  assumes d: "vic_ok d"
  shows "Vic_asserted d \<longleftrightarrow> \<not> vic_inServiceValid d \<and> (\<exists>source. source_pending source d)"
proof (cases "vic_inServiceValid d")
  case False
  have "Vic_pendingSource d = None \<longleftrightarrow> \<not> Vic_asserted d"
    using False by (simp add: Vic_pendingSource_def Vic_asserted_def Vic_pendingBank_def)
  moreover have "claimable source d \<longleftrightarrow> source_pending source d" for source using False by (simp add: claimable_def)
  ultimately show ?thesis using pendingSource_spec [OF d] False by (cases "Vic_pendingSource d") auto
qed (simp add: Vic_asserted_def)

text \<open>
  C11. However a vectored interrupt controller is driven, by register accesses of any width and
  offset, level and pulsed sources, grouped sources, resets and loads of arbitrary bytes, whether
  they succeed or fail, it stays well formed and the processor's IRQ line is asserted exactly when
  no vector is in service and some source is both latched and enabled.
\<close>

theorem vic_drives_irq_line:
  assumes "NewQualcommVIC c (Some SetInterruptLine) b = (Inr d, b0)" "\<not> closed b"
    "length (vc_ResetEnabledSources c) = 2" "length (vc_Groups c) = VicMaximumGroups"
    and "fold (vicStep (Some SetInterruptLine)) script (d, b0) = (d', b')"
  shows "vic_ok d' \<and> \<not> closed b' \<and>
    (line_asserted InterruptIRQ b' \<longleftrightarrow> \<not> vic_inServiceValid d' \<and> (\<exists>source. source_pending source d'))"
proof -
  have "cpu_line.settled (d', b')"
    using vic_script.script_inv [OF cpu_line.New_settles [OF assms(1-4)], of script] unfolding assms(5) .
  then show ?thesis using asserted_claimable by (auto simp: cpu_line.settled_def)
qed

lemma validGroups_core:
  "validGroups n gs a b \<Longrightarrow> isQualcommVICCoreOffset offset \<Longrightarrow> findGroup offset i gs = None"
  by (induction gs arbitrary: a b i) (auto split: if_splits)

lemma core_no_group: "config_shape (vic_config d) \<Longrightarrow> isQualcommVICCoreOffset offset \<Longrightarrow> Vic_groupForOffset offset d = None"
  by (auto simp: Vic_groupForOffset_def config_shape_def VicConfig_validate_def intro: validGroups_core)

lemma vector_unat:
  assumes c: "config_shape (vic_config d)" and s: "source < vc_SourceCount (vic_config d)"
  shows "unat (Vic_vectorForSource source d) = unat (Vic_packedSource source d) + unat (vc_VectorOffset (vic_config d))"
    "unat (Vic_vectorForSource source d) < 63"
proof -
  have "unat (Vic_packedSource source d) + unat (vc_VectorOffset (vic_config d)) < 63"
    using packed_unat(2) [OF c s] config_counts(6) [OF c] by linarith
  then show "unat (Vic_vectorForSource source d) = unat (Vic_packedSource source d) + unat (vc_VectorOffset (vic_config d))"
    "unat (Vic_vectorForSource source d) < 63"
    by (simp_all add: Vic_vectorForSource_def unat_word_ariths)
qed

text \<open>
  C14. Reading the vector port claims an interrupt: among the sources that are latched, enabled and
  not already in service it answers the vector of the one that comes first in the packed order,
  marks it in service and releases the IRQ line, leaving every latch as it is; with none, it
  answers the idle vector 0x3F, which is no source's vector, and completes the service, so that
  the line reports what is pending.
\<close>

theorem vic_claims_highest_priority:
  assumes d: "vic_ok d" and b: "\<not> closed b" "line_asserted InterruptIRQ b \<longleftrightarrow> Vic_asserted d"
    and read: "Vic_Read (Some SetInterruptLine) VicVectorRead Width32 d b = (v, d', b')"
  shows "if \<exists>source. claimable source d
    then \<exists>source. claimable source d \<and> (\<forall>other. claimable other d \<longrightarrow> unat (Vic_packedSource source d) \<le> unat (Vic_packedSource other d)) \<and>
      v = Inr (of_nat (unat (Vic_packedSource source d) + unat (vc_VectorOffset (vic_config d)))) \<and> v \<noteq> Inr VicNoPendingVector \<and>
      d' = d\<lparr>vic_inService := source, vic_inServiceValid := True\<rparr> \<and> \<not> line_asserted InterruptIRQ b'
    else v = Inr VicNoPendingVector \<and> d' = d\<lparr>vic_inService := 0, vic_inServiceValid := False\<rparr> \<and>
      (line_asserted InterruptIRQ b' \<longleftrightarrow> (\<exists>source. source_pending source d))"
proof -
  have c: "config_shape (vic_config d)" using d by (simp add: vic_ok_def)
  have s: "cpu_line.settled (d, b)" using d b by (simp add: cpu_line.settled_def)
  have "Vic_groupForOffset VicVectorRead d = None"
    by (rule core_no_group [OF c]) (simp add: isQualcommVICCoreOffset_def)
  then have r: "(v, d', b') = Vic_claimPendingSource (Some SetInterruptLine) d b"
    using read by (simp add: Vic_Read_def vic_offsets)
  have line: "line_asserted InterruptIRQ b' \<longleftrightarrow> Vic_asserted d'" "vic_ok d'"
    using cpu_line.claim_settles(1) [OF s] by (simp_all add: r [symmetric] cpu_line.settled_def)
  note spec = pendingSource_spec [OF d]
  show ?thesis
  proof (cases "Vic_pendingSource d")
    case None
    then have "\<not> (\<exists>source. claimable source d)" using spec by simp
    moreover have res: "v = Inr VicNoPendingVector" "d' = d\<lparr>vic_inService := 0, vic_inServiceValid := False\<rparr>"
      using cpu_line.empty_settles(2,3) [OF s] r None by (simp_all add: Vic_claimPendingSource_def prod_eq_iff)
    moreover have "source_pending source d' \<longleftrightarrow> source_pending source d" for source
    proof -
      have "Vic_sourceMask source d' = Vic_sourceMask source d"
        by (simp add: res(2) Vic_sourceMask_def Vic_packedSource_def)
      then show ?thesis by (simp add: source_pending_def res(2) split: option.split)
    qed
    ultimately show ?thesis using line asserted_claimable [OF line(2)] by simp
  next
    case (Some source)
    note sp = spec [unfolded Some option.case]
    note cl = cpu_line.claim_settles(2) [OF s Some]
    have res: "v = Inr (ucast (Vic_vectorForSource source d))" "d' = d\<lparr>vic_inService := source, vic_inServiceValid := True\<rparr>"
      using cl by (simp_all add: r [symmetric])
    note vec = vector_unat [OF c conjunct1 [OF sp]]
    have u: "(ucast (Vic_vectorForSource source d) :: u32) = of_nat (unat (Vic_vectorForSource source d))"
      by simp
    have "unat (ucast (Vic_vectorForSource source d) :: u32) = unat (Vic_vectorForSource source d)"
      using unat_widthValue [of "Vic_vectorForSource source d"] by (simp add: widthValue_def)
    then have "unat (ucast (Vic_vectorForSource source d) :: u32) \<noteq> unat VicNoPendingVector"
      using vec(2) by (simp add: VicNoPendingVector_def)
    then have "(ucast (Vic_vectorForSource source d) :: u32) \<noteq> VicNoPendingVector" by (rule contrapos_nn) simp
    moreover have "\<not> line_asserted InterruptIRQ b'" using line(1) by (simp add: res(2) Vic_asserted_def)
    ultimately show ?thesis using sp res u vec(1) by auto
  qed
qed

text \<open>A controller of 49 sources in banks of 25 and 24, with sources 1 and 2 enabled at reset.\<close>

definition sampleVicConfig :: QualcommVectoredInterruptConfig where
  "sampleVicConfig = \<lparr>vc_SourceCount = 49, vc_Bank0Sources = 25, vc_ReverseSourceOrder = False, vc_VectorOffset = 0,
     vc_ResetEnabledSources = [6, 0], vc_GroupCount = 0,
     vc_Groups = replicate VicMaximumGroups \<lparr>vg_Source = 0, vg_EnableOffset = 0, vg_StatusOffset = 0, vg_ValidMask = 0\<rparr>\<rparr>"

definition sampleVic :: "u32 \<Rightarrow> QualcommVIC" where
  "sampleVic status = \<lparr>vic_config = sampleVicConfig, vic_enable = [6, 0], vic_status = [status, 0], vic_level = [0, 0],
     vic_groupEnable = replicate VicMaximumGroups 0, vic_groupLevel = replicate VicMaximumGroups 0,
     vic_inService = 0, vic_inServiceValid = False\<rparr>"

definition sampleSink :: "bool \<Rightarrow> backend" where
  "sampleSink a = snd (SetInterruptLine InterruptIRQ a (New False))"

lemma open_New: "\<not> closed (New False)"
  by (simp add: New_def NewWithMemoryLimit_def)

lemma sample_shape: "config_shape sampleVicConfig"
  by (simp add: config_shape_def VicConfig_validate_def vicGroups_def sampleVicConfig_def bankMask_def)

lemma sampleLine_props: "\<not> closed (sampleSink a)" "line_asserted InterruptIRQ (sampleSink a) \<longleftrightarrow> a"
  using cpu_line.driven [of "New False" a] open_New by (simp_all add: sampleSink_def)

lemma sample_New: "NewQualcommVIC sampleVicConfig (Some SetInterruptLine) (New False) = (Inr (sampleVic 0), sampleSink False)"
proof -
  have "VicConfig_validate sampleVicConfig" using sample_shape by (simp add: config_shape_def)
  moreover have "\<not> Vic_asserted (sampleVic 0)" by (simp add: Vic_asserted_def sampleVic_def)
  moreover obtain b where b: "SetInterruptLine InterruptIRQ False (New False) = (Inr (), b)"
    using cpu_line.driven [of "New False" False] open_New by (cases "SetInterruptLine InterruptIRQ False (New False)") simp
  ultimately show ?thesis
    by (simp add: NewQualcommVIC_def Vic_Reset_def Vic_drive_def Vic_updateOutput_def sampleSink_def sampleVic_def sampleVicConfig_def)
qed

lemma drive_state: "fst (snd (Vic_drive sink d w)) = d"
  by (simp add: Vic_drive_def split: prod.split)

theorem vic_drives_irq_line_witness:
  "line_asserted InterruptIRQ (snd (fold (vicStep (Some SetInterruptLine)) [VicPulse 2] (sampleVic 0, sampleSink False)))"
proof -
  obtain d' b' where run: "fold (vicStep (Some SetInterruptLine)) [VicPulse 2] (sampleVic 0, sampleSink False) = (d', b')" by fastforce
  have m: "Vic_sourceMask 2 (sampleVic s) = Some (0, 4)" for s
    by (simp add: Vic_sourceMask_def Vic_packedSource_def sampleVic_def sampleVicConfig_def)
  have "d' = sampleVic 4"
    using arg_cong [OF run, of fst] by (simp add: Vic_PulseSource_def m drive_state) (simp add: sampleVic_def drive_state)
  then have "source_pending 2 d'" "\<not> vic_inServiceValid d'" by (simp_all add: source_pending_def m) (simp_all add: sampleVic_def)
  moreover have "length (vc_ResetEnabledSources sampleVicConfig) = 2" "length (vc_Groups sampleVicConfig) = VicMaximumGroups"
    by (simp_all add: sampleVicConfig_def)
  ultimately have "line_asserted InterruptIRQ b'" using vic_drives_irq_line [OF sample_New open_New _ _ run] by blast
  then show ?thesis unfolding run by simp
qed

theorem vic_claims_highest_priority_witness:
  "claimable 1 (sampleVic 6) \<and>
    fst (Vic_Read (Some SetInterruptLine) VicVectorRead Width32 (sampleVic 6) (sampleSink True)) \<noteq> Inr VicNoPendingVector"
proof -
  have ok: "vic_ok (sampleVic 6)"
    using sample_shape by (auto simp: vic_ok_def sampleVic_def within_def Vic_validMask_def bankMask_def sampleVicConfig_def less_2_cases_iff)
  have line: "line_asserted InterruptIRQ (sampleSink True) \<longleftrightarrow> Vic_asserted (sampleVic 6)"
    unfolding sampleLine_props by (simp add: Vic_asserted_def sampleVic_def)
  have one: "claimable 1 (sampleVic 6)"
    by (simp add: claimable_def source_pending_def Vic_sourceMask_def Vic_packedSource_def sampleVic_def sampleVicConfig_def word_le_nat_alt)
  obtain v d' b' where r: "Vic_Read (Some SetInterruptLine) VicVectorRead Width32 (sampleVic 6) (sampleSink True) = (v, d', b')"
    by (metis prod_cases3)
  show ?thesis using vic_claims_highest_priority [OF ok sampleLine_props(1) line r] one r by (auto split: if_splits)
qed

end
