(* ===== verification/System_Board.thy ===== *)
theory System_Board
  imports System_Snapshots System_Vic
begin

text \<open>
  A board: the register devices and interrupt controllers behind the regions of a physical bus,
  and the processor whose interrupt line they drive.  The heap of device objects is a map from
  names, and a region is bound to the object of its own name; an object's constructor is its
  dynamic type, on which the methods of \<open>Device\<close> and \<open>StatefulDevice\<close> dispatch.  Latched registers
  (src/system/latched_register.go) are modelled here, because a write may pulse a controller.
\<close>

subsection \<open>Latched registers\<close>

text \<open>The pulser of a rule is the name of the controller it points to.\<close>

record latchedRegisterWritePulse =
  lp_mask :: u32
  lp_value :: u32
  lp_sources :: "u8 list"
  lp_pulser :: name

record LatchedRegister =
  lr_width :: Width
  lr_resetValue :: u32
  lr_value :: u32
  lr_pulseRules :: "latchedRegisterWritePulse list"

definition NewLatchedRegister :: "Width \<Rightarrow> u32 \<Rightarrow> deviceError + LatchedRegister" where
  "NewLatchedRegister w resetValue =
     (if \<not> Width_valid w \<or> exceedsWidth w resetValue then Inl ErrDeviceConfig
      else Inr \<lparr>lr_width = w, lr_resetValue = resetValue, lr_value = resetValue, lr_pulseRules = []\<rparr>)"

definition Latched_Reset :: "LatchedRegister \<Rightarrow> LatchedRegister" where
  "Latched_Reset d = d\<lparr>lr_value := lr_resetValue d\<rparr>"

definition Latched_Read :: "u32 \<Rightarrow> Width \<Rightarrow> LatchedRegister \<Rightarrow> deviceError + u32" where
  "Latched_Read offset w d = (if offset \<noteq> 0 \<or> w \<noteq> lr_width d then Inl ErrLatchedRegisterMMIO else Inr (lr_value d))"

text \<open>\<open>pulse m s\<close> is the method \<open>PulseSource\<close> of controller \<open>m\<close>; the first error stops the pulses.\<close>

type_synonym 'w pulser = "name \<Rightarrow> u8 \<Rightarrow> 'w \<Rightarrow> (deviceError + unit) \<times> 'w"

fun pulseSources :: "'w pulser \<Rightarrow> name \<Rightarrow> u8 list \<Rightarrow> 'w \<Rightarrow> (deviceError + unit) \<times> 'w" where
  "pulseSources pulse m [] w = (Inr (), w)"
| "pulseSources pulse m (s # ss) w =
     (case pulse m s w of (Inl e, w) \<Rightarrow> (Inl e, w) | (Inr _, w) \<Rightarrow> pulseSources pulse m ss w)"

fun firePulses :: "'w pulser \<Rightarrow> u32 \<Rightarrow> latchedRegisterWritePulse list \<Rightarrow> 'w \<Rightarrow> (deviceError + unit) \<times> 'w" where
  "firePulses pulse v [] w = (Inr (), w)"
| "firePulses pulse v (r # rs) w =
     (if v AND lp_mask r \<noteq> lp_value r then firePulses pulse v rs w
      else case pulseSources pulse (lp_pulser r) (lp_sources r) w of
        (Inl e, w) \<Rightarrow> (Inl e, w)
      | (Inr _, w) \<Rightarrow> firePulses pulse v rs w)"

text \<open>A pulse that fails restores the value of the register.\<close>

definition Latched_Write ::
    "'w pulser \<Rightarrow> u32 \<Rightarrow> Width \<Rightarrow> u32 \<Rightarrow> LatchedRegister \<Rightarrow> 'w \<Rightarrow> (deviceError + unit) \<times> LatchedRegister \<times> 'w" where
  "Latched_Write pulse offset w v d world =
     (if offset \<noteq> 0 \<or> w \<noteq> lr_width d \<or> exceedsWidth (lr_width d) v then (Inl ErrLatchedRegisterMMIO, d, world)
      else
        let previous = lr_value d; d = d\<lparr>lr_value := v\<rparr> in
        case firePulses pulse v (lr_pulseRules d) world of
          (Inl e, world) \<Rightarrow> (Inl e, d\<lparr>lr_value := previous\<rparr>, world)
        | (Inr _, world) \<Rightarrow> (Inr (), d, world))"

fun pulseSourcesValid :: "u8 list \<Rightarrow> u8 set \<Rightarrow> bool" where
  "pulseSourcesValid [] seen = True"
| "pulseSourcesValid (s # ss) seen = (if 64 \<le> s then False else if s \<in> seen then False else pulseSourcesValid ss (insert s seen))"

definition AttachWritePulse ::
    "u32 \<Rightarrow> u32 \<Rightarrow> u8 list \<Rightarrow> name option \<Rightarrow> LatchedRegister \<Rightarrow> deviceError + LatchedRegister" where
  "AttachWritePulse m v sources pulser d =
     (if m = 0 \<or> v AND NOT m \<noteq> 0 \<or> sources = [] \<or> pulser = None \<or> exceedsWidth (lr_width d) m then Inl ErrDeviceConfig
      else if \<not> pulseSourcesValid sources {} then Inl ErrDeviceConfig
      else if list_ex (\<lambda>r. lp_mask r = m \<and> lp_value r = v) (lr_pulseRules d) then Inl ErrDeviceConfig
      else Inr (d\<lparr>lr_pulseRules := lr_pulseRules d @
        [\<lparr>lp_mask = m, lp_value = v, lp_sources = sources, lp_pulser = the pulser\<rparr>]\<rparr>))"

definition pulseBytes :: "latchedRegisterWritePulse \<Rightarrow> u8 list" where
  "pulseBytes r = PutUint32 (lp_mask r) @ PutUint32 (lp_value r) @ PutUint32 (of_nat (length (lp_sources r))) @ lp_sources r"

definition Latched_SaveState :: "LatchedRegister \<Rightarrow> u8 list" where
  "Latched_SaveState d =
     (if lr_pulseRules d = []
      then [0x4C, 0x52, 0x45, 0x47] @ PutUint32 1 @ [lr_width d] @ PutUint32 (lr_resetValue d) @ PutUint32 (lr_value d)
      else [0x4C, 0x52, 0x45, 0x47] @ PutUint32 2 @ [lr_width d] @ PutUint32 (lr_resetValue d) @
        PutUint32 (of_nat (length (lr_pulseRules d))) @ concat (map pulseBytes (lr_pulseRules d)) @ PutUint32 (lr_value d))"

text \<open>The rules a state lists must be the register's own; the rest of the state follows them.\<close>

fun matchPulses :: "latchedRegisterWritePulse list \<Rightarrow> u8 list \<Rightarrow> u8 list option" where
  "matchPulses [] s = Some s"
| "matchPulses (r # rs) s =
     (if length s < 12 \<or> Uint32 (slice s 0 4) \<noteq> lp_mask r \<or> Uint32 (slice s 4 4) \<noteq> lp_value r then None
      else
        let n = Uint32 (slice s 8 4); s = drop 12 s in
        if n \<noteq> of_nat (length (lp_sources r)) \<or> length s < unat n + 4 then None
        else if take (length (lp_sources r)) s \<noteq> lp_sources r then None
        else matchPulses rs (drop (unat n) s))"

definition Latched_decode :: "u8 list \<Rightarrow> LatchedRegister \<Rightarrow> u32 option" where
  "Latched_decode st d =
     (if length st < 8 \<or> take 4 st \<noteq> [0x4C, 0x52, 0x45, 0x47] then None
      else if Uint32 (slice st 4 4) = 1
      then (if lr_pulseRules d \<noteq> [] \<or> length st \<noteq> 17 \<or> st ! 8 \<noteq> lr_width d \<or> Uint32 (slice st 9 4) \<noteq> lr_resetValue d then None
            else Some (Uint32 (slice st 13 4)))
      else if Uint32 (slice st 4 4) = 2
      then (if length st < 21 \<or> lr_pulseRules d = [] \<or> st ! 8 \<noteq> lr_width d \<or> Uint32 (slice st 9 4) \<noteq> lr_resetValue d \<or>
               Uint32 (slice st 13 4) \<noteq> of_nat (length (lr_pulseRules d)) then None
            else case matchPulses (lr_pulseRules d) (drop 17 st) of
              None \<Rightarrow> None
            | Some s \<Rightarrow> if length s \<noteq> 4 then None else Some (Uint32 s))
      else None)"

definition Latched_LoadState :: "u8 list \<Rightarrow> LatchedRegister \<Rightarrow> deviceError + LatchedRegister" where
  "Latched_LoadState st d =
     (case Latched_decode st d of
        None \<Rightarrow> Inl ErrDeviceState
      | Some v \<Rightarrow> if exceedsWidth (lr_width d) v then Inl ErrDeviceState else Inr (d\<lparr>lr_value := v\<rparr>))"

definition Latched_ok :: "LatchedRegister \<Rightarrow> bool" where
  "Latched_ok d \<longleftrightarrow> Width_valid (lr_width d) \<and> \<not> exceedsWidth (lr_width d) (lr_resetValue d) \<and>
     \<not> exceedsWidth (lr_width d) (lr_value d) \<and> length (lr_pulseRules d) < 2 ^ 16 \<and>
     (\<forall>r \<in> set (lr_pulseRules d). length (lp_sources r) \<le> 64)"

lemma pulseSourcesValid_length: "pulseSourcesValid ss seen \<Longrightarrow> distinct ss \<and> set ss \<subseteq> {s. s < 64} \<and> set ss \<inter> seen = {}"
  by (induction ss arbitrary: seen) (auto simp: not_le split: if_splits)

lemma below_64: "card {s :: u8. s < 64} \<le> 64"
proof -
  have "card {s :: u8. s < 64} = card (unat ` {s :: u8. s < 64})"
    by (subst card_image) (simp_all add: inj_on_def word_unat_eq_iff)
  also have "\<dots> \<le> card {..<64 :: nat}" by (rule card_mono) (auto simp: word_less_nat_alt)
  finally show ?thesis by simp
qed

lemma New_latched_ok:
  "NewLatchedRegister w v = Inr d \<Longrightarrow> Latched_ok d"
  "Latched_ok d \<Longrightarrow> AttachWritePulse m v sources pulser d = Inr d' \<Longrightarrow> length (lr_pulseRules d) < 2 ^ 16 - 1 \<Longrightarrow> Latched_ok d'"
proof -
  show "NewLatchedRegister w v = Inr d \<Longrightarrow> Latched_ok d"
    by (auto simp: NewLatchedRegister_def Latched_ok_def split: if_splits)
  have "length sources \<le> 64" if "pulseSourcesValid sources {}"
    using pulseSourcesValid_length [OF that] card_mono [of "{s :: u8. s < 64}" "set sources"] below_64
    by (simp add: distinct_card)
  then show "Latched_ok d \<Longrightarrow> AttachWritePulse m v sources pulser d = Inr d' \<Longrightarrow> length (lr_pulseRules d) < 2 ^ 16 - 1 \<Longrightarrow> Latched_ok d'"
    by (auto simp: AttachWritePulse_def Latched_ok_def split: if_splits)
qed

lemma matchPulses_saved:
  "\<forall>r \<in> set rs. length (lp_sources r) \<le> 64 \<Longrightarrow> length final = 4 \<Longrightarrow> matchPulses rs (concat (map pulseBytes rs) @ final) = Some final"
proof (induction rs)
  case (Cons r rs)
  have fits: "unat (of_nat (length (lp_sources r)) :: u32) = length (lp_sources r)"
    using Cons.prems(1) by (intro unat_of_nat_u32) auto
  show ?case using Cons by (simp add: pulseBytes_def slice_def fits)
qed simp

interpretation latched: stored_device Latched_ok "\<lambda>d. (lr_width d, lr_resetValue d, lr_pulseRules d)" Latched_SaveState Latched_LoadState
proof unfold_locales
  fix s t :: LatchedRegister and st s'
  show "Latched_ok s \<Longrightarrow> Latched_LoadState st s = Inr s' \<Longrightarrow> Latched_ok s' \<and>
      (lr_width s', lr_resetValue s', lr_pulseRules s') = (lr_width s, lr_resetValue s, lr_pulseRules s)"
    by (auto simp: Latched_LoadState_def Latched_ok_def split: option.splits if_splits)
  show "Latched_LoadState (Latched_SaveState s) t = Inr s" if s: "Latched_ok s" and t: "Latched_ok t"
      "(lr_width t, lr_resetValue t, lr_pulseRules t) = (lr_width s, lr_resetValue s, lr_pulseRules s)"
  proof -
    have "Latched_decode (Latched_SaveState s) t = Some (lr_value s)"
    proof (cases "lr_pulseRules s = []")
      case True
      then show ?thesis using t by (simp add: Latched_decode_def Latched_SaveState_def slice_def nth_append)
    next
      case False
      have "matchPulses (lr_pulseRules s) (concat (map pulseBytes (lr_pulseRules s)) @ PutUint32 (lr_value s)) = Some (PutUint32 (lr_value s))"
        by (rule matchPulses_saved) (use s in \<open>simp_all add: Latched_ok_def\<close>)
      then show ?thesis using t False by (simp add: Latched_decode_def Latched_SaveState_def slice_def nth_append)
    qed
    then show ?thesis using s t by (simp add: Latched_LoadState_def Latched_ok_def)
  qed
  have bytes: "length (concat (map pulseBytes rs)) \<le> 76 * length rs" if "\<forall>r \<in> set rs. length (lp_sources r) \<le> 64" for rs
    using that by (induction rs) (auto simp: pulseBytes_def)
  show "length (Latched_SaveState s) < 2 ^ 32" if "Latched_ok s"
  proof -
    have "length (concat (map pulseBytes (lr_pulseRules s))) \<le> 76 * length (lr_pulseRules s)" "length (lr_pulseRules s) < 2 ^ 16"
      using that bytes [of "lr_pulseRules s"] by (simp_all add: Latched_ok_def)
    then have "length (concat (map pulseBytes (lr_pulseRules s))) < 76 * 2 ^ 16" by linarith
    then show ?thesis by (simp add: Latched_SaveState_def)
  qed
qed

interpretation port: stored_device "\<lambda>_. True" ihr_commandReadValue "Port_SaveState False" "Port_LoadState False"
proof unfold_locales
  fix s t :: IndexedHalfwordRegisters and st s'
  show "Port_LoadState False st s = Inr s' \<Longrightarrow> True \<and> ihr_commandReadValue s' = ihr_commandReadValue s"
    using indexed.load_keeps [where s = s and st = "drop 9 st" and s' = s'] by (auto simp: Port_LoadState_def Let_def split: if_splits)
  show "ihr_commandReadValue t = ihr_commandReadValue s \<Longrightarrow> Port_LoadState False (Port_SaveState False s) t = Inr s"
    using indexed.load_save [where s = s and t = t] by (simp add: Port_LoadState_def Port_SaveState_def portHeader_def slice_def nth_append)
  show "length (Port_SaveState False s) < 2 ^ 32"
  proof -
    have "length (entriesOf (ihr_registers s)) \<le> 65536" using card_u16 by (simp add: length_entriesOf)
    moreover have "length (concat (map (\<lambda>(i, v). PutUint16 i @ PutUint16 v) es)) = length es * 4" for es
      by (induction es) auto
    ultimately show ?thesis by (simp add: Port_SaveState_def portHeader_def Indexed_SaveState_def)
  qed
qed

subsection \<open>Device objects\<close>

text \<open>
  The bank of indexed registers lives at its command port; a data port names it.
\<close>

datatype object =
    ReadOnlyObject ReadOnlyRegister
  | LatchedObject LatchedRegister
  | WindowObject LatchedRegisterWindow
  | WordsObject SparseWordRegisters
  | MixedObject MixedWidthLatchedRegister
  | CommandPortObject IndexedHalfwordRegisters
  | DataPortObject name
  | VicObject QualcommVIC

record board =
  bd_objects :: "name \<Rightarrow> object"
  bd_cpu :: backend

definition putObject :: "name \<Rightarrow> object \<Rightarrow> board \<Rightarrow> board" where
  "putObject n x d = d\<lparr>bd_objects := (bd_objects d)(n := x)\<rparr>"

definition bankAt :: "name \<Rightarrow> board \<Rightarrow> IndexedHalfwordRegisters" where
  "bankAt m d = (case bd_objects d m of CommandPortObject bank \<Rightarrow> bank | _ \<Rightarrow> NewIndexedHalfwordRegisters 0)"

text \<open>The result of a method that answers an error or the changed object.\<close>

definition store :: "name \<Rightarrow> ('s \<Rightarrow> object) \<Rightarrow> board \<Rightarrow> deviceError + 's \<Rightarrow> (deviceError + unit) \<times> board" where
  "store n C d res = (case res of Inl e \<Rightarrow> (Inl e, d) | Inr s \<Rightarrow> (Inr (), putObject n (C s) d))"

text \<open>A method of a controller, which drives the processor's interrupt line.\<close>

definition vicCall ::
    "name \<Rightarrow> (QualcommVIC \<Rightarrow> backend \<Rightarrow> ('a, backend) vicResult) \<Rightarrow> QualcommVIC \<Rightarrow> board \<Rightarrow> (deviceError + 'a) \<times> board" where
  "vicCall n f v d = (case f v (bd_cpu d) of (res, v, cpu) \<Rightarrow> (res, (putObject n (VicObject v) d)\<lparr>bd_cpu := cpu\<rparr>))"

definition cpuSink :: "backend InterruptLineSink option" where "cpuSink = Some SetInterruptLine"

definition pulseController :: "board pulser" where
  "pulseController m source d =
     (case bd_objects d m of
        VicObject v \<Rightarrow> vicCall m (Vic_PulseSource cpuSink source) v d
      | _ \<Rightarrow> (Inl ErrDeviceConfig, d))"

definition deviceReset :: "name \<Rightarrow> board \<Rightarrow> (deviceError + unit) \<times> board" where
  "deviceReset n d =
     (case bd_objects d n of
        ReadOnlyObject r \<Rightarrow> (Inr (), d)
      | LatchedObject r \<Rightarrow> (Inr (), putObject n (LatchedObject (Latched_Reset r)) d)
      | WindowObject r \<Rightarrow> (Inr (), putObject n (WindowObject (Window_Reset r)) d)
      | WordsObject r \<Rightarrow> (Inr (), putObject n (WordsObject (Words_Reset r)) d)
      | MixedObject r \<Rightarrow> (Inr (), putObject n (MixedObject (Mixed_Reset r)) d)
      | CommandPortObject bank \<Rightarrow> (Inr (), putObject n (CommandPortObject (Port_Reset False bank)) d)
      | DataPortObject m \<Rightarrow> (Inr (), d)
      | VicObject v \<Rightarrow> vicCall n (Vic_Reset cpuSink) v d)"

definition deviceRead :: "name \<Rightarrow> u32 \<Rightarrow> Width \<Rightarrow> board \<Rightarrow> (deviceError + u32) \<times> board" where
  "deviceRead n offset w d =
     (case bd_objects d n of
        ReadOnlyObject r \<Rightarrow> (ReadOnly_Read offset w r, d)
      | LatchedObject r \<Rightarrow> (Latched_Read offset w r, d)
      | WindowObject r \<Rightarrow> (Window_Read offset w r, d)
      | WordsObject r \<Rightarrow> (case Words_Read offset w r of (res, r) \<Rightarrow> (res, putObject n (WordsObject r) d))
      | MixedObject r \<Rightarrow> (Mixed_Read offset w r, d)
      | CommandPortObject bank \<Rightarrow> (Port_Read False offset w bank, d)
      | DataPortObject m \<Rightarrow> (Port_Read True offset w (bankAt m d), d)
      | VicObject v \<Rightarrow> vicCall n (Vic_Read cpuSink offset w) v d)"

definition deviceWrite :: "name \<Rightarrow> u32 \<Rightarrow> Width \<Rightarrow> u32 \<Rightarrow> board \<Rightarrow> (deviceError + unit) \<times> board" where
  "deviceWrite n offset w v d =
     (case bd_objects d n of
        ReadOnlyObject r \<Rightarrow> store n ReadOnlyObject d (ReadOnly_Write offset w v r)
      | LatchedObject r \<Rightarrow>
          (case Latched_Write pulseController offset w v r d of (res, r, d) \<Rightarrow> (res, putObject n (LatchedObject r) d))
      | WindowObject r \<Rightarrow> store n WindowObject d (Window_Write offset w v r)
      | WordsObject r \<Rightarrow> store n WordsObject d (Words_Write offset w v r)
      | MixedObject r \<Rightarrow> store n MixedObject d (Mixed_Write offset w v r)
      | CommandPortObject bank \<Rightarrow> store n CommandPortObject d (Port_Write False offset w v bank)
      | DataPortObject m \<Rightarrow> store m CommandPortObject d (Port_Write True offset w v (bankAt m d))
      | VicObject c \<Rightarrow> vicCall n (Vic_Write cpuSink offset w v) c d)"

definition deviceSave :: "name \<Rightarrow> board \<Rightarrow> (deviceError + u8 list) \<times> board" where
  "deviceSave n d =
     (Inr (case bd_objects d n of
        ReadOnlyObject r \<Rightarrow> ReadOnly_SaveState r
      | LatchedObject r \<Rightarrow> Latched_SaveState r
      | WindowObject r \<Rightarrow> Window_SaveState r
      | WordsObject r \<Rightarrow> Words_SaveState r
      | MixedObject r \<Rightarrow> Mixed_SaveState r
      | CommandPortObject bank \<Rightarrow> Port_SaveState False bank
      | DataPortObject m \<Rightarrow> Port_SaveState True (bankAt m d)
      | VicObject v \<Rightarrow> Vic_SaveState v), d)"

definition deviceLoad :: "name \<Rightarrow> u8 list \<Rightarrow> board \<Rightarrow> (deviceError + unit) \<times> board" where
  "deviceLoad n st d =
     (case bd_objects d n of
        ReadOnlyObject r \<Rightarrow> store n ReadOnlyObject d (ReadOnly_LoadState st r)
      | LatchedObject r \<Rightarrow> store n LatchedObject d (Latched_LoadState st r)
      | WindowObject r \<Rightarrow> store n WindowObject d (Window_LoadState st r)
      | WordsObject r \<Rightarrow> store n WordsObject d (Words_LoadState st r)
      | MixedObject r \<Rightarrow> store n MixedObject d (Mixed_LoadState st r)
      | CommandPortObject bank \<Rightarrow> store n CommandPortObject d (Port_LoadState False st bank)
      | DataPortObject m \<Rightarrow> (case Port_LoadState True st (bankAt m d) of Inl e \<Rightarrow> (Inl e, d) | Inr _ \<Rightarrow> (Inr (), d))
      | VicObject v \<Rightarrow> vicCall n (Vic_LoadState cpuSink st) v d)"

definition stateAt :: "name \<Rightarrow> (board, deviceError) StatefulDevice" where
  "stateAt n = \<lparr>sd_SaveState = deviceSave n, sd_LoadState = deviceLoad n, sd_LoadStateSubset = None\<rparr>"

definition deviceAt :: "name \<Rightarrow> (board, deviceError) Device" where
  "deviceAt n = \<lparr>dev_Reset = deviceReset n, dev_Read = deviceRead n, dev_Write = deviceWrite n,
     dev_Stateful = Some (stateAt n), dev_Advance = None\<rparr>"

subsection \<open>Boards built to a plan\<close>

text \<open>The second object is a well-formed one of the type and construction of the first.\<close>

fun built :: "object \<Rightarrow> object \<Rightarrow> bool" where
  "built (ReadOnlyObject r) (ReadOnlyObject s) \<longleftrightarrow> ReadOnly_ok s \<and> s = r"
| "built (LatchedObject r) (LatchedObject s) \<longleftrightarrow> Latched_ok s \<and>
     (lr_width s, lr_resetValue s, lr_pulseRules s) = (lr_width r, lr_resetValue r, lr_pulseRules r)"
| "built (WindowObject r) (WindowObject s) \<longleftrightarrow> Window_ok s \<and> (lrw_width s, length (lrw_data s)) = (lrw_width r, length (lrw_data r))"
| "built (WordsObject r) (WordsObject s) \<longleftrightarrow> Words_ok s \<and>
     (swr_offsets s, swr_resets s, swr_readClear s) = (swr_offsets r, swr_resets r, swr_readClear r)"
| "built (MixedObject r) (MixedObject s) \<longleftrightarrow> Mixed_ok s \<and>
     (mwl_widths s, mwl_widthMask s, mwl_allowSubwordOffsets s, mwl_resetValue s) =
     (mwl_widths r, mwl_widthMask r, mwl_allowSubwordOffsets r, mwl_resetValue r)"
| "built (CommandPortObject r) (CommandPortObject s) \<longleftrightarrow> ihr_commandReadValue s = ihr_commandReadValue r"
| "built (DataPortObject r) (DataPortObject s) \<longleftrightarrow> s = r"
| "built (VicObject r) (VicObject s) \<longleftrightarrow> vic_ok s \<and> vic_config s = vic_config r"
| "built _ _ \<longleftrightarrow> False"

definition board_inv :: "(name \<Rightarrow> object) \<Rightarrow> board \<Rightarrow> bool" where
  "board_inv plan d \<longleftrightarrow> \<not> closed (bd_cpu d) \<and> (\<forall>n. built (plan n) (bd_objects d n))"

lemma Vic_Load_open:
  assumes "\<not> closed b"
  shows "\<exists>b'. \<not> closed b' \<and> Vic_LoadState cpuSink st v b =
    (case Vic_decode st v of None \<Rightarrow> (Inl ErrDeviceState, v, b) | Some v' \<Rightarrow> (Inr (), v', b'))"
proof (cases "Vic_decode st v")
  case None
  then show ?thesis using assms by (auto simp: Vic_LoadState_def)
next
  case (Some v')
  then show ?thesis using cpu_line.updateOutput_driven [OF assms, of v'] by (auto simp: Vic_LoadState_def cpuSink_def)
qed

lemma put_inv:
  "board_inv plan d \<Longrightarrow> built (plan n) x \<Longrightarrow> board_inv plan (putObject n x d)"
  "bd_objects (putObject n x d) m = (if m = n then x else bd_objects d m)"
  "bd_cpu (putObject n x d) = bd_cpu d"
  by (simp_all add: board_inv_def putObject_def)

text \<open>What loading into one object does to the board.\<close>

lemma store_inv:
  assumes "board_inv plan d" "\<And>s. res = Inr s \<Longrightarrow> built (plan n) (C s)"
  shows "board_inv plan (snd (store n C d res)) \<and> (\<forall>m. m \<noteq> n \<longrightarrow> bd_objects (snd (store n C d res)) m = bd_objects d m)"
  using assms by (cases res) (simp_all add: store_def put_inv)

lemma built_cases:
  assumes "built p x"
  obtains (ReadOnly) r where "p = ReadOnlyObject r" "x = ReadOnlyObject r" "ReadOnly_ok r"
    | (Latched) r s where "p = LatchedObject r" "x = LatchedObject s"
    | (Window) r s where "p = WindowObject r" "x = WindowObject s"
    | (Words) r s where "p = WordsObject r" "x = WordsObject s"
    | (Mixed) r s where "p = MixedObject r" "x = MixedObject s"
    | (Command) r s where "p = CommandPortObject r" "x = CommandPortObject s"
    | (Data) r where "p = DataPortObject r" "x = DataPortObject r"
    | (Vic) r s where "p = VicObject r" "x = VicObject s"
  using assms by (cases p; cases x) auto

lemma deviceLoad_inv:
  assumes d: "board_inv plan d"
  shows "board_inv plan (snd (deviceLoad n st d)) \<and> (\<forall>m. m \<noteq> n \<longrightarrow> bd_objects (snd (deviceLoad n st d)) m = bd_objects d m)"
proof -
  have b: "built (plan n) (bd_objects d n)" "\<not> closed (bd_cpu d)" using d by (simp_all add: board_inv_def)
  from b(1) show ?thesis
  proof (cases rule: built_cases)
    case (ReadOnly r)
    have "built (plan n) (ReadOnlyObject s)" if "ReadOnly_LoadState st r = Inr s" for s
      using read_only.load_keeps [OF ReadOnly(3) that] ReadOnly by simp
    from store_inv [OF d this, of "ReadOnly_LoadState st r"] show ?thesis by (simp add: deviceLoad_def ReadOnly(2))
  next
    case (Latched r s)
    have "built (plan n) (LatchedObject t)" if "Latched_LoadState st s = Inr t" for t
      using latched.load_keeps [OF _ that] b(1) Latched by simp
    from store_inv [OF d this, of "Latched_LoadState st s"] show ?thesis by (simp add: deviceLoad_def Latched(2))
  next
    case (Window r s)
    have "built (plan n) (WindowObject t)" if "Window_LoadState st s = Inr t" for t
      using window.load_keeps [OF _ that] b(1) Window by simp
    from store_inv [OF d this, of "Window_LoadState st s"] show ?thesis by (simp add: deviceLoad_def Window(2))
  next
    case (Words r s)
    have "built (plan n) (WordsObject t)" if "Words_LoadState st s = Inr t" for t
      using words.load_keeps [OF _ that] b(1) Words by simp
    from store_inv [OF d this, of "Words_LoadState st s"] show ?thesis by (simp add: deviceLoad_def Words(2))
  next
    case (Mixed r s)
    have "built (plan n) (MixedObject t)" if "Mixed_LoadState st s = Inr t" for t
      using mixed.load_keeps [OF _ that] b(1) Mixed by simp
    from store_inv [OF d this, of "Mixed_LoadState st s"] show ?thesis by (simp add: deviceLoad_def Mixed(2))
  next
    case (Command r s)
    have "built (plan n) (CommandPortObject t)" if "Port_LoadState False st s = Inr t" for t
      using port.load_keeps [OF _ that] b(1) Command by simp
    from store_inv [OF d this, of "Port_LoadState False st s"] show ?thesis by (simp add: deviceLoad_def Command(2))
  next
    case (Data r)
    then show ?thesis using d by (simp add: deviceLoad_def split: sum.split)
  next
    case (Vic r s)
    have ok: "vic_ok s" "vic_config s = vic_config r" using b(1) Vic by simp_all
    obtain cpu where cpu: "\<not> closed cpu" "Vic_LoadState cpuSink st s (bd_cpu d) =
        (case Vic_decode st s of None \<Rightarrow> (Inl ErrDeviceState, s, bd_cpu d) | Some v' \<Rightarrow> (Inr (), v', cpu))"
      using Vic_Load_open [OF b(2)] by blast
    show ?thesis
    proof (cases "Vic_decode st s")
      case None
      then show ?thesis using d Vic cpu ok by (auto simp: deviceLoad_def vicCall_def board_inv_def putObject_def)
    next
      case (Some v')
      then show ?thesis using d Vic cpu Vic_decode_ok [OF ok(1) Some] ok(2)
        by (auto simp: deviceLoad_def vicCall_def board_inv_def putObject_def)
    qed
  qed
qed

text \<open>The contract of the bus, on the board's own devices.\<close>

interpretation board: stateful_devices "board_inv plan" "\<lambda>n d. bd_objects d n" stateAt UNIV
  for plan :: "name \<Rightarrow> object"
proof unfold_locales
  fix n and d d0 :: board and st f
  show "board_inv plan d \<Longrightarrow> board_inv plan (snd (sd_LoadState (stateAt n) st d)) \<and>
      (\<forall>m. m \<noteq> n \<longrightarrow> bd_objects (snd (sd_LoadState (stateAt n) st d)) m = bd_objects d m)"
    using deviceLoad_inv by (simp add: stateAt_def)
  show "sd_LoadStateSubset (stateAt n) = Some f \<Longrightarrow> board_inv plan (snd (f st d)) \<and>
      (\<forall>m. m \<noteq> n \<longrightarrow> bd_objects (snd (f st d)) m = bd_objects d m)"
    by (simp add: stateAt_def)
  have vic_small: "length (Vic_SaveState v) < 2 ^ 32" if "vic_ok v" for v
  proof -
    have "length (concat (map PutUint32 ws)) = 4 * length ws" for ws by (induction ws) simp_all
    moreover have "unat (vc_GroupCount (vic_config v)) < 2 ^ 8"
      by (rule less_le_trans [OF unsigned_less]) simp
    ultimately show ?thesis using vicWords_nth(1) [OF that]
      by (simp add: Vic_SaveState_words vicHeader_def)
  qed
  show "\<exists>st. sd_SaveState (stateAt n) d = (Inr st, d) \<and> length st < 2 ^ 32" if d: "board_inv plan d"
  proof -
    have "built (plan n) (bd_objects d n)" using d by (simp add: board_inv_def)
    then show ?thesis
      using read_only.save_small latched.save_small window.save_small words.save_small mixed.save_small port.save_small vic_small
      by (cases rule: built_cases; cases "plan n") (auto simp: stateAt_def deviceSave_def Port_SaveState_def portHeader_def)
  qed
  show "fst (sd_LoadState (stateAt n) st d0) = Inr () \<and> bd_objects (snd (sd_LoadState (stateAt n) st d0)) n = bd_objects d n"
    if d: "board_inv plan d" "board_inv plan d0" "sd_SaveState (stateAt n) d = (Inr st, d)"
  proof -
    have b: "built (plan n) (bd_objects d n)" "built (plan n) (bd_objects d0 n)" "\<not> closed (bd_cpu d0)"
      using d(1,2) by (simp_all add: board_inv_def)
    have st: "deviceSave n d = (Inr st, d)" using d(3) by (simp add: stateAt_def)
    have loaded: ?thesis if "deviceLoad n st d0 = store n C d0 (Inr s)" "bd_objects d n = C s" for C s
      using that by (simp add: stateAt_def store_def put_inv)
    from b(1) show ?thesis
    proof (cases rule: built_cases)
      case (ReadOnly r)
      then have "bd_objects d0 n = ReadOnlyObject r" using b(2) by (cases "bd_objects d0 n") simp_all
      then show ?thesis using loaded [of ReadOnlyObject r] st ReadOnly read_only.load_save [of r r]
        by (simp add: deviceLoad_def deviceSave_def)
    next
      case (Latched r s)
      then obtain t where t: "bd_objects d0 n = LatchedObject t" using b(2) by (cases "bd_objects d0 n") simp_all
      show ?thesis using loaded [of LatchedObject s] st Latched t b(1,2) latched.load_save [of s t]
        by (simp add: deviceLoad_def deviceSave_def)
    next
      case (Window r s)
      then obtain t where t: "bd_objects d0 n = WindowObject t" using b(2) by (cases "bd_objects d0 n") simp_all
      show ?thesis using loaded [of WindowObject s] st Window t b(1,2) window.load_save [of s t]
        by (simp add: deviceLoad_def deviceSave_def)
    next
      case (Words r s)
      then obtain t where t: "bd_objects d0 n = WordsObject t" using b(2) by (cases "bd_objects d0 n") simp_all
      show ?thesis using loaded [of WordsObject s] st Words t b(1,2) words.load_save [of s t]
        by (simp add: deviceLoad_def deviceSave_def)
    next
      case (Mixed r s)
      then obtain t where t: "bd_objects d0 n = MixedObject t" using b(2) by (cases "bd_objects d0 n") simp_all
      show ?thesis using loaded [of MixedObject s] st Mixed t b(1,2) mixed.load_save [of s t]
        by (simp add: deviceLoad_def deviceSave_def)
    next
      case (Command r s)
      then obtain t where t: "bd_objects d0 n = CommandPortObject t" using b(2) by (cases "bd_objects d0 n") simp_all
      show ?thesis using loaded [of CommandPortObject s] st Command t b(1,2) port.load_save [where s = s and t = t]
        by (simp add: deviceLoad_def deviceSave_def)
    next
      case (Data r)
      then have t: "bd_objects d0 n = DataPortObject r" using b(2) by (cases "bd_objects d0 n") simp_all
      have "Port_LoadState True (Port_SaveState True bank) bank' = Inr bank'" for bank bank'
        by (simp add: Port_LoadState_def Port_SaveState_def portHeader_def slice_def nth_append)
      then show ?thesis using st Data t by (auto simp: stateAt_def deviceLoad_def deviceSave_def)
    next
      case (Vic r s)
      then obtain t where t: "bd_objects d0 n = VicObject t" using b(2) by (cases "bd_objects d0 n") simp_all
      have "Vic_decode (Vic_SaveState s) t = Some s" by (rule Vic_decode_saved) (use Vic t b(1,2) in simp_all)
      then show ?thesis using st Vic t Vic_Load_open [OF b(3), of st t]
        by (auto simp: stateAt_def deviceLoad_def deviceSave_def vicCall_def put_inv)
    qed
  qed
qed

subsection \<open>Saving and restoring a board\<close>

text \<open>The bus whose device regions are bound to the board's objects of their names.\<close>

definition wired :: "(board, deviceError) busRegion list \<Rightarrow> bool" where
  "wired rs \<longleftrightarrow> (\<forall>r \<in> set rs. rg_kind r = regionMMIO \<longrightarrow> rg_device r = Some (deviceAt (rg_name r)))"

definition deviceNames :: "(board, deviceError) busRegion list \<Rightarrow> name set" where
  "deviceNames rs = rg_name ` {r \<in> set rs. rg_kind r = regionMMIO}"

lemma wired_attached: "wired rs \<Longrightarrow> attached stateAt UNIV rs"
  by (auto simp: wired_def attached_def deviceAt_def)


text \<open>
  C10. A restore is all or nothing: whatever bytes are loaded, for the full map or as a subset, if
  the bus answers an error, because the bytes are malformed, a region or count does not match, a
  sparse page is bad or a device refuses its component after others were already restored, then
  every region and every device object is exactly as before.
\<close>

theorem bus_load_rolls_back:
  assumes "bus_ok b" "wired (pb_regions b)" "savable (pb_regions b)" "board_inv plan d"
    and "loadState allowMissing st b d = (Inl err, b', d')"
  shows "b' = b \<and> bd_objects d' = bd_objects d \<and> board_inv plan d'"
  using board.load_rolls_back [OF assms(1) wired_attached [OF assms(2)] assms(3-5)] by (auto simp: fun_eq_iff)

subsection \<open>A register write that interrupts the processor\<close>

text \<open>What a controller holds of a source: its latch and its enable bit.\<close>

definition source_latched :: "u8 \<Rightarrow> QualcommVIC \<Rightarrow> bool" where
  "source_latched source v \<longleftrightarrow> (case Vic_sourceMask source v of None \<Rightarrow> False | Some (bank, m) \<Rightarrow> vic_status v ! bank AND m \<noteq> 0)"

definition source_enabled :: "u8 \<Rightarrow> QualcommVIC \<Rightarrow> bool" where
  "source_enabled source v \<longleftrightarrow> (case Vic_sourceMask source v of None \<Rightarrow> False | Some (bank, m) \<Rightarrow> vic_enable v ! bank AND m \<noteq> 0)"

abbreviation in_service :: "u8 \<Rightarrow> QualcommVIC \<Rightarrow> bool" where
  "in_service source v \<equiv> vic_inServiceValid v \<and> vic_inService v = source"

lemma mask_meets:
  assumes v: "vic_ok v" and m: "Vic_sourceMask s v = Some (bank, m)"
  shows "x AND m \<noteq> 0 \<longleftrightarrow> bit x (unat (Vic_packedSource s v) - (if bank = 1 then unat (vc_Bank0Sources (vic_config v)) else 0))"
    and "Vic_sourceMask s' v = Some (bank, m') \<Longrightarrow> m AND m' \<noteq> 0 \<longleftrightarrow> s' = s"
proof -
  note c = cpu_line.vic_ok_shape [OF v]
  note sm = sourceMask_Some [OF c m]
  let ?off = "if bank = 1 then unat (vc_Bank0Sources (vic_config v)) else 0"
  let ?k = "unat (Vic_packedSource s v) - ?off"
  have off: "?off \<le> unat (Vic_packedSource s v)"
    using sm(5) by (cases "unat (Vic_packedSource s v) < unat (vc_Bank0Sources (vic_config v))") simp_all
  have k: "bit m j \<longleftrightarrow> j = ?k" for j using sm(4) [of j] off by auto
  show meets: "x AND m \<noteq> 0 \<longleftrightarrow> bit x ?k" for x
  proof -
    have "x AND m \<noteq> 0 \<longleftrightarrow> (\<exists>n. bit (x AND m) n)"
      using bit_imp_le_length [of "x AND m"] by (auto simp: bit_eq_iff)
    then show ?thesis unfolding bit_and_iff k by simp
  qed
  assume m': "Vic_sourceMask s' v = Some (bank, m')"
  note sm' = sourceMask_Some [OF c m']
  have "m AND m' \<noteq> 0 \<longleftrightarrow> bit m' ?k" using meets [of m'] by (simp add: and.commute)
  also have "\<dots> \<longleftrightarrow> unat (Vic_packedSource s' v) = unat (Vic_packedSource s v)"
    using sm'(4) [of ?k] off by auto
  also have "\<dots> \<longleftrightarrow> s' = s" using packed_unat(3) [OF c sm(3)] packed_unat(3) [OF c sm'(3)] by (metis word_unat_eq_iff)
  finally show "m AND m' \<noteq> 0 \<longleftrightarrow> s' = s" .
qed

lemma pending_latched: "vic_ok v \<Longrightarrow> source_pending s v \<longleftrightarrow> source_latched s v \<and> source_enabled s v"
proof (cases "Vic_sourceMask s v")
  case (Some p)
  assume v: "vic_ok v"
  obtain bank m where p: "Vic_sourceMask s v = Some (bank, m)" using Some by (cases p) simp
  have "(x AND y) AND m \<noteq> 0 \<longleftrightarrow> x AND m \<noteq> 0 \<and> y AND m \<noteq> 0" for x y
    unfolding mask_meets(1) [OF v p] by (simp add: bit_and_iff)
  then show ?thesis by (simp add: source_pending_def source_latched_def source_enabled_def p and.assoc)
qed (simp add: source_pending_def source_latched_def)

text \<open>
  The board after pulses of a set of sources at controller \<open>m\<close>: only the latches of \<open>m\<close> and the
  processor have changed, and every source of the set is latched unless its handler is running.
\<close>

definition pulsed_board :: "name \<Rightarrow> QualcommVIC \<Rightarrow> u8 set \<Rightarrow> board \<Rightarrow> board \<Rightarrow> bool" where
  "pulsed_board m v S d d' \<longleftrightarrow> (\<exists>v'. bd_objects d' = (bd_objects d)(m := VicObject v') \<and> cpu_line.settled (v', bd_cpu d') \<and>
     v' = v\<lparr>vic_status := vic_status v'\<rparr> \<and>
     (\<forall>s. source_latched s v' \<longleftrightarrow> source_latched s v \<or> s \<in> S \<and> \<not> in_service s v))"

lemma pulsed_none: "bd_objects d m = VicObject v \<Longrightarrow> cpu_line.settled (v, bd_cpu d) \<Longrightarrow> pulsed_board m v {} d d"
  unfolding pulsed_board_def by (intro exI [of _ v]) (simp add: fun_upd_idem)

lemma pulsed_then:
  assumes "pulsed_board m v S d d1"
    and "\<And>v1. bd_objects d1 m = VicObject v1 \<Longrightarrow> cpu_line.settled (v1, bd_cpu d1) \<Longrightarrow> vic_config v1 = vic_config v \<Longrightarrow>
      \<exists>d2. f d1 = (Inr (), d2) \<and> pulsed_board m v1 T d1 d2"
  shows "\<exists>d2. f d1 = (Inr (), d2) \<and> pulsed_board m v (S \<union> T) d d2"
proof -
  obtain v1 where v1: "bd_objects d1 = (bd_objects d)(m := VicObject v1)" "cpu_line.settled (v1, bd_cpu d1)"
    "v1 = v\<lparr>vic_status := vic_status v1\<rparr>" "\<forall>s. source_latched s v1 \<longleftrightarrow> source_latched s v \<or> s \<in> S \<and> \<not> in_service s v"
    using assms(1) unfolding pulsed_board_def by blast
  have fields: "vic_config v1 = vic_config v" "vic_inService v1 = vic_inService v" "vic_inServiceValid v1 = vic_inServiceValid v"
    by (subst v1(3), simp)+
  obtain d2 where d2: "f d1 = (Inr (), d2)" "pulsed_board m v1 T d1 d2"
    using assms(2) [OF _ v1(2) fields(1)] v1(1) by auto
  then obtain v2 where v2: "bd_objects d2 = (bd_objects d1)(m := VicObject v2)" "cpu_line.settled (v2, bd_cpu d2)"
    "v2 = v1\<lparr>vic_status := vic_status v2\<rparr>" "\<forall>s. source_latched s v2 \<longleftrightarrow> source_latched s v1 \<or> s \<in> T \<and> \<not> in_service s v1"
    unfolding pulsed_board_def by blast
  have "v2 = v\<lparr>vic_status := vic_status v2\<rparr>" by (subst v2(3), subst v1(3)) simp
  then have "pulsed_board m v (S \<union> T) d d2"
    using v2(1,2,4) v1(1,4) fields unfolding pulsed_board_def by (intro exI [of _ v2]) auto
  then show ?thesis using d2(1) by blast
qed

lemma pulse_once:
  assumes d: "bd_objects d m = VicObject v" "cpu_line.settled (v, bd_cpu d)" and s: "s < vc_SourceCount (vic_config v)"
  shows "\<exists>d'. pulseController m s d = (Inr (), d') \<and> pulsed_board m v {s} d d'"
proof -
  note v = cpu_line.settledD [OF d(2)]
  obtain bank k where mask: "Vic_sourceMask s v = Some (bank, k)" using sourceMask_total [OF s] by fastforce
  note sm = sourceMask_Some [OF cpu_line.vic_ok_shape [OF v(1)] mask]
  let ?v = "v\<lparr>vic_status := (vic_status v)[bank := vic_status v ! bank OR k]\<rparr>"
  show ?thesis
  proof (cases "in_service s v")
    case True
    then have "pulseController m s d = (Inr (), (putObject m (VicObject v) d)\<lparr>bd_cpu := bd_cpu d\<rparr>)"
      using d(1) by (simp add: pulseController_def vicCall_def Vic_PulseSource_def mask)
    moreover have "(putObject m (VicObject v) d)\<lparr>bd_cpu := bd_cpu d\<rparr> = d" using d(1) by (simp add: putObject_def fun_upd_idem)
    moreover have "pulsed_board m v {s} d d"
      using d True unfolding pulsed_board_def by (intro exI [of _ v]) (auto simp: fun_upd_idem)
    ultimately show ?thesis by simp
  next
    case False
    have ok: "vic_ok ?v" by (rule vic_ok_pulse [OF v(1) sm(1,2)])
    obtain cpu where cpu: "Vic_updateOutput cpuSink ?v (bd_cpu d) = (Inr (), cpu)" "\<not> closed cpu"
      "line_asserted InterruptIRQ cpu \<longleftrightarrow> Vic_asserted ?v"
      using cpu_line.updateOutput_driven [OF v(2), of ?v] unfolding cpuSink_def by blast
    have out: "pulseController m s d = (Inr (), (putObject m (VicObject ?v) d)\<lparr>bd_cpu := cpu\<rparr>)"
      using False d(1) cpu(1) by (auto simp: pulseController_def vicCall_def Vic_PulseSource_def mask Vic_drive_def)
    have masks: "Vic_sourceMask t ?v = Vic_sourceMask t v" for t by (simp add: Vic_sourceMask_def Vic_packedSource_def)
    have "source_latched t ?v \<longleftrightarrow> source_latched t v \<or> t = s" for t
    proof (cases "Vic_sourceMask t v")
      case None
      then have "t \<noteq> s" using mask by auto
      then show ?thesis using None by (simp add: source_latched_def masks)
    next
      case (Some p)
      obtain bank' k' where p: "Vic_sourceMask t v = Some (bank', k')" using Some by (cases p) simp
      have same: "Vic_sourceMask t ?v = Some (bank', k')" using p by (simp add: masks)
      show ?thesis
      proof (cases "bank' = bank")
        case True
        have "(x OR k) AND k' \<noteq> 0 \<longleftrightarrow> x AND k' \<noteq> 0 \<or> k AND k' \<noteq> 0" for x
          unfolding mask_meets(1) [OF v(1) p] by (simp add: bit_or_iff)
        then show ?thesis
          using mask_meets(2) [OF v(1) mask, of t k'] p True sm(1) v(1)
          by (simp add: source_latched_def same p vic_ok_def)
      next
        case False
        then have "t \<noteq> s" using p mask by auto
        then show ?thesis using False by (simp add: source_latched_def same p)
      qed
    qed
    then have "pulsed_board m v {s} d ((putObject m (VicObject ?v) d)\<lparr>bd_cpu := cpu\<rparr>)"
      using ok cpu False unfolding pulsed_board_def
      by (intro exI [of _ ?v]) (auto simp: putObject_def cpu_line.settled_def)
    then show ?thesis using out by blast
  qed
qed

lemma pulseSources_board:
  assumes "bd_objects d m = VicObject v" "cpu_line.settled (v, bd_cpu d)" "\<forall>s \<in> set ss. s < vc_SourceCount (vic_config v)"
  shows "\<exists>d'. pulseSources pulseController m ss d = (Inr (), d') \<and> pulsed_board m v (set ss) d d'"
  using assms
proof (induction ss arbitrary: d v)
  case Nil
  then show ?case using pulsed_none by simp
next
  case (Cons s ss)
  obtain d1 where d1: "pulseController m s d = (Inr (), d1)" "pulsed_board m v {s} d d1"
    using pulse_once [OF Cons.prems(1,2)] Cons.prems(3) by auto
  have "\<exists>d2. pulseSources pulseController m ss d1 = (Inr (), d2) \<and> pulsed_board m v ({s} \<union> set ss) d d2"
    by (rule pulsed_then [OF d1(2)]) (use Cons.IH Cons.prems(3) in auto)
  then show ?case using d1(1) by simp
qed

text \<open>The sources that the rules matching a value pulse.\<close>

definition rule_matches :: "u32 \<Rightarrow> latchedRegisterWritePulse \<Rightarrow> bool" where
  "rule_matches x rule \<longleftrightarrow> x AND lp_mask rule = lp_value rule"

definition pulsedSources :: "u32 \<Rightarrow> latchedRegisterWritePulse list \<Rightarrow> u8 set" where
  "pulsedSources x rules = \<Union> (set ` lp_sources ` {rule \<in> set rules. rule_matches x rule})"

lemma firePulses_board:
  assumes "bd_objects d m = VicObject v" "cpu_line.settled (v, bd_cpu d)"
    "\<forall>rule \<in> set rules. rule_matches x rule \<longrightarrow> lp_pulser rule = m" "\<forall>s \<in> pulsedSources x rules. s < vc_SourceCount (vic_config v)"
  shows "\<exists>d'. firePulses pulseController x rules d = (Inr (), d') \<and> pulsed_board m v (pulsedSources x rules) d d'"
  using assms
proof (induction rules arbitrary: d v)
  case Nil
  then show ?case using pulsed_none by (simp add: pulsedSources_def)
next
  case (Cons rule rules)
  show ?case
  proof (cases "rule_matches x rule")
    case True
    then have split: "pulsedSources x (rule # rules) = set (lp_sources rule) \<union> pulsedSources x rules"
      by (auto simp: pulsedSources_def)
    obtain d1 where d1: "pulseSources pulseController m (lp_sources rule) d = (Inr (), d1)" "pulsed_board m v (set (lp_sources rule)) d d1"
      using pulseSources_board [OF Cons.prems(1,2)] Cons.prems(4) unfolding split by blast
    have "\<exists>d2. firePulses pulseController x rules d1 = (Inr (), d2) \<and>
        pulsed_board m v (set (lp_sources rule) \<union> pulsedSources x rules) d d2"
      by (rule pulsed_then [OF d1(2)]) (use Cons.IH Cons.prems(3,4) split in auto)
    then show ?thesis using d1(1) True Cons.prems(3) unfolding split by (simp add: rule_matches_def)
  next
    case False
    then have "pulsedSources x (rule # rules) = pulsedSources x rules" by (auto simp: pulsedSources_def)
    then show ?thesis using Cons.IH [OF Cons.prems(1,2)] Cons.prems(3,4) False by (simp add: rule_matches_def)
  qed
qed

text \<open>
  C15. A store of the guest through the bus interrupts it.  On a bus without an observer whose
  device regions are bound to the board's objects, let a permitted, aligned write of one of the
  three widths reach offset 0 of a latched register of that width, with a value the register can
  hold; let the pulse rules that match the value, whatever their number and that of their sources,
  all name one controller, well formed, whose line is driven as it should be, on an open processor,
  and that has all the sources they list.  Then the write succeeds, the register holds the value,
  and of the controller exactly the latches of the pulsed sources change: each is now latched,
  except the one whose vector is in service, for which a pulse is ignored.  Afterwards the
  processor's IRQ line is asserted exactly when no vector is in service and some source is latched
  and enabled; so it is asserted whenever no vector is in service and a pulsed source is enabled.
\<close>

theorem bus_write_raises_irq:
  assumes b: "bus_ok b" "\<not> pb_observed b" "wired (pb_regions b)"
    and t: "target address (length bytes) PermissionWrite b = Inr (w, i, 0)" "rg_kind (pb_regions b ! i) = regionMMIO"
    and r: "bd_objects d (rg_name (pb_regions b ! i)) = LatchedObject r" "lr_width r = w" "\<not> exceedsWidth w (valueOf_bytes bytes)"
    and rules: "\<forall>rule \<in> set (lr_pulseRules r). rule_matches (valueOf_bytes bytes) rule \<longrightarrow> lp_pulser rule = m"
    and v: "bd_objects d m = VicObject v" "vic_ok v" "\<not> closed (bd_cpu d)" "line_asserted InterruptIRQ (bd_cpu d) \<longleftrightarrow> Vic_asserted v"
    and has: "\<forall>s \<in> pulsedSources (valueOf_bytes bytes) (lr_pulseRules r). s < vc_SourceCount (vic_config v)"
    and run: "WriteContext access address bytes PermissionWrite b d = (res, b', d')"
  shows "res = Inr () \<and> bd_objects d' (rg_name (pb_regions b ! i)) = LatchedObject (r\<lparr>lr_value := valueOf_bytes bytes\<rparr>) \<and>
    (\<exists>v'. bd_objects d' m = VicObject v' \<and> vic_ok v' \<and> v' = v\<lparr>vic_status := vic_status v'\<rparr> \<and>
      (\<forall>s. source_latched s v' \<longleftrightarrow>
        source_latched s v \<or> s \<in> pulsedSources (valueOf_bytes bytes) (lr_pulseRules r) \<and> \<not> in_service s v) \<and>
      (line_asserted InterruptIRQ (bd_cpu d') \<longleftrightarrow> \<not> vic_inServiceValid v \<and> (\<exists>s. source_latched s v' \<and> source_enabled s v))) \<and>
    (\<forall>s \<in> pulsedSources (valueOf_bytes bytes) (lr_pulseRules r). source_enabled s v \<and> \<not> vic_inServiceValid v \<longrightarrow>
      line_asserted InterruptIRQ (bd_cpu d'))"
proof -
  let ?n = "rg_name (pb_regions b ! i)" and ?v = "valueOf_bytes bytes"
  have "pb_regions b ! i \<in> set (pb_regions b)" using target_Inr(3) [OF b(1) t(1)] by simp
  then have dev: "rg_device (pb_regions b ! i) = Some (deviceAt ?n)" using b(3) t(2) by (simp add: wired_def)
  have "cpu_line.settled (v, bd_cpu d)" using v by (simp add: cpu_line.settled_def)
  from firePulses_board [OF v(1) this rules has] obtain d1 where
    d1: "firePulses pulseController ?v (lr_pulseRules r) d = (Inr (), d1)" "pulsed_board m v (pulsedSources ?v (lr_pulseRules r)) d d1"
    by blast
  have "deviceWrite ?n 0 w ?v d = (Inr (), putObject ?n (LatchedObject (r\<lparr>lr_value := ?v\<rparr>)) d1)"
    using r d1(1) by (simp add: deviceWrite_def Latched_Write_def Let_def)
  then have out: "(res, d') = (Inr (), putObject ?n (LatchedObject (r\<lparr>lr_value := ?v\<rparr>)) d1)"
    using WriteContext_spec [OF b(1), of access address bytes PermissionWrite d] b(2) run t dev by (simp add: deviceAt_def)
  have other: "?n \<noteq> m" using r(1) v(1) by auto
  obtain v' where v': "bd_objects d1 = (bd_objects d)(m := VicObject v')" "cpu_line.settled (v', bd_cpu d1)"
    "v' = v\<lparr>vic_status := vic_status v'\<rparr>"
    "\<forall>s. source_latched s v' \<longleftrightarrow> source_latched s v \<or> s \<in> pulsedSources ?v (lr_pulseRules r) \<and> \<not> in_service s v"
    using d1(2) unfolding pulsed_board_def by blast
  have kept: "source_enabled s v' \<longleftrightarrow> source_enabled s v" "vic_inServiceValid v' \<longleftrightarrow> vic_inServiceValid v" for s
  proof -
    obtain st where st: "v' = v\<lparr>vic_status := st\<rparr>" using v'(3) by blast
    have "Vic_sourceMask s v' = Vic_sourceMask s v" by (simp add: st Vic_sourceMask_def Vic_packedSource_def)
    then show "source_enabled s v' \<longleftrightarrow> source_enabled s v" "vic_inServiceValid v' \<longleftrightarrow> vic_inServiceValid v"
      by (simp_all add: source_enabled_def st split: option.split)
  qed
  note ok = cpu_line.settledD [OF v'(2)]
  have line: "line_asserted InterruptIRQ (bd_cpu d1) \<longleftrightarrow> \<not> vic_inServiceValid v \<and> (\<exists>s. source_latched s v' \<and> source_enabled s v)"
    using ok(3) asserted_claimable [OF ok(1)] pending_latched [OF ok(1)] kept by simp
  have irq: "line_asserted InterruptIRQ (bd_cpu d1)"
    if "s \<in> pulsedSources ?v (lr_pulseRules r)" "source_enabled s v \<and> \<not> vic_inServiceValid v" for s
    using that v'(4) unfolding line by blast
  show ?thesis using out other v' ok(1) line irq by (auto simp: putObject_def)
qed

subsection \<open>A sample board\<close>

text \<open>
  The small bus with a latched register at 0x2000, whose bit 0 pulses source 2 of a controller that
  is not itself on the bus.
\<close>

definition sampleLatched :: LatchedRegister where
  "sampleLatched = \<lparr>lr_width = 4, lr_resetValue = 0, lr_value = 0,
     lr_pulseRules = [\<lparr>lp_mask = 1, lp_value = 1, lp_sources = [2], lp_pulser = [0x76]\<rparr>]\<rparr>"

definition samplePlan :: "name \<Rightarrow> object" where
  "samplePlan n = (if n = [0x76] then VicObject (sampleVic 0) else if n = [0x72] then LatchedObject sampleLatched
     else ReadOnlyObject \<lparr>ror_width = 1, ror_value = 0\<rparr>)"

definition sampleBoard :: board where
  "sampleBoard = \<lparr>bd_objects = samplePlan, bd_cpu = New False\<rparr>"

definition sampleBoardBus :: "(board, deviceError) Bus" where
  "sampleBoardBus = fst (snd (MapMMIO [0x72] 0x2000 4 (Some (deviceAt [0x72])) smallBus sampleBoard))"

lemma sampleBus_ok: "bus_ok sampleBoardBus"
  by (simp add: sampleBoardBus_def mapping_ok smallBus_ok)

lemma sampleBus_regions:
  "pb_regions sampleBoardBus = pb_regions smallBus @
     [(blankRegion [0x72] 0x2000 4 (PermissionRead OR PermissionWrite) regionMMIO)\<lparr>rg_device := Some (deviceAt [0x72])\<rparr>]"
  "pb_observed sampleBoardBus = False"
proof -
  have n: "\<not> TrimSpaceEmpty [0x72]" by (simp add: isSpace_def)
  show "pb_regions sampleBoardBus = pb_regions smallBus @
     [(blankRegion [0x72] 0x2000 4 (PermissionRead OR PermissionWrite) regionMMIO)\<lparr>rg_device := Some (deviceAt [0x72])\<rparr>]"
    "pb_observed sampleBoardBus = False"
    by (simp_all add: sampleBoardBus_def MapMMIO_def mapRegion_def Let_def smallBus_regions n hasNUL_def blankRegion_def rg_end_def
        del: TrimSpaceEmpty.simps)
qed

lemma sampleBus_quiet: "\<not> pb_observed sampleBoardBus"
  by (simp add: sampleBus_regions)

lemma sampleBus_props: "wired (pb_regions sampleBoardBus)" "savable (pb_regions sampleBoardBus)"
  by (auto simp: wired_def savable_def sampleBus_regions smallBus_regions blankRegion_def)

lemma sampleVic_ok: "vic_ok (sampleVic 0)"
  using sample_shape by (auto simp: vic_ok_def sampleVic_def within_def Vic_validMask_def bankMask_def sampleVicConfig_def less_2_cases_iff)

lemma sampleBoard_inv:
  "board_inv samplePlan sampleBoard"
  "board_inv samplePlan (putObject [0x72] (LatchedObject (sampleLatched\<lparr>lr_value := 7\<rparr>)) sampleBoard)"
proof -
  have "built (samplePlan n) (samplePlan n)" for n
    using sampleVic_ok by (simp add: samplePlan_def sampleLatched_def Latched_ok_def ReadOnly_ok_def Width_valid_def width_defs exceedsWidth_def)
  then show inv: "board_inv samplePlan sampleBoard" using open_New by (simp add: board_inv_def sampleBoard_def)
  have "built (samplePlan [0x72]) (LatchedObject (sampleLatched\<lparr>lr_value := 7\<rparr>))"
    by (simp add: samplePlan_def sampleLatched_def Latched_ok_def Width_valid_def width_defs exceedsWidth_def)
  from put_inv(1) [OF inv this]
  show "board_inv samplePlan (putObject [0x72] (LatchedObject (sampleLatched\<lparr>lr_value := 7\<rparr>)) sampleBoard)" .
qed


theorem bus_load_rolls_back_witness:
  "fst (loadState False [] sampleBoardBus sampleBoard) = Inl ErrInvalidState \<and>
    fst (snd (loadState False [] sampleBoardBus sampleBoard)) = sampleBoardBus"
proof -
  have "parseState False (pb_regions sampleBoardBus) [] = None" by (simp add: parseState_def takeBytes_def)
  then obtain b' d' where r: "loadState False [] sampleBoardBus sampleBoard = (Inl ErrInvalidState, b', d')"
    by (simp add: loadState_def)
  from bus_load_rolls_back [OF sampleBus_ok sampleBus_props sampleBoard_inv(1) r] r show ?thesis by simp
qed

theorem bus_write_raises_irq_witness:
  "line_asserted InterruptIRQ (bd_cpu (snd (snd (WriteContext noContext 0x2000 [1, 0, 0, 0] PermissionWrite sampleBoardBus sampleBoard))))"
proof -
  have t: "target 0x2000 (length [1, 0, 0, 0 :: u8]) PermissionWrite sampleBoardBus = Inr (4, 2, 0)"
    by (simp add: target_def region_index_def sampleBus_regions smallBus_regions in_region_def rg_end_def blankRegion_def
        PermissionRead_def PermissionWrite_def PermissionExecute_def)
  have k: "rg_kind (pb_regions sampleBoardBus ! 2) = regionMMIO" "rg_name (pb_regions sampleBoardBus ! 2) = [0x72]"
    by (simp_all add: sampleBus_regions smallBus_regions blankRegion_def)
  have v: "valueOf_bytes [1, 0, 0, 0] = 1" by (simp add: valueOf_bytes_def Uint32_def)
  have r: "bd_objects sampleBoard (rg_name (pb_regions sampleBoardBus ! 2)) = LatchedObject sampleLatched" "lr_width sampleLatched = 4"
      "\<not> exceedsWidth 4 (valueOf_bytes [1, 0, 0, 0])"
    by (simp_all add: k sampleBoard_def samplePlan_def sampleLatched_def exceedsWidth_def width_defs)
  have c: "bd_objects sampleBoard [0x76] = VicObject (sampleVic 0)" "\<not> closed (bd_cpu sampleBoard)" "\<not> vic_inServiceValid (sampleVic 0)"
      "source_enabled 2 (sampleVic 0)" "vc_SourceCount (vic_config (sampleVic 0)) = 49"
      "line_asserted InterruptIRQ (bd_cpu sampleBoard) \<longleftrightarrow> Vic_asserted (sampleVic 0)"
    using open_New by (simp_all add: sampleBoard_def samplePlan_def)
      (simp_all add: sampleVic_def sampleVicConfig_def source_enabled_def Vic_sourceMask_def Vic_packedSource_def Vic_asserted_def
        line_asserted_def New_def NewWithMemoryLimit_def)
  have p: "pulsedSources 1 (lr_pulseRules sampleLatched) = {2}"
      "\<forall>rule \<in> set (lr_pulseRules sampleLatched). rule_matches 1 rule \<longrightarrow> lp_pulser rule = [0x76]"
    by (auto simp: pulsedSources_def rule_matches_def sampleLatched_def)
  obtain res b' d' where run: "WriteContext noContext 0x2000 [1, 0, 0, 0] PermissionWrite sampleBoardBus sampleBoard = (res, b', d')"
    by (metis prod_cases3)
  have "line_asserted InterruptIRQ (bd_cpu d')"
    using bus_write_raises_irq [OF sampleBus_ok sampleBus_quiet sampleBus_props(1) t k(1),
        where d = sampleBoard and r = sampleLatched and m = "[0x76]" and v = "sampleVic 0"
        and access = noContext and res = res and b' = b' and d' = d'] r c sampleVic_ok run v p
    by simp
  then show ?thesis by (simp add: run)
qed

end
