(* ===== verification/Spec2Isabelle.thy ===== *)
theory Spec2Isabelle
  imports Cpu_Saved_State Guest_State Runtime_Timers Runtime_Random Runtime_Clock Runtime_Geometry
    Ime_Automata Loader_Eads Cheat_Codes System_Board
begin

text \<open>
  aram-core: a verification library for the portable core of the emulator.

  aram-core emulates feature phones of several vendors.  A precise interpreter of the ARMv5
  instruction set (\<open>src/cpu/interpreter\<close>) implements the CPU contract of \<open>src/cpu\<close>.  The
  application platforms (\<open>src/application\<close>) load a title, map its memory through the contract,
  run it and answer its platform calls from the services of \<open>src/runtime\<close>: handles, events,
  timers, a virtual clock and random numbers, all of them deterministic and all of them saved
  and restored with the machine.  Text entry goes through \<open>src/internal/ime\<close>, images come from
  the loaders of \<open>src/loader\<close>, and a host can search and patch guest memory with \<open>src/cheat\<close>.
  Whole handsets run on the same processor over the physical bus and the devices of
  \<open>src/system\<close>.

  \<^bold>\<open>The processor.\<close>
  \<open>Cpu_Contract\<close> has the types of src/cpu/backend.go: permissions, modes, stop reasons, errors.
  \<open>Cpu_State\<close> has the record \<open>backend\<close>, the fields of \<open>Backend\<close> in interpreter/backend.go
  without the fields of the translating tiers; a private mapping is a list of regions that
  carry their bytes, an attached bus is a parameter \<open>bus\<close> of type \<open>'s bus\<close> with its state in the
  record.  Every operation takes the state and returns it; an error is the left side of a sum.
  \<open>Cpu_Flags\<close> is the arithmetic of arm.go (deferred flags, shifter, adder), \<open>Cpu_Privileged\<close>
  is privileged.go and exception.go (banks, status writes, exception entry, interrupts).
  \<open>Cpu_Memory\<close> is the memory of backend.go and memory.go: \<open>Map_op\<close>, \<open>findRegion\<close> and the bulk
  copies; \<open>Cpu_Mmu\<close> is mmu.go and instruction_cache.go; \<open>Cpu_Access\<close> the scalar accesses and
  their fast paths; \<open>Cpu_Guest_Memory\<close> the host's \<open>ReadMemory\<close> and \<open>WriteMemory\<close>.
  \<open>Cpu_Thumb\<close>, \<open>Cpu_Cp15\<close> and \<open>Cpu_Arm\<close> are the two instruction sets, one definition per
  case of the source's switch, and their batch loops; \<open>Cpu_Run\<close> is \<open>Run\<close> with its traps,
  histories and polls.  \<open>Cpu_Context\<close> and \<open>Cpu_Host_Call\<close> are the saved contexts and the frames
  of host calls.  The loops of the interpreter take fuel; \<open>Run\<close> is run with fuel
  \<open>2 * budget + 1\<close> of rounds, which \<open>Cpu_Instructions.Run_returns\<close> shows to be enough for the
  configurations it names, because a round consumes budget or counts an exception entry.
  The lemmas come in four groups.  \<open>Cpu_Machine\<close> proves the invariant of reachable machines
  over every operation of the contract.  \<open>Cpu_Isolation\<close> proves that application code in User
  mode stays in its mappings.  \<open>Cpu_Access\<close> and \<open>Cpu_Memory\<close> refine accesses and copies to an
  abstract memory: a partial map from addresses to bytes and permissions.  \<open>Cpu_Saved_State\<close>,
  \<open>Cpu_Frame\<close> and \<open>Cpu_Context\<close> prove the round trips of saved states; \<open>Cpu_Saved_State\<close> has
  the saved byte format as a grammar (\<open>contextGrammar\<close>, \<open>contextImage\<close>), independent of the decoder,
  and shows that \<open>RestoreContext\<close> takes exactly its images.
  Two simplifications concern \<open>Run\<close>.  The interrupt lines are constant while it runs:
  \<open>SetInterruptLine\<close> (backend.go, lines 577 to 602) takes no lock, so in the source a device can
  drive a line while the core executes; here a line changes only between runs, and what the host's
  poll answers is an argument.  \<open>Mode\<close> has the two valid instruction sets only, so the
  mode check of \<open>ExecutionTrap.Valid\<close> has no counterpart; a saved mode word, which comes from outside,
  is checked by \<open>readMode\<close>.

  \<^bold>\<open>The platform services.\<close>
  \<open>Guest_Heap\<close> is guest/heap.go over the processor's \<open>WriteMemory\<close>; \<open>Guest_State\<close> is the state
  file code of guest/heap_state.go and guest/state_io.go.  \<open>Runtime_Registry\<close> is registry.go:
  slots, generations, owners and counts, the maps of the source as partial functions with finite
  domain.  \<open>Runtime_Events\<close> is events.go and \<open>Runtime_Timers\<close> is timers.go over both.
  \<open>Runtime_Random\<close> is random.go and \<open>Runtime_Clock\<close> clock.go; \<open>Runtime_Geometry\<close> the rectangles
  and colours of types.go.  Each service has an invariant that its operations keep, stated for
  whole scripts of operations through the locale \<open>scripted\<close> of \<open>Service_Prelude\<close>, and a snapshot
  round trip.  The scripts of the registry contain its restores, which may bring identifiers back;
  \<open>forgets\<close> and \<open>revives\<close> say which do.  The rejection loop of \<open>Intn\<close> is a terminating function: every round spends one of
  the \<open>2^64 - 1\<close> draws of the stream.

  \<^bold>\<open>Input, loading, cheats.\<close>
  \<open>Ime_Automata\<close> is automata.go and hangul.go; a table index out of range, which panics in Go,
  is \<open>None\<close>.  Its theorems say that no sequence of keys changes committed text or panics, and
  which syllables can be typed.  \<open>Loader_Eads\<close> is eads.go over byte lists; \<open>inspectLoop\<close> is a
  partial function, total for inputs below 4 GiB.  \<open>Cheat_Values\<close> is the typed scalars of
  cheat/types.go and their comparison in cheat/scanner.go; \<open>Cheat_Engine\<close> is cheat/engine.go
  (regions, codes, freezing) over a machine memory that is a parameter, the locale
  \<open>cheat_memory\<close>, interpreted as \<open>guest_cheats\<close> on the processor's \<open>ReadMemory\<close> and \<open>WriteMemory\<close>;
  \<open>Cheat_Scan\<close> is the scan sessions of cheat/scanner.go with their bitmaps.  \<open>Cheat_Codes\<close>
  shows that any script of cheats stays in the writable regions, that a code is reversible,
  and that a session is a filtered list of candidates (\<open>specStart\<close>, \<open>specRefine\<close>).

  \<^bold>\<open>The physical bus and its devices.\<close>
  \<open>System_Bus\<close> is system/bus.go: regions of RAM, ROM, sparse RAM and devices, sorted by address
  and found by binary search or from the region of the last access, which is kept as its index;
  \<open>System_Sparse\<close> is the paged store of sparse_ram.go.  A device is a record of its operations
  over a world \<open>'d\<close>, the state of all devices and of the observers, which every access threads
  through; the slice of a direct region is modelled by its bytes, and the value a device answers
  next to an error is 0.  The recursions of the host's copies take no fuel: each round copies at
  least one byte.  \<open>System_Memory\<close> has the invariant \<open>bus_ok\<close> and the abstract memory of a bus,
  which \<open>System_Accesses\<close> shows accesses, host copies and blocks to implement;
  \<open>System_Snapshots\<close> keeps the invariant over scripts of every operation and proves, in the locale
  \<open>stateful_devices\<close>, that a saved bus comes back and that a failed load rolls back.
  \<open>System_Registers\<close> has the register devices of src/system with the locale \<open>stored_device\<close> for
  their saved states, and \<open>System_Vic\<close> the vectored interrupt controller of qualcomm_vic.go over
  the locale \<open>interrupt_sink\<close>, which the processor's \<open>SetInterruptLine\<close> interprets: the line says
  exactly whether an enabled source waits, and a claim answers the first in the packed order.
  \<open>System_Board\<close> puts it together: latched_register.go, a heap of device objects by name in which
  the device of region \<open>n\<close> is object \<open>n\<close>, and a processor.  The bank of indexed registers lives
  at its command port.  The bus theorems about devices hold for every such board, and a write
  of the guest to a latched register latches exactly the sources its matching rules pulse and drives
  the interrupt line accordingly.

  \<^bold>\<open>Conventions.\<close>
  Go's sized unsigned integers are words; \<open>int\<close>, \<open>int32\<close> and \<open>int64\<close> are integers with their
  ranges as part of the invariants and with the wrap-around written out where the source relies
  on it.  Strings are lists of characters, one per byte.  Maps are partial functions; where
  the order of iteration of a Go map matters it is an argument.  Locks are not modelled: each
  operation but \<open>SetInterruptLine\<close> holds its lock throughout, so operations are atomic steps.

  \<^bold>\<open>Not modelled.\<close>
  The threaded-code and native translators (jit.go, arm_jit.go, native_jit.go, native_tlb.go)
  produce host code and closures whose reference is the interpreter.  The platform runtimes
  (ktf, wipi, raptor, brewrt, skvm, gvm, gnex32) are interfaces of several hundred host calls
  each over codecs, archives and device drivers.  The other devices of src/system (flash, panels,
  keypads, clocks, coprocessors) have register maps recorded from particular handsets;
  src/systemmachine assembles boards and boots them from firmware files.  A latched register may
  pulse any interrupt controller; only the vectored one is modelled.  Codecs, fonts, network and
  storage call the standard library or the host.  Of the cheat package the code catalogs and their
  JSON files, and the machine wrapper beyond \<open>runMachineLocked\<close>, are left out.  Tools, tests and
  conformance harnesses have no logic of their own to verify.
\<close>

end
